(* ===== verification/Prelude.thy ===== *)
theory Prelude
  imports Main "HOL-Library.Word"
begin

text \<open>
  Shared vocabulary of the development: the status codes of the C library, the outcome of an
  operation that allocates, and the rules that let the component proofs reason about such
  operations without unfolding them.

  An operation of the library runs against an environment that decides, allocation by
  allocation, whether memory is available. The environment is a predicate on a counter of the requests made so far; \<open>d7_hamt_allocate\<close> in \<open>hamt.c\<close> consults \<open>malloc\<close> in the same way, and its
  test hook \<open>d7_hamt_test_fail_allocations_after n\<close> is the environment \<open>\<lambda>i. i < n\<close>. A successful
  request returns the current counter as the address of the new block, so addresses of
  distinct live blocks differ and comparing addresses models comparing C pointers.
\<close>

unbundle bit_operations_syntax

named_theorems act_simps \<open>unfolding of the allocation monad on concrete runs\<close>
named_theorems act_intros \<open>introduction rules for the triple achieves\<close>

section \<open>Status codes and failures\<close>

datatype d7_hamt_status =
    D7_HAMT_OK
  | D7_HAMT_OUT_OF_MEMORY
  | D7_HAMT_DUPLICATE_KEY
  | D7_HAMT_INVALID_ARGUMENT
  | D7_HAMT_TRANSIENT_CONSUMED
  | D7_HAMT_TRANSIENT_MODIFIED
  | D7_HAMT_OVERFLOW
  | D7_HAMT_DUPLICATE_VALUE

text \<open>
  A run that does not produce a result either returns a status other than \<open>D7_HAMT_OK\<close> or does
  something C leaves undefined (\<open>Fault\<close>: a read outside an array, a cast of a node to the wrong
  kind). Showing that \<open>Fault\<close> never arises is part of the correctness of every component.
\<close>

datatype failure = Status d7_hamt_status | Fault

type_synonym u32 = "32 word"
type_synonym addr = nat
type_synonym environment = "nat \<Rightarrow> bool"
type_synonym 'a act = "environment \<Rightarrow> nat \<Rightarrow> (failure + 'a) \<times> nat"

text \<open>The largest value of \<open>size_t\<close>.\<close>

definition SIZE_MAX :: nat where
  "SIZE_MAX = 2 ^ 64 - 1"

section \<open>Operations that allocate\<close>

definition ret :: "'a \<Rightarrow> 'a act" where
  "ret x = (\<lambda>E t. (Inr x, t))"

definition fail :: "failure \<Rightarrow> 'a act" where
  "fail e = (\<lambda>E t. (Inl e, t))"

definition andthen :: "'a act \<Rightarrow> ('a \<Rightarrow> 'b act) \<Rightarrow> 'b act" where
  "andthen f g = (\<lambda>E t. case f E t of (Inl e, t') \<Rightarrow> (Inl e, t') | (Inr x, t') \<Rightarrow> g x E t')"

definition lift_res :: "failure + 'a \<Rightarrow> 'a act" where
  "lift_res r = (\<lambda>E t. (r, t))"

definition d7_hamt_allocate :: "addr act" where
  "d7_hamt_allocate = (\<lambda>E t.
     (if E t then Inr t else Inl (Status D7_HAMT_OUT_OF_MEMORY), Suc t))"

text \<open>A callback that may report failure by returning a null pointer for a non-null argument.\<close>

definition callback_or_oom :: "(nat \<Rightarrow> 'a option) \<Rightarrow> 'a act" where
  "callback_or_oom f = (\<lambda>E t.
     (case f t of None \<Rightarrow> Inl (Status D7_HAMT_OUT_OF_MEMORY) | Some x \<Rightarrow> Inr x, Suc t))"

fun map_act :: "('a \<Rightarrow> 'b act) \<Rightarrow> 'a list \<Rightarrow> 'b list act" where
  "map_act f [] = ret []"
| "map_act f (x # xs) = andthen (f x) (\<lambda>y. andthen (map_act f xs) (\<lambda>ys. ret (y # ys)))"

fun fold_act :: "('b \<Rightarrow> 'a \<Rightarrow> 'b act) \<Rightarrow> 'b \<Rightarrow> 'a list \<Rightarrow> 'b act" where
  "fold_act f b [] = ret b"
| "fold_act f b (x # xs) = andthen (f b x) (\<lambda>b'. fold_act f b' xs)"

text \<open>A loop that gives up at the first element its body rejects.\<close>

fun fold_option :: "('s \<Rightarrow> 'a \<Rightarrow> 's option) \<Rightarrow> 's \<Rightarrow> 'a list \<Rightarrow> 's option" where
  "fold_option f s [] = Some s"
| "fold_option f s (x # xs) = (case f s x of None \<Rightarrow> None | Some s' \<Rightarrow> fold_option f s' xs)"

lemma fold_option_cong [fundef_cong]:
  assumes "s = s'" and "xs = ys" and "\<And>x a. x \<in> set ys \<Longrightarrow> f a x = g a x"
  shows "fold_option f s xs = fold_option g s' ys"
  using assms
proof (induction ys arbitrary: xs s s')
  case (Cons y ys)
  have "fold_option f b ys = fold_option g b ys" for b using Cons.prems by (intro Cons.IH) auto
  then show ?case using Cons.prems by (simp split: option.split)
qed simp

lemma fold_option_append:
  "fold_option f s (xs @ ys) = (case fold_option f s xs of None \<Rightarrow> None | Some s' \<Rightarrow> fold_option f s' ys)"
  by (induction xs arbitrary: s) (auto split: option.split)

declare ret_def [act_simps] fail_def [act_simps] andthen_def [act_simps] lift_res_def [act_simps]
  d7_hamt_allocate_def [act_simps] callback_or_oom_def [act_simps]

lemma andthen_cong [fundef_cong]:
  assumes "f = f'" and "\<And>x E t t'. f' E t = (Inr x, t') \<Longrightarrow> g x = g' x"
  shows "andthen f g = andthen f' g'"
  using assms by (auto simp: andthen_def fun_eq_iff split: prod.split sum.split)

lemma andthen_assoc: "andthen (andthen f g) h = andthen f (\<lambda>x. andthen (g x) h)"
  by (auto simp: andthen_def fun_eq_iff split: prod.split sum.split)

lemma andthen_ret: "andthen (ret x) g = g x"
  by (simp add: andthen_def ret_def)

lemma lift_Inr [simp]: "andthen (lift_res (Inr x)) g = g x"
  by (simp add: fun_eq_iff andthen_def lift_res_def)

lemma map_act_cong [fundef_cong]:
  assumes "xs = ys" and "\<And>x. x \<in> set ys \<Longrightarrow> f x = g x"
  shows "map_act f xs = map_act g ys"
  using assms
proof (induction ys arbitrary: xs)
  case Nil
  then show ?case by simp
next
  case (Cons y ys)
  then show ?case by simp
qed

lemma fold_act_cong [fundef_cong]:
  assumes "b = c" and "xs = ys" and "\<And>x a. x \<in> set ys \<Longrightarrow> f a x = g a x"
  shows "fold_act f b xs = fold_act g c ys"
  using assms
proof (induction ys arbitrary: xs b c)
  case Nil
  then show ?case by simp
next
  case (Cons y ys)
  have "f c y = g c y" using Cons.prems by simp
  moreover have "\<And>b'. fold_act f b' ys = fold_act g b' ys"
    using Cons.prems by (intro Cons.IH) auto
  ultimately show ?case using Cons.prems by simp
qed

section \<open>The triple\<close>

text \<open>
  \<open>achieves E B t f Q\<close>: started at time \<open>t\<close>, the operation either succeeds with a result and an end
  time related by \<open>Q\<close>, or reports exhaustion of memory, and then one of the requests it made was
  at a time the set \<open>B\<close> marks as failing. It excludes \<open>Fault\<close> and every other status.
\<close>

definition oom :: "nat set \<Rightarrow> nat \<Rightarrow> failure \<Rightarrow> nat \<Rightarrow> bool" where
  "oom B t e t' \<longleftrightarrow> e = Status D7_HAMT_OUT_OF_MEMORY \<and> (\<exists>i\<in>B. t \<le> i \<and> i < t')"

definition achieves :: "environment \<Rightarrow> nat set \<Rightarrow> nat \<Rightarrow> 'a act \<Rightarrow> ('a \<Rightarrow> nat \<Rightarrow> bool) \<Rightarrow> bool" where
  "achieves E B t f Q \<longleftrightarrow>
     (case f E t of (Inl e, t') \<Rightarrow> t \<le> t' \<and> oom B t e t' | (Inr x, t') \<Rightarrow> t \<le> t' \<and> Q x t')"

lemma achieves_ret [act_intros]: "Q x t \<Longrightarrow> achieves E B t (ret x) Q"
  by (simp add: achieves_def ret_def)

text \<open>
  \<open>reports c s E B t f Q\<close> is the triple \<open>achieves\<close> with one more way to fail: where the condition \<open>c\<close> holds, the operation
  may report the status \<open>s\<close>.
\<close>

definition reports :: "bool \<Rightarrow> d7_hamt_status \<Rightarrow> environment \<Rightarrow> nat set \<Rightarrow> nat \<Rightarrow> 'a act \<Rightarrow> ('a \<Rightarrow> nat \<Rightarrow> bool) \<Rightarrow> bool" where
  "reports c s E B t f Q \<longleftrightarrow>
     (case f E t of
        (Inl e, t') \<Rightarrow> t \<le> t' \<and> (oom B t e t' \<or> c \<and> e = Status s)
      | (Inr x, t') \<Rightarrow> t \<le> t' \<and> Q x t')"

lemma reports_achieves: "reports False s E B t f Q = achieves E B t f Q"
  by (simp add: reports_def achieves_def split: prod.split sum.split)

lemma achieves_reports: "achieves E B t f Q \<Longrightarrow> reports c s E B t f Q"
  by (auto simp: reports_def achieves_def split: prod.splits sum.splits)

lemma reports_status: "f E t = (Inl (Status s), t) \<Longrightarrow> c \<Longrightarrow> reports c s E B t f Q"
  by (simp add: reports_def)

lemma reports_fail: "c \<Longrightarrow> reports c s E B t (fail (Status s)) Q"
  by (simp add: reports_def fail_def)

lemma reports_ret: "Q x t \<Longrightarrow> reports c s E B t (ret x) Q"
  by (simp add: achieves_reports achieves_ret)

lemma reports_andthen:
  assumes "reports c s E B t f P" and "\<And>x t1. t \<le> t1 \<Longrightarrow> P x t1 \<Longrightarrow> reports c s E B t1 (g x) Q"
  shows "reports c s E B t (andthen f g) Q"
proof (cases "f E t")
  case (Pair r t1)
  show ?thesis
  proof (cases r)
    case (Inl e)
    with Pair assms(1) show ?thesis by (simp add: reports_def andthen_def)
  next
    case (Inr x)
    with Pair assms(1) have 1: "t \<le> t1" "P x t1" by (simp_all add: reports_def)
    from assms(2) [OF this] have "reports c s E B t1 (g x) Q" .
    moreover have "oom B t e t'" if "oom B t1 e t'" for e t'
      using that 1(1) by (auto simp: oom_def intro: order_trans)
    ultimately show ?thesis
      using Pair Inr 1(1) by (auto simp: reports_def andthen_def split: prod.splits sum.splits)
  qed
qed

lemma reports_weaken:
  assumes "reports c s E B t f P" and "\<And>x t'. t \<le> t' \<Longrightarrow> P x t' \<Longrightarrow> Q x t'" and "c \<Longrightarrow> c'"
  shows "reports c' s E B t f Q"
  using assms by (auto simp: reports_def split: prod.splits sum.splits)

lemma reports_fold_act:
  assumes "I [] b t"
    and "\<And>ys x zs a t'. xs = ys @ x # zs \<Longrightarrow> t \<le> t' \<Longrightarrow> I ys a t' \<Longrightarrow> reports c s E B t' (f a x) (I (ys @ [x]))"
  shows "reports c s E B t (fold_act f b xs) (I xs)"
proof -
  have "reports c s E B t' (fold_act f a zs) (I xs)"
    if "xs = ys @ zs" and "t \<le> t'" and "I ys a t'" for ys zs a t'
    using that
  proof (induction zs arbitrary: ys a t')
    case Nil
    then show ?case by (simp add: reports_ret)
  next
    case (Cons z zs)
    show ?case
      unfolding fold_act.simps
    proof (rule reports_andthen [OF assms(2) [OF Cons.prems]])
      fix a' t1
      assume "t' \<le> t1" and "I (ys @ [z]) a' t1"
      then show "reports c s E B t1 (fold_act f a' zs) (I xs)"
        using Cons.prems by (intro Cons.IH [of "ys @ [z]"]) auto
    qed
  qed
  from this [of "[]" xs t b] assms(1) show ?thesis by simp
qed

lemma achieves_andthen:
  assumes "achieves E B t f P" and "\<And>x t1. t \<le> t1 \<Longrightarrow> P x t1 \<Longrightarrow> achieves E B t1 (g x) Q"
  shows "achieves E B t (andthen f g) Q"
  using reports_andthen [where c = False, unfolded reports_achieves, OF assms] .

lemma achieves_weaken:
  assumes "achieves E B t f P" and "\<And>x t'. t \<le> t' \<Longrightarrow> P x t' \<Longrightarrow> Q x t'"
  shows "achieves E B t f Q"
  using assms by (auto simp: achieves_def split: prod.splits sum.splits)

lemma achieves_mono: "achieves E B t f Q \<Longrightarrow> B \<subseteq> B' \<Longrightarrow> achieves E B' t f Q"
  unfolding achieves_def oom_def by (fastforce split: prod.splits sum.splits)

lemma achieves_conj:
  assumes "achieves E B t f P" and "achieves E B t f Q"
  shows "achieves E B t f (\<lambda>x t'. P x t' \<and> Q x t')"
  using assms by (auto simp: achieves_def split: prod.splits sum.splits)

lemma achieves_lift_res: "r = Inr x \<Longrightarrow> Q x t \<Longrightarrow> achieves E B t (lift_res r) Q"
  by (simp add: achieves_def lift_res_def)

lemma achieves_allocate:
  assumes "\<And>i. \<not> E i \<Longrightarrow> i \<in> B" and "Q t (Suc t)"
  shows "achieves E B t d7_hamt_allocate Q"
  using assms by (auto simp: achieves_def d7_hamt_allocate_def oom_def)

lemma achieves_callback:
  assumes "f t = None \<Longrightarrow> t \<in> B" and "\<And>x. f t = Some x \<Longrightarrow> Q x (Suc t)"
  shows "achieves E B t (callback_or_oom f) Q"
  using assms by (auto simp: achieves_def callback_or_oom_def oom_def split: option.split)

lemma achieves_map_act:
  assumes "\<And>x t'. x \<in> set xs \<Longrightarrow> t \<le> t' \<Longrightarrow> achieves E B t' (f x) (\<lambda>y t''. R x y)"
  shows "achieves E B t (map_act f xs) (\<lambda>ys t'. list_all2 R xs ys)"
  using assms
proof (induction xs arbitrary: t)
  case Nil
  show ?case by (simp add: achieves_def ret_def)
next
  case (Cons x xs)
  have IH: "achieves E B t' (map_act f xs) (\<lambda>ys t''. list_all2 R xs ys)" if "t \<le> t'" for t'
    using Cons.prems that by (intro Cons.IH) auto
  show ?case
    unfolding map_act.simps
    apply (rule achieves_andthen [OF Cons.prems])
      apply simp
     apply simp
    apply (rule achieves_andthen [OF IH])
     apply simp
    apply (rule achieves_ret)
    apply simp
    done
qed

text \<open>A loop that keeps an invariant indexed by the elements processed so far.\<close>

lemma achieves_fold_act:
  assumes "I [] b t"
    and "\<And>ys x a t'. \<exists>zs. xs = ys @ x # zs \<Longrightarrow> t \<le> t' \<Longrightarrow> I ys a t' \<Longrightarrow>
           achieves E B t' (f a x) (I (ys @ [x]))"
  shows "achieves E B t (fold_act f b xs) (I xs)"
  using assms by (intro reports_fold_act [where c = False, unfolded reports_achieves]) blast+

text \<open>The same with the outputs of a loop that collects them.\<close>

lemma achieves_map_act_inv:
  assumes "I [] [] t"
    and "\<And>us x zs ys t'. xs = us @ x # zs \<Longrightarrow> I us ys t' \<Longrightarrow>
           achieves E B t' (f x) (\<lambda>y. I (us @ [x]) (ys @ [y]))"
  shows "achieves E B t (map_act f xs) (I xs)"
proof -
  have "achieves E B t' (map_act f zs) (\<lambda>rest. I xs (ys @ rest))"
    if "xs = us @ zs" and "I us ys t'" for us zs ys t'
    using that
  proof (induction zs arbitrary: us ys t')
    case Nil
    then show ?case by (simp add: achieves_ret)
  next
    case (Cons z zs)
    have step: "achieves E B t' (f z) (\<lambda>y. I (us @ [z]) (ys @ [y]))"
      using assms(2) Cons.prems by blast
    show ?case
      unfolding map_act.simps
    proof (rule achieves_andthen [OF step])
      fix y t1
      assume inv: "I (us @ [z]) (ys @ [y]) t1"
      have "achieves E B t1 (map_act f zs) (\<lambda>rest. I xs ((ys @ [y]) @ rest))"
        using Cons.prems inv by (intro Cons.IH [of "us @ [z]"]) auto
      then show "achieves E B t1 (andthen (map_act f zs) (\<lambda>ys'. ret (y # ys'))) (\<lambda>rest. I xs (ys @ rest))"
        by (rule achieves_andthen) (simp add: achieves_ret)
    qed
  qed
  from this [of "[]" xs "[]" t] assms(1) show ?thesis by simp
qed

text \<open>Sequencing that remembers the first run.\<close>

lemma achieves_andthen_run:
  assumes "achieves E B t f P"
    and "\<And>x t1. t \<le> t1 \<Longrightarrow> f E t = (Inr x, t1) \<Longrightarrow> P x t1 \<Longrightarrow> achieves E B t1 (g x) Q"
  shows "achieves E B t (andthen f g) Q"
proof (rule achieves_andthen)
  show "achieves E B t f (\<lambda>x t1. f E t = (Inr x, t1) \<and> P x t1)"
    using assms(1) by (auto simp: achieves_def split: prod.splits sum.splits)
qed (use assms(2) in blast)

text \<open>Consequences of a triple for a run that is observed.\<close>

lemma achieves_result:
  "achieves E B t f Q \<Longrightarrow> f E t = (Inr x, t') \<Longrightarrow> t \<le> t' \<and> Q x t'"
  by (simp add: achieves_def)

lemma achieves_failure:
  "achieves E B t f Q \<Longrightarrow> f E t = (Inl e, t') \<Longrightarrow>
     e = Status D7_HAMT_OUT_OF_MEMORY \<and> (\<exists>i\<in>B. t \<le> i \<and> i < t')"
  by (simp add: achieves_def oom_def)

lemma achieves_total:
  assumes "achieves E B t f Q" and "\<And>i. t \<le> i \<Longrightarrow> i \<notin> B"
  shows "\<exists>x t'. f E t = (Inr x, t') \<and> t \<le> t' \<and> Q x t'"
  using assms by (auto simp: achieves_def oom_def split: prod.splits sum.splits)

text \<open>
  \<open>safely E t f Q\<close>: the operation never faults; if it succeeds, \<open>Q\<close> holds. For operations that report
  other statuses than exhaustion of memory.
\<close>

definition safely :: "environment \<Rightarrow> nat \<Rightarrow> 'a act \<Rightarrow> ('a \<Rightarrow> nat \<Rightarrow> bool) \<Rightarrow> bool" where
  "safely E t f Q \<longleftrightarrow>
     (case f E t of (Inl e, t') \<Rightarrow> t \<le> t' \<and> e \<noteq> Fault | (Inr x, t') \<Rightarrow> t \<le> t' \<and> Q x t')"

lemma achieves_safely: "achieves E B t f Q \<Longrightarrow> safely E t f Q"
  by (auto simp: achieves_def safely_def oom_def split: prod.splits sum.splits)

lemma safely_ret: "Q x t \<Longrightarrow> safely E t (ret x) Q"
  by (simp add: safely_def ret_def)

lemma safely_fail: "safely E t (fail (Status s)) Q"
  by (simp add: safely_def fail_def)

lemma safely_andthen:
  assumes "safely E t f P" and "\<And>x t1. t \<le> t1 \<Longrightarrow> P x t1 \<Longrightarrow> safely E t1 (g x) Q"
  shows "safely E t (andthen f g) Q"
proof (cases "f E t")
  case (Pair r t1)
  show ?thesis
  proof (cases r)
    case (Inr x)
    with Pair assms(1) have 1: "t \<le> t1" "P x t1" by (simp_all add: safely_def)
    from assms(2) [OF this] Pair Inr 1(1) show ?thesis
      by (auto simp: safely_def andthen_def split: prod.splits sum.splits)
  qed (use Pair assms(1) in \<open>simp add: safely_def andthen_def\<close>)
qed

lemma safely_weaken: "safely E t f P \<Longrightarrow> (\<And>x t'. t \<le> t' \<Longrightarrow> P x t' \<Longrightarrow> Q x t') \<Longrightarrow> safely E t f Q"
  by (auto simp: safely_def split: prod.splits sum.splits)

lemma safely_result: "safely E t f Q \<Longrightarrow> f E t = (Inr x, t') \<Longrightarrow> t \<le> t' \<and> Q x t'"
  by (simp add: safely_def)

lemma safely_time: "safely E t f Q \<Longrightarrow> f E t = (r, t') \<Longrightarrow> t \<le> t' \<and> r \<noteq> Inl Fault"
  by (cases r) (auto simp: safely_def)

section \<open>Lists read by index\<close>

text \<open>An array read whose index may be out of range: \<open>None\<close> where C would read past the end.\<close>

definition nth_opt :: "'a list \<Rightarrow> nat \<Rightarrow> 'a option" where
  "nth_opt xs i = (if i < length xs then Some (xs ! i) else None)"

lemma nth_opt_in_set: "nth_opt xs i = Some x \<Longrightarrow> x \<in> set xs"
  by (auto simp: nth_opt_def split: if_splits)

lemma nth_opt_size [termination_simp]: "nth_opt xs i = Some x \<Longrightarrow> size x < Suc (size_list size xs)"
  by (drule nth_opt_in_set) (simp add: less_Suc_eq_le size_list_estimation')

text \<open>Copying an array while leaving a gap for, or dropping, the element at one index.\<close>

definition insert_at :: "nat \<Rightarrow> 'a \<Rightarrow> 'a list \<Rightarrow> 'a list" where
  "insert_at i x xs = take i xs @ x # drop i xs"

definition remove_at :: "nat \<Rightarrow> 'a list \<Rightarrow> 'a list" where
  "remove_at i xs = take i xs @ drop (Suc i) xs"

lemma length_insert_at [simp]: "i \<le> length xs \<Longrightarrow> length (insert_at i x xs) = Suc (length xs)"
  by (simp add: insert_at_def)

lemma length_remove_at [simp]: "i < length xs \<Longrightarrow> length (remove_at i xs) = length xs - 1"
  by (simp add: remove_at_def)

lemma set_insert_at [simp]: "set (insert_at i x xs) = insert x (set xs)"
  by (metis insert_at_def append_take_drop_id Un_insert_right list.simps(15) set_append)

lemma set_remove_at: "set (remove_at i xs) \<subseteq> set xs"
  by (auto simp: remove_at_def dest: in_set_takeD in_set_dropD)

lemma sum_list_insert_at: "sum_list (map f (insert_at i x xs)) = f x + sum_list (map f (xs :: 'a list) :: nat list)"
proof -
  have "sum_list (map f xs) = sum_list (map f (take i xs)) + sum_list (map f (drop i xs))"
    by (metis append_take_drop_id map_append sum_list_append)
  then show ?thesis by (simp add: insert_at_def)
qed

lemma sum_list_remove_at:
  assumes "i < length xs"
  shows "f (xs ! i) + sum_list (map f (remove_at i xs)) = sum_list (map f (xs :: 'a list) :: nat list)"
proof -
  have "xs = take i xs @ xs ! i # drop (Suc i) xs" using assms by (rule id_take_nth_drop)
  then have "sum_list (map f xs) = sum_list (map f (take i xs @ xs ! i # drop (Suc i) xs))"
    by simp
  then show ?thesis by (simp add: remove_at_def)
qed

lemma sum_list_update_nat:
  assumes "i < length xs"
  shows "sum_list (map f (xs[i := x])) + f (xs ! i) = f x + (sum_list (map f xs) :: nat)"
proof -
  have "xs[i := x] = take i xs @ x # drop (Suc i) xs" using assms by (rule upd_conv_take_nth_drop)
  moreover have "xs = take i xs @ xs ! i # drop (Suc i) xs" using assms by (rule id_take_nth_drop)
  then have "sum_list (map f xs) = sum_list (map f (take i xs @ xs ! i # drop (Suc i) xs))"
    by simp
  ultimately show ?thesis by simp
qed

lemma list_all2_in_set2: "list_all2 R xs ys \<Longrightarrow> y \<in> set ys \<Longrightarrow> \<exists>x\<in>set xs. R x y"
  by (induction rule: list_all2_induct) auto

lemma list_all2_in_set1: "list_all2 R xs ys \<Longrightarrow> x \<in> set xs \<Longrightarrow> \<exists>y\<in>set ys. R x y"
  by (induction rule: list_all2_induct) auto

lemma list_all2_remove_at:
  "list_all2 R xs ys \<Longrightarrow> list_all2 R (remove_at i xs) (remove_at i ys)"
  unfolding remove_at_def
  by (intro list_all2_appendI) (simp_all add: list_all2_takeI list_all2_dropI)

end
