(* ===== verification/Bitmap.thy ===== *)
theory Bitmap
  imports Prelude
begin

text \<open>
  The bitmap arithmetic of \<open>hamt.c\<close>: the slot index a hash selects at a trie level, the bit that
  stands for a slot, population count and the position of a slot in the dense array that a bitmap
  indexes. The lemmas give a dense array indexed by a bitmap its meaning as a partial function on
  the 32 slots (\<open>sparse\<close>), so that the trie proofs never mention positions.
\<close>

section \<open>The operations of the code\<close>

text \<open>C leaves a shift by 32 or more undefined; a well-formed trie is only searched with smaller ones.\<close>

definition d7_hamt_index :: "u32 \<Rightarrow> nat \<Rightarrow> nat" where
  "d7_hamt_index hash shift = unat (drop_bit shift hash AND 31)"

definition d7_hamt_bit :: "nat \<Rightarrow> u32" where
  "d7_hamt_bit index = push_bit index 1"

function d7_hamt_popcount_loop :: "u32 \<Rightarrow> nat \<Rightarrow> nat" where
  "d7_hamt_popcount_loop v count =
     (if v = 0 then count else d7_hamt_popcount_loop (v AND (v - 1)) (Suc count))"
  by pat_completeness auto
termination
proof (relation "measure (\<lambda>(v, count). unat v)")
  fix v :: u32 and count :: nat
  assume "v \<noteq> 0"
  then have "unat (v - 1) < unat v" by (simp add: unat_minus_one unat_gt_0)
  moreover have "unat (v AND (v - 1)) \<le> unat (v - 1)" by (simp add: word_and_le1 flip: word_le_nat_alt)
  ultimately show "((v AND (v - 1), Suc count), v, count) \<in> measure (\<lambda>(v, count). unat v)" by simp
qed simp

declare d7_hamt_popcount_loop.simps [simp del]

definition d7_hamt_popcount :: "u32 \<Rightarrow> nat" where
  "d7_hamt_popcount value = d7_hamt_popcount_loop value 0"

definition d7_hamt_slot :: "u32 \<Rightarrow> u32 \<Rightarrow> nat" where
  "d7_hamt_slot bitmap b = d7_hamt_popcount (bitmap AND (b - 1))"

section \<open>Bits of the slot bitmaps\<close>

lemma bit_d7_hamt_bit [simp]: "bit (d7_hamt_bit i) j \<longleftrightarrow> i = j \<and> i < 32"
  by (auto simp: d7_hamt_bit_def bit_exp_iff)

lemma and_d7_hamt_bit_nonzero:
  assumes "i < 32"
  shows "w AND d7_hamt_bit i \<noteq> 0 \<longleftrightarrow> bit w i"
proof
  assume "bit w i"
  then have "bit (w AND d7_hamt_bit i) i" using assms by (simp add: bit_and_iff)
  then show "w AND d7_hamt_bit i \<noteq> 0" by auto
next
  assume "w AND d7_hamt_bit i \<noteq> 0"
  then obtain j where "bit (w AND d7_hamt_bit i) j" using bit_word_eqI by (metis bit_0_eq bot_apply bot_bool_def)
  then show "bit w i" by (simp add: bit_and_iff)
qed

lemma and_d7_hamt_bit_zero: "i < 32 \<Longrightarrow> w AND d7_hamt_bit i = 0 \<longleftrightarrow> \<not> bit w i"
  using and_d7_hamt_bit_nonzero by blast

lemma bit_u32_lt: "bit (w :: u32) i \<Longrightarrow> i < 32"
  using bit_imp_le_length by fastforce

lemma d7_hamt_index_less: "d7_hamt_index h s < 32"
proof -
  have "drop_bit s h AND 31 \<le> (31 :: u32)" by (rule word_and_le1)
  then have "unat (drop_bit s h AND 31) \<le> unat (31 :: u32)" by (simp only: word_le_nat_alt)
  then show ?thesis by (simp add: d7_hamt_index_def)
qed

lemma d7_hamt_index_bit: "bit (d7_hamt_index h s) i \<longleftrightarrow> i < 5 \<and> bit h (s + i)"
proof -
  have m: "(31 :: u32) = mask 5" by (simp add: mask_eq_exp_minus_1)
  have "bit (drop_bit s h AND 31) i \<longleftrightarrow> i < 5 \<and> bit h (s + i)"
    unfolding m by (auto simp: bit_and_iff bit_drop_bit_eq bit_mask_iff)
  then show ?thesis by (simp add: d7_hamt_index_def bit_unsigned_iff)
qed

text \<open>
  Two hashes select the same slot at every level up to \<open>s + 5\<close> exactly when they select the same
  slots up to \<open>s\<close> and the same slot at \<open>s\<close>.
\<close>

lemma take_bit_index_step:
  "take_bit (s + 5) (h :: u32) = take_bit (s + 5) h' \<longleftrightarrow>
     take_bit s h = take_bit s h' \<and> d7_hamt_index h s = d7_hamt_index h' s"
proof -
  have ext: "take_bit n h = take_bit n h' \<longleftrightarrow> (\<forall>i. i < n \<longrightarrow> bit h i = bit h' i)" for n
    by (auto simp: bit_eq_iff bit_take_bit_iff dest: bit_u32_lt)
  have idx: "d7_hamt_index h s = d7_hamt_index h' s \<longleftrightarrow> (\<forall>i. i < 5 \<longrightarrow> bit h (s + i) = bit h' (s + i))"
    by (auto simp: bit_eq_iff d7_hamt_index_bit)
  have split: "(\<forall>i. i < s + 5 \<longrightarrow> P i) \<longleftrightarrow> (\<forall>i. i < s \<longrightarrow> P i) \<and> (\<forall>i. i < 5 \<longrightarrow> P (s + i))" for P
  proof (intro iffI conjI allI impI; (elim conjE)?)
    fix i
    assume l: "\<forall>i. i < s \<longrightarrow> P i" and r: "\<forall>i. i < 5 \<longrightarrow> P (s + i)" and "i < s + 5"
    then show "P i" by (cases "i < s") (auto dest: spec [of _ "i - s"])
  qed auto
  show ?thesis unfolding ext idx by (rule split)
qed

lemma take_bit_32_eq: "32 \<le> s \<Longrightarrow> take_bit s (h :: u32) = take_bit s h' \<longleftrightarrow> h = h'"
  by (auto simp: bit_eq_iff bit_take_bit_iff dest: bit_u32_lt)

section \<open>Population count\<close>

definition positions :: "u32 \<Rightarrow> nat list" where
  "positions b = filter (bit b) [0..<32]"

definition rank :: "u32 \<Rightarrow> nat \<Rightarrow> nat" where
  "rank b i = length (filter (bit b) [0..<i])"

lemma set_positions [simp]: "set (positions b) = {i. bit b i}"
  by (auto simp: positions_def dest: bit_u32_lt)

lemma distinct_positions [simp]: "distinct (positions b)"
  by (simp add: positions_def)

lemma length_positions: "length (positions b) = card {i. bit b i}"
  by (metis distinct_card distinct_positions set_positions)

text \<open>Subtracting one and masking clears exactly the lowest set bit.\<close>

lemma nat_bit_double: "bit (2 * m) i \<longleftrightarrow> (case i of 0 \<Rightarrow> False | Suc j \<Rightarrow> bit (m :: nat) j)"
  by (cases i) (simp_all add: bit_0 bit_Suc)

lemma nat_bit_double_Suc: "bit (Suc (2 * m)) i \<longleftrightarrow> (case i of 0 \<Rightarrow> True | Suc j \<Rightarrow> bit (m :: nat) j)"
  by (cases i) (simp_all add: bit_0 bit_Suc)

lemma nat_bit_ex: "0 < n \<Longrightarrow> \<exists>i. bit (n :: nat) i"
  by (metis bit_eqI bit_0_eq bot_apply bot_bool_def not_gr_zero)

lemma nat_and_minus_one:
  "0 < n \<Longrightarrow> bit n i \<and> bit (n - 1) i \<longleftrightarrow> bit (n :: nat) i \<and> i \<noteq> (LEAST i. bit n i)"
proof (induction n arbitrary: i rule: less_induct)
  case (less n)
  show ?case
  proof (cases "even n")
    case True
    then obtain m where m: "n = 2 * m" by blast
    with less.prems have pos: "0 < m" "m < n" by auto
    obtain j0 where "bit m j0" using nat_bit_ex [OF pos(1)] by blast
    then have least: "(LEAST i. bit n i) = Suc (LEAST i. bit m i)"
      using Least_Suc [of "bit n" "Suc j0"] by (simp add: m nat_bit_double)
    have pred: "n - 1 = Suc (2 * (m - 1))" using m pos by simp
    show ?thesis
    proof (cases i)
      case 0
      then show ?thesis by (simp add: m nat_bit_double)
    next
      case (Suc j)
      then show ?thesis
        unfolding least pred using less.IH [OF pos(2,1), of j]
        by (simp add: nat_bit_double nat_bit_double_Suc m del: One_nat_def)
    qed
  next
    case False
    then obtain m where m: "n = Suc (2 * m)" by (auto elim: oddE)
    have "(LEAST i. bit n i) = 0" by (rule Least_eq_0) (simp add: m nat_bit_double_Suc)
    moreover have "n - 1 = 2 * m" using m by simp
    ultimately show ?thesis
      by (cases i) (simp_all add: nat_bit_double nat_bit_double_Suc m)
  qed
qed

lemma u32_and_minus_one:
  assumes "v \<noteq> 0"
  shows "\<exists>j. bit v j \<and> {i. bit (v AND (v - 1)) i} = {i. bit (v :: u32) i} - {j}"
proof -
  have pos: "0 < unat v" using assms by (simp add: unat_gt_0)
  have eq: "unat (v AND (v - 1)) = unat v AND (unat v - 1)"
    using assms by (simp add: unsigned_and_eq unat_minus_one)
  let ?j = "LEAST i. bit (unat v) i"
  have "\<exists>i. bit (unat v) i" using pos by (rule nat_bit_ex)
  then have "bit (unat v) ?j" by (rule LeastI_ex)
  moreover have "{i. bit (unat (v AND (v - 1))) i} = {i. bit (unat v) i} - {?j}"
    unfolding eq bit_and_iff using nat_and_minus_one [OF pos] by auto
  ultimately show ?thesis by (auto simp: bit_unsigned_iff)
qed

lemma d7_hamt_popcount_loop_card: "d7_hamt_popcount_loop v c = c + card {i. bit v i}"
proof (induction v c rule: d7_hamt_popcount_loop.induct)
  case (1 v c)
  show ?case
  proof (cases "v = 0")
    case True
    then show ?thesis by (simp add: d7_hamt_popcount_loop.simps)
  next
    case False
    obtain j where j: "bit v j" "{i. bit (v AND (v - 1)) i} = {i. bit v i} - {j}"
      using u32_and_minus_one [OF False] by blast
    have "finite {i. bit v i}" by (rule finite_subset [of _ "{..<32}"]) (auto dest: bit_u32_lt)
    then have "card {i. bit v i} = Suc (card {i. bit (v AND (v - 1)) i})"
      using j by (metis card.remove mem_Collect_eq)
    then show ?thesis using "1.IH" [OF False] False by (simp add: d7_hamt_popcount_loop.simps [of v])
  qed
qed

lemma d7_hamt_popcount_positions: "d7_hamt_popcount b = length (positions b)"
  by (simp add: d7_hamt_popcount_def d7_hamt_popcount_loop_card length_positions)

lemma d7_hamt_slot_rank:
  assumes "i < 32"
  shows "d7_hamt_slot b (d7_hamt_bit i) = rank b i"
proof -
  have "d7_hamt_bit i - 1 = mask i" by (simp add: d7_hamt_bit_def mask_eq_exp_minus_1 push_bit_eq_mult)
  then have "bit (b AND (d7_hamt_bit i - 1)) = (\<lambda>j. bit b j \<and> j < i)"
    by (auto simp: bit_and_iff bit_mask_iff fun_eq_iff dest: bit_u32_lt)
  then have "positions (b AND (d7_hamt_bit i - 1)) = filter (\<lambda>j. bit b j \<and> j < i) [0..<32]"
    by (simp add: positions_def)
  also have "[0..<32] = [0..<i] @ [i..<32]" using assms upt_add_eq_append [of 0 i "32 - i"] by simp
  also have "filter (\<lambda>j. bit b j \<and> j < i) ([0..<i] @ [i..<32]) = filter (bit b) [0..<i]"
    by (auto simp: filter_empty_conv intro: filter_cong)
  finally show ?thesis by (simp add: d7_hamt_slot_def d7_hamt_popcount_positions rank_def)
qed

section \<open>Dense arrays indexed by a bitmap\<close>

definition dense :: "u32 \<Rightarrow> 'a list \<Rightarrow> bool" where
  "dense b xs \<longleftrightarrow> length xs = d7_hamt_popcount b"

definition sparse :: "u32 \<Rightarrow> 'a list \<Rightarrow> nat \<rightharpoonup> 'a" where
  "sparse b xs = map_of (zip (positions b) xs)"

lemma dense_length: "dense b xs \<longleftrightarrow> length xs = length (positions b)"
  by (simp add: dense_def d7_hamt_popcount_positions)

lemma positions_split:
  assumes "i < 32"
  shows "positions b = filter (bit b) [0..<i] @ (if bit b i then [i] else []) @ filter (bit b) [Suc i..<32]"
proof -
  have "[0..<32] = [0..<i] @ i # [Suc i..<32]"
    using assms upt_add_eq_append [of 0 i "32 - i"] by (simp add: upt_conv_Cons)
  then show ?thesis by (simp add: positions_def)
qed

lemma rank_less: "i < 32 \<Longrightarrow> bit b i \<Longrightarrow> dense b xs \<Longrightarrow> rank b i < length xs"
  by (simp add: dense_length positions_split rank_def)

lemma rank_le: "i < 32 \<Longrightarrow> dense b xs \<Longrightarrow> rank b i \<le> length xs"
  by (simp add: dense_length positions_split rank_def)

lemma sparse_nth:
  assumes "i < 32" "bit b i" "dense b xs"
  shows "sparse b xs i = Some (xs ! rank b i)"
proof -
  have r: "rank b i < length xs" by (rule rank_less) (use assms in auto)
  have "positions b ! rank b i = i"
    using assms by (simp add: positions_split rank_def nth_append)
  moreover have "length (positions b) = length xs" using assms(3) by (simp add: dense_length)
  ultimately show ?thesis
    unfolding sparse_def using r map_of_zip_nth [OF _ distinct_positions] by metis
qed

lemma sparse_nth_opt:
  "i < 32 \<Longrightarrow> bit b i \<Longrightarrow> dense b xs \<Longrightarrow> nth_opt xs (rank b i) = sparse b xs i"
  by (simp add: sparse_nth nth_opt_def rank_less)

lemma sparse_None: "dense b xs \<Longrightarrow> sparse b xs i = None \<longleftrightarrow> \<not> bit b i"
  by (simp add: sparse_def dense_length)

lemma sparse_Some_bit: "sparse b xs i = Some x \<Longrightarrow> bit b i \<and> i < 32"
  by (metis bit_u32_lt map_of_SomeD mem_Collect_eq set_positions set_zip_leftD sparse_def)

lemma sparse_Some_in_set: "sparse b xs i = Some x \<Longrightarrow> x \<in> set xs"
  by (metis map_of_SomeD set_zip_rightD sparse_def)

lemma in_set_sparse:
  assumes "x \<in> set xs" "dense b xs"
  shows "\<exists>i<32. sparse b xs i = Some x"
proof -
  from assms(1) obtain n where n: "n < length xs" "xs ! n = x" by (auto simp: in_set_conv_nth)
  then have "sparse b xs (positions b ! n) = Some x"
    unfolding sparse_def using assms(2) by (metis dense_length distinct_positions map_of_zip_nth)
  then show ?thesis using sparse_Some_bit [of b xs "positions b ! n" x] by blast
qed

lemma set_eq_ran_sparse: "dense b xs \<Longrightarrow> set xs = {x. \<exists>i. sparse b xs i = Some x}"
  using in_set_sparse sparse_Some_in_set by fastforce

lemma dense_map_sparse: "dense b xs \<Longrightarrow> xs = map (\<lambda>i. the (sparse b xs i)) (positions b)"
  by (rule nth_equalityI)
     (simp_all add: sparse_def dense_length map_of_zip_nth)

lemma sparse_zip_append:
  assumes "i \<notin> set A" "length A = length ys"
  shows "map_of (zip (A @ i # C) (ys @ x # zs)) = (map_of (zip (A @ C) (ys @ zs)))(i \<mapsto> x)"
  using assms by (auto simp: fun_eq_iff map_add_def split: option.split dest: map_of_SomeD set_zip_leftD)

lemma insert_at_dense:
  assumes "i < 32" "\<not> bit b i" "dense b xs"
  shows dense_insert_at: "dense (b OR d7_hamt_bit i) (insert_at (rank b i) x xs)"
    and sparse_insert_at:
      "sparse (b OR d7_hamt_bit i) (insert_at (rank b i) x xs) = (sparse b xs)(i \<mapsto> x)"
proof -
  let ?A = "filter (bit b) [0..<i]" and ?C = "filter (bit b) [Suc i..<32]"
  have p: "positions b = ?A @ ?C" using assms positions_split [of i b] by simp
  have p': "positions (b OR d7_hamt_bit i) = ?A @ i # ?C"
    using assms positions_split [of i "b OR d7_hamt_bit i"]
    by (auto simp: bit_or_iff intro!: arg_cong2 [where f = append] filter_cong)
  have len: "length ?A = length (take (rank b i) xs)"
    using assms rank_le [of i b xs] by (simp add: rank_def [symmetric])
  have xs: "take (rank b i) xs @ drop (rank b i) xs = xs" by simp
  show "dense (b OR d7_hamt_bit i) (insert_at (rank b i) x xs)"
    using assms p p' rank_le [of i b xs] by (simp add: dense_length)
  show "sparse (b OR d7_hamt_bit i) (insert_at (rank b i) x xs) = (sparse b xs)(i \<mapsto> x)"
    unfolding sparse_def insert_at_def p' p
    by (subst sparse_zip_append [OF _ len]) (simp_all add: xs)
qed

lemma remove_at_dense:
  assumes "i < 32" "bit b i" "dense b xs"
  shows dense_remove_at: "dense (b AND NOT (d7_hamt_bit i)) (remove_at (rank b i) xs)"
    and sparse_remove_at:
      "sparse (b AND NOT (d7_hamt_bit i)) (remove_at (rank b i) xs) = (sparse b xs)(i := None)"
proof -
  let ?A = "filter (bit b) [0..<i]" and ?C = "filter (bit b) [Suc i..<32]"
  have p: "positions b = ?A @ i # ?C" using assms positions_split [of i b] by simp
  have p': "positions (b AND NOT (d7_hamt_bit i)) = ?A @ ?C"
    using assms positions_split [of i "b AND NOT (d7_hamt_bit i)"]
    by (auto simp: bit_and_iff bit_not_iff intro!: arg_cong2 [where f = append] filter_cong)
  have r: "rank b i < length xs" using assms by (simp add: rank_less)
  then have len: "length ?A = length (take (rank b i) xs)" by (simp add: rank_def [symmetric])
  have xs: "xs = take (rank b i) xs @ xs ! rank b i # drop (Suc (rank b i)) xs"
    using r by (rule id_take_nth_drop)
  show "dense (b AND NOT (d7_hamt_bit i)) (remove_at (rank b i) xs)"
    using assms p p' r by (simp add: dense_length)
  have "sparse b xs = (map_of (zip (?A @ ?C) (remove_at (rank b i) xs)))(i \<mapsto> xs ! rank b i)"
    unfolding sparse_def p remove_at_def
    by (subst (1) xs, subst sparse_zip_append [OF _ len]) simp_all
  moreover have "i \<notin> set (map fst (zip (?A @ ?C) (remove_at (rank b i) xs)))"
    by (auto dest: set_zip_leftD)
  then have "map_of (zip (?A @ ?C) (remove_at (rank b i) xs)) i = None"
    by (simp add: map_of_eq_None_iff)
  ultimately show "sparse (b AND NOT (d7_hamt_bit i)) (remove_at (rank b i) xs) = (sparse b xs)(i := None)"
    unfolding sparse_def [of "b AND NOT (d7_hamt_bit i)"] p' by (auto simp: fun_eq_iff)
qed

lemma update_dense:
  assumes "i < 32" "bit b i" "dense b xs"
  shows dense_update: "dense b (xs[rank b i := x])"
    and sparse_update: "sparse b (xs[rank b i := x]) = (sparse b xs)(i \<mapsto> x)"
proof -
  let ?A = "filter (bit b) [0..<i]" and ?C = "filter (bit b) [Suc i..<32]"
  have p: "positions b = ?A @ i # ?C" using assms positions_split [of i b] by simp
  have r: "rank b i < length xs" using assms by (simp add: rank_less)
  then have len: "length ?A = length (take (rank b i) xs)" by (simp add: rank_def [symmetric])
  have xs: "xs = take (rank b i) xs @ xs ! rank b i # drop (Suc (rank b i)) xs"
    using r by (rule id_take_nth_drop)
  have up: "xs[rank b i := x] = take (rank b i) xs @ x # drop (Suc (rank b i)) xs"
    using r by (rule upd_conv_take_nth_drop)
  show "dense b (xs[rank b i := x])" using assms(3) by (simp add: dense_def)
  have "sparse b xs = (map_of (zip (?A @ ?C) (remove_at (rank b i) xs)))(i \<mapsto> xs ! rank b i)"
    unfolding sparse_def p remove_at_def
    by (subst (1) xs, subst sparse_zip_append [OF _ len]) simp_all
  moreover have "sparse b (xs[rank b i := x]) = (map_of (zip (?A @ ?C) (remove_at (rank b i) xs)))(i \<mapsto> x)"
    unfolding sparse_def p remove_at_def up by (subst sparse_zip_append [OF _ len]) simp_all
  ultimately show "sparse b (xs[rank b i := x]) = (sparse b xs)(i \<mapsto> x)" by simp
qed

lemma sparse_list_all2:
  assumes "list_all2 R xs ys"
  shows "rel_option R (sparse b xs i) (sparse b ys i)"
proof -
  have "rel_option R (map_of (zip ps xs) i) (map_of (zip ps ys) i)" for ps
    using assms
  proof (induction ps arbitrary: xs ys)
    case Nil
    then show ?case by simp
  next
    case (Cons p ps)
    then show ?case by (cases xs; cases ys) auto
  qed
  then show ?thesis by (simp add: sparse_def)
qed

lemma dense_list_all2: "list_all2 R xs ys \<Longrightarrow> dense b ys \<longleftrightarrow> dense b xs"
  by (auto simp: dense_def dest: list_all2_lengthD)

lemma dense_0 [simp]: "dense 0 xs \<longleftrightarrow> xs = []"
  by (simp add: dense_length positions_def)

lemma sparse_Nil [simp]: "sparse b [] = Map.empty"
  by (simp add: sparse_def)

lemma dense_Nil: "dense b [] \<longleftrightarrow> b = 0"
proof -
  have "positions b = [] \<longleftrightarrow> {i. bit b i} = {}" by (metis set_empty set_positions)
  also have "\<dots> \<longleftrightarrow> b = 0" by (auto simp: bit_eq_iff dest: bit_u32_lt)
  finally show ?thesis by (auto simp: dense_length)
qed

lemma rank_d7_hamt_bit: "i < 32 \<Longrightarrow> rank (d7_hamt_bit i) j = (if i < j then 1 else 0)"
proof -
  assume "i < 32"
  then have "filter (bit (d7_hamt_bit i)) [0..<j] = (if i < j then [i] else [])"
    by (induction j) auto
  then show ?thesis by (simp add: rank_def)
qed

lemma one_slot:
  assumes "i < 32"
  shows dense_one_slot: "dense (d7_hamt_bit i) [x]"
    and sparse_one_slot: "sparse (d7_hamt_bit i) [x] = [i \<mapsto> x]"
proof -
  have "rank 0 i = 0" by (simp add: rank_def)
  then show "dense (d7_hamt_bit i) [x]" and "sparse (d7_hamt_bit i) [x] = [i \<mapsto> x]"
    using insert_at_dense [of i 0 "[]" x] assms by (simp_all add: insert_at_def)
qed

lemma two_slots:
  assumes "i < 32" "j < 32" "i \<noteq> j"
  shows dense_two_slots: "dense (d7_hamt_bit i OR d7_hamt_bit j) (if i < j then [x, y] else [y, x])"
    and sparse_two_slots:
      "sparse (d7_hamt_bit i OR d7_hamt_bit j) (if i < j then [x, y] else [y, x]) = [i \<mapsto> x, j \<mapsto> y]"
  using insert_at_dense [of j "d7_hamt_bit i" "[x]" y] assms
  by (auto simp: dense_one_slot sparse_one_slot rank_d7_hamt_bit insert_at_def)

lemma and_eq_0_iff: "(a :: u32) AND b = 0 \<longleftrightarrow> (\<forall>i. bit a i \<longrightarrow> \<not> bit b i)"
  by (auto simp: bit_eq_iff bit_and_iff dest: bit_u32_lt)

lemma or_bit_disjoint: "dm AND nm = 0 \<Longrightarrow> \<not> bit nm i \<Longrightarrow> (dm OR d7_hamt_bit i) AND nm = 0"
  by (auto simp: and_eq_0_iff bit_or_iff)

lemma move_bit_disjoint:
  "dm AND nm = 0 \<Longrightarrow> (dm AND NOT (d7_hamt_bit i)) AND (nm OR d7_hamt_bit i) = 0"
  by (auto simp: and_eq_0_iff bit_or_iff bit_and_iff bit_not_iff)

end
