(* ===== verification/Hamt_Policy.thy ===== *)
theory Hamt_Policy
  imports Bitmap
begin

text \<open>
  The type-erased policy of \<open>hamt.h\<close>: the callbacks a map is created with, the defaults that
  \<open>d7_hamt_normalize_policy\<close> substitutes for null callbacks, the adaptors between set and map
  policies, and the contract a policy has to keep (locale \<open>hamt_policy\<close>).

  A function pointer is a \<open>callback\<close>: its address, which the code compares, and its behaviour.
  Retaining an item may fail or copy the item, and may depend on the moment of the call, so a
  retain callback takes the request counter as its last argument and returns \<open>None\<close> where the C
  callback returns a null pointer for a non-null item. Release callbacks have no effect on the
  values of the model and are represented by their address alone (\<open>None\<close> for a null pointer).
\<close>

datatype 'f callback = Callback (fn_ptr: nat) (fn: 'f)

record ('k, 'v) d7_hamt_policy =
  hash :: "('k \<Rightarrow> nat \<Rightarrow> u32) callback"
  key_equal :: "('k \<Rightarrow> 'k \<Rightarrow> nat \<Rightarrow> bool) callback"
  value_equal :: "('v \<Rightarrow> 'v \<Rightarrow> nat \<Rightarrow> bool) callback"
  retain_key :: "('k \<Rightarrow> nat \<Rightarrow> nat \<Rightarrow> 'k option) callback"
  retain_value :: "('v \<Rightarrow> nat \<Rightarrow> nat \<Rightarrow> 'v option) callback"
  release_key :: "nat option"
  release_value :: "nat option"
  policy_context :: nat

record 'k d7_hamt_set_policy =
  set_hash :: "('k \<Rightarrow> nat \<Rightarrow> u32) callback"
  set_equal :: "('k \<Rightarrow> 'k \<Rightarrow> nat \<Rightarrow> bool) callback"
  retain_item :: "('k \<Rightarrow> nat \<Rightarrow> nat \<Rightarrow> 'k option) callback"
  release_item :: "nat option"
  set_policy_context :: nat

section \<open>Calling the callbacks\<close>

definition d7_hamt_get_hash :: "('k, 'v) d7_hamt_policy \<Rightarrow> 'k \<Rightarrow> u32" where
  "d7_hamt_get_hash p key = fn (hash p) key (policy_context p)"

definition d7_hamt_keys_equal :: "('k, 'v) d7_hamt_policy \<Rightarrow> 'k \<Rightarrow> 'k \<Rightarrow> bool" where
  "d7_hamt_keys_equal p left right = fn (key_equal p) left right (policy_context p)"

definition d7_hamt_values_equal :: "('k, 'v) d7_hamt_policy \<Rightarrow> 'v \<Rightarrow> 'v \<Rightarrow> bool" where
  "d7_hamt_values_equal p left right \<longleftrightarrow>
     left = right \<or> fn (value_equal p) left right (policy_context p)"

definition d7_hamt_retain_key :: "('k, 'v) d7_hamt_policy \<Rightarrow> 'k \<Rightarrow> nat \<Rightarrow> 'k option" where
  "d7_hamt_retain_key p key = fn (retain_key p) key (policy_context p)"

definition d7_hamt_retain_value :: "('k, 'v) d7_hamt_policy \<Rightarrow> 'v \<Rightarrow> nat \<Rightarrow> 'v option" where
  "d7_hamt_retain_value p v = fn (retain_value p) v (policy_context p)"

definition d7_hamt_checked_retain_key :: "('k, 'v) d7_hamt_policy \<Rightarrow> 'k \<Rightarrow> 'k act" where
  "d7_hamt_checked_retain_key p key = callback_or_oom (d7_hamt_retain_key p key)"

definition d7_hamt_checked_retain_value :: "('k, 'v) d7_hamt_policy \<Rightarrow> 'v \<Rightarrow> 'v act" where
  "d7_hamt_checked_retain_value p v = callback_or_oom (d7_hamt_retain_value p v)"

definition d7_hamt_policy_callbacks_compatible ::
  "('k, 'v) d7_hamt_policy \<Rightarrow> ('k, 'v) d7_hamt_policy \<Rightarrow> bool" where
  "d7_hamt_policy_callbacks_compatible left right \<longleftrightarrow>
     fn_ptr (hash left) = fn_ptr (hash right) \<and>
     fn_ptr (key_equal left) = fn_ptr (key_equal right) \<and>
     fn_ptr (value_equal left) = fn_ptr (value_equal right) \<and>
     fn_ptr (retain_key left) = fn_ptr (retain_key right) \<and>
     fn_ptr (retain_value left) = fn_ptr (retain_value right) \<and>
     release_key left = release_key right \<and>
     release_value left = release_value right \<and>
     policy_context left = policy_context right"

definition d7_hamt_policies_compatible ::
  "('k, 'v) d7_hamt_policy \<Rightarrow> ('k, 'v) d7_hamt_policy \<Rightarrow> bool" where
  "d7_hamt_policies_compatible left right \<longleftrightarrow>
     fn_ptr (hash left) = fn_ptr (hash right) \<and>
     fn_ptr (key_equal left) = fn_ptr (key_equal right) \<and>
     fn_ptr (value_equal left) = fn_ptr (value_equal right) \<and>
     policy_context left = policy_context right"

section \<open>Default callbacks and normalisation\<close>

text \<open>
  The default callbacks treat an item as its address. \<open>ptr\<close> is the conversion of an item to
  \<open>uintptr_t\<close>, the identity where items are plain addresses.
\<close>

definition d7_hamt_pointer_hash :: "('k \<Rightarrow> 64 word) \<Rightarrow> 'k \<Rightarrow> nat \<Rightarrow> u32" where
  "d7_hamt_pointer_hash ptr item ctx =
     (let v0 = ptr item;
          v1 = v0 XOR drop_bit 33 v0;
          v2 = v1 * 0xff51afd7ed558ccd;
          v3 = v2 XOR drop_bit 33 v2;
          v4 = v3 * 0xc4ceb9fe1a85ec53;
          v5 = v4 XOR drop_bit 33 v4
      in ucast v5)"

definition d7_hamt_pointer_equal :: "'a \<Rightarrow> 'a \<Rightarrow> nat \<Rightarrow> bool" where
  "d7_hamt_pointer_equal left right ctx \<longleftrightarrow> left = right"

definition d7_hamt_identity_retain :: "'a \<Rightarrow> nat \<Rightarrow> nat \<Rightarrow> 'a option" where
  "d7_hamt_identity_retain item ctx t = Some item"

definition d7_hamt_unit_equal :: "'a \<Rightarrow> 'a \<Rightarrow> nat \<Rightarrow> bool" where
  "d7_hamt_unit_equal left right ctx \<longleftrightarrow> True"

text \<open>A policy as the caller writes it: every callback may be null.\<close>

record ('k, 'v) d7_hamt_policy_arg =
  arg_hash :: "('k \<Rightarrow> nat \<Rightarrow> u32) callback option"
  arg_key_equal :: "('k \<Rightarrow> 'k \<Rightarrow> nat \<Rightarrow> bool) callback option"
  arg_value_equal :: "('v \<Rightarrow> 'v \<Rightarrow> nat \<Rightarrow> bool) callback option"
  arg_retain_key :: "('k \<Rightarrow> nat \<Rightarrow> nat \<Rightarrow> 'k option) callback option"
  arg_retain_value :: "('v \<Rightarrow> nat \<Rightarrow> nat \<Rightarrow> 'v option) callback option"
  arg_release_key :: "nat option"
  arg_release_value :: "nat option"
  arg_context :: nat

definition pointer_hash_callback :: "('k \<Rightarrow> 64 word) \<Rightarrow> ('k \<Rightarrow> nat \<Rightarrow> u32) callback" where
  "pointer_hash_callback ptr = Callback 1 (d7_hamt_pointer_hash ptr)"

definition pointer_equal_callback :: "('a \<Rightarrow> 'a \<Rightarrow> nat \<Rightarrow> bool) callback" where
  "pointer_equal_callback = Callback 2 d7_hamt_pointer_equal"

definition identity_retain_callback :: "('a \<Rightarrow> nat \<Rightarrow> nat \<Rightarrow> 'a option) callback" where
  "identity_retain_callback = Callback 3 d7_hamt_identity_retain"

definition unit_equal_callback :: "('a \<Rightarrow> 'a \<Rightarrow> nat \<Rightarrow> bool) callback" where
  "unit_equal_callback = Callback 4 d7_hamt_unit_equal"

definition d7_hamt_policy_default :: "('k \<Rightarrow> 64 word) \<Rightarrow> ('k, 'v) d7_hamt_policy_arg" where
  "d7_hamt_policy_default ptr =
     \<lparr>arg_hash = Some (pointer_hash_callback ptr), arg_key_equal = Some pointer_equal_callback,
      arg_value_equal = Some pointer_equal_callback, arg_retain_key = None, arg_retain_value = None,
      arg_release_key = None, arg_release_value = None, arg_context = 0\<rparr>"

definition or_default :: "'a option \<Rightarrow> 'a \<Rightarrow> 'a" where
  "or_default x d = (case x of None \<Rightarrow> d | Some y \<Rightarrow> y)"

definition d7_hamt_normalize_policy ::
  "('k \<Rightarrow> 64 word) \<Rightarrow> ('k, 'v) d7_hamt_policy_arg option \<Rightarrow> ('k, 'v) d7_hamt_policy" where
  "d7_hamt_normalize_policy ptr policy =
     (let a = or_default policy (d7_hamt_policy_default ptr)
      in \<lparr>hash = or_default (arg_hash a) (pointer_hash_callback ptr),
          key_equal = or_default (arg_key_equal a) pointer_equal_callback,
          value_equal = or_default (arg_value_equal a) pointer_equal_callback,
          retain_key = or_default (arg_retain_key a) identity_retain_callback,
          retain_value = or_default (arg_retain_value a) identity_retain_callback,
          release_key = arg_release_key a, release_value = arg_release_value a,
          policy_context = arg_context a\<rparr>)"

text \<open>A set is a map from its items to a unit value that every comparison finds equal.\<close>

record 'k d7_hamt_set_policy_arg =
  arg_set_hash :: "('k \<Rightarrow> nat \<Rightarrow> u32) callback option"
  arg_set_equal :: "('k \<Rightarrow> 'k \<Rightarrow> nat \<Rightarrow> bool) callback option"
  arg_retain_item :: "('k \<Rightarrow> nat \<Rightarrow> nat \<Rightarrow> 'k option) callback option"
  arg_release_item :: "nat option"
  arg_set_context :: nat

definition d7_hamt_set_policy_default :: "('k \<Rightarrow> 64 word) \<Rightarrow> 'k d7_hamt_set_policy_arg" where
  "d7_hamt_set_policy_default ptr =
     \<lparr>arg_set_hash = Some (pointer_hash_callback ptr), arg_set_equal = Some pointer_equal_callback,
      arg_retain_item = None, arg_release_item = None, arg_set_context = 0\<rparr>"

definition d7_hamt_normalize_set_policy ::
  "('k \<Rightarrow> 64 word) \<Rightarrow> 'k d7_hamt_set_policy_arg option \<Rightarrow> 'k d7_hamt_set_policy" where
  "d7_hamt_normalize_set_policy ptr policy =
     (let a = or_default policy (d7_hamt_set_policy_default ptr)
      in \<lparr>set_hash = or_default (arg_set_hash a) (pointer_hash_callback ptr),
          set_equal = or_default (arg_set_equal a) pointer_equal_callback,
          retain_item = or_default (arg_retain_item a) identity_retain_callback,
          release_item = arg_release_item a, set_policy_context = arg_set_context a\<rparr>)"

definition map_policy_of_set_policy :: "'k d7_hamt_set_policy \<Rightarrow> ('k, unit) d7_hamt_policy" where
  "map_policy_of_set_policy s =
     \<lparr>hash = set_hash s, key_equal = set_equal s, value_equal = unit_equal_callback,
      retain_key = retain_item s, retain_value = identity_retain_callback,
      release_key = release_item s, release_value = None,
      policy_context = set_policy_context s\<rparr>"

definition d7_hamt_map_policy_from_set_policy ::
  "('k \<Rightarrow> 64 word) \<Rightarrow> 'k d7_hamt_set_policy_arg option \<Rightarrow> ('k, unit) d7_hamt_policy" where
  "d7_hamt_map_policy_from_set_policy ptr policy =
     map_policy_of_set_policy (d7_hamt_normalize_set_policy ptr policy)"

text \<open>The set policy that several operations read back from the policy of a set's map.\<close>

definition set_policy_of_map_policy :: "('k, unit) d7_hamt_policy \<Rightarrow> 'k d7_hamt_set_policy" where
  "set_policy_of_map_policy p =
     \<lparr>set_hash = hash p, set_equal = key_equal p, retain_item = retain_key p,
      release_item = release_key p, set_policy_context = policy_context p\<rparr>"

section \<open>The contract of a policy\<close>

text \<open>
  Key equality is an equivalence that the hash respects. \<open>Rk\<close> and \<open>Rv\<close> say when a retained key or
  value still is the one handed in: retaining yields a related item, related keys are equal keys,
  and values the policy calls equal are related. With the default callbacks both relations are
  equality. Operations that replace a value by an equal one, or copy a node and so retain its items
  again, preserve contents up to these relations, and no further.
\<close>

locale hamt_policy =
  fixes p :: "('k, 'v) d7_hamt_policy"
    and Rk :: "'k \<Rightarrow> 'k \<Rightarrow> bool"
    and Rv :: "'v \<Rightarrow> 'v \<Rightarrow> bool"
  assumes keq_equivp: "equivp (d7_hamt_keys_equal p)"
    and keq_hash: "d7_hamt_keys_equal p a b \<Longrightarrow> d7_hamt_get_hash p a = d7_hamt_get_hash p b"
    and Rk_equivp: "equivp Rk"
    and Rk_keq: "Rk a b \<Longrightarrow> d7_hamt_keys_equal p a b"
    and retain_key_Rk: "d7_hamt_retain_key p a i = Some a' \<Longrightarrow> Rk a a'"
    and Rv_equivp: "equivp Rv"
    and veq_Rv: "d7_hamt_values_equal p v w \<Longrightarrow> Rv v w"
    and retain_value_Rv: "d7_hamt_retain_value p v i = Some v' \<Longrightarrow> Rv v v'"
begin

lemma keq_refl [simp]: "d7_hamt_keys_equal p a a"
  using keq_equivp by (rule equivp_reflp)

lemma keq_sym: "d7_hamt_keys_equal p a b \<Longrightarrow> d7_hamt_keys_equal p b a"
  using keq_equivp by (rule equivp_symp)

lemma keq_trans: "d7_hamt_keys_equal p a b \<Longrightarrow> d7_hamt_keys_equal p b c \<Longrightarrow> d7_hamt_keys_equal p a c"
  using keq_equivp by (rule equivp_transp)

lemma keq_left: "d7_hamt_keys_equal p a b \<Longrightarrow> d7_hamt_keys_equal p a c = d7_hamt_keys_equal p b c"
  using keq_sym keq_trans by blast

lemma keq_right: "d7_hamt_keys_equal p a b \<Longrightarrow> d7_hamt_keys_equal p c a = d7_hamt_keys_equal p c b"
  using keq_sym keq_trans by blast

lemma Rk_refl [simp]: "Rk a a"
  using Rk_equivp by (rule equivp_reflp)

lemma Rk_trans: "Rk a b \<Longrightarrow> Rk b c \<Longrightarrow> Rk a c"
  using Rk_equivp by (rule equivp_transp)

lemma Rk_sym: "Rk a b \<Longrightarrow> Rk b a"
  using Rk_equivp by (rule equivp_symp)

lemma Rv_refl [simp]: "Rv v v"
  using Rv_equivp by (rule equivp_reflp)

lemma Rv_trans: "Rv a b \<Longrightarrow> Rv b c \<Longrightarrow> Rv a c"
  using Rv_equivp by (rule equivp_transp)

lemma Rv_sym: "Rv a b \<Longrightarrow> Rv b a"
  using Rv_equivp by (rule equivp_symp)

lemma Rk_hash: "Rk a b \<Longrightarrow> d7_hamt_get_hash p a = d7_hamt_get_hash p b"
  by (rule keq_hash) (rule Rk_keq)

lemma veq_refl [simp]: "d7_hamt_values_equal p v v"
  by (simp add: d7_hamt_values_equal_def)

end

text \<open>The times at which some request of an operation under policy \<open>p\<close> may fail.\<close>

definition failing_requests :: "environment \<Rightarrow> ('k, 'v) d7_hamt_policy \<Rightarrow> nat set" where
  "failing_requests E p =
     {i. \<not> E i \<or> (\<exists>k. d7_hamt_retain_key p k i = None) \<or> (\<exists>v. d7_hamt_retain_value p v i = None)}"

lemma failing_allocation: "\<not> E i \<Longrightarrow> i \<in> failing_requests E p"
  by (simp add: failing_requests_def)

lemma achieves_alloc [act_intros]:
  "Q t (Suc t) \<Longrightarrow> achieves E (failing_requests E p) t d7_hamt_allocate Q"
  by (rule achieves_allocate) (auto intro: failing_allocation)

context hamt_policy
begin

lemma achieves_retain_key:
  assumes "\<And>k'. Rk k k' \<Longrightarrow> Q k' (Suc t)"
  shows "achieves E (failing_requests E p) t (d7_hamt_checked_retain_key p k) Q"
  unfolding d7_hamt_checked_retain_key_def
  by (rule achieves_callback) (auto simp: failing_requests_def intro: assms retain_key_Rk)

lemma achieves_retain_value:
  assumes "\<And>v'. Rv v v' \<Longrightarrow> Q v' (Suc t)"
  shows "achieves E (failing_requests E p) t (d7_hamt_checked_retain_value p v) Q"
  unfolding d7_hamt_checked_retain_value_def
  by (rule achieves_callback) (auto simp: failing_requests_def intro: assms retain_value_Rv)

end

section \<open>The policies the library itself provides keep the contract\<close>

lemmas policy_defs = d7_hamt_get_hash_def d7_hamt_keys_equal_def d7_hamt_values_equal_def
  d7_hamt_retain_key_def d7_hamt_retain_value_def d7_hamt_normalize_policy_def or_default_def
  d7_hamt_policy_default_def pointer_hash_callback_def pointer_equal_callback_def
  identity_retain_callback_def unit_equal_callback_def d7_hamt_pointer_equal_def
  d7_hamt_identity_retain_def d7_hamt_unit_equal_def d7_hamt_map_policy_from_set_policy_def
  map_policy_of_set_policy_def d7_hamt_normalize_set_policy_def d7_hamt_set_policy_default_def

interpretation default_policy: hamt_policy "d7_hamt_normalize_policy ptr None" "(=)" "(=)"
  by unfold_locales (auto simp: policy_defs equivp_def fun_eq_iff)

text \<open>A set policy: the map policy under which the values are units, read back unchanged.\<close>

locale hamt_set_policy = hamt_policy p Rk "(=)"
  for p :: "('k, unit) d7_hamt_policy" and Rk :: "'k \<Rightarrow> 'k \<Rightarrow> bool" +
  assumes set_policy: "map_policy_of_set_policy (set_policy_of_map_policy p) = p"

interpretation default_set_policy: hamt_set_policy "d7_hamt_map_policy_from_set_policy ptr None" "(=)"
  by unfold_locales (auto simp: policy_defs set_policy_of_map_policy_def equivp_def fun_eq_iff)

lemma no_failing_requests_default_set:
  "(\<And>i. E i) \<Longrightarrow> failing_requests E (d7_hamt_map_policy_from_set_policy ptr None) = {}"
  by (simp add: failing_requests_def policy_defs)

lemma no_failing_requests_default:
  "(\<And>i. E i) \<Longrightarrow> failing_requests E (d7_hamt_normalize_policy ptr None) = {}"
  by (simp add: failing_requests_def policy_defs)

end
