(* ===== verification/Hamt_Node.thy ===== *)
theory Hamt_Node
  imports Hamt_Policy
begin

text \<open>
  The nodes of the CHAMP trie of \<open>hamt.c\<close>, the functions that create them, lookup, and the
  invariant every other theory about the trie relies on.

  A node carries its address, so that the pointer comparisons of the code are comparisons of
  addresses; two nodes of one heap with the same address are the same node (\<open>heap\<close>). Reference
  counts, and with them the release of nodes, are not part of the model: nodes are never changed
  after creation, so a node that is still reachable has the contents it was created with.
\<close>

section \<open>Nodes\<close>

datatype ('k, 'v) d7_hamt_entry = Entry (entry_key: 'k) (entry_value: 'v)

datatype ('k, 'v) d7_hamt_inline_entry =
  Inline (inline_hash: u32) (inline_entry: "('k, 'v) d7_hamt_entry")

datatype ('k, 'v) d7_hamt_node =
    Leaf (node_addr: addr) u32 'k 'v
  | Collision (node_addr: addr) u32 "('k, 'v) d7_hamt_entry list"
  | Bitmap_Indexed (node_addr: addr) u32 u32
      "('k, 'v) d7_hamt_inline_entry list" "('k, 'v) d7_hamt_node list" nat

fun is_leaf :: "('k, 'v) d7_hamt_node \<Rightarrow> bool" where
  "is_leaf (Leaf _ _ _ _) = True"
| "is_leaf _ = False"

fun is_bitmap :: "('k, 'v) d7_hamt_node \<Rightarrow> bool" where
  "is_bitmap (Bitmap_Indexed _ _ _ _ _ _) = True"
| "is_bitmap _ = False"

text \<open>The cached cardinality: one for a leaf, the number of entries of a collision bucket, and the
  stored field of a bitmap node.\<close>

fun subtree_count :: "('k, 'v) d7_hamt_node \<Rightarrow> nat" where
  "subtree_count (Leaf _ _ _ _) = 1"
| "subtree_count (Collision _ _ es) = length es"
| "subtree_count (Bitmap_Indexed _ _ _ _ _ n) = n"

section \<open>Creation\<close>

definition d7_hamt_leaf_create_from_retained ::
  "u32 \<Rightarrow> 'k \<Rightarrow> 'v \<Rightarrow> ('k, 'v) d7_hamt_node act" where
  "d7_hamt_leaf_create_from_retained h key v =
     andthen d7_hamt_allocate (\<lambda>a. ret (Leaf a h key v))"

definition d7_hamt_leaf_create ::
  "('k, 'v) d7_hamt_policy \<Rightarrow> u32 \<Rightarrow> 'k \<Rightarrow> 'v \<Rightarrow> ('k, 'v) d7_hamt_node act" where
  "d7_hamt_leaf_create p h key v =
     andthen (d7_hamt_checked_retain_key p key) (\<lambda>retained_key.
     andthen (d7_hamt_checked_retain_value p v) (\<lambda>retained_value.
     d7_hamt_leaf_create_from_retained h retained_key retained_value))"

definition d7_hamt_collision_write_entry ::
  "('k, 'v) d7_hamt_policy \<Rightarrow> ('k, 'v) d7_hamt_entry \<Rightarrow> ('k, 'v) d7_hamt_entry act" where
  "d7_hamt_collision_write_entry p e =
     andthen (d7_hamt_checked_retain_key p (entry_key e)) (\<lambda>retained_key.
     andthen (d7_hamt_checked_retain_value p (entry_value e)) (\<lambda>retained_value.
     ret (Entry retained_key retained_value)))"

definition d7_hamt_inline_copy ::
  "('k, 'v) d7_hamt_policy \<Rightarrow> ('k, 'v) d7_hamt_inline_entry \<Rightarrow> ('k, 'v) d7_hamt_inline_entry act" where
  "d7_hamt_inline_copy p source =
     andthen (d7_hamt_checked_retain_key p (entry_key (inline_entry source))) (\<lambda>key.
     andthen (d7_hamt_checked_retain_value p (entry_value (inline_entry source))) (\<lambda>v.
     ret (Inline (inline_hash source) (Entry key v))))"

text \<open>A collision bucket is allocated first and then filled entry by entry.\<close>

definition collision_fill ::
  "('k, 'v) d7_hamt_policy \<Rightarrow> u32 \<Rightarrow> ('k, 'v) d7_hamt_entry list \<Rightarrow> ('k, 'v) d7_hamt_node act" where
  "collision_fill p h es =
     andthen d7_hamt_allocate (\<lambda>a.
     andthen (map_act (d7_hamt_collision_write_entry p) es) (\<lambda>es'.
     ret (Collision a h es')))"

fun d7_hamt_collision_create ::
  "('k, 'v) d7_hamt_policy \<Rightarrow> ('k, 'v) d7_hamt_node \<Rightarrow> ('k, 'v) d7_hamt_node
     \<Rightarrow> ('k, 'v) d7_hamt_node act" where
  "d7_hamt_collision_create p (Leaf _ h k v) (Leaf _ _ k' v') =
     collision_fill p h [Entry k v, Entry k' v']"
| "d7_hamt_collision_create p (Collision _ h es) (Leaf _ _ k' v') =
     collision_fill p h (es @ [Entry k' v'])"
| "d7_hamt_collision_create p _ _ = fail Fault"

definition bitmap_count :: "'a list \<Rightarrow> ('k, 'v) d7_hamt_node list \<Rightarrow> nat" where
  "bitmap_count data children = length data + sum_list (map subtree_count children)"

definition d7_hamt_bitmap_create ::
  "u32 \<Rightarrow> u32 \<Rightarrow> ('k, 'v) d7_hamt_inline_entry list \<Rightarrow> ('k, 'v) d7_hamt_node list
     \<Rightarrow> ('k, 'v) d7_hamt_node act" where
  "d7_hamt_bitmap_create data_map node_map data children =
     andthen d7_hamt_allocate (\<lambda>a.
     ret (Bitmap_Indexed a data_map node_map data children (bitmap_count data children)))"

definition d7_hamt_bitmap_copy_create ::
  "('k, 'v) d7_hamt_policy \<Rightarrow> u32 \<Rightarrow> u32 \<Rightarrow> ('k, 'v) d7_hamt_inline_entry list
     \<Rightarrow> ('k, 'v) d7_hamt_node list \<Rightarrow> ('k, 'v) d7_hamt_node act" where
  "d7_hamt_bitmap_copy_create p data_map node_map data children =
     andthen d7_hamt_allocate (\<lambda>a.
     andthen (map_act (d7_hamt_inline_copy p) data) (\<lambda>data'.
     ret (Bitmap_Indexed a data_map node_map data' children (bitmap_count data children))))"

section \<open>Lookup\<close>

definition entry_matches :: "('k, 'v) d7_hamt_policy \<Rightarrow> 'k \<Rightarrow> ('k, 'v) d7_hamt_entry \<Rightarrow> bool" where
  "entry_matches p key e = d7_hamt_keys_equal p (entry_key e) key"

definition inline_match ::
  "('k, 'v) d7_hamt_policy \<Rightarrow> u32 \<Rightarrow> 'k \<Rightarrow> ('k, 'v) d7_hamt_inline_entry \<Rightarrow> ('k, 'v) d7_hamt_entry option"
where
  "inline_match p h key e =
     (if inline_hash e = h \<and> entry_matches p key (inline_entry e) then Some (inline_entry e) else None)"

text \<open>The loop of \<open>d7_hamt_try_get_entry\<close> from a node at a given shift.\<close>

function d7_hamt_find ::
  "('k, 'v) d7_hamt_policy \<Rightarrow> ('k, 'v) d7_hamt_node \<Rightarrow> u32 \<Rightarrow> nat \<Rightarrow> 'k
     \<Rightarrow> failure + ('k, 'v) d7_hamt_entry option" where
  "d7_hamt_find p (Leaf a h k v) hsh shift key =
     Inr (if h = hsh \<and> d7_hamt_keys_equal p k key then Some (Entry k v) else None)"
| "d7_hamt_find p (Collision a h es) hsh shift key =
     Inr (if h \<noteq> hsh then None else find (entry_matches p key) es)"
| "d7_hamt_find p (Bitmap_Indexed a dm nm data children n) hsh shift key =
     (let b = d7_hamt_bit (d7_hamt_index hsh shift)
      in if dm AND b \<noteq> 0 then
           (case nth_opt data (d7_hamt_slot dm b) of
              None \<Rightarrow> Inl Fault
            | Some e \<Rightarrow> Inr (inline_match p hsh key e))
         else if nm AND b = 0 then Inr None
         else
           (case nth_opt children (d7_hamt_slot nm b) of
              None \<Rightarrow> Inl Fault
            | Some c \<Rightarrow> d7_hamt_find p c hsh (shift + 5) key))"
  by pat_completeness auto
termination
  by (relation "measure (\<lambda>(p, n, _). size n)") (auto dest: nth_opt_size)

section \<open>Meaning and invariant\<close>

text \<open>
  The meaning of a node is a partial function: \<open>look p n h s k\<close> is the entry the node holds for key \<open>k\<close>
  with hash \<open>h\<close> when it sits at shift \<open>s\<close>.
\<close>

function look ::
  "('k, 'v) d7_hamt_policy \<Rightarrow> ('k, 'v) d7_hamt_node \<Rightarrow> u32 \<Rightarrow> nat \<Rightarrow> 'k
     \<Rightarrow> ('k, 'v) d7_hamt_entry option" where
  "look p (Leaf a h k v) hsh s key =
     (if h = hsh \<and> d7_hamt_keys_equal p k key then Some (Entry k v) else None)"
| "look p (Collision a h es) hsh s key = (if h = hsh then find (entry_matches p key) es else None)"
| "look p (Bitmap_Indexed a dm nm data children n) hsh s key =
     (case sparse dm data (d7_hamt_index hsh s) of
        Some e \<Rightarrow> inline_match p hsh key e
      | None \<Rightarrow> (case sparse nm children (d7_hamt_index hsh s) of
                 Some c \<Rightarrow> look p c hsh (s + 5) key
               | None \<Rightarrow> None))"
  by pat_completeness auto
termination
  by (relation "measure (\<lambda>(p, n, _). size n)")
     (auto dest!: sparse_Some_in_set simp: less_Suc_eq_le intro!: trans_le_add2 size_list_estimation')

fun node_hashes :: "('k, 'v) d7_hamt_node \<Rightarrow> u32 set" where
  "node_hashes (Leaf a h k v) = {h}"
| "node_hashes (Collision a h es) = {h}"
| "node_hashes (Bitmap_Indexed a dm nm data children n) =
     inline_hash ` set data \<union> (\<Union>c \<in> set children. node_hashes c)"

fun entries :: "('k, 'v) d7_hamt_node \<Rightarrow> ('k, 'v) d7_hamt_entry list" where
  "entries (Leaf a h k v) = [Entry k v]"
| "entries (Collision a h es) = es"
| "entries (Bitmap_Indexed a dm nm data children n) =
     map inline_entry data @ concat (map entries children)"

fun subnodes :: "('k, 'v) d7_hamt_node \<Rightarrow> ('k, 'v) d7_hamt_node set" where
  "subnodes (Bitmap_Indexed a dm nm data children n) =
     insert (Bitmap_Indexed a dm nm data children n) (\<Union>c \<in> set children. subnodes c)"
| "subnodes n = {n}"

lemma self_in_subnodes [simp]: "n \<in> subnodes n"
  by (cases n) auto

text \<open>
  Addresses identify nodes, and every address in use is smaller than the next one to be handed out.
\<close>

definition heap :: "('k, 'v) d7_hamt_node set \<Rightarrow> nat \<Rightarrow> bool" where
  "heap S t \<longleftrightarrow> (\<forall>m\<in>S. node_addr m < t) \<and>
     (\<forall>m\<in>S. \<forall>n\<in>S. node_addr m = node_addr n \<longrightarrow> m = n)"

lemma heap_later: "heap S t \<Longrightarrow> t \<le> t' \<Longrightarrow> heap S t'"
  unfolding heap_def by (meson order_less_le_trans)

lemma heap_mono: "heap S t \<Longrightarrow> T \<subseteq> S \<Longrightarrow> heap T t"
  unfolding heap_def by (meson subsetD)

lemma heap_insert: "heap S t \<Longrightarrow> t \<le> node_addr n \<Longrightarrow> node_addr n < t' \<Longrightarrow> heap (insert n S) t'"
  unfolding heap_def by (auto dest: order_less_le_trans leD)

lemma heap_bitmap:
  assumes "heap S t" and "\<And>c. c \<in> set children \<Longrightarrow> subnodes c \<subseteq> S" and "t \<le> a" and "a < t'"
  shows "heap (S \<union> subnodes (Bitmap_Indexed a dm nm data children n)) t'"
proof -
  have "S \<union> subnodes (Bitmap_Indexed a dm nm data children n) =
        insert (Bitmap_Indexed a dm nm data children n) S"
    using assms(2) by auto
  then show ?thesis using assms by (simp add: heap_insert)
qed

lemma heap_same: "heap S t \<Longrightarrow> m \<in> S \<Longrightarrow> n \<in> S \<Longrightarrow> node_addr m = node_addr n \<Longrightarrow> m = n"
  unfolding heap_def by blast

lemma heap_root_same:
  assumes "heap S t" "subnodes l \<subseteq> S" "subnodes r \<subseteq> S" "node_addr l = node_addr r"
  shows "l = r"
  using heap_same [OF assms(1) _ _ assms(4)] subsetD [OF assms(2) self_in_subnodes]
    subsetD [OF assms(3) self_in_subnodes] by blast

fun distinct_keys :: "('k, 'v) d7_hamt_policy \<Rightarrow> ('k, 'v) d7_hamt_entry list \<Rightarrow> bool" where
  "distinct_keys p [] = True"
| "distinct_keys p (e # es) =
     ((\<forall>e'\<in>set es. \<not> d7_hamt_keys_equal p (entry_key e) (entry_key e')) \<and> distinct_keys p es)"

lemma distinct_keys_append_all:
  "distinct_keys p (xs @ ys) \<longleftrightarrow> distinct_keys p xs \<and> distinct_keys p ys \<and>
     (\<forall>x\<in>set xs. \<forall>y\<in>set ys. \<not> d7_hamt_keys_equal p (entry_key x) (entry_key y))"
  by (induction xs) auto

text \<open>
  A well-formed node at shift \<open>s\<close>: hashes are those of the keys and lead to the slot that holds
  them, a slot is not both inline and a child, arrays have the length their bitmap says, no child is
  a leaf, no bitmap node holds a single entry or a lone bucket, the cached counts are exact.
\<close>

fun wf_node :: "('k, 'v) d7_hamt_policy \<Rightarrow> nat \<Rightarrow> ('k, 'v) d7_hamt_node \<Rightarrow> bool" where
  "wf_node p s (Leaf a h k v) \<longleftrightarrow> h = d7_hamt_get_hash p k"
| "wf_node p s (Collision a h es) \<longleftrightarrow>
     2 \<le> length es \<and> (\<forall>e\<in>set es. d7_hamt_get_hash p (entry_key e) = h) \<and> distinct_keys p es"
| "wf_node p s (Bitmap_Indexed a dm nm data children n) \<longleftrightarrow>
     s < 32 \<and> dm AND nm = 0 \<and> dense dm data \<and> dense nm children \<and>
     (\<forall>e\<in>set data. d7_hamt_get_hash p (entry_key (inline_entry e)) = inline_hash e) \<and>
     (\<forall>i e. sparse dm data i = Some e \<longrightarrow> d7_hamt_index (inline_hash e) s = i) \<and>
     (\<forall>c\<in>set children. wf_node p (s + 5) c \<and> \<not> is_leaf c) \<and>
     (\<forall>i c. sparse nm children i = Some c \<longrightarrow> (\<forall>h\<in>node_hashes c. d7_hamt_index h s = i)) \<and>
     (2 \<le> length data + length children \<or> (data = [] \<and> (\<exists>c. children = [c] \<and> is_bitmap c))) \<and>
     n = bitmap_count data children"

text \<open>All hashes below a node at shift \<open>s\<close> reached on the path of \<open>h\<close> agree with \<open>h\<close> on that path.\<close>

definition on_path :: "u32 \<Rightarrow> nat \<Rightarrow> ('k, 'v) d7_hamt_node \<Rightarrow> bool" where
  "on_path h s n \<longleftrightarrow> (\<forall>h'\<in>node_hashes n. take_bit s h' = take_bit s h)"

lemma on_path_0 [simp]: "on_path h 0 n"
  by (simp add: on_path_def)

lemma wf_disjoint:
  "dm AND nm = (0 :: u32) \<Longrightarrow> bit dm i \<Longrightarrow> \<not> bit nm i"
  by (metis bit_0_eq bit_and_iff bot_apply bot_bool_def)

lemma on_path_child:
  assumes "wf_node p s (Bitmap_Indexed a dm nm data children n)"
    and "on_path h s (Bitmap_Indexed a dm nm data children n)"
    and "sparse nm children (d7_hamt_index h s) = Some c"
  shows "on_path h (s + 5) c"
proof -
  have "c \<in> set children" using assms(3) by (rule sparse_Some_in_set)
  then show ?thesis
    using assms unfolding on_path_def take_bit_index_step by fastforce
qed

text \<open>The code's lookup computes the meaning of a well-formed node and never reads out of range.\<close>

lemma bitmap_slot:
  assumes "dense b xs"
  shows "b AND d7_hamt_bit (d7_hamt_index h s) \<noteq> 0 \<longleftrightarrow> sparse b xs (d7_hamt_index h s) \<noteq> None"
    and "b AND d7_hamt_bit (d7_hamt_index h s) \<noteq> 0 \<Longrightarrow>
      nth_opt xs (d7_hamt_slot b (d7_hamt_bit (d7_hamt_index h s))) = sparse b xs (d7_hamt_index h s)"
  using assms d7_hamt_index_less [of h s]
  by (simp_all add: and_d7_hamt_bit_nonzero sparse_None d7_hamt_slot_rank sparse_nth_opt)

lemma d7_hamt_find_look: "wf_node p s n \<Longrightarrow> d7_hamt_find p n h s key = Inr (look p n h s key)"
proof (induction p n h s key rule: d7_hamt_find.induct)
  case (3 p a dm nm data children n hsh s key)
  let ?i = "d7_hamt_index hsh s"
  let ?b = "d7_hamt_bit ?i"
  from 3(2) have dense: "dense dm data" "dense nm children" by simp_all
  show ?case
  proof (cases "sparse dm data ?i")
    case (Some e)
    then show ?thesis using bitmap_slot [OF dense(1), of hsh s] by (simp add: Let_def)
  next
    case None
    then have dm: "dm AND ?b = 0" using bitmap_slot(1) [OF dense(1), of hsh s] by auto
    show ?thesis
    proof (cases "sparse nm children ?i")
      case None
      then have "nm AND ?b = 0" using bitmap_slot(1) [OF dense(2), of hsh s] by auto
      then show ?thesis using dm None \<open>sparse dm data ?i = None\<close> by (simp add: Let_def)
    next
      case (Some c)
      then have nm: "nm AND ?b \<noteq> 0" using bitmap_slot(1) [OF dense(2), of hsh s] by auto
      have nth: "nth_opt children (d7_hamt_slot nm ?b) = Some c"
        using bitmap_slot(2) [OF dense(2) nm] Some by simp
      have "wf_node p (s + 5) c" using 3(2) Some by (auto dest: sparse_Some_in_set)
      then have "d7_hamt_find p c hsh (s + 5) key = Inr (look p c hsh (s + 5) key)"
        using 3(1) [OF refl _ _ nth] dm nm by simp
      then show ?thesis using dm nm nth Some \<open>sparse dm data ?i = None\<close> by (simp add: Let_def)
    qed
  qed
qed auto

end
