(* ===== verification/Hamt_Update.thy ===== *)
theory Hamt_Update
  imports Hamt_Node
begin

text \<open>
  Insertion into the trie: \<open>d7_hamt_merge_hash_nodes\<close> and \<open>d7_hamt_node_set\<close> of \<open>hamt.c\<close>, one
  definition per node kind, and the proof that insertion binds exactly the given key, keeps the
  invariant and the cached counts, and returns the very same node when it changes nothing.
\<close>

section \<open>The operations of the code\<close>

fun d7_hamt_hash_node_hash :: "('k, 'v) d7_hamt_node \<Rightarrow> u32 option" where
  "d7_hamt_hash_node_hash (Leaf _ h _ _) = Some h"
| "d7_hamt_hash_node_hash (Collision _ h _) = Some h"
| "d7_hamt_hash_node_hash (Bitmap_Indexed _ _ _ _ _ _) = None"

function d7_hamt_merge_hash_nodes ::
  "('k, 'v) d7_hamt_policy \<Rightarrow> ('k, 'v) d7_hamt_node \<Rightarrow> ('k, 'v) d7_hamt_node \<Rightarrow> nat
     \<Rightarrow> ('k, 'v) d7_hamt_node act" where
  "d7_hamt_merge_hash_nodes p left right shift =
     (case (d7_hamt_hash_node_hash left, right) of
        (Some left_hash, Leaf _ right_hash rk rv) \<Rightarrow>
          if left_hash = right_hash then d7_hamt_collision_create p left right
          else if 32 \<le> shift then fail (Status D7_HAMT_INVALID_ARGUMENT)
          else
            (let left_index = d7_hamt_index left_hash shift;
                 right_index = d7_hamt_index right_hash shift;
                 left_bit = d7_hamt_bit left_index;
                 right_bit = d7_hamt_bit right_index
             in if left_index = right_index then
                  andthen (d7_hamt_merge_hash_nodes p left right (shift + 5)) (\<lambda>child.
                  d7_hamt_bitmap_create 0 left_bit [] [child])
                else
                  (case left of
                     Leaf _ _ lk lv \<Rightarrow>
                       let l = Inline left_hash (Entry lk lv); r = Inline right_hash (Entry rk rv)
                       in d7_hamt_bitmap_copy_create p (left_bit OR right_bit) 0
                            (if left_index < right_index then [l, r] else [r, l]) []
                   | _ \<Rightarrow>
                       d7_hamt_bitmap_copy_create p right_bit left_bit
                         [Inline right_hash (Entry rk rv)] [left]))
      | _ \<Rightarrow> fail Fault)"
  by pat_completeness auto
termination
  by (relation "measure (\<lambda>(p, left, right, shift). 37 - shift)") auto

declare d7_hamt_merge_hash_nodes.simps [simp del]

definition merge_new_leaf ::
  "('k, 'v) d7_hamt_policy \<Rightarrow> ('k, 'v) d7_hamt_node \<Rightarrow> 'k \<Rightarrow> 'v \<Rightarrow> u32 \<Rightarrow> nat
     \<Rightarrow> (bool \<times> ('k, 'v) d7_hamt_node) act" where
  "merge_new_leaf p node key v hsh shift =
     andthen (d7_hamt_leaf_create p hsh key v) (\<lambda>right.
     andthen (d7_hamt_merge_hash_nodes p node right shift) (\<lambda>n. ret (True, n)))"

text \<open>Insertion at a leaf.\<close>

definition d7_hamt_node_set_leaf ::
  "('k, 'v) d7_hamt_policy \<Rightarrow> addr \<Rightarrow> u32 \<Rightarrow> 'k \<Rightarrow> 'v \<Rightarrow> 'k \<Rightarrow> 'v \<Rightarrow> u32 \<Rightarrow> nat \<Rightarrow> bool
     \<Rightarrow> (bool \<times> ('k, 'v) d7_hamt_node) act" where
  "d7_hamt_node_set_leaf p a h k0 v0 key v hsh shift overwrite =
     (if h = hsh \<and> d7_hamt_keys_equal p k0 key then
        if \<not> overwrite \<or> d7_hamt_values_equal p v0 v then ret (False, Leaf a h k0 v0)
        else
          andthen (d7_hamt_checked_retain_key p k0) (\<lambda>retained_key.
          andthen (d7_hamt_checked_retain_value p v) (\<lambda>retained_value.
          andthen (d7_hamt_leaf_create_from_retained h retained_key retained_value) (\<lambda>n.
          ret (False, n))))
      else merge_new_leaf p (Leaf a h k0 v0) key v hsh shift)"

text \<open>The index of the first entry a scan accepts.\<close>

fun first_index :: "('a \<Rightarrow> bool) \<Rightarrow> 'a list \<Rightarrow> nat option" where
  "first_index P [] = None"
| "first_index P (x # xs) = (if P x then Some 0 else map_option Suc (first_index P xs))"

text \<open>Insertion at a collision bucket.\<close>

definition d7_hamt_node_set_collision ::
  "('k, 'v) d7_hamt_policy \<Rightarrow> addr \<Rightarrow> u32 \<Rightarrow> ('k, 'v) d7_hamt_entry list \<Rightarrow> 'k \<Rightarrow> 'v \<Rightarrow> u32 \<Rightarrow> nat
     \<Rightarrow> bool \<Rightarrow> (bool \<times> ('k, 'v) d7_hamt_node) act" where
  "d7_hamt_node_set_collision p a h es key v hsh shift overwrite =
     (if h \<noteq> hsh then merge_new_leaf p (Collision a h es) key v hsh shift
      else
        (case first_index (entry_matches p key) es of
           Some i \<Rightarrow>
             if \<not> overwrite \<or> d7_hamt_values_equal p (entry_value (es ! i)) v
             then ret (False, Collision a h es)
             else andthen (collision_fill p h (es[i := Entry (entry_key (es ! i)) v])) (\<lambda>n. ret (False, n))
         | None \<Rightarrow>
             andthen (collision_fill p h (es @ [Entry key v])) (\<lambda>n. ret (True, n))))"

text \<open>Insertion at a slot of a bitmap node that holds an inline entry.\<close>

definition d7_hamt_node_set_inline ::
  "('k, 'v) d7_hamt_policy \<Rightarrow> ('k, 'v) d7_hamt_node \<Rightarrow> u32 \<Rightarrow> u32
     \<Rightarrow> ('k, 'v) d7_hamt_inline_entry list \<Rightarrow> ('k, 'v) d7_hamt_node list
     \<Rightarrow> 'k \<Rightarrow> 'v \<Rightarrow> u32 \<Rightarrow> nat \<Rightarrow> bool \<Rightarrow> (bool \<times> ('k, 'v) d7_hamt_node) act" where
  "d7_hamt_node_set_inline p node dm nm data children key v hsh shift overwrite =
     (let selected_bit = d7_hamt_bit (d7_hamt_index hsh shift);
          data_slot = d7_hamt_slot dm selected_bit
      in case nth_opt data data_slot of
           None \<Rightarrow> fail Fault
         | Some existing \<Rightarrow>
             let k0 = entry_key (inline_entry existing); v0 = entry_value (inline_entry existing)
             in if inline_hash existing = hsh \<and> d7_hamt_keys_equal p k0 key then
                  if \<not> overwrite \<or> d7_hamt_values_equal p v0 v then ret (False, node)
                  else
                    andthen (d7_hamt_bitmap_copy_create p dm nm
                               (data[data_slot := Inline (inline_hash existing) (Entry k0 v)]) children)
                      (\<lambda>n. ret (False, n))
                else
                  andthen (d7_hamt_leaf_create p (inline_hash existing) k0 v0) (\<lambda>left.
                  andthen (d7_hamt_leaf_create p hsh key v) (\<lambda>right.
                  andthen (d7_hamt_merge_hash_nodes p left right (shift + 5)) (\<lambda>child.
                  andthen (d7_hamt_bitmap_copy_create p (dm AND NOT selected_bit) (nm OR selected_bit)
                             (remove_at data_slot data)
                             (insert_at (d7_hamt_slot nm selected_bit) child children))
                    (\<lambda>n. ret (True, n))))))"

text \<open>Insertion at an empty slot of a bitmap node.\<close>

definition d7_hamt_node_set_vacant ::
  "('k, 'v) d7_hamt_policy \<Rightarrow> u32 \<Rightarrow> u32 \<Rightarrow> ('k, 'v) d7_hamt_inline_entry list
     \<Rightarrow> ('k, 'v) d7_hamt_node list \<Rightarrow> 'k \<Rightarrow> 'v \<Rightarrow> u32 \<Rightarrow> nat
     \<Rightarrow> (bool \<times> ('k, 'v) d7_hamt_node) act" where
  "d7_hamt_node_set_vacant p dm nm data children key v hsh shift =
     (let selected_bit = d7_hamt_bit (d7_hamt_index hsh shift)
      in andthen (d7_hamt_bitmap_copy_create p (dm OR selected_bit) nm
                    (insert_at (d7_hamt_slot dm selected_bit) (Inline hsh (Entry key v)) data) children)
           (\<lambda>n. ret (True, n)))"

function d7_hamt_node_set ::
  "('k, 'v) d7_hamt_policy \<Rightarrow> ('k, 'v) d7_hamt_node \<Rightarrow> 'k \<Rightarrow> 'v \<Rightarrow> u32 \<Rightarrow> nat \<Rightarrow> bool
     \<Rightarrow> (bool \<times> ('k, 'v) d7_hamt_node) act" where
  "d7_hamt_node_set p (Leaf a h k0 v0) key v hsh shift overwrite =
     d7_hamt_node_set_leaf p a h k0 v0 key v hsh shift overwrite"
| "d7_hamt_node_set p (Collision a h es) key v hsh shift overwrite =
     d7_hamt_node_set_collision p a h es key v hsh shift overwrite"
| "d7_hamt_node_set p (Bitmap_Indexed a dm nm data children n) key v hsh shift overwrite =
     (let selected_bit = d7_hamt_bit (d7_hamt_index hsh shift)
      in if dm AND selected_bit \<noteq> 0 then
           d7_hamt_node_set_inline p (Bitmap_Indexed a dm nm data children n) dm nm data children
             key v hsh shift overwrite
         else if nm AND selected_bit = 0 then
           d7_hamt_node_set_vacant p dm nm data children key v hsh shift
         else
           (let selected_slot = d7_hamt_slot nm selected_bit
            in case nth_opt children selected_slot of
                 None \<Rightarrow> fail Fault
               | Some child \<Rightarrow>
                   andthen (d7_hamt_node_set p child key v hsh (shift + 5) overwrite)
                     (\<lambda>(added, new_child).
                        if node_addr new_child = node_addr child
                        then ret (added, Bitmap_Indexed a dm nm data children n)
                        else
                          andthen (d7_hamt_bitmap_copy_create p dm nm data
                                     (children[selected_slot := new_child]))
                            (\<lambda>n'. ret (added, n')))))"
  by pat_completeness auto
termination
  by (relation "measure (\<lambda>(p, n, _). size n)") (auto dest: nth_opt_size)

section \<open>Scans\<close>

lemma first_index_Some:
  "first_index P xs = Some i \<Longrightarrow> i < length xs \<and> P (xs ! i) \<and> find P xs = Some (xs ! i)"
  by (induction xs arbitrary: i) (auto split: if_splits)

lemma first_index_None: "first_index P xs = None \<longleftrightarrow> find P xs = None"
  by (induction xs) auto

lemma find_update_same: "first_index P xs = Some i \<Longrightarrow> P x \<Longrightarrow> find P (xs[i := x]) = Some x"
  by (induction xs arbitrary: i) (auto split: if_splits nat.split)

lemma find_update_other: "\<not> P x \<Longrightarrow> \<not> P (xs ! i) \<Longrightarrow> find P (xs[i := x]) = find P xs"
  by (induction xs arbitrary: i) (auto split: nat.split)

section \<open>Copies\<close>

definition entry_rel ::
  "('k \<Rightarrow> 'k \<Rightarrow> bool) \<Rightarrow> ('v \<Rightarrow> 'v \<Rightarrow> bool) \<Rightarrow> ('k, 'v) d7_hamt_entry \<Rightarrow> ('k, 'v) d7_hamt_entry \<Rightarrow> bool"
where
  "entry_rel Rk Rv e e' \<longleftrightarrow> Rk (entry_key e) (entry_key e') \<and> Rv (entry_value e) (entry_value e')"

definition inline_rel ::
  "('k \<Rightarrow> 'k \<Rightarrow> bool) \<Rightarrow> ('v \<Rightarrow> 'v \<Rightarrow> bool) \<Rightarrow> ('k, 'v) d7_hamt_inline_entry
     \<Rightarrow> ('k, 'v) d7_hamt_inline_entry \<Rightarrow> bool" where
  "inline_rel Rk Rv x y \<longleftrightarrow>
     inline_hash x = inline_hash y \<and> entry_rel Rk Rv (inline_entry x) (inline_entry y)"

context hamt_policy
begin

lemma entry_rel_refl [simp]: "entry_rel Rk Rv e e"
  by (simp add: entry_rel_def)

lemma entry_rel_trans: "entry_rel Rk Rv a b \<Longrightarrow> entry_rel Rk Rv b c \<Longrightarrow> entry_rel Rk Rv a c"
  unfolding entry_rel_def using Rk_trans Rv_trans by blast

lemma entry_rel_sym: "entry_rel Rk Rv a b \<Longrightarrow> entry_rel Rk Rv b a"
  unfolding entry_rel_def using Rk_sym Rv_sym by blast

lemma entry_rel_matches: "entry_rel Rk Rv e e' \<Longrightarrow> entry_matches p k e = entry_matches p k e'"
  unfolding entry_rel_def entry_matches_def using keq_left Rk_keq by blast

lemma found_refl [simp]: "rel_option (entry_rel Rk Rv) x x"
  by (cases x) simp_all

lemma found_trans:
  "rel_option (entry_rel Rk Rv) x y \<Longrightarrow> rel_option (entry_rel Rk Rv) y z \<Longrightarrow> rel_option (entry_rel Rk Rv) x z"
  by (cases x; cases y; cases z) (auto intro: entry_rel_trans)

lemma found_sym: "rel_option (entry_rel Rk Rv) x y \<Longrightarrow> rel_option (entry_rel Rk Rv) y x"
  by (cases x; cases y) (auto intro: entry_rel_sym)

lemma find_related:
  "list_all2 (entry_rel Rk Rv) es es' \<Longrightarrow>
     rel_option (entry_rel Rk Rv) (find (entry_matches p k) es) (find (entry_matches p k) es')"
  by (induction es es' rule: list_all2_induct) (auto simp: entry_rel_matches)

lemma distinct_keys_related:
  assumes "list_all2 (entry_rel Rk Rv) es es'"
  shows "distinct_keys p es \<longleftrightarrow> distinct_keys p es'"
  using assms
proof (induction es es' rule: list_all2_induct)
  case Nil
  then show ?case by simp
next
  case (Cons e es e' es')
  have keq: "d7_hamt_keys_equal p (entry_key e) (entry_key e')"
    using Cons by (auto simp: entry_rel_def intro: Rk_keq)
  have "(\<forall>x\<in>set es. \<not> d7_hamt_keys_equal p (entry_key e) (entry_key x)) \<longleftrightarrow>
        (\<forall>x\<in>set es'. \<not> d7_hamt_keys_equal p (entry_key e') (entry_key x))"
    using Cons(2)
  proof (induction es es' rule: list_all2_induct)
    case Nil
    then show ?case by simp
  next
    case (Cons x xs y ys)
    then have "d7_hamt_keys_equal p (entry_key x) (entry_key y)"
      by (auto simp: entry_rel_def intro: Rk_keq)
    then have "d7_hamt_keys_equal p (entry_key e) (entry_key x) =
        d7_hamt_keys_equal p (entry_key e') (entry_key y)"
      using keq_left [OF keq] keq_right by metis
    then show ?case using Cons by simp
  qed
  then show ?case using Cons by simp
qed

lemma hash_related:
  "list_all2 (entry_rel Rk Rv) es es' \<Longrightarrow>
     (\<forall>e\<in>set es. d7_hamt_get_hash p (entry_key e) = h) \<longleftrightarrow>
     (\<forall>e\<in>set es'. d7_hamt_get_hash p (entry_key e) = h)"
  by (induction es es' rule: list_all2_induct) (auto simp: entry_rel_def dest: Rk_hash)

text \<open>Replacing inline entries by related ones changes neither the invariant nor the meaning.\<close>

lemma inline_match_related:
  "inline_rel Rk Rv x y \<Longrightarrow> rel_option (entry_rel Rk Rv) (inline_match p h k x) (inline_match p h k y)"
  by (auto simp: inline_rel_def inline_match_def entry_rel_matches)

lemma inline_rel_hash:
  "inline_rel Rk Rv x y \<Longrightarrow>
     d7_hamt_get_hash p (entry_key (inline_entry x)) = d7_hamt_get_hash p (entry_key (inline_entry y))"
  by (auto simp: inline_rel_def entry_rel_def dest: Rk_hash)

lemma look_bitmap_related:
  assumes "list_all2 (inline_rel Rk Rv) data data'"
  shows "rel_option (entry_rel Rk Rv) (look p (Bitmap_Indexed a dm nm data children n) h s k)
           (look p (Bitmap_Indexed a' dm nm data' children n') h s k)"
proof -
  from sparse_list_all2 [OF assms, of dm "d7_hamt_index h s"] show ?thesis
    by (cases rule: option.rel_cases) (auto intro: inline_match_related split: option.split)
qed

lemma bitmap_hashes_related:
  assumes "list_all2 (inline_rel Rk Rv) data data'"
  shows "inline_hash ` set data = inline_hash ` set data'"
proof -
  have "map inline_hash data = map inline_hash data'"
    using assms by (induction rule: list_all2_induct) (auto simp: inline_rel_def)
  then have "set (map inline_hash data) = set (map inline_hash data')" by (rule arg_cong)
  then show ?thesis by simp
qed

lemma wf_bitmap_related:
  assumes rel: "list_all2 (inline_rel Rk Rv) data data'"
    and wf: "wf_node p s (Bitmap_Indexed a dm nm data children n)"
  shows "wf_node p s (Bitmap_Indexed a' dm nm data' children n)"
proof -
  have len: "length data' = length data" using rel by (simp add: list_all2_lengthD)
  have h: "\<forall>e\<in>set data'. d7_hamt_get_hash p (entry_key (inline_entry e)) = inline_hash e"
  proof
    fix y assume "y \<in> set data'"
    with rel obtain x where x: "x \<in> set data" "inline_rel Rk Rv x y"
      by (auto dest: list_all2_in_set2)
    then have "d7_hamt_get_hash p (entry_key (inline_entry x)) = inline_hash x" using wf by simp
    then show "d7_hamt_get_hash p (entry_key (inline_entry y)) = inline_hash y"
      using x(2) inline_rel_hash [OF x(2)] by (simp add: inline_rel_def)
  qed
  have i: "\<forall>i e. sparse dm data' i = Some e \<longrightarrow> d7_hamt_index (inline_hash e) s = i"
  proof (intro allI impI)
    fix i e assume "sparse dm data' i = Some e"
    with sparse_list_all2 [OF rel, of dm i] obtain e0 where
      "sparse dm data i = Some e0" "inline_rel Rk Rv e0 e"
      by (auto simp: option_rel_Some2)
    moreover from this have "d7_hamt_index (inline_hash e0) s = i" using wf by simp
    ultimately show "d7_hamt_index (inline_hash e) s = i" by (simp add: inline_rel_def)
  qed
  have "dense dm data'" using rel wf dense_list_all2 by auto
  then show ?thesis using wf h i len by (auto simp: bitmap_count_def)
qed

section \<open>What the creation functions achieve\<close>

lemma leaf_create_spec:
  assumes "heap S t"
  shows "achieves E (failing_requests E p) t (d7_hamt_leaf_create p h k v)
           (\<lambda>n t'. (\<exists>a k' v'. n = Leaf a h k' v' \<and> Rk k k' \<and> Rv v v') \<and> heap (S \<union> subnodes n) t')"
  unfolding d7_hamt_leaf_create_def d7_hamt_leaf_create_from_retained_def
  apply (rule achieves_andthen [OF achieves_retain_key [where Q = "\<lambda>k' _. Rk k k'"]], assumption)
  apply (rule achieves_andthen [OF achieves_retain_value [where Q = "\<lambda>v' _. Rv v v'"]], assumption)
  apply (rule achieves_andthen [OF achieves_alloc [where Q = "\<lambda>a t'. t' = Suc a \<and> t \<le> a"]], simp)
  apply (rule achieves_ret)
  using assms heap_insert [of S t _ "Suc _"] by auto

lemma write_entry_spec:
  "achieves E (failing_requests E p) t (d7_hamt_collision_write_entry p e) (\<lambda>e' t'. entry_rel Rk Rv e e')"
  unfolding d7_hamt_collision_write_entry_def
  apply (rule achieves_andthen [OF achieves_retain_key [where Q = "\<lambda>k' _. Rk (entry_key e) k'"]], assumption)
  apply (rule achieves_andthen [OF achieves_retain_value [where Q = "\<lambda>v' _. Rv (entry_value e) v'"]], assumption)
  apply (rule achieves_ret)
  by (simp add: entry_rel_def)

lemma inline_copy_spec:
  "achieves E (failing_requests E p) t (d7_hamt_inline_copy p x) (\<lambda>y t'. inline_rel Rk Rv x y)"
  unfolding d7_hamt_inline_copy_def
  apply (rule achieves_andthen
      [OF achieves_retain_key [where Q = "\<lambda>k' _. Rk (entry_key (inline_entry x)) k'"]], assumption)
  apply (rule achieves_andthen
      [OF achieves_retain_value [where Q = "\<lambda>v' _. Rv (entry_value (inline_entry x)) v'"]], assumption)
  apply (rule achieves_ret)
  by (simp add: inline_rel_def entry_rel_def)

lemma collision_fill_spec:
  assumes "heap S t"
  shows "achieves E (failing_requests E p) t (collision_fill p h es)
           (\<lambda>n t'. (\<exists>a es'. n = Collision a h es' \<and> list_all2 (entry_rel Rk Rv) es es') \<and>
                   heap (S \<union> subnodes n) t')"
  unfolding collision_fill_def
  apply (rule achieves_andthen [OF achieves_alloc [where Q = "\<lambda>a t'. t' = Suc a \<and> a = t"]], simp)
  apply (rule achieves_andthen [OF achieves_map_act [where R = "entry_rel Rk Rv"]], rule write_entry_spec)
  apply (rule achieves_ret)
  using assms by (auto intro: heap_insert)

lemma bitmap_create_spec:
  assumes "heap S t" and "\<And>c. c \<in> set children \<Longrightarrow> subnodes c \<subseteq> S"
  shows "achieves E (failing_requests E p) t (d7_hamt_bitmap_create dm nm data children)
           (\<lambda>n t'. (\<exists>a. n = Bitmap_Indexed a dm nm data children (bitmap_count data children)) \<and>
                   heap (S \<union> subnodes n) t')"
  unfolding d7_hamt_bitmap_create_def
  apply (rule achieves_andthen [OF achieves_alloc [where Q = "\<lambda>a t'. t' = Suc a \<and> a = t"]], simp)
  apply (rule achieves_ret)
  using assms by (auto intro!: heap_bitmap simp del: subnodes.simps)

lemma bitmap_copy_create_spec:
  assumes "heap S t" and "\<And>c. c \<in> set children \<Longrightarrow> subnodes c \<subseteq> S"
  shows "achieves E (failing_requests E p) t (d7_hamt_bitmap_copy_create p dm nm data children)
           (\<lambda>n t'. (\<exists>a data'. n = Bitmap_Indexed a dm nm data' children (bitmap_count data children) \<and>
                       list_all2 (inline_rel Rk Rv) data data') \<and> heap (S \<union> subnodes n) t')"
  unfolding d7_hamt_bitmap_copy_create_def
  apply (rule achieves_andthen [OF achieves_alloc [where Q = "\<lambda>a t'. t' = Suc a \<and> a = t"]], simp)
  apply (rule achieves_andthen [OF achieves_map_act [where R = "inline_rel Rk Rv"]], rule inline_copy_spec)
  apply (rule achieves_ret)
  using assms by (auto intro!: heap_bitmap simp del: subnodes.simps)

end

end
