(* ===== verification/Hamt_Insert.thy ===== *)
theory Hamt_Insert
  imports Hamt_Update
begin

text \<open>
  Correctness of insertion. Each case of the code is first judged on the node it is about to copy
  (\<open>set_ok\<close> for the node before its inline entries are retained again), then transferred to the copy.
\<close>

definition bound_entry ::
  "bool \<Rightarrow> 'k \<Rightarrow> 'v \<Rightarrow> ('k, 'v) d7_hamt_entry option \<Rightarrow> ('k, 'v) d7_hamt_entry" where
  "bound_entry overwrite k v old =
     (case old of None \<Rightarrow> Entry k v | Some e \<Rightarrow> if overwrite then Entry (entry_key e) v else e)"

text \<open>\<open>n'\<close> is \<open>n\<close> with \<open>k\<close> bound: only that key's binding changes, a key already present keeps its
  stored representative, and the count grows exactly when the key was absent.\<close>

definition set_ok ::
  "('k, 'v) d7_hamt_policy \<Rightarrow> ('k \<Rightarrow> 'k \<Rightarrow> bool) \<Rightarrow> ('v \<Rightarrow> 'v \<Rightarrow> bool) \<Rightarrow> nat \<Rightarrow> ('k, 'v) d7_hamt_node
     \<Rightarrow> 'k \<Rightarrow> 'v \<Rightarrow> bool \<Rightarrow> ('k, 'v) d7_hamt_node \<Rightarrow> bool" where
  "set_ok p Rk Rv s n k v overwrite n' \<longleftrightarrow>
     wf_node p s n' \<and>
     node_hashes n' \<subseteq> insert (d7_hamt_get_hash p k) (node_hashes n) \<and>
     subtree_count n' =
       subtree_count n + (if look p n (d7_hamt_get_hash p k) s k = None then 1 else 0) \<and>
     (is_bitmap n \<longrightarrow> is_bitmap n') \<and> (is_leaf n' \<longrightarrow> is_leaf n) \<and>
     (\<forall>k'. rel_option (entry_rel Rk Rv) (look p n' (d7_hamt_get_hash p k') s k')
        (if d7_hamt_keys_equal p k k'
         then Some (bound_entry overwrite k v (look p n (d7_hamt_get_hash p k) s k))
         else look p n (d7_hamt_get_hash p k') s k'))"

text \<open>The binding is there already: the key is present and either it must not be overwritten or its
  value equals the new one.\<close>

definition set_noop ::
  "('k, 'v) d7_hamt_policy \<Rightarrow> ('k, 'v) d7_hamt_node \<Rightarrow> 'k \<Rightarrow> 'v \<Rightarrow> u32 \<Rightarrow> nat \<Rightarrow> bool \<Rightarrow> bool" where
  "set_noop p n k v h s ov \<longleftrightarrow>
     (case look p n h s k of None \<Rightarrow> False | Some e \<Rightarrow> \<not> ov \<or> d7_hamt_values_equal p (entry_value e) v)"

lemma set_okI:
  assumes "wf_node p s n'"
    and "node_hashes n' \<subseteq> insert (d7_hamt_get_hash p k) (node_hashes n)"
    and "subtree_count n' =
       subtree_count n + (if look p n (d7_hamt_get_hash p k) s k = None then 1 else 0)"
    and "is_bitmap n \<Longrightarrow> is_bitmap n'" and "is_leaf n' \<Longrightarrow> is_leaf n"
    and "\<And>k'. d7_hamt_keys_equal p k k' \<Longrightarrow>
       rel_option (entry_rel Rk Rv) (look p n' (d7_hamt_get_hash p k') s k')
         (Some (bound_entry overwrite k v (look p n (d7_hamt_get_hash p k) s k)))"
    and "\<And>k'. \<not> d7_hamt_keys_equal p k k' \<Longrightarrow>
       rel_option (entry_rel Rk Rv) (look p n' (d7_hamt_get_hash p k') s k')
         (look p n (d7_hamt_get_hash p k') s k')"
  shows "set_ok p Rk Rv s n k v overwrite n'"
  using assms unfolding set_ok_def by presburger

lemma set_okD:
  assumes "set_ok p Rk Rv s n k v overwrite n'"
  shows set_ok_wf: "wf_node p s n'"
    and set_ok_hashes: "node_hashes n' \<subseteq> insert (d7_hamt_get_hash p k) (node_hashes n)"
    and set_ok_count: "subtree_count n' =
       subtree_count n + (if look p n (d7_hamt_get_hash p k) s k = None then 1 else 0)"
    and set_ok_bitmap: "is_bitmap n \<Longrightarrow> is_bitmap n'" and set_ok_leaf: "is_leaf n' \<Longrightarrow> is_leaf n"
    and set_ok_same: "d7_hamt_keys_equal p k k' \<Longrightarrow>
       rel_option (entry_rel Rk Rv) (look p n' (d7_hamt_get_hash p k') s k')
         (Some (bound_entry overwrite k v (look p n (d7_hamt_get_hash p k) s k)))"
    and set_ok_other: "\<not> d7_hamt_keys_equal p k k' \<Longrightarrow>
       rel_option (entry_rel Rk Rv) (look p n' (d7_hamt_get_hash p k') s k')
         (look p n (d7_hamt_get_hash p k') s k')"
  using assms unfolding set_ok_def by presburger+

context hamt_policy
begin

lemma look_keq:
  assumes "d7_hamt_keys_equal p k k'"
  shows "look p n h s k = look p n h s k'"
proof -
  have "entry_matches p k = entry_matches p k'"
    using keq_right [OF assms] by (auto simp: entry_matches_def fun_eq_iff)
  moreover have "d7_hamt_keys_equal p x k = d7_hamt_keys_equal p x k'" for x
    using keq_right [OF assms] .
  ultimately show ?thesis
    by (induction n arbitrary: s)
       (auto simp: inline_match_def split: option.split dest: sparse_Some_in_set)
qed

lemma look_key:
  "look p n h s k = Some e \<Longrightarrow> d7_hamt_keys_equal p (entry_key e) k"
proof (induction n arbitrary: s)
  case (Collision a h' es)
  then show ?case by (auto simp: find_Some_iff entry_matches_def split: if_splits)
qed (auto simp: inline_match_def entry_matches_def split: if_splits option.splits dest: sparse_Some_in_set)

text \<open>An entry can only be found where its hash occurs.\<close>

lemma look_hash: "look p n h s k \<noteq> None \<Longrightarrow> h \<in> node_hashes n"
proof (induction n arbitrary: s)
  case (Bitmap_Indexed a dm nm data children n)
  then show ?case
    by (auto simp: inline_match_def split: if_splits option.splits dest!: sparse_Some_in_set)
qed (auto split: if_splits)

lemma set_ok_copy:
  assumes "set_ok p Rk Rv s m k v ov (Bitmap_Indexed a dm nm data children n)"
    and rel: "list_all2 (inline_rel Rk Rv) data data'"
  shows "set_ok p Rk Rv s m k v ov (Bitmap_Indexed a' dm nm data' children n)"
proof -
  have "rel_option (entry_rel Rk Rv) (look p (Bitmap_Indexed a' dm nm data' children n) h s k')
      (look p (Bitmap_Indexed a dm nm data children n) h s k')" for h k'
    by (rule found_sym [OF look_bitmap_related [OF rel]])
  then have "rel_option (entry_rel Rk Rv) (look p (Bitmap_Indexed a' dm nm data' children n) h s k') y"
    if "rel_option (entry_rel Rk Rv) (look p (Bitmap_Indexed a dm nm data children n) h s k') y" for h k' y
    using that by (rule found_trans)
  moreover have "node_hashes (Bitmap_Indexed a' dm nm data' children n) =
      node_hashes (Bitmap_Indexed a dm nm data children n)"
    using bitmap_hashes_related [OF rel] by simp
  ultimately show ?thesis
    using assms(1) wf_bitmap_related [OF rel] unfolding set_ok_def by (metis is_bitmap.simps(1) is_leaf.simps(3) subtree_count.simps(3))
qed

text \<open>Binding a retained copy of a key and value is binding the key and value.\<close>

lemma set_ok_retained:
  assumes "set_ok p Rk Rv s n k' v' ov n'" and Rk: "Rk k k'" and Rv: "Rv v v'"
  shows "set_ok p Rk Rv s n k v ov n'"
proof -
  have keq: "d7_hamt_keys_equal p k k'" using Rk by (rule Rk_keq)
  note ok = assms(1) and eqs = keq_hash [OF keq] look_keq [OF keq]
  have bound: "entry_rel Rk Rv (bound_entry ov k' v' x) (bound_entry ov k v x)" for x
    using Rk Rv Rk_sym Rv_sym by (auto simp: bound_entry_def entry_rel_def split: option.split)
  show ?thesis
  proof (rule set_okI)
    fix k'' assume "d7_hamt_keys_equal p k k''"
    then have "d7_hamt_keys_equal p k' k''" using keq_left [OF keq] by blast
    from set_ok_same [OF ok this]
    show "rel_option (entry_rel Rk Rv) (look p n' (d7_hamt_get_hash p k'') s k'')
         (Some (bound_entry ov k v (look p n (d7_hamt_get_hash p k) s k)))"
      by (rule found_trans) (simp add: bound eqs)
  next
    fix k'' assume "\<not> d7_hamt_keys_equal p k k''"
    then have "\<not> d7_hamt_keys_equal p k' k''" using keq_left [OF keq] by blast
    then show "rel_option (entry_rel Rk Rv) (look p n' (d7_hamt_get_hash p k'') s k'')
         (look p n (d7_hamt_get_hash p k'') s k'')"
      by (rule set_ok_other [OF ok])
  qed (use set_okD(1-5) [OF ok] eqs in auto)
qed

subsection \<open>Slots of a bitmap node\<close>

lemma set_ok_vacant:
  fixes a dm nm data children n s k and v :: 'v
  defines "N \<equiv> Bitmap_Indexed a dm nm data children n"
    and "i \<equiv> d7_hamt_index (d7_hamt_get_hash p k) s"
    and "x \<equiv> Inline (d7_hamt_get_hash p k) (Entry k v)"
  assumes wf: "wf_node p s N"
    and vacant: "sparse dm data i = None" "sparse nm children i = None"
  shows "set_ok p Rk Rv s N k v ov
           (Bitmap_Indexed a' (dm OR d7_hamt_bit i) nm (insert_at (rank dm i) x data) children
              (bitmap_count (insert_at (rank dm i) x data) children))"
    (is "set_ok _ _ _ _ _ _ _ _ ?N'")
proof -
  have i: "i < 32" by (simp add: i_def d7_hamt_index_less)
  have dense: "dense dm data" "dense nm children" using wf by (simp_all add: N_def)
  have bits: "\<not> bit dm i" "\<not> bit nm i" using vacant dense by (simp_all add: sparse_None)
  note ins = insert_at_dense [OF i bits(1) dense(1), of x]
  have len: "rank dm i \<le> length data" using i dense(1) by (rule rank_le)
  have disj: "(dm OR d7_hamt_bit i) AND nm = 0"
    using wf bits(2) by (simp add: N_def or_bit_disjoint)
  have old: "look p N (d7_hamt_get_hash p k) s k = None"
    using vacant by (simp add: N_def i_def)
  have wf': "wf_node p s ?N'"
    using wf ins disj len by (auto simp: N_def x_def i_def)
  have look: "look p ?N' (d7_hamt_get_hash p k') s k' =
      (if d7_hamt_keys_equal p k k' then Some (Entry k v) else look p N (d7_hamt_get_hash p k') s k')"
    for k'
  proof (cases "d7_hamt_index (d7_hamt_get_hash p k') s = i")
    case True
    then have "look p ?N' (d7_hamt_get_hash p k') s k' = inline_match p (d7_hamt_get_hash p k') k' x"
      by (simp add: ins)
    then show ?thesis
      using True vacant keq_hash [of k k']
      by (auto simp: N_def x_def inline_match_def entry_matches_def)
  next
    case False
    then have "\<not> d7_hamt_keys_equal p k k'" using keq_hash [of k k'] by (auto simp: i_def)
    then show ?thesis using False by (simp add: N_def ins)
  qed
  have bm: "is_bitmap N" "\<not> is_leaf ?N'" by (simp_all add: N_def)
  have "node_hashes ?N' \<subseteq> insert (d7_hamt_get_hash p k) (node_hashes N)"
    by (auto simp: N_def x_def)
  moreover have "subtree_count ?N' = subtree_count N + 1"
    using wf len by (simp add: N_def bitmap_count_def)
  ultimately show ?thesis
    by (intro set_okI wf') (simp_all add: old look bound_entry_def bm del: look.simps subtree_count.simps)
qed

lemma set_ok_replace:
  fixes a dm nm data children n s k e and v :: 'v
  defines "N \<equiv> Bitmap_Indexed a dm nm data children n"
    and "i \<equiv> d7_hamt_index (d7_hamt_get_hash p k) s"
    and "x \<equiv> Inline (inline_hash e) (Entry (entry_key (inline_entry e)) v)"
  assumes wf: "wf_node p s N"
    and slot: "sparse dm data i = Some e"
    and keq: "d7_hamt_keys_equal p (entry_key (inline_entry e)) k"
  shows "set_ok p Rk Rv s N k v True
           (Bitmap_Indexed a' dm nm (data[rank dm i := x]) children
              (bitmap_count (data[rank dm i := x]) children))"
    (is "set_ok _ _ _ _ _ _ _ _ ?N'")
proof -
  have i: "i < 32" by (simp add: i_def d7_hamt_index_less)
  have dense: "dense dm data" using wf by (simp add: N_def)
  have bit: "bit dm i" using slot dense by (metis option.distinct(1) sparse_None)
  note upd = update_dense [OF i bit dense, of x]
  have e: "e \<in> set data" using slot by (rule sparse_Some_in_set)
  have h: "inline_hash e = d7_hamt_get_hash p (entry_key (inline_entry e))"
    "inline_hash e = d7_hamt_get_hash p k"
    using wf e keq_hash [OF keq] by (auto simp: N_def)
  have set': "set (data[rank dm i := x]) \<subseteq> insert x (set data)" by (rule set_update_subset_insert)
  have old: "look p N (d7_hamt_get_hash p k) s k = Some (inline_entry e)"
    using slot keq h by (simp add: N_def i_def inline_match_def entry_matches_def)
  have hashes: "\<forall>y\<in>set (data[rank dm i := x]). d7_hamt_get_hash p (entry_key (inline_entry y)) = inline_hash y"
    using wf set' h by (auto simp: N_def x_def)
  have xh: "inline_hash x = inline_hash e" by (simp add: x_def)
  have index: "\<forall>j y. sparse dm (data[rank dm i := x]) j = Some y \<longrightarrow> d7_hamt_index (inline_hash y) s = j"
    using wf slot by (auto simp: N_def xh upd)
  have "data = [] \<longleftrightarrow> data[rank dm i := x] = []" by simp
  then have wf': "wf_node p s ?N'"
    using wf upd(1) hashes index unfolding N_def wf_node.simps by simp
  have look: "look p ?N' (d7_hamt_get_hash p k') s k' =
      (if d7_hamt_keys_equal p k k' then Some (Entry (entry_key (inline_entry e)) v)
       else look p N (d7_hamt_get_hash p k') s k')" for k'
  proof (cases "d7_hamt_index (d7_hamt_get_hash p k') s = i")
    case True
    then have "look p ?N' (d7_hamt_get_hash p k') s k' = inline_match p (d7_hamt_get_hash p k') k' x"
      and "look p N (d7_hamt_get_hash p k') s k' = inline_match p (d7_hamt_get_hash p k') k' e"
      using slot by (simp_all add: upd N_def)
    then show ?thesis
      using h keq_hash [of k k'] keq_left [OF keq, of k']
      by (auto simp: x_def inline_match_def entry_matches_def)
  next
    case False
    then have "\<not> d7_hamt_keys_equal p k k'" using keq_hash [of k k'] by (auto simp: i_def)
    then show ?thesis using False by (simp add: N_def upd)
  qed
  have bm: "is_bitmap N" "\<not> is_leaf ?N'" by (simp_all add: N_def)
  have "node_hashes ?N' \<subseteq> insert (d7_hamt_get_hash p k) (node_hashes N)"
    using set' h by (auto simp: N_def x_def)
  moreover have "subtree_count ?N' = subtree_count N"
    using wf by (simp add: N_def bitmap_count_def)
  ultimately show ?thesis
    by (intro set_okI wf') (simp_all add: old look bound_entry_def bm del: look.simps subtree_count.simps)
qed

lemma set_ok_split:
  fixes a dm nm data children n s k e c
  defines "N \<equiv> Bitmap_Indexed a dm nm data children n"
    and "i \<equiv> d7_hamt_index (d7_hamt_get_hash p k) s"
  assumes wf: "wf_node p s N"
    and slot: "sparse dm data i = Some e"
    and nkeq: "\<not> (inline_hash e = d7_hamt_get_hash p k \<and> d7_hamt_keys_equal p (entry_key (inline_entry e)) k)"
    and child: "set_ok p Rk Rv (s + 5) l k v ov c" "\<not> is_leaf c"
    and l: "l = Leaf b (inline_hash e) k0 v0" "entry_rel Rk Rv (inline_entry e) (Entry k0 v0)"
  shows "set_ok p Rk Rv s N k v ov
           (Bitmap_Indexed a' (dm AND NOT (d7_hamt_bit i)) (nm OR d7_hamt_bit i)
              (remove_at (rank dm i) data) (insert_at (rank nm i) c children)
              (bitmap_count (remove_at (rank dm i) data) (insert_at (rank nm i) c children)))"
    (is "set_ok _ _ _ _ _ _ _ _ ?N'")
proof -
  let ?h = "d7_hamt_get_hash p"
  have i: "i < 32" by (simp add: i_def d7_hamt_index_less)
  have dense: "dense dm data" "dense nm children" using wf by (simp_all add: N_def)
  have bit: "bit dm i" using slot dense by (metis option.distinct(1) sparse_None)
  have nbit: "\<not> bit nm i" using wf bit wf_disjoint by (auto simp: N_def)
  note rem = remove_at_dense [OF i bit dense(1)] and ins = insert_at_dense [OF i nbit dense(2), of c]
  have lens: "rank dm i < length data" "rank nm i \<le> length children"
    using i bit dense by (simp_all add: rank_less rank_le)
  have e: "e \<in> set data" using slot by (rule sparse_Some_in_set)
  have eh: "?h (entry_key (inline_entry e)) = inline_hash e" "d7_hamt_index (inline_hash e) s = i"
    using wf e slot by (auto simp: N_def)
  have k0: "?h k0 = inline_hash e" "d7_hamt_keys_equal p k0 k' = d7_hamt_keys_equal p (entry_key (inline_entry e)) k'" for k'
    using l(2) eh Rk_hash Rk_keq keq_left by (fastforce simp: entry_rel_def)+
  have lk: "look p l (?h k) (s + 5) k = None"
    using nkeq k0 by (auto simp: l)
  have old: "look p N (?h k) s k = None"
    using slot nkeq by (auto simp: N_def i_def inline_match_def entry_matches_def)
  have c: "wf_node p (s + 5) c" "node_hashes c \<subseteq> {?h k, inline_hash e}" "subtree_count c = 2"
    using child(1) lk by (auto simp: set_ok_def l)
  have disj: "(dm AND NOT (d7_hamt_bit i)) AND (nm OR d7_hamt_bit i) = 0"
    using wf by (simp add: N_def move_bit_disjoint)
  have "length (remove_at (rank dm i) data) + length (insert_at (rank nm i) c children) =
        length data + length children"
    using lens by simp
  moreover have "length data + length children \<ge> 2"
    using wf e by (auto simp: N_def)
  ultimately have wf': "wf_node p s ?N'"
    using wf rem ins disj c child(2) eh(2) set_remove_at [of "rank dm i" data]
    unfolding N_def wf_node.simps by (auto simp: i_def)
  have look: "rel_option (entry_rel Rk Rv) (look p ?N' (?h k') s k')
      (if d7_hamt_keys_equal p k k' then Some (Entry k v) else look p N (?h k') s k')" for k'
  proof (cases "d7_hamt_index (?h k') s = i")
    case True
    have eq: "look p ?N' (?h k') s k' = look p c (?h k') (s + 5) k'"
      using True by (simp add: rem ins)
    have lo: "rel_option (entry_rel Rk Rv) (look p l (?h k') (s + 5) k') (look p N (?h k') s k')"
      using True slot l(2) k0(2) [of k'] entry_rel_sym
      by (auto simp: l(1) N_def inline_match_def entry_matches_def)
    show ?thesis
    proof (cases "d7_hamt_keys_equal p k k'")
      case keq: True
      show ?thesis
        using set_ok_same [OF child(1) keq] unfolding eq lk bound_entry_def option.case if_P [OF keq] .
    next
      case nkeq': False
      show ?thesis
        unfolding eq if_not_P [OF nkeq'] using set_ok_other [OF child(1) nkeq'] lo by (rule found_trans)
    qed
  next
    case False
    then have "\<not> d7_hamt_keys_equal p k k'" using keq_hash [of k k'] by (auto simp: i_def)
    then show ?thesis using False by (auto simp: N_def rem ins split: option.split)
  qed
  have bm: "is_bitmap N" "\<not> is_leaf ?N'" by (simp_all add: N_def)
  have look_same: "rel_option (entry_rel Rk Rv) (look p ?N' (?h k') s k') (Some (Entry k v))"
    if "d7_hamt_keys_equal p k k'" for k'
    using look [of k'] that by presburger
  have look_other: "rel_option (entry_rel Rk Rv) (look p ?N' (?h k') s k') (look p N (?h k') s k')"
    if "\<not> d7_hamt_keys_equal p k k'" for k'
    using look [of k'] that by presburger
  have "node_hashes ?N' \<subseteq> insert (?h k) (node_hashes N)"
    using set_remove_at [of "rank dm i" data] e c(2) by (auto simp: N_def)
  moreover have "subtree_count ?N' = subtree_count N + 1"
    using wf lens c(3) by (simp add: N_def bitmap_count_def sum_list_insert_at)
  ultimately show ?thesis
    using look_same look_other
    by (intro set_okI wf') (simp_all add: old bound_entry_def bm del: look.simps subtree_count.simps)
qed

lemma set_ok_child:
  fixes a dm nm data children n s k c c'
  defines "N \<equiv> Bitmap_Indexed a dm nm data children n"
    and "i \<equiv> d7_hamt_index (d7_hamt_get_hash p k) s"
  assumes wf: "wf_node p s N"
    and vacant: "sparse dm data i = None" and slot: "sparse nm children i = Some c"
    and child: "set_ok p Rk Rv (s + 5) c k v ov c'"
  shows "set_ok p Rk Rv s N k v ov
           (Bitmap_Indexed a' dm nm data (children[rank nm i := c'])
              (bitmap_count data (children[rank nm i := c'])))"
    (is "set_ok _ _ _ _ _ _ _ _ ?N'")
proof -
  let ?h = "d7_hamt_get_hash p"
  have i: "i < 32" by (simp add: i_def d7_hamt_index_less)
  have dense: "dense nm children" using wf by (simp add: N_def)
  have bit: "bit nm i" using slot dense by (metis option.distinct(1) sparse_None)
  note upd = update_dense [OF i bit dense, of c']
  have r: "rank nm i < length children" using i bit dense by (rule rank_less)
  have rc: "children ! rank nm i = c" using slot sparse_nth [OF i bit dense] by simp
  have c: "c \<in> set children" using slot by (rule sparse_Some_in_set)
  have set': "set (children[rank nm i := c']) \<subseteq> insert c' (set children)" by (rule set_update_subset_insert)
  have old: "look p N (?h k) s k = look p c (?h k) (s + 5) k"
    using vacant slot by (simp add: N_def i_def)
  have wfc: "wf_node p (s + 5) c" "\<not> is_leaf c" "\<forall>h\<in>node_hashes c. d7_hamt_index h s = i"
    using wf c slot by (auto simp: N_def)
  have c': "wf_node p (s + 5) c'" "\<not> is_leaf c'" "\<forall>h\<in>node_hashes c'. d7_hamt_index h s = i"
    "is_bitmap c \<longrightarrow> is_bitmap c'"
    using child wfc unfolding set_ok_def by (auto simp: i_def)
  have shape: "data = [] \<and> (\<exists>c. children[rank nm i := c'] = [c] \<and> is_bitmap c) \<or>
      2 \<le> length data + length (children[rank nm i := c'])"
    using wf c' r rc by (auto simp: N_def)
  have hashes: "\<forall>j x. sparse nm (children[rank nm i := c']) j = Some x \<longrightarrow> (\<forall>h\<in>node_hashes x. d7_hamt_index h s = j)"
    using wf c'(3) by (auto simp: N_def upd)
  have kids: "\<forall>x\<in>set (children[rank nm i := c']). wf_node p (s + 5) x \<and> \<not> is_leaf x"
    using wf c' set' by (auto simp: N_def)
  have wf': "wf_node p s ?N'"
    using wf upd(1) shape hashes kids unfolding N_def wf_node.simps by blast
  have look: "rel_option (entry_rel Rk Rv) (look p ?N' (?h k') s k')
      (if d7_hamt_keys_equal p k k' then Some (bound_entry ov k v (look p c (?h k) (s + 5) k))
       else look p N (?h k') s k')" for k'
  proof (cases "d7_hamt_index (?h k') s = i")
    case True
    then have "look p ?N' (?h k') s k' = look p c' (?h k') (s + 5) k'"
      and "look p N (?h k') s k' = look p c (?h k') (s + 5) k'"
      using vacant slot by (simp_all add: N_def upd)
    then show ?thesis using child unfolding set_ok_def by presburger
  next
    case False
    then have "\<not> d7_hamt_keys_equal p k k'" using keq_hash [of k k'] by (auto simp: i_def)
    then show ?thesis using False by (auto simp: N_def upd split: option.split)
  qed
  have bm: "is_bitmap N" "\<not> is_leaf ?N'" by (simp_all add: N_def)
  have look_same: "rel_option (entry_rel Rk Rv) (look p ?N' (?h k') s k')
      (Some (bound_entry ov k v (look p c (?h k) (s + 5) k)))"
    if "d7_hamt_keys_equal p k k'" for k'
    using look [of k'] that by presburger
  have look_other: "rel_option (entry_rel Rk Rv) (look p ?N' (?h k') s k') (look p N (?h k') s k')"
    if "\<not> d7_hamt_keys_equal p k k'" for k'
    using look [of k'] that by presburger
  have "node_hashes c' \<subseteq> insert (?h k) (node_hashes c)" using child by (simp add: set_ok_def)
  moreover have "(\<Union>x\<in>set (children[rank nm i := c']). node_hashes x) \<subseteq>
      node_hashes c' \<union> (\<Union>x\<in>set children. node_hashes x)"
    using set' by (auto dest: subsetD)
  ultimately have "node_hashes ?N' \<subseteq> insert (?h k) (node_hashes N)"
    using c by (auto simp: N_def dest: subsetD)
  moreover have "subtree_count ?N' = subtree_count N + (if look p c (?h k) (s + 5) k = None then 1 else 0)"
    using wf child sum_list_update_nat [OF r, of subtree_count c'] rc
    by (auto simp: N_def bitmap_count_def set_ok_def)
  ultimately show ?thesis
    using look_same look_other
    by (intro set_okI wf') (simp_all add: old bm del: look.simps subtree_count.simps)
qed

subsection \<open>Buckets\<close>

lemma find_append:
  "find P (es @ [x]) = (case find P es of Some y \<Rightarrow> Some y | None \<Rightarrow> if P x then Some x else None)"
  by (induction es) auto

lemma set_ok_append:
  assumes h: "h = d7_hamt_get_hash p k"
    and es: "\<forall>e\<in>set es. d7_hamt_get_hash p (entry_key e) = h" "distinct_keys p es" "es \<noteq> []"
    and absent: "find (entry_matches p k) es = None"
    and m: "\<And>h' s k'. look p m h' s k' = (if h = h' then find (entry_matches p k') es else None)"
      "subtree_count m = length es" "\<not> is_bitmap m"
    and rel: "list_all2 (entry_rel Rk Rv) (es @ [Entry k v]) es'"
  shows "set_ok p Rk Rv s m k v ov (Collision a' h es')"
proof (rule set_okI)
  have none: "\<forall>x\<in>set es. \<not> d7_hamt_keys_equal p (entry_key x) k"
    using absent by (simp add: find_None_iff entry_matches_def)
  have len: "length es' = Suc (length es)" using list_all2_lengthD [OF rel] by simp
  have ideal: "\<forall>e\<in>set (es @ [Entry k v]). d7_hamt_get_hash p (entry_key e) = h"
    "distinct_keys p (es @ [Entry k v])"
    using es h none by (auto simp: distinct_keys_append_all)
  show "wf_node p s (Collision a' h es')"
    using ideal hash_related [OF rel] distinct_keys_related [OF rel] es(3) len
    by (cases es) auto
  show "subtree_count (Collision a' h es') =
      subtree_count m + (if look p m (d7_hamt_get_hash p k) s k = None then 1 else 0)"
    using len absent h m by simp
  have look: "rel_option (entry_rel Rk Rv) (look p (Collision a' h es') (d7_hamt_get_hash p k') s k')
      (if h = d7_hamt_get_hash p k' then find (entry_matches p k') (es @ [Entry k v]) else None)" for k'
    using find_related [OF rel, of k'] found_sym by auto
  show "rel_option (entry_rel Rk Rv) (look p (Collision a' h es') (d7_hamt_get_hash p k') s k')
      (Some (bound_entry ov k v (look p m (d7_hamt_get_hash p k) s k)))"
    if "d7_hamt_keys_equal p k k'" for k'
  proof -
    have "entry_matches p k' = entry_matches p k"
      using keq_right [OF that] by (auto simp: entry_matches_def fun_eq_iff)
    then show ?thesis
      using look [of k'] absent keq_hash [OF that] h
      by (simp add: find_append bound_entry_def m entry_matches_def)
  qed
  show "rel_option (entry_rel Rk Rv) (look p (Collision a' h es') (d7_hamt_get_hash p k') s k')
      (look p m (d7_hamt_get_hash p k') s k')"
    if "\<not> d7_hamt_keys_equal p k k'" for k'
  proof -
    have "find (entry_matches p k') (es @ [Entry k v]) = find (entry_matches p k') es"
      using that by (simp add: find_append entry_matches_def split: option.split)
    then show ?thesis using look [of k'] unfolding m by presburger
  qed
qed (use m h in auto)

lemma distinct_keys_keys:
  assumes "map entry_key es = map entry_key es'"
  shows "distinct_keys p es = distinct_keys p es'"
proof -
  have "distinct_keys p es = distinct_keys p es'" if "list_all2 (\<lambda>x y. entry_key x = entry_key y) es es'"
    using that
  proof (induction es es' rule: list_all2_induct)
    case (Cons x xs y ys)
    have "(\<forall>z\<in>set xs. \<not> d7_hamt_keys_equal p w (entry_key z)) = (\<forall>z\<in>set ys. \<not> d7_hamt_keys_equal p w (entry_key z))" for w
      using Cons(2) by (induction rule: list_all2_induct) auto
    then show ?case using Cons by simp
  qed simp
  then show ?thesis using assms by (simp add: list_all2_conv_all_nth list_eq_iff_nth_eq)
qed

lemma set_ok_bucket_replace:
  assumes wf: "wf_node p s (Collision a h es)" and h: "h = d7_hamt_get_hash p k"
    and i: "first_index (entry_matches p k) es = Some i"
    and rel: "list_all2 (entry_rel Rk Rv) (es[i := Entry (entry_key (es ! i)) v]) es'"
  shows "set_ok p Rk Rv s (Collision a h es) k v True (Collision a' h es')"
proof (rule set_okI)
  let ?x = "Entry (entry_key (es ! i)) v"
  note fi = first_index_Some [OF i]
  have keq: "d7_hamt_keys_equal p (entry_key (es ! i)) k" using fi by (simp add: entry_matches_def)
  have keys: "map entry_key (es[i := ?x]) = map entry_key es"
    using fi by (intro nth_equalityI) (auto simp: nth_list_update)
  have len: "length es' = length es" using list_all2_lengthD [OF rel] by simp
  have hs: "\<forall>e\<in>set (es[i := ?x]). d7_hamt_get_hash p (entry_key e) = h"
    using wf fi set_update_subset_insert [of es i ?x] by auto
  show "wf_node p s (Collision a' h es')"
    using wf hash_related [OF rel, of h] distinct_keys_related [OF rel] distinct_keys_keys [OF keys] hs len
    by simp
  show "subtree_count (Collision a' h es') = subtree_count (Collision a h es) +
      (if look p (Collision a h es) (d7_hamt_get_hash p k) s k = None then 1 else 0)"
    using len h fi by simp
  have look: "rel_option (entry_rel Rk Rv) (look p (Collision a' h es') (d7_hamt_get_hash p k') s k')
      (if h = d7_hamt_get_hash p k' then find (entry_matches p k') (es[i := ?x]) else None)" for k'
    using find_related [OF rel, of k'] found_sym by auto
  show "rel_option (entry_rel Rk Rv) (look p (Collision a' h es') (d7_hamt_get_hash p k') s k')
      (Some (bound_entry True k v (look p (Collision a h es) (d7_hamt_get_hash p k) s k)))"
    if "d7_hamt_keys_equal p k k'" for k'
  proof -
    have "entry_matches p k' = entry_matches p k"
      using keq_right [OF that] by (auto simp: entry_matches_def fun_eq_iff)
    then show ?thesis
      using look [of k'] keq_hash [OF that] h fi keq find_update_same [OF i, of ?x]
      by (simp add: bound_entry_def entry_matches_def)
  qed
  show "rel_option (entry_rel Rk Rv) (look p (Collision a' h es') (d7_hamt_get_hash p k') s k')
      (look p (Collision a h es) (d7_hamt_get_hash p k') s k')"
    if "\<not> d7_hamt_keys_equal p k k'" for k'
  proof -
    have "\<not> d7_hamt_keys_equal p (entry_key (es ! i)) k'" using keq_left [OF keq] that by blast
    then have "find (entry_matches p k') (es[i := ?x]) = find (entry_matches p k') es"
      by (intro find_update_other) (simp_all add: entry_matches_def)
    then show ?thesis using look [of k'] unfolding look.simps by presburger
  qed
qed auto

lemma set_ok_leaf_replace:
  assumes wf: "wf_node p s (Leaf a h k0 v0)" and h: "h = d7_hamt_get_hash p k"
    and keq: "d7_hamt_keys_equal p k0 k" and k': "Rk k0 k'" and v': "Rv v v'"
  shows "set_ok p Rk Rv s (Leaf a h k0 v0) k v True (Leaf a' h k' v')"
proof (rule set_okI)
  have k'k: "d7_hamt_keys_equal p k0 k'" using k' by (rule Rk_keq)
  show "wf_node p s (Leaf a' h k' v')" using wf Rk_hash [OF k'] by simp
  show "rel_option (entry_rel Rk Rv) (look p (Leaf a' h k' v') (d7_hamt_get_hash p k'') s k'')
      (Some (bound_entry True k v (look p (Leaf a h k0 v0) (d7_hamt_get_hash p k) s k)))"
    if "d7_hamt_keys_equal p k k''" for k''
    using that h keq keq_hash [OF that] keq_left [OF k'k] keq_trans [OF keq that] k' v' Rk_sym Rv_sym
    by (auto simp: bound_entry_def entry_rel_def)
  show "rel_option (entry_rel Rk Rv) (look p (Leaf a' h k' v') (d7_hamt_get_hash p k'') s k'')
      (look p (Leaf a h k0 v0) (d7_hamt_get_hash p k'') s k'')"
    if "\<not> d7_hamt_keys_equal p k k''" for k''
    using that keq_left [OF keq] keq_left [OF k'k] by auto
qed (use h keq in auto)

subsection \<open>Merging two hash nodes\<close>

lemma hash_node_cases:
  assumes "d7_hamt_hash_node_hash left = Some hl"
  obtains (leaf) a k0 v0 where "left = Leaf a hl k0 v0" | (bucket) a es where "left = Collision a hl es"
  using assms by (cases left) auto

lemma look_hash_node:
  assumes "d7_hamt_hash_node_hash left = Some hl"
  shows "look p left h s k = look p left h s' k" and "node_hashes left = {hl}"
    and "hl \<noteq> h \<Longrightarrow> look p left h s k = None"
    and "\<not> is_bitmap left" and "wf_node p s left \<Longrightarrow> wf_node p s' left"
  using assms by (cases left; auto)+

lemma set_ok_deeper:
  assumes left: "d7_hamt_hash_node_hash left = Some hl" and s: "s < 32"
    and idx: "d7_hamt_index hl s = d7_hamt_index (d7_hamt_get_hash p k) s"
    and child: "set_ok p Rk Rv (s + 5) left k v ov c" "is_bitmap c"
  shows "set_ok p Rk Rv s left k v ov
           (Bitmap_Indexed a 0 (d7_hamt_bit (d7_hamt_index hl s)) [] [c] (bitmap_count ([] :: ('k, 'v) d7_hamt_inline_entry list) [c]))"
    (is "set_ok _ _ _ _ _ _ _ _ ?N")
proof (rule set_okI)
  let ?h = "d7_hamt_get_hash p" and ?i = "d7_hamt_index hl s"
  note ln = look_hash_node [OF left]
  have i: "?i < 32" by (rule d7_hamt_index_less)
  note one = one_slot [OF i, of c]
  have hs: "node_hashes c \<subseteq> {?h k, hl}" using set_ok_hashes [OF child(1)] ln(2) by auto
  have nl: "\<not> is_leaf c" using child(2) by (cases c) auto
  show "wf_node p s ?N"
    using s one child nl hs idx set_ok_wf [OF child(1)] by auto
  show "node_hashes ?N \<subseteq> insert (?h k) (node_hashes left)" using hs ln(2) by auto
  show "subtree_count ?N = subtree_count left + (if look p left (?h k) s k = None then 1 else 0)"
    using set_ok_count [OF child(1)] ln(1) [of "?h k" s k "s + 5"] by (simp add: bitmap_count_def)
  have look: "look p ?N (?h k') s k' = (if d7_hamt_index (?h k') s = ?i then look p c (?h k') (s + 5) k' else None)" for k'
    by (simp add: one)
  show "rel_option (entry_rel Rk Rv) (look p ?N (?h k') s k') (Some (bound_entry ov k v (look p left (?h k) s k)))"
    if "d7_hamt_keys_equal p k k'" for k'
    using set_ok_same [OF child(1) that] keq_hash [OF that] idx ln(1) [of "?h k" s k "s + 5"]
    unfolding look by simp
  show "rel_option (entry_rel Rk Rv) (look p ?N (?h k') s k') (look p left (?h k') s k')"
    if "\<not> d7_hamt_keys_equal p k k'" for k'
    using set_ok_other [OF child(1) that] ln(1) [of "?h k'" s k' "s + 5"] ln(3) [of "?h k'" s k']
    unfolding look by auto
qed (use look_hash_node(4) [OF left] in auto)

lemma set_ok_two_leaves:
  fixes k0 k :: 'k and v0 v :: 'v
  assumes s: "s < 32" and wf: "h0 = d7_hamt_get_hash p k0"
    and idx: "d7_hamt_index h0 s \<noteq> d7_hamt_index (d7_hamt_get_hash p k) s"
  defines "l \<equiv> Inline h0 (Entry k0 v0)" and "r \<equiv> Inline (d7_hamt_get_hash p k) (Entry k v)"
    and "i \<equiv> d7_hamt_index h0 s" and "j \<equiv> d7_hamt_index (d7_hamt_get_hash p k) s"
  shows "set_ok p Rk Rv s (Leaf a h0 k0 v0) k v ov
           (Bitmap_Indexed a' (d7_hamt_bit i OR d7_hamt_bit j) 0 (if i < j then [l, r] else [r, l]) []
              (bitmap_count (if i < j then [l, r] else [r, l]) ([] :: ('k, 'v) d7_hamt_node list)))"
    (is "set_ok _ _ _ _ _ _ _ _ ?N")
proof (rule set_okI)
  let ?h = "d7_hamt_get_hash p"
  have ij: "i < 32" "j < 32" "i \<noteq> j" using idx by (auto simp: i_def j_def d7_hamt_index_less)
  note two = two_slots [OF ij, of l r]
  have hne: "h0 \<noteq> ?h k" using idx by auto
  have sets: "set (if i < j then [l, r] else [r, l]) = {l, r}" "length (if i < j then [l, r] else [r, l]) = 2"
    by auto
  have hs: "inline_hash l = h0" "inline_hash r = ?h k" by (simp_all add: l_def r_def)
  show "wf_node p s ?N"
    unfolding wf_node.simps two sets
    using s two(1) wf ij sets(2) by (auto simp: l_def r_def i_def j_def)
  show "node_hashes ?N \<subseteq> insert (?h k) (node_hashes (Leaf a h0 k0 v0))"
    unfolding node_hashes.simps sets by (auto simp: hs)
  show "subtree_count ?N = subtree_count (Leaf a h0 k0 v0) + (if look p (Leaf a h0 k0 v0) (?h k) s k = None then 1 else 0)"
    using hne sets(2) by (simp add: bitmap_count_def)
  have look: "look p ?N (?h k') s k' =
      (if d7_hamt_index (?h k') s = j then inline_match p (?h k') k' r
       else if d7_hamt_index (?h k') s = i then inline_match p (?h k') k' l else None)" for k'
    unfolding look.simps two using ij by simp
  show "rel_option (entry_rel Rk Rv) (look p ?N (?h k') s k') (Some (bound_entry ov k v (look p (Leaf a h0 k0 v0) (?h k) s k)))"
    if "d7_hamt_keys_equal p k k'" for k'
    using keq_hash [OF that] that hne unfolding look
    by (simp add: j_def r_def inline_match_def entry_matches_def bound_entry_def)
  show "rel_option (entry_rel Rk Rv) (look p ?N (?h k') s k') (look p (Leaf a h0 k0 v0) (?h k') s k')"
    if "\<not> d7_hamt_keys_equal p k k'" for k'
    using that idx unfolding look by (auto simp: i_def j_def l_def r_def inline_match_def entry_matches_def)
qed auto

lemma set_ok_bucket_and_leaf:
  fixes k :: 'k and v :: 'v
  assumes s: "s < 32" and wf: "wf_node p s (Collision a h0 es)"
    and idx: "d7_hamt_index h0 s \<noteq> d7_hamt_index (d7_hamt_get_hash p k) s"
  defines "r \<equiv> Inline (d7_hamt_get_hash p k) (Entry k v)"
  shows "set_ok p Rk Rv s (Collision a h0 es) k v ov
           (Bitmap_Indexed a' (d7_hamt_bit (d7_hamt_index (d7_hamt_get_hash p k) s))
              (d7_hamt_bit (d7_hamt_index h0 s)) [r] [Collision a h0 es]
              (bitmap_count [r] [Collision a h0 es]))"
    (is "set_ok _ _ _ _ ?m _ _ _ ?N")
proof (rule set_okI)
  let ?h = "d7_hamt_get_hash p" and ?i = "d7_hamt_index h0 s"
  let ?j = "d7_hamt_index (?h k) s"
  have ij: "?i < 32" "?j < 32" by (simp_all add: d7_hamt_index_less)
  note one = one_slot [OF ij(1), of "Collision a h0 es"] one_slot [OF ij(2), of r]
  have hne: "h0 \<noteq> ?h k" using idx by auto
  have hr: "inline_hash r = ?h k" "inline_entry r = Entry k v" by (simp_all add: r_def)
  have "d7_hamt_bit ?j AND d7_hamt_bit ?i = 0" using idx ij by (auto simp: and_eq_0_iff)
  then show "wf_node p s ?N" using s wf one hr by auto
  show "node_hashes ?N \<subseteq> insert (?h k) (node_hashes ?m)" using hr by auto
  show "subtree_count ?N = subtree_count ?m + (if look p ?m (?h k) s k = None then 1 else 0)"
    using hne by (simp add: bitmap_count_def)
  have look: "look p ?N (?h k') s k' =
      (if d7_hamt_index (?h k') s = ?j then inline_match p (?h k') k' r
       else if d7_hamt_index (?h k') s = ?i then look p ?m (?h k') (s + 5) k' else None)" for k'
    using idx unfolding look.simps(3) one by simp
  show "rel_option (entry_rel Rk Rv) (look p ?N (?h k') s k') (Some (bound_entry ov k v (look p ?m (?h k) s k)))"
    if "d7_hamt_keys_equal p k k'" for k'
    using keq_hash [OF that] that hne unfolding look
    by (simp add: r_def inline_match_def entry_matches_def bound_entry_def)
  show "rel_option (entry_rel Rk Rv) (look p ?N (?h k') s k') (look p ?m (?h k') s k')"
    if "\<not> d7_hamt_keys_equal p k k'" for k'
    using that idx unfolding look by (auto simp: r_def inline_match_def entry_matches_def)
qed auto

lemma merge_spec:
  assumes "heap S t" and "subnodes left \<subseteq> S"
    and left: "d7_hamt_hash_node_hash left = Some hl" "wf_node p s left"
    and right: "right = Leaf b h k v" "h = d7_hamt_get_hash p k"
    and path: "on_path h s left"
    and absent: "look p left h s k = None" and bucket: "is_leaf left \<or> hl \<noteq> h"
  shows "achieves E (failing_requests E p) t (d7_hamt_merge_hash_nodes p left right s)
           (\<lambda>n t'. set_ok p Rk Rv s left k v ov n \<and> \<not> is_leaf n \<and> (hl \<noteq> h \<longrightarrow> is_bitmap n) \<and>
                   heap (S \<union> subnodes n) t')"
  using assms
proof (induction "37 - s" arbitrary: s S t rule: less_induct)
  case less
  note left = less.prems(3,4) and right = less.prems(5,6) and ln = look_hash_node [OF less.prems(3)]
  have agree: "take_bit s hl = take_bit s h" using less.prems(7) ln(2) by (simp add: on_path_def)
  show ?case
  proof (cases "hl = h")
    case True
    then obtain a k0 v0 where l: "left = Leaf a h k0 v0"
      using less.prems(9) left(1) by (cases left) auto
    have "set_ok p Rk Rv s left k v ov (Collision a' h es')"
      if "list_all2 (entry_rel Rk Rv) [Entry k0 v0, Entry k v] es'" for a' es'
      using that left(2) less.prems(8) right(2)
      by (intro set_ok_append [where es = "[Entry k0 v0]"]) (auto simp: l entry_matches_def split: if_splits)
    then show ?thesis
      using True less.prems(1)
      by (subst d7_hamt_merge_hash_nodes.simps) (auto simp: l right(1) intro!: achieves_weaken [OF collision_fill_spec])
  next
    case False
    then have s: "s < 32" using agree take_bit_32_eq [of s hl h] by (meson not_le)
    let ?li = "d7_hamt_index hl s" and ?ri = "d7_hamt_index h s"
    show ?thesis
    proof (cases "?li = ?ri")
      case True
      have path: "on_path h (s + 5) left"
        using agree True ln(2) by (simp add: on_path_def take_bit_index_step)
      have IH: "achieves E (failing_requests E p) t (d7_hamt_merge_hash_nodes p left right (s + 5))
           (\<lambda>n t'. set_ok p Rk Rv (s + 5) left k v ov n \<and> \<not> is_leaf n \<and> (hl \<noteq> h \<longrightarrow> is_bitmap n) \<and>
                   heap (S \<union> subnodes n) t')"
        using less.prems s path ln(1) [of h "s + 5" k s] ln(5) by (intro less.hyps) auto
      have ok: "set_ok p Rk Rv s left k v ov
          (Bitmap_Indexed a 0 (d7_hamt_bit ?li) [] [c] (bitmap_count ([] :: ('k, 'v) d7_hamt_inline_entry list) [c]))"
        if "set_ok p Rk Rv (s + 5) left k v ov c" "is_bitmap c" for a c
        using that True right(2) s by (intro set_ok_deeper left) auto
      have eq: "d7_hamt_merge_hash_nodes p left right s =
          andthen (d7_hamt_merge_hash_nodes p left right (s + 5)) (\<lambda>child.
            d7_hamt_bitmap_create 0 (d7_hamt_bit ?li) [] [child])"
        using False True s left(1) right(1) by (subst d7_hamt_merge_hash_nodes.simps) (simp add: Let_def)
      show ?thesis
        unfolding eq
      proof (rule achieves_andthen [OF IH])
        fix c t1
        assume c: "set_ok p Rk Rv (s + 5) left k v ov c \<and> \<not> is_leaf c \<and> (hl \<noteq> h \<longrightarrow> is_bitmap c) \<and>
          heap (S \<union> subnodes c) t1"
        then have heap: "heap (S \<union> subnodes c) t1" and kids: "\<And>x. x \<in> set [c] \<Longrightarrow> subnodes x \<subseteq> S \<union> subnodes c"
          by auto
        show "achieves E (failing_requests E p) t1 (d7_hamt_bitmap_create 0 (d7_hamt_bit ?li) [] [c])
           (\<lambda>n t'. set_ok p Rk Rv s left k v ov n \<and> \<not> is_leaf n \<and> (hl \<noteq> h \<longrightarrow> is_bitmap n) \<and>
                   heap (S \<union> subnodes n) t')"
          using c ok False
          by (intro achieves_weaken [OF bitmap_create_spec [OF heap kids]]) (auto elim!: heap_mono)
      qed
    next
      case differ: False
      show ?thesis
        using left(1)
      proof (cases rule: hash_node_cases)
        case (leaf a k0 v0)
        let ?l = "Inline hl (Entry k0 v0)" and ?r = "Inline h (Entry k v)"
        let ?data = "if ?li < ?ri then [?l, ?r] else [?r, ?l]"
        have eq: "d7_hamt_merge_hash_nodes p left right s =
            d7_hamt_bitmap_copy_create p (d7_hamt_bit ?li OR d7_hamt_bit ?ri) 0 ?data []"
          using False differ s leaf right(1) by (subst d7_hamt_merge_hash_nodes.simps) (simp add: Let_def)
        have "set_ok p Rk Rv s left k v ov
            (Bitmap_Indexed a' (d7_hamt_bit ?li OR d7_hamt_bit ?ri) 0 ?data [] (bitmap_count ?data ([] :: ('k, 'v) d7_hamt_node list)))" for a'
          using set_ok_two_leaves [OF s, where ?h0.0 = hl and ?k0.0 = k0 and k = k and ?v0.0 = v0 and v = v and a = a and ov = ov and a' = a'] left(2) differ right(2) leaf
          by (simp split: if_splits)
        then have "set_ok p Rk Rv s left k v ov
            (Bitmap_Indexed a' (d7_hamt_bit ?li OR d7_hamt_bit ?ri) 0 data' [] (bitmap_count ?data ([] :: ('k, 'v) d7_hamt_node list)))"
          if "list_all2 (inline_rel Rk Rv) ?data data'" for a' data'
          using set_ok_copy that by blast
        then show ?thesis
          unfolding eq using less.prems(1)
          by (intro achieves_weaken [OF bitmap_copy_create_spec]) auto
      next
        case (bucket a es)
        let ?r = "Inline h (Entry k v)"
        have eq: "d7_hamt_merge_hash_nodes p left right s =
            d7_hamt_bitmap_copy_create p (d7_hamt_bit ?ri) (d7_hamt_bit ?li) [?r] [left]"
          using False differ s bucket right(1) by (subst d7_hamt_merge_hash_nodes.simps) (simp add: Let_def)
        have "set_ok p Rk Rv s left k v ov
            (Bitmap_Indexed a' (d7_hamt_bit ?ri) (d7_hamt_bit ?li) [?r] [left] (bitmap_count [?r] [left]))" for a'
          using set_ok_bucket_and_leaf [OF s, where a = a and ?h0.0 = hl and es = es and k = k and v = v and ov = ov and a' = a'] left(2) differ right(2) bucket by simp
        then have "set_ok p Rk Rv s left k v ov
            (Bitmap_Indexed a' (d7_hamt_bit ?ri) (d7_hamt_bit ?li) data' [left] (bitmap_count [?r] [left]))"
          if "list_all2 (inline_rel Rk Rv) [?r] data'" for a' data'
          using set_ok_copy that by blast
        then show ?thesis
          unfolding eq using less.prems(1,2)
          by (intro achieves_weaken [OF bitmap_copy_create_spec]) auto
      qed
    qed
  qed
qed

lemma merge_new_leaf_spec:
  assumes "heap S t" and "subnodes left \<subseteq> S"
    and "d7_hamt_hash_node_hash left = Some hl" "wf_node p s left"
    and h: "h = d7_hamt_get_hash p k"
    and "on_path h s left"
    and absent: "look p left h s k = None" and bucket: "is_leaf left \<or> hl \<noteq> h"
  shows "achieves E (failing_requests E p) t (merge_new_leaf p left k v h s)
           (\<lambda>(added, n) t'. set_ok p Rk Rv s left k v ov n \<and> added \<and> heap (S \<union> subnodes n) t')"
  unfolding merge_new_leaf_def
proof (rule achieves_andthen [OF leaf_create_spec [OF assms(1)]])
  fix right t1
  assume "(\<exists>b k' v'. right = Leaf b h k' v' \<and> Rk k k' \<and> Rv v v') \<and> heap (S \<union> subnodes right) t1"
  then obtain b k' v' where r: "right = Leaf b h k' v'" "Rk k k'" "Rv v v'" "heap (S \<union> subnodes right) t1"
    by blast
  have keq: "d7_hamt_keys_equal p k k'" using r(2) by (rule Rk_keq)
  have m: "achieves E (failing_requests E p) t1 (d7_hamt_merge_hash_nodes p left right s)
           (\<lambda>n t'. set_ok p Rk Rv s left k' v' ov n \<and> \<not> is_leaf n \<and> (hl \<noteq> h \<longrightarrow> is_bitmap n) \<and>
                   heap ((S \<union> subnodes right) \<union> subnodes n) t')"
    using assms r keq_hash [OF keq] look_keq [OF keq] by (intro merge_spec) auto
  show "achieves E (failing_requests E p) t1 (andthen (d7_hamt_merge_hash_nodes p left right s) (\<lambda>n. ret (True, n)))
           (\<lambda>(added, n) t'. set_ok p Rk Rv s left k v ov n \<and> added \<and> heap (S \<union> subnodes n) t')"
    by (rule achieves_andthen [OF m], rule achieves_ret)
       (auto intro: set_ok_retained [OF _ r(2,3)] elim!: heap_mono)
qed

subsection \<open>Insertion\<close>

lemma set_ok_noop:
  assumes "wf_node p s n" and "set_noop p n k v (d7_hamt_get_hash p k) s ov"
  shows "set_ok p Rk Rv s n k v ov n"
proof -
  from assms(2) obtain e where e: "look p n (d7_hamt_get_hash p k) s k = Some e"
    "\<not> ov \<or> d7_hamt_values_equal p (entry_value e) v"
    unfolding set_noop_def by (auto split: option.splits)
  show ?thesis
  proof (rule set_okI [OF assms(1)])
    fix k' assume k': "d7_hamt_keys_equal p k k'"
    have "look p n (d7_hamt_get_hash p k') s k' = Some e"
      using e(1) keq_hash [OF k'] look_keq [OF k'] by simp
    then show "rel_option (entry_rel Rk Rv) (look p n (d7_hamt_get_hash p k') s k')
         (Some (bound_entry ov k v (look p n (d7_hamt_get_hash p k) s k)))"
      using e veq_Rv by (auto simp: bound_entry_def entry_rel_def)
  qed (use e in auto)
qed

lemma node_set_inline_spec:
  assumes heap: "heap S t" and sub: "subnodes N \<subseteq> S"
    and N: "N = Bitmap_Indexed a dm nm data children n"
    and wf: "wf_node p s N" and h: "h = d7_hamt_get_hash p k" and path: "on_path h s N"
    and slot: "sparse dm data (d7_hamt_index h s) = Some e"
  shows "achieves E (failing_requests E p) t (d7_hamt_node_set_inline p N dm nm data children k v h s ov)
           (\<lambda>(added, n') t'. set_ok p Rk Rv s N k v ov n' \<and> (added \<longleftrightarrow> look p N h s k = None) \<and>
              (set_noop p N k v h s ov \<longrightarrow> n' = N) \<and> heap (S \<union> subnodes n') t')"
proof -
  let ?i = "d7_hamt_index h s" and ?k0 = "entry_key (inline_entry e)" and ?v0 = "entry_value (inline_entry e)"
  let ?B = "failing_requests E p"
  have i: "?i < 32" by (rule d7_hamt_index_less)
  have dense: "dense dm data" "dense nm children" using wf by (simp_all add: N)
  have bit: "dm AND d7_hamt_bit ?i \<noteq> 0" using bitmap_slot(1) [OF dense(1)] slot by auto
  have nth: "nth_opt data (d7_hamt_slot dm (d7_hamt_bit ?i)) = Some e"
    using bitmap_slot(2) [OF dense(1) bit] slot by simp
  have look: "look p N h s k = (if inline_hash e = h \<and> d7_hamt_keys_equal p ?k0 k then Some (inline_entry e) else None)"
    using slot by (simp add: N inline_match_def entry_matches_def)
  have kids: "\<And>c. c \<in> set children \<Longrightarrow> subnodes c \<subseteq> S" using sub by (auto simp: N)
  note ranks = d7_hamt_slot_rank [OF i]
  consider (noop) "inline_hash e = h \<and> d7_hamt_keys_equal p ?k0 k" "\<not> ov \<or> d7_hamt_values_equal p ?v0 v"
    | (repl) "inline_hash e = h \<and> d7_hamt_keys_equal p ?k0 k" "ov" "\<not> d7_hamt_values_equal p ?v0 v"
    | (split) "\<not> (inline_hash e = h \<and> d7_hamt_keys_equal p ?k0 k)"
    by blast
  then show ?thesis
  proof cases
    case noop
    then have no: "set_noop p N k v h s ov" using look by (simp add: set_noop_def)
    have "set_ok p Rk Rv s N k v ov N" using set_ok_noop wf no h by blast
    then show ?thesis
      using noop nth look heap_mono [OF heap] sub
      by (auto simp: d7_hamt_node_set_inline_def Let_def heap Un_absorb2 intro!: achieves_ret)
  next
    case repl
    let ?x = "Inline (inline_hash e) (Entry ?k0 v)"
    let ?data = "data[rank dm ?i := ?x]"
    have "set_ok p Rk Rv s N k v True (Bitmap_Indexed a' dm nm ?data children (bitmap_count ?data children))" for a'
      using set_ok_replace [where s = s and a = a and dm = dm and nm = nm and data = data and children = children
          and n = n and k = k and e = e and v = v and a' = a'] wf slot repl(1) by (simp add: N h)
    then have "set_ok p Rk Rv s N k v True (Bitmap_Indexed a' dm nm data' children (bitmap_count ?data children))"
      if "list_all2 (inline_rel Rk Rv) ?data data'" for a' data'
      using set_ok_copy that by blast
    moreover have "\<not> set_noop p N k v h s ov" using repl look by (simp add: set_noop_def)
    moreover have eq: "d7_hamt_node_set_inline p N dm nm data children k v h s ov =
        andthen (d7_hamt_bitmap_copy_create p dm nm ?data children) (\<lambda>n. ret (False, n))"
      using repl nth by (simp add: d7_hamt_node_set_inline_def Let_def ranks)
    ultimately show ?thesis
      unfolding eq using repl(1,2) look
      by (intro achieves_andthen [OF bitmap_copy_create_spec [OF heap kids]] achieves_ret) auto
  next
    case split
    have eq: "d7_hamt_node_set_inline p N dm nm data children k v h s ov =
       andthen (d7_hamt_leaf_create p (inline_hash e) ?k0 ?v0) (\<lambda>left.
       andthen (merge_new_leaf p left k v h (s + 5)) (\<lambda>(_, child).
       andthen (d7_hamt_bitmap_copy_create p (dm AND NOT (d7_hamt_bit ?i)) (nm OR d7_hamt_bit ?i)
                             (remove_at (rank dm ?i) data) (insert_at (rank nm ?i) child children))
                    (\<lambda>n. ret (True, n))))"
      using split nth
      by (auto simp: d7_hamt_node_set_inline_def merge_new_leaf_def Let_def ranks andthen_def ret_def fun_eq_iff
          split: prod.split sum.split)
    have absent: "look p N h s k = None" using split look by auto
    have e: "e \<in> set data" using slot by (rule sparse_Some_in_set)
    have eh: "inline_hash e = d7_hamt_get_hash p ?k0" "d7_hamt_index (inline_hash e) s = ?i"
      "take_bit s (inline_hash e) = take_bit s h"
      using wf e slot path by (auto simp: N on_path_def)
    show ?thesis
      unfolding eq
    proof (rule achieves_andthen [OF leaf_create_spec [OF heap]])
      fix left t1
      assume "(\<exists>b k' v'. left = Leaf b (inline_hash e) k' v' \<and> Rk ?k0 k' \<and> Rv ?v0 v') \<and> heap (S \<union> subnodes left) t1"
      then obtain b k' v' where l: "left = Leaf b (inline_hash e) k' v'" "Rk ?k0 k'" "Rv ?v0 v'"
        "heap (S \<union> subnodes left) t1" by blast
      have keq: "d7_hamt_keys_equal p ?k0 k'" using l(2) by (rule Rk_keq)
      have m: "achieves E ?B t1 (merge_new_leaf p left k v h (s + 5))
           (\<lambda>(added, n) t'. set_ok p Rk Rv (s + 5) left k v ov n \<and> added \<and> heap ((S \<union> subnodes left) \<union> subnodes n) t')"
        using l eh split keq keq_left [OF keq] keq_hash [OF keq] h
        by (intro merge_new_leaf_spec) (auto simp: on_path_def take_bit_index_step)
      show "achieves E ?B t1 (andthen (merge_new_leaf p left k v h (s + 5)) (\<lambda>(_, child).
         andthen (d7_hamt_bitmap_copy_create p (dm AND NOT (d7_hamt_bit ?i)) (nm OR d7_hamt_bit ?i)
                             (remove_at (rank dm ?i) data) (insert_at (rank nm ?i) child children))
                    (\<lambda>n. ret (True, n))))
         (\<lambda>(added, n') t'. set_ok p Rk Rv s N k v ov n' \<and> (added \<longleftrightarrow> look p N h s k = None) \<and>
              (set_noop p N k v h s ov \<longrightarrow> n' = N) \<and> heap (S \<union> subnodes n') t')"
      proof (rule achieves_andthen [OF m], clarify)
        fix added c t2
        assume c: "set_ok p Rk Rv (s + 5) left k v ov c" and heap2: "heap ((S \<union> subnodes left) \<union> subnodes c) t2"
        let ?data = "remove_at (rank dm ?i) data" and ?ch = "insert_at (rank nm ?i) c children"
        let ?dm = "dm AND NOT (d7_hamt_bit ?i)" and ?nm = "nm OR d7_hamt_bit ?i"
        have lk: "look p left h (s + 5) k = None" using split l keq_left [OF keq] by auto
        then have nl: "\<not> is_leaf c" using set_ok_count [OF c] h l(1) by (cases c) auto
        have "set_ok p Rk Rv s N k v ov (Bitmap_Indexed a' ?dm ?nm ?data ?ch (bitmap_count ?data ?ch))" for a'
          using set_ok_split [where s = s and a = a and dm = dm and nm = nm and data = data and children = children
              and n = n and k = k and e = e and v = v and l = left and ov = ov and c = c and b = b
              and ?k0.0 = k' and ?v0.0 = v' and a' = a'] wf slot split c nl l
          by (simp add: N h entry_rel_def)
        then have ok: "set_ok p Rk Rv s N k v ov (Bitmap_Indexed a' ?dm ?nm data' ?ch (bitmap_count ?data ?ch))"
          if "list_all2 (inline_rel Rk Rv) ?data data'" for a' data'
          using set_ok_copy that by blast
        have kids2: "\<And>x. x \<in> set ?ch \<Longrightarrow> subnodes x \<subseteq> (S \<union> subnodes left) \<union> subnodes c" using kids by auto
        show "achieves E ?B t2 (andthen (d7_hamt_bitmap_copy_create p ?dm ?nm ?data ?ch) (\<lambda>n. ret (True, n)))
         (\<lambda>(added, n') t'. set_ok p Rk Rv s N k v ov n' \<and> (added \<longleftrightarrow> look p N h s k = None) \<and>
              (set_noop p N k v h s ov \<longrightarrow> n' = N) \<and> heap (S \<union> subnodes n') t')"
          using ok absent
          by (intro achieves_andthen [OF bitmap_copy_create_spec [OF heap2 kids2]] achieves_ret)
             (auto simp: set_noop_def elim!: heap_mono)
      qed
    qed
  qed
qed

lemma node_set_leaf_spec:
  assumes heap: "heap S t" and sub: "subnodes N \<subseteq> S" and N: "N = Leaf a h0 k0 v0"
    and wf: "wf_node p s N" and h: "h = d7_hamt_get_hash p k" and path: "on_path h s N"
  shows "achieves E (failing_requests E p) t (d7_hamt_node_set_leaf p a h0 k0 v0 k v h s ov)
           (\<lambda>(added, n') t'. set_ok p Rk Rv s N k v ov n' \<and> (added \<longleftrightarrow> look p N h s k = None) \<and>
              (set_noop p N k v h s ov \<longrightarrow> n' = N) \<and> heap (S \<union> subnodes n') t')"
proof -
  consider (noop) "h0 = h \<and> d7_hamt_keys_equal p k0 k" "\<not> ov \<or> d7_hamt_values_equal p v0 v"
    | (repl) "h0 = h \<and> d7_hamt_keys_equal p k0 k" "ov" "\<not> d7_hamt_values_equal p v0 v"
    | (merge) "\<not> (h0 = h \<and> d7_hamt_keys_equal p k0 k)"
    by blast
  then show ?thesis
  proof cases
    case noop
    then have no: "set_noop p N k v h s ov" by (simp add: set_noop_def N)
    have "set_ok p Rk Rv s N k v ov N" using set_ok_noop wf no h by blast
    then show ?thesis
      using noop heap sub
      by (auto simp: d7_hamt_node_set_leaf_def N Un_absorb2 insert_absorb intro!: achieves_ret)
  next
    case repl
    have ok: "set_ok p Rk Rv s N k v ov (Leaf a' h0 k' v')" if "Rk k0 k'" "Rv v v'" for a' k' v'
      using set_ok_leaf_replace [of s a h0 k0 v0 k k' v v' a'] that wf repl h by (simp add: N)
    have no: "\<not> set_noop p N k v h s ov" "look p N h s k \<noteq> None" using repl by (simp_all add: N set_noop_def)
    have eq: "d7_hamt_node_set_leaf p a h0 k0 v0 k v h s ov =
        andthen (d7_hamt_checked_retain_key p k0) (\<lambda>retained_key.
        andthen (d7_hamt_checked_retain_value p v) (\<lambda>retained_value.
        andthen d7_hamt_allocate (\<lambda>a. ret (False, Leaf a h0 retained_key retained_value))))"
      using repl by (auto simp: d7_hamt_node_set_leaf_def d7_hamt_leaf_create_from_retained_def andthen_def ret_def fun_eq_iff
          split: prod.split sum.split)
    show ?thesis
      unfolding eq
      apply (rule achieves_andthen [OF achieves_retain_key [where Q = "\<lambda>k' _. Rk k0 k'"]], assumption)
      apply (rule achieves_andthen [OF achieves_retain_value [where Q = "\<lambda>v' _. Rv v v'"]], assumption)
      apply (rule achieves_andthen [OF achieves_alloc [where Q = "\<lambda>a t'. t' = Suc a \<and> t \<le> a"]], simp)
      apply (rule achieves_ret)
      using ok no heap_insert [OF heap, of _ "Suc _"] by auto
  next
    case merge
    then have absent: "look p N h s k = None" by (auto simp: N)
    have "achieves E (failing_requests E p) t (merge_new_leaf p N k v h s)
           (\<lambda>(added, n) t'. set_ok p Rk Rv s N k v ov n \<and> added \<and> heap (S \<union> subnodes n) t')"
      by (rule merge_new_leaf_spec [OF heap sub _ wf h path absent]) (simp_all add: N)
    then show ?thesis
      using merge absent
      by (auto simp: d7_hamt_node_set_leaf_def N set_noop_def elim!: achieves_weaken)
  qed
qed

lemma node_set_collision_spec:
  assumes heap: "heap S t" and sub: "subnodes N \<subseteq> S" and N: "N = Collision a h0 es"
    and wf: "wf_node p s N" and h: "h = d7_hamt_get_hash p k" and path: "on_path h s N"
  shows "achieves E (failing_requests E p) t (d7_hamt_node_set_collision p a h0 es k v h s ov)
           (\<lambda>(added, n') t'. set_ok p Rk Rv s N k v ov n' \<and> (added \<longleftrightarrow> look p N h s k = None) \<and>
              (set_noop p N k v h s ov \<longrightarrow> n' = N) \<and> heap (S \<union> subnodes n') t')"
proof (cases "h0 = h")
  case False
  then have absent: "look p N h s k = None" by (simp add: N)
  have "achieves E (failing_requests E p) t (merge_new_leaf p N k v h s)
         (\<lambda>(added, n) t'. set_ok p Rk Rv s N k v ov n \<and> added \<and> heap (S \<union> subnodes n) t')"
    using False by (intro merge_new_leaf_spec [where hl = h0] heap sub wf h path absent) (simp_all add: N)
  then show ?thesis
    using False absent
    by (auto simp: d7_hamt_node_set_collision_def N set_noop_def elim!: achieves_weaken)
next
  case hh: True
  show ?thesis
  proof (cases "first_index (entry_matches p k) es")
    case None
    then have none: "find (entry_matches p k) es = None" by (simp add: first_index_None)
    have "set_ok p Rk Rv s N k v ov (Collision a' h es')"
      if "list_all2 (entry_rel Rk Rv) (es @ [Entry k v]) es'" for a' es'
      using that wf none h hh by (intro set_ok_append [where es = es]) (auto simp: N)
    then show ?thesis
      using None none hh heap
      by (auto simp: d7_hamt_node_set_collision_def N set_noop_def
          intro!: achieves_andthen [OF collision_fill_spec] achieves_ret)
  next
    case (Some i)
    note fi = first_index_Some [OF Some]
    have look: "look p N h s k = Some (es ! i)" using fi hh by (simp add: N)
    show ?thesis
    proof (cases "\<not> ov \<or> d7_hamt_values_equal p (entry_value (es ! i)) v")
      case noop: True
      then have no: "set_noop p N k v h s ov" using look by (simp add: set_noop_def)
      have "set_ok p Rk Rv s N k v ov N" using set_ok_noop wf no h by blast
      then show ?thesis
        using noop hh Some heap sub look
        by (auto simp: d7_hamt_node_set_collision_def N Un_absorb2 insert_absorb intro!: achieves_ret)
    next
      case repl: False
      have "set_ok p Rk Rv s N k v ov (Collision a' h es')"
        if "list_all2 (entry_rel Rk Rv) (es[i := Entry (entry_key (es ! i)) v]) es'" for a' es'
        using set_ok_bucket_replace [of s a h0 es k i v es' a'] that wf h hh Some repl by (simp add: N)
      then show ?thesis
        using Some hh heap repl look
        by (auto simp: d7_hamt_node_set_collision_def N set_noop_def
          intro!: achieves_andthen [OF collision_fill_spec] achieves_ret)
    qed
  qed
qed

text \<open>Insertion into any well-formed node.\<close>

lemma node_set_spec:
  assumes "heap S t" and "subnodes N \<subseteq> S" and "wf_node p s N"
    and h: "h = d7_hamt_get_hash p k" and "on_path h s N"
  shows "achieves E (failing_requests E p) t (d7_hamt_node_set p N k v h s ov)
           (\<lambda>(added, n') t'. set_ok p Rk Rv s N k v ov n' \<and> (added \<longleftrightarrow> look p N h s k = None) \<and>
              (set_noop p N k v h s ov \<longrightarrow> n' = N) \<and> heap (S \<union> subnodes n') t')"
  using assms
proof (induction N arbitrary: s)
  case (Leaf a h0 k0 v0)
  then show ?case unfolding d7_hamt_node_set.simps by (intro node_set_leaf_spec) auto
next
  case (Collision a h0 es)
  then show ?case unfolding d7_hamt_node_set.simps by (intro node_set_collision_spec) auto
next
  case (Bitmap_Indexed a dm nm data children n)
  let ?N = "Bitmap_Indexed a dm nm data children n" and ?i = "d7_hamt_index h s" and ?B = "failing_requests E p"
  note heap = Bitmap_Indexed.prems(1) and sub = Bitmap_Indexed.prems(2) and wf = Bitmap_Indexed.prems(3)
    and path = Bitmap_Indexed.prems(5)
  have i: "?i < 32" by (rule d7_hamt_index_less)
  have dense: "dense dm data" "dense nm children" using wf by simp_all
  have kids: "\<And>c. c \<in> set children \<Longrightarrow> subnodes c \<subseteq> S" using sub by auto
  note slots = bitmap_slot [OF dense(1), of h s] bitmap_slot [OF dense(2), of h s]
  show ?case
  proof (cases "sparse dm data ?i")
    case (Some e)
    then have "dm AND d7_hamt_bit ?i \<noteq> 0" using slots by simp
    then show ?thesis
      using node_set_inline_spec [OF heap sub refl wf h path Some, of E v ov]
      unfolding d7_hamt_node_set.simps Let_def by simp
  next
    case none: None
    then have dm: "dm AND d7_hamt_bit ?i = 0" using slots(1) by simp
    show ?thesis
    proof (cases "sparse nm children ?i")
      case None
      let ?x = "Inline h (Entry k v)"
      let ?data = "insert_at (rank dm ?i) ?x data"
      have eq: "d7_hamt_node_set p ?N k v h s ov =
          andthen (d7_hamt_bitmap_copy_create p (dm OR d7_hamt_bit ?i) nm ?data children) (\<lambda>n. ret (True, n))"
        using dm slots(3) None i
        by (simp add: d7_hamt_node_set_vacant_def Let_def d7_hamt_slot_rank)
      have "set_ok p Rk Rv s ?N k v ov
          (Bitmap_Indexed a' (dm OR d7_hamt_bit ?i) nm ?data children (bitmap_count ?data children))" for a'
        using set_ok_vacant [where s = s and a = a and dm = dm and nm = nm and data = data
            and children = children and n = n and k = k and v = v and a' = a' and ov = ov] wf none None h by simp
      then have "set_ok p Rk Rv s ?N k v ov
          (Bitmap_Indexed a' (dm OR d7_hamt_bit ?i) nm data' children (bitmap_count ?data children))"
        if "list_all2 (inline_rel Rk Rv) ?data data'" for a' data'
        using set_ok_copy that by blast
      then show ?thesis
        unfolding eq using none None
        by (intro achieves_andthen [OF bitmap_copy_create_spec [OF heap kids]] achieves_ret)
           (auto simp: set_noop_def)
    next
      case (Some c)
      have nth: "nth_opt children (d7_hamt_slot nm (d7_hamt_bit ?i)) = Some c" using slots Some by simp
      have c: "c \<in> set children" using Some by (rule sparse_Some_in_set)
      have look: "look p ?N h s k = look p c h (s + 5) k" using none Some by simp
      have noop: "set_noop p ?N k v h s ov \<longleftrightarrow> set_noop p c k v h (s + 5) ov"
        unfolding set_noop_def look ..
      have IH: "achieves E ?B t (d7_hamt_node_set p c k v h (s + 5) ov)
           (\<lambda>(added, n') t'. set_ok p Rk Rv (s + 5) c k v ov n' \<and> (added \<longleftrightarrow> look p c h (s + 5) k = None) \<and>
              (set_noop p c k v h (s + 5) ov \<longrightarrow> n' = c) \<and> heap (S \<union> subnodes n') t')"
        using wf c kids on_path_child [OF wf path Some] h heap by (intro Bitmap_Indexed.IH) auto
      have eq: "d7_hamt_node_set p ?N k v h s ov =
          andthen (d7_hamt_node_set p c k v h (s + 5) ov) (\<lambda>(added, new_child).
            if node_addr new_child = node_addr c then ret (added, ?N)
            else andthen (d7_hamt_bitmap_copy_create p dm nm data (children[rank nm ?i := new_child])) (\<lambda>n'. ret (added, n')))"
        using dm slots(3) Some nth i by (simp add: Let_def d7_hamt_slot_rank)
      show ?thesis
        unfolding eq
      proof (rule achieves_andthen [OF IH], clarify)
        fix added c' t1
        assume c': "set_ok p Rk Rv (s + 5) c k v ov c'" "set_noop p c k v h (s + 5) ov \<longrightarrow> c' = c"
          and heap1: "heap (S \<union> subnodes c') t1"
        let ?ch = "children[rank nm ?i := c']"
        have ok: "set_ok p Rk Rv s ?N k v ov (Bitmap_Indexed a' dm nm data' ?ch (bitmap_count data ?ch))"
          if "list_all2 (inline_rel Rk Rv) data data'" for a' data'
        proof (rule set_ok_copy [OF _ that])
          show "set_ok p Rk Rv s ?N k v ov (Bitmap_Indexed a dm nm data ?ch (bitmap_count data ?ch))"
            using set_ok_child [where s = s and a = a and dm = dm and nm = nm and data = data and children = children
                and n = n and k = k and v = v and ov = ov and c = c and c' = c' and a' = a] wf none Some c' h by simp
        qed
        have same: "c' = c" if "node_addr c' = node_addr c"
          by (rule heap_same [OF heap1 _ _ that]) (use subsetD [OF kids [OF c] self_in_subnodes] in auto)
        have unchanged: "set_ok p Rk Rv s ?N k v ov ?N" if eq: "c' = c"
        proof -
          have "bit nm ?i" using sparse_Some_bit [OF Some] by simp
          then have "?ch = children" using Some sparse_nth [OF i _ dense(2)] by (metis eq list_update_id option.inject)
          then have "set_ok p Rk Rv s ?N k v ov (Bitmap_Indexed a dm nm data children (bitmap_count data children))"
            using ok [of data a] by (simp add: list_all2_same inline_rel_def)
          then show ?thesis using wf by simp
        qed
        have kids1: "\<And>x. x \<in> set ?ch \<Longrightarrow> subnodes x \<subseteq> S \<union> subnodes c'"
          using kids set_update_subset_insert [of children "rank nm ?i" c'] by auto
        show "achieves E ?B t1 (if node_addr c' = node_addr c then ret (look p c h (s + 5) k = None, ?N)
            else andthen (d7_hamt_bitmap_copy_create p dm nm data ?ch) (\<lambda>n'. ret (look p c h (s + 5) k = None, n')))
           (\<lambda>(added, n') t'. set_ok p Rk Rv s ?N k v ov n' \<and> (added \<longleftrightarrow> look p ?N h s k = None) \<and>
              (set_noop p ?N k v h s ov \<longrightarrow> n' = ?N) \<and> heap (S \<union> subnodes n') t')"
        proof (cases "node_addr c' = node_addr c")
          case True
          have "heap (S \<union> subnodes ?N) t1" by (rule heap_mono [OF heap1]) (use sub in auto)
          then show ?thesis using True unchanged [OF same [OF True]] look by (auto intro!: achieves_ret)
        next
          case False
          then have "\<not> set_noop p ?N k v h s ov" using c'(2) noop by auto
          with False show ?thesis
            using ok look
            by (auto intro!: achieves_andthen [OF bitmap_copy_create_spec [OF heap1 kids1]] achieves_ret
                elim!: heap_mono simp del: subnodes.simps)
        qed
      qed
    qed
  qed
qed

end

end
