(* ===== verification/Hamt_Remove.thy ===== *)
theory Hamt_Remove
  imports Hamt_Insert
begin

text \<open>
  Removal from the trie: \<open>d7_hamt_bitmap_rebuild\<close> and \<open>d7_hamt_node_remove\<close> of \<open>hamt.c\<close>, and the
  proof that removal drops exactly the given key and that the canonical shape is restored on the
  way up: a branch left with one entry becomes a leaf, a branch left with a lone leaf or bucket
  below it is replaced by it.
\<close>

section \<open>The operations of the code\<close>

definition d7_hamt_bitmap_rebuild ::
  "('k, 'v) d7_hamt_policy \<Rightarrow> u32 \<Rightarrow> u32 \<Rightarrow> ('k, 'v) d7_hamt_inline_entry list
     \<Rightarrow> ('k, 'v) d7_hamt_node list \<Rightarrow> ('k, 'v) d7_hamt_node option act" where
  "d7_hamt_bitmap_rebuild p data_map node_map data children =
     (case (data, children) of
        ([], []) \<Rightarrow> ret None
      | ([e], []) \<Rightarrow>
          andthen (d7_hamt_leaf_create p (inline_hash e) (entry_key (inline_entry e))
                     (entry_value (inline_entry e)))
            (\<lambda>n. ret (Some n))
      | ([], [c]) \<Rightarrow>
          if \<not> is_bitmap c then ret (Some c)
          else andthen (d7_hamt_bitmap_copy_create p data_map node_map data children) (\<lambda>n. ret (Some n))
      | _ \<Rightarrow> andthen (d7_hamt_bitmap_copy_create p data_map node_map data children) (\<lambda>n. ret (Some n)))"

definition d7_hamt_node_remove_collision ::
  "('k, 'v) d7_hamt_policy \<Rightarrow> addr \<Rightarrow> u32 \<Rightarrow> ('k, 'v) d7_hamt_entry list \<Rightarrow> 'k \<Rightarrow> u32
     \<Rightarrow> ('v option \<times> ('k, 'v) d7_hamt_node option) act" where
  "d7_hamt_node_remove_collision p a h es key hsh =
     (if h \<noteq> hsh then ret (None, Some (Collision a h es))
      else
        (case first_index (entry_matches p key) es of
           None \<Rightarrow> ret (None, Some (Collision a h es))
         | Some i \<Rightarrow>
             if length es = 2 then
               (case nth_opt es (1 - i) of
                  None \<Rightarrow> fail Fault
                | Some e \<Rightarrow>
                    andthen (d7_hamt_checked_retain_key p (entry_key e)) (\<lambda>retained_key.
                    andthen (d7_hamt_checked_retain_value p (entry_value e)) (\<lambda>retained_value.
                    andthen (d7_hamt_leaf_create_from_retained h retained_key retained_value) (\<lambda>n.
                    ret (Some (entry_value (es ! i)), Some n)))))
             else
               andthen (collision_fill p h (remove_at i es)) (\<lambda>n.
               ret (Some (entry_value (es ! i)), Some n))))"

definition d7_hamt_node_remove_inline ::
  "('k, 'v) d7_hamt_policy \<Rightarrow> ('k, 'v) d7_hamt_node \<Rightarrow> u32 \<Rightarrow> u32
     \<Rightarrow> ('k, 'v) d7_hamt_inline_entry list \<Rightarrow> ('k, 'v) d7_hamt_node list
     \<Rightarrow> 'k \<Rightarrow> u32 \<Rightarrow> nat \<Rightarrow> ('v option \<times> ('k, 'v) d7_hamt_node option) act" where
  "d7_hamt_node_remove_inline p node dm nm data children key hsh shift =
     (let selected_bit = d7_hamt_bit (d7_hamt_index hsh shift);
          selected_slot = d7_hamt_slot dm selected_bit
      in case nth_opt data selected_slot of
           None \<Rightarrow> fail Fault
         | Some existing \<Rightarrow>
             if inline_hash existing \<noteq> hsh \<or>
                \<not> d7_hamt_keys_equal p (entry_key (inline_entry existing)) key
             then ret (None, Some node)
             else
               andthen (d7_hamt_bitmap_rebuild p (dm AND NOT selected_bit) nm
                          (remove_at selected_slot data) children)
                 (\<lambda>n. ret (Some (entry_value (inline_entry existing)), n)))"

text \<open>What a branch becomes once the child at \<open>selected_slot\<close> has been replaced.\<close>

definition d7_hamt_node_remove_child ::
  "('k, 'v) d7_hamt_policy \<Rightarrow> u32 \<Rightarrow> u32 \<Rightarrow> ('k, 'v) d7_hamt_inline_entry list
     \<Rightarrow> ('k, 'v) d7_hamt_node list \<Rightarrow> u32 \<Rightarrow> ('k, 'v) d7_hamt_node option
     \<Rightarrow> ('k, 'v) d7_hamt_node option act" where
  "d7_hamt_node_remove_child p dm nm data children selected_bit new_child =
     (let selected_slot = d7_hamt_slot nm selected_bit
      in case new_child of
           None \<Rightarrow>
             d7_hamt_bitmap_rebuild p dm (nm AND NOT selected_bit) data (remove_at selected_slot children)
         | Some (Leaf _ h k v) \<Rightarrow>
             d7_hamt_bitmap_rebuild p (dm OR selected_bit) (nm AND NOT selected_bit)
               (insert_at (d7_hamt_slot dm selected_bit) (Inline h (Entry k v)) data)
               (remove_at selected_slot children)
         | Some c \<Rightarrow>
             d7_hamt_bitmap_rebuild p dm nm data (children[selected_slot := c]))"

function d7_hamt_node_remove ::
  "('k, 'v) d7_hamt_policy \<Rightarrow> ('k, 'v) d7_hamt_node \<Rightarrow> 'k \<Rightarrow> u32 \<Rightarrow> nat
     \<Rightarrow> ('v option \<times> ('k, 'v) d7_hamt_node option) act" where
  "d7_hamt_node_remove p (Leaf a h k0 v0) key hsh shift =
     (if h = hsh \<and> d7_hamt_keys_equal p k0 key then ret (Some v0, None)
      else ret (None, Some (Leaf a h k0 v0)))"
| "d7_hamt_node_remove p (Collision a h es) key hsh shift =
     d7_hamt_node_remove_collision p a h es key hsh"
| "d7_hamt_node_remove p (Bitmap_Indexed a dm nm data children n) key hsh shift =
     (let selected_bit = d7_hamt_bit (d7_hamt_index hsh shift)
      in if dm AND selected_bit \<noteq> 0 then
           d7_hamt_node_remove_inline p (Bitmap_Indexed a dm nm data children n) dm nm data children
             key hsh shift
         else if nm AND selected_bit = 0 then ret (None, Some (Bitmap_Indexed a dm nm data children n))
         else
           (case nth_opt children (d7_hamt_slot nm selected_bit) of
              None \<Rightarrow> fail Fault
            | Some child \<Rightarrow>
                andthen (d7_hamt_node_remove p child key hsh (shift + 5)) (\<lambda>(removed_value, new_child).
                  case removed_value of
                    None \<Rightarrow> ret (None, Some (Bitmap_Indexed a dm nm data children n))
                  | Some v \<Rightarrow>
                      andthen (d7_hamt_node_remove_child p dm nm data children selected_bit new_child)
                        (\<lambda>n'. ret (Some v, n')))))"
  by pat_completeness auto
termination
  by (relation "measure (\<lambda>(p, n, _). size n)") (auto dest: nth_opt_size)

section \<open>Optional nodes\<close>

definition look_opt ::
  "('k, 'v) d7_hamt_policy \<Rightarrow> ('k, 'v) d7_hamt_node option \<Rightarrow> u32 \<Rightarrow> nat \<Rightarrow> 'k
     \<Rightarrow> ('k, 'v) d7_hamt_entry option" where
  "look_opt p r h s k = (case r of None \<Rightarrow> None | Some n \<Rightarrow> look p n h s k)"

definition wf_opt :: "('k, 'v) d7_hamt_policy \<Rightarrow> nat \<Rightarrow> ('k, 'v) d7_hamt_node option \<Rightarrow> bool" where
  "wf_opt p s r = (case r of None \<Rightarrow> True | Some n \<Rightarrow> wf_node p s n)"

definition hashes_opt :: "('k, 'v) d7_hamt_node option \<Rightarrow> u32 set" where
  "hashes_opt r = (case r of None \<Rightarrow> {} | Some n \<Rightarrow> node_hashes n)"

definition count_opt :: "('k, 'v) d7_hamt_node option \<Rightarrow> nat" where
  "count_opt r = (case r of None \<Rightarrow> 0 | Some n \<Rightarrow> subtree_count n)"

definition subnodes_opt :: "('k, 'v) d7_hamt_node option \<Rightarrow> ('k, 'v) d7_hamt_node set" where
  "subnodes_opt r = (case r of None \<Rightarrow> {} | Some n \<Rightarrow> subnodes n)"

lemmas opt_defs = look_opt_def wf_opt_def hashes_opt_def count_opt_def subnodes_opt_def

lemma opt_None [simp]:
  "look_opt p None h s k = None" "wf_opt p s None" "hashes_opt None = {}" "count_opt None = 0"
  "subnodes_opt None = {}"
  by (simp_all add: opt_defs)

lemma opt_Some [simp]:
  "look_opt p (Some n) h s k = look p n h s k" "wf_opt p s (Some n) = wf_node p s n"
  "hashes_opt (Some n) = node_hashes n" "count_opt (Some n) = subtree_count n"
  "subnodes_opt (Some n) = subnodes n"
  by (simp_all add: opt_defs)

text \<open>\<open>r\<close> is \<open>n\<close> without \<open>k\<close>: every other key keeps its entry, and the count shrinks exactly when the
  key was present.\<close>

definition remove_ok ::
  "('k, 'v) d7_hamt_policy \<Rightarrow> ('k \<Rightarrow> 'k \<Rightarrow> bool) \<Rightarrow> ('v \<Rightarrow> 'v \<Rightarrow> bool) \<Rightarrow> nat \<Rightarrow> ('k, 'v) d7_hamt_node
     \<Rightarrow> 'k \<Rightarrow> ('k, 'v) d7_hamt_node option \<Rightarrow> bool" where
  "remove_ok p Rk Rv s n k r \<longleftrightarrow>
     wf_opt p s r \<and> hashes_opt r \<subseteq> node_hashes n \<and>
     count_opt r + (if look p n (d7_hamt_get_hash p k) s k = None then 0 else 1) = subtree_count n \<and>
     (\<forall>k'. rel_option (entry_rel Rk Rv) (look_opt p r (d7_hamt_get_hash p k') s k')
        (if d7_hamt_keys_equal p k k' then None else look p n (d7_hamt_get_hash p k') s k'))"

lemma remove_okI:
  assumes "wf_opt p s r" "hashes_opt r \<subseteq> node_hashes n"
    and "count_opt r + (if look p n (d7_hamt_get_hash p k) s k = None then 0 else 1) = subtree_count n"
    and "\<And>k'. rel_option (entry_rel Rk Rv) (look_opt p r (d7_hamt_get_hash p k') s k')
        (if d7_hamt_keys_equal p k k' then None else look p n (d7_hamt_get_hash p k') s k')"
  shows "remove_ok p Rk Rv s n k r"
  using assms unfolding remove_ok_def by blast

section \<open>Slots of a branch\<close>

text \<open>What slot \<open>i\<close> of a branch at shift \<open>s\<close> may hold: an inline entry, a child that is not a leaf, or
  nothing, with all hashes selecting \<open>i\<close>.\<close>

definition slot_ok ::
  "('k, 'v) d7_hamt_policy \<Rightarrow> nat \<Rightarrow> nat \<Rightarrow> ('k, 'v) d7_hamt_inline_entry option
     \<Rightarrow> ('k, 'v) d7_hamt_node option \<Rightarrow> bool" where
  "slot_ok p s i x y \<longleftrightarrow>
     (x = None \<or> y = None) \<and>
     (\<forall>e. x = Some e \<longrightarrow>
        d7_hamt_get_hash p (entry_key (inline_entry e)) = inline_hash e \<and>
        d7_hamt_index (inline_hash e) s = i) \<and>
     (\<forall>c. y = Some c \<longrightarrow>
        wf_node p (s + 5) c \<and> \<not> is_leaf c \<and> (\<forall>h\<in>node_hashes c. d7_hamt_index h s = i))"

definition wf_slots ::
  "('k, 'v) d7_hamt_policy \<Rightarrow> nat \<Rightarrow> u32 \<Rightarrow> u32 \<Rightarrow> ('k, 'v) d7_hamt_inline_entry list
     \<Rightarrow> ('k, 'v) d7_hamt_node list \<Rightarrow> bool" where
  "wf_slots p s dm nm data children \<longleftrightarrow>
     s < 32 \<and> dense dm data \<and> dense nm children \<and>
     (\<forall>i. slot_ok p s i (sparse dm data i) (sparse nm children i))"

definition look_slot ::
  "('k, 'v) d7_hamt_policy \<Rightarrow> ('k, 'v) d7_hamt_inline_entry option \<Rightarrow> ('k, 'v) d7_hamt_node option
     \<Rightarrow> u32 \<Rightarrow> nat \<Rightarrow> 'k \<Rightarrow> ('k, 'v) d7_hamt_entry option" where
  "look_slot p x y h s k =
     (case x of Some e \<Rightarrow> inline_match p h k e | None \<Rightarrow> look_opt p y h (s + 5) k)"

lemma look_bitmap_slot:
  "look p (Bitmap_Indexed a dm nm data children n) h s k =
     look_slot p (sparse dm data (d7_hamt_index h s)) (sparse nm children (d7_hamt_index h s)) h s k"
  by (simp add: look_slot_def look_opt_def split: option.split)

lemma slots_disjoint:
  assumes "dense dm data" "dense nm children"
  shows "dm AND nm = 0 \<longleftrightarrow> (\<forall>i. sparse dm data i = None \<or> sparse nm children i = None)"
  using assms by (auto simp: and_eq_0_iff sparse_None)

lemma wf_bitmap_slots:
  "wf_node p s (Bitmap_Indexed a dm nm data children n) \<longleftrightarrow>
     wf_slots p s dm nm data children \<and>
     (2 \<le> length data + length children \<or> (data = [] \<and> (\<exists>c. children = [c] \<and> is_bitmap c))) \<and>
     n = bitmap_count data children"
proof (cases "dense dm data \<and> dense nm children")
  case True
  then have d: "dense dm data" "dense nm children" by simp_all
  have data: "(\<forall>e\<in>set data. P e) \<longleftrightarrow> (\<forall>i e. sparse dm data i = Some e \<longrightarrow> P e)" for P
    using set_eq_ran_sparse [OF d(1)] by auto
  have kids: "(\<forall>c\<in>set children. P c) \<longleftrightarrow> (\<forall>i c. sparse nm children i = Some c \<longrightarrow> P c)" for P
    using set_eq_ran_sparse [OF d(2)] by auto
  show ?thesis
    unfolding wf_node.simps wf_slots_def slot_ok_def data kids slots_disjoint [OF d] by auto
qed (auto simp: wf_slots_def)

lemma wf_slots_change:
  assumes "wf_slots p s dm nm data children"
    and "dense dm' data'" "sparse dm' data' = (sparse dm data)(i := x)"
    and "dense nm' children'" "sparse nm' children' = (sparse nm children)(i := y)"
    and "slot_ok p s i x y"
  shows "wf_slots p s dm' nm' data' children'"
  using assms by (simp add: wf_slots_def)

lemma subtree_count_pos: "wf_node p s n \<Longrightarrow> 0 < subtree_count n"
proof (induction n arbitrary: s)
  case (Bitmap_Indexed a dm nm data children n)
  then have n: "n = length data + sum_list (map subtree_count children)" by (simp add: bitmap_count_def)
  show ?case
  proof (cases children)
    case Nil
    then show ?thesis using Bitmap_Indexed.prems n by auto
  next
    case (Cons c cs)
    then have "0 < subtree_count c" using Bitmap_Indexed by auto
    then show ?thesis using n Cons by simp
  qed
qed auto

lemma is_leaf_count:
  assumes "wf_node p s n"
  shows "is_leaf n \<longleftrightarrow> subtree_count n = 1"
  using assms
proof (induction n arbitrary: s)
  case (Bitmap_Indexed a dm nm data children n)
  have n: "n = length data + sum_list (map subtree_count children)" using Bitmap_Indexed.prems by (simp add: bitmap_count_def)
  have kid: "2 \<le> subtree_count c" if "c \<in> set children" for c
  proof -
    have "wf_node p (s + 5) c" "\<not> is_leaf c" using Bitmap_Indexed.prems that by auto
    then have "subtree_count c \<noteq> 1" "0 < subtree_count c" using Bitmap_Indexed.IH [OF that] subtree_count_pos by blast+
    then show ?thesis by simp
  qed
  have "2 \<le> n"
  proof (cases children)
    case Nil
    then show ?thesis using Bitmap_Indexed.prems n by auto
  next
    case (Cons c cs)
    then show ?thesis using kid [of c] n by simp
  qed
  then show ?case by simp
qed auto

text \<open>A node seen as the content of a slot: a leaf is stored inline, anything else as a child.\<close>

definition slot_inline :: "('k, 'v) d7_hamt_node option \<Rightarrow> ('k, 'v) d7_hamt_inline_entry option" where
  "slot_inline r = (case r of Some (Leaf _ h k v) \<Rightarrow> Some (Inline h (Entry k v)) | _ \<Rightarrow> None)"

definition slot_child :: "('k, 'v) d7_hamt_node option \<Rightarrow> ('k, 'v) d7_hamt_node option" where
  "slot_child r = (case r of Some (Leaf _ _ _ _) \<Rightarrow> None | _ \<Rightarrow> r)"

lemma slot_contents_not_leaf:
  "\<not> is_leaf m \<Longrightarrow> slot_inline (Some m) = None \<and> slot_child (Some m) = Some m"
  by (cases m) (simp_all add: slot_inline_def slot_child_def)

lemma slot_contents [simp]:
  "slot_inline None = None" "slot_child None = None"
  "slot_inline (Some (Leaf a h k v)) = Some (Inline h (Entry k v))" "slot_child (Some (Leaf a h k v)) = None"
  by (simp_all add: slot_inline_def slot_child_def)

lemma slot_cases:
  obtains (none) "r = None" | (leaf) a h k v where "r = Some (Leaf a h k v)"
    | (child) m where "r = Some m" "\<not> is_leaf m"
  by (metis is_leaf.elims(2) not_None_eq)

lemma look_slot_contents: "look_slot p (slot_inline r) (slot_child r) h s k = look_opt p r h (s + 5) k"
  by (cases r rule: slot_cases)
     (auto simp: slot_contents_not_leaf look_slot_def inline_match_def entry_matches_def)

lemma slot_hashes:
  "inline_hash ` set_option (slot_inline r) \<union> (\<Union>c\<in>set_option (slot_child r). node_hashes c) = hashes_opt r"
  by (cases r rule: slot_cases) (auto simp: slot_contents_not_leaf)

lemma slot_ok_contents:
  assumes "wf_opt p (s + 5) r" and "\<forall>h\<in>hashes_opt r. d7_hamt_index h s = i"
  shows "slot_ok p s i (slot_inline r) (slot_child r)"
  using assms by (cases r rule: slot_cases) (auto simp: slot_ok_def slot_contents_not_leaf simp del: wf_node.simps(3))

context hamt_policy
begin

lemma wf_slots_copy:
  assumes rel: "list_all2 (inline_rel Rk Rv) data data'" and wf: "wf_slots p s dm nm data children"
  shows "wf_slots p s dm nm data' children"
  unfolding wf_slots_def
proof (intro conjI allI)
  show "s < 32" "dense dm data'" "dense nm children"
    using wf dense_list_all2 [OF rel] by (simp_all add: wf_slots_def)
  fix i
  have "slot_ok p s i (sparse dm data i) (sparse nm children i)" using wf by (simp add: wf_slots_def)
  with sparse_list_all2 [OF rel, of dm i]
  show "slot_ok p s i (sparse dm data' i) (sparse nm children i)"
  proof (cases rule: option.rel_cases)
    case (Some x y)
    then show ?thesis
      using \<open>slot_ok p s i (sparse dm data i) (sparse nm children i)\<close> inline_rel_hash [OF Some(3)]
      by (simp add: slot_ok_def inline_rel_def)
  qed auto
qed

text \<open>A rebuilt branch means what the arrays it was built from mean, in canonical shape.\<close>

definition rebuilt ::
  "nat \<Rightarrow> u32 \<Rightarrow> u32 \<Rightarrow> ('k, 'v) d7_hamt_inline_entry list \<Rightarrow> ('k, 'v) d7_hamt_node list
     \<Rightarrow> ('k, 'v) d7_hamt_node option \<Rightarrow> bool" where
  "rebuilt s dm nm data children r \<longleftrightarrow>
     wf_opt p s r \<and>
     hashes_opt r = inline_hash ` set data \<union> (\<Union>c \<in> set children. node_hashes c) \<and>
     count_opt r = bitmap_count data children \<and>
     (\<forall>h k. rel_option (entry_rel Rk Rv) (look_opt p r h s k)
        (look_slot p (sparse dm data (d7_hamt_index h s)) (sparse nm children (d7_hamt_index h s)) h s k))"

lemma rebuilt_leaf:
  assumes wf: "wf_slots p s dm nm [e] []"
    and k: "Rk (entry_key (inline_entry e)) k" and v: "Rv (entry_value (inline_entry e)) v"
  shows "rebuilt s dm nm [e] [] (Some (Leaf a (inline_hash e) k v))"
proof -
  obtain i where i: "i < 32" "sparse dm [e] i = Some e"
    using in_set_sparse [of e "[e]" dm] wf by (auto simp: wf_slots_def)
  have eh: "d7_hamt_get_hash p (entry_key (inline_entry e)) = inline_hash e" "d7_hamt_index (inline_hash e) s = i"
    using wf i by (auto simp: wf_slots_def slot_ok_def)
  have keq: "d7_hamt_keys_equal p (entry_key (inline_entry e)) k" using k by (rule Rk_keq)
  have "rel_option (entry_rel Rk Rv) (look p (Leaf a (inline_hash e) k v) h s k')
        (look_slot p (sparse dm [e] (d7_hamt_index h s)) None h s k')" for h k'
  proof (cases "sparse dm [e] (d7_hamt_index h s)")
    case None
    then show ?thesis using i eh by (auto simp: look_slot_def)
  next
    case (Some x)
    then have "x = e" using sparse_Some_in_set by fastforce
    then show ?thesis
      using Some k v Rk_sym [OF k] Rv_sym [OF v] keq_left [OF keq]
      by (auto simp: look_slot_def inline_match_def entry_matches_def entry_rel_def)
  qed
  then show ?thesis using eh keq_hash [OF keq] by (simp add: rebuilt_def bitmap_count_def)
qed

lemma rebuilt_child:
  assumes wf: "wf_slots p s dm nm [] [c]" and c: "\<not> is_bitmap c"
  shows "rebuilt s dm nm [] [c] (Some c)"
proof -
  obtain i where i: "i < 32" "sparse nm [c] i = Some c"
    using in_set_sparse [of c "[c]" nm] wf by (auto simp: wf_slots_def)
  have wc: "wf_node p (s + 5) c" "\<forall>h\<in>node_hashes c. d7_hamt_index h s = i"
    using wf i by (auto simp: wf_slots_def slot_ok_def)
  obtain hc where hc: "d7_hamt_hash_node_hash c = Some hc" using c by (cases c) auto
  note ln = look_hash_node [OF hc]
  have "look p c h s k = look_slot p None (sparse nm [c] (d7_hamt_index h s)) h s k" for h k
  proof (cases "sparse nm [c] (d7_hamt_index h s)")
    case None
    then have "h \<noteq> hc" using i wc(2) ln(2) by auto
    then show ?thesis using ln(3) None by (simp add: look_slot_def)
  next
    case (Some x)
    then have "x = c" using sparse_Some_in_set by fastforce
    then show ?thesis using Some ln(1) [of h s k "s + 5"] by (simp add: look_slot_def)
  qed
  then show ?thesis using ln(5) [OF wc(1), of s] by (simp add: rebuilt_def bitmap_count_def)
qed

lemma rebuilt_bitmap:
  assumes wf: "wf_slots p s dm nm data children"
    and shape: "2 \<le> length data + length children \<or> (data = [] \<and> (\<exists>c. children = [c] \<and> is_bitmap c))"
    and rel: "list_all2 (inline_rel Rk Rv) data data'"
  shows "rebuilt s dm nm data children (Some (Bitmap_Indexed a dm nm data' children (bitmap_count data children)))"
proof -
  have len: "length data' = length data" "data' = [] \<longleftrightarrow> data = []"
    using list_all2_lengthD [OF rel] by auto
  have "wf_node p s (Bitmap_Indexed a dm nm data' children (bitmap_count data children))"
    unfolding wf_bitmap_slots using wf_slots_copy [OF rel wf] shape len by (simp add: bitmap_count_def)
  moreover have "rel_option (entry_rel Rk Rv) (look p (Bitmap_Indexed a dm nm data' children m) h s k)
      (look_slot p (sparse dm data (d7_hamt_index h s)) (sparse nm children (d7_hamt_index h s)) h s k)" for m h k
    unfolding look_bitmap_slot [of p a dm nm data children m, symmetric]
    by (rule found_sym [OF look_bitmap_related [OF rel]])
  ultimately show ?thesis
    using bitmap_hashes_related [OF rel] by (simp add: rebuilt_def del: look.simps wf_node.simps)
qed

lemma rebuild_spec:
  assumes heap: "heap S t" and kids: "\<And>c. c \<in> set children \<Longrightarrow> subnodes c \<subseteq> S"
    and wf: "wf_slots p s dm nm data children"
  shows "achieves E (failing_requests E p) t (d7_hamt_bitmap_rebuild p dm nm data children)
           (\<lambda>r t'. rebuilt s dm nm data children r \<and> heap (S \<union> subnodes_opt r) t')"
proof -
  have copy: "achieves E (failing_requests E p) t
        (andthen (d7_hamt_bitmap_copy_create p dm nm data children) (\<lambda>n. ret (Some n)))
        (\<lambda>r t'. rebuilt s dm nm data children r \<and> heap (S \<union> subnodes_opt r) t')"
    if "2 \<le> length data + length children \<or> (data = [] \<and> (\<exists>c. children = [c] \<and> is_bitmap c))"
    using rebuilt_bitmap [OF wf that]
    by (intro achieves_andthen [OF bitmap_copy_create_spec [OF heap kids]] achieves_ret) auto
  consider (empty) "data = []" "children = []" | (leaf) e where "data = [e]" "children = []"
    | (child) c where "data = []" "children = [c]" "\<not> is_bitmap c"
    | (branch) "2 \<le> length data + length children \<or> (data = [] \<and> (\<exists>c. children = [c] \<and> is_bitmap c))"
    by (cases data; cases "tl data"; cases children; cases "tl children") auto
  then show ?thesis
  proof cases
    case empty
    then show ?thesis
      using heap by (auto simp: d7_hamt_bitmap_rebuild_def rebuilt_def look_slot_def bitmap_count_def intro!: achieves_ret)
  next
    case leaf
    then show ?thesis
      using heap wf rebuilt_leaf [of s dm nm e]
      by (auto simp: d7_hamt_bitmap_rebuild_def intro!: achieves_andthen [OF leaf_create_spec] achieves_ret)
  next
    case child
    then have "heap (S \<union> subnodes c) t" using heap kids by (simp add: Un_absorb2)
    then show ?thesis
      using child wf rebuilt_child [of s dm nm c]
      by (auto simp: d7_hamt_bitmap_rebuild_def intro!: achieves_ret)
  next
    case branch
    then show ?thesis
      using copy by (auto simp: d7_hamt_bitmap_rebuild_def split: list.split)
  qed
qed

section \<open>Removal\<close>

lemma remove_ok_absent:
  assumes "wf_node p s n" and "look p n (d7_hamt_get_hash p k) s k = None"
  shows "remove_ok p Rk Rv s n k (Some n)"
proof -
  have "look p n (d7_hamt_get_hash p k') s k' = None" if "d7_hamt_keys_equal p k k'" for k'
    using assms(2) keq_hash [OF that] look_keq [OF that] by simp
  then show ?thesis using assms by (simp add: remove_ok_def)
qed

lemma remove_ok_slot:
  fixes a dm nm data children n s k
  defines "N \<equiv> Bitmap_Indexed a dm nm data children n"
    and "i \<equiv> d7_hamt_index (d7_hamt_get_hash p k) s"
  assumes wf: "wf_node p s N"
    and data: "dense dm' data'" "sparse dm' data' = (sparse dm data)(i := x)"
    and kids: "dense nm' children'" "sparse nm' children' = (sparse nm children)(i := y)"
    and hashes: "inline_hash ` set_option x \<subseteq> node_hashes N" "(\<Union>c\<in>set_option y. node_hashes c) \<subseteq> node_hashes N"
    and count: "bitmap_count data' children' + (if look p N (d7_hamt_get_hash p k) s k = None then 0 else 1) = n"
    and look: "\<And>k'. d7_hamt_index (d7_hamt_get_hash p k') s = i \<Longrightarrow>
       rel_option (entry_rel Rk Rv) (look_slot p x y (d7_hamt_get_hash p k') s k')
         (if d7_hamt_keys_equal p k k' then None else look p N (d7_hamt_get_hash p k') s k')"
    and r: "rebuilt s dm' nm' data' children' r"
  shows "remove_ok p Rk Rv s N k r"
proof -
  let ?h = "d7_hamt_get_hash p"
  have d: "dense dm data" "dense nm children" using wf by (simp_all add: N_def)
  have "set data' \<subseteq> set data \<union> set_option x"
    unfolding set_eq_ran_sparse [OF data(1)] set_eq_ran_sparse [OF d(1)] data(2) by (auto split: if_splits)
  moreover have "set children' \<subseteq> set children \<union> set_option y"
    unfolding set_eq_ran_sparse [OF kids(1)] set_eq_ran_sparse [OF d(2)] kids(2) by (auto split: if_splits)
  ultimately have "inline_hash ` set data' \<union> (\<Union>c \<in> set children'. node_hashes c) \<subseteq> node_hashes N"
    using hashes unfolding N_def node_hashes.simps by (blast dest: subsetD)
  moreover have "rel_option (entry_rel Rk Rv) (look_opt p r (?h k') s k')
        (if d7_hamt_keys_equal p k k' then None else look p N (?h k') s k')" for k'
  proof -
    have new: "rel_option (entry_rel Rk Rv) (look_opt p r (?h k') s k')
        (look_slot p (sparse dm' data' (d7_hamt_index (?h k') s)) (sparse nm' children' (d7_hamt_index (?h k') s)) (?h k') s k')"
      using r by (simp add: rebuilt_def)
    show ?thesis
    proof (cases "d7_hamt_index (?h k') s = i")
      case True
      then have "sparse dm' data' (d7_hamt_index (?h k') s) = x" "sparse nm' children' (d7_hamt_index (?h k') s) = y"
        by (simp_all add: data(2) kids(2))
      then have "rel_option (entry_rel Rk Rv) (look_opt p r (?h k') s k') (look_slot p x y (?h k') s k')"
        using new by simp
      then show ?thesis using look [OF True] by (rule found_trans)
    next
      case False
      then have "\<not> d7_hamt_keys_equal p k k'" using keq_hash [of k k'] by (auto simp: i_def)
      then show ?thesis using new False by (simp add: data(2) kids(2) N_def look_bitmap_slot del: look.simps)
    qed
  qed
  ultimately show ?thesis
    using r count unfolding rebuilt_def by (intro remove_okI) (simp_all add: N_def del: look.simps)
qed

lemma distinct_keys_remove_at: "distinct_keys p es \<Longrightarrow> distinct_keys p (remove_at i es)"
proof (induction es arbitrary: i)
  case (Cons e es)
  then show ?case
  proof (cases i)
    case (Suc j)
    then show ?thesis
      using Cons set_remove_at [of j es] by (auto simp: remove_at_def)
  qed (simp add: remove_at_def)
qed (simp add: remove_at_def)

lemma bucket_remove:
  assumes "distinct_keys p es" "i < length es" "d7_hamt_keys_equal p (entry_key (es ! i)) k"
  shows "distinct_keys p (remove_at i es)"
    and "find (entry_matches p k') (remove_at i es) =
      (if d7_hamt_keys_equal p k k' then None else find (entry_matches p k') es)"
proof -
  show "distinct_keys p (remove_at i es)" using assms(1) by (rule distinct_keys_remove_at)
  show "find (entry_matches p k') (remove_at i es) =
      (if d7_hamt_keys_equal p k k' then None else find (entry_matches p k') es)"
    using assms
  proof (induction es arbitrary: i)
    case (Cons e es)
    show ?case
    proof (cases i)
      case 0
      then have e: "d7_hamt_keys_equal p (entry_key e) k" using Cons.prems by simp
      have "find (entry_matches p k') es = None" if k': "d7_hamt_keys_equal p k k'"
      proof -
        have "\<not> d7_hamt_keys_equal p (entry_key x) k'" if "x \<in> set es" for x
          using Cons.prems(1) that keq_trans [OF keq_trans [OF e k'] keq_sym, of "entry_key x"] by auto
        then show ?thesis by (simp add: find_None_iff entry_matches_def)
      qed
      moreover have "entry_matches p k' e = d7_hamt_keys_equal p k k'"
        using keq_left [OF e] by (simp add: entry_matches_def)
      ultimately show ?thesis using 0 by (simp add: remove_at_def)
    next
      case (Suc j)
      then have j: "j < length es" "d7_hamt_keys_equal p (entry_key (es ! j)) k" using Cons.prems by simp_all
      have IH: "find (entry_matches p k') (remove_at j es) =
          (if d7_hamt_keys_equal p k k' then None else find (entry_matches p k') es)"
        using Cons.prems(1) j by (intro Cons.IH) auto
      have "\<not> d7_hamt_keys_equal p (entry_key e) (entry_key (es ! j))" using Cons.prems(1) j by simp
      then have "\<not> entry_matches p k' e" if "d7_hamt_keys_equal p k k'"
        using keq_right [OF keq_trans [OF j(2) that], of "entry_key e"] by (simp add: entry_matches_def)
      then show ?thesis using IH Suc by (auto simp: remove_at_def)
    qed
  qed simp
qed

lemma node_remove_collision_spec:
  assumes heap: "heap S t" and sub: "subnodes N \<subseteq> S" and N: "N = Collision a h0 es"
    and wf: "wf_node p s N" and h: "h = d7_hamt_get_hash p k"
  shows "achieves E (failing_requests E p) t (d7_hamt_node_remove_collision p a h0 es k h)
           (\<lambda>(rv, r) t'. remove_ok p Rk Rv s N k r \<and> rv = map_option entry_value (look p N h s k) \<and>
              (look p N h s k = None \<longrightarrow> r = Some N) \<and> heap (S \<union> subnodes_opt r) t')"
proof (cases "h0 = h \<and> find (entry_matches p k) es \<noteq> None")
  case False
  then have absent: "look p N h s k = None" by (auto simp: N)
  then have "remove_ok p Rk Rv s N k (Some N)" using wf h by (intro remove_ok_absent) auto
  moreover have "d7_hamt_node_remove_collision p a h0 es k h = ret (None, Some N)"
    using False by (auto simp: d7_hamt_node_remove_collision_def N first_index_None [symmetric])
  moreover have "heap (S \<union> subnodes N) t" using heap sub by (simp add: Un_absorb2)
  ultimately show ?thesis using absent by (auto intro!: achieves_ret)
next
  case True
  then obtain i where i: "first_index (entry_matches p k) es = Some i"
    by (metis first_index_None not_None_eq)
  note fi = first_index_Some [OF i]
  have keq: "d7_hamt_keys_equal p (entry_key (es ! i)) k" using fi by (simp add: entry_matches_def)
  have look: "look p N h s k = Some (es ! i)" using True fi by (simp add: N)
  have es: "distinct_keys p es" "\<forall>e\<in>set es. d7_hamt_get_hash p (entry_key e) = h" "2 \<le> length es"
    using wf True by (simp_all add: N)
  have rest: "distinct_keys p (remove_at i es)" "find (entry_matches p k') (remove_at i es) =
      (if d7_hamt_keys_equal p k k' then None else find (entry_matches p k') es)" for k'
    using bucket_remove [OF es(1) _ keq] fi by simp_all
  have hs: "\<forall>e\<in>set (remove_at i es). d7_hamt_get_hash p (entry_key e) = h"
    using es(2) set_remove_at [of i es] by auto
  have ok: "remove_ok p Rk Rv s N k (Some m)"
    if "wf_node p s m" "node_hashes m = {h}" "subtree_count m = length (remove_at i es)"
      and "\<And>h' k'. rel_option (entry_rel Rk Rv) (look p m h' s k')
        (if h = h' then find (entry_matches p k') (remove_at i es) else None)" for m
  proof -
    have "rel_option (entry_rel Rk Rv) (look p m (d7_hamt_get_hash p k') s k')
        (if d7_hamt_keys_equal p k k' then None else look p N (d7_hamt_get_hash p k') s k')" for k'
      using that(4) [of "d7_hamt_get_hash p k'" k'] True rest(2) [of k'] by (auto simp: N split: if_splits)
    then show ?thesis using that(1-3) look fi True h es(3)
      by (intro remove_okI) (auto simp: N simp del: look.simps)
  qed
  show ?thesis
  proof (cases "length es = 2")
    case False
    have m: "remove_ok p Rk Rv s N k (Some (Collision a' h es'))"
      if rel: "list_all2 (entry_rel Rk Rv) (remove_at i es) es'" for a' es'
    proof (rule ok)
      have "length es' = length es - 1" using list_all2_lengthD [OF rel] fi by simp
      then show "wf_node p s (Collision a' h es')"
        using distinct_keys_related [OF rel] hash_related [OF rel, of h] hs rest(1) False es(3) by simp
      show "rel_option (entry_rel Rk Rv) (look p (Collision a' h es') h' s k')
        (if h = h' then find (entry_matches p k') (remove_at i es) else None)" for h' k'
        using found_sym [OF find_related [OF rel, of k']] by simp
    qed (use list_all2_lengthD [OF rel] in auto)
    show ?thesis
      using m i True False heap look
      by (auto simp: d7_hamt_node_remove_collision_def
          intro!: achieves_andthen [OF collision_fill_spec] achieves_ret)
  next
    case two: True
    then have i1: "1 - i < length es" by simp
    let ?e = "es ! (1 - i)"
    have rem: "remove_at i es = [?e]" using two fi by (auto simp: remove_at_def length_Suc_conv numeral_2_eq_2 less_Suc_eq)
    have m: "remove_ok p Rk Rv s N k (Some (Leaf a' h k' v'))"
      if "Rk (entry_key ?e) k'" "Rv (entry_value ?e) v'" for a' k' v'
    proof (rule ok)
      have eq: "d7_hamt_keys_equal p (entry_key ?e) k'" using that(1) by (rule Rk_keq)
      show "wf_node p s (Leaf a' h k' v')" using hs keq_hash [OF eq] by (simp add: rem)
      show "rel_option (entry_rel Rk Rv) (look p (Leaf a' h k' v') h' s k'')
        (if h = h' then find (entry_matches p k'') (remove_at i es) else None)" for h' k''
        using keq_left [OF eq] that Rk_sym Rv_sym by (auto simp: rem entry_matches_def entry_rel_def)
    qed (simp_all add: rem)
    have eq: "d7_hamt_node_remove_collision p a h0 es k h =
        andthen (d7_hamt_leaf_create p h (entry_key ?e) (entry_value ?e)) (\<lambda>n.
        ret (Some (entry_value (es ! i)), Some n))"
      using i True two i1
      by (auto simp: d7_hamt_node_remove_collision_def d7_hamt_leaf_create_def nth_opt_def andthen_def fun_eq_iff
          split: prod.split sum.split)
    show ?thesis
      unfolding eq using m heap look
      by (auto intro!: achieves_andthen [OF leaf_create_spec] achieves_ret)
  qed
qed

lemma node_remove_inline_spec:
  assumes heap: "heap S t" and sub: "subnodes N \<subseteq> S"
    and N: "N = Bitmap_Indexed a dm nm data children n"
    and wf: "wf_node p s N" and h: "h = d7_hamt_get_hash p k"
    and slot: "sparse dm data (d7_hamt_index h s) = Some e"
  shows "achieves E (failing_requests E p) t (d7_hamt_node_remove_inline p N dm nm data children k h s)
           (\<lambda>(rv, r) t'. remove_ok p Rk Rv s N k r \<and> rv = map_option entry_value (look p N h s k) \<and>
              (look p N h s k = None \<longrightarrow> r = Some N) \<and> heap (S \<union> subnodes_opt r) t')"
proof -
  let ?i = "d7_hamt_index h s"
  have i: "?i < 32" by (rule d7_hamt_index_less)
  have dense: "dense dm data" "dense nm children" using wf by (simp_all add: N)
  have bit: "bit dm ?i" using slot dense by (metis option.distinct(1) sparse_None)
  have nbit: "\<not> bit nm ?i" using wf bit wf_disjoint by (auto simp: N)
  have nth: "nth_opt data (d7_hamt_slot dm (d7_hamt_bit ?i)) = Some e"
    using bitmap_slot [OF dense(1), of h s] slot by auto
  have kids: "\<And>c. c \<in> set children \<Longrightarrow> subnodes c \<subseteq> S" using sub by (auto simp: N)
  have look: "look p N h s k =
      (if inline_hash e = h \<and> d7_hamt_keys_equal p (entry_key (inline_entry e)) k then Some (inline_entry e) else None)"
    using slot by (simp add: N inline_match_def entry_matches_def)
  show ?thesis
  proof (cases "inline_hash e = h \<and> d7_hamt_keys_equal p (entry_key (inline_entry e)) k")
    case False
    then have "remove_ok p Rk Rv s N k (Some N)" using wf h look by (intro remove_ok_absent) auto
    moreover have "heap (S \<union> subnodes N) t" using heap sub by (simp add: Un_absorb2)
    ultimately show ?thesis
      using False nth look by (auto simp: d7_hamt_node_remove_inline_def Let_def intro!: achieves_ret)
  next
    case True
    let ?data = "remove_at (rank dm ?i) data" and ?dm = "dm AND NOT (d7_hamt_bit ?i)"
    note rem = remove_at_dense [OF i bit dense(1)]
    have nm: "sparse nm children ?i = None" using nbit dense by (simp add: sparse_None)
    have ws: "wf_slots p s ?dm nm ?data children"
    proof (rule wf_slots_change [OF _ rem dense(2)])
      show "wf_slots p s dm nm data children" using wf unfolding N wf_bitmap_slots by simp
      show "sparse nm children = (sparse nm children)(?i := None)" using nm by (simp add: fun_upd_idem)
    qed (simp add: slot_ok_def)
    have cnt: "bitmap_count ?data children + 1 = n"
      using wf rank_less [OF i bit dense(1)] by (simp add: N bitmap_count_def)
    have ok: "remove_ok p Rk Rv s N k r" if "rebuilt s ?dm nm ?data children r" for r
      unfolding N
    proof (rule remove_ok_slot [OF wf [unfolded N] rem(1) _ dense(2) _ _ _ _ _ that, where y = None])
      show "sparse ?dm ?data = (sparse dm data)(d7_hamt_index (d7_hamt_get_hash p k) s := None)"
        using rem(2) by (simp add: h)
      show "sparse nm children = (sparse nm children)(d7_hamt_index (d7_hamt_get_hash p k) s := None)"
        using nm by (simp add: h fun_upd_idem)
      show "bitmap_count ?data children + (if look p (Bitmap_Indexed a dm nm data children n)
              (d7_hamt_get_hash p k) s k = None then 0 else 1) = n"
        using cnt look True unfolding N h by simp
      fix k' assume idx: "d7_hamt_index (d7_hamt_get_hash p k') s = d7_hamt_index (d7_hamt_get_hash p k) s"
      have "look p N (d7_hamt_get_hash p k') s k' = None" if "\<not> d7_hamt_keys_equal p k k'"
        using slot idx True that keq_left [of "entry_key (inline_entry e)" k k']
        by (auto simp: N h inline_match_def entry_matches_def)
      then show "rel_option (entry_rel Rk Rv) (look_slot p None None (d7_hamt_get_hash p k') s k')
         (if d7_hamt_keys_equal p k k' then None
          else look p (Bitmap_Indexed a dm nm data children n) (d7_hamt_get_hash p k') s k')"
        unfolding N by (simp add: look_slot_def del: look.simps)
    qed auto
    have eq: "d7_hamt_node_remove_inline p N dm nm data children k h s =
        andthen (d7_hamt_bitmap_rebuild p ?dm nm ?data children) (\<lambda>n. ret (Some (entry_value (inline_entry e)), n))"
      using True nth i by (simp add: d7_hamt_node_remove_inline_def Let_def d7_hamt_slot_rank)
    show ?thesis
      unfolding eq using ok True look
      by (intro achieves_andthen [OF rebuild_spec [OF heap kids ws]] achieves_ret) auto
  qed
qed

lemma node_remove_child_spec:
  assumes heap: "heap S t" and kids: "\<And>c. c \<in> set children \<Longrightarrow> subnodes c \<subseteq> S"
    and new: "subnodes_opt r \<subseteq> S"
    and N: "N = Bitmap_Indexed a dm nm data children n"
    and wf: "wf_node p s N" and h: "h = d7_hamt_get_hash p k"
    and vacant: "sparse dm data (d7_hamt_index h s) = None"
    and slot: "sparse nm children (d7_hamt_index h s) = Some c"
    and child: "remove_ok p Rk Rv (s + 5) c k r"
  shows "achieves E (failing_requests E p) t
           (d7_hamt_node_remove_child p dm nm data children (d7_hamt_bit (d7_hamt_index h s)) r)
           (\<lambda>r' t'. remove_ok p Rk Rv s N k r' \<and> heap (S \<union> subnodes_opt r') t')"
proof -
  let ?i = "d7_hamt_index h s" and ?h = "d7_hamt_get_hash p" and ?b = "d7_hamt_bit (d7_hamt_index h s)"
  have i: "?i < 32" by (rule d7_hamt_index_less)
  have dense: "dense dm data" "dense nm children" using wf by (simp_all add: N)
  have bits: "\<not> bit dm ?i" "bit nm ?i" using vacant slot dense by (metis option.distinct(1) sparse_None)+
  have c: "c \<in> set children" "\<forall>h'\<in>node_hashes c. d7_hamt_index h' s = ?i" "wf_node p (s + 5) c"
    using slot wf by (auto simp: N dest: sparse_Some_in_set)
  have rank: "rank nm ?i < length children" "children ! rank nm ?i = c" "rank dm ?i \<le> length data"
    using i bits dense slot sparse_nth [OF i bits(2) dense(2)] by (simp_all add: rank_less rank_le)
  have lookN: "look p N (?h k') s k' = look p c (?h k') (s + 5) k'" if "d7_hamt_index (?h k') s = ?i" for k'
    using that vacant slot by (simp add: N)
  have r: "wf_opt p (s + 5) r" "hashes_opt r \<subseteq> node_hashes c"
    "count_opt r + (if look p c h (s + 5) k = None then 0 else 1) = subtree_count c"
    "\<And>k'. rel_option (entry_rel Rk Rv) (look_opt p r (?h k') (s + 5) k')
        (if d7_hamt_keys_equal p k k' then None else look p c (?h k') (s + 5) k')"
    using child unfolding remove_ok_def h by blast+
  define x y where "x = slot_inline r" and "y = slot_child r"
  note xy = look_slot_contents [of p r, folded x_def y_def] and hashes = slot_hashes [of r, folded x_def y_def]
  have slot_ok: "slot_ok p s ?i x y"
    unfolding x_def y_def using r(1,2) c(2) by (intro slot_ok_contents) auto
  have step: "achieves E (failing_requests E p) t (d7_hamt_bitmap_rebuild p dm' nm' data' children')
           (\<lambda>r' t'. remove_ok p Rk Rv s N k r' \<and> heap (S \<union> subnodes_opt r') t')"
    if d: "dense dm' data'" "sparse dm' data' = (sparse dm data)(?i := x)"
      and ch: "dense nm' children'" "sparse nm' children' = (sparse nm children)(?i := y)"
      and cnt: "bitmap_count data' children' + subtree_count c = bitmap_count data children + count_opt r"
      and sub: "\<And>c. c \<in> set children' \<Longrightarrow> subnodes c \<subseteq> S"
    for dm' nm' data' children'
  proof -
    have "wf_slots p s dm' nm' data' children'"
      using wf d ch slot_ok unfolding N wf_bitmap_slots by (blast intro: wf_slots_change)
    moreover have "remove_ok p Rk Rv s N k r'" if rb: "rebuilt s dm' nm' data' children' r'" for r'
      unfolding N
    proof (rule remove_ok_slot [OF wf [unfolded N] d(1) _ ch(1) _ _ _ _ _ rb])
      show "sparse dm' data' = (sparse dm data)(d7_hamt_index (?h k) s := x)"
        "sparse nm' children' = (sparse nm children)(d7_hamt_index (?h k) s := y)"
        using d(2) ch(2) by (simp_all add: h)
      have "hashes_opt r \<subseteq> node_hashes (Bitmap_Indexed a dm nm data children n)" using r(2) c(1) by auto
      then show "inline_hash ` set_option x \<subseteq> node_hashes (Bitmap_Indexed a dm nm data children n)"
        "(\<Union>c\<in>set_option y. node_hashes c) \<subseteq> node_hashes (Bitmap_Indexed a dm nm data children n)"
        unfolding hashes [symmetric] by (simp_all del: node_hashes.simps)
      have "n = bitmap_count data children" using wf by (simp add: N)
      then show "bitmap_count data' children' + (if look p (Bitmap_Indexed a dm nm data children n)
              (?h k) s k = None then 0 else 1) = n"
        using cnt r(3) lookN [of k] unfolding N h by (auto simp del: look.simps split: if_splits)
      fix k' assume idx: "d7_hamt_index (?h k') s = d7_hamt_index (?h k) s"
      show "rel_option (entry_rel Rk Rv) (look_slot p x y (?h k') s k')
         (if d7_hamt_keys_equal p k k' then None
          else look p (Bitmap_Indexed a dm nm data children n) (?h k') s k')"
        unfolding xy lookN [unfolded N h, OF idx] by (rule r(4))
    qed
    ultimately show ?thesis by (intro achieves_weaken [OF rebuild_spec [OF heap sub]]) auto
  qed
  have upd: "bitmap_count data (children[rank nm ?i := m]) + subtree_count c = bitmap_count data children + subtree_count m" for m
    using sum_list_update_nat [OF rank(1), of subtree_count m] by (simp add: bitmap_count_def rank(2))
  have rem: "bitmap_count d (remove_at (rank nm ?i) children) + subtree_count c = bitmap_count d children" for d :: "('k, 'v) d7_hamt_inline_entry list"
    using sum_list_remove_at [OF rank(1), of subtree_count] by (simp add: bitmap_count_def rank(2))
  have kids': "\<And>c. c \<in> set (remove_at (rank nm ?i) children) \<Longrightarrow> subnodes c \<subseteq> S"
    using kids set_remove_at by fastforce
  have keep: "(sparse dm data)(?i := None) = sparse dm data" using vacant by auto
  note slots = d7_hamt_slot_rank [OF i]
  show ?thesis
  proof (cases r rule: slot_cases)
    case none
    then show ?thesis
      unfolding d7_hamt_node_remove_child_def Let_def slots
      by (simp, intro step) (simp_all add: x_def y_def keep rem kids' dense remove_at_dense [OF i bits(2) dense(2)])
  next
    case (leaf b h' k' v')
    have "bitmap_count (insert_at (rank dm ?i) (Inline h' (Entry k' v')) data) (remove_at (rank nm ?i) children) +
        subtree_count c = bitmap_count data children + 1"
      using rem [of data] rank(3) by (simp add: bitmap_count_def)
    then show ?thesis
      unfolding d7_hamt_node_remove_child_def Let_def slots leaf
      by (simp, intro step)
         (simp_all add: leaf x_def y_def kids' insert_at_dense [OF i bits(1) dense(1)] remove_at_dense [OF i bits(2) dense(2)])
  next
    case node: (child m)
    have "(case r of Some (Leaf a h k v) \<Rightarrow> f1 h k v | Some c \<Rightarrow> f2 c | None \<Rightarrow> f3) = f2 m" for f1 f2 f3
      using node by (cases m) auto
    moreover have "x = None" "y = Some m" using node by (simp_all add: x_def y_def slot_contents_not_leaf)
    moreover have "\<And>c. c \<in> set (children[rank nm ?i := m]) \<Longrightarrow> subnodes c \<subseteq> S"
      using kids new node(1) set_update_subset_insert [of children "rank nm ?i" m] by auto
    ultimately show ?thesis
      unfolding d7_hamt_node_remove_child_def Let_def slots
      using step [of dm data nm "children[rank nm ?i := m]"] upd [of m] node dense update_dense [OF i bits(2) dense(2), of m] keep
      by (cases m) auto
  qed
qed

text \<open>Removal from any well-formed node.\<close>

lemma node_remove_spec:
  assumes "heap S t" and "subnodes N \<subseteq> S" and "wf_node p s N"
    and h: "h = d7_hamt_get_hash p k"
  shows "achieves E (failing_requests E p) t (d7_hamt_node_remove p N k h s)
           (\<lambda>(rv, r) t'. remove_ok p Rk Rv s N k r \<and> rv = map_option entry_value (look p N h s k) \<and>
              (look p N h s k = None \<longrightarrow> r = Some N) \<and> heap (S \<union> subnodes_opt r) t')"
  using assms
proof (induction N arbitrary: s)
  case (Leaf a h0 k0 v0)
  let ?N = "Leaf a h0 k0 v0"
  show ?case
  proof (cases "h0 = h \<and> d7_hamt_keys_equal p k0 k")
    case False
    then have absent: "look p ?N h s k = None" by auto
    then have "remove_ok p Rk Rv s ?N k (Some ?N)" using Leaf.prems(3) h by (intro remove_ok_absent) auto
    moreover have "heap (S \<union> subnodes ?N) t" using Leaf.prems(1,2) by (simp add: insert_absorb)
    moreover have "d7_hamt_node_remove p ?N k h s = ret (None, Some ?N)" using False by auto
    ultimately show ?thesis using absent by (auto intro!: achieves_ret simp del: d7_hamt_node_remove.simps)
  next
    case True
    have "remove_ok p Rk Rv s ?N k None"
      using True h keq_left [of k0 k] by (intro remove_okI) auto
    then show ?thesis using True Leaf.prems(1) by (auto intro!: achieves_ret)
  qed
next
  case (Collision a h0 es)
  then show ?case unfolding d7_hamt_node_remove.simps by (intro node_remove_collision_spec) auto
next
  case (Bitmap_Indexed a dm nm data children n)
  let ?N = "Bitmap_Indexed a dm nm data children n" and ?i = "d7_hamt_index h s" and ?B = "failing_requests E p"
  note heap = Bitmap_Indexed.prems(1) and sub = Bitmap_Indexed.prems(2) and wf = Bitmap_Indexed.prems(3)
  have dense: "dense dm data" "dense nm children" using wf by simp_all
  have kids: "\<And>c. c \<in> set children \<Longrightarrow> subnodes c \<subseteq> S" using sub by auto
  note slots = bitmap_slot [OF dense(1), of h s] bitmap_slot [OF dense(2), of h s]
  have heapN: "heap (S \<union> subnodes ?N) t1" if "heap (S \<union> X) t1" for X t1
    by (rule heap_mono [OF that]) (use sub in auto)
  show ?case
  proof (cases "sparse dm data ?i")
    case (Some e)
    then have "dm AND d7_hamt_bit ?i \<noteq> 0" using slots by simp
    then show ?thesis
      using node_remove_inline_spec [OF heap sub refl wf h Some, of E]
      unfolding d7_hamt_node_remove.simps Let_def by simp
  next
    case none: None
    then have dm: "dm AND d7_hamt_bit ?i = 0" using slots(1) by simp
    show ?thesis
    proof (cases "sparse nm children ?i")
      case None
      then have eq: "d7_hamt_node_remove p ?N k h s = ret (None, Some ?N)" using dm slots(3) by simp
      have absent: "look p ?N h s k = None" using none None by simp
      then have "remove_ok p Rk Rv s ?N k (Some ?N)" using wf h by (intro remove_ok_absent) auto
      then show ?thesis unfolding eq using absent heapN [of "{}" t] heap by (auto intro!: achieves_ret)
    next
      case (Some c)
      have nth: "nth_opt children (d7_hamt_slot nm (d7_hamt_bit ?i)) = Some c" using slots Some by simp
      have c: "c \<in> set children" using Some by (rule sparse_Some_in_set)
      have look: "look p ?N h s k = look p c h (s + 5) k" using none Some by simp
      have IH: "achieves E ?B t (d7_hamt_node_remove p c k h (s + 5))
           (\<lambda>(rv, r) t'. remove_ok p Rk Rv (s + 5) c k r \<and> rv = map_option entry_value (look p c h (s + 5) k) \<and>
              (look p c h (s + 5) k = None \<longrightarrow> r = Some c) \<and> heap (S \<union> subnodes_opt r) t')"
        using wf c kids h heap by (intro Bitmap_Indexed.IH) auto
      have eq: "d7_hamt_node_remove p ?N k h s =
          andthen (d7_hamt_node_remove p c k h (s + 5)) (\<lambda>(removed_value, new_child).
                  case removed_value of
                    None \<Rightarrow> ret (None, Some ?N)
                  | Some v \<Rightarrow>
                      andthen (d7_hamt_node_remove_child p dm nm data children (d7_hamt_bit ?i) new_child)
                        (\<lambda>n'. ret (Some v, n')))"
        using dm slots(3) Some nth by (simp add: Let_def)
      show ?thesis
        unfolding eq
      proof (rule achieves_andthen [OF IH], clarify)
        fix r t1
        assume r: "remove_ok p Rk Rv (s + 5) c k r" and heap1: "heap (S \<union> subnodes_opt r) t1"
        show "achieves E ?B t1
          (case map_option entry_value (look p c h (s + 5) k) of
              None \<Rightarrow> ret (None, Some ?N)
            | Some v \<Rightarrow> andthen (d7_hamt_node_remove_child p dm nm data children (d7_hamt_bit ?i) r) (\<lambda>n'. ret (Some v, n')))
          (\<lambda>(rv, r) t'. remove_ok p Rk Rv s ?N k r \<and> rv = map_option entry_value (look p ?N h s k) \<and>
              (look p ?N h s k = None \<longrightarrow> r = Some ?N) \<and> heap (S \<union> subnodes_opt r) t')"
        proof (cases "look p c h (s + 5) k")
          case None
          then have "remove_ok p Rk Rv s ?N k (Some ?N)" using wf h look by (intro remove_ok_absent) auto
          then show ?thesis using None look heapN [OF heap1] by (auto intro!: achieves_ret)
        next
          case (Some e)
          have ch: "achieves E ?B t1 (d7_hamt_node_remove_child p dm nm data children (d7_hamt_bit ?i) r)
              (\<lambda>r' t'. remove_ok p Rk Rv s ?N k r' \<and> heap ((S \<union> subnodes_opt r) \<union> subnodes_opt r') t')"
            using kids r h none \<open>sparse nm children ?i = Some c\<close> wf
            by (intro node_remove_child_spec heap1) auto
          show ?thesis
            unfolding Some option.map option.case look
            by (rule achieves_andthen [OF ch], rule achieves_ret) (auto elim!: heap_mono)
        qed
      qed
    qed
  qed
qed

end

end
