(* ===== verification/Hamt_Map.thy ===== *)
theory Hamt_Map
  imports Hamt_Remove
begin

text \<open>
  The map handle of \<open>hamt.h\<close> and its public operations on single keys and on arrays of entries. A
  handle is the root node, the number of entries and the policy; an operation leaves its source
  unchanged and publishes a new handle.

  A pointer argument that may be null is an \<open>option\<close>, a mere output pointer a \<open>bool\<close> that says
  whether it was supplied. An array argument is the list of its elements, or \<open>None\<close> for a null
  pointer passed with a non-zero count. \<open>aliased\<close> tells whether the result handle is the source
  handle itself, where the code distinguishes the two.
\<close>

record ('k, 'v) d7_hamt_map =
  root :: "('k, 'v) d7_hamt_node option"
  count :: nat
  policy :: "('k, 'v) d7_hamt_policy"

section \<open>The operations of the code\<close>

definition d7_hamt_map_create_from :: "('k, 'v) d7_hamt_policy \<Rightarrow> ('k, 'v) d7_hamt_map" where
  "d7_hamt_map_create_from p = \<lparr>root = None, count = 0, policy = p\<rparr>"

definition d7_hamt_map_create ::
  "('k \<Rightarrow> 64 word) \<Rightarrow> ('k, 'v) d7_hamt_policy_arg option \<Rightarrow> ('k, 'v) d7_hamt_map" where
  "d7_hamt_map_create ptr pol = d7_hamt_map_create_from (d7_hamt_normalize_policy ptr pol)"

definition d7_hamt_map_clone ::
  "('k \<Rightarrow> 64 word) \<Rightarrow> ('k, 'v) d7_hamt_map option \<Rightarrow> ('k, 'v) d7_hamt_map" where
  "d7_hamt_map_clone ptr mp = (case mp of None \<Rightarrow> d7_hamt_map_create ptr None | Some m \<Rightarrow> m)"

definition d7_hamt_map_destroy :: "('k, 'v) d7_hamt_map option \<Rightarrow> ('k, 'v) d7_hamt_map option" where
  "d7_hamt_map_destroy mp = map_option (\<lambda>m. m\<lparr>root := None, count := 0\<rparr>) mp"

definition d7_hamt_map_count :: "('k, 'v) d7_hamt_map option \<Rightarrow> nat" where
  "d7_hamt_map_count mp = (case mp of None \<Rightarrow> 0 | Some m \<Rightarrow> count m)"

definition d7_hamt_map_is_empty :: "('k, 'v) d7_hamt_map option \<Rightarrow> bool" where
  "d7_hamt_map_is_empty mp \<longleftrightarrow> d7_hamt_map_count mp = 0"

definition d7_hamt_try_get_entry ::
  "('k, 'v) d7_hamt_map option \<Rightarrow> 'k \<Rightarrow> failure + ('k, 'v) d7_hamt_entry option" where
  "d7_hamt_try_get_entry mp key =
     (case mp of
        None \<Rightarrow> Inr None
      | Some m \<Rightarrow>
          (case root m of
             None \<Rightarrow> Inr None
           | Some n \<Rightarrow> d7_hamt_find (policy m) n (d7_hamt_get_hash (policy m) key) 0 key))"

definition map_found :: "('a \<Rightarrow> 'b) \<Rightarrow> failure + 'a \<Rightarrow> failure + 'b" where
  "map_found f r = (case r of Inl e \<Rightarrow> Inl e | Inr x \<Rightarrow> Inr (f x))"

definition d7_hamt_map_try_get :: "('k, 'v) d7_hamt_map option \<Rightarrow> 'k \<Rightarrow> failure + 'v option" where
  "d7_hamt_map_try_get mp key = map_found (map_option entry_value) (d7_hamt_try_get_entry mp key)"

text \<open>The stored key if there is an equal one, and otherwise the key asked for.\<close>

definition d7_hamt_map_try_get_key ::
  "('k, 'v) d7_hamt_map option \<Rightarrow> 'k \<Rightarrow> failure + (bool \<times> 'k)" where
  "d7_hamt_map_try_get_key mp equal_key =
     map_found (\<lambda>found. case found of None \<Rightarrow> (False, equal_key) | Some e \<Rightarrow> (True, entry_key e))
       (d7_hamt_try_get_entry mp equal_key)"

definition d7_hamt_map_contains_key :: "('k, 'v) d7_hamt_map option \<Rightarrow> 'k \<Rightarrow> failure + bool" where
  "d7_hamt_map_contains_key mp key =
     map_found (\<lambda>value. value \<noteq> None) (d7_hamt_map_try_get mp key)"

text \<open>Binding a key at the root, with or without overwriting.\<close>

definition map_set_root ::
  "('k, 'v) d7_hamt_map \<Rightarrow> 'k \<Rightarrow> 'v \<Rightarrow> bool \<Rightarrow> (bool \<times> ('k, 'v) d7_hamt_map) act" where
  "map_set_root m key v overwrite =
     (let p = policy m; hsh = d7_hamt_get_hash p key
      in andthen
           (case root m of
              None \<Rightarrow> andthen (d7_hamt_leaf_create p hsh key v) (\<lambda>n. ret (True, n))
            | Some n \<Rightarrow> d7_hamt_node_set p n key v hsh 0 overwrite)
           (\<lambda>(added, new_root).
              ret (added, \<lparr>root = Some new_root, count = count m + (if added then 1 else 0), policy = p\<rparr>)))"

definition d7_hamt_map_set ::
  "('k, 'v) d7_hamt_map option \<Rightarrow> 'k \<Rightarrow> 'v \<Rightarrow> bool \<Rightarrow> ('k, 'v) d7_hamt_map act" where
  "d7_hamt_map_set mp key v result =
     (case mp of
        None \<Rightarrow> fail (Status D7_HAMT_INVALID_ARGUMENT)
      | Some m \<Rightarrow>
          if \<not> result then fail (Status D7_HAMT_INVALID_ARGUMENT)
          else andthen (map_set_root m key v True) (\<lambda>(added, m'). ret m'))"

definition d7_hamt_map_try_add ::
  "('k, 'v) d7_hamt_map option \<Rightarrow> 'k \<Rightarrow> 'v \<Rightarrow> bool \<Rightarrow> (bool \<times> ('k, 'v) d7_hamt_map) act" where
  "d7_hamt_map_try_add mp key v result =
     (case mp of
        None \<Rightarrow> fail (Status D7_HAMT_INVALID_ARGUMENT)
      | Some m \<Rightarrow>
          if \<not> result then fail (Status D7_HAMT_INVALID_ARGUMENT)
          else map_set_root m key v False)"

definition d7_hamt_map_add ::
  "('k, 'v) d7_hamt_map option \<Rightarrow> 'k \<Rightarrow> 'v \<Rightarrow> bool \<Rightarrow> ('k, 'v) d7_hamt_map act" where
  "d7_hamt_map_add mp key v result =
     andthen (d7_hamt_map_try_add mp key v result)
       (\<lambda>(added, m'). if \<not> added then fail (Status D7_HAMT_DUPLICATE_KEY) else ret m')"

definition map_set_entries ::
  "('k, 'v) d7_hamt_map \<Rightarrow> ('k, 'v) d7_hamt_entry list \<Rightarrow> ('k, 'v) d7_hamt_map act" where
  "map_set_entries m es =
     fold_act (\<lambda>m e. d7_hamt_map_set (Some m) (entry_key e) (entry_value e) True) m es"

text \<open>An array argument is \<open>None\<close> when its pointer is null although its length is not zero; an array of length zero is the empty
  list, whether its pointer is null or not.\<close>

definition d7_hamt_map_create_range ::
  "('k \<Rightarrow> 64 word) \<Rightarrow> ('k, 'v) d7_hamt_policy_arg option \<Rightarrow> ('k, 'v) d7_hamt_entry list option \<Rightarrow> bool
     \<Rightarrow> ('k, 'v) d7_hamt_map act" where
  "d7_hamt_map_create_range ptr pol items result =
     (case items of
        None \<Rightarrow> fail (Status D7_HAMT_INVALID_ARGUMENT)
      | Some es \<Rightarrow>
          if \<not> result then fail (Status D7_HAMT_INVALID_ARGUMENT)
          else map_set_entries (d7_hamt_map_create ptr pol) es)"

definition d7_hamt_map_set_many ::
  "('k, 'v) d7_hamt_map option \<Rightarrow> ('k, 'v) d7_hamt_entry list option \<Rightarrow> bool
     \<Rightarrow> ('k, 'v) d7_hamt_map act" where
  "d7_hamt_map_set_many mp items result =
     (case (mp, items) of
        (Some m, Some es) \<Rightarrow>
          if \<not> result then fail (Status D7_HAMT_INVALID_ARGUMENT)
          else map_set_entries m es
      | _ \<Rightarrow> fail (Status D7_HAMT_INVALID_ARGUMENT))"

text \<open>Removal reports the removed value only into a handle that does not alias the source.\<close>

definition d7_hamt_map_try_remove ::
  "('k, 'v) d7_hamt_map option \<Rightarrow> 'k \<Rightarrow> bool \<Rightarrow> bool \<Rightarrow> (bool \<times> 'v option \<times> ('k, 'v) d7_hamt_map) act" where
  "d7_hamt_map_try_remove mp key result aliased =
     (case mp of
        None \<Rightarrow> fail (Status D7_HAMT_INVALID_ARGUMENT)
      | Some m \<Rightarrow>
          if \<not> result then fail (Status D7_HAMT_INVALID_ARGUMENT)
          else
            (case root m of
               None \<Rightarrow> ret (False, None, m)
             | Some n \<Rightarrow>
                 andthen (d7_hamt_node_remove (policy m) n key (d7_hamt_get_hash (policy m) key) 0)
                   (\<lambda>(removed_value, new_root).
                      let removed = removed_value \<noteq> None
                      in ret (removed, if aliased then None else removed_value,
                              \<lparr>root = new_root, count = count m - (if removed then 1 else 0),
                               policy = policy m\<rparr>))))"

definition d7_hamt_map_remove ::
  "('k, 'v) d7_hamt_map option \<Rightarrow> 'k \<Rightarrow> bool \<Rightarrow> bool \<Rightarrow> ('k, 'v) d7_hamt_map act" where
  "d7_hamt_map_remove mp key result aliased =
     andthen (d7_hamt_map_try_remove mp key result aliased) (\<lambda>(removed, removed_value, m'). ret m')"

definition d7_hamt_map_clear ::
  "('k, 'v) d7_hamt_map option \<Rightarrow> bool \<Rightarrow> ('k, 'v) d7_hamt_map act" where
  "d7_hamt_map_clear mp result =
     (case mp of
        None \<Rightarrow> fail (Status D7_HAMT_INVALID_ARGUMENT)
      | Some m \<Rightarrow>
          if \<not> result then fail (Status D7_HAMT_INVALID_ARGUMENT)
          else if count m = 0 then ret m
          else ret (m\<lparr>root := None, count := 0\<rparr>))"

definition d7_hamt_map_shares_root ::
  "('k, 'v) d7_hamt_map option \<Rightarrow> ('k, 'v) d7_hamt_map option \<Rightarrow> bool" where
  "d7_hamt_map_shares_root left right =
     (case (left, right) of
        (Some l, Some r) \<Rightarrow> map_option node_addr (root l) = map_option node_addr (root r)
      | _ \<Rightarrow> False)"

section \<open>Meaning and invariant\<close>

text \<open>The entry a map holds for a key, with the representative it stores.\<close>

definition map_entry :: "('k, 'v) d7_hamt_map \<Rightarrow> 'k \<Rightarrow> ('k, 'v) d7_hamt_entry option" where
  "map_entry m k = look_opt (policy m) (root m) (d7_hamt_get_hash (policy m) k) 0 k"

definition map_nodes :: "('k, 'v) d7_hamt_map \<Rightarrow> ('k, 'v) d7_hamt_node set" where
  "map_nodes m = subnodes_opt (root m)"

text \<open>A handle is valid in a heap of nodes at a time: its nodes are in the heap, its trie is well
  formed and its count is that of the root.\<close>

definition map_ok :: "('k, 'v) d7_hamt_node set \<Rightarrow> nat \<Rightarrow> ('k, 'v) d7_hamt_map \<Rightarrow> bool" where
  "map_ok S t m \<longleftrightarrow>
     heap S t \<and> map_nodes m \<subseteq> S \<and> wf_opt (policy m) 0 (root m) \<and> count m = count_opt (root m)"

text \<open>Two optional entries with related keys and values.\<close>

abbreviation same_entry ::
  "('k \<Rightarrow> 'k \<Rightarrow> bool) \<Rightarrow> ('v \<Rightarrow> 'v \<Rightarrow> bool) \<Rightarrow> ('k, 'v) d7_hamt_entry option
     \<Rightarrow> ('k, 'v) d7_hamt_entry option \<Rightarrow> bool" where
  "same_entry Rk Rv \<equiv> rel_option (entry_rel Rk Rv)"

definition map_noop :: "('k, 'v) d7_hamt_map \<Rightarrow> 'k \<Rightarrow> 'v \<Rightarrow> bool \<Rightarrow> bool" where
  "map_noop m k v overwrite =
     (case map_entry m k of
        None \<Rightarrow> False
      | Some e \<Rightarrow> \<not> overwrite \<or> d7_hamt_values_equal (policy m) (entry_value e) v)"

text \<open>What a successful binding of \<open>k\<close> to \<open>v\<close> publishes.\<close>

definition map_bound ::
  "('k \<Rightarrow> 'k \<Rightarrow> bool) \<Rightarrow> ('v \<Rightarrow> 'v \<Rightarrow> bool) \<Rightarrow> ('k, 'v) d7_hamt_map \<Rightarrow> 'k \<Rightarrow> 'v \<Rightarrow> bool
     \<Rightarrow> ('k, 'v) d7_hamt_map \<Rightarrow> bool" where
  "map_bound Rk Rv m k v overwrite m' \<longleftrightarrow>
     policy m' = policy m \<and>
     count m' = count m + (if map_entry m k = None then 1 else 0) \<and>
     (\<forall>k'. same_entry Rk Rv (map_entry m' k')
        (if d7_hamt_keys_equal (policy m) k k' then Some (bound_entry overwrite k v (map_entry m k))
         else map_entry m k')) \<and>
     (map_noop m k v overwrite \<longrightarrow> root m' = root m)"

definition map_removed ::
  "('k \<Rightarrow> 'k \<Rightarrow> bool) \<Rightarrow> ('v \<Rightarrow> 'v \<Rightarrow> bool) \<Rightarrow> ('k, 'v) d7_hamt_map \<Rightarrow> 'k
     \<Rightarrow> ('k, 'v) d7_hamt_map \<Rightarrow> bool" where
  "map_removed Rk Rv m k m' \<longleftrightarrow>
     policy m' = policy m \<and>
     count m' + (if map_entry m k = None then 0 else 1) = count m \<and>
     (\<forall>k'. same_entry Rk Rv (map_entry m' k')
        (if d7_hamt_keys_equal (policy m) k k' then None else map_entry m k')) \<and>
     (map_entry m k = None \<longrightarrow> root m' = root m)"

lemma map_ok_mono: "map_ok S t m \<Longrightarrow> heap T t' \<Longrightarrow> S \<subseteq> T \<Longrightarrow> map_ok T t' m"
  unfolding map_ok_def by blast

lemma try_get_entry_ok:
  assumes "map_ok S t m"
  shows "d7_hamt_try_get_entry (Some m) k = Inr (map_entry m k)"
proof (cases "root m")
  case (Some n)
  then have "wf_node (policy m) 0 n" using assms by (simp add: map_ok_def)
  then show ?thesis using Some by (simp add: d7_hamt_try_get_entry_def map_entry_def d7_hamt_find_look)
qed (simp add: d7_hamt_try_get_entry_def map_entry_def)

lemma map_create_ok: "heap S t \<Longrightarrow> map_ok S t (d7_hamt_map_create_from p)"
  by (simp add: map_ok_def d7_hamt_map_create_from_def map_nodes_def)

lemma map_create_empty [simp]: "map_entry (d7_hamt_map_create_from p) k = None"
  by (simp add: map_entry_def d7_hamt_map_create_from_def)

lemma map_set_root_spec:
  assumes pol: "hamt_policy (policy m) Rk Rv" and ok: "map_ok S t m"
  shows "achieves E (failing_requests E (policy m)) t (map_set_root m k v ov)
           (\<lambda>(added, m') t'. map_bound Rk Rv m k v ov m' \<and> (added \<longleftrightarrow> map_entry m k = None) \<and>
              map_ok (S \<union> map_nodes m') t' m')"
proof (cases "root m")
  case None
  let ?p = "policy m" and ?h = "d7_hamt_get_hash (policy m) k"
  have heap: "heap S t" using ok by (simp add: map_ok_def)
  have old: "map_entry m k' = None" for k' using None by (simp add: map_entry_def)
  have cnt: "count m = 0" using ok None by (simp add: map_ok_def)
  have bound: "map_bound Rk Rv m k v ov \<lparr>root = Some (Leaf a ?h k1 v1), count = 1, policy = ?p\<rparr>"
    if k1: "Rk k k1" and v1: "Rv v v1" for a k1 v1
  proof -
    have "d7_hamt_keys_equal ?p k1 k' = d7_hamt_keys_equal ?p k k'" for k'
      using hamt_policy.keq_left [OF pol hamt_policy.Rk_keq [OF pol k1]] by simp
    moreover have "d7_hamt_keys_equal ?p k k' \<Longrightarrow> d7_hamt_get_hash ?p k = d7_hamt_get_hash ?p k'" for k'
      by (rule hamt_policy.keq_hash [OF pol])
    ultimately show ?thesis
      using hamt_policy.Rk_sym [OF pol k1] hamt_policy.Rv_sym [OF pol v1] cnt old
      by (auto simp: map_bound_def map_noop_def map_entry_def [of "\<lparr>root = _, count = _, policy = _\<rparr>"]
          bound_entry_def entry_rel_def)
  qed
  have wf: "wf_node ?p 0 (Leaf a ?h k1 v1)" if k1: "Rk k k1" for a k1 v1
    using hamt_policy.Rk_hash [OF pol k1] by simp
  have leaf: "achieves E (failing_requests E ?p) t
      (andthen (d7_hamt_leaf_create ?p ?h k v) (\<lambda>n. ret (True, n)))
      (\<lambda>x t'. \<exists>a k1 v1. x = (True, Leaf a ?h k1 v1) \<and> Rk k k1 \<and> Rv v v1 \<and> heap (S \<union> subnodes (Leaf a ?h k1 v1)) t')"
    by (intro achieves_andthen [OF hamt_policy.leaf_create_spec [OF pol heap]] achieves_ret) auto
  show ?thesis
    unfolding map_set_root_def Let_def None option.case
  proof (rule achieves_andthen [OF leaf], elim exE conjE)
    fix x t1 a k1 v1
    assume x: "x = (True, Leaf a ?h k1 v1)"
      and rel: "Rk k k1" "Rv v v1" and heap1: "heap (S \<union> subnodes (Leaf a ?h k1 v1)) t1"
    let ?m = "\<lparr>root = Some (Leaf a ?h k1 v1), count = 1, policy = ?p\<rparr>"
    have "map_ok (S \<union> map_nodes ?m) t1 ?m"
      using wf [OF rel(1)] heap1 by (simp add: map_ok_def map_nodes_def)
    with bound [OF rel] show "achieves E (failing_requests E ?p) t1
        (case x of (added, new_root) \<Rightarrow>
           ret (added, \<lparr>root = Some new_root, count = count m + (if added then 1 else 0), policy = ?p\<rparr>))
        (\<lambda>(added, m') t'. map_bound Rk Rv m k v ov m' \<and> (added \<longleftrightarrow> map_entry m k = None) \<and>
              map_ok (S \<union> map_nodes m') t' m')"
      unfolding x prod.case cnt by (intro achieves_ret) (simp add: old)
  qed
next
  case (Some n)
  let ?p = "policy m" and ?h = "d7_hamt_get_hash (policy m) k"
  have heap: "heap S t" and sub: "subnodes n \<subseteq> S" and wf: "wf_node ?p 0 n" and cnt: "count m = subtree_count n"
    using ok Some by (auto simp: map_ok_def map_nodes_def)
  have entry: "map_entry m k' = look ?p n (d7_hamt_get_hash ?p k') 0 k'" for k'
    using Some by (simp add: map_entry_def)
  have noop: "map_noop m k v ov = set_noop ?p n k v ?h 0 ov"
    by (simp add: map_noop_def set_noop_def entry)
  have bound: "map_bound Rk Rv m k v ov
      \<lparr>root = Some n', count = count m + (if look ?p n ?h 0 k = None then 1 else 0), policy = ?p\<rparr>"
    if "set_ok ?p Rk Rv 0 n k v ov n'" "set_noop ?p n k v ?h 0 ov \<longrightarrow> n' = n" for n'
    using that Some unfolding map_bound_def noop entry set_ok_def by (simp add: map_entry_def)
  show ?thesis
    unfolding map_set_root_def Let_def Some option.case
  proof (rule achieves_andthen [OF hamt_policy.node_set_spec [OF pol heap sub wf refl on_path_0]], clarify)
    fix added n' t1
    assume n': "set_ok ?p Rk Rv 0 n k v ov n'" "set_noop ?p n k v ?h 0 ov \<longrightarrow> n' = n" "heap (S \<union> subnodes n') t1"
    let ?a = "look ?p n ?h 0 k = None"
    let ?m = "\<lparr>root = Some n', count = count m + (if ?a then 1 else 0), policy = ?p\<rparr>"
    have "map_ok (S \<union> map_nodes ?m) t1 ?m"
      using set_ok_wf [OF n'(1)] set_ok_count [OF n'(1)] cnt n'(3) by (simp add: map_ok_def map_nodes_def)
    then show "achieves E (failing_requests E ?p) t1 (ret (?a, ?m))
        (\<lambda>(added, m') t'. map_bound Rk Rv m k v ov m' \<and> (added \<longleftrightarrow> map_entry m k = None) \<and>
              map_ok (S \<union> map_nodes m') t' m')"
      using bound [OF n'(1,2)] by (intro achieves_ret) (simp only: entry prod.case simp_thms)
  qed
qed

lemma map_set_spec:
  assumes "hamt_policy (policy m) Rk Rv" and "map_ok S t m"
  shows "achieves E (failing_requests E (policy m)) t (d7_hamt_map_set (Some m) k v True)
           (\<lambda>m' t'. map_bound Rk Rv m k v True m' \<and> map_ok (S \<union> map_nodes m') t' m')"
  unfolding d7_hamt_map_set_def option.case not_True_eq_False if_False
  by (rule achieves_andthen [OF map_set_root_spec [OF assms]]) (auto intro!: achieves_ret)

lemma map_try_remove_spec:
  assumes pol: "hamt_policy (policy m) Rk Rv" and ok: "map_ok S t m"
  shows "achieves E (failing_requests E (policy m)) t (d7_hamt_map_try_remove (Some m) k True aliased)
           (\<lambda>(removed, v, m') t'. map_removed Rk Rv m k m' \<and> (removed \<longleftrightarrow> map_entry m k \<noteq> None) \<and>
              v = (if aliased then None else map_option entry_value (map_entry m k)) \<and>
              map_ok (S \<union> map_nodes m') t' m')"
proof (cases "root m")
  case None
  then have old: "map_entry m k' = None" for k' by (simp add: map_entry_def)
  then show ?thesis
    using None ok by (auto simp: d7_hamt_map_try_remove_def map_removed_def map_ok_def map_nodes_def intro!: achieves_ret)
next
  case (Some n)
  let ?p = "policy m" and ?h = "d7_hamt_get_hash (policy m) k"
  have heap: "heap S t" and sub: "subnodes n \<subseteq> S" and wf: "wf_node ?p 0 n" and cnt: "count m = subtree_count n"
    using ok Some by (auto simp: map_ok_def map_nodes_def)
  have entry: "map_entry m k' = look ?p n (d7_hamt_get_hash ?p k') 0 k'" for k'
    using Some by (simp add: map_entry_def)
  show ?thesis
    unfolding d7_hamt_map_try_remove_def option.case Some Let_def not_True_eq_False if_False
  proof (rule achieves_andthen [OF hamt_policy.node_remove_spec [OF pol heap sub wf refl]], clarify)
    fix r t1
    assume r: "remove_ok ?p Rk Rv 0 n k r" "look ?p n ?h 0 k = None \<longrightarrow> r = Some n" "heap (S \<union> subnodes_opt r) t1"
    let ?rv = "map_option entry_value (look ?p n ?h 0 k)"
    let ?m = "\<lparr>root = r, count = count m - (if ?rv \<noteq> None then 1 else 0), policy = ?p\<rparr>"
    have cnt': "count_opt r + (if look ?p n ?h 0 k = None then 0 else 1) = count m" "wf_opt ?p 0 r"
      using r(1) cnt by (simp_all add: remove_ok_def)
    then have "map_ok (S \<union> map_nodes ?m) t1 ?m" using r(3) by (auto simp: map_ok_def map_nodes_def)
    moreover have "map_removed Rk Rv m k ?m"
      using r(1,2) cnt' Some unfolding map_removed_def entry remove_ok_def by (auto simp: map_entry_def)
    ultimately show "achieves E (failing_requests E ?p) t1 (ret (?rv \<noteq> None, if aliased then None else ?rv, ?m))
        (\<lambda>(removed, v, m') t'. map_removed Rk Rv m k m' \<and> (removed \<longleftrightarrow> map_entry m k \<noteq> None) \<and>
              v = (if aliased then None else map_option entry_value (map_entry m k)) \<and>
              map_ok (S \<union> map_nodes m') t' m')"
      by (intro achieves_ret) (simp add: entry)
  qed
qed

section \<open>Runs that request no memory\<close>

lemma andthen_run: "f E t = (Inr x, t') \<Longrightarrow> andthen f g E t = g x E t'"
  by (simp add: andthen_def)

lemma ret_run: "ret x E t = (Inr x, t)"
  by (simp add: ret_def)

lemma node_set_noop_run:
  assumes "wf_node p s n" and "set_noop p n k v h s ov"
  shows "d7_hamt_node_set p n k v h s ov E t = (Inr (False, n), t)"
  using assms
proof (induction n arbitrary: s)
  case (Leaf a h0 k0 v0)
  then show ?case by (auto simp: set_noop_def d7_hamt_node_set_leaf_def ret_run split: if_splits)
next
  case (Collision a h0 es)
  then obtain e where e: "h0 = h" "find (entry_matches p k) es = Some e"
      "\<not> ov \<or> d7_hamt_values_equal p (entry_value e) v"
    by (auto simp: set_noop_def split: if_splits option.splits)
  moreover from e(2) obtain i where "first_index (entry_matches p k) es = Some i"
    by (metis first_index_None not_None_eq)
  ultimately show ?case
    by (auto simp: d7_hamt_node_set_collision_def ret_run dest: first_index_Some)
next
  case (Bitmap_Indexed a dm nm data children n)
  let ?N = "Bitmap_Indexed a dm nm data children n" and ?i = "d7_hamt_index h s"
  have dense: "dense dm data" "dense nm children" using Bitmap_Indexed.prems by simp_all
  note slots = bitmap_slot [OF dense(1), of h s] bitmap_slot [OF dense(2), of h s]
  show ?case
  proof (cases "sparse dm data ?i")
    case (Some e)
    then show ?thesis
      using Bitmap_Indexed.prems(2) slots
      by (auto simp: set_noop_def inline_match_def entry_matches_def d7_hamt_node_set_inline_def Let_def ret_run split: if_splits)
  next
    case None
    with Bitmap_Indexed.prems(2) obtain c where c: "sparse nm children ?i = Some c"
      by (cases "sparse nm children ?i") (auto simp: set_noop_def)
    have noop: "set_noop p c k v h (s + 5) ov" using Bitmap_Indexed.prems(2) None c by (simp add: set_noop_def)
    have "c \<in> set children" using c by (rule sparse_Some_in_set)
    then have "d7_hamt_node_set p c k v h (s + 5) ov E t = (Inr (False, c), t)"
      using Bitmap_Indexed.prems(1) noop by (intro Bitmap_Indexed.IH) auto
    then show ?thesis using None c slots by (simp add: Let_def andthen_def ret_run)
  qed
qed

lemma map_noop_run:
  assumes ok: "map_ok S t m" and noop: "map_noop m k v ov"
  shows "map_set_root m k v ov E t = (Inr (False, m), t)"
proof -
  obtain n where n: "root m = Some n" using noop by (cases "root m") (auto simp: map_noop_def map_entry_def)
  have "set_noop (policy m) n k v (d7_hamt_get_hash (policy m) k) 0 ov"
    using noop n by (simp add: map_noop_def map_entry_def set_noop_def)
  then have "d7_hamt_node_set (policy m) n k v (d7_hamt_get_hash (policy m) k) 0 ov E t = (Inr (False, n), t)"
    using ok n by (intro node_set_noop_run) (simp_all add: map_ok_def)
  then show ?thesis using n by (simp add: map_set_root_def andthen_def Let_def ret_run)
qed

section \<open>Sequences of bindings\<close>

text \<open>The bindings of a map after an entry has been written over them.\<close>

definition bind_key ::
  "('k, 'v) d7_hamt_policy \<Rightarrow> ('k, 'v) d7_hamt_entry \<Rightarrow> ('k \<Rightarrow> ('k, 'v) d7_hamt_entry option)
     \<Rightarrow> 'k \<Rightarrow> ('k, 'v) d7_hamt_entry option" where
  "bind_key p e f =
     (\<lambda>k'. if d7_hamt_keys_equal p (entry_key e) k'
           then Some (bound_entry True (entry_key e) (entry_value e) (f (entry_key e))) else f k')"

context hamt_policy
begin

lemma bind_key_related:
  assumes "\<And>k. same_entry Rk Rv (f k) (g k)"
  shows "same_entry Rk Rv (bind_key p e f k) (bind_key p e g k)"
proof -
  have "same_entry Rk Rv (f (entry_key e)) (g (entry_key e))" by (rule assms)
  then have "entry_rel Rk Rv (bound_entry True (entry_key e) (entry_value e) (f (entry_key e)))
      (bound_entry True (entry_key e) (entry_value e) (g (entry_key e)))"
    by (cases rule: option.rel_cases) (auto simp: bound_entry_def entry_rel_def)
  then show ?thesis using assms by (simp add: bind_key_def)
qed

lemma fold_bind_key_related:
  assumes "\<And>k. same_entry Rk Rv (f k) (g k)"
  shows "same_entry Rk Rv (fold (bind_key p) es f k) (fold (bind_key p) es g k)"
  using assms by (induction es arbitrary: f g) (auto intro: bind_key_related)

lemma map_set_entries_spec:
  assumes "policy m = p" and "map_ok S t m"
  shows "achieves E (failing_requests E p) t (map_set_entries m es)
           (\<lambda>m' t'. policy m' = p \<and> (\<exists>S'. S \<subseteq> S' \<and> map_ok S' t' m') \<and>
              (\<forall>k. same_entry Rk Rv (map_entry m' k) (fold (bind_key p) es (map_entry m) k)))"
  unfolding map_set_entries_def
  using assms
proof (induction es arbitrary: m S t)
  case Nil
  then show ?case by (auto intro!: achieves_ret)
next
  case (Cons e es)
  have pol: "hamt_policy (policy m) Rk Rv" using Cons.prems(1) hamt_policy_axioms by simp
  have set: "achieves E (failing_requests E p) t (d7_hamt_map_set (Some m) (entry_key e) (entry_value e) True)
      (\<lambda>m' t'. map_bound Rk Rv m (entry_key e) (entry_value e) True m' \<and> map_ok (S \<union> map_nodes m') t' m')"
    using map_set_spec [OF pol Cons.prems(2), of E "entry_key e" "entry_value e"] unfolding Cons.prems(1) .
  show ?case
    unfolding fold_act.simps
  proof (rule achieves_andthen [OF set], elim conjE)
    fix m1 t1
    assume b: "map_bound Rk Rv m (entry_key e) (entry_value e) True m1" and ok: "map_ok (S \<union> map_nodes m1) t1 m1"
    have p1: "policy m1 = p" and rel: "\<And>k. same_entry Rk Rv (map_entry m1 k) (bind_key p e (map_entry m) k)"
      using b Cons.prems(1) by (simp_all add: map_bound_def bind_key_def)
    have fin: "same_entry Rk Rv x (fold (bind_key p) (e # es) (map_entry m) k)"
      if "same_entry Rk Rv x (fold (bind_key p) es (map_entry m1) k)" for x k
      using that fold_bind_key_related [OF rel, where es = es and k = k] unfolding fold_simps by (rule found_trans)
    show "achieves E (failing_requests E p) t1 (fold_act (\<lambda>m e. d7_hamt_map_set (Some m) (entry_key e) (entry_value e) True) m1 es)
      (\<lambda>m' t'. policy m' = p \<and> (\<exists>S'. S \<subseteq> S' \<and> map_ok S' t' m') \<and>
              (\<forall>k. same_entry Rk Rv (map_entry m' k) (fold (bind_key p) (e # es) (map_entry m) k)))"
      using fin by (intro achieves_weaken [OF Cons.IH [OF p1 ok]]) blast
  qed
qed

end

end
