(* ===== verification/Hamt_Combine.thy ===== *)
theory Hamt_Combine
  imports Hamt_Map
begin

text \<open>
  The structural set operations of \<open>hamt.c\<close>: \<open>d7_hamt_combine_nodes\<close> descends two tries in step and
  builds the union, intersection, difference or symmetric difference, sharing a subtree wherever the
  result equals the left operand. The specification is pointwise (\<open>combined\<close>); the proof shows that
  the result is canonical, that no branch reads out of range and that the recursion never runs past
  the last hash level.
\<close>

datatype d7_hamt_combine_operation =
    D7_HAMT_COMBINE_UNION
  | D7_HAMT_COMBINE_INTERSECT
  | D7_HAMT_COMBINE_EXCEPT
  | D7_HAMT_COMBINE_SYMMETRIC_EXCEPT

section \<open>The operations of the code\<close>

text \<open>The entries of a leaf or bucket.\<close>

fun hash_node_entries :: "('k, 'v) d7_hamt_node \<Rightarrow> ('k, 'v) d7_hamt_entry list" where
  "hash_node_entries (Leaf _ _ k v) = [Entry k v]"
| "hash_node_entries (Collision _ _ es) = es"
| "hash_node_entries (Bitmap_Indexed _ _ _ _ _ _) = []"

definition d7_hamt_hash_result_create ::
  "('k, 'v) d7_hamt_policy \<Rightarrow> u32 \<Rightarrow> ('k, 'v) d7_hamt_entry list \<Rightarrow> ('k, 'v) d7_hamt_node option act" where
  "d7_hamt_hash_result_create p h es =
     (case es of
        [] \<Rightarrow> ret None
      | [e] \<Rightarrow> andthen (d7_hamt_leaf_create p h (entry_key e) (entry_value e)) (\<lambda>n. ret (Some n))
      | _ \<Rightarrow> andthen (collision_fill p h es) (\<lambda>n. ret (Some n)))"

text \<open>What slot \<open>slot_index\<close> of a node would hold if the node were a branch at this level.\<close>

fun d7_hamt_logical_slot ::
  "('k, 'v) d7_hamt_policy \<Rightarrow> ('k, 'v) d7_hamt_node option \<Rightarrow> nat \<Rightarrow> nat
     \<Rightarrow> ('k, 'v) d7_hamt_node option act" where
  "d7_hamt_logical_slot p None slot_index shift = ret None"
| "d7_hamt_logical_slot p (Some (Leaf a h k v)) slot_index shift =
     ret (if d7_hamt_index h shift = slot_index then Some (Leaf a h k v) else None)"
| "d7_hamt_logical_slot p (Some (Collision a h es)) slot_index shift =
     ret (if d7_hamt_index h shift = slot_index then Some (Collision a h es) else None)"
| "d7_hamt_logical_slot p (Some (Bitmap_Indexed a dm nm data children n)) slot_index shift =
     (let selected_bit = d7_hamt_bit slot_index
      in if dm AND selected_bit \<noteq> 0 then
           (case nth_opt data (d7_hamt_slot dm selected_bit) of
              None \<Rightarrow> fail Fault
            | Some e \<Rightarrow>
                andthen (d7_hamt_leaf_create p (inline_hash e) (entry_key (inline_entry e))
                           (entry_value (inline_entry e)))
                  (\<lambda>n. ret (Some n)))
         else if nm AND selected_bit \<noteq> 0 then
           (case nth_opt children (d7_hamt_slot nm selected_bit) of
              None \<Rightarrow> fail Fault
            | Some c \<Rightarrow> ret (Some c))
         else ret None)"

fun d7_hamt_slot_matches_inline ::
  "('k, 'v) d7_hamt_policy \<Rightarrow> ('k, 'v) d7_hamt_node option \<Rightarrow> ('k, 'v) d7_hamt_inline_entry \<Rightarrow> bool" where
  "d7_hamt_slot_matches_inline p (Some (Leaf _ h k v)) expected \<longleftrightarrow>
     h = inline_hash expected \<and>
     d7_hamt_keys_equal p k (entry_key (inline_entry expected)) \<and>
     d7_hamt_values_equal p v (entry_value (inline_entry expected))"
| "d7_hamt_slot_matches_inline p _ expected \<longleftrightarrow> False"

text \<open>Two node pointers, either of which may be null, are the same pointer.\<close>

definition same_ptr :: "('k, 'v) d7_hamt_node option \<Rightarrow> ('k, 'v) d7_hamt_node option \<Rightarrow> bool" where
  "same_ptr x y \<longleftrightarrow> map_option node_addr x = map_option node_addr y"

text \<open>A loop that returns \<open>false\<close> at the first index that fails its test.\<close>

fun check_all :: "('a \<Rightarrow> failure + bool) \<Rightarrow> 'a list \<Rightarrow> failure + bool" where
  "check_all f [] = Inr True"
| "check_all f (x # xs) =
     (case f x of Inl e \<Rightarrow> Inl e | Inr ok \<Rightarrow> if ok then check_all f xs else Inr False)"

fun d7_hamt_logical_slots_match ::
  "('k, 'v) d7_hamt_policy \<Rightarrow> ('k, 'v) d7_hamt_node option list \<Rightarrow> ('k, 'v) d7_hamt_node \<Rightarrow> nat
     \<Rightarrow> failure + bool" where
  "d7_hamt_logical_slots_match p slots (Bitmap_Indexed a dm nm data children n) shift =
     check_all (\<lambda>i.
       let selected_bit = d7_hamt_bit i
       in if dm AND selected_bit \<noteq> 0 then
            (case nth_opt data (d7_hamt_slot dm selected_bit) of
               None \<Rightarrow> Inl Fault
             | Some e \<Rightarrow> Inr (d7_hamt_slot_matches_inline p (slots ! i) e))
          else if nm AND selected_bit \<noteq> 0 then
            (case nth_opt children (d7_hamt_slot nm selected_bit) of
               None \<Rightarrow> Inl Fault
             | Some c \<Rightarrow> Inr (same_ptr (slots ! i) (Some c)))
          else Inr (slots ! i = None))
       [0..<32]"
| "d7_hamt_logical_slots_match p slots original shift =
     (case d7_hamt_hash_node_hash original of
        None \<Rightarrow> Inl Fault
      | Some h \<Rightarrow>
          check_all (\<lambda>i. Inr (if i = d7_hamt_index h shift then same_ptr (slots ! i) (Some original)
                             else slots ! i = None))
            [0..<32])"

fun gather_slots ::
  "nat \<Rightarrow> ('k, 'v) d7_hamt_node option list
     \<Rightarrow> u32 \<times> u32 \<times> ('k, 'v) d7_hamt_inline_entry list \<times> ('k, 'v) d7_hamt_node list
     \<Rightarrow> u32 \<times> u32 \<times> ('k, 'v) d7_hamt_inline_entry list \<times> ('k, 'v) d7_hamt_node list" where
  "gather_slots i [] acc = acc"
| "gather_slots i (None # slots) acc = gather_slots (Suc i) slots acc"
| "gather_slots i (Some (Leaf _ h k v) # slots) (dm, nm, data, children) =
     gather_slots (Suc i) slots (dm OR d7_hamt_bit i, nm, data @ [Inline h (Entry k v)], children)"
| "gather_slots i (Some c # slots) (dm, nm, data, children) =
     gather_slots (Suc i) slots (dm, nm OR d7_hamt_bit i, data, children @ [c])"

definition d7_hamt_build_logical_node ::
  "('k, 'v) d7_hamt_policy \<Rightarrow> ('k, 'v) d7_hamt_node option list \<Rightarrow> ('k, 'v) d7_hamt_node \<Rightarrow> nat
     \<Rightarrow> ('k, 'v) d7_hamt_node option act" where
  "d7_hamt_build_logical_node p slots original_left shift =
     andthen (lift_res (d7_hamt_logical_slots_match p slots original_left shift)) (\<lambda>same.
       if same then ret (Some original_left)
       else
         (case gather_slots 0 slots (0, 0, [], []) of
            (dm, nm, data, children) \<Rightarrow> d7_hamt_bitmap_rebuild p dm nm data children))"

text \<open>The entries of the result for two runs of entries with one hash.\<close>

definition combine_left ::
  "('k, 'v) d7_hamt_policy \<Rightarrow> d7_hamt_combine_operation \<Rightarrow> ('k, 'v) d7_hamt_entry list
     \<Rightarrow> ('k, 'v) d7_hamt_entry \<Rightarrow> ('k, 'v) d7_hamt_entry list" where
  "combine_left p operation right l =
     (let found = find (\<lambda>c. d7_hamt_keys_equal p (entry_key l) (entry_key c)) right
      in case operation of
           D7_HAMT_COMBINE_UNION \<Rightarrow>
             [Entry (entry_key l)
                (case found of
                   Some r \<Rightarrow>
                     if \<not> d7_hamt_values_equal p (entry_value l) (entry_value r) then entry_value r
                     else entry_value l
                 | None \<Rightarrow> entry_value l)]
         | D7_HAMT_COMBINE_INTERSECT \<Rightarrow> if found \<noteq> None then [l] else []
         | D7_HAMT_COMBINE_EXCEPT \<Rightarrow> if found = None then [l] else []
         | D7_HAMT_COMBINE_SYMMETRIC_EXCEPT \<Rightarrow> if found = None then [l] else [])"

definition combine_right ::
  "('k, 'v) d7_hamt_policy \<Rightarrow> d7_hamt_combine_operation \<Rightarrow> ('k, 'v) d7_hamt_entry list
     \<Rightarrow> ('k, 'v) d7_hamt_entry list \<Rightarrow> ('k, 'v) d7_hamt_entry list" where
  "combine_right p operation left right =
     (if operation = D7_HAMT_COMBINE_UNION \<or> operation = D7_HAMT_COMBINE_SYMMETRIC_EXCEPT then
        filter (\<lambda>r. find (\<lambda>l. d7_hamt_keys_equal p (entry_key l) (entry_key r)) left = None) right
      else [])"

definition combine_entries ::
  "('k, 'v) d7_hamt_policy \<Rightarrow> d7_hamt_combine_operation \<Rightarrow> ('k, 'v) d7_hamt_entry list
     \<Rightarrow> ('k, 'v) d7_hamt_entry list \<Rightarrow> ('k, 'v) d7_hamt_entry list" where
  "combine_entries p operation left right =
     concat (map (combine_left p operation right) left) @ combine_right p operation left right"

definition matches_left ::
  "('k, 'v) d7_hamt_policy \<Rightarrow> ('k, 'v) d7_hamt_entry list \<Rightarrow> ('k, 'v) d7_hamt_entry list \<Rightarrow> bool" where
  "matches_left p left es \<longleftrightarrow>
     length es = length left \<and>
     (\<forall>i\<in>set [0..<length es].
        d7_hamt_keys_equal p (entry_key (left ! i)) (entry_key (es ! i)) \<and>
        d7_hamt_values_equal p (entry_value (left ! i)) (entry_value (es ! i)))"

function d7_hamt_combine_hash_nodes ::
  "('k, 'v) d7_hamt_policy \<Rightarrow> ('k, 'v) d7_hamt_node \<Rightarrow> ('k, 'v) d7_hamt_node \<Rightarrow> nat
     \<Rightarrow> d7_hamt_combine_operation \<Rightarrow> ('k, 'v) d7_hamt_node option act" where
  "d7_hamt_combine_hash_nodes p left right shift operation =
     (case (d7_hamt_hash_node_hash left, d7_hamt_hash_node_hash right) of
        (Some left_hash, Some right_hash) \<Rightarrow>
          if left_hash \<noteq> right_hash then
            if operation = D7_HAMT_COMBINE_INTERSECT then ret None
            else if operation = D7_HAMT_COMBINE_EXCEPT then ret (Some left)
            else if 32 \<le> shift then fail (Status D7_HAMT_INVALID_ARGUMENT)
            else
              (let left_index = d7_hamt_index left_hash shift;
                   right_index = d7_hamt_index right_hash shift
               in andthen
                    (if left_index \<noteq> right_index then
                       ret ((replicate 32 None)[left_index := Some left, right_index := Some right])
                     else
                       andthen (d7_hamt_combine_hash_nodes p left right (shift + 5) operation)
                         (\<lambda>r. ret ((replicate 32 None)[left_index := r])))
                    (\<lambda>slots. d7_hamt_build_logical_node p slots left shift))
          else
            andthen d7_hamt_allocate (\<lambda>_.
              let es = combine_entries p operation (hash_node_entries left) (hash_node_entries right)
              in if matches_left p (hash_node_entries left) es then ret (Some left)
                 else d7_hamt_hash_result_create p left_hash es)
      | _ \<Rightarrow> fail Fault)"
  by pat_completeness auto
termination
  by (relation "measure (\<lambda>(p, left, right, shift, op). 37 - shift)") auto

declare d7_hamt_combine_hash_nodes.simps [simp del]

text \<open>A bound on the recursion of \<open>d7_hamt_combine_nodes\<close>.\<close>

fun weight :: "('k, 'v) d7_hamt_node \<Rightarrow> nat" where
  "weight (Leaf _ _ _ _) = 1"
| "weight (Collision _ _ _) = 1"
| "weight (Bitmap_Indexed _ _ _ _ children _) = 2 + sum_list (map weight children)"

definition weight_opt :: "('k, 'v) d7_hamt_node option \<Rightarrow> nat" where
  "weight_opt n = (case n of None \<Rightarrow> 0 | Some m \<Rightarrow> weight m)"

lemma logical_slot_weight:
  assumes "d7_hamt_logical_slot p n i s E t = (Inr l, t')"
  shows "weight_opt l \<le> weight_opt n \<and> (\<forall>m. n = Some m \<longrightarrow> is_bitmap m \<longrightarrow> weight_opt l < weight_opt n)"
proof (cases "\<exists>a dm nm data children c. n = Some (Bitmap_Indexed a dm nm data children c)")
  case False
  then show ?thesis
    using assms by (cases n; cases "the n") (auto simp: weight_opt_def ret_def split: if_splits)
next
  case True
  then obtain a dm nm data children c where n: "n = Some (Bitmap_Indexed a dm nm data children c)" by blast
  have child: "weight x < 2 + sum_list (map weight children)" if "nth_opt children j = Some x" for x j
    using nth_opt_in_set [OF that] member_le_sum_list [of "weight x" "map weight children"] by fastforce
  show ?thesis
    using assms child
    by (auto simp: n weight_opt_def Let_def ret_def andthen_def fail_def d7_hamt_leaf_create_def
        d7_hamt_leaf_create_from_retained_def split: if_splits option.splits prod.splits sum.splits
        intro: less_imp_le)
qed

function d7_hamt_combine_nodes ::
  "('k, 'v) d7_hamt_policy \<Rightarrow> ('k, 'v) d7_hamt_node option \<Rightarrow> ('k, 'v) d7_hamt_node option \<Rightarrow> nat
     \<Rightarrow> d7_hamt_combine_operation \<Rightarrow> ('k, 'v) d7_hamt_node option act" where
  "d7_hamt_combine_nodes p left right shift operation =
     (if same_ptr left right then
        ret (if operation = D7_HAMT_COMBINE_UNION \<or> operation = D7_HAMT_COMBINE_INTERSECT
             then left else None)
      else
        (case (left, right) of
           (None, _) \<Rightarrow>
             ret (if operation = D7_HAMT_COMBINE_UNION \<or> operation = D7_HAMT_COMBINE_SYMMETRIC_EXCEPT
                  then right else None)
         | (_, None) \<Rightarrow> ret (if operation = D7_HAMT_COMBINE_INTERSECT then None else left)
         | (Some l, Some r) \<Rightarrow>
             if \<not> is_bitmap l \<and> \<not> is_bitmap r then d7_hamt_combine_hash_nodes p l r shift operation
             else
               andthen
                 (map_act (\<lambda>i.
                    andthen (d7_hamt_logical_slot p (Some l) i shift) (\<lambda>left_slot.
                    andthen (d7_hamt_logical_slot p (Some r) i shift) (\<lambda>right_slot.
                    d7_hamt_combine_nodes p left_slot right_slot (shift + 5) operation)))
                   [0..<32])
                 (\<lambda>slots. d7_hamt_build_logical_node p slots l shift)))"
  by pat_completeness auto
termination
  apply (relation "measure (\<lambda>(p, l, r, s, op). weight_opt l + weight_opt r)")
   apply simp
  apply (auto dest!: logical_slot_weight)
  done

declare d7_hamt_combine_nodes.simps [simp del]

section \<open>Meaning\<close>

fun combined ::
  "('k, 'v) d7_hamt_policy \<Rightarrow> d7_hamt_combine_operation \<Rightarrow> ('k, 'v) d7_hamt_entry option
     \<Rightarrow> ('k, 'v) d7_hamt_entry option \<Rightarrow> ('k, 'v) d7_hamt_entry option" where
  "combined p D7_HAMT_COMBINE_UNION (Some l) (Some r) =
     Some (Entry (entry_key l)
       (if d7_hamt_values_equal p (entry_value l) (entry_value r) then entry_value l else entry_value r))"
| "combined p D7_HAMT_COMBINE_UNION (Some l) None = Some l"
| "combined p D7_HAMT_COMBINE_UNION None r = r"
| "combined p D7_HAMT_COMBINE_INTERSECT (Some l) (Some r) = Some l"
| "combined p D7_HAMT_COMBINE_EXCEPT (Some l) None = Some l"
| "combined p D7_HAMT_COMBINE_SYMMETRIC_EXCEPT (Some l) None = Some l"
| "combined p D7_HAMT_COMBINE_SYMMETRIC_EXCEPT None (Some r) = Some r"
| "combined p _ _ _ = None"

lemma combined_left_key: "combined p op (Some l) y = Some e \<Longrightarrow> entry_key e = entry_key l"
  by (cases op; cases y) auto

lemma combined_None [simp]: "combined p op None None = None"
  by (cases op) auto

lemma combined_right_None [simp]:
  "combined p op x None = (if op = D7_HAMT_COMBINE_INTERSECT then None else x)"
  by (cases op; cases x) auto

lemma combined_left_None [simp]:
  "combined p op None y =
     (if op = D7_HAMT_COMBINE_UNION \<or> op = D7_HAMT_COMBINE_SYMMETRIC_EXCEPT then y else None)"
  by (cases op; cases y) auto

section \<open>Gathering slots\<close>

lemma append_dense:
  assumes "i < 32" and "dense b xs" and "\<And>j. bit b j \<Longrightarrow> j < i"
  shows "dense (b OR d7_hamt_bit i) (xs @ [x])"
    and "sparse (b OR d7_hamt_bit i) (xs @ [x]) = (sparse b xs)(i \<mapsto> x)"
proof -
  have nb: "\<not> bit b i" using assms(3) by blast
  have "filter (bit b) [Suc i..<32] = []" using assms(3) by (fastforce simp: filter_empty_conv)
  then have "positions b = filter (bit b) [0..<i]" using positions_split [OF assms(1), of b] nb by simp
  then have "rank b i = length xs" using assms(2) by (simp add: rank_def dense_length)
  then have "insert_at (rank b i) x xs = xs @ [x]" by (simp add: insert_at_def)
  then show "dense (b OR d7_hamt_bit i) (xs @ [x])" "sparse (b OR d7_hamt_bit i) (xs @ [x]) = (sparse b xs)(i \<mapsto> x)"
    using insert_at_dense [OF assms(1) nb assms(2), of x] by simp_all
qed

lemma gather_slots_spec:
  assumes "gather_slots i ns (dm, nm, data, ch) = (dm', nm', data', ch')"
    and "i + length ns \<le> 32" and "dense dm data" and "dense nm ch"
    and "\<And>j. bit dm j \<Longrightarrow> j < i" and "\<And>j. bit nm j \<Longrightarrow> j < i"
  shows "dense dm' data' \<and> dense nm' ch' \<and>
    (\<forall>j. sparse dm' data' j = (if i \<le> j \<and> j < i + length ns then slot_inline (ns ! (j - i)) else sparse dm data j)) \<and>
    (\<forall>j. sparse nm' ch' j = (if i \<le> j \<and> j < i + length ns then slot_child (ns ! (j - i)) else sparse nm ch j))"
  using assms
proof (induction ns arbitrary: i dm nm data ch)
  case Nil
  then show ?case by auto
next
  case (Cons n ns)
  have i: "i < 32" using Cons.prems(2) by simp
  have step: "(if i \<le> j \<and> j < i + length (n # ns) then f ((n # ns) ! (j - i)) else g j) =
      (if Suc i \<le> j \<and> j < Suc i + length ns then f (ns ! (j - Suc i)) else (g(i := f n)) j)" for f g j
    by (cases "j \<le> i") (auto simp: nth_Cons')
  have none: "sparse b xs i = None" if "dense b xs" "\<And>j. bit b j \<Longrightarrow> j < i" for b and xs :: "'z list"
    using that sparse_None by blast
  have or_bits: "bit (b OR d7_hamt_bit i) j \<Longrightarrow> j < Suc i" if "\<And>j. bit b j \<Longrightarrow> j < i" for b j
    using that by (auto simp: bit_or_iff less_Suc_eq)
  note app = append_dense [OF i Cons.prems(3,5)] append_dense [OF i Cons.prems(4,6)]
  note nones = none [OF Cons.prems(3,5)] none [OF Cons.prems(4,6)]
  consider (empty) "n = None" | (leaf) a h k v where "n = Some (Leaf a h k v)" | (child) c where "n = Some c" "\<not> is_leaf c"
    by (metis is_leaf.elims(2) not_None_eq)
  then show ?case
  proof cases
    case empty
    have IH: "dense dm' data' \<and> dense nm' ch' \<and>
      (\<forall>j. sparse dm' data' j = (if Suc i \<le> j \<and> j < Suc i + length ns then slot_inline (ns ! (j - Suc i)) else sparse dm data j)) \<and>
      (\<forall>j. sparse nm' ch' j = (if Suc i \<le> j \<and> j < Suc i + length ns then slot_child (ns ! (j - Suc i)) else sparse nm ch j))"
      using Cons.prems empty by (intro Cons.IH) (auto dest: less_SucI)
    have "(sparse dm data)(i := slot_inline n) = sparse dm data" "(sparse nm ch)(i := slot_child n) = sparse nm ch"
      using nones empty by (simp_all add: slot_inline_def slot_child_def fun_upd_idem)
    then show ?thesis unfolding step using IH by simp
  next
    case leaf
    let ?x = "Inline h (Entry k v)"
    have IH: "dense dm' data' \<and> dense nm' ch' \<and>
      (\<forall>j. sparse dm' data' j = (if Suc i \<le> j \<and> j < Suc i + length ns then slot_inline (ns ! (j - Suc i))
         else sparse (dm OR d7_hamt_bit i) (data @ [?x]) j)) \<and>
      (\<forall>j. sparse nm' ch' j = (if Suc i \<le> j \<and> j < Suc i + length ns then slot_child (ns ! (j - Suc i)) else sparse nm ch j))"
      using Cons.prems leaf app or_bits [OF Cons.prems(5)] by (intro Cons.IH) (auto dest: less_SucI)
    have "(sparse dm data)(i := slot_inline n) = sparse (dm OR d7_hamt_bit i) (data @ [?x])"
      "(sparse nm ch)(i := slot_child n) = sparse nm ch"
      using nones leaf app by (simp_all add: slot_inline_def slot_child_def fun_upd_idem)
    then show ?thesis unfolding step using IH by simp
  next
    case child
    have IH: "dense dm' data' \<and> dense nm' ch' \<and>
      (\<forall>j. sparse dm' data' j = (if Suc i \<le> j \<and> j < Suc i + length ns then slot_inline (ns ! (j - Suc i)) else sparse dm data j)) \<and>
      (\<forall>j. sparse nm' ch' j = (if Suc i \<le> j \<and> j < Suc i + length ns then slot_child (ns ! (j - Suc i))
         else sparse (nm OR d7_hamt_bit i) (ch @ [c]) j))"
      using Cons.prems child app or_bits [OF Cons.prems(6)] by (intro Cons.IH) (cases c; auto dest: less_SucI)+
    have "(sparse dm data)(i := slot_inline n) = sparse dm data"
      "(sparse nm ch)(i := slot_child n) = sparse (nm OR d7_hamt_bit i) (ch @ [c])"
      using nones child app by (cases c; simp add: slot_inline_def slot_child_def fun_upd_idem)+
    then show ?thesis unfolding step using IH by simp
  qed
qed

lemma gather_all_slots:
  assumes "gather_slots 0 ns (0, 0, [], []) = (dm, nm, data, ch)" and "length ns = 32"
  shows "dense dm data" "dense nm ch"
    and "\<And>j. sparse dm data j = (if j < 32 then slot_inline (ns ! j) else None)"
    and "\<And>j. sparse nm ch j = (if j < 32 then slot_child (ns ! j) else None)"
  using gather_slots_spec [OF assms(1)] assms(2) by auto

lemma check_all_Inr:
  "(\<And>x. x \<in> set xs \<Longrightarrow> f x = Inr (P x)) \<Longrightarrow> check_all f xs = Inr (\<forall>x\<in>set xs. P x)"
  by (induction xs) auto

lemma check_all_total: "check_all (\<lambda>i. Inr (P i)) xs = Inr (\<forall>i\<in>set xs. P i)"
  by (rule check_all_Inr) simp

section \<open>Runs of entries with one hash\<close>

lemma find_concat_map:
  assumes "\<And>l x. x \<in> set (f l) \<Longrightarrow> entry_key x = entry_key l"
  shows "find (entry_matches p k) L = None \<Longrightarrow> find (entry_matches p k) (concat (map f L)) = None"
  using assms by (auto simp: find_None_iff entry_matches_def)

lemma find_append_iff:
  "find P (xs @ ys) = (case find P xs of Some x \<Rightarrow> Some x | None \<Rightarrow> find P ys)"
  by (induction xs) auto

lemma find_filter_imp: "(\<And>x. P x \<Longrightarrow> Q x) \<Longrightarrow> find P (filter Q xs) = find P xs"
  by (induction xs) auto

lemma distinct_keys_filter: "distinct_keys p xs \<Longrightarrow> distinct_keys p (filter Q xs)"
  by (induction xs) auto

lemma distinct_keys_concat_map:
  assumes "\<And>l x. x \<in> set (f l) \<Longrightarrow> entry_key x = entry_key l" and "\<And>l. length (f l) \<le> 1"
  shows "distinct_keys p L \<Longrightarrow> distinct_keys p (concat (map f L))"
proof (induction L)
  case (Cons l L)
  obtain xs where "f l = [] \<or> (\<exists>x. f l = [x])"
    using assms(2) [of l] by (cases "f l") auto
  then show ?case using Cons assms(1) by (auto simp: distinct_keys_append_all)
qed simp

lemma concat_map_full:
  assumes "\<And>l. length (f l) \<le> 1" and "length (concat (map f L)) = length L" and "i < length L"
  shows "f (L ! i) = [concat (map f L) ! i]"
proof -
  have le: "length (concat (map f M)) \<le> length M" for M
  proof (induction M)
    case (Cons l M)
    then show ?case using assms(1) [of l] by simp
  qed simp
  show ?thesis
    using assms(2,3)
  proof (induction L arbitrary: i)
    case (Cons l L)
    have "length (f l) = 1" "length (concat (map f L)) = length L"
      using Cons.prems(1) assms(1) [of l] le [of L] by auto
    then obtain x where "f l = [x]" by (metis One_nat_def length_0_conv length_Suc_conv)
    then show ?case using Cons \<open>length (concat (map f L)) = length L\<close> by (cases i) auto
  qed simp
qed

lemma combine_left_key: "x \<in> set (combine_left p op R l) \<Longrightarrow> entry_key x = entry_key l"
  by (cases op) (auto simp: combine_left_def Let_def split: if_splits)

lemma combine_left_length: "length (combine_left p op R l) \<le> 1"
  by (cases op) (auto simp: combine_left_def Let_def)

context hamt_policy
begin

lemma combined_related:
  assumes "same_entry Rk Rv x x'" and "same_entry Rk Rv y y'"
  shows "same_entry Rk Rv (combined p op x y) (combined p op x' y')"
proof (cases "\<exists>a b c d. x = Some a \<and> x' = Some b \<and> y = Some c \<and> y' = Some d \<and> op = D7_HAMT_COMBINE_UNION")
  case True
  then obtain a b c d where eqs: "x = Some a" "x' = Some b" "y = Some c" "y' = Some d" "op = D7_HAMT_COMBINE_UNION"
    by blast
  have rel: "Rk (entry_key a) (entry_key b)" "Rv (entry_value a) (entry_value b)" "Rv (entry_value c) (entry_value d)"
    using assms by (simp_all add: eqs entry_rel_def)
  have "Rv (entry_value a) (entry_value d)" if "d7_hamt_values_equal p (entry_value a) (entry_value c)"
    using Rv_trans [OF veq_Rv [OF that] rel(3)] .
  moreover have "Rv (entry_value c) (entry_value b)" if "d7_hamt_values_equal p (entry_value b) (entry_value d)"
    using Rv_trans [OF rel(3) Rv_sym [OF veq_Rv [OF that]]] .
  ultimately show ?thesis using rel by (simp add: eqs entry_rel_def)
next
  case False
  from assms show ?thesis
    by (cases op; cases x; cases x'; cases y; cases y') (use False in auto)
qed

lemma combine_entries_find:
  assumes L: "distinct_keys p L"
  shows "find (entry_matches p k) (combine_entries p op L R) =
    combined p op (find (entry_matches p k) L) (find (entry_matches p k) R)"
proof (cases "find (entry_matches p k) L")
  case None
  then have none: "find (entry_matches p k) (concat (map (combine_left p op R) L)) = None"
    by (intro find_concat_map) (auto dest: combine_left_key)
  have "find (\<lambda>l. d7_hamt_keys_equal p (entry_key l) (entry_key r)) L = None" if "entry_matches p k r" for r
  proof -
    have "(\<lambda>l. d7_hamt_keys_equal p (entry_key l) (entry_key r)) = entry_matches p k"
      using keq_right [of "entry_key r" k] that by (auto simp: entry_matches_def fun_eq_iff)
    then show ?thesis using None by simp
  qed
  then have "find (entry_matches p k) (combine_right p op L R) =
      (if op = D7_HAMT_COMBINE_UNION \<or> op = D7_HAMT_COMBINE_SYMMETRIC_EXCEPT then find (entry_matches p k) R else None)"
    unfolding combine_right_def by (simp add: find_filter_imp)
  then show ?thesis using None none by (simp add: combine_entries_def find_append_iff)
next
  case (Some l)
  then obtain i where i: "first_index (entry_matches p k) L = Some i" by (metis first_index_None not_None_eq)
  note fi = first_index_Some [OF i]
  have l: "l \<in> set L" "d7_hamt_keys_equal p (entry_key l) k"
    using Some fi by (auto simp: entry_matches_def)
  have found: "find (\<lambda>c. d7_hamt_keys_equal p (entry_key l) (entry_key c)) R = find (entry_matches p k) R"
    (is "find ?P R = _")
  proof -
    have "?P = entry_matches p k"
      using keq_left [OF l(2)] keq_sym by (fastforce simp: entry_matches_def fun_eq_iff)
    then show ?thesis by simp
  qed
  have right: "find (entry_matches p k) (combine_right p op L R) = None"
  proof -
    have "find (\<lambda>l. d7_hamt_keys_equal p (entry_key l) (entry_key r)) L \<noteq> None" if "entry_matches p k r" for r
      using l keq_right [of "entry_key r" k "entry_key l"] that by (auto simp: find_None_iff entry_matches_def)
    then show ?thesis by (auto simp: combine_right_def find_None_iff)
  qed
  have left: "find (entry_matches p k) (concat (map (combine_left p op R) L)) =
      (case combine_left p op R l of [] \<Rightarrow> None | x # _ \<Rightarrow> Some x)"
    using Some L
  proof (induction L)
    case (Cons a L)
    show ?case
    proof (cases "entry_matches p k a")
      case True
      then have a: "a = l" using Cons.prems by simp
      have "find (entry_matches p k) L = None"
        using Cons.prems(2) keq_trans [of "entry_key l" k] keq_sym l(2) unfolding a
        by (fastforce simp: find_None_iff entry_matches_def)
      then have rest: "find (entry_matches p k) (concat (map (combine_left p op R) L)) = None"
        by (intro find_concat_map) (auto dest: combine_left_key)
      show ?thesis
      proof (cases "combine_left p op R l")
        case Nil
        then show ?thesis using rest a by simp
      next
        case (Cons x xs)
        then have "entry_matches p k x" using combine_left_key [of x p op R l] l(2) by (simp add: entry_matches_def)
        then show ?thesis using Cons a by simp
      qed
    next
      case False
      then have "find (entry_matches p k) (combine_left p op R a) = None"
        using combine_left_key by (fastforce simp: find_None_iff entry_matches_def)
      then show ?thesis using Cons False by (simp add: find_append_iff)
    qed
  qed simp
  have "(case combine_left p op R l of [] \<Rightarrow> None | x # _ \<Rightarrow> Some x) = combined p op (Some l) (find (entry_matches p k) R)"
    unfolding combine_left_def Let_def found
    by (cases op; cases "find (entry_matches p k) R") auto
  then show ?thesis using Some left right by (simp add: combine_entries_def find_append_iff split: option.split)
qed

lemma combine_entries_distinct:
  assumes "distinct_keys p L" "distinct_keys p R"
  shows "distinct_keys p (combine_entries p op L R)"
proof -
  have "distinct_keys p (concat (map (combine_left p op R) L))"
    by (rule distinct_keys_concat_map [OF _ combine_left_length assms(1)]) (rule combine_left_key)
  moreover have "distinct_keys p (combine_right p op L R)"
    using distinct_keys_filter [OF assms(2)] by (simp add: combine_right_def)
  moreover have "\<not> d7_hamt_keys_equal p (entry_key x) (entry_key y)"
    if "x \<in> set (concat (map (combine_left p op R) L))" "y \<in> set (combine_right p op L R)" for x y
    using that by (auto simp: combine_right_def find_None_iff dest!: combine_left_key split: if_splits)
  ultimately show ?thesis by (auto simp: combine_entries_def distinct_keys_append_all)
qed

lemma combine_entries_hash:
  assumes "\<forall>e\<in>set L. d7_hamt_get_hash p (entry_key e) = h" "\<forall>e\<in>set R. d7_hamt_get_hash p (entry_key e) = h"
  shows "\<forall>e\<in>set (combine_entries p op L R). d7_hamt_get_hash p (entry_key e) = h"
  using assms by (auto simp: combine_entries_def combine_right_def dest: combine_left_key split: if_splits)

lemma matches_left_related:
  assumes "matches_left p L (combine_entries p op L R)"
  shows "list_all2 (entry_rel Rk Rv) L (combine_entries p op L R)"
proof -
  let ?C = "concat (map (combine_left p op R) L)" and ?R = "combine_right p op L R"
  have len: "length ?C + length ?R = length L"
    and keq: "\<And>i. i < length L \<Longrightarrow> d7_hamt_keys_equal p (entry_key (L ! i)) (entry_key ((?C @ ?R) ! i))"
    and veq: "\<And>i. i < length L \<Longrightarrow> d7_hamt_values_equal p (entry_value (L ! i)) (entry_value ((?C @ ?R) ! i))"
    using assms by (auto simp: matches_left_def combine_entries_def)
  have "?R = []"
  proof (rule ccontr)
    assume ne: "?R \<noteq> []"
    then have lt: "length ?C < length L" using len by (metis length_greater_0_conv less_add_same_cancel1)
    have "hd ?R \<in> set ?R" using ne by simp
    moreover have "d7_hamt_keys_equal p (entry_key (L ! length ?C)) (entry_key (hd ?R))"
      using keq [OF lt] ne by (simp add: nth_append hd_conv_nth)
    ultimately show False using lt by (auto simp: combine_right_def find_None_iff split: if_splits)
  qed
  then have C: "combine_entries p op L R = ?C" "length ?C = length L" using len by (simp_all add: combine_entries_def)
  have "entry_key (?C ! i) = entry_key (L ! i)" if "i < length L" for i
    using concat_map_full [OF combine_left_length C(2) that] combine_left_key [of "?C ! i" p op R "L ! i"] by simp
  moreover have "Rv (entry_value (L ! i)) (entry_value (?C ! i))" if "i < length L" for i
    using veq [OF that] C(2) that by (simp add: nth_append veq_Rv)
  ultimately show ?thesis unfolding C(1) using C(2) by (simp add: list_all2_conv_all_nth entry_rel_def)
qed

text \<open>\<open>r\<close> holds exactly the entries \<open>es\<close>, all of hash \<open>h\<close>.\<close>

definition holds_run ::
  "nat \<Rightarrow> u32 \<Rightarrow> ('k, 'v) d7_hamt_entry list \<Rightarrow> ('k, 'v) d7_hamt_node option \<Rightarrow> bool" where
  "holds_run s h es r \<longleftrightarrow> wf_opt p s r \<and> hashes_opt r \<subseteq> {h} \<and>
     (\<forall>h' k. same_entry Rk Rv (look_opt p r h' s k) (if h = h' then find (entry_matches p k) es else None))"

lemma holds_run_leaf:
  assumes "d7_hamt_get_hash p (entry_key e) = h" and k: "Rk (entry_key e) k" and v: "Rv (entry_value e) v"
  shows "holds_run s h [e] (Some (Leaf a h k v))"
  using assms(1) Rk_hash [OF k] keq_left [OF Rk_keq [OF k]] Rk_sym [OF k] Rv_sym [OF v]
  by (auto simp: holds_run_def entry_matches_def entry_rel_def)

lemma holds_run_bucket:
  assumes "distinct_keys p es" "\<forall>e\<in>set es. d7_hamt_get_hash p (entry_key e) = h" "2 \<le> length es"
    and rel: "list_all2 (entry_rel Rk Rv) es es'"
  shows "holds_run s h es (Some (Collision a h es'))"
  using assms list_all2_lengthD [OF rel] hash_related [OF rel, of h] distinct_keys_related [OF rel]
    found_sym [OF find_related [OF rel]] by (simp add: holds_run_def)

lemma hash_result_create_spec:
  assumes heap: "heap S t" and es: "distinct_keys p es" "\<forall>e\<in>set es. d7_hamt_get_hash p (entry_key e) = h"
  shows "achieves E (failing_requests E p) t (d7_hamt_hash_result_create p h es)
    (\<lambda>r t'. holds_run s h es r \<and> heap (S \<union> subnodes_opt r) t')"
proof -
  consider (nil) "es = []" | (one) e where "es = [e]" | (many) "2 \<le> length es"
    by (cases es; cases "tl es") auto
  then show ?thesis
  proof cases
    case nil
    then show ?thesis
      using heap by (auto simp: d7_hamt_hash_result_create_def holds_run_def intro!: achieves_ret)
  next
    case one
    then show ?thesis
      using heap es(2) holds_run_leaf [of e h]
      by (auto simp: d7_hamt_hash_result_create_def intro!: achieves_andthen [OF leaf_create_spec] achieves_ret)
  next
    case many
    then have "d7_hamt_hash_result_create p h es = andthen (collision_fill p h es) (\<lambda>n. ret (Some n))"
      by (auto simp: d7_hamt_hash_result_create_def split: list.split)
    then show ?thesis
      using heap holds_run_bucket [OF es many]
      by (auto intro!: achieves_andthen [OF collision_fill_spec] achieves_ret)
  qed
qed

section \<open>Building a branch from its logical slots\<close>

definition built :: "nat \<Rightarrow> ('k, 'v) d7_hamt_node option list \<Rightarrow> ('k, 'v) d7_hamt_node option \<Rightarrow> bool" where
  "built s slots r \<longleftrightarrow> wf_opt p s r \<and> hashes_opt r \<subseteq> (\<Union>x\<in>set slots. hashes_opt x) \<and>
     (\<forall>h k. same_entry Rk Rv (look_opt p r h s k) (look_opt p (slots ! d7_hamt_index h s) h (s + 5) k))"

definition slots_ok :: "nat \<Rightarrow> ('k, 'v) d7_hamt_node option list \<Rightarrow> bool" where
  "slots_ok s slots \<longleftrightarrow> length slots = 32 \<and> s < 32 \<and>
     (\<forall>i<32. wf_opt p (s + 5) (slots ! i) \<and> (\<forall>h\<in>hashes_opt (slots ! i). d7_hamt_index h s = i))"

lemma built_gathered:
  assumes slots: "slots_ok s slots" and g: "gather_slots 0 slots (0, 0, [], []) = (dm, nm, data, ch)"
    and r: "rebuilt s dm nm data ch r"
  shows "built s slots r"
proof -
  have len: "length slots = 32" using slots by (simp add: slots_ok_def)
  note ga = gather_all_slots [OF g len]
  have "hashes_opt r \<subseteq> (\<Union>x\<in>set slots. hashes_opt x)"
  proof
    fix h assume "h \<in> hashes_opt r"
    then consider (data) e where "e \<in> set data" "h = inline_hash e" | (child) c where "c \<in> set ch" "h \<in> node_hashes c"
      using r by (auto simp: rebuilt_def)
    then obtain i where "i < 32" "h \<in> inline_hash ` set_option (slot_inline (slots ! i)) \<union>
        (\<Union>c\<in>set_option (slot_child (slots ! i)). node_hashes c)"
    proof cases
      case data
      obtain i where "i < 32" "sparse dm data i = Some e" using in_set_sparse [OF data(1) ga(1)] by blast
      then show ?thesis using ga(3) [of i] data that by auto
    next
      case child
      obtain i where "i < 32" "sparse nm ch i = Some c" using in_set_sparse [OF child(1) ga(2)] by blast
      then show ?thesis using ga(4) [of i] child that by auto
    qed
    then show "h \<in> (\<Union>x\<in>set slots. hashes_opt x)" unfolding slot_hashes using len by auto
  qed
  moreover have "same_entry Rk Rv (look_opt p r h s k) (look_opt p (slots ! d7_hamt_index h s) h (s + 5) k)" for h k
  proof -
    let ?i = "d7_hamt_index h s"
    have "same_entry Rk Rv (look_opt p r h s k) (look_slot p (sparse dm data ?i) (sparse nm ch ?i) h s k)"
      using r by (simp add: rebuilt_def)
    moreover have "sparse dm data ?i = slot_inline (slots ! ?i)" "sparse nm ch ?i = slot_child (slots ! ?i)"
      using ga(3,4) [of ?i] d7_hamt_index_less [of h s] by simp_all
    ultimately show ?thesis by (simp add: look_slot_contents)
  qed
  ultimately show ?thesis using r by (simp add: built_def rebuilt_def)
qed

lemma gathered_wf:
  assumes "slots_ok s slots" and g: "gather_slots 0 slots (0, 0, [], []) = (dm, nm, data, ch)"
  shows "wf_slots p s dm nm data ch"
proof -
  have len: "length slots = 32" "s < 32" using assms(1) by (simp_all add: slots_ok_def)
  note ga = gather_all_slots [OF g len(1)]
  have "slot_ok p s i (slot_inline (slots ! i)) (slot_child (slots ! i))" if "i < 32" for i
    using assms(1) that by (intro slot_ok_contents) (simp_all add: slots_ok_def)
  then show ?thesis using ga len by (auto simp: wf_slots_def slot_ok_def)
qed

text \<open>A leaf the operation left in the slot of an inline entry of equal key still holds that key.\<close>

definition keys_kept :: "('k, 'v) d7_hamt_node option list \<Rightarrow> ('k, 'v) d7_hamt_node \<Rightarrow> bool" where
  "keys_kept slots orig \<longleftrightarrow> (\<forall>a dm nm data ch n i e b h k v.
     orig = Bitmap_Indexed a dm nm data ch n \<longrightarrow> sparse dm data i = Some e \<longrightarrow>
     slots ! i = Some (Leaf b h k v) \<longrightarrow> d7_hamt_keys_equal p k (entry_key (inline_entry e)) \<longrightarrow>
     Rk k (entry_key (inline_entry e)))"

lemma slot_reads:
  assumes "dense b xs" and "i < 32"
  shows "b AND d7_hamt_bit i \<noteq> 0 \<longleftrightarrow> sparse b xs i \<noteq> None"
    and "b AND d7_hamt_bit i \<noteq> 0 \<Longrightarrow> nth_opt xs (d7_hamt_slot b (d7_hamt_bit i)) = sparse b xs i"
  using assms by (simp_all add: and_d7_hamt_bit_nonzero sparse_None d7_hamt_slot_rank sparse_nth_opt)

lemma slots_match_bitmap:
  assumes wf: "wf_node p s (Bitmap_Indexed a dm nm data children n)"
  shows "d7_hamt_logical_slots_match p slots (Bitmap_Indexed a dm nm data children n) s =
    Inr (\<forall>i\<in>set [0..<32].
       case sparse dm data i of Some e \<Rightarrow> d7_hamt_slot_matches_inline p (slots ! i) e
       | None \<Rightarrow> (case sparse nm children i of Some c \<Rightarrow> same_ptr (slots ! i) (Some c) | None \<Rightarrow> slots ! i = None))"
proof -
  have dense: "dense dm data" "dense nm children" using wf by simp_all
  show ?thesis
    unfolding d7_hamt_logical_slots_match.simps
  proof (rule check_all_Inr)
    fix i :: nat assume "i \<in> set [0..<32]"
    then have i: "i < 32" by simp
    note rd = slot_reads [OF dense(1) i] slot_reads [OF dense(2) i]
    show "(let selected_bit = d7_hamt_bit i
       in if dm AND selected_bit \<noteq> 0 then
            (case nth_opt data (d7_hamt_slot dm selected_bit) of
               None \<Rightarrow> Inl Fault
             | Some e \<Rightarrow> Inr (d7_hamt_slot_matches_inline p (slots ! i) e))
          else if nm AND selected_bit \<noteq> 0 then
            (case nth_opt children (d7_hamt_slot nm selected_bit) of
               None \<Rightarrow> Inl Fault
             | Some c \<Rightarrow> Inr (same_ptr (slots ! i) (Some c)))
          else Inr (slots ! i = None)) = Inr
       (case sparse dm data i of Some e \<Rightarrow> d7_hamt_slot_matches_inline p (slots ! i) e
       | None \<Rightarrow> (case sparse nm children i of Some c \<Rightarrow> same_ptr (slots ! i) (Some c) | None \<Rightarrow> slots ! i = None))"
      using rd by (cases "sparse dm data i"; cases "sparse nm children i") (simp_all add: Let_def)
  qed
qed

lemma built_unchanged_bitmap:
  assumes heap: "heap S t" and sub: "subnodes N \<subseteq> S" "\<And>x. x \<in> set slots \<Longrightarrow> subnodes_opt x \<subseteq> S"
    and slots: "slots_ok s slots" and N: "N = Bitmap_Indexed a dm nm data children n" and wf: "wf_node p s N"
    and keys: "keys_kept slots N"
    and same: "\<And>i. i < 32 \<Longrightarrow> case sparse dm data i of Some e \<Rightarrow> d7_hamt_slot_matches_inline p (slots ! i) e
       | None \<Rightarrow> (case sparse nm children i of Some c \<Rightarrow> same_ptr (slots ! i) (Some c) | None \<Rightarrow> slots ! i = None)"
  shows "built s slots (Some N)"
proof -
  have len: "length slots = 32" using slots by (simp add: slots_ok_def)
  have inline: "\<exists>b k v. slots ! i = Some (Leaf b (inline_hash e) k v) \<and> Rk k (entry_key (inline_entry e)) \<and>
      d7_hamt_keys_equal p k (entry_key (inline_entry e)) \<and> Rv v (entry_value (inline_entry e))"
    if e: "sparse dm data i = Some e" for i e
  proof -
    have "i < 32" using sparse_Some_bit [OF e] by simp
    then have "d7_hamt_slot_matches_inline p (slots ! i) e" using same [of i] e by simp
    then obtain b k v where m: "slots ! i = Some (Leaf b (inline_hash e) k v)"
      "d7_hamt_keys_equal p k (entry_key (inline_entry e))" "d7_hamt_values_equal p v (entry_value (inline_entry e))"
      by (auto elim!: d7_hamt_slot_matches_inline.elims)
    moreover have "Rk k (entry_key (inline_entry e))" using keys e m(1,2) N unfolding keys_kept_def by blast
    ultimately show ?thesis using veq_Rv by blast
  qed
  have child: "slots ! i = Some c" if none: "sparse dm data i = None" and c: "sparse nm children i = Some c" for i c
  proof -
    have i: "i < 32" using sparse_Some_bit [OF c] by simp
    then obtain x where x: "slots ! i = Some x" "node_addr x = node_addr c"
      using same [of i] none c by (auto simp: same_ptr_def)
    have "slots ! i \<in> set slots" using i len by simp
    then have "x \<in> S" using sub(2) [of "slots ! i"] x(1) self_in_subnodes [of x] by auto
    moreover have "subnodes c \<subseteq> S" using sub(1) sparse_Some_in_set [OF c] by (auto simp: N)
    then have "c \<in> S" using self_in_subnodes [of c] by blast
    ultimately show ?thesis using heap_same [OF heap _ _ x(2)] x(1) by simp
  qed
  have dense: "dense dm data" "dense nm children" using wf by (simp_all add: N)
  have "node_hashes N \<subseteq> (\<Union>x\<in>set slots. hashes_opt x)"
  proof
    fix h assume "h \<in> node_hashes N"
    then consider (data) e where "e \<in> set data" "h = inline_hash e" | (kid) c where "c \<in> set children" "h \<in> node_hashes c"
      by (auto simp: N)
    then obtain i where "i < 32" "h \<in> hashes_opt (slots ! i)"
    proof cases
      case data
      obtain i where i: "i < 32" "sparse dm data i = Some e" using in_set_sparse [OF data(1) dense(1)] by blast
      then show ?thesis using inline [OF i(2)] data that by auto
    next
      case kid
      obtain i where i: "i < 32" "sparse nm children i = Some c" using in_set_sparse [OF kid(1) dense(2)] by blast
      moreover have "sparse dm data i = None" using wf i slots_disjoint [OF dense] by (auto simp: N)
      ultimately show ?thesis using child kid that by auto
    qed
    then show "h \<in> (\<Union>x\<in>set slots. hashes_opt x)" using len by auto
  qed
  moreover have "same_entry Rk Rv (look p N h s k) (look_opt p (slots ! d7_hamt_index h s) h (s + 5) k)" for h k
  proof (cases "sparse dm data (d7_hamt_index h s)")
    case (Some e)
    from inline [OF Some] obtain b k' v where m: "slots ! d7_hamt_index h s = Some (Leaf b (inline_hash e) k' v)"
      "Rk k' (entry_key (inline_entry e))" "d7_hamt_keys_equal p k' (entry_key (inline_entry e))"
      "Rv v (entry_value (inline_entry e))" by blast
    show ?thesis
      using Some m Rk_sym [OF m(2)] Rv_sym [OF m(4)] keq_left [OF m(3), of k]
      by (auto simp: N inline_match_def entry_matches_def entry_rel_def)
  next
    case None
    then show ?thesis
      using child [OF None] same [OF d7_hamt_index_less, of h s] by (auto simp: N split: option.split)
  qed
  ultimately show ?thesis using wf by (simp add: built_def)
qed

lemma built_unchanged_hash:
  assumes heap: "heap S t" and sub: "subnodes N \<subseteq> S" "\<And>x. x \<in> set slots \<Longrightarrow> subnodes_opt x \<subseteq> S"
    and slots: "slots_ok s slots" and N: "d7_hamt_hash_node_hash N = Some hN" and wf: "wf_node p s N"
    and same: "\<And>i. i < 32 \<Longrightarrow> if i = d7_hamt_index hN s then same_ptr (slots ! i) (Some N) else slots ! i = None"
  shows "built s slots (Some N)"
proof -
  have len: "length slots = 32" using slots by (simp add: slots_ok_def)
  have i: "d7_hamt_index hN s < 32" by (rule d7_hamt_index_less)
  note ln = look_hash_node [OF N]
  obtain x where x: "slots ! d7_hamt_index hN s = Some x" "node_addr x = node_addr N"
    using same [OF i] by (auto simp: same_ptr_def)
  have "slots ! d7_hamt_index hN s \<in> set slots" using i len by simp
  then have "x \<in> S" using sub(2) [of "slots ! d7_hamt_index hN s"] x(1) self_in_subnodes [of x] by auto
  moreover have "N \<in> S" using sub(1) self_in_subnodes [of N] by auto
  ultimately have slot: "slots ! d7_hamt_index hN s = Some N" using heap_same [OF heap _ _ x(2)] x(1) by simp
  have "same_entry Rk Rv (look p N h s k) (look_opt p (slots ! d7_hamt_index h s) h (s + 5) k)" for h k
  proof (cases "d7_hamt_index h s = d7_hamt_index hN s")
    case True
    then show ?thesis using slot ln(1) [of h s k "s + 5"] by simp
  next
    case False
    then have "slots ! d7_hamt_index h s = None" using same [OF d7_hamt_index_less, of h s] by simp
    then show ?thesis using ln(3) [of h s k] False by auto
  qed
  moreover have "hashes_opt (Some N) \<subseteq> (\<Union>x\<in>set slots. hashes_opt x)"
    using slot i len by (metis SUP_upper nth_mem)
  ultimately show ?thesis using wf by (simp add: built_def)
qed

lemma build_spec:
  assumes heap: "heap S t" and sub: "subnodes N \<subseteq> S" "\<And>x. x \<in> set slots \<Longrightarrow> subnodes_opt x \<subseteq> S"
    and slots: "slots_ok s slots" and wf: "wf_node p s N" and keys: "keys_kept slots N"
  shows "achieves E (failing_requests E p) t (d7_hamt_build_logical_node p slots N s)
    (\<lambda>r t'. built s slots r \<and> heap (S \<union> subnodes_opt r) t')"
proof -
  have "\<exists>same. d7_hamt_logical_slots_match p slots N s = Inr same \<and> (same \<longrightarrow> built s slots (Some N))"
  proof (cases "d7_hamt_hash_node_hash N")
    case None
    then obtain a dm nm data children n where N: "N = Bitmap_Indexed a dm nm data children n" by (cases N) auto
    show ?thesis
      unfolding N slots_match_bitmap [OF wf [unfolded N]]
      using built_unchanged_bitmap [OF heap sub slots N wf keys, unfolded N] by simp
  next
    case (Some hN)
    then have "d7_hamt_logical_slots_match p slots N s = Inr (\<forall>i\<in>set [0..<32].
        if i = d7_hamt_index hN s then same_ptr (slots ! i) (Some N) else slots ! i = None)"
      by (cases N) (simp_all add: check_all_total del: set_upt)
    then show ?thesis using built_unchanged_hash [OF heap sub slots Some wf] by simp
  qed
  then obtain same where same: "d7_hamt_logical_slots_match p slots N s = Inr same" "same \<longrightarrow> built s slots (Some N)"
    by blast
  obtain dm nm data ch where g: "gather_slots 0 slots (0, 0, [], []) = (dm, nm, data, ch)"
    using prod_cases4 by blast
  have len: "length slots = 32" using slots by (simp add: slots_ok_def)
  have kids: "subnodes c \<subseteq> S" if c: "c \<in> set ch" for c
  proof -
    obtain i where "i < 32" "sparse nm ch i = Some c" using in_set_sparse [OF c gather_all_slots(2) [OF g len]] by blast
    then have "slot_child (slots ! i) = Some c" "slots ! i \<in> set slots" using gather_all_slots(4) [OF g len, of i] len by auto
    then show ?thesis using sub(2) [of "slots ! i"] by (cases "slots ! i" rule: slot_cases) (auto simp: slot_contents_not_leaf)
  qed
  have eq: "d7_hamt_build_logical_node p slots N s =
      (if same then ret (Some N) else d7_hamt_bitmap_rebuild p dm nm data ch)"
    by (auto simp: d7_hamt_build_logical_node_def same(1) g andthen_def lift_res_def fun_eq_iff)
  show ?thesis
    unfolding eq
    using same(2) heap sub(1) built_gathered [OF slots g] rebuild_spec [OF heap kids gathered_wf [OF slots g], of E]
    by (auto simp: Un_absorb2 intro!: achieves_ret elim!: achieves_weaken)
qed

section \<open>Combining\<close>

text \<open>The hashes below two nodes agree up to level \<open>s\<close>.\<close>

definition agree :: "nat \<Rightarrow> ('k, 'v) d7_hamt_node option \<Rightarrow> ('k, 'v) d7_hamt_node option \<Rightarrow> bool" where
  "agree s l r \<longleftrightarrow> (\<forall>h\<in>hashes_opt l. \<forall>h'\<in>hashes_opt r. take_bit s h = take_bit s h')"

definition combine_ok ::
  "nat \<Rightarrow> d7_hamt_combine_operation \<Rightarrow> ('k, 'v) d7_hamt_node option \<Rightarrow> ('k, 'v) d7_hamt_node option
     \<Rightarrow> ('k, 'v) d7_hamt_node option \<Rightarrow> bool" where
  "combine_ok s op l r x \<longleftrightarrow> wf_opt p s x \<and> hashes_opt x \<subseteq> hashes_opt l \<union> hashes_opt r \<and>
     (\<forall>h k. same_entry Rk Rv (look_opt p x h s k) (combined p op (look_opt p l h s k) (look_opt p r h s k)))"

definition grown :: "('k, 'v) d7_hamt_node set \<Rightarrow> ('k, 'v) d7_hamt_node set \<Rightarrow> nat \<Rightarrow> bool" where
  "grown S X t \<longleftrightarrow> (\<exists>S'. S \<subseteq> S' \<and> X \<subseteq> S' \<and> heap S' t)"

lemma combine_ok_self:
  assumes "wf_opt p s l"
  shows "combine_ok s op l l (if op = D7_HAMT_COMBINE_UNION \<or> op = D7_HAMT_COMBINE_INTERSECT then l else None)"
proof -
  have "same_entry Rk Rv (look_opt p (if op = D7_HAMT_COMBINE_UNION \<or> op = D7_HAMT_COMBINE_INTERSECT then l else None) h s k)
      (combined p op (look_opt p l h s k) (look_opt p l h s k))" for h k
    by (cases op; cases "look_opt p l h s k") (auto simp: entry_rel_def)
  then show ?thesis using assms by (auto simp: combine_ok_def)
qed

lemma combine_ok_one_sided:
  "wf_opt p s r \<Longrightarrow> combine_ok s op None r
     (if op = D7_HAMT_COMBINE_UNION \<or> op = D7_HAMT_COMBINE_SYMMETRIC_EXCEPT then r else None)"
  "wf_opt p s l \<Longrightarrow> combine_ok s op l None (if op = D7_HAMT_COMBINE_INTERSECT then None else l)"
  by (auto simp: combine_ok_def)

lemma look_hash_entries:
  assumes "d7_hamt_hash_node_hash n = Some hn"
  shows "look p n h s k = (if hn = h then find (entry_matches p k) (hash_node_entries n) else None)"
    and "wf_node p s n \<Longrightarrow> distinct_keys p (hash_node_entries n)"
    and "wf_node p s n \<Longrightarrow> \<forall>e\<in>set (hash_node_entries n). d7_hamt_get_hash p (entry_key e) = hn"
  using assms by (cases n; auto simp: entry_matches_def)+

lemma combine_same_hash:
  assumes heap: "heap S t" and sub: "subnodes l \<subseteq> S"
    and l: "d7_hamt_hash_node_hash l = Some h" "wf_node p s l"
    and r: "d7_hamt_hash_node_hash r = Some h" "wf_node p s r"
  shows "achieves E (failing_requests E p) t (d7_hamt_combine_hash_nodes p l r s op)
    (\<lambda>x t'. combine_ok s op (Some l) (Some r) x \<and> grown S (subnodes_opt x) t')"
proof -
  let ?es = "combine_entries p op (hash_node_entries l) (hash_node_entries r)"
  note le = look_hash_entries [OF l(1)] and re = look_hash_entries [OF r(1)]
  have es: "distinct_keys p ?es" "\<forall>e\<in>set ?es. d7_hamt_get_hash p (entry_key e) = h"
    using combine_entries_distinct combine_entries_hash le(2,3) [OF l(2)] re(2,3) [OF r(2)] by blast+
  have comb: "combined p op (look p l h' s k) (look p r h' s k) = (if h = h' then find (entry_matches p k) ?es else None)" for h' k
    using combine_entries_find [OF le(2) [OF l(2)], of k op] by (simp add: le(1) re(1))
  have run: "combine_ok s op (Some l) (Some r) x" if "holds_run s h ?es x" for x
    using that look_hash_node(2) [OF l(1)] by (auto simp: combine_ok_def holds_run_def comb)
  have eq: "d7_hamt_combine_hash_nodes p l r s op =
      andthen d7_hamt_allocate (\<lambda>_. if matches_left p (hash_node_entries l) ?es then ret (Some l)
         else d7_hamt_hash_result_create p h ?es)"
    using l(1) r(1) by (subst d7_hamt_combine_hash_nodes.simps) (simp add: Let_def)
  show ?thesis
    unfolding eq
  proof (rule achieves_andthen [OF achieves_alloc [where Q = "\<lambda>_ t'. t' = Suc t"]], simp)
    fix a t1 assume "t1 = Suc t"
    then have heap1: "heap S t1" using heap by (auto elim: heap_later)
    show "achieves E (failing_requests E p) t1
       (if matches_left p (hash_node_entries l) ?es then ret (Some l) else d7_hamt_hash_result_create p h ?es)
       (\<lambda>x t'. combine_ok s op (Some l) (Some r) x \<and> grown S (subnodes_opt x) t')"
    proof (cases "matches_left p (hash_node_entries l) ?es")
      case True
      from matches_left_related [OF True]
      have "same_entry Rk Rv (look p l h' s k) (if h = h' then find (entry_matches p k) ?es else None)" for h' k
        using find_related [of "hash_node_entries l" ?es k] by (simp add: le(1))
      then have "combine_ok s op (Some l) (Some r) (Some l)" using l(2) by (auto simp: combine_ok_def comb)
      then show ?thesis using True heap1 sub by (auto simp: grown_def intro!: achieves_ret)
    next
      case False
      then show ?thesis
        using run unfolding if_not_P [OF False]
        by (intro achieves_weaken [OF hash_result_create_spec [OF heap1 es, where s = s]]) (auto simp: grown_def)
    qed
  qed
qed

lemma built_combine:
  assumes "built s slots x" and len: "length slots = 32"
    and "\<And>i. i < 32 \<Longrightarrow> hashes_opt (slots ! i) \<subseteq> hashes_opt l \<union> hashes_opt r"
    and "\<And>h k. same_entry Rk Rv (look_opt p (slots ! d7_hamt_index h s) h (s + 5) k)
           (combined p op (look_opt p l h s k) (look_opt p r h s k))"
  shows "combine_ok s op l r x"
proof -
  have "(\<Union>x\<in>set slots. hashes_opt x) \<subseteq> hashes_opt l \<union> hashes_opt r"
    using assms(3) len by (auto simp: set_conv_nth)
  moreover have "same_entry Rk Rv (look_opt p x h s k) (combined p op (look_opt p l h s k) (look_opt p r h s k))" for h k
    using assms(1) unfolding built_def by (intro found_trans [OF _ assms(4)]) blast
  ultimately show ?thesis using assms(1) unfolding built_def combine_ok_def by blast
qed

lemma keys_kept_hash: "d7_hamt_hash_node_hash n = Some h \<Longrightarrow> keys_kept slots n"
  by (auto simp: keys_kept_def)

lemma combine_hash_spec:
  assumes "heap S t" and "subnodes l \<subseteq> S" "subnodes r \<subseteq> S"
    and "d7_hamt_hash_node_hash l = Some hl" "wf_node p s l"
    and "d7_hamt_hash_node_hash r = Some hr" "wf_node p s r"
    and "agree s (Some l) (Some r)"
  shows "achieves E (failing_requests E p) t (d7_hamt_combine_hash_nodes p l r s op)
    (\<lambda>x t'. combine_ok s op (Some l) (Some r) x \<and> grown S (subnodes_opt x) t')"
  using assms
proof (induction "37 - s" arbitrary: s t rule: less_induct)
  case less
  note heap = less.prems(1) and sub = less.prems(2,3) and l = less.prems(4,5) and r = less.prems(6,7)
  note ln = look_hash_node [OF l(1)] and rn = look_hash_node [OF r(1)]
  let ?B = "failing_requests E p" and ?li = "d7_hamt_index hl s" and ?ri = "d7_hamt_index hr s"
  show ?case
  proof (cases "hl = hr")
    case True
    then show ?thesis using combine_same_hash [OF heap sub(1) l _ r(2)] r(1) by simp
  next
    case ne: False
    have disj: "look p l h s k = None \<or> look p r h s k = None" for h k
      using ne ln(3) [of h s k] rn(3) [of h s k] by (cases "h = hl") auto
    have s: "s < 32"
      using ne less.prems(8) ln(2) rn(2) take_bit_32_eq [of s hl hr] by (auto simp: agree_def)
    consider (inter) "op = D7_HAMT_COMBINE_INTERSECT" | (exc) "op = D7_HAMT_COMBINE_EXCEPT"
      | (both) "op = D7_HAMT_COMBINE_UNION \<or> op = D7_HAMT_COMBINE_SYMMETRIC_EXCEPT"
      by (cases op) auto
    then show ?thesis
    proof cases
      case inter
      have "combined p op (look p l h s k) (look p r h s k) = None" for h k
        using inter disj [of h k] by auto
      then have "combine_ok s op (Some l) (Some r) None" by (simp add: combine_ok_def)
      then show ?thesis
        using inter ne l r heap by (subst d7_hamt_combine_hash_nodes.simps) (auto simp: grown_def intro!: achieves_ret)
    next
      case exc
      have "same_entry Rk Rv (look p l h s k) (combined p op (look p l h s k) (look p r h s k))" for h k
        using exc disj [of h k] by (cases "look p l h s k"; cases "look p r h s k") auto
      then have "combine_ok s op (Some l) (Some r) (Some l)"
        using l(2) by (auto simp: combine_ok_def)
      then show ?thesis
        using exc ne l r heap sub by (subst d7_hamt_combine_hash_nodes.simps) (auto simp: grown_def intro!: achieves_ret)
    next
      case both
      have comb: "combined p op x y = (case x of None \<Rightarrow> y | Some _ \<Rightarrow> x)" if "x = None \<or> y = None" for x y
        using that both by (cases x; cases y) auto
      have eq: "d7_hamt_combine_hash_nodes p l r s op =
          andthen (if ?li \<noteq> ?ri then ret ((replicate 32 None)[?li := Some l, ?ri := Some r])
             else andthen (d7_hamt_combine_hash_nodes p l r (s + 5) op) (\<lambda>x. ret ((replicate 32 None)[?li := x])))
            (\<lambda>slots. d7_hamt_build_logical_node p slots l s)"
        using both ne l r s by (subst d7_hamt_combine_hash_nodes.simps) (auto simp: Let_def)
      have i: "?li < 32" "?ri < 32" by (simp_all add: d7_hamt_index_less)
      have finish: "achieves E ?B t1 (d7_hamt_build_logical_node p slots l s)
          (\<lambda>x t'. combine_ok s op (Some l) (Some r) x \<and> grown S (subnodes_opt x) t')"
        if ok: "slots_ok s slots" and S': "heap S' t1" "S \<subseteq> S'" "\<And>x. x \<in> set slots \<Longrightarrow> subnodes_opt x \<subseteq> S'"
          and hs: "\<And>i. i < 32 \<Longrightarrow> hashes_opt (slots ! i) \<subseteq> {hl, hr}"
          and lk: "\<And>h k. same_entry Rk Rv (look_opt p (slots ! d7_hamt_index h s) h (s + 5) k)
             (combined p op (look p l h s k) (look p r h s k))" for slots S' t1
      proof -
        have "combine_ok s op (Some l) (Some r) x" if "built s slots x" for x
          by (rule built_combine [OF that]) (use ok hs lk in \<open>auto simp: slots_ok_def ln(2) rn(2)\<close>)
        moreover have "subnodes l \<subseteq> S'" using sub(1) S'(2) by blast
        ultimately show ?thesis
          using S'(2) by (intro achieves_weaken [OF build_spec [OF S'(1) _ S'(3) ok l(2) keys_kept_hash [OF l(1)]]])
             (auto simp: grown_def intro: exI [where x = "S' \<union> _"])
      qed
      show ?thesis
      proof (cases "?li = ?ri")
        case False
        let ?slots = "(replicate 32 None)[?li := Some l, ?ri := Some r]"
        have nth: "?slots ! j = (if j = ?ri then Some r else if j = ?li then Some l else None)" if "j < 32" for j
          using that i False by (auto simp: nth_list_update)
        have ok: "slots_ok s ?slots"
          unfolding slots_ok_def using s nth ln(2) rn(2) ln(5) [OF l(2)] rn(5) [OF r(2)] by auto
        have sub': "subnodes_opt x \<subseteq> S" if "x \<in> set ?slots" for x
        proof -
          have "x \<in> {Some r, Some l, None}"
            using that set_update_subset_insert [of "(replicate 32 None)[?li := Some l]" ?ri "Some r"]
              set_update_subset_insert [of "replicate 32 None" ?li "Some l"] by auto
          then show ?thesis using sub by auto
        qed
        have lk: "same_entry Rk Rv (look_opt p (?slots ! d7_hamt_index h s) h (s + 5) k)
             (combined p op (look p l h s k) (look p r h s k))" for h k
        proof -
          have shift: "look p l h (s + 5) k = look p l h s k" "look p r h (s + 5) k = look p r h s k"
            using ln(1) rn(1) by blast+
          have "look p l h s k = None" if "d7_hamt_index h s \<noteq> ?li" using that ln(3) [of h s k] by auto
          moreover have "look p r h s k = None" if "d7_hamt_index h s \<noteq> ?ri" using that rn(3) [of h s k] by auto
          ultimately show ?thesis
            unfolding nth [OF d7_hamt_index_less] comb [OF disj] using False shift
            by (cases "d7_hamt_index h s = ?li"; cases "d7_hamt_index h s = ?ri") (auto split: option.split)
        qed
        have "achieves E ?B t (d7_hamt_build_logical_node p ?slots l s)
          (\<lambda>x t'. combine_ok s op (Some l) (Some r) x \<and> grown S (subnodes_opt x) t')"
          by (rule finish [OF ok heap order_refl sub' _ lk]) (auto simp: nth ln(2) rn(2))
        then show ?thesis unfolding eq using False by (simp add: andthen_def ret_def achieves_def)
      next
        case True
        have IH: "achieves E ?B t (d7_hamt_combine_hash_nodes p l r (s + 5) op)
          (\<lambda>x t'. combine_ok (s + 5) op (Some l) (Some r) x \<and> grown S (subnodes_opt x) t')"
          using less.prems s True ln(2,5) rn(2,5)
          by (intro less.hyps) (auto simp: agree_def take_bit_index_step)
        have eq': "d7_hamt_combine_hash_nodes p l r s op =
          andthen (d7_hamt_combine_hash_nodes p l r (s + 5) op)
            (\<lambda>x. d7_hamt_build_logical_node p ((replicate 32 None)[?li := x]) l s)"
          unfolding eq using True by (auto simp: andthen_def ret_def fun_eq_iff split: prod.split sum.split)
        show ?thesis
          unfolding eq'
        proof (rule achieves_andthen [OF IH], elim conjE)
          fix x t1 assume x: "combine_ok (s + 5) op (Some l) (Some r) x" and "grown S (subnodes_opt x) t1"
          then obtain S' where S': "S \<subseteq> S'" "subnodes_opt x \<subseteq> S'" "heap S' t1" by (auto simp: grown_def)
          let ?slots = "(replicate 32 None)[?li := x]"
          have nth: "?slots ! j = (if j = ?li then x else None)" if "j < 32" for j
            using that i by (auto simp: nth_list_update)
          have xh: "hashes_opt x \<subseteq> {hl, hr}" using x ln(2) rn(2) by (auto simp: combine_ok_def)
          have ok: "slots_ok s ?slots"
            unfolding slots_ok_def using s nth xh x True by (auto simp: combine_ok_def)
          have sub': "subnodes_opt y \<subseteq> S'" if "y \<in> set ?slots" for y
          proof -
            have "y \<in> {x, None}" using that set_update_subset_insert [of "replicate 32 None" ?li x] by auto
            then show ?thesis using S'(2) by auto
          qed
          have lk: "same_entry Rk Rv (look_opt p (?slots ! d7_hamt_index h s) h (s + 5) k)
             (combined p op (look p l h s k) (look p r h s k))" for h k
          proof (cases "d7_hamt_index h s = ?li")
            case idx: True
            have "same_entry Rk Rv (look_opt p x h (s + 5) k) (combined p op (look p l h (s + 5) k) (look p r h (s + 5) k))"
              using x by (simp add: combine_ok_def)
            then show ?thesis
              using idx ln(1) [of h s k "s + 5"] rn(1) [of h s k "s + 5"] by (simp add: nth [OF d7_hamt_index_less])
          next
            case False
            then have "look p l h s k = None" "look p r h s k = None"
              using True ln(3) [of h s k] rn(3) [of h s k] by auto
            then show ?thesis unfolding nth [OF d7_hamt_index_less] using False by simp
          qed
          show "achieves E ?B t1 (d7_hamt_build_logical_node p ?slots l s)
            (\<lambda>x t'. combine_ok s op (Some l) (Some r) x \<and> grown S (subnodes_opt x) t')"
            by (rule finish [OF ok S'(3,1) sub' _ lk]) (use xh in \<open>auto simp: nth\<close>)
        qed
      qed
    qed
  qed
qed

lemma grown_refl: "heap S t \<Longrightarrow> X \<subseteq> S \<Longrightarrow> grown S X t"
  by (auto simp: grown_def)

lemma grown_new: "heap (S \<union> X) t \<Longrightarrow> grown S X t"
  by (auto simp: grown_def)

text \<open>\<open>x\<close> is the part of \<open>n\<close> that slot \<open>i\<close> at shift \<open>s\<close> selects.\<close>

definition slot_part :: "nat \<Rightarrow> ('k, 'v) d7_hamt_node \<Rightarrow> nat \<Rightarrow> ('k, 'v) d7_hamt_node option \<Rightarrow> bool" where
  "slot_part s n i x \<longleftrightarrow> wf_opt p (s + 5) x \<and>
     hashes_opt x \<subseteq> {h \<in> node_hashes n. d7_hamt_index h s = i} \<and>
     (\<forall>h k. d7_hamt_index h s = i \<longrightarrow> same_entry Rk Rv (look_opt p x h (s + 5) k) (look p n h s k))"

lemma logical_slot_spec:
  assumes heap: "heap S t" and sub: "subnodes n \<subseteq> S" and wf: "wf_node p s n" and i: "i < 32"
  shows "achieves E (failing_requests E p) t (d7_hamt_logical_slot p (Some n) i s)
    (\<lambda>x t'. slot_part s n i x \<and> grown S (subnodes_opt x) t')"
proof (cases "d7_hamt_hash_node_hash n")
  case (Some hn)
  note ln = look_hash_node [OF Some]
  let ?x = "if d7_hamt_index hn s = i then Some n else None"
  have "look p n h s k = None" if "d7_hamt_index hn s \<noteq> d7_hamt_index h s" for h k
    using ln(3) [of h s k] that by auto
  then have "slot_part s n i ?x"
    using ln(2) ln(5) [OF wf] ln(1) [of _ s _ "s + 5"] by (auto simp: slot_part_def)
  moreover have "d7_hamt_logical_slot p (Some n) i s = ret ?x" using Some by (cases n) auto
  ultimately show ?thesis
    using heap sub by (auto intro!: achieves_ret grown_refl)
next
  case None
  then obtain a dm nm data children c where n: "n = Bitmap_Indexed a dm nm data children c" by (cases n) auto
  have dense: "dense dm data" "dense nm children" and wfs: "wf_slots p s dm nm data children"
    using wf unfolding n wf_bitmap_slots by (simp_all add: wf_slots_def)
  have slot: "slot_ok p s i (sparse dm data i) (sparse nm children i)" using wfs by (simp add: wf_slots_def)
  note rd = slot_reads [OF dense(1) i] slot_reads [OF dense(2) i]
  have look: "look p n h s k = look_slot p (sparse dm data i) (sparse nm children i) h s k" if "d7_hamt_index h s = i" for h k
    using that unfolding n look_bitmap_slot by simp
  show ?thesis
  proof (cases "sparse dm data i")
    case (Some e)
    have e: "e \<in> set data" using Some by (rule sparse_Some_in_set)
    have "slot_part s n i (Some (Leaf b (inline_hash e) k v))"
      if k: "Rk (entry_key (inline_entry e)) k" and v: "Rv (entry_value (inline_entry e)) v" for b k v
      using slot e look Rk_hash [OF k] keq_left [OF Rk_keq [OF k]] Rk_sym [OF k] Rv_sym [OF v]
      by (auto simp: slot_part_def slot_ok_def Some look_slot_def inline_match_def entry_matches_def entry_rel_def n)
    then show ?thesis
      unfolding n d7_hamt_logical_slot.simps Let_def using Some rd heap
      by (auto intro!: achieves_andthen [OF leaf_create_spec] achieves_ret grown_new simp flip: n)
  next
    case none: None
    show ?thesis
    proof (cases "sparse nm children i")
      case None
      have "slot_part s n i None" using look none None by (simp add: slot_part_def look_slot_def)
      then show ?thesis
        using rd none None heap by (auto simp: n Let_def intro!: achieves_ret grown_refl)
    next
      case (Some m)
      have m: "m \<in> set children" using Some by (rule sparse_Some_in_set)
      have "slot_part s n i (Some m)"
        using slot m look none by (auto simp: slot_part_def slot_ok_def Some look_slot_def n simp del: look.simps)
      moreover have "subnodes m \<subseteq> S" using sub m by (auto simp: n)
      ultimately show ?thesis
        using rd none Some heap by (auto simp: n Let_def intro!: achieves_ret grown_refl)
    qed
  qed
qed

lemma combine_slots:
  assumes l: "slot_part s L i l" and r: "slot_part s R i r" and x: "combine_ok (s + 5) op l r x"
  shows "wf_opt p (s + 5) x" and "hashes_opt x \<subseteq> {h \<in> node_hashes L \<union> node_hashes R. d7_hamt_index h s = i}"
    and "d7_hamt_index h s = i \<Longrightarrow> same_entry Rk Rv (look_opt p x h (s + 5) k)
           (combined p op (look p L h s k) (look p R h s k))"
proof -
  show "wf_opt p (s + 5) x" using x by (simp add: combine_ok_def)
  show "hashes_opt x \<subseteq> {h \<in> node_hashes L \<union> node_hashes R. d7_hamt_index h s = i}"
    using l r x unfolding slot_part_def combine_ok_def by blast
  assume "d7_hamt_index h s = i"
  then have "same_entry Rk Rv (combined p op (look_opt p l h (s + 5) k) (look_opt p r h (s + 5) k))
      (combined p op (look p L h s k) (look p R h s k))"
    using l r by (intro combined_related) (simp_all add: slot_part_def)
  moreover have "same_entry Rk Rv (look_opt p x h (s + 5) k)
      (combined p op (look_opt p l h (s + 5) k) (look_opt p r h (s + 5) k))"
    using x by (simp add: combine_ok_def)
  ultimately show "same_entry Rk Rv (look_opt p x h (s + 5) k) (combined p op (look p L h s k) (look p R h s k))"
    using found_trans by blast
qed

lemma keys_kept_combined:
  assumes wf: "wf_node p s L" and len: "length slots = 32"
    and wfs: "\<And>i. i < 32 \<Longrightarrow> wf_opt p (s + 5) (slots ! i)"
    and look: "\<And>i h k. i < 32 \<Longrightarrow> d7_hamt_index h s = i \<Longrightarrow>
       same_entry Rk Rv (look_opt p (slots ! i) h (s + 5) k) (combined p op (look p L h s k) (look p R h s k))"
  shows "keys_kept slots L"
  unfolding keys_kept_def
proof (intro allI impI)
  fix a dm nm data ch n i e b h k v
  assume L: "L = Bitmap_Indexed a dm nm data ch n" and e: "sparse dm data i = Some e"
    and slot: "slots ! i = Some (Leaf b h k v)" and keq: "d7_hamt_keys_equal p k (entry_key (inline_entry e))"
  let ?k = "entry_key (inline_entry e)" and ?h = "inline_hash e"
  have i: "i < 32" using sparse_Some_bit [OF e] by simp
  have eh: "d7_hamt_get_hash p ?k = ?h" "d7_hamt_index ?h s = i"
    using wf e sparse_Some_in_set [OF e] by (auto simp: L)
  have h: "h = ?h" using wfs [OF i] slot keq_hash [OF keq] eh by simp
  have "look p L ?h s ?k = Some (inline_entry e)"
    using e eh by (simp add: L inline_match_def entry_matches_def)
  then have "same_entry Rk Rv (Some (Entry k v)) (combined p op (Some (inline_entry e)) (look p R ?h s ?k))"
    using look [OF i eh(2), of ?k] slot h keq by simp
  then obtain c where "combined p op (Some (inline_entry e)) (look p R ?h s ?k) = Some c" "Rk k (entry_key c)"
    by (cases rule: option.rel_cases) (auto simp: entry_rel_def)
  then show "Rk k ?k" using combined_left_key by metis
qed

lemma combine_nodes_spec:
  assumes "heap S t" and "subnodes_opt l \<subseteq> S" "subnodes_opt r \<subseteq> S"
    and "wf_opt p s l" "wf_opt p s r" and "agree s l r"
  shows "achieves E (failing_requests E p) t (d7_hamt_combine_nodes p l r s op)
    (\<lambda>x t'. combine_ok s op l r x \<and> grown S (subnodes_opt x) t')"
  using assms
proof (induction "weight_opt l + weight_opt r" arbitrary: l r s S t rule: less_induct)
  case less
  note heap = less.prems(1) and sub = less.prems(2,3) and wf = less.prems(4,5) and agree = less.prems(6)
  let ?B = "failing_requests E p" and ?Q = "\<lambda>x t'. combine_ok s op l r x \<and> grown S (subnodes_opt x) t'"
  consider (same) "same_ptr l r" | (left) "\<not> same_ptr l r" "l = None" | (right) "\<not> same_ptr l r" "l \<noteq> None" "r = None"
    | (hash) L R where "\<not> same_ptr l r" "l = Some L" "r = Some R" "\<not> is_bitmap L" "\<not> is_bitmap R"
    | (branch) L R where "\<not> same_ptr l r" "l = Some L" "r = Some R" "is_bitmap L \<or> is_bitmap R"
    by (cases l; cases r) auto
  then show ?case
  proof cases
    case same
    have "l = r"
    proof (cases l)
      case None
      then show ?thesis using same by (auto simp: same_ptr_def)
    next
      case (Some x)
      then obtain y where y: "r = Some y" "node_addr x = node_addr y" using same by (cases r) (auto simp: same_ptr_def)
      have "x \<in> S" "y \<in> S" using sub Some y self_in_subnodes by auto
      then show ?thesis using heap_same [OF heap _ _ y(2)] Some y(1) by simp
    qed
    then show ?thesis
      using same combine_ok_self [OF wf(1), of op] heap sub
      by (subst d7_hamt_combine_nodes.simps) (auto intro!: achieves_ret grown_refl)
  next
    case left
    then show ?thesis
      using combine_ok_one_sided(1) [OF wf(2), of op] heap sub
      by (subst d7_hamt_combine_nodes.simps) (auto intro!: achieves_ret grown_refl)
  next
    case right
    have eq: "d7_hamt_combine_nodes p l r s op = ret (if op = D7_HAMT_COMBINE_INTERSECT then None else l)"
      using right by (subst d7_hamt_combine_nodes.simps) auto
    have "grown S (subnodes_opt (if op = D7_HAMT_COMBINE_INTERSECT then None else l)) t"
      by (rule grown_refl [OF heap]) (use sub(1) in simp)
    then show ?thesis
      unfolding eq using combine_ok_one_sided(2) [OF wf(1), of op] right(3) by (intro achieves_ret) simp
  next
    case hash
    obtain hl hr where h: "d7_hamt_hash_node_hash L = Some hl" "d7_hamt_hash_node_hash R = Some hr"
      using hash by (cases L; cases R) auto
    have "achieves E ?B t (d7_hamt_combine_hash_nodes p L R s op)
        (\<lambda>x t'. combine_ok s op (Some L) (Some R) x \<and> grown S (subnodes_opt x) t')"
      using heap sub wf agree h hash by (intro combine_hash_spec) auto
    then show ?thesis using hash by (subst d7_hamt_combine_nodes.simps) simp
  next
    case branch
    have wfn: "wf_node p s L" "wf_node p s R" using wf branch by simp_all
    have s: "s < 32" using wfn branch(4) by (cases L; cases R) auto
    define step where "step = (\<lambda>i. andthen (d7_hamt_logical_slot p (Some L) i s) (\<lambda>left_slot.
        andthen (d7_hamt_logical_slot p (Some R) i s) (\<lambda>right_slot.
        d7_hamt_combine_nodes p left_slot right_slot (s + 5) op)))"
    define good where "good = (\<lambda>i x. \<exists>ls rs. slot_part s L i ls \<and> slot_part s R i rs \<and> combine_ok (s + 5) op ls rs x)"
    define I where "I = (\<lambda>is xs t'. list_all2 good is xs \<and> grown S (\<Union>x\<in>set xs. subnodes_opt x) t')"
    have eq: "d7_hamt_combine_nodes p l r s op =
        andthen (map_act step [0..<32]) (\<lambda>slots. d7_hamt_build_logical_node p slots L s)"
      using branch by (subst d7_hamt_combine_nodes.simps) (auto simp: step_def)
    have one: "achieves E ?B t1 (step i) (\<lambda>x t'. good i x \<and> grown S' (subnodes_opt x) t')"
      if i: "i < 32" and h1: "heap S' t1" "S \<subseteq> S'" for i S' t1
      unfolding step_def
    proof (rule achieves_andthen_run [OF logical_slot_spec [OF h1(1) _ wfn(1) i]], use sub(1) branch(2) h1(2) in auto)
      fix ls t2
      assume run1: "d7_hamt_logical_slot p (Some L) i s E t1 = (Inr ls, t2)"
        and ls: "slot_part s L i ls" and "grown S' (subnodes_opt ls) t2"
      then obtain S2 where S2: "S' \<subseteq> S2" "subnodes_opt ls \<subseteq> S2" "heap S2 t2" by (auto simp: grown_def)
      show "achieves E ?B t2 (andthen (d7_hamt_logical_slot p (Some R) i s) (\<lambda>right_slot.
          d7_hamt_combine_nodes p ls right_slot (s + 5) op)) (\<lambda>x t'. good i x \<and> grown S' (subnodes_opt x) t')"
      proof (rule achieves_andthen_run [OF logical_slot_spec [OF S2(3) _ wfn(2) i]], use sub(2) branch(3) h1(2) S2(1) in auto)
        fix rs t3
        assume run2: "d7_hamt_logical_slot p (Some R) i s E t2 = (Inr rs, t3)"
          and rs: "slot_part s R i rs" and "grown S2 (subnodes_opt rs) t3"
        then obtain S3 where S3: "S2 \<subseteq> S3" "subnodes_opt rs \<subseteq> S3" "heap S3 t3" by (auto simp: grown_def)
        have w: "weight_opt ls + weight_opt rs < weight_opt l + weight_opt r"
          using logical_slot_weight [OF run1] logical_slot_weight [OF run2] branch by auto
        have ag: "agree (s + 5) ls rs"
          using agree ls rs branch unfolding agree_def slot_part_def take_bit_index_step by fastforce
        have "achieves E ?B t3 (d7_hamt_combine_nodes p ls rs (s + 5) op)
            (\<lambda>x t'. combine_ok (s + 5) op ls rs x \<and> grown S3 (subnodes_opt x) t')"
          using ls rs S2 S3 ag by (intro less.hyps [OF w]) (auto simp: slot_part_def)
        then show "achieves E ?B t3 (d7_hamt_combine_nodes p ls rs (s + 5) op)
            (\<lambda>x t'. good i x \<and> grown S' (subnodes_opt x) t')"
        proof (rule achieves_weaken, elim conjE)
          fix x t' assume "combine_ok (s + 5) op ls rs x" and g: "grown S3 (subnodes_opt x) t'"
          then have "good i x" using ls rs unfolding good_def by blast
          moreover have "grown S' (subnodes_opt x) t'" using g S2(1) S3(1) by (auto simp: grown_def)
          ultimately show "good i x \<and> grown S' (subnodes_opt x) t'" ..
        qed
      qed
    qed
    have loop: "achieves E ?B t (map_act step [0..<32]) (I [0..<32])"
    proof (rule achieves_map_act_inv)
      show "I [] [] t" using heap by (auto simp: I_def grown_def)
      fix us i zs ys t'
      assume split: "[0..<32] = us @ i # zs" and inv: "I us ys t'"
      have i: "i < 32" using arg_cong [OF split, of set] by auto
      obtain S' where S': "S \<subseteq> S'" "(\<Union>x\<in>set ys. subnodes_opt x) \<subseteq> S'" "heap S' t'"
        using inv by (auto simp: I_def grown_def)
      show "achieves E ?B t' (step i) (\<lambda>y. I (us @ [i]) (ys @ [y]))"
      proof (rule achieves_weaken [OF one [OF i S'(3,1)]], elim conjE)
        fix y t'' assume "good i y" "grown S' (subnodes_opt y) t''"
        then show "I (us @ [i]) (ys @ [y]) t''"
        proof -
          have "list_all2 good (us @ [i]) (ys @ [y])"
            using inv \<open>good i y\<close> unfolding I_def by (intro list_all2_appendI) auto
          moreover obtain S'' where "S' \<subseteq> S''" "subnodes_opt y \<subseteq> S''" "heap S'' t''"
            using \<open>grown S' (subnodes_opt y) t''\<close> unfolding grown_def by blast
          then have "S \<subseteq> S'' \<and> (\<Union>x\<in>set (ys @ [y]). subnodes_opt x) \<subseteq> S'' \<and> heap S'' t''" using S' by auto
          then have "grown S (\<Union>x\<in>set (ys @ [y]). subnodes_opt x) t''" unfolding grown_def by blast
          ultimately show ?thesis unfolding I_def ..
        qed
      qed
    qed
    show ?thesis
      unfolding eq
    proof (rule achieves_andthen [OF loop])
      fix slots t1 assume inv: "I [0..<32] slots t1"
      have len: "length slots = 32" using inv by (auto simp: I_def dest: list_all2_lengthD)
      have good: "good i (slots ! i)" if "i < 32" for i
        using inv that by (auto simp: I_def list_all2_conv_all_nth)
      obtain S' where S': "S \<subseteq> S'" "(\<Union>x\<in>set slots. subnodes_opt x) \<subseteq> S'" "heap S' t1"
        using inv by (auto simp: I_def grown_def)
      have part: "wf_opt p (s + 5) (slots ! i)"
        "hashes_opt (slots ! i) \<subseteq> {h \<in> node_hashes L \<union> node_hashes R. d7_hamt_index h s = i}"
        "\<And>h k. d7_hamt_index h s = i \<Longrightarrow> same_entry Rk Rv (look_opt p (slots ! i) h (s + 5) k)
             (combined p op (look p L h s k) (look p R h s k))" if i: "i < 32" for i
      proof -
        obtain ls rs where g: "slot_part s L i ls" "slot_part s R i rs" "combine_ok (s + 5) op ls rs (slots ! i)"
          using good [OF i] unfolding good_def by blast
        note cs = combine_slots [OF g]
        show "wf_opt p (s + 5) (slots ! i)"
          "hashes_opt (slots ! i) \<subseteq> {h \<in> node_hashes L \<union> node_hashes R. d7_hamt_index h s = i}"
          "\<And>h k. d7_hamt_index h s = i \<Longrightarrow> same_entry Rk Rv (look_opt p (slots ! i) h (s + 5) k)
             (combined p op (look p L h s k) (look p R h s k))"
          by (rule cs(1), rule cs(2), rule cs(3))
      qed
      have ok: "slots_ok s slots" using len s part(1,2) unfolding slots_ok_def by blast
      have keys: "keys_kept slots L" using keys_kept_combined [OF wfn(1) len part(1,3)] .
      have fin: "combine_ok s op l r x" if "built s slots x" for x
        unfolding branch(2,3)
        by (rule built_combine [OF that len]) (use part(2,3) d7_hamt_index_less in \<open>auto simp: subset_iff\<close>)
      have subL: "subnodes L \<subseteq> S'" using sub(1) branch(2) S'(1) by auto
      have subs: "subnodes_opt x \<subseteq> S'" if "x \<in> set slots" for x using S'(2) that by blast
      show "achieves E ?B t1 (d7_hamt_build_logical_node p slots L s) ?Q"
      proof (rule achieves_weaken [OF build_spec [OF S'(3) subL _ ok wfn(1) keys]], rule subs, assumption, elim conjE)
        fix x t' assume x: "built s slots x" "heap (S' \<union> subnodes_opt x) t'"
        have "S \<subseteq> S' \<union> subnodes_opt x \<and> subnodes_opt x \<subseteq> S' \<union> subnodes_opt x" using S'(1) by blast
        then have "grown S (subnodes_opt x) t'" using x(2) unfolding grown_def by blast
        then show "combine_ok s op l r x \<and> grown S (subnodes_opt x) t'" using fin [OF x(1)] by simp
      qed
    qed
  qed
qed

end

end
