(* ===== verification/Hamt_Iterator.thy ===== *)
theory Hamt_Iterator
  imports Hamt_Map
begin

text \<open>
  The entries of a trie in iteration order, and the iterator of \<open>hamt.c\<close> with its explicit stack of
  at most seven frames. The list \<open>entries\<close> of a well-formed node holds every binding once, so the
  cached counts are exact; the iterator produces this list, one entry per call, and never needs an
  eighth frame.
\<close>

section \<open>The entries of a node\<close>

definition entries_opt :: "('k, 'v) d7_hamt_node option \<Rightarrow> ('k, 'v) d7_hamt_entry list" where
  "entries_opt r = (case r of None \<Rightarrow> [] | Some n \<Rightarrow> entries n)"

lemma entries_opt_simps [simp]: "entries_opt None = []" "entries_opt (Some n) = entries n"
  by (simp_all add: entries_opt_def)

lemma length_entries: "wf_node p s n \<Longrightarrow> length (entries n) = subtree_count n"
proof (induction n arbitrary: s)
  case (Bitmap_Indexed a dm nm data children n)
  have "map (\<lambda>c. length (entries c)) children = map subtree_count children"
    using Bitmap_Indexed by (intro map_cong) auto
  then show ?case
    using Bitmap_Indexed.prems by (simp add: length_concat bitmap_count_def comp_def del: map_eq_conv)
qed auto

lemma look_in_entries: "look p n h s k = Some e \<Longrightarrow> e \<in> set (entries n)"
proof (induction n arbitrary: s)
  case (Collision a h0 es)
  then show ?case by (auto simp: find_Some_iff split: if_splits)
next
  case (Bitmap_Indexed a dm nm data children n)
  then show ?case
    by (auto simp: inline_match_def split: option.splits if_splits dest!: sparse_Some_in_set)
qed (auto split: if_splits)

lemma entries_hash:
  "wf_node p s n \<Longrightarrow> e \<in> set (entries n) \<Longrightarrow> d7_hamt_get_hash p (entry_key e) \<in> node_hashes n"
proof (induction n arbitrary: s)
  case (Bitmap_Indexed a dm nm data children n)
  then show ?case by fastforce
qed auto

lemma find_unique:
  assumes "distinct_keys p es" "e \<in> set es" "\<And>a b. d7_hamt_keys_equal p a b \<Longrightarrow> d7_hamt_keys_equal p b a"
    and "d7_hamt_keys_equal p (entry_key e) (entry_key e)"
  shows "find (entry_matches p (entry_key e)) es = Some e"
  using assms by (induction es) (auto simp: entry_matches_def)

context hamt_policy
begin

lemma entries_look:
  "wf_node p s n \<Longrightarrow> e \<in> set (entries n) \<Longrightarrow>
     look p n (d7_hamt_get_hash p (entry_key e)) s (entry_key e) = Some e"
proof (induction n arbitrary: s)
  case (Collision a h es)
  then show ?case using find_unique [of p es e] keq_sym by auto
next
  case (Bitmap_Indexed a dm nm data children n)
  let ?h = "d7_hamt_get_hash p (entry_key e)"
  have dense: "dense dm data" "dense nm children" using Bitmap_Indexed.prems by simp_all
  from Bitmap_Indexed.prems(2) consider (data) x where "x \<in> set data" "e = inline_entry x"
    | (child) c where "c \<in> set children" "e \<in> set (entries c)" by auto
  then show ?case
  proof cases
    case data
    obtain i where i: "sparse dm data i = Some x" using in_set_sparse [OF data(1) dense(1)] by blast
    have "inline_hash x = ?h" "d7_hamt_index (inline_hash x) s = i"
      using Bitmap_Indexed.prems(1) data i by auto
    then show ?thesis using i data by (simp add: inline_match_def entry_matches_def)
  next
    case child
    obtain i where i: "sparse nm children i = Some c" using in_set_sparse [OF child(1) dense(2)] by blast
    have c: "wf_node p (s + 5) c" using Bitmap_Indexed.prems(1) child(1) by simp
    have "d7_hamt_index ?h s = i"
      using Bitmap_Indexed.prems(1) i entries_hash [OF c child(2)] by auto
    moreover have "sparse dm data i = None"
      using Bitmap_Indexed.prems(1) i slots_disjoint [OF dense] by auto
    ultimately show ?thesis using i Bitmap_Indexed.IH [OF child(1) c child(2)] by simp
  qed
qed auto

lemma distinct_keys_hashes:
  assumes "\<And>i j. i < j \<Longrightarrow> j < length es \<Longrightarrow>
    d7_hamt_get_hash p (entry_key (es ! i)) \<noteq> d7_hamt_get_hash p (entry_key (es ! j))"
  shows "distinct_keys p es"
  using assms
proof (induction es)
  case (Cons e es)
  have "distinct_keys p es" using Cons.prems by (intro Cons.IH) (metis Suc_mono length_Cons nth_Cons_Suc)
  moreover have "\<not> d7_hamt_keys_equal p (entry_key e) (entry_key x)" if x: "x \<in> set es" for x
  proof -
    obtain j where "j < length es" "x = es ! j" using x by (auto simp: in_set_conv_nth)
    then show ?thesis using Cons.prems [of 0 "Suc j"] keq_hash [of "entry_key e" "entry_key x"] by auto
  qed
  ultimately show ?case by simp
qed simp

lemma distinct_keys_concat:
  assumes "\<And>xs. xs \<in> set xss \<Longrightarrow> distinct_keys p xs"
    and "\<And>i j x y. i < j \<Longrightarrow> j < length xss \<Longrightarrow> x \<in> set (xss ! i) \<Longrightarrow> y \<in> set (xss ! j) \<Longrightarrow>
      \<not> d7_hamt_keys_equal p (entry_key x) (entry_key y)"
  shows "distinct_keys p (concat xss)"
  using assms
proof (induction xss)
  case (Cons xs xss)
  have "distinct_keys p (concat xss)"
    using Cons.prems(1) Cons.prems(2) [of "Suc _" "Suc _"] by (intro Cons.IH) auto
  moreover have "\<not> d7_hamt_keys_equal p (entry_key x) (entry_key y)" if x: "x \<in> set xs" and y: "y \<in> set (concat xss)" for x y
  proof -
    obtain ys where "ys \<in> set xss" "y \<in> set ys" using y by auto
    then obtain j where "j < length xss" "y \<in> set (xss ! j)" by (metis in_set_conv_nth)
    then show ?thesis using Cons.prems(2) [of 0 "Suc j" x y] x by simp
  qed
  ultimately show ?case using Cons.prems(1) [of xs] by (simp add: distinct_keys_append_all)
qed simp

lemma dense_positions_nth:
  assumes "dense b xs" "i < length xs"
  shows "sparse b xs (positions b ! i) = Some (xs ! i)"
  unfolding sparse_def using assms by (simp add: dense_length map_of_zip_nth)

lemma distinct_entries: "wf_node p s n \<Longrightarrow> distinct_keys p (entries n)"
proof (induction n arbitrary: s)
  case (Bitmap_Indexed a dm nm data children n)
  let ?h = "\<lambda>e. d7_hamt_get_hash p (entry_key e)"
  note wf = Bitmap_Indexed.prems
  have dense: "dense dm data" "dense nm children" using wf by simp_all
  have didx: "d7_hamt_index (?h (inline_entry (data ! i))) s = positions dm ! i" if "i < length data" for i
    using wf dense_positions_nth [OF dense(1) that] that by auto
  have cidx: "d7_hamt_index (?h e) s = positions nm ! i" if "i < length children" "e \<in> set (entries (children ! i))" for i e
    using wf dense_positions_nth [OF dense(2) that(1)] entries_hash [of p "s + 5" "children ! i" e] that by auto
  have "distinct_keys p (map inline_entry data)"
  proof (rule distinct_keys_hashes)
    fix i j assume "i < j" "j < length (map inline_entry data)"
    then show "?h (map inline_entry data ! i) \<noteq> ?h (map inline_entry data ! j)"
      using didx [of i] didx [of j] dense(1) nth_eq_iff_index_eq [OF distinct_positions, of i dm j]
      by (auto simp: dense_length)
  qed
  moreover have "distinct_keys p (concat (map entries children))"
  proof (rule distinct_keys_concat)
    show "distinct_keys p xs" if "xs \<in> set (map entries children)" for xs
      using that Bitmap_Indexed.IH wf by auto
    fix i j x y assume ij: "i < j" "j < length (map entries children)"
      and x: "x \<in> set (map entries children ! i)" and y: "y \<in> set (map entries children ! j)"
    then have "?h x \<noteq> ?h y"
      using cidx [of i x] cidx [of j y] dense(2) nth_eq_iff_index_eq [OF distinct_positions, of i nm j]
      by (auto simp: dense_length)
    then show "\<not> d7_hamt_keys_equal p (entry_key x) (entry_key y)" using keq_hash by blast
  qed
  moreover have "\<not> d7_hamt_keys_equal p (entry_key x) (entry_key y)"
    if x: "x \<in> set (map inline_entry data)" and y: "y \<in> set (concat (map entries children))" for x y
  proof -
    obtain i where i: "i < length data" "x = inline_entry (data ! i)" using x by (auto simp: in_set_conv_nth)
    obtain c where "c \<in> set children" "y \<in> set (entries c)" using y by auto
    then obtain j where j: "j < length children" "y \<in> set (entries (children ! j))" by (metis in_set_conv_nth)
    have "bit dm (positions dm ! i)" "bit nm (positions nm ! j)"
      using sparse_Some_bit [OF dense_positions_nth [OF dense(1) i(1)]]
        sparse_Some_bit [OF dense_positions_nth [OF dense(2) j(1)]] by simp_all
    then have "positions dm ! i \<noteq> positions nm ! j" using wf wf_disjoint by auto
    then have "?h x \<noteq> ?h y" using didx [OF i(1)] cidx [OF j] i(2) by auto
    then show ?thesis using keq_hash by blast
  qed
  ultimately show ?case unfolding entries.simps distinct_keys_append_all by blast
qed auto

text \<open>Lookup is a scan of the entries.\<close>

lemma look_find:
  assumes wf: "wf_node p s n"
  shows "look p n (d7_hamt_get_hash p k) s k = find (entry_matches p k) (entries n)"
proof (cases "find (entry_matches p k) (entries n)")
  case None
  show ?thesis
  proof (cases "look p n (d7_hamt_get_hash p k) s k")
    case (Some e)
    then have "e \<in> set (entries n)" "entry_matches p k e"
      using look_in_entries look_key by (auto simp: entry_matches_def)
    then show ?thesis using None by (auto simp: find_None_iff)
  qed (use None in simp)
next
  case (Some e)
  then have e: "e \<in> set (entries n)" "d7_hamt_keys_equal p (entry_key e) k"
    by (auto simp: find_Some_iff entry_matches_def)
  then show ?thesis
    using entries_look [OF wf e(1)] keq_hash [OF e(2)] look_keq [OF e(2)] Some by simp
qed

end


section \<open>The iterator\<close>

record ('k, 'v) d7_hamt_map_iterator_frame =
  frame_data :: "('k, 'v) d7_hamt_inline_entry list"
  data_index :: nat
  frame_children :: "('k, 'v) d7_hamt_node list"
  child_index :: nat

text \<open>The stack of frames has its top at the head of the list; its length is the field \<open>depth\<close>.\<close>

record ('k, 'v) d7_hamt_map_iterator =
  next_node :: "('k, 'v) d7_hamt_node option"
  frames :: "('k, 'v) d7_hamt_map_iterator_frame list"
  collision_entries :: "('k, 'v) d7_hamt_entry list option"
  collision_index :: nat

definition d7_hamt_map_iterator_init :: "('k, 'v) d7_hamt_map option \<Rightarrow> ('k, 'v) d7_hamt_map_iterator" where
  "d7_hamt_map_iterator_init mp =
     \<lparr>next_node = (case mp of None \<Rightarrow> None | Some m \<Rightarrow> root m), frames = [],
      collision_entries = None, collision_index = 0\<rparr>"

text \<open>A bound on the number of turns of the loop.\<close>

fun turns :: "('k, 'v) d7_hamt_node \<Rightarrow> nat" where
  "turns (Bitmap_Indexed _ _ _ _ children _) = 2 + sum_list (map (\<lambda>c. Suc (turns c)) children)"
| "turns _ = 1"

definition frame_turns :: "('k, 'v) d7_hamt_map_iterator_frame \<Rightarrow> nat" where
  "frame_turns f = 1 + sum_list (map (\<lambda>c. Suc (turns c)) (drop (child_index f) (frame_children f)))"

definition loop_turns :: "('k, 'v) d7_hamt_node option \<Rightarrow> ('k, 'v) d7_hamt_map_iterator \<Rightarrow> nat" where
  "loop_turns node it =
     (case node of None \<Rightarrow> 0 | Some n \<Rightarrow> turns n) + sum_list (map frame_turns (frames it))"

text \<open>
  The loop of \<open>d7_hamt_map_iterator_next\<close>. On a bucket the code stores the bucket in the iterator and
  calls itself, which takes the bucket's first entry, or goes on with the stack when there is none.
\<close>

function iterator_loop ::
  "('k, 'v) d7_hamt_node option \<Rightarrow> ('k, 'v) d7_hamt_map_iterator
     \<Rightarrow> failure + ('k, 'v) d7_hamt_map_iterator \<times> ('k, 'v) d7_hamt_entry option" where
  "iterator_loop None it =
     (case frames it of
        [] \<Rightarrow> Inr (it, None)
      | top_frame # below \<Rightarrow>
          if data_index top_frame < length (frame_data top_frame) then
            Inr (it\<lparr>frames := top_frame\<lparr>data_index := Suc (data_index top_frame)\<rparr> # below\<rparr>,
                 Some (inline_entry (frame_data top_frame ! data_index top_frame)))
          else if child_index top_frame = length (frame_children top_frame) then
            iterator_loop None (it\<lparr>frames := below\<rparr>)
          else
            (case nth_opt (frame_children top_frame) (child_index top_frame) of
               None \<Rightarrow> Inl Fault
             | Some c \<Rightarrow>
                 iterator_loop (Some c)
                   (it\<lparr>frames := top_frame\<lparr>child_index := Suc (child_index top_frame)\<rparr> # below\<rparr>)))"
| "iterator_loop (Some (Leaf _ _ k v)) it = Inr (it, Some (Entry k v))"
| "iterator_loop (Some (Collision _ _ es)) it =
     (case es of
        e # _ \<Rightarrow> Inr (it\<lparr>collision_entries := Some es, collision_index := 1\<rparr>, Some e)
      | [] \<Rightarrow> iterator_loop None (it\<lparr>collision_entries := None, collision_index := 0\<rparr>))"
| "iterator_loop (Some (Bitmap_Indexed _ _ _ data children _)) it =
     (if length (frames it) < 7 then
        iterator_loop None
          (it\<lparr>frames := \<lparr>frame_data = data, data_index = 0, frame_children = children, child_index = 0\<rparr>
                       # frames it\<rparr>)
      else Inl Fault)"
  by pat_completeness auto
termination
proof (relation "measure (\<lambda>(node, it). loop_turns node it)", goal_cases)
  case (3 it top_frame below c)
  then have "child_index top_frame < length (frame_children top_frame)" "frame_children top_frame ! child_index top_frame = c"
    by (auto simp: nth_opt_def split: if_splits)
  then have "drop (child_index top_frame) (frame_children top_frame) = c # drop (Suc (child_index top_frame)) (frame_children top_frame)"
    using Cons_nth_drop_Suc by metis
  then show ?case using 3 by (simp add: loop_turns_def frame_turns_def)
qed (auto simp: loop_turns_def frame_turns_def)

definition d7_hamt_map_iterator_next ::
  "('k, 'v) d7_hamt_map_iterator
     \<Rightarrow> failure + ('k, 'v) d7_hamt_map_iterator \<times> ('k, 'v) d7_hamt_entry option" where
  "d7_hamt_map_iterator_next it =
     (let continue = \<lambda>it. iterator_loop (next_node it) (it\<lparr>next_node := None\<rparr>)
      in case collision_entries it of
           Some es \<Rightarrow>
             if collision_index it < length es then
               Inr (it\<lparr>collision_index := Suc (collision_index it)\<rparr>, Some (es ! collision_index it))
             else continue (it\<lparr>collision_entries := None, collision_index := 0\<rparr>)
         | None \<Rightarrow> continue it)"

section \<open>What is left to produce\<close>

definition frame_rest :: "('k, 'v) d7_hamt_map_iterator_frame \<Rightarrow> ('k, 'v) d7_hamt_entry list" where
  "frame_rest f =
     map inline_entry (drop (data_index f) (frame_data f)) @
     concat (map entries (drop (child_index f) (frame_children f)))"

definition iterator_rest :: "('k, 'v) d7_hamt_map_iterator \<Rightarrow> ('k, 'v) d7_hamt_entry list" where
  "iterator_rest it =
     (case collision_entries it of None \<Rightarrow> [] | Some es \<Rightarrow> drop (collision_index it) es) @
     entries_opt (next_node it) @ concat (map frame_rest (frames it))"

lemma iterator_loop_rest:
  assumes "iterator_loop node it = Inr (it', x)"
    and "collision_entries it = None" "next_node it = None"
  shows "entries_opt node @ concat (map frame_rest (frames it)) =
    (case x of None \<Rightarrow> [] | Some e \<Rightarrow> e # iterator_rest it')"
  using assms
proof (induction node it rule: iterator_loop.induct)
  case (1 it)
  show ?case
  proof (cases "frames it")
    case Nil
    then show ?thesis using "1.prems" by auto
  next
    case (Cons top_frame below)
    consider (data) "data_index top_frame < length (frame_data top_frame)"
      | (pop) "\<not> data_index top_frame < length (frame_data top_frame)" "child_index top_frame = length (frame_children top_frame)"
      | (child) "\<not> data_index top_frame < length (frame_data top_frame)" "child_index top_frame \<noteq> length (frame_children top_frame)"
      by blast
    then show ?thesis
    proof cases
      case data
      then have "frame_rest top_frame = inline_entry (frame_data top_frame ! data_index top_frame) #
          frame_rest (top_frame\<lparr>data_index := Suc (data_index top_frame)\<rparr>)"
        using Cons_nth_drop_Suc [OF data, symmetric] by (simp add: frame_rest_def)
      then show ?thesis using "1.prems" Cons data by (auto simp: iterator_rest_def)
    next
      case pop
      then have "frame_rest top_frame = []" by (simp add: frame_rest_def)
      then show ?thesis using "1.IH"(1) [OF Cons pop] "1.prems" Cons pop by simp
    next
      case child
      then obtain c where c: "nth_opt (frame_children top_frame) (child_index top_frame) = Some c"
        using "1.prems"(1) Cons by (auto split: option.splits)
      then have ci: "child_index top_frame < length (frame_children top_frame)" "frame_children top_frame ! child_index top_frame = c"
        by (auto simp: nth_opt_def split: if_splits)
      have "frame_rest top_frame = entries c @ frame_rest (top_frame\<lparr>child_index := Suc (child_index top_frame)\<rparr>)"
        using Cons_nth_drop_Suc [OF ci(1), symmetric] ci(2) child(1) by (simp add: frame_rest_def)
      then show ?thesis using "1.IH"(2) [OF Cons child c] "1.prems" Cons child c by simp
    qed
  qed
next
  case (2 a h k v it)
  then show ?case by (auto simp: iterator_rest_def)
next
  case (3 a h es it)
  then show ?case by (cases es) (auto simp: iterator_rest_def)
next
  case (4 a dm nm data children n it)
  then show ?case by (auto simp: frame_rest_def split: if_splits)
qed

text \<open>One call takes the first remaining entry and leaves the others.\<close>

lemma iterator_next_rest:
  assumes "d7_hamt_map_iterator_next it = Inr (it', x)"
  shows "iterator_rest it = (case x of None \<Rightarrow> [] | Some e \<Rightarrow> e # iterator_rest it')"
proof -
  have loop: "iterator_rest j = (case x of None \<Rightarrow> [] | Some e \<Rightarrow> e # iterator_rest it')"
    if "iterator_loop (next_node j) (j\<lparr>next_node := None\<rparr>) = Inr (it', x)" "collision_entries j = None" for j
    using iterator_loop_rest [OF that(1)] that(2) by (simp add: iterator_rest_def)
  show ?thesis
  proof (cases "collision_entries it")
    case None
    then show ?thesis using loop [of it] assms by (simp add: d7_hamt_map_iterator_next_def Let_def)
  next
    case (Some es)
    show ?thesis
    proof (cases "collision_index it < length es")
      case True
      then show ?thesis
        using assms Some Cons_nth_drop_Suc [OF True, symmetric]
        by (auto simp: d7_hamt_map_iterator_next_def iterator_rest_def)
    next
      case False
      let ?j = "it\<lparr>collision_entries := None, collision_index := 0\<rparr>"
      have "iterator_rest it = iterator_rest ?j" using Some False by (simp add: iterator_rest_def)
      then show ?thesis using loop [of ?j] assms Some False by (simp add: d7_hamt_map_iterator_next_def Let_def)
    qed
  qed
qed

section \<open>Seven frames are enough\<close>

fun height :: "('k, 'v) d7_hamt_node \<Rightarrow> nat" where
  "height (Bitmap_Indexed _ _ _ _ children _) = Suc (fold max (map height children) 0)"
| "height _ = 0"

fun frames_ok :: "('k, 'v) d7_hamt_map_iterator_frame list \<Rightarrow> bool" where
  "frames_ok [] = True"
| "frames_ok (f # fs) =
     (child_index f \<le> length (frame_children f) \<and>
      (\<forall>c\<in>set (frame_children f). height c + Suc (length fs) \<le> 7) \<and> frames_ok fs)"

definition iterator_ok :: "('k, 'v) d7_hamt_map_iterator \<Rightarrow> bool" where
  "iterator_ok it \<longleftrightarrow> frames_ok (frames it) \<and> (\<forall>n. next_node it = Some n \<longrightarrow> height n + length (frames it) \<le> 7)"

lemma height_children: "c \<in> set children \<Longrightarrow> height c < height (Bitmap_Indexed a dm nm data children n)"
proof -
  have ge: "y \<le> fold max xs y" for xs and y :: nat
    by (induction xs arbitrary: y) (auto intro: le_trans max.cobounded2)
  have "x \<le> fold max xs y" if "x \<in> set xs" for x and xs :: "nat list" and y
    using that
  proof (induction xs arbitrary: y)
    case (Cons z zs)
    then show ?case using ge [of "max z y" zs] by (auto intro: le_trans)
  qed simp
  then show "c \<in> set children \<Longrightarrow> ?thesis" by (simp add: less_Suc_eq_le)
qed

lemma height_wf: "wf_node p s n \<Longrightarrow> is_bitmap n \<Longrightarrow> s + 5 * height n < 37"
proof (induction n arbitrary: s)
  case (Bitmap_Indexed a dm nm data children n)
  have bound: "s + 5 * height c < 32" if "c \<in> set children" for c
  proof (cases "is_bitmap c")
    case True
    then show ?thesis using Bitmap_Indexed.IH [OF that, of "s + 5"] Bitmap_Indexed.prems(1) that by simp
  next
    case False
    then have "height c = 0" by (cases c) auto
    then show ?thesis using Bitmap_Indexed.prems(1) by simp
  qed
  have "fold max xs y \<in> insert y (set xs)" for xs and y :: nat
    by (induction xs arbitrary: y) (auto simp: max_def split: if_splits)
  then have "fold max (map height children) 0 \<in> insert 0 (set (map height children))" .
  then consider "fold max (map height children) 0 = 0"
    | c where "c \<in> set children" "fold max (map height children) 0 = height c" by auto
  then show ?case
  proof cases
    case 1
    then show ?thesis using Bitmap_Indexed.prems(1) by simp
  next
    case 2
    then show ?thesis using bound [OF 2(1)] by simp
  qed
qed auto

lemma iterator_loop_ok:
  assumes "frames_ok (frames it)" and "\<And>n. node = Some n \<Longrightarrow> height n + length (frames it) \<le> 7"
    and "next_node it = None"
  shows "\<exists>it' x. iterator_loop node it = Inr (it', x) \<and> iterator_ok it'"
  using assms
proof (induction node it rule: iterator_loop.induct)
  case (1 it)
  show ?case
  proof (cases "frames it")
    case Nil
    then show ?thesis using "1.prems" by (simp add: iterator_ok_def)
  next
    case (Cons top_frame below)
    consider (data) "data_index top_frame < length (frame_data top_frame)"
      | (pop) "\<not> data_index top_frame < length (frame_data top_frame)" "child_index top_frame = length (frame_children top_frame)"
      | (child) "\<not> data_index top_frame < length (frame_data top_frame)" "child_index top_frame \<noteq> length (frame_children top_frame)"
      by blast
    then show ?thesis
    proof cases
      case data
      then show ?thesis using "1.prems" Cons by (simp add: iterator_ok_def)
    next
      case pop
      then show ?thesis using "1.IH"(1) [OF Cons pop] "1.prems" Cons by simp
    next
      case child
      then have lt: "child_index top_frame < length (frame_children top_frame)" using "1.prems"(1) Cons by simp
      then have c: "nth_opt (frame_children top_frame) (child_index top_frame) = Some (frame_children top_frame ! child_index top_frame)"
        by (simp add: nth_opt_def)
      show ?thesis using "1.IH"(2) [OF Cons child c] "1.prems" Cons child c lt by simp
    qed
  qed
next
  case (2 a h k v it)
  then show ?case by (simp add: iterator_ok_def)
next
  case (3 a h es it)
  then show ?case by (cases es) (simp_all add: iterator_ok_def)
next
  case (4 a dm nm data children n it)
  have lt: "length (frames it) < 7" using "4.prems"(2) [of "Bitmap_Indexed a dm nm data children n"] by simp
  have "height c + Suc (length (frames it)) \<le> 7" if "c \<in> set children" for c
    using "4.prems"(2) [of "Bitmap_Indexed a dm nm data children n"] height_children [OF that, of a dm nm data n] by simp
  then show ?case using "4.IH" [OF lt] "4.prems" lt by simp
qed

lemma iterator_next_ok:
  assumes "iterator_ok it"
  shows "\<exists>it' x. d7_hamt_map_iterator_next it = Inr (it', x) \<and> iterator_ok it'"
proof -
  have loop: "\<exists>it' x. iterator_loop (next_node j) (j\<lparr>next_node := None\<rparr>) = Inr (it', x) \<and> iterator_ok it'"
    if "iterator_ok j" for j :: "('a, 'b) d7_hamt_map_iterator"
    using that by (intro iterator_loop_ok) (simp_all add: iterator_ok_def)
  have upd: "iterator_ok (it\<lparr>collision_index := i\<rparr>)" "iterator_ok (it\<lparr>collision_entries := None, collision_index := i\<rparr>)" for i
    using assms by (simp_all add: iterator_ok_def)
  show ?thesis
    using loop [OF assms] loop [OF upd(2) [of 0]] upd
    by (auto simp: d7_hamt_map_iterator_next_def Let_def split: option.split)
qed

lemma iterator_init_ok:
  assumes "map_ok S t m"
  shows "iterator_ok (d7_hamt_map_iterator_init (Some m))"
    and "iterator_rest (d7_hamt_map_iterator_init (Some m)) = entries_opt (root m)"
proof -
  have "height n \<le> 7" if "root m = Some n" for n
  proof (cases "is_bitmap n")
    case True
    then show ?thesis using height_wf [of "policy m" 0 n] assms that by (simp add: map_ok_def)
  next
    case False
    then show ?thesis by (cases n) auto
  qed
  then show "iterator_ok (d7_hamt_map_iterator_init (Some m))"
    by (simp add: iterator_ok_def d7_hamt_map_iterator_init_def)
  show "iterator_rest (d7_hamt_map_iterator_init (Some m)) = entries_opt (root m)"
    by (simp add: iterator_rest_def d7_hamt_map_iterator_init_def)
qed

section \<open>Loops over an iterator\<close>

text \<open>\<open>while (status == D7_HAMT_OK && d7_hamt_map_iterator_next(...)) status = body(...)\<close>\<close>

function iterate ::
  "('s \<Rightarrow> ('k, 'v) d7_hamt_entry \<Rightarrow> 's act) \<Rightarrow> ('k, 'v) d7_hamt_map_iterator \<Rightarrow> 's \<Rightarrow> 's act" where
  "iterate body it st =
     (case d7_hamt_map_iterator_next it of
        Inl e \<Rightarrow> fail e
      | Inr (it', None) \<Rightarrow> ret st
      | Inr (it', Some e) \<Rightarrow> andthen (body st e) (\<lambda>st'. iterate body it' st'))"
  by pat_completeness auto
termination
proof (relation "measure (\<lambda>(body, it, st). length (iterator_rest it))", goal_cases)
  case (2 body it st r it' x e st' E t t')
  then show ?case using iterator_next_rest [of it it' x] by simp
qed simp

declare iterate.simps [simp del]

lemma iterate_fold:
  "iterator_ok it \<Longrightarrow> iterate body it st = fold_act body st (iterator_rest it)"
proof (induction "iterator_rest it" arbitrary: it st)
  case Nil
  obtain it' x where "d7_hamt_map_iterator_next it = Inr (it', x)" using iterator_next_ok [OF Nil.prems] by blast
  moreover from iterator_next_rest [OF this] Nil(1) have "x = None" by (cases x) auto
  ultimately show ?case using Nil(1) by (simp add: iterate.simps [of body it] flip: Nil(1))
next
  case (Cons e es)
  obtain it' x where n: "d7_hamt_map_iterator_next it = Inr (it', x)" "iterator_ok it'"
    using iterator_next_ok [OF Cons.prems] by blast
  from iterator_next_rest [OF n(1)] Cons(2) have x: "x = Some e" "es = iterator_rest it'" by (cases x; auto)+
  have "iterate body it' = (\<lambda>st'. fold_act body st' es)" using Cons(1) [OF x(2) n(2)] x(2) by (simp add: fun_eq_iff)
  then show ?case using n(1) x(1) by (simp add: iterate.simps [of body it] flip: Cons(2))
qed

end
