(* ===== verification/Hamt_Algebra.thy ===== *)
theory Hamt_Algebra
  imports Hamt_Combine Hamt_Iterator
begin

text \<open>
  The four set-algebra operations on map handles. The operation works under the policy of the left
  map; a right map made with other callbacks is first copied into a map of that policy, entry by
  entry, so that both tries agree on hashes and on key equality.
\<close>

section \<open>The operations of the code\<close>

text \<open>The policy of an existing handle passed to \<open>d7_hamt_map_create\<close> has no null callback, so that
  normalising it again changes nothing.\<close>

definition policy_arg :: "('k, 'v) d7_hamt_policy \<Rightarrow> ('k, 'v) d7_hamt_policy_arg" where
  "policy_arg p =
     \<lparr>arg_hash = Some (hash p), arg_key_equal = Some (key_equal p), arg_value_equal = Some (value_equal p),
      arg_retain_key = Some (retain_key p), arg_retain_value = Some (retain_value p),
      arg_release_key = release_key p, arg_release_value = release_value p, arg_context = policy_context p\<rparr>"

lemma create_policy_arg: "d7_hamt_map_create ptr (Some (policy_arg p)) = d7_hamt_map_create_from p"
  by (cases p) (simp add: d7_hamt_map_create_def d7_hamt_normalize_policy_def policy_arg_def or_default_def)

definition combine_normalize_right ::
  "('k, 'v) d7_hamt_map \<Rightarrow> ('k, 'v) d7_hamt_map \<Rightarrow> ('k, 'v) d7_hamt_map act" where
  "combine_normalize_right l r =
     (if d7_hamt_policy_callbacks_compatible (policy l) (policy r) then ret r
      else iterate (\<lambda>m e. d7_hamt_map_set (Some m) (entry_key e) (entry_value e) True)
             (d7_hamt_map_iterator_init (Some r)) (d7_hamt_map_create_from (policy l)))"

definition d7_hamt_map_combine ::
  "('k, 'v) d7_hamt_map option \<Rightarrow> ('k, 'v) d7_hamt_map option \<Rightarrow> d7_hamt_combine_operation \<Rightarrow> bool
     \<Rightarrow> ('k, 'v) d7_hamt_map act" where
  "d7_hamt_map_combine left right operation result =
     (case (left, right) of
        (Some l, Some r) \<Rightarrow>
          if \<not> result then fail (Status D7_HAMT_INVALID_ARGUMENT)
          else
            andthen (combine_normalize_right l r) (\<lambda>compatible_right.
            andthen (d7_hamt_combine_nodes (policy l) (root l) (root compatible_right) 0 operation) (\<lambda>new_root.
              ret \<lparr>root = new_root,
                   count = (case new_root of None \<Rightarrow> 0 | Some n \<Rightarrow> subtree_count n),
                   policy = policy l\<rparr>))
      | _ \<Rightarrow> fail (Status D7_HAMT_INVALID_ARGUMENT))"

definition d7_hamt_map_union ::
  "('k, 'v) d7_hamt_map option \<Rightarrow> ('k, 'v) d7_hamt_map option \<Rightarrow> bool \<Rightarrow> ('k, 'v) d7_hamt_map act" where
  "d7_hamt_map_union left right result = d7_hamt_map_combine left right D7_HAMT_COMBINE_UNION result"

definition d7_hamt_map_intersect ::
  "('k, 'v) d7_hamt_map option \<Rightarrow> ('k, 'v) d7_hamt_map option \<Rightarrow> bool \<Rightarrow> ('k, 'v) d7_hamt_map act" where
  "d7_hamt_map_intersect left right result = d7_hamt_map_combine left right D7_HAMT_COMBINE_INTERSECT result"

definition d7_hamt_map_except ::
  "('k, 'v) d7_hamt_map option \<Rightarrow> ('k, 'v) d7_hamt_map option \<Rightarrow> bool \<Rightarrow> ('k, 'v) d7_hamt_map act" where
  "d7_hamt_map_except left right result = d7_hamt_map_combine left right D7_HAMT_COMBINE_EXCEPT result"

definition d7_hamt_map_symmetric_except ::
  "('k, 'v) d7_hamt_map option \<Rightarrow> ('k, 'v) d7_hamt_map option \<Rightarrow> bool \<Rightarrow> ('k, 'v) d7_hamt_map act" where
  "d7_hamt_map_symmetric_except left right result =
     d7_hamt_map_combine left right D7_HAMT_COMBINE_SYMMETRIC_EXCEPT result"

section \<open>Meaning\<close>

text \<open>The entries of the right map as seen under the policy of the left one: those the right map
  holds if the callbacks are the same, and else what remains of its entries, in iteration order,
  when they are bound one after the other.\<close>

definition entry_under :: "('k, 'v) d7_hamt_policy \<Rightarrow> ('k, 'v) d7_hamt_map \<Rightarrow> 'k \<Rightarrow> ('k, 'v) d7_hamt_entry option" where
  "entry_under p r k =
     (if d7_hamt_policy_callbacks_compatible p (policy r) then map_entry r k
      else fold (bind_key p) (entries_opt (root r)) (\<lambda>_. None) k)"

text \<open>A function address names one function: policies whose callback pointers agree are the same
  policy.\<close>

definition coherent :: "('k, 'v) d7_hamt_policy \<Rightarrow> ('k, 'v) d7_hamt_policy \<Rightarrow> bool" where
  "coherent p q \<longleftrightarrow> (d7_hamt_policy_callbacks_compatible p q \<longrightarrow> p = q)"

lemma coherent_refl [simp]: "coherent p p"
  by (simp add: coherent_def)

text \<open>What a combination publishes.\<close>

definition map_combined ::
  "('k \<Rightarrow> 'k \<Rightarrow> bool) \<Rightarrow> ('v \<Rightarrow> 'v \<Rightarrow> bool) \<Rightarrow> d7_hamt_combine_operation \<Rightarrow> ('k, 'v) d7_hamt_map
     \<Rightarrow> ('k, 'v) d7_hamt_map \<Rightarrow> ('k, 'v) d7_hamt_map \<Rightarrow> bool" where
  "map_combined Rk Rv op l r m' \<longleftrightarrow>
     policy m' = policy l \<and>
     (\<forall>k. same_entry Rk Rv (map_entry m' k) (combined (policy l) op (map_entry l k) (entry_under (policy l) r k)))"

definition map_grown :: "('k, 'v) d7_hamt_node set \<Rightarrow> nat \<Rightarrow> ('k, 'v) d7_hamt_map \<Rightarrow> bool" where
  "map_grown S t m \<longleftrightarrow> (\<exists>S'. S \<subseteq> S' \<and> map_ok S' t m)"

context hamt_policy
begin

lemma iterate_map_set:
  assumes "map_ok S t r"
  shows "iterate (\<lambda>m e. d7_hamt_map_set (Some m) (entry_key e) (entry_value e) True)
           (d7_hamt_map_iterator_init (Some r)) m = map_set_entries m (entries_opt (root r))"
  unfolding map_set_entries_def iterate_fold [OF iterator_init_ok(1) [OF assms]] iterator_init_ok(2) [OF assms] ..

lemma normalize_right_spec:
  assumes "policy l = p" and coh: "coherent p (policy r)" and ok: "map_ok S t r"
  shows "achieves E (failing_requests E p) t (combine_normalize_right l r)
    (\<lambda>r' t'. policy r' = p \<and> map_grown S t' r' \<and> (\<forall>k. same_entry Rk Rv (map_entry r' k) (entry_under p r k)))"
proof (cases "d7_hamt_policy_callbacks_compatible p (policy r)")
  case True
  then have "policy r = p" using coh by (simp add: coherent_def)
  then show ?thesis
    unfolding combine_normalize_right_def assms(1) entry_under_def using True ok
    by (auto intro!: achieves_ret simp: map_grown_def)
next
  case False
  have empty: "map_entry (d7_hamt_map_create_from p) = (\<lambda>_. None)" by (simp add: fun_eq_iff)
  have pol: "policy (d7_hamt_map_create_from p) = p" by (simp add: d7_hamt_map_create_from_def)
  have heap: "heap S t" using ok by (simp add: map_ok_def)
  show ?thesis
    using map_set_entries_spec [OF pol map_create_ok [OF heap], of E "entries_opt (root r)"] False
    unfolding combine_normalize_right_def assms(1) iterate_map_set [OF ok] entry_under_def map_grown_def empty
    by simp
qed

lemma map_combine_spec:
  assumes "policy l = p" and coh: "coherent p (policy r)" and l: "map_ok S t l" and r: "map_ok S t r"
  shows "achieves E (failing_requests E p) t (d7_hamt_map_combine (Some l) (Some r) op True)
    (\<lambda>m' t'. map_combined Rk Rv op l r m' \<and> map_grown S t' m')"
  unfolding d7_hamt_map_combine_def prod.case option.case not_True_eq_False if_False assms(1)
proof (rule achieves_andthen [OF normalize_right_spec [OF assms(1) coh r]], elim conjE)
  fix r' t1
  assume r': "policy r' = p" "map_grown S t1 r'" and rel: "\<forall>k. same_entry Rk Rv (map_entry r' k) (entry_under p r k)"
  from r'(2) obtain S1 where S1: "S \<subseteq> S1" "map_ok S1 t1 r'" by (auto simp: map_grown_def)
  have heap: "heap S1 t1" and sub: "subnodes_opt (root l) \<subseteq> S1" "subnodes_opt (root r') \<subseteq> S1"
    and wf: "wf_opt p 0 (root l)" "wf_opt p 0 (root r')"
    using S1 l r'(1) assms(1) by (auto simp: map_ok_def map_nodes_def)
  show "achieves E (failing_requests E p) t1
      (andthen (d7_hamt_combine_nodes p (root l) (root r') 0 op) (\<lambda>new_root.
        ret \<lparr>root = new_root, count = (case new_root of None \<Rightarrow> 0 | Some n \<Rightarrow> subtree_count n), policy = p\<rparr>))
      (\<lambda>m' t'. map_combined Rk Rv op l r m' \<and> map_grown S t' m')"
  proof (rule achieves_andthen [OF combine_nodes_spec [OF heap sub wf]])
    show "agree 0 (root l) (root r')" by (simp add: agree_def)
    fix x t2
    assume x: "combine_ok 0 op (root l) (root r') x \<and> grown S1 (subnodes_opt x) t2"
    let ?m = "\<lparr>root = x, count = (case x of None \<Rightarrow> 0 | Some n \<Rightarrow> subtree_count n), policy = p\<rparr>"
    have "same_entry Rk Rv (map_entry ?m k) (combined p op (map_entry l k) (entry_under p r k))" for k
    proof -
      have "same_entry Rk Rv (map_entry ?m k) (combined p op (map_entry l k) (map_entry r' k))"
        using x r'(1) assms(1) by (simp add: combine_ok_def map_entry_def)
      moreover have "same_entry Rk Rv (combined p op (map_entry l k) (map_entry r' k)) (combined p op (map_entry l k) (entry_under p r k))"
        using rel by (intro combined_related) simp_all
      ultimately show ?thesis by (rule found_trans)
    qed
    moreover obtain S2 where "S1 \<subseteq> S2" "subnodes_opt x \<subseteq> S2" "heap S2 t2" using x by (auto simp: grown_def)
    then have "map_grown S t2 ?m"
      using x S1(1) unfolding map_grown_def map_ok_def map_nodes_def combine_ok_def
      by (intro exI [of _ S2]) (auto split: option.split)
    ultimately show "achieves E (failing_requests E p) t2 (ret ?m) (\<lambda>m' t'. map_combined Rk Rv op l r m' \<and> map_grown S t' m')"
      by (intro achieves_ret) (simp add: map_combined_def assms(1))
  qed
qed

end

text \<open>The keys an entry list holds after it is bound in order.\<close>

context hamt_policy
begin

lemma bind_key_None:
  assumes "\<And>a b. d7_hamt_keys_equal p a b \<Longrightarrow> (f a = None) = (f b = None)" and "d7_hamt_keys_equal p a b"
  shows "(bind_key p e f a = None) = (bind_key p e f b = None)"
  using assms keq_right [OF assms(2)] by (simp add: bind_key_def)

lemma fold_bind_key_None:
  assumes "\<And>a b. d7_hamt_keys_equal p a b \<Longrightarrow> (f a = None) = (f b = None)"
  shows "fold (bind_key p) es f k = None \<longleftrightarrow>
    f k = None \<and> (\<forall>e\<in>set es. \<not> d7_hamt_keys_equal p (entry_key e) k)"
  using assms
proof (induction es arbitrary: f)
  case (Cons e es)
  have "fold (bind_key p) es (bind_key p e f) k = None \<longleftrightarrow>
      bind_key p e f k = None \<and> (\<forall>e\<in>set es. \<not> d7_hamt_keys_equal p (entry_key e) k)"
    using Cons.prems by (intro Cons.IH bind_key_None)
  moreover have "bind_key p e f k = None \<longleftrightarrow> f k = None \<and> \<not> d7_hamt_keys_equal p (entry_key e) k"
    by (simp add: bind_key_def)
  ultimately show ?case by auto
qed simp

end

end
