(* ===== verification/Hamt_Compare.thy ===== *)
theory Hamt_Compare
  imports Hamt_Iterator
begin

text \<open>
  Comparison of maps: \<open>d7_hamt_map_equals\<close>, the structural validator and the topology comparison of
  \<open>hamt.c\<close>. The shape of a well-formed trie is determined by the keys it holds, whatever the history
  of the map; equality of maps therefore can be, and is, decided node by node.
\<close>

section \<open>The operations of the code\<close>

fun d7_hamt_nodes_equal ::
  "('k, 'v) d7_hamt_policy \<Rightarrow> ('k, 'v) d7_hamt_node \<Rightarrow> ('k, 'v) d7_hamt_node \<Rightarrow> bool" where
  "d7_hamt_nodes_equal p (Leaf a h k v) right =
     (a = node_addr right \<or>
      (case right of
         Leaf _ h' k' v' \<Rightarrow> h = h' \<and> d7_hamt_keys_equal p k k' \<and> d7_hamt_values_equal p v v'
       | _ \<Rightarrow> False))"
| "d7_hamt_nodes_equal p (Collision a h es) right =
     (a = node_addr right \<or>
      (case right of
         Collision _ h' es' \<Rightarrow>
           h = h' \<and> length es = length es' \<and>
           (\<forall>l\<in>set es. \<exists>r\<in>set es'.
              d7_hamt_keys_equal p (entry_key l) (entry_key r) \<and>
              d7_hamt_values_equal p (entry_value l) (entry_value r))
       | _ \<Rightarrow> False))"
| "d7_hamt_nodes_equal p (Bitmap_Indexed a dm nm data children n) right =
     (a = node_addr right \<or>
      (case right of
         Bitmap_Indexed _ dm' nm' data' children' _ \<Rightarrow>
           dm = dm' \<and> nm = nm' \<and> length data = length data' \<and> length children = length children' \<and>
           list_all2 (\<lambda>l r. inline_hash l = inline_hash r \<and>
             d7_hamt_keys_equal p (entry_key (inline_entry l)) (entry_key (inline_entry r)) \<and>
             d7_hamt_values_equal p (entry_value (inline_entry l)) (entry_value (inline_entry r))) data data' \<and>
           list_all2 (\<lambda>l r. d7_hamt_nodes_equal p l r) children children'
       | _ \<Rightarrow> False))"

definition d7_hamt_map_equals ::
  "('k, 'v) d7_hamt_map option \<Rightarrow> ('k, 'v) d7_hamt_map option \<Rightarrow> bool" where
  "d7_hamt_map_equals left right =
     (case (left, right) of
        (Some l, Some r) \<Rightarrow>
          if \<not> d7_hamt_policies_compatible (policy l) (policy r) then False
          else if map_option node_addr (root l) = map_option node_addr (root r) then True
          else if count l \<noteq> count r then False
          else
            (case (root l, root r) of
               (Some ln, Some rn) \<Rightarrow> d7_hamt_nodes_equal (policy l) ln rn
             | _ \<Rightarrow> False)
      | _ \<Rightarrow> False)"

fun d7_hamt_debug_nodes_topology_equal ::
  "('k, 'v) d7_hamt_policy \<Rightarrow> ('k, 'v) d7_hamt_node \<Rightarrow> ('k, 'v) d7_hamt_node \<Rightarrow> bool" where
  "d7_hamt_debug_nodes_topology_equal p (Leaf a h k v) right =
     (case right of Leaf _ h' _ _ \<Rightarrow> h = h' | _ \<Rightarrow> False)"
| "d7_hamt_debug_nodes_topology_equal p (Collision a h es) right =
     (case right of
        Collision _ h' es' \<Rightarrow>
          h = h' \<and> length es = length es' \<and>
          (\<forall>l\<in>set es. \<exists>r\<in>set es'. d7_hamt_keys_equal p (entry_key l) (entry_key r))
      | _ \<Rightarrow> False)"
| "d7_hamt_debug_nodes_topology_equal p (Bitmap_Indexed a dm nm data children n) right =
     (case right of
        Bitmap_Indexed _ dm' nm' data' children' _ \<Rightarrow>
          dm = dm' \<and> nm = nm' \<and> length data = length data' \<and> length children = length children' \<and>
          list_all2 (\<lambda>l r. inline_hash l = inline_hash r) data data' \<and>
          list_all2 (\<lambda>l r. d7_hamt_debug_nodes_topology_equal p l r) children children'
      | _ \<Rightarrow> False)"

definition d7_hamt_map_debug_topology_equal ::
  "('k, 'v) d7_hamt_map option \<Rightarrow> ('k, 'v) d7_hamt_map option \<Rightarrow> bool" where
  "d7_hamt_map_debug_topology_equal left right =
     (case (left, right) of
        (Some l, Some r) \<Rightarrow>
          d7_hamt_policies_compatible (policy l) (policy r) \<and>
          (case (root l, root r) of
             (None, None) \<Rightarrow> True
           | (Some ln, Some rn) \<Rightarrow> d7_hamt_debug_nodes_topology_equal (policy l) ln rn
           | _ \<Rightarrow> False)
      | _ \<Rightarrow> False)"

section \<open>The same keys, the same shape\<close>

text \<open>
  Two nodes of one shape whose entries correspond key by key, with values related by \<open>P\<close>. Buckets
  correspond up to the order of their entries.
\<close>

fun alike ::
  "('k, 'v) d7_hamt_policy \<Rightarrow> ('v \<Rightarrow> 'v \<Rightarrow> bool) \<Rightarrow> ('k, 'v) d7_hamt_node \<Rightarrow> ('k, 'v) d7_hamt_node \<Rightarrow> bool" where
  "alike p P (Leaf a h k v) right =
     (case right of Leaf _ h' k' v' \<Rightarrow> h = h' \<and> d7_hamt_keys_equal p k k' \<and> P v v' | _ \<Rightarrow> False)"
| "alike p P (Collision a h es) right =
     (case right of
        Collision _ h' es' \<Rightarrow>
          h = h' \<and> length es = length es' \<and>
          (\<forall>l\<in>set es. \<exists>r\<in>set es'.
             d7_hamt_keys_equal p (entry_key l) (entry_key r) \<and> P (entry_value l) (entry_value r))
      | _ \<Rightarrow> False)"
| "alike p P (Bitmap_Indexed a dm nm data children n) right =
     (case right of
        Bitmap_Indexed _ dm' nm' data' children' _ \<Rightarrow>
          dm = dm' \<and> nm = nm' \<and>
          list_all2 (\<lambda>l r. inline_hash l = inline_hash r \<and>
             d7_hamt_keys_equal p (entry_key (inline_entry l)) (entry_key (inline_entry r)) \<and>
             P (entry_value (inline_entry l)) (entry_value (inline_entry r))) data data' \<and>
          list_all2 (\<lambda>l r. alike p P l r) children children'
      | _ \<Rightarrow> False)"

lemma alike_topology: "alike p P l r \<Longrightarrow> d7_hamt_debug_nodes_topology_equal p l r"
proof (induction l arbitrary: r)
  case (Bitmap_Indexed a dm nm data children n)
  then show ?case
    by (cases r) (auto intro: list.rel_mono_strong dest: list_all2_lengthD)
qed (auto split: d7_hamt_node.splits)

lemma alike_equal: "alike p (d7_hamt_values_equal p) l r \<Longrightarrow> d7_hamt_nodes_equal p l r"
proof (induction l arbitrary: r)
  case (Bitmap_Indexed a dm nm data children n)
  then show ?case
    by (cases r) (auto intro: list.rel_mono_strong dest: list_all2_lengthD)
qed (auto split: d7_hamt_node.splits)

text \<open>The value at a key, for the purpose of comparing two maps.\<close>

abbreviation same_value ::
  "('v \<Rightarrow> 'v \<Rightarrow> bool) \<Rightarrow> ('k, 'v) d7_hamt_entry option \<Rightarrow> ('k, 'v) d7_hamt_entry option \<Rightarrow> bool" where
  "same_value P \<equiv> rel_option (\<lambda>e e'. P (entry_value e) (entry_value e'))"

context hamt_policy
begin

lemma keys_onto:
  assumes L: "distinct_keys p L" and len: "length R \<le> length L"
    and sub: "\<And>l. l \<in> set L \<Longrightarrow> \<exists>r\<in>set R. d7_hamt_keys_equal p (entry_key l) (entry_key r)"
  shows "r \<in> set R \<Longrightarrow> \<exists>l\<in>set L. d7_hamt_keys_equal p (entry_key l) (entry_key r)"
  using assms
proof (induction L arbitrary: R)
  case Nil
  then show ?case by simp
next
  case (Cons l L)
  obtain r0 where r0: "r0 \<in> set R" "d7_hamt_keys_equal p (entry_key l) (entry_key r0)"
    using Cons.prems(4) [of l] by auto
  show ?case
  proof (cases "r = r0")
    case True
    then show ?thesis using r0 by auto
  next
    case False
    have "\<exists>r'\<in>set (remove1 r0 R). d7_hamt_keys_equal p (entry_key x) (entry_key r')" if x: "x \<in> set L" for x
    proof -
      obtain r' where r': "r' \<in> set R" "d7_hamt_keys_equal p (entry_key x) (entry_key r')"
        using Cons.prems(4) [of x] x by auto
      have "r' \<noteq> r0"
        using Cons.prems(2) x keq_trans [OF r0(2) keq_sym, of "entry_key x"] r'(2) by auto
      then show ?thesis using r' by auto
    qed
    moreover have "length (remove1 r0 R) \<le> length L" using Cons.prems(3) r0(1) by (simp add: length_remove1)
    ultimately have "\<exists>l\<in>set L. d7_hamt_keys_equal p (entry_key l) (entry_key r)"
      using Cons.prems(1,2) False by (intro Cons.IH [of "remove1 r0 R"]) auto
    then show ?thesis by auto
  qed
qed

lemma keys_card:
  assumes "distinct_keys p L"
    and "\<And>l. l \<in> set L \<Longrightarrow> \<exists>r\<in>set R. d7_hamt_keys_equal p (entry_key l) (entry_key r)"
  shows "length L \<le> length R"
  using assms
proof (induction L arbitrary: R)
  case (Cons l L)
  obtain r0 where r0: "r0 \<in> set R" "d7_hamt_keys_equal p (entry_key l) (entry_key r0)"
    using Cons.prems(2) [of l] by auto
  have "length L \<le> length (remove1 r0 R)"
  proof (rule Cons.IH)
    fix x assume x: "x \<in> set L"
    obtain r' where r': "r' \<in> set R" "d7_hamt_keys_equal p (entry_key x) (entry_key r')"
      using Cons.prems(2) [of x] x by auto
    have "r' \<noteq> r0"
      using Cons.prems(1) x keq_trans [OF r0(2) keq_sym, of "entry_key x"] r'(2) by auto
    then show "\<exists>r\<in>set (remove1 r0 R). d7_hamt_keys_equal p (entry_key x) (entry_key r)" using r' by auto
  qed (use Cons.prems in auto)
  moreover have "length R = Suc (length (remove1 r0 R))"
    using r0(1) length_pos_if_in_set [of r0 R] by (simp add: length_remove1)
  ultimately show ?case by simp
qed simp

text \<open>Two well-formed nodes hold the same keys.\<close>

definition same_keys :: "nat \<Rightarrow> ('k, 'v) d7_hamt_node \<Rightarrow> ('k, 'v) d7_hamt_node \<Rightarrow> bool" where
  "same_keys s l r \<longleftrightarrow> (\<forall>k. look p l (d7_hamt_get_hash p k) s k = None \<longleftrightarrow>
     look p r (d7_hamt_get_hash p k) s k = None)"

lemma same_keys_entry:
  assumes "wf_node p s l" "wf_node p s r" "same_keys s l r" "e \<in> set (entries l)"
  shows "\<exists>e'\<in>set (entries r). d7_hamt_keys_equal p (entry_key e) (entry_key e')"
proof -
  have "look p l (d7_hamt_get_hash p (entry_key e)) s (entry_key e) \<noteq> None"
    using entries_look [OF assms(1,4)] by simp
  then have "look p r (d7_hamt_get_hash p (entry_key e)) s (entry_key e) \<noteq> None"
    using assms(3) [unfolded same_keys_def, rule_format, of "entry_key e"] by simp
  then obtain e' where e': "look p r (d7_hamt_get_hash p (entry_key e)) s (entry_key e) = Some e'" by blast
  show ?thesis using look_in_entries [OF e'] keq_sym [OF look_key [OF e']] by (rule bexI [rotated])
qed

lemma same_keys_sym: "same_keys s l r \<Longrightarrow> same_keys s r l"
  by (simp add: same_keys_def)

lemma same_keys_count:
  assumes wf: "wf_node p s l" "wf_node p s r" and keys: "same_keys s l r"
  shows "subtree_count l = subtree_count r"
proof -
  have "length (entries l) \<le> length (entries r)"
    using keys_card [OF distinct_entries [OF wf(1)]] same_keys_entry [OF wf keys] by blast
  moreover have "length (entries r) \<le> length (entries l)"
    using keys_card [OF distinct_entries [OF wf(2)]] same_keys_entry [OF wf(2,1) same_keys_sym [OF keys]] by blast
  ultimately show ?thesis using length_entries [OF wf(1)] length_entries [OF wf(2)] by simp
qed

text \<open>A branch holds two keys of different hash.\<close>

lemma branch_two_hashes:
  "wf_node p s n \<Longrightarrow> is_bitmap n \<Longrightarrow>
     \<exists>e\<in>set (entries n). \<exists>e'\<in>set (entries n).
       d7_hamt_get_hash p (entry_key e) \<noteq> d7_hamt_get_hash p (entry_key e')"
proof (induction n arbitrary: s)
  case (Bitmap_Indexed a dm nm data children n)
  note wf = Bitmap_Indexed.prems(1)
  have dense: "dense dm data" "dense nm children" using wf by simp_all
  show ?case
  proof (cases "2 \<le> length data + length children")
    case False
    then obtain c where "children = [c]" "is_bitmap c" using wf by auto
    then show ?thesis using Bitmap_Indexed.IH [of c "s + 5"] wf by auto
  next
    case True
    have entry: "\<exists>e\<in>set (entries (Bitmap_Indexed a dm nm data children n)). d7_hamt_index (d7_hamt_get_hash p (entry_key e)) s = i"
      if i: "bit dm i \<or> bit nm i" for i
    proof (cases "bit dm i")
      case True
      then obtain x where x: "sparse dm data i = Some x" using sparse_None [OF dense(1)] by fastforce
      then have "inline_entry x \<in> set (map inline_entry data)" using sparse_Some_in_set by fastforce
      moreover have "d7_hamt_index (d7_hamt_get_hash p (entry_key (inline_entry x))) s = i"
        using wf x sparse_Some_in_set [OF x] by auto
      ultimately show ?thesis by auto
    next
      case False
      then obtain c where c: "sparse nm children i = Some c" using i sparse_None [OF dense(2)] by fastforce
      have cs: "c \<in> set children" "wf_node p (s + 5) c" using sparse_Some_in_set [OF c] wf by auto
      have "entries c \<noteq> []" using length_entries [OF cs(2)] subtree_count_pos [OF cs(2)] by auto
      then obtain e where e: "e \<in> set (entries c)" by (cases "entries c") auto
      have "d7_hamt_index (d7_hamt_get_hash p (entry_key e)) s = i"
        using wf c entries_hash [OF cs(2) e] by auto
      then show ?thesis using e cs(1) by auto
    qed
    obtain i j where ij: "i \<noteq> j" "bit dm i \<or> bit nm i" "bit dm j \<or> bit nm j"
    proof -
      have "card {i. bit dm i} = length data" "card {i. bit nm i} = length children"
        using dense by (simp_all add: dense_length length_positions)
      moreover have "{i. bit dm i} \<inter> {i. bit nm i} = {}" using wf by (auto simp: and_eq_0_iff)
      moreover have fin: "finite {i. bit (b :: u32) i}" for b
        by (rule finite_subset [of _ "{..<32}"]) (auto dest: bit_u32_lt)
      ultimately have "card ({i. bit dm i} \<union> {i. bit nm i}) = length data + length children"
        by (simp add: card_Un_disjoint)
      moreover have "finite ({i. bit dm i} \<union> {i. bit nm i})" using fin by simp
      ultimately have "\<not> (\<forall>i\<in>{i. bit dm i} \<union> {i. bit nm i}. \<forall>j\<in>{i. bit dm i} \<union> {i. bit nm i}. i = j)"
        using True card_le_Suc0_iff_eq [of "{i. bit dm i} \<union> {i. bit nm i}"] by linarith
      then show thesis using that by blast
    qed
    then show ?thesis using entry [OF ij(2)] entry [OF ij(3)] ij(1) by metis
  qed
qed auto

text \<open>Nodes with corresponding entries are alike.\<close>

lemma same_value_keys:
  assumes "\<And>k. same_value P (look p l (d7_hamt_get_hash p k) s k) (look p r (d7_hamt_get_hash p k) s k)"
  shows "same_keys s l r"
  unfolding same_keys_def
proof
  fix k
  show "look p l (d7_hamt_get_hash p k) s k = None \<longleftrightarrow> look p r (d7_hamt_get_hash p k) s k = None"
    using assms [of k] by (cases rule: option.rel_cases) auto
qed

lemma same_value_entry:
  assumes wf: "wf_node p s l" "wf_node p s r" and e: "e \<in> set (entries l)"
    and same: "\<And>k. same_value P (look p l (d7_hamt_get_hash p k) s k) (look p r (d7_hamt_get_hash p k) s k)"
  shows "\<exists>e'\<in>set (entries r). d7_hamt_keys_equal p (entry_key e) (entry_key e') \<and> P (entry_value e) (entry_value e')"
proof -
  obtain e' where e': "look p r (d7_hamt_get_hash p (entry_key e)) s (entry_key e) = Some e'" "P (entry_value e) (entry_value e')"
    using same [of "entry_key e"] entries_look [OF wf(1) e] by (auto simp: option_rel_Some1)
  show ?thesis
    by (rule bexI [OF _ look_in_entries [OF e'(1)]]) (use e'(2) keq_sym [OF look_key [OF e'(1)]] in simp)
qed

lemma child_other_slot:
  assumes "wf_node p s (Bitmap_Indexed a dm nm data children n)" "sparse nm children i = Some c"
    and "d7_hamt_index h s \<noteq> i"
  shows "look p c h s' k = None"
proof (rule ccontr)
  assume "look p c h s' k \<noteq> None"
  then have "h \<in> node_hashes c" by (rule look_hash)
  then show False using assms by auto
qed

text \<open>The part of a branch below one slot, as a node: an inline entry counts as a leaf.\<close>

definition slot_node :: "u32 \<Rightarrow> u32 \<Rightarrow> ('k, 'v) d7_hamt_inline_entry list \<Rightarrow> ('k, 'v) d7_hamt_node list
    \<Rightarrow> nat \<Rightarrow> ('k, 'v) d7_hamt_node option" where
  "slot_node dm nm data children i =
     (case sparse dm data i of
        Some e \<Rightarrow> Some (Leaf 0 (inline_hash e) (entry_key (inline_entry e)) (entry_value (inline_entry e)))
      | None \<Rightarrow> sparse nm children i)"

lemma slot_node_look:
  assumes wf: "wf_node p s (Bitmap_Indexed a dm nm data children n)"
  shows "look_opt p (slot_node dm nm data children i) h (s + 5) k =
    (if d7_hamt_index h s = i then look p (Bitmap_Indexed a dm nm data children n) h s k else None)"
proof (cases "sparse dm data i")
  case (Some e)
  then have "d7_hamt_index (inline_hash e) s = i" using wf by simp
  then show ?thesis
    using Some by (auto simp: slot_node_def inline_match_def entry_matches_def)
next
  case None
  then show ?thesis
    using child_other_slot [OF wf] by (auto simp: slot_node_def look_opt_def split: option.split)
qed

lemma slot_node_wf:
  assumes wf: "wf_node p s (Bitmap_Indexed a dm nm data children n)" and "slot_node dm nm data children i = Some m"
  shows "wf_node p (s + 5) m" "is_leaf m \<longleftrightarrow> bit dm i" "\<not> is_leaf m \<Longrightarrow> sparse nm children i = Some m" "bit dm i \<or> bit nm i"
proof -
  have dense: "dense dm data" "dense nm children" using wf by simp_all
  have "wf_node p (s + 5) m \<and> (is_leaf m \<longleftrightarrow> bit dm i) \<and> (\<not> is_leaf m \<longrightarrow> sparse nm children i = Some m) \<and> (bit dm i \<or> bit nm i)"
  proof (cases "sparse dm data i")
    case None
    then have m: "sparse nm children i = Some m" using assms(2) by (simp add: slot_node_def)
    have "m \<in> set children" using m by (rule sparse_Some_in_set)
    then show ?thesis
      using wf m None sparse_None [OF dense(1), of i] sparse_Some_bit [OF m] by simp
  next
    case (Some e)
    then have m: "m = Leaf 0 (inline_hash e) (entry_key (inline_entry e)) (entry_value (inline_entry e))"
      using assms(2) by (simp add: slot_node_def)
    show ?thesis
      using wf sparse_Some_bit [OF Some] sparse_Some_in_set [OF Some] by (simp add: m)
  qed
  then show "wf_node p (s + 5) m" "is_leaf m \<longleftrightarrow> bit dm i" "\<not> is_leaf m \<Longrightarrow> sparse nm children i = Some m" "bit dm i \<or> bit nm i"
    by blast+
qed

lemma slot_node_None:
  assumes "wf_node p s (Bitmap_Indexed a dm nm data children n)"
  shows "slot_node dm nm data children i = None \<longleftrightarrow> \<not> bit dm i \<and> \<not> bit nm i"
proof -
  have dense: "dense dm data" "dense nm children" using assms by simp_all
  show ?thesis
    using sparse_None [OF dense(1), of i] sparse_None [OF dense(2), of i]
    by (cases "sparse dm data i") (simp_all add: slot_node_def)
qed

lemma wf_node_look_ex: "wf_node p s n \<Longrightarrow> \<exists>k. look p n (d7_hamt_get_hash p k) s k \<noteq> None"
proof -
  assume wf: "wf_node p s n"
  have "entries n \<noteq> []" using length_entries [OF wf] subtree_count_pos [OF wf] by auto
  then obtain e where "e \<in> set (entries n)" by (cases "entries n") auto
  then show ?thesis using entries_look [OF wf] by blast
qed

lemma alikeI:
  assumes "wf_node p s l" "wf_node p s r"
    and "\<And>k. same_value P (look p l (d7_hamt_get_hash p k) s k) (look p r (d7_hamt_get_hash p k) s k)"
  shows "alike p P l r"
  using assms
proof (induction l arbitrary: s r)
  case (Leaf a h k v)
  note keys = same_value_keys [OF Leaf.prems(3)]
  have "is_leaf r" using same_keys_count [OF Leaf.prems(1,2) keys] is_leaf_count [OF Leaf.prems(2)] by simp
  then obtain a' h' k' v' where r: "r = Leaf a' h' k' v'" by (cases r) auto
  have "d7_hamt_keys_equal p k k'" "P v v'"
    using same_value_entry [OF Leaf.prems(1,2) _ Leaf.prems(3), of "Entry k v"] by (simp_all add: r)
  then show ?case using keq_hash [of k k'] Leaf.prems(1,2) by (simp add: r)
next
  case (Collision a h es)
  let ?l = "Collision a h es"
  note keys = same_value_keys [OF Collision.prems(3)]
  have nl: "\<not> is_leaf r"
    using same_keys_count [OF Collision.prems(1,2) keys] is_leaf_count [OF Collision.prems(2)] Collision.prems(1) by auto
  have "\<not> is_bitmap r"
  proof
    assume "is_bitmap r"
    then obtain e e' where e: "e \<in> set (entries r)" "e' \<in> set (entries r)"
      "d7_hamt_get_hash p (entry_key e) \<noteq> d7_hamt_get_hash p (entry_key e')"
      using branch_two_hashes [OF Collision.prems(2)] by blast
    have "d7_hamt_get_hash p (entry_key x) = h" if "x \<in> set (entries r)" for x
      using same_keys_entry [OF Collision.prems(2,1) same_keys_sym [OF keys] that] Collision.prems(1)
      by (auto dest: keq_hash)
    then show False using e by metis
  qed
  with nl obtain a' h' es' where r: "r = Collision a' h' es'" by (cases r) auto
  have m: "\<exists>e'\<in>set es'. d7_hamt_keys_equal p (entry_key e) (entry_key e') \<and> P (entry_value e) (entry_value e')"
    if "e \<in> set es" for e
    using same_value_entry [OF Collision.prems(1,2) _ Collision.prems(3), of e] that by (simp add: r)
  have len: "length es = length es'" using same_keys_count [OF Collision.prems(1,2) keys] by (simp add: r)
  obtain e where e: "e \<in> set es" using Collision.prems(1) by (cases es) auto
  then obtain e' where "e' \<in> set es'" "d7_hamt_keys_equal p (entry_key e) (entry_key e')" using m by blast
  then have "h = h'" using e Collision.prems(1,2) keq_hash [of "entry_key e" "entry_key e'"] by (auto simp: r)
  then show ?case using m len by (simp add: r)
next
  case (Bitmap_Indexed a dm nm data children n)
  let ?l = "Bitmap_Indexed a dm nm data children n"
  note wf = Bitmap_Indexed.prems(1,2) and same = Bitmap_Indexed.prems(3)
  note keys = same_value_keys [OF same]
  have "\<not> is_leaf r"
    using same_keys_count [OF wf keys] is_leaf_count [OF wf(1)] is_leaf_count [OF wf(2)] by simp
  moreover have "\<not> (\<exists>a h es. r = Collision a h es)"
  proof
    assume "\<exists>a h es. r = Collision a h es"
    then obtain a' h' es' where r: "r = Collision a' h' es'" by blast
    obtain e e' where e: "e \<in> set (entries ?l)" "e' \<in> set (entries ?l)"
      "d7_hamt_get_hash p (entry_key e) \<noteq> d7_hamt_get_hash p (entry_key e')"
      using branch_two_hashes [OF wf(1)] by auto
    have "d7_hamt_get_hash p (entry_key x) = h'" if "x \<in> set (entries ?l)" for x
      using same_keys_entry [OF wf keys that] wf(2) by (auto simp: r dest: keq_hash)
    then show False using e by metis
  qed
  ultimately obtain a' dm' nm' data' children' n' where r: "r = Bitmap_Indexed a' dm' nm' data' children' n'"
    by (cases r) auto
  note wfr = wf(2) [unfolded r]
  let ?L = "slot_node dm nm data children" and ?R = "slot_node dm' nm' data' children'"
  have slot: "same_value P (look_opt p (?L i) (d7_hamt_get_hash p k) (s + 5) k)
      (look_opt p (?R i) (d7_hamt_get_hash p k) (s + 5) k)" for i k
    using same [of k] unfolding slot_node_look [OF wf(1)] slot_node_look [OF wfr] r
    by (simp del: look.simps)
  have both: "?L i = None \<longleftrightarrow> ?R i = None" for i
  proof -
    have "\<exists>k. look_opt p x (d7_hamt_get_hash p k) (s + 5) k \<noteq> None" if "x = Some m" "wf_node p (s + 5) m" for x m
      using wf_node_look_ex [OF that(2)] that(1) by simp
    moreover have "look_opt p (?L i) (d7_hamt_get_hash p k) (s + 5) k = None \<longleftrightarrow>
        look_opt p (?R i) (d7_hamt_get_hash p k) (s + 5) k = None" for k
      using slot [of i k] by (cases rule: option.rel_cases) auto
    ultimately show ?thesis
      using slot_node_wf(1) [OF wf(1), of i] slot_node_wf(1) [OF wfr, of i] by (metis not_None_eq opt_None(1))
  qed
  have pair: "(is_leaf m \<longleftrightarrow> is_leaf m') \<and> wf_node p (s + 5) m \<and> wf_node p (s + 5) m' \<and>
      (\<forall>k. same_value P (look p m (d7_hamt_get_hash p k) (s + 5) k) (look p m' (d7_hamt_get_hash p k) (s + 5) k))"
    if m: "?L i = Some m" "?R i = Some m'" for i m m'
  proof -
    have w: "wf_node p (s + 5) m" "wf_node p (s + 5) m'" using slot_node_wf(1) wf(1) wfr m by blast+
    have sv: "same_value P (look p m (d7_hamt_get_hash p k) (s + 5) k) (look p m' (d7_hamt_get_hash p k) (s + 5) k)" for k
      using slot [of i k] m by simp
    then show ?thesis
      using w same_keys_count [OF w same_value_keys [OF sv]] is_leaf_count [OF w(1)] is_leaf_count [OF w(2)] by simp
  qed
  have bits: "bit dm i = bit dm' i \<and> bit nm i = bit nm' i" for i
  proof (cases "?L i")
    case None
    then show ?thesis using both [of i] slot_node_None [OF wf(1)] slot_node_None [OF wfr] by simp
  next
    case (Some m)
    then obtain m' where m': "?R i = Some m'" using both [of i] by auto
    have "bit dm i = bit dm' i" using pair [OF Some m'] slot_node_wf(2) [OF wf(1) Some] slot_node_wf(2) [OF wfr m'] by simp
    moreover have "\<not> (bit dm i \<and> bit nm i)" "\<not> (bit dm' i \<and> bit nm' i)" using wf(1) wfr wf_disjoint by auto
    ultimately show ?thesis using slot_node_wf(4) [OF wf(1) Some] slot_node_wf(4) [OF wfr m'] by auto
  qed
  have maps: "dm = dm'" "nm = nm'" using bits by (auto intro: bit_eqI)
  have dense: "dense dm data" "dense nm children" "dense dm data'" "dense nm children'"
    using wf(1) wfr by (simp_all add: maps)
  have lens: "length data = length data'" "length children = length children'"
    using dense by (simp_all add: dense_length)
  have "list_all2 (\<lambda>l r. inline_hash l = inline_hash r \<and>
      d7_hamt_keys_equal p (entry_key (inline_entry l)) (entry_key (inline_entry r)) \<and>
      P (entry_value (inline_entry l)) (entry_value (inline_entry r))) data data'"
  proof (rule list_all2_all_nthI [OF lens(1)])
    fix i assume i: "i < length data"
    let ?x = "data ! i" and ?y = "data' ! i"
    have sp: "sparse dm data (positions dm ! i) = Some ?x" "sparse dm data' (positions dm ! i) = Some ?y"
      using dense_positions_nth [OF dense(1) i] dense_positions_nth [OF dense(3)] i lens(1) by simp_all
    let ?m = "Leaf 0 (inline_hash ?x) (entry_key (inline_entry ?x)) (entry_value (inline_entry ?x))"
    let ?m' = "Leaf 0 (inline_hash ?y) (entry_key (inline_entry ?y)) (entry_value (inline_entry ?y))"
    have "?L (positions dm ! i) = Some ?m" "?R (positions dm ! i) = Some ?m'"
      using sp by (simp_all add: slot_node_def maps)
    from pair [OF this] have w: "wf_node p (s + 5) ?m" "wf_node p (s + 5) ?m'"
      and sv: "\<And>k. same_value P (look p ?m (d7_hamt_get_hash p k) (s + 5) k) (look p ?m' (d7_hamt_get_hash p k) (s + 5) k)"
      by blast+
    have "d7_hamt_keys_equal p (entry_key (inline_entry ?x)) (entry_key (inline_entry ?y)) \<and>
        P (entry_value (inline_entry ?x)) (entry_value (inline_entry ?y))"
      using same_value_entry [OF w _ sv, of "Entry (entry_key (inline_entry ?x)) (entry_value (inline_entry ?x))"] by simp
    then show "inline_hash ?x = inline_hash ?y \<and>
      d7_hamt_keys_equal p (entry_key (inline_entry ?x)) (entry_key (inline_entry ?y)) \<and>
      P (entry_value (inline_entry ?x)) (entry_value (inline_entry ?y))"
      using w keq_hash by auto
  qed
  moreover have "list_all2 (\<lambda>l r. alike p P l r) children children'"
  proof (rule list_all2_all_nthI [OF lens(2)])
    fix i assume i: "i < length children"
    let ?x = "children ! i" and ?y = "children' ! i" and ?i = "positions nm ! i"
    have sp: "sparse nm children ?i = Some ?x" "sparse nm children' ?i = Some ?y"
      using dense_positions_nth [OF dense(2) i] dense_positions_nth [OF dense(4)] i lens(2) by simp_all
    have "sparse dm data ?i = None" "sparse dm data' ?i = None"
      using sp slots_disjoint [OF dense(1,2)] slots_disjoint [OF dense(3,4)] wf(1) by auto
    then have "?L ?i = Some ?x" "?R ?i = Some ?y" using sp by (simp_all add: slot_node_def maps)
    from pair [OF this] show "alike p P ?x ?y" using i by (intro Bitmap_Indexed.IH) auto
  qed
  ultimately show ?case by (simp add: r maps)
qed

lemma find_match:
  assumes "distinct_keys p R" "r \<in> set R" "d7_hamt_keys_equal p (entry_key r) k"
  shows "find (entry_matches p k) R = Some r"
proof -
  have "entry_matches p k = entry_matches p (entry_key r)"
    using keq_right [OF assms(3)] by (auto simp: entry_matches_def fun_eq_iff)
  then show ?thesis using find_unique [OF assms(1,2)] keq_sym by simp
qed

lemma bucket_same_value:
  assumes L: "distinct_keys p L" and R: "distinct_keys p R" and len: "length L = length R"
    and m: "\<And>l. l \<in> set L \<Longrightarrow> \<exists>r\<in>set R. d7_hamt_keys_equal p (entry_key l) (entry_key r) \<and> P (entry_value l) (entry_value r)"
  shows "same_value P (find (entry_matches p k) L) (find (entry_matches p k) R)"
proof (cases "find (entry_matches p k) L")
  case (Some l)
  then have l: "l \<in> set L" "d7_hamt_keys_equal p (entry_key l) k" by (auto simp: find_Some_iff entry_matches_def)
  then obtain r where r: "r \<in> set R" "d7_hamt_keys_equal p (entry_key l) (entry_key r)" "P (entry_value l) (entry_value r)"
    using m by blast
  then show ?thesis using Some find_match [OF R r(1) keq_trans [OF keq_sym [OF r(2)] l(2)]] by simp
next
  case None
  have "find (entry_matches p k) R = None"
  proof (rule ccontr)
    assume "find (entry_matches p k) R \<noteq> None"
    then obtain r where r: "r \<in> set R" "d7_hamt_keys_equal p (entry_key r) k" by (auto simp: find_None_iff entry_matches_def)
    have "\<exists>l\<in>set L. d7_hamt_keys_equal p (entry_key l) (entry_key r)"
      by (rule keys_onto [OF L _ _ r(1)]) (use len m in auto)
    then obtain l where "l \<in> set L" "d7_hamt_keys_equal p (entry_key l) k" using keq_trans [OF _ r(2)] by blast
    then show False using None by (auto simp: find_None_iff entry_matches_def)
  qed
  then show ?thesis using None by simp
qed

lemma same_value_refl: "same_value (d7_hamt_values_equal p) x x"
  by (cases x) simp_all

lemma nodes_equal_values:
  assumes "heap S t" "subnodes l \<subseteq> S" "subnodes r \<subseteq> S" "wf_node p s l" "wf_node p s r"
    and "d7_hamt_nodes_equal p l r"
  shows "same_value (d7_hamt_values_equal p) (look p l h s k) (look p r h s k)"
  using assms
proof (induction l arbitrary: s r)
  case (Leaf a h0 k0 v0)
  show ?case
  proof (cases "a = node_addr r")
    case True
    then have "Leaf a h0 k0 v0 = r" using heap_root_same [OF Leaf.prems(1-3)] by simp
    then show ?thesis using same_value_refl by simp
  next
    case False
    then obtain a' k' v' where "r = Leaf a' h0 k' v'" "d7_hamt_keys_equal p k0 k'" "d7_hamt_values_equal p v0 v'"
      using Leaf.prems(6) by (cases r) auto
    then show ?thesis using keq_left [of k0 k' k] by simp
  qed
next
  case (Collision a h0 es)
  show ?case
  proof (cases "a = node_addr r")
    case True
    then have "Collision a h0 es = r" using heap_root_same [OF Collision.prems(1-3)] by simp
    then show ?thesis using same_value_refl by simp
  next
    case False
    then obtain a' es' where r: "r = Collision a' h0 es'" "length es = length es'"
      "\<forall>l\<in>set es. \<exists>r\<in>set es'. d7_hamt_keys_equal p (entry_key l) (entry_key r) \<and>
              d7_hamt_values_equal p (entry_value l) (entry_value r)"
      using Collision.prems(6) by (cases r) auto
    then show ?thesis
      using bucket_same_value [of es es' "d7_hamt_values_equal p" k] Collision.prems(4,5) by simp
  qed
next
  case (Bitmap_Indexed a dm nm data children n)
  let ?l = "Bitmap_Indexed a dm nm data children n" and ?i = "d7_hamt_index h s"
  show ?case
  proof (cases "a = node_addr r")
    case True
    then have "?l = r" using heap_root_same [OF Bitmap_Indexed.prems(1-3)] by simp
    then show ?thesis using same_value_refl by simp
  next
    case False
    then obtain a' data' children' n' where r: "r = Bitmap_Indexed a' dm nm data' children' n'"
      and d: "list_all2 (\<lambda>l r. inline_hash l = inline_hash r \<and>
             d7_hamt_keys_equal p (entry_key (inline_entry l)) (entry_key (inline_entry r)) \<and>
             d7_hamt_values_equal p (entry_value (inline_entry l)) (entry_value (inline_entry r))) data data'"
      and c: "list_all2 (\<lambda>l r. d7_hamt_nodes_equal p l r) children children'"
      using Bitmap_Indexed.prems(6) by (cases r) auto
    show ?thesis
    proof (cases "sparse dm data ?i")
      case (Some x)
      then obtain y where y: "sparse dm data' ?i = Some y" "inline_hash x = inline_hash y"
        "d7_hamt_keys_equal p (entry_key (inline_entry x)) (entry_key (inline_entry y))"
        "d7_hamt_values_equal p (entry_value (inline_entry x)) (entry_value (inline_entry y))"
        using sparse_list_all2 [OF d, of dm ?i] by (auto simp: option_rel_Some1)
      then show ?thesis using Some keq_left [OF y(3), of k] by (simp add: r inline_match_def entry_matches_def)
    next
      case None
      then have none': "sparse dm data' ?i = None" using sparse_list_all2 [OF d, of dm ?i] by simp
      show ?thesis
      proof (cases "sparse nm children ?i")
        case None
        then have "sparse nm children' ?i = None" using sparse_list_all2 [OF c, of nm ?i] by simp
        then show ?thesis using None none' \<open>sparse dm data ?i = None\<close> by (simp add: r)
      next
        case (Some x)
        then obtain y where y: "sparse nm children' ?i = Some y" "d7_hamt_nodes_equal p x y"
          using sparse_list_all2 [OF c, of nm ?i] by (auto simp: option_rel_Some1)
        have mem: "x \<in> set children" "y \<in> set children'" using Some y(1) sparse_Some_in_set by metis+
        have "same_value (d7_hamt_values_equal p) (look p x h (s + 5) k) (look p y h (s + 5) k)"
          using Bitmap_Indexed.prems mem y(2) by (intro Bitmap_Indexed.IH [OF mem(1)]) (auto simp: r)
        then show ?thesis using Some y none' \<open>sparse dm data ?i = None\<close> by (simp add: r)
      qed
    qed
  qed
qed

end

section \<open>The validator\<close>

definition d7_hamt_debug_hash_has_prefix :: "u32 \<Rightarrow> u32 \<Rightarrow> u32 \<Rightarrow> bool" where
  "d7_hamt_debug_hash_has_prefix h prefix m \<longleftrightarrow> h AND m = prefix"

definition d7_hamt_debug_next_prefix_mask :: "nat \<Rightarrow> u32" where
  "d7_hamt_debug_next_prefix_mask shift = (if 27 \<le> shift then - 1 else d7_hamt_bit (shift + 5) - 1)"

text \<open>
  \<open>None\<close> where the validator returns false, and otherwise the number of entries it counted. The loop
  over the 32 slots keeps the running total and the next unread positions of the two arrays.
\<close>

function d7_hamt_debug_validate_node ::
  "('k, 'v) d7_hamt_node \<Rightarrow> nat \<Rightarrow> u32 \<Rightarrow> u32 \<Rightarrow> nat option" where
  "d7_hamt_debug_validate_node (Leaf a h k v) shift prefix prefix_mask =
     (if d7_hamt_debug_hash_has_prefix h prefix prefix_mask then Some 1 else None)"
| "d7_hamt_debug_validate_node (Collision a h es) shift prefix prefix_mask =
     (if 2 \<le> length es \<and> d7_hamt_debug_hash_has_prefix h prefix prefix_mask then Some (length es) else None)"
| "d7_hamt_debug_validate_node (Bitmap_Indexed a dm nm data children n) shift prefix prefix_mask =
     (if 30 < shift \<or> dm AND nm \<noteq> 0 \<or> d7_hamt_popcount dm \<noteq> length data \<or>
         d7_hamt_popcount nm \<noteq> length children \<or> length data + length children = 0 then None
      else if length data + length children < 2 \<and>
         \<not> (data = [] \<and> length children = 1 \<and> is_bitmap (children ! 0)) then None
      else
        (let next_mask = d7_hamt_debug_next_prefix_mask shift
         in case fold_option
              (\<lambda>(sum_so_far, data_idx, child_idx) slot.
                 let slot_bit = d7_hamt_bit slot;
                     slot_prefix = prefix OR push_bit shift (of_nat slot)
                 in if shift = 30 \<and> 3 < slot \<and> (dm OR nm) AND slot_bit \<noteq> 0 then None
                    else if dm AND slot_bit \<noteq> 0 \<and>
                      (case nth_opt data data_idx of
                         None \<Rightarrow> True
                       | Some e \<Rightarrow> \<not> d7_hamt_debug_hash_has_prefix (inline_hash e) slot_prefix next_mask)
                    then None
                    else
                      (let data_idx = (if dm AND slot_bit \<noteq> 0 then Suc data_idx else data_idx)
                       in if nm AND slot_bit \<noteq> 0 then
                            (case nth_opt children child_idx of
                               None \<Rightarrow> None
                             | Some c \<Rightarrow>
                                 if is_leaf c then None
                                 else
                                   (case d7_hamt_debug_validate_node c (shift + 5) slot_prefix next_mask of
                                      None \<Rightarrow> None
                                    | Some child_count \<Rightarrow>
                                        if SIZE_MAX - sum_so_far < child_count then None
                                        else Some (sum_so_far + child_count, data_idx, Suc child_idx)))
                          else Some (sum_so_far, data_idx, child_idx)))
              (length data, 0, 0) [0..<32]
            of None \<Rightarrow> None
             | Some (sum_so_far, data_idx, child_idx) \<Rightarrow>
                 if data_idx \<noteq> length data \<or> child_idx \<noteq> length children then None
                 else if n = sum_so_far then Some sum_so_far else None))"
  by pat_completeness auto
termination
  by (relation "measure (\<lambda>(n, _). size n)") (auto dest: nth_opt_size)

definition d7_hamt_map_debug_validate_canonical :: "('k, 'v) d7_hamt_map option \<Rightarrow> bool" where
  "d7_hamt_map_debug_validate_canonical mp =
     (case mp of
        None \<Rightarrow> False
      | Some m \<Rightarrow>
          (case root m of
             None \<Rightarrow> count m = 0
           | Some n \<Rightarrow> d7_hamt_debug_validate_node n 0 0 0 = Some (count m)))"


subsection \<open>Well-formed tries are valid\<close>

lemma next_prefix_mask: "d7_hamt_debug_next_prefix_mask s = mask (s + 5)"
proof (cases "27 \<le> s")
  case True
  then show ?thesis
    by (auto simp: d7_hamt_debug_next_prefix_mask_def bit_eq_iff bit_mask_iff)
next
  case False
  then show ?thesis
    by (simp add: d7_hamt_debug_next_prefix_mask_def d7_hamt_bit_def mask_eq_exp_minus_1 push_bit_eq_mult)
qed

lemma has_prefix_mask: "d7_hamt_debug_hash_has_prefix h prefix (mask s) \<longleftrightarrow> take_bit s h = prefix"
  by (simp add: d7_hamt_debug_hash_has_prefix_def take_bit_eq_mask)

lemma slot_prefix:
  "take_bit s h OR push_bit s (of_nat (d7_hamt_index h s)) = take_bit (s + 5) (h :: u32)"
proof (rule bit_word_eqI)
  fix j :: nat assume j: "j < LENGTH(32)"
  have "bit (push_bit s (of_nat (d7_hamt_index h s)) :: u32) j \<longleftrightarrow> s \<le> j \<and> j - s < 5 \<and> bit h (s + (j - s))"
    using j by (auto simp: bit_push_bit_iff bit_of_nat_iff d7_hamt_index_bit)
  then show "bit (take_bit s h OR push_bit s (of_nat (d7_hamt_index h s))) j = bit (take_bit (s + 5) h) j"
    by (auto simp: bit_or_iff bit_take_bit_iff)
qed

lemma d7_hamt_index_last: "d7_hamt_index h 30 < 4"
proof -
  have "take_bit 2 (d7_hamt_index h 30) = d7_hamt_index h 30"
    by (rule bit_eqI) (auto simp: bit_take_bit_iff d7_hamt_index_bit dest: bit_u32_lt)
  moreover have "take_bit 2 (d7_hamt_index h 30) < 2 ^ 2" by (rule take_bit_nat_less_exp)
  ultimately show ?thesis by simp
qed

lemma rank_Suc: "rank b (Suc i) = rank b i + (if bit b i then 1 else 0)"
  by (simp add: rank_def)

lemma rank_full: "rank b 32 = length (positions b)"
  by (simp add: rank_def positions_def)

lemma node_hashes_nonempty: "wf_node p s n \<Longrightarrow> node_hashes n \<noteq> {}"
proof (induction n arbitrary: s)
  case (Bitmap_Indexed a dm nm data children n)
  show ?case
  proof (cases children)
    case Nil
    then show ?thesis using Bitmap_Indexed.prems by auto
  next
    case (Cons c cs)
    then show ?thesis using Bitmap_Indexed.IH [of c "s + 5"] Bitmap_Indexed.prems by auto
  qed
qed auto

lemma sum_list_take_le: "sum_list (take i xs) \<le> sum_list (xs :: nat list)"
  by (metis append_take_drop_id le_add1 sum_list_append)

lemma validate_ok:
  assumes "wf_node p s n" and "5 dvd s" and "\<And>h. h \<in> node_hashes n \<Longrightarrow> take_bit s h = prefix"
    and "subtree_count n \<le> SIZE_MAX"
  shows "d7_hamt_debug_validate_node n s prefix (mask s) = Some (subtree_count n)"
  using assms
proof (induction n arbitrary: s prefix)
  case (Bitmap_Indexed a dm nm data children n)
  note wf = Bitmap_Indexed.prems(1) and hash = Bitmap_Indexed.prems(3)
  have dense: "dense dm data" "dense nm children" using wf by simp_all
  have n: "n = length data + sum_list (map subtree_count children)" using wf by (simp add: bitmap_count_def)
  have s30: "s \<le> 30" using wf Bitmap_Indexed.prems(2) by (auto elim!: dvdE)
  let ?cnt = "\<lambda>i. length data + sum_list (map subtree_count (take (rank nm i) children))"
  define body where "body = (\<lambda>(sum_so_far, data_idx, child_idx) slot.
                 let slot_bit = d7_hamt_bit slot;
                     slot_prefix = prefix OR push_bit s (of_nat slot)
                 in if s = 30 \<and> 3 < slot \<and> (dm OR nm) AND slot_bit \<noteq> 0 then None
                    else if dm AND slot_bit \<noteq> 0 \<and>
                      (case nth_opt data data_idx of
                         None \<Rightarrow> True
                       | Some e \<Rightarrow> \<not> d7_hamt_debug_hash_has_prefix (inline_hash e) slot_prefix (mask (s + 5)))
                    then None
                    else
                      (let data_idx = (if dm AND slot_bit \<noteq> 0 then Suc data_idx else data_idx)
                       in if nm AND slot_bit \<noteq> 0 then
                            (case nth_opt children child_idx of
                               None \<Rightarrow> None
                             | Some c \<Rightarrow>
                                 if is_leaf c then None
                                 else
                                   (case d7_hamt_debug_validate_node c (s + 5) slot_prefix (mask (s + 5)) of
                                      None \<Rightarrow> None
                                    | Some child_count \<Rightarrow>
                                        if SIZE_MAX - sum_so_far < child_count then None
                                        else Some (sum_so_far + child_count, data_idx, Suc child_idx)))
                          else Some (sum_so_far, data_idx, child_idx)))"
  have prefix: "prefix OR push_bit s (of_nat i) = take_bit (s + 5) h"
    if "h \<in> node_hashes (Bitmap_Indexed a dm nm data children n)" "d7_hamt_index h s = i" for h i
    using slot_prefix [of s h] hash [OF that(1)] that(2) by simp
  have step: "body (?cnt i, rank dm i, rank nm i) i = Some (?cnt (Suc i), rank dm (Suc i), rank nm (Suc i))"
    if i: "i < 32" for i
  proof -
    have dbit: "dm AND d7_hamt_bit i \<noteq> 0 \<longleftrightarrow> bit dm i" "nm AND d7_hamt_bit i \<noteq> 0 \<longleftrightarrow> bit nm i"
      "(dm OR nm) AND d7_hamt_bit i \<noteq> 0 \<longleftrightarrow> bit dm i \<or> bit nm i"
      using i by (simp_all add: and_d7_hamt_bit_nonzero bit_or_iff)
    have data: "\<exists>e. nth_opt data (rank dm i) = Some e \<and> d7_hamt_index (inline_hash e) s = i \<and>
        inline_hash e \<in> node_hashes (Bitmap_Indexed a dm nm data children n)" if "bit dm i"
    proof -
      obtain e where e: "sparse dm data i = Some e" using sparse_None [OF dense(1), of i] \<open>bit dm i\<close> by auto
      then show ?thesis
        using wf sparse_nth_opt [OF i \<open>bit dm i\<close> dense(1)] sparse_Some_in_set [OF e] by auto
    qed
    have child: "\<exists>c. nth_opt children (rank nm i) = Some c \<and> c \<in> set children \<and> \<not> is_leaf c \<and> wf_node p (s + 5) c \<and>
        (\<forall>h\<in>node_hashes c. d7_hamt_index h s = i \<and> h \<in> node_hashes (Bitmap_Indexed a dm nm data children n))" if "bit nm i"
    proof -
      obtain c where c: "sparse nm children i = Some c" using sparse_None [OF dense(2), of i] \<open>bit nm i\<close> by auto
      then show ?thesis
        using wf sparse_nth_opt [OF i \<open>bit nm i\<close> dense(2)] sparse_Some_in_set [OF c] by auto
    qed
    have last: "\<not> (s = 30 \<and> 3 < i \<and> (bit dm i \<or> bit nm i))"
    proof
      assume a: "s = 30 \<and> 3 < i \<and> (bit dm i \<or> bit nm i)"
      then obtain h where "d7_hamt_index h 30 = i"
        using data child node_hashes_nonempty [of p "s + 5"] by (metis ex_in_conv)
      then show False using a d7_hamt_index_last [of h] by simp
    qed
    have disj: "\<not> (bit dm i \<and> bit nm i)" using wf wf_disjoint by auto
    show ?thesis
    proof (cases "bit nm i")
      case False
      have "\<exists>e. nth_opt data (rank dm i) = Some e \<and> take_bit (s + 5) (inline_hash e) = prefix OR push_bit s (of_nat i)"
        if "bit dm i"
      proof -
        obtain e where e: "nth_opt data (rank dm i) = Some e" "d7_hamt_index (inline_hash e) s = i"
          "inline_hash e \<in> node_hashes (Bitmap_Indexed a dm nm data children n)" using data \<open>bit dm i\<close> by blast
        then show ?thesis using prefix [OF e(3,2)] by auto
      qed
      then show ?thesis
        using last False by (auto simp: body_def Let_def dbit rank_Suc has_prefix_mask)
    next
      case True
      then obtain c where c: "nth_opt children (rank nm i) = Some c" "c \<in> set children" "\<not> is_leaf c" "wf_node p (s + 5) c"
        "\<forall>h\<in>node_hashes c. d7_hamt_index h s = i \<and> h \<in> node_hashes (Bitmap_Indexed a dm nm data children n)"
        using child by blast
      have r: "rank nm i < length children" "children ! rank nm i = c" using c(1) by (auto simp: nth_opt_def split: if_splits)
      have cnt: "?cnt (Suc i) = ?cnt i + subtree_count c"
        using True r by (simp add: rank_Suc take_Suc_conv_app_nth)
      have "?cnt (Suc i) \<le> n" using n sum_list_take_le [of "rank nm (Suc i)" "map subtree_count children"] by (simp add: take_map)
      then have max: "subtree_count c \<le> SIZE_MAX - ?cnt i" "subtree_count c \<le> SIZE_MAX"
        using cnt Bitmap_Indexed.prems(4) by simp_all
      have "d7_hamt_debug_validate_node c (s + 5) (prefix OR push_bit s (of_nat i)) (mask (s + 5)) = Some (subtree_count c)"
      proof (rule Bitmap_Indexed.IH [OF c(2,4)])
        show "take_bit (s + 5) h = prefix OR push_bit s (of_nat i)" if "h \<in> node_hashes c" for h
          using prefix [of h i] c(5) that by metis
      qed (use Bitmap_Indexed.prems(2) max(2) in auto)
      then show ?thesis
        using True disj last c max cnt by (simp add: body_def Let_def dbit rank_Suc)
    qed
  qed
  have loop: "fold_option body (length data, 0, 0) [0..<i] = Some (?cnt i, rank dm i, rank nm i)" if "i \<le> 32" for i
    using that
  proof (induction i)
    case 0
    then show ?case by (simp add: rank_def)
  next
    case (Suc i)
    then show ?case using step [of i] by (simp add: fold_option_append)
  qed
  have full: "rank dm 32 = length data" "rank nm 32 = length children" using dense by (simp_all add: rank_full dense_length)
  have c1: "\<not> (30 < s \<or> dm AND nm \<noteq> 0 \<or> d7_hamt_popcount dm \<noteq> length data \<or>
         d7_hamt_popcount nm \<noteq> length children \<or> length data + length children = 0)"
    using wf s30 by (auto simp: dense_def)
  have c2: "\<not> (length data + length children < 2 \<and> \<not> (data = [] \<and> length children = 1 \<and> is_bitmap (children ! 0)))"
    using wf by auto
  have "d7_hamt_debug_validate_node (Bitmap_Indexed a dm nm data children n) s prefix (mask s) =
      (case fold_option body (length data, 0, 0) [0..<32] of
         None \<Rightarrow> None
       | Some (sum_so_far, data_idx, child_idx) \<Rightarrow>
           if data_idx \<noteq> length data \<or> child_idx \<noteq> length children then None
           else if n = sum_so_far then Some sum_so_far else None)"
    by (simp only: d7_hamt_debug_validate_node.simps if_not_P [OF c1] if_not_P [OF c2] next_prefix_mask
        Let_def body_def)
  also have "\<dots> = Some (subtree_count (Bitmap_Indexed a dm nm data children n))"
    unfolding loop [OF order_refl] full by (simp add: n)
  finally show ?case .
qed (auto simp: has_prefix_mask)

end
