(* ===== verification/Hamt_Set.thy ===== *)
theory Hamt_Set
  imports Hamt_Algebra Hamt_Compare
begin

text \<open>
  The hash set of \<open>hamt.h\<close>: a map whose values are null, here the unit. Its operations wrap those of
  the map; the set algebra, the operations on arrays of items and the relations between sets are
  built from them.

  The meaning of a set is \<open>members\<close>, the set of all keys it contains, closed under the key equality of
  its policy; the count is the number of equivalence classes.
\<close>

record 'k d7_hamt_set =
  set_map :: "('k, unit) d7_hamt_map"

section \<open>Loops\<close>

text \<open>\<open>while (iterator_next) if (!test) return false; return true\<close>\<close>

function iterator_all ::
  "(('k, 'v) d7_hamt_entry \<Rightarrow> failure + bool) \<Rightarrow> ('k, 'v) d7_hamt_map_iterator \<Rightarrow> failure + bool" where
  "iterator_all f it =
     (case d7_hamt_map_iterator_next it of
        Inl e \<Rightarrow> Inl e
      | Inr (it', None) \<Rightarrow> Inr True
      | Inr (it', Some e) \<Rightarrow>
          (case f e of Inl err \<Rightarrow> Inl err | Inr ok \<Rightarrow> if ok then iterator_all f it' else Inr False))"
  by pat_completeness auto
termination
proof (relation "measure (\<lambda>(f, it). length (iterator_rest it))", goal_cases)
  case (2 f it r it' x e ok)
  then show ?case using iterator_next_rest [of it it' x] by simp
qed simp

declare iterator_all.simps [simp del]

lemma iterator_all_check:
  "iterator_ok it \<Longrightarrow> iterator_all f it = check_all f (iterator_rest it)"
proof (induction "iterator_rest it" arbitrary: it)
  case Nil
  obtain it' x where "d7_hamt_map_iterator_next it = Inr (it', x)" using iterator_next_ok [OF Nil.prems] by blast
  moreover from iterator_next_rest [OF this] Nil(1) have "x = None" by (cases x) auto
  ultimately show ?case using Nil(1) by (simp add: iterator_all.simps [of f it] flip: Nil(1))
next
  case (Cons e es)
  obtain it' x where n: "d7_hamt_map_iterator_next it = Inr (it', x)" "iterator_ok it'"
    using iterator_next_ok [OF Cons.prems] by blast
  from iterator_next_rest [OF n(1)] Cons(2) have x: "x = Some e" "es = iterator_rest it'" by (cases x; auto)+
  show ?case
    using n(1) x(1) Cons(1) [OF x(2) n(2)] x(2)
    by (simp add: iterator_all.simps [of f it] flip: Cons(2) split: sum.split)
qed

text \<open>\<open>for (...) if (test) return true; return false\<close>\<close>

fun check_any :: "('a \<Rightarrow> failure + bool) \<Rightarrow> 'a list \<Rightarrow> failure + bool" where
  "check_any f [] = Inr False"
| "check_any f (x # xs) =
     (case f x of Inl e \<Rightarrow> Inl e | Inr ok \<Rightarrow> if ok then Inr True else check_any f xs)"

lemma check_any_total: "check_any (\<lambda>i. Inr (P i)) xs = Inr (\<exists>i\<in>set xs. P i)"
  by (induction xs) auto

section \<open>The operations of the code\<close>

definition set_create_from :: "'k d7_hamt_set_policy \<Rightarrow> 'k d7_hamt_set" where
  "set_create_from sp = \<lparr>set_map = d7_hamt_map_create_from (map_policy_of_set_policy sp)\<rparr>"

definition d7_hamt_set_create ::
  "('k \<Rightarrow> 64 word) \<Rightarrow> 'k d7_hamt_set_policy_arg option \<Rightarrow> 'k d7_hamt_set" where
  "d7_hamt_set_create ptr pol =
     \<lparr>set_map = d7_hamt_map_create_from (d7_hamt_map_policy_from_set_policy ptr pol)\<rparr>"

definition d7_hamt_set_clone :: "('k \<Rightarrow> 64 word) \<Rightarrow> 'k d7_hamt_set option \<Rightarrow> 'k d7_hamt_set" where
  "d7_hamt_set_clone ptr sp =
     (case sp of
        None \<Rightarrow> \<lparr>set_map = d7_hamt_map_create ptr None\<rparr>
      | Some s \<Rightarrow> \<lparr>set_map = d7_hamt_map_clone ptr (Some (set_map s))\<rparr>)"

definition d7_hamt_set_destroy :: "'k d7_hamt_set option \<Rightarrow> 'k d7_hamt_set option" where
  "d7_hamt_set_destroy sp =
     (case sp of
        None \<Rightarrow> None
      | Some s \<Rightarrow> map_option (\<lambda>m. \<lparr>set_map = m\<rparr>) (d7_hamt_map_destroy (Some (set_map s))))"

definition d7_hamt_set_count :: "'k d7_hamt_set option \<Rightarrow> nat" where
  "d7_hamt_set_count sp = (case sp of None \<Rightarrow> 0 | Some s \<Rightarrow> count (set_map s))"

definition d7_hamt_set_is_empty :: "'k d7_hamt_set option \<Rightarrow> bool" where
  "d7_hamt_set_is_empty sp \<longleftrightarrow> d7_hamt_set_count sp = 0"

definition d7_hamt_set_contains :: "'k d7_hamt_set option \<Rightarrow> 'k \<Rightarrow> failure + bool" where
  "d7_hamt_set_contains sp item =
     (case sp of None \<Rightarrow> Inr False | Some s \<Rightarrow> d7_hamt_map_contains_key (Some (set_map s)) item)"

text \<open>\<open>None\<close> where the code leaves the output alone.\<close>

definition d7_hamt_set_try_get_value :: "'k d7_hamt_set option \<Rightarrow> 'k \<Rightarrow> failure + (bool \<times> 'k option)" where
  "d7_hamt_set_try_get_value sp equal_value =
     (case sp of
        None \<Rightarrow> Inr (False, None)
      | Some s \<Rightarrow>
          map_found (\<lambda>(found, key). (found, Some key)) (d7_hamt_map_try_get_key (Some (set_map s)) equal_value))"

definition d7_hamt_set_add :: "'k d7_hamt_set option \<Rightarrow> 'k \<Rightarrow> bool \<Rightarrow> 'k d7_hamt_set act" where
  "d7_hamt_set_add sp item result =
     (case sp of
        None \<Rightarrow> fail (Status D7_HAMT_INVALID_ARGUMENT)
      | Some s \<Rightarrow>
          if \<not> result then fail (Status D7_HAMT_INVALID_ARGUMENT)
          else andthen (d7_hamt_map_set (Some (set_map s)) item () True) (\<lambda>m. ret \<lparr>set_map = m\<rparr>))"

definition d7_hamt_set_try_add :: "'k d7_hamt_set option \<Rightarrow> 'k \<Rightarrow> bool \<Rightarrow> (bool \<times> 'k d7_hamt_set) act" where
  "d7_hamt_set_try_add sp item result =
     (case sp of
        None \<Rightarrow> fail (Status D7_HAMT_INVALID_ARGUMENT)
      | Some s \<Rightarrow>
          if \<not> result then fail (Status D7_HAMT_INVALID_ARGUMENT)
          else andthen (d7_hamt_map_try_add (Some (set_map s)) item () True)
                 (\<lambda>(added, m). ret (added, \<lparr>set_map = m\<rparr>)))"

definition d7_hamt_set_try_remove :: "'k d7_hamt_set option \<Rightarrow> 'k \<Rightarrow> bool \<Rightarrow> (bool \<times> 'k d7_hamt_set) act" where
  "d7_hamt_set_try_remove sp item result =
     (case sp of
        None \<Rightarrow> fail (Status D7_HAMT_INVALID_ARGUMENT)
      | Some s \<Rightarrow>
          if \<not> result then fail (Status D7_HAMT_INVALID_ARGUMENT)
          else andthen (d7_hamt_map_try_remove (Some (set_map s)) item True False)
                 (\<lambda>(removed, removed_value, m). ret (removed, \<lparr>set_map = m\<rparr>)))"

definition d7_hamt_set_remove :: "'k d7_hamt_set option \<Rightarrow> 'k \<Rightarrow> bool \<Rightarrow> 'k d7_hamt_set act" where
  "d7_hamt_set_remove sp item result =
     andthen (d7_hamt_set_try_remove sp item result) (\<lambda>(removed, s). ret s)"

definition d7_hamt_set_clear :: "'k d7_hamt_set option \<Rightarrow> bool \<Rightarrow> 'k d7_hamt_set act" where
  "d7_hamt_set_clear sp result =
     (case sp of
        None \<Rightarrow> fail (Status D7_HAMT_INVALID_ARGUMENT)
      | Some s \<Rightarrow>
          if \<not> result then fail (Status D7_HAMT_INVALID_ARGUMENT)
          else andthen (d7_hamt_map_clear (Some (set_map s)) True) (\<lambda>m. ret \<lparr>set_map = m\<rparr>))"

text \<open>A loop \<open>for (i = 0; i < item_count; ++i)\<close> that replaces a set by the outcome of an operation.\<close>

definition set_add_items :: "'k d7_hamt_set \<Rightarrow> 'k list \<Rightarrow> 'k d7_hamt_set act" where
  "set_add_items s items = fold_act (\<lambda>s item. d7_hamt_set_add (Some s) item True) s items"

definition set_remove_items :: "'k d7_hamt_set \<Rightarrow> 'k list \<Rightarrow> 'k d7_hamt_set act" where
  "set_remove_items s items = fold_act (\<lambda>s item. d7_hamt_set_remove (Some s) item True) s items"

definition d7_hamt_set_create_range ::
  "('k \<Rightarrow> 64 word) \<Rightarrow> 'k d7_hamt_set_policy_arg option \<Rightarrow> 'k list option \<Rightarrow> bool \<Rightarrow> 'k d7_hamt_set act" where
  "d7_hamt_set_create_range ptr pol items result =
     (case items of
        None \<Rightarrow> fail (Status D7_HAMT_INVALID_ARGUMENT)
      | Some xs \<Rightarrow>
          if \<not> result then fail (Status D7_HAMT_INVALID_ARGUMENT)
          else set_add_items (d7_hamt_set_create ptr pol) xs)"

subsection \<open>Set algebra\<close>

definition set_combine ::
  "(('k, unit) d7_hamt_map option \<Rightarrow> ('k, unit) d7_hamt_map option \<Rightarrow> bool \<Rightarrow> ('k, unit) d7_hamt_map act)
     \<Rightarrow> 'k d7_hamt_set option \<Rightarrow> 'k d7_hamt_set option \<Rightarrow> bool \<Rightarrow> 'k d7_hamt_set act" where
  "set_combine map_op left right result =
     (case (left, right) of
        (Some l, Some r) \<Rightarrow>
          if \<not> result then fail (Status D7_HAMT_INVALID_ARGUMENT)
          else andthen (map_op (Some (set_map l)) (Some (set_map r)) True) (\<lambda>m. ret \<lparr>set_map = m\<rparr>)
      | _ \<Rightarrow> fail (Status D7_HAMT_INVALID_ARGUMENT))"

definition d7_hamt_set_union ::
  "'k d7_hamt_set option \<Rightarrow> 'k d7_hamt_set option \<Rightarrow> bool \<Rightarrow> 'k d7_hamt_set act" where
  "d7_hamt_set_union left right result = set_combine d7_hamt_map_union left right result"

definition d7_hamt_set_intersect ::
  "'k d7_hamt_set option \<Rightarrow> 'k d7_hamt_set option \<Rightarrow> bool \<Rightarrow> 'k d7_hamt_set act" where
  "d7_hamt_set_intersect left right result = set_combine d7_hamt_map_intersect left right result"

definition d7_hamt_set_except ::
  "'k d7_hamt_set option \<Rightarrow> 'k d7_hamt_set option \<Rightarrow> bool \<Rightarrow> 'k d7_hamt_set act" where
  "d7_hamt_set_except left right result = set_combine d7_hamt_map_except left right result"

definition d7_hamt_set_symmetric_except ::
  "'k d7_hamt_set option \<Rightarrow> 'k d7_hamt_set option \<Rightarrow> bool \<Rightarrow> 'k d7_hamt_set act" where
  "d7_hamt_set_symmetric_except left right result =
     set_combine d7_hamt_map_symmetric_except left right result"

subsection \<open>Arrays of items\<close>

text \<open>The checks every operation on an array makes first. As for maps, \<open>None\<close> is a null pointer with a length that is not
  zero.\<close>

definition with_items ::
  "'k d7_hamt_set option \<Rightarrow> 'k list option \<Rightarrow> bool \<Rightarrow> ('k d7_hamt_set \<Rightarrow> 'k list \<Rightarrow> 'r act) \<Rightarrow> 'r act" where
  "with_items sp items result body =
     (case (sp, items) of
        (Some s, Some xs) \<Rightarrow>
          if \<not> result then fail (Status D7_HAMT_INVALID_ARGUMENT) else body s xs
      | _ \<Rightarrow> fail (Status D7_HAMT_INVALID_ARGUMENT))"

definition d7_hamt_set_build_probe :: "'k d7_hamt_set \<Rightarrow> 'k list \<Rightarrow> 'k d7_hamt_set act" where
  "d7_hamt_set_build_probe s items =
     set_add_items (set_create_from (set_policy_of_map_policy (policy (set_map s)))) items"

definition d7_hamt_set_iterator_init :: "'k d7_hamt_set option \<Rightarrow> ('k, unit) d7_hamt_map_iterator" where
  "d7_hamt_set_iterator_init sp = d7_hamt_map_iterator_init (map_option set_map sp)"

definition d7_hamt_set_iterator_next ::
  "('k, unit) d7_hamt_map_iterator option
     \<Rightarrow> failure + (('k, unit) d7_hamt_map_iterator option \<times> 'k option)" where
  "d7_hamt_set_iterator_next ip =
     (case ip of
        None \<Rightarrow> Inr (None, None)
      | Some it \<Rightarrow>
          map_found (\<lambda>(it', x). (Some it', map_option entry_key x)) (d7_hamt_map_iterator_next it))"

definition d7_hamt_set_contains_all_of :: "'k d7_hamt_set \<Rightarrow> 'k d7_hamt_set \<Rightarrow> failure + bool" where
  "d7_hamt_set_contains_all_of container inner =
     iterator_all (\<lambda>e. d7_hamt_set_contains (Some container) (entry_key e))
       (d7_hamt_set_iterator_init (Some inner))"

definition d7_hamt_set_union_many ::
  "'k d7_hamt_set option \<Rightarrow> 'k list option \<Rightarrow> bool \<Rightarrow> 'k d7_hamt_set act" where
  "d7_hamt_set_union_many sp items result = with_items sp items result set_add_items"

definition d7_hamt_set_except_many ::
  "'k d7_hamt_set option \<Rightarrow> 'k list option \<Rightarrow> bool \<Rightarrow> 'k d7_hamt_set act" where
  "d7_hamt_set_except_many sp items result = with_items sp items result set_remove_items"

definition intersect_step ::
  "'k d7_hamt_set \<Rightarrow> 'k d7_hamt_set \<Rightarrow> ('k, unit) d7_hamt_entry \<Rightarrow> 'k d7_hamt_set act" where
  "intersect_step probe intersection e =
     andthen (lift_res (d7_hamt_set_contains (Some probe) (entry_key e))) (\<lambda>found.
       if \<not> found then ret intersection else d7_hamt_set_add (Some intersection) (entry_key e) True)"

definition d7_hamt_set_intersect_many ::
  "'k d7_hamt_set option \<Rightarrow> 'k list option \<Rightarrow> bool \<Rightarrow> 'k d7_hamt_set act" where
  "d7_hamt_set_intersect_many sp items result =
     with_items sp items result (\<lambda>s xs.
       andthen (d7_hamt_set_build_probe s xs) (\<lambda>probe.
       iterate (intersect_step probe) (d7_hamt_set_iterator_init (Some s))
         (set_create_from (set_policy_of_map_policy (policy (set_map s))))))"

definition toggle_step ::
  "'k d7_hamt_set \<Rightarrow> ('k, unit) d7_hamt_entry \<Rightarrow> 'k d7_hamt_set act" where
  "toggle_step current e =
     andthen (lift_res (d7_hamt_set_contains (Some current) (entry_key e))) (\<lambda>found.
       if found then d7_hamt_set_remove (Some current) (entry_key e) True
       else d7_hamt_set_add (Some current) (entry_key e) True)"

definition d7_hamt_set_symmetric_except_many ::
  "'k d7_hamt_set option \<Rightarrow> 'k list option \<Rightarrow> bool \<Rightarrow> 'k d7_hamt_set act" where
  "d7_hamt_set_symmetric_except_many sp items result =
     with_items sp items result (\<lambda>s xs.
       andthen (d7_hamt_set_build_probe s xs) (\<lambda>toggles.
       iterate toggle_step (d7_hamt_set_iterator_init (Some toggles)) s))"

subsection \<open>Relations with an array of items\<close>

definition d7_hamt_set_is_subset_of_many ::
  "'k d7_hamt_set option \<Rightarrow> 'k list option \<Rightarrow> bool \<Rightarrow> bool act" where
  "d7_hamt_set_is_subset_of_many sp items result =
     with_items sp items result (\<lambda>s xs.
       andthen (d7_hamt_set_build_probe s xs) (\<lambda>probe.
       lift_res (d7_hamt_set_contains_all_of probe s)))"

text \<open>\<open>count test && contains_all_of\<close>, the second evaluated only if the first holds.\<close>

definition d7_hamt_set_is_proper_subset_of_many ::
  "'k d7_hamt_set option \<Rightarrow> 'k list option \<Rightarrow> bool \<Rightarrow> bool act" where
  "d7_hamt_set_is_proper_subset_of_many sp items result =
     with_items sp items result (\<lambda>s xs.
       andthen (d7_hamt_set_build_probe s xs) (\<lambda>probe.
       if d7_hamt_set_count (Some s) < d7_hamt_set_count (Some probe)
       then lift_res (d7_hamt_set_contains_all_of probe s) else ret False))"

definition d7_hamt_set_is_superset_of_many ::
  "'k d7_hamt_set option \<Rightarrow> 'k list option \<Rightarrow> bool \<Rightarrow> bool act" where
  "d7_hamt_set_is_superset_of_many sp items result =
     with_items sp items result (\<lambda>s xs. lift_res (check_all (d7_hamt_set_contains (Some s)) xs))"

definition d7_hamt_set_is_proper_superset_of_many ::
  "'k d7_hamt_set option \<Rightarrow> 'k list option \<Rightarrow> bool \<Rightarrow> bool act" where
  "d7_hamt_set_is_proper_superset_of_many sp items result =
     with_items sp items result (\<lambda>s xs.
       andthen (d7_hamt_set_build_probe s xs) (\<lambda>probe.
       if d7_hamt_set_count (Some probe) < d7_hamt_set_count (Some s)
       then lift_res (d7_hamt_set_contains_all_of s probe) else ret False))"

definition d7_hamt_set_overlaps_many ::
  "'k d7_hamt_set option \<Rightarrow> 'k list option \<Rightarrow> bool \<Rightarrow> bool act" where
  "d7_hamt_set_overlaps_many sp items result =
     with_items sp items result (\<lambda>s xs. lift_res (check_any (d7_hamt_set_contains (Some s)) xs))"

definition d7_hamt_set_equals_many ::
  "'k d7_hamt_set option \<Rightarrow> 'k list option \<Rightarrow> bool \<Rightarrow> bool act" where
  "d7_hamt_set_equals_many sp items result =
     with_items sp items result (\<lambda>s xs.
       andthen (d7_hamt_set_build_probe s xs) (\<lambda>probe.
       if d7_hamt_set_count (Some s) = d7_hamt_set_count (Some probe)
       then lift_res (d7_hamt_set_contains_all_of probe s) else ret False))"

subsection \<open>Relations between sets\<close>

definition d7_hamt_set_structural_relation_parts ::
  "'k d7_hamt_set option \<Rightarrow> 'k d7_hamt_set option \<Rightarrow> bool \<Rightarrow> ('k d7_hamt_set \<times> 'k d7_hamt_set option) act" where
  "d7_hamt_set_structural_relation_parts left right need_union =
     andthen (d7_hamt_set_intersect left right True) (\<lambda>intersection.
     if \<not> need_union then ret (intersection, None)
     else andthen (d7_hamt_set_union left right True) (\<lambda>united. ret (intersection, Some united)))"

text \<open>A relation computed from the counts of the left set, the intersection and the union.\<close>

definition set_relation ::
  "bool \<Rightarrow> (nat \<Rightarrow> nat \<Rightarrow> nat \<Rightarrow> bool) \<Rightarrow> 'k d7_hamt_set option \<Rightarrow> 'k d7_hamt_set option \<Rightarrow> bool \<Rightarrow> bool act" where
  "set_relation need_union test left right result =
     (case (left, right) of
        (Some l, Some r) \<Rightarrow>
          if \<not> result then fail (Status D7_HAMT_INVALID_ARGUMENT)
          else
            andthen (d7_hamt_set_structural_relation_parts left right need_union) (\<lambda>(intersection, united).
              ret (test (count (set_map l)) (count (set_map intersection)) (d7_hamt_set_count united)))
      | _ \<Rightarrow> fail (Status D7_HAMT_INVALID_ARGUMENT))"

definition d7_hamt_set_is_subset_of ::
  "'k d7_hamt_set option \<Rightarrow> 'k d7_hamt_set option \<Rightarrow> bool \<Rightarrow> bool act" where
  "d7_hamt_set_is_subset_of = set_relation False (\<lambda>left intersection united. intersection = left)"

definition d7_hamt_set_is_proper_subset_of ::
  "'k d7_hamt_set option \<Rightarrow> 'k d7_hamt_set option \<Rightarrow> bool \<Rightarrow> bool act" where
  "d7_hamt_set_is_proper_subset_of =
     set_relation True (\<lambda>left intersection united. intersection = left \<and> left < united)"

definition d7_hamt_set_is_superset_of ::
  "'k d7_hamt_set option \<Rightarrow> 'k d7_hamt_set option \<Rightarrow> bool \<Rightarrow> bool act" where
  "d7_hamt_set_is_superset_of = set_relation True (\<lambda>left intersection united. united = left)"

definition d7_hamt_set_is_proper_superset_of ::
  "'k d7_hamt_set option \<Rightarrow> 'k d7_hamt_set option \<Rightarrow> bool \<Rightarrow> bool act" where
  "d7_hamt_set_is_proper_superset_of =
     set_relation True (\<lambda>left intersection united. united = left \<and> intersection < left)"

definition d7_hamt_set_overlaps ::
  "'k d7_hamt_set option \<Rightarrow> 'k d7_hamt_set option \<Rightarrow> bool \<Rightarrow> bool act" where
  "d7_hamt_set_overlaps = set_relation False (\<lambda>left intersection united. intersection \<noteq> 0)"

definition d7_hamt_set_equals ::
  "'k d7_hamt_set option \<Rightarrow> 'k d7_hamt_set option \<Rightarrow> bool \<Rightarrow> bool act" where
  "d7_hamt_set_equals left right result =
     (case (left, right) of
        (Some l, Some r) \<Rightarrow>
          if \<not> result then fail (Status D7_HAMT_INVALID_ARGUMENT)
          else if same_ptr (root (set_map l)) (root (set_map r)) then ret True
          else set_relation True (\<lambda>left intersection united. intersection = left \<and> united = left) left right result
      | _ \<Rightarrow> fail (Status D7_HAMT_INVALID_ARGUMENT))"

definition d7_hamt_set_shares_root ::
  "'k d7_hamt_set option \<Rightarrow> 'k d7_hamt_set option \<Rightarrow> bool" where
  "d7_hamt_set_shares_root left right =
     (case (left, right) of
        (Some l, Some r) \<Rightarrow> d7_hamt_map_shares_root (Some (set_map l)) (Some (set_map r))
      | _ \<Rightarrow> False)"

section \<open>Keys up to equality\<close>

definition key_class :: "('k, 'v) d7_hamt_policy \<Rightarrow> 'k \<Rightarrow> 'k set" where
  "key_class p a = {b. d7_hamt_keys_equal p a b}"

definition span_of :: "('k, 'v) d7_hamt_policy \<Rightarrow> 'k list \<Rightarrow> 'k set" where
  "span_of p xs = (\<Union>x\<in>set xs. key_class p x)"

definition map_keys :: "('k, 'v) d7_hamt_map \<Rightarrow> 'k set" where
  "map_keys m = {k. map_entry m k \<noteq> None}"

text \<open>The keys of a map as the policy \<open>p\<close> sees them.\<close>

definition keys_under :: "('k, 'v) d7_hamt_policy \<Rightarrow> ('k, 'v) d7_hamt_map \<Rightarrow> 'k set" where
  "keys_under p m = span_of p (map entry_key (entries_opt (root m)))"

lemma span_of_simps [simp]: "span_of p [] = {}" "span_of p (x # xs) = key_class p x \<union> span_of p xs"
  "span_of p (xs @ ys) = span_of p xs \<union> span_of p ys"
  by (auto simp: span_of_def)

lemma in_span_of: "k \<in> span_of p xs \<longleftrightarrow> (\<exists>x\<in>set xs. d7_hamt_keys_equal p x k)"
  by (auto simp: span_of_def key_class_def)

context hamt_policy
begin

definition closed :: "'k set \<Rightarrow> bool" where
  "closed A \<longleftrightarrow> (\<forall>a\<in>A. key_class p a \<subseteq> A)"

lemma key_class_eq: "key_class p a = key_class p b \<longleftrightarrow> d7_hamt_keys_equal p a b"
proof
  assume "key_class p a = key_class p b"
  then have "b \<in> key_class p a" by (simp add: key_class_def)
  then show "d7_hamt_keys_equal p a b" by (simp add: key_class_def)
next
  assume "d7_hamt_keys_equal p a b"
  from keq_left [OF this] show "key_class p a = key_class p b" by (simp add: key_class_def)
qed

lemma self_in_class [simp]: "a \<in> key_class p a"
  by (simp add: key_class_def)

lemma closed_span: "closed (span_of p xs)"
  unfolding closed_def in_span_of key_class_def subset_iff mem_Collect_eq
  by (meson in_span_of keq_trans)

lemma closed_ops:
  "closed A \<Longrightarrow> closed B \<Longrightarrow> closed (A \<union> B)" "closed A \<Longrightarrow> closed B \<Longrightarrow> closed (A \<inter> B)"
  by (auto simp: closed_def)

lemma closed_class: "closed A \<Longrightarrow> a \<in> A \<Longrightarrow> key_class p a \<subseteq> A"
  by (simp add: closed_def)

lemma closed_class_disjoint: "closed A \<Longrightarrow> a \<notin> A \<Longrightarrow> key_class p a \<inter> A = {}"
  by (auto simp: closed_def key_class_def dest: keq_sym)

lemma classes_subset: "closed B \<Longrightarrow> key_class p ` A \<subseteq> key_class p ` B \<longleftrightarrow> A \<subseteq> B"
proof
  assume B: "closed B" and sub: "key_class p ` A \<subseteq> key_class p ` B"
  show "A \<subseteq> B"
  proof
    fix a assume "a \<in> A"
    then obtain b where "b \<in> B" "key_class p a = key_class p b" using sub by blast
    then show "a \<in> B" using closed_class [OF B, of b] self_in_class [of a] by auto
  qed
qed auto

lemma classes_of_span: "key_class p ` span_of p xs = key_class p ` set xs"
proof
  show "key_class p ` span_of p xs \<subseteq> key_class p ` set xs"
    unfolding image_subset_iff in_span_of image_iff key_class_eq by (meson in_span_of keq_sym)
  show "key_class p ` set xs \<subseteq> key_class p ` span_of p xs"
  proof (rule image_mono, rule subsetI)
    show "x \<in> span_of p xs" if "x \<in> set xs" for x using that keq_refl unfolding in_span_of by (rule bexI [rotated])
  qed
qed

lemma card_classes:
  assumes "distinct_keys p es"
  shows "card (key_class p ` span_of p (map entry_key es)) = length es"
  unfolding classes_of_span using assms
proof (induction es)
  case (Cons e es)
  have "key_class p (entry_key e) \<notin> key_class p ` set (map entry_key es)"
    using Cons.prems by (auto simp: image_iff key_class_eq)
  then show ?case using Cons by simp
qed simp

lemma finite_classes: "finite (key_class p ` span_of p xs)"
  unfolding classes_of_span by simp

lemma map_keys_under:
  assumes "policy m = p" and "map_ok S t m"
  shows "map_keys m = keys_under p m"
proof (cases "root m")
  case (Some n)
  then have "wf_node p 0 n" using assms by (simp add: map_ok_def)
  then show ?thesis
    using Some assms(1)
    by (auto simp: map_keys_def keys_under_def map_entry_def look_find in_span_of entry_matches_def find_None_iff find_Some_iff
        split: option.splits)
qed (simp add: map_keys_def keys_under_def map_entry_def)

lemma entry_under_keys:
  assumes "coherent p (policy r)" and "map_ok S t r"
  shows "entry_under p r k \<noteq> None \<longleftrightarrow> k \<in> keys_under p r"
proof (cases "d7_hamt_policy_callbacks_compatible p (policy r)")
  case True
  then have "policy r = p" using assms(1) by (simp add: coherent_def)
  from map_keys_under [OF this assms(2)] show ?thesis using True by (auto simp: entry_under_def map_keys_def)
next
  case False
  then show ?thesis
    by (auto simp: entry_under_def keys_under_def in_span_of fold_bind_key_None)
qed

text \<open>The count of a map is the number of its keys up to equality.\<close>

lemma map_count_classes:
  assumes "policy m = p" and "map_ok S t m"
  shows "count m = card (key_class p ` map_keys m)" and "finite (key_class p ` map_keys m)" and "closed (map_keys m)"
proof -
  have "distinct_keys p (entries_opt (root m)) \<and> count m = length (entries_opt (root m))"
    using assms distinct_entries length_entries [of p 0] by (cases "root m") (auto simp: map_ok_def)
  then show "count m = card (key_class p ` map_keys m)"
    unfolding map_keys_under [OF assms] keys_under_def by (simp add: card_classes)
  show "finite (key_class p ` map_keys m)" "closed (map_keys m)"
    unfolding map_keys_under [OF assms] keys_under_def by (rule finite_classes closed_span)+
qed

lemma map_counts:
  assumes a: "policy a = p" "map_ok S t a" and b: "policy b = p" "map_ok S' t' b" and sub: "map_keys a \<subseteq> map_keys b"
  shows "count a \<le> count b" and "count a = count b \<longleftrightarrow> map_keys a = map_keys b"
proof -
  note A = map_count_classes [OF a] and B = map_count_classes [OF b]
  have img: "key_class p ` map_keys a \<subseteq> key_class p ` map_keys b" using sub by (rule image_mono)
  show "count a \<le> count b" unfolding A(1) B(1) using B(2) img by (rule card_mono)
  show "count a = count b \<longleftrightarrow> map_keys a = map_keys b"
  proof
    assume "count a = count b"
    then have "key_class p ` map_keys a = key_class p ` map_keys b"
      using card_subset_eq [OF B(2) img] A(1) B(1) by simp
    then have "map_keys b \<subseteq> map_keys a" using classes_subset [OF A(3), of "map_keys b"] by simp
    then show "map_keys a = map_keys b" using sub by simp
  qed (simp add: A(1) B(1))
qed

end

section \<open>What the set operations publish\<close>

text \<open>A set with policy \<open>p\<close> and members \<open>A\<close>, valid in a heap that extends \<open>S\<close>.\<close>

definition holds_set ::
  "('k, unit) d7_hamt_policy \<Rightarrow> ('k, unit) d7_hamt_node set \<Rightarrow> nat \<Rightarrow> 'k set \<Rightarrow> 'k d7_hamt_set \<Rightarrow> bool" where
  "holds_set p S t A s \<longleftrightarrow> policy (set_map s) = p \<and> map_grown S t (set_map s) \<and> map_keys (set_map s) = A"

lemma map_grown_later: "map_grown S t m \<Longrightarrow> t \<le> t' \<Longrightarrow> map_grown S t' m"
  using heap_later unfolding map_grown_def map_ok_def by blast

lemma map_grownI: "S \<subseteq> S' \<Longrightarrow> map_ok (S' \<union> X) t m \<Longrightarrow> map_grown S t m"
  unfolding map_grown_def by blast

lemma same_entry_None: "same_entry Rk Rv x y \<Longrightarrow> x = None \<longleftrightarrow> y = None"
  by (cases x; cases y) auto

lemma bound_keys:
  assumes "map_bound Rk Rv m k v ov m'"
  shows "map_keys m' = map_keys m \<union> key_class (policy m) k"
proof -
  have "map_entry m' k' = None \<longleftrightarrow> \<not> d7_hamt_keys_equal (policy m) k k' \<and> map_entry m k' = None" for k'
  proof -
    have "same_entry Rk Rv (map_entry m' k')
        (if d7_hamt_keys_equal (policy m) k k' then Some (bound_entry ov k v (map_entry m k)) else map_entry m k')"
      using assms by (simp only: map_bound_def)
    from same_entry_None [OF this] show ?thesis by simp
  qed
  then show ?thesis by (auto simp: map_keys_def key_class_def)
qed

lemma removed_keys:
  assumes "map_removed Rk Rv m k m'"
  shows "map_keys m' = map_keys m - key_class (policy m) k"
proof -
  have "map_entry m' k' = None \<longleftrightarrow> d7_hamt_keys_equal (policy m) k k' \<or> map_entry m k' = None" for k'
  proof -
    have "same_entry Rk Rv (map_entry m' k') (if d7_hamt_keys_equal (policy m) k k' then None else map_entry m k')"
      using assms by (simp only: map_removed_def)
    from same_entry_None [OF this] show ?thesis by simp
  qed
  then show ?thesis by (auto simp: map_keys_def key_class_def)
qed

lemma holds_bound:
  assumes "map_bound Rk Rv m x () ov m'" "map_ok (S' \<union> map_nodes m') t m'" "S \<subseteq> S'"
  shows "holds_set (policy m) S t (map_keys m \<union> key_class (policy m) x) \<lparr>set_map = m'\<rparr>"
  using assms(1) bound_keys [OF assms(1)] map_grownI [OF assms(3,2)] by (simp add: holds_set_def map_bound_def)

lemma holds_removed:
  assumes "map_removed Rk Rv m x m'" "map_ok (S' \<union> map_nodes m') t m'" "S \<subseteq> S'"
  shows "holds_set (policy m) S t (map_keys m - key_class (policy m) x) \<lparr>set_map = m'\<rparr>"
  using assms(1) removed_keys [OF assms(1)] map_grownI [OF assms(3,2)] by (simp add: holds_set_def map_removed_def)

lemma combined_keys:
  "(combined p op x y \<noteq> None) =
     (case op of
        D7_HAMT_COMBINE_UNION \<Rightarrow> x \<noteq> None \<or> y \<noteq> None
      | D7_HAMT_COMBINE_INTERSECT \<Rightarrow> x \<noteq> None \<and> y \<noteq> None
      | D7_HAMT_COMBINE_EXCEPT \<Rightarrow> x \<noteq> None \<and> y = None
      | D7_HAMT_COMBINE_SYMMETRIC_EXCEPT \<Rightarrow> (x \<noteq> None) \<noteq> (y \<noteq> None))"
  by (cases op; cases x; cases y) auto

fun combine_keys :: "d7_hamt_combine_operation \<Rightarrow> 'k set \<Rightarrow> 'k set \<Rightarrow> 'k set" where
  "combine_keys D7_HAMT_COMBINE_UNION A B = A \<union> B"
| "combine_keys D7_HAMT_COMBINE_INTERSECT A B = A \<inter> B"
| "combine_keys D7_HAMT_COMBINE_EXCEPT A B = A - B"
| "combine_keys D7_HAMT_COMBINE_SYMMETRIC_EXCEPT A B = (A - B) \<union> (B - A)"

lemma map_combined_keys:
  assumes "hamt_policy (policy l) Rk Rv" "map_combined Rk Rv op l r m'" "coherent (policy l) (policy r)" "map_ok S t r"
  shows "map_keys m' = combine_keys op (map_keys l) (keys_under (policy l) r)"
proof -
  have "map_entry m' k = None \<longleftrightarrow> combined (policy l) op (map_entry l k) (entry_under (policy l) r k) = None" for k
    using assms(2) same_entry_None unfolding map_combined_def by blast
  then have "k \<in> map_keys m' \<longleftrightarrow> combined (policy l) op (map_entry l k) (entry_under (policy l) r k) \<noteq> None" for k
    by (simp add: map_keys_def)
  then show ?thesis
    using hamt_policy.entry_under_keys [OF assms(1,3,4), symmetric]
    by (cases op) (simp_all add: combined_keys map_keys_def set_eq_iff del: not_None_eq, blast+)
qed

context hamt_set_policy
begin

abbreviation requests :: "environment \<Rightarrow> nat set" where
  "requests E \<equiv> failing_requests E p"

lemma holds_setI: "policy (set_map s) = p \<Longrightarrow> map_ok S t (set_map s) \<Longrightarrow> holds_set p S t (map_keys (set_map s)) s"
  unfolding holds_set_def map_grown_def by blast

lemma holds_set_later: "holds_set p S t A s \<Longrightarrow> t \<le> t' \<Longrightarrow> holds_set p S t' A s"
  unfolding holds_set_def using map_grown_later by blast

lemma holds_set_ok:
  assumes "holds_set p S t A s"
  obtains S' where "S \<subseteq> S'" "map_ok S' t (set_map s)" "policy (set_map s) = p" "map_keys (set_map s) = A"
  using assms unfolding holds_set_def map_grown_def by blast

lemma holds_set_counts:
  assumes "holds_set p S t A s"
  shows "count (set_map s) = card (key_class p ` A)" and "finite (key_class p ` A)" and "closed A"
  using assms map_count_classes by (metis holds_set_ok)+

lemma holds_set_contains:
  assumes "holds_set p S t A s"
  shows "d7_hamt_set_contains (Some s) x = Inr (x \<in> A)"
proof -
  obtain S' where "map_ok S' t (set_map s)" "map_keys (set_map s) = A" using assms by (rule holds_set_ok)
  then show ?thesis
    using try_get_entry_ok [of S' t "set_map s" x]
    by (auto simp: d7_hamt_set_contains_def d7_hamt_map_contains_key_def d7_hamt_map_try_get_def map_found_def map_keys_def)
qed

lemma create_holds: "heap S t \<Longrightarrow> holds_set p S t {} (set_create_from (set_policy_of_map_policy p))"
  using map_create_ok [of S t p]
  by (auto simp: holds_set_def set_create_from_def set_policy map_grown_def map_keys_def d7_hamt_map_create_from_def map_entry_def)

lemma set_try_add_spec:
  assumes "holds_set p S t A s"
  shows "achieves E (requests E) t (d7_hamt_set_try_add (Some s) x True)
    (\<lambda>(added, s') t'. (added \<longleftrightarrow> x \<notin> A) \<and> holds_set p S t' (A \<union> key_class p x) s')"
proof -
  obtain S' where S': "S \<subseteq> S'" "map_ok S' t (set_map s)" and p: "policy (set_map s) = p" and A: "map_keys (set_map s) = A"
    using assms by (rule holds_set_ok)
  have pol: "hamt_policy (policy (set_map s)) Rk (=)" using p hamt_policy_axioms by simp
  have fin: "holds_set p S t' (A \<union> key_class p x) \<lparr>set_map = m'\<rparr>"
    if "map_bound Rk (=) (set_map s) x () False m'" "map_ok (S' \<union> map_nodes m') t' m'" for m' t'
    using holds_bound [OF that S'(1)] p A by simp
  have "(map_entry (set_map s) x = None) = (x \<notin> A)" using A by (auto simp: map_keys_def)
  then show ?thesis
    unfolding d7_hamt_set_try_add_def option.case not_True_eq_False if_False d7_hamt_map_try_add_def
    using fin map_set_root_spec [OF pol S'(2), of E x "()" False] unfolding p
    by (elim achieves_andthen) (auto intro!: achieves_ret)
qed

lemma set_add_spec:
  assumes "holds_set p S t A s"
  shows "achieves E (requests E) t (d7_hamt_set_add (Some s) x True)
    (\<lambda>s' t'. holds_set p S t' (A \<union> key_class p x) s')"
proof -
  obtain S' where S': "S \<subseteq> S'" "map_ok S' t (set_map s)" and p: "policy (set_map s) = p" and A: "map_keys (set_map s) = A"
    using assms by (rule holds_set_ok)
  have pol: "hamt_policy (policy (set_map s)) Rk (=)" using p hamt_policy_axioms by simp
  have fin: "holds_set p S t' (A \<union> key_class p x) \<lparr>set_map = m'\<rparr>"
    if "map_bound Rk (=) (set_map s) x () True m'" "map_ok (S' \<union> map_nodes m') t' m'" for m' t'
    using holds_bound [OF that S'(1)] p A by simp
  have "achieves E (requests E) t (d7_hamt_map_set (Some (set_map s)) x () True)
      (\<lambda>m' t'. holds_set p S t' (A \<union> key_class p x) \<lparr>set_map = m'\<rparr>)"
    unfolding d7_hamt_map_set_def option.case not_True_eq_False if_False
    using fin map_set_root_spec [OF pol S'(2), of E x "()" True] unfolding p
    by (elim achieves_andthen) (auto intro!: achieves_ret)
  then show ?thesis
    unfolding d7_hamt_set_add_def option.case not_True_eq_False if_False
    by (elim achieves_andthen) (auto intro!: achieves_ret)
qed

lemma set_try_remove_spec:
  assumes "holds_set p S t A s"
  shows "achieves E (requests E) t (d7_hamt_set_try_remove (Some s) x True)
    (\<lambda>(removed, s') t'. (removed \<longleftrightarrow> x \<in> A) \<and> holds_set p S t' (A - key_class p x) s')"
proof -
  obtain S' where S': "S \<subseteq> S'" "map_ok S' t (set_map s)" and p: "policy (set_map s) = p" and A: "map_keys (set_map s) = A"
    using assms by (rule holds_set_ok)
  have pol: "hamt_policy (policy (set_map s)) Rk (=)" using p hamt_policy_axioms by simp
  have fin: "holds_set p S t' (A - key_class p x) \<lparr>set_map = m'\<rparr>"
    if "map_removed Rk (=) (set_map s) x m'" "map_ok (S' \<union> map_nodes m') t' m'" for m' t'
    using holds_removed [OF that S'(1)] p A by simp
  have "(map_entry (set_map s) x \<noteq> None) = (x \<in> A)" using A by (auto simp: map_keys_def)
  then show ?thesis
    unfolding d7_hamt_set_try_remove_def option.case not_True_eq_False if_False
    using fin map_try_remove_spec [OF pol S'(2), of E x False] unfolding p
    by (elim achieves_andthen) (auto intro!: achieves_ret)
qed

lemma set_remove_spec:
  assumes "holds_set p S t A s"
  shows "achieves E (requests E) t (d7_hamt_set_remove (Some s) x True)
    (\<lambda>s' t'. holds_set p S t' (A - key_class p x) s')"
  unfolding d7_hamt_set_remove_def
  by (rule achieves_andthen [OF set_try_remove_spec [OF assms]]) (auto intro!: achieves_ret)

subsection \<open>Loops over items\<close>

lemma set_add_items_spec:
  assumes "holds_set p S t A s"
  shows "achieves E (requests E) t (set_add_items s xs) (\<lambda>s' t'. holds_set p S t' (A \<union> span_of p xs) s')"
  unfolding set_add_items_def
proof (rule achieves_fold_act [where I = "\<lambda>ys s' t'. holds_set p S t' (A \<union> span_of p ys) s'"])
  fix ys x s' t'
  assume "holds_set p S t' (A \<union> span_of p ys) s'"
  from set_add_spec [OF this, of E x]
  show "achieves E (requests E) t' (d7_hamt_set_add (Some s') x True) (\<lambda>s' t'. holds_set p S t' (A \<union> span_of p (ys @ [x])) s')"
    by (simp add: Un_assoc)
qed (use assms in simp)

lemma set_remove_items_spec:
  assumes "holds_set p S t A s"
  shows "achieves E (requests E) t (set_remove_items s xs) (\<lambda>s' t'. holds_set p S t' (A - span_of p xs) s')"
  unfolding set_remove_items_def
proof (rule achieves_fold_act [where I = "\<lambda>ys s' t'. holds_set p S t' (A - span_of p ys) s'"])
  fix ys x s' t'
  assume "holds_set p S t' (A - span_of p ys) s'"
  from set_remove_spec [OF this, of E x]
  show "achieves E (requests E) t' (d7_hamt_set_remove (Some s') x True) (\<lambda>s' t'. holds_set p S t' (A - span_of p (ys @ [x])) s')"
    by (simp add: Diff_eq Int_assoc)
qed (use assms in simp)

lemma build_probe_spec:
  assumes "policy (set_map s) = p" and "heap S t"
  shows "achieves E (requests E) t (d7_hamt_set_build_probe s xs) (\<lambda>s' t'. holds_set p S t' (span_of p xs) s')"
  unfolding d7_hamt_set_build_probe_def assms(1)
  using set_add_items_spec [OF create_holds [OF assms(2)], of E xs] by simp

text \<open>The entries of a set, in iteration order.\<close>

abbreviation items_of :: "'k d7_hamt_set \<Rightarrow> ('k, unit) d7_hamt_entry list" where
  "items_of s \<equiv> entries_opt (root (set_map s))"

lemma holds_set_items:
  assumes "holds_set p S t A s"
  shows "A = span_of p (map entry_key (items_of s))" and "distinct_keys p (items_of s)"
    and "iterator_ok (d7_hamt_set_iterator_init (Some s))"
    and "iterator_rest (d7_hamt_set_iterator_init (Some s)) = items_of s"
proof -
  obtain S' where ok: "map_ok S' t (set_map s)" and p: "policy (set_map s) = p" and A: "map_keys (set_map s) = A"
    using assms by (rule holds_set_ok)
  show "A = span_of p (map entry_key (items_of s))" using map_keys_under [OF p ok] A by (simp add: keys_under_def)
  show "distinct_keys p (items_of s)"
    using ok p distinct_entries by (cases "root (set_map s)") (auto simp: map_ok_def)
  show "iterator_ok (d7_hamt_set_iterator_init (Some s))"
    "iterator_rest (d7_hamt_set_iterator_init (Some s)) = items_of s"
    using iterator_init_ok [OF ok] by (simp_all add: d7_hamt_set_iterator_init_def)
qed

lemma contains_all_spec:
  assumes c: "holds_set p S t A c" and s: "holds_set p S' t' B s"
  shows "d7_hamt_set_contains_all_of c s = Inr (B \<subseteq> A)"
proof -
  have closed: "closed A" by (rule holds_set_counts(3) [OF c])
  have "B \<subseteq> A \<longleftrightarrow> (\<forall>e\<in>set (items_of s). entry_key e \<in> A)"
    unfolding holds_set_items(1) [OF s] span_of_def using closed_class [OF closed] by fastforce
  then show ?thesis
    unfolding d7_hamt_set_contains_all_of_def iterator_all_check [OF holds_set_items(3) [OF s]] holds_set_items(4) [OF s]
      holds_set_contains [OF c] by (simp add: check_all_total)
qed

lemma intersect_loop_spec:
  assumes probe: "holds_set p S' t' B probe" and s: "holds_set p S t A s" and heap: "heap S t"
  shows "achieves E (requests E) t (iterate (intersect_step probe) (d7_hamt_set_iterator_init (Some s))
      (set_create_from (set_policy_of_map_policy p))) (\<lambda>s' t'. holds_set p S t' (A \<inter> B) s')"
proof -
  have B: "closed B" by (rule holds_set_counts(3) [OF probe])
  let ?I = "\<lambda>(es :: ('k, unit) d7_hamt_entry list) s' t'. holds_set p S t' (span_of p (map entry_key es) \<inter> B) s'"
  have "achieves E (requests E) t (fold_act (intersect_step probe) (set_create_from (set_policy_of_map_policy p)) (items_of s)) (?I (items_of s))"
  proof (rule achieves_fold_act)
    fix es e s1 t1
    assume "?I es s1 t1"
    then show "achieves E (requests E) t1 (intersect_step probe s1 e) (?I (es @ [e]))"
      unfolding intersect_step_def holds_set_contains [OF probe]
      using set_add_spec [of S t1 "span_of p (map entry_key es) \<inter> B" s1 E "entry_key e"]
        closed_class [OF B, of "entry_key e"] closed_class_disjoint [OF B, of "entry_key e"]
      by (intro achieves_andthen [where P = "\<lambda>found t'. t' = t1 \<and> found = (entry_key e \<in> B)"] achieves_lift_res [OF refl])
        (auto simp: Int_Un_distrib2 Int_absorb2 intro!: achieves_ret)
  qed (use create_holds [OF heap] in simp)
  then show ?thesis
    unfolding iterate_fold [OF holds_set_items(3) [OF s]] holds_set_items(4) [OF s] holds_set_items(1) [OF s, symmetric] .
qed

lemma toggle_spec:
  assumes "holds_set p S t A s" and "x \<notin> B" and "closed B" and "closed A0" and "A = (A0 - B) \<union> (B - A0)"
    and "entry_key e = x"
  shows "achieves E (requests E) t (toggle_step s e)
    (\<lambda>s' t'. holds_set p S t' ((A0 - (B \<union> key_class p x)) \<union> ((B \<union> key_class p x) - A0)) s')"
proof -
  have B: "key_class p x \<inter> B = {}" using closed_class_disjoint [OF assms(3,2)] .
  have in_A: "x \<in> A \<longleftrightarrow> x \<in> A0" using assms(2,5) by auto
  have "(A0 - (B \<union> key_class p x)) \<union> ((B \<union> key_class p x) - A0) = (if x \<in> A then A - key_class p x else A \<union> key_class p x)"
    using B closed_class [OF assms(4), of x] closed_class_disjoint [OF assms(4), of x] in_A assms(5) by auto
  then show ?thesis
    unfolding toggle_step_def assms(6) holds_set_contains [OF assms(1)]
    using set_add_spec [OF assms(1), of E x] set_remove_spec [OF assms(1), of E x]
    by (intro achieves_andthen [where P = "\<lambda>found t'. t' = t \<and> found = (x \<in> A)"] achieves_lift_res [OF refl]) auto
qed

lemma toggle_loop_spec:
  assumes toggles: "holds_set p S' t' B toggles" and s: "holds_set p S t A s"
  shows "achieves E (requests E) t (iterate toggle_step (d7_hamt_set_iterator_init (Some toggles)) s)
      (\<lambda>s' t'. holds_set p S t' ((A - B) \<union> (B - A)) s')"
proof -
  let ?K = "\<lambda>es. span_of p (map entry_key es)"
  let ?I = "\<lambda>es s' t'. holds_set p S t' ((A - ?K es) \<union> (?K es - A)) s'"
  have "achieves E (requests E) t (fold_act toggle_step s (items_of toggles)) (?I (items_of toggles))"
  proof (rule achieves_fold_act)
    fix es e s1 t1
    assume zs: "\<exists>zs. items_of toggles = es @ e # zs" and I: "?I es s1 t1"
    have "distinct_keys p (es @ [e])"
      using zs holds_set_items(2) [OF toggles] by (auto simp: distinct_keys_append_all)
    then have "entry_key e \<notin> ?K es" by (auto simp: distinct_keys_append_all in_span_of)
    from toggle_spec [OF I this closed_span holds_set_counts(3) [OF s] refl refl, of E]
    show "achieves E (requests E) t1 (toggle_step s1 e) (?I (es @ [e]))" by simp
  qed (use s in simp)
  then show ?thesis
    unfolding iterate_fold [OF holds_set_items(3) [OF toggles]] holds_set_items(4) [OF toggles]
      holds_set_items(1) [OF toggles, symmetric] .
qed

subsection \<open>Relations\<close>

definition size_of :: "'k set \<Rightarrow> nat" where
  "size_of A = card (key_class p ` A)"

lemma size_of_subset:
  assumes "X \<subseteq> Y" "closed X" "finite (key_class p ` Y)"
  shows "size_of X \<le> size_of Y" and "size_of X = size_of Y \<longleftrightarrow> X = Y"
proof -
  have img: "key_class p ` X \<subseteq> key_class p ` Y" using assms(1) by (rule image_mono)
  show "size_of X \<le> size_of Y" unfolding size_of_def using assms(3) img by (rule card_mono)
  show "size_of X = size_of Y \<longleftrightarrow> X = Y"
  proof
    assume "size_of X = size_of Y"
    then have "key_class p ` X = key_class p ` Y"
      using card_subset_eq [OF assms(3) img] by (simp add: size_of_def)
    then show "X = Y" using classes_subset [OF assms(2), of Y] assms(1) by simp
  qed simp
qed

lemma size_of_relations:
  assumes A: "closed A" "finite (key_class p ` A)" and B: "closed B" "finite (key_class p ` B)"
  shows "size_of (A \<inter> B) = size_of A \<longleftrightarrow> A \<subseteq> B" and "size_of (A \<union> B) = size_of A \<longleftrightarrow> B \<subseteq> A"
    and "size_of (A \<inter> B) < size_of A \<longleftrightarrow> \<not> A \<subseteq> B" and "size_of A < size_of (A \<union> B) \<longleftrightarrow> \<not> B \<subseteq> A"
    and "size_of (A \<inter> B) = 0 \<longleftrightarrow> A \<inter> B = {}"
proof -
  have fin: "finite (key_class p ` (A \<union> B))" "finite (key_class p ` (A \<inter> B))"
    using A(2) B(2) by (simp_all add: image_Un finite_subset [OF image_mono [OF Int_lower1]])
  note int = size_of_subset [OF Int_lower1 closed_ops(2) [OF A(1) B(1)] A(2)]
  note un = size_of_subset [OF Un_upper1 A(1) fin(1)]
  show le: "size_of (A \<inter> B) = size_of A \<longleftrightarrow> A \<subseteq> B" unfolding int(2) by blast
  show ge: "size_of (A \<union> B) = size_of A \<longleftrightarrow> B \<subseteq> A" unfolding eq_commute [of "size_of (A \<union> B)"] un(2) by blast
  show "size_of (A \<inter> B) < size_of A \<longleftrightarrow> \<not> A \<subseteq> B" unfolding less_le le using int(1) by simp
  show "size_of A < size_of (A \<union> B) \<longleftrightarrow> \<not> B \<subseteq> A" unfolding less_le ge [symmetric] using un(1) by auto
  show "size_of (A \<inter> B) = 0 \<longleftrightarrow> A \<inter> B = {}" using fin(2) by (simp add: size_of_def)
qed

lemma holds_set_size: "holds_set p S t A s \<Longrightarrow> count (set_map s) = size_of A"
  unfolding size_of_def by (rule holds_set_counts(1))

text \<open>A left set under this policy and any right set, in one heap.\<close>

definition operands :: "('k, unit) d7_hamt_node set \<Rightarrow> nat \<Rightarrow> 'k d7_hamt_set \<Rightarrow> 'k d7_hamt_set \<Rightarrow> bool" where
  "operands S t l r \<longleftrightarrow> policy (set_map l) = p \<and> coherent p (policy (set_map r)) \<and>
     map_ok S t (set_map l) \<and> map_ok S t (set_map r)"

lemma operands_later: "operands S t l r \<Longrightarrow> t \<le> t' \<Longrightarrow> operands S t' l r"
  using heap_later unfolding operands_def map_ok_def by blast

lemma operands_keys:
  assumes "operands S t l r"
  shows "closed (map_keys (set_map l))" "finite (key_class p ` map_keys (set_map l))"
    and "closed (keys_under p (set_map r))" "finite (key_class p ` keys_under p (set_map r))"
    and "count (set_map l) = size_of (map_keys (set_map l))"
  using assms map_count_classes closed_span finite_classes
  unfolding operands_def keys_under_def size_of_def by blast+

lemma set_combine_spec:
  assumes "operands S t l r" and op: "map_op = (\<lambda>x y res. d7_hamt_map_combine x y op res)"
  shows "achieves E (requests E) t (set_combine map_op (Some l) (Some r) True)
    (\<lambda>s' t'. holds_set p S t' (combine_keys op (map_keys (set_map l)) (keys_under p (set_map r))) s')"
proof -
  have l: "policy (set_map l) = p" "coherent p (policy (set_map r))" "map_ok S t (set_map l)" "map_ok S t (set_map r)"
    using assms(1) by (simp_all add: operands_def)
  have pol: "hamt_policy (policy (set_map l)) Rk (=)" using l(1) hamt_policy_axioms by simp
  have fin: "holds_set p S t' (combine_keys op (map_keys (set_map l)) (keys_under p (set_map r))) \<lparr>set_map = m'\<rparr>"
    if "map_combined Rk (=) op (set_map l) (set_map r) m'" "map_grown S t' m'" for m' t'
    using map_combined_keys [OF pol that(1) _ l(4)] that l(1,2) by (simp add: holds_set_def map_combined_def)
  show ?thesis
    unfolding set_combine_def prod.case option.case not_True_eq_False if_False op
    using fin by (intro achieves_andthen [OF map_combine_spec [OF l]]) (auto intro!: achieves_ret)
qed

lemma set_intersect_spec:
  "operands S t l r \<Longrightarrow> achieves E (requests E) t (d7_hamt_set_intersect (Some l) (Some r) True)
    (\<lambda>s' t'. holds_set p S t' (map_keys (set_map l) \<inter> keys_under p (set_map r)) s')"
  using set_combine_spec [of S t l r d7_hamt_map_intersect D7_HAMT_COMBINE_INTERSECT E]
  by (simp add: d7_hamt_set_intersect_def d7_hamt_map_intersect_def fun_eq_iff)

lemma set_union_spec:
  "operands S t l r \<Longrightarrow> achieves E (requests E) t (d7_hamt_set_union (Some l) (Some r) True)
    (\<lambda>s' t'. holds_set p S t' (map_keys (set_map l) \<union> keys_under p (set_map r)) s')"
  using set_combine_spec [of S t l r d7_hamt_map_union D7_HAMT_COMBINE_UNION E]
  by (simp add: d7_hamt_set_union_def d7_hamt_map_union_def fun_eq_iff)

lemma set_relation_spec:
  assumes ops: "operands S t l r"
  defines "A \<equiv> map_keys (set_map l)" and "B \<equiv> keys_under p (set_map r)"
  shows "achieves E (requests E) t (set_relation need test (Some l) (Some r) True)
    (\<lambda>b t'. b = test (size_of A) (size_of (A \<inter> B)) (if need then size_of (A \<union> B) else 0))"
proof -
  have "achieves E (requests E) t (d7_hamt_set_structural_relation_parts (Some l) (Some r) need)
      (\<lambda>(i, u) t'. count (set_map i) = size_of (A \<inter> B) \<and> d7_hamt_set_count u = (if need then size_of (A \<union> B) else 0))"
    unfolding d7_hamt_set_structural_relation_parts_def
  proof (rule achieves_andthen [OF set_intersect_spec [OF ops]])
    fix i t1
    assume t1: "t \<le> t1" and i: "holds_set p S t1 (map_keys (set_map l) \<inter> keys_under p (set_map r)) i"
    show "achieves E (requests E) t1
        (if \<not> need then ret (i, None) else andthen (d7_hamt_set_union (Some l) (Some r) True) (\<lambda>united. ret (i, Some united)))
        (\<lambda>(i, u) t'. count (set_map i) = size_of (A \<inter> B) \<and> d7_hamt_set_count u = (if need then size_of (A \<union> B) else 0))"
    proof (cases need)
      case True
      show ?thesis
        using True holds_set_size [OF i]
        by (simp, intro achieves_andthen [OF set_union_spec [OF operands_later [OF ops t1]]] achieves_ret)
          (auto simp: A_def B_def d7_hamt_set_count_def dest: holds_set_size)
    next
      case False
      then show ?thesis
        using holds_set_size [OF i] by (auto simp: A_def B_def d7_hamt_set_count_def intro!: achieves_ret)
    qed
  qed
  then show ?thesis
    unfolding set_relation_def prod.case option.case not_True_eq_False if_False
    using operands_keys(5) [OF ops]
    by (elim achieves_andthen) (auto simp: A_def intro!: achieves_ret)
qed

lemma same_root_keys:
  assumes "operands S t l r" and "same_ptr (root (set_map l)) (root (set_map r))"
  shows "map_keys (set_map l) = keys_under p (set_map r)"
proof -
  have "root (set_map l) = root (set_map r)"
    using assms heap_root_same [of S t]
    by (cases "root (set_map l)"; cases "root (set_map r)") (auto simp: operands_def map_ok_def map_nodes_def same_ptr_def)
  then show ?thesis
    using assms(1) map_keys_under [of "set_map l"] by (auto simp: operands_def keys_under_def)
qed

text \<open>Relations with a probe set built from an array.\<close>

lemma span_relations:
  assumes "closed A"
  shows "span_of p xs \<subseteq> A \<longleftrightarrow> (\<forall>x\<in>set xs. x \<in> A)" and "A \<inter> span_of p xs \<noteq> {} \<longleftrightarrow> (\<exists>x\<in>set xs. x \<in> A)"
  using closed_class [OF assms] closed_class_disjoint [OF assms] self_in_class by (fastforce simp: span_of_def)+

lemma count_relations:
  assumes "holds_set p S t A s" and "holds_set p S' t' B c"
  shows "count (set_map s) < count (set_map c) \<and> A \<subseteq> B \<longleftrightarrow> A \<subset> B"
    and "count (set_map s) = count (set_map c) \<and> A \<subseteq> B \<longleftrightarrow> A = B"
proof -
  note sub = size_of_subset [OF _ holds_set_counts(3) [OF assms(1)] holds_set_counts(2) [OF assms(2)]]
  have "A \<subseteq> B \<Longrightarrow> size_of A < size_of B \<longleftrightarrow> A \<noteq> B" unfolding less_le using sub by simp
  then show "count (set_map s) < count (set_map c) \<and> A \<subseteq> B \<longleftrightarrow> A \<subset> B"
    unfolding holds_set_size [OF assms(1)] holds_set_size [OF assms(2)] psubset_eq by blast
  show "count (set_map s) = count (set_map c) \<and> A \<subseteq> B \<longleftrightarrow> A = B"
    unfolding holds_set_size [OF assms(1)] holds_set_size [OF assms(2)] using sub(2) by blast
qed

lemma probe_test:
  assumes "policy (set_map s) = p" "heap S t"
    and "\<And>probe t'. holds_set p S t' (span_of p xs) probe \<Longrightarrow> test probe = ret Q"
  shows "achieves E (requests E) t (andthen (d7_hamt_set_build_probe s xs) test) (\<lambda>b t'. b = Q)"
  by (rule achieves_andthen [OF build_probe_spec [OF assms(1,2)]]) (simp add: assms(3) achieves_ret)

end

lemma test_and: "(if T then lift_res (Inr R) else ret False) = ret (T \<and> R)" "lift_res (Inr R) = ret R"
  by (simp_all add: ret_def lift_res_def)

end
