(* ===== verification/Hamt_Map_Properties.thy ===== *)
theory Hamt_Map_Properties
  imports Hamt_Algebra Hamt_Compare
begin

text \<open>
  The properties of the persistent hash map, stated for every policy that keeps its contract, every
  heap the handle lives in and every pattern of failing memory requests. The witnesses use the
  default policy on 64-bit addresses.
\<close>

section \<open>Maps for the witnesses\<close>

definition pointer_policy :: "(64 word, 64 word) d7_hamt_policy" where
  "pointer_policy = d7_hamt_normalize_policy id None"

definition single_node :: "addr \<Rightarrow> 64 word \<Rightarrow> 64 word \<Rightarrow> (64 word, 64 word) d7_hamt_node" where
  "single_node a k v = Leaf a (d7_hamt_get_hash pointer_policy k) k v"

definition single_map :: "addr \<Rightarrow> 64 word \<Rightarrow> 64 word \<Rightarrow> (64 word, 64 word) d7_hamt_map" where
  "single_map a k v = \<lparr>root = Some (single_node a k v), count = 1, policy = pointer_policy\<rparr>"

lemma single_map_policy [simp]: "policy (single_map a k v) = pointer_policy"
  "policy (d7_hamt_map_create id None :: (64 word, 64 word) d7_hamt_map) = pointer_policy"
  by (simp_all add: single_map_def d7_hamt_map_create_def d7_hamt_map_create_from_def pointer_policy_def)

lemma pointer_policy_ok: "hamt_policy pointer_policy (=) (=)"
  unfolding pointer_policy_def by (rule default_policy.hamt_policy_axioms)

lemma pointer_policy_equal [simp]:
  "d7_hamt_keys_equal pointer_policy a b \<longleftrightarrow> a = b" "d7_hamt_values_equal pointer_policy v w \<longleftrightarrow> v = w"
  by (auto simp: pointer_policy_def policy_defs)

lemma pointer_policy_requests [simp]: "failing_requests (\<lambda>_. True) pointer_policy = {}"
  unfolding pointer_policy_def by (rule no_failing_requests_default) simp

lemma single_map_ok: "a < t \<Longrightarrow> map_ok {single_node a k v} t (single_map a k v)"
  by (simp add: map_ok_def heap_def map_nodes_def single_map_def single_node_def)

lemma two_maps_ok:
  assumes "a \<noteq> b" "a < t" "b < t"
  shows "map_ok {single_node a k v, single_node b k' v'} t (single_map a k v)"
    and "map_ok {single_node a k v, single_node b k' v'} t (single_map b k' v')"
  using assms
  by (auto simp: map_ok_def heap_def map_nodes_def single_map_def single_node_def)

lemma single_map_entry: "map_entry (single_map a k v) k' = (if k = k' then Some (Entry k v) else None)"
  by (auto simp: map_entry_def single_map_def single_node_def)

lemma single_map_count [simp]: "count (single_map a k v) = 1"
  by (simp add: single_map_def)

lemma empty_map_ok: "map_ok {} 0 (d7_hamt_map_create id None :: (64 word, 64 word) d7_hamt_map)"
  unfolding d7_hamt_map_create_def by (rule map_create_ok) (simp add: heap_def)

section \<open>Single keys\<close>

text \<open>C1: \<open>d7_hamt_map_set\<close> binds its key and nothing else. It fails only where memory was refused; otherwise
  the published map has the policy of the source, holds the new value at the key under the
  representative stored before if there was one, holds what the source held at every other key, counts
  one entry more exactly when the key was absent, shares the root of the source when the value was
  already there, and is well formed in the heap grown by its new nodes.\<close>

theorem map_set_correct:
  assumes "hamt_policy (policy m) Rk Rv" and "map_ok S t m"
  shows "achieves E (failing_requests E (policy m)) t (d7_hamt_map_set (Some m) k v True)
           (\<lambda>m' t'. map_bound Rk Rv m k v True m' \<and> map_ok (S \<union> map_nodes m') t' m')"
  using assms by (rule map_set_spec)

theorem map_set_correct_witness:
  "achieves (\<lambda>i. i < 3) (failing_requests (\<lambda>i. i < 3) pointer_policy) 1
     (d7_hamt_map_set (Some (single_map 0 5 7)) 9 8 True)
     (\<lambda>m' t'. map_bound (=) (=) (single_map 0 5 7) 9 8 True m' \<and>
        map_ok ({single_node 0 5 7} \<union> map_nodes m') t' m')"
  using map_set_correct [of "single_map 0 5 7" "(=)" "(=)" "{single_node 0 5 7}" 1 "\<lambda>i. i < 3" 9 8]
  by (simp add: pointer_policy_ok single_map_ok)

lemma map_bound_lookup:
  assumes "hamt_policy (policy m) Rk Rv" and "map_bound Rk Rv m k v True m'" and "map_ok S t m'"
  shows "\<exists>v'. d7_hamt_map_try_get (Some m') k = Inr (Some v') \<and> Rv v v'"
proof -
  have "same_entry Rk Rv (map_entry m' k) (Some (bound_entry True k v (map_entry m k)))"
    using assms(2) hamt_policy.keq_refl [OF assms(1)] by (auto simp: map_bound_def dest: spec [of _ k])
  then obtain e where "map_entry m' k = Some e" "Rv (entry_value e) v"
    by (auto simp: option_rel_Some2 entry_rel_def bound_entry_def split: option.splits)
  then show ?thesis
    using try_get_entry_ok [OF assms(3), of k] hamt_policy.Rv_sym [OF assms(1)]
    by (auto simp: d7_hamt_map_try_get_def map_found_def)
qed

text \<open>C27: when no request fails, setting a key returns, and reading the key back from the published map
  gives the value that was set (up to the copy the retain callback made).\<close>

theorem map_set_then_get:
  assumes "hamt_policy (policy m) Rk Rv" and "map_ok S t m" and "\<And>i. t \<le> i \<Longrightarrow> i \<notin> failing_requests E (policy m)"
  shows "\<exists>m' t' v'. d7_hamt_map_set (Some m) k v True E t = (Inr m', t') \<and>
           d7_hamt_map_try_get (Some m') k = Inr (Some v') \<and> Rv v v'"
  using achieves_total [OF map_set_spec [OF assms(1,2)] assms(3)] map_bound_lookup [OF assms(1)] by blast

theorem map_set_then_get_witness:
  "\<exists>m' t' v'. d7_hamt_map_set (Some (single_map 0 5 7)) 9 8 True (\<lambda>_. True) 1 = (Inr m', t') \<and>
     d7_hamt_map_try_get (Some m') 9 = Inr (Some v') \<and> 8 = v'"
  by (rule map_set_then_get [where S = "{single_node 0 5 7}" and Rk = "(=)" and Rv = "(=)"])
    (simp_all add: pointer_policy_ok single_map_ok)

text \<open>binding a key to a value the map already holds for it makes no memory request, cannot fail, and
  publishes the very same handle: the same root node, the same count.\<close>

theorem map_set_same_value:
  assumes "map_ok S t m" and "map_entry m k = Some e" and "d7_hamt_values_equal (policy m) (entry_value e) v"
  shows "d7_hamt_map_set (Some m) k v True E t = (Inr m, t)"
  using map_noop_run [OF assms(1), of k v True E] assms(2,3)
  by (simp add: d7_hamt_map_set_def map_noop_def andthen_def ret_run)

theorem map_set_same_value_witness:
  "d7_hamt_map_set (Some (single_map 0 5 7)) 5 7 True (\<lambda>_. False) 1 = (Inr (single_map 0 5 7), 1)"
  by (rule map_set_same_value [where S = "{single_node 0 5 7}" and e = "Entry 5 7"])
    (simp_all add: single_map_ok single_map_entry)

text \<open>\<open>d7_hamt_map_add\<close> on a key that is present returns \<open>D7_HAMT_DUPLICATE_KEY\<close> without making a
  memory request.\<close>

theorem map_add_duplicate:
  assumes "map_ok S t m" and "map_entry m k \<noteq> None"
  shows "d7_hamt_map_add (Some m) k v True E t = (Inl (Status D7_HAMT_DUPLICATE_KEY), t)"
  using map_noop_run [OF assms(1), of k v False E] assms(2)
  by (auto simp: d7_hamt_map_add_def d7_hamt_map_try_add_def map_noop_def andthen_def fail_def)

theorem map_add_duplicate_witness:
  "d7_hamt_map_add (Some (single_map 0 5 7)) 5 8 True (\<lambda>_. True) 1 = (Inl (Status D7_HAMT_DUPLICATE_KEY), 1)"
  by (rule map_add_duplicate [where S = "{single_node 0 5 7}"]) (simp_all add: single_map_ok single_map_entry)

text \<open>\<open>d7_hamt_map_try_add\<close> reports whether it added; it binds an absent key exactly as
  \<open>d7_hamt_map_set\<close> does and leaves a present one, value included, as it is.\<close>

theorem map_try_add_correct:
  assumes "hamt_policy (policy m) Rk Rv" and "map_ok S t m"
  shows "achieves E (failing_requests E (policy m)) t (d7_hamt_map_try_add (Some m) k v True)
           (\<lambda>(added, m') t'. (added \<longleftrightarrow> map_entry m k = None) \<and> (\<not> added \<longrightarrow> m' = m \<and> t' = t) \<and>
              map_bound Rk Rv m k v False m' \<and> map_ok (S \<union> map_nodes m') t' m')"
proof (cases "map_entry m k")
  case None
  show ?thesis
    unfolding d7_hamt_map_try_add_def option.case not_True_eq_False if_False
    by (rule achieves_weaken [OF map_set_root_spec [OF assms]]) (auto simp: None)
next
  case (Some e)
  then have run: "map_set_root m k v False E t = (Inr (False, m), t)"
    by (intro map_noop_run [OF assms(2)]) (simp add: map_noop_def)
  then show ?thesis
    using map_set_root_spec [OF assms, of E k v False] Some
    by (simp add: d7_hamt_map_try_add_def achieves_def)
qed

theorem map_try_add_correct_witness:
  "achieves (\<lambda>_. True) {} 1 (d7_hamt_map_try_add (Some (single_map 0 5 7)) 9 8 True)
     (\<lambda>(added, m') t'. (added \<longleftrightarrow> map_entry (single_map 0 5 7) 9 = None) \<and>
        (\<not> added \<longrightarrow> m' = single_map 0 5 7 \<and> t' = 1) \<and>
        map_bound (=) (=) (single_map 0 5 7) 9 8 False m' \<and> map_ok ({single_node 0 5 7} \<union> map_nodes m') t' m')"
  using map_try_add_correct [of "single_map 0 5 7" "(=)" "(=)" "{single_node 0 5 7}" 1 "\<lambda>_. True" 9 8]
  by (simp add: pointer_policy_ok single_map_ok)

text \<open>C2: \<open>d7_hamt_map_try_remove\<close> unbinds its key and nothing else, reports whether the key was present and,
  into a handle of its own, the removed value. The count drops by one exactly when the key was present,
  an absent key leaves the root shared, and the published trie is well formed (in canonical form) again.\<close>

theorem map_try_remove_correct:
  assumes "hamt_policy (policy m) Rk Rv" and "map_ok S t m"
  shows "achieves E (failing_requests E (policy m)) t (d7_hamt_map_try_remove (Some m) k True aliased)
           (\<lambda>(removed, v, m') t'. map_removed Rk Rv m k m' \<and> (removed \<longleftrightarrow> map_entry m k \<noteq> None) \<and>
              v = (if aliased then None else map_option entry_value (map_entry m k)) \<and>
              map_ok (S \<union> map_nodes m') t' m')"
  using assms by (rule map_try_remove_spec)

theorem map_try_remove_correct_witness:
  "achieves (\<lambda>_. False) (failing_requests (\<lambda>_. False) pointer_policy) 1
     (d7_hamt_map_try_remove (Some (single_map 0 5 7)) 5 True False)
     (\<lambda>(removed, v, m') t'. map_removed (=) (=) (single_map 0 5 7) 5 m' \<and>
        (removed \<longleftrightarrow> map_entry (single_map 0 5 7) 5 \<noteq> None) \<and>
        v = (if False then None else map_option entry_value (map_entry (single_map 0 5 7) 5)) \<and>
        map_ok ({single_node 0 5 7} \<union> map_nodes m') t' m')"
  using map_try_remove_correct [of "single_map 0 5 7" "(=)" "(=)" "{single_node 0 5 7}" 1 "\<lambda>_. False" 5 False]
  by (simp add: pointer_policy_ok single_map_ok)

text \<open>the three lookups agree and never fault: \<open>try_get\<close> gives the stored value, \<open>try_get_key\<close> the stored
  representative, or the key asked for when there is none, \<open>contains_key\<close> whether there is one; what is
  stored has a key equal to the one asked for, and equal keys find the same entry.\<close>

theorem map_lookup_correct:
  assumes "hamt_policy (policy m) Rk Rv" and "map_ok S t m"
  shows "d7_hamt_map_try_get (Some m) k = Inr (map_option entry_value (map_entry m k)) \<and>
    d7_hamt_map_contains_key (Some m) k = Inr (map_entry m k \<noteq> None) \<and>
    d7_hamt_map_try_get_key (Some m) k =
      Inr (case map_entry m k of None \<Rightarrow> (False, k) | Some e \<Rightarrow> (True, entry_key e)) \<and>
    (\<forall>e. map_entry m k = Some e \<longrightarrow> d7_hamt_keys_equal (policy m) (entry_key e) k) \<and>
    (\<forall>k'. d7_hamt_keys_equal (policy m) k k' \<longrightarrow> map_entry m k' = map_entry m k)"
proof -
  have key: "d7_hamt_keys_equal (policy m) (entry_key e) k" if "map_entry m k = Some e" for e
    using that hamt_policy.look_key [OF assms(1)] by (cases "root m") (auto simp: map_entry_def)
  have "map_entry m k' = map_entry m k" if "d7_hamt_keys_equal (policy m) k k'" for k'
    using hamt_policy.look_keq [OF assms(1) that] hamt_policy.keq_hash [OF assms(1) that]
    by (cases "root m") (simp_all add: map_entry_def)
  then show ?thesis
    using key try_get_entry_ok [OF assms(2), of k]
    by (simp add: d7_hamt_map_try_get_def d7_hamt_map_contains_key_def d7_hamt_map_try_get_key_def map_found_def
        split: option.split)
qed

theorem map_lookup_correct_witness:
  "d7_hamt_map_try_get (Some (single_map 0 5 7)) 5 = Inr (Some 7) \<and>
   d7_hamt_map_contains_key (Some (single_map 0 5 7)) 5 = Inr True \<and>
   d7_hamt_map_try_get_key (Some (single_map 0 5 7)) 5 = Inr (True, 5)"
  using map_lookup_correct [of "single_map 0 5 7" "(=)" "(=)" "{single_node 0 5 7}" 1 5]
  by (simp add: pointer_policy_ok single_map_ok single_map_entry)

end
