(* ===== verification/Hamt_Set_Properties.thy ===== *)
theory Hamt_Set_Properties
  imports Hamt_Set Hamt_Map_Properties
begin

text \<open>
  The properties of the persistent hash set. \<open>map_keys (set_map s)\<close> is the set of the keys that \<open>s\<close>
  contains, closed under the key equality of its policy; \<open>span_of p xs\<close> the keys equal to an item of
  an array, and \<open>keys_under p m\<close> the keys that are equal, under \<open>p\<close>, to a stored one. The witnesses use
  sets of 64-bit addresses under the default policy.
\<close>

section \<open>Sets for the witnesses\<close>

definition address_policy :: "(64 word, unit) d7_hamt_policy" where
  "address_policy = d7_hamt_map_policy_from_set_policy id None"

definition single_item :: "addr \<Rightarrow> 64 word \<Rightarrow> (64 word, unit) d7_hamt_node" where
  "single_item a k = Leaf a (d7_hamt_get_hash address_policy k) k ()"

definition single_set :: "addr \<Rightarrow> 64 word \<Rightarrow> 64 word d7_hamt_set" where
  "single_set a k = \<lparr>set_map = \<lparr>root = Some (single_item a k), count = 1, policy = address_policy\<rparr>\<rparr>"

lemma single_set_policy [simp]: "policy (set_map (single_set a k)) = address_policy"
  by (simp add: single_set_def)

lemma address_policy_ok: "hamt_set_policy address_policy (=)"
  unfolding address_policy_def by (rule default_set_policy.hamt_set_policy_axioms)

lemma two_sets_ok:
  assumes "a \<noteq> b" "a < t" "b < t"
  shows "map_ok {single_item a k, single_item b k'} t (set_map (single_set a k))"
    and "map_ok {single_item a k, single_item b k'} t (set_map (single_set b k'))"
  using assms by (auto simp: map_ok_def heap_def map_nodes_def single_set_def single_item_def)

lemmas set_witness = address_policy_ok two_sets_ok

section \<open>Single items\<close>

text \<open>C35: adding an item to a set adds its class of equal items and nothing else and reports whether it was
  new; removing it removes that class and reports whether it was there. Both fail only where memory is
  refused, and publish a valid set of the same policy.\<close>

theorem set_items_correct:
  assumes "hamt_set_policy (policy (set_map s)) Rk" and "map_ok S t (set_map s)"
  defines "p \<equiv> policy (set_map s)"
  shows "achieves E (failing_requests E p) t (d7_hamt_set_try_add (Some s) x True)
      (\<lambda>(added, s') t'. (added \<longleftrightarrow> x \<notin> map_keys (set_map s)) \<and>
         holds_set p S t' (map_keys (set_map s) \<union> key_class p x) s') \<and>
    achieves E (failing_requests E p) t (d7_hamt_set_add (Some s) x True)
      (\<lambda>s' t'. holds_set p S t' (map_keys (set_map s) \<union> key_class p x) s') \<and>
    achieves E (failing_requests E p) t (d7_hamt_set_try_remove (Some s) x True)
      (\<lambda>(removed, s') t'. (removed \<longleftrightarrow> x \<in> map_keys (set_map s)) \<and>
         holds_set p S t' (map_keys (set_map s) - key_class p x) s') \<and>
    d7_hamt_set_contains (Some s) x = Inr (x \<in> map_keys (set_map s))"
proof -
  note pol = assms(1) [folded p_def]
  have s: "holds_set p S t (map_keys (set_map s)) s"
    using hamt_set_policy.holds_setI [OF pol _ assms(2)] by (simp add: p_def)
  show ?thesis
    using hamt_set_policy.set_try_add_spec [OF pol s] hamt_set_policy.set_add_spec [OF pol s]
      hamt_set_policy.set_try_remove_spec [OF pol s] hamt_set_policy.holds_set_contains [OF pol s] by blast
qed

theorem set_items_correct_witness:
  "d7_hamt_set_contains (Some (single_set 0 5)) 5 = Inr (5 \<in> map_keys (set_map (single_set 0 5)))"
  using set_items_correct [of "single_set 0 5" "(=)" "{single_item 0 5, single_item 1 6}" 2 "\<lambda>_. True" 5]
  by (simp add: set_witness)

section \<open>Set algebra\<close>

text \<open>C31: the four operations on two sets compute union, intersection, difference and symmetric difference.
  The result has the policy of the left set; the right set may have any policy, and counts with the
  items equal, under the left policy, to one it stores.\<close>

theorem set_algebra_correct:
  assumes "hamt_set_policy (policy (set_map l)) Rk" and "coherent (policy (set_map l)) (policy (set_map r))"
    and "map_ok S t (set_map l)" and "map_ok S t (set_map r)"
  defines "p \<equiv> policy (set_map l)" and "A \<equiv> map_keys (set_map l)" and "B \<equiv> keys_under (policy (set_map l)) (set_map r)"
  shows "achieves E (failing_requests E p) t (d7_hamt_set_union (Some l) (Some r) True) (\<lambda>s' t'. holds_set p S t' (A \<union> B) s') \<and>
    achieves E (failing_requests E p) t (d7_hamt_set_intersect (Some l) (Some r) True) (\<lambda>s' t'. holds_set p S t' (A \<inter> B) s') \<and>
    achieves E (failing_requests E p) t (d7_hamt_set_except (Some l) (Some r) True) (\<lambda>s' t'. holds_set p S t' (A - B) s') \<and>
    achieves E (failing_requests E p) t (d7_hamt_set_symmetric_except (Some l) (Some r) True)
      (\<lambda>s' t'. holds_set p S t' ((A - B) \<union> (B - A)) s')"
proof -
  have "hamt_set_policy.operands p S t l r"
    using assms(1-4) by (simp add: p_def hamt_set_policy.operands_def)
  from hamt_set_policy.set_combine_spec [OF assms(1) [folded p_def] this]
  have spec: "achieves E (failing_requests E p) t (set_combine (\<lambda>x y res. d7_hamt_map_combine x y op res) (Some l) (Some r) True)
      (\<lambda>s' t'. holds_set p S t' (combine_keys op A B) s')" for op
    by (simp add: A_def B_def p_def)
  show ?thesis
    using spec [of D7_HAMT_COMBINE_UNION] spec [of D7_HAMT_COMBINE_INTERSECT] spec [of D7_HAMT_COMBINE_EXCEPT]
      spec [of D7_HAMT_COMBINE_SYMMETRIC_EXCEPT]
    unfolding d7_hamt_set_union_def d7_hamt_set_intersect_def d7_hamt_set_except_def d7_hamt_set_symmetric_except_def
      d7_hamt_map_union_def [abs_def] d7_hamt_map_intersect_def [abs_def] d7_hamt_map_except_def [abs_def]
      d7_hamt_map_symmetric_except_def [abs_def] combine_keys.simps
    by (intro conjI)
qed

theorem set_algebra_correct_witness:
  "achieves (\<lambda>i. i < 9) (failing_requests (\<lambda>i. i < 9) address_policy) 2
     (d7_hamt_set_union (Some (single_set 0 5)) (Some (single_set 1 6)) True)
     (\<lambda>s' t'. holds_set address_policy {single_item 0 5, single_item 1 6} t'
        (map_keys (set_map (single_set 0 5)) \<union> keys_under address_policy (set_map (single_set 1 6))) s')"
  using set_algebra_correct [of "single_set 0 5" "(=)" "single_set 1 6" "{single_item 0 5, single_item 1 6}" 2 "\<lambda>i. i < 9"]
  by (simp add: set_witness)

text \<open>C33: the operations on an array of items compute the same four operations with the set of all items
  equal to one of the array, whatever the order and the repetitions in it: an item that occurs twice
  toggles once.\<close>

theorem set_many_correct:
  fixes s :: "'k d7_hamt_set" and xs :: "'k list"
  assumes "hamt_set_policy (policy (set_map s)) Rk" and "map_ok S t (set_map s)"
  defines "p \<equiv> policy (set_map s)" and "A \<equiv> map_keys (set_map s)" and "B \<equiv> span_of (policy (set_map s)) xs"
  shows "achieves E (failing_requests E p) t (d7_hamt_set_union_many (Some s) (Some xs) True) (\<lambda>s' t'. holds_set p S t' (A \<union> B) s') \<and>
    achieves E (failing_requests E p) t (d7_hamt_set_intersect_many (Some s) (Some xs) True) (\<lambda>s' t'. holds_set p S t' (A \<inter> B) s') \<and>
    achieves E (failing_requests E p) t (d7_hamt_set_except_many (Some s) (Some xs) True) (\<lambda>s' t'. holds_set p S t' (A - B) s') \<and>
    achieves E (failing_requests E p) t (d7_hamt_set_symmetric_except_many (Some s) (Some xs) True)
      (\<lambda>s' t'. holds_set p S t' ((A - B) \<union> (B - A)) s')"
proof (intro conjI)
  note pol = assms(1) [folded p_def] and defs = with_items_def prod.case option.case not_True_eq_False if_False
  have heap: "heap S t" using assms(2) by (simp add: map_ok_def)
  have s: "holds_set p S t A s"
    using hamt_set_policy.holds_setI [OF pol _ assms(2)] by (simp add: p_def A_def)
  have "policy (set_map s) = p" by (simp add: p_def)
  note probe = hamt_set_policy.build_probe_spec [OF pol this heap, of E xs]
  show "achieves E (failing_requests E p) t (d7_hamt_set_union_many (Some s) (Some xs) True) (\<lambda>s' t'. holds_set p S t' (A \<union> B) s')"
    unfolding d7_hamt_set_union_many_def defs B_def p_def [symmetric] by (rule hamt_set_policy.set_add_items_spec [OF pol s])
  show "achieves E (failing_requests E p) t (d7_hamt_set_except_many (Some s) (Some xs) True) (\<lambda>s' t'. holds_set p S t' (A - B) s')"
    unfolding d7_hamt_set_except_many_def defs B_def p_def [symmetric] by (rule hamt_set_policy.set_remove_items_spec [OF pol s])
  show "achieves E (failing_requests E p) t (d7_hamt_set_intersect_many (Some s) (Some xs) True) (\<lambda>s' t'. holds_set p S t' (A \<inter> B) s')"
    unfolding d7_hamt_set_intersect_many_def defs B_def p_def [symmetric]
    by (rule achieves_andthen [OF probe], rule hamt_set_policy.intersect_loop_spec [OF pol _ hamt_set_policy.holds_set_later [OF pol s] heap_later [OF heap]])
  show "achieves E (failing_requests E p) t (d7_hamt_set_symmetric_except_many (Some s) (Some xs) True)
      (\<lambda>s' t'. holds_set p S t' ((A - B) \<union> (B - A)) s')"
    unfolding d7_hamt_set_symmetric_except_many_def defs B_def p_def [symmetric]
    by (rule achieves_andthen [OF probe], rule hamt_set_policy.toggle_loop_spec [OF pol _ hamt_set_policy.holds_set_later [OF pol s]])
qed

theorem set_many_correct_witness:
  "achieves (\<lambda>_. True) (failing_requests (\<lambda>_. True) address_policy) 2
     (d7_hamt_set_symmetric_except_many (Some (single_set 0 5)) (Some [6, 5, 6]) True)
     (\<lambda>s' t'. holds_set address_policy {single_item 0 5, single_item 1 6} t'
        ((map_keys (set_map (single_set 0 5)) - span_of address_policy [6, 5, 6]) \<union>
         (span_of address_policy [6, 5, 6] - map_keys (set_map (single_set 0 5)))) s')"
  using set_many_correct [where s = "single_set 0 5" and Rk = "(=)" and S = "{single_item 0 5, single_item 1 6}" and t = 2
      and E = "\<lambda>_. True" and xs = "[6, 5, 6]"]
  by (simp add: set_witness)

section \<open>Relations\<close>

text \<open>C32: the six relations between sets, which the code computes from the cached counts of the left set,
  the intersection and the union, are the relations between the sets of members.\<close>

theorem set_relations_correct:
  assumes "hamt_set_policy (policy (set_map l)) Rk" and "coherent (policy (set_map l)) (policy (set_map r))"
    and "map_ok S t (set_map l)" and "map_ok S t (set_map r)"
  defines "p \<equiv> policy (set_map l)" and "A \<equiv> map_keys (set_map l)" and "B \<equiv> keys_under (policy (set_map l)) (set_map r)"
  shows "achieves E (failing_requests E p) t (d7_hamt_set_is_subset_of (Some l) (Some r) True) (\<lambda>b t'. b = (A \<subseteq> B)) \<and>
    achieves E (failing_requests E p) t (d7_hamt_set_is_proper_subset_of (Some l) (Some r) True) (\<lambda>b t'. b = (A \<subset> B)) \<and>
    achieves E (failing_requests E p) t (d7_hamt_set_is_superset_of (Some l) (Some r) True) (\<lambda>b t'. b = (B \<subseteq> A)) \<and>
    achieves E (failing_requests E p) t (d7_hamt_set_is_proper_superset_of (Some l) (Some r) True) (\<lambda>b t'. b = (B \<subset> A)) \<and>
    achieves E (failing_requests E p) t (d7_hamt_set_overlaps (Some l) (Some r) True) (\<lambda>b t'. b = (A \<inter> B \<noteq> {})) \<and>
    achieves E (failing_requests E p) t (d7_hamt_set_equals (Some l) (Some r) True) (\<lambda>b t'. b = (A = B))"
proof -
  note pol = assms(1) [folded p_def]
  have ops: "hamt_set_policy.operands p S t l r"
    using assms(1-4) by (simp add: p_def hamt_set_policy.operands_def)
  note rel = hamt_set_policy.set_relation_spec [OF pol ops, folded A_def, unfolded p_def, folded B_def, folded p_def]
  note cnt = hamt_set_policy.size_of_relations [OF pol hamt_set_policy.operands_keys(1-4) [OF pol ops],
      folded A_def, unfolded p_def, folded B_def, folded p_def]
  have "achieves E (failing_requests E p) t (d7_hamt_set_equals (Some l) (Some r) True) (\<lambda>b t'. b = (A = B))"
  proof (cases "same_ptr (root (set_map l)) (root (set_map r))")
    case True
    then have "A = B" using hamt_set_policy.same_root_keys [OF pol ops] by (simp add: A_def B_def p_def)
    then show ?thesis using True by (simp add: d7_hamt_set_equals_def achieves_ret)
  next
    case False
    then show ?thesis
      using rel [of E True "\<lambda>left intersection united. intersection = left \<and> united = left"]
      by (simp add: d7_hamt_set_equals_def cnt set_eq_subset)
  qed
  then show ?thesis
    unfolding d7_hamt_set_is_subset_of_def d7_hamt_set_is_proper_subset_of_def d7_hamt_set_is_superset_of_def
      d7_hamt_set_is_proper_superset_of_def d7_hamt_set_overlaps_def
    by (intro conjI achieves_weaken [OF rel]) (auto simp add: cnt)
qed

theorem set_relations_correct_witness:
  "achieves (\<lambda>_. True) (failing_requests (\<lambda>_. True) address_policy) 2
     (d7_hamt_set_is_proper_subset_of (Some (single_set 0 5)) (Some (single_set 1 6)) True)
     (\<lambda>b t'. b = (map_keys (set_map (single_set 0 5)) \<subset> keys_under address_policy (set_map (single_set 1 6))))"
  using set_relations_correct [of "single_set 0 5" "(=)" "single_set 1 6" "{single_item 0 5, single_item 1 6}" 2 "\<lambda>_. True"]
  by (simp add: set_witness)

text \<open>C34: the six relations between a set and an array of items are the relations between the members and
  the items equal to one of the array; duplicates in the array do not count.\<close>

theorem set_relations_many_correct:
  fixes s :: "'k d7_hamt_set" and xs :: "'k list"
  assumes "hamt_set_policy (policy (set_map s)) Rk" and "map_ok S t (set_map s)"
  defines "p \<equiv> policy (set_map s)" and "A \<equiv> map_keys (set_map s)" and "B \<equiv> span_of (policy (set_map s)) xs"
  shows "achieves E (failing_requests E p) t (d7_hamt_set_is_subset_of_many (Some s) (Some xs) True) (\<lambda>b t'. b = (A \<subseteq> B)) \<and>
    achieves E (failing_requests E p) t (d7_hamt_set_is_proper_subset_of_many (Some s) (Some xs) True) (\<lambda>b t'. b = (A \<subset> B)) \<and>
    achieves E (failing_requests E p) t (d7_hamt_set_is_superset_of_many (Some s) (Some xs) True) (\<lambda>b t'. b = (B \<subseteq> A)) \<and>
    achieves E (failing_requests E p) t (d7_hamt_set_is_proper_superset_of_many (Some s) (Some xs) True) (\<lambda>b t'. b = (B \<subset> A)) \<and>
    achieves E (failing_requests E p) t (d7_hamt_set_overlaps_many (Some s) (Some xs) True) (\<lambda>b t'. b = (A \<inter> B \<noteq> {})) \<and>
    achieves E (failing_requests E p) t (d7_hamt_set_equals_many (Some s) (Some xs) True) (\<lambda>b t'. b = (A = B))"
proof -
  note pol = assms(1) [folded p_def] and defs = with_items_def prod.case option.case not_True_eq_False if_False
  have heap: "heap S t" using assms(2) by (simp add: map_ok_def)
  have s: "holds_set p S t A s"
    using hamt_set_policy.holds_setI [OF pol _ assms(2)] by (simp add: p_def A_def)
  have B: "B = span_of p xs" by (simp add: B_def p_def)
  have p: "policy (set_map s) = p" by (simp add: p_def)
  note test = hamt_set_policy.probe_test [OF pol p heap, of xs, folded B]
    and contains = hamt_set_policy.holds_set_contains [OF pol s]
    and span = hamt_set_policy.span_relations [OF pol hamt_set_policy.holds_set_counts(3) [OF pol s], of xs, folded B]
  note rel = hamt_set_policy.count_relations [OF pol s] hamt_set_policy.count_relations [OF pol _ s]
    hamt_set_policy.contains_all_spec [OF pol s] hamt_set_policy.contains_all_spec [OF pol _ s]
  have "achieves E (failing_requests E p) t (d7_hamt_set_is_superset_of_many (Some s) (Some xs) True) (\<lambda>b t'. b = (B \<subseteq> A))"
    "achieves E (failing_requests E p) t (d7_hamt_set_overlaps_many (Some s) (Some xs) True) (\<lambda>b t'. b = (A \<inter> B \<noteq> {}))"
    unfolding d7_hamt_set_is_superset_of_many_def d7_hamt_set_overlaps_many_def defs contains check_all_total check_any_total
      span test_and by (rule achieves_ret, simp)+
  moreover have "achieves E (failing_requests E p) t (d7_hamt_set_is_subset_of_many (Some s) (Some xs) True) (\<lambda>b t'. b = (A \<subseteq> B))"
    unfolding d7_hamt_set_is_subset_of_many_def defs by (rule test) (simp add: rel test_and)
  moreover have "achieves E (failing_requests E p) t (d7_hamt_set_is_proper_subset_of_many (Some s) (Some xs) True) (\<lambda>b t'. b = (A \<subset> B))"
    unfolding d7_hamt_set_is_proper_subset_of_many_def defs
    by (rule test) (simp only: rel test_and(1) d7_hamt_set_count_def option.case)
  moreover have "achieves E (failing_requests E p) t (d7_hamt_set_is_proper_superset_of_many (Some s) (Some xs) True) (\<lambda>b t'. b = (B \<subset> A))"
    unfolding d7_hamt_set_is_proper_superset_of_many_def defs
    by (rule test) (simp only: rel test_and(1) d7_hamt_set_count_def option.case)
  moreover have "achieves E (failing_requests E p) t (d7_hamt_set_equals_many (Some s) (Some xs) True) (\<lambda>b t'. b = (A = B))"
    unfolding d7_hamt_set_equals_many_def defs
    by (rule test) (simp only: rel test_and(1) d7_hamt_set_count_def option.case)
  ultimately show ?thesis by (intro conjI)
qed

theorem set_relations_many_correct_witness:
  "achieves (\<lambda>_. True) (failing_requests (\<lambda>_. True) address_policy) 2
     (d7_hamt_set_equals_many (Some (single_set 0 5)) (Some [5, 5]) True)
     (\<lambda>b t'. b = (map_keys (set_map (single_set 0 5)) = span_of address_policy [5, 5]))"
  using set_relations_many_correct [where s = "single_set 0 5" and Rk = "(=)" and S = "{single_item 0 5, single_item 1 6}"
      and t = 2 and E = "\<lambda>_. True" and xs = "[5, 5]"]
  by (simp add: set_witness)

end
