(* ===== verification/Hamt_Canonical_Properties.thy ===== *)
theory Hamt_Canonical_Properties
  imports Hamt_Set_Properties
begin

text \<open>
  Properties of whole maps: bulk operations, combination, iteration, counting, equality and the
  canonical shape of the trie.
\<close>

section \<open>Maps compared entry by entry\<close>

lemma maps_alike:
  assumes pol: "hamt_policy (policy l) Rk Rv" and l: "map_ok S t l" and r: "map_ok S' t' r" and p: "policy r = policy l"
    and same: "\<And>k. same_value P (map_entry l k) (map_entry r k)"
  shows "root l = None \<and> root r = None \<or>
    (\<exists>ln rn. root l = Some ln \<and> root r = Some rn \<and> alike (policy l) P ln rn)"
proof (cases "root l"; cases "root r")
  fix ln rn assume roots: "root l = Some ln" "root r = Some rn"
  have "alike (policy l) P ln rn"
    using l r roots p same by (intro hamt_policy.alikeI [OF pol]) (auto simp: map_ok_def map_entry_def)
  then show ?thesis using roots by simp
next
  fix rn assume roots: "root l = None" "root r = Some rn"
  then obtain k where "map_entry r k \<noteq> None"
    using hamt_policy.wf_node_look_ex [OF pol, of 0 rn] r p by (auto simp: map_ok_def map_entry_def)
  then show ?thesis using same [of k] roots by (auto simp: map_entry_def)
next
  fix ln assume roots: "root l = Some ln" "root r = None"
  then obtain k where "map_entry l k \<noteq> None"
    using hamt_policy.wf_node_look_ex [OF pol, of 0 ln] l by (auto simp: map_ok_def map_entry_def)
  then show ?thesis using same [of k] roots by (auto simp: map_entry_def)
qed simp

lemma compatible_refl [simp]: "d7_hamt_policies_compatible p p"
  by (simp add: d7_hamt_policies_compatible_def)

section \<open>Properties\<close>

lemma same_keys_topology:
  assumes "hamt_policy (policy l) Rk Rv" and "map_ok S t l" and "map_ok S' t' r" and "policy r = policy l"
    and "\<And>k. map_entry l k = None \<longleftrightarrow> map_entry r k = None"
  shows "d7_hamt_map_debug_topology_equal (Some l) (Some r)"
proof -
  have "same_value (\<lambda>_ _. True) (map_entry l k) (map_entry r k)" for k
    using assms(5) [of k] by (cases "map_entry l k"; cases "map_entry r k") auto
  from maps_alike [OF assms(1-4) this] show ?thesis
    using assms(4) alike_topology by (fastforce simp: d7_hamt_map_debug_topology_equal_def)
qed

text \<open>C4: history independence. Two maps of one policy that hold the same keys have tries of the same shape:
  the same bitmaps at every node, the same hashes and equal keys at every slot, whatever sequences of
  insertions, removals and combinations built them.\<close>

theorem topology_history_independent:
  assumes "hamt_policy (policy l) Rk Rv" and "map_ok S t l" and "map_ok S' t' r" and "policy r = policy l"
    and "\<And>k. map_entry l k = None \<longleftrightarrow> map_entry r k = None"
  shows "d7_hamt_map_debug_topology_equal (Some l) (Some r)"
  using assms by (rule same_keys_topology)

theorem topology_history_independent_witness:
  "d7_hamt_map_debug_topology_equal (Some (single_map 0 5 7)) (Some (single_map 3 5 8))"
  by (rule topology_history_independent [where S = "{single_node 0 5 7}" and t = 1 and S' = "{single_node 3 5 8}" and t' = 4
        and Rk = "(=)" and Rv = "(=)"])
    (simp_all add: pointer_policy_ok single_map_ok single_map_entry)

lemma bound_then_removed:
  assumes pol: "hamt_policy (policy m) Rk Rv" and "map_entry m k = None" and b: "map_bound Rk Rv m k v True m1"
    and r: "map_removed Rk Rv m1 k m2"
  shows "map_entry m1 k \<noteq> None" and "same_entry Rk Rv (map_entry m2 k') (map_entry m k')"
proof -
  have b': "same_entry Rk Rv (map_entry m1 x)
      (if d7_hamt_keys_equal (policy m) k x then Some (bound_entry True k v (map_entry m k)) else map_entry m x)" for x
    using b by (simp only: map_bound_def)
  show "map_entry m1 k \<noteq> None" using same_entry_None [OF b' [of k]] hamt_policy.keq_refl [OF pol] by simp
  have "policy m1 = policy m" using b by (simp only: map_bound_def)
  then have r': "same_entry Rk Rv (map_entry m2 k') (if d7_hamt_keys_equal (policy m) k k' then None else map_entry m1 k')"
    using r by (simp only: map_removed_def)
  show "same_entry Rk Rv (map_entry m2 k') (map_entry m k')"
  proof (cases "d7_hamt_keys_equal (policy m) k k'")
    case True
    then have "map_entry m k' = None"
      using assms(2) hamt_policy.look_keq [OF pol True] hamt_policy.keq_hash [OF pol True]
      by (cases "root m") (simp_all add: map_entry_def)
    then show ?thesis using True r' by simp
  next
    case False
    have "same_entry Rk Rv (map_entry m2 k') (map_entry m1 k')" "same_entry Rk Rv (map_entry m1 k') (map_entry m k')"
      using False r' b' [of k'] by simp_all
    then show ?thesis by (rule hamt_policy.found_trans [OF pol])
  qed
qed

text \<open>C28: adding an absent key and removing it again gives back a map that holds what the first one held, in a
  trie of the same shape.\<close>

theorem set_remove_roundtrip:
  assumes "hamt_policy (policy m) Rk Rv" and "map_ok S t m" and "map_entry m k = None"
    and "d7_hamt_map_set (Some m) k v True E t = (Inr m1, t1)"
    and "d7_hamt_map_try_remove (Some m1) k True aliased E t1 = (Inr (removed, w, m2), t2)"
  shows "removed \<and> count m2 = count m \<and> (\<forall>k'. same_entry Rk Rv (map_entry m2 k') (map_entry m k')) \<and>
    d7_hamt_map_debug_topology_equal (Some m2) (Some m)"
proof -
  from achieves_result [OF map_set_spec [OF assms(1,2)] assms(4)]
  have b: "map_bound Rk Rv m k v True m1" and ok1: "map_ok (S \<union> map_nodes m1) t1 m1" by simp_all
  have p1: "policy m1 = policy m" using b by (simp add: map_bound_def)
  then have pol1: "hamt_policy (policy m1) Rk Rv" using assms(1) by simp
  from achieves_result [OF map_try_remove_spec [OF pol1 ok1] assms(5)]
  have r: "map_removed Rk Rv m1 k m2" "removed = (map_entry m1 k \<noteq> None)" and ok2: "map_ok (S \<union> map_nodes m1 \<union> map_nodes m2) t2 m2"
    by simp_all
  note same = bound_then_removed [OF assms(1,3) b r(1)]
  have p2: "policy m2 = policy m" using r(1) p1 by (simp only: map_removed_def)
  have "d7_hamt_map_debug_topology_equal (Some m2) (Some m)"
    using assms(1) p2 same_entry_None [OF same(2)] by (intro same_keys_topology [OF _ ok2 assms(2)]) simp_all
  moreover have "count m1 = count m + 1" "count m2 + 1 = count m1"
    using b r(1) same(1) assms(3) by (simp_all only: map_bound_def map_removed_def simp_thms if_True if_False)
  then have "count m2 = count m" by simp
  ultimately show ?thesis using same r(2) by blast
qed

theorem set_remove_roundtrip_witness:
  "d7_hamt_map_debug_topology_equal (Some \<lparr>root = None, count = 0, policy = pointer_policy\<rparr>)
     (Some (d7_hamt_map_create_from pointer_policy))"
proof -
  have retain: "d7_hamt_retain_key pointer_policy k i = Some k" "d7_hamt_retain_value pointer_policy v i = Some v" for k v i
    by (simp_all add: pointer_policy_def policy_defs)
  have ok: "map_ok {} 0 (d7_hamt_map_create_from pointer_policy)" by (rule map_create_ok) (simp add: heap_def)
  have set: "d7_hamt_map_set (Some (d7_hamt_map_create_from pointer_policy)) 5 7 True (\<lambda>_. True) 0 = (Inr (single_map 2 5 7), 3)"
    by (simp add: d7_hamt_map_set_def map_set_root_def d7_hamt_map_create_from_def d7_hamt_leaf_create_def d7_hamt_checked_retain_key_def
        d7_hamt_checked_retain_value_def d7_hamt_leaf_create_from_retained_def act_simps retain Let_def single_map_def single_node_def)
  have remove: "d7_hamt_map_try_remove (Some (single_map 2 5 7)) 5 True False (\<lambda>_. True) 3 =
      (Inr (True, Some 7, \<lparr>root = None, count = 0, policy = pointer_policy\<rparr>), 3)"
    by (simp add: d7_hamt_map_try_remove_def single_map_def single_node_def act_simps Let_def)
  show ?thesis
    using set_remove_roundtrip [of "d7_hamt_map_create_from pointer_policy" "(=)" "(=)" "{}" 0 5 7 "\<lambda>_. True" _ _ False, OF _ ok _ set remove]
    by (simp add: d7_hamt_map_create_from_def pointer_policy_ok map_entry_def)
qed

lemma map_equals_spec:
  assumes pol: "hamt_policy (policy l) Rk Rv" and l: "map_ok S t l" and r: "map_ok S t r" and p: "policy r = policy l"
  shows "d7_hamt_map_equals (Some l) (Some r) \<longleftrightarrow>
    (\<forall>k. same_value (d7_hamt_values_equal (policy l)) (map_entry l k) (map_entry r k))"
proof
  assume eq: "d7_hamt_map_equals (Some l) (Some r)"
  have "same_value (d7_hamt_values_equal (policy l)) (map_entry l k) (map_entry r k)" for k
  proof (cases "root l"; cases "root r")
    fix ln rn assume roots: "root l = Some ln" "root r = Some rn"
    then have n: "d7_hamt_nodes_equal (policy l) ln rn \<or> node_addr ln = node_addr rn"
      using eq by (auto simp: d7_hamt_map_equals_def split: if_splits)
    have h: "heap S t" "subnodes ln \<subseteq> S" "subnodes rn \<subseteq> S" "wf_node (policy l) 0 ln" "wf_node (policy l) 0 rn"
      using l r roots p by (auto simp: map_ok_def map_nodes_def)
    show ?thesis
      using n hamt_policy.nodes_equal_values [OF pol h] heap_root_same [OF h(1-3)] hamt_policy.same_value_refl [OF pol]
      by (auto simp: map_entry_def roots p)
  qed (use eq in \<open>auto simp: d7_hamt_map_equals_def map_entry_def split: if_splits\<close>)
  then show "\<forall>k. same_value (d7_hamt_values_equal (policy l)) (map_entry l k) (map_entry r k)" by blast
next
  assume "\<forall>k. same_value (d7_hamt_values_equal (policy l)) (map_entry l k) (map_entry r k)"
  then have same: "\<And>k. same_value (d7_hamt_values_equal (policy l)) (map_entry l k) (map_entry r k)" by blast
  have "count l = count r" if "root l = Some ln" "root r = Some rn" for ln rn
    using hamt_policy.same_keys_count [OF pol, of 0 ln rn] hamt_policy.same_value_keys [OF pol, of _ ln 0 rn] same l r that p
    by (auto simp: map_ok_def map_entry_def)
  then show "d7_hamt_map_equals (Some l) (Some r)"
    using maps_alike [OF pol l r p same] alike_equal p by (fastforce simp: d7_hamt_map_equals_def)
qed

text \<open>C29: \<open>d7_hamt_map_equals\<close> on maps of one policy decides equality of the maps: it returns true exactly when
  both hold the same keys with values the policy calls equal, although it compares the tries node by
  node and stops at shared nodes.\<close>

theorem map_equals_correct:
  assumes pol: "hamt_policy (policy l) Rk Rv" and l: "map_ok S t l" and r: "map_ok S t r" and p: "policy r = policy l"
  shows "d7_hamt_map_equals (Some l) (Some r) \<longleftrightarrow>
    (\<forall>k. same_value (d7_hamt_values_equal (policy l)) (map_entry l k) (map_entry r k))"
  using assms by (rule map_equals_spec)

theorem map_equals_correct_witness:
  "d7_hamt_map_equals (Some (single_map 0 5 7)) (Some (single_map 1 5 8)) \<longleftrightarrow>
    (\<forall>k. same_value (d7_hamt_values_equal pointer_policy) (map_entry (single_map 0 5 7) k) (map_entry (single_map 1 5 8) k))"
  using map_equals_correct [of "single_map 0 5 7" "(=)" "(=)" "{single_node 0 5 7, single_node 1 5 8}" 2 "single_map 1 5 8"]
  by (simp add: pointer_policy_ok two_maps_ok)

lemma map_entries:
  assumes "hamt_policy (policy m) Rk Rv" and "map_ok S t m"
  shows "length (entries_opt (root m)) = count m \<and> distinct_keys (policy m) (entries_opt (root m)) \<and>
    (\<forall>k e. map_entry m k = Some e \<longleftrightarrow> e \<in> set (entries_opt (root m)) \<and> d7_hamt_keys_equal (policy m) (entry_key e) k)"
proof (cases "root m")
  case (Some n)
  have wf: "wf_node (policy m) 0 n" using assms(2) Some by (simp add: map_ok_def)
  have "look (policy m) n (d7_hamt_get_hash (policy m) k) 0 k = Some e \<longleftrightarrow> e \<in> set (entries n) \<and> d7_hamt_keys_equal (policy m) (entry_key e) k" for k e
    using look_in_entries hamt_policy.look_key [OF assms(1)] hamt_policy.entries_look [OF assms(1) wf, of e]
      hamt_policy.look_keq [OF assms(1), of "entry_key e" k] hamt_policy.keq_hash [OF assms(1), of "entry_key e" k] by metis
  then show ?thesis
    using assms(2) Some hamt_policy.distinct_entries [OF assms(1) wf] length_entries [OF wf]
    by (simp add: map_ok_def map_entry_def)
qed (use assms(2) in \<open>simp add: map_ok_def map_entry_def\<close>)

lemma validate_map:
  assumes "map_ok S t m" and "count m \<le> SIZE_MAX"
  shows "d7_hamt_map_debug_validate_canonical (Some m)"
proof (cases "root m")
  case (Some n)
  then have "d7_hamt_debug_validate_node n 0 0 (mask 0) = Some (subtree_count n)"
    using assms by (intro validate_ok [of "policy m"]) (auto simp: map_ok_def)
  then show ?thesis using Some assms(1) by (simp add: d7_hamt_map_debug_validate_canonical_def map_ok_def)
qed (use assms(1) in \<open>simp add: d7_hamt_map_debug_validate_canonical_def map_ok_def\<close>)

text \<open>C39: the validator of canonical form accepts every map the library builds whose count fits a
  \<open>size_t\<close>.\<close>

theorem validator_accepts:
  assumes "map_ok S t m" and "count m \<le> SIZE_MAX"
  shows "d7_hamt_map_debug_validate_canonical (Some m)"
  using assms by (rule validate_map)

theorem validator_accepts_witness: "d7_hamt_map_debug_validate_canonical (Some (single_map 0 5 7))"
  by (rule validator_accepts [where S = "{single_node 0 5 7}" and t = 1]) (simp_all add: single_map_ok SIZE_MAX_def)

text \<open>C30: iteration. Calling \<open>d7_hamt_map_iterator_next\<close> until it reports the end terminates, needs no memory and
  never more than the seven frames of the iterator, and yields every entry of the map exactly once: as
  many as the count says, no two with equal keys, and an entry for exactly the keys the map holds.\<close>

theorem map_iteration:
  assumes "hamt_policy (policy m) Rk Rv" and "map_ok S t m"
  shows "\<exists>es. iterate (\<lambda>acc e. ret (acc @ [e])) (d7_hamt_map_iterator_init (Some m)) [] E u = (Inr es, u) \<and>
    length es = count m \<and> distinct_keys (policy m) es \<and>
    (\<forall>k e. map_entry m k = Some e \<longleftrightarrow> e \<in> set es \<and> d7_hamt_keys_equal (policy m) (entry_key e) k)"
proof -
  have collect: "fold_act (\<lambda>acc e. ret (acc @ [e])) acc es E u = (Inr (acc @ es), u)" for acc es :: "('a, 'b) d7_hamt_entry list"
    by (induction es arbitrary: acc) (simp_all add: ret_def andthen_def)
  have run: "iterate (\<lambda>acc e. ret (acc @ [e])) (d7_hamt_map_iterator_init (Some m)) [] E u = (Inr (entries_opt (root m)), u)"
    unfolding iterate_fold [OF iterator_init_ok(1) [OF assms(2)]] iterator_init_ok(2) [OF assms(2)] using collect [of "[]"] by simp
  then show ?thesis using run map_entries [OF assms] by blast
qed

theorem map_iteration_witness:
  "\<exists>es. iterate (\<lambda>acc e. ret (acc @ [e])) (d7_hamt_map_iterator_init (Some (single_map 0 5 7))) [] (\<lambda>_. False) 9 = (Inr es, 9) \<and>
    length es = count (single_map 0 5 7) \<and> distinct_keys pointer_policy es \<and>
    (\<forall>k e. map_entry (single_map 0 5 7) k = Some e \<longleftrightarrow> e \<in> set es \<and> d7_hamt_keys_equal pointer_policy (entry_key e) k)"
  using map_iteration [of "single_map 0 5 7" "(=)" "(=)" "{single_node 0 5 7}" 1 "\<lambda>_. False" 9]
  by (simp add: pointer_policy_ok single_map_ok del: pointer_policy_equal)

text \<open>C3: the combination of two maps holds at each key what the operation prescribes for the entries the two
  maps hold there: union prefers the right value under the left key, intersection and difference keep
  left entries, symmetric difference the entries of either side. The right map may be of any policy.
  The published trie is well formed, its count exact, and its policy that of the left map.\<close>

theorem map_combine_correct:
  assumes "hamt_policy (policy l) Rk Rv" and "coherent (policy l) (policy r)" and "map_ok S t l" and "map_ok S t r"
  shows "achieves E (failing_requests E (policy l)) t (d7_hamt_map_combine (Some l) (Some r) op True)
    (\<lambda>m' t'. policy m' = policy l \<and> map_grown S t' m' \<and>
       (\<forall>k. same_entry Rk Rv (map_entry m' k)
          (combined (policy l) op (map_entry l k) (entry_under (policy l) r k))))"
  by (rule achieves_weaken [OF hamt_policy.map_combine_spec [OF assms(1) refl assms(2-4)]])
    (simp only: map_combined_def simp_thms)

theorem map_combine_correct_witness:
  "achieves (\<lambda>i. i < 4) (failing_requests (\<lambda>i. i < 4) pointer_policy) 2
     (d7_hamt_map_combine (Some (single_map 0 5 7)) (Some (single_map 1 5 8)) D7_HAMT_COMBINE_UNION True)
     (\<lambda>m' t'. policy m' = pointer_policy \<and> map_grown {single_node 0 5 7, single_node 1 5 8} t' m' \<and>
       (\<forall>k. same_entry (=) (=) (map_entry m' k)
          (combined pointer_policy D7_HAMT_COMBINE_UNION (map_entry (single_map 0 5 7) k)
             (entry_under pointer_policy (single_map 1 5 8) k))))"
  using map_combine_correct [of "single_map 0 5 7" "(=)" "(=)" "single_map 1 5 8" "{single_node 0 5 7, single_node 1 5 8}" 2
      "\<lambda>i. i < 4" D7_HAMT_COMBINE_UNION]
  by (simp add: pointer_policy_ok two_maps_ok)

text \<open>creating a map from an array, or setting the entries of an array in a map, binds them in order: a
  later entry overwrites the value of an earlier one with an equal key, and the key stored first
  stays.\<close>

theorem map_set_many_correct:
  assumes "hamt_policy (policy m) Rk Rv" and "map_ok S t m"
  shows "achieves E (failing_requests E (policy m)) t (d7_hamt_map_set_many (Some m) (Some es) True)
    (\<lambda>m' t'. policy m' = policy m \<and> (\<exists>S'. S \<subseteq> S' \<and> map_ok S' t' m') \<and>
       (\<forall>k. same_entry Rk Rv (map_entry m' k) (fold (bind_key (policy m)) es (map_entry m) k)))"
  unfolding d7_hamt_map_set_many_def prod.case option.case not_True_eq_False if_False
  by (rule hamt_policy.map_set_entries_spec [OF assms(1) refl assms(2)])

theorem map_set_many_correct_witness:
  "achieves (\<lambda>_. True) (failing_requests (\<lambda>_. True) pointer_policy) 1
     (d7_hamt_map_set_many (Some (single_map 0 5 7)) (Some [Entry 5 8, Entry 6 1]) True)
    (\<lambda>m' t'. policy m' = pointer_policy \<and> (\<exists>S'. {single_node 0 5 7} \<subseteq> S' \<and> map_ok S' t' m') \<and>
       (\<forall>k. same_entry (=) (=) (map_entry m' k) (fold (bind_key pointer_policy) [Entry 5 8, Entry 6 1] (map_entry (single_map 0 5 7)) k)))"
  using map_set_many_correct [of "single_map 0 5 7" "(=)" "(=)" "{single_node 0 5 7}" 1 "\<lambda>_. True" "[Entry 5 8, Entry 6 1]"]
  by (simp only: single_map_policy pointer_policy_ok single_map_ok zero_less_one simp_thms)

text \<open>the cached count of a map is the number of its keys up to key equality.\<close>

theorem map_count_correct:
  assumes "hamt_policy (policy m) Rk Rv" and "map_ok S t m"
  shows "d7_hamt_map_count (Some m) = card (key_class (policy m) ` map_keys m) \<and>
    finite (key_class (policy m) ` map_keys m) \<and> (d7_hamt_map_is_empty (Some m) \<longleftrightarrow> map_keys m = {})"
  using hamt_policy.map_count_classes [OF assms(1) refl assms(2)]
  by (simp add: d7_hamt_map_count_def d7_hamt_map_is_empty_def)

theorem map_count_correct_witness:
  "d7_hamt_map_count (Some (single_map 0 5 7)) = card (key_class pointer_policy ` map_keys (single_map 0 5 7))"
  using map_count_correct [of "single_map 0 5 7" "(=)" "(=)" "{single_node 0 5 7}" 1]
  by (simp add: pointer_policy_ok single_map_ok)

text \<open>the population count, which clears the lowest set bit until none is left, counts the bits of a bitmap,
  and the slot of a bit is the number of lower bits set: the position of its element in the dense array,
  which never lies outside an array of one element per bit.\<close>

theorem popcount_slot_correct:
  "d7_hamt_popcount b = card {i. bit b i} \<and>
   (\<forall>i<32. d7_hamt_slot b (d7_hamt_bit i) = card {j. j < i \<and> bit b j} \<and>
      (b AND d7_hamt_bit i \<noteq> 0 \<longrightarrow> d7_hamt_slot b (d7_hamt_bit i) < d7_hamt_popcount b))"
proof -
  have rank: "rank b i = card {j. j < i \<and> bit b j}" for i
    unfolding rank_def by (simp add: distinct_length_filter Int_def conj_commute)
  have fin: "finite {i. bit b i}" using set_positions [of b] by (metis List.finite_set)
  have pop: "d7_hamt_popcount b = card {i. bit b i}" by (simp add: d7_hamt_popcount_def d7_hamt_popcount_loop_card)
  have "card {j. j < i \<and> bit b j} < card {j. bit b j}" if "bit b i" for i
    by (rule psubset_card_mono [OF fin]) (use that in auto)
  then show ?thesis using pop by (auto simp: d7_hamt_slot_rank rank and_d7_hamt_bit_zero)
qed

theorem popcount_slot_correct_witness:
  "d7_hamt_slot 11 (d7_hamt_bit 3) = card {j. j < 3 \<and> bit (11 :: u32) j} \<and> d7_hamt_slot 11 (d7_hamt_bit 3) < d7_hamt_popcount 11"
proof -
  have "(11 :: u32) AND d7_hamt_bit 3 \<noteq> 0" by (simp add: d7_hamt_bit_def push_bit_eq_mult)
  moreover have "(3::nat) < 32" by simp
  ultimately show ?thesis using popcount_slot_correct [of 11] by blast
qed

end
