(* ===== verification/Hamt_Diff.thy ===== *)
theory Hamt_Diff
  imports Hamt_Canonical_Properties
begin

text \<open>
  The structural difference of two maps, \<open>d7_hamt_map_diff\<close>. The code walks both tries at once, skips
  what they share and calls a visitor for each key that was added, removed or changed; here the calls
  are the list of differences, in order.

  An operand of the walk is nothing, a node, or an entry stored inline in a branch. The pointer to an
  inline entry, which the code compares, is the address of the branch and the position in its array.
\<close>

datatype ('k, 'v) d7_hamt_difference =
    Removed (diff_key: 'k) 'v
  | Added (diff_key: 'k) 'v
  | Changed (diff_key: 'k) 'v 'v

datatype ('k, 'v) d7_hamt_diff_operand =
    Empty_Operand
  | Node_Operand "('k, 'v) d7_hamt_node"
  | Inline_Operand addr nat "('k, 'v) d7_hamt_inline_entry"

section \<open>The operations of the code\<close>

fun d7_hamt_diff_operand_is_empty :: "('k, 'v) d7_hamt_diff_operand \<Rightarrow> bool" where
  "d7_hamt_diff_operand_is_empty Empty_Operand = True"
| "d7_hamt_diff_operand_is_empty _ = False"

fun d7_hamt_diff_operand_is_run :: "('k, 'v) d7_hamt_diff_operand \<Rightarrow> bool" where
  "d7_hamt_diff_operand_is_run Empty_Operand = False"
| "d7_hamt_diff_operand_is_run (Node_Operand n) = (\<not> is_bitmap n)"
| "d7_hamt_diff_operand_is_run (Inline_Operand _ _ _) = True"

text \<open>The hash and the entries of a run; the assertions of the code exclude the other operands.\<close>

fun d7_hamt_entry_run_from_operand ::
  "('k, 'v) d7_hamt_diff_operand \<Rightarrow> failure + u32 \<times> ('k, 'v) d7_hamt_entry list" where
  "d7_hamt_entry_run_from_operand (Inline_Operand _ _ e) = Inr (inline_hash e, [inline_entry e])"
| "d7_hamt_entry_run_from_operand (Node_Operand (Leaf _ h k v)) = Inr (h, [Entry k v])"
| "d7_hamt_entry_run_from_operand (Node_Operand (Collision _ h es)) = Inr (h, es)"
| "d7_hamt_entry_run_from_operand _ = Inl Fault"

fun d7_hamt_diff_operand_logical_slot ::
  "('k, 'v) d7_hamt_diff_operand \<Rightarrow> nat \<Rightarrow> nat \<Rightarrow> failure + ('k, 'v) d7_hamt_diff_operand" where
  "d7_hamt_diff_operand_logical_slot (Node_Operand (Bitmap_Indexed a dm nm data children n)) index shift =
     (let selected_bit = d7_hamt_bit index
      in if dm AND selected_bit \<noteq> 0 then
           (let slot = d7_hamt_slot dm selected_bit
            in case nth_opt data slot of None \<Rightarrow> Inl Fault | Some e \<Rightarrow> Inr (Inline_Operand a slot e))
         else if nm AND selected_bit \<noteq> 0 then
           (case nth_opt children (d7_hamt_slot nm selected_bit) of
              None \<Rightarrow> Inl Fault
            | Some c \<Rightarrow> Inr (Node_Operand c))
         else Inr Empty_Operand)"
| "d7_hamt_diff_operand_logical_slot operand index shift =
     (if d7_hamt_diff_operand_is_empty operand then Inr operand
      else if 32 \<le> shift then Inl Fault
      else
        (case d7_hamt_entry_run_from_operand operand of
           Inl err \<Rightarrow> Inl err
         | Inr (h, es) \<Rightarrow> Inr (if d7_hamt_index h shift = index then operand else Empty_Operand)))"

text \<open>\<open>for (index = 0; index != 32; ++index)\<close> over calls that emit differences.\<close>

fun emit_all :: "('a \<Rightarrow> failure + 'b list) \<Rightarrow> 'a list \<Rightarrow> failure + 'b list" where
  "emit_all f [] = Inr []"
| "emit_all f (x # xs) =
     (case f x of
        Inl err \<Rightarrow> Inl err
      | Inr ds \<Rightarrow> (case emit_all f xs of Inl err \<Rightarrow> Inl err | Inr ds' \<Rightarrow> Inr (ds @ ds')))"

lemma emit_all_cong [fundef_cong]:
  assumes "xs = ys" and "\<And>x. x \<in> set ys \<Longrightarrow> f x = g x"
  shows "emit_all f xs = emit_all g ys"
  using assms by (induction ys arbitrary: xs) (auto split: sum.split)

lemma emit_all_Inr: "(\<And>x. x \<in> set xs \<Longrightarrow> f x = Inr (g x)) \<Longrightarrow> emit_all f xs = Inr (concat (map g xs))"
  by (induction xs) auto

definition operand_node :: "('k, 'v) d7_hamt_diff_operand \<Rightarrow> ('k, 'v) d7_hamt_node option" where
  "operand_node operand =
     (case operand of
        Empty_Operand \<Rightarrow> None
      | Node_Operand n \<Rightarrow> Some n
      | Inline_Operand a i e \<Rightarrow>
          Some (Leaf 0 (inline_hash e) (entry_key (inline_entry e)) (entry_value (inline_entry e))))"

lemma operand_node_simps [simp]:
  "operand_node Empty_Operand = None" "operand_node (Node_Operand n) = Some n"
  "operand_node (Inline_Operand a i e) =
     Some (Leaf 0 (inline_hash e) (entry_key (inline_entry e)) (entry_value (inline_entry e)))"
  by (simp_all add: operand_node_def)

lemma operand_slot_weight:
  assumes "d7_hamt_diff_operand_logical_slot operand i s = Inr x"
  shows "weight_opt (operand_node x) \<le> weight_opt (operand_node operand)"
    and "\<not> d7_hamt_diff_operand_is_empty operand \<Longrightarrow> \<not> d7_hamt_diff_operand_is_run operand \<Longrightarrow>
      weight_opt (operand_node x) < weight_opt (operand_node operand)"
proof -
  have run: "weight_opt (operand_node x) \<le> weight_opt (operand_node operand) \<and>
    (\<not> d7_hamt_diff_operand_is_empty operand \<longrightarrow> \<not> d7_hamt_diff_operand_is_run operand \<longrightarrow>
      weight_opt (operand_node x) < weight_opt (operand_node operand))"
  proof (cases "\<exists>a dm nm data children n. operand = Node_Operand (Bitmap_Indexed a dm nm data children n)")
    case True
    then obtain a dm nm data children n where op: "operand = Node_Operand (Bitmap_Indexed a dm nm data children n)" by blast
    have "weight c < 2 + sum_list (map weight children)" if "nth_opt children j = Some c" for c j
      using nth_opt_in_set [OF that] member_le_sum_list [of "weight c" "map weight children"] by fastforce
    then show ?thesis
      using assms by (auto simp: op weight_opt_def Let_def split: if_splits option.splits intro: less_imp_le)
  next
    case False
    then have "d7_hamt_diff_operand_is_empty operand \<or> d7_hamt_diff_operand_is_run operand"
      by (cases operand) (auto, metis is_bitmap.elims(2))
    moreover have "x = operand \<or> x = Empty_Operand"
      using assms False
      by (cases "(operand, i, s)" rule: d7_hamt_diff_operand_logical_slot.cases) (auto split: if_splits sum.splits prod.splits)
    ultimately show ?thesis by (auto simp: weight_opt_def)
  qed
  then show "weight_opt (operand_node x) \<le> weight_opt (operand_node operand)" by simp
  show "\<not> d7_hamt_diff_operand_is_empty operand \<Longrightarrow> \<not> d7_hamt_diff_operand_is_run operand \<Longrightarrow>
      weight_opt (operand_node x) < weight_opt (operand_node operand)" using run by simp
qed

definition d7_hamt_emit_difference :: "bool \<Rightarrow> ('k, 'v) d7_hamt_entry \<Rightarrow> ('k, 'v) d7_hamt_difference" where
  "d7_hamt_emit_difference added e =
     (if added then Added (entry_key e) (entry_value e) else Removed (entry_key e) (entry_value e))"

function d7_hamt_append_diff_operand ::
  "('k, 'v) d7_hamt_diff_operand \<Rightarrow> bool \<Rightarrow> failure + ('k, 'v) d7_hamt_difference list" where
  "d7_hamt_append_diff_operand operand added =
     (if d7_hamt_diff_operand_is_empty operand then Inr []
      else if d7_hamt_diff_operand_is_run operand then
        (case d7_hamt_entry_run_from_operand operand of
           Inl err \<Rightarrow> Inl err
         | Inr (h, es) \<Rightarrow> Inr (map (d7_hamt_emit_difference added) es))
      else
        emit_all (\<lambda>index.
            case d7_hamt_diff_operand_logical_slot operand index 0 of
              Inl err \<Rightarrow> Inl err
            | Inr slot \<Rightarrow> d7_hamt_append_diff_operand slot added)
          [0..<32])"
  by pat_completeness auto
termination
  by (relation "measure (\<lambda>(operand, added). weight_opt (operand_node operand))") (auto dest: operand_slot_weight)

declare d7_hamt_append_diff_operand.simps [simp del]

definition d7_hamt_entry_run_find ::
  "('k, 'v) d7_hamt_entry list \<Rightarrow> 'k \<Rightarrow> ('k, 'v) d7_hamt_policy \<Rightarrow> nat option" where
  "d7_hamt_entry_run_find run key p = first_index (entry_matches p key) run"

definition diff_before ::
  "('k, 'v) d7_hamt_policy \<Rightarrow> ('k, 'v) d7_hamt_entry list \<Rightarrow> ('k, 'v) d7_hamt_entry
     \<Rightarrow> ('k, 'v) d7_hamt_difference list" where
  "diff_before p right before =
     (case d7_hamt_entry_run_find right (entry_key before) p of
        None \<Rightarrow> [Removed (entry_key before) (entry_value before)]
      | Some right_index \<Rightarrow>
          let after = right ! right_index
          in if d7_hamt_values_equal p (entry_value before) (entry_value after) then []
             else [Changed (entry_key before) (entry_value before) (entry_value after)])"

definition d7_hamt_diff_entry_runs ::
  "('k, 'v) d7_hamt_policy \<Rightarrow> u32 \<times> ('k, 'v) d7_hamt_entry list \<Rightarrow> u32 \<times> ('k, 'v) d7_hamt_entry list
     \<Rightarrow> ('k, 'v) d7_hamt_difference list" where
  "d7_hamt_diff_entry_runs p left right =
     (if fst left \<noteq> fst right then
        map (\<lambda>e. Removed (entry_key e) (entry_value e)) (snd left) @
        map (\<lambda>e. Added (entry_key e) (entry_value e)) (snd right)
      else
        concat (map (diff_before p (snd right)) (snd left)) @
        map (\<lambda>e. Added (entry_key e) (entry_value e))
          (filter (\<lambda>after. d7_hamt_entry_run_find (snd left) (entry_key after) p = None) (snd right)))"

fun operand_same :: "('k, 'v) d7_hamt_diff_operand \<Rightarrow> ('k, 'v) d7_hamt_diff_operand \<Rightarrow> bool" where
  "operand_same (Node_Operand l) (Node_Operand r) \<longleftrightarrow> node_addr l = node_addr r"
| "operand_same (Inline_Operand a i _) (Inline_Operand b j _) \<longleftrightarrow> a = b \<and> i = j"
| "operand_same _ _ \<longleftrightarrow> False"

function d7_hamt_diff_operands ::
  "('k, 'v) d7_hamt_policy \<Rightarrow> ('k, 'v) d7_hamt_diff_operand \<Rightarrow> ('k, 'v) d7_hamt_diff_operand \<Rightarrow> nat
     \<Rightarrow> failure + ('k, 'v) d7_hamt_difference list" where
  "d7_hamt_diff_operands p left right shift =
     (if operand_same left right then Inr []
      else if d7_hamt_diff_operand_is_empty left then d7_hamt_append_diff_operand right True
      else if d7_hamt_diff_operand_is_empty right then d7_hamt_append_diff_operand left False
      else if d7_hamt_diff_operand_is_run left \<and> d7_hamt_diff_operand_is_run right then
        (case (d7_hamt_entry_run_from_operand left, d7_hamt_entry_run_from_operand right) of
           (Inr left_run, Inr right_run) \<Rightarrow> Inr (d7_hamt_diff_entry_runs p left_run right_run)
         | _ \<Rightarrow> Inl Fault)
      else if 32 \<le> shift then Inl Fault
      else
        emit_all (\<lambda>index.
            case d7_hamt_diff_operand_logical_slot left index shift of
              Inl err \<Rightarrow> Inl err
            | Inr left_slot \<Rightarrow>
                (case d7_hamt_diff_operand_logical_slot right index shift of
                   Inl err \<Rightarrow> Inl err
                 | Inr right_slot \<Rightarrow> d7_hamt_diff_operands p left_slot right_slot (shift + 5)))
          [0..<32])"
  by pat_completeness auto
termination
proof (relation "measure (\<lambda>(p, left, right, shift). weight_opt (operand_node left) + weight_opt (operand_node right))", goal_cases)
  case (2 p left right shift index left_slot right_slot)
  note l = operand_slot_weight [OF 2(7)] and r = operand_slot_weight [OF 2(8)]
  have "\<not> d7_hamt_diff_operand_is_run left \<or> \<not> d7_hamt_diff_operand_is_run right" using 2(4) by blast
  then show ?case using l r 2(2,3) by fastforce
qed simp

declare d7_hamt_diff_operands.simps [simp del]

definition root_operand :: "('k, 'v) d7_hamt_map \<Rightarrow> ('k, 'v) d7_hamt_diff_operand" where
  "root_operand m = (case root m of None \<Rightarrow> Empty_Operand | Some n \<Rightarrow> Node_Operand n)"

definition d7_hamt_map_diff ::
  "('k, 'v) d7_hamt_map option \<Rightarrow> ('k, 'v) d7_hamt_map option \<Rightarrow> bool
     \<Rightarrow> failure + ('k, 'v) d7_hamt_difference list" where
  "d7_hamt_map_diff left right visitor =
     (case (left, right) of
        (Some l, Some r) \<Rightarrow>
          if \<not> visitor \<or> \<not> d7_hamt_policies_compatible (policy l) (policy r)
          then Inl (Status D7_HAMT_INVALID_ARGUMENT)
          else if same_ptr (root l) (root r) then Inr []
          else d7_hamt_diff_operands (policy l) (root_operand l) (root_operand r) 0
      | _ \<Rightarrow> Inl (Status D7_HAMT_INVALID_ARGUMENT))"

section \<open>What the walk reports\<close>

text \<open>The difference between the entries two maps hold at one key.\<close>

fun difference_at ::
  "('k, 'v) d7_hamt_policy \<Rightarrow> ('k, 'v) d7_hamt_entry option \<Rightarrow> ('k, 'v) d7_hamt_entry option
     \<Rightarrow> ('k, 'v) d7_hamt_difference option" where
  "difference_at p None None = None"
| "difference_at p (Some before) None = Some (Removed (entry_key before) (entry_value before))"
| "difference_at p None (Some after) = Some (Added (entry_key after) (entry_value after))"
| "difference_at p (Some before) (Some after) =
     (if d7_hamt_values_equal p (entry_value before) (entry_value after) then None
      else Some (Changed (entry_key before) (entry_value before) (entry_value after)))"

lemma difference_at_Some:
  "difference_at p x y = Some (Removed k v) \<longleftrightarrow> x = Some (Entry k v) \<and> y = None"
  "difference_at p x y = Some (Added k v) \<longleftrightarrow> x = None \<and> y = Some (Entry k v)"
  "difference_at p x y = Some (Changed k v w) \<longleftrightarrow>
     x = Some (Entry k v) \<and> (\<exists>k'. y = Some (Entry k' w)) \<and> \<not> d7_hamt_values_equal p v w"
  by (cases x; cases y; cases "the x"; cases "the y"; auto)+

lemma difference_at_None: "difference_at p x y = None \<longleftrightarrow> same_value (d7_hamt_values_equal p) x y"
  by (cases x; cases y) auto

lemma difference_at_found: "difference_at p x y = Some d \<Longrightarrow> x \<noteq> None \<or> y \<noteq> None"
  by (cases x; cases y) auto

lemma sorted_wrt_concat_slots:
  assumes "\<And>i. i < n \<Longrightarrow> sorted_wrt P (g i)"
    and "\<And>i j x y. i < j \<Longrightarrow> j < n \<Longrightarrow> x \<in> set (g i) \<Longrightarrow> y \<in> set (g j) \<Longrightarrow> P x y"
  shows "sorted_wrt P (concat (map g [0..<n]))"
  using assms by (induction n) (auto simp: sorted_wrt_append)

lemma sorted_wrt_concat_short:
  assumes "sorted_wrt Q es" and "\<And>e. length (f e) \<le> 1"
    and "\<And>e e' x y. Q e e' \<Longrightarrow> x \<in> set (f e) \<Longrightarrow> y \<in> set (f e') \<Longrightarrow> P x y"
  shows "sorted_wrt P (concat (map f es))"
  using assms(1)
proof (induction es)
  case (Cons e es)
  have "sorted_wrt P (f e)" using assms(2) [of e] by (cases "f e") auto
  then show ?case using Cons assms(3) by (fastforce simp: sorted_wrt_append)
qed simp

lemma distinct_keys_sorted_wrt:
  "distinct_keys p es \<longleftrightarrow> sorted_wrt (\<lambda>e e'. \<not> d7_hamt_keys_equal p (entry_key e) (entry_key e')) es"
  by (induction es) auto

text \<open>The heap behind an operand: an inline entry sits in the array of a branch.\<close>

fun operand_in :: "('k, 'v) d7_hamt_node set \<Rightarrow> ('k, 'v) d7_hamt_diff_operand \<Rightarrow> bool" where
  "operand_in S Empty_Operand \<longleftrightarrow> True"
| "operand_in S (Node_Operand n) \<longleftrightarrow> subnodes n \<subseteq> S"
| "operand_in S (Inline_Operand a i e) \<longleftrightarrow>
     (\<exists>dm nm data children n. Bitmap_Indexed a dm nm data children n \<in> S \<and> nth_opt data i = Some e)"

lemma operand_same_node:
  assumes "heap S t" "operand_in S l" "operand_in S r" "operand_same l r"
  shows "operand_node l = operand_node r"
  using assms(2-4)
proof (cases rule: operand_same.cases [of "(l, r)"])
  case (1 ln rn)
  then show ?thesis using assms(2-4) heap_root_same [OF assms(1), of ln rn] by simp
next
  case (2 a i e b j e')
  then obtain dm nm data ch n dm' nm' data' ch' n'
    where "Bitmap_Indexed a dm nm data ch n \<in> S" "nth_opt data i = Some e"
      "Bitmap_Indexed a dm' nm' data' ch' n' \<in> S" "nth_opt data' i = Some e'"
    using assms(2-4) by auto
  then show ?thesis using heap_same [OF assms(1), of "Bitmap_Indexed a dm nm data ch n" "Bitmap_Indexed a dm' nm' data' ch' n'"] 2 by simp
qed simp_all

definition part_of ::
  "('k, 'v) d7_hamt_policy \<Rightarrow> nat \<Rightarrow> ('k, 'v) d7_hamt_node option \<Rightarrow> nat \<Rightarrow> ('k, 'v) d7_hamt_node option \<Rightarrow> bool" where
  "part_of p s n i x \<longleftrightarrow> (\<forall>h\<in>hashes_opt x. d7_hamt_index h s = i) \<and>
     (\<forall>h k. d7_hamt_index h s = i \<longrightarrow> look_opt p x h (s + 5) k = look_opt p n h s k)"

lemma part_of_None [simp]: "part_of p s None i None"
  by (simp add: part_of_def)

context hamt_policy
begin

text \<open>A run operand and the entries it reads.\<close>

lemma operand_run:
  assumes "d7_hamt_diff_operand_is_run operand" and "wf_opt p s (operand_node operand)"
  obtains h es where "d7_hamt_entry_run_from_operand operand = Inr (h, es)" and "distinct_keys p es"
    and "\<forall>e\<in>set es. d7_hamt_get_hash p (entry_key e) = h" and "hashes_opt (operand_node operand) = {h}"
    and "\<And>s. wf_opt p s (operand_node operand)"
    and "\<And>h' s k. look_opt p (operand_node operand) h' s k = (if h = h' then find (entry_matches p k) es else None)"
proof (cases operand)
  case (Node_Operand n)
  then show ?thesis using assms that by (cases n) (auto simp: entry_matches_def)
next
  case (Inline_Operand a i e)
  then show ?thesis using assms that [of "inline_hash e" "[inline_entry e]"]
    by (cases "inline_entry e") (auto simp: entry_matches_def)
qed (use assms in simp)

lemma operand_slot_part:
  assumes wf: "wf_opt p s (operand_node operand)" and s: "s < 32" and i: "i < 32" and sub: "operand_in S operand"
  obtains x where "d7_hamt_diff_operand_logical_slot operand i s = Inr x" and "operand_in S x"
    and "wf_opt p (s + 5) (operand_node x)" and "part_of p s (operand_node operand) i (operand_node x)"
proof -
  consider (empty) "operand = Empty_Operand" | (run) "d7_hamt_diff_operand_is_run operand"
    | (branch) a dm nm data ch c where "operand = Node_Operand (Bitmap_Indexed a dm nm data ch c)"
    by (cases operand rule: d7_hamt_diff_operand_is_run.cases) (auto, metis is_bitmap.elims(2))
  then show ?thesis
  proof cases
    case run
    obtain h es where es: "d7_hamt_entry_run_from_operand operand = Inr (h, es)" "hashes_opt (operand_node operand) = {h}"
      "wf_opt p (s + 5) (operand_node operand)"
      "\<And>h' s k. look_opt p (operand_node operand) h' s k = (if h = h' then find (entry_matches p k) es else None)"
      using operand_run [OF run wf] by metis
    have "d7_hamt_diff_operand_logical_slot operand i s = Inr (if d7_hamt_index h s = i then operand else Empty_Operand)"
      using run s es(1) by (cases "(operand, i, s)" rule: d7_hamt_diff_operand_logical_slot.cases) auto
    moreover have "part_of p s (operand_node operand) i (operand_node (if d7_hamt_index h s = i then operand else Empty_Operand))"
      using es(2,4) by (auto simp: part_of_def)
    ultimately show ?thesis using that es(3) sub by (auto split: if_splits)
  next
    case (branch a dm nm data ch c)
    then have wfn: "wf_node p s (Bitmap_Indexed a dm nm data ch c)" using wf by simp
    then have dense: "dense dm data" "dense nm ch" by simp_all
    note rd = slot_reads [OF dense(1) i] slot_reads [OF dense(2) i]
    show ?thesis
    proof (cases "sparse dm data i")
      case (Some e)
      let ?x = "Inline_Operand a (d7_hamt_slot dm (d7_hamt_bit i)) e"
      have eh: "d7_hamt_index (inline_hash e) s = i" "d7_hamt_get_hash p (entry_key (inline_entry e)) = inline_hash e"
        using wfn Some sparse_Some_in_set [OF Some] by auto
      have "d7_hamt_diff_operand_logical_slot operand i s = Inr ?x" using rd Some branch by (simp add: Let_def)
      moreover have "Bitmap_Indexed a dm nm data ch c \<in> S" using sub branch by simp
      then have "operand_in S ?x" using rd Some unfolding operand_in.simps by fastforce
      moreover have "part_of p s (operand_node operand) i (operand_node ?x)"
        using eh Some branch by (auto simp: part_of_def inline_match_def entry_matches_def)
      ultimately show ?thesis using that eh by simp
    next
      case none: None
      show ?thesis
      proof (cases "sparse nm ch i")
        case None
        have "part_of p s (operand_node operand) i None" using none None branch by (auto simp: part_of_def)
        then show ?thesis using that [of Empty_Operand] rd none None branch by (simp add: Let_def)
      next
        case (Some m)
        have m: "m \<in> set ch" using Some by (rule sparse_Some_in_set)
        have "part_of p s (operand_node operand) i (Some m)" using none Some wfn branch by (auto simp: part_of_def)
        then show ?thesis using that [of "Node_Operand m"] rd none Some branch wfn m sub by (auto simp: Let_def)
      qed
    qed
  qed (use that [of Empty_Operand] s in simp)
qed

text \<open>
  The differences \<open>ds\<close> between the nodes \<open>l\<close> and \<open>r\<close>: every difference that exists at some key, and no key twice.
\<close>

definition diff_ok ::
  "nat \<Rightarrow> ('k, 'v) d7_hamt_node option \<Rightarrow> ('k, 'v) d7_hamt_node option \<Rightarrow> ('k, 'v) d7_hamt_difference list \<Rightarrow> bool" where
  "diff_ok s l r ds \<longleftrightarrow>
     (\<forall>d. d \<in> set ds \<longleftrightarrow>
        difference_at p (look_opt p l (d7_hamt_get_hash p (diff_key d)) s (diff_key d))
          (look_opt p r (d7_hamt_get_hash p (diff_key d)) s (diff_key d)) = Some d) \<and>
     sorted_wrt (\<lambda>d d'. \<not> d7_hamt_keys_equal p (diff_key d) (diff_key d')) ds"

lemma diff_ok_same: "diff_ok s l l []"
proof -
  have "difference_at p x x = None" for x by (cases x) auto
  then show ?thesis by (simp add: diff_ok_def)
qed

lemma look_opt_hash: "look_opt p x h s k \<noteq> None \<Longrightarrow> h \<in> hashes_opt x"
  using look_hash by (cases x) auto

lemma diff_branch:
  assumes l: "\<And>i. i < 32 \<Longrightarrow> part_of p s l i (L i)" and r: "\<And>i. i < 32 \<Longrightarrow> part_of p s r i (R i)"
    and g: "\<And>i. i < 32 \<Longrightarrow> diff_ok (s + 5) (L i) (R i) (g i)"
  shows "diff_ok s l r (concat (map g [0..<32]))"
proof -
  let ?h = "\<lambda>d. d7_hamt_get_hash p (diff_key d)"
  let ?D = "\<lambda>s l r d. difference_at p (look_opt p l (?h d) s (diff_key d)) (look_opt p r (?h d) s (diff_key d))"
  have mem: "d \<in> set (g i) \<longleftrightarrow> ?D (s + 5) (L i) (R i) d = Some d" if "i < 32" for i d
    using g [OF that] by (simp add: diff_ok_def)
  have idx: "d7_hamt_index (?h d) s = i" if "i < 32" "d \<in> set (g i)" for i d
    using difference_at_found [OF mem [OF that(1), THEN iffD1, OF that(2)]] look_opt_hash [of "L i" "?h d" "s + 5" "diff_key d"]
      look_opt_hash [of "R i" "?h d" "s + 5" "diff_key d"] l [OF that(1)] r [OF that(1)] unfolding part_of_def by blast
  have same: "?D (s + 5) (L i) (R i) d = ?D s l r d" if "i < 32" "d7_hamt_index (?h d) s = i" for i d
    using l [OF that(1)] r [OF that(1)] that(2) by (simp add: part_of_def)
  have "d \<in> set (concat (map g [0..<32])) \<longleftrightarrow> ?D s l r d = Some d" for d
  proof -
    have "d \<in> set (concat (map g [0..<32])) \<longleftrightarrow> (\<exists>i<32. d \<in> set (g i))" by auto
    also have "\<dots> \<longleftrightarrow> d \<in> set (g (d7_hamt_index (?h d) s))" using idx [of _ d] d7_hamt_index_less [of "?h d" s] by auto
    also have "\<dots> \<longleftrightarrow> ?D s l r d = Some d" unfolding mem [OF d7_hamt_index_less] same [OF d7_hamt_index_less refl] ..
    finally show ?thesis .
  qed
  moreover have "sorted_wrt (\<lambda>d d'. \<not> d7_hamt_keys_equal p (diff_key d) (diff_key d')) (concat (map g [0..<32]))"
  proof (rule sorted_wrt_concat_slots)
    show "sorted_wrt (\<lambda>d d'. \<not> d7_hamt_keys_equal p (diff_key d) (diff_key d')) (g i)" if "i < 32" for i
      using g [OF that] by (simp add: diff_ok_def)
    show "\<not> d7_hamt_keys_equal p (diff_key x) (diff_key y)" if "i < j" "j < 32" "x \<in> set (g i)" "y \<in> set (g j)" for i j x y
    proof
      assume "d7_hamt_keys_equal p (diff_key x) (diff_key y)"
      then have "?h x = ?h y" by (rule keq_hash)
      then show False using idx [OF _ that(3)] idx [OF that(2,4)] that(1,2) by simp
    qed
  qed
  ultimately show ?thesis by (simp add: diff_ok_def)
qed

lemma run_member:
  assumes "distinct_keys p es" and "\<forall>e\<in>set es. d7_hamt_get_hash p (entry_key e) = h"
  shows "(if h = d7_hamt_get_hash p k then find (entry_matches p k) es else None) = Some (Entry k v) \<longleftrightarrow> Entry k v \<in> set es"
  using assms find_match [OF assms(1), of "Entry k v" k] by (auto simp: find_Some_iff)

lemma diff_before_at:
  "diff_before p es' e = (case difference_at p (Some e) (find (entry_matches p (entry_key e)) es') of None \<Rightarrow> [] | Some d \<Rightarrow> [d])"
proof (cases "first_index (entry_matches p (entry_key e)) es'")
  case None
  then show ?thesis using first_index_None [of "entry_matches p (entry_key e)" es'] by (simp add: diff_before_def d7_hamt_entry_run_find_def)
next
  case (Some i)
  then show ?thesis using first_index_Some [OF Some] by (simp add: diff_before_def d7_hamt_entry_run_find_def)
qed

lemma difference_at_key: "difference_at p (Some e) y = Some d \<Longrightarrow> diff_key d = entry_key e"
  by (cases y) (auto split: if_splits)

lemma diff_runs_members:
  "d \<in> set (d7_hamt_diff_entry_runs p (h, es) (h', es')) \<longleftrightarrow>
     (\<exists>e\<in>set es. difference_at p (Some e) (if h = h' then find (entry_matches p (entry_key e)) es' else None) = Some d) \<or>
     (\<exists>a\<in>set es'. (h = h' \<longrightarrow> find (entry_matches p (entry_key a)) es = None) \<and> difference_at p None (Some a) = Some d)"
proof -
  have "set (diff_before p es' e) = set_option (difference_at p (Some e) (find (entry_matches p (entry_key e)) es'))" for e
    unfolding diff_before_at by (cases "difference_at p (Some e) (find (entry_matches p (entry_key e)) es')") simp_all
  then show ?thesis
    by (cases "h = h'") (auto simp: d7_hamt_diff_entry_runs_def d7_hamt_entry_run_find_def first_index_None)
qed

lemma diff_runs_distinct:
  assumes L: "distinct_keys p es" "\<forall>e\<in>set es. d7_hamt_get_hash p (entry_key e) = h"
    and R: "distinct_keys p es'" "\<forall>e\<in>set es'. d7_hamt_get_hash p (entry_key e) = h'"
  shows "sorted_wrt (\<lambda>d d'. \<not> d7_hamt_keys_equal p (diff_key d) (diff_key d')) (d7_hamt_diff_entry_runs p (h, es) (h', es'))"
proof (cases "h = h'")
  case True
  have key: "diff_key x = entry_key e" if "x \<in> set (diff_before p es' e)" for x e
    using that difference_at_key [of e "find (entry_matches p (entry_key e)) es'" x] unfolding diff_before_at
    by (cases "difference_at p (Some e) (find (entry_matches p (entry_key e)) es')") auto
  have "sorted_wrt (\<lambda>d d'. \<not> d7_hamt_keys_equal p (diff_key d) (diff_key d')) (concat (map (diff_before p es') es))"
    using L(1) unfolding distinct_keys_sorted_wrt
    by (rule sorted_wrt_concat_short) (auto simp: diff_before_at key split: option.split)
  moreover have "distinct_keys p (filter (\<lambda>a. find (entry_matches p (entry_key a)) es = None) es')"
    using R(1) by (rule distinct_keys_filter)
  ultimately show ?thesis using True
    by (auto simp: d7_hamt_diff_entry_runs_def d7_hamt_entry_run_find_def first_index_None sorted_wrt_append sorted_wrt_map
        distinct_keys_sorted_wrt find_None_iff entry_matches_def dest: key)
next
  case False
  then have "\<not> d7_hamt_keys_equal p (entry_key e) (entry_key a)" if "e \<in> set es" "a \<in> set es'" for e a
    using that L(2) R(2) keq_hash [of "entry_key e" "entry_key a"] by auto
  then show ?thesis using False L(1) R(1)
    by (auto simp: d7_hamt_diff_entry_runs_def sorted_wrt_append sorted_wrt_map distinct_keys_sorted_wrt)
qed

lemma diff_runs_ok:
  assumes L: "distinct_keys p es" "\<forall>e\<in>set es. d7_hamt_get_hash p (entry_key e) = h"
    and R: "distinct_keys p es'" "\<forall>e\<in>set es'. d7_hamt_get_hash p (entry_key e) = h'"
    and l: "\<And>x k. look_opt p l x s k = (if h = x then find (entry_matches p k) es else None)"
    and r: "\<And>x k. look_opt p r x s k = (if h' = x then find (entry_matches p k) es' else None)"
  shows "diff_ok s l r (d7_hamt_diff_entry_runs p (h, es) (h', es'))"
proof -
  let ?ds = "d7_hamt_diff_entry_runs p (h, es) (h', es')" and ?h = "d7_hamt_get_hash p"
  let ?R = "\<lambda>k. if h = h' then find (entry_matches p k) es' else None"
  note mem = run_member [OF L] run_member [OF R]
  have hash: "Entry k v \<in> set es \<Longrightarrow> ?h k = h" "Entry k v \<in> set es' \<Longrightarrow> ?h k = h'" for k v
    using L(2) R(2) by (metis d7_hamt_entry.sel(1))+
  have look_r: "look_opt p r (?h k) s k = ?R k" if "Entry k v \<in> set es" for k v using hash(1) [OF that] r by simp
  have look_l: "look_opt p l (?h k) s k = (if h = h' then find (entry_matches p k) es else None)" if "Entry k v \<in> set es'" for k v
    using hash(2) [OF that] l by simp
  have at: "look_opt p l (?h k) s k = Some (Entry k v) \<longleftrightarrow> Entry k v \<in> set es"
    "look_opt p r (?h k) s k = Some (Entry k v) \<longleftrightarrow> Entry k v \<in> set es'" for k v
    unfolding l r using mem by simp_all
  have ex: "(\<exists>e\<in>set es. P e) \<longleftrightarrow> (\<exists>k v. Entry k v \<in> set es \<and> P (Entry k v))" for P es
    by (metis d7_hamt_entry.exhaust)
  have "d \<in> set ?ds \<longleftrightarrow>
      difference_at p (look_opt p l (?h (diff_key d)) s (diff_key d)) (look_opt p r (?h (diff_key d)) s (diff_key d)) = Some d" for d
  proof (cases d)
    case (Removed k v)
    show ?thesis unfolding diff_runs_members Removed difference_at_Some d7_hamt_difference.sel at ex
      using look_r by (auto split: if_splits)
  next
    case (Added k v)
    show ?thesis unfolding diff_runs_members Added difference_at_Some d7_hamt_difference.sel at ex
      using look_l by (auto split: if_splits)
  next
    case (Changed k v w)
    show ?thesis unfolding diff_runs_members Changed difference_at_Some d7_hamt_difference.sel at ex
      using look_r by (auto split: if_splits)
  qed
  then show ?thesis using diff_runs_distinct [OF L R] by (simp add: diff_ok_def)
qed

lemma append_operand_ok:
  assumes "wf_opt p s (operand_node operand)" and "operand_in S operand"
  shows "\<exists>ds. d7_hamt_append_diff_operand operand added = Inr ds \<and>
    diff_ok s (if added then None else operand_node operand) (if added then operand_node operand else None) ds"
  using assms
proof (induction "weight_opt (operand_node operand)" arbitrary: operand s rule: less_induct)
  case less
  let ?l = "\<lambda>x. if added then None else operand_node x" and ?r = "\<lambda>x. if added then operand_node x else None"
  consider (empty) "operand = Empty_Operand" | (run) "d7_hamt_diff_operand_is_run operand"
    | (branch) a dm nm data ch c where "operand = Node_Operand (Bitmap_Indexed a dm nm data ch c)"
    by (cases operand rule: d7_hamt_diff_operand_is_run.cases) (auto, metis is_bitmap.elims(2))
  then show ?case
  proof cases
    case empty
    then show ?thesis using diff_ok_same by (subst d7_hamt_append_diff_operand.simps) simp
  next
    case run
    obtain h es where es: "d7_hamt_entry_run_from_operand operand = Inr (h, es)" "distinct_keys p es"
      "\<forall>e\<in>set es. d7_hamt_get_hash p (entry_key e) = h"
      "\<And>h' s k. look_opt p (operand_node operand) h' s k = (if h = h' then find (entry_matches p k) es else None)"
      using operand_run [OF run less.prems(1)] by metis
    have "\<not> d7_hamt_diff_operand_is_empty operand" using run by (cases operand) simp_all
    then have "d7_hamt_append_diff_operand operand added = Inr (map (d7_hamt_emit_difference added) es)"
      using run es(1) by (subst d7_hamt_append_diff_operand.simps) simp
    moreover have "map (d7_hamt_emit_difference added) es =
        d7_hamt_diff_entry_runs p (h, if added then [] else es) (h, if added then es else [])"
      by (simp add: d7_hamt_diff_entry_runs_def d7_hamt_emit_difference_def [abs_def] d7_hamt_entry_run_find_def diff_before_def [abs_def])
    moreover have "diff_ok s (?l operand) (?r operand) \<dots>"
      using es by (intro diff_runs_ok) (simp_all split: if_splits)
    ultimately show ?thesis by simp
  next
    case (branch a dm nm data ch c)
    have s: "s < 32" using less.prems(1) branch by simp
    have "\<exists>x. d7_hamt_diff_operand_logical_slot operand i s = Inr x \<and> operand_in S x \<and>
        wf_opt p (s + 5) (operand_node x) \<and> part_of p s (operand_node operand) i (operand_node x)" if "i < 32" for i
      using operand_slot_part [OF less.prems(1) s that less.prems(2)] by metis
    then obtain X where X: "\<And>i. i < 32 \<Longrightarrow> d7_hamt_diff_operand_logical_slot operand i s = Inr (X i) \<and> operand_in S (X i) \<and>
        wf_opt p (s + 5) (operand_node (X i)) \<and> part_of p s (operand_node operand) i (operand_node (X i))" by metis
    have "\<exists>ds. d7_hamt_append_diff_operand (X i) added = Inr ds \<and> diff_ok (s + 5) (?l (X i)) (?r (X i)) ds" if "i < 32" for i
      using X [OF that] operand_slot_weight(2) [of operand i s "X i"] branch by (intro less.hyps) simp_all
    then obtain g where g: "\<And>i. i < 32 \<Longrightarrow> d7_hamt_append_diff_operand (X i) added = Inr (g i) \<and>
        diff_ok (s + 5) (?l (X i)) (?r (X i)) (g i)" by metis
    have slot: "d7_hamt_diff_operand_logical_slot operand i 0 = Inr (X i)" if "i < 32" for i
      using X [OF that] branch by simp
    have "d7_hamt_append_diff_operand operand added = Inr (concat (map g [0..<32]))"
    proof -
      have "\<not> d7_hamt_diff_operand_is_empty operand" "\<not> d7_hamt_diff_operand_is_run operand" using branch by simp_all
      then show ?thesis using slot g
        by (subst d7_hamt_append_diff_operand.simps) (simp only: if_False, rule emit_all_Inr, simp)
    qed
    moreover have "diff_ok s (?l operand) (?r operand) (concat (map g [0..<32]))"
      using X g by (intro diff_branch [where L = "\<lambda>i. ?l (X i)" and R = "\<lambda>i. ?r (X i)"]) auto
    ultimately show ?thesis by blast
  qed
qed

lemma diff_operands_ok:
  assumes "heap S t" and "operand_in S left" "operand_in S right"
    and "wf_opt p s (operand_node left)" "wf_opt p s (operand_node right)"
  shows "\<exists>ds. d7_hamt_diff_operands p left right s = Inr ds \<and> diff_ok s (operand_node left) (operand_node right) ds"
  using assms(2-5)
proof (induction "weight_opt (operand_node left) + weight_opt (operand_node right)" arbitrary: left right s rule: less_induct)
  case less
  note sub = less.prems(1,2) and wf = less.prems(3,4)
  let ?E = "d7_hamt_diff_operand_is_empty" and ?R = "d7_hamt_diff_operand_is_run"
  have empty: "operand_node x = None" if "?E x" for x using that by (cases x) simp_all
  consider (same) "operand_same left right" | (left) "\<not> operand_same left right" "?E left"
    | (right) "\<not> operand_same left right" "\<not> ?E left" "?E right"
    | (runs) "\<not> operand_same left right" "\<not> ?E left" "\<not> ?E right" "?R left" "?R right"
    | (branch) "\<not> operand_same left right" "\<not> ?E left" "\<not> ?E right" "\<not> (?R left \<and> ?R right)" by blast
  then show ?case
  proof cases
    case same
    then show ?thesis
      using operand_same_node [OF assms(1) sub same] diff_ok_same by (subst d7_hamt_diff_operands.simps) auto
  next
    case left
    then show ?thesis using append_operand_ok [OF wf(2) sub(2), of True] empty [of left]
      by (subst d7_hamt_diff_operands.simps) simp
  next
    case right
    then show ?thesis using append_operand_ok [OF wf(1) sub(1), of False] empty [of right]
      by (subst d7_hamt_diff_operands.simps) simp
  next
    case runs
    obtain h es where es: "d7_hamt_entry_run_from_operand left = Inr (h, es)" "distinct_keys p es"
      "\<forall>e\<in>set es. d7_hamt_get_hash p (entry_key e) = h"
      "\<And>h' s k. look_opt p (operand_node left) h' s k = (if h = h' then find (entry_matches p k) es else None)"
      using operand_run [OF runs(4) wf(1)] by metis
    obtain h' es' where es': "d7_hamt_entry_run_from_operand right = Inr (h', es')" "distinct_keys p es'"
      "\<forall>e\<in>set es'. d7_hamt_get_hash p (entry_key e) = h'"
      "\<And>x s k. look_opt p (operand_node right) x s k = (if h' = x then find (entry_matches p k) es' else None)"
      using operand_run [OF runs(5) wf(2)] by metis
    show ?thesis
      using runs es(1) es'(1) diff_runs_ok [OF es(2,3) es'(2,3) es(4) es'(4)]
      by (subst d7_hamt_diff_operands.simps) simp
  next
    case branch
    have bitmap: "s < 32" if "\<not> ?E x" "\<not> ?R x" "wf_opt p s (operand_node x)" for x
      using that by (cases x) (auto elim: is_bitmap.elims(2))
    then have s: "s < 32" using branch wf by blast
    have slot: "\<exists>x. d7_hamt_diff_operand_logical_slot operand i s = Inr x \<and> operand_in S x \<and>
        wf_opt p (s + 5) (operand_node x) \<and> part_of p s (operand_node operand) i (operand_node x)"
      if "i < 32" "wf_opt p s (operand_node operand)" "operand_in S operand" for i operand
      using operand_slot_part [OF that(2) s that(1,3)] by metis
    obtain X where X: "\<And>i. i < 32 \<Longrightarrow> d7_hamt_diff_operand_logical_slot left i s = Inr (X i) \<and> operand_in S (X i) \<and>
        wf_opt p (s + 5) (operand_node (X i)) \<and> part_of p s (operand_node left) i (operand_node (X i))"
      using slot [OF _ wf(1) sub(1)] by metis
    obtain Y where Y: "\<And>i. i < 32 \<Longrightarrow> d7_hamt_diff_operand_logical_slot right i s = Inr (Y i) \<and> operand_in S (Y i) \<and>
        wf_opt p (s + 5) (operand_node (Y i)) \<and> part_of p s (operand_node right) i (operand_node (Y i))"
      using slot [OF _ wf(2) sub(2)] by metis
    have less: "weight_opt (operand_node (X i)) + weight_opt (operand_node (Y i)) <
        weight_opt (operand_node left) + weight_opt (operand_node right)" if "i < 32" for i
      using operand_slot_weight [of left i s "X i"] operand_slot_weight [of right i s "Y i"] X [OF that] Y [OF that] branch(2-4)
      by fastforce
    have "\<exists>ds. d7_hamt_diff_operands p (X i) (Y i) (s + 5) = Inr ds \<and> diff_ok (s + 5) (operand_node (X i)) (operand_node (Y i)) ds"
      if "i < 32" for i using X [OF that] Y [OF that] by (intro less.hyps less that) simp_all
    then obtain g where g: "\<And>i. i < 32 \<Longrightarrow> d7_hamt_diff_operands p (X i) (Y i) (s + 5) = Inr (g i) \<and>
        diff_ok (s + 5) (operand_node (X i)) (operand_node (Y i)) (g i)" by metis
    have "d7_hamt_diff_operands p left right s = Inr (concat (map g [0..<32]))"
      using X Y g branch s
      by (subst d7_hamt_diff_operands.simps) (simp only: if_False simp_thms not_le [symmetric], rule emit_all_Inr, simp)
    moreover have "diff_ok s (operand_node left) (operand_node right) (concat (map g [0..<32]))"
      using X Y g by (intro diff_branch [where L = "\<lambda>i. operand_node (X i)" and R = "\<lambda>i. operand_node (Y i)"]) simp_all
    ultimately show ?thesis by blast
  qed
qed

lemma diff_ok_at:
  assumes "diff_ok s l r ds"
  shows "difference_at p (look_opt p l (d7_hamt_get_hash p k) s k) (look_opt p r (d7_hamt_get_hash p k) s k) = Some d \<longleftrightarrow>
    d \<in> set ds \<and> d7_hamt_keys_equal p (diff_key d) k"
proof -
  let ?D = "\<lambda>k. difference_at p (look_opt p l (d7_hamt_get_hash p k) s k) (look_opt p r (d7_hamt_get_hash p k) s k)"
  have same: "?D k = ?D k'" if "d7_hamt_keys_equal p k k'" for k k'
  proof -
    have "look_opt p n (d7_hamt_get_hash p k) s k = look_opt p n (d7_hamt_get_hash p k') s k'" for n
      using look_keq [OF that] keq_hash [OF that] by (cases n) simp_all
    then show ?thesis by simp
  qed
  have key: "d7_hamt_keys_equal p (diff_key d) k" if "?D k = Some d"
    using that look_key [of _ "d7_hamt_get_hash p k" s k "Entry (diff_key d) v" for v]
    by (cases d; cases l; cases r) (auto simp: difference_at_Some)
  show ?thesis using assms key same [of "diff_key d" k] unfolding diff_ok_def by metis
qed

end

section \<open>Property\<close>

lemma root_operand_node [simp]: "operand_node (root_operand m) = root m"
  by (cases "root m") (simp_all add: root_operand_def)

text \<open>C5: the difference of two maps of one policy is exact. The walk over both tries never reads out of range; it
  reports a removed, added or changed entry for exactly the keys at which the maps differ, with the
  values before and after, and no key twice; it reports nothing exactly when \<open>d7_hamt_map_equals\<close> calls the maps equal.\<close>

theorem map_diff_correct:
  assumes pol: "hamt_policy (policy l) Rk Rv" and l: "map_ok S t l" and r: "map_ok S t r" and p: "policy r = policy l"
  shows "\<exists>ds. d7_hamt_map_diff (Some l) (Some r) True = Inr ds \<and>
    (\<forall>k d. difference_at (policy l) (map_entry l k) (map_entry r k) = Some d \<longleftrightarrow>
       d \<in> set ds \<and> d7_hamt_keys_equal (policy l) (diff_key d) k) \<and>
    sorted_wrt (\<lambda>d d'. \<not> d7_hamt_keys_equal (policy l) (diff_key d) (diff_key d')) ds \<and>
    (ds = [] \<longleftrightarrow> d7_hamt_map_equals (Some l) (Some r))"
proof -
  have "\<exists>ds. d7_hamt_map_diff (Some l) (Some r) True = Inr ds \<and> hamt_policy.diff_ok (policy l) 0 (root l) (root r) ds"
  proof (cases "same_ptr (root l) (root r)")
    case True
    then have "root l = root r"
      using l r heap_root_same by (cases "root l"; cases "root r") (auto simp: same_ptr_def map_ok_def map_nodes_def)
    then show ?thesis using True p hamt_policy.diff_ok_same [OF pol] by (simp add: d7_hamt_map_diff_def)
  next
    case False
    have "operand_in S (root_operand m)" if "map_ok S t m" for m :: "('a, 'b) d7_hamt_map"
      using that by (cases "root m") (auto simp: root_operand_def map_ok_def map_nodes_def)
    then have "\<exists>ds. d7_hamt_diff_operands (policy l) (root_operand l) (root_operand r) 0 = Inr ds \<and>
        hamt_policy.diff_ok (policy l) 0 (operand_node (root_operand l)) (operand_node (root_operand r)) ds"
      using l r p by (intro hamt_policy.diff_operands_ok [OF pol, of S t]) (simp_all add: map_ok_def)
    then show ?thesis using False p by (simp add: d7_hamt_map_diff_def)
  qed
  then obtain ds where ds: "d7_hamt_map_diff (Some l) (Some r) True = Inr ds"
    and ok: "hamt_policy.diff_ok (policy l) 0 (root l) (root r) ds" by blast
  have at: "difference_at (policy l) (map_entry l k) (map_entry r k) = Some d \<longleftrightarrow>
       d \<in> set ds \<and> d7_hamt_keys_equal (policy l) (diff_key d) k" for k d
    using hamt_policy.diff_ok_at [OF pol ok] by (simp add: map_entry_def p)
  have sorted: "sorted_wrt (\<lambda>d d'. \<not> d7_hamt_keys_equal (policy l) (diff_key d) (diff_key d')) ds"
    using ok by (simp add: hamt_policy.diff_ok_def [OF pol])
  have "ds = [] \<longleftrightarrow> (\<forall>k. difference_at (policy l) (map_entry l k) (map_entry r k) = None)"
    using at hamt_policy.keq_refl [OF pol] by (metis empty_iff empty_set last_in_set not_Some_eq)
  then show ?thesis unfolding difference_at_None map_equals_spec [OF assms] using ds at sorted by blast
qed

theorem map_diff_correct_witness:
  "d7_hamt_map_diff (Some (single_map 0 5 7)) (Some (single_map 1 5 8)) True = Inr [Changed 5 7 8] \<and>
   (\<exists>ds. d7_hamt_map_diff (Some (single_map 0 5 7)) (Some (single_map 1 5 8)) True = Inr ds \<and>
     (\<forall>k d. difference_at pointer_policy (map_entry (single_map 0 5 7) k) (map_entry (single_map 1 5 8) k) = Some d \<longleftrightarrow>
       d \<in> set ds \<and> d7_hamt_keys_equal pointer_policy (diff_key d) k))"
proof -
  have "d7_hamt_map_diff (Some (single_map 0 5 7)) (Some (single_map 1 5 8)) True = Inr [Changed 5 7 8]"
    by (simp add: d7_hamt_map_diff_def single_map_def single_node_def same_ptr_def root_operand_def d7_hamt_diff_operands.simps
        d7_hamt_diff_entry_runs_def diff_before_def d7_hamt_entry_run_find_def entry_matches_def)
  then show ?thesis
    using map_diff_correct [of "single_map 0 5 7" "(=)" "(=)" "{single_node 0 5 7, single_node 1 5 8}" 2 "single_map 1 5 8"]
    by (auto simp: pointer_policy_ok two_maps_ok)
qed

end
