(* ===== verification/Hamt_Client.thy ===== *)
theory Hamt_Client
  imports Hamt_Diff
begin

text \<open>
  The contract of the hash map towards the structures built on it: bidirectional map, bag, multimap.

  A client sees a map as a relation between keys and values that is closed under the equalities of its
  policy (\<open>map_holds\<close>). The locale \<open>hash_map_client\<close> states what each operation a client calls
  does to that relation, to the count, and when it may fail; the theorems of the clients are proved from
  these laws alone. Every policy that keeps the contract \<open>hamt_policy\<close> provides them: the sublocale
  declaration discharges the laws for the model of \<open>hamt.c\<close>.
\<close>

section \<open>The contents of a map as a relation\<close>

definition map_holds ::
  "('v \<Rightarrow> 'v \<Rightarrow> bool) \<Rightarrow> ('k, 'v) d7_hamt_map \<Rightarrow> 'k \<Rightarrow> 'v \<Rightarrow> bool" where
  "map_holds Rv m k v \<longleftrightarrow> (\<exists>e. map_entry m k = Some e \<and> Rv (entry_value e) v)"

definition map_valid_at :: "('k, 'v) d7_hamt_policy \<Rightarrow> nat \<Rightarrow> ('k, 'v) d7_hamt_map \<Rightarrow> bool" where
  "map_valid_at p t m \<longleftrightarrow> policy m = p \<and> (\<exists>S. map_ok S t m)"

text \<open>The relation after a key has been bound, or unbound.\<close>

abbreviation bound_to ::
  "('k \<Rightarrow> 'k \<Rightarrow> bool) \<Rightarrow> ('v \<Rightarrow> 'v \<Rightarrow> bool) \<Rightarrow> 'k \<Rightarrow> 'v \<Rightarrow> ('k \<Rightarrow> 'v \<Rightarrow> bool) \<Rightarrow> 'k \<Rightarrow> 'v \<Rightarrow> bool" where
  "bound_to Rk Rv k v H \<equiv> (\<lambda>k' v'. if Rk k k' then Rv v v' else H k' v')"

abbreviation unbound :: "('k \<Rightarrow> 'k \<Rightarrow> bool) \<Rightarrow> 'k \<Rightarrow> ('k \<Rightarrow> 'v \<Rightarrow> bool) \<Rightarrow> 'k \<Rightarrow> 'v \<Rightarrow> bool" where
  "unbound Rk k H \<equiv> (\<lambda>k' v'. \<not> Rk k k' \<and> H k' v')"

section \<open>The contract\<close>

locale hash_map_client =
  fixes valid :: "nat \<Rightarrow> ('k, 'v) d7_hamt_map \<Rightarrow> bool"
    and holds :: "('k, 'v) d7_hamt_map \<Rightarrow> 'k \<Rightarrow> 'v \<Rightarrow> bool"
    and Rk :: "'k \<Rightarrow> 'k \<Rightarrow> bool" and Rv :: "'v \<Rightarrow> 'v \<Rightarrow> bool"
    and E :: environment and B :: "nat set"
  assumes key_equivp: "equivp Rk" and value_equivp: "equivp Rv"
    and valid_later: "valid t m \<Longrightarrow> t \<le> t' \<Longrightarrow> valid t' m"
    and holds_key: "valid t m \<Longrightarrow> Rk k k' \<Longrightarrow> holds m k v = holds m k' v"
    and lookup: "valid t m \<Longrightarrow> \<exists>e. d7_hamt_try_get_entry (Some m) k = Inr e \<and>
      (\<forall>v. holds m k v \<longleftrightarrow> (\<exists>x. e = Some x \<and> Rv (entry_value x) v)) \<and> (\<forall>x. e = Some x \<longrightarrow> Rk (entry_key x) k)"
    and add: "valid t m \<Longrightarrow> (\<And>v. \<not> holds m k v) \<Longrightarrow>
      achieves E B t (d7_hamt_map_add (Some m) k v True)
        (\<lambda>m' t'. valid t' m' \<and> holds m' = bound_to Rk Rv k v (holds m) \<and> count m' = count m + 1)"
    and set: "valid t m \<Longrightarrow>
      achieves E B t (d7_hamt_map_set (Some m) k v True)
        (\<lambda>m' t'. valid t' m' \<and> holds m' = bound_to Rk Rv k v (holds m) \<and>
           count m' = count m + (if \<exists>v. holds m k v then 0 else 1))"
    and remove: "valid t m \<Longrightarrow>
      achieves E B t (d7_hamt_map_remove (Some m) k True False)
        (\<lambda>m' t'. valid t' m' \<and> holds m' = unbound Rk k (holds m) \<and>
           count m' + (if \<exists>v. holds m k v then 1 else 0) = count m)"
    and add_present: "valid t m \<Longrightarrow> holds m k w \<Longrightarrow>
      reports True D7_HAMT_DUPLICATE_KEY E B t (d7_hamt_map_add (Some m) k v True) (\<lambda>m' t'. False)"
    and remove_shared: "valid t m \<Longrightarrow>
      achieves E B t (d7_hamt_map_remove (Some m) k True False)
        (\<lambda>m' t'. d7_hamt_map_shares_root (Some m') (Some m) \<longrightarrow> holds m' = holds m)"
    and clear: "valid t m \<Longrightarrow> \<exists>m'. d7_hamt_map_clear (Some m) True E t = (Inr m', t) \<and> valid t m' \<and>
      (\<forall>k v. \<not> holds m' k v) \<and> count m' = 0"
    and iteration: "valid t m \<Longrightarrow> \<exists>es. iterator_ok (d7_hamt_map_iterator_init (Some m)) \<and>
      iterator_rest (d7_hamt_map_iterator_init (Some m)) = es \<and> length es = count m \<and>
      sorted_wrt (\<lambda>e e'. \<not> Rk (entry_key e) (entry_key e')) es \<and>
      (\<forall>k v. holds m k v \<longleftrightarrow> (\<exists>e\<in>set es. Rk (entry_key e) k \<and> Rv (entry_value e) v))"
    and validation: "valid t m \<Longrightarrow> count m \<le> SIZE_MAX \<Longrightarrow> d7_hamt_map_debug_validate_canonical (Some m)"
begin

lemma key_refl [simp]: "Rk k k"
  using key_equivp by (rule equivp_reflp)

lemma key_sym: "Rk a b \<Longrightarrow> Rk b a"
  using key_equivp by (rule equivp_symp)

lemma value_refl [simp]: "Rv v v"
  using value_equivp by (rule equivp_reflp)

lemma value_sym: "Rv a b \<Longrightarrow> Rv b a"
  using value_equivp by (rule equivp_symp)

lemma value_trans: "Rv a b \<Longrightarrow> Rv b c \<Longrightarrow> Rv a c"
  using value_equivp by (rule equivp_transp)

text \<open>A key is bound to one value, up to equality.\<close>

lemma get_value:
  assumes "valid t m"
  shows "d7_hamt_map_try_get (Some m) k = Inr None \<and> (\<forall>v. \<not> holds m k v) \<or>
    (\<exists>v. d7_hamt_map_try_get (Some m) k = Inr (Some v) \<and> (\<forall>w. holds m k w \<longleftrightarrow> Rv v w))"
proof -
  obtain e where e: "d7_hamt_try_get_entry (Some m) k = Inr e" "\<And>v. holds m k v \<longleftrightarrow> (\<exists>x. e = Some x \<and> Rv (entry_value x) v)"
    using lookup [OF assms, of k] by (elim exE conjE) simp
  then show ?thesis by (cases e) (auto simp: d7_hamt_map_try_get_def map_found_def)
qed

lemma holds_ex_get: "valid t m \<Longrightarrow> d7_hamt_map_try_get (Some m) k = Inr x \<Longrightarrow> (\<exists>v. holds m k v) \<longleftrightarrow> x \<noteq> None"
  using get_value [of t m k] value_refl by (metis Inr_inject not_Some_eq)

lemma contains:
  assumes "valid t m"
  shows "d7_hamt_map_contains_key (Some m) k = Inr (\<exists>v. holds m k v)"
proof -
  obtain x where x: "d7_hamt_map_try_get (Some m) k = Inr x" using get_value [OF assms, of k] by blast
  show ?thesis unfolding holds_ex_get [OF assms x] by (simp add: d7_hamt_map_contains_key_def map_found_def x)
qed

lemma get_key:
  assumes "valid t m" and "holds m k v"
  obtains k' where "d7_hamt_map_try_get_key (Some m) k = Inr (True, k')" and "Rk k k'"
  using lookup [OF assms(1), of k] assms(2) key_sym that
  by (auto simp: d7_hamt_map_try_get_key_def map_found_def)

lemma get_key_absent:
  assumes "valid t m" and "\<And>v. \<not> holds m k v"
  shows "d7_hamt_map_try_get_key (Some m) k = Inr (False, k)"
proof -
  obtain e where e: "d7_hamt_try_get_entry (Some m) k = Inr e" "\<forall>v. holds m k v \<longleftrightarrow> (\<exists>x. e = Some x \<and> Rv (entry_value x) v)"
    using lookup [OF assms(1), of k] by (elim exE conjE) simp
  then have "e = None" using assms(2) value_refl by (metis not_Some_eq)
  then show ?thesis using e by (simp add: d7_hamt_map_try_get_key_def map_found_def)
qed

lemma holds_value: "valid t m \<Longrightarrow> holds m k v \<Longrightarrow> holds m k w \<longleftrightarrow> Rv v w"
  using get_value [of t m k] value_sym value_trans by metis

end

section \<open>The hash map keeps it\<close>

context hamt_policy
begin

lemma holds_keq:
  assumes "policy m = p" and "d7_hamt_keys_equal p k k'"
  shows "map_holds Rv m k v = map_holds Rv m k' v"
  using look_keq [OF assms(2)] keq_hash [OF assms(2)] assms(1)
  by (cases "root m") (simp_all add: map_holds_def map_entry_def)

lemma holds_same_entry:
  assumes "same_entry Rk Rv (map_entry m k) x"
  shows "map_holds Rv m k v \<longleftrightarrow> (\<exists>e. x = Some e \<and> Rv (entry_value e) v)"
  using assms
proof (cases rule: option.rel_cases)
  case (Some x y)
  then have "Rv (entry_value x) (entry_value y)" by (simp add: entry_rel_def)
  then have "Rv (entry_value x) v \<longleftrightarrow> Rv (entry_value y) v" using Rv_sym Rv_trans by meson
  then show ?thesis using Some by (simp add: map_holds_def)
qed (simp add: map_holds_def)

lemma holds_ex: "(\<exists>v. map_holds Rv m k v) \<longleftrightarrow> map_entry m k \<noteq> None"
  using Rv_refl by (auto simp: map_holds_def simp del: Rv_refl)

lemma map_bound_holds:
  assumes "policy m = p" and "map_bound Rk Rv m k v ov m'" and "ov \<or> map_entry m k = None"
  shows "map_holds Rv m' = bound_to (d7_hamt_keys_equal p) Rv k v (map_holds Rv m)"
proof (intro ext)
  fix k' v'
  have "same_entry Rk Rv (map_entry m' k')
      (if d7_hamt_keys_equal p k k' then Some (bound_entry ov k v (map_entry m k)) else map_entry m k')"
    using assms(1,2) by (simp only: map_bound_def)
  from holds_same_entry [OF this, of v'] assms(3)
  show "map_holds Rv m' k' v' = bound_to (d7_hamt_keys_equal p) Rv k v (map_holds Rv m) k' v'"
    by (auto simp: map_holds_def bound_entry_def split: option.splits)
qed

lemma map_removed_holds:
  assumes "policy m = p" and "map_removed Rk Rv m k m'"
  shows "map_holds Rv m' = unbound (d7_hamt_keys_equal p) k (map_holds Rv m)"
proof (intro ext)
  fix k' v'
  have "same_entry Rk Rv (map_entry m' k') (if d7_hamt_keys_equal p k k' then None else map_entry m k')"
    using assms by (simp only: map_removed_def)
  from holds_same_entry [OF this, of v']
  show "map_holds Rv m' k' v' = unbound (d7_hamt_keys_equal p) k (map_holds Rv m) k' v'"
    by (auto simp: map_holds_def)
qed

lemma client_lookup:
  assumes "map_valid_at p t m"
  shows "\<exists>e. d7_hamt_try_get_entry (Some m) k = Inr e \<and>
    (\<forall>v. map_holds Rv m k v \<longleftrightarrow> (\<exists>x. e = Some x \<and> Rv (entry_value x) v)) \<and>
    (\<forall>x. e = Some x \<longrightarrow> d7_hamt_keys_equal p (entry_key x) k)"
proof -
  have "d7_hamt_keys_equal p (entry_key x) k" if "map_entry m k = Some x" for x
    using that look_key assms by (cases "root m") (auto simp: map_entry_def map_valid_at_def)
  then show ?thesis using assms try_get_entry_ok [of _ t m k] by (auto simp: map_valid_at_def map_holds_def)
qed

lemma client_set_root:
  assumes "map_valid_at p t m"
  shows "achieves E (failing_requests E p) t (map_set_root m k v ov)
    (\<lambda>(added, m') t'. map_valid_at p t' m' \<and> (added \<longleftrightarrow> map_entry m k = None) \<and>
       count m' = count m + (if map_entry m k = None then 1 else 0) \<and>
       (ov \<or> map_entry m k = None \<longrightarrow> map_holds Rv m' = bound_to (d7_hamt_keys_equal p) Rv k v (map_holds Rv m)))"
proof -
  obtain S where S: "policy m = p" "map_ok S t m" using assms by (auto simp: map_valid_at_def)
  have "hamt_policy (policy m) Rk Rv" using S(1) hamt_policy_axioms by simp
  from map_set_root_spec [OF this S(2)] show ?thesis
    unfolding S(1)
  proof (rule achieves_weaken, goal_cases)
    case (1 x t')
    obtain added m' where x: "x = (added, m')" by (cases x)
    then have b: "map_bound Rk Rv m k v ov m'" "added \<longleftrightarrow> map_entry m k = None" and ok: "map_ok (S \<union> map_nodes m') t' m'"
      using 1(2) by simp_all
    have "policy m' = p" "count m' = count m + (if map_entry m k = None then 1 else 0)"
      using b(1) S(1) by (simp_all only: map_bound_def)
    then show ?case using map_bound_holds [OF S(1) b(1)] b(2) ok unfolding x prod.case by (auto simp: map_valid_at_def)
  qed
qed

lemma client_remove:
  assumes "map_valid_at p t m"
  shows "achieves E (failing_requests E p) t (d7_hamt_map_try_remove (Some m) k True aliased)
    (\<lambda>(removed, v, m') t'. map_valid_at p t' m' \<and> (removed \<longleftrightarrow> map_entry m k \<noteq> None) \<and>
       v = (if aliased then None else map_option entry_value (map_entry m k)) \<and>
       map_holds Rv m' = unbound (d7_hamt_keys_equal p) k (map_holds Rv m) \<and>
       count m' + (if map_entry m k = None then 0 else 1) = count m)"
proof -
  obtain S where S: "policy m = p" "map_ok S t m" using assms by (auto simp: map_valid_at_def)
  have "hamt_policy (policy m) Rk Rv" using S(1) hamt_policy_axioms by simp
  from map_try_remove_spec [OF this S(2)] show ?thesis
    unfolding S(1)
  proof (rule achieves_weaken, goal_cases)
    case (1 x t')
    obtain removed v m' where x: "x = (removed, v, m')" by (cases x)
    then have r: "map_removed Rk Rv m k m'" "removed \<longleftrightarrow> map_entry m k \<noteq> None"
        "v = (if aliased then None else map_option entry_value (map_entry m k))" and ok: "map_ok (S \<union> map_nodes m') t' m'"
      using 1(2) by simp_all
    have "policy m' = p" "count m' + (if map_entry m k = None then 0 else 1) = count m"
      using r(1) S(1) by (simp_all only: map_removed_def)
    then show ?case using map_removed_holds [OF S(1) r(1)] r(2,3) ok unfolding x prod.case by (auto simp: map_valid_at_def)
  qed
qed

text \<open>Live maps that share a root have the same contents.\<close>

lemma shares_root_holds:
  assumes "map_ok S t m" and "map_ok S t m'" and "policy m = policy m'" and "d7_hamt_map_shares_root (Some m) (Some m')"
  shows "map_holds Rv m = map_holds Rv m'"
proof -
  have "root m = root m'"
    using assms heap_root_same [of S t "the (root m)" "the (root m')"]
    by (cases "root m"; cases "root m'") (auto simp: d7_hamt_map_shares_root_def map_ok_def map_nodes_def)
  then show ?thesis using assms(3) by (simp add: fun_eq_iff map_holds_def map_entry_def)
qed

lemma client_remove_shared:
  assumes "map_valid_at p t m"
  shows "achieves E (failing_requests E p) t (d7_hamt_map_try_remove (Some m) k True aliased)
    (\<lambda>(removed, v, m') t'. d7_hamt_map_shares_root (Some m') (Some m) \<longrightarrow> map_holds Rv m' = map_holds Rv m)"
proof -
  obtain S where S: "policy m = p" "map_ok S t m" using assms by (auto simp: map_valid_at_def)
  have "hamt_policy (policy m) Rk Rv" using S(1) hamt_policy_axioms by simp
  from map_try_remove_spec [OF this S(2)] show ?thesis
    unfolding S(1)
  proof (rule achieves_weaken, goal_cases)
    case (1 x t')
    obtain removed v m' where x: "x = (removed, v, m')" by (cases x)
    then have r: "map_removed Rk Rv m k m'" and ok: "map_ok (S \<union> map_nodes m') t' m'" using 1(2) by simp_all
    have "policy m' = policy m" using r S(1) by (simp only: map_removed_def)
    moreover have "map_ok (S \<union> map_nodes m') t' m" using ok S(2) unfolding map_ok_def by blast
    ultimately show ?case using shares_root_holds [OF ok] unfolding x prod.case by blast
  qed
qed

lemma client_iteration:
  assumes "map_valid_at p t m"
  shows "\<exists>es. iterator_ok (d7_hamt_map_iterator_init (Some m)) \<and>
    iterator_rest (d7_hamt_map_iterator_init (Some m)) = es \<and> length es = count m \<and>
    sorted_wrt (\<lambda>e e'. \<not> d7_hamt_keys_equal p (entry_key e) (entry_key e')) es \<and>
    (\<forall>k v. map_holds Rv m k v \<longleftrightarrow> (\<exists>e\<in>set es. d7_hamt_keys_equal p (entry_key e) k \<and> Rv (entry_value e) v))"
proof -
  obtain S where S: "policy m = p" "map_ok S t m" using assms by (auto simp: map_valid_at_def)
  have "length (entries_opt (root m)) = count m \<and> distinct_keys p (entries_opt (root m)) \<and>
    (\<forall>k e. map_entry m k = Some e \<longleftrightarrow> e \<in> set (entries_opt (root m)) \<and> d7_hamt_keys_equal p (entry_key e) k)"
    using map_entries [of m Rk Rv S t] S hamt_policy_axioms by simp
  then show ?thesis
    using iterator_init_ok [OF S(2)] by (auto simp: distinct_keys_sorted_wrt map_holds_def)
qed

end

sublocale hamt_policy < client: hash_map_client "map_valid_at p" "map_holds Rv" "d7_hamt_keys_equal p" Rv E "failing_requests E p"
  for E
proof (unfold_locales, goal_cases)
  case 1
  show ?case by (rule keq_equivp)
next
  case 2
  show ?case by (rule Rv_equivp)
next
  case (3 t m t')
  then show ?case unfolding map_valid_at_def map_ok_def by (metis heap_later)
next
  case (4 t m k k' v)
  then show ?case by (intro holds_keq) (simp_all add: map_valid_at_def)
next
  case (5 t m k)
  then show ?case by (rule client_lookup)
next
  case (6 t m k v)
  then have none: "map_entry m k = None" using holds_ex [of m k] by blast
  show ?case
    unfolding d7_hamt_map_add_def d7_hamt_map_try_add_def option.case not_True_eq_False if_False
    by (rule achieves_andthen [OF client_set_root [OF 6(1)]]) (auto simp: none intro!: achieves_ret)
next
  case (7 t m k v)
  then show ?case
    unfolding d7_hamt_map_set_def option.case not_True_eq_False if_False holds_ex
    by (intro achieves_andthen [OF client_set_root [OF 7]]) (auto intro!: achieves_ret)
next
  case (8 t m k)
  then show ?case
    unfolding d7_hamt_map_remove_def holds_ex
    by (intro achieves_andthen [OF client_remove [OF 8]]) (auto intro!: achieves_ret)
next
  case (9 t m k w v)
  then have some: "map_entry m k \<noteq> None" using holds_ex [of m k] by blast
  show ?case
    unfolding d7_hamt_map_add_def d7_hamt_map_try_add_def option.case not_True_eq_False if_False
    by (rule reports_andthen [OF achieves_reports [OF client_set_root [OF 9(1)]]]) (auto simp: some intro!: reports_fail)
next
  case (10 t m k)
  then show ?case
    unfolding d7_hamt_map_remove_def
    by (intro achieves_andthen [OF client_remove_shared [OF 10]]) (auto intro!: achieves_ret)
next
  case (11 t m)
  then obtain S where S: "policy m = p" "map_ok S t m" by (auto simp: map_valid_at_def)
  show ?case
  proof (cases "count m = 0")
    case True
    then have "root m = None" using S(2) subtree_count_pos [of "policy m" 0 "the (root m)"] by (cases "root m") (auto simp: map_ok_def)
    then have "\<not> map_holds Rv m k v" for k v by (simp add: map_holds_def map_entry_def)
    then show ?thesis using True 11 by (auto simp: d7_hamt_map_clear_def ret_def)
  next
    case False
    have "map_valid_at p t (m\<lparr>root := None, count := 0\<rparr>)" using S by (auto simp: map_valid_at_def map_ok_def map_nodes_def)
    moreover have "\<not> map_holds Rv (m\<lparr>root := None, count := 0\<rparr>) k v" for k v by (simp add: map_holds_def map_entry_def)
    ultimately show ?thesis using False by (auto simp: d7_hamt_map_clear_def ret_def)
  qed
next
  case (12 t m)
  then show ?case by (rule client_iteration)
next
  case (13 t m)
  then show ?case using validate_map unfolding map_valid_at_def by blast
qed

end
