(* ===== verification/Hamt_Bi_Map.thy ===== *)
theory Hamt_Bi_Map
  imports Hamt_Client
begin

text \<open>
  The persistent bidirectional map of \<open>persistent_bi_map.c\<close>: a hash map from keys to values and a hash
  map from values to keys, updated together. Keys and values are items of one type, the \<open>void *\<close> of
  the code, so that the inverse of a bidirectional map is again one, with the roles of the two item
  policies exchanged (\<open>policy_inverted\<close>).

  The policy state is shared by the handles of one family and counts them; since it is never changed
  otherwise, the model keeps its contents and address and leaves out the count. A zeroed handle is one
  without policy state.
\<close>

section \<open>Item policies\<close>

text \<open>Calling the callbacks of an item policy; the hash and the equality are never null after
  \<open>normalize_set_policy\<close>.\<close>

definition item_hash :: "'a d7_hamt_set_policy_arg \<Rightarrow> 'a \<Rightarrow> u32" where
  "item_hash q item = (case arg_set_hash q of None \<Rightarrow> 0 | Some f \<Rightarrow> fn f item (arg_set_context q))"

definition item_equal :: "'a d7_hamt_set_policy_arg \<Rightarrow> 'a \<Rightarrow> 'a \<Rightarrow> bool" where
  "item_equal q left right \<longleftrightarrow>
     (case arg_set_equal q of None \<Rightarrow> False | Some f \<Rightarrow> fn f left right (arg_set_context q))"

definition item_retain :: "'a d7_hamt_set_policy_arg \<Rightarrow> 'a \<Rightarrow> nat \<Rightarrow> 'a option" where
  "item_retain q item = (case arg_retain_item q of None \<Rightarrow> (\<lambda>t. Some item) | Some f \<Rightarrow> fn f item (arg_set_context q))"

definition normalize_set_policy ::
  "('a \<Rightarrow> 64 word) \<Rightarrow> 'a d7_hamt_set_policy_arg option \<Rightarrow> 'a d7_hamt_set_policy_arg" where
  "normalize_set_policy ptr pol =
     (let result = or_default pol (d7_hamt_set_policy_default ptr);
          defaults = d7_hamt_set_policy_default ptr;
          hashed = (if arg_set_hash result = None then result\<lparr>arg_set_hash := arg_set_hash defaults\<rparr> else result)
      in if arg_set_equal hashed = None then hashed\<lparr>arg_set_equal := arg_set_equal defaults\<rparr> else hashed)"

section \<open>The handle and its policies\<close>

record 'a d7_hamt_bi_map_policy_state =
  state_addr :: addr
  key_policy :: "'a d7_hamt_set_policy_arg"
  value_policy :: "'a d7_hamt_set_policy_arg"

record 'a d7_hamt_bi_map =
  forward :: "('a, 'a) d7_hamt_map"
  backward :: "('a, 'a) d7_hamt_map"
  policy_state :: "'a d7_hamt_bi_map_policy_state option"
  policy_inverted :: bool

datatype d7_hamt_bi_map_conflict =
    D7_HAMT_BI_MAP_NO_CONFLICT
  | D7_HAMT_BI_MAP_KEY_CONFLICT
  | D7_HAMT_BI_MAP_VALUE_CONFLICT

text \<open>The callbacks of the two maps are the functions \<open>key_hash\<close>, \<open>keys_equal\<close>, \<open>retain_key\<close>, \<open>release_key\<close>
  and their counterparts for values (addresses 10 to 17), applied to the policy state.\<close>

definition forward_policy :: "'a d7_hamt_bi_map_policy_state \<Rightarrow> ('a, 'a) d7_hamt_policy" where
  "forward_policy st =
     \<lparr>hash = Callback 10 (\<lambda>item ctx. item_hash (key_policy st) item),
      key_equal = Callback 11 (\<lambda>left right ctx. item_equal (key_policy st) left right),
      value_equal = Callback 12 (\<lambda>left right ctx. item_equal (value_policy st) left right),
      retain_key = Callback 13 (\<lambda>item ctx. item_retain (key_policy st) item),
      retain_value = Callback 14 (\<lambda>item ctx. item_retain (value_policy st) item),
      release_key = Some 15, release_value = Some 16, policy_context = state_addr st\<rparr>"

definition inverse_policy :: "'a d7_hamt_bi_map_policy_state \<Rightarrow> ('a, 'a) d7_hamt_policy" where
  "inverse_policy st =
     \<lparr>hash = Callback 17 (\<lambda>item ctx. item_hash (value_policy st) item),
      key_equal = Callback 12 (\<lambda>left right ctx. item_equal (value_policy st) left right),
      value_equal = Callback 11 (\<lambda>left right ctx. item_equal (key_policy st) left right),
      retain_key = Callback 14 (\<lambda>item ctx. item_retain (value_policy st) item),
      retain_value = Callback 13 (\<lambda>item ctx. item_retain (key_policy st) item),
      release_key = Some 16, release_value = Some 15, policy_context = state_addr st\<rparr>"

definition active_keys_equal :: "'a d7_hamt_bi_map_policy_state \<Rightarrow> bool \<Rightarrow> 'a \<Rightarrow> 'a \<Rightarrow> bool" where
  "active_keys_equal st inverted left right \<longleftrightarrow>
     (if inverted then item_equal (value_policy st) left right else item_equal (key_policy st) left right)"

definition active_values_equal :: "'a d7_hamt_bi_map_policy_state \<Rightarrow> bool \<Rightarrow> 'a \<Rightarrow> 'a \<Rightarrow> bool" where
  "active_values_equal st inverted left right \<longleftrightarrow>
     (if inverted then item_equal (key_policy st) left right else item_equal (value_policy st) left right)"

section \<open>The operations of the code\<close>

definition compose ::
  "('a, 'a) d7_hamt_map \<Rightarrow> ('a, 'a) d7_hamt_map \<Rightarrow> 'a d7_hamt_bi_map_policy_state option \<Rightarrow> bool \<Rightarrow> 'a d7_hamt_bi_map" where
  "compose f b st inverted = \<lparr>forward = f, backward = b, policy_state = st, policy_inverted = inverted\<rparr>"

definition d7_hamt_bi_map_create ::
  "('a \<Rightarrow> 64 word) \<Rightarrow> 'a d7_hamt_set_policy_arg option \<Rightarrow> 'a d7_hamt_set_policy_arg option \<Rightarrow> bool
     \<Rightarrow> 'a d7_hamt_bi_map act" where
  "d7_hamt_bi_map_create ptr kp vp result =
     (if \<not> result then fail (Status D7_HAMT_INVALID_ARGUMENT)
      else andthen d7_hamt_allocate (\<lambda>a.
        let st = \<lparr>state_addr = a, key_policy = normalize_set_policy ptr kp, value_policy = normalize_set_policy ptr vp\<rparr>
        in ret \<lparr>forward = d7_hamt_map_create ptr (Some (policy_arg (forward_policy st))),
                backward = d7_hamt_map_create ptr (Some (policy_arg (inverse_policy st))),
                policy_state = Some st, policy_inverted = False\<rparr>))"

definition zeroed_bi_map :: "('a \<Rightarrow> 64 word) \<Rightarrow> 'a d7_hamt_bi_map" where
  "zeroed_bi_map ptr =
     \<lparr>forward = d7_hamt_map_create ptr None, backward = d7_hamt_map_create ptr None,
      policy_state = None, policy_inverted = False\<rparr>"

definition d7_hamt_bi_map_clone :: "('a \<Rightarrow> 64 word) \<Rightarrow> 'a d7_hamt_bi_map option \<Rightarrow> 'a d7_hamt_bi_map" where
  "d7_hamt_bi_map_clone ptr mp =
     (case mp of
        None \<Rightarrow> zeroed_bi_map ptr
      | Some m \<Rightarrow>
          if policy_state m = None then zeroed_bi_map ptr
          else \<lparr>forward = d7_hamt_map_clone ptr (Some (forward m)), backward = d7_hamt_map_clone ptr (Some (backward m)),
                policy_state = policy_state m, policy_inverted = policy_inverted m\<rparr>)"

definition d7_hamt_bi_map_destroy ::
  "('a \<Rightarrow> 64 word) \<Rightarrow> 'a d7_hamt_bi_map option \<Rightarrow> 'a d7_hamt_bi_map option" where
  "d7_hamt_bi_map_destroy ptr mp = map_option (\<lambda>m. zeroed_bi_map ptr) mp"

definition d7_hamt_bi_map_count :: "'a d7_hamt_bi_map option \<Rightarrow> nat" where
  "d7_hamt_bi_map_count mp = (case mp of None \<Rightarrow> 0 | Some m \<Rightarrow> d7_hamt_map_count (Some (forward m)))"

definition d7_hamt_bi_map_is_empty :: "'a d7_hamt_bi_map option \<Rightarrow> bool" where
  "d7_hamt_bi_map_is_empty mp \<longleftrightarrow> d7_hamt_bi_map_count mp = 0"

definition d7_hamt_bi_map_contains_key :: "'a d7_hamt_bi_map option \<Rightarrow> 'a \<Rightarrow> failure + bool" where
  "d7_hamt_bi_map_contains_key mp key =
     (case mp of None \<Rightarrow> Inr False | Some m \<Rightarrow> d7_hamt_map_contains_key (Some (forward m)) key)"

definition d7_hamt_bi_map_contains_value :: "'a d7_hamt_bi_map option \<Rightarrow> 'a \<Rightarrow> failure + bool" where
  "d7_hamt_bi_map_contains_value mp v =
     (case mp of None \<Rightarrow> Inr False | Some m \<Rightarrow> d7_hamt_map_contains_key (Some (backward m)) v)"

definition d7_hamt_bi_map_try_get :: "'a d7_hamt_bi_map option \<Rightarrow> 'a \<Rightarrow> failure + 'a option" where
  "d7_hamt_bi_map_try_get mp key =
     (case mp of None \<Rightarrow> Inr None | Some m \<Rightarrow> d7_hamt_map_try_get (Some (forward m)) key)"

definition d7_hamt_bi_map_try_get_key :: "'a d7_hamt_bi_map option \<Rightarrow> 'a \<Rightarrow> failure + 'a option" where
  "d7_hamt_bi_map_try_get_key mp v =
     (case mp of None \<Rightarrow> Inr None | Some m \<Rightarrow> d7_hamt_map_try_get (Some (backward m)) v)"

text \<open>The guard that opens every update: handles that are null or without policy state are refused.\<close>

definition with_bi_map ::
  "'a d7_hamt_bi_map option \<Rightarrow> bool \<Rightarrow> ('a d7_hamt_bi_map \<Rightarrow> 'a d7_hamt_bi_map_policy_state \<Rightarrow> 'b act) \<Rightarrow> 'b act" where
  "with_bi_map mp result body =
     (case mp of
        None \<Rightarrow> fail (Status D7_HAMT_INVALID_ARGUMENT)
      | Some m \<Rightarrow>
          (case policy_state m of
             None \<Rightarrow> fail (Status D7_HAMT_INVALID_ARGUMENT)
           | Some st \<Rightarrow> if \<not> result then fail (Status D7_HAMT_INVALID_ARGUMENT) else body m st))"

definition d7_hamt_bi_map_try_add ::
  "'a d7_hamt_bi_map option \<Rightarrow> 'a \<Rightarrow> 'a \<Rightarrow> bool \<Rightarrow> (bool \<times> d7_hamt_bi_map_conflict \<times> 'a d7_hamt_bi_map) act" where
  "d7_hamt_bi_map_try_add mp key v result = with_bi_map mp result (\<lambda>m st.
     andthen (lift_res (d7_hamt_map_contains_key (Some (forward m)) key)) (\<lambda>has_key.
     if has_key then ret (False, D7_HAMT_BI_MAP_KEY_CONFLICT, m)
     else andthen (lift_res (d7_hamt_map_contains_key (Some (backward m)) v)) (\<lambda>has_value.
     if has_value then ret (False, D7_HAMT_BI_MAP_VALUE_CONFLICT, m)
     else andthen (d7_hamt_map_add (Some (forward m)) key v True) (\<lambda>f.
     andthen (d7_hamt_map_add (Some (backward m)) v key True) (\<lambda>b.
     ret (True, D7_HAMT_BI_MAP_NO_CONFLICT, compose f b (policy_state m) (policy_inverted m)))))))"

text \<open>\<open>d7_hamt_bi_map_add\<close> does not test its result pointer, which \<open>publish\<close> then writes through.\<close>

definition d7_hamt_bi_map_add ::
  "'a d7_hamt_bi_map option \<Rightarrow> 'a \<Rightarrow> 'a \<Rightarrow> bool \<Rightarrow> 'a d7_hamt_bi_map act" where
  "d7_hamt_bi_map_add mp key v result =
     andthen (d7_hamt_bi_map_try_add mp key v True) (\<lambda>(added, conflict, candidate).
       if \<not> added then
         fail (Status (if conflict = D7_HAMT_BI_MAP_KEY_CONFLICT then D7_HAMT_DUPLICATE_KEY else D7_HAMT_DUPLICATE_VALUE))
       else if \<not> result then fail Fault
       else ret candidate)"

definition d7_hamt_bi_map_set ::
  "'a d7_hamt_bi_map option \<Rightarrow> 'a \<Rightarrow> 'a \<Rightarrow> bool \<Rightarrow> 'a d7_hamt_bi_map act" where
  "d7_hamt_bi_map_set mp key v result = with_bi_map mp result (\<lambda>m st.
     andthen (lift_res (d7_hamt_map_try_get (Some (forward m)) key)) (\<lambda>found.
     case found of
       None \<Rightarrow>
         andthen (lift_res (d7_hamt_map_contains_key (Some (backward m)) v)) (\<lambda>has_value.
         if has_value then fail (Status D7_HAMT_DUPLICATE_VALUE) else d7_hamt_bi_map_add mp key v result)
     | Some old_value \<Rightarrow>
         if active_values_equal st (policy_inverted m) old_value v then ret m
         else andthen (lift_res (d7_hamt_map_contains_key (Some (backward m)) v)) (\<lambda>has_value.
         if has_value then fail (Status D7_HAMT_DUPLICATE_VALUE)
         else andthen (lift_res (d7_hamt_map_try_get_key (Some (forward m)) key)) (\<lambda>(present, stored_key).
         if \<not> present then fail (Status D7_HAMT_INVALID_ARGUMENT)
         else andthen (d7_hamt_map_remove (Some (forward m)) stored_key True False) (\<lambda>fr.
         andthen (d7_hamt_map_add (Some fr) stored_key v True) (\<lambda>fn.
         andthen (d7_hamt_map_remove (Some (backward m)) old_value True False) (\<lambda>ir.
         andthen (d7_hamt_map_add (Some ir) v stored_key True) (\<lambda>new.
         ret (compose fn new (policy_state m) (policy_inverted m))))))))))"

definition remove_pair :: "'a d7_hamt_bi_map \<Rightarrow> 'a \<Rightarrow> 'a \<Rightarrow> 'a d7_hamt_bi_map act" where
  "remove_pair m stored_key stored_value =
     andthen (d7_hamt_map_remove (Some (forward m)) stored_key True False) (\<lambda>f.
     andthen (d7_hamt_map_remove (Some (backward m)) stored_value True False) (\<lambda>b.
     ret (compose f b (policy_state m) (policy_inverted m))))"

definition d7_hamt_bi_map_try_remove_key ::
  "'a d7_hamt_bi_map option \<Rightarrow> 'a \<Rightarrow> bool \<Rightarrow> bool \<Rightarrow> (bool \<times> 'a option \<times> 'a d7_hamt_bi_map) act" where
  "d7_hamt_bi_map_try_remove_key mp key result aliased = with_bi_map mp result (\<lambda>m st.
     andthen (lift_res (d7_hamt_map_try_get_key (Some (forward m)) key)) (\<lambda>(present, stored_key).
     if \<not> present then ret (False, None, m)
     else andthen (lift_res (d7_hamt_map_try_get (Some (forward m)) key)) (\<lambda>found.
     case found of
       None \<Rightarrow> ret (False, None, m)
     | Some stored_value \<Rightarrow>
         andthen (remove_pair m stored_key stored_value) (\<lambda>m'.
         ret (True, if aliased then None else Some stored_value, m')))))"

definition d7_hamt_bi_map_remove_key ::
  "'a d7_hamt_bi_map option \<Rightarrow> 'a \<Rightarrow> bool \<Rightarrow> bool \<Rightarrow> 'a d7_hamt_bi_map act" where
  "d7_hamt_bi_map_remove_key mp key result aliased =
     andthen (d7_hamt_bi_map_try_remove_key mp key result aliased) (\<lambda>(removed, opposite, m'). ret m')"

definition d7_hamt_bi_map_try_remove_value ::
  "'a d7_hamt_bi_map option \<Rightarrow> 'a \<Rightarrow> bool \<Rightarrow> bool \<Rightarrow> (bool \<times> 'a option \<times> 'a d7_hamt_bi_map) act" where
  "d7_hamt_bi_map_try_remove_value mp v result aliased = with_bi_map mp result (\<lambda>m st.
     andthen (lift_res (d7_hamt_map_try_get_key (Some (backward m)) v)) (\<lambda>(present, stored_value).
     if \<not> present then ret (False, None, m)
     else andthen (lift_res (d7_hamt_map_try_get (Some (backward m)) v)) (\<lambda>found.
     case found of
       None \<Rightarrow> ret (False, None, m)
     | Some stored_key \<Rightarrow>
         andthen (remove_pair m stored_key stored_value) (\<lambda>m'.
         ret (True, if aliased then None else Some stored_key, m')))))"

definition d7_hamt_bi_map_remove_value ::
  "'a d7_hamt_bi_map option \<Rightarrow> 'a \<Rightarrow> bool \<Rightarrow> bool \<Rightarrow> 'a d7_hamt_bi_map act" where
  "d7_hamt_bi_map_remove_value mp v result aliased =
     andthen (d7_hamt_bi_map_try_remove_value mp v result aliased) (\<lambda>(removed, opposite, m'). ret m')"

definition d7_hamt_bi_map_clear :: "'a d7_hamt_bi_map option \<Rightarrow> bool \<Rightarrow> 'a d7_hamt_bi_map act" where
  "d7_hamt_bi_map_clear mp result = with_bi_map mp result (\<lambda>m st.
     if d7_hamt_bi_map_is_empty (Some m) then ret m
     else andthen (d7_hamt_map_clear (Some (forward m)) True) (\<lambda>f.
     andthen (d7_hamt_map_clear (Some (backward m)) True) (\<lambda>b.
     ret (compose f b (policy_state m) (policy_inverted m)))))"

definition d7_hamt_bi_map_inverse :: "'a d7_hamt_bi_map option \<Rightarrow> bool \<Rightarrow> 'a d7_hamt_bi_map act" where
  "d7_hamt_bi_map_inverse mp result = with_bi_map mp result (\<lambda>m st.
     ret \<lparr>forward = backward m, backward = forward m,
          policy_state = policy_state m, policy_inverted = (\<not> policy_inverted m)\<rparr>)"

definition d7_hamt_bi_map_iterator_init :: "'a d7_hamt_bi_map option \<Rightarrow> ('a, 'a) d7_hamt_map_iterator" where
  "d7_hamt_bi_map_iterator_init mp = d7_hamt_map_iterator_init (map_option forward mp)"

definition d7_hamt_bi_map_iterator_next ::
  "('a, 'a) d7_hamt_map_iterator \<Rightarrow> failure + ('a, 'a) d7_hamt_map_iterator \<times> ('a, 'a) d7_hamt_entry option" where
  "d7_hamt_bi_map_iterator_next it = d7_hamt_map_iterator_next it"

definition d7_hamt_bi_map_shares_roots :: "'a d7_hamt_bi_map option \<Rightarrow> 'a d7_hamt_bi_map option \<Rightarrow> bool" where
  "d7_hamt_bi_map_shares_roots left right =
     (case (left, right) of
        (Some l, Some r) \<Rightarrow>
          d7_hamt_map_shares_root (Some (forward l)) (Some (forward r)) \<and>
          d7_hamt_map_shares_root (Some (backward l)) (Some (backward r))
      | _ \<Rightarrow> False)"

text \<open>One of the two loops of the validator: each entry of a map leads back to its key.\<close>

definition leads_back ::
  "('a, 'a) d7_hamt_map \<Rightarrow> ('a \<Rightarrow> 'a \<Rightarrow> bool) \<Rightarrow> ('a, 'a) d7_hamt_entry \<Rightarrow> failure + bool" where
  "leads_back other eq e =
     map_found (\<lambda>found. case found of None \<Rightarrow> False | Some x \<Rightarrow> eq (entry_key e) x)
       (d7_hamt_map_try_get (Some other) (entry_value e))"

definition d7_hamt_bi_map_debug_validate :: "'a d7_hamt_bi_map option \<Rightarrow> failure + bool" where
  "d7_hamt_bi_map_debug_validate mp =
     (case mp of
        None \<Rightarrow> Inr False
      | Some m \<Rightarrow>
          (case policy_state m of
             None \<Rightarrow> Inr False
           | Some st \<Rightarrow>
               if count (forward m) \<noteq> count (backward m)
                  \<or> \<not> d7_hamt_map_debug_validate_canonical (Some (forward m))
                  \<or> \<not> d7_hamt_map_debug_validate_canonical (Some (backward m))
               then Inr False
               else
                 (case iterator_all (leads_back (backward m) (active_keys_equal st (policy_inverted m)))
                         (d7_hamt_map_iterator_init (Some (forward m))) of
                    Inl e \<Rightarrow> Inl e
                  | Inr ok \<Rightarrow>
                      if \<not> ok then Inr False
                      else iterator_all (leads_back (forward m) (active_values_equal st (policy_inverted m)))
                             (d7_hamt_map_iterator_init (Some (backward m))))))"

section \<open>Two maps kept inverse to each other\<close>

text \<open>
  The client of two maps, one from keys to values and one back, with the invariant that each relates what the
  other relates. \<open>st\<close> and \<open>inverted\<close> are the policy state and the orientation of the handles concerned.
\<close>

locale bi_map_client =
  f: hash_map_client validf holdsf Rk Rv E B + b: hash_map_client validb holdsb Rv Rk E B
  for validf :: "nat \<Rightarrow> ('a, 'a) d7_hamt_map \<Rightarrow> bool" and holdsf and validb :: "nat \<Rightarrow> ('a, 'a) d7_hamt_map \<Rightarrow> bool"
    and holdsb and Rk and Rv and E and B +
  fixes st :: "'a d7_hamt_bi_map_policy_state" and inverted :: bool
  assumes active_keys: "active_keys_equal st inverted = Rk" and active_values: "active_values_equal st inverted = Rv"
begin

definition bi_ok :: "nat \<Rightarrow> ('a \<Rightarrow> 'a \<Rightarrow> bool) \<Rightarrow> 'a d7_hamt_bi_map \<Rightarrow> bool" where
  "bi_ok t H m \<longleftrightarrow> validf t (forward m) \<and> validb t (backward m) \<and> count (forward m) = count (backward m) \<and>
     policy_state m = Some st \<and> policy_inverted m = inverted \<and>
     (\<forall>k v. holdsf (forward m) k v \<longleftrightarrow> H k v) \<and> (\<forall>k v. holdsb (backward m) v k \<longleftrightarrow> H k v)"

lemma bi_okD:
  assumes "bi_ok t H m"
  shows "validf t (forward m)" "validb t (backward m)" "policy_state m = Some st" "policy_inverted m = inverted"
    "holdsf (forward m) = H" "holdsb (backward m) = (\<lambda>v k. H k v)" "count (forward m) = count (backward m)"
  using assms by (auto simp: bi_ok_def fun_eq_iff)

lemma bi_ok_later: "bi_ok t H m \<Longrightarrow> t \<le> t' \<Longrightarrow> bi_ok t' H m"
  using f.valid_later b.valid_later unfolding bi_ok_def by blast

lemma one_value: "bi_ok t H m \<Longrightarrow> H k v \<Longrightarrow> H k w \<longleftrightarrow> Rv v w"
  using f.holds_value [of t "forward m" k v w] by (simp add: bi_okD(1,5))

lemma one_key: "bi_ok t H m \<Longrightarrow> H k v \<Longrightarrow> H k' v \<longleftrightarrow> Rk k k'"
  using b.holds_value [of t "backward m" v k k'] by (simp add: bi_okD(2,6))

lemma key_class: "bi_ok t H m \<Longrightarrow> Rk k k' \<Longrightarrow> H k v = H k' v"
  using f.holds_key [of t "forward m" k k' v] by (simp add: bi_okD(1,5))

lemma value_class: "bi_ok t H m \<Longrightarrow> Rv v v' \<Longrightarrow> H k v = H k v'"
  using b.holds_key [of t "backward m" v v' k] by (simp add: bi_okD(2,6))

abbreviation add_pair :: "'a \<Rightarrow> 'a \<Rightarrow> ('a \<Rightarrow> 'a \<Rightarrow> bool) \<Rightarrow> 'a \<Rightarrow> 'a \<Rightarrow> bool" where
  "add_pair k v H \<equiv> (\<lambda>k' v'. Rk k k' \<and> Rv v v' \<or> H k' v')"

abbreviation drop_key :: "'a \<Rightarrow> ('a \<Rightarrow> 'a \<Rightarrow> bool) \<Rightarrow> 'a \<Rightarrow> 'a \<Rightarrow> bool" where
  "drop_key k H \<equiv> (\<lambda>k' v'. \<not> Rk k k' \<and> H k' v')"

text \<open>Adding a pair to both maps, and dropping one from both.\<close>

lemma add_both:
  assumes ok: "bi_ok t H m" and free: "\<And>v. \<not> H k v" "\<And>k. \<not> H k v"
    and cont: "\<And>f b t'. t \<le> t' \<Longrightarrow> bi_ok t' (add_pair k v H) (compose f b (Some st) inverted) \<Longrightarrow> achieves E B t' (g f b) Q"
  shows "achieves E B t (andthen (d7_hamt_map_add (Some (forward m)) k v True) (\<lambda>f.
       andthen (d7_hamt_map_add (Some (backward m)) v k True) (\<lambda>b. g f b))) Q"
proof (rule achieves_andthen [OF f.add])
  show "validf t (forward m)" by (rule bi_okD(1) [OF ok])
  show "\<not> holdsf (forward m) k v" for v using free(1) bi_okD(5) [OF ok] by simp
  fix f t1
  assume t1: "t \<le> t1" and f: "validf t1 f \<and> holdsf f = bound_to Rk Rv k v (holdsf (forward m)) \<and> count f = count (forward m) + 1"
  show "achieves E B t1 (andthen (d7_hamt_map_add (Some (backward m)) v k True) (\<lambda>b. g f b)) Q"
  proof (rule achieves_andthen [OF b.add])
    show "validb t1 (backward m)" using b.valid_later [OF bi_okD(2) [OF ok] t1] .
    show "\<not> holdsb (backward m) v k" for k using free(2) bi_okD(6) [OF ok] by simp
    fix b t2
    assume t2: "t1 \<le> t2" and b: "validb t2 b \<and> holdsb b = bound_to Rv Rk v k (holdsb (backward m)) \<and> count b = count (backward m) + 1"
    have "bi_ok t2 (add_pair k v H) (compose f b (Some st) inverted)"
      using f b f.valid_later [of t1 f t2] t2 bi_okD(5,6,7) [OF ok] free key_class [OF ok] value_class [OF ok]
      by (auto simp: bi_ok_def compose_def)
    then show "achieves E B t2 (g f b) Q" using t1 t2 by (intro cont) simp_all
  qed
qed

lemma remove_both:
  assumes ok: "bi_ok t H m" and pair: "H k v"
    and cont: "\<And>m' t'. t \<le> t' \<Longrightarrow> bi_ok t' (drop_key k H) m' \<Longrightarrow> achieves E B t' (g m') Q"
  shows "achieves E B t (andthen (remove_pair m k v) g) Q"
proof (rule achieves_andthen [where P = "\<lambda>m' t'. bi_ok t' (drop_key k H) m'"])
  show "achieves E B t (remove_pair m k v) (\<lambda>m' t'. bi_ok t' (drop_key k H) m')"
    unfolding remove_pair_def
  proof (rule achieves_andthen [OF f.remove [OF bi_okD(1) [OF ok]]])
    fix f t1
    assume t1: "t \<le> t1" and f: "validf t1 f \<and> holdsf f = unbound Rk k (holdsf (forward m)) \<and>
      count f + (if \<exists>v. holdsf (forward m) k v then 1 else 0) = count (forward m)"
    show "achieves E B t1 (andthen (d7_hamt_map_remove (Some (backward m)) v True False)
        (\<lambda>b. ret (compose f b (policy_state m) (policy_inverted m)))) (\<lambda>m' t'. bi_ok t' (drop_key k H) m')"
    proof (rule achieves_andthen [OF b.remove [OF b.valid_later [OF bi_okD(2) [OF ok] t1]]])
      fix b t2
      assume t2: "t1 \<le> t2" and b: "validb t2 b \<and> holdsb b = unbound Rv v (holdsb (backward m)) \<and>
        count b + (if \<exists>k. holdsb (backward m) v k then 1 else 0) = count (backward m)"
      have drop: "(\<not> Rv v v' \<and> H k' v') \<longleftrightarrow> (\<not> Rk k k' \<and> H k' v')" for k' v'
        using one_value [OF ok, of k' v' v] one_key [OF ok, of k v k'] one_value [OF ok pair, of v'] one_key [OF ok, of k' v' k]
          b.key_sym [of v v'] f.key_sym [of k k'] pair key_class [OF ok, of k k'] value_class [OF ok, of v v']
          f.value_sym [of v' v] by blast
      have "\<exists>v. holdsf (forward m) k v" "\<exists>k. holdsb (backward m) v k" using pair bi_okD(5,6) [OF ok] by auto
      then have count: "count f = count b" using f b bi_okD(7) [OF ok] by simp
      have "bi_ok t2 (drop_key k H) (compose f b (policy_state m) (policy_inverted m))"
        unfolding bi_ok_def compose_def d7_hamt_bi_map.simps
        using f b f.valid_later [of t1 f t2] t2 bi_okD(3-6) [OF ok] count drop by simp
      then show "achieves E B t2 (ret (compose f b (policy_state m) (policy_inverted m))) (\<lambda>m' t'. bi_ok t' (drop_key k H) m')"
        by (rule achieves_ret)
    qed
  qed
qed (rule cont)

lemma with_ok: "bi_ok t H m \<Longrightarrow> with_bi_map (Some m) True body = body m st"
  by (simp add: with_bi_map_def bi_okD)

lemma has_key: "bi_ok t H m \<Longrightarrow> d7_hamt_map_contains_key (Some (forward m)) k = Inr (\<exists>v. H k v)"
  using f.contains [of t "forward m" k] by (simp add: bi_okD(1,5))

lemma has_value: "bi_ok t H m \<Longrightarrow> d7_hamt_map_contains_key (Some (backward m)) v = Inr (\<exists>k. H k v)"
  using b.contains [of t "backward m" v] by (simp add: bi_okD(2,6))

lemma try_add_conflict:
  assumes "bi_ok t H m"
  shows "H k w \<Longrightarrow> d7_hamt_bi_map_try_add (Some m) k v True E u = (Inr (False, D7_HAMT_BI_MAP_KEY_CONFLICT, m), u)"
    and "(\<And>w. \<not> H k w) \<Longrightarrow> H k' v \<Longrightarrow>
      d7_hamt_bi_map_try_add (Some m) k v True E u = (Inr (False, D7_HAMT_BI_MAP_VALUE_CONFLICT, m), u)"
  unfolding d7_hamt_bi_map_try_add_def with_ok [OF assms] has_key [OF assms] has_value [OF assms]
  by (auto simp: act_simps)

lemma try_add_spec:
  assumes ok: "bi_ok t H m" and free: "\<And>w. \<not> H k w" "\<And>k. \<not> H k v"
  shows "achieves E B t (d7_hamt_bi_map_try_add (Some m) k v True)
    (\<lambda>(added, conflict, m') t'. added \<and> conflict = D7_HAMT_BI_MAP_NO_CONFLICT \<and> bi_ok t' (add_pair k v H) m')"
proof -
  have none: "\<not> Ex (H k)" "\<not> (\<exists>k. H k v)" using free by blast+
  have "d7_hamt_bi_map_try_add (Some m) k v True =
      andthen (d7_hamt_map_add (Some (forward m)) k v True) (\<lambda>f.
        andthen (d7_hamt_map_add (Some (backward m)) v k True) (\<lambda>b.
          ret (True, D7_HAMT_BI_MAP_NO_CONFLICT, compose f b (Some st) inverted)))"
    unfolding d7_hamt_bi_map_try_add_def with_ok [OF ok] has_key [OF ok] has_value [OF ok] bi_okD(3,4) [OF ok]
    by (simp add: none fun_eq_iff andthen_def lift_res_def)
  then show ?thesis by (auto intro!: add_both [OF ok free] achieves_ret)
qed

lemma add_spec:
  assumes ok: "bi_ok t H m" and free: "\<And>w. \<not> H k w" "\<And>k. \<not> H k v"
  shows "achieves E B t (d7_hamt_bi_map_add (Some m) k v True) (\<lambda>m' t'. bi_ok t' (add_pair k v H) m')"
  unfolding d7_hamt_bi_map_add_def
  by (rule achieves_andthen [OF try_add_spec [OF assms]]) (auto intro!: achieves_ret)

text \<open>Replacing the value of a key: the pair of the key gives way to the new one.\<close>

lemma replace_spec:
  assumes ok: "bi_ok t H m" and old: "H k old" "\<not> Rv old v" and free: "\<And>k. \<not> H k v"
  shows "achieves E B t
    (andthen (d7_hamt_map_remove (Some (forward m)) k True False) (\<lambda>fr.
     andthen (d7_hamt_map_add (Some fr) k v True) (\<lambda>fn.
     andthen (d7_hamt_map_remove (Some (backward m)) old True False) (\<lambda>ir.
     andthen (d7_hamt_map_add (Some ir) v k True) (\<lambda>new.
     ret (compose fn new (Some st) inverted))))))
    (\<lambda>m' t'. bi_ok t' (add_pair k v (drop_key k H)) m')"
proof (rule achieves_andthen [OF f.remove [OF bi_okD(1) [OF ok]]], elim conjE)
  fix fr t1
  assume t1: "t \<le> t1" and fr: "validf t1 fr" "holdsf fr = unbound Rk k (holdsf (forward m))"
    "count fr + (if \<exists>v. holdsf (forward m) k v then 1 else 0) = count (forward m)"
  have absent: "\<not> holdsf fr k w" for w using fr(2) by simp
  have b1: "validb t1 (backward m)" using b.valid_later [OF bi_okD(2) [OF ok] t1] .
  show "achieves E B t1 (andthen (d7_hamt_map_add (Some fr) k v True) (\<lambda>fn.
     andthen (d7_hamt_map_remove (Some (backward m)) old True False) (\<lambda>ir.
     andthen (d7_hamt_map_add (Some ir) v k True) (\<lambda>new. ret (compose fn new (Some st) inverted)))))
    (\<lambda>m' t'. bi_ok t' (add_pair k v (drop_key k H)) m')"
  proof (rule achieves_andthen [OF f.add [OF fr(1) absent]], elim conjE)
    fix fn t2
    assume t2: "t1 \<le> t2" and fn: "validf t2 fn" "holdsf fn = bound_to Rk Rv k v (holdsf fr)" "count fn = count fr + 1"
    show "achieves E B t2 (andthen (d7_hamt_map_remove (Some (backward m)) old True False) (\<lambda>ir.
       andthen (d7_hamt_map_add (Some ir) v k True) (\<lambda>new. ret (compose fn new (Some st) inverted))))
      (\<lambda>m' t'. bi_ok t' (add_pair k v (drop_key k H)) m')"
    proof (rule achieves_andthen [OF b.remove [OF b.valid_later [OF b1 t2]]], elim conjE)
      fix ir t3
      assume t3: "t2 \<le> t3" and ir: "validb t3 ir" "holdsb ir = unbound Rv old (holdsb (backward m))"
        "count ir + (if \<exists>v. holdsb (backward m) old v then 1 else 0) = count (backward m)"
      have absent': "\<not> holdsb ir v w" for w using ir(2) free bi_okD(6) [OF ok] by simp
      show "achieves E B t3 (andthen (d7_hamt_map_add (Some ir) v k True) (\<lambda>new. ret (compose fn new (Some st) inverted)))
        (\<lambda>m' t'. bi_ok t' (add_pair k v (drop_key k H)) m')"
      proof (rule achieves_andthen [OF b.add [OF ir(1) absent']], elim conjE)
        fix new t4
        assume t4: "t3 \<le> t4" and new: "validb t4 new" "holdsb new = bound_to Rv Rk v k (holdsb ir)" "count new = count ir + 1"
        have "\<exists>v. holdsf (forward m) k v" "\<exists>k. holdsb (backward m) old k" using old(1) bi_okD(5,6) [OF ok] by auto
        then have count: "count fn = count new" using fr(3) fn(3) ir(3) new(3) bi_okD(7) [OF ok] by simp
        have fwd: "holdsf fn k' v' \<longleftrightarrow> add_pair k v (drop_key k H) k' v'" for k' v'
          using fn(2) fr(2) bi_okD(5) [OF ok] by simp
        have "(\<not> Rv old v' \<and> H k' v') \<longleftrightarrow> (\<not> Rk k k' \<and> H k' v')" for k' v'
          using one_key [OF ok, of k' v' k] one_value [OF ok old(1), of v'] f.key_sym [of k k'] f.key_sym [of k' k] by blast
        moreover have "\<not> H k' v'" if "Rv v v'" for k' v' using free value_class [OF ok that] by simp
        ultimately have bwd: "holdsb new v' k' \<longleftrightarrow> add_pair k v (drop_key k H) k' v'" for k' v'
          using new(2) ir(2) bi_okD(6) [OF ok] by auto
        have "bi_ok t4 (add_pair k v (drop_key k H)) (compose fn new (Some st) inverted)"
          using fwd bwd count f.valid_later [OF fn(1)] t3 t4 new(1) by (simp add: bi_ok_def compose_def)
        then show "achieves E B t4 (ret (compose fn new (Some st) inverted)) (\<lambda>m' t'. bi_ok t' (add_pair k v (drop_key k H)) m')"
          by (rule achieves_ret)
      qed
    qed
  qed
qed

lemma bi_ok_cong: "bi_ok t H m \<Longrightarrow> (\<And>k v. H k v = H' k v) \<Longrightarrow> bi_ok t H' m"
  by (simp add: bi_ok_def)

lemma lift_then: "r = Inr x \<Longrightarrow> andthen (lift_res r) g = g x"
  by (simp add: fun_eq_iff andthen_def lift_res_def)

lemma found_value:
  assumes "bi_ok t H m" and "H k w"
  obtains v where "d7_hamt_map_try_get (Some (forward m)) k = Inr (Some v)" and "\<And>w. H k w \<longleftrightarrow> Rv v w"
  using f.get_value [OF bi_okD(1) [OF assms(1)], of k] assms(2) that unfolding bi_okD(5) [OF assms(1)] by blast

lemma set_conflict:
  assumes ok: "bi_ok t H m" and "H k' v" and "\<not> Rk k k'"
  shows "d7_hamt_bi_map_set (Some m) k v True E u = (Inl (Status D7_HAMT_DUPLICATE_VALUE), u)"
proof -
  have has: "d7_hamt_map_contains_key (Some (backward m)) v = Inr True" using has_value [OF ok] assms(2) by auto
  have "\<not> H k v" using assms one_key [OF ok assms(2), of k] f.key_sym by blast
  then show ?thesis
  proof (cases "\<exists>w. H k w")
    case True
    then obtain w where "H k w" ..
    then obtain old where old: "d7_hamt_map_try_get (Some (forward m)) k = Inr (Some old)" "\<And>w. H k w \<longleftrightarrow> Rv old w"
      using found_value [OF ok] by metis
    then show ?thesis
      using \<open>\<not> H k v\<close> by (simp add: d7_hamt_bi_map_set_def with_ok [OF ok] lift_then [OF has] lift_then [OF old(1)] active_values bi_okD(4) [OF ok] fail_def)
  next
    case False
    then have "d7_hamt_map_try_get (Some (forward m)) k = Inr None"
      using f.get_value [OF bi_okD(1) [OF ok], of k] f.value_refl unfolding bi_okD(5) [OF ok] by blast
    then show ?thesis
      by (simp add: d7_hamt_bi_map_set_def with_ok [OF ok] lift_then [OF has] lift_then fail_def)
  qed
qed

lemma set_spec:
  assumes ok: "bi_ok t H m" and free: "\<And>k'. H k' v \<Longrightarrow> Rk k k'"
  shows "achieves E B t (d7_hamt_bi_map_set (Some m) k v True) (\<lambda>m' t'. bi_ok t' (add_pair k v (drop_key k H)) m')"
proof (cases "\<exists>w. H k w")
  case False
  then have get: "d7_hamt_map_try_get (Some (forward m)) k = Inr None"
    using f.get_value [OF bi_okD(1) [OF ok], of k] f.value_refl unfolding bi_okD(5) [OF ok] by blast
  have none: "\<not> H k' v" for k' using free [of k'] False key_class [OF ok, of k k' v] by blast
  then have "d7_hamt_map_contains_key (Some (backward m)) v = Inr False" using has_value [OF ok] by simp
  then have "d7_hamt_bi_map_set (Some m) k v True = d7_hamt_bi_map_add (Some m) k v True"
    by (simp add: d7_hamt_bi_map_set_def with_ok [OF ok] lift_then [OF get] lift_then)
  moreover have "\<not> Rk k k'" if "H k' v'" for k' v' using that False key_class [OF ok, of k k' v'] by blast
  then have "add_pair k v H k' v' = add_pair k v (drop_key k H) k' v'" for k' v' by blast
  ultimately show ?thesis
    using False none by (auto intro!: achieves_weaken [OF add_spec [OF ok]] elim: bi_ok_cong)
next
  case True
  then obtain old where get: "d7_hamt_map_try_get (Some (forward m)) k = Inr (Some old)" and old: "\<And>w. H k w \<longleftrightarrow> Rv old w"
    using found_value [OF ok] by metis
  show ?thesis
  proof (cases "Rv old v")
    case True
    then have "d7_hamt_bi_map_set (Some m) k v True = ret m"
      by (simp add: d7_hamt_bi_map_set_def with_ok [OF ok] lift_then [OF get] active_values bi_okD(4) [OF ok])
    moreover have "H k v" using True old by simp
    then have "H k' v' \<longleftrightarrow> add_pair k v (drop_key k H) k' v'" for k' v'
      using one_value [OF ok, of k v v'] key_class [OF ok, of k k' v'] by blast
    ultimately show ?thesis using bi_ok_cong [OF ok] by (auto intro!: achieves_ret)
  next
    case False
    have none: "\<not> H k' v" for k' using free [of k'] False old key_class [OF ok, of k k' v] by blast
    then have has: "d7_hamt_map_contains_key (Some (backward m)) v = Inr False" using has_value [OF ok] by simp
    have "H k old" using old f.value_refl by simp
    then obtain k1 where k1: "d7_hamt_map_try_get_key (Some (forward m)) k = Inr (True, k1)" "Rk k k1"
      using f.get_key [OF bi_okD(1) [OF ok], of k old] unfolding bi_okD(5) [OF ok] by blast
    have "H k1 old" using \<open>H k old\<close> key_class [OF ok k1(2)] by simp
    moreover have same_class: "Rk k1 k' \<longleftrightarrow> Rk k k'" for k' using f.key_equivp k1(2) by (meson equivp_symp equivp_transp)
    moreover have "d7_hamt_bi_map_set (Some m) k v True =
      andthen (d7_hamt_map_remove (Some (forward m)) k1 True False) (\<lambda>fr.
       andthen (d7_hamt_map_add (Some fr) k1 v True) (\<lambda>fn.
       andthen (d7_hamt_map_remove (Some (backward m)) old True False) (\<lambda>ir.
       andthen (d7_hamt_map_add (Some ir) v k1 True) (\<lambda>new.
       ret (compose fn new (Some st) inverted)))))"
      using False by (simp add: d7_hamt_bi_map_set_def with_ok [OF ok] lift_then [OF get] lift_then [OF has] lift_then [OF k1(1)]
        active_values bi_okD(3,4) [OF ok])
    ultimately show ?thesis using replace_spec [OF ok, of k1 old v] False none unfolding same_class by simp
  qed
qed

lemma remove_key_spec:
  assumes ok: "bi_ok t H m"
  shows "achieves E B t (d7_hamt_bi_map_try_remove_key (Some m) k True aliased)
    (\<lambda>(removed, opposite, m') t'. (removed \<longleftrightarrow> (\<exists>v. H k v)) \<and> bi_ok t' (drop_key k H) m' \<and> (\<not> removed \<longrightarrow> m' = m) \<and>
       (if removed \<and> \<not> aliased then \<exists>v. opposite = Some v \<and> H k v else opposite = None))"
proof (cases "\<exists>w. H k w")
  case False
  then have "d7_hamt_map_try_get_key (Some (forward m)) k = Inr (False, k)"
    using f.get_key_absent [OF bi_okD(1) [OF ok], of k] unfolding bi_okD(5) [OF ok] by blast
  moreover have "H k' v' \<longleftrightarrow> drop_key k H k' v'" for k' v' using False key_class [OF ok, of k k' v'] by blast
  ultimately show ?thesis
    using False bi_ok_cong [OF ok] by (auto simp: d7_hamt_bi_map_try_remove_key_def with_ok [OF ok] lift_then intro!: achieves_ret)
next
  case True
  then obtain v where get: "d7_hamt_map_try_get (Some (forward m)) k = Inr (Some v)" and v: "\<And>w. H k w \<longleftrightarrow> Rv v w"
    using found_value [OF ok] by metis
  have pair: "H k v" using v f.value_refl by simp
  obtain k1 where k1: "d7_hamt_map_try_get_key (Some (forward m)) k = Inr (True, k1)" "Rk k k1"
    using f.get_key [OF bi_okD(1) [OF ok], of k v] pair unfolding bi_okD(5) [OF ok] by blast
  have "H k1 v" using pair key_class [OF ok k1(2)] by simp
  have same_class: "Rk k1 k' \<longleftrightarrow> Rk k k'" for k' using f.key_equivp k1(2) by (meson equivp_symp equivp_transp)
  show ?thesis
    unfolding d7_hamt_bi_map_try_remove_key_def with_ok [OF ok] lift_then [OF k1(1)] prod.case
    using True pair
    by (simp add: lift_then [OF get]) (auto intro!: remove_both [OF ok \<open>H k1 v\<close>] achieves_ret simp: same_class)
qed

lemma remove_value_spec:
  assumes ok: "bi_ok t H m"
  shows "achieves E B t (d7_hamt_bi_map_try_remove_value (Some m) v True aliased)
    (\<lambda>(removed, opposite, m') t'. (removed \<longleftrightarrow> (\<exists>k. H k v)) \<and> bi_ok t' (\<lambda>k' v'. \<not> Rv v v' \<and> H k' v') m' \<and> (\<not> removed \<longrightarrow> m' = m) \<and>
       (if removed \<and> \<not> aliased then \<exists>k. opposite = Some k \<and> H k v else opposite = None))"
proof (cases "\<exists>k. H k v")
  case False
  then have "d7_hamt_map_try_get_key (Some (backward m)) v = Inr (False, v)"
    using b.get_key_absent [OF bi_okD(2) [OF ok], of v] unfolding bi_okD(6) [OF ok] by blast
  moreover have "H k' v' \<longleftrightarrow> \<not> Rv v v' \<and> H k' v'" for k' v' using False value_class [OF ok, of v v' k'] by blast
  ultimately show ?thesis
    using False bi_ok_cong [OF ok] by (auto simp: d7_hamt_bi_map_try_remove_value_def with_ok [OF ok] lift_then intro!: achieves_ret)
next
  case True
  then obtain k where get: "d7_hamt_map_try_get (Some (backward m)) v = Inr (Some k)" and k: "\<And>k'. H k' v \<longleftrightarrow> Rk k k'"
    using b.get_value [OF bi_okD(2) [OF ok], of v] unfolding bi_okD(6) [OF ok] by blast
  have pair: "H k v" using k f.key_refl by simp
  obtain v1 where v1: "d7_hamt_map_try_get_key (Some (backward m)) v = Inr (True, v1)" "Rv v v1"
    using b.get_key [OF bi_okD(2) [OF ok], of v k] pair unfolding bi_okD(6) [OF ok] by blast
  have "H k v1" using pair value_class [OF ok v1(2)] by simp
  have "drop_key k H k' v' \<longleftrightarrow> \<not> Rv v v' \<and> H k' v'" for k' v'
    using one_value [OF ok, of k v v'] one_key [OF ok, of k v' k'] value_class [OF ok, of v v' k] key_class [OF ok, of k k' v']
      value_class [OF ok, of v v' k'] k [of k'] pair by blast
  then have "bi_ok t' (\<lambda>k' v'. \<not> Rv v v' \<and> H k' v') m'" if "bi_ok t' (drop_key k H) m'" for t' m'
    using bi_ok_cong [OF that] by simp
  then show ?thesis
    unfolding d7_hamt_bi_map_try_remove_value_def with_ok [OF ok] lift_then [OF v1(1)] prod.case
    using True pair
    by (simp add: lift_then [OF get]) (auto intro!: remove_both [OF ok \<open>H k v1\<close>] achieves_ret)
qed

lemma clear_spec:
  assumes ok: "bi_ok t H m"
  shows "\<exists>m'. d7_hamt_bi_map_clear (Some m) True E t = (Inr m', t) \<and> bi_ok t (\<lambda>k v. False) m'"
proof (cases "count (forward m) = 0")
  case True
  have "\<not> H k v" for k v
    using f.iteration [OF bi_okD(1) [OF ok]] True unfolding bi_okD(5) [OF ok] by auto
  then have "bi_ok t (\<lambda>k v. False) m" using bi_ok_cong [OF ok] by simp
  then show ?thesis using True
    by (simp add: d7_hamt_bi_map_clear_def with_ok [OF ok] d7_hamt_bi_map_is_empty_def d7_hamt_bi_map_count_def d7_hamt_map_count_def ret_def)
next
  case False
  obtain f b where f: "d7_hamt_map_clear (Some (forward m)) True E t = (Inr f, t)" "validf t f" "\<forall>k v. \<not> holdsf f k v" "count f = 0"
    and b: "d7_hamt_map_clear (Some (backward m)) True E t = (Inr b, t)" "validb t b" "\<forall>k v. \<not> holdsb b k v" "count b = 0"
    using f.clear [OF bi_okD(1) [OF ok]] b.clear [OF bi_okD(2) [OF ok]] by blast
  then have "bi_ok t (\<lambda>k v. False) (compose f b (Some st) inverted)" by (simp add: bi_ok_def compose_def)
  moreover have "d7_hamt_bi_map_clear (Some m) True E t = (Inr (compose f b (Some st) inverted), t)"
    using False f(1) b(1)
    by (simp add: d7_hamt_bi_map_clear_def with_ok [OF ok] d7_hamt_bi_map_is_empty_def d7_hamt_bi_map_count_def d7_hamt_map_count_def
        andthen_def ret_def bi_okD(3,4) [OF ok])
  ultimately show ?thesis by blast
qed

text \<open>One direction of the validator: every entry of the map leads back to its key.\<close>

lemma leads_back_true:
  assumes "hash_map_client validx holdsx Rx Ry E' B'" and "validx t other"
    and "holdsx other (entry_value e) (entry_key e)" and "\<And>x. Ry x (entry_key e) \<Longrightarrow> eq (entry_key e) x"
  shows "leads_back other eq e = Inr True"
  using hash_map_client.get_value [OF assms(1,2), of "entry_value e"] assms(3,4)
  by (auto simp: leads_back_def map_found_def)

lemma check_all_true: "(\<And>x. x \<in> set xs \<Longrightarrow> g x = Inr True) \<Longrightarrow> check_all g xs = Inr True"
  by (induction xs) auto

lemma validate_spec:
  assumes ok: "bi_ok t H m" and "count (forward m) \<le> SIZE_MAX"
  shows "d7_hamt_bi_map_debug_validate (Some m) = Inr True"
proof -
  obtain es where es: "iterator_ok (d7_hamt_map_iterator_init (Some (forward m)))"
      "iterator_rest (d7_hamt_map_iterator_init (Some (forward m))) = es"
      "\<And>k v. H k v \<longleftrightarrow> (\<exists>e\<in>set es. Rk (entry_key e) k \<and> Rv (entry_value e) v)"
    using f.iteration [OF bi_okD(1) [OF ok]] unfolding bi_okD(5) [OF ok] by metis
  obtain es' where es': "iterator_ok (d7_hamt_map_iterator_init (Some (backward m)))"
      "iterator_rest (d7_hamt_map_iterator_init (Some (backward m))) = es'"
      "\<And>v k. H k v \<longleftrightarrow> (\<exists>e\<in>set es'. Rv (entry_key e) v \<and> Rk (entry_value e) k)"
    using b.iteration [OF bi_okD(2) [OF ok]] unfolding bi_okD(6) [OF ok] by metis
  have in_f: "H (entry_key e) (entry_value e)" if "e \<in> set es" for e
    using that f.key_refl f.value_refl unfolding es(3) by blast
  have in_b: "H (entry_value e) (entry_key e)" if "e \<in> set es'" for e
    using that b.key_refl b.value_refl unfolding es'(3) by blast
  have "leads_back (backward m) (active_keys_equal st inverted) e = Inr True" if "e \<in> set es" for e
    using in_f [OF that] bi_okD(2,6) [OF ok] b.value_sym unfolding active_keys
    by (intro leads_back_true [OF b.hash_map_client_axioms, of t]) simp_all
  then have 1: "iterator_all (leads_back (backward m) (active_keys_equal st inverted)) (d7_hamt_map_iterator_init (Some (forward m))) = Inr True"
    unfolding iterator_all_check [OF es(1)] es(2) by (intro check_all_true)
  have "leads_back (forward m) (active_values_equal st inverted) e = Inr True" if "e \<in> set es'" for e
    using in_b [OF that] bi_okD(1,5) [OF ok] f.value_sym unfolding active_values
    by (intro leads_back_true [OF f.hash_map_client_axioms, of t]) simp_all
  then have 2: "iterator_all (leads_back (forward m) (active_values_equal st inverted)) (d7_hamt_map_iterator_init (Some (backward m))) = Inr True"
    unfolding iterator_all_check [OF es'(1)] es'(2) by (intro check_all_true)
  show ?thesis
    using f.validation [OF bi_okD(1) [OF ok] assms(2)] b.validation [OF bi_okD(2) [OF ok]] assms(2) bi_okD(7) [OF ok] 1 2
    by (simp add: d7_hamt_bi_map_debug_validate_def bi_okD(3,4) [OF ok])
qed

end

section \<open>The policies of a bidirectional map\<close>

text \<open>The contract of an item policy: equality is an equivalence that the hash respects, and a retained item equals
  the item handed in.\<close>

locale item_policy =
  fixes q :: "'a d7_hamt_set_policy_arg"
  assumes item_equivp: "equivp (item_equal q)"
    and item_equal_hash: "item_equal q a b \<Longrightarrow> item_hash q a = item_hash q b"
    and item_retain_equal: "item_retain q a i = Some a' \<Longrightarrow> item_equal q a a'"

lemmas item_defs = item_equal_def item_hash_def item_retain_def normalize_set_policy_def

interpretation default_items: item_policy "normalize_set_policy ptr None"
  by unfold_locales (auto simp: item_defs policy_defs Let_def equivp_def fun_eq_iff)

locale bi_map_policies =
  fixes st :: "'a d7_hamt_bi_map_policy_state"
  assumes keys: "item_policy (key_policy st)" and vals: "item_policy (value_policy st)"

lemma bi_map_policy_calls:
  "d7_hamt_get_hash (forward_policy st) = item_hash (key_policy st)"
  "d7_hamt_keys_equal (forward_policy st) = item_equal (key_policy st)"
  "d7_hamt_values_equal (forward_policy st) v w \<longleftrightarrow> v = w \<or> item_equal (value_policy st) v w"
  "d7_hamt_retain_key (forward_policy st) = item_retain (key_policy st)"
  "d7_hamt_retain_value (forward_policy st) = item_retain (value_policy st)"
  "d7_hamt_get_hash (inverse_policy st) = item_hash (value_policy st)"
  "d7_hamt_keys_equal (inverse_policy st) = item_equal (value_policy st)"
  "d7_hamt_values_equal (inverse_policy st) v w \<longleftrightarrow> v = w \<or> item_equal (key_policy st) v w"
  "d7_hamt_retain_key (inverse_policy st) = item_retain (value_policy st)"
  "d7_hamt_retain_value (inverse_policy st) = item_retain (key_policy st)"
  by (auto simp: forward_policy_def inverse_policy_def policy_defs fun_eq_iff)

lemma bi_map_requests: "failing_requests E (inverse_policy st) = failing_requests E (forward_policy st)"
  by (auto simp: failing_requests_def bi_map_policy_calls)

sublocale bi_map_policies < fw: hamt_policy "forward_policy st" "item_equal (key_policy st)" "item_equal (value_policy st)"
  using keys vals by unfold_locales
    (auto simp: bi_map_policy_calls item_policy_def intro: equivp_reflp)

sublocale bi_map_policies < bw: hamt_policy "inverse_policy st" "item_equal (value_policy st)" "item_equal (key_policy st)"
  using keys vals by unfold_locales
    (auto simp: bi_map_policy_calls item_policy_def intro: equivp_reflp)

sublocale bi_map_policies < straight: bi_map_client
  "map_valid_at (forward_policy st)" "map_holds (item_equal (value_policy st))"
  "map_valid_at (inverse_policy st)" "map_holds (item_equal (key_policy st))"
  "item_equal (key_policy st)" "item_equal (value_policy st)" E "failing_requests E (forward_policy st)" st False for E
  using fw.client.hash_map_client_axioms [of E] bw.client.hash_map_client_axioms [of E]
  unfolding bi_map_policy_calls bi_map_requests
  by (simp add: bi_map_client_def bi_map_client_axioms_def active_keys_equal_def active_values_equal_def fun_eq_iff)

sublocale bi_map_policies < swapped: bi_map_client
  "map_valid_at (inverse_policy st)" "map_holds (item_equal (key_policy st))"
  "map_valid_at (forward_policy st)" "map_holds (item_equal (value_policy st))"
  "item_equal (value_policy st)" "item_equal (key_policy st)" E "failing_requests E (forward_policy st)" st True for E
  using fw.client.hash_map_client_axioms [of E] bw.client.hash_map_client_axioms [of E]
  unfolding bi_map_policy_calls bi_map_requests
  by (simp add: bi_map_client_def bi_map_client_axioms_def active_keys_equal_def active_values_equal_def fun_eq_iff)

context bi_map_policies
begin

lemma straight_client: "bi_map_client
  (map_valid_at (forward_policy st)) (map_holds (item_equal (value_policy st)))
  (map_valid_at (inverse_policy st)) (map_holds (item_equal (key_policy st)))
  (item_equal (key_policy st)) (item_equal (value_policy st)) E (failing_requests E (forward_policy st)) st False"
  by (rule straight.bi_map_client_axioms)

lemma swapped_client: "bi_map_client
  (map_valid_at (inverse_policy st)) (map_holds (item_equal (key_policy st)))
  (map_valid_at (forward_policy st)) (map_holds (item_equal (value_policy st)))
  (item_equal (value_policy st)) (item_equal (key_policy st)) E (failing_requests E (forward_policy st)) st True"
  by (rule swapped.bi_map_client_axioms)

end

end
