(* ===== verification/Hamt_Bi_Map_Properties.thy ===== *)
theory Hamt_Bi_Map_Properties
  imports Hamt_Bi_Map
begin

text \<open>
  The properties of the bidirectional map, for handles of either orientation. \<open>bi_map_related\<close> is the
  relation a handle stands for; the operations are specified by what they do to it.
\<close>

section \<open>Handles\<close>

definition bi_key_eq :: "'a d7_hamt_bi_map \<Rightarrow> 'a \<Rightarrow> 'a \<Rightarrow> bool" where
  "bi_key_eq m = (case policy_state m of None \<Rightarrow> (=) | Some st \<Rightarrow> active_keys_equal st (policy_inverted m))"

definition bi_value_eq :: "'a d7_hamt_bi_map \<Rightarrow> 'a \<Rightarrow> 'a \<Rightarrow> bool" where
  "bi_value_eq m = (case policy_state m of None \<Rightarrow> (=) | Some st \<Rightarrow> active_values_equal st (policy_inverted m))"

definition bi_map_related :: "'a d7_hamt_bi_map \<Rightarrow> 'a \<Rightarrow> 'a \<Rightarrow> bool" where
  "bi_map_related m k v \<longleftrightarrow> map_holds (bi_value_eq m) (forward m) k v"

definition bi_map_requests_at :: "environment \<Rightarrow> 'a d7_hamt_bi_map \<Rightarrow> nat set" where
  "bi_map_requests_at E m = failing_requests E (policy (forward m))"

text \<open>A handle is valid: both maps are valid under the policies of its state, count the same number of entries,
  and the inverse map relates a value to a key exactly when the forward map relates the key to the value.\<close>

definition bi_map_ok :: "nat \<Rightarrow> 'a d7_hamt_bi_map \<Rightarrow> bool" where
  "bi_map_ok t m \<longleftrightarrow>
     (case policy_state m of
        None \<Rightarrow> False
      | Some st \<Rightarrow>
          bi_map_policies st \<and>
          map_valid_at (if policy_inverted m then inverse_policy st else forward_policy st) t (forward m) \<and>
          map_valid_at (if policy_inverted m then forward_policy st else inverse_policy st) t (backward m) \<and>
          count (forward m) = count (backward m) \<and>
          (\<forall>k v. map_holds (bi_key_eq m) (backward m) v k \<longleftrightarrow> bi_map_related m k v))"

lemma bi_eq_state:
  "policy_state m = Some st \<Longrightarrow> bi_key_eq m = active_keys_equal st (policy_inverted m)"
  "policy_state m = Some st \<Longrightarrow> bi_value_eq m = active_values_equal st (policy_inverted m)"
  by (simp_all add: bi_key_eq_def bi_value_eq_def)

lemma active_equal [simp]:
  "active_keys_equal st False = item_equal (key_policy st)" "active_keys_equal st True = item_equal (value_policy st)"
  "active_values_equal st False = item_equal (value_policy st)" "active_values_equal st True = item_equal (key_policy st)"
  by (simp_all add: active_keys_equal_def active_values_equal_def fun_eq_iff)

lemma bi_map_okI:
  assumes "bi_map_policies st" and "policy_state m = Some st" and "count (forward m) = count (backward m)"
    and "map_valid_at (if policy_inverted m then inverse_policy st else forward_policy st) t (forward m)"
    and "map_valid_at (if policy_inverted m then forward_policy st else inverse_policy st) t (backward m)"
    and "\<And>k v. map_holds (active_values_equal st (policy_inverted m)) (forward m) k v \<longleftrightarrow> H k v"
    and "\<And>k v. map_holds (active_keys_equal st (policy_inverted m)) (backward m) v k \<longleftrightarrow> H k v"
  shows "bi_map_ok t m" and "bi_map_related m = H"
proof -
  show "bi_map_related m = H" using assms(2,6) by (simp add: bi_map_related_def bi_eq_state fun_eq_iff)
  then show "bi_map_ok t m" using assms by (simp add: bi_map_ok_def bi_eq_state split: if_splits)
qed

text \<open>A valid handle is one of the two orientations of the client of two maps.\<close>

lemma bi_map_client_of:
  assumes "bi_map_ok t m"
  obtains validf holdsf validb holdsb st where
    "\<And>E. bi_map_client validf holdsf validb holdsb (bi_key_eq m) (bi_value_eq m) E (bi_map_requests_at E m) st (policy_inverted m)"
    and "bi_map_client.bi_ok validf holdsf validb holdsb st (policy_inverted m) t (bi_map_related m) m"
    and "\<And>t' H m'. bi_map_client.bi_ok validf holdsf validb holdsb st (policy_inverted m) t' H m' \<Longrightarrow>
      bi_map_ok t' m' \<and> bi_map_related m' = H \<and> bi_key_eq m' = bi_key_eq m \<and> bi_value_eq m' = bi_value_eq m \<and>
      policy_inverted m' = policy_inverted m"
proof -
  obtain st where st: "policy_state m = Some st" and pol: "bi_map_policies st"
    using assms by (auto simp: bi_map_ok_def split: option.splits)
  show ?thesis
  proof (cases "policy_inverted m")
    case False
    note client = bi_map_policies.straight_client [OF pol]
    note ok = bi_map_client.bi_ok_def [OF client]
    have eqs: "bi_key_eq m = item_equal (key_policy st)" "bi_value_eq m = item_equal (value_policy st)"
      using st False by (simp_all add: bi_eq_state)
    have "policy (forward m) = forward_policy st" using assms st False by (simp add: bi_map_ok_def map_valid_at_def)
    then have "\<And>E. bi_map_requests_at E m = failing_requests E (forward_policy st)" by (simp add: bi_map_requests_at_def)
    then show ?thesis
      using client ok assms st False eqs bi_map_okI [OF pol]
      by (intro that [where st = st]) (auto simp: bi_map_ok_def bi_map_related_def bi_eq_state)
  next
    case True
    note client = bi_map_policies.swapped_client [OF pol]
    note ok = bi_map_client.bi_ok_def [OF client]
    have eqs: "bi_key_eq m = item_equal (value_policy st)" "bi_value_eq m = item_equal (key_policy st)"
      using st True by (simp_all add: bi_eq_state)
    have "policy (forward m) = inverse_policy st" using assms st True by (simp add: bi_map_ok_def map_valid_at_def)
    then have "\<And>E. bi_map_requests_at E m = failing_requests E (forward_policy st)"
      by (simp add: bi_map_requests_at_def bi_map_requests)
    then show ?thesis
      using client ok assms st True eqs bi_map_okI [OF pol]
      by (intro that [where st = st]) (auto simp: bi_map_ok_def bi_map_related_def bi_eq_state)
  qed
qed

text \<open>\<open>m'\<close> is a valid handle of the family of \<open>m\<close> that stands for the relation \<open>H\<close>.\<close>

definition bi_map_at :: "nat \<Rightarrow> 'a d7_hamt_bi_map \<Rightarrow> ('a \<Rightarrow> 'a \<Rightarrow> bool) \<Rightarrow> 'a d7_hamt_bi_map \<Rightarrow> bool" where
  "bi_map_at t m H m' \<longleftrightarrow> bi_map_ok t m' \<and> bi_map_related m' = H \<and> bi_key_eq m' = bi_key_eq m \<and>
     bi_value_eq m' = bi_value_eq m \<and> policy_inverted m' = policy_inverted m"

lemma bi_map_specs:
  assumes "bi_map_ok t m"
  defines "Rk \<equiv> bi_key_eq m" and "Rv \<equiv> bi_value_eq m" and "H \<equiv> bi_map_related m"
  shows bi_map_equivp: "equivp Rk" "equivp Rv"
    and bi_map_one_value: "H k v \<Longrightarrow> H k w \<longleftrightarrow> Rv v w" and bi_map_one_key: "H k v \<Longrightarrow> H k' v \<longleftrightarrow> Rk k k'"
    and bi_map_get: "d7_hamt_bi_map_try_get (Some m) k = Inr None \<and> (\<forall>v. \<not> H k v) \<or>
      (\<exists>v. d7_hamt_bi_map_try_get (Some m) k = Inr (Some v) \<and> (\<forall>w. H k w \<longleftrightarrow> Rv v w))"
    and bi_map_get_key: "d7_hamt_bi_map_try_get_key (Some m) v = Inr None \<and> (\<forall>k. \<not> H k v) \<or>
      (\<exists>k. d7_hamt_bi_map_try_get_key (Some m) v = Inr (Some k) \<and> (\<forall>k'. H k' v \<longleftrightarrow> Rk k k'))"
    and bi_map_set_conflict: "H k' v \<Longrightarrow> \<not> Rk k k' \<Longrightarrow>
      d7_hamt_bi_map_set (Some m) k v True E u = (Inl (Status D7_HAMT_DUPLICATE_VALUE), u)"
    and bi_map_set: "(\<And>k'. H k' v \<Longrightarrow> Rk k k') \<Longrightarrow>
      achieves E (bi_map_requests_at E m) t (d7_hamt_bi_map_set (Some m) k v True)
        (\<lambda>m' t'. bi_map_at t' m (\<lambda>k' v'. Rk k k' \<and> Rv v v' \<or> \<not> Rk k k' \<and> H k' v') m')"
    and bi_map_add_key_conflict: "H k w \<Longrightarrow>
      d7_hamt_bi_map_try_add (Some m) k v True E u = (Inr (False, D7_HAMT_BI_MAP_KEY_CONFLICT, m), u)"
    and bi_map_add_value_conflict: "(\<And>w. \<not> H k w) \<Longrightarrow> H k' v \<Longrightarrow>
      d7_hamt_bi_map_try_add (Some m) k v True E u = (Inr (False, D7_HAMT_BI_MAP_VALUE_CONFLICT, m), u)"
    and bi_map_add: "(\<And>w. \<not> H k w) \<Longrightarrow> (\<And>k'. \<not> H k' v) \<Longrightarrow>
      achieves E (bi_map_requests_at E m) t (d7_hamt_bi_map_try_add (Some m) k v True)
        (\<lambda>(added, conflict, m') t'. added \<and> conflict = D7_HAMT_BI_MAP_NO_CONFLICT \<and>
           bi_map_at t' m (\<lambda>k' v'. Rk k k' \<and> Rv v v' \<or> H k' v') m')"
    and bi_map_remove_key: "achieves E (bi_map_requests_at E m) t (d7_hamt_bi_map_try_remove_key (Some m) k True aliased)
      (\<lambda>(removed, opposite, m') t'. (removed \<longleftrightarrow> (\<exists>v. H k v)) \<and> bi_map_at t' m (\<lambda>k' v'. \<not> Rk k k' \<and> H k' v') m' \<and>
         (\<not> removed \<longrightarrow> m' = m) \<and> (if removed \<and> \<not> aliased then \<exists>v. opposite = Some v \<and> H k v else opposite = None))"
    and bi_map_remove_value: "achieves E (bi_map_requests_at E m) t (d7_hamt_bi_map_try_remove_value (Some m) v True aliased)
      (\<lambda>(removed, opposite, m') t'. (removed \<longleftrightarrow> (\<exists>k. H k v)) \<and> bi_map_at t' m (\<lambda>k' v'. \<not> Rv v v' \<and> H k' v') m' \<and>
         (\<not> removed \<longrightarrow> m' = m) \<and> (if removed \<and> \<not> aliased then \<exists>k. opposite = Some k \<and> H k v else opposite = None))"
    and bi_map_clear: "\<exists>m'. d7_hamt_bi_map_clear (Some m) True E t = (Inr m', t) \<and> bi_map_at t m (\<lambda>k v. False) m'"
    and bi_map_validate: "count (forward m) \<le> SIZE_MAX \<Longrightarrow> d7_hamt_bi_map_debug_validate (Some m) = Inr True"
proof -
  obtain validf holdsf validb holdsb st where
    client: "\<And>E. bi_map_client validf holdsf validb holdsb Rk Rv E (bi_map_requests_at E m) st (policy_inverted m)"
    and ok: "bi_map_client.bi_ok validf holdsf validb holdsb st (policy_inverted m) t H m"
    and at: "\<And>t' X m'. bi_map_client.bi_ok validf holdsf validb holdsb st (policy_inverted m) t' X m' \<Longrightarrow> bi_map_at t' m X m'"
    unfolding Rk_def Rv_def H_def bi_map_at_def by (rule bi_map_client_of [OF assms(1)]) blast
  note okD = bi_map_client.bi_okD [OF client ok]
  have f: "hash_map_client validf holdsf Rk Rv E (bi_map_requests_at E m)"
    and b: "hash_map_client validb holdsb Rv Rk E (bi_map_requests_at E m)" for E
    using client [of E] by (simp_all add: bi_map_client_def)
  show "equivp Rk" "equivp Rv" using f [unfolded hash_map_client_def] by simp_all
  show "H k v \<Longrightarrow> H k w \<longleftrightarrow> Rv v w" by (rule bi_map_client.one_value [OF client ok])
  show "H k v \<Longrightarrow> H k' v \<longleftrightarrow> Rk k k'" by (rule bi_map_client.one_key [OF client ok])
  show "d7_hamt_bi_map_try_get (Some m) k = Inr None \<and> (\<forall>v. \<not> H k v) \<or>
      (\<exists>v. d7_hamt_bi_map_try_get (Some m) k = Inr (Some v) \<and> (\<forall>w. H k w \<longleftrightarrow> Rv v w))"
    using hash_map_client.get_value [OF f okD(1), of k] by (simp add: d7_hamt_bi_map_try_get_def okD(5))
  show "d7_hamt_bi_map_try_get_key (Some m) v = Inr None \<and> (\<forall>k. \<not> H k v) \<or>
      (\<exists>k. d7_hamt_bi_map_try_get_key (Some m) v = Inr (Some k) \<and> (\<forall>k'. H k' v \<longleftrightarrow> Rk k k'))"
    using hash_map_client.get_value [OF b okD(2), of v] by (simp add: d7_hamt_bi_map_try_get_key_def okD(6))
  show "H k' v \<Longrightarrow> \<not> Rk k k' \<Longrightarrow> d7_hamt_bi_map_set (Some m) k v True E u = (Inl (Status D7_HAMT_DUPLICATE_VALUE), u)"
    by (rule bi_map_client.set_conflict [OF client ok])
  show "achieves E (bi_map_requests_at E m) t (d7_hamt_bi_map_set (Some m) k v True)
        (\<lambda>m' t'. bi_map_at t' m (\<lambda>k' v'. Rk k k' \<and> Rv v v' \<or> \<not> Rk k k' \<and> H k' v') m')" if "\<And>k'. H k' v \<Longrightarrow> Rk k k'"
    by (rule achieves_weaken [OF bi_map_client.set_spec [OF client ok that]]) (auto intro: at)
  show "H k w \<Longrightarrow> d7_hamt_bi_map_try_add (Some m) k v True E u = (Inr (False, D7_HAMT_BI_MAP_KEY_CONFLICT, m), u)"
    by (rule bi_map_client.try_add_conflict(1) [OF client ok])
  show "(\<And>w. \<not> H k w) \<Longrightarrow> H k' v \<Longrightarrow>
      d7_hamt_bi_map_try_add (Some m) k v True E u = (Inr (False, D7_HAMT_BI_MAP_VALUE_CONFLICT, m), u)"
    by (rule bi_map_client.try_add_conflict(2) [OF client ok])
  show "achieves E (bi_map_requests_at E m) t (d7_hamt_bi_map_try_add (Some m) k v True)
        (\<lambda>(added, conflict, m') t'. added \<and> conflict = D7_HAMT_BI_MAP_NO_CONFLICT \<and>
           bi_map_at t' m (\<lambda>k' v'. Rk k k' \<and> Rv v v' \<or> H k' v') m')" if "\<And>w. \<not> H k w" "\<And>k'. \<not> H k' v"
    by (rule achieves_weaken [OF bi_map_client.try_add_spec [OF client ok that]]) (auto intro: at)
  show "achieves E (bi_map_requests_at E m) t (d7_hamt_bi_map_try_remove_key (Some m) k True aliased)
      (\<lambda>(removed, opposite, m') t'. (removed \<longleftrightarrow> (\<exists>v. H k v)) \<and> bi_map_at t' m (\<lambda>k' v'. \<not> Rk k k' \<and> H k' v') m' \<and>
         (\<not> removed \<longrightarrow> m' = m) \<and> (if removed \<and> \<not> aliased then \<exists>v. opposite = Some v \<and> H k v else opposite = None))"
    by (rule achieves_weaken [OF bi_map_client.remove_key_spec [OF client ok]]) (auto intro: at split: if_splits)
  show "achieves E (bi_map_requests_at E m) t (d7_hamt_bi_map_try_remove_value (Some m) v True aliased)
      (\<lambda>(removed, opposite, m') t'. (removed \<longleftrightarrow> (\<exists>k. H k v)) \<and> bi_map_at t' m (\<lambda>k' v'. \<not> Rv v v' \<and> H k' v') m' \<and>
         (\<not> removed \<longrightarrow> m' = m) \<and> (if removed \<and> \<not> aliased then \<exists>k. opposite = Some k \<and> H k v else opposite = None))"
    by (rule achieves_weaken [OF bi_map_client.remove_value_spec [OF client ok]]) (auto intro: at split: if_splits)
  show "\<exists>m'. d7_hamt_bi_map_clear (Some m) True E t = (Inr m', t) \<and> bi_map_at t m (\<lambda>k v. False) m'"
    using bi_map_client.clear_spec [OF client ok] at by blast
  show "count (forward m) \<le> SIZE_MAX \<Longrightarrow> d7_hamt_bi_map_debug_validate (Some m) = Inr True"
    by (rule bi_map_client.validate_spec [OF client ok])
qed

section \<open>Creation\<close>

lemma create_ok:
  assumes "item_policy (normalize_set_policy ptr kp)" and "item_policy (normalize_set_policy ptr vp)"
  shows "achieves E {i. \<not> E i} t (d7_hamt_bi_map_create ptr kp vp True)
    (\<lambda>m t'. bi_map_ok t' m \<and> (\<forall>k v. \<not> bi_map_related m k v))"
  unfolding d7_hamt_bi_map_create_def not_True_eq_False if_False Let_def
proof (rule achieves_andthen [OF achieves_allocate [where Q = "\<lambda>a t'. True"]])
  fix a t1
  let ?st = "\<lparr>state_addr = a, key_policy = normalize_set_policy ptr kp, value_policy = normalize_set_policy ptr vp\<rparr>"
  let ?m = "\<lparr>forward = d7_hamt_map_create ptr (Some (policy_arg (forward_policy ?st))),
      backward = d7_hamt_map_create ptr (Some (policy_arg (inverse_policy ?st))), policy_state = Some ?st, policy_inverted = False\<rparr>"
  have valid: "map_valid_at p t1 (d7_hamt_map_create_from p)" for p :: "('a, 'a) d7_hamt_policy"
    using map_create_ok [of "{}" t1 p] by (auto simp: map_valid_at_def heap_def d7_hamt_map_create_from_def)
  have count: "count (d7_hamt_map_create_from p) = 0" for p :: "('a, 'a) d7_hamt_policy" by (simp add: d7_hamt_map_create_from_def)
  have "bi_map_policies ?st" using assms by (simp add: bi_map_policies_def)
  then have "bi_map_ok t1 ?m" "bi_map_related ?m = (\<lambda>k v. False)"
    by (rule bi_map_okI [where H = "\<lambda>k v. False" and t = t1]; simp add: create_policy_arg valid map_holds_def count)+
  then show "achieves E {i. \<not> E i} t1 (ret ?m) (\<lambda>m t'. bi_map_ok t' m \<and> (\<forall>k v. \<not> bi_map_related m k v))"
    by (auto intro: achieves_ret)
qed simp_all

text \<open>A handle for the witnesses: the empty bidirectional map of the default policies.\<close>

definition empty_bi_map :: "64 word d7_hamt_bi_map" where
  "empty_bi_map =
     (let st = \<lparr>state_addr = 0, key_policy = normalize_set_policy id None, value_policy = normalize_set_policy id None\<rparr>
      in \<lparr>forward = d7_hamt_map_create_from (forward_policy st), backward = d7_hamt_map_create_from (inverse_policy st),
          policy_state = Some st, policy_inverted = False\<rparr>)"

lemma empty_bi_map_run: "d7_hamt_bi_map_create id None None True (\<lambda>_. True) 0 = (Inr empty_bi_map, 1)"
  by (simp add: d7_hamt_bi_map_create_def empty_bi_map_def act_simps create_policy_arg Let_def)

lemma empty_bi_map_ok: "bi_map_ok 1 empty_bi_map" "bi_map_related empty_bi_map k v \<longleftrightarrow> False"
  using achieves_result [OF create_ok [OF default_items.item_policy_axioms default_items.item_policy_axioms] empty_bi_map_run]
  by simp_all

lemma empty_bi_map_eq: "bi_key_eq empty_bi_map a b \<longleftrightarrow> a = b" "bi_value_eq empty_bi_map a b \<longleftrightarrow> a = b"
  by (simp_all add: bi_key_eq_def bi_value_eq_def empty_bi_map_def Let_def item_defs policy_defs)

section \<open>Properties\<close>

text \<open>C23: \<open>d7_hamt_bi_map_set\<close> rebinds a key in both directions at once. When the value already belongs to another
  key it returns \<open>D7_HAMT_DUPLICATE_VALUE\<close> and makes no memory request; otherwise it fails only where memory is
  refused, the published handle relates the key to the value and to nothing else, everything else stays
  related as it was, and forward and inverse map agree again.\<close>

theorem bi_map_set_correct:
  assumes "bi_map_ok t m"
  shows "if \<exists>k'. bi_map_related m k' v \<and> \<not> bi_key_eq m k k'
    then d7_hamt_bi_map_set (Some m) k v True E t = (Inl (Status D7_HAMT_DUPLICATE_VALUE), t)
    else achieves E (bi_map_requests_at E m) t (d7_hamt_bi_map_set (Some m) k v True)
      (\<lambda>m' t'. bi_map_at t' m (\<lambda>k' v'. bi_key_eq m k k' \<and> bi_value_eq m v v' \<or>
         \<not> bi_key_eq m k k' \<and> bi_map_related m k' v') m')"
proof (cases "\<exists>k'. bi_map_related m k' v \<and> \<not> bi_key_eq m k k'")
  case True
  then show ?thesis using bi_map_set_conflict [OF assms] by auto
next
  case False
  then show ?thesis unfolding if_not_P [OF False] by (intro bi_map_set [OF assms]) blast
qed

theorem bi_map_set_correct_witness:
  "achieves (\<lambda>i. i < 4) (bi_map_requests_at (\<lambda>i. i < 4) empty_bi_map) 1 (d7_hamt_bi_map_set (Some empty_bi_map) 5 7 True)
      (\<lambda>m' t'. bi_map_at t' empty_bi_map (\<lambda>k' v'. 5 = k' \<and> 7 = v') m')"
  using bi_map_set_correct [OF empty_bi_map_ok(1), of 7 5 "\<lambda>i. i < 4"] by (simp add: empty_bi_map_ok(2) empty_bi_map_eq)

text \<open>C24: \<open>d7_hamt_bi_map_try_add\<close> adds a pair only when neither its key nor its value occurs. It names the conflict, a
  key conflict first, and then publishes the same handle without a memory request; otherwise it fails only
  where memory is refused, and the pair is related in both directions. \<open>d7_hamt_bi_map_add\<close> turns the conflicts
  into \<open>D7_HAMT_DUPLICATE_KEY\<close> and \<open>D7_HAMT_DUPLICATE_VALUE\<close>.\<close>

theorem bi_map_add_correct:
  assumes "bi_map_ok t m"
  shows "if \<exists>w. bi_map_related m k w then
      d7_hamt_bi_map_try_add (Some m) k v True E t = (Inr (False, D7_HAMT_BI_MAP_KEY_CONFLICT, m), t) \<and>
      d7_hamt_bi_map_add (Some m) k v True E t = (Inl (Status D7_HAMT_DUPLICATE_KEY), t)
    else if \<exists>k'. bi_map_related m k' v then
      d7_hamt_bi_map_try_add (Some m) k v True E t = (Inr (False, D7_HAMT_BI_MAP_VALUE_CONFLICT, m), t) \<and>
      d7_hamt_bi_map_add (Some m) k v True E t = (Inl (Status D7_HAMT_DUPLICATE_VALUE), t)
    else
      achieves E (bi_map_requests_at E m) t (d7_hamt_bi_map_try_add (Some m) k v True)
        (\<lambda>(added, conflict, m') t'. added \<and> conflict = D7_HAMT_BI_MAP_NO_CONFLICT \<and>
           bi_map_at t' m (\<lambda>k' v'. bi_key_eq m k k' \<and> bi_value_eq m v v' \<or> bi_map_related m k' v') m') \<and>
      achieves E (bi_map_requests_at E m) t (d7_hamt_bi_map_add (Some m) k v True)
        (\<lambda>m' t'. bi_map_at t' m (\<lambda>k' v'. bi_key_eq m k k' \<and> bi_value_eq m v v' \<or> bi_map_related m k' v') m')"
proof -
  consider (key) w where "bi_map_related m k w" | (val) k' where "\<And>w. \<not> bi_map_related m k w" "bi_map_related m k' v"
    | (free) "\<And>w. \<not> bi_map_related m k w" "\<And>k'. \<not> bi_map_related m k' v" by blast
  then show ?thesis
  proof cases
    case (key w)
    then show ?thesis using bi_map_add_key_conflict [OF assms key, of v E t]
      by (auto simp: d7_hamt_bi_map_add_def andthen_def fail_def)
  next
    case (val k')
    then show ?thesis using bi_map_add_value_conflict [OF assms val, of E t]
      by (auto simp: d7_hamt_bi_map_add_def andthen_def fail_def)
  next
    case free
    note add = bi_map_add [OF assms free]
    have "achieves E (bi_map_requests_at E m) t (d7_hamt_bi_map_add (Some m) k v True)
        (\<lambda>m' t'. bi_map_at t' m (\<lambda>k' v'. bi_key_eq m k k' \<and> bi_value_eq m v v' \<or> bi_map_related m k' v') m')"
      unfolding d7_hamt_bi_map_add_def by (rule achieves_andthen [OF add]) (auto intro!: achieves_ret)
    then show ?thesis using add free by simp
  qed
qed

theorem bi_map_add_correct_witness:
  "achieves (\<lambda>i. i < 4) (bi_map_requests_at (\<lambda>i. i < 4) empty_bi_map) 1 (d7_hamt_bi_map_add (Some empty_bi_map) 5 7 True)
      (\<lambda>m' t'. bi_map_at t' empty_bi_map (\<lambda>k' v'. 5 = k' \<and> 7 = v') m')"
  using bi_map_add_correct [OF empty_bi_map_ok(1), of 5 7 "\<lambda>i. i < 4"] by (simp add: empty_bi_map_ok(2) empty_bi_map_eq)

text \<open>C25: removing by key and removing by value take the pair out of both directions and leave every other pair; the
  flag reports whether there was one, the opposite item is reported into a handle of its own, and clearing
  leaves no pair. Only the refusal of memory makes a removal fail.\<close>

theorem bi_map_remove_correct:
  assumes "bi_map_ok t m"
  shows "achieves E (bi_map_requests_at E m) t (d7_hamt_bi_map_try_remove_key (Some m) k True aliased)
      (\<lambda>(removed, opposite, m') t'. (removed \<longleftrightarrow> (\<exists>v. bi_map_related m k v)) \<and>
         bi_map_at t' m (\<lambda>k' v'. \<not> bi_key_eq m k k' \<and> bi_map_related m k' v') m' \<and> (\<not> removed \<longrightarrow> m' = m) \<and>
         (if removed \<and> \<not> aliased then \<exists>v. opposite = Some v \<and> bi_map_related m k v else opposite = None)) \<and>
    achieves E (bi_map_requests_at E m) t (d7_hamt_bi_map_try_remove_value (Some m) v True aliased)
      (\<lambda>(removed, opposite, m') t'. (removed \<longleftrightarrow> (\<exists>k. bi_map_related m k v)) \<and>
         bi_map_at t' m (\<lambda>k' v'. \<not> bi_value_eq m v v' \<and> bi_map_related m k' v') m' \<and> (\<not> removed \<longrightarrow> m' = m) \<and>
         (if removed \<and> \<not> aliased then \<exists>k. opposite = Some k \<and> bi_map_related m k v else opposite = None)) \<and>
    (\<exists>m'. d7_hamt_bi_map_clear (Some m) True E t = (Inr m', t) \<and> bi_map_at t m (\<lambda>k v. False) m')"
  using bi_map_remove_key [OF assms] bi_map_remove_value [OF assms] bi_map_clear [OF assms] by blast

theorem bi_map_remove_correct_witness:
  "achieves (\<lambda>_. False) (bi_map_requests_at (\<lambda>_. False) empty_bi_map) 1 (d7_hamt_bi_map_try_remove_key (Some empty_bi_map) 5 True False)
      (\<lambda>(removed, opposite, m') t'. \<not> removed \<and> m' = empty_bi_map \<and> opposite = None)"
  by (rule achieves_weaken [OF bi_map_remove_correct [OF empty_bi_map_ok(1), of "\<lambda>_. False" 5 False, THEN conjunct1]])
    (auto simp: empty_bi_map_ok(2))

lemma bi_map_inverse_ok:
  assumes "bi_map_ok t m"
  shows "\<exists>m'. d7_hamt_bi_map_inverse (Some m) True E u = (Inr m', u) \<and> bi_map_ok t m' \<and>
    (\<forall>k v. bi_map_related m' v k \<longleftrightarrow> bi_map_related m k v) \<and> d7_hamt_bi_map_inverse (Some m') True E u = (Inr m, u) \<and>
    d7_hamt_bi_map_count (Some m') = d7_hamt_bi_map_count (Some m)"
proof -
  obtain st where st: "policy_state m = Some st" using assms by (auto simp: bi_map_ok_def split: option.splits)
  define m' where "m' = \<lparr>forward = backward m, backward = forward m, policy_state = policy_state m, policy_inverted = (\<not> policy_inverted m)\<rparr>"
  have fields: "forward m' = backward m" "backward m' = forward m" "policy_state m' = policy_state m" "policy_inverted m' = (\<not> policy_inverted m)"
    by (simp_all add: m'_def)
  have eqs: "bi_key_eq m' = bi_value_eq m" "bi_value_eq m' = bi_key_eq m"
    using st by (auto simp: fields bi_key_eq_def bi_value_eq_def active_keys_equal_def active_values_equal_def fun_eq_iff)
  have "d7_hamt_bi_map_inverse (Some m) True E u = (Inr m', u)" "d7_hamt_bi_map_inverse (Some m') True E u = (Inr m, u)"
    using st by (simp_all add: d7_hamt_bi_map_inverse_def with_bi_map_def ret_def m'_def)
  moreover have "bi_map_related m' v k \<longleftrightarrow> bi_map_related m k v" for k v
    using assms st by (simp add: bi_map_ok_def bi_map_related_def [of m'] eqs fields)
  moreover from this have "bi_map_ok t m'"
    using assms st by (auto simp: bi_map_ok_def eqs fields bi_map_related_def [of m] split: if_splits)
  moreover have "d7_hamt_bi_map_count (Some m') = d7_hamt_bi_map_count (Some m)"
    using assms st by (simp add: bi_map_ok_def fields d7_hamt_bi_map_count_def d7_hamt_map_count_def)
  ultimately show ?thesis by blast
qed

text \<open>C26: the two directions are inverse to each other. Looking a key up and looking up the value found leads back
  to an equal key, and the other way round; \<open>d7_hamt_bi_map_inverse\<close> publishes a valid handle of the converse
  relation with the same count, needs no memory, and applied twice gives the handle back; the validator
  accepts the handle.\<close>

theorem bi_map_roundtrip:
  assumes "bi_map_ok t m" and "d7_hamt_bi_map_count (Some m) \<le> SIZE_MAX"
  shows "(\<forall>k v. d7_hamt_bi_map_try_get (Some m) k = Inr (Some v) \<longrightarrow>
      (\<exists>k'. d7_hamt_bi_map_try_get_key (Some m) v = Inr (Some k') \<and> bi_key_eq m k' k)) \<and>
    (\<forall>k v. d7_hamt_bi_map_try_get_key (Some m) v = Inr (Some k) \<longrightarrow>
      (\<exists>v'. d7_hamt_bi_map_try_get (Some m) k = Inr (Some v') \<and> bi_value_eq m v' v)) \<and>
    (\<exists>m'. d7_hamt_bi_map_inverse (Some m) True E u = (Inr m', u) \<and> bi_map_ok t m' \<and>
      (\<forall>k v. bi_map_related m' v k \<longleftrightarrow> bi_map_related m k v) \<and> d7_hamt_bi_map_inverse (Some m') True E u = (Inr m, u) \<and>
      d7_hamt_bi_map_count (Some m') = d7_hamt_bi_map_count (Some m)) \<and>
    d7_hamt_bi_map_debug_validate (Some m) = Inr True"
proof -
  note eqv = bi_map_equivp [OF assms(1)]
  have "\<exists>k'. d7_hamt_bi_map_try_get_key (Some m) v = Inr (Some k') \<and> bi_key_eq m k' k"
    if "d7_hamt_bi_map_try_get (Some m) k = Inr (Some v)" for k v
  proof -
    have "bi_map_related m k v" using bi_map_get [OF assms(1), of k] that equivp_reflp [OF eqv(2)] by auto
    then show ?thesis using bi_map_get_key [OF assms(1), of v] by blast
  qed
  moreover have "\<exists>v'. d7_hamt_bi_map_try_get (Some m) k = Inr (Some v') \<and> bi_value_eq m v' v"
    if "d7_hamt_bi_map_try_get_key (Some m) v = Inr (Some k)" for k v
  proof -
    have "bi_map_related m k v" using bi_map_get_key [OF assms(1), of v] that equivp_reflp [OF eqv(1)] by auto
    then show ?thesis using bi_map_get [OF assms(1), of k] by blast
  qed
  moreover have "d7_hamt_bi_map_debug_validate (Some m) = Inr True"
    using bi_map_validate [OF assms(1)] assms(2) by (simp add: d7_hamt_bi_map_count_def d7_hamt_map_count_def)
  ultimately show ?thesis using bi_map_inverse_ok [OF assms(1)] by blast
qed

theorem bi_map_roundtrip_witness:
  "\<exists>m'. d7_hamt_bi_map_inverse (Some empty_bi_map) True (\<lambda>_. False) 9 = (Inr m', 9) \<and>
     d7_hamt_bi_map_inverse (Some m') True (\<lambda>_. False) 9 = (Inr empty_bi_map, 9)"
proof -
  have "d7_hamt_bi_map_count (Some empty_bi_map) \<le> SIZE_MAX"
    by (simp add: d7_hamt_bi_map_count_def d7_hamt_map_count_def empty_bi_map_def d7_hamt_map_create_from_def Let_def)
  from bi_map_roundtrip [OF empty_bi_map_ok(1) this, of "\<lambda>_. False" 9] show ?thesis by blast
qed

section \<open>A null result handle\<close>

text \<open>C40: every other update refuses a null result handle with \<open>D7_HAMT_INVALID_ARGUMENT\<close>; \<open>d7_hamt_bi_map_add\<close> builds
  the new maps and then writes the handle through the null pointer, which is a fault whenever the pair can be
  added and memory suffices.\<close>

theorem bi_map_add_null_result:
  assumes "bi_map_ok t m" and "\<And>w. \<not> bi_map_related m k w" "\<And>k'. \<not> bi_map_related m k' v"
    and "\<And>i. t \<le> i \<Longrightarrow> i \<notin> bi_map_requests_at E m"
  shows "\<exists>t'. d7_hamt_bi_map_add (Some m) k v False E t = (Inl Fault, t')"
proof -
  obtain x t' where "d7_hamt_bi_map_try_add (Some m) k v True E t = (Inr x, t')" "fst x"
    using achieves_total [OF bi_map_add [OF assms(1-3)] assms(4)] by fastforce
  then show ?thesis by (cases x) (simp add: d7_hamt_bi_map_add_def andthen_def fail_def)
qed

theorem bi_map_add_null_result_witness:
  "\<exists>t'. d7_hamt_bi_map_add (Some empty_bi_map) 5 7 False (\<lambda>_. True) 1 = (Inl Fault, t')"
proof (rule bi_map_add_null_result [OF empty_bi_map_ok(1)])
  show "i \<notin> bi_map_requests_at (\<lambda>_. True) empty_bi_map" for i
    by (simp add: bi_map_requests_at_def empty_bi_map_def Let_def d7_hamt_map_create_from_def failing_requests_def bi_map_policy_calls
        item_defs policy_defs)
qed (simp_all add: empty_bi_map_ok(2))

end
