(* ===== verification/Hamt_Factory.thy ===== *)
theory Hamt_Factory
  imports Hamt_Client
begin

text \<open>
  Updates of a map through factories: \<open>d7_hamt_map_get_or_add\<close> and \<open>d7_hamt_map_add_or_update\<close>. The code
  descends once, asks a factory for the value at the place where the key is or belongs, and returns the
  value that was stored (the retained copy, not the candidate) together with the new root. It does so with a
  second copy of the insertion routine; the theorem of this theory is that the copy does what looking up,
  choosing and inserting would do, request by request.

  A factory is a function from its arguments to a status or a value. The context pointer it is called with
  is part of the function.
\<close>

datatype d7_hamt_factory_operation = D7_HAMT_FACTORY_GET_OR_ADD | D7_HAMT_FACTORY_ADD_OR_UPDATE

record ('k, 'v) d7_hamt_factory_selection =
  operation :: d7_hamt_factory_operation
  add_factory :: "('k \<Rightarrow> d7_hamt_status + 'v) option"
  update_factory :: "('k \<Rightarrow> 'v \<Rightarrow> d7_hamt_status + 'v) option"

section \<open>The operations of the code\<close>

definition call_factory :: "d7_hamt_status + 'v \<Rightarrow> failure + 'v" where
  "call_factory r = (case r of Inl status \<Rightarrow> Inl (Status status) | Inr v \<Rightarrow> Inr v)"

definition d7_hamt_select_added_value :: "('k, 'v) d7_hamt_factory_selection \<Rightarrow> 'k \<Rightarrow> failure + 'v" where
  "d7_hamt_select_added_value sel key =
     (case add_factory sel of None \<Rightarrow> Inl Fault | Some f \<Rightarrow> call_factory (f key))"

definition d7_hamt_select_present_value :: "('k, 'v) d7_hamt_factory_selection \<Rightarrow> 'k \<Rightarrow> 'v \<Rightarrow> failure + 'v" where
  "d7_hamt_select_present_value sel key stored_value =
     (if operation sel = D7_HAMT_FACTORY_GET_OR_ADD then Inr stored_value
      else (case update_factory sel of None \<Rightarrow> Inl Fault | Some f \<Rightarrow> call_factory (f key stored_value)))"

text \<open>Reading back the value a freshly created node stores.\<close>

fun leaf_value :: "('k, 'v) d7_hamt_node \<Rightarrow> failure + 'v" where
  "leaf_value (Leaf _ _ _ v) = Inr v"
| "leaf_value _ = Inl Fault"

fun collision_value :: "('k, 'v) d7_hamt_node \<Rightarrow> nat \<Rightarrow> failure + 'v" where
  "collision_value (Collision _ _ es) i = (case nth_opt es i of None \<Rightarrow> Inl Fault | Some e \<Rightarrow> Inr (entry_value e))"
| "collision_value _ _ = Inl Fault"

fun last_value :: "('k, 'v) d7_hamt_node \<Rightarrow> failure + 'v" where
  "last_value (Collision a h es) = collision_value (Collision a h es) (length es - 1)"
| "last_value _ = Inl Fault"

fun inline_value :: "('k, 'v) d7_hamt_node \<Rightarrow> nat \<Rightarrow> failure + 'v" where
  "inline_value (Bitmap_Indexed _ _ _ data _ _) i =
     (case nth_opt data i of None \<Rightarrow> Inl Fault | Some e \<Rightarrow> Inr (entry_value (inline_entry e)))"
| "inline_value _ _ = Inl Fault"

definition reading :: "'n act \<Rightarrow> ('n \<Rightarrow> failure + 'v) \<Rightarrow> ('n \<times> 'v) act" where
  "reading f r = andthen f (\<lambda>n. andthen (lift_res (r n)) (\<lambda>v. ret (n, v)))"

function d7_hamt_merge_hash_nodes_selected ::
  "('k, 'v) d7_hamt_policy \<Rightarrow> ('k, 'v) d7_hamt_node \<Rightarrow> ('k, 'v) d7_hamt_node \<Rightarrow> nat
     \<Rightarrow> (('k, 'v) d7_hamt_node \<times> 'v) act" where
  "d7_hamt_merge_hash_nodes_selected p left right shift =
     (case (d7_hamt_hash_node_hash left, right) of
        (Some left_hash, Leaf _ right_hash rk rv) \<Rightarrow>
          if left_hash = right_hash then reading (d7_hamt_collision_create p left right) last_value
          else if 32 \<le> shift then fail (Status D7_HAMT_INVALID_ARGUMENT)
          else
            (let left_index = d7_hamt_index left_hash shift;
                 right_index = d7_hamt_index right_hash shift;
                 left_bit = d7_hamt_bit left_index;
                 right_bit = d7_hamt_bit right_index
             in if left_index = right_index then
                  andthen (d7_hamt_merge_hash_nodes_selected p left right (shift + 5)) (\<lambda>(child, child_selected).
                  andthen (d7_hamt_bitmap_create 0 left_bit [] [child]) (\<lambda>n. ret (n, child_selected)))
                else
                  (case left of
                     Leaf _ _ lk lv \<Rightarrow>
                       let l = Inline left_hash (Entry lk lv); r = Inline right_hash (Entry rk rv);
                           left_slot = (if left_index < right_index then 0 else 1); selected_slot = 1 - left_slot
                       in reading (d7_hamt_bitmap_copy_create p (left_bit OR right_bit) 0
                            (if left_index < right_index then [l, r] else [r, l]) []) (\<lambda>n. inline_value n selected_slot)
                   | _ \<Rightarrow>
                       reading (d7_hamt_bitmap_copy_create p right_bit left_bit
                         [Inline right_hash (Entry rk rv)] [left]) (\<lambda>n. inline_value n 0)))
      | _ \<Rightarrow> fail Fault)"
  by pat_completeness auto
termination
  by (relation "measure (\<lambda>(p, left, right, shift). 37 - shift)") auto

declare d7_hamt_merge_hash_nodes_selected.simps [simp del]

text \<open>The key is absent from a leaf or bucket: choose a value, make a leaf of it and merge.\<close>

definition factory_new_leaf ::
  "('k, 'v) d7_hamt_policy \<Rightarrow> ('k, 'v) d7_hamt_node \<Rightarrow> 'k \<Rightarrow> u32 \<Rightarrow> nat \<Rightarrow> ('k, 'v) d7_hamt_factory_selection
     \<Rightarrow> (bool \<times> ('k, 'v) d7_hamt_node \<times> 'v) act" where
  "factory_new_leaf p node key hsh shift sel =
     andthen (lift_res (d7_hamt_select_added_value sel key)) (\<lambda>candidate.
     andthen (d7_hamt_leaf_create p hsh key candidate) (\<lambda>right.
     andthen (d7_hamt_merge_hash_nodes_selected p node right shift) (\<lambda>(n, v). ret (True, n, v))))"

text \<open>The key is present: choose a value, keep the node when it is equal, and otherwise replace it.\<close>

definition factory_present ::
  "('k, 'v) d7_hamt_policy \<Rightarrow> ('k, 'v) d7_hamt_node \<Rightarrow> 'k \<Rightarrow> 'v \<Rightarrow> ('k, 'v) d7_hamt_factory_selection
     \<Rightarrow> ('v \<Rightarrow> (('k, 'v) d7_hamt_node \<times> 'v) act) \<Rightarrow> (bool \<times> ('k, 'v) d7_hamt_node \<times> 'v) act" where
  "factory_present p node key stored_value sel replace =
     andthen (lift_res (d7_hamt_select_present_value sel key stored_value)) (\<lambda>candidate.
     if candidate = stored_value \<or> d7_hamt_values_equal p stored_value candidate then ret (False, node, stored_value)
     else andthen (replace candidate) (\<lambda>(n, v). ret (False, n, v)))"

definition factory_leaf ::
  "('k, 'v) d7_hamt_policy \<Rightarrow> addr \<Rightarrow> u32 \<Rightarrow> 'k \<Rightarrow> 'v \<Rightarrow> 'k \<Rightarrow> u32 \<Rightarrow> nat \<Rightarrow> ('k, 'v) d7_hamt_factory_selection
     \<Rightarrow> (bool \<times> ('k, 'v) d7_hamt_node \<times> 'v) act" where
  "factory_leaf p a h k0 v0 key hsh shift sel =
     (if h = hsh \<and> d7_hamt_keys_equal p k0 key then
        factory_present p (Leaf a h k0 v0) key v0 sel
          (\<lambda>candidate. reading (d7_hamt_leaf_create p h k0 candidate) leaf_value)
      else factory_new_leaf p (Leaf a h k0 v0) key hsh shift sel)"

definition factory_collision ::
  "('k, 'v) d7_hamt_policy \<Rightarrow> addr \<Rightarrow> u32 \<Rightarrow> ('k, 'v) d7_hamt_entry list \<Rightarrow> 'k \<Rightarrow> u32 \<Rightarrow> nat
     \<Rightarrow> ('k, 'v) d7_hamt_factory_selection \<Rightarrow> (bool \<times> ('k, 'v) d7_hamt_node \<times> 'v) act" where
  "factory_collision p a h es key hsh shift sel =
     (if h \<noteq> hsh then factory_new_leaf p (Collision a h es) key hsh shift sel
      else
        (case first_index (entry_matches p key) es of
           Some i \<Rightarrow>
             factory_present p (Collision a h es) key (entry_value (es ! i)) sel
               (\<lambda>candidate. reading (collision_fill p h (es[i := Entry (entry_key (es ! i)) candidate])) (\<lambda>n. collision_value n i))
         | None \<Rightarrow>
             andthen (lift_res (d7_hamt_select_added_value sel key)) (\<lambda>candidate.
             andthen (reading (collision_fill p h (es @ [Entry key candidate])) last_value) (\<lambda>(n, v). ret (True, n, v)))))"

definition factory_inline ::
  "('k, 'v) d7_hamt_policy \<Rightarrow> ('k, 'v) d7_hamt_node \<Rightarrow> u32 \<Rightarrow> u32 \<Rightarrow> ('k, 'v) d7_hamt_inline_entry list
     \<Rightarrow> ('k, 'v) d7_hamt_node list \<Rightarrow> 'k \<Rightarrow> u32 \<Rightarrow> nat \<Rightarrow> ('k, 'v) d7_hamt_factory_selection
     \<Rightarrow> (bool \<times> ('k, 'v) d7_hamt_node \<times> 'v) act" where
  "factory_inline p node dm nm data children key hsh shift sel =
     (let selected_bit = d7_hamt_bit (d7_hamt_index hsh shift);
          data_slot = d7_hamt_slot dm selected_bit
      in case nth_opt data data_slot of
           None \<Rightarrow> fail Fault
         | Some existing \<Rightarrow>
             let k0 = entry_key (inline_entry existing); v0 = entry_value (inline_entry existing)
             in if inline_hash existing = hsh \<and> d7_hamt_keys_equal p k0 key then
                  factory_present p node key v0 sel
                    (\<lambda>candidate. reading (d7_hamt_bitmap_copy_create p dm nm
                       (data[data_slot := Inline (inline_hash existing) (Entry k0 candidate)]) children) (\<lambda>n. inline_value n data_slot))
                else
                  andthen (lift_res (d7_hamt_select_added_value sel key)) (\<lambda>candidate.
                  andthen (d7_hamt_leaf_create p (inline_hash existing) k0 v0) (\<lambda>left.
                  andthen (d7_hamt_leaf_create p hsh key candidate) (\<lambda>right.
                  andthen (d7_hamt_merge_hash_nodes_selected p left right (shift + 5)) (\<lambda>(child, child_selected).
                  andthen (d7_hamt_bitmap_copy_create p (dm AND NOT selected_bit) (nm OR selected_bit)
                             (remove_at data_slot data)
                             (insert_at (d7_hamt_slot nm selected_bit) child children))
                    (\<lambda>n. ret (True, n, child_selected)))))))"

definition factory_vacant ::
  "('k, 'v) d7_hamt_policy \<Rightarrow> u32 \<Rightarrow> u32 \<Rightarrow> ('k, 'v) d7_hamt_inline_entry list \<Rightarrow> ('k, 'v) d7_hamt_node list
     \<Rightarrow> 'k \<Rightarrow> u32 \<Rightarrow> nat \<Rightarrow> ('k, 'v) d7_hamt_factory_selection \<Rightarrow> (bool \<times> ('k, 'v) d7_hamt_node \<times> 'v) act" where
  "factory_vacant p dm nm data children key hsh shift sel =
     andthen (lift_res (d7_hamt_select_added_value sel key)) (\<lambda>candidate.
     let selected_bit = d7_hamt_bit (d7_hamt_index hsh shift); data_slot = d7_hamt_slot dm selected_bit
     in andthen (reading (d7_hamt_bitmap_copy_create p (dm OR selected_bit) nm
                    (insert_at data_slot (Inline hsh (Entry key candidate)) data) children) (\<lambda>n. inline_value n data_slot))
          (\<lambda>(n, v). ret (True, n, v)))"

function d7_hamt_node_factory_update ::
  "('k, 'v) d7_hamt_policy \<Rightarrow> ('k, 'v) d7_hamt_node \<Rightarrow> 'k \<Rightarrow> u32 \<Rightarrow> nat \<Rightarrow> ('k, 'v) d7_hamt_factory_selection
     \<Rightarrow> (bool \<times> ('k, 'v) d7_hamt_node \<times> 'v) act" where
  "d7_hamt_node_factory_update p (Leaf a h k0 v0) key hsh shift sel = factory_leaf p a h k0 v0 key hsh shift sel"
| "d7_hamt_node_factory_update p (Collision a h es) key hsh shift sel = factory_collision p a h es key hsh shift sel"
| "d7_hamt_node_factory_update p (Bitmap_Indexed a dm nm data children n) key hsh shift sel =
     (let selected_bit = d7_hamt_bit (d7_hamt_index hsh shift)
      in if dm AND selected_bit \<noteq> 0 then
           factory_inline p (Bitmap_Indexed a dm nm data children n) dm nm data children key hsh shift sel
         else if nm AND selected_bit = 0 then factory_vacant p dm nm data children key hsh shift sel
         else
           (let selected_slot = d7_hamt_slot nm selected_bit
            in case nth_opt children selected_slot of
                 None \<Rightarrow> fail Fault
               | Some child \<Rightarrow>
                   andthen (d7_hamt_node_factory_update p child key hsh (shift + 5) sel)
                     (\<lambda>(added, new_child, child_selected).
                        if node_addr new_child = node_addr child
                        then ret (added, Bitmap_Indexed a dm nm data children n, child_selected)
                        else
                          andthen (d7_hamt_bitmap_copy_create p dm nm data (children[selected_slot := new_child]))
                            (\<lambda>n'. ret (added, n', child_selected)))))"
  by pat_completeness auto
termination
  by (relation "measure (\<lambda>(p, n, _). size n)") (auto dest: nth_opt_size)

definition d7_hamt_map_factory_update ::
  "('k, 'v) d7_hamt_map option \<Rightarrow> 'k \<Rightarrow> ('k, 'v) d7_hamt_factory_selection option \<Rightarrow> bool
     \<Rightarrow> (('k, 'v) d7_hamt_map \<times> 'v) act" where
  "d7_hamt_map_factory_update mp key selection result =
     (case (mp, selection) of
        (Some m, Some sel) \<Rightarrow>
          if \<not> result \<or> add_factory sel = None
             \<or> (operation sel = D7_HAMT_FACTORY_ADD_OR_UPDATE \<and> update_factory sel = None)
          then fail (Status D7_HAMT_INVALID_ARGUMENT)
          else
            (let p = policy m; hsh = d7_hamt_get_hash p key
             in andthen
                  (case root m of
                     None \<Rightarrow>
                       andthen (lift_res (d7_hamt_select_added_value sel key)) (\<lambda>candidate.
                       andthen (reading (d7_hamt_leaf_create p hsh key candidate) leaf_value) (\<lambda>(n, v). ret (True, n, v)))
                   | Some n \<Rightarrow> d7_hamt_node_factory_update p n key hsh 0 sel)
                  (\<lambda>(added, new_root, selected).
                     ret (\<lparr>root = Some new_root, count = count m + (if added then 1 else 0), policy = p\<rparr>, selected)))
      | _ \<Rightarrow> fail (Status D7_HAMT_INVALID_ARGUMENT))"

definition d7_hamt_map_get_or_add ::
  "('k, 'v) d7_hamt_map option \<Rightarrow> 'k \<Rightarrow> ('k \<Rightarrow> d7_hamt_status + 'v) option \<Rightarrow> bool \<Rightarrow> (('k, 'v) d7_hamt_map \<times> 'v) act" where
  "d7_hamt_map_get_or_add mp key add result =
     d7_hamt_map_factory_update mp key
       (Some \<lparr>operation = D7_HAMT_FACTORY_GET_OR_ADD, add_factory = add, update_factory = None\<rparr>) result"

definition d7_hamt_map_add_or_update ::
  "('k, 'v) d7_hamt_map option \<Rightarrow> 'k \<Rightarrow> ('k \<Rightarrow> d7_hamt_status + 'v) option
     \<Rightarrow> ('k \<Rightarrow> 'v \<Rightarrow> d7_hamt_status + 'v) option \<Rightarrow> bool \<Rightarrow> (('k, 'v) d7_hamt_map \<times> 'v) act" where
  "d7_hamt_map_add_or_update mp key add update result =
     d7_hamt_map_factory_update mp key
       (Some \<lparr>operation = D7_HAMT_FACTORY_ADD_OR_UPDATE, add_factory = add, update_factory = update\<rparr>) result"

section \<open>Runs that follow another run\<close>

text \<open>\<open>f\<close> makes the requests of \<open>g\<close>, fails as \<open>g\<close> fails, and returns a result related to that of \<open>g\<close>.\<close>

definition follows :: "environment \<Rightarrow> nat \<Rightarrow> 'b act \<Rightarrow> 'a act \<Rightarrow> ('a \<Rightarrow> 'b \<Rightarrow> bool) \<Rightarrow> bool" where
  "follows E t f g R \<longleftrightarrow>
     (case g E t of (Inl e, t') \<Rightarrow> f E t = (Inl e, t') | (Inr x, t') \<Rightarrow> \<exists>y. f E t = (Inr y, t') \<and> R x y)"

lemma follows_andthen:
  assumes "follows E t f g R" and "\<And>x y t'. g E t = (Inr x, t') \<Longrightarrow> R x y \<Longrightarrow> follows E t' (F y) (G x) R'"
  shows "follows E t (andthen f F) (andthen g G) R'"
  using assms by (fastforce simp: follows_def andthen_def split: prod.splits sum.splits)

lemma follows_same: "(\<And>x t'. f E t = (Inr x, t') \<Longrightarrow> follows E t' (F x) (G x) R') \<Longrightarrow> follows E t (andthen f F) (andthen f G) R'"
  by (rule follows_andthen [where R = "(=)"]) (auto simp: follows_def split: prod.splits sum.splits)

lemma follows_ret: "R x y \<Longrightarrow> follows E t (ret y) (ret x) R"
  by (simp add: follows_def ret_def)

lemma follows_fail: "follows E t (fail e) (fail e) R"
  by (simp add: follows_def fail_def)

lemma follows_reading:
  assumes "\<And>n t'. f E t = (Inr n, t') \<Longrightarrow> \<exists>v. r n = Inr v \<and> R n (n, v)"
  shows "follows E t (reading f r) f R"
proof (cases "f E t")
  case (Pair x t')
  show ?thesis
  proof (cases x)
    case (Inr n)
    with assms Pair obtain v where "r n = Inr v" "R n (n, v)" by blast
    then show ?thesis using Pair Inr by (simp add: follows_def reading_def andthen_def lift_res_def ret_def)
  qed (simp add: follows_def reading_def andthen_def Pair)
qed

lemma follows_weaken: "follows E t f g R \<Longrightarrow> (\<And>x y. R x y \<Longrightarrow> R' x y) \<Longrightarrow> follows E t f g R'"
  by (auto simp: follows_def split: prod.splits sum.splits)

text \<open>The value the selection asks for, given what the map holds for the key.\<close>

definition chosen_value :: "('k, 'v) d7_hamt_factory_selection \<Rightarrow> 'k \<Rightarrow> ('k, 'v) d7_hamt_entry option \<Rightarrow> failure + 'v" where
  "chosen_value sel key found =
     (case found of None \<Rightarrow> d7_hamt_select_added_value sel key
      | Some e \<Rightarrow> d7_hamt_select_present_value sel key (entry_value e))"

context hamt_policy
begin

text \<open>The value a node at shift \<open>s\<close> stores for a key, as a pair of node and value has it.\<close>

definition reads :: "nat \<Rightarrow> 'k \<Rightarrow> ('k, 'v) d7_hamt_node \<Rightarrow> ('k, 'v) d7_hamt_node \<times> 'v \<Rightarrow> bool" where
  "reads s k n x \<longleftrightarrow> fst x = n \<and> (\<exists>e. look p n (d7_hamt_get_hash p k) s k = Some e \<and> entry_value e = snd x)"

lemma reads_keq:
  assumes "reads s k n x" and "d7_hamt_keys_equal p k k'"
  shows "reads s k' n x"
  using assms look_keq [OF assms(2)] keq_hash [OF assms(2)] by (simp add: reads_def)

lemma leaf_result:
  assumes "d7_hamt_leaf_create p h k v E t = (Inr n, t')"
  obtains a k' v' where "n = Leaf a h k' v'" and "Rk k k'" and "Rv v v'"
  using achieves_result [OF leaf_create_spec [of "{}" t E h k v] assms] that by (auto simp: heap_def)

lemma bucket_result:
  assumes "collision_fill p h es E t = (Inr n, t')"
  obtains a es' where "n = Collision a h es'" and "list_all2 (entry_rel Rk Rv) es es'"
  using achieves_result [OF collision_fill_spec [of "{}" t E h es] assms] that by (auto simp: heap_def)

lemma copy_result:
  assumes "d7_hamt_bitmap_copy_create p dm nm data children E t = (Inr n, t')"
  obtains a data' where "n = Bitmap_Indexed a dm nm data' children (bitmap_count data children)"
    and "list_all2 (inline_rel Rk Rv) data data'"
proof -
  have "achieves E (failing_requests E p) t (d7_hamt_bitmap_copy_create p dm nm data children)
      (\<lambda>n t'. \<exists>a data'. n = Bitmap_Indexed a dm nm data' children (bitmap_count data children) \<and> list_all2 (inline_rel Rk Rv) data data')"
    unfolding d7_hamt_bitmap_copy_create_def
    by (rule achieves_andthen [OF achieves_alloc [where Q = "\<lambda>_ _. True"]], simp,
        rule achieves_andthen [OF achieves_map_act [where R = "inline_rel Rk Rv"]], rule inline_copy_spec) (auto intro: achieves_ret)
  from achieves_result [OF this assms] show thesis using that by blast
qed

text \<open>A copied branch stores, in the slot of the key, the copy of what the source array holds there.\<close>

lemma copied_slot:
  assumes "list_all2 (inline_rel Rk Rv) data data'" and "sparse dm data (d7_hamt_index (d7_hamt_get_hash p k) s) = Some x"
    and "dense dm data" and "inline_hash x = d7_hamt_get_hash p k" and "d7_hamt_keys_equal p (entry_key (inline_entry x)) k"
    and "slot = rank dm (d7_hamt_index (d7_hamt_get_hash p k) s)"
  shows "\<exists>v. inline_value (Bitmap_Indexed a dm nm data' children c) slot = Inr v \<and>
    reads s k (Bitmap_Indexed a dm nm data' children c) (Bitmap_Indexed a dm nm data' children c, v)"
proof -
  let ?i = "d7_hamt_index (d7_hamt_get_hash p k) s"
  have bit: "bit dm ?i" "?i < 32" using sparse_Some_bit [OF assms(2)] by simp_all
  obtain y where y: "sparse dm data' ?i = Some y" "inline_rel Rk Rv x y"
    using sparse_list_all2 [OF assms(1), of dm ?i] assms(2) by (auto simp: option_rel_Some1)
  have "nth_opt data' slot = Some y"
    using sparse_nth_opt [OF bit(2,1), of data'] dense_list_all2 [OF assms(1), of dm] assms(3,6) y(1) by simp
  moreover have "d7_hamt_keys_equal p (entry_key (inline_entry y)) k"
    using y(2) assms(5) keq_left Rk_keq unfolding inline_rel_def entry_rel_def by blast
  ultimately show ?thesis
    using y assms(4) by (auto simp: reads_def inline_match_def entry_matches_def inline_rel_def)
qed

lemma bucket_last:
  assumes "list_all2 (entry_rel Rk Rv) (es @ [Entry k v]) es'" and "find (entry_matches p k) es = None"
  shows "\<exists>v. last_value (Collision a (d7_hamt_get_hash p k) es') = Inr v \<and>
    reads s k (Collision a (d7_hamt_get_hash p k) es') (Collision a (d7_hamt_get_hash p k) es', v)"
proof -
  obtain us e where es': "es' = us @ [e]" "list_all2 (entry_rel Rk Rv) es us" "entry_rel Rk Rv (Entry k v) e"
    using assms(1) by (auto simp: list_all2_append1 list_all2_Cons1)
  have "find (entry_matches p k) us = None" using find_related [OF es'(2), of k] assms(2) by simp
  moreover have "entry_matches p k e" using entry_rel_matches [OF es'(3), of k] by (simp add: entry_matches_def)
  ultimately show ?thesis by (auto simp: es'(1) reads_def find_append_iff nth_opt_def)
qed

lemma merge_follows:
  assumes "d7_hamt_hash_node_hash left = Some hl" and "hr = d7_hamt_get_hash p rk" and "\<And>s. look p left hr s rk = None"
  shows "follows E t (d7_hamt_merge_hash_nodes_selected p left (Leaf b hr rk rv) s)
    (d7_hamt_merge_hash_nodes p left (Leaf b hr rk rv) s) (reads s rk)"
proof (induction "37 - s" arbitrary: s t rule: less_induct)
  case less
  let ?li = "d7_hamt_index hl s" and ?ri = "d7_hamt_index hr s"
  have i: "?li < 32" "?ri < 32" by (simp_all add: d7_hamt_index_less)
  consider (same) "hl = hr" | (deep) "hl \<noteq> hr" "32 \<le> s" | (down) "hl \<noteq> hr" "s < 32" "?li = ?ri"
    | (split) "hl \<noteq> hr" "s < 32" "?li \<noteq> ?ri" by force
  then show ?case
  proof cases
    case same
    have "follows E t (reading (d7_hamt_collision_create p left (Leaf b hr rk rv)) last_value)
        (d7_hamt_collision_create p left (Leaf b hr rk rv)) (reads s rk)"
    proof (rule follows_reading)
      fix n t' assume run: "d7_hamt_collision_create p left (Leaf b hr rk rv) E t = (Inr n, t')"
      have fill: "d7_hamt_collision_create p left (Leaf b hr rk rv) = collision_fill p hr (hash_node_entries left @ [Entry rk rv])"
        using assms(1) same by (cases left) simp_all
      have none: "find (entry_matches p rk) (hash_node_entries left) = None"
        using assms(3) [of s] look_hash_entries(1) [OF assms(1), of hr s rk] same by simp
      from run [unfolded fill] obtain a es' where "n = Collision a hr es'" "list_all2 (entry_rel Rk Rv) (hash_node_entries left @ [Entry rk rv]) es'"
        by (rule bucket_result)
      then show "\<exists>v. last_value n = Inr v \<and> reads s rk n (n, v)" using bucket_last [OF _ none] assms(2) by simp
    qed
    then show ?thesis using assms(1) same
      by (subst d7_hamt_merge_hash_nodes_selected.simps, subst d7_hamt_merge_hash_nodes.simps) (simp)
  next
    case deep
    then show ?thesis using assms(1)
      by (subst d7_hamt_merge_hash_nodes_selected.simps, subst d7_hamt_merge_hash_nodes.simps) (simp add: follows_fail)
  next
    case down
    have IH: "follows E t (d7_hamt_merge_hash_nodes_selected p left (Leaf b hr rk rv) (s + 5))
        (d7_hamt_merge_hash_nodes p left (Leaf b hr rk rv) (s + 5)) (reads (s + 5) rk)"
      using down by (intro less) simp
    have "follows E t
        (andthen (d7_hamt_merge_hash_nodes_selected p left (Leaf b hr rk rv) (s + 5)) (\<lambda>(child, child_selected).
           andthen (d7_hamt_bitmap_create 0 (d7_hamt_bit ?li) [] [child]) (\<lambda>n. ret (n, child_selected))))
        (andthen (d7_hamt_merge_hash_nodes p left (Leaf b hr rk rv) (s + 5)) (\<lambda>child.
           andthen (d7_hamt_bitmap_create 0 (d7_hamt_bit ?li) [] [child]) ret)) (reads s rk)"
    proof (rule follows_andthen [OF IH])
      fix c y t' assume "reads (s + 5) rk c y"
      then obtain v where y: "y = (c, v)" "reads (s + 5) rk c (c, v)" by (cases y) (auto simp: reads_def)
      show "follows E t' (case y of (child, child_selected) \<Rightarrow>
           andthen (d7_hamt_bitmap_create 0 (d7_hamt_bit ?li) [] [child]) (\<lambda>n. ret (n, child_selected)))
          (andthen (d7_hamt_bitmap_create 0 (d7_hamt_bit ?li) [] [c]) ret) (reads s rk)"
        unfolding y(1) prod.case
        using y(2) down assms(2) sparse_one_slot [OF i(2), of c]
        by (intro follows_same follows_ret)
          (auto simp: reads_def d7_hamt_bitmap_create_def andthen_def d7_hamt_allocate_def ret_def split: if_splits)
    qed
    moreover have "andthen f ret = f" for f :: "('k, 'v) d7_hamt_node act"
      by (simp add: fun_eq_iff andthen_def ret_def split: prod.split sum.split)
    ultimately show ?thesis using assms(1) down
      by (subst d7_hamt_merge_hash_nodes_selected.simps, subst d7_hamt_merge_hash_nodes.simps) (simp)
  next
    case split
    have hash: "d7_hamt_get_hash p rk = hr" using assms(2) by simp
    let ?r = "Inline hr (Entry rk rv)"
    show ?thesis
    proof (cases left)
      case (Leaf a h lk lv)
      then have h: "h = hl" using assms(1) by simp
      let ?l = "Inline hl (Entry lk lv)" and ?dm = "d7_hamt_bit ?li OR d7_hamt_bit ?ri"
      let ?data = "if ?li < ?ri then [?l, ?r] else [?r, ?l]"
      note two = two_slots [OF i split(3), of ?l ?r]
      have "rank ?dm ?ri = rank (d7_hamt_bit ?li) ?ri"
        unfolding rank_def by (rule arg_cong [where f = length], rule filter_cong) (auto simp: bit_or_iff)
      then have slot: "(1 - (if ?li < ?ri then 0 else 1)) = rank ?dm ?ri" using rank_d7_hamt_bit [OF i(1)] by simp
      have "follows E t (reading (d7_hamt_bitmap_copy_create p ?dm 0 ?data []) (\<lambda>n. inline_value n (1 - (if ?li < ?ri then 0 else 1))))
          (d7_hamt_bitmap_copy_create p ?dm 0 ?data []) (reads s rk)"
      proof (rule follows_reading, elim copy_result)
        fix n a data' assume n: "n = Bitmap_Indexed a ?dm 0 data' [] (bitmap_count ?data [])" and rel: "list_all2 (inline_rel Rk Rv) ?data data'"
        show "\<exists>v. inline_value n (1 - (if ?li < ?ri then 0 else 1)) = Inr v \<and> reads s rk n (n, v)"
          unfolding n slot by (rule copied_slot [OF rel, where x = ?r]) (simp_all add: hash two)
      qed
      then show ?thesis using assms(1) split Leaf h
      by (subst d7_hamt_merge_hash_nodes_selected.simps, subst d7_hamt_merge_hash_nodes.simps) (simp add: Let_def)
    next
      case (Collision a h es)
      then have h: "h = hl" using assms(1) by simp
      have "follows E t (reading (d7_hamt_bitmap_copy_create p (d7_hamt_bit ?ri) (d7_hamt_bit ?li) [?r] [left]) (\<lambda>n. inline_value n 0))
          (d7_hamt_bitmap_copy_create p (d7_hamt_bit ?ri) (d7_hamt_bit ?li) [?r] [left]) (reads s rk)"
      proof (rule follows_reading, elim copy_result)
        fix n a data' assume n: "n = Bitmap_Indexed a (d7_hamt_bit ?ri) (d7_hamt_bit ?li) data' [left] (bitmap_count [?r] [left])"
          and rel: "list_all2 (inline_rel Rk Rv) [?r] data'"
        show "\<exists>v. inline_value n 0 = Inr v \<and> reads s rk n (n, v)"
          unfolding n by (rule copied_slot [OF rel, where x = ?r]) (simp_all add: hash one_slot [OF i(2)] rank_d7_hamt_bit i)
      qed
      then show ?thesis using assms(1) split Collision h
      by (subst d7_hamt_merge_hash_nodes_selected.simps, subst d7_hamt_merge_hash_nodes.simps) (simp add: Let_def)
    qed (use assms(1) in simp)
  qed
qed

end

end
