(* ===== verification/Hamt_Factory_Update.thy ===== *)
theory Hamt_Factory_Update
  imports Hamt_Factory
begin

text \<open>
  The factory updates against the insertion they duplicate: on every node, the single descent of
  \<open>d7_hamt_node_factory_update\<close> makes the requests of looking the key up, choosing the value and
  inserting it, and the value it hands back is the one the new node stores.
\<close>

context hamt_policy
begin

definition selected :: "nat \<Rightarrow> 'k \<Rightarrow> bool \<times> ('k, 'v) d7_hamt_node \<Rightarrow> bool \<times> ('k, 'v) d7_hamt_node \<times> 'v \<Rightarrow> bool" where
  "selected s k x y \<longleftrightarrow> fst y = fst x \<and> reads s k (snd x) (snd y)"

lemma follows_tagged:
  assumes "follows E t f g (reads s k)"
  shows "follows E t (andthen f (\<lambda>(n, v). ret (b, n, v))) (andthen g (\<lambda>n. ret (b, n))) (selected s k)"
  by (rule follows_andthen [OF assms]) (auto simp: selected_def reads_def intro!: follows_ret split: prod.split)

lemma present_follows:
  assumes "look p node (d7_hamt_get_hash p key) s key = Some e" and "entry_value e = v0"
    and "\<And>candidate. follows E t (replace candidate) (repl candidate) (reads s key)"
  shows "follows E t (factory_present p node key v0 sel replace)
    (andthen (lift_res (d7_hamt_select_present_value sel key v0)) (\<lambda>candidate.
       if d7_hamt_values_equal p v0 candidate then ret (False, node) else andthen (repl candidate) (\<lambda>n. ret (False, n))))
    (selected s key)"
  unfolding factory_present_def
proof (rule follows_same)
  fix candidate t'
  assume "lift_res (d7_hamt_select_present_value sel key v0) E t = (Inr candidate, t')"
  then have "t' = t" by (simp add: lift_res_def)
  moreover have "candidate = v0 \<Longrightarrow> d7_hamt_values_equal p v0 candidate" by simp
  ultimately show "follows E t' (if candidate = v0 \<or> d7_hamt_values_equal p v0 candidate then ret (False, node, v0)
      else andthen (replace candidate) (\<lambda>(n, v). ret (False, n, v)))
    (if d7_hamt_values_equal p v0 candidate then ret (False, node) else andthen (repl candidate) (\<lambda>n. ret (False, n)))
    (selected s key)"
    using assms follows_tagged [OF assms(3)] by (auto simp: selected_def reads_def intro!: follows_ret)
qed

lemma new_leaf_follows:
  assumes "d7_hamt_hash_node_hash node = Some hn" and "\<And>s. look p node (d7_hamt_get_hash p key) s key = None"
  shows "follows E t (factory_new_leaf p node key (d7_hamt_get_hash p key) s sel)
    (andthen (lift_res (d7_hamt_select_added_value sel key)) (\<lambda>candidate. merge_new_leaf p node key candidate (d7_hamt_get_hash p key) s))
    (selected s key)"
  unfolding factory_new_leaf_def merge_new_leaf_def
proof (intro follows_same)
  fix candidate t1 right t2
  assume "d7_hamt_leaf_create p (d7_hamt_get_hash p key) key candidate E t1 = (Inr right, t2)"
  then obtain a rk rv where right: "right = Leaf a (d7_hamt_get_hash p key) rk rv" and rk: "Rk key rk" by (rule leaf_result)
  have "look p node (d7_hamt_get_hash p key) s rk = None" for s using assms(2) look_keq [OF Rk_keq [OF rk]] by simp
  then have "follows E t2 (d7_hamt_merge_hash_nodes_selected p node right s) (d7_hamt_merge_hash_nodes p node right s) (reads s rk)"
    unfolding right using Rk_hash [OF rk] by (intro merge_follows [OF assms(1)]) simp_all
  then have "follows E t2 (d7_hamt_merge_hash_nodes_selected p node right s) (d7_hamt_merge_hash_nodes p node right s) (reads s key)"
    by (rule follows_weaken) (rule reads_keq, assumption, rule keq_sym [OF Rk_keq [OF rk]])
  then show "follows E t2 (andthen (d7_hamt_merge_hash_nodes_selected p node right s) (\<lambda>(n, v). ret (True, n, v)))
      (andthen (d7_hamt_merge_hash_nodes p node right s) (\<lambda>n. ret (True, n))) (selected s key)"
    by (rule follows_tagged)
qed

abbreviation set_chosen where
  "set_chosen n key s sel \<equiv>
     andthen (lift_res (chosen_value sel key (look p n (d7_hamt_get_hash p key) s key)))
       (\<lambda>candidate. d7_hamt_node_set p n key candidate (d7_hamt_get_hash p key) s True)"

lemma set_leaf_present:
  assumes "d7_hamt_keys_equal p k0 key"
  shows "d7_hamt_node_set p (Leaf a h k0 v0) key v h s True =
    (if d7_hamt_values_equal p v0 v then ret (False, Leaf a h k0 v0)
     else andthen (d7_hamt_leaf_create p h k0 v) (\<lambda>n. ret (False, n)))"
  using assms by (simp add: d7_hamt_node_set_leaf_def d7_hamt_leaf_create_def andthen_assoc)

lemma leaf_follows:
  "follows E t (d7_hamt_node_factory_update p (Leaf a h k0 v0) key (d7_hamt_get_hash p key) s sel)
    (set_chosen (Leaf a h k0 v0) key s sel) (selected s key)"
proof (cases "h = d7_hamt_get_hash p key \<and> d7_hamt_keys_equal p k0 key")
  case True
  then have h: "d7_hamt_get_hash p key = h" and key: "d7_hamt_keys_equal p k0 key" by simp_all
  have "follows E t (reading (d7_hamt_leaf_create p h k0 candidate) leaf_value) (d7_hamt_leaf_create p h k0 candidate) (reads s key)" for candidate
  proof (rule follows_reading, elim leaf_result)
    fix n a k' and v' :: 'v assume n: "n = Leaf a h k' v'" and k': "Rk k0 k'"
    then show "\<exists>v. leaf_value n = Inr v \<and> reads s key n (n, v)"
      using h key keq_left [OF Rk_keq [OF k']] by (simp add: reads_def)
  qed
  note replace = present_follows [where node = "Leaf a h k0 v0" and e = "Entry k0 v0", OF _ _ this, unfolded h]
  have chosen: "chosen_value sel key (look p (Leaf a h k0 v0) h s key) = d7_hamt_select_present_value sel key v0"
    using key by (simp add: chosen_value_def)
  show ?thesis
    unfolding h chosen set_leaf_present [OF key] d7_hamt_node_factory_update.simps factory_leaf_def
      if_P [OF conjI [OF refl key], of h]
    by (rule replace) (use key in simp_all)
next
  case False
  then show ?thesis
    using new_leaf_follows [of "Leaf a h k0 v0" h key E t s sel]
    by (auto simp: factory_leaf_def chosen_value_def d7_hamt_node_set_leaf_def)
qed

lemma set_collision_present:
  assumes "first_index (entry_matches p key) es = Some i"
  shows "d7_hamt_node_set p (Collision a h es) key v h s True =
    (if d7_hamt_values_equal p (entry_value (es ! i)) v then ret (False, Collision a h es)
     else andthen (collision_fill p h (es[i := Entry (entry_key (es ! i)) v])) (\<lambda>n. ret (False, n)))"
  using assms by (simp add: d7_hamt_node_set_collision_def)

lemma collision_absent_follows:
  assumes "d7_hamt_get_hash p key = h" and none: "first_index (entry_matches p key) es = None"
  shows "follows E t (factory_collision p a h es key h s sel)
    (andthen (lift_res (d7_hamt_select_added_value sel key)) (\<lambda>candidate.
       d7_hamt_node_set p (Collision a h es) key candidate h s True)) (selected s key)"
proof -
  have none': "find (entry_matches p key) es = None" using none by (simp add: first_index_None)
  have "follows E t' (reading (collision_fill p h (es @ [Entry key candidate])) last_value) (collision_fill p h (es @ [Entry key candidate])) (reads s key)"
    for candidate t'
    by (rule follows_reading, elim bucket_result) (use bucket_last [OF _ none'] assms(1) in simp)
  note tagged = follows_tagged [OF this]
  have fact: "factory_collision p a h es key h s sel = andthen (lift_res (d7_hamt_select_added_value sel key)) (\<lambda>candidate.
      andthen (reading (collision_fill p h (es @ [Entry key candidate])) last_value) (\<lambda>(n, v). ret (True, n, v)))"
    by (simp add: factory_collision_def none)
  have set: "d7_hamt_node_set p (Collision a h es) key v h s True =
      andthen (collision_fill p h (es @ [Entry key v])) (\<lambda>n. ret (True, n))" for v
    by (simp add: d7_hamt_node_set_collision_def none)
  show ?thesis unfolding fact set by (rule follows_same) (rule tagged)
qed

lemma replaced_bucket:
  assumes "distinct_keys p es" and fi: "first_index (entry_matches p key) es = Some i" and h: "d7_hamt_get_hash p key = h"
    and rel: "list_all2 (entry_rel Rk Rv) (es[i := Entry (entry_key (es ! i)) candidate]) es'"
  shows "\<exists>v. collision_value (Collision a h es') i = Inr v \<and> reads s key (Collision a h es') (Collision a h es', v)"
proof -
  note fi' = first_index_Some [OF fi]
  have len: "i < length es'" using fi' list_all2_lengthD [OF rel] by simp
  have "entry_rel Rk Rv (Entry (entry_key (es ! i)) candidate) (es' ! i)" using list_all2_nthD [OF rel, of i] fi' by simp
  then have key: "entry_matches p key (es' ! i)"
    using entry_rel_matches [of "Entry (entry_key (es ! i)) candidate" "es' ! i" key] fi' by (simp add: entry_matches_def)
  have "map entry_key (es[i := Entry (entry_key (es ! i)) candidate]) = map entry_key es"
    by (metis d7_hamt_entry.sel(1) fi' list_update_id map_update nth_map)
  then have "distinct_keys p es'" using assms(1) distinct_keys_related [OF rel] distinct_keys_keys by metis
  then have "find (entry_matches p key) es' = Some (es' ! i)" using len key by (intro find_match) (simp_all add: entry_matches_def)
  then show ?thesis using h len by (simp add: reads_def nth_opt_def)
qed

lemma collision_follows:
  assumes "wf_node p s (Collision a h es)"
  shows "follows E t (d7_hamt_node_factory_update p (Collision a h es) key (d7_hamt_get_hash p key) s sel)
    (set_chosen (Collision a h es) key s sel) (selected s key)"
proof (cases "h = d7_hamt_get_hash p key")
  case False
  then show ?thesis
    using new_leaf_follows [of "Collision a h es" h key E t s sel]
    by (simp add: factory_collision_def chosen_value_def d7_hamt_node_set_collision_def)
next
  case True
  then have h: "d7_hamt_get_hash p key = h" by simp
  have distinct: "distinct_keys p es" using assms by simp
  show ?thesis
  proof (cases "first_index (entry_matches p key) es")
    case None
    then have "look p (Collision a h es) h s key = None" by (simp add: first_index_None)
    then show ?thesis
      unfolding h d7_hamt_node_factory_update.simps(2) using collision_absent_follows [OF h None]
      by (simp only: chosen_value_def option.case)
  next
    case (Some i)
    have found: "look p (Collision a h es) h s key = Some (es ! i)" using first_index_Some [OF Some] by simp
    have "follows E t (reading (collision_fill p h (es[i := Entry (entry_key (es ! i)) candidate])) (\<lambda>n. collision_value n i))
        (collision_fill p h (es[i := Entry (entry_key (es ! i)) candidate])) (reads s key)" for candidate
      by (rule follows_reading, elim bucket_result) (use replaced_bucket [OF distinct Some h] in simp)
    note replace = present_follows [where node = "Collision a h es" and e = "es ! i", OF _ refl this, unfolded h, OF found]
    have fact: "d7_hamt_node_factory_update p (Collision a h es) key h s sel =
        factory_present p (Collision a h es) key (entry_value (es ! i)) sel
          (\<lambda>candidate. reading (collision_fill p h (es[i := Entry (entry_key (es ! i)) candidate])) (\<lambda>n. collision_value n i))"
      using Some by (simp add: factory_collision_def)
    have chosen: "chosen_value sel key (look p (Collision a h es) h s key) = d7_hamt_select_present_value sel key (entry_value (es ! i))"
      unfolding found by (simp add: chosen_value_def)
    show ?thesis unfolding h fact chosen set_collision_present [OF Some] by (rule replace)
  qed
qed

lemma inline_follows:
  fixes a dm nm data children n s key sel
  defines "N \<equiv> Bitmap_Indexed a dm nm data children n" and "h \<equiv> d7_hamt_get_hash p key"
  assumes wf: "wf_node p s N" and slot: "sparse dm data (d7_hamt_index h s) = Some x"
  shows "follows E t (factory_inline p N dm nm data children key h s sel)
    (andthen (lift_res (chosen_value sel key (look p N h s key)))
       (\<lambda>candidate. d7_hamt_node_set_inline p N dm nm data children key candidate h s True)) (selected s key)"
proof -
  let ?i = "d7_hamt_index h s"
  let ?k0 = "entry_key (inline_entry x)" and ?v0 = "entry_value (inline_entry x)"
  have i: "?i < 32" and bit: "bit dm ?i" using sparse_Some_bit [OF slot] by simp_all
  have dense: "dense dm data" "dense nm children" using wf by (simp_all add: N_def)
  have nth: "nth_opt data (rank dm ?i) = Some x" using sparse_nth_opt [OF i bit dense(1)] slot by simp
  note sl = d7_hamt_slot_rank [OF i]
  show ?thesis
  proof (cases "inline_hash x = h \<and> d7_hamt_keys_equal p ?k0 key")
    case True
    have found: "look p N h s key = Some (inline_entry x)" using slot True by (simp add: N_def inline_match_def entry_matches_def)
    let ?data = "\<lambda>candidate. data[rank dm ?i := Inline (inline_hash x) (Entry ?k0 candidate)]"
    have "follows E t (reading (d7_hamt_bitmap_copy_create p dm nm (?data candidate) children) (\<lambda>n. inline_value n (rank dm ?i)))
        (d7_hamt_bitmap_copy_create p dm nm (?data candidate) children) (reads s key)" for candidate
    proof (rule follows_reading, elim copy_result)
      fix n b data' assume n: "n = Bitmap_Indexed b dm nm data' children (bitmap_count (?data candidate) children)"
        and rel: "list_all2 (inline_rel Rk Rv) (?data candidate) data'"
      show "\<exists>v. inline_value n (rank dm ?i) = Inr v \<and> reads s key n (n, v)"
        unfolding n by (rule copied_slot [OF rel, where x = "Inline (inline_hash x) (Entry ?k0 candidate)"])
          (use True update_dense [OF i bit dense(1)] in \<open>simp_all add: h_def\<close>)
    qed
    note replace = present_follows [where e = "inline_entry x", OF _ _ this]
    have fact: "factory_inline p N dm nm data children key h s sel = factory_present p N key ?v0 sel
        (\<lambda>candidate. reading (d7_hamt_bitmap_copy_create p dm nm (?data candidate) children) (\<lambda>n. inline_value n (rank dm ?i)))"
      by (simp only: factory_inline_def sl nth Let_def option.case True simp_thms if_True)
    have set: "andthen (lift_res (chosen_value sel key (look p N h s key)))
        (\<lambda>candidate. d7_hamt_node_set_inline p N dm nm data children key candidate h s True) =
        andthen (lift_res (d7_hamt_select_present_value sel key ?v0)) (\<lambda>candidate.
          if d7_hamt_values_equal p ?v0 candidate then ret (False, N)
          else andthen (d7_hamt_bitmap_copy_create p dm nm (?data candidate) children) (\<lambda>n. ret (False, n)))"
      by (simp only: d7_hamt_node_set_inline_def chosen_value_def found sl nth Let_def option.case True simp_thms if_True not_True_eq_False)
    show ?thesis unfolding fact set by (rule replace) (use found in \<open>simp_all add: h_def\<close>)
  next
    case False
    have found: "look p N h s key = None" using slot False by (auto simp: N_def inline_match_def entry_matches_def)
    have nbit: "\<not> bit nm ?i" using wf bit wf_disjoint by (auto simp: N_def)
    have deep: "follows E t' (andthen (d7_hamt_merge_hash_nodes_selected p left right (s + 5)) (\<lambda>(child, child_selected).
          andthen (d7_hamt_bitmap_copy_create p (dm AND NOT (d7_hamt_bit ?i)) (nm OR d7_hamt_bit ?i) (remove_at (rank dm ?i) data)
             (insert_at (rank nm ?i) child children)) (\<lambda>n. ret (True, n, child_selected))))
        (andthen (d7_hamt_merge_hash_nodes p left right (s + 5)) (\<lambda>child.
          andthen (d7_hamt_bitmap_copy_create p (dm AND NOT (d7_hamt_bit ?i)) (nm OR d7_hamt_bit ?i) (remove_at (rank dm ?i) data)
             (insert_at (rank nm ?i) child children)) (\<lambda>n. ret (True, n)))) (selected s key)"
      if left: "left = Leaf b (inline_hash x) lk lv" "Rk ?k0 lk" and right: "right = Leaf b' h rk rv" "Rk key rk" for b lk lv b' rk rv left right t'
    proof -
      have "look p left h s' rk = None" for s'
        using False keq_left [OF Rk_keq [OF left(2)], of rk] keq_right [OF Rk_keq [OF right(2)], of ?k0] by (auto simp: left(1))
      then have "follows E t' (d7_hamt_merge_hash_nodes_selected p left right (s + 5)) (d7_hamt_merge_hash_nodes p left right (s + 5)) (reads (s + 5) rk)"
        unfolding right(1) using Rk_hash [OF right(2)] left(1) by (intro merge_follows) (simp_all add: h_def)
      then show ?thesis
      proof (rule follows_andthen)
        fix c y t1 assume "reads (s + 5) rk c y"
        then have "reads (s + 5) key c y" by (rule reads_keq) (rule keq_sym [OF Rk_keq [OF right(2)]])
        then obtain v where y: "y = (c, v)" "reads (s + 5) key c (c, v)" by (cases y) (auto simp: reads_def)
        have "selected s key (True, Bitmap_Indexed b (dm AND NOT (d7_hamt_bit ?i)) (nm OR d7_hamt_bit ?i) data' (insert_at (rank nm ?i) c children) m)
            (True, Bitmap_Indexed b (dm AND NOT (d7_hamt_bit ?i)) (nm OR d7_hamt_bit ?i) data' (insert_at (rank nm ?i) c children) m, v)"
          if rel: "list_all2 (inline_rel Rk Rv) (remove_at (rank dm ?i) data) data'" for b data' m
        proof -
          have "sparse (dm AND NOT (d7_hamt_bit ?i)) data' ?i = None"
            using sparse_list_all2 [OF rel, of "dm AND NOT (d7_hamt_bit ?i)" ?i] remove_at_dense [OF i bit dense(1)] by simp
          then show ?thesis using y(2) insert_at_dense [OF i nbit dense(2), of c] by (simp add: selected_def reads_def h_def)
        qed
        then show "follows E t1 (case y of (child, child_selected) \<Rightarrow>
            andthen (d7_hamt_bitmap_copy_create p (dm AND NOT (d7_hamt_bit ?i)) (nm OR d7_hamt_bit ?i) (remove_at (rank dm ?i) data)
               (insert_at (rank nm ?i) child children)) (\<lambda>n. ret (True, n, child_selected)))
          (andthen (d7_hamt_bitmap_copy_create p (dm AND NOT (d7_hamt_bit ?i)) (nm OR d7_hamt_bit ?i) (remove_at (rank dm ?i) data)
               (insert_at (rank nm ?i) c children)) (\<lambda>n. ret (True, n))) (selected s key)"
          unfolding y(1) prod.case by (intro follows_same follows_ret) (elim copy_result, simp)
      qed
    qed
    show ?thesis
      unfolding factory_inline_def d7_hamt_node_set_inline_def sl Let_def nth option.case if_not_P [OF False] found chosen_value_def
      by (intro follows_same) (elim leaf_result, rule deep)
  qed
qed

lemma vacant_follows:
  assumes dense: "dense dm data" and none: "sparse dm data (d7_hamt_index h s) = None" and h: "d7_hamt_get_hash p key = h"
  shows "follows E t (factory_vacant p dm nm data children key h s sel)
    (andthen (lift_res (d7_hamt_select_added_value sel key)) (\<lambda>candidate. d7_hamt_node_set_vacant p dm nm data children key candidate h s))
    (selected s key)"
proof -
  let ?i = "d7_hamt_index h s"
  have i: "?i < 32" by (rule d7_hamt_index_less)
  have bit: "\<not> bit dm ?i" using none sparse_None [OF dense] by simp
  have slot: "rank (dm OR d7_hamt_bit ?i) ?i = rank dm ?i"
    unfolding rank_def by (rule arg_cong [where f = length], rule filter_cong) (use i in \<open>auto simp: bit_or_iff\<close>)
  have "follows E t' (reading (d7_hamt_bitmap_copy_create p (dm OR d7_hamt_bit ?i) nm (insert_at (rank dm ?i) (Inline h (Entry key candidate)) data) children)
        (\<lambda>n. inline_value n (rank dm ?i)))
      (d7_hamt_bitmap_copy_create p (dm OR d7_hamt_bit ?i) nm (insert_at (rank dm ?i) (Inline h (Entry key candidate)) data) children) (reads s key)"
    for candidate t'
  proof (rule follows_reading, elim copy_result)
    fix n b data'
    let ?data = "insert_at (rank dm ?i) (Inline h (Entry key candidate)) data"
    assume n: "n = Bitmap_Indexed b (dm OR d7_hamt_bit ?i) nm data' children (bitmap_count ?data children)"
      and rel: "list_all2 (inline_rel Rk Rv) ?data data'"
    show "\<exists>v. inline_value n (rank dm ?i) = Inr v \<and> reads s key n (n, v)"
      unfolding n by (rule copied_slot [OF rel, where x = "Inline h (Entry key candidate)"])
        (use insert_at_dense [OF i bit dense] h slot in simp_all)
  qed
  note tagged = follows_tagged [OF this]
  show ?thesis
    unfolding factory_vacant_def d7_hamt_node_set_vacant_def Let_def d7_hamt_slot_rank [OF i]
    by (rule follows_same) (rule tagged)
qed

text \<open>The branch above a child that has been updated.\<close>

lemma child_follows:
  fixes a dm nm data children n s
  defines "N \<equiv> Bitmap_Indexed a dm nm data children n"
  assumes dense: "dense dm data" "dense nm children" and h: "d7_hamt_get_hash p key = h"
    and none: "sparse dm data (d7_hamt_index h s) = None" and c: "sparse nm children (d7_hamt_index h s) = Some c"
    and same: "node_addr c' = node_addr c \<Longrightarrow> c' = c" and sel: "selected (s + 5) key (added, c') (added', c'', v)"
  shows "follows E t
    (if node_addr c'' = node_addr c then ret (added', N, v)
     else andthen (d7_hamt_bitmap_copy_create p dm nm data (children[rank nm (d7_hamt_index h s) := c''])) (\<lambda>n'. ret (added', n', v)))
    (if node_addr c' = node_addr c then ret (added, N)
     else andthen (d7_hamt_bitmap_copy_create p dm nm data (children[rank nm (d7_hamt_index h s) := c'])) (\<lambda>n'. ret (added, n')))
    (selected s key)"
proof -
  let ?i = "d7_hamt_index h s"
  have i: "?i < 32" and bit: "bit nm ?i" using sparse_Some_bit [OF c] by simp_all
  from sel have eqs: "added' = added" "c'' = c'" and reads: "reads (s + 5) key c' (c', v)" by (auto simp: selected_def reads_def)
  have copied: "selected s key (added, Bitmap_Indexed b dm nm data' (children[rank nm ?i := c']) m)
      (added, Bitmap_Indexed b dm nm data' (children[rank nm ?i := c']) m, v)"
    if rel: "list_all2 (inline_rel Rk Rv) data data'" for b data' m
  proof -
    have "sparse dm data' ?i = None" using sparse_list_all2 [OF rel, of dm ?i] none by simp
    then show ?thesis using reads sparse_update [OF i bit dense(2), of c'] h by (simp add: selected_def reads_def)
  qed
  have "selected s key (added, N) (added, N, v)" if "node_addr c' = node_addr c"
    using reads same [OF that] none c h by (simp add: selected_def reads_def N_def)
  then show ?thesis
    unfolding eqs using copied by (auto intro!: follows_ret follows_same elim!: copy_result)
qed

text \<open>One descent: the code's branch at a child, and the insertion it stands for.\<close>

lemma node_child_follows:
  fixes a dm nm data children n s key
  defines "N \<equiv> Bitmap_Indexed a dm nm data children n" and "h \<equiv> d7_hamt_get_hash p key"
  assumes heap: "heap S t" and sub: "subnodes c \<subseteq> S" and wf: "wf_node p s N" and path: "on_path h s N"
    and none: "sparse dm data (d7_hamt_index h s) = None" and c: "sparse nm children (d7_hamt_index h s) = Some c"
    and IH: "follows E t (d7_hamt_node_factory_update p c key h (s + 5) sel) (set_chosen c key (s + 5) sel) (selected (s + 5) key)"
  shows "follows E t (d7_hamt_node_factory_update p N key h s sel) (set_chosen N key s sel) (selected s key)"
proof -
  let ?i = "d7_hamt_index h s"
  have i: "?i < 32" by (rule d7_hamt_index_less)
  have dense: "dense dm data" "dense nm children" and wf_c: "wf_node p (s + 5) c"
    using wf sparse_Some_in_set [OF c] by (simp_all add: N_def)
  note slots = bitmap_slot [OF dense(1), of h s] bitmap_slot [OF dense(2), of h s]
  have dm: "dm AND d7_hamt_bit ?i = 0" using slots(1) none by simp
  have nth: "nth_opt children (d7_hamt_slot nm (d7_hamt_bit ?i)) = Some c" using slots c by simp
  have path_c: "on_path h (s + 5) c" by (rule on_path_child [OF wf [unfolded N_def] path [unfolded N_def] c])
  have look: "look p N h s key = look p c h (s + 5) key" using none c by (simp add: N_def)
  have set: "d7_hamt_node_set p N key v h s True = andthen (d7_hamt_node_set p c key v h (s + 5) True) (\<lambda>(added, new_child).
      if node_addr new_child = node_addr c then ret (added, N)
      else andthen (d7_hamt_bitmap_copy_create p dm nm data (children[rank nm ?i := new_child])) (\<lambda>n'. ret (added, n')))" for v
    unfolding N_def using dm slots(3) c nth i by (simp add: Let_def d7_hamt_slot_rank)
  have fact: "d7_hamt_node_factory_update p N key h s sel = andthen (d7_hamt_node_factory_update p c key h (s + 5) sel)
      (\<lambda>(added, new_child, child_selected). if node_addr new_child = node_addr c then ret (added, N, child_selected)
      else andthen (d7_hamt_bitmap_copy_create p dm nm data (children[rank nm ?i := new_child])) (\<lambda>n'. ret (added, n', child_selected)))"
    unfolding N_def using dm slots(3) c nth i by (simp add: Let_def d7_hamt_slot_rank)
  show ?thesis
    unfolding fact h_def [symmetric] set look andthen_assoc [symmetric]
  proof (rule follows_andthen [OF IH [folded h_def]])
    fix x y t'
    assume run: "andthen (lift_res (chosen_value sel key (look p c h (s + 5) key))) (\<lambda>candidate. d7_hamt_node_set p c key candidate h (s + 5) True) E t = (Inr x, t')"
      and sel: "selected (s + 5) key x y"
    obtain added c' added' c'' v where xy: "x = (added, c')" "y = (added', c'', v)" by (cases x; cases y) auto
    from run obtain candidate where "d7_hamt_node_set p c key candidate h (s + 5) True E t = (Inr (added, c'), t')"
      by (auto simp: andthen_def lift_res_def xy split: sum.splits)
    from achieves_result [OF node_set_spec [OF heap sub wf_c h_def [THEN meta_eq_to_obj_eq] path_c] this] have "heap (S \<union> subnodes c') t'" by simp
    then have "c' = c" if "node_addr c' = node_addr c"
      by (rule heap_same [OF _ _ _ that]) (use subsetD [OF sub self_in_subnodes] in auto)
    then show "follows E t' (case y of (added, new_child, child_selected) \<Rightarrow>
        if node_addr new_child = node_addr c then ret (added, N, child_selected)
        else andthen (d7_hamt_bitmap_copy_create p dm nm data (children[rank nm ?i := new_child])) (\<lambda>n'. ret (added, n', child_selected)))
      (case x of (added, new_child) \<Rightarrow> if node_addr new_child = node_addr c then ret (added, N)
        else andthen (d7_hamt_bitmap_copy_create p dm nm data (children[rank nm ?i := new_child])) (\<lambda>n'. ret (added, n'))) (selected s key)"
      using child_follows [OF dense h_def [THEN meta_eq_to_obj_eq, symmetric] none c _ sel [unfolded xy]] unfolding xy prod.case N_def by blast
  qed
qed

lemma node_factory_follows:
  assumes "heap S t" and "subnodes N \<subseteq> S" and "wf_node p s N" and "on_path (d7_hamt_get_hash p key) s N"
  shows "follows E t (d7_hamt_node_factory_update p N key (d7_hamt_get_hash p key) s sel) (set_chosen N key s sel) (selected s key)"
  using assms
proof (induction N arbitrary: s)
  case (Leaf a h k v)
  show ?case by (rule leaf_follows)
next
  case (Collision a h es)
  then show ?case by (intro collision_follows)
next
  case (Bitmap_Indexed a dm nm data children n)
  let ?N = "Bitmap_Indexed a dm nm data children n" and ?h = "d7_hamt_get_hash p key"
  let ?i = "d7_hamt_index ?h s"
  note sub = Bitmap_Indexed.prems(2) and wf = Bitmap_Indexed.prems(3) and path = Bitmap_Indexed.prems(4)
  have dense: "dense dm data" "dense nm children" using wf by simp_all
  note slots = bitmap_slot [OF dense(1), of ?h s] bitmap_slot [OF dense(2), of ?h s]
  consider (inline) x where "sparse dm data ?i = Some x"
    | (vacant) "sparse dm data ?i = None" "sparse nm children ?i = None"
    | (child) c where "sparse dm data ?i = None" "sparse nm children ?i = Some c" by fastforce
  then show ?case
  proof cases
    case inline
    then have dm: "dm AND d7_hamt_bit ?i \<noteq> 0" using slots by simp
    show ?thesis
      unfolding d7_hamt_node_factory_update.simps d7_hamt_node_set.simps Let_def if_P [OF dm]
      by (rule inline_follows [OF wf inline])
  next
    case vacant
    then have "dm AND d7_hamt_bit ?i = 0" "nm AND d7_hamt_bit ?i = 0" "look p ?N ?h s key = None" using slots(1,3) by simp_all
    then show ?thesis
      using vacant_follows [OF dense(1) vacant(1) refl, of E t nm children sel] by (simp add: Let_def chosen_value_def)
  next
    case (child c)
    have c: "c \<in> set children" using child(2) by (rule sparse_Some_in_set)
    then have "subnodes c \<subseteq> S" and "wf_node p (s + 5) c" using sub wf by auto
    then show ?thesis
      by (intro node_child_follows [OF Bitmap_Indexed.prems(1) _ wf path child] Bitmap_Indexed.IH [OF c Bitmap_Indexed.prems(1)]
          on_path_child [OF wf path child(2)])
  qed
qed

section \<open>At the handle\<close>

lemma root_factory_follows:
  assumes ok: "map_ok S t m" and pol: "policy m = p"
  shows "follows E t
    (case root m of
       None \<Rightarrow> andthen (lift_res (d7_hamt_select_added_value sel key)) (\<lambda>candidate.
         andthen (reading (d7_hamt_leaf_create p (d7_hamt_get_hash p key) key candidate) leaf_value) (\<lambda>(n, v). ret (True, n, v)))
     | Some n \<Rightarrow> d7_hamt_node_factory_update p n key (d7_hamt_get_hash p key) 0 sel)
    (andthen (lift_res (chosen_value sel key (map_entry m key))) (\<lambda>candidate.
       case root m of
         None \<Rightarrow> andthen (d7_hamt_leaf_create p (d7_hamt_get_hash p key) key candidate) (\<lambda>n. ret (True, n))
       | Some n \<Rightarrow> d7_hamt_node_set p n key candidate (d7_hamt_get_hash p key) 0 True))
    (selected 0 key)"
proof (cases "root m")
  case None
  have "follows E t' (reading (d7_hamt_leaf_create p (d7_hamt_get_hash p key) key candidate) leaf_value)
      (d7_hamt_leaf_create p (d7_hamt_get_hash p key) key candidate) (reads 0 key)" for candidate t'
    by (rule follows_reading, elim leaf_result) (use keq_sym [OF Rk_keq] in \<open>auto simp: reads_def\<close>)
  note tagged = follows_tagged [OF this]
  have "chosen_value sel key (map_entry m key) = d7_hamt_select_added_value sel key"
    using None by (simp add: chosen_value_def map_entry_def)
  then show ?thesis unfolding None option.case by (simp only:) (rule follows_same, rule tagged)
next
  case (Some n)
  have "wf_node p 0 n" "heap S t" "subnodes n \<subseteq> S" using ok Some pol by (simp_all add: map_ok_def map_nodes_def)
  moreover have "map_entry m key = look p n (d7_hamt_get_hash p key) 0 key" using Some pol by (simp add: map_entry_def)
  ultimately show ?thesis unfolding Some option.case using node_factory_follows [of S t n 0 key E sel] by simp
qed

lemma map_factory_follows:
  assumes ok: "map_ok S t m" and pol: "policy m = p" and add: "add_factory sel \<noteq> None"
    and update: "operation sel = D7_HAMT_FACTORY_ADD_OR_UPDATE \<Longrightarrow> update_factory sel \<noteq> None"
  shows "follows E t (d7_hamt_map_factory_update (Some m) key (Some sel) True)
    (andthen (lift_res (chosen_value sel key (map_entry m key))) (\<lambda>candidate. d7_hamt_map_set (Some m) key candidate True))
    (\<lambda>m' (m'', v). m'' = m' \<and> map_option entry_value (map_entry m' key) = Some v)"
proof -
  have "(andthen (lift_res (chosen_value sel key (map_entry m key))) (\<lambda>candidate. d7_hamt_map_set (Some m) key candidate True)) =
      andthen (andthen (lift_res (chosen_value sel key (map_entry m key))) (\<lambda>candidate.
       case root m of
         None \<Rightarrow> andthen (d7_hamt_leaf_create p (d7_hamt_get_hash p key) key candidate) (\<lambda>n. ret (True, n))
       | Some n \<Rightarrow> d7_hamt_node_set p n key candidate (d7_hamt_get_hash p key) 0 True))
      (\<lambda>(added, new_root). ret \<lparr>root = Some new_root, count = count m + (if added then 1 else 0), policy = p\<rparr>)"
    by (simp add: d7_hamt_map_set_def map_set_root_def andthen_assoc pol Let_def case_prod_unfold andthen_ret)
  moreover have "d7_hamt_map_factory_update (Some m) key (Some sel) True = andthen
      (case root m of
       None \<Rightarrow> andthen (lift_res (d7_hamt_select_added_value sel key)) (\<lambda>candidate.
         andthen (reading (d7_hamt_leaf_create p (d7_hamt_get_hash p key) key candidate) leaf_value) (\<lambda>(n, v). ret (True, n, v)))
     | Some n \<Rightarrow> d7_hamt_node_factory_update p n key (d7_hamt_get_hash p key) 0 sel)
      (\<lambda>(added, new_root, selected).
         ret (\<lparr>root = Some new_root, count = count m + (if added then 1 else 0), policy = p\<rparr>, selected))"
    using add update by (auto simp: d7_hamt_map_factory_update_def Let_def pol)
  moreover have "follows E t' (ret (\<lparr>root = Some n', count = count m + (if added' then 1 else 0), policy = p\<rparr>, v))
      (ret \<lparr>root = Some n, count = count m + (if added then 1 else 0), policy = p\<rparr>)
      (\<lambda>m' (m'', v). m'' = m' \<and> map_option entry_value (map_entry m' key) = Some v)"
    if "selected 0 key (added, n) (added', n', v)" for added n added' n' v t'
    using that by (intro follows_ret) (auto simp: selected_def reads_def map_entry_def)
  ultimately show ?thesis
    by (simp only:) (rule follows_andthen [OF root_factory_follows [OF ok pol]], auto simp: split_paired_all)
qed

lemma follows_achieves:
  assumes "follows E t f g R" and "achieves E B t g Q" and "\<And>x y t'. Q x t' \<Longrightarrow> R x y \<Longrightarrow> Q' y t'"
  shows "achieves E B t f Q'"
  using assms by (fastforce simp: follows_def achieves_def split: prod.splits sum.splits)

lemma client_add_or_update:
  assumes valid: "map_valid_at p t m" and found: "d7_hamt_map_try_get (Some m) k = Inr found"
  shows "case (case found of None \<Rightarrow> add k | Some v \<Rightarrow> update k v) of
      Inl s \<Rightarrow> d7_hamt_map_add_or_update (Some m) k (Some add) (Some update) True E t = (Inl (Status s), t)
    | Inr v \<Rightarrow> achieves E (failing_requests E p) t (d7_hamt_map_add_or_update (Some m) k (Some add) (Some update) True)
        (\<lambda>(m', w) t'. map_valid_at p t' m' \<and> map_holds Rv m' = bound_to (d7_hamt_keys_equal p) Rv k v (map_holds Rv m) \<and>
           count m' = count m + (if found = None then 1 else 0) \<and> Rv v w)"
proof -
  let ?sel = "\<lparr>operation = D7_HAMT_FACTORY_ADD_OR_UPDATE, add_factory = Some add, update_factory = Some update\<rparr>"
  obtain S where S: "policy m = p" "map_ok S t m" using valid by (auto simp: map_valid_at_def)
  have found': "found = map_option entry_value (map_entry m k)"
    using found try_get_entry_ok [OF S(2), of k] by (simp add: d7_hamt_map_try_get_def map_found_def)
  have choice: "chosen_value ?sel k (map_entry m k) = call_factory (case found of None \<Rightarrow> add k | Some v \<Rightarrow> update k v)"
    unfolding found' by (cases "map_entry m k")
      (simp_all add: chosen_value_def d7_hamt_select_added_value_def d7_hamt_select_present_value_def)
  note run = map_factory_follows [OF S(2,1), of ?sel E k, unfolded choice, simplified]
  show ?thesis
  proof (cases "case found of None \<Rightarrow> add k | Some v \<Rightarrow> update k v")
    case (Inl s)
    then show ?thesis
      using run by (simp add: call_factory_def follows_def andthen_def lift_res_def d7_hamt_map_add_or_update_def)
  next
    case (Inr v)
    have run': "follows E t (d7_hamt_map_add_or_update (Some m) k (Some add) (Some update) True) (d7_hamt_map_set (Some m) k v True)
        (\<lambda>m' (m'', v). m'' = m' \<and> (\<exists>z. map_entry m' k = Some z \<and> entry_value z = v))"
      using run unfolding Inr
      by (simp add: call_factory_def follows_def andthen_def lift_res_def d7_hamt_map_add_or_update_def)
    have absent: "(\<exists>v. map_holds Rv m k v) \<longleftrightarrow> found \<noteq> None" unfolding found' by (simp add: holds_ex)
    have "Rv v w" if "map_holds Rv m' = bound_to (d7_hamt_keys_equal p) Rv k v (map_holds Rv m)"
      and "map_entry m' k = Some z" "entry_value z = w" for m' z w
    proof -
      have "map_holds Rv m' k w" using that(2,3) by (simp add: map_holds_def)
      then show ?thesis using that(1) by simp
    qed
    then show ?thesis
      unfolding Inr sum.case
      by (intro follows_achieves [OF run' client.set [OF valid]]) (auto simp: absent)
  qed
qed

end

section \<open>The contract of a client that updates in place\<close>

text \<open>What a client that computes new values from old ones relies on, beyond \<open>hash_map_client\<close>.\<close>

locale hash_map_update_client = hash_map_client valid holds Rk Rv E B
  for valid :: "nat \<Rightarrow> ('k, 'v) d7_hamt_map \<Rightarrow> bool" and holds Rk Rv E B +
  assumes add_or_update: "valid t m \<Longrightarrow> d7_hamt_map_try_get (Some m) k = Inr found \<Longrightarrow>
      (case (case found of None \<Rightarrow> add k | Some v \<Rightarrow> update k v) of
         Inl s \<Rightarrow> d7_hamt_map_add_or_update (Some m) k (Some add) (Some update) True E t = (Inl (Status s), t)
       | Inr v \<Rightarrow> achieves E B t (d7_hamt_map_add_or_update (Some m) k (Some add) (Some update) True)
           (\<lambda>(m', w) t'. valid t' m' \<and> holds m' = bound_to Rk Rv k v (holds m) \<and>
              count m' = count m + (if found = None then 1 else 0) \<and> Rv v w))"
    and try_remove: "valid t m \<Longrightarrow> d7_hamt_map_try_get (Some m) k = Inr found \<Longrightarrow>
      achieves E B t (d7_hamt_map_try_remove (Some m) k True False)
        (\<lambda>(removed, v, m') t'. valid t' m' \<and> holds m' = unbound Rk k (holds m) \<and> (removed \<longleftrightarrow> found \<noteq> None) \<and>
           v = found \<and> count m' + (if found = None then 0 else 1) = count m)"

sublocale hamt_policy < update_client:
  hash_map_update_client "map_valid_at p" "map_holds Rv" "d7_hamt_keys_equal p" Rv E "failing_requests E p" for E
proof (unfold_locales, goal_cases)
  case (1 t m k found add update)
  then show ?case by (rule client_add_or_update)
next
  case (2 t m k found)
  then obtain S where "map_ok S t m" by (auto simp: map_valid_at_def)
  from try_get_entry_ok [OF this, of k] 2(2) have "found = map_option entry_value (map_entry m k)"
    by (simp add: d7_hamt_map_try_get_def map_found_def)
  then show ?case by (intro achieves_weaken [OF client_remove [OF 2(1)]]) auto
qed

section \<open>The property\<close>

text \<open>C9: an update through factories is a lookup, a choice and an insertion. With the value the factories choose
  from what the map holds for the key (the stored value itself when \<open>get_or_add\<close> finds the key), the single
  descent of \<open>d7_hamt_map_factory_update\<close> fails with the status of the factory without a memory request
  when the choice fails; otherwise it makes the memory requests of \<open>d7_hamt_map_set\<close> with that value, fails when it
  fails, and publishes the same map, and the value it returns is the one a lookup in that map finds.\<close>

theorem map_factory_update_correct:
  assumes "hamt_policy (policy m) Rk Rv" and "map_ok S t m" and "add_factory sel \<noteq> None"
    and "operation sel = D7_HAMT_FACTORY_ADD_OR_UPDATE \<Longrightarrow> update_factory sel \<noteq> None"
  shows "case chosen_value sel key (map_entry m key) of
      Inl e \<Rightarrow> d7_hamt_map_factory_update (Some m) key (Some sel) True E t = (Inl e, t)
    | Inr v \<Rightarrow> (case d7_hamt_map_set (Some m) key v True E t of
        (Inl e, t') \<Rightarrow> d7_hamt_map_factory_update (Some m) key (Some sel) True E t = (Inl e, t')
      | (Inr m', t') \<Rightarrow> \<exists>w. d7_hamt_map_factory_update (Some m) key (Some sel) True E t = (Inr (m', w), t') \<and>
          d7_hamt_map_try_get (Some m') key = Inr (Some w))"
proof -
  note run = hamt_policy.map_factory_follows [OF assms(1,2) refl assms(3,4), of E key]
  have get: "d7_hamt_map_try_get (Some m') key = Inr (Some w)"
    if "d7_hamt_map_set (Some m) key v True E t = (Inr m', t')" and "map_option entry_value (map_entry m' key) = Some w" for v m' t' w
    using achieves_result [OF map_set_spec [OF assms(1,2)] that(1)] that(2) try_get_entry_ok [of _ t' m' key]
    by (auto simp: d7_hamt_map_try_get_def map_found_def)
  show ?thesis
    using run get
    by (auto simp: follows_def andthen_def lift_res_def split: sum.splits prod.splits)
qed

theorem map_factory_update_correct_witness:
  defines "sel \<equiv> \<lparr>operation = D7_HAMT_FACTORY_ADD_OR_UPDATE, add_factory = Some (\<lambda>k. Inr 1),
    update_factory = Some (\<lambda>k v. if v = 9 then Inl D7_HAMT_OVERFLOW else Inr (v + 1))\<rparr>"
  shows "\<exists>m' t'. d7_hamt_map_factory_update (Some (single_map 0 5 7)) 5 (Some sel) True (\<lambda>_. True) 1 = (Inr (m', 8), t') \<and>
    d7_hamt_map_try_get (Some m') 5 = Inr (Some 8)"
proof -
  have "chosen_value sel 5 (map_entry (single_map 0 5 7) 5) = Inr 8"
    by (simp add: chosen_value_def single_map_entry sel_def d7_hamt_select_present_value_def call_factory_def)
  moreover obtain m' t' where m': "d7_hamt_map_set (Some (single_map 0 5 7)) 5 8 True (\<lambda>_. True) 1 = (Inr m', t')"
      "map_bound (=) (=) (single_map 0 5 7) 5 8 True m'" "map_ok ({single_node 0 5 7} \<union> map_nodes m') t' m'"
    using achieves_total [OF map_set_spec [of "single_map 0 5 7" "(=)" "(=)" "{single_node 0 5 7}" 1 "\<lambda>_. True" 5 8]]
    by (auto simp: pointer_policy_ok single_map_ok)
  moreover have "d7_hamt_map_try_get (Some m') 5 = Inr (Some 8)"
    using map_bound_lookup [OF _ m'(2,3)] by (simp add: pointer_policy_ok)
  ultimately show ?thesis
    using map_factory_update_correct [of "single_map 0 5 7" "(=)" "(=)" "{single_node 0 5 7}" 1 sel 5 "\<lambda>_. True"]
    by (auto simp: pointer_policy_ok single_map_ok sel_def)
qed

end
