(* ===== verification/Machine_Int.thy ===== *)
theory Machine_Int
  imports Prelude
begin

text \<open>
  Signed machine integers of C as words read with \<open>sint\<close>. A signed operation whose result does not fit is
  undefined in C and is a \<open>Fault\<close> here; conversions between widths keep the low bits.
\<close>

type_synonym i32 = "32 word"
type_synonym i64 = "64 word"

definition INT32_MAX :: int where
  "INT32_MAX = 2 ^ 31 - 1"

definition INT64_MAX :: int where
  "INT64_MAX = 2 ^ 63 - 1"

definition signed_add :: "'a::len word \<Rightarrow> 'a word \<Rightarrow> failure + 'a word" where
  "signed_add x y = (if sint (x + y) = sint x + sint y then Inr (x + y) else Inl Fault)"

definition signed_sub :: "'a::len word \<Rightarrow> 'a word \<Rightarrow> failure + 'a word" where
  "signed_sub x y = (if sint (x - y) = sint x - sint y then Inr (x - y) else Inl Fault)"

lemma sint_word_of_int:
  assumes "- (2 ^ (LENGTH('a) - 1)) \<le> x" and "x < 2 ^ (LENGTH('a) - 1)"
  shows "sint (word_of_int x :: 'a::len word) = x"
  unfolding sint_sbintrunc' using assms by (rule signed_take_bit_int_eq_self)

lemma sint_add_fits:
  fixes x y :: "'a::len word"
  assumes "- (2 ^ (LENGTH('a) - 1)) \<le> sint x + sint y" and "sint x + sint y < 2 ^ (LENGTH('a) - 1)"
  shows "sint (x + y) = sint x + sint y"
  using sint_word_of_int [OF assms] by (simp add: wi_hom_syms(1))

lemma sint_sub_fits:
  fixes x y :: "'a::len word"
  assumes "- (2 ^ (LENGTH('a) - 1)) \<le> sint x - sint y" and "sint x - sint y < 2 ^ (LENGTH('a) - 1)"
  shows "sint (x - y) = sint x - sint y"
  using sint_word_of_int [OF assms] by (simp add: wi_hom_syms(2))

lemma sint_i32: "sint (x :: i32) \<le> INT32_MAX" "- INT32_MAX - 1 \<le> sint (x :: i32)"
  using sint_lt [of x] sint_ge [of x] by (simp_all add: INT32_MAX_def)

lemma sint_i64: "sint (x :: i64) \<le> INT64_MAX" "- INT64_MAX - 1 \<le> sint (x :: i64)"
  using sint_lt [of x] sint_ge [of x] by (simp_all add: INT64_MAX_def)

lemma sint_widened [simp]: "sint (scast (x :: i32) :: i64) = sint x"
  by (rule sint_up_scast) (simp add: is_up)

lemma sint_narrowed:
  assumes "0 \<le> sint (x :: i64)" and "sint x \<le> INT32_MAX"
  shows "sint (ucast x :: i32) = sint x"
proof -
  have "ucast x = (word_of_int (sint x) :: i32)"
    using ucast_down_wi [where 'a = 64 and 'b = 32, of "sint x"] by (simp add: is_down)
  then show ?thesis using assms sint_word_of_int [where 'a = 32, of "sint x"] by (simp add: INT32_MAX_def)
qed

lemma signed_add_i64:
  assumes "0 \<le> sint (x :: i64)" and "0 \<le> sint y" and "sint x + sint y \<le> INT64_MAX"
  shows "signed_add x y = Inr (x + y)" "sint (x + y) = sint x + sint y"
  using assms sint_add_fits [of x y] by (simp_all add: signed_add_def INT64_MAX_def)

lemma signed_sub_nonneg:
  assumes "0 \<le> sint (x :: 'a::len word)" and "0 \<le> sint y"
  shows "signed_sub x y = Inr (x - y)" "sint (x - y) = sint x - sint y"
proof -
  show *: "sint (x - y) = sint x - sint y"
    using assms sint_lt [of x] sint_lt [of y] sint_ge [of x] sint_ge [of y] by (intro sint_sub_fits) linarith+
  show "signed_sub x y = Inr (x - y)" by (simp add: signed_sub_def *)
qed

lemma sint_add_i32:
  assumes "0 \<le> sint (x :: i32)" and "0 \<le> sint y" and "sint x + sint y \<le> INT32_MAX"
  shows "sint (x + y) = sint x + sint y"
  using assms by (intro sint_add_fits) (simp_all add: INT32_MAX_def)

lemma sint_inject: "sint x = sint y \<longleftrightarrow> x = (y :: 'a::len word)"
  by (metis scast_eq scast_id)

lemma sint_nat_exists: "0 < n \<Longrightarrow> int n \<le> INT32_MAX \<Longrightarrow> \<exists>c :: i32. sint c = int n"
  using sint_word_of_int [where 'a = 32, of "int n"] by (auto simp: INT32_MAX_def)

section \<open>Operations that may overflow\<close>

text \<open>Where \<open>ov\<close> says that the result does not fit, the operation may report \<open>D7_HAMT_OVERFLOW\<close>.\<close>

abbreviation yields :: "bool \<Rightarrow> environment \<Rightarrow> nat set \<Rightarrow> nat \<Rightarrow> 'a act \<Rightarrow> ('a \<Rightarrow> nat \<Rightarrow> bool) \<Rightarrow> bool" where
  "yields ov \<equiv> reports ov D7_HAMT_OVERFLOW"

end
