(* ===== verification/Hamt_Bag.thy ===== *)
theory Hamt_Bag
  imports Hamt_Factory_Update Machine_Int
begin

text \<open>
  The persistent multiset of \<open>persistent_hash_bag.c\<close>: a hash map from items to their multiplicities, 32-bit
  integers that are positive, and the sum of the multiplicities as a 64-bit integer. The map stores copies of the
  multiplicities, each in memory of its own; \<open>mem\<close> says which of these allocations succeed.

  A stored multiplicity is never a null pointer, since the policy copies what it is given; the tests of
  the code for null multiplicities have no counterpart. Publishing a handle over one of the sources destroys
  that source and has no other effect.
\<close>

section \<open>The handle\<close>

record 'k d7_hamt_bag =
  counts :: "('k, i32) d7_hamt_map"
  total_count :: i64

datatype d7_hamt_bag_operation = D7_HAMT_BAG_UNION | D7_HAMT_BAG_INTERSECT | D7_HAMT_BAG_EXCEPT | D7_HAMT_BAG_SUM

definition d7_hamt_bag_count_equal :: "i32 \<Rightarrow> i32 \<Rightarrow> nat \<Rightarrow> bool" where
  "d7_hamt_bag_count_equal left right ctx \<longleftrightarrow> left = right"

definition d7_hamt_bag_count_retain :: "environment \<Rightarrow> i32 \<Rightarrow> nat \<Rightarrow> nat \<Rightarrow> i32 option" where
  "d7_hamt_bag_count_retain mem v ctx t = (if mem t then Some v else None)"

text \<open>The callbacks of the multiplicities have the addresses 20, 21 and 22.\<close>

definition d7_hamt_bag_map_policy ::
  "('k \<Rightarrow> 64 word) \<Rightarrow> environment \<Rightarrow> 'k d7_hamt_set_policy_arg option \<Rightarrow> ('k, i32) d7_hamt_policy_arg" where
  "d7_hamt_bag_map_policy ptr mem pol =
     (let item_policy = or_default pol (d7_hamt_set_policy_default ptr)
      in \<lparr>arg_hash = arg_set_hash item_policy, arg_key_equal = arg_set_equal item_policy,
          arg_value_equal = Some (Callback 20 d7_hamt_bag_count_equal),
          arg_retain_key = arg_retain_item item_policy,
          arg_retain_value = Some (Callback 21 (d7_hamt_bag_count_retain mem)),
          arg_release_key = arg_release_item item_policy, arg_release_value = Some 22,
          arg_context = arg_set_context item_policy\<rparr>)"

definition d7_hamt_bag_item_policy :: "'k d7_hamt_bag option \<Rightarrow> 'k d7_hamt_set_policy_arg" where
  "d7_hamt_bag_item_policy bag =
     (case bag of
        None \<Rightarrow> \<lparr>arg_set_hash = None, arg_set_equal = None, arg_retain_item = None, arg_release_item = None, arg_set_context = 0\<rparr>
      | Some b \<Rightarrow>
          (let p = policy (counts b)
           in \<lparr>arg_set_hash = Some (hash p), arg_set_equal = Some (key_equal p), arg_retain_item = Some (retain_key p),
               arg_release_item = release_key p, arg_set_context = policy_context p\<rparr>))"

definition d7_hamt_bag_policies_compatible :: "'k d7_hamt_bag \<Rightarrow> 'k d7_hamt_bag \<Rightarrow> bool" where
  "d7_hamt_bag_policies_compatible left right \<longleftrightarrow>
     d7_hamt_policy_callbacks_compatible (policy (counts left)) (policy (counts right))"

definition d7_hamt_bag_add_factory :: "i32 \<Rightarrow> 'k \<Rightarrow> d7_hamt_status + i32" where
  "d7_hamt_bag_add_factory increment key = Inr increment"

definition d7_hamt_bag_update_factory :: "i32 \<Rightarrow> 'k \<Rightarrow> i32 \<Rightarrow> d7_hamt_status + i32" where
  "d7_hamt_bag_update_factory increment key stored =
     (if sint stored \<le> 0 then Inl D7_HAMT_INVALID_ARGUMENT
      else if sint increment > INT32_MAX - sint stored then Inl D7_HAMT_OVERFLOW
      else Inr (stored + increment))"

section \<open>The operations of the code\<close>

definition d7_hamt_bag_create ::
  "('k \<Rightarrow> 64 word) \<Rightarrow> environment \<Rightarrow> 'k d7_hamt_set_policy_arg option \<Rightarrow> 'k d7_hamt_bag" where
  "d7_hamt_bag_create ptr mem pol =
     \<lparr>counts = d7_hamt_map_create ptr (Some (d7_hamt_bag_map_policy ptr mem pol)), total_count = 0\<rparr>"

definition d7_hamt_bag_clone ::
  "('k \<Rightarrow> 64 word) \<Rightarrow> environment \<Rightarrow> 'k d7_hamt_bag option \<Rightarrow> 'k d7_hamt_bag" where
  "d7_hamt_bag_clone ptr mem bag =
     (case bag of
        None \<Rightarrow> d7_hamt_bag_create ptr mem None
      | Some b \<Rightarrow> \<lparr>counts = d7_hamt_map_clone ptr (Some (counts b)), total_count = total_count b\<rparr>)"

definition d7_hamt_bag_publish_clone ::
  "('k \<Rightarrow> 64 word) \<Rightarrow> environment \<Rightarrow> 'k d7_hamt_bag \<Rightarrow> 'k d7_hamt_bag act" where
  "d7_hamt_bag_publish_clone ptr mem b = ret (d7_hamt_bag_clone ptr mem (Some b))"

definition d7_hamt_bag_destroy :: "'k d7_hamt_bag option \<Rightarrow> 'k d7_hamt_bag option" where
  "d7_hamt_bag_destroy bag =
     map_option (\<lambda>b. \<lparr>counts = the (d7_hamt_map_destroy (Some (counts b))), total_count = 0\<rparr>) bag"

definition d7_hamt_bag_distinct_count :: "'k d7_hamt_bag option \<Rightarrow> nat" where
  "d7_hamt_bag_distinct_count bag = (case bag of None \<Rightarrow> 0 | Some b \<Rightarrow> d7_hamt_map_count (Some (counts b)))"

definition d7_hamt_bag_total_count :: "'k d7_hamt_bag option \<Rightarrow> i64" where
  "d7_hamt_bag_total_count bag = (case bag of None \<Rightarrow> 0 | Some b \<Rightarrow> total_count b)"

definition d7_hamt_bag_is_empty :: "'k d7_hamt_bag option \<Rightarrow> bool" where
  "d7_hamt_bag_is_empty bag \<longleftrightarrow> d7_hamt_bag_distinct_count bag = 0"

definition d7_hamt_bag_get_policy :: "'k d7_hamt_bag option \<Rightarrow> bool \<Rightarrow> 'k d7_hamt_set_policy_arg act" where
  "d7_hamt_bag_get_policy bag result =
     (if bag = None \<or> \<not> result then fail (Status D7_HAMT_INVALID_ARGUMENT) else ret (d7_hamt_bag_item_policy bag))"

definition d7_hamt_bag_contains :: "'k d7_hamt_bag option \<Rightarrow> 'k \<Rightarrow> failure + bool" where
  "d7_hamt_bag_contains bag item =
     (case bag of None \<Rightarrow> Inr False | Some b \<Rightarrow> d7_hamt_map_contains_key (Some (counts b)) item)"

definition d7_hamt_bag_count_of :: "'k d7_hamt_bag option \<Rightarrow> 'k \<Rightarrow> failure + i32" where
  "d7_hamt_bag_count_of bag item =
     (case bag of
        None \<Rightarrow> Inr 0
      | Some b \<Rightarrow> map_found (\<lambda>v. case v of None \<Rightarrow> 0 | Some c \<Rightarrow> c) (d7_hamt_map_try_get (Some (counts b)) item))"

text \<open>Whether the item was found, and what \<open>*actual_item\<close> is left at: on a miss that is the item asked for.\<close>

definition d7_hamt_bag_try_get_value :: "'k d7_hamt_bag option \<Rightarrow> 'k \<Rightarrow> failure + bool \<times> 'k option" where
  "d7_hamt_bag_try_get_value bag equal_item =
     (case bag of
        None \<Rightarrow> Inr (False, None)
      | Some b \<Rightarrow> map_found (\<lambda>(found, k). (found, Some k)) (d7_hamt_map_try_get_key (Some (counts b)) equal_item))"

definition d7_hamt_bag_try_get_entry :: "'k d7_hamt_bag option \<Rightarrow> 'k \<Rightarrow> failure + ('k \<times> i32) option" where
  "d7_hamt_bag_try_get_entry bag equal_item =
     (case bag of
        None \<Rightarrow> Inr None
      | Some b \<Rightarrow>
          (case d7_hamt_map_try_get (Some (counts b)) equal_item of
             Inl e \<Rightarrow> Inl e
           | Inr None \<Rightarrow> Inr None
           | Inr (Some c) \<Rightarrow>
               map_found (\<lambda>(found, actual). if found then Some (actual, c) else None)
                 (d7_hamt_map_try_get_key (Some (counts b)) equal_item)))"

definition d7_hamt_bag_add_copies ::
  "('k \<Rightarrow> 64 word) \<Rightarrow> environment \<Rightarrow> 'k d7_hamt_bag option \<Rightarrow> 'k \<Rightarrow> i64 \<Rightarrow> bool \<Rightarrow> 'k d7_hamt_bag act" where
  "d7_hamt_bag_add_copies ptr mem bag item copies result =
     (case bag of
        None \<Rightarrow> fail (Status D7_HAMT_INVALID_ARGUMENT)
      | Some b \<Rightarrow>
          if \<not> result \<or> sint copies < 0 \<or> sint copies > INT32_MAX \<or> sint (total_count b) < 0
          then fail (Status D7_HAMT_INVALID_ARGUMENT)
          else if copies = 0 then d7_hamt_bag_publish_clone ptr mem b
          else if sint copies > INT64_MAX - sint (total_count b) then fail (Status D7_HAMT_OVERFLOW)
          else
            (let increment = ucast copies
             in andthen (d7_hamt_map_add_or_update (Some (counts b)) item (Some (d7_hamt_bag_add_factory increment))
                           (Some (d7_hamt_bag_update_factory increment)) True) (\<lambda>(cs, selected).
                andthen (lift_res (signed_add (total_count b) copies)) (\<lambda>total.
                ret \<lparr>counts = cs, total_count = total\<rparr>))))"

definition d7_hamt_bag_add ::
  "('k \<Rightarrow> 64 word) \<Rightarrow> environment \<Rightarrow> 'k d7_hamt_bag option \<Rightarrow> 'k \<Rightarrow> bool \<Rightarrow> 'k d7_hamt_bag act" where
  "d7_hamt_bag_add ptr mem bag item result = d7_hamt_bag_add_copies ptr mem bag item 1 result"

definition d7_hamt_bag_create_range ::
  "('k \<Rightarrow> 64 word) \<Rightarrow> environment \<Rightarrow> 'k d7_hamt_set_policy_arg option \<Rightarrow> 'k list option \<Rightarrow> bool \<Rightarrow> 'k d7_hamt_bag act" where
  "d7_hamt_bag_create_range ptr mem pol items result =
     (case items of
        None \<Rightarrow> fail (Status D7_HAMT_INVALID_ARGUMENT)
      | Some xs \<Rightarrow>
          if \<not> result then fail (Status D7_HAMT_INVALID_ARGUMENT)
          else if int (length xs) > INT64_MAX then fail (Status D7_HAMT_OVERFLOW)
          else fold_act (\<lambda>current item. d7_hamt_bag_add ptr mem (Some current) item True) (d7_hamt_bag_create ptr mem pol) xs)"

definition d7_hamt_bag_remove_copies ::
  "('k \<Rightarrow> 64 word) \<Rightarrow> environment \<Rightarrow> 'k d7_hamt_bag option \<Rightarrow> 'k \<Rightarrow> i64 \<Rightarrow> bool \<Rightarrow> 'k d7_hamt_bag act" where
  "d7_hamt_bag_remove_copies ptr mem bag item copies result =
     (case bag of
        None \<Rightarrow> fail (Status D7_HAMT_INVALID_ARGUMENT)
      | Some b \<Rightarrow>
          if \<not> result \<or> sint copies < 0 \<or> sint copies > INT32_MAX \<or> sint (total_count b) < 0
          then fail (Status D7_HAMT_INVALID_ARGUMENT)
          else if copies = 0 then d7_hamt_bag_publish_clone ptr mem b
          else andthen (lift_res (d7_hamt_map_try_get (Some (counts b)) item)) (\<lambda>found.
            case found of
              None \<Rightarrow> d7_hamt_bag_publish_clone ptr mem b
            | Some stored \<Rightarrow>
                if sint stored \<le> 0 then fail (Status D7_HAMT_INVALID_ARGUMENT)
                else
                  (let removed_count = (if sint copies \<ge> sint stored then scast stored else copies)
                   in if sint (total_count b) < sint removed_count then fail (Status D7_HAMT_INVALID_ARGUMENT)
                      else andthen
                        (if sint copies \<ge> sint stored then
                           andthen (d7_hamt_map_try_remove (Some (counts b)) item True False) (\<lambda>(removed, v, cs).
                           if \<not> removed then fail (Status D7_HAMT_INVALID_ARGUMENT) else ret cs)
                         else andthen (lift_res (signed_sub stored (ucast copies))) (\<lambda>remaining.
                           d7_hamt_map_set (Some (counts b)) item remaining True)) (\<lambda>cs.
                      andthen (lift_res (signed_sub (total_count b) removed_count)) (\<lambda>total.
                      ret \<lparr>counts = cs, total_count = total\<rparr>)))))"

definition d7_hamt_bag_remove ::
  "('k \<Rightarrow> 64 word) \<Rightarrow> environment \<Rightarrow> 'k d7_hamt_bag option \<Rightarrow> 'k \<Rightarrow> bool \<Rightarrow> 'k d7_hamt_bag act" where
  "d7_hamt_bag_remove ptr mem bag item result = d7_hamt_bag_remove_copies ptr mem bag item 1 result"

definition d7_hamt_bag_remove_all :: "'k d7_hamt_bag option \<Rightarrow> 'k \<Rightarrow> bool \<Rightarrow> 'k d7_hamt_bag act" where
  "d7_hamt_bag_remove_all bag item result =
     (case bag of
        None \<Rightarrow> fail (Status D7_HAMT_INVALID_ARGUMENT)
      | Some b \<Rightarrow>
          if \<not> result \<or> sint (total_count b) < 0 then fail (Status D7_HAMT_INVALID_ARGUMENT)
          else andthen (d7_hamt_map_try_remove (Some (counts b)) item True False) (\<lambda>(removed, v, cs).
            if \<not> removed then ret \<lparr>counts = cs, total_count = total_count b\<rparr>
            else case v of
                None \<Rightarrow> fail (Status D7_HAMT_INVALID_ARGUMENT)
              | Some c \<Rightarrow>
                  if sint c \<le> 0 \<or> sint (total_count b) < sint c then fail (Status D7_HAMT_INVALID_ARGUMENT)
                  else andthen (lift_res (signed_sub (total_count b) (scast c))) (\<lambda>total.
                    ret \<lparr>counts = cs, total_count = total\<rparr>)))"

definition d7_hamt_bag_clear :: "'k d7_hamt_bag option \<Rightarrow> bool \<Rightarrow> 'k d7_hamt_bag act" where
  "d7_hamt_bag_clear bag result =
     (case bag of
        None \<Rightarrow> fail (Status D7_HAMT_INVALID_ARGUMENT)
      | Some b \<Rightarrow>
          if \<not> result then fail (Status D7_HAMT_INVALID_ARGUMENT)
          else andthen (d7_hamt_map_clear (Some (counts b)) True) (\<lambda>cs. ret \<lparr>counts = cs, total_count = 0\<rparr>))"

section \<open>Iterators\<close>

definition d7_hamt_bag_entry_iterator_init :: "'k d7_hamt_bag option \<Rightarrow> ('k, i32) d7_hamt_map_iterator" where
  "d7_hamt_bag_entry_iterator_init bag = d7_hamt_map_iterator_init (map_option counts bag)"

definition d7_hamt_bag_entry_iterator_next ::
  "('k, i32) d7_hamt_map_iterator \<Rightarrow> failure + ('k, i32) d7_hamt_map_iterator \<times> ('k, i32) d7_hamt_entry option" where
  "d7_hamt_bag_entry_iterator_next it =
     (case d7_hamt_map_iterator_next it of
        Inl e \<Rightarrow> Inl e
      | Inr (it', None) \<Rightarrow> Inr (it', None)
      | Inr (it', Some e) \<Rightarrow> Inr (it', if sint (entry_value e) \<le> 0 then None else Some e))"

definition d7_hamt_bag_distinct_iterator_init :: "'k d7_hamt_bag option \<Rightarrow> ('k, i32) d7_hamt_map_iterator" where
  "d7_hamt_bag_distinct_iterator_init bag = d7_hamt_map_iterator_init (map_option counts bag)"

definition d7_hamt_bag_distinct_iterator_next ::
  "('k, i32) d7_hamt_map_iterator \<Rightarrow> failure + ('k, i32) d7_hamt_map_iterator \<times> 'k option" where
  "d7_hamt_bag_distinct_iterator_next it =
     (case d7_hamt_map_iterator_next it of Inl e \<Rightarrow> Inl e | Inr (it', x) \<Rightarrow> Inr (it', map_option entry_key x))"

text \<open>The iterator over all occurrences repeats each item as often as its multiplicity says.\<close>

record 'k d7_hamt_bag_iterator =
  inner :: "('k, i32) d7_hamt_map_iterator"
  current_item :: "'k option"
  remaining :: i32

definition d7_hamt_bag_iterator_init :: "'k d7_hamt_bag option \<Rightarrow> 'k d7_hamt_bag_iterator" where
  "d7_hamt_bag_iterator_init bag =
     \<lparr>inner = d7_hamt_map_iterator_init (map_option counts bag), current_item = None, remaining = 0\<rparr>"

definition d7_hamt_bag_iterator_next :: "'k d7_hamt_bag_iterator \<Rightarrow> failure + 'k d7_hamt_bag_iterator \<times> 'k option" where
  "d7_hamt_bag_iterator_next it =
     (if sint (remaining it) > 0 then
        (case signed_sub (remaining it) 1 of
           Inl e \<Rightarrow> Inl e
         | Inr r \<Rightarrow> Inr (it\<lparr>remaining := r\<rparr>, current_item it))
      else
        (case d7_hamt_map_iterator_next (inner it) of
           Inl e \<Rightarrow> Inl e
         | Inr (inner', None) \<Rightarrow> Inr (\<lparr>inner = inner', current_item = None, remaining = 0\<rparr>, None)
         | Inr (inner', Some e) \<Rightarrow>
             if sint (entry_value e) \<le> 0 then Inr (\<lparr>inner = inner', current_item = None, remaining = 0\<rparr>, None)
             else
               (case signed_sub (entry_value e) 1 of
                  Inl f \<Rightarrow> Inl f
                | Inr r \<Rightarrow> Inr (\<lparr>inner = inner', current_item = Some (entry_key e), remaining = r\<rparr>, Some (entry_key e)))))"

section \<open>Combination\<close>

text \<open>\<open>while (d7_hamt_bag_entry_iterator_next(&iterator, &entry))\<close> with a body that may return a status.\<close>

function bag_iterate ::
  "('s \<Rightarrow> ('k, i32) d7_hamt_entry \<Rightarrow> 's act) \<Rightarrow> ('k, i32) d7_hamt_map_iterator \<Rightarrow> 's \<Rightarrow> 's act" where
  "bag_iterate body it st =
     (case d7_hamt_bag_entry_iterator_next it of
        Inl e \<Rightarrow> fail e
      | Inr (it', None) \<Rightarrow> ret st
      | Inr (it', Some e) \<Rightarrow> andthen (body st e) (\<lambda>st'. bag_iterate body it' st'))"
  by pat_completeness auto
termination
proof (relation "measure (\<lambda>(body, it, st). length (iterator_rest it))", goal_cases)
  case (2 body it st r it' x e st' E t t')
  then show ?case using iterator_next_rest [of it it' x]
    by (auto simp: d7_hamt_bag_entry_iterator_next_def dest: iterator_next_rest split: sum.splits option.splits if_splits)
qed simp

declare bag_iterate.simps [simp del]

definition d7_hamt_bag_normalize ::
  "('k \<Rightarrow> 64 word) \<Rightarrow> environment \<Rightarrow> 'k d7_hamt_bag \<Rightarrow> 'k d7_hamt_bag \<Rightarrow> 'k d7_hamt_bag act" where
  "d7_hamt_bag_normalize ptr mem receiver other =
     andthen (bag_iterate (\<lambda>current e.
         if sint (entry_value e) \<le> 0 then fail (Status D7_HAMT_INVALID_ARGUMENT)
         else d7_hamt_bag_add_copies ptr mem (Some current) (entry_key e) (scast (entry_value e)) True)
       (d7_hamt_bag_entry_iterator_init (Some other))
       (d7_hamt_bag_create ptr mem (Some (d7_hamt_bag_item_policy (Some receiver))))) (\<lambda>current.
     if total_count current \<noteq> total_count other then fail (Status D7_HAMT_INVALID_ARGUMENT) else ret current)"

definition d7_hamt_bag_union_normalized ::
  "('k \<Rightarrow> 64 word) \<Rightarrow> environment \<Rightarrow> 'k d7_hamt_bag \<Rightarrow> 'k d7_hamt_bag \<Rightarrow> 'k d7_hamt_bag act" where
  "d7_hamt_bag_union_normalized ptr mem receiver other =
     bag_iterate (\<lambda>current e.
         andthen (lift_res (d7_hamt_bag_count_of (Some current) (entry_key e))) (\<lambda>receiver_count.
         if sint (entry_value e) > sint receiver_count then
           andthen (lift_res (signed_sub (entry_value e) receiver_count)) (\<lambda>missing.
           d7_hamt_bag_add_copies ptr mem (Some current) (entry_key e) (scast missing) True)
         else ret current))
       (d7_hamt_bag_entry_iterator_init (Some other)) (d7_hamt_bag_clone ptr mem (Some receiver))"

definition d7_hamt_bag_intersect_normalized ::
  "('k \<Rightarrow> 64 word) \<Rightarrow> environment \<Rightarrow> 'k d7_hamt_bag \<Rightarrow> 'k d7_hamt_bag \<Rightarrow> 'k d7_hamt_bag act" where
  "d7_hamt_bag_intersect_normalized ptr mem receiver other =
     bag_iterate (\<lambda>current e.
         andthen (lift_res (d7_hamt_bag_count_of (Some other) (entry_key e))) (\<lambda>argument_count.
         if argument_count = 0 then d7_hamt_bag_remove_all (Some current) (entry_key e) True
         else if sint argument_count < sint (entry_value e) then
           andthen (lift_res (signed_sub (entry_value e) argument_count)) (\<lambda>surplus.
           d7_hamt_bag_remove_copies ptr mem (Some current) (entry_key e) (scast surplus) True)
         else ret current))
       (d7_hamt_bag_entry_iterator_init (Some receiver)) (d7_hamt_bag_clone ptr mem (Some receiver))"

definition d7_hamt_bag_except_normalized ::
  "('k \<Rightarrow> 64 word) \<Rightarrow> environment \<Rightarrow> 'k d7_hamt_bag \<Rightarrow> 'k d7_hamt_bag \<Rightarrow> 'k d7_hamt_bag act" where
  "d7_hamt_bag_except_normalized ptr mem receiver other =
     bag_iterate (\<lambda>current e.
         andthen (lift_res (d7_hamt_bag_count_of (Some other) (entry_key e))) (\<lambda>argument_count.
         if argument_count = 0 then ret current
         else d7_hamt_bag_remove_copies ptr mem (Some current) (entry_key e) (scast argument_count) True))
       (d7_hamt_bag_entry_iterator_init (Some receiver)) (d7_hamt_bag_clone ptr mem (Some receiver))"

definition d7_hamt_bag_sum_normalized ::
  "('k \<Rightarrow> 64 word) \<Rightarrow> environment \<Rightarrow> 'k d7_hamt_bag \<Rightarrow> 'k d7_hamt_bag \<Rightarrow> 'k d7_hamt_bag act" where
  "d7_hamt_bag_sum_normalized ptr mem receiver other =
     (if sint (total_count receiver) < 0 \<or> sint (total_count other) < 0 then fail (Status D7_HAMT_INVALID_ARGUMENT)
      else if sint (total_count other) > INT64_MAX - sint (total_count receiver) then fail (Status D7_HAMT_OVERFLOW)
      else bag_iterate (\<lambda>current e.
          d7_hamt_bag_add_copies ptr mem (Some current) (entry_key e) (scast (entry_value e)) True)
        (d7_hamt_bag_entry_iterator_init (Some other)) (d7_hamt_bag_clone ptr mem (Some receiver)))"

definition d7_hamt_bag_combine ::
  "('k \<Rightarrow> 64 word) \<Rightarrow> environment \<Rightarrow> 'k d7_hamt_bag option \<Rightarrow> 'k d7_hamt_bag option \<Rightarrow> d7_hamt_bag_operation \<Rightarrow> bool
     \<Rightarrow> 'k d7_hamt_bag act" where
  "d7_hamt_bag_combine ptr mem receiver other op result =
     (case (receiver, other) of
        (Some r, Some b) \<Rightarrow>
          if \<not> result then fail (Status D7_HAMT_INVALID_ARGUMENT)
          else
            andthen (if d7_hamt_bag_policies_compatible r b then ret b else d7_hamt_bag_normalize ptr mem r b) (\<lambda>normalized.
            (case op of
               D7_HAMT_BAG_UNION \<Rightarrow> d7_hamt_bag_union_normalized
             | D7_HAMT_BAG_INTERSECT \<Rightarrow> d7_hamt_bag_intersect_normalized
             | D7_HAMT_BAG_EXCEPT \<Rightarrow> d7_hamt_bag_except_normalized
             | D7_HAMT_BAG_SUM \<Rightarrow> d7_hamt_bag_sum_normalized) ptr mem r normalized)
      | _ \<Rightarrow> fail (Status D7_HAMT_INVALID_ARGUMENT))"

definition d7_hamt_bag_union where
  "d7_hamt_bag_union ptr mem receiver other result = d7_hamt_bag_combine ptr mem receiver other D7_HAMT_BAG_UNION result"

definition d7_hamt_bag_intersect where
  "d7_hamt_bag_intersect ptr mem receiver other result = d7_hamt_bag_combine ptr mem receiver other D7_HAMT_BAG_INTERSECT result"

definition d7_hamt_bag_except where
  "d7_hamt_bag_except ptr mem receiver other result = d7_hamt_bag_combine ptr mem receiver other D7_HAMT_BAG_EXCEPT result"

definition d7_hamt_bag_sum where
  "d7_hamt_bag_sum ptr mem receiver other result = d7_hamt_bag_combine ptr mem receiver other D7_HAMT_BAG_SUM result"

section \<open>Validation\<close>

definition d7_hamt_bag_shares_root :: "'k d7_hamt_bag option \<Rightarrow> 'k d7_hamt_bag option \<Rightarrow> bool" where
  "d7_hamt_bag_shares_root left right =
     (case (left, right) of
        (Some l, Some r) \<Rightarrow> d7_hamt_map_shares_root (Some (counts l)) (Some (counts r))
      | _ \<Rightarrow> False)"

text \<open>The loop of the validator: the sum of the multiplicities and the number of entries, or \<open>None\<close> where the
  loop rejects the bag.\<close>

function bag_tally :: "('k, i32) d7_hamt_map_iterator \<Rightarrow> i64 \<Rightarrow> nat \<Rightarrow> failure + (i64 \<times> nat) option" where
  "bag_tally it running n =
     (case d7_hamt_bag_entry_iterator_next it of
        Inl e \<Rightarrow> Inl e
      | Inr (it', None) \<Rightarrow> Inr (Some (running, n))
      | Inr (it', Some e) \<Rightarrow>
          if sint (entry_value e) \<le> 0 \<or> sint running > INT64_MAX - sint (entry_value e) then Inr None
          else
            (case signed_add running (scast (entry_value e)) of
               Inl f \<Rightarrow> Inl f
             | Inr running' \<Rightarrow> bag_tally it' running' (n + 1)))"
  by pat_completeness auto
termination
  by (relation "measure (\<lambda>(it, s, n). length (iterator_rest it))")
    (auto simp: d7_hamt_bag_entry_iterator_next_def dest: iterator_next_rest split: sum.splits option.splits if_splits)

declare bag_tally.simps [simp del]

definition d7_hamt_bag_debug_validate_canonical :: "'k d7_hamt_bag option \<Rightarrow> failure + bool" where
  "d7_hamt_bag_debug_validate_canonical bag =
     (case bag of
        None \<Rightarrow> Inr False
      | Some b \<Rightarrow>
          (let p = policy (counts b)
           in if sint (total_count b) < 0 \<or> fn_ptr (value_equal p) \<noteq> 20 \<or> fn_ptr (retain_value p) \<noteq> 21
                 \<or> release_value p \<noteq> Some 22 \<or> \<not> d7_hamt_map_debug_validate_canonical (Some (counts b))
              then Inr False
              else map_found (\<lambda>found. case found of
                  None \<Rightarrow> False
                | Some (running, n) \<Rightarrow> n = count (counts b) \<and> running = total_count b)
                (bag_tally (d7_hamt_bag_entry_iterator_init (Some b)) 0 0)))"

end
