(* ===== verification/Hamt_Bag_Spec.thy ===== *)
theory Hamt_Bag_Spec
  imports "HOL-Library.Multiset" Hamt_Bag
begin

text \<open>
  The bag as a multiset of key classes. The locale \<open>bag_client\<close> is a client of the hash map that stores
  multiplicities; its lemmas say that every operation of the code is the operation of the same name on
  finite multisets, as long as the result fits the machine integers, and that it reports
  \<open>D7_HAMT_OVERFLOW\<close> only where it does not.
\<close>

section \<open>Multisets that fit the machine integers\<close>

definition bag_fits :: "'c multiset \<Rightarrow> bool" where
  "bag_fits M \<longleftrightarrow> (\<forall>C. int (Multiset.count M C) \<le> INT32_MAX) \<and> int (size M) \<le> INT64_MAX"

lemma bag_fits_subset: "bag_fits N \<Longrightarrow> M \<subseteq># N \<Longrightarrow> bag_fits M"
  unfolding bag_fits_def subseteq_mset_def using size_mset_mono [of M N]
  by (meson dual_order.trans of_nat_mono subseteq_mset_def)

lemma bag_fits_empty [simp]: "bag_fits {#}"
  by (simp add: bag_fits_def INT32_MAX_def INT64_MAX_def)

lemma card_set_mset_add:
  "0 < n \<Longrightarrow> card (set_mset (M + replicate_mset n C)) = card (set_mset M) + (if C \<in># M then 0 else 1)"
  by (simp add: insert_absorb card_insert_if Un_insert_right)

lemma size_replicate_diff: "size (M - replicate_mset n C) = size M - min n (Multiset.count M C)"
proof -
  have "M - replicate_mset n C = M - replicate_mset (min n (Multiset.count M C)) C"
    by (rule multiset_eqI) auto
  moreover have "replicate_mset (min n (Multiset.count M C)) C \<subseteq># M"
    by (simp add: subseteq_mset_def)
  ultimately show ?thesis by (simp add: size_Diff_submset)
qed

text \<open>The multiset of a list of entries: each class as often as the multiplicity says.\<close>

definition entries_mset :: "('k \<Rightarrow> 'c) \<Rightarrow> ('k, i32) d7_hamt_entry list \<Rightarrow> 'c multiset" where
  "entries_mset cl es = (\<Sum>e\<leftarrow>es. replicate_mset (nat (sint (entry_value e))) (cl (entry_key e)))"

lemma entries_mset_simps [simp]:
  "entries_mset cl [] = {#}"
  "entries_mset cl (es @ [e]) = entries_mset cl es + replicate_mset (nat (sint (entry_value e))) (cl (entry_key e))"
  "entries_mset cl (e # es) = replicate_mset (nat (sint (entry_value e))) (cl (entry_key e)) + entries_mset cl es"
  by (simp_all add: entries_mset_def)

lemma entries_mset_prefix: "entries_mset cl ys \<subseteq># entries_mset cl (ys @ zs)"
  by (simp add: entries_mset_def)

lemma count_entries_absent: "C \<notin> cl ` entry_key ` set es \<Longrightarrow> Multiset.count (entries_mset cl es) C = 0"
  by (induction es) auto

lemma count_entries:
  assumes "sorted_wrt (\<lambda>e e'. cl (entry_key e) \<noteq> cl (entry_key e')) es" and "e \<in> set es"
  shows "Multiset.count (entries_mset cl es) (cl (entry_key e)) = nat (sint (entry_value e))"
  using assms
proof (induction es)
  case (Cons x es)
  show ?case
  proof (cases "e = x")
    case True
    then show ?thesis using Cons.prems(1) count_entries_absent [of "cl (entry_key x)" cl es] by auto
  next
    case False
    then have "e \<in> set es" "cl (entry_key x) \<noteq> cl (entry_key e)" using Cons.prems by auto
    then show ?thesis using Cons by auto
  qed
qed simp

lemma bag_clone [simp]: "d7_hamt_bag_clone ptr mem (Some b) = b" "d7_hamt_bag_publish_clone ptr mem b = ret b"
  by (cases b; simp add: d7_hamt_bag_publish_clone_def d7_hamt_bag_clone_def d7_hamt_map_clone_def)+

section \<open>Loops over the entries\<close>

lemma bag_iterate_fold:
  "iterator_ok it \<Longrightarrow> (\<And>e. e \<in> set (iterator_rest it) \<Longrightarrow> 0 < sint (entry_value e)) \<Longrightarrow>
     bag_iterate body it st = fold_act body st (iterator_rest it)"
proof (induction "iterator_rest it" arbitrary: it st)
  case Nil
  obtain it' x where n: "d7_hamt_map_iterator_next it = Inr (it', x)" using iterator_next_ok [OF Nil.prems(1)] by blast
  from iterator_next_rest [OF n] Nil(1) have "x = None" by (cases x) auto
  then have "d7_hamt_bag_entry_iterator_next it = Inr (it', None)" using n by (simp add: d7_hamt_bag_entry_iterator_next_def)
  then show ?case unfolding Nil(1) [symmetric] by (subst bag_iterate.simps) simp
next
  case (Cons e es)
  have rest: "iterator_rest it = e # es" using Cons(2) by (rule sym)
  obtain it' x where n: "d7_hamt_map_iterator_next it = Inr (it', x)" "iterator_ok it'"
    using iterator_next_ok [OF Cons.prems(1)] by blast
  from iterator_next_rest [OF n(1)] rest have x: "x = Some e" "es = iterator_rest it'" by (cases x; auto)+
  have pos: "0 < sint (entry_value e')" if "e' \<in> set (e # es)" for e' using Cons.prems(2) [of e'] that rest by simp
  have "bag_iterate body it' = (\<lambda>st'. fold_act body st' es)"
    using Cons(1) [OF x(2) n(2)] pos x(2) by (simp add: fun_eq_iff)
  moreover have "d7_hamt_bag_entry_iterator_next it = Inr (it', Some e)"
    using n(1) x(1) pos [of e] by (simp add: d7_hamt_bag_entry_iterator_next_def)
  ultimately show ?case unfolding rest by (subst bag_iterate.simps) simp
qed

lemma size_entries:
  "(\<And>e. e \<in> set es \<Longrightarrow> 0 < sint (entry_value e)) \<Longrightarrow> int (size (entries_mset cl es)) = (\<Sum>e\<leftarrow>es. sint (entry_value e))"
proof (induction es)
  case (Cons e es)
  have "0 \<le> sint (entry_value e)" using Cons.prems [of e] by simp
  moreover have "int (size (entries_mset cl es)) = (\<Sum>e\<leftarrow>es. sint (entry_value e))" using Cons by simp
  ultimately show ?case by simp
qed simp

text \<open>The loop of the validator adds the multiplicities up.\<close>

lemma bag_tally_sum:
  assumes "iterator_ok it" and "\<And>e. e \<in> set (iterator_rest it) \<Longrightarrow> 0 < sint (entry_value e)"
    and "0 \<le> sint s" and "sint s + (\<Sum>e\<leftarrow>iterator_rest it. sint (entry_value e)) \<le> INT64_MAX"
  shows "\<exists>s'. bag_tally it s n = Inr (Some (s', n + length (iterator_rest it))) \<and>
    sint s' = sint s + (\<Sum>e\<leftarrow>iterator_rest it. sint (entry_value e))"
  using assms
proof (induction "iterator_rest it" arbitrary: it s n)
  case Nil
  obtain it' x where nxt: "d7_hamt_map_iterator_next it = Inr (it', x)" using iterator_next_ok [OF Nil.prems(1)] by blast
  from iterator_next_rest [OF nxt] Nil(1) have "x = None" by (cases x) auto
  then have "d7_hamt_bag_entry_iterator_next it = Inr (it', None)" using nxt by (simp add: d7_hamt_bag_entry_iterator_next_def)
  then show ?case unfolding Nil(1) [symmetric] by (subst bag_tally.simps) simp
next
  case (Cons e es)
  have rest: "iterator_rest it = e # es" using Cons(2) by (rule sym)
  obtain it' x where nxt: "d7_hamt_map_iterator_next it = Inr (it', x)" "iterator_ok it'"
    using iterator_next_ok [OF Cons.prems(1)] by blast
  from iterator_next_rest [OF nxt(1)] rest have x: "x = Some e" "es = iterator_rest it'" by (cases x; auto)+
  have pos: "0 < sint (entry_value e')" if "e' \<in> set (e # es)" for e' using Cons.prems(2) [of e'] that rest by simp
  have "0 \<le> (\<Sum>e\<leftarrow>es. sint (entry_value e))" using pos by (intro sum_list_nonneg) (auto simp: order_less_imp_le)
  then have le: "sint s + sint (entry_value e) \<le> INT64_MAX" using Cons.prems(4) rest by simp
  note add = signed_add_i64 [of s "scast (entry_value e)"]
  have add: "signed_add s (scast (entry_value e)) = Inr (s + scast (entry_value e))" "sint (s + scast (entry_value e)) = sint s + sint (entry_value e)"
    using add le Cons.prems(3) pos [of e] by simp_all
  have "d7_hamt_bag_entry_iterator_next it = Inr (it', Some e)"
    using nxt(1) x(1) pos [of e] by (simp add: d7_hamt_bag_entry_iterator_next_def)
  then have "bag_tally it s n = bag_tally it' (s + scast (entry_value e)) (n + 1)"
    using pos [of e] le add(1) by (subst bag_tally.simps) simp
  moreover have "\<exists>s'. bag_tally it' (s + scast (entry_value e)) (n + 1) = Inr (Some (s', n + 1 + length (iterator_rest it'))) \<and>
      sint s' = sint (s + scast (entry_value e)) + (\<Sum>e\<leftarrow>iterator_rest it'. sint (entry_value e))"
    using pos x(2) add(2) Cons.prems(3,4) rest order_less_imp_le [OF pos [of e]] by (intro Cons(1) [OF x(2) nxt(2)]) auto
  ultimately show ?case using rest x(2) add(2) by auto
qed

text \<open>In a list of entries of distinct classes, the class of an entry does not occur before it.\<close>

lemma fresh_class:
  assumes "sorted_wrt (\<lambda>e e'. cl (entry_key e) \<noteq> cl (entry_key e')) (ys @ x # zs)"
  shows "Multiset.count (entries_mset cl ys) (cl (entry_key x)) = 0"
  using assms by (intro count_entries_absent) (auto simp: sorted_wrt_append)

text \<open>What each operation computes on multisets.\<close>

definition bag_combined :: "d7_hamt_bag_operation \<Rightarrow> 'c multiset \<Rightarrow> 'c multiset \<Rightarrow> 'c multiset" where
  "bag_combined op M N =
     (case op of
        D7_HAMT_BAG_UNION \<Rightarrow> M \<union># N
      | D7_HAMT_BAG_INTERSECT \<Rightarrow> M \<inter># N
      | D7_HAMT_BAG_EXCEPT \<Rightarrow> M - N
      | D7_HAMT_BAG_SUM \<Rightarrow> M + N)"

section \<open>The invariant\<close>

locale bag_client = hash_map_update_client valid holds Rk "(=)" E B
  for valid :: "nat \<Rightarrow> ('k, i32) d7_hamt_map \<Rightarrow> bool" and holds Rk E B
begin

definition cls :: "'k \<Rightarrow> 'k set" where
  "cls k = {k'. Rk k k'}"

definition bag_ok :: "nat \<Rightarrow> 'k set multiset \<Rightarrow> 'k d7_hamt_bag \<Rightarrow> bool" where
  "bag_ok t M b \<longleftrightarrow>
     valid t (counts b) \<and> bag_fits M \<and> set_mset M \<subseteq> range cls \<and>
     (\<forall>k c. holds (counts b) k c \<longleftrightarrow> 0 < sint c \<and> sint c = int (Multiset.count M (cls k))) \<and>
     sint (total_count b) = int (size M) \<and> d7_hamt_map.count (counts b) = card (set_mset M)"

lemma cls_eq: "cls k = cls k' \<longleftrightarrow> Rk k k'"
  using key_equivp unfolding cls_def equivp_def by auto

lemma bag_okD:
  assumes "bag_ok t M b"
  shows "valid t (counts b)" "bag_fits M" "set_mset M \<subseteq> range cls" "sint (total_count b) = int (size M)"
    "d7_hamt_map.count (counts b) = card (set_mset M)"
    "holds (counts b) k c \<longleftrightarrow> 0 < sint c \<and> sint c = int (Multiset.count M (cls k))"
  using assms by (simp_all add: bag_ok_def)

lemma bag_ok_later: "bag_ok t M b \<Longrightarrow> t \<le> t' \<Longrightarrow> bag_ok t' M b"
  using valid_later unfolding bag_ok_def by blast

text \<open>The stored multiplicity of an item.\<close>

lemma stored_count:
  assumes "bag_ok t M b"
  obtains (absent) "d7_hamt_map_try_get (Some (counts b)) k = Inr None" "cls k \<notin># M" "\<And>c. \<not> holds (counts b) k c"
  | (present) c where "d7_hamt_map_try_get (Some (counts b)) k = Inr (Some c)" "0 < sint c"
      "sint c = int (Multiset.count M (cls k))" "cls k \<in># M"
proof (cases "Multiset.count M (cls k) = 0")
  case True
  then have none: "\<not> holds (counts b) k c" for c using bag_okD(6) [OF assms] by simp
  then have "d7_hamt_map_try_get (Some (counts b)) k = Inr None" using get_value [OF bag_okD(1) [OF assms], of k] by auto
  then show thesis using absent none True by (simp add: not_in_iff)
next
  case False
  have "int (Multiset.count M (cls k)) \<le> INT32_MAX" using bag_okD(2) [OF assms] by (simp add: bag_fits_def)
  then obtain c :: i32 where c: "sint c = int (Multiset.count M (cls k))" using sint_nat_exists False by blast
  then have "holds (counts b) k c" using bag_okD(6) [OF assms] False by simp
  then have "d7_hamt_map_try_get (Some (counts b)) k = Inr (Some c)" using get_value [OF bag_okD(1) [OF assms], of k] by auto
  then show thesis using present c False by (simp add: count_inI)
qed

lemma count_of_ok:
  assumes "bag_ok t M b"
  obtains c where "d7_hamt_bag_count_of (Some b) k = Inr c" "sint c = int (Multiset.count M (cls k))"
  using assms by (rule stored_count [of _ _ _ k]) (auto simp: d7_hamt_bag_count_of_def map_found_def not_in_iff intro: that)

lemma contains_ok:
  assumes "bag_ok t M b"
  shows "d7_hamt_bag_contains (Some b) k = Inr (cls k \<in># M)"
  using assms contains [OF bag_okD(1) [OF assms], of k] bag_okD(6) [OF assms, of k]
  by (auto simp: d7_hamt_bag_contains_def elim: stored_count [of _ _ _ k])

text \<open>A handle whose map has one multiplicity changed.\<close>

lemma bag_ok_rebound:
  assumes ok: "bag_ok t M b" and fits: "bag_fits M'" and valid: "valid t' cs"
    and holds: "holds cs = bound_to Rk (=) k c (holds (counts b))"
    and c: "0 < sint c" "sint c = int (Multiset.count M' (cls k))"
    and other: "\<And>C. C \<noteq> cls k \<Longrightarrow> Multiset.count M' C = Multiset.count M C"
    and size: "sint tot = int (size M')"
    and card: "d7_hamt_map.count cs = d7_hamt_map.count (counts b) + (if cls k \<in># M then 0 else 1)"
  shows "bag_ok t' M' \<lparr>counts = cs, total_count = tot\<rparr>"
proof -
  have "C \<in># M' \<longleftrightarrow> C = cls k \<or> C \<in># M" for C
    using c other [of C] by (cases "C = cls k") (auto simp flip: count_greater_zero_iff)
  then have set: "set_mset M' = insert (cls k) (set_mset M)" by blast
  have "holds cs k' c' \<longleftrightarrow> 0 < sint c' \<and> sint c' = int (Multiset.count M' (cls k'))" for k' c'
  proof (cases "Rk k k'")
    case True
    then have "cls k' = cls k" using cls_eq by blast
    then show ?thesis unfolding holds if_P [OF True] using c sint_inject [of c c'] by metis
  next
    case False
    then have "cls k' \<noteq> cls k" using cls_eq by blast
    then show ?thesis using False other [of "cls k'"] bag_okD(6) [OF ok, of k' c'] by (simp add: holds)
  qed
  moreover have "set_mset M' \<subseteq> range cls" using bag_okD(3) [OF ok] by (simp add: set)
  moreover have "d7_hamt_map.count cs = card (set_mset M')" using card bag_okD(5) [OF ok] by (simp add: set card_insert_if)
  ultimately show ?thesis using fits valid size by (simp add: bag_ok_def)
qed

lemma bag_ok_unbound:
  assumes ok: "bag_ok t M b" and valid: "valid t' cs" and holds: "holds cs = unbound Rk k (holds (counts b))"
    and size: "sint tot = int (size (filter_mset (\<lambda>C. C \<noteq> cls k) M))"
    and card: "d7_hamt_map.count cs + (if cls k \<in># M then 1 else 0) = d7_hamt_map.count (counts b)"
  shows "bag_ok t' (filter_mset (\<lambda>C. C \<noteq> cls k) M) \<lparr>counts = cs, total_count = tot\<rparr>"
proof -
  let ?M = "filter_mset (\<lambda>C. C \<noteq> cls k) M"
  have "holds cs k' c' \<longleftrightarrow> 0 < sint c' \<and> sint c' = int (Multiset.count ?M (cls k'))" for k' c'
  proof (cases "Rk k k'")
    case True
    then have "cls k' = cls k" using cls_eq by blast
    then show ?thesis using True by (simp add: holds)
  next
    case False
    then have "cls k' \<noteq> cls k" using cls_eq by blast
    then show ?thesis using False bag_okD(6) [OF ok, of k' c'] by (simp add: holds)
  qed
  moreover have "bag_fits ?M" using bag_okD(2) [OF ok] by (rule bag_fits_subset) simp
  moreover have "set_mset ?M = set_mset M - {cls k}" by auto
  ultimately show ?thesis
    using valid size card bag_okD(3,5) [OF ok] by (auto simp: bag_ok_def card_Diff_singleton_if)
qed

section \<open>Single items\<close>

text \<open>The value the factories choose.\<close>

lemma chosen_count:
  assumes ok: "bag_ok t M b" and found: "d7_hamt_map_try_get (Some (counts b)) k = Inr found" and inc: "0 < sint inc"
  shows "case (case found of None \<Rightarrow> d7_hamt_bag_add_factory inc k | Some v \<Rightarrow> d7_hamt_bag_update_factory inc k v) of
      Inl s \<Rightarrow> s = D7_HAMT_OVERFLOW \<and> int (Multiset.count M (cls k)) + sint inc > INT32_MAX
    | Inr c \<Rightarrow> sint c = int (Multiset.count M (cls k)) + sint inc"
  using ok
proof (cases rule: stored_count [of _ _ _ k])
  case absent
  then show ?thesis using found by (simp add: d7_hamt_bag_add_factory_def not_in_iff)
next
  case (present c)
  then show ?thesis
    using found inc sint_add_i32 [of c inc] by (auto simp: d7_hamt_bag_update_factory_def)
qed

lemma bag_fits_added:
  assumes "bag_fits M" and "int (Multiset.count M C) + int n \<le> INT32_MAX" and "int (size M) + int n \<le> INT64_MAX"
  shows "bag_fits (M + replicate_mset n C)"
  using assms by (simp add: bag_fits_def)

text \<open>Adding copies once the guards have been passed.\<close>

lemma add_positive_spec:
  fixes copies :: i64 and k :: 'k
  assumes ok: "bag_ok t M b" and range: "0 < sint copies" "sint copies \<le> INT32_MAX"
    and total: "sint copies \<le> INT64_MAX - sint (total_count b)"
  defines "M' \<equiv> M + replicate_mset (nat (sint copies)) (cls k)" and "inc \<equiv> ucast copies :: i32"
  shows "if bag_fits M' then achieves E B t
      (andthen (d7_hamt_map_add_or_update (Some (counts b)) k (Some (d7_hamt_bag_add_factory inc)) (Some (d7_hamt_bag_update_factory inc)) True)
        (\<lambda>(cs, selected). andthen (lift_res (signed_add (total_count b) copies)) (\<lambda>total. ret \<lparr>counts = cs, total_count = total\<rparr>)))
      (\<lambda>b' t'. bag_ok t' M' b')
    else d7_hamt_map_add_or_update (Some (counts b)) k (Some (d7_hamt_bag_add_factory inc)) (Some (d7_hamt_bag_update_factory inc)) True E t =
      (Inl (Status D7_HAMT_OVERFLOW), t)"
proof -
  note tot = bag_okD(4) [OF ok]
  let ?C = "cls k"
  have inc: "sint inc = sint copies" unfolding inc_def using range by (intro sint_narrowed) simp_all
  obtain found where found: "d7_hamt_map_try_get (Some (counts b)) k = Inr found" and absent: "found = None \<longleftrightarrow> ?C \<notin># M"
    using ok by (rule stored_count [of _ _ _ k]) simp_all
  note choice = chosen_count [OF ok found, of inc, unfolded inc, OF range(1)]
  note law = add_or_update [OF bag_okD(1) [OF ok] found, of "d7_hamt_bag_add_factory inc" "d7_hamt_bag_update_factory inc"]
  show ?thesis
  proof (cases "case found of None \<Rightarrow> d7_hamt_bag_add_factory inc k | Some v \<Rightarrow> d7_hamt_bag_update_factory inc k v")
    case (Inl s)
    then have "\<not> bag_fits M'" using choice range(1) by (auto simp: M'_def bag_fits_def intro!: exI [of _ ?C])
    then show ?thesis using law choice unfolding Inl by simp
  next
    case (Inr c)
    then have c: "sint c = int (Multiset.count M' ?C)" and pos: "0 < sint c" using choice range(1) by (simp_all add: M'_def)
    have fits': "bag_fits M'"
      unfolding M'_def using c sint_i32(1) [of c] range total tot bag_okD(2) [OF ok]
      by (intro bag_fits_added) (simp_all add: M'_def)
    have size: "signed_add (total_count b) copies = Inr (total_count b + copies)" "sint (total_count b + copies) = int (size M')"
      using signed_add_i64 [of "total_count b" copies] range total tot by (simp_all add: M'_def)
    have "bag_ok t1 M' \<lparr>counts = cs, total_count = total_count b + copies\<rparr>"
      if "valid t1 cs" "holds cs = bound_to Rk (=) k c (holds (counts b))"
        "d7_hamt_map.count cs = d7_hamt_map.count (counts b) + (if found = None then 1 else 0)" for cs t1
      using that(3) absent by (intro bag_ok_rebound [OF ok fits' that(1,2) pos c _ size(2)]) (auto simp: M'_def)
    then show ?thesis
      unfolding if_P [OF fits'] size(1)
      by (intro achieves_andthen [OF law [unfolded Inr sum.case]]) (auto intro!: achieves_ret)
  qed
qed

lemma add_copies_spec:
  fixes copies :: i64 and k :: 'k
  assumes ok: "bag_ok t M b" and range: "0 \<le> sint copies" "sint copies \<le> INT32_MAX"
  defines "M' \<equiv> M + replicate_mset (nat (sint copies)) (cls k)"
  shows "if bag_fits M' then achieves E B t (d7_hamt_bag_add_copies ptr mem (Some b) k copies True) (\<lambda>b' t'. bag_ok t' M' b')
    else d7_hamt_bag_add_copies ptr mem (Some b) k copies True E t = (Inl (Status D7_HAMT_OVERFLOW), t)"
proof -
  note tot = bag_okD(4) [OF ok]
  consider (zero) "copies = 0" | (total) "0 < sint copies" "sint copies > INT64_MAX - sint (total_count b)"
    | (go) "0 < sint copies" "sint copies \<le> INT64_MAX - sint (total_count b)"
    using range sint_inject [of copies 0] by force
  then show ?thesis
  proof cases
    case zero
    then have "M' = M" and "d7_hamt_bag_add_copies ptr mem (Some b) k copies True = ret b"
      using tot by (simp_all add: M'_def d7_hamt_bag_add_copies_def INT32_MAX_def)
    then show ?thesis using ok bag_okD(2) [OF ok] by (simp add: achieves_ret)
  next
    case total
    then have "\<not> bag_fits M'" using tot by (simp add: M'_def bag_fits_def)
    then show ?thesis using total range tot by (auto simp: d7_hamt_bag_add_copies_def fail_def)
  next
    case go
    have run: "d7_hamt_bag_add_copies ptr mem (Some b) k copies True =
        andthen (d7_hamt_map_add_or_update (Some (counts b)) k (Some (d7_hamt_bag_add_factory (ucast copies)))
            (Some (d7_hamt_bag_update_factory (ucast copies))) True)
          (\<lambda>(cs, selected). andthen (lift_res (signed_add (total_count b) copies)) (\<lambda>total. ret \<lparr>counts = cs, total_count = total\<rparr>))"
      using go range tot by (auto simp: d7_hamt_bag_add_copies_def Let_def)
    show ?thesis
      using add_positive_spec [OF ok go(1) range(2) go(2), of k] unfolding run M'_def
      by (auto simp: andthen_def split: if_splits)
  qed
qed

lemma diff_replicate_all: "int (Multiset.count M C) \<le> int n \<Longrightarrow> M - replicate_mset n C = filter_mset (\<lambda>D. D \<noteq> C) M"
  by (rule multiset_eqI) auto

text \<open>The size of a bag without one class.\<close>

lemma size_without: "int (size (filter_mset (\<lambda>D. D \<noteq> C) M)) = int (size M) - int (Multiset.count M C)"
proof -
  have "filter_mset (\<lambda>D. D \<noteq> C) M = M - replicate_mset (Multiset.count M C) C" by (rule diff_replicate_all [symmetric]) simp
  then show ?thesis using count_le_size [of M C] by (simp add: size_replicate_diff)
qed

lemma total_minus:
  assumes ok: "bag_ok t M b" and c: "0 \<le> sint c" "sint c \<le> int (Multiset.count M C)"
  shows "signed_sub (total_count b) c = Inr (total_count b - c)" "sint (total_count b - c) = int (size M) - sint c"
    "sint c \<le> sint (total_count b)"
proof -
  have "sint c \<le> int (size M)" using c(2) count_le_size [of M C] by simp
  then show "signed_sub (total_count b) c = Inr (total_count b - c)" "sint (total_count b - c) = int (size M) - sint c"
    "sint c \<le> sint (total_count b)"
    using signed_sub_nonneg [of "total_count b" c] c(1) bag_okD(4) [OF ok] by simp_all
qed

text \<open>Unbinding a class that the bag holds, and lowering its multiplicity.\<close>

lemma unbind_spec:
  assumes ok: "bag_ok t M b" and found: "d7_hamt_map_try_get (Some (counts b)) k = Inr (Some c)"
    and c: "sint c = int (Multiset.count M (cls k))" and mem: "cls k \<in># M"
  shows "achieves E B t (d7_hamt_map_try_remove (Some (counts b)) k True False)
    (\<lambda>(removed, v, cs) t'. removed \<and> v = Some c \<and>
       bag_ok t' (filter_mset (\<lambda>C. C \<noteq> cls k) M) \<lparr>counts = cs, total_count = total_count b - scast c\<rparr>)"
proof (rule achieves_weaken [OF try_remove [OF bag_okD(1) [OF ok] found]], clarify)
  fix removed v cs t1
  assume cs: "valid t1 cs" "holds cs = unbound Rk k (holds (counts b))"
    "d7_hamt_map.count cs + (if Some c = None then 0 else 1) = d7_hamt_map.count (counts b)"
  have "sint (total_count b - scast c) = int (size (filter_mset (\<lambda>C. C \<noteq> cls k) M))"
    using total_minus(2) [OF ok, of "scast c" "cls k"] c by (simp add: size_without)
  then have "bag_ok t1 (filter_mset (\<lambda>C. C \<noteq> cls k) M) \<lparr>counts = cs, total_count = total_count b - scast c\<rparr>"
    using cs(3) mem by (intro bag_ok_unbound [OF ok cs(1,2)]) simp_all
  then show "(Some c \<noteq> None) \<and> Some c = Some c \<and> bag_ok t1 (filter_mset (\<lambda>C. C \<noteq> cls k) M) \<lparr>counts = cs, total_count = total_count b - scast c\<rparr>"
    by simp
qed

lemma lower_spec:
  fixes copies :: i64
  assumes ok: "bag_ok t M b" and c: "sint c = int (Multiset.count M (cls k))"
    and range: "0 \<le> sint copies" "sint copies < sint c"
  shows "achieves E B t (d7_hamt_map_set (Some (counts b)) k (c - ucast copies) True)
    (\<lambda>cs t'. bag_ok t' (M - replicate_mset (nat (sint copies)) (cls k)) \<lparr>counts = cs, total_count = total_count b - copies\<rparr>)"
proof (rule achieves_weaken [OF set [OF bag_okD(1) [OF ok]]], clarify)
  let ?M = "M - replicate_mset (nat (sint copies)) (cls k)"
  fix cs t1
  assume cs: "valid t1 cs" "holds cs = bound_to Rk (=) k (c - ucast copies) (holds (counts b))"
    "d7_hamt_map.count cs = d7_hamt_map.count (counts b) + (if \<exists>v. holds (counts b) k v then 0 else 1)"
  have fits: "bag_fits ?M" using bag_okD(2) [OF ok] by (rule bag_fits_subset) simp
  have inc: "sint (ucast copies :: i32) = sint copies" using range sint_i32(1) [of c] by (intro sint_narrowed) simp_all
  have low: "sint (c - ucast copies) = sint c - sint copies" using signed_sub_nonneg(2) [of c "ucast copies"] range inc by simp
  have held: "\<exists>v. holds (counts b) k v" and mem: "cls k \<in># M"
    using c range bag_okD(6) [OF ok, of k c] by (auto simp flip: count_greater_zero_iff)
  have "int (size ?M) = int (size M) - sint copies"
    using range c count_le_size [of M "cls k"] by (simp add: size_replicate_diff)
  then have size: "sint (total_count b - copies) = int (size ?M)" using total_minus(2) [OF ok, of copies "cls k"] range c by simp
  show "bag_ok t1 ?M \<lparr>counts = cs, total_count = total_count b - copies\<rparr>"
    using low c range cs(3) held mem by (intro bag_ok_rebound [OF ok fits cs(1,2) _ _ _ size]) simp_all
qed

lemma remove_all_spec:
  assumes ok: "bag_ok t M b"
  shows "achieves E B t (d7_hamt_bag_remove_all (Some b) k True) (\<lambda>b' t'. bag_ok t' (filter_mset (\<lambda>C. C \<noteq> cls k) M) b')"
proof -
  let ?M = "filter_mset (\<lambda>C. C \<noteq> cls k) M"
  note tot = bag_okD(4) [OF ok]
  have guard: "\<not> (\<not> True \<or> sint (total_count b) < 0)" using tot by simp
  note run = d7_hamt_bag_remove_all_def [of "Some b" k True, unfolded option.case if_not_P [OF guard]]
  show ?thesis
  proof (cases rule: stored_count [OF ok, of k])
    case 1
    then have eq: "?M = M" by (intro filter_mset_eq_conv [THEN iffD2]) auto
    have "achieves E B t (d7_hamt_map_try_remove (Some (counts b)) k True False)
        (\<lambda>(removed, v, cs) t'. \<not> removed \<and> bag_ok t' M \<lparr>counts = cs, total_count = total_count b\<rparr>)"
      using 1(2) bag_ok_unbound [OF ok, of _ _ k "total_count b"] tot
      by (intro achieves_weaken [OF try_remove [OF bag_okD(1) [OF ok] 1(1)]]) (auto simp: eq)
    then show ?thesis unfolding run eq by (rule achieves_andthen) (auto intro!: achieves_ret)
  next
    case (2 c)
    have sub: "signed_sub (total_count b) (scast c) = Inr (total_count b - scast c)" "\<not> (sint c \<le> 0 \<or> sint (total_count b) < sint c)"
      using total_minus [OF ok, of "scast c" "cls k"] 2(2,3) by simp_all
    show ?thesis
      unfolding run using sub
      by (intro achieves_andthen [OF unbind_spec [OF ok 2(1,3,4)]]) (auto intro!: achieves_ret)
  qed
qed

lemma remove_copies_spec:
  fixes copies :: i64
  assumes ok: "bag_ok t M b" and range: "0 \<le> sint copies" "sint copies \<le> INT32_MAX"
  shows "achieves E B t (d7_hamt_bag_remove_copies ptr mem (Some b) k copies True)
    (\<lambda>b' t'. bag_ok t' (M - replicate_mset (nat (sint copies)) (cls k)) b')"
proof -
  let ?n = "nat (sint copies)" and ?C = "cls k"
  have guard: "\<not> (\<not> True \<or> sint copies < 0 \<or> sint copies > INT32_MAX \<or> sint (total_count b) < 0)"
    using range bag_okD(4) [OF ok] by simp
  note run = d7_hamt_bag_remove_copies_def [of ptr mem "Some b" k copies True, unfolded option.case if_not_P [OF guard]]
  show ?thesis
  proof (cases rule: stored_count [OF ok, of k])
    case 1
    then have "M - replicate_mset ?n ?C = M" by (intro multiset_eqI) (auto simp: not_in_iff)
    then show ?thesis unfolding run using 1(1) ok by (simp add: achieves_ret)
  next
    case (2 c)
    have guard': "\<not> sint c \<le> 0" using 2(2) by simp
    consider (zero) "copies = 0" | (all) "copies \<noteq> 0" "sint c \<le> sint copies" | (part) "copies \<noteq> 0" "\<not> sint c \<le> sint copies" by blast
    then show ?thesis
    proof cases
      case zero
      then show ?thesis unfolding run using ok by (simp add: achieves_ret)
    next
      case all
      have M: "M - replicate_mset ?n ?C = filter_mset (\<lambda>C. C \<noteq> ?C) M" using all(2) 2(3) by (intro diff_replicate_all) simp
      have sub: "signed_sub (total_count b) (scast c) = Inr (total_count b - scast c)" "\<not> sint (total_count b) < sint (scast c :: i64)"
        using total_minus [OF ok, of "scast c" ?C] 2(2,3) by simp_all
      have "achieves E B t (andthen (d7_hamt_map_try_remove (Some (counts b)) k True False) (\<lambda>(removed, v, cs).
          if \<not> removed then fail (Status D7_HAMT_INVALID_ARGUMENT) else ret cs))
          (\<lambda>cs t'. bag_ok t' (M - replicate_mset ?n ?C) \<lparr>counts = cs, total_count = total_count b - scast c\<rparr>)"
        unfolding M by (rule achieves_andthen [OF unbind_spec [OF ok 2(1,3,4)]]) (auto intro!: achieves_ret)
      then show ?thesis
        unfolding run if_not_P [OF all(1)] 2(1) lift_Inr option.case if_not_P [OF guard'] if_P [OF all(2)] Let_def if_not_P [OF sub(2)] sub(1)
        by (rule achieves_andthen) (rule achieves_ret)
    next
      case part
      have lt: "sint copies < sint c" using part(2) by simp
      have inc: "sint (ucast copies :: i32) = sint copies" using range by (rule sint_narrowed)
      have sub32: "signed_sub c (ucast copies) = Inr (c - ucast copies)" using signed_sub_nonneg(1) [of c "ucast copies"] range inc 2(2) by simp
      have sub: "signed_sub (total_count b) copies = Inr (total_count b - copies)" "\<not> sint (total_count b) < sint copies"
        using total_minus [OF ok, of copies ?C] range lt 2(3) by simp_all
      show ?thesis
        unfolding run if_not_P [OF part(1)] 2(1) lift_Inr option.case if_not_P [OF guard'] if_not_P [OF part(2)] Let_def if_not_P [OF sub(2)] sub(1) sub32
        by (rule achieves_andthen [OF lower_spec [OF ok 2(3) range(1) lt]]) (rule achieves_ret)
    qed
  qed
qed

lemma clear_spec:
  assumes ok: "bag_ok t M b"
  shows "\<exists>b'. d7_hamt_bag_clear (Some b) True E t = (Inr b', t) \<and> bag_ok t {#} b'"
proof -
  obtain cs where "d7_hamt_map_clear (Some (counts b)) True E t = (Inr cs, t)" "valid t cs" "\<forall>k v. \<not> holds cs k v"
    "d7_hamt_map.count cs = 0" using clear [OF bag_okD(1) [OF ok]] by blast
  then show ?thesis by (auto simp: d7_hamt_bag_clear_def andthen_def ret_def bag_ok_def)
qed

section \<open>Iteration\<close>

lemma bag_entries:
  assumes ok: "bag_ok t M b"
  obtains es where "iterator_ok (d7_hamt_bag_entry_iterator_init (Some b))"
    and "iterator_rest (d7_hamt_bag_entry_iterator_init (Some b)) = es" and "length es = card (set_mset M)"
    and "sorted_wrt (\<lambda>e e'. cls (entry_key e) \<noteq> cls (entry_key e')) es"
    and "\<And>e. e \<in> set es \<Longrightarrow> 0 < sint (entry_value e)" and "entries_mset cls es = M"
proof -
  obtain es where es: "iterator_ok (d7_hamt_map_iterator_init (Some (counts b)))"
      "iterator_rest (d7_hamt_map_iterator_init (Some (counts b))) = es" "length es = d7_hamt_map.count (counts b)"
      "sorted_wrt (\<lambda>e e'. \<not> Rk (entry_key e) (entry_key e')) es"
      "\<And>k v. holds (counts b) k v \<longleftrightarrow> (\<exists>e\<in>set es. Rk (entry_key e) k \<and> entry_value e = v)"
    using iteration [OF bag_okD(1) [OF ok]] by blast
  have sorted: "sorted_wrt (\<lambda>e e'. cls (entry_key e) \<noteq> cls (entry_key e')) es" using es(4) by (simp add: cls_eq)
  have held: "0 < sint (entry_value e) \<and> sint (entry_value e) = int (Multiset.count M (cls (entry_key e)))" if "e \<in> set es" for e
  proof -
    have "holds (counts b) (entry_key e) (entry_value e)" unfolding es(5) using that key_refl by blast
    then show ?thesis using bag_okD(6) [OF ok] by blast
  qed
  have "Multiset.count (entries_mset cls es) C = Multiset.count M C" for C
  proof (cases "C \<in> cls ` entry_key ` set es")
    case True
    then show ?thesis using count_entries [OF sorted] held by fastforce
  next
    case False
    have "C \<notin># M"
    proof
      assume "C \<in># M"
      then obtain k where k: "C = cls k" using bag_okD(3) [OF ok] by auto
      then obtain c where "holds (counts b) k c"
        using \<open>C \<in># M\<close> stored_count [OF ok, of k] bag_okD(6) [OF ok] by metis
      then show False using es(5) False k cls_eq by (metis image_eqI)
    qed
    then show ?thesis using count_entries_absent [OF False] by (simp add: not_in_iff)
  qed
  then have mset: "entries_mset cls es = M" by (rule multiset_eqI)
  have pos: "\<And>e. e \<in> set es \<Longrightarrow> 0 < sint (entry_value e)" using held by blast
  show thesis
    using es(1-3) bag_okD(5) [OF ok] by (intro that [OF _ _ _ sorted pos mset]) (simp_all add: d7_hamt_bag_entry_iterator_init_def)
qed

section \<open>Combination\<close>

lemma add_yields:
  fixes copies :: i64
  assumes "bag_ok t M b" and "0 \<le> sint copies" and "sint copies \<le> INT32_MAX"
    and "M' = M + replicate_mset (nat (sint copies)) (cls k)" and "\<not> bag_fits M' \<Longrightarrow> ov"
  shows "yields ov E B t (d7_hamt_bag_add_copies ptr mem (Some b) k copies True) (\<lambda>b' t'. bag_ok t' M' b')"
  using add_copies_spec [OF assms(1-3), of k ptr mem] assms(4,5)
  by (auto intro: achieves_reports reports_status split: if_splits)

lemma sum_entries_spec:
  assumes ok: "bag_ok t M b" and pos: "\<And>e. e \<in> set es \<Longrightarrow> 0 < sint (entry_value e)"
  shows "yields (\<not> bag_fits (M + entries_mset cls es)) E B t
    (fold_act (\<lambda>current e. d7_hamt_bag_add_copies ptr mem (Some current) (entry_key e) (scast (entry_value e)) True) b es)
    (\<lambda>b' t'. bag_ok t' (M + entries_mset cls es) b')"
proof (rule reports_fold_act [where I = "\<lambda>ys b' t'. bag_ok t' (M + entries_mset cls ys) b'"])
  fix ys x zs a t'
  assume es: "es = ys @ x # zs" and inv: "bag_ok t' (M + entries_mset cls ys) a"
  have sub: "M + entries_mset cls (ys @ [x]) \<subseteq># M + entries_mset cls es"
    using entries_mset_prefix [of cls "ys @ [x]" zs] es by simp
  show "yields (\<not> bag_fits (M + entries_mset cls es)) E B t'
      (d7_hamt_bag_add_copies ptr mem (Some a) (entry_key x) (scast (entry_value x)) True)
      (\<lambda>b' t'. bag_ok t' (M + entries_mset cls (ys @ [x])) b')"
    using pos [of x] es sint_i32(1) [of "entry_value x"] bag_fits_subset [OF _ sub]
    by (intro add_yields [OF inv]) (auto simp: add.assoc)
qed (use ok in simp)

text \<open>The loops of the code run over the entries of a bag.\<close>

lemma bag_loop:
  assumes "bag_ok t M b"
  obtains es where "sorted_wrt (\<lambda>e e'. cls (entry_key e) \<noteq> cls (entry_key e')) es"
    and "\<And>e. e \<in> set es \<Longrightarrow> 0 < sint (entry_value e)" and "entries_mset cls es = M"
    and "\<And>body (st :: 'k d7_hamt_bag). bag_iterate body (d7_hamt_bag_entry_iterator_init (Some b)) st = fold_act body st es"
  by (rule bag_entries [OF assms]) (metis that bag_iterate_fold)

lemma sum_spec:
  assumes r: "bag_ok t M r" and other: "bag_ok t N b"
  shows "yields (\<not> bag_fits (M + N)) E B t (d7_hamt_bag_sum_normalized ptr mem r b) (\<lambda>b' t'. bag_ok t' (M + N) b')"
proof -
  obtain es where es: "\<And>e. e \<in> set es \<Longrightarrow> 0 < sint (entry_value e)" "entries_mset cls es = N"
    "\<And>body (st :: 'k d7_hamt_bag). bag_iterate body (d7_hamt_bag_entry_iterator_init (Some b)) st = fold_act body st es"
    using bag_loop [OF other] by metis
  have tot: "\<not> (sint (total_count r) < 0 \<or> sint (total_count b) < 0)" using bag_okD(4) [OF r] bag_okD(4) [OF other] by simp
  show ?thesis
  proof (cases "sint (total_count b) > INT64_MAX - sint (total_count r)")
    case True
    then have "\<not> bag_fits (M + N)" using bag_okD(4) [OF r] bag_okD(4) [OF other] by (simp add: bag_fits_def)
    then show ?thesis unfolding d7_hamt_bag_sum_normalized_def if_not_P [OF tot] if_P [OF True] by (rule reports_fail)
  next
    case False
    then show ?thesis
      unfolding d7_hamt_bag_sum_normalized_def if_not_P [OF tot] if_not_P [OF False] es(3) bag_clone
      using sum_entries_spec [OF r es(1), of es] es(2) by simp
  qed
qed

lemma union_step:
  assumes fresh: "Multiset.count Y C = 0" and n: "n = v - Multiset.count M C"
  shows "M \<union># Y + replicate_mset n C = M \<union># (Y + replicate_mset v C)"
  using assms by (intro multiset_eqI) auto

lemma union_spec:
  assumes r: "bag_ok t M r" and other: "bag_ok t N b"
  shows "yields (\<not> bag_fits (M \<union># N)) E B t (d7_hamt_bag_union_normalized ptr mem r b) (\<lambda>b' t'. bag_ok t' (M \<union># N) b')"
proof -
  obtain es where es: "sorted_wrt (\<lambda>e e'. cls (entry_key e) \<noteq> cls (entry_key e')) es"
    "\<And>e. e \<in> set es \<Longrightarrow> 0 < sint (entry_value e)" "entries_mset cls es = N"
    "\<And>body (st :: 'k d7_hamt_bag). bag_iterate body (d7_hamt_bag_entry_iterator_init (Some b)) st = fold_act body st es"
    using bag_loop [OF other] by metis
  show ?thesis
    unfolding d7_hamt_bag_union_normalized_def es(4) bag_clone es(3) [symmetric]
  proof (rule reports_fold_act [where I = "\<lambda>ys b' t'. bag_ok t' (M \<union># entries_mset cls ys) b'"])
    fix ys zs a t' and x :: "('k, i32) d7_hamt_entry"
    let ?C = "cls (entry_key x)" and ?Y = "entries_mset cls ys"
    assume xs: "es = ys @ x # zs" and inv: "bag_ok t' (M \<union># ?Y) a"
    have fresh: "Multiset.count ?Y ?C = 0" using fresh_class [OF es(1) [unfolded xs]] .
    obtain rc where rc: "d7_hamt_bag_count_of (Some a) (entry_key x) = Inr rc" "sint rc = int (Multiset.count M ?C)"
      using count_of_ok [OF inv, of "entry_key x"] fresh by auto
    have pos: "0 < sint (entry_value x)" using es(2) xs by simp
    have sub: "M \<union># entries_mset cls (ys @ [x]) \<subseteq># M \<union># entries_mset cls es"
      using entries_mset_prefix [of cls "ys @ [x]" zs] xs by (intro subset_mset.sup_mono) simp_all
    note step = union_step [OF fresh, of "nat (sint (entry_value x) - sint rc)" "nat (sint (entry_value x))" M]
    have low: "signed_sub (entry_value x) rc = Inr (entry_value x - rc)" "sint (entry_value x - rc) = sint (entry_value x) - sint rc"
      using signed_sub_nonneg [of "entry_value x" rc] pos rc(2) by simp_all
    have add: "yields (\<not> bag_fits (M \<union># entries_mset cls es)) E B t'
        (d7_hamt_bag_add_copies ptr mem (Some a) (entry_key x) (scast (entry_value x - rc)) True)
        (\<lambda>b' t'. bag_ok t' (M \<union># entries_mset cls (ys @ [x])) b')" if "sint (entry_value x) > sint rc"
      using that sint_i32(1) [of "entry_value x - rc"] low(2) step rc(2) bag_fits_subset [OF _ sub]
      by (intro add_yields [OF inv]) (auto simp: nat_diff_distrib)
    have "M \<union># entries_mset cls (ys @ [x]) = M \<union># ?Y" if "\<not> sint (entry_value x) > sint rc"
      using that step rc(2) by (simp add: nat_diff_distrib)
    then show "yields (\<not> bag_fits (M \<union># entries_mset cls es)) E B t'
        (andthen (lift_res (d7_hamt_bag_count_of (Some a) (entry_key x))) (\<lambda>receiver_count.
         if sint (entry_value x) > sint receiver_count then
           andthen (lift_res (signed_sub (entry_value x) receiver_count)) (\<lambda>missing.
           d7_hamt_bag_add_copies ptr mem (Some a) (entry_key x) (scast missing) True)
         else ret a)) (\<lambda>b' t'. bag_ok t' (M \<union># entries_mset cls (ys @ [x])) b')"
      using inv add by (auto simp: rc(1) low(1) intro!: reports_ret)
  qed (use r in simp)
qed

text \<open>Intersection and difference visit the entries of the receiver and lower the multiplicity of each by what \<open>f\<close>
  says; \<open>keep\<close> is the bag after the entries visited so far.\<close>

lemma visit_spec:
  fixes f :: "'k set \<Rightarrow> nat"
  assumes r: "bag_ok t M r" and f: "\<And>C. f C \<le> Multiset.count M C"
    and body: "\<And>b' t' X k c. bag_ok t' X b' \<Longrightarrow> t \<le> t' \<Longrightarrow> cls k \<in># M \<Longrightarrow> sint c = int (Multiset.count M (cls k)) \<Longrightarrow>
      Multiset.count X (cls k) = Multiset.count M (cls k) \<Longrightarrow>
      achieves E B t' (body b' (Entry k c)) (\<lambda>b'' t''. bag_ok t'' (X - replicate_mset (f (cls k)) (cls k)) b'')"
    and result: "\<And>C. Multiset.count R C = Multiset.count M C - f C"
  shows "achieves E B t (bag_iterate body (d7_hamt_bag_entry_iterator_init (Some r)) r) (\<lambda>b' t'. bag_ok t' R b')"
proof -
  obtain es where es: "sorted_wrt (\<lambda>e e'. cls (entry_key e) \<noteq> cls (entry_key e')) es"
    "\<And>e. e \<in> set es \<Longrightarrow> 0 < sint (entry_value e)" "entries_mset cls es = M"
    "\<And>body (st :: 'k d7_hamt_bag). bag_iterate body (d7_hamt_bag_entry_iterator_init (Some r)) st = fold_act body st es"
    using bag_loop [OF r] by metis
  define keep where "keep ys = filter_mset (\<lambda>C. C \<in># entries_mset cls ys) R + (M - entries_mset cls ys)" for ys
  have "bag_ok t (keep []) r" using r by (simp add: keep_def)
  moreover have "achieves E B t' (body a x) (\<lambda>b' t'. bag_ok t' (keep (ys @ [x])) b')"
    if xs: "es = ys @ x # zs" and t: "t \<le> t'" and inv: "bag_ok t' (keep ys) a" for ys x zs a t'
  proof -
    let ?C = "cls (entry_key x)" and ?Y = "entries_mset cls ys" and ?v = "nat (sint (entry_value x))"
    have fresh: "Multiset.count ?Y ?C = 0" using fresh_class [OF es(1) [unfolded xs]] .
    have pos: "0 < sint (entry_value x)" using es(2) xs by simp
    have v: "?v = Multiset.count M ?C" using count_entries [OF es(1), of x] xs es(3) by simp
    have in_M: "?C \<in># M" using v pos by (simp flip: count_greater_zero_iff)
    have new: "?C \<notin># ?Y" using fresh by (simp add: not_in_iff)
    have here: "Multiset.count (keep ys) ?C = Multiset.count M ?C" using fresh new by (simp add: keep_def)
    have "keep (ys @ [x]) = keep ys - replicate_mset (f ?C) ?C"
    proof (rule multiset_eqI)
      fix C show "Multiset.count (keep (ys @ [x])) C = Multiset.count (keep ys - replicate_mset (f ?C) ?C) C"
        using fresh new v pos result [of C] f [of C] by (cases "C = ?C") (auto simp: keep_def)
    qed
    then show ?thesis using body [OF inv t in_M _ here, of "entry_value x"] v pos by (cases x) simp
  qed
  ultimately have "achieves E B t (fold_act body r es) (\<lambda>b' t'. bag_ok t' (keep es) b')"
    by (intro achieves_fold_act [where I = "\<lambda>ys b' t'. bag_ok t' (keep ys) b'"]) blast+
  moreover have "keep es = R"
    unfolding keep_def es(3) by (rule multiset_eqI) (use result in \<open>auto simp: not_in_iff\<close>)
  ultimately show ?thesis unfolding es(4) by simp
qed

lemma intersect_spec:
  assumes r: "bag_ok t M r" and other: "bag_ok t N b"
  shows "achieves E B t (d7_hamt_bag_intersect_normalized ptr mem r b) (\<lambda>b' t'. bag_ok t' (M \<inter># N) b')"
  unfolding d7_hamt_bag_intersect_normalized_def bag_clone
proof (rule visit_spec [OF r, where f = "\<lambda>C. Multiset.count M C - Multiset.count N C"])
  fix a t' X k and c :: i32
  let ?C = "cls k"
  assume inv: "bag_ok t' X a" and c: "sint c = int (Multiset.count M ?C)" and here: "Multiset.count X ?C = Multiset.count M ?C"
  obtain n where n: "d7_hamt_bag_count_of (Some b) k = Inr n" "sint n = int (Multiset.count N ?C)"
    using count_of_ok [OF other] by blast
  let ?R = "X - replicate_mset (Multiset.count M ?C - Multiset.count N ?C) ?C"
  have gone: "filter_mset (\<lambda>D. D \<noteq> ?C) X = ?R" if "n = 0"
  proof -
    have "Multiset.count N ?C = 0" using n(2) that by simp
    then show ?thesis using here by (intro diff_replicate_all [symmetric]) simp
  qed
  have low: "signed_sub c n = Inr (c - n)" "sint (c - n) = sint c - sint n"
    using signed_sub_nonneg [of c n] c n(2) by simp_all
  have "achieves E B t' (d7_hamt_bag_remove_copies ptr mem (Some a) k (scast (c - n)) True) (\<lambda>b' t'. bag_ok t' ?R b')" if "sint n < sint c"
    using remove_copies_spec [OF inv, of "scast (c - n)" ptr mem k] sint_i32(1) [of "c - n"] low(2) that c n(2)
    by (simp add: nat_diff_distrib)
  moreover have "?R = X" if "\<not> sint n < sint c" using that c n(2) by simp
  ultimately show "achieves E B t' (andthen (lift_res (d7_hamt_bag_count_of (Some b) (entry_key (Entry k c)))) (\<lambda>argument_count.
         if argument_count = 0 then d7_hamt_bag_remove_all (Some a) (entry_key (Entry k c)) True
         else if sint argument_count < sint (entry_value (Entry k c)) then
           andthen (lift_res (signed_sub (entry_value (Entry k c)) argument_count)) (\<lambda>surplus.
           d7_hamt_bag_remove_copies ptr mem (Some a) (entry_key (Entry k c)) (scast surplus) True)
         else ret a)) (\<lambda>b' t'. bag_ok t' ?R b')"
    using remove_all_spec [OF inv, of k] gone inv by (auto simp: n(1) low(1) intro!: achieves_ret)
qed (simp_all add: min_def)

lemma except_spec:
  assumes r: "bag_ok t M r" and other: "bag_ok t N b"
  shows "achieves E B t (d7_hamt_bag_except_normalized ptr mem r b) (\<lambda>b' t'. bag_ok t' (M - N) b')"
  unfolding d7_hamt_bag_except_normalized_def bag_clone
proof (rule visit_spec [OF r, where f = "\<lambda>C. min (Multiset.count M C) (Multiset.count N C)"])
  fix a t' X k and c :: i32
  let ?C = "cls k"
  assume inv: "bag_ok t' X a" and here: "Multiset.count X ?C = Multiset.count M ?C"
  obtain n where n: "d7_hamt_bag_count_of (Some b) k = Inr n" "sint n = int (Multiset.count N ?C)"
    using count_of_ok [OF other] by blast
  let ?R = "X - replicate_mset (min (Multiset.count M ?C) (Multiset.count N ?C)) ?C"
  have "X - replicate_mset (Multiset.count N ?C) ?C = ?R" using here by (intro multiset_eqI) auto
  then have "achieves E B t' (d7_hamt_bag_remove_copies ptr mem (Some a) k (scast n) True) (\<lambda>b' t'. bag_ok t' ?R b')"
    using remove_copies_spec [OF inv, of "scast n" ptr mem k] sint_i32(1) [of n] n(2) by simp
  moreover have "?R = X" if "n = 0" using that n(2) by simp
  ultimately show "achieves E B t' (andthen (lift_res (d7_hamt_bag_count_of (Some b) (entry_key (Entry k c)))) (\<lambda>argument_count.
         if argument_count = 0 then ret a
         else d7_hamt_bag_remove_copies ptr mem (Some a) (entry_key (Entry k c)) (scast argument_count) True))
        (\<lambda>b' t'. bag_ok t' ?R b')"
    using inv by (auto simp: n(1) intro!: achieves_ret)
qed simp_all

lemma normalized_spec:
  assumes r: "bag_ok t M r" and other: "bag_ok t N b"
  shows "yields (\<not> bag_fits (bag_combined op M N)) E B t
    ((case op of
       D7_HAMT_BAG_UNION \<Rightarrow> d7_hamt_bag_union_normalized
     | D7_HAMT_BAG_INTERSECT \<Rightarrow> d7_hamt_bag_intersect_normalized
     | D7_HAMT_BAG_EXCEPT \<Rightarrow> d7_hamt_bag_except_normalized
     | D7_HAMT_BAG_SUM \<Rightarrow> d7_hamt_bag_sum_normalized) ptr mem r b)
    (\<lambda>b' t'. bag_ok t' (bag_combined op M N) b')"
  using union_spec [OF assms] achieves_reports [OF intersect_spec [OF assms]] achieves_reports [OF except_spec [OF assms]] sum_spec [OF assms]
  by (cases op) (simp_all add: bag_combined_def)

lemma normalize_spec:
  assumes empty: "bag_ok t {#} (d7_hamt_bag_create ptr mem (Some (d7_hamt_bag_item_policy (Some r))))"
    and it: "iterator_ok (d7_hamt_bag_entry_iterator_init (Some b))"
    and pos: "\<And>e. e \<in> set (iterator_rest (d7_hamt_bag_entry_iterator_init (Some b))) \<Longrightarrow> 0 < sint (entry_value e)"
    and total: "sint (total_count b) = (\<Sum>e\<leftarrow>iterator_rest (d7_hamt_bag_entry_iterator_init (Some b)). sint (entry_value e))"
  defines "N \<equiv> entries_mset cls (iterator_rest (d7_hamt_bag_entry_iterator_init (Some b)))"
  shows "yields (\<not> bag_fits N) E B t (d7_hamt_bag_normalize ptr mem r b) (\<lambda>b' t'. bag_ok t' N b')"
proof -
  let ?es = "iterator_rest (d7_hamt_bag_entry_iterator_init (Some b))"
  let ?sum = "\<lambda>current e. d7_hamt_bag_add_copies ptr mem (Some current) (entry_key e) (scast (entry_value e)) True"
  let ?body = "\<lambda>current e. if sint (entry_value e) \<le> 0 then fail (Status D7_HAMT_INVALID_ARGUMENT) else ?sum current e"
  let ?st = "d7_hamt_bag_create ptr mem (Some (d7_hamt_bag_item_policy (Some r)))"
  have "?body a x = ?sum a x" if "x \<in> set ?es" for a x using pos [OF that] by simp
  then have "fold_act ?body ?st ?es = fold_act ?sum ?st ?es" by (intro fold_act_cong refl) blast
  then have "bag_iterate ?body (d7_hamt_bag_entry_iterator_init (Some b)) ?st = fold_act ?sum ?st ?es"
    using bag_iterate_fold [OF it, of ?body ?st] pos by simp
  then have loop: "yields (\<not> bag_fits N) E B t (bag_iterate ?body (d7_hamt_bag_entry_iterator_init (Some b)) ?st) (\<lambda>b' t'. bag_ok t' N b')"
    using sum_entries_spec [OF empty pos, of ?es ptr mem] by (simp add: N_def)
  have "total_count b' = total_count b" if "bag_ok t' N b'" for b' t'
    using bag_okD(4) [OF that] total size_entries [of ?es cls] pos by (simp add: N_def flip: sint_inject)
  then show ?thesis
    unfolding d7_hamt_bag_normalize_def by (intro reports_andthen [OF loop]) (auto intro!: reports_ret)
qed

lemma validate_tally:
  assumes ok: "bag_ok t M b"
  shows "bag_tally (d7_hamt_bag_entry_iterator_init (Some b)) 0 0 = Inr (Some (total_count b, d7_hamt_map.count (counts b)))"
proof (rule bag_entries [OF ok])
  fix es
  assume es: "iterator_ok (d7_hamt_bag_entry_iterator_init (Some b))" "iterator_rest (d7_hamt_bag_entry_iterator_init (Some b)) = es"
    "length es = card (set_mset M)" "\<And>e. e \<in> set es \<Longrightarrow> 0 < sint (entry_value e)" "entries_mset cls es = M"
  have sum: "(\<Sum>e\<leftarrow>es. sint (entry_value e)) = int (size M)" using size_entries [of es cls] es(4,5) by simp
  then have "\<exists>s'. bag_tally (d7_hamt_bag_entry_iterator_init (Some b)) 0 0 = Inr (Some (s', 0 + length es)) \<and> sint s' = sint (0 :: i64) + int (size M)"
    using bag_tally_sum [OF es(1), of 0 0] es(2,4) bag_okD(2) [OF ok] by (simp add: bag_fits_def)
  then show ?thesis using bag_okD(4,5) [OF ok] es(3) by (auto simp flip: sint_inject)
qed

end

end
