(* ===== verification/Hamt_Bag_Properties.thy ===== *)
theory Hamt_Bag_Properties
  imports Hamt_Bag_Spec
begin

text \<open>
  The properties of the bag, stated for every item policy that keeps its contract. \<open>bag_rep p t M b\<close> says that at time \<open>t\<close>
  the handle \<open>b\<close> under policy \<open>p\<close> holds the multiset \<open>M\<close> of key classes.
\<close>

section \<open>The policies of bags\<close>

locale bag_policy = hamt_policy p Rk "(=)" for p :: "('k, i32) d7_hamt_policy" and Rk +
  fixes mem :: environment
  assumes count_callbacks: "value_equal p = Callback 20 d7_hamt_bag_count_equal"
    "retain_value p = Callback 21 (d7_hamt_bag_count_retain mem)" "release_value p = Some 22"

sublocale bag_policy < bag: bag_client "map_valid_at p" "map_holds (=)" "d7_hamt_keys_equal p" E "failing_requests E p" for E
  by unfold_locales

text \<open>A bag over the default item policy, and over any item policy that is a congruence for the hash.\<close>

lemmas bag_policy_defs = d7_hamt_bag_map_policy_def d7_hamt_bag_count_equal_def d7_hamt_bag_count_retain_def

interpretation default_bag: bag_policy "d7_hamt_normalize_policy ptr (Some (d7_hamt_bag_map_policy ptr mem None))" "(=)" mem
  by unfold_locales (auto simp: policy_defs bag_policy_defs equivp_def fun_eq_iff split: if_splits)

definition bag_rep :: "('k, i32) d7_hamt_policy \<Rightarrow> nat \<Rightarrow> 'k set multiset \<Rightarrow> 'k d7_hamt_bag \<Rightarrow> bool" where
  "bag_rep p t M b \<longleftrightarrow>
     map_valid_at p t (counts b) \<and> bag_fits M \<and> set_mset M \<subseteq> range (key_class p) \<and>
     (\<forall>k c. map_holds (=) (counts b) k c \<longleftrightarrow> 0 < sint c \<and> sint c = int (Multiset.count M (key_class p k))) \<and>
     sint (total_count b) = int (size M) \<and> d7_hamt_map.count (counts b) = card (set_mset M)"

section \<open>The occurrences an iterator yields\<close>

text \<open>The items of \<open>n\<close> calls of the iterator, which has to end within them.\<close>

fun bag_items :: "nat \<Rightarrow> 'k d7_hamt_bag_iterator \<Rightarrow> failure + 'k list" where
  "bag_items 0 it = Inl Fault"
| "bag_items (Suc n) it =
     (case d7_hamt_bag_iterator_next it of
        Inl e \<Rightarrow> Inl e
      | Inr (it', None) \<Rightarrow> Inr []
      | Inr (it', Some k) \<Rightarrow> map_found (Cons k) (bag_items n it'))"

definition occurrences :: "('k, i32) d7_hamt_entry list \<Rightarrow> 'k list" where
  "occurrences es = concat (map (\<lambda>e. replicate (nat (sint (entry_value e))) (entry_key e)) es)"

lemma occurrences_mset: "image_mset cl (mset (occurrences es)) = entries_mset cl es"
  by (induction es) (simp_all add: occurrences_def)

definition iterator_pending :: "'k d7_hamt_bag_iterator \<Rightarrow> 'k list" where
  "iterator_pending it =
     (case current_item it of None \<Rightarrow> [] | Some k \<Rightarrow> replicate (nat (sint (remaining it))) k) @ occurrences (iterator_rest (inner it))"

definition iterator_fine :: "'k d7_hamt_bag_iterator \<Rightarrow> bool" where
  "iterator_fine it \<longleftrightarrow> iterator_ok (inner it) \<and> (current_item it = None \<longrightarrow> sint (remaining it) \<le> 0) \<and>
     (\<forall>e\<in>set (iterator_rest (inner it)). 0 < sint (entry_value e))"

lemma bag_iterator_next_pending:
  assumes "iterator_fine it"
  shows "\<exists>it' x. d7_hamt_bag_iterator_next it = Inr (it', x) \<and>
    (case x of None \<Rightarrow> iterator_pending it = [] | Some k \<Rightarrow> iterator_fine it' \<and> iterator_pending it = k # iterator_pending it')"
proof (cases "0 < sint (remaining it)")
  case True
  then obtain k where k: "current_item it = Some k" using assms by (cases "current_item it") (auto simp: iterator_fine_def)
  have sub: "signed_sub (remaining it) 1 = Inr (remaining it - 1)" "sint (remaining it - 1) = sint (remaining it) - 1"
    using signed_sub_nonneg [of "remaining it" 1] True by simp_all
  have "nat (sint (remaining it)) = Suc (nat (sint (remaining it) - 1))" using True by simp
  then show ?thesis using True k sub assms by (simp add: d7_hamt_bag_iterator_next_def iterator_pending_def iterator_fine_def)
next
  case False
  obtain it' x where nxt: "d7_hamt_map_iterator_next (inner it) = Inr (it', x)" "iterator_ok it'"
    using iterator_next_ok assms by (metis iterator_fine_def)
  have none: "iterator_pending it = occurrences (iterator_rest (inner it))" using False by (simp add: iterator_pending_def split: option.split)
  show ?thesis
  proof (cases x)
    case None
    then show ?thesis
      using False nxt iterator_next_rest [OF nxt(1)] none
      by (simp add: d7_hamt_bag_iterator_next_def iterator_fine_def occurrences_def)
  next
    case (Some e)
    have rest: "iterator_rest (inner it) = e # iterator_rest it'" using iterator_next_rest [OF nxt(1)] Some by simp
    have pos: "0 < sint (entry_value e)" using assms rest by (simp add: iterator_fine_def)
    have sub: "signed_sub (entry_value e) 1 = Inr (entry_value e - 1)" "sint (entry_value e - 1) = sint (entry_value e) - 1"
      using signed_sub_nonneg [of "entry_value e" 1] pos by simp_all
    have "nat (sint (entry_value e)) = Suc (nat (sint (entry_value e) - 1))" using pos by simp
    then show ?thesis
      using False nxt Some rest sub pos assms none
      by (simp add: d7_hamt_bag_iterator_next_def iterator_fine_def iterator_pending_def occurrences_def)
  qed
qed

lemma bag_items_pending:
  "iterator_fine it \<Longrightarrow> length (iterator_pending it) < n \<Longrightarrow> bag_items n it = Inr (iterator_pending it)"
proof (induction n arbitrary: it)
  case (Suc n)
  obtain it' x where nxt: "d7_hamt_bag_iterator_next it = Inr (it', x)"
    "case x of None \<Rightarrow> iterator_pending it = [] | Some k \<Rightarrow> iterator_fine it' \<and> iterator_pending it = k # iterator_pending it'"
    using bag_iterator_next_pending [OF Suc.prems(1)] by blast
  show ?case using Suc nxt by (cases x) (simp_all add: map_found_def)
qed simp

section \<open>Properties\<close>

text \<open>The entries of a bag as another policy sees them.\<close>

definition bag_under :: "('k, i32) d7_hamt_policy \<Rightarrow> 'k d7_hamt_bag \<Rightarrow> 'k set multiset" where
  "bag_under p b = entries_mset (key_class p) (entries_opt (root (counts b)))"

context bag_policy
begin

lemma cls_key_class: "bag.cls = key_class p"
  by (simp add: fun_eq_iff bag.cls_def key_class_def)

lemma bag_ok_rep: "bag.bag_ok t M b \<longleftrightarrow> bag_rep p t M b"
  unfolding bag.bag_ok_def bag_rep_def cls_key_class ..

lemma rep_policy: "bag_rep p t M b \<Longrightarrow> policy (counts b) = p"
  by (simp add: bag_rep_def map_valid_at_def)

lemma rep_iterator:
  assumes "bag_rep p t M b"
  shows "iterator_ok (d7_hamt_bag_entry_iterator_init (Some b))"
    "iterator_rest (d7_hamt_bag_entry_iterator_init (Some b)) = entries_opt (root (counts b))"
  using iterator_init_ok assms by (auto simp: bag_rep_def map_valid_at_def d7_hamt_bag_entry_iterator_init_def)

lemma rep_entries:
  assumes "bag_rep p t M b"
  shows "bag_under p b = M" and "e \<in> set (entries_opt (root (counts b))) \<Longrightarrow> 0 < sint (entry_value e)"
    and "sint (total_count b) = (\<Sum>e\<leftarrow>entries_opt (root (counts b)). sint (entry_value e))"
proof -
  note ok = assms [folded bag_ok_rep]
  obtain es where es: "entries_opt (root (counts b)) = es" "\<And>e. e \<in> set es \<Longrightarrow> 0 < sint (entry_value e)" "entries_mset (key_class p) es = M"
    using bag.bag_entries [OF ok] unfolding rep_iterator(2) [OF assms] cls_key_class by metis
  then show "bag_under p b = M" and "e \<in> set (entries_opt (root (counts b))) \<Longrightarrow> 0 < sint (entry_value e)"
    and "sint (total_count b) = (\<Sum>e\<leftarrow>entries_opt (root (counts b)). sint (entry_value e))"
    using size_entries [of es "key_class p"] assms by (simp_all add: bag_under_def bag_rep_def)
qed

lemma create_rep: "bag_rep p t {#} (d7_hamt_bag_create ptr mem (Some (d7_hamt_bag_item_policy (Some r))))" if "policy (counts r) = p"
proof -
  have "d7_hamt_normalize_policy ptr (Some (d7_hamt_bag_map_policy ptr mem (Some (d7_hamt_bag_item_policy (Some r))))) = p"
    using that count_callbacks
    by (cases p) (simp add: d7_hamt_normalize_policy_def or_default_def d7_hamt_bag_map_policy_def d7_hamt_bag_item_policy_def)
  then have "counts (d7_hamt_bag_create ptr mem (Some (d7_hamt_bag_item_policy (Some r)))) = d7_hamt_map_create_from p"
    by (simp add: d7_hamt_bag_create_def d7_hamt_map_create_def)
  then show ?thesis
    using map_create_ok [of "{}" t p]
    by (auto simp: bag_rep_def map_valid_at_def map_holds_def d7_hamt_bag_create_def d7_hamt_map_create_from_def map_entry_def heap_def)
qed

lemma rep_add:
  assumes "bag_rep p t M b" and "0 \<le> sint copies" and "sint copies \<le> INT32_MAX"
  shows "if bag_fits (M + replicate_mset (nat (sint copies)) (key_class p k))
    then achieves E (failing_requests E p) t (d7_hamt_bag_add_copies ptr mem (Some b) k copies True)
      (\<lambda>b' t'. bag_rep p t' (M + replicate_mset (nat (sint copies)) (key_class p k)) b')
    else d7_hamt_bag_add_copies ptr mem (Some b) k copies True E t = (Inl (Status D7_HAMT_OVERFLOW), t)"
  using bag.add_copies_spec [OF assms(1) [folded bag_ok_rep] assms(2,3), of k E ptr mem] unfolding cls_key_class bag_ok_rep .

lemma rep_remove:
  assumes "bag_rep p t M b" and "0 \<le> sint copies" and "sint copies \<le> INT32_MAX"
  shows "achieves E (failing_requests E p) t (d7_hamt_bag_remove_copies ptr mem (Some b) k copies True)
    (\<lambda>b' t'. bag_rep p t' (M - replicate_mset (nat (sint copies)) (key_class p k)) b')"
  using bag.remove_copies_spec [OF assms(1) [folded bag_ok_rep] assms(2,3), of E ptr mem k] unfolding cls_key_class bag_ok_rep .

lemma rep_remove_all:
  assumes "bag_rep p t M b"
  shows "achieves E (failing_requests E p) t (d7_hamt_bag_remove_all (Some b) k True)
    (\<lambda>b' t'. bag_rep p t' (filter_mset (\<lambda>D. D \<noteq> key_class p k) M) b')"
  using bag.remove_all_spec [OF assms [folded bag_ok_rep], of E k] unfolding cls_key_class bag_ok_rep .

lemma rep_clear:
  assumes "bag_rep p t M b"
  shows "\<exists>b'. d7_hamt_bag_clear (Some b) True E t = (Inr b', t) \<and> bag_rep p t {#} b'"
  using bag.clear_spec [OF assms [folded bag_ok_rep], of E] unfolding bag_ok_rep .

lemma rep_later: "bag_rep p t M b \<Longrightarrow> t \<le> t' \<Longrightarrow> bag_rep p t' M b"
  using bag.bag_ok_later unfolding bag_ok_rep .

lemma rep_normalize:
  assumes r: "policy (counts r) = p" and q: "bag_policy q Rk' mem'" and b: "bag_rep q t N b"
  shows "yields (\<not> bag_fits (bag_under p b)) E (failing_requests E p) t (d7_hamt_bag_normalize ptr mem r b)
    (\<lambda>b' t'. bag_rep p t' (bag_under p b) b')"
  using bag.normalize_spec [where E = E and t = t and ptr = ptr and r = r, OF _ bag_policy.rep_iterator(1) [OF q b]]
    bag_policy.rep_entries(2,3) [OF q b] create_rep [OF r, where t = t and ptr = ptr]
  unfolding bag_policy.rep_iterator(2) [OF q b] cls_key_class bag_ok_rep bag_under_def by blast

lemma rep_combine:
  assumes r: "bag_rep p t M r" and q: "bag_policy q Rk' mem'" and b: "bag_rep q t N b" and coh: "coherent p q"
  shows "yields (\<not> bag_fits (bag_under p b) \<or> \<not> bag_fits (bag_combined op M (bag_under p b))) E (failing_requests E p) t
    (d7_hamt_bag_combine ptr mem (Some r) (Some b) op True) (\<lambda>b' t'. bag_rep p t' (bag_combined op M (bag_under p b)) b')"
proof -
  let ?N = "bag_under p b"
  let ?ov = "\<not> bag_fits ?N \<or> \<not> bag_fits (bag_combined op M ?N)"
  have pol: "policy (counts r) = p" "policy (counts b) = q" using rep_policy [OF r] bag_policy.rep_policy [OF q b] .
  have norm: "yields ?ov E (failing_requests E p) t (if d7_hamt_bag_policies_compatible r b then ret b else d7_hamt_bag_normalize ptr mem r b)
      (\<lambda>b' t'. bag_rep p t' ?N b')"
  proof (cases "d7_hamt_bag_policies_compatible r b")
    case True
    then have "p = q" using coh pol by (simp add: coherent_def d7_hamt_bag_policies_compatible_def)
    then show ?thesis using True b rep_entries(1) [of t N b] by (auto intro!: reports_ret)
  next
    case False
    then show ?thesis using rep_normalize [OF pol(1) q b, of E ptr] by (auto elim: reports_weaken)
  qed
  show ?thesis
    unfolding d7_hamt_bag_combine_def prod.case option.case not_True_eq_False if_False
  proof (rule reports_andthen [OF norm])
    fix b' t1 assume "t \<le> t1" "bag_rep p t1 ?N b'"
    then show "yields ?ov E (failing_requests E p) t1
      ((case op of
         D7_HAMT_BAG_UNION \<Rightarrow> d7_hamt_bag_union_normalized
       | D7_HAMT_BAG_INTERSECT \<Rightarrow> d7_hamt_bag_intersect_normalized
       | D7_HAMT_BAG_EXCEPT \<Rightarrow> d7_hamt_bag_except_normalized
       | D7_HAMT_BAG_SUM \<Rightarrow> d7_hamt_bag_sum_normalized) ptr mem r b')
      (\<lambda>b'' t'. bag_rep p t' (bag_combined op M ?N) b'')"
      using bag.normalized_spec [of t1 M r ?N b' op E ptr mem] rep_later [OF r] unfolding bag_ok_rep by (auto elim: reports_weaken)
  qed
qed

lemma rep_observe:
  assumes rep: "bag_rep p t M b"
  shows "\<exists>c. d7_hamt_bag_count_of (Some b) k = Inr c \<and> sint c = int (Multiset.count M (key_class p k))"
    and "d7_hamt_bag_contains (Some b) k = Inr (key_class p k \<in># M)"
    and "sint (d7_hamt_bag_total_count (Some b)) = int (size M)"
    and "d7_hamt_bag_distinct_count (Some b) = card (set_mset M)"
proof -
  show "\<exists>c. d7_hamt_bag_count_of (Some b) k = Inr c \<and> sint c = int (Multiset.count M (key_class p k))"
    by (rule bag.count_of_ok [OF rep [folded bag_ok_rep], of k]) (simp add: cls_key_class)
qed (use bag.contains_ok [OF rep [folded bag_ok_rep], of k] rep in
    \<open>simp_all add: cls_key_class bag_rep_def d7_hamt_bag_total_count_def d7_hamt_bag_distinct_count_def d7_hamt_map_count_def\<close>)

lemma rep_items:
  assumes rep: "bag_rep p t M b" and n: "size M < n"
  shows "\<exists>xs. bag_items n (d7_hamt_bag_iterator_init (Some b)) = Inr xs \<and> image_mset (key_class p) (mset xs) = M"
proof -
  let ?it = "d7_hamt_bag_iterator_init (Some b)" and ?es = "entries_opt (root (counts b))"
  have it: "iterator_ok (inner ?it)" "iterator_rest (inner ?it) = ?es"
    using rep_iterator [OF rep] by (simp_all add: d7_hamt_bag_iterator_init_def d7_hamt_bag_entry_iterator_init_def)
  have "iterator_fine ?it"
    using it rep_entries(2) [OF rep] by (auto simp: iterator_fine_def) (simp add: d7_hamt_bag_iterator_init_def)
  moreover have "iterator_pending ?it = occurrences ?es"
    unfolding iterator_pending_def it(2) by (simp add: d7_hamt_bag_iterator_init_def)
  moreover have M: "image_mset (key_class p) (mset (occurrences ?es)) = M"
    using rep_entries(1) [OF rep] by (simp add: occurrences_mset bag_under_def)
  moreover have "length (occurrences ?es) < n" using n M by (metis size_image_mset size_mset)
  ultimately show ?thesis using bag_items_pending [of ?it n] by simp
qed

lemma rep_validates:
  assumes rep: "bag_rep p t M b" and "card (set_mset M) \<le> SIZE_MAX"
  shows "d7_hamt_bag_debug_validate_canonical (Some b) = Inr True"
  using rep bag.validate_tally [OF rep [folded bag_ok_rep]] client.validation [of t "counts b"] assms(2) count_callbacks rep_policy [OF rep]
  by (simp add: d7_hamt_bag_debug_validate_canonical_def bag_rep_def Let_def map_found_def)

end

section \<open>Bags for the witnesses\<close>

definition item_bag_policy :: "(64 word, i32) d7_hamt_policy" where
  "item_bag_policy = d7_hamt_normalize_policy id (Some (d7_hamt_bag_map_policy id (\<lambda>_. True) None))"

definition single_bag :: "64 word \<Rightarrow> i32 \<Rightarrow> 64 word d7_hamt_bag" where
  "single_bag k c =
     \<lparr>counts = \<lparr>root = Some (Leaf 0 (d7_hamt_get_hash item_bag_policy k) k c), count = 1, policy = item_bag_policy\<rparr>,
      total_count = scast c\<rparr>"

lemma item_bag_policy_ok: "bag_policy item_bag_policy (=) (\<lambda>_. True)"
  unfolding item_bag_policy_def by (rule default_bag.bag_policy_axioms)

lemma item_class [simp]: "key_class item_bag_policy k = {k}"
  by (auto simp: key_class_def item_bag_policy_def policy_defs bag_policy_defs)

lemma item_bag_requests [simp]: "failing_requests (\<lambda>_. True) item_bag_policy = {}"
  by (simp add: failing_requests_def item_bag_policy_def policy_defs bag_policy_defs)

lemma single_bag_rep:
  assumes "0 < sint c"
  shows "bag_rep item_bag_policy 1 (replicate_mset (nat (sint c)) {k}) (single_bag k c)"
proof -
  have eq: "d7_hamt_keys_equal item_bag_policy x y \<longleftrightarrow> x = y" for x y
    by (simp add: item_bag_policy_def policy_defs bag_policy_defs)
  have "map_ok {Leaf 0 (d7_hamt_get_hash item_bag_policy k) k c} 1 (counts (single_bag k c))"
    by (simp add: map_ok_def map_nodes_def heap_def single_bag_def)
  then have "map_valid_at item_bag_policy 1 (counts (single_bag k c))"
    by (auto simp: map_valid_at_def single_bag_def)
  moreover have "map_holds (=) (counts (single_bag k c)) k' c' \<longleftrightarrow> k' = k \<and> c' = c" for k' c'
    by (auto simp: map_holds_def map_entry_def single_bag_def eq)
  moreover have "bag_fits (replicate_mset (nat (sint c)) {k})"
    using assms sint_i32(1) [of c] by (simp add: bag_fits_def INT32_MAX_def INT64_MAX_def)
  moreover have "set_mset (replicate_mset (nat (sint c)) {k}) = {{k}}" using assms by simp
  ultimately show ?thesis
    using assms by (auto simp: bag_rep_def single_bag_def simp flip: sint_inject)
qed

section \<open>The properties\<close>

text \<open>C10: the single-item updates of a bag are those of multisets of key classes. Adding copies adds them when the new
  multiplicity fits 32 bits and the new total fits 64 bits, and otherwise reports \<open>D7_HAMT_OVERFLOW\<close> without a
  memory request; removing copies removes as many as there are; a number of copies that is negative or above
  \<open>INT32_MAX\<close> is an invalid argument; removing all copies and clearing do what they say.\<close>

theorem bag_update_correct:
  fixes copies :: i64
  assumes "bag_policy p Rk mem" and "bag_rep p t M b"
  shows "(if sint copies < 0 \<or> sint copies > INT32_MAX
     then d7_hamt_bag_add_copies ptr mem (Some b) k copies True E t = (Inl (Status D7_HAMT_INVALID_ARGUMENT), t) \<and>
       d7_hamt_bag_remove_copies ptr mem (Some b) k copies True E t = (Inl (Status D7_HAMT_INVALID_ARGUMENT), t)
     else
       (if bag_fits (M + replicate_mset (nat (sint copies)) (key_class p k))
        then achieves E (failing_requests E p) t (d7_hamt_bag_add_copies ptr mem (Some b) k copies True)
          (\<lambda>b' t'. bag_rep p t' (M + replicate_mset (nat (sint copies)) (key_class p k)) b')
        else d7_hamt_bag_add_copies ptr mem (Some b) k copies True E t = (Inl (Status D7_HAMT_OVERFLOW), t)) \<and>
       achieves E (failing_requests E p) t (d7_hamt_bag_remove_copies ptr mem (Some b) k copies True)
         (\<lambda>b' t'. bag_rep p t' (M - replicate_mset (nat (sint copies)) (key_class p k)) b')) \<and>
    achieves E (failing_requests E p) t (d7_hamt_bag_remove_all (Some b) k True)
      (\<lambda>b' t'. bag_rep p t' (filter_mset (\<lambda>C. C \<noteq> key_class p k) M) b') \<and>
    (\<exists>b'. d7_hamt_bag_clear (Some b) True E t = (Inr b', t) \<and> bag_rep p t {#} b')"
proof (cases "sint copies < 0 \<or> sint copies > INT32_MAX")
  case True
  then have guard: "\<not> True \<or> sint copies < 0 \<or> sint copies > INT32_MAX \<or> sint (total_count b) < 0" by blast
  show ?thesis
    unfolding if_P [OF True] d7_hamt_bag_add_copies_def d7_hamt_bag_remove_copies_def option.case if_P [OF guard]
    using bag_policy.rep_remove_all [OF assms, of E k] bag_policy.rep_clear [OF assms, of E] by (simp add: fail_def)
next
  case False
  then have range: "0 \<le> sint copies" "sint copies \<le> INT32_MAX" by simp_all
  show ?thesis
    unfolding if_not_P [OF False]
    using bag_policy.rep_add [OF assms range, of k E ptr] bag_policy.rep_remove [OF assms range, of E ptr k]
      bag_policy.rep_remove_all [OF assms, of E k] bag_policy.rep_clear [OF assms, of E] by blast
qed

theorem bag_update_correct_witness:
  "achieves (\<lambda>_. True) {} 1 (d7_hamt_bag_add_copies id (\<lambda>_. True) (Some (single_bag 5 2)) 5 3 True)
     (\<lambda>b' t'. bag_rep item_bag_policy t' (replicate_mset 5 {5}) b') \<and>
   achieves (\<lambda>_. True) {} 1 (d7_hamt_bag_remove_copies id (\<lambda>_. True) (Some (single_bag 5 2)) 5 3 True)
     (\<lambda>b' t'. bag_rep item_bag_policy t' {#} b')"
proof -
  have "replicate_mset 2 {5} + replicate_mset 3 {5} = replicate_mset 5 ({5} :: 64 word set)"
    "replicate_mset 2 {5} - replicate_mset 3 {5} = ({#} :: 64 word set multiset)"
    by (rule multiset_eqI, simp)+
  moreover have "bag_fits (replicate_mset 5 ({5} :: 64 word set))" by (simp add: bag_fits_def INT32_MAX_def INT64_MAX_def)
  ultimately show ?thesis
    using bag_update_correct [OF item_bag_policy_ok single_bag_rep [of 2 5], of 3 id 5 "\<lambda>_. True"] by (simp add: INT32_MAX_def)
qed

text \<open>C11: union, intersection, difference and sum of two bags are maximum, minimum, difference and sum of multisets, the
  argument being taken as the policy of the receiver sees it (its own multiset when the policies agree). The operation reports
  \<open>D7_HAMT_OVERFLOW\<close> only when the argument under that policy, or the result, does not fit the machine integers.\<close>

theorem bag_combine_correct:
  assumes "bag_policy p Rk mem" and "bag_policy q Rk' mem'" and "bag_rep p t M r" and "bag_rep q t N b" and "coherent p q"
  shows "yields (\<not> bag_fits (bag_under p b) \<or> \<not> bag_fits (bag_combined op M (bag_under p b))) E (failing_requests E p) t
      (d7_hamt_bag_combine ptr mem (Some r) (Some b) op True) (\<lambda>b' t'. bag_rep p t' (bag_combined op M (bag_under p b)) b') \<and>
    (p = q \<longrightarrow> bag_under p b = N)"
  using bag_policy.rep_combine [OF assms(1,3,2,4,5)] bag_policy.rep_entries(1) [OF assms(1)] assms(4) by blast

theorem bag_combine_correct_witness:
  "achieves (\<lambda>_. True) {} 1 (d7_hamt_bag_combine id (\<lambda>_. True) (Some (single_bag 5 2)) (Some (single_bag 5 3)) D7_HAMT_BAG_UNION True)
     (\<lambda>b' t'. bag_rep item_bag_policy t' (replicate_mset 3 {5}) b')"
proof -
  have "replicate_mset 2 {5} \<union># replicate_mset 3 {5} = replicate_mset 3 ({5} :: 64 word set)" by (rule multiset_eqI) simp
  moreover have "bag_fits (replicate_mset 3 ({5} :: 64 word set))" by (simp add: bag_fits_def INT32_MAX_def INT64_MAX_def)
  moreover note combine = bag_combine_correct [OF item_bag_policy_ok item_bag_policy_ok single_bag_rep [of 2 5]
      single_bag_rep [of 3 5] coherent_refl, of D7_HAMT_BAG_UNION "\<lambda>_. True" id]
  moreover have "bag_under item_bag_policy (single_bag 5 3) = replicate_mset 3 {5}" using combine by simp
  ultimately show ?thesis by (simp add: bag_combined_def reports_achieves)
qed

text \<open>C38: what a bag reports is its multiset: the multiplicity of an item, membership, the total and the number of
  distinct items; iteration over all occurrences ends and yields each class as often as the multiset holds it;
  and the validator accepts the bag.\<close>

theorem bag_observers_correct:
  assumes "bag_policy p Rk mem" and "bag_rep p t M b"
  shows "(\<exists>c. d7_hamt_bag_count_of (Some b) k = Inr c \<and> sint c = int (Multiset.count M (key_class p k))) \<and>
    d7_hamt_bag_contains (Some b) k = Inr (key_class p k \<in># M) \<and>
    sint (d7_hamt_bag_total_count (Some b)) = int (size M) \<and> d7_hamt_bag_distinct_count (Some b) = card (set_mset M) \<and>
    (\<forall>n > size M. \<exists>xs. bag_items n (d7_hamt_bag_iterator_init (Some b)) = Inr xs \<and> image_mset (key_class p) (mset xs) = M) \<and>
    (card (set_mset M) \<le> SIZE_MAX \<longrightarrow> d7_hamt_bag_debug_validate_canonical (Some b) = Inr True)"
  using bag_policy.rep_observe(1,2) [OF assms, of k] bag_policy.rep_observe(3,4) [OF assms]
    bag_policy.rep_items [OF assms] bag_policy.rep_validates [OF assms] by blast

theorem bag_observers_correct_witness:
  "d7_hamt_bag_contains (Some (single_bag 5 2)) 5 = Inr True \<and> sint (d7_hamt_bag_total_count (Some (single_bag 5 2))) = 2 \<and>
   (\<exists>xs. bag_items 3 (d7_hamt_bag_iterator_init (Some (single_bag 5 2))) = Inr xs \<and> image_mset (key_class item_bag_policy) (mset xs) = replicate_mset 2 {5}) \<and>
   d7_hamt_bag_debug_validate_canonical (Some (single_bag 5 2)) = Inr True"
proof -
  have "card (set_mset (replicate_mset 2 ({5} :: 64 word set))) \<le> SIZE_MAX" by (simp add: SIZE_MAX_def)
  then show ?thesis
    using bag_observers_correct [OF item_bag_policy_ok single_bag_rep [of 2 5], of 5] by simp
qed

end
