(* ===== verification/Hamt_Patch.thy ===== *)
theory Hamt_Patch
  imports Hamt_Client
begin

text \<open>
  The invertible map patch of \<open>persistent_map_patch.c\<close>: a hash map from keys to changes, each the state the key is expected to have
  and the state it gets. A state is a presence flag and a value; here it is an option, since the code never reads the
  value of an absent state. The policies of keys and values live in a context that all versions of a patch share;
  the callbacks of the map of changes receive its address and read the policies there. The reference count of the
  context has no counterpart.

  \<open>mem\<close> says which copies of a change find memory. Publishing a handle over the source destroys the source and has no
  other effect; a handle that has been moved or destroyed has a null context, and its map is never read.
\<close>

section \<open>Changes, contexts and handles\<close>

record 'v d7_hamt_map_patch_change =
  before_state :: "'v option"
  after_state :: "'v option"

record ('k, 'v) d7_hamt_map_patch_context =
  context_address :: addr
  patch_key_policy :: "'k d7_hamt_set_policy_arg"
  patch_value_policy :: "'v d7_hamt_set_policy_arg"

record ('k, 'v) d7_hamt_map_patch_entry =
  patch_key :: 'k
  patch_before :: "'v option"
  patch_after :: "'v option"

record ('k, 'v) d7_hamt_map_patch =
  changes :: "('k, 'v d7_hamt_map_patch_change) d7_hamt_map"
  patch_context :: "('k, 'v) d7_hamt_map_patch_context option"

definition d7_hamt_map_patch_valid :: "('k, 'v) d7_hamt_map_patch option \<Rightarrow> bool" where
  "d7_hamt_map_patch_valid patch = (case patch of None \<Rightarrow> False | Some p \<Rightarrow> patch_context p \<noteq> None)"

text \<open>Calls through a set policy whose callbacks have been checked not to be null.\<close>

definition policy_equal :: "'a d7_hamt_set_policy_arg \<Rightarrow> 'a \<Rightarrow> 'a \<Rightarrow> bool" where
  "policy_equal pol left right = fn (the (arg_set_equal pol)) left right (arg_set_context pol)"

definition policy_hash :: "'a d7_hamt_set_policy_arg \<Rightarrow> 'a \<Rightarrow> u32" where
  "policy_hash pol item = fn (the (arg_set_hash pol)) item (arg_set_context pol)"

definition policy_retain :: "'a d7_hamt_set_policy_arg \<Rightarrow> 'a \<Rightarrow> nat \<Rightarrow> 'a option" where
  "policy_retain pol item = fn (the (arg_retain_item pol)) item (arg_set_context pol)"

definition d7_hamt_map_patch_states_equal :: "('k, 'v) d7_hamt_map_patch_context \<Rightarrow> 'v option \<Rightarrow> 'v option \<Rightarrow> bool" where
  "d7_hamt_map_patch_states_equal ctx left right =
     (case (left, right) of
        (None, None) \<Rightarrow> True
      | (Some l, Some r) \<Rightarrow> policy_equal (patch_value_policy ctx) l r
      | _ \<Rightarrow> False)"

section \<open>The policy of the map of changes\<close>

definition d7_hamt_map_patch_key_hash :: "('k, 'v) d7_hamt_map_patch_context \<Rightarrow> 'k \<Rightarrow> nat \<Rightarrow> u32" where
  "d7_hamt_map_patch_key_hash ctx key raw = policy_hash (patch_key_policy ctx) key"

definition d7_hamt_map_patch_key_equal :: "('k, 'v) d7_hamt_map_patch_context \<Rightarrow> 'k \<Rightarrow> 'k \<Rightarrow> nat \<Rightarrow> bool" where
  "d7_hamt_map_patch_key_equal ctx left right raw = policy_equal (patch_key_policy ctx) left right"

definition d7_hamt_map_patch_key_retain :: "('k, 'v) d7_hamt_map_patch_context \<Rightarrow> 'k \<Rightarrow> nat \<Rightarrow> nat \<Rightarrow> 'k option" where
  "d7_hamt_map_patch_key_retain ctx key raw t = policy_retain (patch_key_policy ctx) key t"

definition d7_hamt_map_patch_change_equal ::
  "('k, 'v) d7_hamt_map_patch_context \<Rightarrow> 'v d7_hamt_map_patch_change \<Rightarrow> 'v d7_hamt_map_patch_change \<Rightarrow> nat \<Rightarrow> bool" where
  "d7_hamt_map_patch_change_equal ctx left right raw \<longleftrightarrow>
     d7_hamt_map_patch_states_equal ctx (before_state left) (before_state right) \<and>
     d7_hamt_map_patch_states_equal ctx (after_state left) (after_state right)"

text \<open>A copy of a state; the two states of a change are copied at moments of their own.\<close>

definition retain_state :: "('k, 'v) d7_hamt_map_patch_context \<Rightarrow> 'v option \<Rightarrow> nat \<Rightarrow> 'v option option" where
  "retain_state ctx st t =
     (case st of None \<Rightarrow> Some None | Some v \<Rightarrow> map_option Some (policy_retain (patch_value_policy ctx) v t))"

definition d7_hamt_map_patch_change_retain ::
  "environment \<Rightarrow> ('k, 'v) d7_hamt_map_patch_context \<Rightarrow> 'v d7_hamt_map_patch_change \<Rightarrow> nat \<Rightarrow> nat
     \<Rightarrow> 'v d7_hamt_map_patch_change option" where
  "d7_hamt_map_patch_change_retain mem ctx change raw t =
     (if \<not> mem t then None
      else case retain_state ctx (before_state change) (2 * t) of
          None \<Rightarrow> None
        | Some b \<Rightarrow>
            (case retain_state ctx (after_state change) (2 * t + 1) of
               None \<Rightarrow> None
             | Some a \<Rightarrow> Some \<lparr>before_state = b, after_state = a\<rparr>))"

text \<open>The callbacks have the addresses 30 to 36.\<close>

definition d7_hamt_map_patch_policy ::
  "environment \<Rightarrow> ('k, 'v) d7_hamt_map_patch_context \<Rightarrow> ('k, 'v d7_hamt_map_patch_change) d7_hamt_policy_arg" where
  "d7_hamt_map_patch_policy mem ctx =
     \<lparr>arg_hash = Some (Callback 30 (d7_hamt_map_patch_key_hash ctx)),
      arg_key_equal = Some (Callback 31 (d7_hamt_map_patch_key_equal ctx)),
      arg_value_equal = Some (Callback 32 (d7_hamt_map_patch_change_equal ctx)),
      arg_retain_key = Some (Callback 33 (d7_hamt_map_patch_key_retain ctx)),
      arg_retain_value = Some (Callback 34 (d7_hamt_map_patch_change_retain mem ctx)),
      arg_release_key = Some 35, arg_release_value = Some 36, arg_context = context_address ctx\<rparr>"

section \<open>Handles\<close>

definition d7_hamt_map_patch_init ::
  "('k \<Rightarrow> 64 word) \<Rightarrow> environment \<Rightarrow> bool \<Rightarrow> 'k d7_hamt_set_policy_arg option \<Rightarrow> 'v d7_hamt_set_policy_arg option
     \<Rightarrow> ('k, 'v) d7_hamt_map_patch act" where
  "d7_hamt_map_patch_init ptr mem patch key_policy value_policy =
     (case (key_policy, value_policy) of
        (Some kp, Some vp) \<Rightarrow>
          if \<not> patch \<or> arg_set_hash kp = None \<or> arg_set_equal kp = None \<or> arg_set_equal vp = None
             \<or> arg_retain_item kp = None \<or> arg_release_item kp = None \<or> arg_retain_item vp = None \<or> arg_release_item vp = None
          then fail (Status D7_HAMT_INVALID_ARGUMENT)
          else andthen d7_hamt_allocate (\<lambda>a.
            let ctx = \<lparr>context_address = a, patch_key_policy = kp, patch_value_policy = vp\<rparr>
            in ret \<lparr>changes = d7_hamt_map_create ptr (Some (d7_hamt_map_patch_policy mem ctx)), patch_context = Some ctx\<rparr>)
      | _ \<Rightarrow> fail (Status D7_HAMT_INVALID_ARGUMENT))"

text \<open>Cloning and publishing; a null result pointer that is written to is a \<open>Fault\<close>.\<close>

definition d7_hamt_map_patch_publish :: "bool \<Rightarrow> ('k, 'v) d7_hamt_map_patch \<Rightarrow> ('k, 'v) d7_hamt_map_patch act" where
  "d7_hamt_map_patch_publish result candidate = (if result then ret candidate else fail Fault)"

definition d7_hamt_map_patch_clone ::
  "('k \<Rightarrow> 64 word) \<Rightarrow> ('k, 'v) d7_hamt_map_patch option \<Rightarrow> bool \<Rightarrow> ('k, 'v) d7_hamt_map_patch act" where
  "d7_hamt_map_patch_clone ptr source destination =
     (if \<not> d7_hamt_map_patch_valid source \<or> \<not> destination then fail (Status D7_HAMT_INVALID_ARGUMENT)
      else ret \<lparr>changes = d7_hamt_map_clone ptr (Some (changes (the source))), patch_context = patch_context (the source)\<rparr>)"

definition d7_hamt_map_patch_publish_clone ::
  "('k \<Rightarrow> 64 word) \<Rightarrow> ('k, 'v) d7_hamt_map_patch option \<Rightarrow> bool \<Rightarrow> ('k, 'v) d7_hamt_map_patch act" where
  "d7_hamt_map_patch_publish_clone ptr source result =
     andthen (d7_hamt_map_patch_clone ptr source True) (\<lambda>candidate. d7_hamt_map_patch_publish result candidate)"

text \<open>What a handle holds after it has been destroyed, or moved from.\<close>

definition d7_hamt_map_patch_destroy :: "('k, 'v) d7_hamt_map_patch option \<Rightarrow> ('k, 'v) d7_hamt_map_patch option" where
  "d7_hamt_map_patch_destroy patch =
     map_option (\<lambda>p. \<lparr>changes = the (d7_hamt_map_destroy (Some (changes p))), patch_context = None\<rparr>) patch"

text \<open>The handles after a move, which does nothing where the two are the same variable.\<close>

definition d7_hamt_map_patch_move ::
  "('k, 'v) d7_hamt_map_patch option \<Rightarrow> ('k, 'v) d7_hamt_map_patch option \<Rightarrow> bool
     \<Rightarrow> ('k, 'v) d7_hamt_map_patch option \<times> ('k, 'v) d7_hamt_map_patch option" where
  "d7_hamt_map_patch_move destination source same =
     (if destination \<noteq> None \<and> source \<noteq> None \<and> \<not> same then (source, d7_hamt_map_patch_destroy source)
      else (destination, source))"

definition d7_hamt_map_patch_count :: "('k, 'v) d7_hamt_map_patch option \<Rightarrow> nat" where
  "d7_hamt_map_patch_count patch =
     (if d7_hamt_map_patch_valid patch then d7_hamt_map_count (Some (changes (the patch))) else 0)"

definition d7_hamt_map_patch_empty :: "('k, 'v) d7_hamt_map_patch option \<Rightarrow> bool" where
  "d7_hamt_map_patch_empty patch \<longleftrightarrow> d7_hamt_map_patch_count patch = 0"

definition d7_hamt_map_patch_contains_key :: "('k, 'v) d7_hamt_map_patch option \<Rightarrow> 'k \<Rightarrow> failure + bool" where
  "d7_hamt_map_patch_contains_key patch key =
     (if d7_hamt_map_patch_valid patch then d7_hamt_map_contains_key (Some (changes (the patch))) key else Inr False)"

text \<open>The public form of a stored change.\<close>

definition patch_entry :: "'k \<Rightarrow> 'v d7_hamt_map_patch_change \<Rightarrow> ('k, 'v) d7_hamt_map_patch_entry" where
  "patch_entry key change = \<lparr>patch_key = key, patch_before = before_state change, patch_after = after_state change\<rparr>"

definition d7_hamt_map_patch_try_get_entry ::
  "('k, 'v) d7_hamt_map_patch option \<Rightarrow> 'k \<Rightarrow> failure + ('k, 'v) d7_hamt_map_patch_entry option" where
  "d7_hamt_map_patch_try_get_entry patch key =
     (if \<not> d7_hamt_map_patch_valid patch then Inr None
      else case d7_hamt_map_try_get_key (Some (changes (the patch))) key of
          Inl e \<Rightarrow> Inl e
        | Inr (found, stored_key) \<Rightarrow>
            if \<not> found then Inr None
            else map_found (map_option (patch_entry stored_key)) (d7_hamt_map_try_get (Some (changes (the patch))) key))"

section \<open>Editing a patch\<close>

definition d7_hamt_map_patch_add ::
  "('k \<Rightarrow> 64 word) \<Rightarrow> ('k, 'v) d7_hamt_map_patch option \<Rightarrow> ('k, 'v) d7_hamt_map_patch_entry option \<Rightarrow> bool
     \<Rightarrow> ('k, 'v) d7_hamt_map_patch act" where
  "d7_hamt_map_patch_add ptr patch entry result =
     (case (patch, entry) of
        (Some p, Some e) \<Rightarrow>
          (case patch_context p of
             None \<Rightarrow> fail (Status D7_HAMT_INVALID_ARGUMENT)
           | Some ctx \<Rightarrow>
               if \<not> result then fail (Status D7_HAMT_INVALID_ARGUMENT)
               else if d7_hamt_map_patch_states_equal ctx (patch_before e) (patch_after e)
               then d7_hamt_map_patch_publish_clone ptr patch result
               else
                 andthen (d7_hamt_map_add (Some (changes p)) (patch_key e)
                     \<lparr>before_state = patch_before e, after_state = patch_after e\<rparr> True) (\<lambda>cs.
                 d7_hamt_map_patch_publish result \<lparr>changes = cs, patch_context = Some ctx\<rparr>))
      | _ \<Rightarrow> fail (Status D7_HAMT_INVALID_ARGUMENT))"

definition d7_hamt_map_patch_try_add ::
  "('k \<Rightarrow> 64 word) \<Rightarrow> ('k, 'v) d7_hamt_map_patch option \<Rightarrow> ('k, 'v) d7_hamt_map_patch_entry option \<Rightarrow> bool \<Rightarrow> bool
     \<Rightarrow> (bool \<times> ('k, 'v) d7_hamt_map_patch) act" where
  "d7_hamt_map_patch_try_add ptr patch entry added result =
     (case (patch, entry) of
        (Some p, Some e) \<Rightarrow>
          (case patch_context p of
             None \<Rightarrow> fail (Status D7_HAMT_INVALID_ARGUMENT)
           | Some ctx \<Rightarrow>
               if \<not> added then fail (Status D7_HAMT_INVALID_ARGUMENT)
               else andthen (lift_res (d7_hamt_map_patch_contains_key patch (patch_key e))) (\<lambda>found.
                 if found \<or> d7_hamt_map_patch_states_equal ctx (patch_before e) (patch_after e)
                 then andthen (d7_hamt_map_patch_publish_clone ptr patch result) (\<lambda>p'. ret (False, p'))
                 else andthen (d7_hamt_map_patch_add ptr patch entry result) (\<lambda>p'. ret (True, p'))))
      | _ \<Rightarrow> fail (Status D7_HAMT_INVALID_ARGUMENT))"

definition d7_hamt_map_patch_remove ::
  "('k \<Rightarrow> 64 word) \<Rightarrow> ('k, 'v) d7_hamt_map_patch option \<Rightarrow> 'k \<Rightarrow> bool \<Rightarrow> ('k, 'v) d7_hamt_map_patch act" where
  "d7_hamt_map_patch_remove ptr patch key result =
     (if \<not> d7_hamt_map_patch_valid patch \<or> \<not> result then fail (Status D7_HAMT_INVALID_ARGUMENT)
      else andthen (d7_hamt_map_remove (Some (changes (the patch))) key True False) (\<lambda>cs.
        if d7_hamt_map_shares_root (Some cs) (Some (changes (the patch)))
        then d7_hamt_map_patch_publish_clone ptr patch result
        else d7_hamt_map_patch_publish result \<lparr>changes = cs, patch_context = patch_context (the patch)\<rparr>))"

definition d7_hamt_map_patch_clear ::
  "('k \<Rightarrow> 64 word) \<Rightarrow> ('k, 'v) d7_hamt_map_patch option \<Rightarrow> bool \<Rightarrow> ('k, 'v) d7_hamt_map_patch act" where
  "d7_hamt_map_patch_clear ptr patch result =
     (if \<not> d7_hamt_map_patch_valid patch \<or> \<not> result then fail (Status D7_HAMT_INVALID_ARGUMENT)
      else if d7_hamt_map_patch_empty patch then d7_hamt_map_patch_publish_clone ptr patch result
      else andthen (d7_hamt_map_clear (Some (changes (the patch))) True) (\<lambda>cs.
        d7_hamt_map_patch_publish result \<lparr>changes = cs, patch_context = patch_context (the patch)\<rparr>))"

section \<open>Applying a patch\<close>

definition d7_hamt_map_patch_compatible_map ::
  "('k, 'v) d7_hamt_map_patch_context \<Rightarrow> ('k, 'v) d7_hamt_map \<Rightarrow> bool" where
  "d7_hamt_map_patch_compatible_map ctx m \<longleftrightarrow>
     map_option fn_ptr (arg_set_hash (patch_key_policy ctx)) = Some (fn_ptr (hash (policy m))) \<and>
     map_option fn_ptr (arg_set_equal (patch_key_policy ctx)) = Some (fn_ptr (key_equal (policy m))) \<and>
     arg_set_context (patch_key_policy ctx) = policy_context (policy m)"

text \<open>The first loop: the key of the first change whose expectation the source does not meet.\<close>

function patch_conflict ::
  "('k, 'v) d7_hamt_map_patch_context \<Rightarrow> ('k, 'v) d7_hamt_map \<Rightarrow> ('k, 'v d7_hamt_map_patch_change) d7_hamt_map_iterator
     \<Rightarrow> failure + 'k option" where
  "patch_conflict ctx source it =
     (case d7_hamt_map_iterator_next it of
        Inl e \<Rightarrow> Inl e
      | Inr (it', None) \<Rightarrow> Inr None
      | Inr (it', Some e) \<Rightarrow>
          (case d7_hamt_map_try_get (Some source) (entry_key e) of
             Inl f \<Rightarrow> Inl f
           | Inr current \<Rightarrow>
               if (current \<noteq> None) \<noteq> (before_state (entry_value e) \<noteq> None)
                  \<or> (current \<noteq> None \<and> \<not> policy_equal (patch_value_policy ctx) (the current) (the (before_state (entry_value e))))
               then Inr (Some (entry_key e))
               else patch_conflict ctx source it'))"
  by pat_completeness auto
termination
  by (relation "measure (\<lambda>(ctx, source, it). length (iterator_rest it))") (auto dest: iterator_next_rest)

declare patch_conflict.simps [simp del]

definition d7_hamt_map_patch_try_apply ::
  "('k \<Rightarrow> 64 word) \<Rightarrow> ('k, 'v) d7_hamt_map_patch option \<Rightarrow> ('k, 'v) d7_hamt_map option \<Rightarrow> bool \<Rightarrow> bool
     \<Rightarrow> (bool \<times> 'k option \<times> ('k, 'v) d7_hamt_map) act" where
  "d7_hamt_map_patch_try_apply ptr patch source applied result =
     (case (patch, source) of
        (Some p, Some s) \<Rightarrow>
          (case patch_context p of
             None \<Rightarrow> fail (Status D7_HAMT_INVALID_ARGUMENT)
           | Some ctx \<Rightarrow>
               if \<not> applied \<or> \<not> result \<or> \<not> d7_hamt_map_patch_compatible_map ctx s then fail (Status D7_HAMT_INVALID_ARGUMENT)
               else andthen (lift_res (patch_conflict ctx s (d7_hamt_map_iterator_init (Some (changes p))))) (\<lambda>conflict.
                 case conflict of
                   Some key \<Rightarrow> ret (False, Some key, d7_hamt_map_clone ptr (Some s))
                 | None \<Rightarrow>
                     andthen (iterate (\<lambda>current e.
                         case after_state (entry_value e) of
                           Some v \<Rightarrow> d7_hamt_map_set (Some current) (entry_key e) v True
                         | None \<Rightarrow> d7_hamt_map_remove (Some current) (entry_key e) True False)
                       (d7_hamt_map_iterator_init (Some (changes p))) (d7_hamt_map_clone ptr (Some s))) (\<lambda>current.
                     ret (True, None, current))))
      | _ \<Rightarrow> fail (Status D7_HAMT_INVALID_ARGUMENT))"

text \<open>The status and what the result variable holds; on a conflict the clone in it has been destroyed.\<close>

definition d7_hamt_map_patch_apply ::
  "('k \<Rightarrow> 64 word) \<Rightarrow> ('k, 'v) d7_hamt_map_patch option \<Rightarrow> ('k, 'v) d7_hamt_map option \<Rightarrow> bool
     \<Rightarrow> (d7_hamt_status \<times> ('k, 'v) d7_hamt_map) act" where
  "d7_hamt_map_patch_apply ptr patch source result =
     andthen (d7_hamt_map_patch_try_apply ptr patch source True result) (\<lambda>(applied, conflict, m).
     ret (if applied then (D7_HAMT_OK, m) else (D7_HAMT_INVALID_ARGUMENT, the (d7_hamt_map_destroy (Some m)))))"

section \<open>Inversion, composition and difference\<close>

definition d7_hamt_map_patch_invert ::
  "('k \<Rightarrow> 64 word) \<Rightarrow> environment \<Rightarrow> ('k, 'v) d7_hamt_map_patch option \<Rightarrow> bool \<Rightarrow> ('k, 'v) d7_hamt_map_patch act" where
  "d7_hamt_map_patch_invert ptr mem patch result =
     (case patch of
        None \<Rightarrow> fail (Status D7_HAMT_INVALID_ARGUMENT)
      | Some p \<Rightarrow>
          (case patch_context p of
             None \<Rightarrow> fail (Status D7_HAMT_INVALID_ARGUMENT)
           | Some ctx \<Rightarrow>
               if \<not> result then fail (Status D7_HAMT_INVALID_ARGUMENT)
               else if d7_hamt_map_patch_empty patch then d7_hamt_map_patch_publish_clone ptr patch result
               else
                 andthen (d7_hamt_map_patch_init ptr mem True (Some (patch_key_policy ctx)) (Some (patch_value_policy ctx))) (\<lambda>candidate.
                 andthen (iterate (\<lambda>candidate e.
                     d7_hamt_map_patch_add ptr (Some candidate)
                       (Some \<lparr>patch_key = entry_key e, patch_before = after_state (entry_value e),
                              patch_after = before_state (entry_value e)\<rparr>) True)
                   (d7_hamt_map_iterator_init (Some (changes p))) candidate) (\<lambda>candidate.
                 d7_hamt_map_patch_publish result candidate))))"

definition d7_hamt_map_patch_compatible_patch ::
  "('k, 'v) d7_hamt_map_patch_context \<Rightarrow> ('k, 'v) d7_hamt_map_patch_context \<Rightarrow> bool" where
  "d7_hamt_map_patch_compatible_patch left right \<longleftrightarrow>
     map_option fn_ptr (arg_set_hash (patch_key_policy left)) = map_option fn_ptr (arg_set_hash (patch_key_policy right)) \<and>
     map_option fn_ptr (arg_set_equal (patch_key_policy left)) = map_option fn_ptr (arg_set_equal (patch_key_policy right)) \<and>
     arg_set_context (patch_key_policy left) = arg_set_context (patch_key_policy right) \<and>
     map_option fn_ptr (arg_set_equal (patch_value_policy left)) = map_option fn_ptr (arg_set_equal (patch_value_policy right)) \<and>
     arg_set_context (patch_value_policy left) = arg_set_context (patch_value_policy right)"

text \<open>The body of the outer loop, on one change of the second patch.\<close>

definition compose_step ::
  "('k \<Rightarrow> 64 word) \<Rightarrow> environment \<Rightarrow> ('k, 'v) d7_hamt_map_patch \<Rightarrow> ('k, 'v d7_hamt_map_patch_change) d7_hamt_entry
     \<Rightarrow> ('k, 'v) d7_hamt_map_patch act" where
  "compose_step ptr mem current nxt =
     andthen (lift_res (d7_hamt_map_patch_try_get_entry (Some current) (entry_key nxt))) (\<lambda>found.
     case found of
       None \<Rightarrow> d7_hamt_map_patch_add ptr (Some current) (Some (patch_entry (entry_key nxt) (entry_value nxt))) True
     | Some existing \<Rightarrow>
         let ctx = the (patch_context current)
         in if \<not> d7_hamt_map_patch_states_equal ctx (patch_after existing) (before_state (entry_value nxt))
            then fail (Status D7_HAMT_INVALID_ARGUMENT)
            else
              andthen (d7_hamt_map_patch_init ptr mem True (Some (patch_key_policy ctx)) (Some (patch_value_policy ctx))) (\<lambda>replacement.
              andthen (iterate (\<lambda>replacement e.
                  if policy_equal (patch_key_policy ctx) (entry_key e) (patch_key existing) then ret replacement
                  else d7_hamt_map_patch_add ptr (Some replacement) (Some (patch_entry (entry_key e) (entry_value e))) True)
                (d7_hamt_map_iterator_init (Some (changes current))) replacement) (\<lambda>replacement.
              d7_hamt_map_patch_add ptr (Some replacement)
                (Some \<lparr>patch_key = patch_key existing, patch_before = patch_before existing,
                       patch_after = after_state (entry_value nxt)\<rparr>) True)))"

definition d7_hamt_map_patch_compose ::
  "('k \<Rightarrow> 64 word) \<Rightarrow> environment \<Rightarrow> ('k, 'v) d7_hamt_map_patch option \<Rightarrow> ('k, 'v) d7_hamt_map_patch option \<Rightarrow> bool
     \<Rightarrow> ('k, 'v) d7_hamt_map_patch act" where
  "d7_hamt_map_patch_compose ptr mem left right result =
     (case (left, right) of
        (Some l, Some r) \<Rightarrow>
          (case (patch_context l, patch_context r) of
             (Some lctx, Some rctx) \<Rightarrow>
               if \<not> result \<or> \<not> d7_hamt_map_patch_compatible_patch lctx rctx then fail (Status D7_HAMT_INVALID_ARGUMENT)
               else
                 andthen (d7_hamt_map_patch_clone ptr left True) (\<lambda>current.
                 andthen (iterate (compose_step ptr mem) (d7_hamt_map_iterator_init (Some (changes r))) current) (\<lambda>current.
                 d7_hamt_map_patch_publish result current))
           | _ \<Rightarrow> fail (Status D7_HAMT_INVALID_ARGUMENT))
      | _ \<Rightarrow> fail (Status D7_HAMT_INVALID_ARGUMENT))"

definition d7_hamt_map_patch_visit ::
  "('k, 'v) d7_hamt_map_patch option \<Rightarrow> (('k, 'v) d7_hamt_map_patch_entry \<Rightarrow> 's \<Rightarrow> 's) option \<Rightarrow> 's \<Rightarrow> 's act" where
  "d7_hamt_map_patch_visit patch visitor context =
     (case visitor of
        None \<Rightarrow> fail (Status D7_HAMT_INVALID_ARGUMENT)
      | Some f \<Rightarrow>
          if \<not> d7_hamt_map_patch_valid patch then fail (Status D7_HAMT_INVALID_ARGUMENT)
          else iterate (\<lambda>st e. ret (f (patch_entry (entry_key e) (entry_value e)) st))
            (d7_hamt_map_iterator_init (Some (changes (the patch)))) context)"

text \<open>The loop of the validator: no change leads from a state to an equal one.\<close>

function patch_effective ::
  "('k, 'v) d7_hamt_map_patch_context \<Rightarrow> ('k, 'v d7_hamt_map_patch_change) d7_hamt_map_iterator \<Rightarrow> failure + bool" where
  "patch_effective ctx it =
     (case d7_hamt_map_iterator_next it of
        Inl e \<Rightarrow> Inl e
      | Inr (it', None) \<Rightarrow> Inr True
      | Inr (it', Some e) \<Rightarrow>
          if d7_hamt_map_patch_states_equal ctx (before_state (entry_value e)) (after_state (entry_value e)) then Inr False
          else patch_effective ctx it')"
  by pat_completeness auto
termination
  by (relation "measure (\<lambda>(ctx, it). length (iterator_rest it))") (auto dest: iterator_next_rest)

declare patch_effective.simps [simp del]

definition d7_hamt_map_patch_debug_validate :: "('k, 'v) d7_hamt_map_patch option \<Rightarrow> failure + bool" where
  "d7_hamt_map_patch_debug_validate patch =
     (if \<not> d7_hamt_map_patch_valid patch \<or> \<not> d7_hamt_map_debug_validate_canonical (Some (changes (the patch))) then Inr False
      else patch_effective (the (patch_context (the patch))) (d7_hamt_map_iterator_init (Some (changes (the patch)))))"

definition d7_hamt_map_patch_debug_shares_root ::
  "('k, 'v) d7_hamt_map_patch option \<Rightarrow> ('k, 'v) d7_hamt_map_patch option \<Rightarrow> bool" where
  "d7_hamt_map_patch_debug_shares_root left right \<longleftrightarrow>
     d7_hamt_map_patch_valid left \<and> d7_hamt_map_patch_valid right \<and>
     d7_hamt_map_shares_root (Some (changes (the left))) (Some (changes (the right)))"

definition d7_hamt_map_patch_unused_hash :: "'v \<Rightarrow> nat \<Rightarrow> u32" where
  "d7_hamt_map_patch_unused_hash v ctx = 0"

text \<open>The policies that the patch between two maps takes from the first; of the callbacks of a map only those that
  release may be null.\<close>

definition between_key_policy :: "('k, 'v) d7_hamt_policy \<Rightarrow> 'k d7_hamt_set_policy_arg" where
  "between_key_policy p =
     \<lparr>arg_set_hash = Some (hash p), arg_set_equal = Some (key_equal p), arg_retain_item = Some (retain_key p),
      arg_release_item = release_key p, arg_set_context = policy_context p\<rparr>"

definition between_value_policy :: "('k, 'v) d7_hamt_policy \<Rightarrow> 'v d7_hamt_set_policy_arg" where
  "between_value_policy p =
     \<lparr>arg_set_hash = Some (Callback 37 d7_hamt_map_patch_unused_hash), arg_set_equal = Some (value_equal p),
      arg_retain_item = Some (retain_value p), arg_release_item = release_value p, arg_set_context = policy_context p\<rparr>"

text \<open>The bodies of the two loops: an entry of the source, and an entry of the target.\<close>

definition between_source_step ::
  "('k \<Rightarrow> 64 word) \<Rightarrow> ('k, 'v) d7_hamt_policy \<Rightarrow> ('k, 'v) d7_hamt_map \<Rightarrow> ('k, 'v) d7_hamt_map_patch \<Rightarrow> ('k, 'v) d7_hamt_entry
     \<Rightarrow> ('k, 'v) d7_hamt_map_patch act" where
  "between_source_step ptr p target patch e =
     andthen (lift_res (d7_hamt_map_try_get (Some target) (entry_key e))) (\<lambda>found.
     if found = None \<or> \<not> fn (value_equal p) (entry_value e) (the found) (policy_context p)
     then d7_hamt_map_patch_add ptr (Some patch)
       (Some \<lparr>patch_key = entry_key e, patch_before = Some (entry_value e), patch_after = found\<rparr>) True
     else ret patch)"

definition between_target_step ::
  "('k \<Rightarrow> 64 word) \<Rightarrow> ('k, 'v) d7_hamt_map \<Rightarrow> ('k, 'v) d7_hamt_map_patch \<Rightarrow> ('k, 'v) d7_hamt_entry \<Rightarrow> ('k, 'v) d7_hamt_map_patch act" where
  "between_target_step ptr source patch e =
     andthen (lift_res (d7_hamt_map_contains_key (Some source) (entry_key e))) (\<lambda>found.
     if \<not> found
     then d7_hamt_map_patch_add ptr (Some patch)
       (Some \<lparr>patch_key = entry_key e, patch_before = None, patch_after = Some (entry_value e)\<rparr>) True
     else ret patch)"

definition d7_hamt_map_patch_between ::
  "('k \<Rightarrow> 64 word) \<Rightarrow> environment \<Rightarrow> ('k, 'v) d7_hamt_map option \<Rightarrow> ('k, 'v) d7_hamt_map option \<Rightarrow> bool
     \<Rightarrow> ('k, 'v) d7_hamt_map_patch act" where
  "d7_hamt_map_patch_between ptr mem source target result =
     (case (source, target) of
        (Some a, Some b) \<Rightarrow>
          (let p = policy a
           in if \<not> result \<or> fn_ptr (hash p) \<noteq> fn_ptr (hash (policy b)) \<or> fn_ptr (key_equal p) \<noteq> fn_ptr (key_equal (policy b))
                 \<or> policy_context p \<noteq> policy_context (policy b) \<or> release_key p = None \<or> release_value p = None
              then fail (Status D7_HAMT_INVALID_ARGUMENT)
              else
                andthen (d7_hamt_map_patch_init ptr mem True (Some (between_key_policy p)) (Some (between_value_policy p))) (\<lambda>patch.
                andthen (iterate (between_source_step ptr p b) (d7_hamt_map_iterator_init (Some a)) patch) (\<lambda>patch.
                iterate (between_target_step ptr a) (d7_hamt_map_iterator_init (Some b)) patch)))
      | _ \<Rightarrow> fail (Status D7_HAMT_INVALID_ARGUMENT))"

end
