(* ===== verification/Hamt_Patch_Spec.thy ===== *)
theory Hamt_Patch_Spec
  imports Hamt_Patch
begin

text \<open>
  Patches as partial functions. The state of a key in a map is the class of the values equal to the one it is bound to, the
  empty set where it is unbound; an abstract patch maps some keys to a pair of different states. The first part is
  the algebra of abstract patches, the second shows that every operation of the code computes it.
\<close>

section \<open>Abstract patches\<close>

type_synonym ('k, 'v) states = "'k \<Rightarrow> 'v set"
type_synonym ('k, 'v) abstract_patch = "'k \<Rightarrow> ('v set \<times> 'v set) option"

definition patch_applies :: "('k, 'v) abstract_patch \<Rightarrow> ('k, 'v) states \<Rightarrow> bool" where
  "patch_applies P M \<longleftrightarrow> (\<forall>k b a. P k = Some (b, a) \<longrightarrow> M k = b)"

definition patch_applied :: "('k, 'v) abstract_patch \<Rightarrow> ('k, 'v) states \<Rightarrow> ('k, 'v) states" where
  "patch_applied P M = (\<lambda>k. case P k of None \<Rightarrow> M k | Some (b, a) \<Rightarrow> a)"

definition patch_inverse :: "('k, 'v) abstract_patch \<Rightarrow> ('k, 'v) abstract_patch" where
  "patch_inverse P = (\<lambda>k. map_option prod.swap (P k))"

definition patch_step :: "'v set \<Rightarrow> 'v set \<Rightarrow> ('v set \<times> 'v set) option" where
  "patch_step b a = (if b = a then None else Some (b, a))"

definition patch_difference :: "('k, 'v) states \<Rightarrow> ('k, 'v) states \<Rightarrow> ('k, 'v) abstract_patch" where
  "patch_difference M N = (\<lambda>k. patch_step (M k) (N k))"

definition patch_meets :: "('k, 'v) abstract_patch \<Rightarrow> ('k, 'v) abstract_patch \<Rightarrow> bool" where
  "patch_meets P Q \<longleftrightarrow> (\<forall>k b m m' a. P k = Some (b, m) \<longrightarrow> Q k = Some (m', a) \<longrightarrow> m = m')"

definition patch_then :: "('k, 'v) abstract_patch \<Rightarrow> ('k, 'v) abstract_patch \<Rightarrow> ('k, 'v) abstract_patch" where
  "patch_then P Q = (\<lambda>k.
     case (P k, Q k) of (None, q) \<Rightarrow> q | (p, None) \<Rightarrow> p | (Some (b, m), Some (m', a)) \<Rightarrow> patch_step b a)"

definition patch_proper :: "('k, 'v) abstract_patch \<Rightarrow> bool" where
  "patch_proper P \<longleftrightarrow> (\<forall>k b a. P k = Some (b, a) \<longrightarrow> b \<noteq> a)"

lemma applies_difference: "patch_applies (patch_difference M N) M"
  by (simp add: patch_applies_def patch_difference_def patch_step_def)

lemma applied_difference: "patch_applied (patch_difference M N) M = N"
  by (simp add: fun_eq_iff patch_applied_def patch_difference_def patch_step_def)

lemma inverse_difference: "patch_inverse (patch_difference M N) = patch_difference N M"
  by (auto simp: fun_eq_iff patch_inverse_def patch_difference_def patch_step_def)

lemma inverse_inverse: "patch_inverse (patch_inverse P) = P"
  by (simp add: fun_eq_iff patch_inverse_def option.map_comp comp_def prod.swap_def option.map_ident)

lemma applies_inverse: "patch_applies (patch_inverse P) (patch_applied P M)"
  by (auto simp: patch_applies_def patch_inverse_def patch_applied_def)

lemma applied_inverse: "patch_applies P M \<Longrightarrow> patch_applied (patch_inverse P) (patch_applied P M) = M"
  by (auto simp: fun_eq_iff patch_applies_def patch_inverse_def patch_applied_def split: option.splits)

text \<open>Composition is application in sequence.\<close>

lemma meets_applied:
  "patch_applies P M \<Longrightarrow> patch_applies Q (patch_applied P M) \<Longrightarrow> patch_meets P Q"
  unfolding patch_applies_def patch_meets_def patch_applied_def by force

lemma applies_then:
  assumes "patch_applies P M" and "patch_applies Q (patch_applied P M)"
  shows "patch_applies (patch_then P Q) M"
  unfolding patch_applies_def
proof (intro allI impI)
  fix k b a
  assume "patch_then P Q k = Some (b, a)"
  then show "M k = b"
    using assms unfolding patch_applies_def patch_applied_def patch_then_def patch_step_def
    by (cases "P k"; cases "Q k") (force split: if_splits)+
qed

lemma applied_then:
  assumes "patch_applies P M" and "patch_applies Q (patch_applied P M)"
  shows "patch_applied (patch_then P Q) M = patch_applied Q (patch_applied P M)"
proof
  fix k
  show "patch_applied (patch_then P Q) M k = patch_applied Q (patch_applied P M) k"
    using assms unfolding patch_applies_def patch_applied_def patch_then_def patch_step_def
    by (cases "P k"; cases "Q k") (auto split: if_splits)
qed

text \<open>A loop over the keys has replaced the states of \<open>B\<close> by those of \<open>A\<close> on the keys it has met.\<close>

definition overlay :: "('k \<Rightarrow> 'k \<Rightarrow> bool) \<Rightarrow> ('k, 'v) d7_hamt_entry list \<Rightarrow> ('k \<Rightarrow> 'c) \<Rightarrow> ('k \<Rightarrow> 'c) \<Rightarrow> 'k \<Rightarrow> 'c" where
  "overlay R es A B = (\<lambda>k. if \<exists>e\<in>set es. R (entry_key e) k then A k else B k)"

lemma overlay_Nil [simp]: "overlay R [] A B = B"
  by (simp add: overlay_def)

lemma overlay_snoc: "overlay R (es @ [e]) A B = (\<lambda>k. if R (entry_key e) k then A k else overlay R es A B k)"
  by (auto simp: overlay_def fun_eq_iff)

lemma overlay_all: "(\<And>k. \<not> (\<exists>e\<in>set es. R (entry_key e) k) \<Longrightarrow> A k = B k) \<Longrightarrow> overlay R es A B = A"
  by (auto simp: overlay_def fun_eq_iff)

lemma overlay_new: "\<not> (\<exists>e\<in>set es. R (entry_key e) k) \<Longrightarrow> overlay R es A B k = B k"
  by (simp add: overlay_def)

lemma sorted_new:
  assumes "sorted_wrt (\<lambda>e e'. \<not> R (entry_key e) (entry_key e')) (ys @ x # zs)"
  shows "\<not> (\<exists>e\<in>set ys. R (entry_key e) (entry_key x))"
  using assms by (auto simp: sorted_wrt_append)

section \<open>States of maps and patches\<close>

definition state_class :: "('v \<Rightarrow> 'v \<Rightarrow> bool) \<Rightarrow> 'v option \<Rightarrow> 'v set" where
  "state_class R s = (case s of None \<Rightarrow> {} | Some v \<Rightarrow> {w. R v w})"

definition change_states :: "('v \<Rightarrow> 'v \<Rightarrow> bool) \<Rightarrow> 'v d7_hamt_map_patch_change \<Rightarrow> 'v set \<times> 'v set" where
  "change_states R c = (state_class R (before_state c), state_class R (after_state c))"

definition map_states :: "('v \<Rightarrow> 'v \<Rightarrow> bool) \<Rightarrow> ('k, 'v) d7_hamt_map \<Rightarrow> ('k, 'v) states" where
  "map_states R m k = state_class R (map_option entry_value (map_entry m k))"

definition patch_states :: "('v \<Rightarrow> 'v \<Rightarrow> bool) \<Rightarrow> ('k, 'v) d7_hamt_map_patch \<Rightarrow> ('k, 'v) abstract_patch" where
  "patch_states R P k = map_option (\<lambda>e. change_states R (entry_value e)) (map_entry (changes P) k)"

lemma map_states_holds: "map_states R m k = {v. map_holds R m k v}"
  by (auto simp: map_states_def state_class_def map_holds_def split: option.split)

lemma state_class_eq:
  assumes "equivp R"
  shows "state_class R s = state_class R s' \<longleftrightarrow> rel_option R s s'"
  using assms equivp_reflp [OF assms] unfolding equivp_def state_class_def
  by (cases s; cases s') (auto simp: Collect_empty_eq empty_Collect_eq)

lemma state_class_empty: "equivp R \<Longrightarrow> state_class R s = {} \<longleftrightarrow> s = None"
  using equivp_reflp [of R] by (auto simp: state_class_def split: option.splits)

definition change_rel :: "('v \<Rightarrow> 'v \<Rightarrow> bool) \<Rightarrow> 'v d7_hamt_map_patch_change \<Rightarrow> 'v d7_hamt_map_patch_change \<Rightarrow> bool" where
  "change_rel R c d \<longleftrightarrow> change_states R c = change_states R d"

lemma change_rel_equivp: "equivp (change_rel R)"
  by (simp add: equivp_def fun_eq_iff change_rel_def) metis

lemma patch_states_holds: "patch_states R P k = Some (change_states R c) \<longleftrightarrow> map_holds (change_rel R) (changes P) k c"
  by (auto simp: patch_states_def map_holds_def change_rel_def)

lemma patch_states_ex: "(\<exists>c. map_holds (change_rel R) (changes P) k c) \<longleftrightarrow> patch_states R P k \<noteq> None"
  by (auto simp: patch_states_def map_holds_def change_rel_def)

lemma patch_states_none: "patch_states R P k = None \<longleftrightarrow> (\<forall>c. \<not> map_holds (change_rel R) (changes P) k c)"
  using patch_states_ex [of R P k] by blast

lemma patch_states_obtain:
  assumes "patch_states R P k = Some x"
  obtains c where "x = change_states R c" "map_holds (change_rel R) (changes P) k c"
  using assms by (auto simp: patch_states_def map_holds_def change_rel_def)

lemma patch_states_cong:
  assumes "\<And>c. map_holds (change_rel R) (changes P) k c = map_holds (change_rel R) (changes P') k' c"
  shows "patch_states R P k = patch_states R P' k'"
proof (cases "patch_states R P k")
  case None
  then show ?thesis using patch_states_ex [of R P k] patch_states_ex [of R P' k'] assms by (cases "patch_states R P' k'") auto
next
  case (Some x)
  then obtain c where "x = change_states R c" "map_holds (change_rel R) (changes P) k c" by (rule patch_states_obtain)
  then show ?thesis using Some assms patch_states_holds [of R P' k' c] by simp
qed

section \<open>The policies of a patch\<close>

definition change_policy ::
  "environment \<Rightarrow> 'k d7_hamt_set_policy_arg \<Rightarrow> 'v d7_hamt_set_policy_arg \<Rightarrow> addr \<Rightarrow> ('k, 'v d7_hamt_map_patch_change) d7_hamt_policy" where
  "change_policy mem kp vp a =
     d7_hamt_normalize_policy (\<lambda>_. 0)
       (Some (d7_hamt_map_patch_policy mem \<lparr>context_address = a, patch_key_policy = kp, patch_value_policy = vp\<rparr>))"

definition patch_failures :: "environment \<Rightarrow> environment \<Rightarrow> 'k d7_hamt_set_policy_arg \<Rightarrow> 'v d7_hamt_set_policy_arg \<Rightarrow> nat set" where
  "patch_failures E mem kp vp = failing_requests E (change_policy mem kp vp 0)"

definition patch_rep ::
  "environment \<Rightarrow> 'k d7_hamt_set_policy_arg \<Rightarrow> 'v d7_hamt_set_policy_arg \<Rightarrow> nat \<Rightarrow> ('k, 'v) d7_hamt_map_patch \<Rightarrow> bool" where
  "patch_rep mem kp vp t P \<longleftrightarrow>
     (\<exists>a. patch_context P = Some \<lparr>context_address = a, patch_key_policy = kp, patch_value_policy = vp\<rparr> \<and>
        map_valid_at (change_policy mem kp vp a) t (changes P)) \<and>
     patch_proper (patch_states (policy_equal vp) P)"

lemmas change_policy_defs = change_policy_def d7_hamt_map_patch_policy_def d7_hamt_map_patch_key_hash_def
  d7_hamt_map_patch_key_equal_def d7_hamt_map_patch_key_retain_def d7_hamt_map_patch_change_equal_def

lemma change_policy_simps [simp]:
  "d7_hamt_keys_equal (change_policy mem kp vp a) = policy_equal kp"
  "d7_hamt_get_hash (change_policy mem kp vp a) = policy_hash kp"
  "d7_hamt_retain_key (change_policy mem kp vp a) = policy_retain kp"
  by (simp_all add: fun_eq_iff change_policy_defs policy_defs)

lemma normalize_change_policy [simp]:
  "d7_hamt_normalize_policy ptr (Some (d7_hamt_map_patch_policy mem \<lparr>context_address = a, patch_key_policy = kp, patch_value_policy = vp\<rparr>)) =
     change_policy mem kp vp a"
  by (simp add: change_policy_defs d7_hamt_normalize_policy_def or_default_def)

lemma change_retain_value:
  "d7_hamt_retain_value (change_policy mem kp vp a) c t =
     d7_hamt_map_patch_change_retain mem \<lparr>context_address = a, patch_key_policy = kp, patch_value_policy = vp\<rparr> c a t"
  by (simp add: change_policy_defs policy_defs)

lemma retain_state_address:
  "retain_state \<lparr>context_address = a, patch_key_policy = kp, patch_value_policy = vp\<rparr> =
     retain_state \<lparr>context_address = 0, patch_key_policy = kp, patch_value_policy = vp\<rparr>"
  by (simp add: fun_eq_iff retain_state_def split: option.split)

lemma change_failures: "failing_requests E (change_policy mem kp vp a) = patch_failures E mem kp vp"
  by (simp add: patch_failures_def failing_requests_def change_retain_value d7_hamt_map_patch_change_retain_def
      retain_state_address [of a] cong: option.case_cong)

text \<open>The contract: no callback the code calls is null, equality of keys is a congruence for the hash, equality of values an
  equivalence, and retaining yields an equal item.\<close>

locale map_patch_policy =
  fixes mem :: environment and kp :: "'k d7_hamt_set_policy_arg" and vp :: "'v d7_hamt_set_policy_arg"
  assumes callbacks: "arg_set_hash kp \<noteq> None" "arg_set_equal kp \<noteq> None" "arg_retain_item kp \<noteq> None" "arg_release_item kp \<noteq> None"
      "arg_set_equal vp \<noteq> None" "arg_retain_item vp \<noteq> None" "arg_release_item vp \<noteq> None"
    and key_equivp: "equivp (policy_equal kp)"
    and key_hash: "policy_equal kp a b \<Longrightarrow> policy_hash kp a = policy_hash kp b"
    and key_retain: "policy_retain kp a i = Some a' \<Longrightarrow> policy_equal kp a a'"
    and value_equivp: "equivp (policy_equal vp)"
    and value_retain: "policy_retain vp v i = Some v' \<Longrightarrow> policy_equal vp v v'"
begin

lemma same_key [simp]: "policy_equal kp k k"
  using key_equivp by (rule equivp_reflp)

lemma states_equal_iff:
  "patch_value_policy ctx = vp \<Longrightarrow>
     d7_hamt_map_patch_states_equal ctx s s' \<longleftrightarrow> state_class (policy_equal vp) s = state_class (policy_equal vp) s'"
  unfolding state_class_eq [OF value_equivp]
  by (cases s; cases s') (simp_all add: d7_hamt_map_patch_states_equal_def)

lemma retained_class:
  "retain_state ctx s i = Some s' \<Longrightarrow> patch_value_policy ctx = vp \<Longrightarrow> state_class (policy_equal vp) s = state_class (policy_equal vp) s'"
  unfolding state_class_eq [OF value_equivp] using value_retain by (cases s) (auto simp: retain_state_def)

end

sublocale map_patch_policy < change: hamt_policy "change_policy mem kp vp a" "policy_equal kp" "change_rel (policy_equal vp)" for a
proof (unfold_locales, goal_cases)
  case (7 v w)
  then show ?case
    by (auto simp: d7_hamt_values_equal_def change_policy_defs d7_hamt_normalize_policy_def or_default_def change_states_def
        change_rel_def states_equal_iff)
next
  case (8 v i v')
  then show ?case
    using retained_class
    by (fastforce simp: change_retain_value d7_hamt_map_patch_change_retain_def change_rel_def change_states_def split: if_splits option.splits)
qed (use key_equivp key_hash key_retain change_rel_equivp in simp_all)

lemma fold_act_ret: "fold_act (\<lambda>s e. ret (g e s)) s es = ret (fold g es s)"
  by (induction es arbitrary: s) (simp_all add: andthen_ret)

lemma publish_result [simp]: "d7_hamt_map_patch_publish True = ret"
  by (simp add: fun_eq_iff d7_hamt_map_patch_publish_def)

context map_patch_policy
begin

abbreviation rep where "rep \<equiv> patch_rep mem kp vp"
abbreviation st where "st \<equiv> patch_states (policy_equal vp)"
abbreviation cl where "cl \<equiv> state_class (policy_equal vp)"

lemmas chg_holds_key = change.client.holds_key [unfolded change_policy_simps]
lemmas chg_lookup = change.client.lookup [unfolded change_policy_simps]
lemmas chg_add = change.client.add [unfolded change_failures change_policy_simps]
lemmas chg_add_present = change.client.add_present [unfolded change_failures change_policy_simps]
lemmas chg_remove = achieves_conj [OF change.client.remove change.client.remove_shared, unfolded change_failures change_policy_simps]
lemmas chg_iteration = change.client.iteration [unfolded change_failures change_policy_simps]

lemma rep_context:
  assumes "rep t P"
  obtains a where "patch_context P = Some \<lparr>context_address = a, patch_key_policy = kp, patch_value_policy = vp\<rparr>"
    "map_valid_at (change_policy mem kp vp a) t (changes P)"
  using assms by (auto simp: patch_rep_def)

lemma rep_proper: "rep t P \<Longrightarrow> patch_proper (st P)"
  by (simp add: patch_rep_def)

lemma rep_later: "rep t P \<Longrightarrow> t \<le> t' \<Longrightarrow> rep t' P"
  using change.client.valid_later unfolding patch_rep_def by blast

lemma rep_valid: "rep t P \<Longrightarrow> d7_hamt_map_patch_valid (Some P)"
  by (auto simp: patch_rep_def d7_hamt_map_patch_valid_def)

lemma publish_clone [simp]: "rep t P \<Longrightarrow> d7_hamt_map_patch_publish_clone ptr (Some P) True = ret P"
  by (cases P) (auto simp: d7_hamt_map_patch_publish_clone_def d7_hamt_map_patch_clone_def d7_hamt_map_patch_publish_def
    d7_hamt_map_clone_def andthen_ret dest!: rep_valid)

lemma states_key:
  assumes "rep t P" and "policy_equal kp k k'"
  shows "st P k = st P k'"
  using rep_context [OF assms(1)] chg_holds_key [OF _ assms(2)] by (metis patch_states_cong)

lemma bound_states:
  assumes "map_holds (change_rel (policy_equal vp)) cs =
    bound_to (policy_equal kp) (change_rel (policy_equal vp)) k c (map_holds (change_rel (policy_equal vp)) (changes P))"
  shows "st \<lparr>changes = cs, patch_context = x\<rparr> = (\<lambda>k'. if policy_equal kp k k' then Some (change_states (policy_equal vp) c) else st P k')"
proof
  fix k'
  have "st \<lparr>changes = cs, patch_context = x\<rparr> k' = st P k'" if "\<not> policy_equal kp k k'"
    using assms that by (intro patch_states_cong) simp
  moreover have "st \<lparr>changes = cs, patch_context = x\<rparr> k' = Some (change_states (policy_equal vp) c)" if "policy_equal kp k k'"
    using assms that by (simp add: patch_states_holds change_rel_def)
  ultimately show "st \<lparr>changes = cs, patch_context = x\<rparr> k' =
      (if policy_equal kp k k' then Some (change_states (policy_equal vp) c) else st P k')" by simp
qed

lemma unbound_states:
  assumes "map_holds (change_rel (policy_equal vp)) cs =
    unbound (policy_equal kp) k (map_holds (change_rel (policy_equal vp)) (changes P))"
  shows "st \<lparr>changes = cs, patch_context = x\<rparr> = (\<lambda>k'. if policy_equal kp k k' then None else st P k')"
proof
  fix k'
  have "st \<lparr>changes = cs, patch_context = x\<rparr> k' = st P k'" if "\<not> policy_equal kp k k'"
    using assms that by (intro patch_states_cong) simp
  moreover have "st \<lparr>changes = cs, patch_context = x\<rparr> k' = None" if "policy_equal kp k k'"
    using assms that by (simp add: patch_states_none)
  ultimately show "st \<lparr>changes = cs, patch_context = x\<rparr> k' = (if policy_equal kp k k' then None else st P k')" by simp
qed

section \<open>Initialisation and editing\<close>

lemma init_spec:
  "achieves E (patch_failures E mem kp vp) t (d7_hamt_map_patch_init ptr mem True (Some kp) (Some vp))
     (\<lambda>P t'. rep t' P \<and> st P = (\<lambda>_. None))"
proof -
  have empty: "map_valid_at p t' (d7_hamt_map_create_from p)" for p :: "('k, 'v d7_hamt_map_patch_change) d7_hamt_policy" and t'
    using map_create_ok [of "{}" t' p] by (auto simp: map_valid_at_def d7_hamt_map_create_from_def heap_def)
  show ?thesis
    unfolding d7_hamt_map_patch_init_def option.case prod.case Let_def d7_hamt_map_create_def normalize_change_policy
    using callbacks empty
    by (auto simp: patch_rep_def patch_proper_def patch_states_def map_entry_def d7_hamt_map_create_from_def patch_failures_def
        intro!: achieves_andthen [OF achieves_alloc] achieves_ret)
qed

lemma add_spec:
  assumes P: "rep t P"
  shows "reports (st P k \<noteq> None \<and> cl b \<noteq> cl a) D7_HAMT_DUPLICATE_KEY E (patch_failures E mem kp vp) t
    (d7_hamt_map_patch_add ptr (Some P) (Some \<lparr>patch_key = k, patch_before = b, patch_after = a\<rparr>) True)
    (\<lambda>R t'. rep t' R \<and> (cl b \<noteq> cl a \<longrightarrow> st P k = None) \<and>
       st R = (\<lambda>k'. if policy_equal kp k k' \<and> cl b \<noteq> cl a then Some (cl b, cl a) else st P k'))"
proof -
  obtain x where x: "patch_context P = Some \<lparr>context_address = x, patch_key_policy = kp, patch_value_policy = vp\<rparr>"
    "map_valid_at (change_policy mem kp vp x) t (changes P)" using rep_context [OF P] .
  let ?c = "\<lparr>before_state = b, after_state = a\<rparr>"
  have c: "change_states (policy_equal vp) ?c = (cl b, cl a)" by (simp add: change_states_def)
  show ?thesis
  proof (cases "cl b = cl a")
    case True
    then show ?thesis using P x by (auto simp: d7_hamt_map_patch_add_def states_equal_iff intro!: reports_ret)
  next
    case False
    then have run: "d7_hamt_map_patch_add ptr (Some P) (Some \<lparr>patch_key = k, patch_before = b, patch_after = a\<rparr>) True =
        andthen (d7_hamt_map_add (Some (changes P)) k ?c True) (\<lambda>cs. ret \<lparr>changes = cs, patch_context = patch_context P\<rparr>)"
      using x by (simp add: d7_hamt_map_patch_add_def states_equal_iff d7_hamt_map_patch_publish_def)
    show ?thesis
    proof (cases "st P k")
      case None
      then have none: "\<not> map_holds (change_rel (policy_equal vp)) (changes P) k c" for c
        using patch_states_ex [of "policy_equal vp" P k] by blast
      have "rep t' \<lparr>changes = cs, patch_context = patch_context P\<rparr>"
        if "map_valid_at (change_policy mem kp vp x) t' cs"
          "st \<lparr>changes = cs, patch_context = patch_context P\<rparr> = (\<lambda>k'. if policy_equal kp k k' then Some (cl b, cl a) else st P k')" for cs t'
        using that x(1) False rep_proper [OF P] by (auto simp: patch_rep_def patch_proper_def)
      then show ?thesis
        unfolding run using None False
        by (intro reports_andthen [OF achieves_reports [OF chg_add [OF x(2) none]]] reports_ret)
          (simp add: bound_states [of _ k ?c, unfolded c])
    next
      case (Some y)
      then obtain c where "map_holds (change_rel (policy_equal vp)) (changes P) k c" by (rule patch_states_obtain)
      note present = chg_add_present [OF x(2) this, of E ?c]
      have dup: "(st P k \<noteq> None \<and> cl b \<noteq> cl a) = True" using Some False by simp
      show ?thesis unfolding run dup by (rule reports_andthen [OF present]) simp
    qed
  qed
qed

lemma add_fresh:
  assumes "rep t P" and "st P k = None"
  shows "achieves E (patch_failures E mem kp vp) t
    (d7_hamt_map_patch_add ptr (Some P) (Some \<lparr>patch_key = k, patch_before = b, patch_after = a\<rparr>) True)
    (\<lambda>R t'. rep t' R \<and> st R = (\<lambda>k'. if policy_equal kp k k' then patch_step (cl b) (cl a) else st P k'))"
proof -
  have "st P k' = None" if "policy_equal kp k k'" for k' using states_key [OF assms(1) that] assms(2) by simp
  then have "(\<lambda>k'. if policy_equal kp k k' \<and> cl b \<noteq> cl a then Some (cl b, cl a) else st P k') =
      (\<lambda>k'. if policy_equal kp k k' then patch_step (cl b) (cl a) else st P k')"
    by (auto simp: fun_eq_iff patch_step_def)
  then show ?thesis
    using add_spec [OF assms(1), of k b a E ptr] assms(2) by (auto simp: reports_achieves elim!: achieves_weaken)
qed

lemma remove_spec:
  assumes P: "rep t P"
  shows "achieves E (patch_failures E mem kp vp) t (d7_hamt_map_patch_remove ptr (Some P) k True)
    (\<lambda>R t'. rep t' R \<and> st R = (\<lambda>k'. if policy_equal kp k k' then None else st P k'))"
proof -
  obtain x where x: "patch_context P = Some \<lparr>context_address = x, patch_key_policy = kp, patch_value_policy = vp\<rparr>"
    "map_valid_at (change_policy mem kp vp x) t (changes P)" using rep_context [OF P] .
  have changed: "rep t' \<lparr>changes = cs, patch_context = patch_context P\<rparr>"
    if "map_valid_at (change_policy mem kp vp x) t' cs"
      "st \<lparr>changes = cs, patch_context = patch_context P\<rparr> = (\<lambda>k'. if policy_equal kp k k' then None else st P k')" for cs t'
    using that x(1) rep_proper [OF P] by (auto simp: patch_rep_def patch_proper_def)
  have run: "d7_hamt_map_patch_remove ptr (Some P) k True =
      andthen (d7_hamt_map_remove (Some (changes P)) k True False) (\<lambda>cs.
        ret (if d7_hamt_map_shares_root (Some cs) (Some (changes P)) then P else \<lparr>changes = cs, patch_context = patch_context P\<rparr>))"
    using rep_valid [OF P] publish_clone [OF P, of ptr]
    by (simp add: d7_hamt_map_patch_remove_def d7_hamt_map_patch_publish_def if_distrib [of ret] cong: if_cong)
  show ?thesis
    unfolding run
  proof (rule achieves_andthen [OF chg_remove [OF x(2) x(2)]], rule achieves_ret, goal_cases)
    case (1 cs t1)
    have states: "st \<lparr>changes = cs, patch_context = y\<rparr> = (\<lambda>k'. if policy_equal kp k k' then None else st P k')" for y
      using 1(2) by (intro unbound_states) blast
    have "st P = st \<lparr>changes = cs, patch_context = y\<rparr>" if "d7_hamt_map_shares_root (Some cs) (Some (changes P))" for y
    proof -
      have same: "map_holds (change_rel (policy_equal vp)) cs = map_holds (change_rel (policy_equal vp)) (changes P)" using 1(2) that by blast
      show ?thesis by (intro ext patch_states_cong) (simp add: same)
    qed
    then show ?case using 1 states changed [of t1 cs] rep_later [OF P] by simp
  qed
qed

lemma rep_entries:
  assumes P: "rep t P"
  obtains es where "iterator_ok (d7_hamt_map_iterator_init (Some (changes P)))"
    "iterator_rest (d7_hamt_map_iterator_init (Some (changes P))) = es"
    "sorted_wrt (\<lambda>e e'. \<not> policy_equal kp (entry_key e) (entry_key e')) es" "length es = d7_hamt_map.count (changes P)"
    "\<And>e. e \<in> set es \<Longrightarrow> st P (entry_key e) = Some (change_states (policy_equal vp) (entry_value e))"
    "\<And>k. st P k = None \<longleftrightarrow> \<not> (\<exists>e\<in>set es. policy_equal kp (entry_key e) k)"
proof -
  obtain x where x: "map_valid_at (change_policy mem kp vp x) t (changes P)" using rep_context [OF P] .
  obtain es where es: "iterator_ok (d7_hamt_map_iterator_init (Some (changes P)))"
    "iterator_rest (d7_hamt_map_iterator_init (Some (changes P))) = es"
    "sorted_wrt (\<lambda>e e'. \<not> policy_equal kp (entry_key e) (entry_key e')) es" "length es = d7_hamt_map.count (changes P)"
    "\<And>k c. map_holds (change_rel (policy_equal vp)) (changes P) k c \<longleftrightarrow>
      (\<exists>e\<in>set es. policy_equal kp (entry_key e) k \<and> change_rel (policy_equal vp) (entry_value e) c)"
    using chg_iteration [OF x] by metis
  have "st P (entry_key e) = Some (change_states (policy_equal vp) (entry_value e))" if "e \<in> set es" for e
    unfolding patch_states_holds es(5) using that by (auto simp: change_rel_def intro!: bexI [of _ e])
  moreover have "st P k = None \<longleftrightarrow> \<not> (\<exists>e\<in>set es. policy_equal kp (entry_key e) k)" for k
    unfolding patch_states_none es(5) by (auto simp: change_rel_def)
  ultimately show thesis using es that by blast
qed

lemma rep_empty:
  assumes "rep t P"
  shows "d7_hamt_map_patch_empty (Some P) \<longleftrightarrow> st P = (\<lambda>_. None)"
  using assms
proof (rule rep_entries)
  fix es
  assume "length es = d7_hamt_map.count (changes P)"
    and none: "\<And>k. st P k = None \<longleftrightarrow> \<not> (\<exists>e\<in>set es. policy_equal kp (entry_key e) k)"
  then have "d7_hamt_map_patch_empty (Some P) \<longleftrightarrow> es = []"
    using rep_valid [OF assms] by (auto simp: d7_hamt_map_patch_empty_def d7_hamt_map_patch_count_def d7_hamt_map_count_def)
  moreover have "st P = (\<lambda>_. None) \<longleftrightarrow> es = []"
    unfolding fun_eq_iff none by (cases es) (auto intro: same_key)
  ultimately show ?thesis by simp
qed

lemma clear_spec:
  assumes P: "rep t P"
  shows "\<exists>R. d7_hamt_map_patch_clear ptr (Some P) True E t = (Inr R, t) \<and> rep t R \<and> st R = (\<lambda>_. None)"
proof (cases "d7_hamt_map_patch_empty (Some P)")
  case True
  then show ?thesis using P rep_empty [OF P] rep_valid [OF P] publish_clone [OF P, of ptr]
    by (simp add: d7_hamt_map_patch_clear_def ret_def)
next
  case False
  obtain x where x: "patch_context P = Some \<lparr>context_address = x, patch_key_policy = kp, patch_value_policy = vp\<rparr>"
    "map_valid_at (change_policy mem kp vp x) t (changes P)" using rep_context [OF P] .
  obtain cs where cs: "d7_hamt_map_clear (Some (changes P)) True E t = (Inr cs, t)" "map_valid_at (change_policy mem kp vp x) t cs"
    "\<And>k c. \<not> map_holds (change_rel (policy_equal vp)) cs k c"
    using change.client.clear [OF x(2), of E] by blast
  then have none: "st \<lparr>changes = cs, patch_context = y\<rparr> = (\<lambda>_. None)" for y by (simp add: fun_eq_iff patch_states_none)
  then have "rep t \<lparr>changes = cs, patch_context = patch_context P\<rparr>"
    using cs(2) x(1) by (simp add: patch_rep_def patch_proper_def)
  then show ?thesis using False rep_valid [OF P] cs(1) none
    by (simp add: d7_hamt_map_patch_clear_def d7_hamt_map_patch_publish_def andthen_def ret_def)
qed

lemma get_entry:
  assumes P: "rep t P"
  obtains (absent) "d7_hamt_map_patch_try_get_entry (Some P) k = Inr None" "d7_hamt_map_patch_contains_key (Some P) k = Inr False" "st P k = None"
  | (present) e where "d7_hamt_map_patch_try_get_entry (Some P) k = Inr (Some e)" "d7_hamt_map_patch_contains_key (Some P) k = Inr True"
      "policy_equal kp k (patch_key e)" "st P k = Some (cl (patch_before e), cl (patch_after e))"
proof -
  obtain x where x: "map_valid_at (change_policy mem kp vp x) t (changes P)" using rep_context [OF P] .
  obtain e where e: "d7_hamt_try_get_entry (Some (changes P)) k = Inr e"
    "\<And>c. map_holds (change_rel (policy_equal vp)) (changes P) k c \<longleftrightarrow> (\<exists>x. e = Some x \<and> change_rel (policy_equal vp) (entry_value x) c)"
    "\<And>x. e = Some x \<Longrightarrow> policy_equal kp (entry_key x) k"
    using chg_lookup [OF x, of k] by (elim exE conjE) simp
  note runs = d7_hamt_map_patch_try_get_entry_def d7_hamt_map_patch_contains_key_def d7_hamt_map_contains_key_def
    d7_hamt_map_try_get_def d7_hamt_map_try_get_key_def map_found_def patch_entry_def
  show thesis
  proof (cases e)
    case None
    then have "st P k = None" unfolding patch_states_none e(2) by simp
    then show ?thesis using absent None e(1) rep_valid [OF P] by (simp add: runs)
  next
    case (Some y)
    then have "st P k = Some (change_states (policy_equal vp) (entry_value y))"
      unfolding patch_states_holds e(2) by (simp add: change_rel_def)
    then show ?thesis
      using present [of "patch_entry (entry_key y) (entry_value y)"] Some e(1,3) rep_valid [OF P] equivp_symp [OF key_equivp]
      by (simp add: runs change_states_def)
  qed
qed

lemma try_add_spec:
  assumes P: "rep t P"
  shows "achieves E (patch_failures E mem kp vp) t
    (d7_hamt_map_patch_try_add ptr (Some P) (Some \<lparr>patch_key = k, patch_before = b, patch_after = a\<rparr>) True True)
    (\<lambda>(added, R) t'. rep t' R \<and> (added \<longleftrightarrow> st P k = None \<and> cl b \<noteq> cl a) \<and>
       st R = (\<lambda>k'. if policy_equal kp k k' \<and> added then Some (cl b, cl a) else st P k'))"
proof -
  obtain x where x: "patch_context P = Some \<lparr>context_address = x, patch_key_policy = kp, patch_value_policy = vp\<rparr>" using rep_context [OF P] .
  let ?e = "\<lparr>patch_key = k, patch_before = b, patch_after = a\<rparr>"
  have found: "d7_hamt_map_patch_contains_key (Some P) k = Inr (st P k \<noteq> None)"
    using P by (cases rule: get_entry [of _ _ k]) simp_all
  show ?thesis
  proof (cases "st P k = None \<and> cl b \<noteq> cl a")
    case True
    then have "d7_hamt_map_patch_try_add ptr (Some P) (Some ?e) True True = andthen (d7_hamt_map_patch_add ptr (Some P) (Some ?e) True) (\<lambda>p'. ret (True, p'))"
      using x found by (simp add: d7_hamt_map_patch_try_add_def states_equal_iff)
    moreover have "patch_step (cl b) (cl a) = Some (cl b, cl a)" using True by (simp add: patch_step_def)
    ultimately show ?thesis
      using True add_fresh [OF P, of k E ptr b a] by (auto intro!: achieves_ret elim!: achieves_andthen)
  next
    case False
    then have "d7_hamt_map_patch_try_add ptr (Some P) (Some ?e) True True = ret (False, P)"
      using x found publish_clone [OF P, of ptr] by (auto simp: d7_hamt_map_patch_try_add_def states_equal_iff andthen_ret)
    then show ?thesis using False P by (simp add: achieves_ret)
  qed
qed

section \<open>Loops that build a patch\<close>

text \<open>Each turn sets the state of one key to that of \<open>A\<close>, and may report \<open>s\<close> unless the entry is \<open>fine\<close>.\<close>

lemma build_loop:
  fixes es :: "('k, 'w) d7_hamt_entry list"
  assumes P: "rep t P" and sorted: "sorted_wrt (\<lambda>e e'. \<not> policy_equal kp (entry_key e) (entry_key e')) es"
    and body: "\<And>R t' e. e \<in> set es \<Longrightarrow> rep t' R \<Longrightarrow> t \<le> t' \<Longrightarrow> st R (entry_key e) = st P (entry_key e) \<Longrightarrow>
      reports c s E (patch_failures E mem kp vp) t' (body R e)
        (\<lambda>R' t''. rep t'' R' \<and> fine e \<and> st R' = (\<lambda>k. if policy_equal kp (entry_key e) k then A k else st R k))"
  shows "reports c s E (patch_failures E mem kp vp) t (fold_act body P es)
    (\<lambda>R t'. rep t' R \<and> (\<forall>e\<in>set es. fine e) \<and> st R = overlay (policy_equal kp) es A (st P))"
proof (rule reports_fold_act [where I = "\<lambda>ys R t'. rep t' R \<and> (\<forall>e\<in>set ys. fine e) \<and> st R = overlay (policy_equal kp) ys A (st P)"])
  fix ys x zs R t'
  assume xs: "es = ys @ x # zs" and t: "t \<le> t'"
    and inv: "rep t' R \<and> (\<forall>e\<in>set ys. fine e) \<and> st R = overlay (policy_equal kp) ys A (st P)"
  have "st R (entry_key x) = st P (entry_key x)" using inv sorted_new [OF sorted [unfolded xs]] by (simp add: overlay_new)
  then show "reports c s E (patch_failures E mem kp vp) t' (body R x)
      (\<lambda>R t'. rep t' R \<and> (\<forall>e\<in>set (ys @ [x]). fine e) \<and> st R = overlay (policy_equal kp) (ys @ [x]) A (st P))"
    using body [of x t' R] inv t xs by (auto simp: overlay_snoc elim!: reports_weaken)
qed (use P in simp)

lemmas build_loop_achieves = build_loop [where c = False and fine = "\<lambda>_. True", unfolded reports_achieves, simplified]

lemma change_step:
  assumes "rep t P" and "st P k = Some (change_states (policy_equal vp) c)"
  shows "patch_step (cl (before_state c)) (cl (after_state c)) = st P k"
    "patch_step (cl (after_state c)) (cl (before_state c)) = patch_inverse (st P) k"
  using rep_proper [OF assms(1)] assms(2)
  by (auto simp: patch_proper_def patch_step_def change_states_def patch_inverse_def)

lemma init_rep:
  assumes "rep t P" and "patch_context P = Some ctx"
  shows "d7_hamt_map_patch_init ptr mem True (Some (patch_key_policy ctx)) (Some (patch_value_policy ctx)) =
    d7_hamt_map_patch_init ptr mem True (Some kp) (Some vp)"
  using assms by (auto simp: patch_rep_def)

lemma invert_spec:
  assumes P: "rep t P"
  shows "achieves E (patch_failures E mem kp vp) t (d7_hamt_map_patch_invert ptr mem (Some P) True)
    (\<lambda>R t'. rep t' R \<and> st R = patch_inverse (st P))"
proof (cases "d7_hamt_map_patch_empty (Some P)")
  case True
  then have "d7_hamt_map_patch_invert ptr mem (Some P) True = ret P"
    using publish_clone [OF P, of ptr] by (auto simp: d7_hamt_map_patch_invert_def intro: rep_context [OF P])
  then show ?thesis using True P rep_empty [OF P] by (simp add: patch_inverse_def achieves_ret)
next
  case False
  obtain es where es: "iterator_ok (d7_hamt_map_iterator_init (Some (changes P)))"
    "iterator_rest (d7_hamt_map_iterator_init (Some (changes P))) = es"
    "sorted_wrt (\<lambda>e e'. \<not> policy_equal kp (entry_key e) (entry_key e')) es"
    "\<And>e. e \<in> set es \<Longrightarrow> st P (entry_key e) = Some (change_states (policy_equal vp) (entry_value e))"
    "\<And>k. st P k = None \<longleftrightarrow> \<not> (\<exists>e\<in>set es. policy_equal kp (entry_key e) k)"
    using rep_entries [OF P] by metis
  let ?body = "\<lambda>candidate e. d7_hamt_map_patch_add ptr (Some candidate)
    (Some \<lparr>patch_key = entry_key e, patch_before = after_state (entry_value e), patch_after = before_state (entry_value e)\<rparr>) True"
  obtain x where x: "patch_context P = Some \<lparr>context_address = x, patch_key_policy = kp, patch_value_policy = vp\<rparr>" using rep_context [OF P] .
  have run: "d7_hamt_map_patch_invert ptr mem (Some P) True =
      andthen (d7_hamt_map_patch_init ptr mem True (Some kp) (Some vp)) (\<lambda>candidate.
      andthen (fold_act ?body candidate es) ret)"
    using False x by (simp add: d7_hamt_map_patch_invert_def d7_hamt_map_patch_publish_def iterate_fold [OF es(1)] es(2))
  have all: "overlay (policy_equal kp) es (patch_inverse (st P)) (\<lambda>_. None) = patch_inverse (st P)"
    using es(5) by (intro overlay_all) (simp add: patch_inverse_def)
  have "achieves E (patch_failures E mem kp vp) t1 (fold_act ?body R es) (\<lambda>R t'. rep t' R \<and> st R = patch_inverse (st P))"
    if R: "rep t1 R" "st R = (\<lambda>_. None)" for R t1
  proof (rule build_loop_achieves [OF R(1) es(3), where A = "patch_inverse (st P)", unfolded R(2) all])
    fix R' t' and e :: "('k, 'v d7_hamt_map_patch_change) d7_hamt_entry"
    assume e: "e \<in> set es" and R': "rep t' R'" "st R' (entry_key e) = None"
    have "patch_inverse (st P) k = patch_step (cl (after_state (entry_value e))) (cl (before_state (entry_value e)))"
      if "policy_equal kp (entry_key e) k" for k
      using change_step(2) [OF P es(4) [OF e]] states_key [OF P that] by (simp add: patch_inverse_def)
    then show "achieves E (patch_failures E mem kp vp) t' (?body R' e)
        (\<lambda>R'' t''. rep t'' R'' \<and> st R'' = (\<lambda>k. if policy_equal kp (entry_key e) k then patch_inverse (st P) k else st R' k))"
      using add_fresh [OF R'] by (simp cong: if_cong)
  qed
  then show ?thesis
    unfolding run by (intro achieves_andthen [OF init_spec] achieves_andthen achieves_ret) blast+
qed

text \<open>A copy of the current patch without one key.\<close>

lemma without_loop:
  assumes C: "rep t C" and R: "rep t R" "st R = (\<lambda>_. None)"
  shows "achieves E (patch_failures E mem kp vp) t
    (iterate (\<lambda>replacement e.
        if policy_equal kp (entry_key e) k then ret replacement
        else d7_hamt_map_patch_add ptr (Some replacement) (Some (patch_entry (entry_key e) (entry_value e))) True)
      (d7_hamt_map_iterator_init (Some (changes C))) R)
    (\<lambda>R t'. rep t' R \<and> st R = (\<lambda>k'. if policy_equal kp k k' then None else st C k'))"
  (is "achieves E ?F t (iterate ?body _ R) (\<lambda>R t'. _ \<and> st R = ?A)")
proof -
  obtain es where es: "iterator_ok (d7_hamt_map_iterator_init (Some (changes C)))"
    "iterator_rest (d7_hamt_map_iterator_init (Some (changes C))) = es"
    "sorted_wrt (\<lambda>e e'. \<not> policy_equal kp (entry_key e) (entry_key e')) es"
    "\<And>e. e \<in> set es \<Longrightarrow> st C (entry_key e) = Some (change_states (policy_equal vp) (entry_value e))"
    "\<And>k. st C k = None \<longleftrightarrow> \<not> (\<exists>e\<in>set es. policy_equal kp (entry_key e) k)"
    using rep_entries [OF C] by metis
  have all: "overlay (policy_equal kp) es ?A (\<lambda>_. None) = ?A" using es(5) by (intro overlay_all) simp
  show ?thesis
    unfolding iterate_fold [OF es(1)] es(2)
  proof (rule build_loop_achieves [OF R(1) es(3), where A = ?A, unfolded R(2) all])
    fix R' t' and e :: "('k, 'v d7_hamt_map_patch_change) d7_hamt_entry"
    assume e: "e \<in> set es" and R': "rep t' R'" "st R' (entry_key e) = None"
    have A: "?A k' = (if policy_equal kp (entry_key e) k then None else patch_step (cl (before_state (entry_value e))) (cl (after_state (entry_value e))))"
      if "policy_equal kp (entry_key e) k'" for k'
      using change_step(1) [OF C es(4) [OF e]] states_key [OF C that] that equivp_symp [OF key_equivp] equivp_transp [OF key_equivp] by metis
    have none: "st R' k' = None" if "policy_equal kp (entry_key e) k'" for k' using states_key [OF R'(1) that] R'(2) by simp
    show "achieves E ?F t' (?body R' e) (\<lambda>R'' t''. rep t'' R'' \<and> st R'' = (\<lambda>k'. if policy_equal kp (entry_key e) k' then ?A k' else st R' k'))"
    proof (cases "policy_equal kp (entry_key e) k")
      case True
      then have "st R' = (\<lambda>k'. if policy_equal kp (entry_key e) k' then ?A k' else st R' k')" using A none by (simp add: fun_eq_iff)
      then show ?thesis using True R'(1) by (auto intro: achieves_ret)
    next
      case False
      then have "(\<lambda>k'. if policy_equal kp (entry_key e) k' then ?A k' else st R' k') =
          (\<lambda>k'. if policy_equal kp (entry_key e) k' then patch_step (cl (before_state (entry_value e))) (cl (after_state (entry_value e))) else st R' k')"
        using A by (simp add: fun_eq_iff)
      then show ?thesis using False add_fresh [OF R', of E ptr "before_state (entry_value e)" "after_state (entry_value e)"] by (simp add: patch_entry_def)
    qed
  qed
qed

lemma compose_step_spec:
  assumes C: "rep t C" and Q: "patch_proper (\<lambda>_ :: unit. Some (change_states (policy_equal vp) (entry_value e)))"
  defines "k \<equiv> entry_key e" and "b \<equiv> cl (before_state (entry_value e))" and "a \<equiv> cl (after_state (entry_value e))"
  defines "fine \<equiv> \<forall>y m. st C k = Some (y, m) \<longrightarrow> m = b"
  shows "reports (\<not> fine) D7_HAMT_INVALID_ARGUMENT E (patch_failures E mem kp vp) t (compose_step ptr mem C e)
    (\<lambda>R t'. rep t' R \<and> fine \<and>
       st R = (\<lambda>k'. if policy_equal kp k k' then (case st C k of None \<Rightarrow> Some (b, a) | Some (y, m) \<Rightarrow> patch_step y a) else st C k'))"
  using C
proof (cases rule: get_entry [of _ _ k])
  case absent
  have "patch_step b a = Some (b, a)" using Q by (simp add: patch_proper_def patch_step_def change_states_def b_def a_def)
  then show ?thesis
    using absent add_fresh [OF C absent(3), of E ptr "before_state (entry_value e)" "after_state (entry_value e)"]
    by (auto simp: compose_step_def patch_entry_def k_def fine_def a_def b_def intro!: achieves_reports cong: if_cong)
next
  case (present x)
  obtain ctx where ctx: "patch_context C = Some ctx" "patch_key_policy ctx = kp" "patch_value_policy ctx = vp"
    using rep_context [OF C] by (metis d7_hamt_map_patch_context.select_convs(2,3))
  have fine: "fine \<longleftrightarrow> cl (patch_after x) = b" using present(4) by (auto simp: fine_def)
  show ?thesis
  proof (cases fine)
    case False
    then have "compose_step ptr mem C e = fail (Status D7_HAMT_INVALID_ARGUMENT)"
      using present(1) fine ctx by (simp add: compose_step_def k_def b_def states_equal_iff)
    then show ?thesis using False by (simp add: reports_fail)
  next
    case True
    let ?add = "\<lambda>R. d7_hamt_map_patch_add ptr (Some R)
      (Some \<lparr>patch_key = patch_key x, patch_before = patch_before x, patch_after = after_state (entry_value e)\<rparr>) True"
    have run: "compose_step ptr mem C e =
      andthen (d7_hamt_map_patch_init ptr mem True (Some kp) (Some vp)) (\<lambda>R.
      andthen (iterate (\<lambda>R e. if policy_equal kp (entry_key e) (patch_key x) then ret R
          else d7_hamt_map_patch_add ptr (Some R) (Some (patch_entry (entry_key e) (entry_value e))) True)
        (d7_hamt_map_iterator_init (Some (changes C))) R) ?add)"
      using present(1) fine ctx True by (simp add: compose_step_def k_def b_def states_equal_iff)
    have keys: "policy_equal kp (patch_key x) k' \<longleftrightarrow> policy_equal kp k k'" for k'
      using present(3) key_equivp by (metis equivp_def)
    have "achieves E (patch_failures E mem kp vp) t (compose_step ptr mem C e)
      (\<lambda>R t'. rep t' R \<and> st R = (\<lambda>k'. if policy_equal kp k k' then patch_step (cl (patch_before x)) a else st C k'))"
      unfolding run
    proof (rule achieves_andthen [OF init_spec], rule achieves_andthen [OF without_loop [of _ C, where k = "patch_key x"]], goal_cases)
      case (4 R t1 R' t2)
      have "st R' (patch_key x) = None" using 4(4) by simp
      from add_fresh [OF conjunct1 [OF 4(4)] this, of E ptr "patch_before x" "after_state (entry_value e)"]
      show ?case using 4(4) unfolding a_def keys by (auto elim!: achieves_weaken)
    qed (use C rep_later in auto)
    then show ?thesis using True present(4) by (simp add: reports_achieves cong: if_cong)
  qed
qed

lemma compose_spec:
  assumes P: "rep t P" and Q: "rep t Q"
  shows "reports (\<not> patch_meets (st P) (st Q)) D7_HAMT_INVALID_ARGUMENT E (patch_failures E mem kp vp) t
    (d7_hamt_map_patch_compose ptr mem (Some P) (Some Q) True)
    (\<lambda>R t'. rep t' R \<and> patch_meets (st P) (st Q) \<and> st R = patch_then (st P) (st Q))"
proof -
  obtain es where es: "iterator_ok (d7_hamt_map_iterator_init (Some (changes Q)))"
    "iterator_rest (d7_hamt_map_iterator_init (Some (changes Q))) = es"
    "sorted_wrt (\<lambda>e e'. \<not> policy_equal kp (entry_key e) (entry_key e')) es"
    "\<And>e. e \<in> set es \<Longrightarrow> st Q (entry_key e) = Some (change_states (policy_equal vp) (entry_value e))"
    "\<And>k. st Q k = None \<longleftrightarrow> \<not> (\<exists>e\<in>set es. policy_equal kp (entry_key e) k)"
    using rep_entries [OF Q] by metis
  let ?F = "patch_failures E mem kp vp" and ?A = "patch_then (st P) (st Q)"
  define fine :: "('k, 'v d7_hamt_map_patch_change) d7_hamt_entry \<Rightarrow> bool" where
    "fine e \<longleftrightarrow> (\<forall>y m. st P (entry_key e) = Some (y, m) \<longrightarrow> m = cl (before_state (entry_value e)))" for e
  have meets: "patch_meets (st P) (st Q) \<longleftrightarrow> (\<forall>e\<in>set es. fine e)"
  proof -
    have "fine e \<longleftrightarrow> (\<forall>b m m' a. st P (entry_key e) = Some (b, m) \<longrightarrow> st Q (entry_key e) = Some (m', a) \<longrightarrow> m = m')" if "e \<in> set es" for e
      using es(4) [OF that] by (auto simp: fine_def change_states_def)
    moreover have "\<exists>e\<in>set es. st P (entry_key e) = st P k \<and> st Q (entry_key e) = st Q k" if "st Q k \<noteq> None" for k
      using that es(5) [of k] by (auto dest: states_key [OF P] states_key [OF Q])
    ultimately show ?thesis unfolding patch_meets_def by (metis not_None_eq)
  qed
  have body: "reports (\<not> (\<forall>e\<in>set es. fine e)) D7_HAMT_INVALID_ARGUMENT E ?F t' (compose_step ptr mem R e)
        (\<lambda>R' t''. rep t'' R' \<and> fine e \<and> st R' = (\<lambda>k. if policy_equal kp (entry_key e) k then ?A k else st R k))"
    if e: "e \<in> set es" and R: "rep t' R" "st R (entry_key e) = st P (entry_key e)" for R t' e
  proof -
    have "patch_proper (\<lambda>_ :: unit. Some (change_states (policy_equal vp) (entry_value e)))"
      using rep_proper [OF Q] es(4) [OF e] by (metis patch_proper_def)
    note step = compose_step_spec [OF R(1) this, of E ptr, unfolded R(2)]
    have A: "?A k = (case st P (entry_key e) of None \<Rightarrow> Some (cl (before_state (entry_value e)), cl (after_state (entry_value e)))
        | Some (y, m) \<Rightarrow> patch_step y (cl (after_state (entry_value e))))" if "policy_equal kp (entry_key e) k" for k
      using states_key [OF P that] states_key [OF Q that] es(4) [OF e]
      by (auto simp: patch_then_def change_states_def split: option.split)
    show ?thesis using step e A by (auto simp: fine_def cong: if_cong elim!: reports_weaken)
  qed
  have "?A k = st P k" if "st Q k = None" for k using that by (simp add: patch_then_def split: option.split)
  then have all: "overlay (policy_equal kp) es ?A (st P) = ?A" using es(5) by (intro overlay_all) blast
  obtain x where "patch_context P = Some \<lparr>context_address = x, patch_key_policy = kp, patch_value_policy = vp\<rparr>" using rep_context [OF P] .
  moreover obtain y where "patch_context Q = Some \<lparr>context_address = y, patch_key_policy = kp, patch_value_policy = vp\<rparr>" using rep_context [OF Q] .
  ultimately have run: "d7_hamt_map_patch_compose ptr mem (Some P) (Some Q) True = andthen (fold_act (compose_step ptr mem) P es) ret"
    using rep_valid [OF P] es(1,2)
    by (cases P) (simp add: d7_hamt_map_patch_compose_def d7_hamt_map_patch_compatible_patch_def d7_hamt_map_patch_clone_def
        d7_hamt_map_clone_def andthen_ret iterate_fold)
  show ?thesis
    unfolding run meets using build_loop [OF P es(3), OF body, unfolded all]
    by (intro reports_andthen reports_ret) blast
qed

section \<open>Visiting and validating\<close>

lemma visit_spec:
  assumes P: "rep t P"
  obtains es where "\<And>f s. d7_hamt_map_patch_visit (Some P) (Some f) s E t = (Inr (fold f es s), t)"
    "sorted_wrt (\<lambda>e e'. \<not> policy_equal kp (patch_key e) (patch_key e')) es"
    "\<And>e. e \<in> set es \<Longrightarrow> st P (patch_key e) = Some (cl (patch_before e), cl (patch_after e))"
    "\<And>k. st P k = None \<longleftrightarrow> \<not> (\<exists>e\<in>set es. policy_equal kp (patch_key e) k)"
    "length es = d7_hamt_map_patch_count (Some P)"
  using P
proof (rule rep_entries)
  fix es
  let ?pub = "\<lambda>e. patch_entry (entry_key e) (entry_value e)"
  assume es: "iterator_ok (d7_hamt_map_iterator_init (Some (changes P)))"
    "iterator_rest (d7_hamt_map_iterator_init (Some (changes P))) = es"
    "sorted_wrt (\<lambda>e e'. \<not> policy_equal kp (entry_key e) (entry_key e')) es" "length es = d7_hamt_map.count (changes P)"
    "\<And>e. e \<in> set es \<Longrightarrow> st P (entry_key e) = Some (change_states (policy_equal vp) (entry_value e))"
    "\<And>k. st P k = None \<longleftrightarrow> \<not> (\<exists>e\<in>set es. policy_equal kp (entry_key e) k)"
  have 1: "d7_hamt_map_patch_visit (Some P) (Some f) s E t = (Inr (fold f (map ?pub es) s), t)" for f s
    using rep_valid [OF P]
    by (simp add: d7_hamt_map_patch_visit_def iterate_fold [OF es(1)] es(2) fold_act_ret fold_map comp_def) (simp add: ret_def)
  have 2: "sorted_wrt (\<lambda>e e'. \<not> policy_equal kp (patch_key e) (patch_key e')) (map ?pub es)"
    using es(3) by (simp add: sorted_wrt_map patch_entry_def)
  have 3: "st P (patch_key e) = Some (cl (patch_before e), cl (patch_after e))" if "e \<in> set (map ?pub es)" for e
    using es(5) that by (auto simp: patch_entry_def change_states_def)
  have 4: "st P k = None \<longleftrightarrow> \<not> (\<exists>e\<in>set (map ?pub es). policy_equal kp (patch_key e) k)" for k
    using es(6) [of k] by (simp add: patch_entry_def)
  have 5: "length (map ?pub es) = d7_hamt_map_patch_count (Some P)"
    using es(4) rep_valid [OF P] by (simp add: d7_hamt_map_patch_count_def d7_hamt_map_count_def)
  show thesis using 1 2 3 4 5 by (rule that)
qed

lemma effective:
  assumes "patch_value_policy ctx = vp" and "iterator_ok it"
    and "\<And>e. e \<in> set (iterator_rest it) \<Longrightarrow> cl (before_state (entry_value e)) \<noteq> cl (after_state (entry_value e))"
  shows "patch_effective ctx it = Inr True"
  using assms(2,3)
proof (induction "iterator_rest it" arbitrary: it)
  case Nil
  obtain it' x where nxt: "d7_hamt_map_iterator_next it = Inr (it', x)" using iterator_next_ok [OF Nil.prems(1)] by blast
  from iterator_next_rest [OF nxt] Nil(1) have "x = None" by (cases x) auto
  then show ?case using nxt by (subst patch_effective.simps) simp
next
  case (Cons e es)
  obtain it' x where nxt: "d7_hamt_map_iterator_next it = Inr (it', x)" "iterator_ok it'"
    using iterator_next_ok [OF Cons.prems(1)] by blast
  have rest: "iterator_rest it = e # es" using Cons(2) by (rule sym)
  from iterator_next_rest [OF nxt(1)] rest have x: "x = Some e" "es = iterator_rest it'" by (cases x; auto)+
  have "patch_effective ctx it' = Inr True" using Cons.prems(2) x(2) rest by (intro Cons(1) nxt(2)) auto
  then show ?case
    using nxt(1) x(1) Cons.prems(2) [of e] rest by (subst patch_effective.simps) (simp add: states_equal_iff assms(1))
qed

lemma validate_spec:
  assumes P: "rep t P" and "d7_hamt_map_patch_count (Some P) \<le> SIZE_MAX"
  shows "d7_hamt_map_patch_debug_validate (Some P) = Inr True"
proof -
  obtain x where x: "patch_context P = Some \<lparr>context_address = x, patch_key_policy = kp, patch_value_policy = vp\<rparr>"
    "map_valid_at (change_policy mem kp vp x) t (changes P)" using rep_context [OF P] .
  have "d7_hamt_map_debug_validate_canonical (Some (changes P))"
    using change.client.validation [OF x(2)] assms(2) rep_valid [OF P] by (simp add: d7_hamt_map_patch_count_def d7_hamt_map_count_def)
  moreover have "patch_effective (the (patch_context P)) (d7_hamt_map_iterator_init (Some (changes P))) = Inr True"
    using P
  proof (rule rep_entries)
    fix es
    assume es: "iterator_ok (d7_hamt_map_iterator_init (Some (changes P)))"
      "iterator_rest (d7_hamt_map_iterator_init (Some (changes P))) = es"
      "\<And>e. e \<in> set es \<Longrightarrow> st P (entry_key e) = Some (change_states (policy_equal vp) (entry_value e))"
    then show ?thesis
      using rep_proper [OF P] x(1) by (intro effective) (auto simp: patch_proper_def change_states_def)
  qed
  ultimately show ?thesis using rep_valid [OF P] by (simp add: d7_hamt_map_patch_debug_validate_def)
qed

end

end
