(* ===== verification/Hamt_Patch_Apply.thy ===== *)
theory Hamt_Patch_Apply
  imports Hamt_Patch_Spec
begin

text \<open>
  Patches and maps: applying a patch to a map and the patch between two maps. The locale \<open>map_patch_target\<close> joins the contract of
  the policies of a patch with that of the policy of the maps it is applied to; the keys of both are compared by the
  same callbacks.
\<close>

locale map_patch_target = map_patch_policy mem kp vp + hamt_policy p Rk "policy_equal vp"
  for mem :: environment and kp :: "'k d7_hamt_set_policy_arg" and vp :: "'v d7_hamt_set_policy_arg"
    and p :: "('k, 'v) d7_hamt_policy" and Rk :: "'k \<Rightarrow> 'k \<Rightarrow> bool" +
  assumes same_keys: "arg_set_hash kp = Some (hash p)" "arg_set_equal kp = Some (key_equal p)" "arg_set_context kp = policy_context p"
begin

abbreviation ms where "ms \<equiv> map_states (policy_equal vp)"

lemma keys_equal: "d7_hamt_keys_equal p = policy_equal kp"
  using same_keys by (simp add: fun_eq_iff d7_hamt_keys_equal_def policy_equal_def)

lemma value_state: "cl s = {} \<longleftrightarrow> s = None"
  using value_equivp by (rule state_class_empty)

lemma map_states_key: "map_valid_at p t m \<Longrightarrow> policy_equal kp k k' \<Longrightarrow> ms m k = ms m k'"
  using client.holds_key [of t m k k', unfolded keys_equal] by (simp add: map_states_holds)

lemma map_get:
  assumes "map_valid_at p t m"
  obtains s where "d7_hamt_map_try_get (Some m) k = Inr s" "ms m k = cl s" "d7_hamt_map_contains_key (Some m) k = Inr (s \<noteq> None)"
proof -
  obtain e where e: "d7_hamt_try_get_entry (Some m) k = Inr e"
    "\<And>v. map_holds (policy_equal vp) m k v \<longleftrightarrow> (\<exists>x. e = Some x \<and> policy_equal vp (entry_value x) v)"
    using client.lookup [OF assms, of k] by (elim exE conjE) simp
  then have 1: "d7_hamt_map_try_get (Some m) k = Inr (map_option entry_value e)"
    "d7_hamt_map_contains_key (Some m) k = Inr (map_option entry_value e \<noteq> None)"
    by (simp_all add: d7_hamt_map_contains_key_def d7_hamt_map_try_get_def map_found_def)
  have 2: "ms m k = cl (map_option entry_value e)"
    unfolding map_states_holds e(2) by (cases e) (auto simp: state_class_def)
  show thesis using 1(1) 2 1(2) by (rule that)
qed

lemma map_entries_states:
  assumes "map_valid_at p t m"
  obtains es where "iterator_ok (d7_hamt_map_iterator_init (Some m))" "iterator_rest (d7_hamt_map_iterator_init (Some m)) = es"
    "sorted_wrt (\<lambda>e e'. \<not> policy_equal kp (entry_key e) (entry_key e')) es"
    "\<And>e. e \<in> set es \<Longrightarrow> ms m (entry_key e) = cl (Some (entry_value e))"
    "\<And>k. ms m k = {} \<longleftrightarrow> \<not> (\<exists>e\<in>set es. policy_equal kp (entry_key e) k)"
proof -
  obtain es where es: "iterator_ok (d7_hamt_map_iterator_init (Some m))" "iterator_rest (d7_hamt_map_iterator_init (Some m)) = es"
    "sorted_wrt (\<lambda>e e'. \<not> policy_equal kp (entry_key e) (entry_key e')) es"
    "\<And>k v. map_holds (policy_equal vp) m k v \<longleftrightarrow> (\<exists>e\<in>set es. policy_equal kp (entry_key e) k \<and> policy_equal vp (entry_value e) v)"
    using client.iteration [OF assms] unfolding keys_equal by metis
  have 1: "ms m (entry_key e) = cl (Some (entry_value e))" if "e \<in> set es" for e
  proof -
    have "map_holds (policy_equal vp) m (entry_key e) (entry_value e)" unfolding es(4) using that by (auto intro!: bexI [of _ e])
    then show ?thesis using client.holds_value [OF assms] by (auto simp: map_states_holds state_class_def)
  qed
  have 2: "ms m k = {} \<longleftrightarrow> \<not> (\<exists>e\<in>set es. policy_equal kp (entry_key e) k)" for k
    unfolding map_states_holds es(4) using client.value_refl by blast
  show thesis using es(1-3) 1 2 by (rule that)
qed

lemma set_states:
  assumes "map_valid_at p t m"
  shows "achieves E (failing_requests E p) t (d7_hamt_map_set (Some m) k v True)
    (\<lambda>m' t'. map_valid_at p t' m' \<and> ms m' = (\<lambda>k'. if policy_equal kp k k' then cl (Some v) else ms m k'))"
  using client.set [OF assms, of E k v] unfolding keys_equal
  by (rule achieves_weaken) (auto simp: map_states_holds fun_eq_iff state_class_def)

lemma remove_states:
  assumes "map_valid_at p t m"
  shows "achieves E (failing_requests E p) t (d7_hamt_map_remove (Some m) k True False)
    (\<lambda>m' t'. map_valid_at p t' m' \<and> ms m' = (\<lambda>k'. if policy_equal kp k k' then cl None else ms m k'))"
  using client.remove [OF assms, of E k] unfolding keys_equal
  by (rule achieves_weaken) (auto simp: map_states_holds fun_eq_iff state_class_def)

section \<open>Applying\<close>

text \<open>The preflight returns the key of the first change whose expectation the map does not meet.\<close>

lemma conflict_find:
  assumes m: "map_valid_at p t m" and ctx: "patch_value_policy ctx = vp" and it: "iterator_ok it"
  shows "patch_conflict ctx m it = Inr (map_option entry_key
    (find (\<lambda>e. ms m (entry_key e) \<noteq> cl (before_state (entry_value e))) (iterator_rest it)))"
  using it
proof (induction "iterator_rest it" arbitrary: it)
  case Nil
  obtain it' x where nxt: "d7_hamt_map_iterator_next it = Inr (it', x)" using iterator_next_ok [OF Nil.prems] by blast
  from iterator_next_rest [OF nxt] Nil(1) have "x = None" by (cases x) auto
  then show ?case using nxt Nil(1) [symmetric] by (subst patch_conflict.simps) simp
next
  case (Cons e es)
  obtain it' x where nxt: "d7_hamt_map_iterator_next it = Inr (it', x)" "iterator_ok it'"
    using iterator_next_ok [OF Cons.prems] by blast
  have rest: "iterator_rest it = e # es" using Cons(2) by (rule sym)
  from iterator_next_rest [OF nxt(1)] rest have x: "x = Some e" "es = iterator_rest it'" by (cases x; auto)+
  obtain s where s: "d7_hamt_map_try_get (Some m) (entry_key e) = Inr s" "ms m (entry_key e) = cl s" using map_get [OF m] .
  let ?b = "before_state (entry_value e)"
  have "(s \<noteq> None) \<noteq> (?b \<noteq> None) \<or> (s \<noteq> None \<and> \<not> policy_equal vp (the s) (the ?b)) \<longleftrightarrow> cl s \<noteq> cl ?b"
    unfolding state_class_eq [OF value_equivp] by (cases s; cases ?b) simp_all
  then show ?case
    using nxt(1) x(1) s Cons(1) [OF x(2) nxt(2)] x(2) unfolding rest by (subst patch_conflict.simps) (simp add: ctx)
qed

lemma conflict_spec:
  assumes P: "rep t P" and m: "map_valid_at p t m" and ctx: "patch_value_policy ctx = vp"
  obtains (fits) "patch_conflict ctx m (d7_hamt_map_iterator_init (Some (changes P))) = Inr None" "patch_applies (st P) (ms m)"
  | (conflict) k b a where "patch_conflict ctx m (d7_hamt_map_iterator_init (Some (changes P))) = Inr (Some k)"
      "st P k = Some (b, a)" "ms m k \<noteq> b" "\<not> patch_applies (st P) (ms m)"
proof (rule rep_entries [OF P])
  fix es
  assume es: "iterator_ok (d7_hamt_map_iterator_init (Some (changes P)))"
    "iterator_rest (d7_hamt_map_iterator_init (Some (changes P))) = es"
    "\<And>e. e \<in> set es \<Longrightarrow> st P (entry_key e) = Some (change_states (policy_equal vp) (entry_value e))"
    "\<And>k. st P k = None \<longleftrightarrow> \<not> (\<exists>e\<in>set es. policy_equal kp (entry_key e) k)"
  let ?bad = "\<lambda>e. ms m (entry_key e) \<noteq> cl (before_state (entry_value e))"
  note run = conflict_find [OF m ctx es(1), unfolded es(2)]
  show thesis
  proof (cases "find ?bad es")
    case None
    have "ms m k = b" if k: "st P k = Some (b, a)" for k b a
    proof -
      obtain e where e: "e \<in> set es" "policy_equal kp (entry_key e) k" using es(4) [of k] k by auto
      then have "\<not> ?bad e" using None by (simp add: find_None_iff)
      then show ?thesis
        using es(3) [OF e(1)] states_key [OF P e(2)] map_states_key [OF m e(2)] k by (simp add: change_states_def)
    qed
    then show thesis using fits run None by (simp add: patch_applies_def)
  next
    case (Some e)
    then have e: "e \<in> set es" "?bad e" by (auto simp: find_Some_iff)
    then have "\<not> patch_applies (st P) (ms m)"
      using es(3) [OF e(1)] by (auto simp: patch_applies_def change_states_def)
    then show thesis using conflict run Some e es(3) [OF e(1)] by (simp add: change_states_def)
  qed
qed

lemma edits_spec:
  assumes P: "rep t P" and m: "map_valid_at p t m"
  shows "achieves E (failing_requests E p) t
    (iterate (\<lambda>current e.
        case after_state (entry_value e) of
          Some v \<Rightarrow> d7_hamt_map_set (Some current) (entry_key e) v True
        | None \<Rightarrow> d7_hamt_map_remove (Some current) (entry_key e) True False)
      (d7_hamt_map_iterator_init (Some (changes P))) m)
    (\<lambda>m' t'. map_valid_at p t' m' \<and> ms m' = patch_applied (st P) (ms m))"
  (is "achieves E ?B t (iterate ?body _ m) _")
proof (rule rep_entries [OF P])
  fix es
  let ?A = "patch_applied (st P) (ms m)"
  assume es: "iterator_ok (d7_hamt_map_iterator_init (Some (changes P)))"
    "iterator_rest (d7_hamt_map_iterator_init (Some (changes P))) = es"
    "\<And>e. e \<in> set es \<Longrightarrow> st P (entry_key e) = Some (change_states (policy_equal vp) (entry_value e))"
    "\<And>k. st P k = None \<longleftrightarrow> \<not> (\<exists>e\<in>set es. policy_equal kp (entry_key e) k)"
  have step: "achieves E ?B t' (?body m' e)
      (\<lambda>m'' t''. map_valid_at p t'' m'' \<and> ms m'' = (\<lambda>k. if policy_equal kp (entry_key e) k then ?A k else ms m' k))"
    if e: "e \<in> set es" and m': "map_valid_at p t' m'" for m' t' e
  proof -
    have "?A k = cl (after_state (entry_value e))" if "policy_equal kp (entry_key e) k" for k
      using es(3) [OF e] states_key [OF P that] by (simp add: patch_applied_def change_states_def)
    then show ?thesis
      using set_states [OF m'] remove_states [OF m'] by (cases "after_state (entry_value e)") (simp_all cong: if_cong)
  qed
  have "achieves E ?B t (fold_act ?body m es)
      (\<lambda>m' t'. map_valid_at p t' m' \<and> ms m' = overlay (policy_equal kp) es ?A (ms m))"
  proof (rule achieves_fold_act [where I = "\<lambda>ys m' t'. map_valid_at p t' m' \<and> ms m' = overlay (policy_equal kp) ys ?A (ms m)"], goal_cases)
    case (2 ys x m' t')
    then have "x \<in> set es" and "map_valid_at p t' m'" by auto
    from step [OF this] 2(3) show ?case by (simp add: overlay_snoc cong: if_cong)
  qed (use m in simp)
  moreover have "?A k = ms m k" if "st P k = None" for k using that by (simp add: patch_applied_def)
  then have "overlay (policy_equal kp) es ?A (ms m) = ?A" using es(4) by (intro overlay_all) blast
  ultimately show ?thesis unfolding iterate_fold [OF es(1)] es(2) by simp
qed

lemma try_apply_spec:
  assumes P: "rep t P" and m: "map_valid_at p t m"
  shows "achieves E (failing_requests E p) t (d7_hamt_map_patch_try_apply ptr (Some P) (Some m) True True)
    (\<lambda>(applied, conflict, m') t'. map_valid_at p t' m' \<and> (applied \<longleftrightarrow> patch_applies (st P) (ms m)) \<and>
       (if applied then conflict = None \<and> ms m' = patch_applied (st P) (ms m)
        else m' = m \<and> (\<exists>k b a. conflict = Some k \<and> st P k = Some (b, a) \<and> ms m k \<noteq> b)))"
proof -
  obtain x where x: "patch_context P = Some \<lparr>context_address = x, patch_key_policy = kp, patch_value_policy = vp\<rparr>"
    using rep_context [OF P] .
  let ?ctx = "\<lparr>context_address = x, patch_key_policy = kp, patch_value_policy = vp\<rparr>"
  have compat: "d7_hamt_map_patch_compatible_map ?ctx m"
    using m same_keys by (simp add: d7_hamt_map_patch_compatible_map_def map_valid_at_def)
  have "patch_value_policy ?ctx = vp" by simp
  with P m show ?thesis
  proof (cases rule: conflict_spec)
    case fits
    then show ?thesis
      using x compat
      by (auto simp: d7_hamt_map_patch_try_apply_def d7_hamt_map_clone_def
          intro!: achieves_andthen [OF edits_spec [OF P m]] achieves_ret)
  next
    case (conflict k b a)
    then show ?thesis
      using x compat m by (auto simp: d7_hamt_map_patch_try_apply_def d7_hamt_map_clone_def intro!: achieves_ret)
  qed
qed

section \<open>The patch between two maps\<close>

lemma skip_step:
  assumes "rep t R" and "\<And>k'. policy_equal kp k k' \<Longrightarrow> D k' = st R k"
  shows "achieves E F t (ret R) (\<lambda>R' t'. rep t' R' \<and> st R' = (\<lambda>k'. if policy_equal kp k k' then D k' else st R k'))"
proof -
  have "st R k' = (if policy_equal kp k k' then D k' else st R k')" for k'
    using assms(2) [of k'] states_key [OF assms(1), of k k'] by simp
  then have "st R = (\<lambda>k'. if policy_equal kp k k' then D k' else st R k')" by (rule ext)
  then show ?thesis using assms(1) by (intro achieves_ret) blast
qed

lemma add_step:
  assumes "rep t R" and "st R k = None" and "\<And>k'. policy_equal kp k k' \<Longrightarrow> D k' = patch_step (cl b) (cl a)"
  shows "achieves E (patch_failures E mem kp vp) t
    (d7_hamt_map_patch_add ptr (Some R) (Some \<lparr>patch_key = k, patch_before = b, patch_after = a\<rparr>) True)
    (\<lambda>R' t'. rep t' R' \<and> st R' = (\<lambda>k'. if policy_equal kp k k' then D k' else st R k'))"
proof -
  have "(\<lambda>k'. if policy_equal kp k k' then D k' else st R k') =
      (\<lambda>k'. if policy_equal kp k k' then patch_step (cl b) (cl a) else st R k')"
    using assms(3) by (intro ext) simp
  then show ?thesis using add_fresh [OF assms(1,2), of E ptr b a] by simp
qed

lemma difference_key:
  assumes "map_valid_at p t a" and "map_valid_at p t b" and "policy_equal kp k k'"
  shows "patch_difference (ms a) (ms b) k' = patch_difference (ms a) (ms b) k"
  using map_states_key [OF assms(1,3)] map_states_key [OF assms(2,3)] by (simp add: patch_difference_def)

lemma source_step_spec:
  assumes a: "map_valid_at p t a" and b: "map_valid_at p t b" and vp: "vp = between_value_policy p"
    and e: "ms a (entry_key e) = cl (Some (entry_value e))" and R: "rep t' R" "st R (entry_key e) = None"
  shows "achieves E (patch_failures E mem kp vp) t' (between_source_step ptr p b R e)
    (\<lambda>R' t''. rep t'' R' \<and>
       st R' = (\<lambda>k. if policy_equal kp (entry_key e) k then patch_difference (ms a) (ms b) k else st R k))"
proof -
  let ?D = "patch_difference (ms a) (ms b)"
  obtain s where s: "d7_hamt_map_try_get (Some b) (entry_key e) = Inr s" "ms b (entry_key e) = cl s" using map_get [OF b] .
  let ?differ = "s = None \<or> \<not> policy_equal vp (entry_value e) (the s)"
  have "fn (value_equal p) v w (policy_context p) = policy_equal vp v w" for v w
    unfolding vp by (simp add: between_value_policy_def policy_equal_def)
  then have run: "between_source_step ptr p b R e =
      (if ?differ
       then d7_hamt_map_patch_add ptr (Some R) (Some \<lparr>patch_key = entry_key e, patch_before = Some (entry_value e), patch_after = s\<rparr>) True
       else ret R)"
    by (simp add: between_source_step_def s(1))
  have D: "?D k' = patch_step (cl (Some (entry_value e))) (cl s)" if "policy_equal kp (entry_key e) k'" for k'
    unfolding difference_key [OF a b that] by (simp add: patch_difference_def e s(2))
  show ?thesis
  proof (cases ?differ)
    case True
    then show ?thesis unfolding run if_P [OF True] by (intro add_step [OF R] D)
  next
    case False
    have "?D k' = st R (entry_key e)" if "policy_equal kp (entry_key e) k'" for k'
      using False unfolding D [OF that] patch_step_def state_class_eq [OF value_equivp] R(2) by auto
    then show ?thesis unfolding run if_not_P [OF False] by (intro skip_step [OF R(1)]) blast
  qed
qed

text \<open>The first loop records the changes of the keys that the source binds, the second adds those it does not bind.\<close>

lemma target_step_spec:
  assumes a: "map_valid_at p t a" and b: "map_valid_at p t b"
    and e: "ms b (entry_key e) = cl (Some (entry_value e))" and R: "rep t' R"
    and listed: "st R (entry_key e) = (if ms a (entry_key e) = {} then None else patch_difference (ms a) (ms b) (entry_key e))"
  shows "achieves E (patch_failures E mem kp vp) t' (between_target_step ptr a R e)
    (\<lambda>R' t''. rep t'' R' \<and>
       st R' = (\<lambda>k. if policy_equal kp (entry_key e) k then patch_difference (ms a) (ms b) k else st R k))"
proof -
  let ?D = "patch_difference (ms a) (ms b)"
  obtain s where s: "d7_hamt_map_contains_key (Some a) (entry_key e) = Inr (s \<noteq> None)" "ms a (entry_key e) = cl s" using map_get [OF a] .
  show ?thesis
  proof (cases s)
    case None
    have "?D k' = patch_step (cl None) (cl (Some (entry_value e)))" if "policy_equal kp (entry_key e) k'" for k'
      unfolding difference_key [OF a b that] by (simp add: patch_difference_def e s(2) None)
    moreover have "st R (entry_key e) = None" using listed s(2) None value_state by simp
    moreover have "between_target_step ptr a R e =
        d7_hamt_map_patch_add ptr (Some R) (Some \<lparr>patch_key = entry_key e, patch_before = None, patch_after = Some (entry_value e)\<rparr>) True"
      using None s(1) by (simp add: between_target_step_def)
    ultimately show ?thesis by (simp only:) (intro add_step [OF R], blast+)
  next
    case (Some v)
    then have "st R (entry_key e) = ?D (entry_key e)" using listed s(2) value_state [of s] by simp
    then have "?D k' = st R (entry_key e)" if "policy_equal kp (entry_key e) k'" for k' using difference_key [OF a b that] by simp
    moreover have "between_target_step ptr a R e = ret R" using Some s(1) by (simp add: between_target_step_def)
    ultimately show ?thesis by (simp only:) (intro skip_step [OF R], blast)
  qed
qed

lemma between_spec:
  assumes a: "map_valid_at p t a" and b: "map_valid_at p t b"
    and kp: "kp = between_key_policy p" and vp: "vp = between_value_policy p"
  shows "achieves E (patch_failures E mem kp vp) t (d7_hamt_map_patch_between ptr mem (Some a) (Some b) True)
    (\<lambda>R t'. rep t' R \<and> st R = patch_difference (ms a) (ms b))"
proof -
  let ?F = "patch_failures E mem kp vp" and ?D = "patch_difference (ms a) (ms b)"
  obtain es where es: "iterator_ok (d7_hamt_map_iterator_init (Some a))" "iterator_rest (d7_hamt_map_iterator_init (Some a)) = es"
    "sorted_wrt (\<lambda>e e'. \<not> policy_equal kp (entry_key e) (entry_key e')) es"
    "\<And>e. e \<in> set es \<Longrightarrow> ms a (entry_key e) = cl (Some (entry_value e))"
    "\<And>k. ms a k = {} \<longleftrightarrow> \<not> (\<exists>e\<in>set es. policy_equal kp (entry_key e) k)"
    using map_entries_states [OF a] by metis
  obtain fs where fs: "iterator_ok (d7_hamt_map_iterator_init (Some b))" "iterator_rest (d7_hamt_map_iterator_init (Some b)) = fs"
    "sorted_wrt (\<lambda>e e'. \<not> policy_equal kp (entry_key e) (entry_key e')) fs"
    "\<And>e. e \<in> set fs \<Longrightarrow> ms b (entry_key e) = cl (Some (entry_value e))"
    "\<And>k. ms b k = {} \<longleftrightarrow> \<not> (\<exists>e\<in>set fs. policy_equal kp (entry_key e) k)"
    using map_entries_states [OF b] by metis
  have pol: "policy a = p" "policy b = p" "release_key p \<noteq> None" "release_value p \<noteq> None"
    using a b callbacks(4,7) by (simp_all add: map_valid_at_def kp vp between_key_policy_def between_value_policy_def)
  have "iterate (between_target_step ptr a) (d7_hamt_map_iterator_init (Some b)) = (\<lambda>patch. fold_act (between_target_step ptr a) patch fs)"
    by (simp add: fun_eq_iff iterate_fold [OF fs(1)] fs(2))
  with pol(3,4) have run: "d7_hamt_map_patch_between ptr mem (Some a) (Some b) True =
      andthen (d7_hamt_map_patch_init ptr mem True (Some kp) (Some vp)) (\<lambda>patch.
      andthen (fold_act (between_source_step ptr p b) patch es) (\<lambda>patch. fold_act (between_target_step ptr a) patch fs))"
    unfolding d7_hamt_map_patch_between_def prod.case option.case Let_def pol(1,2) kp [symmetric] vp [symmetric]
    by (simp only: iterate_fold [OF es(1)] es(2) simp_thms if_False)
  have first: "achieves E ?F t1 (fold_act (between_source_step ptr p b) R es)
      (\<lambda>R' t'. rep t' R' \<and> st R' = overlay (policy_equal kp) es ?D (\<lambda>_. None))" if R: "rep t1 R" "st R = (\<lambda>_. None)" for R t1
    by (rule build_loop_achieves [OF R(1) es(3), where A = ?D, unfolded R(2)]) (rule source_step_spec [OF a b vp es(4)])
  have second: "achieves E ?F t1 (fold_act (between_target_step ptr a) R fs) (\<lambda>R' t'. rep t' R' \<and> st R' = ?D)"
    if R: "rep t1 R" "st R = overlay (policy_equal kp) es ?D (\<lambda>_. None)" for R t1
  proof -
    have listed: "st R k = (if ms a k = {} then None else ?D k)" for k using R(2) es(5) [of k] by (simp add: overlay_def)
    have "?D k = st R k" if "ms b k = {}" for k using listed [of k] that by (auto simp: patch_difference_def patch_step_def)
    then have all: "overlay (policy_equal kp) fs ?D (st R) = ?D" using fs(5) by (intro overlay_all) blast
    show ?thesis
      by (rule build_loop_achieves [OF R(1) fs(3), where A = ?D, unfolded all]) (rule target_step_spec [OF a b fs(4)], simp_all add: listed)
  qed
  show ?thesis
    unfolding run by (rule achieves_andthen [OF init_spec], rule achieves_andthen [OF first], simp_all add: second)
qed

end

end
