(* ===== verification/Hamt_Patch_Properties.thy ===== *)
theory Hamt_Patch_Properties
  imports Hamt_Patch_Apply
begin

text \<open>
  The properties of map patches, stated for all policies that keep their contracts. \<open>patch_rep mem kp vp t P\<close> is the invariant of
  a handle at time \<open>t\<close>; \<open>patch_states\<close> and \<open>map_states\<close> are the abstract patch and the states of the keys that handles stand for.
\<close>

section \<open>Policies for maps that own their items\<close>

definition owning_policy :: "('k \<Rightarrow> 64 word) \<Rightarrow> nat \<Rightarrow> nat \<Rightarrow> ('k, 'v) d7_hamt_policy" where
  "owning_policy ptr rk rv =
     d7_hamt_normalize_policy ptr (Some ((d7_hamt_policy_default ptr)\<lparr>arg_release_key := Some rk, arg_release_value := Some rv\<rparr>))"

lemmas between_policy_defs = between_key_policy_def between_value_policy_def policy_equal_def policy_hash_def policy_retain_def

lemma owning_equal [simp]:
  "policy_equal (between_key_policy (owning_policy ptr rk rv)) = (=)"
  "policy_equal (between_value_policy (owning_policy ptr rk rv)) = (=)"
  "d7_hamt_keys_equal (owning_policy ptr rk rv) = (=)"
  by (simp_all add: fun_eq_iff between_policy_defs owning_policy_def policy_defs)

interpretation owning: hamt_policy "owning_policy ptr rk rv" "(=)" "(=)" for ptr rk rv
  by unfold_locales (auto simp: owning_policy_def policy_defs equivp_def fun_eq_iff)

interpretation owning_patch: map_patch_target mem "between_key_policy (owning_policy ptr rk rv)"
  "between_value_policy (owning_policy ptr rk rv)" "owning_policy ptr rk rv" "(=)" for mem ptr rk rv
  by unfold_locales (auto simp: between_policy_defs owning_policy_def policy_defs equivp_def fun_eq_iff)

section \<open>Round trips\<close>

context map_patch_target
begin

lemma apply_states:
  assumes P: "rep t P" and m: "map_valid_at p t m" and fits: "patch_applies (st P) (ms m)"
  shows "achieves E (failing_requests E p) t (d7_hamt_map_patch_try_apply ptr (Some P) (Some m) True True)
    (\<lambda>(applied, conflict, m') t'. applied \<and> map_valid_at p t' m' \<and> ms m' = patch_applied (st P) (ms m))"
  using try_apply_spec [OF P m, of E ptr] fits by (auto elim!: achieves_weaken)

lemma target_later: "map_valid_at p t m \<Longrightarrow> t \<le> t' \<Longrightarrow> map_valid_at p t' m"
  by (rule client.valid_later)

lemma replay_spec:
  fixes E t
  defines "B \<equiv> patch_failures E mem kp vp \<union> failing_requests E p"
  assumes P: "rep t P" and a: "map_valid_at p t a" and fits: "patch_applies (st P) (ms a)"
  shows "achieves E B t
    (andthen (d7_hamt_map_patch_try_apply ptr (Some P) (Some a) True True) (\<lambda>(applied, c, b').
     andthen (d7_hamt_map_patch_invert ptr mem (Some P) True) (\<lambda>Q.
     andthen (d7_hamt_map_patch_try_apply ptr (Some Q) (Some b') True True) (\<lambda>(undone, c', a').
     ret (applied, b', undone, a')))))
    (\<lambda>(applied, b', undone, a') t'. applied \<and> undone \<and> map_valid_at p t' b' \<and> map_valid_at p t' a' \<and>
       ms b' = patch_applied (st P) (ms a) \<and> ms a' = ms a)"
proof (rule achieves_andthen [OF achieves_mono [OF apply_states [OF P a fits]]], goal_cases)
  case (2 x t1)
  obtain applied c b' where x: "x = (applied, c, b')" by (cases x)
  with 2 have b': "applied" "map_valid_at p t1 b'" "ms b' = patch_applied (st P) (ms a)" by simp_all
  show ?case
    unfolding x prod.case
  proof (rule achieves_andthen [OF achieves_mono [OF invert_spec [OF rep_later [OF P 2(1)]]]], goal_cases)
    case (2 Q t2)
    have later: "map_valid_at p t2 b'" using client.valid_later [OF b'(2) 2(1)] .
    have "patch_applies (st Q) (ms b')" using 2(2) b'(3) applies_inverse by metis
    moreover have "patch_applied (st Q) (ms b') = ms a" using 2(2) b'(3) applied_inverse [OF fits] by metis
    ultimately have "achieves E B t2 (d7_hamt_map_patch_try_apply ptr (Some Q) (Some b') True True)
        (\<lambda>(applied, conflict, a') t'. applied \<and> map_valid_at p t' a' \<and> ms a' = ms a)"
      using achieves_mono [OF apply_states [OF conjunct1 [OF 2(2)] later]] unfolding B_def by auto
    then show ?case
      by (rule achieves_andthen) (use b' client.valid_later [OF later] in \<open>auto intro!: achieves_ret\<close>)
  qed (simp add: B_def)
qed (simp add: B_def)

end

section \<open>Handles for the witnesses\<close>

abbreviation word_policy :: "(64 word, 64 word) d7_hamt_policy" where
  "word_policy \<equiv> owning_policy id 40 41"

definition word_map :: "64 word \<Rightarrow> 64 word \<Rightarrow> (64 word, 64 word) d7_hamt_map" where
  "word_map k v = \<lparr>root = Some (Leaf 0 (d7_hamt_get_hash word_policy k) k v), count = 1, policy = word_policy\<rparr>"

abbreviation word_keys :: "64 word d7_hamt_set_policy_arg" where
  "word_keys \<equiv> between_key_policy word_policy"

abbreviation word_values :: "64 word d7_hamt_set_policy_arg" where
  "word_values \<equiv> between_value_policy word_policy"

definition word_patch :: "64 word \<Rightarrow> 64 word option \<Rightarrow> 64 word option \<Rightarrow> (64 word, 64 word) d7_hamt_map_patch" where
  "word_patch k b a =
     \<lparr>changes = \<lparr>root = Some (Leaf 0 (policy_hash word_keys k) k \<lparr>before_state = b, after_state = a\<rparr>), count = 1,
                 policy = change_policy (\<lambda>_. True) word_keys word_values 0\<rparr>,
      patch_context = Some \<lparr>context_address = 0, patch_key_policy = word_keys, patch_value_policy = word_values\<rparr>\<rparr>"

lemma word_map_valid: "map_valid_at word_policy 1 (word_map k v)"
  by (auto simp: map_valid_at_def map_ok_def map_nodes_def heap_def word_map_def
      intro!: exI [of _ "{Leaf 0 (d7_hamt_get_hash word_policy k) k v}"])

lemma word_state: "state_class (=) s = set_option s"
  by (cases s) (auto simp: state_class_def)

lemma word_map_states: "map_states (=) (word_map k v) k' = (if k' = k then {v} else {})"
  by (auto simp: map_states_def map_entry_def word_map_def word_state)

lemma word_patch_states: "patch_states (=) (word_patch k b a) k' = (if k' = k then Some (set_option b, set_option a) else None)"
  by (auto simp: patch_states_def map_entry_def word_patch_def word_state change_states_def)

lemma word_patch_rep:
  assumes "b \<noteq> a"
  shows "patch_rep (\<lambda>_. True) word_keys word_values 1 (word_patch k b a)"
proof -
  have "set_option b \<noteq> set_option a" using assms by (cases b; cases a) auto
  then have "patch_proper (patch_states (policy_equal word_values) (word_patch k b a))"
    by (auto simp: patch_proper_def word_patch_states)
  moreover have "map_valid_at (change_policy (\<lambda>_. True) word_keys word_values 0) 1 (changes (word_patch k b a))"
    by (auto simp: map_valid_at_def map_ok_def map_nodes_def heap_def word_patch_def
        intro!: exI [of _ "{Leaf 0 (policy_hash word_keys k) k \<lparr>before_state = b, after_state = a\<rparr>}"])
  ultimately show ?thesis by (simp add: patch_rep_def word_patch_def)
qed

lemma word_retain [simp]: "policy_retain word_keys k i = Some k" "policy_retain word_values v i = Some v"
  by (simp_all add: between_policy_defs owning_policy_def policy_defs)

lemma word_requests [simp]: "failing_requests (\<lambda>_. True) word_policy = {}" "patch_failures (\<lambda>_. True) (\<lambda>_. True) word_keys word_values = {}"
proof -
  show "failing_requests (\<lambda>_. True) word_policy = {}" by (simp add: failing_requests_def owning_policy_def policy_defs)
  show "patch_failures (\<lambda>_. True) (\<lambda>_. True) word_keys word_values = {}"
    by (auto simp: failing_requests_def patch_failures_def change_retain_value d7_hamt_map_patch_change_retain_def retain_state_def
        split: option.splits)
qed

section \<open>The properties\<close>

text \<open>C15: the patch between two maps carries the first to the second, and its inverse carries the result back: for maps under a
  policy that owns its items, the patch computed from \<open>a\<close> to \<open>b\<close> applies to \<open>a\<close> and yields a map with the states of \<open>b\<close>, and
  the inverted patch applies to that map and yields the states of \<open>a\<close>. The sequence fails only when memory runs out.\<close>

theorem patch_between_roundtrip:
  assumes "map_patch_target (between_key_policy p) (between_value_policy p) p Rk"
    and "map_valid_at p t a" and "map_valid_at p t b"
  shows "achieves E (patch_failures E mem (between_key_policy p) (between_value_policy p) \<union> failing_requests E p) t
    (andthen (d7_hamt_map_patch_between ptr mem (Some a) (Some b) True) (\<lambda>P.
     andthen (d7_hamt_map_patch_try_apply ptr (Some P) (Some a) True True) (\<lambda>(applied, c, b').
     andthen (d7_hamt_map_patch_invert ptr mem (Some P) True) (\<lambda>Q.
     andthen (d7_hamt_map_patch_try_apply ptr (Some Q) (Some b') True True) (\<lambda>(undone, c', a').
     ret (applied, b', undone, a'))))))
    (\<lambda>(applied, b', undone, a') t'. applied \<and> undone \<and> map_valid_at p t' b' \<and> map_valid_at p t' a' \<and>
       map_states (policy_equal (between_value_policy p)) b' = map_states (policy_equal (between_value_policy p)) b \<and>
       map_states (policy_equal (between_value_policy p)) a' = map_states (policy_equal (between_value_policy p)) a)"
proof -
  let ?kp = "between_key_policy p" and ?vp = "between_value_policy p"
  let ?ms = "map_states (policy_equal ?vp)"
  note between = map_patch_target.between_spec [where mem = mem and E = E and ptr = ptr, OF assms(1,2,3) refl refl]
  show ?thesis
  proof (rule achieves_andthen [OF achieves_mono [OF between]], goal_cases)
    case (2 P t1)
    have a: "map_valid_at p t1 a" using map_patch_target.target_later [OF assms(1,2) 2(1)] .
    have "patch_applies (patch_states (policy_equal ?vp) P) (?ms a)" using 2(2) applies_difference by metis
    from map_patch_target.replay_spec [where mem = mem and E = E and ptr = ptr, OF assms(1) conjunct1 [OF 2(2)] a this]
    show ?case using 2(2) applied_difference [of "?ms a" "?ms b"] by simp
  qed simp
qed

theorem patch_between_roundtrip_witness:
  "achieves (\<lambda>_. True) {} 1
    (andthen (d7_hamt_map_patch_between id (\<lambda>_. True) (Some (word_map 5 7)) (Some (word_map 6 8)) True) (\<lambda>P.
     andthen (d7_hamt_map_patch_try_apply id (Some P) (Some (word_map 5 7)) True True) (\<lambda>(applied, c, b').
     andthen (d7_hamt_map_patch_invert id (\<lambda>_. True) (Some P) True) (\<lambda>Q.
     andthen (d7_hamt_map_patch_try_apply id (Some Q) (Some b') True True) (\<lambda>(undone, c', a').
     ret (applied, b', undone, a'))))))
    (\<lambda>(applied, b', undone, a') t'. applied \<and> undone \<and>
       map_states (=) b' = map_states (=) (word_map 6 8) \<and> map_states (=) a' = map_states (=) (word_map 5 7))"
  using patch_between_roundtrip [where E = "\<lambda>_. True" and ptr = id and mem = "\<lambda>_. True",
      OF owning_patch.map_patch_target_axioms word_map_valid [of 5 7] word_map_valid [of 6 8]]
  by (auto elim!: achieves_weaken)

text \<open>C16: a patch applies completely or not at all. Where the map meets every expectation of the patch, applying it succeeds
  and every key of the patch gets its new state, all others keep theirs; otherwise \<open>try_apply\<close> reports the key of a
  change whose expectation is not met and returns the map unchanged, and \<open>apply\<close> returns \<open>D7_HAMT_INVALID_ARGUMENT\<close> and
  leaves a destroyed handle in its result variable.\<close>

theorem patch_apply_correct:
  assumes "map_patch_target kp vp p Rk" and "patch_rep mem kp vp t P" and "map_valid_at p t m"
  defines "S \<equiv> patch_states (policy_equal vp) P" and "M \<equiv> map_states (policy_equal vp)"
  shows "achieves E (failing_requests E p) t (d7_hamt_map_patch_try_apply ptr (Some P) (Some m) True True)
      (\<lambda>(applied, conflict, m') t'. map_valid_at p t' m' \<and> (applied \<longleftrightarrow> patch_applies S (M m)) \<and>
         (if applied then conflict = None \<and> M m' = patch_applied S (M m)
          else m' = m \<and> (\<exists>k b a. conflict = Some k \<and> S k = Some (b, a) \<and> M m k \<noteq> b))) \<and>
    achieves E (failing_requests E p) t (d7_hamt_map_patch_apply ptr (Some P) (Some m) True)
      (\<lambda>(status, m') t'. if patch_applies S (M m) then status = D7_HAMT_OK \<and> map_valid_at p t' m' \<and> M m' = patch_applied S (M m)
         else status = D7_HAMT_INVALID_ARGUMENT \<and> m' = m\<lparr>root := None, count := 0\<rparr>)"
proof -
  note run = map_patch_target.try_apply_spec [where mem = mem and E = E and ptr = ptr, OF assms(1,2,3), folded S_def M_def]
  have "achieves E (failing_requests E p) t (d7_hamt_map_patch_apply ptr (Some P) (Some m) True)
      (\<lambda>(status, m') t'. if patch_applies S (M m) then status = D7_HAMT_OK \<and> map_valid_at p t' m' \<and> M m' = patch_applied S (M m)
         else status = D7_HAMT_INVALID_ARGUMENT \<and> m' = m\<lparr>root := None, count := 0\<rparr>)"
    unfolding d7_hamt_map_patch_apply_def
    by (rule achieves_andthen [OF run]) (auto simp: d7_hamt_map_destroy_def intro!: achieves_ret split: if_splits)
  with run show ?thesis by blast
qed

theorem patch_apply_correct_witness:
  "achieves (\<lambda>_. True) {} 1 (d7_hamt_map_patch_apply id (Some (word_patch 5 (Some 7) None)) (Some (word_map 5 7)) True)
     (\<lambda>(status, m') t'. status = D7_HAMT_OK \<and> map_states (=) m' 5 = {}) \<and>
   achieves (\<lambda>_. True) {} 1 (d7_hamt_map_patch_apply id (Some (word_patch 5 (Some 7) None)) (Some (word_map 5 8)) True)
     (\<lambda>(status, m') t'. status = D7_HAMT_INVALID_ARGUMENT \<and> root m' = None)"
proof -
  note run = patch_apply_correct [where E = "\<lambda>_. True" and ptr = id and mem = "\<lambda>_. True",
      OF owning_patch.map_patch_target_axioms word_patch_rep [of "Some 7" None 5] word_map_valid [of 5]]
  have "patch_applies (patch_states (=) (word_patch 5 (Some 7) None)) (map_states (=) (word_map 5 7))"
    "patch_applied (patch_states (=) (word_patch 5 (Some 7) None)) (map_states (=) (word_map 5 7)) 5 = {}"
    "\<not> patch_applies (patch_states (=) (word_patch 5 (Some 7) None)) (map_states (=) (word_map 5 8))"
    by (simp_all add: patch_applies_def patch_applied_def word_patch_states word_map_states)
  then show ?thesis using run [of 7] run [of 8] by (auto elim!: achieves_weaken)
qed

text \<open>C17: the composition of two patches is application in sequence. It succeeds when the state in which the first patch leaves
  a key is the one that the second expects there, and is otherwise an invalid argument; the composed patch applies to
  every map to which the two apply one after the other, with the same result.\<close>

theorem patch_compose_correct:
  assumes "map_patch_policy kp vp" and "patch_rep mem kp vp t P" and "patch_rep mem kp vp t Q"
  defines "S \<equiv> patch_states (policy_equal vp)"
  shows "reports (\<not> patch_meets (S P) (S Q)) D7_HAMT_INVALID_ARGUMENT E (patch_failures E mem kp vp) t
    (d7_hamt_map_patch_compose ptr mem (Some P) (Some Q) True)
    (\<lambda>R t'. patch_rep mem kp vp t' R \<and> patch_meets (S P) (S Q) \<and> S R = patch_then (S P) (S Q) \<and>
       (\<forall>M. patch_applies (S P) M \<longrightarrow> patch_applies (S Q) (patch_applied (S P) M) \<longrightarrow>
          patch_applies (S R) M \<and> patch_applied (S R) M = patch_applied (S Q) (patch_applied (S P) M)))"
  using map_patch_policy.compose_spec [where mem = mem and E = E and ptr = ptr, OF assms(1,2,3)] applies_then applied_then
  unfolding S_def by (auto elim!: reports_weaken)

theorem patch_compose_correct_witness:
  "achieves (\<lambda>_. True) {} 1
     (d7_hamt_map_patch_compose id (\<lambda>_. True) (Some (word_patch 5 None (Some 7))) (Some (word_patch 5 (Some 7) (Some 8))) True)
     (\<lambda>R t'. patch_states (=) R 5 = Some ({}, {8}))"
proof -
  let ?S = "patch_states (=)" and ?P = "word_patch 5 None (Some 7)" and ?Q = "word_patch 5 (Some 7) (Some 8)"
  have meets: "patch_meets (?S ?P) (?S ?Q) = True" by (simp add: patch_meets_def word_patch_states)
  have "patch_then (?S ?P) (?S ?Q) 5 = Some ({}, {8})" by (simp add: patch_then_def word_patch_states patch_step_def)
  then show ?thesis
    using patch_compose_correct [where E = "\<lambda>_. True" and ptr = id and mem = "\<lambda>_. True",
        OF owning_patch.map_patch_policy_axioms word_patch_rep [of None "Some 7" 5] word_patch_rep [of "Some 7" "Some 8" 5]]
    by (auto simp: meets reports_achieves elim!: achieves_weaken)
qed

text \<open>C18: editing a patch. A change between equal states is not recorded; a change of a key that has one already is reported as
  a duplicate by \<open>add\<close> and refused by \<open>try_add\<close>; otherwise the change is added. Removing a key, clearing and inverting do what
  they say, every result keeps the invariant, a lookup returns the recorded states, and the validator accepts the patch.\<close>

theorem patch_edit_correct:
  fixes E :: environment
  assumes "map_patch_policy kp vp" and "patch_rep mem kp vp t P"
  defines "S \<equiv> patch_states (policy_equal vp)" and "cl \<equiv> state_class (policy_equal vp)" and "B \<equiv> patch_failures E mem kp vp"
  shows "reports (S P k \<noteq> None \<and> cl b \<noteq> cl a) D7_HAMT_DUPLICATE_KEY E B t
      (d7_hamt_map_patch_add ptr (Some P) (Some \<lparr>patch_key = k, patch_before = b, patch_after = a\<rparr>) True)
      (\<lambda>R t'. patch_rep mem kp vp t' R \<and> (cl b \<noteq> cl a \<longrightarrow> S P k = None) \<and>
         S R = (\<lambda>k'. if policy_equal kp k k' \<and> cl b \<noteq> cl a then Some (cl b, cl a) else S P k')) \<and>
    achieves E B t (d7_hamt_map_patch_try_add ptr (Some P) (Some \<lparr>patch_key = k, patch_before = b, patch_after = a\<rparr>) True True)
      (\<lambda>(added, R) t'. patch_rep mem kp vp t' R \<and> (added \<longleftrightarrow> S P k = None \<and> cl b \<noteq> cl a) \<and>
         S R = (\<lambda>k'. if policy_equal kp k k' \<and> added then Some (cl b, cl a) else S P k')) \<and>
    achieves E B t (d7_hamt_map_patch_remove ptr (Some P) k True)
      (\<lambda>R t'. patch_rep mem kp vp t' R \<and> S R = (\<lambda>k'. if policy_equal kp k k' then None else S P k')) \<and>
    (\<exists>R. d7_hamt_map_patch_clear ptr (Some P) True E t = (Inr R, t) \<and> patch_rep mem kp vp t R \<and> S R = (\<lambda>_. None)) \<and>
    achieves E B t (d7_hamt_map_patch_invert ptr mem (Some P) True) (\<lambda>R t'. patch_rep mem kp vp t' R \<and> S R = patch_inverse (S P)) \<and>
    (\<exists>e. d7_hamt_map_patch_try_get_entry (Some P) k = Inr e \<and> S P k = map_option (\<lambda>e. (cl (patch_before e), cl (patch_after e))) e) \<and>
    (d7_hamt_map_patch_count (Some P) \<le> SIZE_MAX \<longrightarrow> d7_hamt_map_patch_debug_validate (Some P) = Inr True)"
proof -
  have "\<exists>e. d7_hamt_map_patch_try_get_entry (Some P) k = Inr e \<and> S P k = map_option (\<lambda>e. (cl (patch_before e), cl (patch_after e))) e"
    unfolding S_def cl_def by (rule map_patch_policy.get_entry [OF assms(1,2), of k]) auto
  then show ?thesis
    unfolding S_def cl_def B_def
    by (intro conjI map_patch_policy.add_spec map_patch_policy.try_add_spec map_patch_policy.remove_spec map_patch_policy.clear_spec
        map_patch_policy.invert_spec assms(1,2) impI map_patch_policy.validate_spec [OF assms(1,2)])
qed

theorem patch_edit_correct_witness:
  "reports True D7_HAMT_DUPLICATE_KEY (\<lambda>_. True) {} 1
     (d7_hamt_map_patch_add id (Some (word_patch 5 None (Some 7))) (Some \<lparr>patch_key = 5, patch_before = None, patch_after = Some 8\<rparr>) True)
     (\<lambda>R t'. False) \<and>
   achieves (\<lambda>_. True) {} 1 (d7_hamt_map_patch_remove id (Some (word_patch 5 None (Some 7))) 5 True) (\<lambda>R t'. patch_states (=) R = (\<lambda>_. None)) \<and>
   achieves (\<lambda>_. True) {} 1 (d7_hamt_map_patch_invert id (\<lambda>_. True) (Some (word_patch 5 None (Some 7))) True)
     (\<lambda>R t'. patch_states (=) R 5 = Some ({7}, {})) \<and>
   d7_hamt_map_patch_debug_validate (Some (word_patch 5 None (Some 7))) = Inr True"
proof -
  have "d7_hamt_map_patch_count (Some (word_patch 5 None (Some 7))) \<le> SIZE_MAX"
    by (simp add: d7_hamt_map_patch_count_def d7_hamt_map_patch_valid_def d7_hamt_map_count_def word_patch_def SIZE_MAX_def)
  moreover have "patch_inverse (patch_states (=) (word_patch 5 None (Some 7))) 5 = Some ({7}, {})"
    by (simp add: patch_inverse_def word_patch_states)
  moreover have "(\<lambda>k'. if 5 = k' then None else patch_states (=) (word_patch 5 None (Some 7)) k') = (\<lambda>_. None)"
    by (auto simp: word_patch_states)
  ultimately show ?thesis
    using patch_edit_correct [where E = "\<lambda>_. True" and ptr = id and mem = "\<lambda>_. True" and k = 5 and b = None and a = "Some 8",
        OF owning_patch.map_patch_policy_axioms word_patch_rep [of None "Some 7" 5]]
    by (auto simp: word_patch_states word_state elim!: achieves_weaken reports_weaken)
qed

text \<open>\<open>try_add\<close> does not test its result pointer: where it has nothing to add it writes through a null pointer.\<close>

lemma patch_try_add_null_result:
  "d7_hamt_map_patch_try_add id (Some (word_patch 5 None (Some 7))) (Some \<lparr>patch_key = 5, patch_before = None, patch_after = Some 8\<rparr>) True False E 1 =
     (Inl Fault, 1)"
proof -
  have rep: "patch_rep (\<lambda>_. True) word_keys word_values 1 (word_patch 5 None (Some 7))" by (rule word_patch_rep) simp
  have "d7_hamt_map_patch_contains_key (Some (word_patch 5 None (Some 7))) 5 = Inr True"
    by (rule map_patch_policy.get_entry [OF owning_patch.map_patch_policy_axioms rep, of 5]) (simp_all add: word_patch_states)
  then show ?thesis
    unfolding word_patch_def
    by (simp add: d7_hamt_map_patch_try_add_def d7_hamt_map_patch_publish_clone_def d7_hamt_map_patch_clone_def d7_hamt_map_patch_valid_def
        d7_hamt_map_patch_publish_def andthen_def ret_def fail_def lift_res_def)
qed

end
