(* ===== verification/Hamt_Transient.thy ===== *)
theory Hamt_Transient
  imports Hamt_Set
begin

text \<open>
  The edit sessions (transients) of \<open>hamt.h\<close>. A session is a heap object that several handles share:
  its reference count, a version that tells iterators of changes, whether it is still active, and the
  current map. The store maps the addresses of live sessions to them; a freed session has no entry,
  and reading one is a fault.

  A handle is the pointer it holds, \<open>None\<close> both for a null handle and for a handle whose pointer is
  null: the code answers \<open>D7_HAMT_INVALID_ARGUMENT\<close> to either. An operation that fails leaves the store
  as it was; an operation that succeeds returns the new store. The version is a \<open>size_t\<close>, a 64-bit
  word that wraps around.
\<close>

record ('k, 'v) d7_hamt_map_transient_state =
  ref_count :: nat
  version :: "64 word"
  active :: bool
  session_map :: "('k, 'v) d7_hamt_map"

type_synonym ('k, 'v) store = "addr \<Rightarrow> ('k, 'v) d7_hamt_map_transient_state option"

record ('k, 'v) d7_hamt_map_transient_iterator =
  iter_state :: "addr option"
  iter_version :: "64 word"
  iter_inner :: "('k, 'v) d7_hamt_map_iterator"

section \<open>Map sessions\<close>

definition d7_hamt_map_transient_active_state ::
  "('k, 'v) store \<Rightarrow> addr option
     \<Rightarrow> failure + addr \<times> ('k, 'v) d7_hamt_map_transient_state" where
  "d7_hamt_map_transient_active_state \<sigma> transient =
     (case transient of
        None \<Rightarrow> Inl (Status D7_HAMT_INVALID_ARGUMENT)
      | Some a \<Rightarrow>
          (case \<sigma> a of
             None \<Rightarrow> Inl Fault
           | Some st \<Rightarrow>
               if \<not> active st then Inl (Status D7_HAMT_TRANSIENT_CONSUMED) else Inr (a, st)))"

definition d7_hamt_map_transient_commit ::
  "('k, 'v) d7_hamt_map_transient_state \<Rightarrow> ('k, 'v) d7_hamt_map
     \<Rightarrow> ('k, 'v) d7_hamt_map_transient_state" where
  "d7_hamt_map_transient_commit st next_map =
     (let changed = \<not> same_ptr (root (session_map st)) (root next_map)
      in st\<lparr>session_map := next_map, version := (if changed then version st + 1 else version st)\<rparr>)"

definition d7_hamt_map_to_transient ::
  "('k \<Rightarrow> 64 word) \<Rightarrow> ('k, 'v) store \<Rightarrow> ('k, 'v) d7_hamt_map option \<Rightarrow> bool
     \<Rightarrow> (('k, 'v) store \<times> addr option) act" where
  "d7_hamt_map_to_transient ptr \<sigma> mp result =
     (case mp of
        None \<Rightarrow> fail (Status D7_HAMT_INVALID_ARGUMENT)
      | Some m \<Rightarrow>
          if \<not> result then fail (Status D7_HAMT_INVALID_ARGUMENT)
          else
            andthen d7_hamt_allocate (\<lambda>a.
              ret (\<sigma>(a \<mapsto> \<lparr>ref_count = 1, version = 0, active = True,
                          session_map = d7_hamt_map_clone ptr (Some m)\<rparr>), Some a)))"

definition d7_hamt_map_transient_create ::
  "('k \<Rightarrow> 64 word) \<Rightarrow> ('k, 'v) store \<Rightarrow> ('k, 'v) d7_hamt_policy_arg option \<Rightarrow> bool
     \<Rightarrow> (('k, 'v) store \<times> addr option) act" where
  "d7_hamt_map_transient_create ptr \<sigma> pol result =
     (if \<not> result then fail (Status D7_HAMT_INVALID_ARGUMENT)
      else d7_hamt_map_to_transient ptr \<sigma> (Some (d7_hamt_map_create ptr pol)) result)"

text \<open>The session is checked before the output pointer.\<close>

definition with_session ::
  "('k, 'v) store \<Rightarrow> addr option
     \<Rightarrow> (addr \<Rightarrow> ('k, 'v) d7_hamt_map_transient_state \<Rightarrow> 'r act) \<Rightarrow> 'r act" where
  "with_session \<sigma> transient body =
     andthen (lift_res (d7_hamt_map_transient_active_state \<sigma> transient)) (\<lambda>(a, st). body a st)"

definition with_output :: "bool \<Rightarrow> 'r act \<Rightarrow> 'r act" where
  "with_output result body = (if \<not> result then fail (Status D7_HAMT_INVALID_ARGUMENT) else body)"

definition d7_hamt_map_transient_clone ::
  "('k, 'v) store \<Rightarrow> addr option \<Rightarrow> bool \<Rightarrow> bool \<Rightarrow> (('k, 'v) store \<times> addr option) act" where
  "d7_hamt_map_transient_clone \<sigma> transient result aliased =
     with_session \<sigma> transient (\<lambda>a st.
       with_output (result \<and> \<not> aliased)
         (if ref_count st = SIZE_MAX then fail (Status D7_HAMT_INVALID_ARGUMENT)
          else ret (\<sigma>(a \<mapsto> st\<lparr>ref_count := ref_count st + 1\<rparr>), Some a)))"

text \<open>Destruction has no status; the handle becomes null. A reference count of zero would violate the
  assertion of the code.\<close>

definition d7_hamt_map_transient_destroy ::
  "('k, 'v) store \<Rightarrow> addr option \<Rightarrow> failure + ('k, 'v) store \<times> addr option" where
  "d7_hamt_map_transient_destroy \<sigma> transient =
     (case transient of
        None \<Rightarrow> Inr (\<sigma>, None)
      | Some a \<Rightarrow>
          (case \<sigma> a of
             None \<Rightarrow> Inl Fault
           | Some st \<Rightarrow>
               if ref_count st = 0 then Inl Fault
               else if ref_count st = 1 then Inr (\<sigma>(a := None), None)
               else Inr (\<sigma>(a \<mapsto> st\<lparr>ref_count := ref_count st - 1\<rparr>), None)))"

definition d7_hamt_map_transient_is_active :: "('k, 'v) store \<Rightarrow> addr option \<Rightarrow> failure + bool" where
  "d7_hamt_map_transient_is_active \<sigma> transient =
     (case transient of
        None \<Rightarrow> Inr False
      | Some a \<Rightarrow> (case \<sigma> a of None \<Rightarrow> Inl Fault | Some st \<Rightarrow> Inr (active st)))"

definition d7_hamt_map_transient_get_policy ::
  "('k, 'v) store \<Rightarrow> addr option \<Rightarrow> bool \<Rightarrow> ('k, 'v) d7_hamt_policy act" where
  "d7_hamt_map_transient_get_policy \<sigma> transient result =
     with_session \<sigma> transient (\<lambda>a st. with_output result (ret (policy (session_map st))))"

definition d7_hamt_map_transient_count :: "('k, 'v) store \<Rightarrow> addr option \<Rightarrow> bool \<Rightarrow> nat act" where
  "d7_hamt_map_transient_count \<sigma> transient result =
     with_session \<sigma> transient (\<lambda>a st. with_output result (ret (count (session_map st))))"

definition d7_hamt_map_transient_contains_key ::
  "('k, 'v) store \<Rightarrow> addr option \<Rightarrow> 'k \<Rightarrow> bool \<Rightarrow> bool act" where
  "d7_hamt_map_transient_contains_key \<sigma> transient key contains =
     with_session \<sigma> transient (\<lambda>a st.
       with_output contains (lift_res (d7_hamt_map_contains_key (Some (session_map st)) key)))"

definition d7_hamt_map_transient_try_get ::
  "('k, 'v) store \<Rightarrow> addr option \<Rightarrow> 'k \<Rightarrow> bool \<Rightarrow> 'v option act" where
  "d7_hamt_map_transient_try_get \<sigma> transient key found =
     with_session \<sigma> transient (\<lambda>a st.
       with_output found (lift_res (d7_hamt_map_try_get (Some (session_map st)) key)))"

definition d7_hamt_map_transient_try_get_key ::
  "('k, 'v) store \<Rightarrow> addr option \<Rightarrow> 'k \<Rightarrow> bool \<Rightarrow> (bool \<times> 'k) act" where
  "d7_hamt_map_transient_try_get_key \<sigma> transient equal_key found =
     with_session \<sigma> transient (\<lambda>a st.
       with_output found (lift_res (d7_hamt_map_try_get_key (Some (session_map st)) equal_key)))"

definition d7_hamt_map_transient_set ::
  "('k, 'v) store \<Rightarrow> addr option \<Rightarrow> 'k \<Rightarrow> 'v \<Rightarrow> ('k, 'v) store act" where
  "d7_hamt_map_transient_set \<sigma> transient key v =
     with_session \<sigma> transient (\<lambda>a st.
       andthen (d7_hamt_map_set (Some (session_map st)) key v True) (\<lambda>next_map.
       ret (\<sigma>(a \<mapsto> d7_hamt_map_transient_commit st next_map))))"

definition d7_hamt_map_transient_add ::
  "('k, 'v) store \<Rightarrow> addr option \<Rightarrow> 'k \<Rightarrow> 'v \<Rightarrow> ('k, 'v) store act" where
  "d7_hamt_map_transient_add \<sigma> transient key v =
     with_session \<sigma> transient (\<lambda>a st.
       andthen (d7_hamt_map_add (Some (session_map st)) key v True) (\<lambda>next_map.
       ret (\<sigma>(a \<mapsto> d7_hamt_map_transient_commit st next_map))))"

definition d7_hamt_map_transient_try_add ::
  "('k, 'v) store \<Rightarrow> addr option \<Rightarrow> 'k \<Rightarrow> 'v \<Rightarrow> (bool \<times> ('k, 'v) store) act" where
  "d7_hamt_map_transient_try_add \<sigma> transient key v =
     with_session \<sigma> transient (\<lambda>a st.
       andthen (d7_hamt_map_try_add (Some (session_map st)) key v True) (\<lambda>(added, next_map).
       ret (added, \<sigma>(a \<mapsto> d7_hamt_map_transient_commit st next_map))))"

definition d7_hamt_map_transient_remove ::
  "('k, 'v) store \<Rightarrow> addr option \<Rightarrow> 'k \<Rightarrow> ('k, 'v) store act" where
  "d7_hamt_map_transient_remove \<sigma> transient key =
     with_session \<sigma> transient (\<lambda>a st.
       andthen (d7_hamt_map_remove (Some (session_map st)) key True False) (\<lambda>next_map.
       ret (\<sigma>(a \<mapsto> d7_hamt_map_transient_commit st next_map))))"

definition d7_hamt_map_transient_try_remove ::
  "('k, 'v) store \<Rightarrow> addr option \<Rightarrow> 'k \<Rightarrow> (bool \<times> ('k, 'v) store) act" where
  "d7_hamt_map_transient_try_remove \<sigma> transient key =
     with_session \<sigma> transient (\<lambda>a st.
       andthen (d7_hamt_map_try_remove (Some (session_map st)) key True False) (\<lambda>(removed, removed_value, next_map).
       ret (removed, \<sigma>(a \<mapsto> d7_hamt_map_transient_commit st next_map))))"

definition d7_hamt_map_transient_clear ::
  "('k, 'v) store \<Rightarrow> addr option \<Rightarrow> ('k, 'v) store act" where
  "d7_hamt_map_transient_clear \<sigma> transient =
     with_session \<sigma> transient (\<lambda>a st.
       andthen (d7_hamt_map_clear (Some (session_map st)) True) (\<lambda>next_map.
       ret (\<sigma>(a \<mapsto> d7_hamt_map_transient_commit st next_map))))"

definition d7_hamt_map_transient_iterator_init ::
  "('k, 'v) store \<Rightarrow> addr option \<Rightarrow> bool \<Rightarrow> ('k, 'v) d7_hamt_map_transient_iterator act" where
  "d7_hamt_map_transient_iterator_init \<sigma> transient result =
     with_session \<sigma> transient (\<lambda>a st.
       with_output result
         (ret \<lparr>iter_state = Some a, iter_version = version st,
               iter_inner = d7_hamt_map_iterator_init (Some (session_map st))\<rparr>))"

definition d7_hamt_map_transient_iterator_next ::
  "('k, 'v) store \<Rightarrow> ('k, 'v) d7_hamt_map_transient_iterator option \<Rightarrow> bool
     \<Rightarrow> failure + ('k, 'v) d7_hamt_map_transient_iterator \<times> ('k, 'v) d7_hamt_entry option" where
  "d7_hamt_map_transient_iterator_next \<sigma> ip has_value =
     (case ip of
        None \<Rightarrow> Inl (Status D7_HAMT_INVALID_ARGUMENT)
      | Some it \<Rightarrow>
          (case iter_state it of
             None \<Rightarrow> Inl (Status D7_HAMT_INVALID_ARGUMENT)
           | Some a \<Rightarrow>
               if \<not> has_value then Inl (Status D7_HAMT_INVALID_ARGUMENT)
               else
                 (case \<sigma> a of
                    None \<Rightarrow> Inl Fault
                  | Some st \<Rightarrow>
                      if \<not> active st then Inl (Status D7_HAMT_TRANSIENT_CONSUMED)
                      else if iter_version it \<noteq> version st then Inl (Status D7_HAMT_TRANSIENT_MODIFIED)
                      else
                        map_found (\<lambda>(inner, x). (it\<lparr>iter_inner := inner\<rparr>, x))
                          (d7_hamt_map_iterator_next (iter_inner it)))))"

definition d7_hamt_map_transient_persist ::
  "('k, 'v) store \<Rightarrow> addr option \<Rightarrow> bool \<Rightarrow> (('k, 'v) store \<times> ('k, 'v) d7_hamt_map) act" where
  "d7_hamt_map_transient_persist \<sigma> transient result =
     with_session \<sigma> transient (\<lambda>a st.
       with_output result
         (ret (\<sigma>(a \<mapsto> st\<lparr>session_map := (session_map st)\<lparr>root := None, count := 0\<rparr>,
                         active := False, version := version st + 1\<rparr>),
               session_map st)))"

definition d7_hamt_map_transient_debug_root_identity ::
  "('k, 'v) store \<Rightarrow> addr option \<Rightarrow> failure + addr option" where
  "d7_hamt_map_transient_debug_root_identity \<sigma> transient =
     map_found (\<lambda>is_active.
         if is_active then
           (case transient of
              None \<Rightarrow> None
            | Some a \<Rightarrow> (case \<sigma> a of None \<Rightarrow> None | Some st \<Rightarrow> map_option node_addr (root (session_map st))))
         else None)
       (d7_hamt_map_transient_is_active \<sigma> transient)"

section \<open>Set sessions\<close>

text \<open>A set session wraps a map session. The wrappers check their own pointers first.\<close>

definition d7_hamt_set_to_transient ::
  "('k \<Rightarrow> 64 word) \<Rightarrow> ('k, unit) store \<Rightarrow> 'k d7_hamt_set option \<Rightarrow> bool
     \<Rightarrow> (('k, unit) store \<times> addr option) act" where
  "d7_hamt_set_to_transient ptr \<sigma> sp result =
     (case sp of
        None \<Rightarrow> fail (Status D7_HAMT_INVALID_ARGUMENT)
      | Some s \<Rightarrow> with_output result (d7_hamt_map_to_transient ptr \<sigma> (Some (set_map s)) True))"

definition d7_hamt_set_transient_create ::
  "('k \<Rightarrow> 64 word) \<Rightarrow> ('k, unit) store \<Rightarrow> 'k d7_hamt_set_policy_arg option \<Rightarrow> bool
     \<Rightarrow> (('k, unit) store \<times> addr option) act" where
  "d7_hamt_set_transient_create ptr \<sigma> pol result =
     with_output result (d7_hamt_map_to_transient ptr \<sigma> (Some (set_map (d7_hamt_set_create ptr pol))) True)"

definition d7_hamt_set_transient_clone ::
  "('k, unit) store \<Rightarrow> addr option \<Rightarrow> bool \<Rightarrow> bool \<Rightarrow> (('k, unit) store \<times> addr option) act" where
  "d7_hamt_set_transient_clone \<sigma> transient result aliased =
     with_output (result \<and> \<not> aliased) (d7_hamt_map_transient_clone \<sigma> transient True False)"

definition d7_hamt_set_transient_destroy ::
  "('k, unit) store \<Rightarrow> addr option \<Rightarrow> failure + ('k, unit) store \<times> addr option" where
  "d7_hamt_set_transient_destroy \<sigma> transient = d7_hamt_map_transient_destroy \<sigma> transient"

definition d7_hamt_set_transient_is_active :: "('k, unit) store \<Rightarrow> addr option \<Rightarrow> failure + bool" where
  "d7_hamt_set_transient_is_active \<sigma> transient = d7_hamt_map_transient_is_active \<sigma> transient"

definition d7_hamt_set_transient_get_policy ::
  "('k, unit) store \<Rightarrow> addr option \<Rightarrow> bool \<Rightarrow> 'k d7_hamt_set_policy act" where
  "d7_hamt_set_transient_get_policy \<sigma> transient result =
     with_output result
       (andthen (d7_hamt_map_transient_get_policy \<sigma> transient True) (\<lambda>map_policy.
        ret (set_policy_of_map_policy map_policy)))"

definition d7_hamt_set_transient_count :: "('k, unit) store \<Rightarrow> addr option \<Rightarrow> bool \<Rightarrow> nat act" where
  "d7_hamt_set_transient_count \<sigma> transient result = d7_hamt_map_transient_count \<sigma> transient result"

definition d7_hamt_set_transient_contains ::
  "('k, unit) store \<Rightarrow> addr option \<Rightarrow> 'k \<Rightarrow> bool \<Rightarrow> bool act" where
  "d7_hamt_set_transient_contains \<sigma> transient item contains =
     d7_hamt_map_transient_contains_key \<sigma> transient item contains"

definition d7_hamt_set_transient_try_get_value ::
  "('k, unit) store \<Rightarrow> addr option \<Rightarrow> 'k \<Rightarrow> bool \<Rightarrow> (bool \<times> 'k) act" where
  "d7_hamt_set_transient_try_get_value \<sigma> transient equal_value found =
     d7_hamt_map_transient_try_get_key \<sigma> transient equal_value found"

definition d7_hamt_set_transient_add ::
  "('k, unit) store \<Rightarrow> addr option \<Rightarrow> 'k \<Rightarrow> ('k, unit) store act" where
  "d7_hamt_set_transient_add \<sigma> transient item = d7_hamt_map_transient_set \<sigma> transient item ()"

definition d7_hamt_set_transient_try_add ::
  "('k, unit) store \<Rightarrow> addr option \<Rightarrow> 'k \<Rightarrow> (bool \<times> ('k, unit) store) act" where
  "d7_hamt_set_transient_try_add \<sigma> transient item = d7_hamt_map_transient_try_add \<sigma> transient item ()"

definition d7_hamt_set_transient_remove ::
  "('k, unit) store \<Rightarrow> addr option \<Rightarrow> 'k \<Rightarrow> ('k, unit) store act" where
  "d7_hamt_set_transient_remove \<sigma> transient item = d7_hamt_map_transient_remove \<sigma> transient item"

definition d7_hamt_set_transient_try_remove ::
  "('k, unit) store \<Rightarrow> addr option \<Rightarrow> 'k \<Rightarrow> (bool \<times> ('k, unit) store) act" where
  "d7_hamt_set_transient_try_remove \<sigma> transient item = d7_hamt_map_transient_try_remove \<sigma> transient item"

definition d7_hamt_set_transient_clear ::
  "('k, unit) store \<Rightarrow> addr option \<Rightarrow> ('k, unit) store act" where
  "d7_hamt_set_transient_clear \<sigma> transient = d7_hamt_map_transient_clear \<sigma> transient"

datatype d7_hamt_set_transient_relation =
    D7_HAMT_SET_TRANSIENT_SUBSET
  | D7_HAMT_SET_TRANSIENT_PROPER_SUBSET
  | D7_HAMT_SET_TRANSIENT_SUPERSET
  | D7_HAMT_SET_TRANSIENT_PROPER_SUPERSET
  | D7_HAMT_SET_TRANSIENT_OVERLAPS
  | D7_HAMT_SET_TRANSIENT_EQUALS

fun relation_many ::
  "d7_hamt_set_transient_relation \<Rightarrow> 'k d7_hamt_set option \<Rightarrow> 'k list option \<Rightarrow> bool \<Rightarrow> bool act" where
  "relation_many D7_HAMT_SET_TRANSIENT_SUBSET = d7_hamt_set_is_subset_of_many"
| "relation_many D7_HAMT_SET_TRANSIENT_PROPER_SUBSET = d7_hamt_set_is_proper_subset_of_many"
| "relation_many D7_HAMT_SET_TRANSIENT_SUPERSET = d7_hamt_set_is_superset_of_many"
| "relation_many D7_HAMT_SET_TRANSIENT_PROPER_SUPERSET = d7_hamt_set_is_proper_superset_of_many"
| "relation_many D7_HAMT_SET_TRANSIENT_OVERLAPS = d7_hamt_set_overlaps_many"
| "relation_many D7_HAMT_SET_TRANSIENT_EQUALS = d7_hamt_set_equals_many"

fun relation_set ::
  "d7_hamt_set_transient_relation \<Rightarrow> 'k d7_hamt_set option \<Rightarrow> 'k d7_hamt_set option \<Rightarrow> bool \<Rightarrow> bool act" where
  "relation_set D7_HAMT_SET_TRANSIENT_SUBSET = d7_hamt_set_is_subset_of"
| "relation_set D7_HAMT_SET_TRANSIENT_PROPER_SUBSET = d7_hamt_set_is_proper_subset_of"
| "relation_set D7_HAMT_SET_TRANSIENT_SUPERSET = d7_hamt_set_is_superset_of"
| "relation_set D7_HAMT_SET_TRANSIENT_PROPER_SUPERSET = d7_hamt_set_is_proper_superset_of"
| "relation_set D7_HAMT_SET_TRANSIENT_OVERLAPS = d7_hamt_set_overlaps"
| "relation_set D7_HAMT_SET_TRANSIENT_EQUALS = d7_hamt_set_equals"

definition d7_hamt_set_transient_relation_many ::
  "('k, unit) store \<Rightarrow> addr option \<Rightarrow> 'k list option \<Rightarrow> bool \<Rightarrow> d7_hamt_set_transient_relation \<Rightarrow> bool act" where
  "d7_hamt_set_transient_relation_many \<sigma> transient items result relation =
     with_session \<sigma> transient (\<lambda>a st.
       with_output (result \<and> items \<noteq> None)
         (relation_many relation (Some \<lparr>set_map = session_map st\<rparr>) items True))"

definition d7_hamt_set_transient_relation_set ::
  "('k, unit) store \<Rightarrow> addr option \<Rightarrow> 'k d7_hamt_set option \<Rightarrow> bool \<Rightarrow> d7_hamt_set_transient_relation
     \<Rightarrow> bool act" where
  "d7_hamt_set_transient_relation_set \<sigma> transient other result relation =
     with_session \<sigma> transient (\<lambda>a st.
       with_output (other \<noteq> None \<and> result)
         (relation_set relation (Some \<lparr>set_map = session_map st\<rparr>) other True))"

definition d7_hamt_set_transient_is_subset_of_many ::
  "('k, unit) store \<Rightarrow> addr option \<Rightarrow> 'k list option \<Rightarrow> bool \<Rightarrow> bool act" where
  "d7_hamt_set_transient_is_subset_of_many \<sigma> transient items result =
     d7_hamt_set_transient_relation_many \<sigma> transient items result D7_HAMT_SET_TRANSIENT_SUBSET"

definition d7_hamt_set_transient_is_proper_subset_of_many ::
  "('k, unit) store \<Rightarrow> addr option \<Rightarrow> 'k list option \<Rightarrow> bool \<Rightarrow> bool act" where
  "d7_hamt_set_transient_is_proper_subset_of_many \<sigma> transient items result =
     d7_hamt_set_transient_relation_many \<sigma> transient items result D7_HAMT_SET_TRANSIENT_PROPER_SUBSET"

definition d7_hamt_set_transient_is_superset_of_many ::
  "('k, unit) store \<Rightarrow> addr option \<Rightarrow> 'k list option \<Rightarrow> bool \<Rightarrow> bool act" where
  "d7_hamt_set_transient_is_superset_of_many \<sigma> transient items result =
     d7_hamt_set_transient_relation_many \<sigma> transient items result D7_HAMT_SET_TRANSIENT_SUPERSET"

definition d7_hamt_set_transient_is_proper_superset_of_many ::
  "('k, unit) store \<Rightarrow> addr option \<Rightarrow> 'k list option \<Rightarrow> bool \<Rightarrow> bool act" where
  "d7_hamt_set_transient_is_proper_superset_of_many \<sigma> transient items result =
     d7_hamt_set_transient_relation_many \<sigma> transient items result D7_HAMT_SET_TRANSIENT_PROPER_SUPERSET"

definition d7_hamt_set_transient_overlaps_many ::
  "('k, unit) store \<Rightarrow> addr option \<Rightarrow> 'k list option \<Rightarrow> bool \<Rightarrow> bool act" where
  "d7_hamt_set_transient_overlaps_many \<sigma> transient items result =
     d7_hamt_set_transient_relation_many \<sigma> transient items result D7_HAMT_SET_TRANSIENT_OVERLAPS"

definition d7_hamt_set_transient_equals_many ::
  "('k, unit) store \<Rightarrow> addr option \<Rightarrow> 'k list option \<Rightarrow> bool \<Rightarrow> bool act" where
  "d7_hamt_set_transient_equals_many \<sigma> transient items result =
     d7_hamt_set_transient_relation_many \<sigma> transient items result D7_HAMT_SET_TRANSIENT_EQUALS"

definition d7_hamt_set_transient_is_subset_of ::
  "('k, unit) store \<Rightarrow> addr option \<Rightarrow> 'k d7_hamt_set option \<Rightarrow> bool \<Rightarrow> bool act" where
  "d7_hamt_set_transient_is_subset_of \<sigma> transient other result =
     d7_hamt_set_transient_relation_set \<sigma> transient other result D7_HAMT_SET_TRANSIENT_SUBSET"

definition d7_hamt_set_transient_is_proper_subset_of ::
  "('k, unit) store \<Rightarrow> addr option \<Rightarrow> 'k d7_hamt_set option \<Rightarrow> bool \<Rightarrow> bool act" where
  "d7_hamt_set_transient_is_proper_subset_of \<sigma> transient other result =
     d7_hamt_set_transient_relation_set \<sigma> transient other result D7_HAMT_SET_TRANSIENT_PROPER_SUBSET"

definition d7_hamt_set_transient_is_superset_of ::
  "('k, unit) store \<Rightarrow> addr option \<Rightarrow> 'k d7_hamt_set option \<Rightarrow> bool \<Rightarrow> bool act" where
  "d7_hamt_set_transient_is_superset_of \<sigma> transient other result =
     d7_hamt_set_transient_relation_set \<sigma> transient other result D7_HAMT_SET_TRANSIENT_SUPERSET"

definition d7_hamt_set_transient_is_proper_superset_of ::
  "('k, unit) store \<Rightarrow> addr option \<Rightarrow> 'k d7_hamt_set option \<Rightarrow> bool \<Rightarrow> bool act" where
  "d7_hamt_set_transient_is_proper_superset_of \<sigma> transient other result =
     d7_hamt_set_transient_relation_set \<sigma> transient other result D7_HAMT_SET_TRANSIENT_PROPER_SUPERSET"

definition d7_hamt_set_transient_overlaps ::
  "('k, unit) store \<Rightarrow> addr option \<Rightarrow> 'k d7_hamt_set option \<Rightarrow> bool \<Rightarrow> bool act" where
  "d7_hamt_set_transient_overlaps \<sigma> transient other result =
     d7_hamt_set_transient_relation_set \<sigma> transient other result D7_HAMT_SET_TRANSIENT_OVERLAPS"

definition d7_hamt_set_transient_equals ::
  "('k, unit) store \<Rightarrow> addr option \<Rightarrow> 'k d7_hamt_set option \<Rightarrow> bool \<Rightarrow> bool act" where
  "d7_hamt_set_transient_equals \<sigma> transient other result =
     d7_hamt_set_transient_relation_set \<sigma> transient other result D7_HAMT_SET_TRANSIENT_EQUALS"

definition d7_hamt_set_transient_iterator_init ::
  "('k, unit) store \<Rightarrow> addr option \<Rightarrow> bool \<Rightarrow> ('k, unit) d7_hamt_map_transient_iterator act" where
  "d7_hamt_set_transient_iterator_init \<sigma> transient result =
     with_output result (d7_hamt_map_transient_iterator_init \<sigma> transient True)"

definition d7_hamt_set_transient_iterator_next ::
  "('k, unit) store \<Rightarrow> ('k, unit) d7_hamt_map_transient_iterator option \<Rightarrow> bool
     \<Rightarrow> failure + ('k, unit) d7_hamt_map_transient_iterator \<times> 'k option" where
  "d7_hamt_set_transient_iterator_next \<sigma> ip has_value =
     (case ip of
        None \<Rightarrow> Inl (Status D7_HAMT_INVALID_ARGUMENT)
      | Some it \<Rightarrow>
          map_found (\<lambda>(it', x). (it', map_option entry_key x))
            (d7_hamt_map_transient_iterator_next \<sigma> (Some it) has_value))"

definition d7_hamt_set_transient_persist ::
  "('k, unit) store \<Rightarrow> addr option \<Rightarrow> bool \<Rightarrow> (('k, unit) store \<times> 'k d7_hamt_set) act" where
  "d7_hamt_set_transient_persist \<sigma> transient result =
     with_output result
       (andthen (d7_hamt_map_transient_persist \<sigma> transient True) (\<lambda>(\<sigma>', m). ret (\<sigma>', \<lparr>set_map = m\<rparr>)))"

section \<open>Edits\<close>

text \<open>The edits a session offers, and the operation on maps each stands for.\<close>

datatype ('k, 'v) edit =
  Set_Edit 'k 'v | Add_Edit 'k 'v | Try_Add_Edit 'k 'v | Remove_Edit 'k | Try_Remove_Edit 'k | Clear_Edit

fun session_edit ::
  "('k, 'v) store \<Rightarrow> addr option \<Rightarrow> ('k, 'v) edit \<Rightarrow> ('k, 'v) store act" where
  "session_edit \<sigma> h (Set_Edit k v) = d7_hamt_map_transient_set \<sigma> h k v"
| "session_edit \<sigma> h (Add_Edit k v) = d7_hamt_map_transient_add \<sigma> h k v"
| "session_edit \<sigma> h (Try_Add_Edit k v) =
     andthen (d7_hamt_map_transient_try_add \<sigma> h k v) (\<lambda>(added, \<sigma>'). ret \<sigma>')"
| "session_edit \<sigma> h (Remove_Edit k) = d7_hamt_map_transient_remove \<sigma> h k"
| "session_edit \<sigma> h (Try_Remove_Edit k) =
     andthen (d7_hamt_map_transient_try_remove \<sigma> h k) (\<lambda>(removed, \<sigma>'). ret \<sigma>')"
| "session_edit \<sigma> h Clear_Edit = d7_hamt_map_transient_clear \<sigma> h"

fun map_edit :: "('k, 'v) edit \<Rightarrow> ('k, 'v) d7_hamt_map \<Rightarrow> ('k, 'v) d7_hamt_map act" where
  "map_edit (Set_Edit k v) m = d7_hamt_map_set (Some m) k v True"
| "map_edit (Add_Edit k v) m = d7_hamt_map_add (Some m) k v True"
| "map_edit (Try_Add_Edit k v) m = andthen (d7_hamt_map_try_add (Some m) k v True) (\<lambda>(added, m'). ret m')"
| "map_edit (Remove_Edit k) m = d7_hamt_map_remove (Some m) k True False"
| "map_edit (Try_Remove_Edit k) m =
     andthen (d7_hamt_map_try_remove (Some m) k True False) (\<lambda>(removed, v, m'). ret m')"
| "map_edit Clear_Edit m = d7_hamt_map_clear (Some m) True"

text \<open>On an active session an edit is the operation on the session's map, then a commit.\<close>

lemma with_session_active: "\<sigma> a = Some st \<Longrightarrow> active st \<Longrightarrow> with_session \<sigma> (Some a) body = body a st"
  by (simp add: with_session_def d7_hamt_map_transient_active_state_def andthen_def lift_res_def)

lemma session_edit_active:
  assumes "\<sigma> a = Some st" "active st"
  shows "session_edit \<sigma> (Some a) e =
    andthen (map_edit e (session_map st)) (\<lambda>m. ret (\<sigma>(a \<mapsto> d7_hamt_map_transient_commit st m)))"
  by (cases e)
    (simp_all add: d7_hamt_map_transient_set_def d7_hamt_map_transient_add_def d7_hamt_map_transient_try_add_def
      d7_hamt_map_transient_remove_def d7_hamt_map_transient_try_remove_def d7_hamt_map_transient_clear_def
      with_session_active assms andthen_assoc andthen_ret case_prod_unfold)

lemma map_edit_safe:
  assumes pol: "hamt_policy (policy m) Rk Rv" and ok: "map_ok S t m"
  shows "safely E t (map_edit e m) (\<lambda>m' t'. policy m' = policy m \<and> map_grown S t' m')"
proof -
  have set: "safely E t (map_set_root m k v ov) (\<lambda>(added, m') t'. policy m' = policy m \<and> map_grown S t' m')" for k v ov
    by (rule safely_weaken [OF achieves_safely [OF map_set_root_spec [OF assms]]])
      (auto simp: map_bound_def intro: map_grownI [OF subset_refl])
  have rem: "safely E t (d7_hamt_map_try_remove (Some m) k True False)
      (\<lambda>(removed, v, m') t'. policy m' = policy m \<and> map_grown S t' m')" for k
    by (rule safely_weaken [OF achieves_safely [OF map_try_remove_spec [OF assms]]])
      (auto simp: map_removed_def intro: map_grownI [OF subset_refl])
  have clear: "map_grown S t m" "map_grown S t (m\<lparr>root := None, count := 0\<rparr>)"
    using ok unfolding map_grown_def map_ok_def map_nodes_def by (auto intro!: exI [of _ S])
  show ?thesis
    by (cases e)
      (auto simp: d7_hamt_map_set_def d7_hamt_map_add_def d7_hamt_map_try_add_def d7_hamt_map_remove_def d7_hamt_map_clear_def
        intro!: safely_andthen [OF set] safely_andthen [OF rem] safely_ret safely_fail clear)
qed

end
