(* ===== verification/Hamt_Session.thy ===== *)
theory Hamt_Session
  imports Hamt_Transient Hamt_Set_Properties
begin

text \<open>
  A client at work: it holds maps and session handles, and calls the library in any order. The state
  of such a client is a \<open>world\<close>; one call is a step of the relation \<open>session_step\<close>, which runs the
  operations of the model. The invariant \<open>world_ok\<close> says that every map the client holds is valid,
  that every handle points to a live session and that a session's reference count is the number of
  handles on it; it holds in every reachable world, so that no sequence of calls faults.
\<close>

record ('k, 'v) world =
  sessions :: "('k, 'v) store"
  handles :: "addr option list"
  maps :: "('k, 'v) d7_hamt_map list"
  clock :: nat

definition initial_world :: "('k, 'v) world" where
  "initial_world = \<lparr>sessions = (\<lambda>_. None), handles = [], maps = [], clock = 0\<rparr>"

inductive session_step ::
  "environment \<Rightarrow> ('k, 'v) d7_hamt_policy \<Rightarrow> ('k, 'v) world \<Rightarrow> ('k, 'v) world \<Rightarrow> bool"
  for E :: environment and p :: "('k, 'v) d7_hamt_policy" where
  new_map: "session_step E p w (w\<lparr>maps := d7_hamt_map_create_from p # maps w\<rparr>)"
| persistent_edit: "m \<in> set (maps w) \<Longrightarrow> map_edit e m E (clock w) = (Inr m', t') \<Longrightarrow>
    session_step E p w (w\<lparr>maps := m' # maps w, clock := t'\<rparr>)"
| persistent_refused: "m \<in> set (maps w) \<Longrightarrow> map_edit e m E (clock w) = (Inl err, t') \<Longrightarrow>
    session_step E p w (w\<lparr>clock := t'\<rparr>)"
| combined: "l \<in> set (maps w) \<Longrightarrow> r \<in> set (maps w) \<Longrightarrow>
    d7_hamt_map_combine (Some l) (Some r) op True E (clock w) = (Inr m', t') \<Longrightarrow>
    session_step E p w (w\<lparr>maps := m' # maps w, clock := t'\<rparr>)"
| combination_refused: "l \<in> set (maps w) \<Longrightarrow> r \<in> set (maps w) \<Longrightarrow>
    d7_hamt_map_combine (Some l) (Some r) op True E (clock w) = (Inl err, t') \<Longrightarrow>
    session_step E p w (w\<lparr>clock := t'\<rparr>)"
| discard: "i < length (maps w) \<Longrightarrow> d7_hamt_map_destroy (Some (maps w ! i)) = Some m \<Longrightarrow>
    session_step E p w (w\<lparr>maps := (maps w)[i := m]\<rparr>)"
| to_transient: "m \<in> set (maps w) \<Longrightarrow>
    d7_hamt_map_to_transient ptr (sessions w) (Some m) True E (clock w) = (Inr (\<sigma>', h), t') \<Longrightarrow>
    session_step E p w (w\<lparr>sessions := \<sigma>', handles := h # handles w, clock := t'\<rparr>)"
| clone: "h \<in> set (handles w) \<Longrightarrow>
    d7_hamt_map_transient_clone (sessions w) h True False E (clock w) = (Inr (\<sigma>', h'), t') \<Longrightarrow>
    session_step E p w (w\<lparr>sessions := \<sigma>', handles := h' # handles w, clock := t'\<rparr>)"
| destroy: "i < length (handles w) \<Longrightarrow>
    d7_hamt_map_transient_destroy (sessions w) (handles w ! i) = Inr (\<sigma>', h') \<Longrightarrow>
    session_step E p w (w\<lparr>sessions := \<sigma>', handles := (handles w)[i := h']\<rparr>)"
| edit: "h \<in> set (handles w) \<Longrightarrow> session_edit (sessions w) h e E (clock w) = (Inr \<sigma>', t') \<Longrightarrow>
    session_step E p w (w\<lparr>sessions := \<sigma>', clock := t'\<rparr>)"
| edit_refused: "h \<in> set (handles w) \<Longrightarrow> session_edit (sessions w) h e E (clock w) = (Inl err, t') \<Longrightarrow>
    session_step E p w (w\<lparr>clock := t'\<rparr>)"
| persist: "h \<in> set (handles w) \<Longrightarrow>
    d7_hamt_map_transient_persist (sessions w) h True E (clock w) = (Inr (\<sigma>', m), t') \<Longrightarrow>
    session_step E p w (w\<lparr>sessions := \<sigma>', maps := m # maps w, clock := t'\<rparr>)"

definition reachable :: "environment \<Rightarrow> ('k, 'v) d7_hamt_policy \<Rightarrow> ('k, 'v) world \<Rightarrow> bool" where
  "reachable E p w \<longleftrightarrow> (session_step E p)\<^sup>*\<^sup>* initial_world w"

section \<open>The invariant\<close>

definition map_valid ::
  "('k, 'v) d7_hamt_policy \<Rightarrow> ('k, 'v) d7_hamt_node set \<Rightarrow> nat \<Rightarrow> ('k, 'v) d7_hamt_map \<Rightarrow> bool" where
  "map_valid p S t m \<longleftrightarrow> policy m = p \<and> map_ok S t m"

definition session_ok ::
  "('k, 'v) d7_hamt_policy \<Rightarrow> ('k, 'v) d7_hamt_node set \<Rightarrow> nat \<Rightarrow> addr option list \<Rightarrow> addr
     \<Rightarrow> ('k, 'v) d7_hamt_map_transient_state \<Rightarrow> bool" where
  "session_ok p S t hs a st \<longleftrightarrow>
     a < t \<and> 0 < count_list hs (Some a) \<and> ref_count st = count_list hs (Some a) \<and>
     (active st \<longrightarrow> map_valid p S t (session_map st)) \<and>
     (\<not> active st \<longrightarrow> root (session_map st) = None \<and> count (session_map st) = 0)"

definition world_ok ::
  "('k, 'v) d7_hamt_policy \<Rightarrow> ('k, 'v) d7_hamt_node set \<Rightarrow> ('k, 'v) world \<Rightarrow> bool" where
  "world_ok p S w \<longleftrightarrow>
     heap S (clock w) \<and>
     (\<forall>m\<in>set (maps w). map_valid p S (clock w) m) \<and>
     (\<forall>a st. sessions w a = Some st \<longrightarrow> session_ok p S (clock w) (handles w) a st) \<and>
     (\<forall>a. Some a \<in> set (handles w) \<longrightarrow> sessions w a \<noteq> None)"

lemma map_valid_grow: "map_valid p S t m \<Longrightarrow> S \<subseteq> S' \<Longrightarrow> heap S' t' \<Longrightarrow> map_valid p S' t' m"
  using map_ok_mono unfolding map_valid_def by blast

lemma session_ok_grow:
  "session_ok p S t hs a st \<Longrightarrow> S \<subseteq> S' \<Longrightarrow> heap S' t' \<Longrightarrow> t \<le> t' \<Longrightarrow> session_ok p S' t' hs a st"
  using map_valid_grow unfolding session_ok_def by fastforce

lemma world_ok_grow:
  assumes "world_ok p S w" "S \<subseteq> S'" "heap S' t'" "clock w \<le> t'"
  shows "world_ok p S' (w\<lparr>clock := t'\<rparr>)"
proof -
  have "\<forall>m\<in>set (maps w). map_valid p S' t' m"
    using assms(1) map_valid_grow [OF _ assms(2,3)] unfolding world_ok_def by blast
  then show ?thesis
    using assms(1,3) session_ok_grow [OF _ assms(2-4)] unfolding world_ok_def by simp
qed

lemma world_ok_later: "world_ok p S w \<Longrightarrow> clock w \<le> t' \<Longrightarrow> world_ok p S (w\<lparr>clock := t'\<rparr>)"
  using world_ok_grow heap_later unfolding world_ok_def by blast

lemma map_grown_valid:
  assumes "map_grown S t m" "policy m = p"
  obtains S' where "S \<subseteq> S'" "heap S' t" "map_valid p S' t m"
  using assms unfolding map_grown_def map_valid_def map_ok_def by blast

lemma commit_simps [simp]:
  "ref_count (d7_hamt_map_transient_commit st m) = ref_count st"
  "active (d7_hamt_map_transient_commit st m) = active st"
  "session_map (d7_hamt_map_transient_commit st m) = m"
  by (simp_all add: d7_hamt_map_transient_commit_def Let_def)

text \<open>Replacing one session.\<close>

lemma world_ok_session:
  assumes "world_ok p S w" "sessions w a = Some st" "ref_count st' = ref_count st"
    and "active st' \<Longrightarrow> map_valid p S (clock w) (session_map st')"
    and "\<not> active st' \<Longrightarrow> root (session_map st') = None \<and> count (session_map st') = 0"
  shows "world_ok p S (w\<lparr>sessions := (sessions w)(a \<mapsto> st')\<rparr>)"
proof -
  have "session_ok p S (clock w) (handles w) a st" using assms(1,2) by (simp add: world_ok_def)
  then have "session_ok p S (clock w) (handles w) a st'" using assms(3-5) by (simp add: session_ok_def)
  then show ?thesis using assms(1) unfolding world_ok_def by simp
qed

lemma world_ok_map:
  "world_ok p S w \<Longrightarrow> map_valid p S (clock w) m \<Longrightarrow> world_ok p S (w\<lparr>maps := m # maps w\<rparr>)"
  unfolding world_ok_def by simp

lemma handle_session:
  assumes "world_ok p S w" "Some a \<in> set (handles w)"
  obtains st where "sessions w a = Some st" "session_ok p S (clock w) (handles w) a st"
  using assms unfolding world_ok_def by blast

lemma session_edit_Inr:
  assumes "session_edit \<sigma> h e E t = (Inr \<sigma>', t')"
  obtains a st m where "h = Some a" "\<sigma> a = Some st" "active st" "map_edit e (session_map st) E t = (Inr m, t')"
    "\<sigma>' = \<sigma>(a \<mapsto> d7_hamt_map_transient_commit st m)"
proof -
  obtain a st where a: "h = Some a" "\<sigma> a = Some st" "active st"
    using assms
    by (cases e; cases h; auto simp: d7_hamt_map_transient_set_def d7_hamt_map_transient_add_def d7_hamt_map_transient_try_add_def
        d7_hamt_map_transient_remove_def d7_hamt_map_transient_try_remove_def d7_hamt_map_transient_clear_def
        with_session_def d7_hamt_map_transient_active_state_def andthen_def lift_res_def split: option.splits if_splits)
  then have "andthen (map_edit e (session_map st)) (\<lambda>m. ret (\<sigma>(a \<mapsto> d7_hamt_map_transient_commit st m))) E t = (Inr \<sigma>', t')"
    using assms session_edit_active by metis
  then show thesis using that [OF a] by (auto simp: andthen_def ret_def split: prod.splits sum.splits)
qed

lemma count_list_update:
  assumes "i < length xs"
  shows "count_list (xs[i := y]) x + (if xs ! i = x then 1 else 0) = count_list xs x + (if y = x then 1 else 0)"
  using assms
proof (induction xs arbitrary: i)
  case (Cons z zs)
  show ?case
  proof (cases i)
    case (Suc j)
    then show ?thesis using Cons.IH [of j] Cons.prems by (auto split: if_splits)
  qed simp
qed simp

section \<open>Every call keeps it\<close>

lemma to_transient_ok:
  assumes ok: "world_ok p S w" and m: "map_valid p S (clock w) m"
    and run: "d7_hamt_map_to_transient ptr (sessions w) (Some m) True E (clock w) = (Inr (\<sigma>', h), t')"
  shows "world_ok p S (w\<lparr>sessions := \<sigma>', handles := h # handles w, clock := t'\<rparr>)"
proof -
  let ?st = "\<lparr>ref_count = 1, version = 0, active = True, session_map = m\<rparr>" and ?a = "clock w"
  have r: "\<sigma>' = (sessions w)(?a \<mapsto> ?st)" "h = Some ?a" "t' = Suc ?a"
    using run by (auto simp: d7_hamt_map_to_transient_def d7_hamt_map_clone_def act_simps split: if_splits)
  have fresh: "sessions w ?a = None" using ok by (cases "sessions w ?a") (auto simp: world_ok_def session_ok_def)
  then have "Some ?a \<notin> set (handles w)" using ok by (auto simp: world_ok_def)
  then have new: "session_ok p S t' (h # handles w) ?a ?st"
    using m map_valid_grow [OF m subset_refl, of t'] heap_later [of S ?a t'] ok
    by (simp add: session_ok_def r count_notin world_ok_def)
  have later: "world_ok p S (w\<lparr>clock := t'\<rparr>)" using ok by (rule world_ok_later) (simp add: r)
  then have "session_ok p S t' (h # handles w) a st" if "sessions w a = Some st" "a \<noteq> ?a" for a st
    using that by (simp add: world_ok_def session_ok_def r)
  then show ?thesis using later new unfolding world_ok_def by (simp add: r)
qed

lemma clone_ok:
  assumes ok: "world_ok p S w" and run: "d7_hamt_map_transient_clone (sessions w) h True False E (clock w) = (Inr (\<sigma>', h'), t')"
  shows "world_ok p S (w\<lparr>sessions := \<sigma>', handles := h' # handles w, clock := t'\<rparr>)"
proof -
  obtain a st where r: "h' = Some a" "sessions w a = Some st" "t' = clock w"
      "\<sigma>' = (sessions w)(a \<mapsto> st\<lparr>ref_count := ref_count st + 1\<rparr>)"
    using run
    by (auto simp: d7_hamt_map_transient_clone_def with_session_def with_output_def d7_hamt_map_transient_active_state_def
        act_simps split: option.splits if_splits)
  have "session_ok p S t' (h' # handles w) b st'" if "\<sigma>' b = Some st'" for b st'
    using that ok r by (auto simp: world_ok_def session_ok_def split: if_splits)
  then show ?thesis using ok unfolding world_ok_def by (simp add: r)
qed

lemma destroy_ok:
  assumes ok: "world_ok p S w" and i: "i < length (handles w)"
    and run: "d7_hamt_map_transient_destroy (sessions w) (handles w ! i) = Inr (\<sigma>', h')"
  shows "world_ok p S (w\<lparr>sessions := \<sigma>', handles := (handles w)[i := h']\<rparr>)"
proof (cases "handles w ! i")
  case None
  then have "\<sigma>' = sessions w" "h' = handles w ! i" using run by (simp_all add: d7_hamt_map_transient_destroy_def)
  then show ?thesis using ok by simp
next
  case (Some a)
  have h': "h' = None" using run Some by (auto simp: d7_hamt_map_transient_destroy_def split: option.splits if_splits)
  note cnt = count_list_update [OF i, of h']
  have other: "count_list ((handles w)[i := h']) (Some b) = count_list (handles w) (Some b)" if "b \<noteq> a" for b
    using cnt [of "Some b"] that Some h' by simp
  have same: "count_list ((handles w)[i := h']) (Some a) + 1 = count_list (handles w) (Some a)"
    using cnt [of "Some a"] Some h' by simp
  have "Some a \<in> set (handles w)" using Some i by (metis nth_mem)
  from ok this obtain st where st: "sessions w a = Some st" "session_ok p S (clock w) (handles w) a st"
    by (rule handle_session)
  show ?thesis
  proof (cases "ref_count st = 1")
    case True
    then have "\<sigma>' = (sessions w)(a := None)"
      using run Some st by (auto simp: d7_hamt_map_transient_destroy_def)
    moreover have "count_list ((handles w)[i := h']) (Some a) = 0" using same st(2) True by (simp add: session_ok_def)
    then have "Some a \<notin> set ((handles w)[i := h'])" by (simp add: count_list_0_iff)
    ultimately show ?thesis
      using ok other set_update_subset_insert [of "handles w" i h'] h' unfolding world_ok_def session_ok_def by auto
  next
    case False
    then have "\<sigma>' = (sessions w)(a \<mapsto> st\<lparr>ref_count := ref_count st - 1\<rparr>)"
      using run Some st by (auto simp: d7_hamt_map_transient_destroy_def session_ok_def)
    then show ?thesis
      using ok other same st False set_update_subset_insert [of "handles w" i h'] h'
      unfolding world_ok_def session_ok_def by auto
  qed
qed

lemma edit_ok:
  assumes pol: "hamt_policy p Rk Rv" and ok: "world_ok p S w"
    and run: "session_edit (sessions w) h e E (clock w) = (Inr \<sigma>', t')"
  shows "\<exists>S'. world_ok p S' (w\<lparr>sessions := \<sigma>', clock := t'\<rparr>)"
proof -
  from run obtain a st m where a: "sessions w a = Some st" "active st"
    and m: "map_edit e (session_map st) E (clock w) = (Inr m, t')" and \<sigma>': "\<sigma>' = (sessions w)(a \<mapsto> d7_hamt_map_transient_commit st m)"
    by (rule session_edit_Inr)
  have v: "policy (session_map st) = p" "map_ok S (clock w) (session_map st)"
    using ok a by (auto simp: world_ok_def session_ok_def map_valid_def)
  then have "hamt_policy (policy (session_map st)) Rk Rv" using pol by simp
  from safely_result [OF map_edit_safe [OF this v(2)] m]
  have t': "clock w \<le> t'" and "map_grown S t' m" "policy m = p" using v(1) by simp_all
  then obtain S' where S': "S \<subseteq> S'" "heap S' t'" "map_valid p S' t' m" using map_grown_valid by blast
  have "world_ok p S' (w\<lparr>clock := t'\<rparr>)" using ok S'(1,2) t' by (rule world_ok_grow)
  then have "world_ok p S' (w\<lparr>clock := t'\<rparr>\<lparr>sessions := (sessions w)(a \<mapsto> d7_hamt_map_transient_commit st m)\<rparr>)"
    using world_ok_session [of p S' "w\<lparr>clock := t'\<rparr>" a st "d7_hamt_map_transient_commit st m"] a S'(3) by simp
  then show ?thesis unfolding \<sigma>' by (cases w) auto
qed

lemma persist_ok:
  assumes ok: "world_ok p S w" and run: "d7_hamt_map_transient_persist (sessions w) h True E (clock w) = (Inr (\<sigma>', m), t')"
  shows "world_ok p S (w\<lparr>sessions := \<sigma>', maps := m # maps w, clock := t'\<rparr>)"
proof -
  obtain a st where r: "sessions w a = Some st" "active st" "t' = clock w" "m = session_map st"
      "\<sigma>' = (sessions w)(a \<mapsto> st\<lparr>session_map := (session_map st)\<lparr>root := None, count := 0\<rparr>, active := False, version := version st + 1\<rparr>)"
    using run
    by (auto simp: d7_hamt_map_transient_persist_def with_session_def with_output_def d7_hamt_map_transient_active_state_def
        act_simps split: option.splits if_splits)
  have "map_valid p S (clock w) m" using ok r by (simp add: world_ok_def session_ok_def)
  from world_ok_map [OF ok this]
  have "world_ok p S (w\<lparr>maps := m # maps w\<rparr>\<lparr>sessions := (sessions (w\<lparr>maps := m # maps w\<rparr>))(a \<mapsto> st\<lparr>session_map :=
      (session_map st)\<lparr>root := None, count := 0\<rparr>, active := False, version := version st + 1\<rparr>)\<rparr>)"
    by (rule world_ok_session) (use r in simp_all)
  then show ?thesis by (cases w) (simp add: r(3,5))
qed

text \<open>A call that returns a new map.\<close>

definition makes_map ::
  "environment \<Rightarrow> ('k, 'v) d7_hamt_policy \<Rightarrow> ('k, 'v) d7_hamt_node set \<Rightarrow> nat \<Rightarrow> ('k, 'v) d7_hamt_map act \<Rightarrow> bool" where
  "makes_map E p S t f \<longleftrightarrow> safely E t f (\<lambda>m' t'. policy m' = p \<and> map_grown S t' m')"

lemma makes_map_edit:
  "hamt_policy p Rk Rv \<Longrightarrow> map_valid p S t m \<Longrightarrow> makes_map E p S t (map_edit e m)"
  using map_edit_safe [of m Rk Rv S t E e] by (auto simp: makes_map_def map_valid_def)

lemma makes_map_combine:
  assumes "hamt_policy p Rk Rv" "map_valid p S t l" "map_valid p S t r"
  shows "makes_map E p S t (d7_hamt_map_combine (Some l) (Some r) op True)"
  unfolding makes_map_def
  by (rule safely_weaken [OF achieves_safely [OF hamt_policy.map_combine_spec [OF assms(1)]]])
    (use assms(2,3) in \<open>auto simp: map_valid_def map_combined_def\<close>)



lemma makes_map_ok:
  assumes ok: "world_ok p S w" and f: "makes_map E p S (clock w) f" and run: "f E (clock w) = (Inr m', t')"
  shows "\<exists>S'. world_ok p S' (w\<lparr>maps := m' # maps w, clock := t'\<rparr>)"
proof -
  from safely_result [OF f [unfolded makes_map_def] run]
  have t': "clock w \<le> t'" and "map_grown S t' m'" "policy m' = p" by simp_all
  then obtain S' where S': "S \<subseteq> S'" "heap S' t'" "map_valid p S' t' m'" using map_grown_valid by blast
  have "world_ok p S' (w\<lparr>clock := t'\<rparr>)" using ok S'(1,2) t' by (rule world_ok_grow)
  from world_ok_map [OF this, of m'] S'(3) show ?thesis by (cases w) auto
qed

lemma makes_map_refused:
  assumes "world_ok p S w" "makes_map E p S (clock w) f" "f E (clock w) = (Inl err, t')"
  shows "world_ok p S (w\<lparr>clock := t'\<rparr>)"
  using world_ok_later [OF assms(1)] safely_time [OF assms(2) [unfolded makes_map_def] assms(3)] by blast

lemma discard_ok:
  assumes ok: "world_ok p S w" and i: "i < length (maps w)" and m: "d7_hamt_map_destroy (Some (maps w ! i)) = Some m"
  shows "world_ok p S (w\<lparr>maps := (maps w)[i := m]\<rparr>)"
proof -
  have "map_valid p S (clock w) (maps w ! i)" and "heap S (clock w)" using ok i by (simp_all add: world_ok_def)
  then have "map_valid p S (clock w) m" using m by (auto simp: map_valid_def d7_hamt_map_destroy_def map_ok_def map_nodes_def)
  then show ?thesis using ok set_update_subset_insert [of "maps w" i m] unfolding world_ok_def by auto
qed

lemma map_edit_time:
  assumes "hamt_policy p Rk Rv" "map_valid p S t m" "map_edit e m E t = (r, t')"
  shows "t \<le> t' \<and> r \<noteq> Inl Fault"
  using assms(2) safely_time [OF map_edit_safe assms(3)] assms(1) by (auto simp: map_valid_def)

lemma session_edit_time:
  assumes pol: "hamt_policy p Rk Rv" and ok: "world_ok p S w" and h: "h \<in> set (handles w)"
    and run: "session_edit (sessions w) h e E (clock w) = (r, t')"
  shows "clock w \<le> t' \<and> r \<noteq> Inl Fault"
proof (cases h)
  case None
  then show ?thesis
    using run
    by (cases e) (auto simp: d7_hamt_map_transient_set_def d7_hamt_map_transient_add_def d7_hamt_map_transient_try_add_def
        d7_hamt_map_transient_remove_def d7_hamt_map_transient_try_remove_def d7_hamt_map_transient_clear_def
        with_session_def d7_hamt_map_transient_active_state_def andthen_def lift_res_def)
next
  case (Some a)
  with h have "Some a \<in> set (handles w)" by simp
  from ok this obtain st where st: "sessions w a = Some st" "session_ok p S (clock w) (handles w) a st"
    by (rule handle_session)
  show ?thesis
  proof (cases "active st")
    case True
    then have v: "map_valid p S (clock w) (session_map st)" using st by (simp add: session_ok_def)
    have "andthen (map_edit e (session_map st)) (\<lambda>m. ret ((sessions w)(a \<mapsto> d7_hamt_map_transient_commit st m))) E (clock w) = (r, t')"
      using run Some session_edit_active [of "sessions w" a st e] st(1) True by simp
    then show ?thesis
      using map_edit_time [OF pol v] by (auto simp: andthen_def ret_def split: prod.splits sum.splits)
  next
    case False
    then show ?thesis
      using run Some st(1)
      by (cases e) (auto simp: d7_hamt_map_transient_set_def d7_hamt_map_transient_add_def d7_hamt_map_transient_try_add_def
          d7_hamt_map_transient_remove_def d7_hamt_map_transient_try_remove_def d7_hamt_map_transient_clear_def
          with_session_def d7_hamt_map_transient_active_state_def andthen_def lift_res_def)
  qed
qed

lemma step_ok:
  assumes "session_step E p w w'" "hamt_policy p Rk Rv" "world_ok p S w"
  shows "\<exists>S'. world_ok p S' w'"
  using assms
proof (induction rule: session_step.induct)
  case (new_map w)
  have "map_valid p S (clock w) (d7_hamt_map_create_from p)"
    using new_map.prems(2) map_create_ok [of S "clock w" p] by (simp add: map_valid_def world_ok_def d7_hamt_map_create_from_def)
  then show ?case using world_ok_map new_map.prems(2) by blast
next
  case (persistent_edit m w e m' t')
  then have "map_valid p S (clock w) m" by (simp add: world_ok_def)
  then show ?case using makes_map_ok makes_map_edit persistent_edit by blast
next
  case (persistent_refused m w e err t')
  then have "map_valid p S (clock w) m" by (simp add: world_ok_def)
  then show ?case using makes_map_refused makes_map_edit persistent_refused by blast
next
  case (combined l w r op m' t')
  then have "map_valid p S (clock w) l" "map_valid p S (clock w) r" by (simp_all add: world_ok_def)
  then show ?case using makes_map_ok makes_map_combine combined by blast
next
  case (combination_refused l w r op err t')
  then have "map_valid p S (clock w) l" "map_valid p S (clock w) r" by (simp_all add: world_ok_def)
  then show ?case using makes_map_refused makes_map_combine combination_refused by blast
next
  case (discard i w m)
  then show ?case using discard_ok by blast
next
  case (to_transient m w ptr \<sigma>' h t')
  then have "map_valid p S (clock w) m" by (simp add: world_ok_def)
  then show ?case using to_transient_ok to_transient by blast
next
  case (clone h w \<sigma>' h' t')
  then show ?case using clone_ok by blast
next
  case (destroy i w \<sigma>' h')
  then show ?case using destroy_ok by blast
next
  case (edit h w e \<sigma>' t')
  then show ?case using edit_ok by blast
next
  case (edit_refused h w e err t')
  then show ?case using session_edit_time world_ok_later by blast
next
  case (persist h w \<sigma>' m t')
  then show ?case using persist_ok by blast
qed

lemma initial_ok: "world_ok p {} initial_world"
  by (simp add: world_ok_def initial_world_def heap_def)

lemma reachable_ok:
  assumes "reachable E p w" "hamt_policy p Rk Rv"
  shows "\<exists>S. world_ok p S w"
  using assms(1) unfolding reachable_def
proof (induction rule: rtranclp_induct)
  case base
  show ?case using initial_ok by blast
next
  case (step w w')
  then show ?case using step_ok [OF _ assms(2)] by blast
qed

section \<open>A world for the witnesses\<close>

definition example_session :: "(64 word, 64 word) d7_hamt_map_transient_state" where
  "example_session = \<lparr>ref_count = 1, version = 0, active = True, session_map = d7_hamt_map_create_from pointer_policy\<rparr>"

definition example_world :: "(64 word, 64 word) world" where
  "example_world =
     \<lparr>sessions = [0 \<mapsto> example_session], handles = [Some 0], maps = [d7_hamt_map_create_from pointer_policy], clock = 1\<rparr>"

lemma example_reachable: "reachable (\<lambda>_. True) pointer_policy example_world"
proof -
  let ?w = "initial_world\<lparr>maps := d7_hamt_map_create_from pointer_policy # maps initial_world\<rparr> :: (64 word, 64 word) world"
  have "session_step (\<lambda>_. True) pointer_policy ?w
      (?w\<lparr>sessions := [0 \<mapsto> example_session], handles := Some 0 # handles ?w, clock := 1\<rparr>)"
    by (rule session_step.to_transient [where ptr = id and m = "d7_hamt_map_create_from pointer_policy"])
      (simp_all add: initial_world_def d7_hamt_map_to_transient_def d7_hamt_map_clone_def act_simps example_session_def)
  moreover have "?w\<lparr>sessions := [0 \<mapsto> example_session], handles := Some 0 # handles ?w, clock := 1\<rparr> = example_world"
    by (simp add: initial_world_def example_world_def)
  ultimately have "(session_step (\<lambda>_. True) pointer_policy)\<^sup>*\<^sup>* ?w example_world" by auto
  moreover have "session_step (\<lambda>_. True) pointer_policy initial_world ?w" by (rule session_step.new_map)
  ultimately show ?thesis
    unfolding reachable_def by (metis (no_types) converse_rtranclp_into_rtranclp)
qed

section \<open>Properties\<close>

text \<open>C8: in every world a client can reach, every map it holds or published is well formed, and the
  reference count of every session is exactly the number of handles on it, never zero.\<close>

theorem reachable_invariant:
  assumes "reachable E p w" and "hamt_policy p Rk Rv"
  shows "\<exists>S. (\<forall>m\<in>set (maps w). policy m = p \<and> map_ok S (clock w) m) \<and>
    (\<forall>a st. sessions w a = Some st \<longrightarrow>
       ref_count st = count_list (handles w) (Some a) \<and> 0 < ref_count st \<and>
       (active st \<longrightarrow> policy (session_map st) = p \<and> map_ok S (clock w) (session_map st)))"
proof -
  obtain S where "world_ok p S w" using reachable_ok [OF assms] by blast
  then show ?thesis by (intro exI [of _ S]) (simp add: world_ok_def session_ok_def map_valid_def)
qed

theorem reachable_invariant_witness:
  "\<exists>S. (\<forall>m\<in>set (maps example_world). policy m = pointer_policy \<and> map_ok S (clock example_world) m) \<and>
    (\<forall>a st. sessions example_world a = Some st \<longrightarrow>
       ref_count st = count_list (handles example_world) (Some a) \<and> 0 < ref_count st \<and>
       (active st \<longrightarrow> policy (session_map st) = pointer_policy \<and> map_ok S (clock example_world) (session_map st)))"
  by (rule reachable_invariant [OF example_reachable pointer_policy_ok])





lemma inactive_step:
  assumes "session_step E p w w'" "\<And>st. sessions w a = Some st \<Longrightarrow> \<not> active st" "a < clock w" "hamt_policy p Rk Rv" "world_ok p S w"
  shows "(\<forall>st. sessions w' a = Some st \<longrightarrow> \<not> active st) \<and> a < clock w'"
  using assms
proof (induction rule: session_step.induct)
  case (persistent_edit m w e m' t')
  then have "map_valid p S (clock w) m" by (simp add: world_ok_def)
  then show ?case using map_edit_time [OF persistent_edit.prems(3) _ persistent_edit.hyps(2)] persistent_edit.prems by fastforce
next
  case (persistent_refused m w e err t')
  then have "map_valid p S (clock w) m" by (simp add: world_ok_def)
  then show ?case using map_edit_time [OF persistent_refused.prems(3) _ persistent_refused.hyps(2)] persistent_refused.prems by fastforce
next
  case (combined l w r op m' t')
  then have "map_valid p S (clock w) l" "map_valid p S (clock w) r" by (simp_all add: world_ok_def)
  then have "clock w \<le> t'"
    using safely_time [OF makes_map_combine [OF combined.prems(3), unfolded makes_map_def] combined.hyps(3)] by blast
  then show ?case using combined.prems by simp
next
  case (combination_refused l w r op err t')
  then have "map_valid p S (clock w) l" "map_valid p S (clock w) r" by (simp_all add: world_ok_def)
  then have "clock w \<le> t'"
    using safely_time [OF makes_map_combine [OF combination_refused.prems(3), unfolded makes_map_def] combination_refused.hyps(3)] by blast
  then show ?case using combination_refused.prems by simp
next
  case (edit h w e \<sigma>' t')
  have "clock w \<le> t'" using session_edit_time [OF edit.prems(3,4) edit.hyps] by simp
  moreover from edit.hyps(2) obtain b st m where "sessions w b = Some st" "active st"
      "\<sigma>' = (sessions w)(b \<mapsto> d7_hamt_map_transient_commit st m)" by (rule session_edit_Inr)
  ultimately show ?case using edit.prems by auto
next
  case (edit_refused h w e err t')
  then show ?case using session_edit_time [OF edit_refused.prems(3,4) edit_refused.hyps] by fastforce
qed (auto simp: d7_hamt_map_to_transient_def d7_hamt_map_transient_clone_def d7_hamt_map_transient_persist_def
    d7_hamt_map_transient_destroy_def with_session_def with_output_def d7_hamt_map_transient_active_state_def act_simps
    split: option.splits if_splits)

lemma consumed_run:
  "\<sigma> a = Some st \<Longrightarrow> \<not> active st \<Longrightarrow> with_session \<sigma> (Some a) body E t = (Inl (Status D7_HAMT_TRANSIENT_CONSUMED), t)"
  by (simp add: with_session_def d7_hamt_map_transient_active_state_def andthen_def lift_res_def)

text \<open>C36: publishing is final. Once a session has been consumed, no sequence of calls makes it active again: as long as it
  lives, every call through a handle on it that reports a status (each edit and each read, the policy, an iterator opened now
  or before, clone and publication) returns \<open>D7_HAMT_TRANSIENT_CONSUMED\<close>, makes no memory request and leaves the session
  alone; and it is reported as inactive, without a root.\<close>

theorem consumed_forever:
  assumes "hamt_policy p Rk Rv" and "reachable E p w" and "sessions w a = Some st" and "\<not> active st"
    and "(session_step E p)\<^sup>*\<^sup>* w w'" and "sessions w' a = Some st'"
  shows "\<not> active st' \<and>
    session_edit (sessions w') (Some a) e E t = (Inl (Status D7_HAMT_TRANSIENT_CONSUMED), t) \<and>
    d7_hamt_map_transient_clone (sessions w') (Some a) result aliased E t = (Inl (Status D7_HAMT_TRANSIENT_CONSUMED), t) \<and>
    d7_hamt_map_transient_persist (sessions w') (Some a) result E t = (Inl (Status D7_HAMT_TRANSIENT_CONSUMED), t) \<and>
    d7_hamt_map_transient_get_policy (sessions w') (Some a) result E t = (Inl (Status D7_HAMT_TRANSIENT_CONSUMED), t) \<and>
    d7_hamt_map_transient_count (sessions w') (Some a) result E t = (Inl (Status D7_HAMT_TRANSIENT_CONSUMED), t) \<and>
    d7_hamt_map_transient_contains_key (sessions w') (Some a) k result E t = (Inl (Status D7_HAMT_TRANSIENT_CONSUMED), t) \<and>
    d7_hamt_map_transient_try_get (sessions w') (Some a) k result E t = (Inl (Status D7_HAMT_TRANSIENT_CONSUMED), t) \<and>
    d7_hamt_map_transient_try_get_key (sessions w') (Some a) k result E t = (Inl (Status D7_HAMT_TRANSIENT_CONSUMED), t) \<and>
    d7_hamt_map_transient_iterator_init (sessions w') (Some a) result E t = (Inl (Status D7_HAMT_TRANSIENT_CONSUMED), t) \<and>
    (iter_state it = Some a \<longrightarrow>
       d7_hamt_map_transient_iterator_next (sessions w') (Some it) True = Inl (Status D7_HAMT_TRANSIENT_CONSUMED)) \<and>
    d7_hamt_map_transient_is_active (sessions w') (Some a) = Inr False \<and>
    d7_hamt_map_transient_debug_root_identity (sessions w') (Some a) = Inr None"
proof -
  have "(\<forall>st. sessions w' a = Some st \<longrightarrow> \<not> active st) \<and> a < clock w' \<and> reachable E p w'"
    using assms(5)
  proof (induction rule: rtranclp_induct)
    case base
    obtain S where "world_ok p S w" using reachable_ok [OF assms(2,1)] by blast
    then show ?case using assms(2-4) by (auto simp: world_ok_def session_ok_def)
  next
    case (step w1 w2)
    obtain S where "world_ok p S w1" using reachable_ok [of E p w1] step.IH assms(1) by blast
    moreover have "reachable E p w2"
      using step by (auto simp: reachable_def intro: rtranclp.rtrancl_into_rtrancl)
    ultimately show ?case using inactive_step [OF step.hyps(2) _ _ assms(1)] step.IH by blast
  qed
  then have n: "\<not> active st'" using assms(6) by blast
  note run = consumed_run [of "sessions w'" a st', OF assms(6) n]
  have "session_edit (sessions w') (Some a) e E t = (Inl (Status D7_HAMT_TRANSIENT_CONSUMED), t)"
    by (cases e) (simp_all add: run d7_hamt_map_transient_set_def d7_hamt_map_transient_add_def d7_hamt_map_transient_try_add_def
        d7_hamt_map_transient_remove_def d7_hamt_map_transient_try_remove_def d7_hamt_map_transient_clear_def andthen_def)
  moreover have "d7_hamt_map_transient_is_active (sessions w') (Some a) = Inr False"
    using assms(6) n by (simp add: d7_hamt_map_transient_is_active_def)
  ultimately show ?thesis
    using n assms(6)
    by (simp add: run d7_hamt_map_transient_clone_def d7_hamt_map_transient_persist_def d7_hamt_map_transient_get_policy_def
        d7_hamt_map_transient_count_def d7_hamt_map_transient_contains_key_def d7_hamt_map_transient_try_get_def
        d7_hamt_map_transient_try_get_key_def d7_hamt_map_transient_iterator_init_def d7_hamt_map_transient_iterator_next_def
        d7_hamt_map_transient_debug_root_identity_def map_found_def)
qed

definition consumed_session :: "(64 word, 64 word) d7_hamt_map_transient_state" where
  "consumed_session = example_session\<lparr>session_map := d7_hamt_map_create_from pointer_policy, active := False, version := 1\<rparr>"

definition consumed_world :: "(64 word, 64 word) world" where
  "consumed_world = example_world\<lparr>sessions := [0 \<mapsto> consumed_session],
     maps := d7_hamt_map_create_from pointer_policy # maps example_world\<rparr>"

lemma consumed_reachable: "reachable (\<lambda>_. True) pointer_policy consumed_world"
proof -
  have "session_step (\<lambda>_. True) pointer_policy example_world
      (example_world\<lparr>sessions := [0 \<mapsto> consumed_session], maps := d7_hamt_map_create_from pointer_policy # maps example_world,
        clock := clock example_world\<rparr>)"
    by (rule session_step.persist [where h = "Some 0"])
      (simp_all add: example_world_def example_session_def consumed_session_def d7_hamt_map_transient_persist_def with_session_def
        with_output_def d7_hamt_map_transient_active_state_def act_simps d7_hamt_map_create_from_def)
  then have "session_step (\<lambda>_. True) pointer_policy example_world consumed_world" by (simp add: consumed_world_def)
  then show ?thesis
    using example_reachable unfolding reachable_def by (simp add: rtranclp.rtrancl_into_rtrancl)
qed

theorem consumed_forever_witness:
  "session_edit (sessions consumed_world) (Some 0) (Remove_Edit 5) (\<lambda>_. True) 1 =
     (Inl (Status D7_HAMT_TRANSIENT_CONSUMED), 1)"
  using consumed_forever [OF pointer_policy_ok consumed_reachable, of 0 consumed_session consumed_world consumed_session "Remove_Edit 5" 1]
  by (simp add: consumed_world_def consumed_session_def)

text \<open>C6: editing through a session and publishing it is, memory request by memory request, the run of the
  persistent operations one after the other on the map the session was opened on: the same failures,
  the same result.\<close>

theorem session_refines_map:
  assumes "\<sigma> a = Some st" and "active st"
  shows "andthen (fold_act (\<lambda>\<sigma> e. session_edit \<sigma> (Some a) e) \<sigma> es) (\<lambda>\<sigma>'.
           andthen (d7_hamt_map_transient_persist \<sigma>' (Some a) True) (\<lambda>(\<sigma>'', published). ret published)) =
         fold_act (\<lambda>m e. map_edit e m) (session_map st) es"
  using assms
proof (induction es arbitrary: \<sigma> st)
  case Nil
  then show ?case
    by (simp add: andthen_ret d7_hamt_map_transient_persist_def with_session_active with_output_def)
next
  case (Cons e es)
  have "andthen (fold_act (\<lambda>\<sigma> e. session_edit \<sigma> (Some a) e) (\<sigma>(a \<mapsto> d7_hamt_map_transient_commit st m)) es) (\<lambda>\<sigma>'.
      andthen (d7_hamt_map_transient_persist \<sigma>' (Some a) True) (\<lambda>(\<sigma>'', published). ret published)) =
      fold_act (\<lambda>m e. map_edit e m) (session_map (d7_hamt_map_transient_commit st m)) es" for m
    by (rule Cons.IH) (simp_all add: Cons.prems(2))
  then show ?case
    by (simp add: session_edit_active [of \<sigma> a st e, OF Cons.prems] andthen_assoc andthen_ret)
qed

theorem session_refines_map_witness:
  "andthen (fold_act (\<lambda>\<sigma> e. session_edit \<sigma> (Some 0) e) (sessions example_world) [Set_Edit 5 7, Add_Edit 5 8]) (\<lambda>\<sigma>'.
     andthen (d7_hamt_map_transient_persist \<sigma>' (Some 0) True) (\<lambda>(\<sigma>'', published). ret published)) =
   fold_act (\<lambda>m e. map_edit e m) (session_map example_session) [Set_Edit 5 7, Add_Edit 5 8]"
  using session_refines_map [of "sessions example_world" 0 example_session "[Set_Edit 5 7, Add_Edit 5 8]"]
  by (simp add: example_world_def example_session_def)

section \<open>Iterators\<close>

text \<open>The number of commits in a sequence that change the root.\<close>

fun changes :: "('k, 'v) d7_hamt_map_transient_state \<Rightarrow> ('k, 'v) d7_hamt_map list \<Rightarrow> nat" where
  "changes st [] = 0"
| "changes st (m # ms) =
     (if same_ptr (root (session_map st)) (root m) then 0 else 1) + changes (d7_hamt_map_transient_commit st m) ms"

fun commits ::
  "('k, 'v) d7_hamt_map_transient_state \<Rightarrow> ('k, 'v) d7_hamt_map list \<Rightarrow> ('k, 'v) d7_hamt_map_transient_state" where
  "commits st [] = st"
| "commits st (m # ms) = commits (d7_hamt_map_transient_commit st m) ms"

lemma commits_version: "version (commits st ms) = version st + of_nat (changes st ms)"
  by (induction ms arbitrary: st) (simp_all add: d7_hamt_map_transient_commit_def Let_def)

lemma commits_active: "active (commits st ms) = active st"
  by (induction ms arbitrary: st) simp_all

text \<open>C37: an iterator over a session notices every change of the session: after any number of edits of which
  at least one and fewer than 2 to the 64 changed the map, the next call returns
  \<open>D7_HAMT_TRANSIENT_MODIFIED\<close>, although the version counter wraps around; while no edit changed the map,
  it goes on as the iterator of the map does.\<close>

theorem iterator_detects_changes:
  assumes "\<sigma> a = Some st" and "active st" and "changes st ms < 2 ^ 64"
    and "d7_hamt_map_transient_iterator_init \<sigma> (Some a) True E t = (Inr it, t')"
    and "\<sigma>' a = Some (commits st ms)"
  shows "d7_hamt_map_transient_iterator_next \<sigma>' (Some it) True =
    (if changes st ms = 0 then map_found (\<lambda>(inner, x). (it\<lparr>iter_inner := inner\<rparr>, x)) (d7_hamt_map_iterator_next (iter_inner it))
     else Inl (Status D7_HAMT_TRANSIENT_MODIFIED))"
proof -
  have it: "iter_state it = Some a" "iter_version it = version st"
    using assms(4) unfolding d7_hamt_map_transient_iterator_init_def with_session_active [of \<sigma> a st, OF assms(1,2)]
    by (auto simp: with_output_def ret_def)
  have "(of_nat (changes st ms) :: 64 word) = 0 \<longleftrightarrow> changes st ms = 0"
    using assms(3) by (auto simp: word_of_nat_eq_0_iff dest: nat_dvd_not_less)
  then show ?thesis
    using assms(2,5) by (simp add: d7_hamt_map_transient_iterator_next_def it commits_version commits_active)
qed

theorem iterator_detects_changes_witness:
  "d7_hamt_map_transient_iterator_next [0 \<mapsto> commits example_session [single_map 3 5 7]]
     (Some \<lparr>iter_state = Some 0, iter_version = 0, iter_inner = d7_hamt_map_iterator_init (Some (session_map example_session))\<rparr>) True =
   Inl (Status D7_HAMT_TRANSIENT_MODIFIED)"
proof -
  have "changes example_session [single_map 3 5 7] = 1"
    by (simp add: example_session_def single_map_def d7_hamt_map_create_from_def same_ptr_def)
  then show ?thesis
    using iterator_detects_changes [of "[0 \<mapsto> example_session]" 0 example_session "[single_map 3 5 7]" "\<lambda>_. True" 0
        "\<lparr>iter_state = Some 0, iter_version = 0, iter_inner = d7_hamt_map_iterator_init (Some (session_map example_session))\<rparr>" 0
        "[0 \<mapsto> commits example_session [single_map 3 5 7]]"]
    by (simp add: example_session_def d7_hamt_map_transient_iterator_init_def with_session_def with_output_def
        d7_hamt_map_transient_active_state_def act_simps)
qed

end
