(* ===== verification/Patricia.thy ===== *)
theory Patricia
  imports Hamt_Policy Machine_Int
begin

text \<open>
  The persistent Patricia maps and sets of \<open>patricia.c\<close>: big-endian radix trees over 64-bit paths. A branch
  stores the bits its paths have in common above the bit that tells its children apart. The keys of the
  four public collections are signed integers of 32 or 64 bits; \<open>encode32\<close> and \<open>encode64\<close> turn them into paths. What the
  macros \<open>DEFINE_MAP\<close>, \<open>DEFINE_SET\<close> and \<open>DEFINE_MAP_CURSOR\<close> instantiate for each key type is one definition here, with
  the encoding as its first argument; 32-bit keys are sign-extended before.

  As for the hash map, a pointer to a node is the node with its address, a null pointer is \<open>None\<close>,
  and reference counts are left out.
\<close>

type_synonym u64 = "64 word"

section \<open>Value policies\<close>

record 'v d7_patricia_value_policy =
  val_equal :: "('v \<Rightarrow> 'v \<Rightarrow> nat \<Rightarrow> bool) callback"
  val_retain :: "('v \<Rightarrow> nat \<Rightarrow> nat \<Rightarrow> 'v option) callback"
  val_release :: "nat option"
  val_context :: nat

text \<open>The callbacks of the default policy have the addresses 30 and 31; a policy the caller writes may leave the
  callbacks null.\<close>

definition identity_equal :: "'v \<Rightarrow> 'v \<Rightarrow> nat \<Rightarrow> bool" where
  "identity_equal left right ctx \<longleftrightarrow> left = right"

definition identity_retain :: "'v \<Rightarrow> nat \<Rightarrow> nat \<Rightarrow> 'v option" where
  "identity_retain v ctx t = Some v"

record 'v patricia_policy_arg =
  arg_equal :: "('v \<Rightarrow> 'v \<Rightarrow> nat \<Rightarrow> bool) callback option"
  arg_retain :: "('v \<Rightarrow> nat \<Rightarrow> nat \<Rightarrow> 'v option) callback option"
  arg_release :: "nat option"
  arg_val_context :: nat

definition d7_patricia_value_policy_default :: "'v patricia_policy_arg" where
  "d7_patricia_value_policy_default =
     \<lparr>arg_equal = Some (Callback 30 identity_equal), arg_retain = Some (Callback 31 identity_retain),
      arg_release = None, arg_val_context = 0\<rparr>"

definition normalize_policy :: "'v patricia_policy_arg option \<Rightarrow> 'v d7_patricia_value_policy" where
  "normalize_policy pol =
     (let result = or_default pol d7_patricia_value_policy_default
      in \<lparr>val_equal = or_default (arg_equal result) (Callback 30 identity_equal),
          val_retain = or_default (arg_retain result) (Callback 31 identity_retain),
          val_release = arg_release result, val_context = arg_val_context result\<rparr>)"

definition values_same :: "'v d7_patricia_value_policy \<Rightarrow> 'v \<Rightarrow> 'v \<Rightarrow> bool" where
  "values_same p left right \<longleftrightarrow> fn (val_equal p) left right (val_context p)"

section \<open>Nodes\<close>

datatype 'v patricia_node =
    PATRICIA_LEAF addr u64 i64 'v
  | PATRICIA_BRANCH addr nat u64 u64 "'v patricia_node" "'v patricia_node"

fun pat_addr :: "'v patricia_node \<Rightarrow> addr" where
  "pat_addr (PATRICIA_LEAF a _ _ _) = a"
| "pat_addr (PATRICIA_BRANCH a _ _ _ _ _) = a"

fun pat_count :: "'v patricia_node \<Rightarrow> nat" where
  "pat_count (PATRICIA_LEAF _ _ _ _) = 1"
| "pat_count (PATRICIA_BRANCH _ n _ _ _ _) = n"

fun path_or_prefix :: "'v patricia_node \<Rightarrow> u64" where
  "path_or_prefix (PATRICIA_LEAF _ x _ _) = x"
| "path_or_prefix (PATRICIA_BRANCH _ _ x _ _ _) = x"

definition leaf_create :: "'v d7_patricia_value_policy \<Rightarrow> u64 \<Rightarrow> i64 \<Rightarrow> 'v \<Rightarrow> 'v patricia_node act" where
  "leaf_create p path key v =
     andthen (callback_or_oom (fn (val_retain p) v (val_context p))) (\<lambda>retained.
     andthen d7_hamt_allocate (\<lambda>a. ret (PATRICIA_LEAF a path key retained)))"

definition branch_create :: "u64 \<Rightarrow> u64 \<Rightarrow> 'v patricia_node \<Rightarrow> 'v patricia_node \<Rightarrow> 'v patricia_node act" where
  "branch_create prefix msk left right =
     andthen d7_hamt_allocate (\<lambda>a. ret (PATRICIA_BRANCH a (pat_count left + pat_count right) prefix msk left right))"

text \<open>A new branch, or the original one when it already has these children.\<close>

fun branch_from_owned ::
  "'v patricia_node option \<Rightarrow> u64 \<Rightarrow> u64 \<Rightarrow> 'v patricia_node \<Rightarrow> 'v patricia_node \<Rightarrow> 'v patricia_node act" where
  "branch_from_owned (Some (PATRICIA_BRANCH a n px m l r)) prefix msk left right =
     (if pat_addr l = pat_addr left \<and> pat_addr r = pat_addr right then ret (PATRICIA_BRANCH a n px m l r)
      else branch_create prefix msk left right)"
| "branch_from_owned original prefix msk left right = branch_create prefix msk left right"

definition prefix_of :: "u64 \<Rightarrow> u64 \<Rightarrow> u64" where
  "prefix_of path msk = path AND NOT (push_bit 1 msk - 1)"

function highest_bit_loop :: "u64 \<Rightarrow> u64 \<Rightarrow> u64" where
  "highest_bit_loop v b = (if drop_bit 1 v = 0 then b else highest_bit_loop (drop_bit 1 v) (push_bit 1 b))"
  by pat_completeness auto
termination
proof (relation "measure (\<lambda>(v, b). unat v)", goal_cases)
  case (2 v b)
  then have "v \<noteq> 0" by auto
  then have "0 < unat v" by (simp add: unat_gt_0)
  then show ?case by (simp add: drop_bit_eq_div unat_div)
qed simp

declare highest_bit_loop.simps [simp del]

definition highest_bit :: "u64 \<Rightarrow> u64" where
  "highest_bit v = highest_bit_loop v 1"

definition join_owned :: "u64 \<Rightarrow> 'v patricia_node \<Rightarrow> u64 \<Rightarrow> 'v patricia_node \<Rightarrow> 'v patricia_node act" where
  "join_owned left_path left right_path right =
     (let msk = highest_bit (left_path XOR right_path); prefix = prefix_of left_path msk
      in if left_path AND msk = 0 then branch_create prefix msk left right else branch_create prefix msk right left)"

fun find_node :: "'v patricia_node option \<Rightarrow> u64 \<Rightarrow> 'v patricia_node option" where
  "find_node None path = None"
| "find_node (Some (PATRICIA_LEAF a x k v)) path = (if x = path then Some (PATRICIA_LEAF a x k v) else None)"
| "find_node (Some (PATRICIA_BRANCH a n prefix msk l r)) path =
     (if prefix_of path msk \<noteq> prefix then None
      else find_node (Some (if path AND msk = 0 then l else r)) path)"

fun found_value :: "'v patricia_node option \<Rightarrow> 'v option" where
  "found_value (Some (PATRICIA_LEAF a x k v)) = Some v"
| "found_value _ = None"

definition try_get_node :: "'v patricia_node option \<Rightarrow> u64 \<Rightarrow> 'v option" where
  "try_get_node node path = found_value (find_node node path)"

section \<open>Insertion and removal\<close>

text \<open>The two flags of the result say whether the key was added and whether anything changed.\<close>

definition join_new_leaf ::
  "'v d7_patricia_value_policy \<Rightarrow> 'v patricia_node \<Rightarrow> u64 \<Rightarrow> i64 \<Rightarrow> 'v \<Rightarrow> (bool \<times> bool \<times> 'v patricia_node) act" where
  "join_new_leaf p node path key v =
     andthen (leaf_create p path key v) (\<lambda>right.
     andthen (join_owned (path_or_prefix node) node path right) (\<lambda>n. ret (True, True, n)))"

definition resolve_leaf ::
  "'v d7_patricia_value_policy \<Rightarrow> addr \<Rightarrow> u64 \<Rightarrow> i64 \<Rightarrow> 'v \<Rightarrow> 'v \<Rightarrow> (bool \<times> bool \<times> 'v patricia_node) act" where
  "resolve_leaf p a path k v0 resolved =
     (if values_same p v0 resolved then ret (False, False, PATRICIA_LEAF a path k v0)
      else andthen (leaf_create p path k resolved) (\<lambda>n. ret (False, True, n)))"

fun set_node ::
  "'v d7_patricia_value_policy \<Rightarrow> 'v patricia_node option \<Rightarrow> u64 \<Rightarrow> i64 \<Rightarrow> 'v \<Rightarrow> bool \<Rightarrow> (i64 \<Rightarrow> 'v \<Rightarrow> 'v \<Rightarrow> 'v) option
     \<Rightarrow> bool \<Rightarrow> (bool \<times> bool \<times> 'v patricia_node) act" where
  "set_node p None path key v prefer_existing combine incoming_is_left =
     andthen (leaf_create p path key v) (\<lambda>n. ret (True, True, n))"
| "set_node p (Some (PATRICIA_LEAF a x k v0)) path key v prefer_existing combine incoming_is_left =
     (if x = path then
        (case combine of
           Some f \<Rightarrow> resolve_leaf p a x k v0 (if incoming_is_left then f k v v0 else f k v0 v)
         | None \<Rightarrow> if prefer_existing then ret (False, False, PATRICIA_LEAF a x k v0) else resolve_leaf p a x k v0 v)
      else join_new_leaf p (PATRICIA_LEAF a x k v0) path key v)"
| "set_node p (Some (PATRICIA_BRANCH a n prefix msk l r)) path key v prefer_existing combine incoming_is_left =
     (if prefix_of path msk \<noteq> prefix then join_new_leaf p (PATRICIA_BRANCH a n prefix msk l r) path key v
      else
        andthen (set_node p (Some (if path AND msk = 0 then l else r)) path key v prefer_existing combine incoming_is_left)
          (\<lambda>(added, changed, child).
             if \<not> changed then ret (added, False, PATRICIA_BRANCH a n prefix msk l r)
             else andthen (if path AND msk = 0 then branch_create prefix msk child r else branch_create prefix msk l child)
               (\<lambda>n'. ret (added, True, n'))))"

fun remove_node :: "'v patricia_node option \<Rightarrow> u64 \<Rightarrow> (bool \<times> 'v patricia_node option) act" where
  "remove_node None path = ret (False, None)"
| "remove_node (Some (PATRICIA_LEAF a x k v)) path =
     ret (x = path, if x = path then None else Some (PATRICIA_LEAF a x k v))"
| "remove_node (Some (PATRICIA_BRANCH a n prefix msk l r)) path =
     (if prefix_of path msk \<noteq> prefix then ret (False, Some (PATRICIA_BRANCH a n prefix msk l r))
      else
        andthen (remove_node (Some (if path AND msk = 0 then l else r)) path) (\<lambda>(changed, child).
          if \<not> changed then ret (False, Some (PATRICIA_BRANCH a n prefix msk l r))
          else case child of
              None \<Rightarrow> ret (True, Some (if path AND msk = 0 then r else l))
            | Some c \<Rightarrow>
                andthen (if path AND msk = 0 then branch_create prefix msk c r else branch_create prefix msk l c)
                  (\<lambda>n'. ret (True, Some n'))))"

section \<open>Combination of two trees\<close>

definition combine_leaves ::
  "'v d7_patricia_value_policy \<Rightarrow> 'v patricia_node \<Rightarrow> 'v patricia_node \<Rightarrow> u64 \<Rightarrow> i64 \<Rightarrow> 'v \<Rightarrow> 'v \<Rightarrow> 'v \<Rightarrow> 'v patricia_node act" where
  "combine_leaves p left right path key lv rv resolved =
     (if values_same p lv resolved then ret left
      else if values_same p rv resolved then ret right
      else leaf_create p path key resolved)"

function union_nodes ::
  "'v d7_patricia_value_policy \<Rightarrow> 'v patricia_node option \<Rightarrow> 'v patricia_node option \<Rightarrow> (i64 \<Rightarrow> 'v \<Rightarrow> 'v \<Rightarrow> 'v) option
     \<Rightarrow> 'v patricia_node option act" where
  "union_nodes p None right combine = ret right"
| "union_nodes p (Some left) None combine = ret (Some left)"
| "union_nodes p (Some left) (Some right) combine =
     (if pat_addr left = pat_addr right \<and> combine = None then ret (Some left)
      else
        (case (left, right) of
           (PATRICIA_LEAF _ lx lk lv, PATRICIA_LEAF _ rx rk rv) \<Rightarrow>
             if lx \<noteq> rx then andthen (join_owned lx left rx right) (\<lambda>n. ret (Some n))
             else
               (case combine of
                  None \<Rightarrow> ret (Some (if values_same p lv rv then left else right))
                | Some f \<Rightarrow> andthen (combine_leaves p left right lx lk lv rv (f lk lv rv)) (\<lambda>n. ret (Some n)))
         | (PATRICIA_LEAF _ lx lk lv, PATRICIA_BRANCH _ _ _ _ _ _) \<Rightarrow>
             andthen (set_node p (Some right) lx lk lv True combine True) (\<lambda>(added, changed, n). ret (Some n))
         | (PATRICIA_BRANCH _ _ _ _ _ _, PATRICIA_LEAF _ rx rk rv) \<Rightarrow>
             andthen (set_node p (Some left) rx rk rv False combine False) (\<lambda>(added, changed, n). ret (Some n))
         | (PATRICIA_BRANCH _ _ lx lm ll lr, PATRICIA_BRANCH _ _ rx rm rl rr) \<Rightarrow>
             if lm = rm \<and> lx = rx then
               andthen (union_nodes p (Some ll) (Some rl) combine) (\<lambda>l.
               andthen (union_nodes p (Some lr) (Some rr) combine) (\<lambda>r.
               case (l, r) of
                 (Some l', Some r') \<Rightarrow> andthen (branch_from_owned (Some left) lx lm l' r') (\<lambda>n. ret (Some n))
               | _ \<Rightarrow> fail Fault))
             else if lm > rm \<and> prefix_of rx lm = lx then
               andthen (union_nodes p (Some (if rx AND lm \<noteq> 0 then lr else ll)) (Some right) combine) (\<lambda>merged.
               case merged of
                 None \<Rightarrow> fail Fault
               | Some m \<Rightarrow>
                   andthen (if rx AND lm \<noteq> 0 then branch_from_owned (Some left) lx lm ll m
                            else branch_from_owned (Some left) lx lm m lr) (\<lambda>n. ret (Some n)))
             else if rm > lm \<and> prefix_of lx rm = rx then
               andthen (union_nodes p (Some left) (Some (if lx AND rm \<noteq> 0 then rr else rl)) combine) (\<lambda>merged.
               case merged of
                 None \<Rightarrow> fail Fault
               | Some m \<Rightarrow>
                   andthen (if lx AND rm \<noteq> 0 then branch_from_owned (Some right) rx rm rl m
                            else branch_from_owned (Some right) rx rm m rr) (\<lambda>n. ret (Some n)))
             else andthen (join_owned lx left rx right) (\<lambda>n. ret (Some n))))"
  by pat_completeness auto
termination
  by (relation "measure (\<lambda>(p, l, r, c). size_option size l + size_option size r)") auto

definition collapse_owned ::
  "'v patricia_node option \<Rightarrow> u64 \<Rightarrow> u64 \<Rightarrow> 'v patricia_node option \<Rightarrow> 'v patricia_node option \<Rightarrow> 'v patricia_node option act" where
  "collapse_owned original prefix msk left right =
     (case (left, right) of
        (None, _) \<Rightarrow> ret right
      | (_, None) \<Rightarrow> ret left
      | (Some l, Some r) \<Rightarrow> andthen (branch_from_owned original prefix msk l r) (\<lambda>n. ret (Some n)))"

definition intersect_leaves ::
  "'v d7_patricia_value_policy \<Rightarrow> 'v patricia_node option \<Rightarrow> 'v patricia_node option \<Rightarrow> (i64 \<Rightarrow> 'v \<Rightarrow> 'v \<Rightarrow> 'v) option
     \<Rightarrow> 'v patricia_node option act" where
  "intersect_leaves p left_leaf right_leaf combine =
     (case (left_leaf, right_leaf) of
        (Some (PATRICIA_LEAF la lx lk lv), Some (PATRICIA_LEAF ra rx rk rv)) \<Rightarrow>
          if lx \<noteq> rx then ret None
          else
            (case combine of
               None \<Rightarrow> ret left_leaf
             | Some f \<Rightarrow>
                 andthen (combine_leaves p (PATRICIA_LEAF la lx lk lv) (PATRICIA_LEAF ra rx rk rv) lx lk lv rv (f lk lv rv))
                   (\<lambda>n. ret (Some n)))
      | _ \<Rightarrow> ret None)"

text \<open>The leaf of a path in a node that may itself be a leaf.\<close>

fun leaf_at :: "'v patricia_node \<Rightarrow> u64 \<Rightarrow> 'v patricia_node option" where
  "leaf_at (PATRICIA_LEAF a x k v) path = Some (PATRICIA_LEAF a x k v)"
| "leaf_at (PATRICIA_BRANCH a n prefix msk l r) path = find_node (Some (PATRICIA_BRANCH a n prefix msk l r)) path"

function intersect_nodes ::
  "'v d7_patricia_value_policy \<Rightarrow> 'v patricia_node option \<Rightarrow> 'v patricia_node option \<Rightarrow> (i64 \<Rightarrow> 'v \<Rightarrow> 'v \<Rightarrow> 'v) option
     \<Rightarrow> 'v patricia_node option act" where
  "intersect_nodes p None right combine = ret None"
| "intersect_nodes p (Some left) None combine = ret None"
| "intersect_nodes p (Some left) (Some right) combine =
     (if pat_addr left = pat_addr right \<and> combine = None then ret (Some left)
      else
        (case (left, right) of
           (PATRICIA_LEAF _ _ _ _, _) \<Rightarrow>
             intersect_leaves p (leaf_at left (path_or_prefix right)) (leaf_at right (path_or_prefix left)) combine
         | (_, PATRICIA_LEAF _ _ _ _) \<Rightarrow>
             intersect_leaves p (leaf_at left (path_or_prefix right)) (leaf_at right (path_or_prefix left)) combine
         | (PATRICIA_BRANCH _ _ lx lm ll lr, PATRICIA_BRANCH _ _ rx rm rl rr) \<Rightarrow>
             if lm = rm \<and> lx = rx then
               andthen (intersect_nodes p (Some ll) (Some rl) combine) (\<lambda>l.
               andthen (intersect_nodes p (Some lr) (Some rr) combine) (\<lambda>r.
               collapse_owned (Some left) lx lm l r))
             else if lm > rm \<and> prefix_of rx lm = lx then
               intersect_nodes p (Some (if rx AND lm = 0 then ll else lr)) (Some right) combine
             else if rm > lm \<and> prefix_of lx rm = rx then
               intersect_nodes p (Some left) (Some (if lx AND rm = 0 then rl else rr)) combine
             else ret None))"
  by pat_completeness auto
termination
  by (relation "measure (\<lambda>(p, l, r, c). size_option size l + size_option size r)") auto

function except_nodes ::
  "'v patricia_node option \<Rightarrow> 'v patricia_node option \<Rightarrow> 'v patricia_node option act" where
  "except_nodes None right = ret None"
| "except_nodes (Some left) None = ret (Some left)"
| "except_nodes (Some left) (Some right) =
     (if pat_addr left = pat_addr right then ret None
      else
        (case (left, right) of
           (PATRICIA_LEAF _ lx _ _, _) \<Rightarrow> ret (if try_get_node (Some right) lx \<noteq> None then None else Some left)
         | (_, PATRICIA_LEAF _ rx _ _) \<Rightarrow> andthen (remove_node (Some left) rx) (\<lambda>(changed, n). ret n)
         | (PATRICIA_BRANCH _ _ lx lm ll lr, PATRICIA_BRANCH _ _ rx rm rl rr) \<Rightarrow>
             if lm = rm \<and> lx = rx then
               andthen (except_nodes (Some ll) (Some rl)) (\<lambda>l.
               andthen (except_nodes (Some lr) (Some rr)) (\<lambda>r.
               collapse_owned (Some left) lx lm l r))
             else if lm > rm \<and> prefix_of rx lm = lx then
               andthen (except_nodes (Some (if rx AND lm \<noteq> 0 then lr else ll)) (Some right)) (\<lambda>changed.
               if rx AND lm \<noteq> 0 then collapse_owned (Some left) lx lm (Some ll) changed
               else collapse_owned (Some left) lx lm changed (Some lr))
             else if rm > lm \<and> prefix_of lx rm = rx then
               except_nodes (Some left) (Some (if lx AND rm = 0 then rl else rr))
             else ret (Some left)))"
  by pat_completeness auto
termination
  by (relation "measure (\<lambda>(l, r). size_option size l + size_option size r)") auto

declare union_nodes.simps(3) [simp del] intersect_nodes.simps(3) [simp del] except_nodes.simps(3) [simp del]

section \<open>Maps\<close>

record 'v d7_patricia_map =
  pat_root :: "'v patricia_node option"
  pat_size :: nat
  pat_policy :: "'v d7_patricia_value_policy"

definition node_count :: "'v patricia_node option \<Rightarrow> nat" where
  "node_count node = (case node of None \<Rightarrow> 0 | Some n \<Rightarrow> pat_count n)"

definition policies_match :: "'v d7_patricia_map \<Rightarrow> 'v d7_patricia_map \<Rightarrow> bool" where
  "policies_match left right \<longleftrightarrow>
     fn_ptr (val_equal (pat_policy left)) = fn_ptr (val_equal (pat_policy right)) \<and>
     fn_ptr (val_retain (pat_policy left)) = fn_ptr (val_retain (pat_policy right)) \<and>
     val_release (pat_policy left) = val_release (pat_policy right) \<and>
     val_context (pat_policy left) = val_context (pat_policy right)"

definition encode32 :: "i64 \<Rightarrow> u64" where
  "encode32 key = ucast ((ucast key :: u32) XOR 0x80000000)"

definition encode64 :: "i64 \<Rightarrow> u64" where
  "encode64 key = key XOR 0x8000000000000000"

definition map_create :: "'v patricia_policy_arg option \<Rightarrow> 'v d7_patricia_map" where
  "map_create pol = \<lparr>pat_root = None, pat_size = 0, pat_policy = normalize_policy pol\<rparr>"

definition map_clone :: "'v d7_patricia_map \<Rightarrow> 'v d7_patricia_map" where
  "map_clone m = m"

text \<open>Destroying a handle clears it: the function pointers of the policy become null, of address 0.\<close>

definition zeroed_policy :: "'v d7_patricia_value_policy" where
  "zeroed_policy = \<lparr>val_equal = Callback 0 (\<lambda>_ _ _. False), val_retain = Callback 0 (\<lambda>_ _ _. None),
     val_release = None, val_context = 0\<rparr>"

definition map_destroy :: "'v d7_patricia_map option \<Rightarrow> 'v d7_patricia_map option" where
  "map_destroy mp = map_option (\<lambda>m. \<lparr>pat_root = None, pat_size = 0, pat_policy = zeroed_policy\<rparr>) mp"

definition map_set ::
  "'v d7_patricia_map option \<Rightarrow> i64 \<Rightarrow> u64 \<Rightarrow> 'v \<Rightarrow> bool \<Rightarrow> 'v d7_patricia_map act" where
  "map_set mp key path v result =
     (case mp of
        None \<Rightarrow> fail (Status D7_HAMT_INVALID_ARGUMENT)
      | Some m \<Rightarrow>
          if \<not> result then fail (Status D7_HAMT_INVALID_ARGUMENT)
          else andthen (set_node (pat_policy m) (pat_root m) path key v False None False) (\<lambda>(added, changed, n).
            ret \<lparr>pat_root = Some n, pat_size = pat_size m + (if added then 1 else 0), pat_policy = pat_policy m\<rparr>))"

definition map_remove :: "'v d7_patricia_map option \<Rightarrow> u64 \<Rightarrow> bool \<Rightarrow> 'v d7_patricia_map act" where
  "map_remove mp path result =
     (case mp of
        None \<Rightarrow> fail (Status D7_HAMT_INVALID_ARGUMENT)
      | Some m \<Rightarrow>
          if \<not> result then fail (Status D7_HAMT_INVALID_ARGUMENT)
          else andthen (remove_node (pat_root m) path) (\<lambda>(changed, n).
            ret \<lparr>pat_root = n, pat_size = pat_size m - (if changed then 1 else 0), pat_policy = pat_policy m\<rparr>))"

type_synonym 'v algebra_fn =
  "'v d7_patricia_value_policy \<Rightarrow> 'v patricia_node option \<Rightarrow> 'v patricia_node option \<Rightarrow> (i64 \<Rightarrow> 'v \<Rightarrow> 'v \<Rightarrow> 'v) option
     \<Rightarrow> 'v patricia_node option act"

definition except_nodes_operation :: "'v algebra_fn" where
  "except_nodes_operation p left right combine = except_nodes left right"

definition map_algebra ::
  "'v d7_patricia_map option \<Rightarrow> 'v d7_patricia_map option \<Rightarrow> bool \<Rightarrow> 'v algebra_fn \<Rightarrow> (i64 \<Rightarrow> 'v \<Rightarrow> 'v \<Rightarrow> 'v) option
     \<Rightarrow> 'v d7_patricia_map act" where
  "map_algebra left right result op combine =
     (case (left, right) of
        (Some l, Some r) \<Rightarrow>
          if \<not> result \<or> \<not> policies_match l r then fail (Status D7_HAMT_INVALID_ARGUMENT)
          else andthen (op (pat_policy l) (pat_root l) (pat_root r) combine) (\<lambda>n.
            ret \<lparr>pat_root = n, pat_size = node_count n, pat_policy = pat_policy l\<rparr>)
      | _ \<Rightarrow> fail (Status D7_HAMT_INVALID_ARGUMENT))"

text \<open>The operations \<open>DEFINE_MAP\<close> declares.\<close>

definition patricia_count :: "'v d7_patricia_map option \<Rightarrow> nat" where
  "patricia_count mp = (case mp of None \<Rightarrow> 0 | Some m \<Rightarrow> pat_size m)"

definition patricia_try_get :: "(i64 \<Rightarrow> u64) \<Rightarrow> 'v d7_patricia_map option \<Rightarrow> i64 \<Rightarrow> 'v option" where
  "patricia_try_get encode mp key = (case mp of None \<Rightarrow> None | Some m \<Rightarrow> try_get_node (pat_root m) (encode key))"

definition patricia_set where
  "patricia_set encode mp key v result = map_set mp key (encode key) v result"

definition patricia_remove where
  "patricia_remove encode mp key result = map_remove mp (encode key) result"

definition patricia_union where
  "patricia_union left right result = map_algebra left right result union_nodes None"

definition patricia_union_with where
  "patricia_union_with left right combine result =
     (case combine of None \<Rightarrow> fail (Status D7_HAMT_INVALID_ARGUMENT) | Some f \<Rightarrow> map_algebra left right result union_nodes (Some f))"

definition patricia_intersect where
  "patricia_intersect left right result = map_algebra left right result intersect_nodes None"

definition patricia_intersect_with where
  "patricia_intersect_with left right combine result =
     (case combine of None \<Rightarrow> fail (Status D7_HAMT_INVALID_ARGUMENT) | Some f \<Rightarrow> map_algebra left right result intersect_nodes (Some f))"

definition patricia_except where
  "patricia_except left right result = map_algebra left right result except_nodes_operation None"

definition patricia_shares_root :: "'v d7_patricia_map option \<Rightarrow> 'v d7_patricia_map option \<Rightarrow> bool" where
  "patricia_shares_root left right =
     (case (left, right) of
        (Some l, Some r) \<Rightarrow> map_option pat_addr (pat_root l) = map_option pat_addr (pat_root r)
      | _ \<Rightarrow> False)"

text \<open>The calls a visitor receives, in order.\<close>

fun visit_node :: "'v patricia_node \<Rightarrow> (i64 \<times> 'v) list" where
  "visit_node (PATRICIA_LEAF a x k v) = [(k, v)]"
| "visit_node (PATRICIA_BRANCH a n prefix msk l r) = visit_node l @ visit_node r"

definition patricia_visit :: "'v d7_patricia_map option \<Rightarrow> (i64 \<times> 'v) list" where
  "patricia_visit mp =
     (case mp of None \<Rightarrow> [] | Some m \<Rightarrow> (case pat_root m of None \<Rightarrow> [] | Some n \<Rightarrow> visit_node n))"

section \<open>Sets\<close>

text \<open>A set is a map whose values are all null, under the default policy.\<close>

type_synonym patricia_set_handle = "unit d7_patricia_map"

definition with_sets ::
  "patricia_set_handle option \<Rightarrow> patricia_set_handle option \<Rightarrow> bool
     \<Rightarrow> patricia_set_handle act \<Rightarrow> patricia_set_handle act" where
  "with_sets left right result body =
     (if left = None \<or> right = None \<or> \<not> result then fail (Status D7_HAMT_INVALID_ARGUMENT) else body)"

definition patricia_set_create :: patricia_set_handle where
  "patricia_set_create = map_create None"

definition patricia_set_clone :: "patricia_set_handle \<Rightarrow> patricia_set_handle" where
  "patricia_set_clone st = map_clone st"

definition patricia_set_destroy :: "patricia_set_handle option \<Rightarrow> patricia_set_handle option" where
  "patricia_set_destroy st = map_destroy st"

definition patricia_set_count :: "patricia_set_handle option \<Rightarrow> nat" where
  "patricia_set_count st = patricia_count st"

definition patricia_set_contains :: "(i64 \<Rightarrow> u64) \<Rightarrow> patricia_set_handle option \<Rightarrow> i64 \<Rightarrow> bool" where
  "patricia_set_contains encode st key \<longleftrightarrow> patricia_try_get encode st key \<noteq> None"

definition patricia_set_add :: "(i64 \<Rightarrow> u64) \<Rightarrow> patricia_set_handle option \<Rightarrow> i64 \<Rightarrow> bool \<Rightarrow> patricia_set_handle act" where
  "patricia_set_add encode st key result = with_sets st st result (patricia_set encode st key () result)"

definition patricia_set_remove :: "(i64 \<Rightarrow> u64) \<Rightarrow> patricia_set_handle option \<Rightarrow> i64 \<Rightarrow> bool \<Rightarrow> patricia_set_handle act" where
  "patricia_set_remove encode st key result = with_sets st st result (patricia_remove encode st key result)"

definition patricia_set_union ::
  "patricia_set_handle option \<Rightarrow> patricia_set_handle option \<Rightarrow> bool \<Rightarrow> patricia_set_handle act" where
  "patricia_set_union left right result = with_sets left right result (patricia_union left right result)"

definition patricia_set_intersect ::
  "patricia_set_handle option \<Rightarrow> patricia_set_handle option \<Rightarrow> bool \<Rightarrow> patricia_set_handle act" where
  "patricia_set_intersect left right result = with_sets left right result (patricia_intersect left right result)"

definition patricia_set_except ::
  "patricia_set_handle option \<Rightarrow> patricia_set_handle option \<Rightarrow> bool \<Rightarrow> patricia_set_handle act" where
  "patricia_set_except left right result = with_sets left right result (patricia_except left right result)"

definition patricia_set_visit :: "patricia_set_handle option \<Rightarrow> i64 list" where
  "patricia_set_visit st = map fst (patricia_visit st)"

section \<open>Cursors\<close>

fun entry_at_node :: "'v patricia_node \<Rightarrow> nat \<Rightarrow> 'v patricia_node" where
  "entry_at_node (PATRICIA_LEAF a x k v) index = PATRICIA_LEAF a x k v"
| "entry_at_node (PATRICIA_BRANCH a n prefix msk l r) index =
     (if index < pat_count l then entry_at_node l index else entry_at_node r (index - pat_count l))"

definition entry_at :: "'v patricia_node option \<Rightarrow> nat \<Rightarrow> 'v patricia_node option" where
  "entry_at node index =
     (case node of None \<Rightarrow> None | Some n \<Rightarrow> if pat_count n \<le> index then None else Some (entry_at_node n index))"

fun lower_bound_loop :: "'v patricia_node \<Rightarrow> u64 \<Rightarrow> nat \<Rightarrow> nat \<times> bool" where
  "lower_bound_loop (PATRICIA_LEAF a x k v) path base =
     (if x = path then (base, True) else (base + (if x < path then 1 else 0), False))"
| "lower_bound_loop (PATRICIA_BRANCH a n prefix msk l r) path base =
     (if prefix_of path msk \<noteq> prefix then (if path < prefix then base else base + n, False)
      else if path AND msk = 0 then lower_bound_loop l path base
      else lower_bound_loop r path (base + pat_count l))"

definition lower_bound_rank :: "'v patricia_node option \<Rightarrow> u64 \<Rightarrow> nat \<times> bool" where
  "lower_bound_rank node path = (case node of None \<Rightarrow> (0, False) | Some n \<Rightarrow> lower_bound_loop n path 0)"

record 'v d7_patricia_map_cursor =
  cursor_map :: "'v d7_patricia_map"
  position :: nat

definition map_cursor_create :: "'v d7_patricia_map option \<Rightarrow> nat \<Rightarrow> bool \<Rightarrow> 'v d7_patricia_map_cursor act" where
  "map_cursor_create mp pos result =
     (case mp of
        None \<Rightarrow> fail (Status D7_HAMT_INVALID_ARGUMENT)
      | Some m \<Rightarrow>
          if \<not> result \<or> pat_size m < pos then fail (Status D7_HAMT_INVALID_ARGUMENT)
          else ret \<lparr>cursor_map = map_clone m, position = pos\<rparr>)"

definition with_cursor ::
  "'v d7_patricia_map_cursor option \<Rightarrow> bool \<Rightarrow> ('v d7_patricia_map_cursor \<Rightarrow> 'b act) \<Rightarrow> 'b act" where
  "with_cursor cursor result body =
     (case cursor of
        None \<Rightarrow> fail (Status D7_HAMT_INVALID_ARGUMENT)
      | Some c \<Rightarrow> if \<not> result then fail (Status D7_HAMT_INVALID_ARGUMENT) else body c)"

definition map_cursor_clone :: "'v d7_patricia_map_cursor option \<Rightarrow> bool \<Rightarrow> 'v d7_patricia_map_cursor act" where
  "map_cursor_clone cursor result = with_cursor cursor result (\<lambda>c. ret \<lparr>cursor_map = map_clone (cursor_map c), position = position c\<rparr>)"

definition map_cursor_destroy :: "'v d7_patricia_map_cursor option \<Rightarrow> 'v d7_patricia_map_cursor option" where
  "map_cursor_destroy cursor =
     map_option (\<lambda>c. \<lparr>cursor_map = the (map_destroy (Some (cursor_map c))), position = 0\<rparr>) cursor"

definition map_cursor_reposition :: "'v d7_patricia_map_cursor option \<Rightarrow> nat \<Rightarrow> bool \<Rightarrow> 'v d7_patricia_map_cursor act" where
  "map_cursor_reposition cursor pos result = with_cursor cursor result (\<lambda>c.
     if pat_size (cursor_map c) < pos then fail (Status D7_HAMT_INVALID_ARGUMENT)
     else ret \<lparr>cursor_map = map_clone (cursor_map c), position = pos\<rparr>)"

definition map_cursor_try_peek :: "'v d7_patricia_map_cursor option \<Rightarrow> nat \<Rightarrow> (i64 \<times> 'v) option" where
  "map_cursor_try_peek cursor index =
     (case cursor of
        None \<Rightarrow> None
      | Some c \<Rightarrow>
          (case entry_at (pat_root (cursor_map c)) index of
             Some (PATRICIA_LEAF a x k v) \<Rightarrow> Some (k, v)
           | _ \<Rightarrow> None))"

definition map_cursor_insert ::
  "'v d7_patricia_map_cursor option \<Rightarrow> i64 \<Rightarrow> u64 \<Rightarrow> 'v \<Rightarrow> bool \<Rightarrow> 'v d7_patricia_map_cursor act" where
  "map_cursor_insert cursor key path v result = with_cursor cursor result (\<lambda>c.
     let (expected, found) = lower_bound_rank (pat_root (cursor_map c)) path
     in if found then fail (Status D7_HAMT_DUPLICATE_KEY)
        else if expected \<noteq> position c then fail (Status D7_HAMT_INVALID_ARGUMENT)
        else andthen (map_set (Some (cursor_map c)) key path v True) (\<lambda>m. ret \<lparr>cursor_map = m, position = position c + 1\<rparr>))"

definition map_cursor_put ::
  "'v d7_patricia_map_cursor option \<Rightarrow> i64 \<Rightarrow> u64 \<Rightarrow> 'v \<Rightarrow> bool \<Rightarrow> 'v d7_patricia_map_cursor act" where
  "map_cursor_put cursor key path v result = with_cursor cursor result (\<lambda>c.
     let (expected, found) = lower_bound_rank (pat_root (cursor_map c)) path
     in if expected \<noteq> position c then fail (Status D7_HAMT_INVALID_ARGUMENT)
        else andthen (map_set (Some (cursor_map c)) key path v True) (\<lambda>m.
          ret \<lparr>cursor_map = m, position = position c + (if found then 0 else 1)\<rparr>))"

definition map_cursor_set_next_value ::
  "'v d7_patricia_map_cursor option \<Rightarrow> 'v \<Rightarrow> bool \<Rightarrow> 'v d7_patricia_map_cursor act" where
  "map_cursor_set_next_value cursor v result = with_cursor cursor result (\<lambda>c.
     case entry_at (pat_root (cursor_map c)) (position c) of
       Some (PATRICIA_LEAF a x k v0) \<Rightarrow>
         andthen (map_set (Some (cursor_map c)) k x v True) (\<lambda>m. ret \<lparr>cursor_map = m, position = position c\<rparr>)
     | _ \<Rightarrow> fail (Status D7_HAMT_INVALID_ARGUMENT))"

definition map_cursor_delete :: "'v d7_patricia_map_cursor option \<Rightarrow> bool \<Rightarrow> bool \<Rightarrow> 'v d7_patricia_map_cursor act" where
  "map_cursor_delete cursor previous result = with_cursor cursor result (\<lambda>c.
     if (previous \<and> position c = 0) \<or> (\<not> previous \<and> position c = pat_size (cursor_map c))
     then fail (Status D7_HAMT_INVALID_ARGUMENT)
     else
       (case entry_at (pat_root (cursor_map c)) (if previous then position c - 1 else position c) of
          Some (PATRICIA_LEAF a x k v0) \<Rightarrow>
            andthen (map_remove (Some (cursor_map c)) x True) (\<lambda>m.
              ret \<lparr>cursor_map = m, position = (if previous then position c - 1 else position c)\<rparr>)
        | _ \<Rightarrow> fail (Status D7_HAMT_INVALID_ARGUMENT)))"

text \<open>Positioning a cursor, as \<open>DEFINE_MAP_CURSOR\<close> declares it.\<close>

definition patricia_cursor_at_start where
  "patricia_cursor_at_start mp result = map_cursor_create mp 0 result"

definition patricia_cursor_at_end where
  "patricia_cursor_at_end mp result =
     (case mp of None \<Rightarrow> fail (Status D7_HAMT_INVALID_ARGUMENT) | Some m \<Rightarrow> map_cursor_create mp (pat_size m) result)"

definition patricia_cursor_lower_bound where
  "patricia_cursor_lower_bound encode mp key result =
     (case mp of
        None \<Rightarrow> fail (Status D7_HAMT_INVALID_ARGUMENT)
      | Some m \<Rightarrow>
          if \<not> result then fail (Status D7_HAMT_INVALID_ARGUMENT)
          else map_cursor_create mp (fst (lower_bound_rank (pat_root m) (encode key))) result)"

definition patricia_cursor_upper_bound where
  "patricia_cursor_upper_bound encode mp key result =
     (case mp of
        None \<Rightarrow> fail (Status D7_HAMT_INVALID_ARGUMENT)
      | Some m \<Rightarrow>
          if \<not> result then fail (Status D7_HAMT_INVALID_ARGUMENT)
          else (let (pos, found) = lower_bound_rank (pat_root m) (encode key)
                in map_cursor_create mp (pos + (if found then 1 else 0)) result))"

text \<open>The flag of the result is what the code stores through \<open>found\<close>; the argument \<open>found_out\<close> says that the pointer is
  not null.\<close>

definition patricia_cursor_at_key where
  "patricia_cursor_at_key encode mp key found_out result =
     (case mp of
        None \<Rightarrow> fail (Status D7_HAMT_INVALID_ARGUMENT)
      | Some m \<Rightarrow>
          if \<not> found_out \<or> \<not> result then fail (Status D7_HAMT_INVALID_ARGUMENT)
          else (let (pos, hit) = lower_bound_rank (pat_root m) (encode key)
                in andthen (map_cursor_create mp pos result) (\<lambda>c. ret (hit, c))))"

definition patricia_cursor_count where
  "patricia_cursor_count cursor = (case cursor of None \<Rightarrow> 0 | Some c \<Rightarrow> pat_size (cursor_map c))"

definition patricia_cursor_position where
  "patricia_cursor_position cursor = (case cursor of None \<Rightarrow> 0 | Some c \<Rightarrow> position c)"

definition patricia_cursor_is_at_start where
  "patricia_cursor_is_at_start cursor = (case cursor of None \<Rightarrow> False | Some c \<Rightarrow> position c = 0)"

definition patricia_cursor_is_at_end where
  "patricia_cursor_is_at_end cursor = (case cursor of None \<Rightarrow> False | Some c \<Rightarrow> position c = pat_size (cursor_map c))"

definition patricia_cursor_move_previous where
  "patricia_cursor_move_previous cursor result =
     (case cursor of
        None \<Rightarrow> fail (Status D7_HAMT_INVALID_ARGUMENT)
      | Some c \<Rightarrow>
          if position c = 0 then fail (Status D7_HAMT_INVALID_ARGUMENT)
          else map_cursor_reposition cursor (position c - 1) result)"

definition patricia_cursor_move_next where
  "patricia_cursor_move_next cursor result =
     (case cursor of
        None \<Rightarrow> fail (Status D7_HAMT_INVALID_ARGUMENT)
      | Some c \<Rightarrow>
          if position c = pat_size (cursor_map c) then fail (Status D7_HAMT_INVALID_ARGUMENT)
          else map_cursor_reposition cursor (position c + 1) result)"

definition patricia_cursor_peek_previous where
  "patricia_cursor_peek_previous cursor =
     (case cursor of
        None \<Rightarrow> None
      | Some c \<Rightarrow> if position c = 0 then None else map_cursor_try_peek cursor (position c - 1))"

definition patricia_cursor_peek_next where
  "patricia_cursor_peek_next cursor =
     (case cursor of None \<Rightarrow> None | Some c \<Rightarrow> map_cursor_try_peek cursor (position c))"

text \<open>Seeking and editing at the cursor.\<close>

definition patricia_cursor_seek where
  "patricia_cursor_seek cursor pos result = map_cursor_reposition cursor pos result"

definition patricia_cursor_insert where
  "patricia_cursor_insert encode cursor key v result = map_cursor_insert cursor key (encode key) v result"

definition patricia_cursor_put where
  "patricia_cursor_put encode cursor key v result = map_cursor_put cursor key (encode key) v result"

definition patricia_cursor_delete_previous where
  "patricia_cursor_delete_previous cursor result = map_cursor_delete cursor True result"

definition patricia_cursor_delete_next where
  "patricia_cursor_delete_next cursor result = map_cursor_delete cursor False result"

definition patricia_cursor_snapshot :: "'v d7_patricia_map_cursor option \<Rightarrow> bool \<Rightarrow> 'v d7_patricia_map act" where
  "patricia_cursor_snapshot cursor result = with_cursor cursor result (\<lambda>c. ret (map_clone (cursor_map c)))"

text \<open>Of the set cursor only insertion differs from the map cursor: an item that is present already is no error.\<close>

definition patricia_set_cursor_insert ::
  "(i64 \<Rightarrow> u64) \<Rightarrow> unit d7_patricia_map_cursor option \<Rightarrow> i64 \<Rightarrow> bool \<Rightarrow> unit d7_patricia_map_cursor act" where
  "patricia_set_cursor_insert encode cursor key result = with_cursor cursor result (\<lambda>c.
     let (expected, found) = lower_bound_rank (pat_root (cursor_map c)) (encode key)
     in if expected \<noteq> position c then fail (Status D7_HAMT_INVALID_ARGUMENT)
        else if found then map_cursor_clone cursor result
        else patricia_cursor_insert encode cursor key () result)"

end
