(* ===== verification/Patricia_Node.thy ===== *)
theory Patricia_Node
  imports Patricia
begin

text \<open>
  What a Patricia tree means. \<open>leaves\<close> lists its entries in order, \<open>pmap\<close> is the partial function from paths to values they
  stand for, and \<open>pat_wf K\<close> is the invariant of the nodes: the mask of a branch is one bit, its prefix is what its paths have in
  common above that bit, the left child holds the paths with the bit clear and the right child those with the bit set, the
  count adds up, and \<open>K\<close> relates the path of every leaf to its key. The section on bits turns the masks of the code into
  bit positions, so that the proofs about trees never compute with words.
\<close>

section \<open>Masks and prefixes\<close>

definition is_mask :: "u64 \<Rightarrow> bool" where
  "is_mask m \<longleftrightarrow> (\<exists>i<64. m = 2 ^ i)"

lemma bit_prefix_of: "bit (prefix_of x (2 ^ i)) j \<longleftrightarrow> i < j \<and> bit x j"
proof -
  have "push_bit 1 (2 ^ i) - 1 = (mask (Suc i) :: u64)"
    by (simp add: mask_eq_exp_minus_1 push_bit_eq_mult)
  then show ?thesis by (auto simp: prefix_of_def bit_and_iff bit_not_iff bit_mask_iff dest: bit_imp_le_length)
qed

lemma and_mask: "i < 64 \<Longrightarrow> x AND 2 ^ i = 0 \<longleftrightarrow> \<not> bit (x :: u64) i"
proof
  assume "i < 64" and "x AND 2 ^ i = 0"
  then have "\<not> bit (x AND 2 ^ i) i" by simp
  then show "\<not> bit x i" using \<open>i < 64\<close> by (simp add: bit_and_iff bit_exp_iff)
next
  assume "\<not> bit x i"
  then show "x AND 2 ^ i = 0" by (intro bit_word_eqI) (auto simp: bit_and_iff bit_exp_iff)
qed

lemma prefix_of_eq: "prefix_of x (2 ^ i) = prefix_of y (2 ^ i) \<longleftrightarrow> (\<forall>j>i. bit x j = bit y j)"
  unfolding bit_eq_iff [of "prefix_of x (2 ^ i)"] bit_prefix_of using bit_imp_possible_bit by blast

lemma prefix_of_idem: "is_mask m \<Longrightarrow> prefix_of (prefix_of x m) m = prefix_of x m"
  by (auto simp: is_mask_def prefix_of_eq bit_prefix_of)

lemma exp_less: "i < 64 \<Longrightarrow> j < 64 \<Longrightarrow> (2 :: u64) ^ j < 2 ^ i \<longleftrightarrow> j < i"
proof -
  have "unat ((2 :: u64) ^ n) = 2 ^ n" if "n < 64" for n
    using that unat_of_nat [where 'a = 64, of "2 ^ n"] power_strict_increasing [of n 64 "2 :: nat"] by simp
  then show "i < 64 \<Longrightarrow> j < 64 \<Longrightarrow> (2 :: u64) ^ j < 2 ^ i \<longleftrightarrow> j < i" by (simp add: word_less_nat_alt)
qed

text \<open>A wider mask forgets more: paths that agree above a bit agree above, and at, every higher bit.\<close>

lemma prefix_coarser:
  assumes "is_mask m" and "is_mask m'" and "m < m'" and "prefix_of x m = prefix_of y m"
  shows "prefix_of x m' = prefix_of y m'" and "x AND m' = 0 \<longleftrightarrow> y AND m' = 0"
  using assms by (auto simp: is_mask_def prefix_of_eq exp_less and_mask)

section \<open>The highest differing bit\<close>

lemma highest_bit_loop_spec:
  "v \<noteq> 0 \<Longrightarrow> \<exists>i. highest_bit_loop v b = push_bit i b \<and> bit v i \<and> (\<forall>j>i. \<not> bit v j)"
proof (induction v b rule: highest_bit_loop.induct)
  case (1 v b)
  show ?case
  proof (cases "drop_bit 1 v = 0")
    case True
    have "\<not> bit v (Suc j)" for j
    proof -
      have "\<not> bit (drop_bit 1 v) j" unfolding True by simp
      then show ?thesis by (simp add: bit_drop_bit_eq)
    qed
    then have high: "\<not> bit v j" if "0 < j" for j using that by (cases j) auto
    have "bit v 0"
    proof (rule ccontr)
      assume "\<not> bit v 0"
      then have "\<not> bit v j" for j using high by (cases j) auto
      then have "v = 0" by (intro bit_word_eqI) simp
      then show False using 1(2) by simp
    qed
    then show ?thesis using True high by (subst highest_bit_loop.simps) (intro exI [of _ 0], simp)
  next
    case False
    obtain i where i: "highest_bit_loop (drop_bit 1 v) (push_bit 1 b) = push_bit i (push_bit 1 b)"
      "bit (drop_bit 1 v) i" "\<And>j. i < j \<Longrightarrow> \<not> bit (drop_bit 1 v) j" using 1(1) [OF False False] by blast
    have "\<not> bit v j" if "Suc i < j" for j
      using i(3) [of "j - 1"] that by (simp add: bit_drop_bit_eq)
    then show ?thesis
      using i(1,2) False by (subst highest_bit_loop.simps) (intro exI [of _ "Suc i"], simp add: bit_drop_bit_eq)
  qed
qed

text \<open>The mask and the prefix \<open>join_owned\<close> computes for two paths that differ.\<close>

lemma highest_bit_differ:
  fixes x y :: u64
  assumes "x \<noteq> y"
  defines "m \<equiv> highest_bit (x XOR y)"
  shows "is_mask m" and "prefix_of x m = prefix_of y m" and "x AND m = 0 \<longleftrightarrow> y AND m \<noteq> 0"
proof -
  have "\<exists>j. bit (x XOR y) j" using assms(1) by (auto simp: bit_eq_iff [of x] bit_xor_iff)
  then have "x XOR y \<noteq> 0" by auto
  then obtain i where i: "m = 2 ^ i" "bit x i \<noteq> bit y i" "\<And>j. i < j \<Longrightarrow> bit x j = bit y j"
    using highest_bit_loop_spec [of "x XOR y" 1] by (auto simp: m_def highest_bit_def bit_xor_iff)
  have i64: "i < 64" using i(2) bit_imp_le_length by fastforce
  show "is_mask m" using i(1) i64 by (auto simp: is_mask_def)
  show "prefix_of x m = prefix_of y m" using i(1,3) i64 by (simp add: prefix_of_eq)
  show "x AND m = 0 \<longleftrightarrow> y AND m \<noteq> 0" using i(1,2) i64 by (simp add: and_mask)
qed

text \<open>Where the two paths already differ in a prefix, the mask is above the one of the prefix.\<close>

lemma highest_bit_above:
  assumes "is_mask m" and "prefix_of x m \<noteq> prefix_of y m"
  shows "m < highest_bit (x XOR y)"
proof -
  have ne: "x \<noteq> y" using assms(2) by blast
  obtain i where i: "i < 64" "m = 2 ^ i" using assms(1) by (auto simp: is_mask_def)
  obtain j where j: "j < 64" "highest_bit (x XOR y) = 2 ^ j"
    using highest_bit_differ(1) [OF ne] by (auto simp: is_mask_def)
  have "\<not> j \<le> i"
    using highest_bit_differ(2) [OF ne] assms(2) unfolding j(2) i(2) prefix_of_eq by auto
  then show ?thesis using i j by (simp add: exp_less)
qed

section \<open>Contents and well-formedness\<close>

fun leaves :: "'v patricia_node \<Rightarrow> (u64 \<times> 'v) list" where
  "leaves (PATRICIA_LEAF a x k v) = [(x, v)]"
| "leaves (PATRICIA_BRANCH a n prefix msk l r) = leaves l @ leaves r"

definition paths :: "'v patricia_node \<Rightarrow> u64 set" where
  "paths n = fst ` set (leaves n)"

definition pmap :: "'v patricia_node \<Rightarrow> u64 \<rightharpoonup> 'v" where
  "pmap n = map_of (leaves n)"

definition pmap_opt :: "'v patricia_node option \<Rightarrow> u64 \<rightharpoonup> 'v" where
  "pmap_opt n = (case n of None \<Rightarrow> Map.empty | Some n \<Rightarrow> pmap n)"

fun pat_wf :: "(u64 \<Rightarrow> i64 \<Rightarrow> bool) \<Rightarrow> 'v patricia_node \<Rightarrow> bool" where
  "pat_wf K (PATRICIA_LEAF a x k v) \<longleftrightarrow> K x k"
| "pat_wf K (PATRICIA_BRANCH a n prefix msk l r) \<longleftrightarrow>
     is_mask msk \<and> n = pat_count l + pat_count r \<and> pat_wf K l \<and> pat_wf K r \<and>
     (\<forall>x\<in>paths l. prefix_of x msk = prefix \<and> x AND msk = 0) \<and>
     (\<forall>x\<in>paths r. prefix_of x msk = prefix \<and> x AND msk \<noteq> 0)"

definition pat_wf_opt :: "(u64 \<Rightarrow> i64 \<Rightarrow> bool) \<Rightarrow> 'v patricia_node option \<Rightarrow> bool" where
  "pat_wf_opt K n = pred_option (pat_wf K) n"

lemma paths_simps [simp]:
  "paths (PATRICIA_LEAF a x k v) = {x}"
  "paths (PATRICIA_BRANCH a n prefix msk l r) = paths l \<union> paths r"
  by (auto simp: paths_def)

lemma pmap_opt_simps [simp]: "pmap_opt None = Map.empty" "pmap_opt (Some n) = pmap n"
  by (simp_all add: pmap_opt_def)

lemma pat_wf_opt_simps [simp]: "pat_wf_opt K None" "pat_wf_opt K (Some n) = pat_wf K n"
  by (simp_all add: pat_wf_opt_def)

lemma dom_pmap: "dom (pmap n) = paths n"
  by (simp add: pmap_def paths_def dom_map_of_conv_image_fst)

lemma pmap_None: "pmap n x = None \<longleftrightarrow> x \<notin> paths n"
  by (simp add: domIff flip: dom_pmap)

lemma pmap_leaf [simp]: "pmap (PATRICIA_LEAF a x k v) = [x \<mapsto> v]"
  by (simp add: pmap_def)

lemma paths_nonempty: "paths n \<noteq> {}"
  by (induction n) auto

lemma finite_paths [simp]: "finite (paths n)"
  by (simp add: paths_def)

lemma path_in_region: "pat_wf K (PATRICIA_BRANCH a n prefix msk l r) \<Longrightarrow> x \<in> paths l \<union> paths r \<Longrightarrow> prefix_of x msk = prefix"
  by auto

text \<open>The prefix of a branch is a prefix.\<close>

lemma prefix_of_prefix:
  assumes "pat_wf K (PATRICIA_BRANCH a n prefix msk l r)"
  shows "prefix_of prefix msk = prefix"
proof -
  obtain x where x: "x \<in> paths l" using paths_nonempty by blast
  then have "prefix_of x msk = prefix" "is_mask msk" using assms by auto
  then show ?thesis using prefix_of_idem by blast
qed

text \<open>The meaning of a branch: the prefix says whether a path can occur, the mask in which child.\<close>

lemma pmap_branch:
  assumes "pat_wf K (PATRICIA_BRANCH a n prefix msk l r)"
  shows "pmap (PATRICIA_BRANCH a n prefix msk l r) x =
     (if prefix_of x msk \<noteq> prefix then None else if x AND msk = 0 then pmap l x else pmap r x)"
proof -
  have "pmap (PATRICIA_BRANCH a n prefix msk l r) = pmap r ++ pmap l" by (simp add: pmap_def)
  moreover have "x \<in> paths l \<Longrightarrow> prefix_of x msk = prefix \<and> x AND msk = 0"
    and "x \<in> paths r \<Longrightarrow> prefix_of x msk = prefix \<and> x AND msk \<noteq> 0" using assms by auto
  moreover have "pmap l x = None \<longleftrightarrow> x \<notin> paths l" "pmap r x = None \<longleftrightarrow> x \<notin> paths r" by (simp_all add: pmap_None)
  ultimately show ?thesis by (cases "pmap l x"; cases "pmap r x") (auto simp: map_add_def)
qed

lemma pmap_child:
  assumes wf: "pat_wf K (PATRICIA_BRANCH a n prefix msk l r)"
  shows "pmap l x = (if prefix_of x msk = prefix \<and> x AND msk = 0 then pmap (PATRICIA_BRANCH a n prefix msk l r) x else None)"
    and "pmap r x = (if prefix_of x msk = prefix \<and> x AND msk \<noteq> 0 then pmap (PATRICIA_BRANCH a n prefix msk l r) x else None)"
proof -
  have "pmap l x = None" if "\<not> (prefix_of x msk = prefix \<and> x AND msk = 0)" unfolding pmap_None using wf that by auto
  then show "pmap l x = (if prefix_of x msk = prefix \<and> x AND msk = 0 then pmap (PATRICIA_BRANCH a n prefix msk l r) x else None)"
    using pmap_branch [OF wf, of x] by (cases "prefix_of x msk = prefix"; cases "x AND msk = 0") simp_all
  have "pmap r x = None" if "\<not> (prefix_of x msk = prefix \<and> x AND msk \<noteq> 0)" unfolding pmap_None using wf that by auto
  then show "pmap r x = (if prefix_of x msk = prefix \<and> x AND msk \<noteq> 0 then pmap (PATRICIA_BRANCH a n prefix msk l r) x else None)"
    using pmap_branch [OF wf, of x] by (cases "prefix_of x msk = prefix"; cases "x AND msk = 0") simp_all
qed

lemma pat_count_card: "pat_wf K n \<Longrightarrow> pat_count n = card (paths n)"
proof (induction n)
  case (PATRICIA_BRANCH a n prefix msk l r)
  then have "paths l \<inter> paths r = {}" by auto
  then show ?case using PATRICIA_BRANCH by (simp add: card_Un_disjoint)
qed simp

lemma pat_count_leaves: "pat_wf K n \<Longrightarrow> pat_count n = length (leaves n)"
  by (induction n) auto

section \<open>Search\<close>

fun pnodes :: "'v patricia_node \<Rightarrow> 'v patricia_node set" where
  "pnodes (PATRICIA_LEAF a x k v) = {PATRICIA_LEAF a x k v}"
| "pnodes (PATRICIA_BRANCH a n prefix msk l r) = insert (PATRICIA_BRANCH a n prefix msk l r) (pnodes l \<union> pnodes r)"

definition pnodes_opt :: "'v patricia_node option \<Rightarrow> 'v patricia_node set" where
  "pnodes_opt n = (case n of None \<Rightarrow> {} | Some n \<Rightarrow> pnodes n)"

lemma pnodes_opt_simps [simp]: "pnodes_opt None = {}" "pnodes_opt (Some n) = pnodes n"
  by (simp_all add: pnodes_opt_def)

lemma self_in_pnodes [simp]: "n \<in> pnodes n"
  by (cases n) simp_all

lemma find_node_cases:
  assumes "pat_wf_opt K n"
  shows "case find_node n x of
      None \<Rightarrow> pmap_opt n x = None
    | Some m \<Rightarrow> (\<exists>a k v. m = PATRICIA_LEAF a x k v \<and> pmap_opt n x = Some v \<and> K x k \<and> m \<in> pnodes_opt n)"
  using assms
proof (induction n x rule: find_node.induct)
  case (3 a n prefix msk l r x)
  then have "pat_wf_opt K (Some (if x AND msk = 0 then l else r))" by simp
  then show ?case
    using 3 pmap_branch [of K a n prefix msk l r x] by (simp split: option.splits if_splits) blast+
qed auto

lemma find_node_None: "pat_wf_opt K n \<Longrightarrow> find_node n x = None \<longleftrightarrow> pmap_opt n x = None"
  using find_node_cases [of K n x] by (auto split: option.splits)

lemma find_node_Some:
  "pat_wf_opt K n \<Longrightarrow> find_node n x = Some m \<Longrightarrow>
     \<exists>a k v. m = PATRICIA_LEAF a x k v \<and> pmap_opt n x = Some v \<and> K x k \<and> m \<in> pnodes_opt n"
  using find_node_cases [of K n x] by simp

lemma try_get_node_correct: "pat_wf_opt K n \<Longrightarrow> try_get_node n x = pmap_opt n x"
  using find_node_cases [of K n x] by (auto simp: try_get_node_def split: option.splits)

section \<open>Heaps of nodes\<close>

text \<open>As for the hash map, nodes of one heap with the same address are the same node, and \<open>t\<close> is above every address in use.\<close>

definition pheap :: "'v patricia_node set \<Rightarrow> nat \<Rightarrow> bool" where
  "pheap S t \<longleftrightarrow> (\<forall>m\<in>S. pat_addr m < t) \<and> inj_on pat_addr S"

lemma pheap_later: "pheap S t \<Longrightarrow> t \<le> t' \<Longrightarrow> pheap S t'"
  unfolding pheap_def by (meson order_less_le_trans)

lemma pheap_mono: "pheap S t \<Longrightarrow> T \<subseteq> S \<Longrightarrow> pheap T t"
  unfolding pheap_def by (meson inj_on_subset subsetD)

lemma pheap_same: "pheap S t \<Longrightarrow> m \<in> S \<Longrightarrow> n \<in> S \<Longrightarrow> pat_addr m = pat_addr n \<Longrightarrow> m = n"
  unfolding pheap_def by (auto dest: inj_onD)

lemma pheap_insert: "pheap S t \<Longrightarrow> t \<le> pat_addr n \<Longrightarrow> pat_addr n < t' \<Longrightarrow> pheap (insert n S) t'"
  unfolding pheap_def by (fastforce dest: inj_onD intro: inj_onI)

end
