(* ===== verification/Patricia_Update.thy ===== *)
theory Patricia_Update
  imports Patricia_Node
begin

text \<open>
  The contract of a value policy (locale \<open>patricia_values\<close>) and, under it, the meaning of the operations on a single key:
  insertion and removal change the contents of a tree at one path, keep the invariant, and leave every node in place
  that the change does not concern. Contents are preserved up to the relation \<open>Rv\<close>, as equality and retention of
  values are the caller's.
\<close>

section \<open>The contract of a policy\<close>

locale patricia_values =
  fixes p :: "'v d7_patricia_value_policy"
    and Rv :: "'v \<Rightarrow> 'v \<Rightarrow> bool"
  assumes Rv_equivp: "equivp Rv"
    and same_Rv: "values_same p v w \<Longrightarrow> Rv v w"
    and retain_Rv: "fn (val_retain p) v (val_context p) i = Some v' \<Longrightarrow> Rv v v'"

text \<open>The policy together with the relation between the paths and the keys of the leaves.\<close>

locale patricia_policy = patricia_values p Rv
  for p :: "'v d7_patricia_value_policy" and Rv :: "'v \<Rightarrow> 'v \<Rightarrow> bool" +
  fixes K :: "u64 \<Rightarrow> i64 \<Rightarrow> bool"
    and D :: "u64 \<Rightarrow> i64"
  assumes K_key: "K x k \<Longrightarrow> k = D x"

interpretation default_values: patricia_values "normalize_policy None" "(=)"
  by unfold_locales (simp_all add: normalize_policy_def d7_patricia_value_policy_default_def or_default_def
    values_same_def identity_equal_def identity_retain_def identity_equivp)

definition pat_failing :: "environment \<Rightarrow> 'v d7_patricia_value_policy \<Rightarrow> nat set" where
  "pat_failing E p = {i. \<not> E i \<or> (\<exists>v. fn (val_retain p) v (val_context p) i = None)}"

definition vrel :: "('v \<Rightarrow> 'v \<Rightarrow> bool) \<Rightarrow> (u64 \<rightharpoonup> 'v) \<Rightarrow> (u64 \<rightharpoonup> 'v) \<Rightarrow> bool" where
  "vrel R M N \<longleftrightarrow> (\<forall>x. rel_option R (M x) (N x))"

lemma vrel_None: "vrel R M N \<Longrightarrow> M x = None \<longleftrightarrow> N x = None"
  unfolding vrel_def by (metis option.rel_distinct(1) option.rel_distinct(2) option.exhaust)

lemma vrel_paths: "vrel R (pmap n) N \<Longrightarrow> paths n = dom N"
  unfolding dom_pmap [symmetric] by (auto simp: dom_def vrel_None)

text \<open>What a finished operation leaves: a well-formed tree whose nodes share one heap with those of before.\<close>

definition tree_built :: "(u64 \<Rightarrow> i64 \<Rightarrow> bool) \<Rightarrow> 'v patricia_node set \<Rightarrow> nat \<Rightarrow> 'v patricia_node option \<Rightarrow> bool" where
  "tree_built K S t n \<longleftrightarrow> pat_wf_opt K n \<and> pheap (S \<union> pnodes_opt n) t"

lemma tree_built_present: "pheap S t \<Longrightarrow> pat_wf K n \<Longrightarrow> pnodes n \<subseteq> S \<Longrightarrow> tree_built K S t (Some n)"
  by (simp add: tree_built_def Un_absorb2)

lemma tree_built_None: "pheap S t \<Longrightarrow> tree_built K S t None"
  by (simp add: tree_built_def)

lemma tree_built_heap: "tree_built K S t n \<Longrightarrow> pheap S t"
  unfolding tree_built_def by (rule pheap_mono [where S = "S \<union> pnodes_opt n"]) simp_all

section \<open>Building nodes\<close>

lemma achieves_branch_create:
  assumes "pheap S t" and "pnodes l \<subseteq> S" and "pnodes r \<subseteq> S"
  shows "achieves E (pat_failing E p) t (branch_create px m l r)
    (\<lambda>n t'. \<exists>a. n = PATRICIA_BRANCH a (pat_count l + pat_count r) px m l r \<and> pheap (S \<union> pnodes n) t')"
proof -
  let ?n = "PATRICIA_BRANCH t (pat_count l + pat_count r) px m l r"
  have "S \<union> pnodes ?n = insert ?n S" using assms(2,3) by auto
  moreover have "pheap (insert ?n S) (Suc t)" using assms(1) by (rule pheap_insert) simp_all
  ultimately show ?thesis
    unfolding branch_create_def
    by (intro achieves_andthen [OF achieves_allocate [where Q = "\<lambda>a t'. a = t \<and> t' = Suc t"]] achieves_ret)
      (auto simp: pat_failing_def)
qed

text \<open>Reusing the original branch is indistinguishable from a new one.\<close>

lemma achieves_branch_from_owned:
  assumes heap: "pheap S t" and sub: "pnodes l \<subseteq> S" "pnodes r \<subseteq> S"
    and orig: "pat_wf K (PATRICIA_BRANCH a n px m l0 r0)" "pnodes (PATRICIA_BRANCH a n px m l0 r0) \<subseteq> S"
  shows "achieves E (pat_failing E p) t (branch_from_owned (Some (PATRICIA_BRANCH a n px m l0 r0)) px m l r)
    (\<lambda>n' t'. \<exists>a. n' = PATRICIA_BRANCH a (pat_count l + pat_count r) px m l r \<and> pheap (S \<union> pnodes n') t')"
proof (cases "pat_addr l0 = pat_addr l \<and> pat_addr r0 = pat_addr r")
  case True
  have "l0 \<in> S" "r0 \<in> S" using orig(2) self_in_pnodes [of l0] self_in_pnodes [of r0] by auto
  moreover have "l \<in> S" "r \<in> S" using sub self_in_pnodes by blast+
  ultimately have "l0 = l" "r0 = r" using pheap_same [OF heap] True by blast+
  then show ?thesis
    using orig heap by (auto simp: Un_absorb2 insert_absorb intro!: achieves_ret exI [of _ a])
next
  case False
  then show ?thesis using achieves_branch_create [OF heap sub] by auto
qed

text \<open>A tree none of whose paths a mask tells apart.\<close>

definition apart :: "u64 \<Rightarrow> 'v patricia_node \<Rightarrow> bool" where
  "apart m n \<longleftrightarrow> (\<forall>z\<in>paths n. prefix_of z m = prefix_of (path_or_prefix n) m \<and>
     (z AND m = 0 \<longleftrightarrow> path_or_prefix n AND m = 0))"

lemma apart_leaf [simp]: "apart m (PATRICIA_LEAF a x k v)"
  by (simp add: apart_def)

lemma apart_branch:
  assumes wf: "pat_wf K (PATRICIA_BRANCH a n px msk l r)" and "is_mask m" and "msk < m"
  shows "apart m (PATRICIA_BRANCH a n px msk l r)"
proof -
  have mask: "is_mask msk" using wf by simp
  have "prefix_of z msk = prefix_of px msk" if "z \<in> paths l \<union> paths r" for z
    using path_in_region [OF wf that] prefix_of_prefix [OF wf] by simp
  then have "prefix_of z m = prefix_of px m \<and> (z AND m = 0 \<longleftrightarrow> px AND m = 0)" if "z \<in> paths l \<union> paths r" for z
    using prefix_coarser [OF mask assms(2,3)] that by blast
  then show ?thesis unfolding apart_def by simp
qed

lemma achieves_join_owned:
  fixes l r :: "'v patricia_node"
  assumes heap: "pheap S t" and sub: "pnodes l \<subseteq> S" "pnodes r \<subseteq> S" and wf: "pat_wf K l" "pat_wf K r"
    and ne: "path_or_prefix l \<noteq> path_or_prefix r"
    and apart: "apart (highest_bit (path_or_prefix l XOR path_or_prefix r)) l"
      "apart (highest_bit (path_or_prefix l XOR path_or_prefix r)) r"
  shows "achieves E (pat_failing E p) t (join_owned (path_or_prefix l) l (path_or_prefix r) r)
    (\<lambda>n t'. tree_built K S t' (Some n) \<and> pmap n = pmap l ++ pmap r \<and> paths l \<inter> paths r = {})"
proof -
  define m where "m = highest_bit (path_or_prefix l XOR path_or_prefix r)"
  define px where "px = prefix_of (path_or_prefix l) m"
  note m = highest_bit_differ [OF ne, folded m_def]
  have l: "prefix_of z m = px \<and> (z AND m = 0 \<longleftrightarrow> path_or_prefix l AND m = 0)" if "z \<in> paths l" for z
    using apart(1) that by (simp add: apart_def px_def flip: m_def)
  have r: "prefix_of z m = px \<and> (z AND m = 0 \<longleftrightarrow> path_or_prefix l AND m \<noteq> 0)" if "z \<in> paths r" for z
    using apart(2) that m(2,3) by (simp add: apart_def px_def flip: m_def)
  have disj: "paths l \<inter> paths r = {}" using l r by blast
  have add: "pmap l ++ pmap r = pmap r ++ pmap l" using disj by (intro map_add_comm) (simp add: dom_pmap)
  have app: "pmap (PATRICIA_BRANCH a c px m u w) = pmap w ++ pmap u" for a c and u w :: "'v patricia_node" by (simp add: pmap_def)
  have j: "join_owned (path_or_prefix l) l (path_or_prefix r) r =
      (if path_or_prefix l AND m = 0 then branch_create px m l r else branch_create px m r l)"
    by (simp add: join_owned_def Let_def m_def px_def)
  show ?thesis
  proof (cases "path_or_prefix l AND m = 0")
    case True
    then have "pat_wf K (PATRICIA_BRANCH a (pat_count l + pat_count r) px m l r)" for a using wf m(1) l r by simp
    then show ?thesis
      unfolding j if_P [OF True] using disj add app
      by (intro achieves_weaken [OF achieves_branch_create [OF heap sub]]) (auto simp: tree_built_def)
  next
    case False
    then have "pat_wf K (PATRICIA_BRANCH a (pat_count r + pat_count l) px m r l)" for a using wf m(1) l r by simp
    then show ?thesis
      unfolding j if_not_P [OF False] using disj app
      by (intro achieves_weaken [OF achieves_branch_create [OF heap sub(2,1)]]) (auto simp: tree_built_def)
  qed
qed

section \<open>Insertion\<close>

text \<open>The value insertion leaves at a path that was occupied, and the contents after an insertion.\<close>

definition merged_value :: "(i64 \<Rightarrow> 'v \<Rightarrow> 'v \<Rightarrow> 'v) option \<Rightarrow> bool \<Rightarrow> bool \<Rightarrow> i64 \<Rightarrow> 'v \<Rightarrow> 'v \<Rightarrow> 'v" where
  "merged_value c prefer_existing incoming_is_left k w v =
     (case c of
        Some f \<Rightarrow> if incoming_is_left then f k v w else f k w v
      | None \<Rightarrow> if prefer_existing then w else v)"

definition map_inserted :: "(i64 \<Rightarrow> 'v \<Rightarrow> 'v \<Rightarrow> 'v) option \<Rightarrow> bool \<Rightarrow> bool \<Rightarrow> i64 \<Rightarrow> u64 \<Rightarrow> 'v \<Rightarrow> (u64 \<rightharpoonup> 'v) \<Rightarrow> u64 \<rightharpoonup> 'v" where
  "map_inserted c pe il k x v M =
     M(x \<mapsto> (case M x of None \<Rightarrow> v | Some w \<Rightarrow> merged_value c pe il k w v))"

text \<open>A child replaced in a branch.\<close>

lemma branch_replaced:
  assumes wf: "pat_wf K (PATRICIA_BRANCH a n px m l r)" and "pat_wf K c" and x: "prefix_of x m = px"
    and paths: "paths c \<subseteq> insert x (paths (if x AND m = 0 then l else r))"
  defines "b \<equiv> \<lambda>a'. if x AND m = 0 then PATRICIA_BRANCH a' (pat_count c + pat_count r) px m c r
      else PATRICIA_BRANCH a' (pat_count l + pat_count c) px m l c"
  shows "pat_wf K (b a')" and
    "pmap (b a') y = (if prefix_of y m = px \<and> (y AND m = 0 \<longleftrightarrow> x AND m = 0) then pmap c y
       else pmap (PATRICIA_BRANCH a n px m l r) y)"
proof -
  show wf': "pat_wf K (b a')" using assms by (auto split: if_splits)
  show "pmap (b a') y = (if prefix_of y m = px \<and> (y AND m = 0 \<longleftrightarrow> x AND m = 0) then pmap c y
       else pmap (PATRICIA_BRANCH a n px m l r) y)"
  proof (cases "x AND m = 0")
    case True
    show ?thesis using pmap_branch [OF wf' [unfolded b_def if_P [OF True]], of y] pmap_branch [OF wf, of y] True by (simp add: b_def)
  next
    case False
    show ?thesis using pmap_branch [OF wf' [unfolded b_def if_not_P [OF False]], of y] pmap_branch [OF wf, of y] False by (simp add: b_def)
  qed
qed

context patricia_policy
begin

lemma Rv_refl [simp]: "Rv v v"
  using Rv_equivp by (rule equivp_reflp)

lemma Rv_sym: "Rv a b \<Longrightarrow> Rv b a"
  using Rv_equivp by (rule equivp_symp)

lemma Rv_trans: "Rv a b \<Longrightarrow> Rv b c \<Longrightarrow> Rv a c"
  using Rv_equivp by (rule equivp_transp)

lemma rel_refl [simp]: "rel_option Rv z z"
  by (cases z) simp_all

lemma vrel_refl [simp]: "vrel Rv M M"
  by (simp add: vrel_def)

lemma achieves_leaf_create:
  assumes "pheap S t" and "K x k"
  shows "achieves E (pat_failing E p) t (leaf_create p x k v)
    (\<lambda>n t'. tree_built K S t' (Some n) \<and> (\<exists>a v'. n = PATRICIA_LEAF a x k v' \<and> Rv v' v))"
proof -
  have heap: "pheap (insert (PATRICIA_LEAF t' x k v') S) (Suc t')" if "t \<le> t'" for t' v'
    using pheap_later [OF assms(1) that] by (rule pheap_insert) simp_all
  show ?thesis
    unfolding leaf_create_def
  proof (rule achieves_andthen [OF achieves_callback [where Q = "\<lambda>v' t'. Rv v' v"]])
    fix v' t1
    assume "t \<le> t1" and "Rv v' v"
    then show "achieves E (pat_failing E p) t1 (andthen d7_hamt_allocate (\<lambda>a. ret (PATRICIA_LEAF a x k v')))
      (\<lambda>n t'. tree_built K S t' (Some n) \<and> (\<exists>a v'. n = PATRICIA_LEAF a x k v' \<and> Rv v' v))"
      using heap assms(2)
      by (intro achieves_andthen [OF achieves_allocate [where Q = "\<lambda>a t'. a = t1 \<and> t' = Suc t1"]] achieves_ret)
        (auto simp: pat_failing_def tree_built_def)
  qed (auto simp: pat_failing_def intro: retain_Rv Rv_sym)
qed

definition set_post ::
  "(i64 \<Rightarrow> 'v \<Rightarrow> 'v \<Rightarrow> 'v) option \<Rightarrow> bool \<Rightarrow> bool \<Rightarrow> u64 \<Rightarrow> 'v \<Rightarrow> 'v patricia_node option \<Rightarrow> 'v patricia_node set
     \<Rightarrow> bool \<times> bool \<times> 'v patricia_node \<Rightarrow> nat \<Rightarrow> bool" where
  "set_post c pe il x v n S res t' \<longleftrightarrow>
     (case res of (added, changed, n') \<Rightarrow>
        tree_built K S t' (Some n') \<and> (added \<longleftrightarrow> pmap_opt n x = None) \<and> (\<not> changed \<longrightarrow> n = Some n') \<and>
        vrel Rv (pmap n') (map_inserted c pe il (D x) x v (pmap_opt n)))"

lemma achieves_join_new_leaf:
  assumes heap: "pheap S t" and "K x k" and node: "pat_wf K n" "pnodes n \<subseteq> S"
    and ne: "path_or_prefix n \<noteq> x" and apart: "apart (highest_bit (path_or_prefix n XOR x)) n" and new: "x \<notin> paths n"
  shows "achieves E (pat_failing E p) t (join_new_leaf p n x k v) (set_post c pe il x v (Some n) S)"
  unfolding join_new_leaf_def
proof (rule achieves_andthen [OF achieves_leaf_create [OF heap \<open>K x k\<close>]])
  fix right t1
  assume "t \<le> t1" and "tree_built K S t1 (Some right) \<and> (\<exists>a v'. right = PATRICIA_LEAF a x k v' \<and> Rv v' v)"
  then obtain a v' where right: "right = PATRICIA_LEAF a x k v'" "Rv v' v" and tree_built: "tree_built K S t1 (Some right)" by blast
  let ?S = "S \<union> pnodes right"
  have join: "achieves E (pat_failing E p) t1 (join_owned (path_or_prefix n) n (path_or_prefix right) right)
      (\<lambda>n' t'. tree_built K ?S t' (Some n') \<and> pmap n' = pmap n ++ pmap right \<and> paths n \<inter> paths right = {})"
    using tree_built node ne apart right(1) by (intro achieves_join_owned) (auto simp: tree_built_def)
  have none: "pmap n x = None" using new by (simp add: pmap_None)
  have contents: "vrel Rv (pmap n ++ pmap right) (map_inserted c pe il (D x) x v (pmap n))"
    using none right by (auto simp: vrel_def map_inserted_def map_add_def)
  show "achieves E (pat_failing E p) t1 (andthen (join_owned (path_or_prefix n) n x right) (\<lambda>n. ret (True, True, n)))
      (set_post c pe il x v (Some n) S)"
  proof (rule achieves_andthen)
    show "achieves E (pat_failing E p) t1 (join_owned (path_or_prefix n) n x right)
        (\<lambda>n' t'. tree_built K ?S t' (Some n') \<and> pmap n' = pmap n ++ pmap right \<and> paths n \<inter> paths right = {})"
      using join right(1) by simp
  next
    fix n' t2
    assume "t1 \<le> t2" and *: "tree_built K ?S t2 (Some n') \<and> pmap n' = pmap n ++ pmap right \<and> paths n \<inter> paths right = {}"
    then have "tree_built K S t2 (Some n')" unfolding tree_built_def by (auto elim!: pheap_mono)
    then show "achieves E (pat_failing E p) t2 (ret (True, True, n')) (set_post c pe il x v (Some n) S)"
      using * contents none by (intro achieves_ret) (simp add: set_post_def)
  qed
qed

lemma achieves_resolve_leaf:
  assumes heap: "pheap S t" and leaf: "K x k" "PATRICIA_LEAF a x k w \<in> S" and res: "resolved = merged_value c pe il (D x) w v"
  shows "achieves E (pat_failing E p) t (resolve_leaf p a x k w resolved) (set_post c pe il x v (Some (PATRICIA_LEAF a x k w)) S)"
proof (cases "values_same p w resolved")
  case True
  then show ?thesis
    using assms same_Rv [OF True] unfolding resolve_leaf_def if_P [OF True]
    by (intro achieves_ret) (auto simp: set_post_def vrel_def map_inserted_def tree_built_def insert_absorb)
next
  case False
  show ?thesis
    unfolding resolve_leaf_def if_not_P [OF False] using res
    by (intro achieves_andthen [OF achieves_leaf_create [OF heap leaf(1)]] achieves_ret)
      (auto simp: set_post_def vrel_def map_inserted_def)
qed

lemma set_branch_changed:
  assumes wf: "pat_wf K (PATRICIA_BRANCH a n px m l r)" and sub: "pnodes (PATRICIA_BRANCH a n px m l r) \<subseteq> S"
    and x: "prefix_of x m = px" and post: "set_post c pe il x v (Some (if x AND m = 0 then l else r)) S (added, changed, child) t1"
  shows "achieves E (pat_failing E p) t1
     (andthen (if x AND m = 0 then branch_create px m child r else branch_create px m l child) (\<lambda>n'. ret (added, True, n')))
     (set_post c pe il x v (Some (PATRICIA_BRANCH a n px m l r)) S)"
proof -
  let ?b = "\<lambda>a'. if x AND m = 0 then PATRICIA_BRANCH a' (pat_count child + pat_count r) px m child r
      else PATRICIA_BRANCH a' (pat_count l + pat_count child) px m l child"
  let ?old = "if x AND m = 0 then l else r"
  have tree_built: "tree_built K S t1 (Some child)" and added: "added \<longleftrightarrow> pmap ?old x = None"
    and child: "vrel Rv (pmap child) (map_inserted c pe il (D x) x v (pmap ?old))"
    using post by (simp_all add: set_post_def)
  have "paths child = insert x (paths ?old)"
    using vrel_paths [OF child] by (simp add: map_inserted_def flip: dom_pmap)
  then have paths: "paths child \<subseteq> insert x (paths ?old)" by simp
  have wfc: "pat_wf K child" using tree_built by (simp add: tree_built_def)
  note b = branch_replaced [OF wf wfc x paths]
  have old: "pmap ?old y = pmap (PATRICIA_BRANCH a n px m l r) y" if "prefix_of y m = px" and "y AND m = 0 \<longleftrightarrow> x AND m = 0" for y
    using pmap_branch [OF wf, of y] that by simp
  have rel: "vrel Rv (pmap (?b a')) (map_inserted c pe il (D x) x v (pmap (PATRICIA_BRANCH a n px m l r)))" for a'
    unfolding vrel_def
  proof
    fix y
    have c: "rel_option Rv (pmap child y) (map_inserted c pe il (D x) x v (pmap ?old) y)" using child by (simp add: vrel_def)
    show "rel_option Rv (pmap (?b a') y) (map_inserted c pe il (D x) x v (pmap (PATRICIA_BRANCH a n px m l r)) y)"
      unfolding b(2) using c old [of y] old [OF x] x by (auto simp: map_inserted_def)
  qed
  have create: "achieves E (pat_failing E p) t1 (if x AND m = 0 then branch_create px m child r else branch_create px m l child)
      (\<lambda>n' t'. \<exists>a'. n' = ?b a' \<and> pheap (S \<union> pnodes child \<union> pnodes n') t')"
  proof (cases "x AND m = 0")
    case True
    show ?thesis
      using tree_built sub unfolding if_P [OF True] by (intro achieves_branch_create) (auto simp: tree_built_def)
  next
    case False
    show ?thesis
      using tree_built sub unfolding if_not_P [OF False] by (intro achieves_branch_create) (auto simp: tree_built_def)
  qed
  show ?thesis
  proof (rule achieves_andthen [OF create])
    fix n' t2
    assume "\<exists>a'. n' = ?b a' \<and> pheap (S \<union> pnodes child \<union> pnodes n') t2"
    then obtain a' where n': "n' = ?b a'" and heap: "pheap (S \<union> pnodes child \<union> pnodes n') t2" by blast
    have "pheap (S \<union> pnodes n') t2" using heap by (rule pheap_mono) blast
    then have "tree_built K S t2 (Some n')" using b(1) n' by (simp add: tree_built_def)
    moreover have "added \<longleftrightarrow> pmap (PATRICIA_BRANCH a n px m l r) x = None" using added old [OF x] by simp
    ultimately show "achieves E (pat_failing E p) t2 (ret (added, True, n')) (set_post c pe il x v (Some (PATRICIA_BRANCH a n px m l r)) S)"
      using rel n' by (intro achieves_ret) (simp add: set_post_def)
  qed
qed

lemma set_branch_unchanged:
  assumes wf: "pat_wf K (PATRICIA_BRANCH a n px m l r)" and sub: "pnodes (PATRICIA_BRANCH a n px m l r) \<subseteq> S"
    and x: "prefix_of x m = px" and post: "set_post c pe il x v (Some (if x AND m = 0 then l else r)) S (added, False, child) t1"
  shows "set_post c pe il x v (Some (PATRICIA_BRANCH a n px m l r)) S (added, False, PATRICIA_BRANCH a n px m l r) t1"
proof -
  let ?old = "if x AND m = 0 then l else r"
  have child: "child = ?old" and added: "added \<longleftrightarrow> pmap ?old x = None" and heap: "pheap S t1"
    and rel: "vrel Rv (pmap child) (map_inserted c pe il (D x) x v (pmap ?old))"
    using post by (auto simp: set_post_def tree_built_def elim: pheap_mono)
  have old: "pmap ?old x = pmap (PATRICIA_BRANCH a n px m l r) x" using pmap_branch [OF wf, of x] x by simp
  have "rel_option Rv (pmap ?old x) (map_inserted c pe il (D x) x v (pmap ?old) x)" using rel child by (simp add: vrel_def)
  then have "vrel Rv (pmap (PATRICIA_BRANCH a n px m l r)) (map_inserted c pe il (D x) x v (pmap (PATRICIA_BRANCH a n px m l r)))"
    unfolding vrel_def by (simp add: map_inserted_def old)
  then show ?thesis using added old tree_built_present [OF heap wf sub] by (simp add: set_post_def)
qed

lemma achieves_set_some:
  assumes "pheap S t" and "pat_wf K n" and "pnodes n \<subseteq> S" and "K x k"
  shows "achieves E (pat_failing E p) t (set_node p (Some n) x k v pe c il) (set_post c pe il x v (Some n) S)"
  using assms
proof (induction n arbitrary: t)
  case (PATRICIA_LEAF a x0 k0 w)
  show ?case
  proof (cases "x0 = x")
    case True
    have k0: "k0 = D x" "K x k0" using PATRICIA_LEAF.prems(2) True K_key by auto
    have leaf: "PATRICIA_LEAF a x k0 w \<in> S" using PATRICIA_LEAF.prems(3) True by simp
    note resolve = achieves_resolve_leaf [OF PATRICIA_LEAF.prems(1) k0(2) leaf refl, of E c pe il v]
    have keep: "set_post None True il x v (Some (PATRICIA_LEAF a x k0 w)) S (False, False, PATRICIA_LEAF a x k0 w) t"
      using tree_built_present [OF PATRICIA_LEAF.prems(1,2,3)] True
      by (simp add: set_post_def vrel_def map_inserted_def merged_value_def)
    show ?thesis
      using True resolve keep k0(1) by (cases c; cases pe) (simp_all add: merged_value_def achieves_ret)
  next
    case False
    then show ?thesis
      using achieves_join_new_leaf [OF PATRICIA_LEAF.prems(1,4,2,3)] by simp
  qed
next
  case (PATRICIA_BRANCH a n px m l r)
  note wf = PATRICIA_BRANCH.prems(2) and sub = PATRICIA_BRANCH.prems(3)
  have mask: "is_mask m" using wf by simp
  show ?case
  proof (cases "prefix_of x m = px")
    case False
    then have differ: "prefix_of px m \<noteq> prefix_of x m" using prefix_of_prefix [OF wf] by simp
    then have "px \<noteq> x" by blast
    moreover have "apart (highest_bit (px XOR x)) (PATRICIA_BRANCH a n px m l r)"
      using wf highest_bit_differ(1) [OF \<open>px \<noteq> x\<close>] highest_bit_above [OF mask differ] by (rule apart_branch)
    moreover have "x \<notin> paths (PATRICIA_BRANCH a n px m l r)" using False path_in_region [OF wf] by auto
    ultimately show ?thesis
      using achieves_join_new_leaf [OF PATRICIA_BRANCH.prems(1,4) wf sub] False by simp
  next
    case True
    let ?old = "if x AND m = 0 then l else r"
    have "achieves E (pat_failing E p) t (set_node p (Some ?old) x k v pe c il) (set_post c pe il x v (Some ?old) S)"
      using PATRICIA_BRANCH.IH PATRICIA_BRANCH.prems by auto
    then have "achieves E (pat_failing E p) t (andthen (set_node p (Some ?old) x k v pe c il)
        (\<lambda>(added, changed, child).
           if \<not> changed then ret (added, False, PATRICIA_BRANCH a n px m l r)
           else andthen (if x AND m = 0 then branch_create px m child r else branch_create px m l child)
             (\<lambda>n'. ret (added, True, n')))) (set_post c pe il x v (Some (PATRICIA_BRANCH a n px m l r)) S)"
    proof (rule achieves_andthen)
      fix res t1
      assume *: "set_post c pe il x v (Some ?old) S res t1"
      obtain added changed child where res: "res = (added, changed, child)" by (cases res)
      show "achieves E (pat_failing E p) t1 (case res of (added, changed, child) \<Rightarrow>
           if \<not> changed then ret (added, False, PATRICIA_BRANCH a n px m l r)
           else andthen (if x AND m = 0 then branch_create px m child r else branch_create px m l child)
             (\<lambda>n'. ret (added, True, n'))) (set_post c pe il x v (Some (PATRICIA_BRANCH a n px m l r)) S)"
        unfolding res prod.case
        using set_branch_changed [OF wf sub True * [unfolded res]] set_branch_unchanged [OF wf sub True, of c pe il v added child t1] * res
        by (cases changed) (auto intro!: achieves_ret)
    qed
    then show ?thesis unfolding set_node.simps using True by simp
  qed
qed

lemma achieves_set_node:
  assumes "pheap S t" and "pat_wf_opt K n" and "pnodes_opt n \<subseteq> S" and "K x k"
  shows "achieves E (pat_failing E p) t (set_node p n x k v pe c il) (set_post c pe il x v n S)"
proof (cases n)
  case None
  then show ?thesis
    using assms by (auto simp: set_post_def vrel_def map_inserted_def
        intro!: achieves_andthen [OF achieves_leaf_create [OF assms(1,4)]] achieves_ret)
next
  case (Some m)
  then show ?thesis using assms achieves_set_some by simp
qed

end

section \<open>Removal\<close>

text \<open>Removal is exact: it never compares or retains values.\<close>

definition remove_post :: "(u64 \<Rightarrow> i64 \<Rightarrow> bool) \<Rightarrow> u64 \<Rightarrow> 'v patricia_node option \<Rightarrow> 'v patricia_node set
     \<Rightarrow> bool \<times> 'v patricia_node option \<Rightarrow> nat \<Rightarrow> bool" where
  "remove_post K x n S res t' \<longleftrightarrow>
     (case res of (changed, n') \<Rightarrow>
        tree_built K S t' n' \<and> (changed \<longleftrightarrow> pmap_opt n x \<noteq> None) \<and> (\<not> changed \<longrightarrow> n' = n) \<and>
        pmap_opt n' = (pmap_opt n)(x := None))"

lemma remove_branch_unchanged:
  assumes wf: "pat_wf K (PATRICIA_BRANCH a n px m l r)" and sub: "pnodes (PATRICIA_BRANCH a n px m l r) \<subseteq> S"
    and heap: "pheap S t" and none: "pmap (PATRICIA_BRANCH a n px m l r) x = None"
  shows "remove_post K x (Some (PATRICIA_BRANCH a n px m l r)) S (False, Some (PATRICIA_BRANCH a n px m l r)) t"
  using tree_built_present [OF heap wf sub] none by (auto simp: remove_post_def fun_upd_idem)

lemma remove_branch_changed:
  assumes wf: "pat_wf K (PATRICIA_BRANCH a n px m l r)" and sub: "pnodes (PATRICIA_BRANCH a n px m l r) \<subseteq> S"
    and x: "prefix_of x m = px" and post: "remove_post K x (Some (if x AND m = 0 then l else r)) S (True, child) t"
  shows "achieves E (pat_failing E p) t
     (case child of
        None \<Rightarrow> ret (True, Some (if x AND m = 0 then r else l))
      | Some c \<Rightarrow> andthen (if x AND m = 0 then branch_create px m c r else branch_create px m l c) (\<lambda>n'. ret (True, Some n')))
     (remove_post K x (Some (PATRICIA_BRANCH a n px m l r)) S)"
proof -
  let ?B = "PATRICIA_BRANCH a n px m l r" and ?old = "if x AND m = 0 then l else r"
  have tree_built: "tree_built K S t child" and some: "pmap ?old x \<noteq> None" and child: "pmap_opt child = (pmap ?old)(x := None)"
    using post by (auto simp: remove_post_def)
  have heap: "pheap S t" using tree_built by (rule tree_built_heap)
  have old: "pmap ?old y = pmap ?B y" if "prefix_of y m = px" and "y AND m = 0 \<longleftrightarrow> x AND m = 0" for y
    using pmap_branch [OF wf, of y] that by simp
  show ?thesis
  proof (cases child)
    case None
    let ?other = "if x AND m = 0 then r else l"
    have empty: "pmap ?old y = None" if "y \<noteq> x" for y using fun_cong [OF child, of y] None that by simp
    have other: "pmap ?other y = (if prefix_of y m = px \<and> (y AND m = 0 \<longleftrightarrow> x AND m \<noteq> 0) then pmap ?B y else None)" for y
      using pmap_child [OF wf, of y] by (cases "x AND m = 0") simp_all
    have "pmap ?other y = ((pmap ?B)(x := None)) y" for y
    proof (cases "prefix_of y m = px \<and> (y AND m = 0 \<longleftrightarrow> x AND m = 0)")
      case True
      then show ?thesis using other [of y] old [of y] empty [of y] by auto
    next
      case False
      then have "y \<noteq> x" using x by blast
      then show ?thesis using other [of y] pmap_branch [OF wf, of y] False by auto
    qed
    then have "pmap ?other = (pmap ?B)(x := None)" by (rule ext)
    moreover have "tree_built K S t (Some ?other)" using heap wf sub by (intro tree_built_present) auto
    ultimately show ?thesis using None some old [OF x] by (auto simp: remove_post_def intro!: achieves_ret)
  next
    case (Some c)
    let ?b = "\<lambda>a'. if x AND m = 0 then PATRICIA_BRANCH a' (pat_count c + pat_count r) px m c r
        else PATRICIA_BRANCH a' (pat_count l + pat_count c) px m l c"
    have "paths c = paths ?old - {x}" using child Some by (simp flip: dom_pmap)
    then have paths: "paths c \<subseteq> insert x (paths ?old)" by auto
    have wfc: "pat_wf K c" using tree_built Some by (simp add: tree_built_def)
    note b = branch_replaced [OF wf wfc x paths]
    have map: "pmap (?b a') = (pmap ?B)(x := None)" for a'
    proof
      fix y
      show "pmap (?b a') y = ((pmap ?B)(x := None)) y"
        unfolding b(2) using fun_cong [OF child, of y] Some old [of y] x by auto
    qed
    have create: "achieves E (pat_failing E p) t (if x AND m = 0 then branch_create px m c r else branch_create px m l c)
        (\<lambda>n' t'. \<exists>a'. n' = ?b a' \<and> pheap (S \<union> pnodes c \<union> pnodes n') t')"
      using tree_built sub Some achieves_branch_create [of "S \<union> pnodes c" t c r E p px m]
        achieves_branch_create [of "S \<union> pnodes c" t l c E p px m] by (auto simp: tree_built_def)
    have "achieves E (pat_failing E p) t (andthen (if x AND m = 0 then branch_create px m c r else branch_create px m l c)
        (\<lambda>n'. ret (True, Some n'))) (remove_post K x (Some ?B) S)"
    proof (rule achieves_andthen [OF create])
      fix n' t2
      assume "\<exists>a'. n' = ?b a' \<and> pheap (S \<union> pnodes c \<union> pnodes n') t2"
      then obtain a' where n': "n' = ?b a'" and h: "pheap (S \<union> pnodes c \<union> pnodes n') t2" by blast
      have "pheap (S \<union> pnodes n') t2" using h by (rule pheap_mono) blast
      then have "tree_built K S t2 (Some n')" using b(1) n' by (simp add: tree_built_def)
      then show "achieves E (pat_failing E p) t2 (ret (True, Some n')) (remove_post K x (Some ?B) S)"
        using map n' some old [OF x] by (intro achieves_ret) (auto simp: remove_post_def)
    qed
    then show ?thesis using Some by simp
  qed
qed

lemma achieves_remove_some:
  assumes "pheap S t" and "pat_wf K n" and "pnodes n \<subseteq> S"
  shows "achieves E (pat_failing E p) t (remove_node (Some n) x) (remove_post K x (Some n) S)"
  using assms
proof (induction n arbitrary: t)
  case (PATRICIA_LEAF a x0 k v)
  then show ?case
    using tree_built_present [OF PATRICIA_LEAF] by (auto simp: remove_post_def tree_built_None intro!: achieves_ret)
next
  case (PATRICIA_BRANCH a n px m l r)
  note wf = PATRICIA_BRANCH.prems(2) and sub = PATRICIA_BRANCH.prems(3)
  let ?B = "PATRICIA_BRANCH a n px m l r"
  show ?case
  proof (cases "prefix_of x m = px")
    case False
    then have "pmap ?B x = None" using pmap_branch [OF wf, of x] by simp
    then show ?thesis using remove_branch_unchanged [OF wf sub PATRICIA_BRANCH.prems(1)] False by (auto intro: achieves_ret)
  next
    case True
    let ?old = "if x AND m = 0 then l else r"
    have old: "pmap ?old x = pmap ?B x" using pmap_branch [OF wf, of x] True by simp
    have "achieves E (pat_failing E p) t (remove_node (Some ?old) x) (remove_post K x (Some ?old) S)"
      using PATRICIA_BRANCH.IH PATRICIA_BRANCH.prems by auto
    then have "achieves E (pat_failing E p) t (andthen (remove_node (Some ?old) x)
        (\<lambda>(changed, child).
          if \<not> changed then ret (False, Some ?B)
          else case child of
              None \<Rightarrow> ret (True, Some (if x AND m = 0 then r else l))
            | Some c \<Rightarrow> andthen (if x AND m = 0 then branch_create px m c r else branch_create px m l c) (\<lambda>n'. ret (True, Some n'))))
        (remove_post K x (Some ?B) S)"
    proof (rule achieves_andthen)
      fix res t1
      assume *: "remove_post K x (Some ?old) S res t1"
      obtain changed child where res: "res = (changed, child)" by (cases res)
      have heap: "pheap S t1" using * res by (auto simp: remove_post_def intro: tree_built_heap)
      show "achieves E (pat_failing E p) t1 (case res of (changed, child) \<Rightarrow>
          if \<not> changed then ret (False, Some ?B)
          else case child of
              None \<Rightarrow> ret (True, Some (if x AND m = 0 then r else l))
            | Some c \<Rightarrow> andthen (if x AND m = 0 then branch_create px m c r else branch_create px m l c) (\<lambda>n'. ret (True, Some n')))
        (remove_post K x (Some ?B) S)"
      proof (cases changed)
        case True
        then have "remove_post K x (Some ?old) S (True, child) t1" using * res by simp
        from remove_branch_changed [OF wf sub \<open>prefix_of x m = px\<close> this] show ?thesis
          unfolding res prod.case by (simp only: True not_True_eq_False if_False)
      next
        case False
        then have "pmap ?B x = None" using * res old by (simp add: remove_post_def)
        then show ?thesis
          unfolding res prod.case using remove_branch_unchanged [OF wf sub heap] False by (simp add: achieves_ret)
      qed
    qed
    then show ?thesis unfolding remove_node.simps using True by simp
  qed
qed

lemma achieves_remove_node:
  assumes "pheap S t" and "pat_wf_opt K n" and "pnodes_opt n \<subseteq> S"
  shows "achieves E (pat_failing E p) t (remove_node n x) (remove_post K x n S)"
  using assms achieves_remove_some
  by (cases n) (auto simp: remove_post_def tree_built_None intro!: achieves_ret)

end
