(* ===== verification/Patricia_Combine.thy ===== *)
theory Patricia_Combine
  imports Patricia_Update
begin

text \<open>
  Union, intersection and difference of two Patricia trees. Each is a pointwise operation on contents. The recursion of the
  code follows the regions of two branches: equal regions, one inside a child of the other, or disjoint ones. \<open>side\<close> restricts
  contents to the region of a child, and every pointwise operation commutes with it; so a branch whose children are right on
  their sides is right (\<open>achieves_collapse\<close>), and nothing else is to be shown in any of the cases.
\<close>

section \<open>The regions of the children\<close>

definition side :: "u64 \<Rightarrow> u64 \<Rightarrow> bool \<Rightarrow> (u64 \<rightharpoonup> 'v) \<Rightarrow> u64 \<rightharpoonup> 'v" where
  "side m px left M x = (if prefix_of x m = px \<and> (x AND m = 0) = left then M x else None)"

lemma pmap_sides:
  assumes "pat_wf K (PATRICIA_BRANCH a n px m l r)"
  shows "pmap l = side m px True (pmap (PATRICIA_BRANCH a n px m l r))"
    and "pmap r = side m px False (pmap (PATRICIA_BRANCH a n px m l r))"
  using pmap_child [OF assms] by (auto simp: side_def fun_eq_iff)

text \<open>Contents within the region of a branch, and within the region of one child.\<close>

definition confined :: "u64 \<Rightarrow> u64 \<Rightarrow> (u64 \<rightharpoonup> 'v) \<Rightarrow> bool" where
  "confined m px M \<longleftrightarrow> (\<forall>x. prefix_of x m \<noteq> px \<longrightarrow> M x = None)"

lemma confinedD: "confined m px M \<Longrightarrow> prefix_of x m \<noteq> px \<Longrightarrow> M x = None"
  by (simp add: confined_def)

definition inside :: "u64 \<Rightarrow> u64 \<Rightarrow> bool \<Rightarrow> (u64 \<rightharpoonup> 'v) \<Rightarrow> bool" where
  "inside m px b M \<longleftrightarrow> (\<forall>x v. M x = Some v \<longrightarrow> prefix_of x m = px \<and> (x AND m = 0) = b)"

lemma inside_side: "inside m px b M \<Longrightarrow> side m px b' M = (if b' = b then M else Map.empty)"
proof
  fix x
  assume "inside m px b M"
  then show "side m px b' M x = (if b' = b then M else Map.empty) x"
    by (cases "M x") (auto simp: side_def inside_def)
qed

lemma inside_branch:
  assumes wf: "pat_wf K (PATRICIA_BRANCH a n px msk l r)" and m: "is_mask m" "msk < m"
  shows "inside m (prefix_of px m) (px AND m = 0) (pmap (PATRICIA_BRANCH a n px msk l r))"
  unfolding inside_def
proof (intro allI impI)
  fix x v
  assume "pmap (PATRICIA_BRANCH a n px msk l r) x = Some v"
  then have "x \<in> paths (PATRICIA_BRANCH a n px msk l r)" unfolding dom_pmap [symmetric] by (rule domI)
  then show "prefix_of x m = prefix_of px m \<and> (x AND m = 0) = (px AND m = 0)"
    using apart_branch [OF wf m] unfolding apart_def by simp
qed

lemma vrel_one_side:
  assumes "vrel R Map.empty (side m px b M)" and "vrel R N (side m px (\<not> b) M)"
    and "confined m px M"
  shows "vrel R N M"
  unfolding vrel_def
proof
  fix x
  show "rel_option R (N x) (M x)"
    using vrel_None [OF assms(1), of x] spec [OF assms(2) [unfolded vrel_def], of x] confinedD [OF assms(3), of x]
    by (auto simp: side_def split: if_splits)
qed

text \<open>A branch over children that are right on their sides.\<close>

lemma branch_of_sides:
  assumes mask: "is_mask m" and wf: "pat_wf K l" "pat_wf K r"
    and l: "vrel R (pmap l) (side m px True M)" and r: "vrel R (pmap r) (side m px False M)"
    and M: "confined m px M"
  shows "pat_wf K (PATRICIA_BRANCH a (pat_count l + pat_count r) px m l r)"
    and "vrel R (pmap (PATRICIA_BRANCH a (pat_count l + pat_count r) px m l r)) M"
proof -
  have "x \<in> paths l \<Longrightarrow> prefix_of x m = px \<and> x AND m = 0" for x
    unfolding vrel_paths [OF l] by (auto simp: side_def split: if_splits)
  moreover have "x \<in> paths r \<Longrightarrow> prefix_of x m = px \<and> x AND m \<noteq> 0" for x
    unfolding vrel_paths [OF r] by (auto simp: side_def split: if_splits)
  ultimately show b: "pat_wf K (PATRICIA_BRANCH a (pat_count l + pat_count r) px m l r)" using mask wf by simp
  show "vrel R (pmap (PATRICIA_BRANCH a (pat_count l + pat_count r) px m l r)) M"
    unfolding vrel_def
  proof
    fix x
    show "rel_option R (pmap (PATRICIA_BRANCH a (pat_count l + pat_count r) px m l r) x) (M x)"
      using pmap_branch [OF b, of x] confinedD [OF M, of x] spec [OF l [unfolded vrel_def], of x] spec [OF r [unfolded vrel_def], of x]
      by (auto simp: side_def split: if_splits)
  qed
qed

lemma achieves_branch_of_sides:
  assumes heap: "pheap S t" and sub: "pnodes l \<subseteq> S" "pnodes r \<subseteq> S" and wf: "pat_wf K l" "pat_wf K r"
    and orig: "pat_wf K (PATRICIA_BRANCH a n px m l0 r0)" "pnodes (PATRICIA_BRANCH a n px m l0 r0) \<subseteq> S"
    and l: "vrel R (pmap l) (side m px True M)" and r: "vrel R (pmap r) (side m px False M)"
    and M: "confined m px M"
  shows "achieves E (pat_failing E p) t (branch_from_owned (Some (PATRICIA_BRANCH a n px m l0 r0)) px m l r)
    (\<lambda>n' t'. tree_built K S t' (Some n') \<and> vrel R (pmap n') M)"
proof -
  have mask: "is_mask m" using orig(1) by simp
  note b = branch_of_sides [OF mask wf l r M]
  show ?thesis
    by (rule achieves_weaken [OF achieves_branch_from_owned [OF heap sub orig]]) (auto simp: tree_built_def b simp del: pat_wf.simps pnodes.simps)
qed

lemma achieves_collapse:
  assumes heap: "pheap S t" and sub: "pnodes_opt l \<subseteq> S" "pnodes_opt r \<subseteq> S" and wf: "pat_wf_opt K l" "pat_wf_opt K r"
    and orig: "pat_wf K (PATRICIA_BRANCH a n px m l0 r0)" "pnodes (PATRICIA_BRANCH a n px m l0 r0) \<subseteq> S"
    and l: "vrel R (pmap_opt l) (side m px True M)" and r: "vrel R (pmap_opt r) (side m px False M)"
    and M: "confined m px M"
  shows "achieves E (pat_failing E p) t (collapse_owned (Some (PATRICIA_BRANCH a n px m l0 r0)) px m l r)
    (\<lambda>n' t'. tree_built K S t' n' \<and> vrel R (pmap_opt n') M)"
proof -
  have finish: "achieves E (pat_failing E p) t (ret n') (\<lambda>n' t'. tree_built K S t' n' \<and> vrel R (pmap_opt n') M)"
    if "pat_wf_opt K n'" and "pnodes_opt n' \<subseteq> S" and "vrel R (pmap_opt n') M" for n'
    using that heap by (intro achieves_ret) (simp add: tree_built_def Un_absorb2)
  consider "l = None" | "l \<noteq> None" "r = None" | l' r' where "l = Some l'" "r = Some r'" by auto
  then show ?thesis
  proof cases
    case 1
    then have "vrel R (pmap_opt r) M" using vrel_one_side [of R m px True M "pmap_opt r"] l r M by simp
    then show ?thesis using finish [OF wf(2) sub(2)] 1 by (simp add: collapse_owned_def)
  next
    case 2
    then have "vrel R (pmap_opt l) M" using vrel_one_side [of R m px False M "pmap_opt l"] l r M by simp
    then show ?thesis using finish [OF wf(1) sub(1)] 2 by (auto simp: collapse_owned_def)
  next
    case 3
    have "achieves E (pat_failing E p) t (branch_from_owned (Some (PATRICIA_BRANCH a n px m l0 r0)) px m l' r')
      (\<lambda>n' t'. tree_built K S t' (Some n') \<and> vrel R (pmap n') M)"
      using sub wf l r unfolding 3 by (intro achieves_branch_of_sides heap orig M) simp_all
    then show ?thesis
      unfolding collapse_owned_def 3 prod.case option.case by (rule achieves_andthen) (simp add: achieves_ret)
  qed
qed

section \<open>The pointwise operations\<close>

definition union_map ::
  "(u64 \<Rightarrow> i64) \<Rightarrow> (i64 \<Rightarrow> 'v \<Rightarrow> 'v \<Rightarrow> 'v) option \<Rightarrow> (u64 \<rightharpoonup> 'v) \<Rightarrow> (u64 \<rightharpoonup> 'v) \<Rightarrow> u64 \<rightharpoonup> 'v" where
  "union_map D c M N x =
     (case (M x, N x) of
        (None, z) \<Rightarrow> z
      | (Some v, None) \<Rightarrow> Some v
      | (Some v, Some w) \<Rightarrow> Some (case c of None \<Rightarrow> w | Some f \<Rightarrow> f (D x) v w))"

definition intersect_map ::
  "(u64 \<Rightarrow> i64) \<Rightarrow> (i64 \<Rightarrow> 'v \<Rightarrow> 'v \<Rightarrow> 'v) option \<Rightarrow> (u64 \<rightharpoonup> 'v) \<Rightarrow> (u64 \<rightharpoonup> 'v) \<Rightarrow> u64 \<rightharpoonup> 'v" where
  "intersect_map D c M N x =
     (case (M x, N x) of
        (Some v, Some w) \<Rightarrow> Some (case c of None \<Rightarrow> v | Some f \<Rightarrow> f (D x) v w)
      | _ \<Rightarrow> None)"

definition except_map :: "(u64 \<rightharpoonup> 'v) \<Rightarrow> (u64 \<rightharpoonup> 'v) \<Rightarrow> u64 \<rightharpoonup> 'v" where
  "except_map M N x = (if N x = None then M x else None)"

lemma side_pointwise:
  "union_map D c (side m px b M) (side m px b N) = side m px b (union_map D c M N)"
  "intersect_map D c (side m px b M) (side m px b N) = side m px b (intersect_map D c M N)"
  "except_map (side m px b M) (side m px b N) = side m px b (except_map M N)"
  by (auto simp: side_def fun_eq_iff union_map_def intersect_map_def except_map_def)

lemma pointwise_empty [simp]:
  "union_map D c Map.empty M = M" "union_map D c M Map.empty = M"
  "intersect_map D c Map.empty M = Map.empty" "intersect_map D c M Map.empty = Map.empty"
  "except_map Map.empty M = Map.empty" "except_map M Map.empty = M"
  by (auto simp: fun_eq_iff union_map_def intersect_map_def except_map_def split: option.split)

text \<open>Against contents inside one side, the operation on that side is all there is to do.\<close>

lemma side_inside:
  assumes "inside m px b N"
  shows "side m px b (union_map D c M N) = union_map D c (side m px b M) N"
    and "side m px (\<not> b) (union_map D c M N) = side m px (\<not> b) M"
    and "side m px b (union_map D c N M) = union_map D c N (side m px b M)"
    and "side m px (\<not> b) (union_map D c N M) = side m px (\<not> b) M"
    and "side m px b (except_map M N) = except_map (side m px b M) N"
    and "side m px (\<not> b) (except_map M N) = side m px (\<not> b) M"
  by (simp_all add: inside_side [OF assms] flip: side_pointwise)

lemma intersect_inside:
  assumes "inside m px b N"
  shows "intersect_map D c M N = intersect_map D c (side m px b M) N"
    and "intersect_map D c N M = intersect_map D c N (side m px b M)"
    and "except_map N M = except_map N (side m px b M)"
proof -
  have M: "M x = side m px b M x" if "N x = Some v" for x v using assms that by (simp add: inside_def side_def)
  show "intersect_map D c M N = intersect_map D c (side m px b M) N"
    by (rule ext) (auto simp: intersect_map_def M split: option.split)
  show "intersect_map D c N M = intersect_map D c N (side m px b M)"
    by (rule ext) (auto simp: intersect_map_def M split: option.split)
  show "except_map N M = except_map N (side m px b M)"
  proof
    fix x
    show "except_map N M x = except_map N (side m px b M) x" using M [of x] by (cases "N x") (auto simp: except_map_def)
  qed
qed

text \<open>Contents of disjoint regions.\<close>

lemma disjoint_pointwise:
  assumes "\<And>x. M x = None \<or> N x = None"
  shows "union_map D c M N = M ++ N" and "intersect_map D c M N = Map.empty" and "except_map M N = M"
proof -
  show "union_map D c M N = M ++ N"
  proof
    fix x
    show "union_map D c M N x = (M ++ N) x"
      using assms [of x] by (auto simp: union_map_def map_add_def split: option.split)
  qed
  show "intersect_map D c M N = Map.empty"
  proof
    fix x
    show "intersect_map D c M N x = None" using assms [of x] by (auto simp: intersect_map_def split: option.split)
  qed
  show "except_map M N = M"
  proof
    fix x
    show "except_map M N x = M x" using assms [of x] by (auto simp: except_map_def)
  qed
qed

text \<open>Branches neither of which is inside the other.\<close>

lemma disjoint_branches:
  fixes ll lr rl rr :: "'v patricia_node"
  assumes L: "pat_wf K (PATRICIA_BRANCH a n lx lm ll lr)"
    and R: "pat_wf K (PATRICIA_BRANCH a' n' rx rm rl rr)"
    and eq: "\<not> (lm = rm \<and> lx = rx)" and left: "\<not> (rm < lm \<and> prefix_of rx lm = lx)"
    and right: "\<not> (lm < rm \<and> prefix_of lx rm = rx)"
  shows "lx \<noteq> rx" and "apart (highest_bit (lx XOR rx)) (PATRICIA_BRANCH a n lx lm ll lr)" and "apart (highest_bit (lx XOR rx)) (PATRICIA_BRANCH a' n' rx rm rl rr)"
    and "pmap (PATRICIA_BRANCH a n lx lm ll lr) x = None \<or> pmap (PATRICIA_BRANCH a' n' rx rm rl rr) x = None"
proof -
  have masks: "is_mask lm" "is_mask rm" using L R by auto
  have px: "prefix_of lx lm = lx" "prefix_of rx rm = rx" using prefix_of_prefix [OF L] prefix_of_prefix [OF R] by auto
  have "prefix_of lx (max lm rm) \<noteq> prefix_of rx (max lm rm)"
  proof (cases lm rm rule: linorder_cases)
    case less
    then show ?thesis using right px by (auto simp: max_def)
  next
    case equal
    then show ?thesis using eq px by simp
  next
    case greater
    then show ?thesis using left px by (auto simp: max_def)
  qed
  moreover have "is_mask (max lm rm)" using masks by (simp add: max_def)
  ultimately have above: "max lm rm < highest_bit (lx XOR rx)" by (intro highest_bit_above)
  show ne: "lx \<noteq> rx" using \<open>prefix_of lx (max lm rm) \<noteq> prefix_of rx (max lm rm)\<close> by blast
  have mask: "is_mask (highest_bit (lx XOR rx))" by (rule highest_bit_differ(1) [OF ne])
  show l: "apart (highest_bit (lx XOR rx)) (PATRICIA_BRANCH a n lx lm ll lr)" using above by (intro apart_branch [OF L mask]) simp
  show r: "apart (highest_bit (lx XOR rx)) (PATRICIA_BRANCH a' n' rx rm rl rr)" using above by (intro apart_branch [OF R mask]) simp
  show "pmap (PATRICIA_BRANCH a n lx lm ll lr) x = None \<or> pmap (PATRICIA_BRANCH a' n' rx rm rl rr) x = None"
    using l r highest_bit_differ(3) [OF ne] unfolding pmap_None apart_def by auto
qed

section \<open>Rebuilding a branch\<close>

text \<open>The outcome of a combination: a tree in the heap with the contents asked for.\<close>

definition tree_combined ::
  "(u64 \<Rightarrow> i64 \<Rightarrow> bool) \<Rightarrow> ('v \<Rightarrow> 'v \<Rightarrow> bool) \<Rightarrow> 'v patricia_node set \<Rightarrow> (u64 \<rightharpoonup> 'v) \<Rightarrow> 'v patricia_node option \<Rightarrow> nat \<Rightarrow> bool" where
  "tree_combined K R S M n t \<longleftrightarrow> tree_built K S t n \<and> vrel R (pmap_opt n) M"

lemma tree_combined_present: "pheap S t \<Longrightarrow> pat_wf_opt K n \<Longrightarrow> pnodes_opt n \<subseteq> S \<Longrightarrow> vrel R (pmap_opt n) M \<Longrightarrow> tree_combined K R S M n t"
  by (simp add: tree_combined_def tree_built_def Un_absorb2)

lemma tree_combined_mono: "tree_combined K R S M n t \<Longrightarrow> T \<subseteq> S \<Longrightarrow> tree_combined K R T M n t"
  unfolding tree_combined_def tree_built_def by (auto elim!: pheap_mono)

lemma tree_combined_heap: "tree_combined K R S M n t \<Longrightarrow> pheap (S \<union> pnodes_opt n) t" "tree_combined K R S M n t \<Longrightarrow> pheap S t"
  unfolding tree_combined_def using tree_built_heap by (auto simp: tree_built_def)

lemma tree_combined_Some: "tree_combined K R S M n t \<Longrightarrow> M x \<noteq> None \<Longrightarrow> n \<noteq> None"
  unfolding tree_combined_def by (cases n) (auto dest!: vrel_None [where x = x])

lemma collapse_both:
  assumes orig: "pat_wf K (PATRICIA_BRANCH a n px m l0 r0)" "pnodes (PATRICIA_BRANCH a n px m l0 r0) \<subseteq> S"
    and M: "confined m px M"
    and l: "tree_combined K R S (side m px True M) l t" and r: "tree_combined K R (S \<union> pnodes_opt l) (side m px False M) r t1" and "t \<le> t1"
  shows "achieves E (pat_failing E p) t1 (collapse_owned (Some (PATRICIA_BRANCH a n px m l0 r0)) px m l r) (tree_combined K R S M)"
proof -
  have "achieves E (pat_failing E p) t1 (collapse_owned (Some (PATRICIA_BRANCH a n px m l0 r0)) px m l r)
      (\<lambda>n' t'. tree_built K (S \<union> pnodes_opt l \<union> pnodes_opt r) t' n' \<and> vrel R (pmap_opt n') M)"
    using orig l r M by (intro achieves_collapse) (auto simp: tree_combined_def tree_built_def simp del: pat_wf.simps pnodes.simps)
  then show ?thesis
    by (rule achieves_weaken) (rule tree_combined_mono [where S = "S \<union> pnodes_opt l \<union> pnodes_opt r"], auto simp: tree_combined_def)
qed

lemma collapse_one:
  assumes orig: "pat_wf K (PATRICIA_BRANCH a n px m l0 r0)" "pnodes (PATRICIA_BRANCH a n px m l0 r0) \<subseteq> S"
    and M: "confined m px M" and R: "reflp R"
    and c: "tree_combined K R S (side m px b M) c t"
    and other: "side m px (\<not> b) (pmap (PATRICIA_BRANCH a n px m l0 r0)) = side m px (\<not> b) M"
  shows "achieves E (pat_failing E p) t
    (if b then collapse_owned (Some (PATRICIA_BRANCH a n px m l0 r0)) px m c (Some r0)
     else collapse_owned (Some (PATRICIA_BRANCH a n px m l0 r0)) px m (Some l0) c) (tree_combined K R S M)"
proof -
  have refl: "vrel R N N" for N using R by (simp add: vrel_def option.rel_reflp reflpD)
  have sub: "pat_wf_opt K (Some l0)" "pat_wf_opt K (Some r0)" "pnodes_opt (Some l0) \<subseteq> S" "pnodes_opt (Some r0) \<subseteq> S"
    using orig by auto
  show ?thesis
  proof (cases b)
    case True
    have "tree_combined K R (S \<union> pnodes_opt c) (side m px False M) (Some r0) t"
      using tree_combined_heap(1) [OF c] sub refl other True pmap_sides(2) [OF orig(1)]
      by (intro tree_combined_present) (auto simp: refl)
    then show ?thesis unfolding if_P [OF True] using c True by (intro collapse_both [OF orig M]) auto
  next
    case False
    have "tree_combined K R S (side m px True M) (Some l0) t"
      using tree_combined_heap(2) [OF c] sub refl other False pmap_sides(1) [OF orig(1)]
      by (intro tree_combined_present) (auto simp: refl)
    then show ?thesis
      unfolding if_not_P [OF False] using c False sub by (intro collapse_both [OF orig M]) (auto simp: Un_absorb2)
  qed
qed

section \<open>Combinations of two trees\<close>

text \<open>\<open>combines K R E p l r f M\<close>: on trees \<open>l\<close> and \<open>r\<close> in a heap, the action \<open>f\<close> yields a tree with the contents \<open>M\<close>.\<close>

definition combines ::
  "(u64 \<Rightarrow> i64 \<Rightarrow> bool) \<Rightarrow> ('v \<Rightarrow> 'v \<Rightarrow> bool) \<Rightarrow> environment \<Rightarrow> 'v d7_patricia_value_policy
     \<Rightarrow> 'v patricia_node \<Rightarrow> 'v patricia_node \<Rightarrow> 'v patricia_node option act \<Rightarrow> (u64 \<rightharpoonup> 'v) \<Rightarrow> bool" where
  "combines K R E p l r f M \<longleftrightarrow>
     (\<forall>S t. pheap S t \<longrightarrow> pat_wf K l \<longrightarrow> pat_wf K r \<longrightarrow> pnodes l \<subseteq> S \<longrightarrow> pnodes r \<subseteq> S \<longrightarrow>
        achieves E (pat_failing E p) t f (tree_combined K R S M))"

lemma combinesI:
  assumes "\<And>S t. pheap S t \<Longrightarrow> pat_wf K l \<Longrightarrow> pat_wf K r \<Longrightarrow> pnodes l \<subseteq> S \<Longrightarrow> pnodes r \<subseteq> S \<Longrightarrow>
     achieves E (pat_failing E p) t f (tree_combined K R S M)"
  shows "combines K R E p l r f M"
  using assms by (simp add: combines_def)

lemma combinesD:
  "combines K R E p l r f M \<Longrightarrow> pheap S t \<Longrightarrow> pat_wf K l \<Longrightarrow> pat_wf K r \<Longrightarrow> pnodes l \<subseteq> S \<Longrightarrow> pnodes r \<subseteq> S \<Longrightarrow>
     achieves E (pat_failing E p) t f (tree_combined K R S M)"
  by (simp add: combines_def)

lemma combines_keep:
  assumes "pat_wf K l \<Longrightarrow> pat_wf K r \<Longrightarrow> pat_wf_opt K n \<and> pnodes_opt n \<subseteq> pnodes l \<union> pnodes r \<and> vrel R (pmap_opt n) M"
  shows "combines K R E p l r (ret n) M"
  using assms by (intro combinesI achieves_ret tree_combined_present) auto

text \<open>Equal addresses are equal trees.\<close>

lemma combines_same:
  assumes "pat_addr l = pat_addr r" and "combines K R E p l l f M" and "l = r \<Longrightarrow> M = M'"
  shows "combines K R E p l r f M'"
proof (rule combinesI)
  fix S t
  assume *: "pheap S t" "pat_wf K l" "pat_wf K r" "pnodes l \<subseteq> S" "pnodes r \<subseteq> S"
  then have "l = r" using pheap_same [OF *(1) _ _ assms(1)] self_in_pnodes by blast
  then show "achieves E (pat_failing E p) t f (tree_combined K R S M')" using combinesD [OF assms(2)] * assms(3) by simp
qed

text \<open>Descending into a child of either tree.\<close>

lemma combines_left_child:
  assumes "combines K R E p (if b then l else r) n f M"
  shows "combines K R E p (PATRICIA_BRANCH a c px m l r) n f M"
  using assms by (intro combinesI) (auto split: if_splits dest: combinesD)

lemma combines_right_child:
  assumes "combines K R E p n (if b then l else r) f M"
  shows "combines K R E p n (PATRICIA_BRANCH a c px m l r) f M"
  using assms by (intro combinesI) (auto split: if_splits dest: combinesD)

text \<open>Equal regions. The action \<open>h\<close> that finishes need only do so on the trees that can arise.\<close>

lemma combines_both_by:
  assumes l: "combines K R E p ll rl f (side m px True M)" and r: "combines K R E p lr rr g (side m px False M)"
    and M: "confined m px M"
    and h: "\<And>l r S t. tree_combined K R S (side m px True M) l t \<Longrightarrow> tree_combined K R (S \<union> pnodes_opt l) (side m px False M) r t \<Longrightarrow>
       h l r = collapse_owned (Some (PATRICIA_BRANCH a n px m ll lr)) px m l r"
  shows "combines K R E p (PATRICIA_BRANCH a n px m ll lr) (PATRICIA_BRANCH a' n' px' m' rl rr)
     (andthen f (\<lambda>l. andthen g (\<lambda>r. h l r))) M"
proof (rule combinesI)
  fix S t
  let ?L = "PATRICIA_BRANCH a n px m ll lr" and ?R = "PATRICIA_BRANCH a' n' px' m' rl rr"
  assume heap: "pheap S t" and wf: "pat_wf K ?L" "pat_wf K ?R" and sub: "pnodes ?L \<subseteq> S" "pnodes ?R \<subseteq> S"
  show "achieves E (pat_failing E p) t (andthen f (\<lambda>l. andthen g (\<lambda>r. h l r))) (tree_combined K R S M)"
  proof (rule achieves_andthen)
    show "achieves E (pat_failing E p) t f (tree_combined K R S (side m px True M))"
      using combinesD [OF l heap] wf sub by simp
  next
    fix l' t1
    assume l': "tree_combined K R S (side m px True M) l' t1"
    have "achieves E (pat_failing E p) t1 g (tree_combined K R (S \<union> pnodes_opt l') (side m px False M))"
      using combinesD [OF r tree_combined_heap(1) [OF l']] wf sub by auto
    then show "achieves E (pat_failing E p) t1 (andthen g (\<lambda>r. h l' r)) (tree_combined K R S M)"
    proof (rule achieves_andthen)
      fix r' t2
      assume "t1 \<le> t2" and r': "tree_combined K R (S \<union> pnodes_opt l') (side m px False M) r' t2"
      have "tree_combined K R S (side m px True M) l' t2"
        using l' pheap_later [OF tree_combined_heap(1) [OF l'] \<open>t1 \<le> t2\<close>] by (simp add: tree_combined_def tree_built_def)
      then show "achieves E (pat_failing E p) t2 (h l' r') (tree_combined K R S M)"
        using h r' collapse_both [OF wf(1) sub(1) M l' r' \<open>t1 \<le> t2\<close>] by simp
    qed
  qed
qed

lemmas combines_both = combines_both_by [OF _ _ _ refl]

text \<open>A tree inside one child of a branch.\<close>

lemma combines_one:
  assumes R: "reflp R" and M: "confined m px M"
    and f: "\<And>S t. pheap S t \<Longrightarrow> pat_wf K B \<Longrightarrow> pat_wf K n \<Longrightarrow> pnodes B \<subseteq> S \<Longrightarrow> pnodes n \<subseteq> S \<Longrightarrow>
       achieves E (pat_failing E p) t f (tree_combined K R S (side m px b M))"
    and B: "B = PATRICIA_BRANCH a c px m l r" and other: "side m px (\<not> b) (pmap B) = side m px (\<not> b) M"
    and h: "\<And>ch S t. tree_combined K R S (side m px b M) ch t \<Longrightarrow>
       h ch = (if b then collapse_owned (Some B) px m ch (Some r) else collapse_owned (Some B) px m (Some l) ch)"
    and heap: "pheap S t" "pat_wf K B" "pat_wf K n" "pnodes B \<subseteq> S" "pnodes n \<subseteq> S"
  shows "achieves E (pat_failing E p) t (andthen f h) (tree_combined K R S M)"
proof (rule achieves_andthen [OF f [OF heap]])
  fix ch t1
  assume ch: "tree_combined K R S (side m px b M) ch t1"
  then show "achieves E (pat_failing E p) t1 (h ch) (tree_combined K R S M)"
    using heap(2,4) other unfolding h [OF ch] B by (intro collapse_one M R)
qed

lemma combines_in_left:
  assumes R: "reflp R" and M: "confined m px M"
    and f: "combines K R E p (if b then l else r) n f (side m px b M)"
    and other: "side m px (\<not> b) (pmap (PATRICIA_BRANCH a c px m l r)) = side m px (\<not> b) M"
    and h: "\<And>ch S t. tree_combined K R S (side m px b M) ch t \<Longrightarrow>
       h ch = (if b then collapse_owned (Some (PATRICIA_BRANCH a c px m l r)) px m ch (Some r)
         else collapse_owned (Some (PATRICIA_BRANCH a c px m l r)) px m (Some l) ch)"
  shows "combines K R E p (PATRICIA_BRANCH a c px m l r) n (andthen f h) M"
  by (intro combinesI combines_one [OF R M combinesD [OF combines_left_child [OF f]] refl other h])

lemma combines_in_right:
  assumes R: "reflp R" and M: "confined m px M"
    and f: "combines K R E p n (if b then l else r) f (side m px b M)"
    and other: "side m px (\<not> b) (pmap (PATRICIA_BRANCH a c px m l r)) = side m px (\<not> b) M"
    and h: "\<And>ch S t. tree_combined K R S (side m px b M) ch t \<Longrightarrow>
       h ch = (if b then collapse_owned (Some (PATRICIA_BRANCH a c px m l r)) px m ch (Some r)
         else collapse_owned (Some (PATRICIA_BRANCH a c px m l r)) px m (Some l) ch)"
  shows "combines K R E p n (PATRICIA_BRANCH a c px m l r) (andthen f h) M"
  by (intro combinesI combines_one [OF R M _ refl other h] combinesD [OF combines_right_child [OF f]])

text \<open>Two trees whose paths the highest differing bit of their prefixes tells apart are joined.\<close>

lemma combines_join:
  assumes R: "reflp R" and ne: "path_or_prefix l \<noteq> path_or_prefix r"
    and apart: "apart (highest_bit (path_or_prefix l XOR path_or_prefix r)) l"
      "apart (highest_bit (path_or_prefix l XOR path_or_prefix r)) r"
  shows "combines K R E p l r (andthen (join_owned (path_or_prefix l) l (path_or_prefix r) r) (\<lambda>n. ret (Some n))) (pmap l ++ pmap r)"
proof (rule combinesI)
  fix S t
  assume "pheap S t" "pat_wf K l" "pat_wf K r" "pnodes l \<subseteq> S" "pnodes r \<subseteq> S"
  then have "achieves E (pat_failing E p) t (join_owned (path_or_prefix l) l (path_or_prefix r) r)
      (\<lambda>n t'. tree_built K S t' (Some n) \<and> pmap n = pmap l ++ pmap r \<and> paths l \<inter> paths r = {})"
    using ne apart by (intro achieves_join_owned)
  then show "achieves E (pat_failing E p) t (andthen (join_owned (path_or_prefix l) l (path_or_prefix r) r) (\<lambda>n. ret (Some n)))
      (tree_combined K R S (pmap l ++ pmap r))"
    using R by (elim achieves_andthen) (auto simp: tree_combined_def vrel_def option.rel_reflp reflpD intro!: achieves_ret)
qed

text \<open>Where the code descends: one branch inside a child of the other.\<close>

lemma inside_nested:
  assumes "pat_wf K (PATRICIA_BRANCH a n lx lm ll lr)" and "pat_wf K (PATRICIA_BRANCH a' n' rx rm rl rr)"
    and "rm < lm \<and> prefix_of rx lm = lx"
  shows "inside lm lx (rx AND lm = 0) (pmap (PATRICIA_BRANCH a' n' rx rm rl rr))"
  using inside_branch [OF assms(2), of lm] assms(1,3) by auto

lemma confined_branch:
  assumes "pat_wf K (PATRICIA_BRANCH a n px m l r)"
  shows "confined m px (pmap (PATRICIA_BRANCH a n px m l r))"
  using pmap_branch [OF assms] by (auto simp: confined_def)

lemma confined_inside: "inside m px b M \<Longrightarrow> confined m px M"
  unfolding confined_def inside_def by (metis option.exhaust)

lemma pmap_side:
  "pat_wf K (PATRICIA_BRANCH a n px m l r) \<Longrightarrow> pmap (if b then l else r) = side m px b (pmap (PATRICIA_BRANCH a n px m l r))"
  by (cases b) (use pmap_sides in \<open>auto simp del: pat_wf.simps\<close>)

declare pat_wf.simps(2) [simp del]

lemma wf_child:
  "pat_wf K (PATRICIA_BRANCH a n px m l r) \<Longrightarrow> pat_wf K (if b then l else r)"
  by (simp add: pat_wf.simps(2))

lemma confined_pointwise:
  "confined m px M \<Longrightarrow> confined m px N \<Longrightarrow> confined m px (union_map D c M N)"
  "confined m px M \<Longrightarrow> confined m px (intersect_map D c M N)"
  "confined m px M \<Longrightarrow> confined m px (except_map M N)"
  by (simp_all add: confined_def union_map_def intersect_map_def except_map_def)

section \<open>Difference\<close>

lemma vrel_eq: "vrel (=) M N \<longleftrightarrow> M = N"
  by (simp add: vrel_def option.rel_eq fun_eq_iff)

lemma except_branches:
  fixes ll lr rl rr :: "'v patricia_node"
  assumes wf: "pat_wf K (PATRICIA_BRANCH la ln lx lm ll lr)" "pat_wf K (PATRICIA_BRANCH ra rn rx rm rl rr)"
    and IH: "\<And>l r. size l + size r < size (PATRICIA_BRANCH la ln lx lm ll lr) + size (PATRICIA_BRANCH ra rn rx rm rl rr) \<Longrightarrow>
       pat_wf K l \<Longrightarrow> pat_wf K r \<Longrightarrow> combines K (=) E p l r (except_nodes (Some l) (Some r)) (except_map (pmap l) (pmap r))"
    and addr: "la \<noteq> ra"
  shows "combines K (=) E p (PATRICIA_BRANCH la ln lx lm ll lr) (PATRICIA_BRANCH ra rn rx rm rl rr)
     (except_nodes (Some (PATRICIA_BRANCH la ln lx lm ll lr)) (Some (PATRICIA_BRANCH ra rn rx rm rl rr)))
     (except_map (pmap (PATRICIA_BRANCH la ln lx lm ll lr)) (pmap (PATRICIA_BRANCH ra rn rx rm rl rr)))"
proof -
  let ?L = "PATRICIA_BRANCH la ln lx lm ll lr" and ?R = "PATRICIA_BRANCH ra rn rx rm rl rr"
  let ?M = "except_map (pmap ?L) (pmap ?R)"
  let ?l = "\<lambda>b. if b then ll else lr" and ?r = "\<lambda>b. if b then rl else rr"
  have out: "confined lm lx ?M" using confined_branch [OF wf(1)] by (rule confined_pointwise)
  note sides = pmap_side [OF wf(1), symmetric] pmap_side [OF wf(2), symmetric]
  consider "lm = rm" "lx = rx" | "rm < lm \<and> prefix_of rx lm = lx" | "lm < rm \<and> prefix_of lx rm = rx"
    | "\<not> (lm = rm \<and> lx = rx)" "\<not> (rm < lm \<and> prefix_of rx lm = lx)" "\<not> (lm < rm \<and> prefix_of lx rm = rx)" by blast
  then show ?thesis
  proof cases
    case 1
    have rec: "combines K (=) E p (?l b) (?r b) (except_nodes (Some (?l b)) (Some (?r b))) (side lm lx b ?M)" for b
      unfolding side_pointwise [symmetric] 1 sides sides(1) [unfolded 1]
      by (rule IH) (use wf_child [OF wf(1)] wf_child [OF wf(2)] in auto)
    have eq: "except_nodes (Some ?L) (Some ?R) = andthen (except_nodes (Some ll) (Some rl)) (\<lambda>l.
        andthen (except_nodes (Some lr) (Some rr)) (\<lambda>r. collapse_owned (Some ?L) lx lm l r))"
      using 1 addr by (subst except_nodes.simps(3)) simp
    show ?thesis
      unfolding eq by (rule combines_both [OF rec [of True, unfolded if_True] rec [of False, unfolded if_False] out])
  next
    case 2
    let ?b = "rx AND lm = 0"
    note inside = inside_nested [OF wf 2]
    have rec: "combines K (=) E p (?l ?b) ?R (except_nodes (Some (?l ?b)) (Some ?R)) (side lm lx ?b ?M)"
      unfolding side_inside(5) [OF inside] sides by (rule IH) (use wf_child [OF wf(1)] wf(2) in auto)
    have eq: "except_nodes (Some ?L) (Some ?R) = andthen (except_nodes (Some (?l ?b)) (Some ?R)) (\<lambda>ch.
        if ?b then collapse_owned (Some ?L) lx lm ch (Some lr) else collapse_owned (Some ?L) lx lm (Some ll) ch)"
      using 2 addr by (subst except_nodes.simps(3)) auto
    show ?thesis
      unfolding eq by (rule combines_in_left [OF _ out rec]) (use side_inside(6) [OF inside] in \<open>simp_all add: reflp_eq\<close>)
  next
    case 3
    let ?b = "lx AND rm = 0"
    note inside = inside_nested [OF wf(2,1) 3]
    have rec: "combines K (=) E p ?L (?r ?b) (except_nodes (Some ?L) (Some (?r ?b))) ?M"
      by (subst intersect_inside(3) [OF inside], unfold sides, rule IH) (use wf_child [OF wf(2)] wf(1) in auto)
    have eq: "except_nodes (Some ?L) (Some ?R) = except_nodes (Some ?L) (Some (?r ?b))" using 3 addr by (subst except_nodes.simps(3)) auto
    show ?thesis unfolding eq using rec by (rule combines_right_child)
  next
    case 4
    have eq: "except_nodes (Some ?L) (Some ?R) = ret (Some ?L)" using 4 addr by (subst except_nodes.simps(3)) auto
    have "?M = pmap ?L" using disjoint_branches(4) [OF wf 4] by (rule disjoint_pointwise(3))
    then show ?thesis unfolding eq by (intro combines_keep) (auto simp: vrel_eq)
  qed
qed

lemma combines_except:
  assumes "pat_wf K l" and "pat_wf K r"
  shows "combines K (=) E p l r (except_nodes (Some l) (Some r)) (except_map (pmap l) (pmap r))"
  using assms
proof (induction "size l + size r" arbitrary: l r rule: less_induct)
  case less
  note wf = less.prems
  show ?case
  proof (cases "pat_addr l = pat_addr r")
    case True
    have eq: "except_nodes (Some l) (Some r) = ret None" using True by (subst except_nodes.simps(3)) simp
    show ?thesis
      unfolding eq by (rule combines_same [OF True combines_keep, of _ _ _ Map.empty]) (auto simp: vrel_eq except_map_def fun_eq_iff)
  next
    case False
    consider la lx lk lv where "l = PATRICIA_LEAF la lx lk lv"
      | la ln lx lm ll lr ra rx rk rv where "l = PATRICIA_BRANCH la ln lx lm ll lr" "r = PATRICIA_LEAF ra rx rk rv"
      | la ln lx lm ll lr ra rn rx rm rl rr where "l = PATRICIA_BRANCH la ln lx lm ll lr" "r = PATRICIA_BRANCH ra rn rx rm rl rr"
      by (cases l; cases r) auto
    then show ?thesis
    proof cases
      case 1
      have "try_get_node (Some r) lx = pmap r lx" using try_get_node_correct [of K "Some r" lx] wf(2) by simp
      then have eq: "except_nodes (Some l) (Some r) = ret (if pmap r lx \<noteq> None then None else Some l)"
        using False 1 by (subst except_nodes.simps(3)) auto
      show ?thesis
        unfolding eq by (rule combines_keep) (auto simp: 1 vrel_eq except_map_def fun_eq_iff)
    next
      case 2
      have eq: "except_nodes (Some l) (Some r) = andthen (remove_node (Some l) rx) (\<lambda>(changed, n). ret n)"
        using False 2 by (subst except_nodes.simps(3)) auto
      have "except_map (pmap l) (pmap r) = (pmap l)(rx := None)" by (auto simp: 2 except_map_def fun_eq_iff)
      then show ?thesis
        unfolding eq by (intro combinesI achieves_andthen [OF achieves_remove_some])
          (auto simp: remove_post_def tree_combined_def vrel_eq intro!: achieves_ret)
    next
      case 3
      show ?thesis
        unfolding 3 by (rule except_branches) (use less.hyps wf False in \<open>simp_all add: 3\<close>)
    qed
  qed
qed

section \<open>Intersection\<close>

text \<open>\<open>points K S x n u\<close>: the leaf \<open>n\<close>, if there is one, lies in the heap and says that \<open>u\<close> is the value at \<open>x\<close>.\<close>

definition points ::
  "(u64 \<Rightarrow> i64 \<Rightarrow> bool) \<Rightarrow> 'v patricia_node set \<Rightarrow> u64 \<Rightarrow> 'v patricia_node option \<Rightarrow> 'v option \<Rightarrow> bool" where
  "points K S x n u \<longleftrightarrow>
     (case n of
        None \<Rightarrow> u = None
      | Some m \<Rightarrow> \<exists>a y k v. m = PATRICIA_LEAF a y k v \<and> K y k \<and> m \<in> S \<and> u = (if y = x then Some v else None))"

lemma leaf_at_points: "pat_wf K n \<Longrightarrow> pnodes n \<subseteq> S \<Longrightarrow> points K S x (leaf_at n x) (pmap n x)"
  using find_node_cases [of K "Some n" x] by (cases n) (auto simp: points_def simp del: find_node.simps(3) pnodes.simps(2) split: option.splits)

context patricia_policy
begin

lemma tree_combined_one: "pheap S t \<Longrightarrow> PATRICIA_LEAF a x k v \<in> S \<Longrightarrow> K x k \<Longrightarrow> Rv v w \<Longrightarrow>
    tree_combined K Rv S [x \<mapsto> w] (Some (PATRICIA_LEAF a x k v)) t"
  by (rule tree_combined_present) (auto simp: vrel_def)

lemma achieves_combine_leaves:
  assumes "pheap S t" and "PATRICIA_LEAF la x lk lv \<in> S" and "PATRICIA_LEAF ra x rk rv \<in> S" and "K x lk" and "K x rk"
  shows "achieves E (pat_failing E p) t
    (combine_leaves p (PATRICIA_LEAF la x lk lv) (PATRICIA_LEAF ra x rk rv) x lk lv rv w)
    (\<lambda>n. tree_combined K Rv S [x \<mapsto> w] (Some n))"
proof -
  have create: "achieves E (pat_failing E p) t (leaf_create p x lk w) (\<lambda>n. tree_combined K Rv S [x \<mapsto> w] (Some n))"
    by (rule achieves_weaken [OF achieves_leaf_create [OF assms(1,4)]]) (auto simp: tree_combined_def vrel_def)
  show ?thesis
    unfolding combine_leaves_def
    using create tree_combined_one [OF assms(1,2,4) same_Rv, of w] tree_combined_one [OF assms(1,3,5) same_Rv, of w] by (simp add: achieves_ret)
qed

lemma achieves_intersect_leaves:
  assumes heap: "pheap S t" and l: "points K S x lo u" and r: "points K S x ro w"
    and at: "path_or_prefix (the lo) = x \<and> lo \<noteq> None \<or> path_or_prefix (the ro) = x \<and> ro \<noteq> None"
  shows "achieves E (pat_failing E p) t (intersect_leaves p lo ro c) (tree_combined K Rv S (\<lambda>y. if y = x then intersect_map D c (\<lambda>_. u) (\<lambda>_. w) x else None))"
proof (cases "u = None \<or> w = None")
  case True
  then have none: "(\<lambda>y. if y = x then intersect_map D c (\<lambda>_. u) (\<lambda>_. w) x else None) = Map.empty"
    by (auto simp: intersect_map_def split: option.split)
  have "intersect_leaves p lo ro c = ret None"
    using True l r at by (auto simp: intersect_leaves_def points_def split: option.splits if_splits)
  then show ?thesis unfolding none using heap by (auto intro!: achieves_ret tree_combined_present simp: vrel_def)
next
  case False
  then obtain lv rv where uw: "u = Some lv" "w = Some rv" by auto
  then obtain la lk ra rk where lo: "lo = Some (PATRICIA_LEAF la x lk lv)" "K x lk" "PATRICIA_LEAF la x lk lv \<in> S"
    and ro: "ro = Some (PATRICIA_LEAF ra x rk rv)" "K x rk" "PATRICIA_LEAF ra x rk rv \<in> S"
    using l r by (auto simp: points_def split: option.splits if_splits)
  have M: "(\<lambda>y. if y = x then intersect_map D c (\<lambda>_. u) (\<lambda>_. w) x else None) = [x \<mapsto> (case c of None \<Rightarrow> lv | Some f \<Rightarrow> f (D x) lv rv)]"
    by (auto simp: uw intersect_map_def)
  show ?thesis
    unfolding M lo(1) ro(1) using heap lo ro K_key [OF lo(2)] tree_combined_one
    by (auto simp: intersect_leaves_def split: option.split
        intro!: achieves_ret achieves_andthen [OF achieves_combine_leaves])
qed

lemma intersect_branches:
  assumes wf: "pat_wf K (PATRICIA_BRANCH la ln lx lm ll lr)" "pat_wf K (PATRICIA_BRANCH ra rn rx rm rl rr)"
    and IH: "\<And>l r. size l + size r < size (PATRICIA_BRANCH la ln lx lm ll lr) + size (PATRICIA_BRANCH ra rn rx rm rl rr) \<Longrightarrow>
       pat_wf K l \<Longrightarrow> pat_wf K r \<Longrightarrow>
       combines K Rv E p l r (intersect_nodes p (Some l) (Some r) c) (intersect_map D c (pmap l) (pmap r))"
    and addr: "\<not> (la = ra \<and> c = None)"
  shows "combines K Rv E p (PATRICIA_BRANCH la ln lx lm ll lr) (PATRICIA_BRANCH ra rn rx rm rl rr)
     (intersect_nodes p (Some (PATRICIA_BRANCH la ln lx lm ll lr)) (Some (PATRICIA_BRANCH ra rn rx rm rl rr)) c)
     (intersect_map D c (pmap (PATRICIA_BRANCH la ln lx lm ll lr)) (pmap (PATRICIA_BRANCH ra rn rx rm rl rr)))"
proof -
  let ?L = "PATRICIA_BRANCH la ln lx lm ll lr" and ?R = "PATRICIA_BRANCH ra rn rx rm rl rr"
  let ?M = "intersect_map D c (pmap ?L) (pmap ?R)"
  let ?l = "\<lambda>b. if b then ll else lr" and ?r = "\<lambda>b. if b then rl else rr"
  have out: "confined lm lx ?M" using confined_branch [OF wf(1)] by (rule confined_pointwise)
  note sides = pmap_side [OF wf(1), symmetric] pmap_side [OF wf(2), symmetric]
  note unfolds = intersect_nodes.simps(3)
  consider "lm = rm" "lx = rx" | "rm < lm \<and> prefix_of rx lm = lx" | "lm < rm \<and> prefix_of lx rm = rx"
    | "\<not> (lm = rm \<and> lx = rx)" "\<not> (rm < lm \<and> prefix_of rx lm = lx)" "\<not> (lm < rm \<and> prefix_of lx rm = rx)" by blast
  then show ?thesis
  proof cases
    case 1
    have rec: "combines K Rv E p (?l b) (?r b) (intersect_nodes p (Some (?l b)) (Some (?r b)) c) (side lm lx b ?M)" for b
      unfolding side_pointwise [symmetric] 1 sides sides(1) [unfolded 1]
      by (rule IH) (use wf_child [OF wf(1)] wf_child [OF wf(2)] in auto)
    have eq: "intersect_nodes p (Some ?L) (Some ?R) c = andthen (intersect_nodes p (Some ll) (Some rl) c) (\<lambda>l.
        andthen (intersect_nodes p (Some lr) (Some rr) c) (\<lambda>r. collapse_owned (Some ?L) lx lm l r))"
      using 1 addr by (subst unfolds) auto
    show ?thesis
      unfolding eq by (rule combines_both [OF rec [of True, unfolded if_True] rec [of False, unfolded if_False] out])
  next
    case 2
    let ?b = "rx AND lm = 0"
    have rec: "combines K Rv E p (?l ?b) ?R (intersect_nodes p (Some (?l ?b)) (Some ?R) c) ?M"
      by (subst intersect_inside(1) [OF inside_nested [OF wf 2]], unfold sides, rule IH) (use wf_child [OF wf(1)] wf(2) in auto)
    have eq: "intersect_nodes p (Some ?L) (Some ?R) c = intersect_nodes p (Some (?l ?b)) (Some ?R) c"
      using 2 addr by (subst unfolds) auto
    show ?thesis unfolding eq using rec by (rule combines_left_child)
  next
    case 3
    let ?b = "lx AND rm = 0"
    have rec: "combines K Rv E p ?L (?r ?b) (intersect_nodes p (Some ?L) (Some (?r ?b)) c) ?M"
      by (subst intersect_inside(2) [OF inside_nested [OF wf(2,1) 3]], unfold sides, rule IH) (use wf_child [OF wf(2)] wf(1) in auto)
    have eq: "intersect_nodes p (Some ?L) (Some ?R) c = intersect_nodes p (Some ?L) (Some (?r ?b)) c"
      using 3 addr by (subst unfolds) auto
    show ?thesis unfolding eq using rec by (rule combines_right_child)
  next
    case 4
    have eq: "intersect_nodes p (Some ?L) (Some ?R) c = ret None" using 4 addr by (subst unfolds) auto
    have "?M = Map.empty" using disjoint_branches(4) [OF wf 4] by (rule disjoint_pointwise(2))
    then show ?thesis unfolding eq by (intro combines_keep) simp
  qed
qed

lemma intersect_with_leaf:
  assumes wf: "pat_wf K l" "pat_wf K r" and leaf: "l = PATRICIA_LEAF a x k v \<or> r = PATRICIA_LEAF a x k v"
  shows "combines K Rv E p l r (intersect_leaves p (leaf_at l (path_or_prefix r)) (leaf_at r (path_or_prefix l)) c)
     (intersect_map D c (pmap l) (pmap r))"
proof (rule combinesI)
  fix S t
  assume heap: "pheap S t" and sub: "pnodes l \<subseteq> S" "pnodes r \<subseteq> S"
  have M: "intersect_map D c (pmap l) (pmap r) = (\<lambda>y. if y = x then intersect_map D c (\<lambda>_. pmap l x) (\<lambda>_. pmap r x) x else None)"
    using leaf by (auto simp: intersect_map_def fun_eq_iff split: option.splits if_splits)
  have at: "leaf_at l (path_or_prefix r) = leaf_at l x" "leaf_at r (path_or_prefix l) = leaf_at r x"
    using leaf by (cases l; cases r; auto simp del: find_node.simps)+
  show "achieves E (pat_failing E p) t (intersect_leaves p (leaf_at l (path_or_prefix r)) (leaf_at r (path_or_prefix l)) c)
     (tree_combined K Rv S (intersect_map D c (pmap l) (pmap r)))"
    unfolding M at using leaf heap leaf_at_points [OF wf(1) sub(1)] leaf_at_points [OF wf(2) sub(2)]
    by (intro achieves_intersect_leaves) auto
qed

lemma combines_intersect:
  assumes "pat_wf K l" and "pat_wf K r"
  shows "combines K Rv E p l r (intersect_nodes p (Some l) (Some r) c) (intersect_map D c (pmap l) (pmap r))"
  using assms
proof (induction "size l + size r" arbitrary: l r rule: less_induct)
  case less
  note wf = less.prems
  show ?case
  proof (cases "pat_addr l = pat_addr r \<and> c = None")
    case True
    have eq: "intersect_nodes p (Some l) (Some r) c = ret (Some l)" using True by (subst intersect_nodes.simps(3)) simp
    show ?thesis
      unfolding eq using True
      by (intro combines_same [OF _ combines_keep, of l r _ _ _ "pmap l"]) (auto simp: intersect_map_def fun_eq_iff split: option.split)
  next
    case False
    consider a x k v where "l = PATRICIA_LEAF a x k v \<or> r = PATRICIA_LEAF a x k v"
      | la ln lx lm ll lr ra rn rx rm rl rr where "l = PATRICIA_BRANCH la ln lx lm ll lr" "r = PATRICIA_BRANCH ra rn rx rm rl rr"
      by (cases l; cases r) auto
    then show ?thesis
    proof cases
      case 1
      have "intersect_nodes p (Some l) (Some r) c =
          intersect_leaves p (leaf_at l (path_or_prefix r)) (leaf_at r (path_or_prefix l)) c"
        using False 1 by (subst intersect_nodes.simps(3)) (cases l; cases r; auto simp del: leaf_at.simps)
      then show ?thesis using intersect_with_leaf [OF wf 1] by simp
    next
      case 2
      show ?thesis
        unfolding 2 by (rule intersect_branches) (use less.hyps wf False in \<open>simp_all add: 2\<close>)
    qed
  qed
qed

end

section \<open>Union\<close>

text \<open>A union of trees is never empty, so the null pointers the code would dereference do not arise.\<close>

lemma pmap_nonempty: "\<exists>x. pmap n x \<noteq> None"
  unfolding pmap_None using paths_nonempty [of n] by blast

lemma union_result:
  assumes "tree_combined K R S (union_map D c (pmap l) N) n t \<or> tree_combined K R S (union_map D c N (pmap l)) n t"
  obtains n' where "n = Some n'"
proof -
  obtain x where "pmap l x \<noteq> None" using pmap_nonempty [of l] by (elim exE)
  then have "union_map D c (pmap l) N x \<noteq> None" "union_map D c N (pmap l) x \<noteq> None"
    by (cases "N x"; cases "pmap l x"; simp add: union_map_def)+
  then have "n \<noteq> None" using assms tree_combined_Some by blast
  then show ?thesis using that by blast
qed

context patricia_policy
begin

lemma reflp_Rv: "reflp Rv"
  by (simp add: reflpI)

lemma union_branches:
  assumes wf: "pat_wf K (PATRICIA_BRANCH la ln lx lm ll lr)" "pat_wf K (PATRICIA_BRANCH ra rn rx rm rl rr)"
    and IH: "\<And>l r. size l + size r < size (PATRICIA_BRANCH la ln lx lm ll lr) + size (PATRICIA_BRANCH ra rn rx rm rl rr) \<Longrightarrow>
       pat_wf K l \<Longrightarrow> pat_wf K r \<Longrightarrow>
       combines K Rv E p l r (union_nodes p (Some l) (Some r) c) (union_map D c (pmap l) (pmap r))"
    and addr: "\<not> (la = ra \<and> c = None)"
  shows "combines K Rv E p (PATRICIA_BRANCH la ln lx lm ll lr) (PATRICIA_BRANCH ra rn rx rm rl rr)
     (union_nodes p (Some (PATRICIA_BRANCH la ln lx lm ll lr)) (Some (PATRICIA_BRANCH ra rn rx rm rl rr)) c)
     (union_map D c (pmap (PATRICIA_BRANCH la ln lx lm ll lr)) (pmap (PATRICIA_BRANCH ra rn rx rm rl rr)))"
proof -
  let ?L = "PATRICIA_BRANCH la ln lx lm ll lr" and ?R = "PATRICIA_BRANCH ra rn rx rm rl rr"
  let ?M = "union_map D c (pmap ?L) (pmap ?R)"
  let ?l = "\<lambda>b. if b then ll else lr" and ?r = "\<lambda>b. if b then rl else rr"
  note sides = pmap_side [OF wf(1), symmetric] pmap_side [OF wf(2), symmetric]
  note unfolds = union_nodes.simps(3)
  consider "lm = rm" "lx = rx" | "rm < lm \<and> prefix_of rx lm = lx" | "lm < rm \<and> prefix_of lx rm = rx"
    | "\<not> (lm = rm \<and> lx = rx)" "\<not> (rm < lm \<and> prefix_of rx lm = lx)" "\<not> (lm < rm \<and> prefix_of lx rm = rx)" by blast
  then show ?thesis
  proof cases
    case 1
    have "confined lm lx (pmap ?R)" unfolding 1 by (rule confined_branch [OF wf(2)])
    with confined_branch [OF wf(1)] have out: "confined lm lx ?M" by (rule confined_pointwise)
    have M: "side lm lx b ?M = union_map D c (pmap (?l b)) (pmap (?r b))" for b
      unfolding side_pointwise [symmetric] 1 sides sides(1) [unfolded 1] ..
    have rec: "combines K Rv E p (?l b) (?r b) (union_nodes p (Some (?l b)) (Some (?r b)) c) (side lm lx b ?M)" for b
      unfolding M by (rule IH) (use wf_child [OF wf(1)] wf_child [OF wf(2)] in auto)
    have eq: "union_nodes p (Some ?L) (Some ?R) c = andthen (union_nodes p (Some ll) (Some rl) c) (\<lambda>l.
        andthen (union_nodes p (Some lr) (Some rr) c) (\<lambda>r.
          case (l, r) of
            (Some l', Some r') \<Rightarrow> andthen (branch_from_owned (Some ?L) lx lm l' r') (\<lambda>n. ret (Some n))
          | _ \<Rightarrow> fail Fault))"
      using 1 addr by (subst unfolds) auto
    show ?thesis
      unfolding eq
      by (rule combines_both_by [OF rec [of True, unfolded if_True] rec [of False, unfolded if_False] out], unfold M)
        (elim union_result [OF disjI1], simp add: collapse_owned_def)
  next
    case 2
    let ?b = "rx AND lm = 0"
    note inside = inside_nested [OF wf 2]
    have out: "confined lm lx ?M" using confined_branch [OF wf(1)] confined_inside [OF inside] by (rule confined_pointwise)
    have M: "side lm lx ?b ?M = union_map D c (pmap (?l ?b)) (pmap ?R)" unfolding side_inside(1) [OF inside] sides ..
    have rec: "combines K Rv E p (?l ?b) ?R (union_nodes p (Some (?l ?b)) (Some ?R) c) (side lm lx ?b ?M)"
      unfolding M by (rule IH) (use wf_child [OF wf(1)] wf(2) in auto)
    have eq: "union_nodes p (Some ?L) (Some ?R) c = andthen (union_nodes p (Some (?l ?b)) (Some ?R) c) (\<lambda>merged.
        case merged of
          None \<Rightarrow> fail Fault
        | Some m \<Rightarrow> andthen (if rx AND lm \<noteq> 0 then branch_from_owned (Some ?L) lx lm ll m
                             else branch_from_owned (Some ?L) lx lm m lr) (\<lambda>n. ret (Some n)))"
      using 2 addr by (subst unfolds) auto
    show ?thesis
      unfolding eq
      by (rule combines_in_left [OF reflp_Rv out rec], simp only: side_inside(2) [OF inside], unfold M)
        (elim union_result [OF disjI1], simp add: collapse_owned_def)
  next
    case 3
    let ?b = "lx AND rm = 0"
    note inside = inside_nested [OF wf(2,1) 3]
    have out: "confined rm rx ?M" using confined_inside [OF inside] confined_branch [OF wf(2)] by (rule confined_pointwise)
    have M: "side rm rx ?b ?M = union_map D c (pmap ?L) (pmap (?r ?b))" unfolding side_inside(3) [OF inside] sides ..
    have rec: "combines K Rv E p ?L (?r ?b) (union_nodes p (Some ?L) (Some (?r ?b)) c) (side rm rx ?b ?M)"
      unfolding M by (rule IH) (use wf_child [OF wf(2)] wf(1) in auto)
    have eq: "union_nodes p (Some ?L) (Some ?R) c = andthen (union_nodes p (Some ?L) (Some (?r ?b)) c) (\<lambda>merged.
        case merged of
          None \<Rightarrow> fail Fault
        | Some m \<Rightarrow> andthen (if lx AND rm \<noteq> 0 then branch_from_owned (Some ?R) rx rm rl m
                             else branch_from_owned (Some ?R) rx rm m rr) (\<lambda>n. ret (Some n)))"
      using 3 addr by (subst unfolds) auto
    show ?thesis
      unfolding eq
      by (rule combines_in_right [OF reflp_Rv out rec], simp only: side_inside(4) [OF inside], unfold M)
        (elim union_result [OF disjI1], simp add: collapse_owned_def)
  next
    case 4
    have eq: "union_nodes p (Some ?L) (Some ?R) c = andthen (join_owned lx ?L rx ?R) (\<lambda>n. ret (Some n))"
      using 4 addr by (subst unfolds) auto
    have M: "?M = pmap ?L ++ pmap ?R" using disjoint_branches(4) [OF wf 4] by (rule disjoint_pointwise(1))
    show ?thesis
      unfolding eq M using combines_join [of Rv ?L ?R] reflp_Rv disjoint_branches(1-3) [OF wf 4] by simp
  qed
qed

lemma union_leaves:
  assumes wf: "pat_wf K (PATRICIA_LEAF la lx lk lv)" "pat_wf K (PATRICIA_LEAF ra rx rk rv)" and addr: "\<not> (la = ra \<and> c = None)"
  shows "combines K Rv E p (PATRICIA_LEAF la lx lk lv) (PATRICIA_LEAF ra rx rk rv)
     (union_nodes p (Some (PATRICIA_LEAF la lx lk lv)) (Some (PATRICIA_LEAF ra rx rk rv)) c)
     (union_map D c [lx \<mapsto> lv] [rx \<mapsto> rv])"
proof -
  let ?L = "PATRICIA_LEAF la lx lk lv" and ?R = "PATRICIA_LEAF ra rx rk rv"
  consider "lx \<noteq> rx" | "lx = rx" "c = None" | f where "lx = rx" "c = Some f" by blast
  then show ?thesis
  proof cases
    case 1
    have eq: "union_nodes p (Some ?L) (Some ?R) c = andthen (join_owned lx ?L rx ?R) (\<lambda>n. ret (Some n))"
      using 1 addr by (subst union_nodes.simps(3)) auto
    have M: "union_map D c [lx \<mapsto> lv] [rx \<mapsto> rv] = pmap ?L ++ pmap ?R"
      using 1 by (subst disjoint_pointwise(1)) auto
    show ?thesis unfolding eq M using combines_join [of Rv ?L ?R] reflp_Rv 1 by simp
  next
    case 2
    have eq: "union_nodes p (Some ?L) (Some ?R) c = ret (Some (if values_same p lv rv then ?L else ?R))"
      using 2 addr by (subst union_nodes.simps(3)) auto
    show ?thesis
      unfolding eq using wf same_Rv 2 by (intro combines_keep) (auto simp: vrel_def union_map_def)
  next
    case 3
    have eq: "union_nodes p (Some ?L) (Some ?R) c = andthen (combine_leaves p ?L ?R lx lk lv rv (f lk lv rv)) (\<lambda>n. ret (Some n))"
      using 3 addr by (subst union_nodes.simps(3)) auto
    have M: "union_map D c [lx \<mapsto> lv] [rx \<mapsto> rv] = [lx \<mapsto> f lk lv rv]"
      using 3 K_key wf(1) by (auto simp: union_map_def fun_eq_iff)
    show ?thesis
      unfolding eq M unfolding 3 using wf [unfolded 3]
      by (intro combinesI achieves_andthen [OF achieves_combine_leaves] achieves_ret) simp_all
  qed
qed

text \<open>A leaf is inserted into the branch it meets.\<close>

lemma union_into:
  assumes wf: "pat_wf K n" "K x k"
    and M: "map_inserted c pe il (D x) x v (pmap n) = M"
    and sub: "pheap S t" "pnodes n \<subseteq> S"
  shows "achieves E (pat_failing E p) t (andthen (set_node p (Some n) x k v pe c il) (\<lambda>(added, changed, n). ret (Some n))) (tree_combined K Rv S M)"
  unfolding M [symmetric]
  by (rule achieves_andthen [OF achieves_set_some [OF sub(1) wf(1) sub(2) wf(2)]])
    (auto simp: set_post_def tree_combined_def intro!: achieves_ret)

lemma combines_union:
  assumes "pat_wf K l" and "pat_wf K r"
  shows "combines K Rv E p l r (union_nodes p (Some l) (Some r) c) (union_map D c (pmap l) (pmap r))"
  using assms
proof (induction "size l + size r" arbitrary: l r rule: less_induct)
  case less
  note wf = less.prems
  show ?case
  proof (cases "pat_addr l = pat_addr r \<and> c = None")
    case True
    have eq: "union_nodes p (Some l) (Some r) c = ret (Some l)" using True by (subst union_nodes.simps(3)) simp
    show ?thesis
      unfolding eq using True
      by (intro combines_same [OF _ combines_keep, of l r _ _ _ "pmap l"]) (auto simp: union_map_def fun_eq_iff split: option.split)
  next
    case False
    show ?thesis
    proof (cases l)
      case L: (PATRICIA_LEAF la lx lk lv)
      show ?thesis
      proof (cases r)
        case R: (PATRICIA_LEAF ra rx rk rv)
        show ?thesis using union_leaves wf False unfolding L R by simp
      next
        case R: (PATRICIA_BRANCH ra rn rx rm rl rr)
        have eq: "union_nodes p (Some l) (Some r) c =
            andthen (set_node p (Some r) lx lk lv True c True) (\<lambda>(added, changed, n). ret (Some n))"
          using False by (subst union_nodes.simps(3)) (auto simp: L R)
        have M: "map_inserted c True True (D lx) lx lv (pmap r) = union_map D c (pmap l) (pmap r)"
          by (auto simp: L map_inserted_def union_map_def merged_value_def fun_eq_iff split: option.split)
        show ?thesis unfolding eq using wf M by (intro combinesI union_into) (simp_all add: L)
      qed
    next
      case L: (PATRICIA_BRANCH la ln lx lm ll lr)
      show ?thesis
      proof (cases r)
        case R: (PATRICIA_LEAF ra rx rk rv)
        have eq: "union_nodes p (Some l) (Some r) c =
            andthen (set_node p (Some l) rx rk rv False c False) (\<lambda>(added, changed, n). ret (Some n))"
          using False by (subst union_nodes.simps(3)) (auto simp: L R)
        have M: "map_inserted c False False (D rx) rx rv (pmap l) = union_map D c (pmap l) (pmap r)"
          by (auto simp: R map_inserted_def union_map_def merged_value_def fun_eq_iff split: option.split)
        show ?thesis unfolding eq using wf M by (intro combinesI union_into) (simp_all add: R)
      next
        case R: (PATRICIA_BRANCH ra rn rx rm rl rr)
        show ?thesis
          unfolding L R by (rule union_branches) (use less.hyps wf False in \<open>simp_all add: L R\<close>)
      qed
    qed
  qed
qed

end

end
