(* ===== verification/Patricia_Order.thy ===== *)
theory Patricia_Order
  imports Patricia_Combine
begin

text \<open>
  The order of a Patricia tree. Its leaves stand in ascending order of their paths, so positions and bounds, which the cursors
  compute by descending with the counts, are those of the sorted list of leaves. The two encodings of the code turn the
  order of signed keys into the order of paths (locale \<open>key_encoding\<close>).
\<close>

section \<open>Comparing paths\<close>

lemma bit_unat: "bit (unat (x :: u64)) i \<longleftrightarrow> bit x i"
  by (simp add: bit_unsigned_iff)

lemma drop_less: "drop_bit i (m :: nat) < drop_bit i n \<Longrightarrow> m < n"
  unfolding drop_bit_eq_div by (metis div_le_mono leD leI)

lemma first_difference_less:
  assumes "\<And>j. i < j \<Longrightarrow> bit (x :: u64) j = bit y j" and "\<not> bit x i" and "bit y i"
  shows "x < y"
proof -
  have split: "drop_bit i (n :: nat) = 2 * drop_bit (Suc i) n + of_bool (bit n i)" for n
  proof -
    have "drop_bit (Suc i) n = drop_bit i n div 2" by (simp add: drop_bit_eq_div div_mult2_eq [symmetric] mult.commute)
    then show ?thesis unfolding bit_iff_odd_drop_bit by (cases "odd (drop_bit i n)") simp_all
  qed
  have "drop_bit (Suc i) (unat x) = drop_bit (Suc i) (unat y)"
    using assms(1) by (intro bit_eqI) (simp add: bit_drop_bit_eq bit_unat)
  then have "drop_bit i (unat x) < drop_bit i (unat y)"
    using assms(2,3) by (simp add: split bit_unat)
  then show ?thesis by (simp add: word_less_nat_alt drop_less)
qed

lemma unat_prefix_of: "unat (prefix_of x (2 ^ i)) = push_bit (Suc i) (drop_bit (Suc i) (unat x))"
  by (intro bit_eqI) (auto simp: bit_unat bit_prefix_of bit_push_bit_iff_nat bit_drop_bit_eq simp del: push_bit_Suc)

lemma prefix_of_mono: "is_mask m \<Longrightarrow> x \<le> y \<Longrightarrow> prefix_of x m \<le> prefix_of y m"
  by (auto simp: is_mask_def word_le_nat_alt unat_prefix_of push_bit_eq_mult drop_bit_eq_div div_le_mono)

lemma prefix_of_le: "is_mask m \<Longrightarrow> prefix_of x m \<le> x"
  by (auto simp: is_mask_def word_le_nat_alt unat_prefix_of push_bit_eq_mult drop_bit_eq_div)

text \<open>A path outside the region of a branch is below or above all of it, and the prefix tells which.\<close>

lemma outside_order:
  assumes "is_mask m" and "prefix_of y m = px" and "prefix_of x m \<noteq> px"
  shows "x < px \<Longrightarrow> x < y" and "\<not> x < px \<Longrightarrow> y < x"
proof -
  show "x < px \<Longrightarrow> x < y" using prefix_of_le [OF assms(1), of y] assms(2) by simp
  show "y < x" if "\<not> x < px"
  proof (rule ccontr)
    assume "\<not> y < x"
    then have "prefix_of x m \<le> px" using prefix_of_mono [OF assms(1), of x y] assms(2) by simp
    moreover have "px \<le> prefix_of x m"
      using prefix_of_mono [OF assms(1), of px x] prefix_of_idem [OF assms(1), of y] that assms(2) by simp
    ultimately show False using assms(3) by simp
  qed
qed

lemma sides_order:
  assumes "is_mask m" and "prefix_of x m = prefix_of y m" and "x AND m = 0" and "y AND m \<noteq> 0"
  shows "x < y"
proof -
  obtain i where i: "i < 64" "m = 2 ^ i" using assms(1) by (auto simp: is_mask_def)
  show ?thesis
    using assms(2-4) i(1) unfolding i(2) by (intro first_difference_less [of i]) (simp_all add: prefix_of_eq and_mask)
qed

section \<open>The sorted list of leaves\<close>

lemma children_order:
  assumes "pat_wf K (PATRICIA_BRANCH a n px m l r)" and "x \<in> paths l" and "y \<in> paths r"
  shows "x < y"
  using assms by (intro sides_order [of m]) (auto simp: pat_wf.simps(2))

lemma leaves_sorted: "pat_wf K n \<Longrightarrow> sorted_wrt (<) (map fst (leaves n))"
proof (induction n)
  case (PATRICIA_BRANCH a n px m l r)
  have "x < y" if "x \<in> fst ` set (leaves l)" and "y \<in> fst ` set (leaves r)" for x y
    using children_order [OF PATRICIA_BRANCH.prems] that by (simp add: paths_def)
  then show ?case using PATRICIA_BRANCH by (auto simp: sorted_wrt_append pat_wf.simps(2))
qed simp

lemma entry_at_leaf:
  assumes "pat_wf K n" and "i < pat_count n"
  shows "\<exists>a k. entry_at_node n i = PATRICIA_LEAF a (fst (leaves n ! i)) k (snd (leaves n ! i)) \<and> K (fst (leaves n ! i)) k"
  using assms
proof (induction n arbitrary: i)
  case (PATRICIA_BRANCH a n px m l r)
  have c: "pat_count l = length (leaves l)" using PATRICIA_BRANCH.prems(1) pat_count_leaves by (auto simp: pat_wf.simps(2))
  show ?case
    using PATRICIA_BRANCH by (cases "i < pat_count l") (auto simp: pat_wf.simps(2) nth_append simp flip: c)
qed simp

definition rank_of :: "u64 \<Rightarrow> (u64 \<times> 'v) list \<Rightarrow> nat" where
  "rank_of x es = length (filter (\<lambda>e. fst e < x) es)"

lemma rank_of_append [simp]: "rank_of x (es @ fs) = rank_of x es + rank_of x fs"
  by (simp add: rank_of_def)

lemma rank_of_below: "(\<And>y. y \<in> paths n \<Longrightarrow> x < y) \<Longrightarrow> rank_of x (leaves n) = 0 \<and> x \<notin> paths n"
  by (force simp: rank_of_def filter_empty_conv paths_def)

lemma rank_of_above: "(\<And>y. y \<in> paths n \<Longrightarrow> y < x) \<Longrightarrow> rank_of x (leaves n) = length (leaves n) \<and> x \<notin> paths n"
  by (auto simp: rank_of_def paths_def filter_id_conv intro!: arg_cong [where f = length])

lemma lower_bound_loop_rank:
  assumes "pat_wf K n"
  shows "lower_bound_loop n x base = (base + rank_of x (leaves n), x \<in> paths n)"
  using assms
proof (induction n arbitrary: base)
  case (PATRICIA_LEAF a y k v)
  then show ?case by (simp add: rank_of_def)
next
  case (PATRICIA_BRANCH a n px m l r)
  note wf = PATRICIA_BRANCH.prems
  have mask: "is_mask m" and wfs: "pat_wf K l" "pat_wf K r" using wf by (simp_all add: pat_wf.simps(2))
  have n: "n = length (leaves (PATRICIA_BRANCH a n px m l r))" and c: "pat_count l = length (leaves l)"
    using pat_count_leaves [OF wf] pat_count_leaves [OF wfs(1)] by simp_all
  show ?case
  proof (cases "prefix_of x m = px")
    case False
    let ?B = "PATRICIA_BRANCH a n px m l r"
    have "rank_of x (leaves ?B) = (if x < px then 0 else n) \<and> x \<notin> paths ?B"
    proof (cases "x < px")
      case True
      then have "x < y" if "y \<in> paths ?B" for y using outside_order(1) [OF mask path_in_region [OF wf] False] that by simp
      then show ?thesis using True rank_of_below [of ?B x] by simp
    next
      case px: False
      then have "y < x" if "y \<in> paths ?B" for y using outside_order(2) [OF mask path_in_region [OF wf] False] that by simp
      then show ?thesis using px rank_of_above [of ?B x] n by simp
    qed
    then show ?thesis using False by simp
  next
    case True
    show ?thesis
    proof (cases "x AND m = 0")
      case x: True
      have "x < y" if "y \<in> paths r" for y
        using wf that True x by (intro sides_order [OF mask]) (auto simp: pat_wf.simps(2))
      then show ?thesis using rank_of_below [of r x] PATRICIA_BRANCH.IH(1) [OF wfs(1)] True x by simp
    next
      case x: False
      have "y < x" if "y \<in> paths l" for y
        using wf that True x by (intro sides_order [OF mask]) (auto simp: pat_wf.simps(2))
      then show ?thesis using rank_of_above [of l x] PATRICIA_BRANCH.IH(2) [OF wfs(2)] True x c by simp
    qed
  qed
qed

end
