(* ===== verification/Patricia_Keys.thy ===== *)
theory Patricia_Keys
  imports Patricia
begin

text \<open>
  The two encodings of signed keys as paths. Flipping the sign bit adds half of the range, so the order of paths is the
  order of the signed keys; this is all the collections rely on (locale \<open>key_encoding\<close>). Keys of 32 bits are sign-extended, so they are
  the 64-bit words \<open>keys32\<close>.
\<close>

definition keyed :: "(i64 \<Rightarrow> u64) \<Rightarrow> i64 set \<Rightarrow> u64 \<Rightarrow> i64 \<Rightarrow> bool" where
  "keyed encode keys x k \<longleftrightarrow> k \<in> keys \<and> x = encode k"

locale key_encoding =
  fixes encode :: "i64 \<Rightarrow> u64"
    and decode :: "u64 \<Rightarrow> i64"
    and keys :: "i64 set"
  assumes decode_encode: "k \<in> keys \<Longrightarrow> decode (encode k) = k"
    and encode_order: "k \<in> keys \<Longrightarrow> k' \<in> keys \<Longrightarrow> encode k < encode k' \<longleftrightarrow> sint k < sint k'"
begin

lemma encode_inject: "k \<in> keys \<Longrightarrow> k' \<in> keys \<Longrightarrow> encode k = encode k' \<longleftrightarrow> k = k'"
  using decode_encode by metis

lemma keyed_decode: "keyed encode keys x k \<Longrightarrow> k = decode x"
  by (auto simp: keyed_def decode_encode)

end

definition keys32 :: "i64 set" where
  "keys32 = range (\<lambda>k :: i32. scast k)"

definition decode32 :: "u64 \<Rightarrow> i64" where
  "decode32 x = scast ((ucast x :: u32) XOR 0x80000000)"

definition decode64 :: "u64 \<Rightarrow> i64" where
  "decode64 x = x XOR 0x8000000000000000"

text \<open>Flipping the top bit of a word.\<close>

lemma flip_top_bit:
  fixes x :: "'a::len word"
  shows "x XOR 2 ^ (LENGTH('a) - 1) = x + 2 ^ (LENGTH('a) - 1)"
proof -
  let ?m = "2 ^ (LENGTH('a) - 1) :: 'a word"
  have double: "?m + ?m = 0"
    by (simp flip: mult_2 power_Suc)
  show ?thesis
  proof (cases "bit x (LENGTH('a) - 1)")
    case False
    then have "x AND ?m = 0" by (intro bit_word_eqI) (auto simp: bit_and_iff bit_exp_iff)
    then show ?thesis by (simp add: disjunctive_xor_eq_or disjunctive_add_eq_or)
  next
    case True
    have "(x XOR ?m) AND ?m = 0"
      using True by (intro bit_word_eqI) (auto simp: bit_and_iff bit_xor_iff bit_exp_iff)
    then have "(x XOR ?m) + ?m = (x XOR ?m) XOR ?m" by (simp add: disjunctive_xor_eq_or disjunctive_add_eq_or)
    also have "\<dots> = x" by (simp add: xor.assoc)
    finally have "x + ?m = (x XOR ?m) + (?m + ?m)" by (metis add.assoc)
    then show ?thesis unfolding double by (simp only: add_0_right)
  qed
qed

lemma uint_flipped:
  fixes x :: "'a::len word"
  shows "uint (x XOR 2 ^ (LENGTH('a) - 1)) = sint x + 2 ^ (LENGTH('a) - 1)"
proof -
  have range: "0 \<le> sint x + 2 ^ (LENGTH('a) - 1)" "sint x + 2 ^ (LENGTH('a) - 1) < 2 ^ LENGTH('a)"
    using sint_ge [of x] sint_lt [of x] power_Suc [of "2 :: int" "LENGTH('a) - 1"] by simp_all
  have "x + 2 ^ (LENGTH('a) - 1) = word_of_int (sint x + 2 ^ (LENGTH('a) - 1))"
    by (simp add: wi_hom_syms)
  then have "uint (x + 2 ^ (LENGTH('a) - 1)) = (sint x + 2 ^ (LENGTH('a) - 1)) mod 2 ^ LENGTH('a)"
    by (simp only: uint_word_of_int)
  then show ?thesis unfolding flip_top_bit using range by simp
qed

lemma uint_encode64: "uint (encode64 k) = sint k + 2 ^ 63"
  using uint_flipped [of k] by (simp add: encode64_def)

lemma uint_encode32: "uint (encode32 (scast k)) = sint (k :: i32) + 2 ^ 31"
proof -
  have "ucast (scast k :: i64) = k" by (rule bit_word_eqI) (simp add: bit_simps)
  then show ?thesis
    using uint_flipped [of k] by (simp add: encode32_def uint_up_ucast is_up)
qed

interpretation long_keys: key_encoding encode64 decode64 UNIV
  by unfold_locales (simp_all add: word_less_def uint_encode64, simp add: encode64_def decode64_def xor.assoc)

interpretation int_keys: key_encoding encode32 decode32 keys32
proof
  fix k k' :: i64
  assume "k \<in> keys32"
  then obtain j where j: "k = scast (j :: i32)" by (auto simp: keys32_def)
  have down: "ucast (scast j :: i64) = j" by (rule bit_word_eqI) (simp add: bit_simps)
  have "ucast (ucast (w :: u32) :: u64) = w" for w by (rule bit_word_eqI) (simp add: bit_simps)
  then show "decode32 (encode32 k) = k" by (simp add: j down encode32_def decode32_def xor.assoc)
  assume "k' \<in> keys32"
  then obtain j' where "k' = scast (j' :: i32)" by (auto simp: keys32_def)
  then show "encode32 k < encode32 k' \<longleftrightarrow> sint k < sint k'" by (simp add: j word_less_def uint_encode32)
qed

end
