(* ===== verification/Patricia_Map.thy ===== *)
theory Patricia_Map
  imports Patricia_Order Patricia_Keys
begin

text \<open>
  The maps of \<open>patricia.c\<close> as their clients see them. \<open>pat_ok\<close> is the invariant of a handle, \<open>contents\<close> the partial function from
  signed keys to values it stands for; the locale \<open>patricia_collection\<close> joins the contract of the encoding with that of the value
  policy, and its lemmas carry the results about trees over to handles.
\<close>

definition pat_ok ::
  "(i64 \<Rightarrow> u64) \<Rightarrow> i64 set \<Rightarrow> 'v d7_patricia_value_policy \<Rightarrow> 'v patricia_node set \<Rightarrow> nat \<Rightarrow> 'v d7_patricia_map \<Rightarrow> bool" where
  "pat_ok encode keys p S t m \<longleftrightarrow>
     pheap S t \<and> pnodes_opt (pat_root m) \<subseteq> S \<and> pat_wf_opt (keyed encode keys) (pat_root m) \<and>
     pat_size m = node_count (pat_root m) \<and> pat_policy m = p"

definition contents :: "(i64 \<Rightarrow> u64) \<Rightarrow> i64 set \<Rightarrow> 'v d7_patricia_map \<Rightarrow> i64 \<rightharpoonup> 'v" where
  "contents encode keys m k = (if k \<in> keys then pmap_opt (pat_root m) (encode k) else None)"

text \<open>The nodes in use once an operation has produced a handle.\<close>

definition with_map :: "'v patricia_node set \<Rightarrow> 'v d7_patricia_map \<Rightarrow> 'v patricia_node set" where
  "with_map S m = S \<union> pnodes_opt (pat_root m)"

lemma with_map_upper: "S \<subseteq> with_map S m"
  by (simp add: with_map_def)

lemma pat_ok_later: "pat_ok encode keys p S t m \<Longrightarrow> S \<subseteq> S' \<Longrightarrow> pheap S' t' \<Longrightarrow> pat_ok encode keys p S' t' m"
  by (auto simp: pat_ok_def)

lemma tree_built_pat_ok:
  "tree_built (keyed encode keys) S t n \<Longrightarrow> pat_ok encode keys p (with_map S \<lparr>pat_root = n, pat_size = node_count n, pat_policy = p\<rparr>) t
     \<lparr>pat_root = n, pat_size = node_count n, pat_policy = p\<rparr>"
  by (simp add: pat_ok_def tree_built_def with_map_def)

lemma node_count_card: "pat_wf_opt K n \<Longrightarrow> node_count n = card (dom (pmap_opt n))"
  by (cases n) (simp_all add: node_count_def dom_pmap pat_count_card)

lemma pmap_opt_finite [simp]: "finite (dom (pmap_opt n))"
  by (cases n) (simp_all add: dom_pmap)

locale patricia_collection = key_encoding encode decode keys + patricia_values p Rv
  for encode :: "i64 \<Rightarrow> u64" and decode :: "u64 \<Rightarrow> i64" and keys :: "i64 set"
    and p :: "'v d7_patricia_value_policy" and Rv :: "'v \<Rightarrow> 'v \<Rightarrow> bool"

sublocale patricia_collection < patricia_policy p Rv "keyed encode keys" decode
  by unfold_locales (rule keyed_decode)

interpretation int_collection: patricia_collection encode32 decode32 keys32 "normalize_policy None" "(=)" ..

interpretation long_collection: patricia_collection encode64 decode64 UNIV "normalize_policy None" "(=)" ..

context patricia_collection
begin

abbreviation ok where
  "ok \<equiv> pat_ok encode keys p"

abbreviation at where
  "at \<equiv> contents encode keys"

lemma keyed_encode: "k \<in> keys \<Longrightarrow> keyed encode keys (encode k) k"
  by (simp add: keyed_def)

text \<open>Every path of a tree is the path of a key.\<close>

lemma path_key:
  assumes "pat_wf_opt (keyed encode keys) n" and "pmap_opt n x \<noteq> None"
  shows "decode x \<in> keys \<and> x = encode (decode x)"
proof -
  have "find_node n x \<noteq> None" using find_node_None [OF assms(1), of x] assms(2) by simp
  then obtain m where "find_node n x = Some m" by blast
  then obtain k where "keyed encode keys x k" using find_node_Some [OF assms(1)] by blast
  then show ?thesis by (auto simp: keyed_def decode_encode)
qed

lemma card_at:
  assumes "ok S t m"
  shows "pat_size m = card (dom (at m))"
proof -
  have wf: "pat_wf_opt (keyed encode keys) (pat_root m)" using assms by (simp add: pat_ok_def)
  have "bij_betw encode (dom (at m)) (dom (pmap_opt (pat_root m)))"
  proof (rule bij_betw_imageI)
    show "inj_on encode (dom (at m))"
      by (auto simp: inj_on_def contents_def encode_inject split: if_splits)
    show "encode ` dom (at m) = dom (pmap_opt (pat_root m))"
    proof
      show "encode ` dom (at m) \<subseteq> dom (pmap_opt (pat_root m))" by (auto simp: contents_def split: if_splits)
      show "dom (pmap_opt (pat_root m)) \<subseteq> encode ` dom (at m)"
      proof
        fix x
        assume "x \<in> dom (pmap_opt (pat_root m))"
        then have "x = encode (decode x)" "decode x \<in> dom (at m)"
          using path_key [OF wf, of x] by (auto simp: contents_def)
        then show "x \<in> encode ` dom (at m)" by blast
      qed
    qed
  qed
  then have "card (dom (at m)) = card (dom (pmap_opt (pat_root m)))" by (rule bij_betw_same_card)
  then show ?thesis using assms node_count_card [OF wf] by (simp add: pat_ok_def)
qed

lemma try_get_at: "ok S t m \<Longrightarrow> k \<in> keys \<Longrightarrow> patricia_try_get encode (Some m) k = at m k"
  using try_get_node_correct by (auto simp: patricia_try_get_def pat_ok_def contents_def)

lemma map_create_fine: "pheap S t \<Longrightarrow> normalize_policy pol = p \<Longrightarrow> ok S t (map_create pol) \<and> at (map_create pol) = Map.empty"
  by (auto simp: pat_ok_def contents_def map_create_def node_count_def)

section \<open>Updates\<close>

text \<open>Contents of paths and contents of keys are related alike.\<close>

lemma vrel_at:
  assumes "vrel Rv (pmap_opt (pat_root m')) N" and "\<And>k. k \<in> keys \<Longrightarrow> N (encode k) = M k" and "\<And>k. k \<notin> keys \<Longrightarrow> M k = None"
  shows "vrel Rv (at m') M"
  using assms by (auto simp: vrel_def contents_def) metis

lemma set_size:
  assumes "ok S t m" and "set_post None False False x v (pat_root m) S (added, changed, n) t'"
  shows "pat_size m + (if added then 1 else 0) = node_count (Some n)"
proof -
  have wf: "pat_wf_opt (keyed encode keys) (pat_root m)" "pat_wf_opt (keyed encode keys) (Some n)"
    and rel: "vrel Rv (pmap n) (map_inserted None False False (decode x) x v (pmap_opt (pat_root m)))"
    and added: "added \<longleftrightarrow> pmap_opt (pat_root m) x = None"
    using assms by (auto simp: pat_ok_def set_post_def tree_built_def)
  have "dom (pmap n) = insert x (dom (pmap_opt (pat_root m)))"
    using vrel_paths [OF rel] by (simp add: dom_pmap map_inserted_def)
  then have "node_count (Some n) = card (insert x (dom (pmap_opt (pat_root m))))"
    using node_count_card [OF wf(2)] by simp
  then show ?thesis
    using added assms(1) node_count_card [OF wf(1)] by (simp add: pat_ok_def card_insert_if domIff)
qed

lemma achieves_map_set:
  assumes m: "ok S t m" and k: "k \<in> keys"
  shows "achieves E (pat_failing E p) t (map_set (Some m) k (encode k) v True)
    (\<lambda>m' t'. ok (with_map S m') t' m' \<and> vrel Rv (at m') ((at m)(k \<mapsto> v)))"
proof -
  have pre: "pheap S t" "pat_wf_opt (keyed encode keys) (pat_root m)" "pnodes_opt (pat_root m) \<subseteq> S" "pat_policy m = p"
    using m by (simp_all add: pat_ok_def)
  have "achieves E (pat_failing E p) t (andthen (set_node p (pat_root m) (encode k) k v False None False) (\<lambda>(added, changed, n).
      ret \<lparr>pat_root = Some n, pat_size = pat_size m + (if added then 1 else 0), pat_policy = pat_policy m\<rparr>))
    (\<lambda>m' t'. ok (with_map S m') t' m' \<and> vrel Rv (at m') ((at m)(k \<mapsto> v)))"
  proof (rule achieves_andthen [OF achieves_set_node [OF pre(1-3) keyed_encode [OF k]]])
    fix res t1
    assume *: "set_post None False False (encode k) v (pat_root m) S res t1"
    obtain added changed n where res: "res = (added, changed, n)" by (cases res)
    let ?m = "\<lparr>pat_root = Some n, pat_size = node_count (Some n), pat_policy = p\<rparr>"
    have "tree_built (keyed encode keys) S t1 (Some n)" using * res by (simp add: set_post_def)
    then have ok: "ok (with_map S ?m) t1 ?m" by (rule tree_built_pat_ok)
    have "vrel Rv (at ?m) ((at m)(k \<mapsto> v))"
    proof (rule vrel_at)
      show "vrel Rv (pmap_opt (pat_root ?m)) (map_inserted None False False (decode (encode k)) (encode k) v (pmap_opt (pat_root m)))"
        using * res by (simp add: set_post_def)
    qed (use k in \<open>auto simp: map_inserted_def merged_value_def contents_def encode_inject split: option.split\<close>)
    then show "achieves E (pat_failing E p) t1 (case res of (added, changed, n) \<Rightarrow>
        ret \<lparr>pat_root = Some n, pat_size = pat_size m + (if added then 1 else 0), pat_policy = pat_policy m\<rparr>)
      (\<lambda>m' t'. ok (with_map S m') t' m' \<and> vrel Rv (at m') ((at m)(k \<mapsto> v)))"
      unfolding res prod.case set_size [OF m * [unfolded res]] pre(4) using ok by (intro achieves_ret) simp
  qed
  then show ?thesis by (simp add: map_set_def pre(4))
qed

lemma achieves_map_remove:
  assumes m: "ok S t m" and k: "k \<in> keys"
  shows "achieves E (pat_failing E p) t (map_remove (Some m) (encode k) True)
    (\<lambda>m' t'. ok (with_map S m') t' m' \<and> at m' = (at m)(k := None))"
proof -
  have pre: "pheap S t" "pat_wf_opt (keyed encode keys) (pat_root m)" "pnodes_opt (pat_root m) \<subseteq> S" "pat_policy m = p"
    using m by (simp_all add: pat_ok_def)
  have "achieves E (pat_failing E p) t (andthen (remove_node (pat_root m) (encode k)) (\<lambda>(changed, n).
      ret \<lparr>pat_root = n, pat_size = pat_size m - (if changed then 1 else 0), pat_policy = pat_policy m\<rparr>))
    (\<lambda>m' t'. ok (with_map S m') t' m' \<and> at m' = (at m)(k := None))"
  proof (rule achieves_andthen [OF achieves_remove_node [OF pre(1-3)]])
    fix res t1
    assume *: "remove_post (keyed encode keys) (encode k) (pat_root m) S res t1"
    obtain changed n where res: "res = (changed, n)" by (cases res)
    let ?m = "\<lparr>pat_root = n, pat_size = node_count n, pat_policy = p\<rparr>"
    have tree_built: "tree_built (keyed encode keys) S t1 n" and map: "pmap_opt n = (pmap_opt (pat_root m))(encode k := None)"
      and changed: "changed \<longleftrightarrow> pmap_opt (pat_root m) (encode k) \<noteq> None"
      using * res by (simp_all add: remove_post_def)
    have wf: "pat_wf_opt (keyed encode keys) n" using tree_built by (simp add: tree_built_def)
    have "pat_size m - (if changed then 1 else 0) = node_count n"
      using m changed node_count_card [OF pre(2)] node_count_card [OF wf] map by (simp add: pat_ok_def card_Diff_singleton_if domIff)
    moreover have "at ?m = (at m)(k := None)" using k map by (auto simp: contents_def fun_eq_iff encode_inject)
    ultimately show "achieves E (pat_failing E p) t1 (case res of (changed, n) \<Rightarrow>
        ret \<lparr>pat_root = n, pat_size = pat_size m - (if changed then 1 else 0), pat_policy = pat_policy m\<rparr>)
      (\<lambda>m' t'. ok (with_map S m') t' m' \<and> at m' = (at m)(k := None))"
      unfolding res prod.case pre(4) using tree_built_pat_ok [OF tree_built, of p] by (intro achieves_ret) simp
  qed
  then show ?thesis by (simp add: map_remove_def)
qed

section \<open>Combination of two maps\<close>

lemma achieves_map_algebra:
  assumes l: "ok S t l" and r: "ok S t r"
    and op: "achieves E (pat_failing E p) t (oper p (pat_root l) (pat_root r) c) (tree_combined (keyed encode keys) R S N)"
    and M: "\<And>n. vrel R (pmap_opt n) N \<Longrightarrow> vrel R (at \<lparr>pat_root = n, pat_size = node_count n, pat_policy = p\<rparr>) M"
  shows "achieves E (pat_failing E p) t (map_algebra (Some l) (Some r) True oper c)
    (\<lambda>m' t'. ok (with_map S m') t' m' \<and> vrel R (at m') M)"
proof -
  have pol: "pat_policy l = p" "pat_policy r = p" using l r by (simp_all add: pat_ok_def)
  then have "policies_match l r" by (simp add: policies_match_def)
  moreover have "achieves E (pat_failing E p) t (andthen (oper p (pat_root l) (pat_root r) c) (\<lambda>n.
      ret \<lparr>pat_root = n, pat_size = node_count n, pat_policy = p\<rparr>)) (\<lambda>m' t'. ok (with_map S m') t' m' \<and> vrel R (at m') M)"
    by (rule achieves_andthen [OF op]) (auto simp: tree_combined_def intro!: achieves_ret tree_built_pat_ok M)
  ultimately show ?thesis by (simp add: map_algebra_def pol)
qed

lemma union_trees:
  assumes "pheap S t" and "pat_wf_opt (keyed encode keys) l" and "pat_wf_opt (keyed encode keys) r"
    and "pnodes_opt l \<subseteq> S" and "pnodes_opt r \<subseteq> S"
  shows "achieves E (pat_failing E p) t (union_nodes p l r c)
    (tree_combined (keyed encode keys) Rv S (union_map decode c (pmap_opt l) (pmap_opt r)))"
  using assms combinesD [OF combines_union]
  by (cases l; cases r) (auto intro!: achieves_ret tree_combined_present)

lemma intersect_trees:
  assumes "pheap S t" and "pat_wf_opt (keyed encode keys) l" and "pat_wf_opt (keyed encode keys) r"
    and "pnodes_opt l \<subseteq> S" and "pnodes_opt r \<subseteq> S"
  shows "achieves E (pat_failing E p) t (intersect_nodes p l r c)
    (tree_combined (keyed encode keys) Rv S (intersect_map decode c (pmap_opt l) (pmap_opt r)))"
  using assms combinesD [OF combines_intersect]
  by (cases l; cases r) (auto intro!: achieves_ret tree_combined_present)

lemma except_trees:
  assumes "pheap S t" and "pat_wf_opt (keyed encode keys) l" and "pat_wf_opt (keyed encode keys) r"
    and "pnodes_opt l \<subseteq> S" and "pnodes_opt r \<subseteq> S"
  shows "achieves E (pat_failing E p) t (except_nodes_operation p l r c)
    (tree_combined (keyed encode keys) (=) S (except_map (pmap_opt l) (pmap_opt r)))"
  using assms combinesD [OF combines_except]
  by (cases l; cases r) (auto simp: except_nodes_operation_def vrel_eq intro!: achieves_ret tree_combined_present)

lemma achieves_union:
  assumes "ok S t l" and "ok S t r"
  shows "achieves E (pat_failing E p) t (map_algebra (Some l) (Some r) True union_nodes c)
    (\<lambda>m' t'. ok (with_map S m') t' m' \<and> vrel Rv (at m') (union_map id c (at l) (at r)))"
proof (rule achieves_map_algebra [where oper = union_nodes, OF assms union_trees])
  fix n
  assume "vrel Rv (pmap_opt n) (union_map decode c (pmap_opt (pat_root l)) (pmap_opt (pat_root r)))"
  then show "vrel Rv (at \<lparr>pat_root = n, pat_size = node_count n, pat_policy = p\<rparr>) (union_map id c (at l) (at r))"
    by (intro vrel_at) (auto simp: union_map_def contents_def decode_encode split: option.split)
qed (use assms in \<open>simp_all add: pat_ok_def\<close>)

lemma achieves_intersect:
  assumes "ok S t l" and "ok S t r"
  shows "achieves E (pat_failing E p) t (map_algebra (Some l) (Some r) True intersect_nodes c)
    (\<lambda>m' t'. ok (with_map S m') t' m' \<and> vrel Rv (at m') (intersect_map id c (at l) (at r)))"
proof (rule achieves_map_algebra [where oper = intersect_nodes, OF assms intersect_trees])
  fix n
  assume "vrel Rv (pmap_opt n) (intersect_map decode c (pmap_opt (pat_root l)) (pmap_opt (pat_root r)))"
  then show "vrel Rv (at \<lparr>pat_root = n, pat_size = node_count n, pat_policy = p\<rparr>) (intersect_map id c (at l) (at r))"
    by (intro vrel_at) (auto simp: intersect_map_def contents_def decode_encode split: option.split)
qed (use assms in \<open>simp_all add: pat_ok_def\<close>)

lemma achieves_except:
  assumes "ok S t l" and "ok S t r"
  shows "achieves E (pat_failing E p) t (map_algebra (Some l) (Some r) True except_nodes_operation c)
    (\<lambda>m' t'. ok (with_map S m') t' m' \<and> at m' = except_map (at l) (at r))"
proof -
  have "achieves E (pat_failing E p) t (map_algebra (Some l) (Some r) True except_nodes_operation c)
    (\<lambda>m' t'. ok (with_map S m') t' m' \<and> vrel (=) (at m') (except_map (at l) (at r)))"
  proof (rule achieves_map_algebra [where oper = except_nodes_operation, OF assms except_trees])
    fix n
    assume "vrel (=) (pmap_opt n) (except_map (pmap_opt (pat_root l)) (pmap_opt (pat_root r)))"
    then show "vrel (=) (at \<lparr>pat_root = n, pat_size = node_count n, pat_policy = p\<rparr>) (except_map (at l) (at r))"
      by (auto simp: vrel_eq except_map_def contents_def fun_eq_iff)
  qed (use assms in \<open>simp_all add: pat_ok_def\<close>)
  then show ?thesis by (simp add: vrel_eq)
qed

end

end
