(* ===== verification/Patricia_Cursor.thy ===== *)
theory Patricia_Cursor
  imports Patricia_Map
begin

text \<open>
  Visiting and cursors. A visitor sees the entries of a map in ascending order of the signed keys. A cursor is a gap in
  that list: what it reports and how it edits the map is what the list operations at the gap do (\<open>zipper\<close>).
\<close>

section \<open>Lists of entries in the order of their keys\<close>

definition in_order :: "(i64 \<times> 'v) list \<Rightarrow> bool" where
  "in_order es \<longleftrightarrow> sorted_wrt (<) (map (\<lambda>e. sint (fst e)) es)"

definition key_rank :: "i64 \<Rightarrow> (i64 \<times> 'v) list \<Rightarrow> nat" where
  "key_rank k es = length (filter (\<lambda>e. sint (fst e) < sint k) es)"

lemma in_order_distinct: "in_order es \<Longrightarrow> distinct (map fst es)"
proof -
  assume "in_order es"
  then have "distinct (map (\<lambda>e. sint (fst e)) es)" unfolding in_order_def strict_sorted_iff by (rule conjunct2)
  then show ?thesis by (simp add: distinct_map inj_on_def sint_inject)
qed

text \<open>Such a list is determined by its contents.\<close>

lemma vrel_entries:
  assumes "in_order es" and "in_order fs" and "vrel R (map_of es) (map_of fs)"
  shows "list_all2 (rel_prod (=) R) es fs"
proof -
  have "fst ` set es = fst ` set fs"
    using vrel_None [OF assms(3)] unfolding map_of_eq_None_iff by blast
  then have "set (map (\<lambda>e. sint (fst e)) es) = set (map (\<lambda>e. sint (fst e)) fs)"
    by (simp flip: image_image [of sint fst])
  then have maps: "map (\<lambda>e. sint (fst e)) es = map (\<lambda>e. sint (fst e)) fs"
    using assms(1,2) by (intro strict_sorted_equal) (simp_all add: in_order_def)
  then have len: "length es = length fs" by (rule map_eq_imp_length_eq)
  have "fst (es ! i) = fst (fs ! i) \<and> R (snd (es ! i)) (snd (fs ! i))" if i: "i < length es" for i
  proof -
    have "map (\<lambda>e. sint (fst e)) es ! i = map (\<lambda>e. sint (fst e)) fs ! i" unfolding maps ..
    then have key: "fst (es ! i) = fst (fs ! i)" using i len by (simp add: sint_inject)
    have "map_of es (fst (es ! i)) = Some (snd (es ! i))" "map_of fs (fst (fs ! i)) = Some (snd (fs ! i))"
      using assms(1,2) i len in_order_distinct by (auto intro!: map_of_is_SomeI)
    then show ?thesis using spec [OF assms(3) [unfolded vrel_def], of "fst (es ! i)"] key by simp
  qed
  then show ?thesis using len by (auto simp: list_all2_conv_all_nth rel_prod_sel)
qed

text \<open>Inserting at the rank of a key, and removing at a position, keep a list in order and change its contents at one key.\<close>

lemma in_order_split:
  assumes "in_order es" and "i = key_rank k es"
  shows "\<forall>e\<in>set (take i es). sint (fst e) < sint k" and "\<forall>e\<in>set (drop i es). sint k \<le> sint (fst e)"
proof -
  let ?P = "\<lambda>e :: i64 \<times> 'a. sint (fst e) < sint k"
  have "filter ?P es = takeWhile ?P es"
    using assms(1)
  proof (induction es)
    case (Cons e es)
    show ?case
    proof (cases "?P e")
      case False
      then have "\<not> ?P f" if "f \<in> set es" for f using Cons.prems that by (force simp: in_order_def)
      then show ?thesis using False by (simp add: filter_empty_conv)
    qed (use Cons in \<open>simp add: in_order_def\<close>)
  qed simp
  then have i: "i = length (takeWhile ?P es)" using assms(2) by (simp add: key_rank_def)
  show "\<forall>e\<in>set (take i es). sint (fst e) < sint k" unfolding i takeWhile_eq_take [symmetric] using set_takeWhileD by fast
  have "drop i es = dropWhile ?P es" unfolding i by (rule dropWhile_eq_drop [symmetric])
  moreover have "sint k \<le> sint (fst e)" if "e \<in> set (dropWhile ?P es)" for e
    using assms(1) that
  proof (induction es)
    case (Cons f es)
    show ?case
    proof (cases "?P f")
      case False
      then have "e = f \<or> sint (fst f) < sint (fst e)" using Cons.prems by (auto simp: in_order_def)
      then show ?thesis using False by auto
    qed (use Cons in \<open>simp add: in_order_def\<close>)
  qed simp
  ultimately show "\<forall>e\<in>set (drop i es). sint k \<le> sint (fst e)" by simp
qed

lemma insert_at_rank:
  assumes order: "in_order es" and new: "k \<notin> fst ` set es"
  shows "in_order (insert_at (key_rank k es) (k, v) es)"
    and "map_of (insert_at (key_rank k es) (k, v) es) = (map_of es)(k \<mapsto> v)"
proof -
  let ?i = "key_rank k es"
  have low: "sint (fst e) < sint k" if "e \<in> set (take ?i es)" for e using in_order_split(1) [OF order refl, of k] that by blast
  have high: "sint k < sint (fst e)" if "e \<in> set (drop ?i es)" for e
  proof -
    have "e \<in> set es" using that by (rule in_set_dropD)
    then have "fst e \<noteq> k" using new by blast
    then have "sint (fst e) \<noteq> sint k" by (simp add: sint_inject)
    then show ?thesis using in_order_split(2) [OF order refl, of k] that by fastforce
  qed
  have "sorted_wrt (<) (map (\<lambda>e. sint (fst e)) (take ?i es))" "sorted_wrt (<) (map (\<lambda>e. sint (fst e)) (drop ?i es))"
    using order unfolding in_order_def take_map [symmetric] drop_map [symmetric] by (simp_all add: sorted_wrt_take sorted_wrt_drop)
  then show "in_order (insert_at ?i (k, v) es)"
    using low less_trans [OF low high] high unfolding in_order_def insert_at_def by (auto simp: sorted_wrt_append)
  have "k \<notin> fst ` set (take ?i es)" using low by auto
  then have "map_of (take ?i es) k = None" by (simp add: map_of_eq_None_iff)
  moreover have "map_of es = map_of (drop ?i es) ++ map_of (take ?i es)" by (metis append_take_drop_id map_of_append)
  ultimately show "map_of (insert_at ?i (k, v) es) = (map_of es)(k \<mapsto> v)"
    by (auto simp: insert_at_def fun_eq_iff map_add_def split: option.split)
qed

lemma remove_at_position:
  assumes order: "in_order es" and "i < length es"
  shows "in_order (remove_at i es)" and "map_of (remove_at i es) = (map_of es)(fst (es ! i) := None)"
proof -
  have split: "es = take i es @ es ! i # drop (Suc i) es" using assms(2) by (rule id_take_nth_drop)
  have s: "in_order (take i es @ es ! i # drop (Suc i) es)" using order split by simp
  then show "in_order (remove_at i es)" unfolding remove_at_def in_order_def by (auto simp: sorted_wrt_append)
  have "distinct (map fst (take i es @ es ! i # drop (Suc i) es))" using s by (rule in_order_distinct)
  then have "fst (es ! i) \<notin> fst ` set (take i es)" "fst (es ! i) \<notin> fst ` set (drop (Suc i) es)" by simp_all
  then have none: "map_of (take i es) (fst (es ! i)) = None" "map_of (drop (Suc i) es) (fst (es ! i)) = None"
    by (simp_all add: map_of_eq_None_iff)
  have "map_of es = map_of (take i es @ (fst (es ! i), snd (es ! i)) # drop (Suc i) es)" using split by simp
  then show "map_of (remove_at i es) = (map_of es)(fst (es ! i) := None)"
    using none by (auto simp: remove_at_def fun_eq_iff map_add_def split: option.split)
qed

text \<open>Replacing the value at a position.\<close>

lemma update_at_position:
  assumes order: "in_order es" and "i < length es"
  shows "in_order (es[i := (fst (es ! i), v)])" and "map_of (es[i := (fst (es ! i), v)]) = (map_of es)(fst (es ! i) \<mapsto> v)"
proof -
  have keys: "map fst (es[i := (fst (es ! i), v)]) = map fst es" using assms(2) by (simp add: map_update list_update_same_conv)
  have "map (\<lambda>e. sint (fst e)) (es[i := (fst (es ! i), v)]) = map (\<lambda>e. sint (fst e)) es"
    using arg_cong [OF keys, of "map sint"] by (simp add: comp_def)
  then show o: "in_order (es[i := (fst (es ! i), v)])" using order by (simp only: in_order_def)
  show "map_of (es[i := (fst (es ! i), v)]) = (map_of es)(fst (es ! i) \<mapsto> v)"
  proof
    fix k
    have split: "es = take i es @ (fst (es ! i), snd (es ! i)) # drop (Suc i) es" using assms(2) by (simp add: id_take_nth_drop [symmetric])
    have upd: "es[i := (fst (es ! i), v)] = take i es @ (fst (es ! i), v) # drop (Suc i) es"
      using assms(2) by (rule upd_conv_take_nth_drop)
    have "distinct (map fst (take i es @ (fst (es ! i), v) # drop (Suc i) es))" using o upd in_order_distinct by metis
    then have "map_of (take i es) (fst (es ! i)) = None" by (simp add: map_of_eq_None_iff)
    then show "map_of (es[i := (fst (es ! i), v)]) k = ((map_of es)(fst (es ! i) \<mapsto> v)) k"
      unfolding upd by (subst (3) split) (auto simp: map_add_def split: option.split)
  qed
qed

section \<open>The leaves of a tree\<close>

definition leaves_opt :: "'v patricia_node option \<Rightarrow> (u64 \<times> 'v) list" where
  "leaves_opt n = (case n of None \<Rightarrow> [] | Some n \<Rightarrow> leaves n)"

lemma leaves_opt_simps [simp]: "leaves_opt None = []" "leaves_opt (Some n) = leaves n"
  by (simp_all add: leaves_opt_def)

lemma pmap_leaves: "pmap_opt n = map_of (leaves_opt n)"
  by (cases n) (simp_all add: pmap_def)

lemma leaves_opt_sorted: "pat_wf_opt K n \<Longrightarrow> sorted_wrt (<) (map fst (leaves_opt n))"
  using leaves_sorted by (cases n) auto

lemma node_count_leaves: "pat_wf_opt K n \<Longrightarrow> node_count n = length (leaves_opt n)"
  using pat_count_leaves by (cases n) (auto simp: node_count_def)

lemma lower_bound_leaves: "pat_wf_opt K n \<Longrightarrow> lower_bound_rank n x = (rank_of x (leaves_opt n), pmap_opt n x \<noteq> None)"
  using lower_bound_loop_rank [of K _ x 0]
  by (cases n) (auto simp: lower_bound_rank_def rank_of_def pmap_None)

lemma entry_at_leaves:
  assumes "pat_wf_opt K n"
  shows "(i < length (leaves_opt n) \<longrightarrow>
      (\<exists>a k. entry_at n i = Some (PATRICIA_LEAF a (fst (leaves_opt n ! i)) k (snd (leaves_opt n ! i))) \<and> K (fst (leaves_opt n ! i)) k)) \<and>
    (\<not> i < length (leaves_opt n) \<longrightarrow> entry_at n i = None)"
proof (cases n)
  case (Some m)
  then have "pat_wf K m" "pat_count m = length (leaves m)" using assms pat_count_leaves by auto
  then show ?thesis using entry_at_leaf [of K m i] Some by (auto simp: entry_at_def)
qed (simp add: entry_at_def)

context patricia_collection
begin

abbreviation pat_entries where
  "pat_entries m \<equiv> patricia_visit (Some m)"

lemma visit_leaves: "pat_wf (keyed encode keys) n \<Longrightarrow> visit_node n = map (\<lambda>(x, v). (decode x, v)) (leaves n)"
  by (induction n) (auto simp: pat_wf.simps(2) dest: keyed_decode)

lemma entries_leaves: "ok S t m \<Longrightarrow> pat_entries m = map (\<lambda>(x, v). (decode x, v)) (leaves_opt (pat_root m))"
  using visit_leaves by (cases "pat_root m") (auto simp: patricia_visit_def pat_ok_def)

lemma leaf_key:
  assumes "ok S t m" and "x \<in> fst ` set (leaves_opt (pat_root m))"
  shows "decode x \<in> keys" and "encode (decode x) = x"
proof -
  have "pmap_opt (pat_root m) x \<noteq> None" using assms(2) by (simp add: pmap_leaves map_of_eq_None_iff)
  then show "decode x \<in> keys" and "encode (decode x) = x" using path_key [of "pat_root m" x] assms(1) by (simp_all add: pat_ok_def)
qed

lemma leaf_order:
  assumes "ok S t m" and "x \<in> fst ` set (leaves_opt (pat_root m))" and "k \<in> keys"
  shows "sint (decode x) < sint k \<longleftrightarrow> x < encode k"
  using encode_order [OF leaf_key(1) [OF assms(1,2)] assms(3)] leaf_key(2) [OF assms(1,2)] by simp

lemma entries_sorted:
  assumes m: "ok S t m"
  shows "in_order (pat_entries m)"
proof -
  have wf: "pat_wf_opt (keyed encode keys) (pat_root m)" using m by (simp add: pat_ok_def)
  have "sint (decode x) < sint (decode y)"
    if "x < y" "x \<in> fst ` set (leaves_opt (pat_root m))" "y \<in> fst ` set (leaves_opt (pat_root m))" for x y
    using leaf_order [OF m that(2) leaf_key(1) [OF m that(3)]] leaf_key(2) [OF m that(3)] that(1) by simp
  then have "sorted_wrt (\<lambda>x y. sint (decode x) < sint (decode y)) (map fst (leaves_opt (pat_root m)))"
    by (intro sorted_wrt_mono_rel [OF _ leaves_opt_sorted [OF wf]]) (simp only: set_map)
  then show ?thesis by (simp add: in_order_def entries_leaves [OF m] sorted_wrt_map case_prod_beta)
qed

lemma entries_contents:
  assumes m: "ok S t m"
  shows "map_of (pat_entries m) = at m"
proof
  fix k
  let ?ls = "leaves_opt (pat_root m)"
  have dec: "inj_on decode (fst ` set ?ls)" using leaf_key(2) [OF m] by (metis inj_on_def)
  show "map_of (pat_entries m) k = at m k"
  proof (cases "k \<in> keys \<and> encode k \<in> fst ` set ?ls")
    case True
    then obtain v where v: "(encode k, v) \<in> set ?ls" by auto
    have d: "distinct (map fst ?ls)"
      using leaves_opt_sorted [of "keyed encode keys" "pat_root m"] m by (simp add: pat_ok_def strict_sorted_iff)
    have "map fst (pat_entries m) = map decode (map fst ?ls)" by (simp add: entries_leaves [OF m] case_prod_beta)
    moreover have "distinct (map decode (map fst ?ls))" using d dec by (subst distinct_map) simp
    ultimately have "distinct (map fst (pat_entries m))" by simp
    moreover have "(k, v) \<in> set (pat_entries m)"
      using v True decode_encode by (force simp: entries_leaves [OF m])
    ultimately have "map_of (pat_entries m) k = Some v" by (rule map_of_is_SomeI)
    moreover have "map_of ?ls (encode k) = Some v" using d v by (rule map_of_is_SomeI)
    ultimately show ?thesis using True by (simp add: contents_def pmap_leaves)
  next
    case False
    have "k \<notin> fst ` set (pat_entries m)"
      using False leaf_key [OF m] by (force simp: entries_leaves [OF m])
    then have "map_of (pat_entries m) k = None" by (simp add: map_of_eq_None_iff)
    moreover have "at m k = None" using False by (auto simp: contents_def pmap_leaves map_of_eq_None_iff)
    ultimately show ?thesis by simp
  qed
qed

lemma length_pat_entries:
  assumes "ok S t m"
  shows "length (pat_entries m) = pat_size m"
  unfolding entries_leaves [OF assms] using assms node_count_leaves [of "keyed encode keys" "pat_root m"] by (simp add: pat_ok_def)

lemma lower_bound_entries:
  assumes m: "ok S t m" and k: "k \<in> keys"
  shows "lower_bound_rank (pat_root m) (encode k) = (key_rank k (pat_entries m), at m k \<noteq> None)"
proof -
  have "filter (\<lambda>e. sint (decode (fst e)) < sint k) (leaves_opt (pat_root m)) = filter (\<lambda>e. fst e < encode k) (leaves_opt (pat_root m))"
    using leaf_order [OF m _ k] by (intro filter_cong) auto
  then have "rank_of (encode k) (leaves_opt (pat_root m)) = key_rank k (pat_entries m)"
    by (simp add: rank_of_def key_rank_def entries_leaves [OF m] filter_map comp_def case_prod_beta)
  then show ?thesis
    using lower_bound_leaves [of "keyed encode keys" "pat_root m"] m k by (simp add: pat_ok_def contents_def)
qed

section \<open>Cursors\<close>

text \<open>The leaf at a position is the entry there.\<close>

lemma entry_at_entries:
  assumes m: "ok S t m"
  shows "i < length (pat_entries m) \<Longrightarrow>
      \<exists>a. entry_at (pat_root m) i = Some (PATRICIA_LEAF a (encode (fst (pat_entries m ! i))) (fst (pat_entries m ! i)) (snd (pat_entries m ! i))) \<and>
        fst (pat_entries m ! i) \<in> keys"
    and "\<not> i < length (pat_entries m) \<Longrightarrow> entry_at (pat_root m) i = None"
proof -
  let ?ls = "leaves_opt (pat_root m)"
  have wf: "pat_wf_opt (keyed encode keys) (pat_root m)" using m by (simp add: pat_ok_def)
  note leaf = entry_at_leaves [OF wf, of i]
  have len: "length (pat_entries m) = length ?ls" by (simp add: entries_leaves [OF m])
  show "entry_at (pat_root m) i = None" if "\<not> i < length (pat_entries m)" using leaf len that by simp
  show "\<exists>a. entry_at (pat_root m) i = Some (PATRICIA_LEAF a (encode (fst (pat_entries m ! i))) (fst (pat_entries m ! i)) (snd (pat_entries m ! i))) \<and>
      fst (pat_entries m ! i) \<in> keys" if i: "i < length (pat_entries m)"
  proof -
    obtain a k where k: "entry_at (pat_root m) i = Some (PATRICIA_LEAF a (fst (?ls ! i)) k (snd (?ls ! i)))"
      "keyed encode keys (fst (?ls ! i)) k" using leaf i len by auto
    have e: "pat_entries m ! i = (decode (fst (?ls ! i)), snd (?ls ! i))"
      using i len by (simp add: entries_leaves [OF m] case_prod_beta)
    then have "fst (pat_entries m ! i) = k" using keyed_decode [OF k(2)] by simp
    then show ?thesis using k e by (auto simp: keyed_def)
  qed
qed

lemma peek_entries:
  assumes "ok S t (cursor_map c)"
  shows "map_cursor_try_peek (Some c) i = nth_opt (pat_entries (cursor_map c)) i"
  using entry_at_entries [OF assms, of i]
  by (cases "i < length (pat_entries (cursor_map c))") (auto simp: map_cursor_try_peek_def nth_opt_def)

lemma entries_from:
  assumes "ok S t m" and "in_order es" and "vrel R (at m) (map_of es)"
  shows "list_all2 (rel_prod (=) R) (pat_entries m) es"
  using vrel_entries [OF entries_sorted [OF assms(1)] assms(2)] assms(3) entries_contents [OF assms(1)] by simp

lemma new_key: "ok S t m \<Longrightarrow> at m k = None \<longleftrightarrow> k \<notin> fst ` set (pat_entries m)"
  using entries_contents by (metis map_of_eq_None_iff)

lemma cursor_insert:
  assumes c: "ok S t (cursor_map c)" and k: "k \<in> keys"
  shows "at (cursor_map c) k \<noteq> None \<Longrightarrow> patricia_cursor_insert encode (Some c) k v True = fail (Status D7_HAMT_DUPLICATE_KEY)"
    and "at (cursor_map c) k = None \<Longrightarrow> position c \<noteq> key_rank k (pat_entries (cursor_map c)) \<Longrightarrow>
      patricia_cursor_insert encode (Some c) k v True = fail (Status D7_HAMT_INVALID_ARGUMENT)"
    and "at (cursor_map c) k = None \<Longrightarrow> position c = key_rank k (pat_entries (cursor_map c)) \<Longrightarrow>
      achieves E (pat_failing E p) t (patricia_cursor_insert encode (Some c) k v True)
       (\<lambda>c' t'. ok (with_map S (cursor_map c')) t' (cursor_map c') \<and> position c' = position c + 1 \<and>
          list_all2 (rel_prod (=) Rv) (pat_entries (cursor_map c')) (insert_at (position c) (k, v) (pat_entries (cursor_map c))))"
proof -
  note bound = lower_bound_entries [OF c k]
  note defs = patricia_cursor_insert_def map_cursor_insert_def with_cursor_def bound
  show "at (cursor_map c) k \<noteq> None \<Longrightarrow> patricia_cursor_insert encode (Some c) k v True = fail (Status D7_HAMT_DUPLICATE_KEY)"
    by (simp add: defs)
  show "at (cursor_map c) k = None \<Longrightarrow> position c \<noteq> key_rank k (pat_entries (cursor_map c)) \<Longrightarrow>
      patricia_cursor_insert encode (Some c) k v True = fail (Status D7_HAMT_INVALID_ARGUMENT)"
    by (simp add: defs)
  assume new: "at (cursor_map c) k = None" and pos: "position c = key_rank k (pat_entries (cursor_map c))"
  have at: "k \<notin> fst ` set (pat_entries (cursor_map c))" using new new_key [OF c] by simp
  note ins = insert_at_rank [OF entries_sorted [OF c] at, of v, folded pos]
  have "achieves E (pat_failing E p) t (andthen (map_set (Some (cursor_map c)) k (encode k) v True) (\<lambda>m. ret \<lparr>cursor_map = m, position = position c + 1\<rparr>))
     (\<lambda>c' t'. ok (with_map S (cursor_map c')) t' (cursor_map c') \<and> position c' = position c + 1 \<and>
        list_all2 (rel_prod (=) Rv) (pat_entries (cursor_map c')) (insert_at (position c) (k, v) (pat_entries (cursor_map c))))"
    by (rule achieves_andthen [OF achieves_map_set [OF c k]])
      (auto intro!: achieves_ret entries_from [OF _ ins(1)] simp: ins(2) entries_contents [OF c])
  then show "achieves E (pat_failing E p) t (patricia_cursor_insert encode (Some c) k v True)
     (\<lambda>c' t'. ok (with_map S (cursor_map c')) t' (cursor_map c') \<and> position c' = position c + 1 \<and>
        list_all2 (rel_prod (=) Rv) (pat_entries (cursor_map c')) (insert_at (position c) (k, v) (pat_entries (cursor_map c))))"
    using new pos by (simp add: defs)
qed

lemma cursor_set_next_value:
  assumes c: "ok S t (cursor_map c)" and pos: "position c < length (pat_entries (cursor_map c))"
  shows "achieves E (pat_failing E p) t (map_cursor_set_next_value (Some c) v True)
     (\<lambda>c' t'. ok (with_map S (cursor_map c')) t' (cursor_map c') \<and> position c' = position c \<and>
        list_all2 (rel_prod (=) Rv) (pat_entries (cursor_map c'))
          ((pat_entries (cursor_map c))[position c := (fst (pat_entries (cursor_map c) ! position c), v)]))"
proof -
  let ?k = "fst (pat_entries (cursor_map c) ! position c)"
  obtain a w where leaf: "entry_at (pat_root (cursor_map c)) (position c) = Some (PATRICIA_LEAF a (encode ?k) ?k w)" and k: "?k \<in> keys"
    using entry_at_entries(1) [OF c pos] by blast
  note upd = update_at_position [OF entries_sorted [OF c] pos, of v]
  have "achieves E (pat_failing E p) t (andthen (map_set (Some (cursor_map c)) ?k (encode ?k) v True) (\<lambda>m. ret \<lparr>cursor_map = m, position = position c\<rparr>))
     (\<lambda>c' t'. ok (with_map S (cursor_map c')) t' (cursor_map c') \<and> position c' = position c \<and>
        list_all2 (rel_prod (=) Rv) (pat_entries (cursor_map c')) ((pat_entries (cursor_map c))[position c := (?k, v)]))"
    by (rule achieves_andthen [OF achieves_map_set [OF c k]])
      (auto intro!: achieves_ret entries_from [OF _ upd(1)] simp: upd(2) entries_contents [OF c])
  then show ?thesis by (simp add: map_cursor_set_next_value_def with_cursor_def leaf)
qed

lemma cursor_delete:
  assumes c: "ok S t (cursor_map c)" and pos: "position c \<le> length (pat_entries (cursor_map c))"
    and gap: "if previous then 0 < position c else position c < length (pat_entries (cursor_map c))"
  shows "achieves E (pat_failing E p) t (map_cursor_delete (Some c) previous True)
     (\<lambda>c' t'. ok (with_map S (cursor_map c')) t' (cursor_map c') \<and>
        position c' = (if previous then position c - 1 else position c) \<and>
        pat_entries (cursor_map c') = remove_at (if previous then position c - 1 else position c) (pat_entries (cursor_map c)))"
proof -
  let ?i = "if previous then position c - 1 else position c"
  let ?k = "fst (pat_entries (cursor_map c) ! ?i)"
  have i: "?i < length (pat_entries (cursor_map c))" using pos gap by (auto split: if_splits)
  obtain a w where leaf: "entry_at (pat_root (cursor_map c)) ?i = Some (PATRICIA_LEAF a (encode ?k) ?k w)" and k: "?k \<in> keys"
    using entry_at_entries(1) [OF c i] by blast
  note rem = remove_at_position [OF entries_sorted [OF c] i]
  have same: "pat_entries m' = remove_at ?i (pat_entries (cursor_map c))"
    if "ok S' t' m'" and "at m' = (at (cursor_map c))(?k := None)" for m' S' t'
    using entries_from [OF that(1) rem(1), of "(=)"] that(2) rem(2) entries_contents [OF c] by (simp add: vrel_eq prod.rel_eq list.rel_eq)
  have "achieves E (pat_failing E p) t (andthen (map_remove (Some (cursor_map c)) (encode ?k) True) (\<lambda>m. ret \<lparr>cursor_map = m, position = ?i\<rparr>))
     (\<lambda>c' t'. ok (with_map S (cursor_map c')) t' (cursor_map c') \<and> position c' = ?i \<and>
        pat_entries (cursor_map c') = remove_at ?i (pat_entries (cursor_map c)))"
    by (rule achieves_andthen [OF achieves_map_remove [OF c k]], rule achieves_ret, unfold d7_patricia_map_cursor.select_convs)
      (use same in blast)
  moreover have "map_cursor_delete (Some c) previous True =
      andthen (map_remove (Some (cursor_map c)) (encode ?k) True) (\<lambda>m. ret \<lparr>cursor_map = m, position = ?i\<rparr>)"
    using gap leaf length_pat_entries [OF c] by (simp add: map_cursor_delete_def with_cursor_def split: if_splits)
  ultimately show ?thesis by simp
qed

lemma cursor_bounds:
  assumes m: "ok S t m" and k: "k \<in> keys"
  shows "patricia_cursor_lower_bound encode (Some m) k True = ret \<lparr>cursor_map = m, position = key_rank k (pat_entries m)\<rparr>"
    and "patricia_cursor_upper_bound encode (Some m) k True =
      ret \<lparr>cursor_map = m, position = key_rank k (pat_entries m) + (if at m k = None then 0 else 1)\<rparr>"
proof -
  note bound = lower_bound_entries [OF m k]
  have rank: "key_rank k (pat_entries m) \<le> pat_size m"
    unfolding length_pat_entries [OF m, symmetric] key_rank_def by (rule length_filter_le)
  then show "patricia_cursor_lower_bound encode (Some m) k True = ret \<lparr>cursor_map = m, position = key_rank k (pat_entries m)\<rparr>"
    by (simp add: patricia_cursor_lower_bound_def bound map_cursor_create_def map_clone_def)
  have "key_rank k (pat_entries m) < pat_size m" if "at m k \<noteq> None"
  proof -
    have "k \<in> fst ` set (pat_entries m)" using that by (simp add: new_key [OF m])
    then show ?thesis
      unfolding length_pat_entries [OF m, symmetric] key_rank_def by (auto intro!: length_filter_less)
  qed
  then show "patricia_cursor_upper_bound encode (Some m) k True =
      ret \<lparr>cursor_map = m, position = key_rank k (pat_entries m) + (if at m k = None then 0 else 1)\<rparr>"
    using rank by (auto simp: patricia_cursor_upper_bound_def bound map_cursor_create_def map_clone_def)
qed

end

end
