(* ===== verification/Patricia_Properties.thy ===== *)
theory Patricia_Properties
  imports Patricia_Cursor
begin

text \<open>
  The properties of the Patricia maps, for every encoding of keys and every value policy that keep their contracts. The
  witnesses use the maps over 32-bit keys with the default policy.
\<close>

section \<open>Maps for the witnesses\<close>

definition single_patricia :: "addr \<Rightarrow> i64 \<Rightarrow> 'v \<Rightarrow> 'v d7_patricia_map" where
  "single_patricia a k v =
     \<lparr>pat_root = Some (PATRICIA_LEAF a (encode32 k) k v), pat_size = 1, pat_policy = normalize_policy None\<rparr>"

definition single_nodes :: "nat patricia_node set" where
  "single_nodes = {PATRICIA_LEAF 0 (encode32 5) 5 50, PATRICIA_LEAF 2 (encode32 7) 7 70}"

lemma small_keys: "5 \<in> keys32" "7 \<in> keys32"
  unfolding keys32_def by (rule range_eqI [of _ _ 5], simp) (rule range_eqI [of _ _ 7], simp)

lemma default_requests [simp]: "pat_failing (\<lambda>_. True) (normalize_policy None) = {}"
  by (simp add: pat_failing_def normalize_policy_def d7_patricia_value_policy_default_def or_default_def identity_retain_def)

lemma single_patricia_ok:
  "pat_ok encode32 keys32 (normalize_policy None) single_nodes 3 (single_patricia 0 5 50)"
  "pat_ok encode32 keys32 (normalize_policy None) single_nodes 3 (single_patricia 2 7 70)"
  by (auto simp: pat_ok_def single_patricia_def single_nodes_def pheap_def keyed_def small_keys node_count_def)

lemma single_patricia_contents:
  "contents encode32 keys32 (single_patricia 0 5 50) = [5 \<mapsto> 50]" "contents encode32 keys32 (single_patricia 2 7 70) = [7 \<mapsto> 70]"
  using small_keys by (auto simp: contents_def single_patricia_def fun_eq_iff int_keys.encode_inject)

section \<open>The properties\<close>

text \<open>C12: a Patricia map is a partial function on signed keys. Setting a key binds it to the value, up to what the policy calls
  equal; removing a key unbinds it and changes nothing else; lookup and count report the function; both updates keep the invariant
  of the map, leave every older version in place, and fail only when memory runs out.\<close>

theorem patricia_update_correct:
  assumes "patricia_collection encode decode keys p Rv" and "pat_ok encode keys p S t m" and "k \<in> keys"
  shows "achieves E (pat_failing E p) t (patricia_set encode (Some m) k v True)
      (\<lambda>m' t'. pat_ok encode keys p (with_map S m') t' m' \<and>
         vrel Rv (contents encode keys m') ((contents encode keys m)(k \<mapsto> v))) \<and>
    achieves E (pat_failing E p) t (patricia_remove encode (Some m) k True)
      (\<lambda>m' t'. pat_ok encode keys p (with_map S m') t' m' \<and> contents encode keys m' = (contents encode keys m)(k := None)) \<and>
    patricia_try_get encode (Some m) k = contents encode keys m k \<and>
    patricia_count (Some m) = card (dom (contents encode keys m))"
  using patricia_collection.achieves_map_set [OF assms] patricia_collection.achieves_map_remove [OF assms]
    patricia_collection.try_get_at [OF assms] patricia_collection.card_at [OF assms(1,2)]
  by (simp add: patricia_set_def patricia_remove_def patricia_count_def)

theorem patricia_update_correct_witness:
  "achieves (\<lambda>_. True) {} 3 (patricia_set encode32 (Some (single_patricia 0 5 50)) 7 (70 :: nat) True)
     (\<lambda>m' t'. pat_ok encode32 keys32 (normalize_policy None) (with_map single_nodes m') t' m' \<and>
        vrel (=) (contents encode32 keys32 m') [5 \<mapsto> 50, 7 \<mapsto> 70]) \<and>
   patricia_try_get encode32 (Some (single_patricia 0 5 (50 :: nat))) 7 = None"
  using patricia_update_correct [OF int_collection.patricia_collection_axioms single_patricia_ok(1) small_keys(2), of "\<lambda>_. True" 70]
  by (simp add: single_patricia_contents)

text \<open>C13: union, intersection and difference of two Patricia maps are those of partial functions, at every key: union prefers the
  right value or combines both, intersection keeps the left value or combines both, difference keeps the left entries
  whose key the right map lacks. Shared subtrees, which the code recognises by their addresses, make no difference. Maps whose policies
  differ are rejected.\<close>

theorem patricia_algebra_correct:
  assumes "patricia_collection encode decode keys p Rv" and "pat_ok encode keys p S t l" and "pat_ok encode keys p S t r"
  shows "achieves E (pat_failing E p) t (patricia_union (Some l) (Some r) True)
      (\<lambda>m t'. pat_ok encode keys p (with_map S m) t' m \<and>
         vrel Rv (contents encode keys m) (contents encode keys l ++ contents encode keys r)) \<and>
    achieves E (pat_failing E p) t (patricia_union_with (Some l) (Some r) (Some f) True)
      (\<lambda>m t'. pat_ok encode keys p (with_map S m) t' m \<and>
         vrel Rv (contents encode keys m) (union_map id (Some f) (contents encode keys l) (contents encode keys r))) \<and>
    achieves E (pat_failing E p) t (patricia_intersect (Some l) (Some r) True)
      (\<lambda>m t'. pat_ok encode keys p (with_map S m) t' m \<and>
         vrel Rv (contents encode keys m) (contents encode keys l |` dom (contents encode keys r))) \<and>
    achieves E (pat_failing E p) t (patricia_intersect_with (Some l) (Some r) (Some f) True)
      (\<lambda>m t'. pat_ok encode keys p (with_map S m) t' m \<and>
         vrel Rv (contents encode keys m) (intersect_map id (Some f) (contents encode keys l) (contents encode keys r))) \<and>
    achieves E (pat_failing E p) t (patricia_except (Some l) (Some r) True)
      (\<lambda>m t'. pat_ok encode keys p (with_map S m) t' m \<and>
         contents encode keys m = contents encode keys l |` (- dom (contents encode keys r))) \<and>
    (\<not> policies_match l q \<longrightarrow> patricia_union (Some l) (Some q) True E t = (Inl (Status D7_HAMT_INVALID_ARGUMENT), t))"
proof -
  let ?L = "contents encode keys l" and ?R = "contents encode keys r"
  have maps: "union_map id None ?L ?R = ?L ++ ?R" "intersect_map id None ?L ?R = ?L |` dom ?R" "except_map ?L ?R = ?L |` (- dom ?R)"
    by (auto simp: fun_eq_iff union_map_def intersect_map_def except_map_def map_add_def restrict_map_def split: option.split)
  show ?thesis
    using patricia_collection.achieves_union [OF assms, of E None] patricia_collection.achieves_union [OF assms, of E "Some f"]
      patricia_collection.achieves_intersect [OF assms, of E None] patricia_collection.achieves_intersect [OF assms, of E "Some f"]
      patricia_collection.achieves_except [OF assms, of E None]
    unfolding maps patricia_union_def patricia_union_with_def patricia_intersect_def patricia_intersect_with_def patricia_except_def
    by (simp add: map_algebra_def fail_def)
qed

theorem patricia_algebra_correct_witness:
  "achieves (\<lambda>_. True) {} 3 (patricia_union (Some (single_patricia 0 5 50)) (Some (single_patricia 2 7 (70 :: nat))) True)
     (\<lambda>m t'. pat_ok encode32 keys32 (normalize_policy None) (with_map single_nodes m) t' m \<and>
        vrel (=) (contents encode32 keys32 m) [5 \<mapsto> 50, 7 \<mapsto> 70])"
  using patricia_algebra_correct [OF int_collection.patricia_collection_axioms single_patricia_ok, of "\<lambda>_. True"]
  by (simp add: single_patricia_contents)

text \<open>C14: a Patricia map is ordered by its signed keys, and a cursor is a gap in the list of its entries. A visit meets the
  entries in ascending order; the bounds of a key are where it belongs; inserting puts the new entry into the gap when the gap
  is where its key belongs, moves past it, and otherwise says why not; deleting removes the neighbour of the gap; replacing the
  next value replaces it in place.\<close>

theorem patricia_cursor_correct:
  assumes "patricia_collection encode decode keys p Rv" and "pat_ok encode keys p S t (cursor_map c)" and "k \<in> keys"
    and "position c \<le> pat_size (cursor_map c)"
  defines "es \<equiv> patricia_visit (Some (cursor_map c))"
  shows "sorted_wrt (<) (map (\<lambda>e. sint (fst e)) es) \<and> map_of es = contents encode keys (cursor_map c) \<and>
    patricia_cursor_lower_bound encode (Some (cursor_map c)) k True = ret \<lparr>cursor_map = cursor_map c, position = key_rank k es\<rparr> \<and>
    patricia_cursor_peek_next (Some c) = nth_opt es (position c) \<and>
    (if k \<in> fst ` set es
     then patricia_cursor_insert encode (Some c) k v True = fail (Status D7_HAMT_DUPLICATE_KEY)
     else if position c \<noteq> key_rank k es
     then patricia_cursor_insert encode (Some c) k v True = fail (Status D7_HAMT_INVALID_ARGUMENT)
     else achieves E (pat_failing E p) t (patricia_cursor_insert encode (Some c) k v True)
       (\<lambda>c' t'. pat_ok encode keys p (with_map S (cursor_map c')) t' (cursor_map c') \<and> position c' = position c + 1 \<and>
          list_all2 (rel_prod (=) Rv) (patricia_visit (Some (cursor_map c'))) (insert_at (position c) (k, v) es))) \<and>
    (if position c = 0 then patricia_cursor_delete_previous (Some c) True = fail (Status D7_HAMT_INVALID_ARGUMENT)
     else achieves E (pat_failing E p) t (patricia_cursor_delete_previous (Some c) True)
       (\<lambda>c' t'. pat_ok encode keys p (with_map S (cursor_map c')) t' (cursor_map c') \<and> position c' = position c - 1 \<and>
          patricia_visit (Some (cursor_map c')) = remove_at (position c - 1) es)) \<and>
    (position c < length es \<longrightarrow> achieves E (pat_failing E p) t (map_cursor_set_next_value (Some c) v True)
       (\<lambda>c' t'. pat_ok encode keys p (with_map S (cursor_map c')) t' (cursor_map c') \<and> position c' = position c \<and>
          list_all2 (rel_prod (=) Rv) (patricia_visit (Some (cursor_map c'))) (es[position c := (fst (es ! position c), v)])))"
proof -
  note pc = assms(1,2)
  have len: "position c \<le> length es" using patricia_collection.length_pat_entries [OF pc] assms(4) by (simp add: es_def)
  have key: "contents encode keys (cursor_map c) k = None \<longleftrightarrow> k \<notin> fst ` set es"
    unfolding es_def by (rule patricia_collection.new_key [OF pc])
  have visit: "sorted_wrt (<) (map (\<lambda>e. sint (fst e)) es)" "map_of es = contents encode keys (cursor_map c)"
    using patricia_collection.entries_sorted [OF pc] patricia_collection.entries_contents [OF pc] by (simp_all add: in_order_def es_def)
  have peek: "patricia_cursor_peek_next (Some c) = nth_opt es (position c)"
    using patricia_collection.peek_entries [OF pc] by (simp add: patricia_cursor_peek_next_def es_def)
  have delete: "if position c = 0 then patricia_cursor_delete_previous (Some c) True = fail (Status D7_HAMT_INVALID_ARGUMENT)
     else achieves E (pat_failing E p) t (patricia_cursor_delete_previous (Some c) True)
       (\<lambda>c' t'. pat_ok encode keys p (with_map S (cursor_map c')) t' (cursor_map c') \<and> position c' = position c - 1 \<and>
          patricia_visit (Some (cursor_map c')) = remove_at (position c - 1) es)"
    using patricia_collection.cursor_delete [OF pc, where previous = True and E = E] len
    by (simp add: patricia_cursor_delete_previous_def es_def) (simp add: map_cursor_delete_def with_cursor_def)
  have insert: "if k \<in> fst ` set es
     then patricia_cursor_insert encode (Some c) k v True = fail (Status D7_HAMT_DUPLICATE_KEY)
     else if position c \<noteq> key_rank k es
     then patricia_cursor_insert encode (Some c) k v True = fail (Status D7_HAMT_INVALID_ARGUMENT)
     else achieves E (pat_failing E p) t (patricia_cursor_insert encode (Some c) k v True)
       (\<lambda>c' t'. pat_ok encode keys p (with_map S (cursor_map c')) t' (cursor_map c') \<and> position c' = position c + 1 \<and>
          list_all2 (rel_prod (=) Rv) (patricia_visit (Some (cursor_map c'))) (insert_at (position c) (k, v) es))"
    using patricia_collection.cursor_insert(1,2) [OF pc assms(3), where v = v, folded es_def]
      patricia_collection.cursor_insert(3) [OF pc assms(3), where v = v and E = E, folded es_def] key by presburger
  show ?thesis
    using visit patricia_collection.cursor_bounds(1) [OF pc assms(3), folded es_def] peek insert delete
      patricia_collection.cursor_set_next_value [OF pc, where E = E and v = v, folded es_def] by blast
qed

theorem patricia_cursor_correct_witness:
  "achieves (\<lambda>_. True) {} 3
     (patricia_cursor_insert encode32 (Some \<lparr>cursor_map = single_patricia 0 5 50, position = 1\<rparr>) 7 (70 :: nat) True)
     (\<lambda>c' t'. pat_ok encode32 keys32 (normalize_policy None) (with_map single_nodes (cursor_map c')) t' (cursor_map c') \<and> position c' = 2 \<and>
        list_all2 (rel_prod (=) (=)) (patricia_visit (Some (cursor_map c'))) [(5, 50), (7, 70)])"
proof -
  let ?c = "\<lparr>cursor_map = single_patricia 0 5 (50 :: nat), position = 1\<rparr>"
  have "patricia_visit (Some (cursor_map ?c)) = [(5, 50)]" by (simp add: patricia_visit_def single_patricia_def)
  moreover have "pat_ok encode32 keys32 (normalize_policy None) single_nodes 3 (cursor_map ?c)" using single_patricia_ok(1) by simp
  moreover have "position ?c \<le> pat_size (cursor_map ?c)" by (simp add: single_patricia_def)
  ultimately show ?thesis
    using patricia_cursor_correct [OF int_collection.patricia_collection_axioms, of single_nodes 3 ?c 7, where E = "\<lambda>_. True" and v = 70] small_keys(2)
    by (simp add: key_rank_def insert_at_def numeral_2_eq_2)
qed

end
