(* ===== verification/Daba.thy ===== *)
theory Daba
  imports Prelude "HOL-Library.Monad_Syntax"
begin

text \<open>
  The sliding-window aggregate of \<open>daba_lite.c\<close>. The window is kept in a doubly linked chain of blocks of 64 slots; six cursors
  divide it into regions in which slots hold inserted values or partial aggregates. The structure is mutable: blocks live in a
  store from addresses to blocks, and an operation returns its status together with the new state and the number of memory
  requests made so far. \<open>None\<close> is undefined behaviour: reading through a null or dangling pointer, or a slot without a value.

  Values are abstract: copying yields the value that the copy callback constructs, destroying has no effect. The functions
  that only destroy scratch values are therefore left out; \<open>combine_calls\<close> counts the calls of the combine callback of an operation.
\<close>

datatype ft_status = FT_STATUS_OK | FT_STATUS_INVALID_ARGUMENT | FT_STATUS_OUT_OF_RANGE | FT_STATUS_EMPTY
  | FT_STATUS_NOT_FOUND | FT_STATUS_NO_MEMORY | FT_STATUS_OVERFLOW | FT_STATUS_ALREADY_EXISTS
  | FT_STATUS_CALLBACK_FAILURE | FT_STATUS_CRYPTO_FAILURE | FT_STATUS_INCOMPATIBLE_POLICY | FT_STATUS_INCONSISTENT_POLICY

abbreviation (input) FT_DABA_BLOCK_CAPACITY :: nat where "FT_DABA_BLOCK_CAPACITY \<equiv> 64"
abbreviation (input) FT_DABA_SCRATCH_COUNT :: nat where "FT_DABA_SCRATCH_COUNT \<equiv> 8"
abbreviation (input) FT_DABA_STORAGE_COUNT :: nat where "FT_DABA_STORAGE_COUNT \<equiv> 2 + FT_DABA_SCRATCH_COUNT"

text \<open>The alignment of \<open>max_align_t\<close> on 64-bit platforms.\<close>

abbreviation (input) FT_DABA_ALIGNMENT :: nat where "FT_DABA_ALIGNMENT \<equiv> 16"

section \<open>Policies\<close>

text \<open>Null callbacks are \<open>None\<close>; of the allocator only the presence of its callbacks is kept, what it grants is decided by the
  environment.\<close>

record 'v ft_daba_policy =
  value_size :: nat
  value_copy :: "('v \<Rightarrow> 'v) option"
  monoid_size :: nat
  monoid_identity :: "'v option"
  monoid_combine :: "('v \<Rightarrow> 'v \<Rightarrow> 'v) option"
  allocator_allocate :: bool
  allocator_deallocate :: bool

definition ft_daba_add_overflows :: "nat \<Rightarrow> nat \<Rightarrow> nat option" where
  "ft_daba_add_overflows left right = (if left > SIZE_MAX - right then None else Some (left + right))"

definition ft_daba_multiply_overflows :: "nat \<Rightarrow> nat \<Rightarrow> nat option" where
  "ft_daba_multiply_overflows left right = (if left \<noteq> 0 \<and> right > SIZE_MAX div left then None else Some (left * right))"

definition ft_daba_stride :: "nat \<Rightarrow> nat option" where
  "ft_daba_stride bytes =
     (if bytes = 0 then None
      else case ft_daba_add_overflows bytes (FT_DABA_ALIGNMENT - 1) of
          None \<Rightarrow> None
        | Some rounded \<Rightarrow> Some (rounded div FT_DABA_ALIGNMENT * FT_DABA_ALIGNMENT))"

text \<open>The stride of a valid policy.\<close>

definition ft_daba_policy_valid :: "'v ft_daba_policy option \<Rightarrow> nat option" where
  "ft_daba_policy_valid policy =
     (case policy of
        None \<Rightarrow> None
      | Some p \<Rightarrow>
          if value_size p = 0 \<or> monoid_size p \<noteq> value_size p \<or> monoid_identity p = None \<or> monoid_combine p = None
             \<or> \<not> allocator_allocate p \<or> \<not> allocator_deallocate p
          then None
          else case ft_daba_stride (value_size p) of
              None \<Rightarrow> None
            | Some stride \<Rightarrow>
                if ft_daba_multiply_overflows stride FT_DABA_STORAGE_COUNT = None
                   \<or> ft_daba_multiply_overflows stride FT_DABA_BLOCK_CAPACITY = None
                then None else Some stride)"

definition ft_daba_value_copy :: "'v ft_daba_policy \<Rightarrow> 'v \<Rightarrow> 'v" where
  "ft_daba_value_copy p source = (case value_copy p of Some copy \<Rightarrow> copy source | None \<Rightarrow> source)"

definition ft_daba_identity :: "'v ft_daba_policy \<Rightarrow> 'v" where
  "ft_daba_identity p = the (monoid_identity p)"

definition ft_daba_combine :: "'v ft_daba_policy \<Rightarrow> 'v \<Rightarrow> 'v \<Rightarrow> 'v" where
  "ft_daba_combine p left right = the (monoid_combine p) left right"

definition ft_daba_policy_init ::
  "bool \<Rightarrow> (nat \<times> ('v \<Rightarrow> 'v) option) option \<Rightarrow> (nat \<times> 'v option \<times> ('v \<Rightarrow> 'v \<Rightarrow> 'v) option) option \<Rightarrow> 'v ft_daba_policy option" where
  "ft_daba_policy_init policy value_type measure_policy =
     (if \<not> policy then None
      else Some
        \<lparr>value_size = (case value_type of None \<Rightarrow> 0 | Some (bytes, copy) \<Rightarrow> bytes),
         value_copy = (case value_type of None \<Rightarrow> None | Some (bytes, copy) \<Rightarrow> copy),
         monoid_size = (case measure_policy of None \<Rightarrow> 0 | Some (bytes, one, combine) \<Rightarrow> bytes),
         monoid_identity = (case measure_policy of None \<Rightarrow> None | Some (bytes, one, combine) \<Rightarrow> one),
         monoid_combine = (case measure_policy of None \<Rightarrow> None | Some (bytes, one, combine) \<Rightarrow> combine),
         allocator_allocate = True, allocator_deallocate = True\<rparr>)"

section \<open>Blocks and cursors\<close>

record ft_daba_cursor =
  cursor_block :: "addr option"
  cursor_index :: nat

record 'v ft_daba_block =
  block_previous :: "addr option"
  block_next :: "addr option"
  occupied :: "64 word"
  block_items :: "'v option list"

type_synonym 'v blocks = "addr \<Rightarrow> 'v ft_daba_block option"

record 'v ft_daba_lite_rep =
  rep_first :: "addr option"
  rep_f :: ft_daba_cursor
  rep_l :: ft_daba_cursor
  rep_r :: ft_daba_cursor
  rep_a :: ft_daba_cursor
  rep_b :: ft_daba_cursor
  rep_e :: ft_daba_cursor
  rep_count :: nat
  rep_stride :: nat
  aggregate_ra :: 'v
  aggregate_b :: 'v
  rep_blocks :: "'v blocks"

record 'v ft_daba_lite =
  daba_policy :: "'v ft_daba_policy option"
  daba_rep :: "'v ft_daba_lite_rep option"

definition ft_daba_read :: "'v blocks \<Rightarrow> ft_daba_cursor \<Rightarrow> 'v option" where
  "ft_daba_read blocks position =
     do { a \<leftarrow> cursor_block position;
          block \<leftarrow> blocks a;
          if cursor_index position < FT_DABA_BLOCK_CAPACITY then block_items block ! cursor_index position else None }"

definition ft_daba_cursor_equal :: "ft_daba_cursor \<Rightarrow> ft_daba_cursor \<Rightarrow> bool" where
  "ft_daba_cursor_equal left right \<longleftrightarrow> cursor_block left = cursor_block right \<and> cursor_index left = cursor_index right"

definition ft_daba_advance :: "'v blocks \<Rightarrow> ft_daba_cursor \<Rightarrow> ft_daba_cursor option option" where
  "ft_daba_advance blocks position =
     (case cursor_block position of
        None \<Rightarrow> Some None
      | Some a \<Rightarrow>
          if cursor_index position \<ge> FT_DABA_BLOCK_CAPACITY then Some None
          else if cursor_index position + 1 < FT_DABA_BLOCK_CAPACITY
          then Some (Some \<lparr>cursor_block = Some a, cursor_index = cursor_index position + 1\<rparr>)
          else do { block \<leftarrow> blocks a;
                    Some (map_option (\<lambda>n. \<lparr>cursor_block = Some n, cursor_index = 0\<rparr>) (block_next block)) })"

definition ft_daba_retreat :: "'v blocks \<Rightarrow> ft_daba_cursor \<Rightarrow> ft_daba_cursor option option" where
  "ft_daba_retreat blocks position =
     (case cursor_block position of
        None \<Rightarrow> Some None
      | Some a \<Rightarrow>
          if cursor_index position \<ge> FT_DABA_BLOCK_CAPACITY then Some None
          else if cursor_index position \<noteq> 0
          then Some (Some \<lparr>cursor_block = Some a, cursor_index = cursor_index position - 1\<rparr>)
          else do { block \<leftarrow> blocks a;
                    Some (map_option (\<lambda>n. \<lparr>cursor_block = Some n, cursor_index = FT_DABA_BLOCK_CAPACITY - 1\<rparr>) (block_previous block)) })"

text \<open>A block takes two requests, one for its header and one for its slots.\<close>

definition ft_daba_block_create :: "environment \<Rightarrow> nat \<Rightarrow> nat \<Rightarrow> (ft_status + addr) \<times> nat" where
  "ft_daba_block_create E stride t =
     (if ft_daba_multiply_overflows stride FT_DABA_BLOCK_CAPACITY = None then (Inl FT_STATUS_INVALID_ARGUMENT, t)
      else if \<not> E t then (Inl FT_STATUS_NO_MEMORY, t + 1)
      else if \<not> E (t + 1) then (Inl FT_STATUS_NO_MEMORY, t + 2)
      else (Inr t, t + 2))"

definition new_block :: "addr option \<Rightarrow> 'v ft_daba_block" where
  "new_block previous =
     \<lparr>block_previous = previous, block_next = None, occupied = 0, block_items = replicate FT_DABA_BLOCK_CAPACITY None\<rparr>"

definition ft_daba_slot_occupied :: "'v blocks \<Rightarrow> ft_daba_cursor \<Rightarrow> bool option" where
  "ft_daba_slot_occupied blocks position =
     (case cursor_block position of
        None \<Rightarrow> Some False
      | Some a \<Rightarrow>
          if cursor_index position < FT_DABA_BLOCK_CAPACITY
          then do { block \<leftarrow> blocks a; Some (occupied block AND push_bit (cursor_index position) 1 \<noteq> 0) }
          else Some False)"

section \<open>Scratch values\<close>

text \<open>The pool of scratch slots of one operation; a slot is initialised when it holds a value.\<close>

record 'v ft_daba_temp_pool =
  pool_next :: nat
  scratch :: "'v option list"
  combine_calls :: nat

definition ft_daba_pool_init :: "'v ft_daba_temp_pool" where
  "ft_daba_pool_init = \<lparr>pool_next = 0, scratch = replicate FT_DABA_SCRATCH_COUNT None, combine_calls = 0\<rparr>"

definition ft_daba_scratch :: "'v ft_daba_temp_pool \<Rightarrow> nat \<Rightarrow> 'v option" where
  "ft_daba_scratch pool i = (if i < FT_DABA_SCRATCH_COUNT then scratch pool ! i else None)"

text \<open>\<open>None\<close> stands for the index \<open>SIZE_MAX\<close>, which reports that the pool is used up.\<close>

definition ft_daba_pool_reserve :: "'v ft_daba_temp_pool \<Rightarrow> nat option \<times> 'v ft_daba_temp_pool" where
  "ft_daba_pool_reserve pool =
     (if pool_next pool \<ge> FT_DABA_SCRATCH_COUNT then (None, pool)
      else (Some (pool_next pool), pool\<lparr>pool_next := pool_next pool + 1\<rparr>))"

definition pool_store :: "'v ft_daba_temp_pool \<Rightarrow> 'v \<Rightarrow> nat option \<times> 'v ft_daba_temp_pool" where
  "pool_store pool v =
     (case ft_daba_pool_reserve pool of
        (None, pool') \<Rightarrow> (None, pool')
      | (Some i, pool') \<Rightarrow> (Some i, pool'\<lparr>scratch := (scratch pool')[i := Some v]\<rparr>))"

definition ft_daba_pool_copy :: "'v ft_daba_policy \<Rightarrow> 'v ft_daba_temp_pool \<Rightarrow> 'v \<Rightarrow> nat option \<times> 'v ft_daba_temp_pool" where
  "ft_daba_pool_copy p pool source = pool_store pool (ft_daba_value_copy p source)"

definition ft_daba_pool_identity :: "'v ft_daba_policy \<Rightarrow> 'v ft_daba_temp_pool \<Rightarrow> nat option \<times> 'v ft_daba_temp_pool" where
  "ft_daba_pool_identity p pool = pool_store pool (ft_daba_identity p)"

definition ft_daba_pool_combine ::
  "'v ft_daba_policy \<Rightarrow> 'v ft_daba_temp_pool \<Rightarrow> 'v \<Rightarrow> 'v \<Rightarrow> nat option \<times> 'v ft_daba_temp_pool" where
  "ft_daba_pool_combine p pool left right =
     (case pool_store pool (ft_daba_combine p left right) of
        (None, pool') \<Rightarrow> (None, pool')
      | (Some i, pool') \<Rightarrow> (Some i, pool'\<lparr>combine_calls := combine_calls pool' + 1\<rparr>))"

definition ft_daba_pool_move :: "'v ft_daba_temp_pool \<Rightarrow> nat \<Rightarrow> ('v \<times> 'v ft_daba_temp_pool) option" where
  "ft_daba_pool_move pool i =
     do { v \<leftarrow> ft_daba_scratch pool i; Some (v, pool\<lparr>scratch := (scratch pool)[i := None]\<rparr>) }"

section \<open>Slots\<close>

definition ft_daba_slot_take ::
  "'v blocks \<Rightarrow> 'v ft_daba_temp_pool \<Rightarrow> ft_daba_cursor \<Rightarrow> nat \<Rightarrow> ('v blocks \<times> 'v ft_daba_temp_pool) option" where
  "ft_daba_slot_take blocks pool position i =
     do { a \<leftarrow> cursor_block position;
          block \<leftarrow> blocks a;
          (v, pool') \<leftarrow> ft_daba_pool_move pool i;
          if cursor_index position \<ge> FT_DABA_BLOCK_CAPACITY then None
          else Some (blocks(a \<mapsto> block\<lparr>block_items := (block_items block)[cursor_index position := Some v],
                                 occupied := occupied block OR push_bit (cursor_index position) 1\<rparr>), pool') }"

definition ft_daba_slot_clear :: "'v blocks \<Rightarrow> ft_daba_cursor \<Rightarrow> 'v blocks option" where
  "ft_daba_slot_clear blocks position =
     do { a \<leftarrow> cursor_block position;
          block \<leftarrow> blocks a;
          if cursor_index position \<ge> FT_DABA_BLOCK_CAPACITY then None
          else Some (if occupied block AND push_bit (cursor_index position) 1 \<noteq> 0
                then blocks(a \<mapsto> block\<lparr>block_items := (block_items block)[cursor_index position := None],
                                      occupied := occupied block AND NOT (push_bit (cursor_index position) 1)\<rparr>)
                else blocks) }"

text \<open>The loops that destroy blocks: up to the block of the front, and a whole chain.\<close>

partial_function (option) trim_loop :: "'v blocks \<Rightarrow> addr option \<Rightarrow> addr option \<Rightarrow> ('v blocks \<times> addr option) option" where
  "trim_loop blocks first front =
     (if first = front then Some (blocks, first)
      else do { retired \<leftarrow> first;
                block \<leftarrow> blocks retired;
                trim_loop (blocks(retired := None)) (block_next block) front })"

definition ft_daba_trim_before :: "'v ft_daba_lite_rep \<Rightarrow> ft_daba_cursor \<Rightarrow> 'v ft_daba_lite_rep option" where
  "ft_daba_trim_before rep front =
     do { (blocks, first) \<leftarrow> trim_loop (rep_blocks rep) (rep_first rep) (cursor_block front);
          a \<leftarrow> first;
          block \<leftarrow> blocks a;
          Some (rep\<lparr>rep_first := first, rep_blocks := blocks(a \<mapsto> block\<lparr>block_previous := None\<rparr>)\<rparr>) }"

partial_function (option) ft_daba_chain_destroy :: "'v blocks \<Rightarrow> addr option \<Rightarrow> 'v blocks option" where
  "ft_daba_chain_destroy blocks block =
     (case block of
        None \<Rightarrow> Some blocks
      | Some a \<Rightarrow> do { b \<leftarrow> blocks a; ft_daba_chain_destroy (blocks(a := None)) (block_next b) })"

section \<open>The fixup\<close>

record ft_daba_fixup_plan =
  plan_l :: ft_daba_cursor
  plan_r :: ft_daba_cursor
  plan_a :: ft_daba_cursor
  plan_b :: ft_daba_cursor
  plan_aggregate_ra :: nat
  plan_aggregate_b :: nat
  first_write :: "(ft_daba_cursor \<times> nat) option"
  second_write :: "(ft_daba_cursor \<times> nat) option"

type_synonym 'v planned = "((ft_status + ft_daba_fixup_plan) \<times> 'v ft_daba_temp_pool) option"

text \<open>The identity, constructed at most once in an operation.\<close>

definition identity_once ::
  "'v ft_daba_policy \<Rightarrow> nat option \<Rightarrow> 'v ft_daba_temp_pool \<Rightarrow> nat option \<times> 'v ft_daba_temp_pool" where
  "identity_once p identity pool = (case identity of Some i \<Rightarrow> (Some i, pool) | None \<Rightarrow> ft_daba_pool_identity p pool)"

text \<open>Plans for the aggregates alone, after all cursors have been set.\<close>

definition plan_moves ::
  "'v ft_daba_policy \<Rightarrow> 'v ft_daba_temp_pool \<Rightarrow> 'v \<Rightarrow> 'v \<Rightarrow> ft_daba_cursor \<Rightarrow> ft_daba_cursor \<Rightarrow> ft_daba_cursor \<Rightarrow> ft_daba_cursor
     \<Rightarrow> 'v planned" where
  "plan_moves p pool ra ab l r a b =
     (let (i, pool1) = ft_daba_pool_copy p pool ra;
          (j, pool2) = ft_daba_pool_copy p pool1 ab
      in Some (case (i, j) of
           (Some x, Some y) \<Rightarrow> Inr \<lparr>plan_l = l, plan_r = r, plan_a = a, plan_b = b, plan_aggregate_ra = x, plan_aggregate_b = y,
                                 first_write = None, second_write = None\<rparr>
         | _ \<Rightarrow> Inl FT_STATUS_INVALID_ARGUMENT, pool2))"

text \<open>A test of a condition chain: \<open>None\<close> inside is the outcome \<open>false\<close>, which ends the chain.\<close>

definition required :: "'a option option \<Rightarrow> 'b option \<Rightarrow> ('a \<Rightarrow> 'b option) \<Rightarrow> 'b option" where
  "required result failed f = (case result of None \<Rightarrow> None | Some None \<Rightarrow> failed | Some (Some x) \<Rightarrow> f x)"

definition checked :: "bool option \<Rightarrow> 'b option \<Rightarrow> 'b option \<Rightarrow> 'b option" where
  "checked result failed continue = (case result of None \<Rightarrow> None | Some c \<Rightarrow> if c then continue else failed)"

text \<open>\<open>l = r\<close>: all three cursors move on.\<close>

definition fixup_shift ::
  "'v ft_daba_policy \<Rightarrow> 'v blocks \<Rightarrow> nat option \<Rightarrow> ft_daba_cursor \<Rightarrow> ft_daba_cursor \<Rightarrow> ft_daba_cursor \<Rightarrow> ft_daba_cursor \<Rightarrow> 'v
     \<Rightarrow> 'v ft_daba_temp_pool \<Rightarrow> 'v planned" where
  "fixup_shift p blocks identity l r a b ab pool =
     (let failed = Some (Inl FT_STATUS_INVALID_ARGUMENT, pool)
      in required (ft_daba_advance blocks l) failed (\<lambda>next_l.
         required (ft_daba_advance blocks r) failed (\<lambda>next_r.
         required (ft_daba_advance blocks a) failed (\<lambda>next_a.
           case identity_once p identity pool of
             (None, pool') \<Rightarrow> Some (Inl FT_STATUS_INVALID_ARGUMENT, pool')
           | (Some i, pool') \<Rightarrow> do { v \<leftarrow> ft_daba_scratch pool' i; plan_moves p pool' v ab next_l next_r next_a b }))))"

text \<open>The aggregate from \<open>a\<close> to \<open>b\<close>: the identity where the region is empty.\<close>

definition fixup_product ::
  "'v ft_daba_policy \<Rightarrow> 'v blocks \<Rightarrow> nat option \<Rightarrow> ft_daba_cursor \<Rightarrow> ft_daba_cursor \<Rightarrow> 'v ft_daba_temp_pool
     \<Rightarrow> (ft_status + 'v) option \<times> 'v ft_daba_temp_pool" where
  "fixup_product p blocks identity a b pool =
     (if ft_daba_cursor_equal a b then
        (case identity_once p identity pool of
           (None, pool') \<Rightarrow> (Some (Inl FT_STATUS_INVALID_ARGUMENT), pool')
         | (Some i, pool') \<Rightarrow> (map_option Inr (ft_daba_scratch pool' i), pool'))
      else
        (do { occ \<leftarrow> ft_daba_slot_occupied blocks a;
              if \<not> occ then Some (Inl FT_STATUS_INVALID_ARGUMENT) else map_option Inr (ft_daba_read blocks a) }, pool))"

text \<open>\<open>l\<close> and \<open>a\<close> move towards each other, and the slots they pass are rewritten.\<close>

definition fixup_shrink ::
  "'v ft_daba_policy \<Rightarrow> 'v blocks \<Rightarrow> nat option \<Rightarrow> ft_daba_cursor \<Rightarrow> ft_daba_cursor \<Rightarrow> ft_daba_cursor \<Rightarrow> ft_daba_cursor \<Rightarrow> 'v \<Rightarrow> 'v
     \<Rightarrow> 'v ft_daba_temp_pool \<Rightarrow> 'v planned" where
  "fixup_shrink p blocks identity l r a b ra ab pool =
     (let failed = Some (Inl FT_STATUS_INVALID_ARGUMENT, pool)
      in required (ft_daba_advance blocks l) failed (\<lambda>next_left.
         required (ft_daba_retreat blocks a) failed (\<lambda>before_a.
         checked (ft_daba_slot_occupied blocks l) failed (
         checked (ft_daba_slot_occupied blocks before_a) failed (
           let (i, pool1) = ft_daba_pool_copy p pool ra;
               (j, pool2) = ft_daba_pool_copy p pool1 ab
           in do { left \<leftarrow> ft_daba_read blocks l;
                   let (m, pool3) = ft_daba_pool_combine p pool2 left ra;
                       (factor, pool4) = fixup_product p blocks identity a b pool3
                   in case factor of
                       None \<Rightarrow> None
                     | Some (Inl s) \<Rightarrow> Some (Inl s, pool4)
                     | Some (Inr product_a) \<Rightarrow>
                         do { v \<leftarrow> ft_daba_read blocks before_a;
                              let (n, pool5) = ft_daba_pool_combine p pool4 v product_a
                              in Some (case (i, j, m, n) of
                                   (Some x, Some y, Some z, Some w) \<Rightarrow>
                                     Inr \<lparr>plan_l = next_left, plan_r = r, plan_a = before_a, plan_b = b,
                                          plan_aggregate_ra = x, plan_aggregate_b = y,
                                          first_write = Some (l, z), second_write = Some (before_a, w)\<rparr>
                                 | _ \<Rightarrow> Inl FT_STATUS_INVALID_ARGUMENT, pool5) } })))))"

definition ft_daba_compute_fixup ::
  "'v ft_daba_policy \<Rightarrow> 'v ft_daba_lite_rep \<Rightarrow> ft_daba_cursor \<Rightarrow> ft_daba_cursor \<Rightarrow> 'v \<Rightarrow> 'v \<Rightarrow> 'v ft_daba_temp_pool \<Rightarrow> 'v planned" where
  "ft_daba_compute_fixup p rep front back_end ra ab pool =
     (let blocks = rep_blocks rep; l = rep_l rep; r = rep_r rep; a = rep_a rep; b = rep_b rep;
          proceed = (\<lambda>identity l a b ra ab pool.
            if ft_daba_cursor_equal l r then fixup_shift p blocks identity l r a b ab pool
            else fixup_shrink p blocks identity l r a b ra ab pool)
      in if ft_daba_cursor_equal front b then
           (case ft_daba_pool_identity p pool of
              (None, pool') \<Rightarrow> Some (Inl FT_STATUS_INVALID_ARGUMENT, pool')
            | (Some i, pool') \<Rightarrow> do { v \<leftarrow> ft_daba_scratch pool' i; plan_moves p pool' v v back_end back_end back_end back_end })
         else if ft_daba_cursor_equal l b then
           (case ft_daba_pool_identity p pool of
              (None, pool') \<Rightarrow> Some (Inl FT_STATUS_INVALID_ARGUMENT, pool')
            | (Some i, pool') \<Rightarrow> do { v \<leftarrow> ft_daba_scratch pool' i; proceed (Some i) front back_end back_end ab v pool' })
         else proceed None l a b ra ab pool)"

definition write_slot ::
  "(ft_daba_cursor \<times> nat) option \<Rightarrow> 'v blocks \<times> 'v ft_daba_temp_pool \<Rightarrow> ('v blocks \<times> 'v ft_daba_temp_pool) option" where
  "write_slot w st = (case w of None \<Rightarrow> Some st | Some (position, i) \<Rightarrow> ft_daba_slot_take (fst st) (snd st) position i)"

definition ft_daba_apply_fixup ::
  "'v ft_daba_lite_rep \<Rightarrow> 'v ft_daba_temp_pool \<Rightarrow> ft_daba_fixup_plan \<Rightarrow> 'v ft_daba_lite_rep option" where
  "ft_daba_apply_fixup rep pool plan =
     do { st \<leftarrow> write_slot (first_write plan) (rep_blocks rep, pool);
          (blocks, pool1) \<leftarrow> write_slot (second_write plan) st;
          (ra, pool2) \<leftarrow> ft_daba_pool_move pool1 (plan_aggregate_ra plan);
          (ab, pool3) \<leftarrow> ft_daba_pool_move pool2 (plan_aggregate_b plan);
          Some (rep\<lparr>rep_blocks := blocks, aggregate_ra := ra, aggregate_b := ab,
                    rep_l := plan_l plan, rep_r := plan_r plan, rep_a := plan_a plan, rep_b := plan_b plan\<rparr>) }"

section \<open>Operations\<close>

definition ft_daba_lite_create ::
  "environment \<Rightarrow> nat \<Rightarrow> bool \<Rightarrow> 'v ft_daba_policy option \<Rightarrow> (ft_status + 'v ft_daba_lite) \<times> nat" where
  "ft_daba_lite_create E t daba policy =
     (case ft_daba_policy_valid policy of
        None \<Rightarrow> (Inl FT_STATUS_INVALID_ARGUMENT, t)
      | Some stride \<Rightarrow>
          if \<not> daba \<or> ft_daba_multiply_overflows stride FT_DABA_STORAGE_COUNT = None then (Inl FT_STATUS_INVALID_ARGUMENT, t)
          else if \<not> E t then (Inl FT_STATUS_NO_MEMORY, t + 1)
          else if \<not> E (t + 1) then (Inl FT_STATUS_NO_MEMORY, t + 2)
          else
            (case ft_daba_block_create E stride (t + 2) of
               (Inl s, t') \<Rightarrow> (Inl s, t')
             | (Inr a, t') \<Rightarrow>
                 (let c = \<lparr>cursor_block = Some a, cursor_index = 0\<rparr>; p = the policy
                  in (Inr \<lparr>daba_policy = policy,
                           daba_rep = Some \<lparr>rep_first = Some a, rep_f = c, rep_l = c, rep_r = c, rep_a = c, rep_b = c, rep_e = c,
                             rep_count = 0, rep_stride = stride, aggregate_ra = ft_daba_identity p, aggregate_b = ft_daba_identity p,
                             rep_blocks = [a \<mapsto> new_block None]\<rparr>\<rparr>, t'))))"

text \<open>The handles after a move.\<close>

definition ft_daba_lite_move ::
  "'v ft_daba_lite option \<Rightarrow> 'v ft_daba_lite option \<Rightarrow> bool \<Rightarrow> 'v ft_daba_lite option \<times> 'v ft_daba_lite option" where
  "ft_daba_lite_move destination source same =
     (if destination = None \<or> source = None \<or> same then (destination, source)
      else (source, Some \<lparr>daba_policy = None, daba_rep = None\<rparr>))"

definition ft_daba_lite_destroy :: "'v ft_daba_lite option \<Rightarrow> 'v ft_daba_lite option option" where
  "ft_daba_lite_destroy daba =
     (case daba of
        None \<Rightarrow> Some None
      | Some d \<Rightarrow>
          (case (daba_policy d, daba_rep d) of
             (Some p, Some rep) \<Rightarrow>
               do { _ \<leftarrow> ft_daba_chain_destroy (rep_blocks rep) (rep_first rep);
                    Some (Some \<lparr>daba_policy = None, daba_rep = None\<rparr>) }
           | _ \<Rightarrow> Some daba))"

definition ft_daba_lite_size :: "'v ft_daba_lite option \<Rightarrow> nat" where
  "ft_daba_lite_size daba =
     (case daba of None \<Rightarrow> 0 | Some d \<Rightarrow> (case daba_rep d of None \<Rightarrow> 0 | Some rep \<Rightarrow> rep_count rep))"

definition ft_daba_lite_empty :: "'v ft_daba_lite option \<Rightarrow> bool" where
  "ft_daba_lite_empty daba \<longleftrightarrow> ft_daba_lite_size daba = 0"

text \<open>The status or the aggregate, and the number of calls of combine.\<close>

definition ft_daba_lite_aggregate :: "'v ft_daba_lite option \<Rightarrow> bool \<Rightarrow> ((ft_status + 'v) \<times> nat) option" where
  "ft_daba_lite_aggregate daba destination =
     (case daba of
        None \<Rightarrow> Some (Inl FT_STATUS_INVALID_ARGUMENT, 0)
      | Some d \<Rightarrow>
          (case (daba_policy d, daba_rep d) of
             (Some p, Some rep) \<Rightarrow>
               if \<not> destination then Some (Inl FT_STATUS_INVALID_ARGUMENT, 0)
               else if rep_count rep = 0 then Some (Inr (ft_daba_identity p), 0)
               else do { occ \<leftarrow> ft_daba_slot_occupied (rep_blocks rep) (rep_f rep);
                         if \<not> occ then Some (Inl FT_STATUS_INVALID_ARGUMENT, 0)
                         else do { v \<leftarrow> ft_daba_read (rep_blocks rep) (rep_f rep);
                                   Some (Inr (ft_daba_combine p v (aggregate_b rep)), 1) } }
           | _ \<Rightarrow> Some (Inl FT_STATUS_INVALID_ARGUMENT, 0)))"

text \<open>The end of the window after an insertion: the next slot of its block, or the first one of a block added to the chain. The
  result names the added block.\<close>

definition extend_chain ::
  "environment \<Rightarrow> 'v ft_daba_lite_rep \<Rightarrow> nat \<Rightarrow> ((ft_status + 'v blocks \<times> ft_daba_cursor \<times> addr option) \<times> nat) option" where
  "extend_chain E rep t =
     (let old_end = rep_e rep
      in if cursor_index old_end + 1 < FT_DABA_BLOCK_CAPACITY
         then Some (Inr (rep_blocks rep, \<lparr>cursor_block = cursor_block old_end, cursor_index = cursor_index old_end + 1\<rparr>, None), t)
         else do { a \<leftarrow> cursor_block old_end;
                   block \<leftarrow> rep_blocks rep a;
                   if block_next block \<noteq> None then Some (Inl FT_STATUS_INVALID_ARGUMENT, t)
                   else case ft_daba_block_create E (rep_stride rep) t of
                       (Inl s, t') \<Rightarrow> Some (Inl s, t')
                     | (Inr n, t') \<Rightarrow>
                         Some (Inr ((rep_blocks rep)(a \<mapsto> block\<lparr>block_next := Some n\<rparr>, n \<mapsto> new_block (Some a)),
                                    \<lparr>cursor_block = Some n, cursor_index = 0\<rparr>, Some n), t') })"

text \<open>Undoing it: the added block is unlinked and destroyed.\<close>

definition undo_extend :: "'v blocks \<Rightarrow> ft_daba_cursor \<Rightarrow> addr option \<Rightarrow> 'v blocks option" where
  "undo_extend blocks old_end successor =
     (case successor of
        None \<Rightarrow> Some blocks
      | Some n \<Rightarrow>
          do { a \<leftarrow> cursor_block old_end;
               block \<leftarrow> blocks a;
               Some ((blocks(a \<mapsto> block\<lparr>block_next := None\<rparr>))(n := None)) })"

type_synonym 'v outcome = "(ft_status \<times> 'v ft_daba_lite_rep \<times> nat \<times> nat) option"

text \<open>The status, the new state, the number of calls of combine and the number of requests.\<close>

definition insert_rep ::
  "environment \<Rightarrow> 'v ft_daba_policy \<Rightarrow> 'v ft_daba_lite_rep \<Rightarrow> 'v \<Rightarrow> nat \<Rightarrow> 'v outcome" where
  "insert_rep E p rep v t =
     (if rep_count rep = SIZE_MAX then Some (FT_STATUS_OVERFLOW, rep, 0, t)
      else
        let (next_aggregate_b, pool1) = ft_daba_pool_combine p ft_daba_pool_init (aggregate_b rep) v;
            (stored_value, pool2) = ft_daba_pool_copy p pool1 v;
            old_end = rep_e rep
        in case (next_aggregate_b, stored_value) of
             (Some nb, Some sv) \<Rightarrow>
               do { (extended, t') \<leftarrow> extend_chain E rep t;
                    case extended of
                      Inl s \<Rightarrow> Some (s, rep, combine_calls pool2, t')
                    | Inr (blocks, next_end, successor) \<Rightarrow>
                        do { occ \<leftarrow> ft_daba_slot_occupied blocks old_end;
                             if occ
                             then do { blocks' \<leftarrow> undo_extend blocks old_end successor;
                                       Some (FT_STATUS_INVALID_ARGUMENT, rep\<lparr>rep_blocks := blocks'\<rparr>, combine_calls pool2, t') }
                             else
                               do { (blocks1, pool3) \<leftarrow> ft_daba_slot_take blocks pool2 old_end sv;
                                    ab \<leftarrow> ft_daba_scratch pool3 nb;
                                    (plan, pool4) \<leftarrow> ft_daba_compute_fixup p (rep\<lparr>rep_blocks := blocks1\<rparr>) (rep_f rep) next_end (aggregate_ra rep) ab pool3;
                                    case plan of
                                      Inl s \<Rightarrow>
                                        do { blocks2 \<leftarrow> ft_daba_slot_clear blocks1 old_end;
                                             blocks3 \<leftarrow> undo_extend blocks2 old_end successor;
                                             Some (s, rep\<lparr>rep_blocks := blocks3\<rparr>, combine_calls pool4, t') }
                                    | Inr pl \<Rightarrow>
                                        do { rep' \<leftarrow> ft_daba_apply_fixup (rep\<lparr>rep_blocks := blocks1\<rparr>) pool4 pl;
                                             Some (FT_STATUS_OK, rep'\<lparr>rep_e := next_end, rep_count := rep_count rep + 1\<rparr>,
                                                   combine_calls pool4, t') } } } }
           | _ \<Rightarrow> Some (FT_STATUS_INVALID_ARGUMENT, rep, combine_calls pool2, t))"

text \<open>Operations on handles: the status and the handle, with the rest of the outcome.\<close>

definition on_handle ::
  "'v ft_daba_lite option \<Rightarrow> ('v ft_daba_policy \<Rightarrow> 'v ft_daba_lite_rep \<Rightarrow> 'v outcome) \<Rightarrow> nat
     \<Rightarrow> (ft_status \<times> 'v ft_daba_lite option \<times> nat \<times> nat) option" where
  "on_handle daba f t =
     (case daba of
        None \<Rightarrow> Some (FT_STATUS_INVALID_ARGUMENT, None, 0, t)
      | Some d \<Rightarrow>
          (case (daba_policy d, daba_rep d) of
             (Some p, Some rep) \<Rightarrow>
               do { (s, rep', calls, t') \<leftarrow> f p rep; Some (s, Some (d\<lparr>daba_rep := Some rep'\<rparr>), calls, t') }
           | _ \<Rightarrow> Some (FT_STATUS_INVALID_ARGUMENT, daba, 0, t)))"

definition ft_daba_lite_insert ::
  "environment \<Rightarrow> nat \<Rightarrow> 'v ft_daba_lite option \<Rightarrow> 'v option \<Rightarrow> (ft_status \<times> 'v ft_daba_lite option \<times> nat \<times> nat) option" where
  "ft_daba_lite_insert E t daba v =
     (case v of
        None \<Rightarrow> Some (FT_STATUS_INVALID_ARGUMENT, daba, 0, t)
      | Some x \<Rightarrow> on_handle daba (\<lambda>p rep. insert_rep E p rep x t) t)"

definition evict_rep :: "'v ft_daba_policy \<Rightarrow> 'v ft_daba_lite_rep \<Rightarrow> ((ft_status \<times> bool) \<times> 'v ft_daba_lite_rep \<times> nat) option" where
  "evict_rep p rep =
     (if rep_count rep = 0 then Some ((FT_STATUS_OK, False), rep, 0)
      else
        let old_front = rep_f rep
        in do { next_front \<leftarrow> ft_daba_advance (rep_blocks rep) old_front;
                case next_front of
                  None \<Rightarrow> Some ((FT_STATUS_INVALID_ARGUMENT, False), rep, 0)
                | Some front \<Rightarrow>
                    do { (plan, pool) \<leftarrow> ft_daba_compute_fixup p rep front (rep_e rep) (aggregate_ra rep) (aggregate_b rep) ft_daba_pool_init;
                         case plan of
                           Inl s \<Rightarrow> Some ((s, False), rep, combine_calls pool)
                         | Inr pl \<Rightarrow>
                             do { rep1 \<leftarrow> ft_daba_apply_fixup rep pool pl;
                                  blocks \<leftarrow> ft_daba_slot_clear (rep_blocks rep1) old_front;
                                  rep2 \<leftarrow> ft_daba_trim_before (rep1\<lparr>rep_f := front, rep_count := rep_count rep - 1, rep_blocks := blocks\<rparr>) front;
                                  Some ((FT_STATUS_OK, True), rep2, combine_calls pool) } } })"

text \<open>The status, whether a value was evicted, the handle and the number of calls of combine.\<close>

definition ft_daba_lite_try_evict ::
  "'v ft_daba_lite option \<Rightarrow> bool \<Rightarrow> ((ft_status \<times> bool) \<times> 'v ft_daba_lite option \<times> nat) option" where
  "ft_daba_lite_try_evict daba evicted =
     (case daba of
        None \<Rightarrow> Some ((FT_STATUS_INVALID_ARGUMENT, False), None, 0)
      | Some d \<Rightarrow>
          (case (daba_policy d, daba_rep d) of
             (Some p, Some rep) \<Rightarrow>
               if \<not> evicted then Some ((FT_STATUS_INVALID_ARGUMENT, False), daba, 0)
               else do { (s, rep', calls) \<leftarrow> evict_rep p rep; Some (s, Some (d\<lparr>daba_rep := Some rep'\<rparr>), calls) }
           | _ \<Rightarrow> Some ((FT_STATUS_INVALID_ARGUMENT, False), daba, 0)))"

definition ft_daba_lite_evict :: "'v ft_daba_lite option \<Rightarrow> (ft_status \<times> 'v ft_daba_lite option \<times> nat) option" where
  "ft_daba_lite_evict daba =
     do { ((s, evicted), d, calls) \<leftarrow> ft_daba_lite_try_evict daba True;
          Some (if s \<noteq> FT_STATUS_OK then s else if evicted then FT_STATUS_OK else FT_STATUS_EMPTY, d, calls) }"

definition clear_rep :: "environment \<Rightarrow> 'v ft_daba_policy \<Rightarrow> 'v ft_daba_lite_rep \<Rightarrow> nat \<Rightarrow> 'v outcome" where
  "clear_rep E p rep t =
     (if rep_count rep = 0 then Some (FT_STATUS_OK, rep, 0, t)
      else
        case ft_daba_pool_identity p ft_daba_pool_init of
          (None, pool) \<Rightarrow> Some (FT_STATUS_INVALID_ARGUMENT, rep, 0, t)
        | (Some i, pool) \<Rightarrow>
            do { one \<leftarrow> ft_daba_scratch pool i;
                 case ft_daba_pool_copy p pool one of
                   (None, pool1) \<Rightarrow> Some (FT_STATUS_INVALID_ARGUMENT, rep, 0, t)
                 | (Some j, pool1) \<Rightarrow>
                     (case ft_daba_block_create E (rep_stride rep) t of
                        (Inl s, t') \<Rightarrow> Some (s, rep, 0, t')
                      | (Inr n, t') \<Rightarrow>
                          let c = \<lparr>cursor_block = Some n, cursor_index = 0\<rparr>
                          in do { (ra, pool2) \<leftarrow> ft_daba_pool_move pool1 i;
                                  (ab, pool3) \<leftarrow> ft_daba_pool_move pool2 j;
                                  blocks \<leftarrow> ft_daba_chain_destroy ((rep_blocks rep)(n \<mapsto> new_block None)) (rep_first rep);
                                  Some (FT_STATUS_OK,
                                    rep\<lparr>rep_first := Some n, rep_f := c, rep_l := c, rep_r := c, rep_a := c, rep_b := c, rep_e := c,
                                        rep_count := 0, aggregate_ra := ra, aggregate_b := ab, rep_blocks := blocks\<rparr>, 0, t') }) })"

definition ft_daba_lite_clear ::
  "environment \<Rightarrow> nat \<Rightarrow> 'v ft_daba_lite option \<Rightarrow> (ft_status \<times> 'v ft_daba_lite option \<times> nat \<times> nat) option" where
  "ft_daba_lite_clear E t daba = on_handle daba (\<lambda>p rep. clear_rep E p rep t) t"

section \<open>Validation\<close>

record ft_daba_lite_statistics =
  stat_count :: nat
  front_length :: nat
  back_length :: nat
  left_length :: nat
  right_length :: nat
  accumulator_length :: nat
  block_count :: nat
  allocated_slot_capacity :: nat
  slack_slot_count :: nat

text \<open>The position of a cursor and whether it has been found; \<open>None\<close> where the validator returns false.\<close>

definition ft_daba_record_cursor :: "addr \<Rightarrow> nat \<Rightarrow> ft_daba_cursor \<Rightarrow> nat \<times> bool \<Rightarrow> (nat \<times> bool) option" where
  "ft_daba_record_cursor block block_base cursor recorded =
     (if cursor_block cursor \<noteq> Some block then Some recorded
      else if snd recorded then None
      else map_option (\<lambda>n. (n, True)) (ft_daba_add_overflows block_base (cursor_index cursor)))"

fun record_cursors :: "addr \<Rightarrow> nat \<Rightarrow> ft_daba_cursor list \<Rightarrow> (nat \<times> bool) list \<Rightarrow> (nat \<times> bool) list option" where
  "record_cursors block block_base (c # cs) (r # rs) =
     (case ft_daba_record_cursor block block_base c r of
        None \<Rightarrow> None
      | Some r' \<Rightarrow> map_option ((#) r') (record_cursors block block_base cs rs))"
| "record_cursors block block_base _ _ = Some []"

text \<open>The search for a cycle: false when the two pointers meet.\<close>

partial_function (option) cycle_free :: "'v blocks \<Rightarrow> addr option \<Rightarrow> addr option \<Rightarrow> bool option" where
  "cycle_free blocks slow fast =
     (case fast of
        None \<Rightarrow> Some True
      | Some x \<Rightarrow>
          do { block \<leftarrow> blocks x;
               case block_next block of
                 None \<Rightarrow> Some True
               | Some y \<Rightarrow>
                   do { behind \<leftarrow> slow;
                        from_slow \<leftarrow> blocks behind;
                        ahead \<leftarrow> blocks y;
                        if block_next from_slow = block_next ahead then Some False
                        else cycle_free blocks (block_next from_slow) (block_next ahead) } })"

definition count_occupied :: "64 word \<Rightarrow> nat \<Rightarrow> nat option" where
  "count_occupied bits occupied_count =
     fold_option (\<lambda>n slot. if bits AND push_bit slot 1 \<noteq> 0 then if n = SIZE_MAX then None else Some (n + 1) else Some n)
       occupied_count [0..<FT_DABA_BLOCK_CAPACITY]"

record walk_state =
  walk_previous :: "addr option"
  walk_base :: nat
  walk_positions :: "(nat \<times> bool) list"
  walk_blocks :: nat
  walk_occupied :: nat

text \<open>The loop over the chain. The outer \<open>None\<close> is undefined behaviour, the inner one the result false; a block always has
  its array of slots.\<close>

partial_function (option) walk_chain ::
  "'v blocks \<Rightarrow> ft_daba_cursor list \<Rightarrow> addr option \<Rightarrow> walk_state \<Rightarrow> walk_state option option" where
  "walk_chain blocks cursors current w =
     (case current of
        None \<Rightarrow> Some (Some w)
      | Some x \<Rightarrow>
          do { block \<leftarrow> blocks x;
               linked \<leftarrow> (case walk_previous w of
                            None \<Rightarrow> Some True
                          | Some y \<Rightarrow> do { before \<leftarrow> blocks y; Some (block_next before = Some x) });
               if block_previous block \<noteq> walk_previous w \<or> \<not> linked then Some None
               else case record_cursors x (walk_base w) cursors (walk_positions w) of
                   None \<Rightarrow> Some None
                 | Some positions \<Rightarrow>
                     (case count_occupied (occupied block) (walk_occupied w) of
                        None \<Rightarrow> Some None
                      | Some n \<Rightarrow>
                          if walk_blocks w = SIZE_MAX then Some None
                          else
                            let w' = \<lparr>walk_previous = Some x, walk_base = walk_base w, walk_positions = positions,
                                      walk_blocks = walk_blocks w + 1, walk_occupied = n\<rparr>
                            in case block_next block of
                                None \<Rightarrow> walk_chain blocks cursors None w'
                              | Some y \<Rightarrow>
                                  (case ft_daba_add_overflows (walk_base w) FT_DABA_BLOCK_CAPACITY of
                                     None \<Rightarrow> Some None
                                   | Some base \<Rightarrow> walk_chain blocks cursors (Some y) (w'\<lparr>walk_base := base\<rparr>))) })"

definition slots_match :: "64 word \<Rightarrow> nat \<Rightarrow> nat \<Rightarrow> nat \<Rightarrow> bool" where
  "slots_match bits block_base lower upper \<longleftrightarrow>
     (\<forall>slot < FT_DABA_BLOCK_CAPACITY.
        case ft_daba_add_overflows block_base slot of
          None \<Rightarrow> False
        | Some absolute \<Rightarrow> (bits AND push_bit slot 1 \<noteq> 0) = (absolute \<ge> lower \<and> absolute < upper))"

partial_function (option) occupancy_matches :: "'v blocks \<Rightarrow> nat \<Rightarrow> nat \<Rightarrow> addr option \<Rightarrow> nat \<Rightarrow> bool option" where
  "occupancy_matches blocks lower upper current block_base =
     (case current of
        None \<Rightarrow> Some True
      | Some x \<Rightarrow>
          do { block \<leftarrow> blocks x;
               if \<not> slots_match (occupied block) block_base lower upper then Some False
               else case block_next block of
                   None \<Rightarrow> occupancy_matches blocks lower upper None block_base
                 | Some y \<Rightarrow>
                     (case ft_daba_add_overflows block_base FT_DABA_BLOCK_CAPACITY of
                        None \<Rightarrow> Some False
                      | Some base \<Rightarrow> occupancy_matches blocks lower upper (Some y) base) })"

text \<open>The equations between the lengths of the regions, given the six positions.\<close>

definition sizes_match :: "'v ft_daba_lite_rep \<Rightarrow> nat \<Rightarrow> nat \<Rightarrow> nat \<Rightarrow> nat \<Rightarrow> nat \<Rightarrow> nat \<Rightarrow> bool" where
  "sizes_match rep f l r a b e \<longleftrightarrow>
     (if rep_count rep = 0
      then ft_daba_cursor_equal (rep_f rep) (rep_l rep) \<and> ft_daba_cursor_equal (rep_l rep) (rep_r rep)
           \<and> ft_daba_cursor_equal (rep_r rep) (rep_a rep) \<and> ft_daba_cursor_equal (rep_a rep) (rep_b rep)
           \<and> ft_daba_cursor_equal (rep_b rep) (rep_e rep)
      else r - l = a - r \<and> b - f \<ge> e - b
           \<and> (case Option.bind (Option.bind (ft_daba_add_overflows (r - l) (a - r)) (\<lambda>n. ft_daba_add_overflows n (b - a)))
                     (\<lambda>n. ft_daba_add_overflows n 1) of
                None \<Rightarrow> False
              | Some reversal \<Rightarrow>
                  (case ft_daba_add_overflows (e - b) 1 of
                     None \<Rightarrow> False
                   | Some processed_prefix \<Rightarrow> reversal = (b - f) - (e - b) \<and> l - f = processed_prefix)))"

definition validate_rep :: "'v ft_daba_lite_rep \<Rightarrow> addr \<Rightarrow> ft_daba_lite_statistics option option" where
  "validate_rep rep first =
     (let blocks = rep_blocks rep; cursors = [rep_f rep, rep_l rep, rep_r rep, rep_a rep, rep_b rep, rep_e rep]
      in if \<exists>c \<in> set cursors. cursor_block c = None \<or> cursor_index c \<ge> FT_DABA_BLOCK_CAPACITY then Some None
         else if Some first \<noteq> cursor_block (rep_f rep) then Some None
         else do { head \<leftarrow> blocks first;
                   if block_previous head \<noteq> None then Some None
                   else do { free \<leftarrow> cycle_free blocks (Some first) (Some first);
                     if \<not> free then Some None
                     else do { walked \<leftarrow> walk_chain blocks cursors (Some first)
                                 \<lparr>walk_previous = None, walk_base = 0, walk_positions = replicate 6 (0, False),
                                  walk_blocks = 0, walk_occupied = 0\<rparr>;
                       case walked of
                         None \<Rightarrow> Some None
                       | Some w \<Rightarrow>
                           if \<not> (\<forall>r \<in> set (walk_positions w). snd r) then Some None
                           else
                             let f = fst (walk_positions w ! 0); l = fst (walk_positions w ! 1); r = fst (walk_positions w ! 2);
                                 a = fst (walk_positions w ! 3); b = fst (walk_positions w ! 4); e = fst (walk_positions w ! 5)
                             in do { last_block \<leftarrow> Option.bind (walk_previous w) blocks;
                                  if walk_previous w \<noteq> cursor_block (rep_e rep) \<or> block_next last_block \<noteq> None
                                     \<or> \<not> (f \<le> l \<and> l \<le> r \<and> r \<le> a \<and> a \<le> b \<and> b \<le> e)
                                     \<or> e - f \<noteq> rep_count rep \<or> walk_occupied w \<noteq> rep_count rep
                                  then Some None
                                  else do { matches \<leftarrow> occupancy_matches blocks f e (Some first) 0;
                                    if \<not> matches \<or> \<not> sizes_match rep f l r a b e then Some None
                                    else Some
                                      (case ft_daba_add_overflows (cursor_index (rep_f rep)) (rep_count rep) of
                                         None \<Rightarrow> None
                                       | Some n \<Rightarrow>
                                           if walk_blocks w \<noteq> n div FT_DABA_BLOCK_CAPACITY + 1 then None
                                           else case ft_daba_multiply_overflows (walk_blocks w) FT_DABA_BLOCK_CAPACITY of
                                               None \<Rightarrow> None
                                             | Some capacity \<Rightarrow>
                                                 if capacity - rep_count rep < 1
                                                    \<or> capacity - rep_count rep > 2 * FT_DABA_BLOCK_CAPACITY - 1 then None
                                                 else Some \<lparr>stat_count = rep_count rep, front_length = b - f, back_length = e - b,
                                                            left_length = r - l, right_length = a - r, accumulator_length = b - a,
                                                            block_count = walk_blocks w, allocated_slot_capacity = capacity,
                                                            slack_slot_count = capacity - rep_count rep\<rparr>) } } } } })"

text \<open>The statistics when the validator returns true.\<close>

definition ft_daba_lite_validate :: "'v ft_daba_lite option \<Rightarrow> ft_daba_lite_statistics option option" where
  "ft_daba_lite_validate daba =
     (case daba of
        None \<Rightarrow> Some None
      | Some d \<Rightarrow>
          (case (daba_policy d, daba_rep d) of
             (Some p, Some rep) \<Rightarrow>
               (case rep_first rep of
                  None \<Rightarrow> Some None
                | Some first \<Rightarrow> if ft_daba_policy_valid (Some p) = None then Some None else validate_rep rep first)
           | _ \<Rightarrow> Some None))"

end
