(* ===== verification/Daba_Window.thy ===== *)
theory Daba_Window
  imports Daba
begin

text \<open>
  The algorithm behind \<open>daba_lite.c\<close> without its storage. Slots are numbered by the values inserted since the window was
  created, the cursors are such numbers, and a window is the sequence of the values between the first and the last cursor. The
  locale states what a window needs of its monoid; the representation invariant is preserved by the fixup, which the lemmas
  at the end reduce an insertion and an eviction to.
\<close>

record 'v window =
  win_f :: nat
  win_l :: nat
  win_r :: nat
  win_a :: nat
  win_b :: nat
  win_e :: nat
  win_ra :: 'v
  win_ab :: 'v
  win_slot :: "nat \<Rightarrow> 'v option"

section \<open>The fixup on slot numbers\<close>

definition window_flip :: "'v \<Rightarrow> 'v window \<Rightarrow> 'v window" where
  "window_flip one w =
     (if win_l w = win_b w
      then w\<lparr>win_l := win_f w, win_a := win_e w, win_b := win_e w, win_ra := win_ab w, win_ab := one\<rparr> else w)"

definition window_step :: "'v \<Rightarrow> ('v \<Rightarrow> 'v \<Rightarrow> 'v) \<Rightarrow> 'v window \<Rightarrow> 'v window" where
  "window_step one mul w =
     (if win_l w = win_r w
      then w\<lparr>win_l := win_l w + 1, win_r := win_r w + 1, win_a := win_a w + 1, win_ra := one\<rparr>
      else w\<lparr>win_l := win_l w + 1, win_a := win_a w - 1,
             win_slot := (win_slot w)
               (win_l w \<mapsto> mul (the (win_slot w (win_l w))) (win_ra w),
                win_a w - 1 \<mapsto> mul (the (win_slot w (win_a w - 1)))
                                   (if win_a w = win_b w then one else the (win_slot w (win_a w))))\<rparr>)"

definition window_fixup :: "'v \<Rightarrow> ('v \<Rightarrow> 'v \<Rightarrow> 'v) \<Rightarrow> 'v window \<Rightarrow> 'v window" where
  "window_fixup one mul w =
     (if win_f w = win_b w
      then w\<lparr>win_l := win_e w, win_r := win_e w, win_a := win_e w, win_b := win_e w, win_ra := one, win_ab := one\<rparr>
      else window_step one mul (window_flip one w))"

definition window_insert :: "'v \<Rightarrow> ('v \<Rightarrow> 'v \<Rightarrow> 'v) \<Rightarrow> 'v \<Rightarrow> 'v window \<Rightarrow> 'v window" where
  "window_insert one mul x w =
     window_fixup one mul
       (w\<lparr>win_e := win_e w + 1, win_ab := mul (win_ab w) x, win_slot := (win_slot w)(win_e w \<mapsto> x)\<rparr>)"

definition window_evict :: "'v \<Rightarrow> ('v \<Rightarrow> 'v \<Rightarrow> 'v) \<Rightarrow> 'v window \<Rightarrow> 'v window" where
  "window_evict one mul w =
     (let w' = window_fixup one mul (w\<lparr>win_f := win_f w + 1\<rparr>)
      in w'\<lparr>win_slot := (win_slot w')(win_f w := None)\<rparr>)"

section \<open>Windows over a monoid\<close>

locale window_monoid =
  fixes one :: 'v and mul :: "'v \<Rightarrow> 'v \<Rightarrow> 'v"
  assumes mul_assoc: "mul (mul x y) z = mul x (mul y z)"
    and one_left: "mul one x = x"
    and one_right: "mul x one = x"
begin

definition span :: "(nat \<Rightarrow> 'v) \<Rightarrow> nat \<Rightarrow> nat \<Rightarrow> 'v" where
  "span v i j = foldr mul (map v [i..<j]) one"

lemma foldr_mul: "mul (foldr mul xs one) y = foldr mul xs y"
  by (induction xs) (simp_all add: mul_assoc one_left)

lemma span_empty [simp]: "j \<le> i \<Longrightarrow> span v i j = one"
  by (simp add: span_def)

lemma span_Cons: "i < j \<Longrightarrow> span v i j = mul (v i) (span v (Suc i) j)"
  by (simp add: span_def upt_conv_Cons)

lemma span_single: "span v i (Suc i) = v i"
  by (simp add: span_Cons one_right)

lemma span_append: "i \<le> j \<Longrightarrow> j \<le> k \<Longrightarrow> mul (span v i j) (span v j k) = span v i k"
proof -
  assume "i \<le> j" and "j \<le> k"
  then have "[i..<k] = [i..<j] @ [j..<k]" using upt_add_eq_append [of i j "k - j"] by simp
  then show ?thesis by (simp add: span_def foldr_mul)
qed

lemma span_snoc: "i \<le> j \<Longrightarrow> mul (span v i j) (v j) = span v i (Suc j)"
  using span_append [of i j "Suc j" v] by (simp add: span_single)

lemma span_cong: "(\<And>k. i \<le> k \<Longrightarrow> k < j \<Longrightarrow> v k = v' k) \<Longrightarrow> span v i j = span v' i j"
  unfolding span_def by (intro arg_cong2 [where f = "\<lambda>xs. foldr mul xs"] refl map_cong) auto

text \<open>What a slot holds: a value, or the product of the values from its own up to the end of a region.\<close>

definition slot_value :: "(nat \<Rightarrow> 'v) \<Rightarrow> 'v window \<Rightarrow> nat \<Rightarrow> 'v option" where
  "slot_value v w i =
     (if i < win_f w \<or> win_e w \<le> i then None
      else if i < win_l w then Some (span v i (win_b w))
      else if i < win_r w then Some (span v i (win_r w))
      else if i < win_a w then Some (v i)
      else if i < win_b w then Some (span v i (win_b w))
      else Some (v i))"

text \<open>The invariant without the equations between the lengths of the regions, which the fixup re-establishes.\<close>

definition window_regions :: "(nat \<Rightarrow> 'v) \<Rightarrow> 'v window \<Rightarrow> bool" where
  "window_regions v w \<longleftrightarrow>
     win_f w \<le> win_l w \<and> win_l w \<le> win_r w \<and> win_r w \<le> win_a w \<and> win_a w \<le> win_b w \<and> win_b w \<le> win_e w
     \<and> win_slot w = slot_value v w
     \<and> win_ab w = span v (win_b w) (win_e w)
     \<and> (win_l w \<noteq> win_r w \<longrightarrow> win_ra w = span v (win_r w) (win_b w))
     \<and> win_r w - win_l w = win_a w - win_r w"

definition window_inv :: "(nat \<Rightarrow> 'v) \<Rightarrow> 'v window \<Rightarrow> bool" where
  "window_inv v w \<longleftrightarrow> window_regions v w
     \<and> (if win_f w = win_e w then win_l w = win_f w \<and> win_b w = win_f w
        else win_l w - win_f w = win_e w - win_b w + 1)"

text \<open>The state in which the fixup runs: one value too many at an end.\<close>

definition window_due :: "(nat \<Rightarrow> 'v) \<Rightarrow> 'v window \<Rightarrow> bool" where
  "window_due v w \<longleftrightarrow> window_regions v w
     \<and> (if win_f w = win_b w then win_e w \<le> win_f w + 1 else win_l w - win_f w = win_e w - win_b w)"

lemma window_flip_due:
  assumes "window_due v w" and "win_f w \<noteq> win_b w"
  shows "window_due v (window_flip one w)" and "win_f (window_flip one w) \<noteq> win_b (window_flip one w)"
    and "win_l (window_flip one w) \<noteq> win_b (window_flip one w)"
proof (atomize (full), cases "win_l w = win_b w")
  case True
  then have same: "win_r w = win_b w" "win_a w = win_b w" and order: "win_f w \<le> win_b w" "win_b w \<le> win_e w"
    using assms by (auto simp: window_due_def window_regions_def)
  have "win_slot w = slot_value v w" using assms by (simp add: window_due_def window_regions_def)
  also have "\<dots> = slot_value v (window_flip one w)"
    using True same order by (simp add: fun_eq_iff slot_value_def window_flip_def)
  finally have "win_slot w = slot_value v (window_flip one w)" .
  then show "window_due v (window_flip one w) \<and> win_f (window_flip one w) \<noteq> win_b (window_flip one w)
      \<and> win_l (window_flip one w) \<noteq> win_b (window_flip one w)"
    using assms True same by (simp add: window_flip_def window_due_def window_regions_def)
qed (use assms in \<open>simp_all add: window_flip_def\<close>)

lemma window_step_inv:
  assumes due: "window_due v w" and "win_f w \<noteq> win_b w" and "win_l w \<noteq> win_b w"
  shows "window_inv v (window_step one mul w)"
proof (cases "win_l w = win_r w")
  case True
  have "win_slot w = slot_value v (window_step one mul w)"
  proof
    fix i
    have "win_slot w i = slot_value v w i" using due by (simp add: window_due_def window_regions_def)
    then show "win_slot w i = slot_value v (window_step one mul w) i"
      using assms True by (auto simp: slot_value_def window_step_def window_due_def window_regions_def)
  qed
  then show ?thesis
    using assms True by (auto simp: window_step_def window_due_def window_regions_def window_inv_def)
next
  case False
  let ?f = "win_f w" and ?l = "win_l w" and ?r = "win_r w" and ?a = "win_a w" and ?b = "win_b w" and ?e = "win_e w"
  have order: "?f \<le> ?l" "?l < ?r" "?r < ?a" "?a \<le> ?b" "?b \<le> ?e" "?r - ?l = ?a - ?r" "?l - ?f = ?e - ?b"
    using due assms(2) False by (auto simp: window_due_def window_regions_def)
  have slots: "win_slot w i = slot_value v w i" for i using due by (simp add: window_due_def window_regions_def)
  have ra: "win_ra w = span v ?r ?b" using due False by (simp add: window_due_def window_regions_def)
  have left: "mul (the (win_slot w ?l)) (win_ra w) = span v ?l ?b"
    using order by (simp add: slots slot_value_def ra span_append)
  have "\<not> ?a - 1 < ?r" "\<not> ?a - 1 < ?l" "\<not> ?a - 1 < ?f" "?a - 1 < ?a" "?a - 1 < ?e" using order by linarith+
  then have before: "win_slot w (?a - 1) = Some (v (?a - 1))"
    by (simp add: slots slot_value_def)
  have "(if ?a = ?b then one else the (win_slot w ?a)) = span v ?a ?b"
    using order by (simp add: slots slot_value_def)
  then have right: "mul (the (win_slot w (?a - 1))) (if ?a = ?b then one else the (win_slot w ?a)) = span v (?a - 1) ?b"
    using order span_Cons [of "?a - 1" ?b v] by (simp add: before [simplified])
  have "win_slot (window_step one mul w) i = slot_value v (window_step one mul w) i" for i
    using order unfolding window_step_def left right by (auto simp: False slots slot_value_def)
  then have "win_slot (window_step one mul w) = slot_value v (window_step one mul w)" by auto
  then show ?thesis
    using due order False ra by (auto simp: window_step_def window_due_def window_regions_def window_inv_def)
qed

lemma window_fixup_inv:
  assumes "window_due v w" shows "window_inv v (window_fixup one mul w)"
proof (cases "win_f w = win_b w")
  case True
  have order: "win_f w \<le> win_e w" "win_e w \<le> win_f w + 1" using assms True by (auto simp: window_due_def window_regions_def)
  have same: "win_l w = win_b w" "win_r w = win_b w" "win_a w = win_b w"
    using assms True by (auto simp: window_due_def window_regions_def)
  have single: "\<not> i < win_b w \<Longrightarrow> \<not> win_e w \<le> i \<Longrightarrow> span v i (win_e w) = v i" for i
  proof -
    assume "\<not> i < win_b w" and "\<not> win_e w \<le> i"
    then have "win_e w = Suc i" using order True by linarith
    then show ?thesis by (simp add: span_single)
  qed
  have "win_slot w = slot_value v w" using assms by (simp add: window_due_def window_regions_def)
  also have "\<dots> = slot_value v (window_fixup one mul w)"
    using True same single by (simp add: fun_eq_iff slot_value_def window_fixup_def)
  finally have "win_slot w = slot_value v (window_fixup one mul w)" .
  then show ?thesis using True order by (auto simp: window_fixup_def window_inv_def window_regions_def)
next
  case False
  then show ?thesis
    using window_step_inv [OF window_flip_due [OF assms False]] by (simp add: window_fixup_def)
qed

lemma window_insert_inv:
  assumes inv: "window_inv v w" and v: "v (win_e w) = x"
  shows "window_inv v (window_insert one mul x w)"
proof -
  let ?w = "w\<lparr>win_e := win_e w + 1, win_ab := mul (win_ab w) x, win_slot := (win_slot w)(win_e w \<mapsto> x)\<rparr>"
  have "win_slot w i = slot_value v w i" for i using inv by (simp add: window_inv_def window_regions_def)
  then have "win_slot ?w i = slot_value v ?w i" for i
    using inv v by (auto simp: slot_value_def window_inv_def window_regions_def)
  then have "win_slot ?w = slot_value v ?w" by auto
  moreover have "win_ab ?w = span v (win_b w) (Suc (win_e w))"
    using inv v span_snoc [of "win_b w" "win_e w" v] by (simp add: window_inv_def window_regions_def)
  ultimately have "window_due v ?w"
    using inv by (auto simp: window_inv_def window_due_def window_regions_def split: if_splits)
  then show ?thesis using window_fixup_inv by (simp add: window_insert_def)
qed

lemma window_fixup_frame:
  assumes "window_due v w" and "i < win_f w"
  shows "window_fixup one mul (w\<lparr>win_slot := (win_slot w)(i := x)\<rparr>)
    = (window_fixup one mul w)\<lparr>win_slot := (win_slot (window_fixup one mul w))(i := x)\<rparr>"
proof (cases "win_f w = win_b w")
  case False
  let ?w = "window_flip one w"
  note due = window_flip_due [OF assms(1) False]
  have "win_f w \<le> win_l ?w" "win_l ?w \<noteq> win_r ?w \<Longrightarrow> win_f w < win_a ?w" "win_f w \<le> win_a ?w"
    using due by (auto simp: window_flip_def window_due_def window_regions_def)
  then have apart: "i \<noteq> win_l ?w" "i \<noteq> win_a ?w" "win_l ?w \<noteq> win_r ?w \<Longrightarrow> i \<noteq> win_a ?w - Suc 0"
    using assms(2) by linarith+
  have flip: "window_flip one (w\<lparr>win_slot := (win_slot w)(i := x)\<rparr>) = ?w\<lparr>win_slot := (win_slot ?w)(i := x)\<rparr>"
    by (simp add: window_flip_def)
  have "window_step one mul (?w\<lparr>win_slot := (win_slot ?w)(i := x)\<rparr>)
      = (window_step one mul ?w)\<lparr>win_slot := (win_slot (window_step one mul ?w))(i := x)\<rparr>"
    using apart [symmetric] by (cases "win_l ?w = win_r ?w") (auto simp: window_step_def fun_eq_iff intro!: window.equality)
  then show ?thesis using False by (simp add: window_fixup_def flip)
qed (simp add: window_fixup_def)

lemma window_evict_inv:
  assumes inv: "window_inv v w" and "win_f w \<noteq> win_e w"
  shows "window_inv v (window_evict one mul w)"
proof -
  let ?w = "w\<lparr>win_f := win_f w + 1, win_slot := (win_slot w)(win_f w := None)\<rparr>"
  have "win_slot w i = slot_value v w i" for i using inv by (simp add: window_inv_def window_regions_def)
  then have "win_slot ?w i = slot_value v ?w i" for i
    using assms by (auto simp: slot_value_def window_inv_def window_regions_def)
  then have "win_slot ?w = slot_value v ?w" by auto
  then have due: "window_due v ?w"
    using assms by (auto simp: window_inv_def window_due_def window_regions_def)
  have "window_evict one mul w = window_fixup one mul ?w"
    using window_fixup_frame [OF due, of "win_f w" "win_slot w (win_f w)"]
      window_fixup_frame [OF due, of "win_f w" None] 
    by (simp add: window_evict_def Let_def)
  then show ?thesis using window_fixup_inv [OF due] by simp
qed

lemma window_inv_cong:
  assumes "\<And>k. win_f w \<le> k \<Longrightarrow> k < win_e w \<Longrightarrow> v k = v' k"
  shows "window_inv v w = window_inv v' w"
proof -
  have "win_f w \<le> i \<Longrightarrow> j \<le> win_e w \<Longrightarrow> span v i j = span v' i j" for i j by (rule span_cong) (use assms in auto)
  moreover have "slot_value v w = slot_value v' w" if "win_b w \<le> win_e w" "win_r w \<le> win_b w"
    using that assms calculation by (auto simp: slot_value_def fun_eq_iff)
  ultimately show ?thesis unfolding window_inv_def window_regions_def by auto
qed

section \<open>The window as a queue\<close>

definition window_holds :: "'v list \<Rightarrow> 'v window \<Rightarrow> bool" where
  "window_holds vs w \<longleftrightarrow> (\<exists>v. window_inv v w \<and> vs = map v [win_f w..<win_e w])"

lemma window_holds_length: "window_holds vs w \<Longrightarrow> win_f w + length vs = win_e w"
  by (auto simp: window_holds_def window_inv_def window_regions_def)

lemma window_fixup_ends [simp]:
  "win_f (window_fixup one mul w) = win_f w" "win_e (window_fixup one mul w) = win_e w"
  by (simp_all add: window_fixup_def window_step_def window_flip_def)

lemma window_holds_insert:
  assumes "window_holds vs w" shows "window_holds (vs @ [x]) (window_insert one mul x w)"
proof -
  obtain v where inv: "window_inv v w" and vs: "vs = map v [win_f w..<win_e w]"
    using assms by (auto simp: window_holds_def)
  let ?v = "v(win_e w := x)"
  have "window_inv ?v w" using inv window_inv_cong [of w v ?v] by simp
  then have "window_inv ?v (window_insert one mul x w)" by (rule window_insert_inv) simp
  moreover have "vs @ [x] = map ?v [win_f (window_insert one mul x w)..<win_e (window_insert one mul x w)]"
    using inv vs by (simp add: window_insert_def window_inv_def window_regions_def)
  ultimately show ?thesis unfolding window_holds_def by blast
qed

lemma window_holds_evict:
  assumes "window_holds (x # vs) w" shows "window_holds vs (window_evict one mul w)"
proof -
  obtain v where inv: "window_inv v w" and vs: "x # vs = map v [win_f w..<win_e w]"
    using assms by (auto simp: window_holds_def)
  have "win_f w < win_e w" using vs by (cases "win_f w < win_e w") simp_all
  then have "window_inv v (window_evict one mul w)" and "vs = map v [win_f w + 1..<win_e w]"
    using window_evict_inv [OF inv] vs by (simp_all add: upt_conv_Cons)
  then show ?thesis unfolding window_holds_def by (auto simp: window_evict_def Let_def)
qed

lemma window_holds_aggregate:
  assumes "window_holds vs w" and "vs \<noteq> []"
  shows "mul (the (win_slot w (win_f w))) (win_ab w) = foldr mul vs one"
proof -
  obtain v where inv: "window_inv v w" and vs: "vs = map v [win_f w..<win_e w]"
    using assms by (auto simp: window_holds_def)
  then have "win_f w < win_e w" using assms(2) by auto
  then have "win_slot w (win_f w) = Some (span v (win_f w) (win_b w))" "win_ab w = span v (win_b w) (win_e w)"
    "win_f w \<le> win_b w" "win_b w \<le> win_e w"
    using inv by (auto simp: window_inv_def window_regions_def slot_value_def)
  then show ?thesis by (simp add: span_append vs span_def [symmetric])
qed

lemma window_holds_slot:
  assumes "window_holds vs w" shows "win_slot w i \<noteq> None \<longleftrightarrow> win_f w \<le> i \<and> i < win_e w"
proof -
  obtain v where "win_slot w = slot_value v w" using assms by (auto simp: window_holds_def window_inv_def window_regions_def)
  then show ?thesis by (simp add: slot_value_def not_less)
qed

lemma window_holds_create: "window_holds [] \<lparr>win_f = n, win_l = n, win_r = n, win_a = n, win_b = n, win_e = n,
    win_ra = one, win_ab = one, win_slot = Map.empty\<rparr>"
  by (auto simp: window_holds_def window_inv_def window_regions_def slot_value_def fun_eq_iff)

end

end
