(* ===== verification/Daba_Chain.thy ===== *)
theory Daba_Chain
  imports Daba_Window
begin

text \<open>
  The chain of blocks as a sequence of slots. Blocks are numbered without restarting, so the slot numbers of a window do not
  change when blocks in front of it are destroyed; \<open>at\<close> gives the address of a block, \<open>lo\<close> and \<open>hi\<close> bound the blocks in use.
  The lemmas say what the cursor and slot functions of \<open>daba_lite.c\<close> do in terms of slot numbers.
\<close>

definition cursor_at :: "(nat \<Rightarrow> addr) \<Rightarrow> nat \<Rightarrow> ft_daba_cursor" where
  "cursor_at at n = \<lparr>cursor_block = Some (at (n div 64)), cursor_index = n mod 64\<rparr>"

lemma cursor_at_simps [simp]:
  "cursor_block (cursor_at at n) = Some (at (n div 64))" "cursor_index (cursor_at at n) = n mod 64"
  by (simp_all add: cursor_at_def)

definition block_holds :: "(nat \<Rightarrow> addr) \<Rightarrow> nat \<Rightarrow> nat \<Rightarrow> (nat \<Rightarrow> 'v option) \<Rightarrow> nat \<Rightarrow> 'v ft_daba_block \<Rightarrow> bool" where
  "block_holds at lo hi slot k block \<longleftrightarrow>
     block_previous block = (if k = lo then None else Some (at (k - 1)))
     \<and> block_next block = (if Suc k = hi then None else Some (at (Suc k)))
     \<and> block_items block = map slot [64 * k..<64 * k + 64]
     \<and> (\<forall>j < 64. bit (occupied block) j \<longleftrightarrow> slot (64 * k + j) \<noteq> None)"

definition chain :: "(nat \<Rightarrow> addr) \<Rightarrow> nat \<Rightarrow> nat \<Rightarrow> (nat \<Rightarrow> 'v option) \<Rightarrow> 'v blocks \<Rightarrow> bool" where
  "chain at lo hi slot s \<longleftrightarrow>
     lo < hi \<and> inj_on at {lo..<hi} \<and> dom s = at ` {lo..<hi}
     \<and> (\<forall>k \<in> {lo..<hi}. \<exists>block. s (at k) = Some block \<and> block_holds at lo hi slot k block)"

definition in_chain :: "nat \<Rightarrow> nat \<Rightarrow> nat \<Rightarrow> bool" where
  "in_chain lo hi n \<longleftrightarrow> lo \<le> n div 64 \<and> n div 64 < hi"

lemma in_chain_between: "in_chain lo hi m \<Longrightarrow> in_chain lo hi n \<Longrightarrow> m \<le> i \<Longrightarrow> i \<le> n \<Longrightarrow> in_chain lo hi i"
  using div_le_mono [of m i 64] div_le_mono [of i n 64] by (simp add: in_chain_def)

lemma chain_block:
  assumes "chain at lo hi slot s" and "lo \<le> k" and "k < hi"
  obtains block where "s (at k) = Some block" and "block_holds at lo hi slot k block"
  using assms unfolding chain_def by (meson atLeastLessThan_iff)

lemma block_holds_item: "block_holds at lo hi slot (n div 64) block \<Longrightarrow> block_items block ! (n mod 64) = slot n"
  by (simp add: block_holds_def)

lemma block_holds_occupied:
  "block_holds at lo hi slot (n div 64) block \<Longrightarrow> occupied block AND 2 ^ (n mod 64) = 0 \<longleftrightarrow> slot n = None"
  using bit_iff_and_push_bit_not_eq_0 [of "occupied block" "n mod 64"] by (auto simp: block_holds_def)

section \<open>Reading\<close>

lemma chain_read:
  assumes "chain at lo hi slot s" and "in_chain lo hi n"
  shows "ft_daba_read s (cursor_at at n) = slot n"
proof -
  obtain block where "s (at (n div 64)) = Some block" "block_holds at lo hi slot (n div 64) block"
    using assms by (auto simp: in_chain_def elim: chain_block)
  then show ?thesis by (simp add: ft_daba_read_def block_holds_item)
qed

lemma chain_occupied:
  assumes "chain at lo hi slot s" and "in_chain lo hi n"
  shows "ft_daba_slot_occupied s (cursor_at at n) = Some (slot n \<noteq> None)"
proof -
  obtain block where "s (at (n div 64)) = Some block" "block_holds at lo hi slot (n div 64) block"
    using assms by (auto simp: in_chain_def elim: chain_block)
  then show ?thesis by (simp add: ft_daba_slot_occupied_def block_holds_occupied)
qed

lemma chain_cursor_equal:
  assumes "chain at lo hi slot s" and "in_chain lo hi m" and "in_chain lo hi n"
  shows "ft_daba_cursor_equal (cursor_at at m) (cursor_at at n) \<longleftrightarrow> m = n"
proof -
  have "at (m div 64) = at (n div 64) \<longleftrightarrow> m div 64 = n div 64"
    using assms by (auto simp: chain_def in_chain_def inj_on_def)
  moreover have "m = n" if "m div 64 = n div 64" "m mod 64 = n mod 64"
    using that div_mult_mod_eq [of m 64] div_mult_mod_eq [of n 64] by linarith
  ultimately show ?thesis by (auto simp: ft_daba_cursor_equal_def)
qed

lemma chain_advance:
  assumes "chain at lo hi slot s" and "in_chain lo hi n" and "in_chain lo hi (Suc n)"
  shows "ft_daba_advance s (cursor_at at n) = Some (Some (cursor_at at (Suc n)))"
proof -
  obtain block where block: "s (at (n div 64)) = Some block" "block_holds at lo hi slot (n div 64) block"
    using assms by (auto simp: in_chain_def elim: chain_block)
  show ?thesis
  proof (cases "Suc (n mod 64) = 64")
    case True
    then have "Suc n div 64 = Suc (n div 64)" "Suc n mod 64 = 0" by (simp_all add: div_Suc mod_Suc)
    then show ?thesis using True block assms(3) by (simp add: ft_daba_advance_def block_holds_def cursor_at_def in_chain_def)
  next
    case False
    then have "Suc n div 64 = n div 64" "Suc n mod 64 = Suc (n mod 64)" by (simp_all add: div_Suc mod_Suc)
    moreover have "Suc (n mod 64) < 64" using False by (simp add: le_neq_implies_less Suc_leI)
    ultimately show ?thesis by (simp add: ft_daba_advance_def cursor_at_def)
  qed
qed

lemma chain_retreat:
  assumes "chain at lo hi slot s" and "in_chain lo hi n" and "in_chain lo hi (Suc n)"
  shows "ft_daba_retreat s (cursor_at at (Suc n)) = Some (Some (cursor_at at n))"
proof -
  obtain block where block: "s (at (Suc n div 64)) = Some block" "block_holds at lo hi slot (Suc n div 64) block"
    using assms by (auto simp: in_chain_def elim: chain_block)
  show ?thesis
  proof (cases "Suc (n mod 64) = 64")
    case True
    then have "Suc n div 64 = Suc (n div 64)" "Suc n mod 64 = 0" by (simp_all add: div_Suc mod_Suc)
    moreover have "n mod 64 = 63" using True by simp
    ultimately show ?thesis using block assms(2) by (simp add: ft_daba_retreat_def block_holds_def cursor_at_def in_chain_def)
  next
    case False
    then have "Suc n div 64 = n div 64" "Suc n mod 64 = Suc (n mod 64)" by (simp_all add: div_Suc mod_Suc)
    moreover have "Suc (n mod 64) < 64" using False by (simp add: le_neq_implies_less Suc_leI)
    ultimately show ?thesis by (simp add: ft_daba_retreat_def cursor_at_def)
  qed
qed

section \<open>Writing\<close>

lemma block_holds_update:
  assumes "block_holds at lo hi slot (n div 64) block"
    and "\<And>j. j < 64 \<Longrightarrow> bit bits j \<longleftrightarrow> (if j = n mod 64 then x \<noteq> None else bit (occupied block) j)"
  shows "block_holds at lo hi (slot(n := x)) (n div 64)
    (block\<lparr>block_items := (block_items block)[n mod 64 := x], occupied := bits\<rparr>)"
proof -
  have num: "64 * (n div 64) + j = n \<longleftrightarrow> j = n mod 64" if "j < 64" for j
    using that div_mult_mod_eq [of n 64] by linarith
  have "(map slot [64 * (n div 64)..<64 * (n div 64) + 64])[n mod 64 := x]
      = map (slot(n := x)) [64 * (n div 64)..<64 * (n div 64) + 64]"
    by (rule nth_equalityI) (use num in \<open>auto simp: nth_list_update\<close>)
  then show ?thesis using assms num by (auto simp: block_holds_def)
qed

lemma block_holds_other:
  assumes "block_holds at lo hi slot k block" and "k \<noteq> n div 64"
  shows "block_holds at lo hi (slot(n := x)) k block"
proof -
  have apart: "64 * k + j \<noteq> n" if "j < 64" for j using that assms(2) by auto
  moreover have "n \<notin> set [64 * k..<64 * k + 64]" using assms(2) by auto
  ultimately show ?thesis using assms by (auto simp: block_holds_def)
qed

lemma chain_update:
  assumes chain: "chain at lo hi slot s" and n: "in_chain lo hi n" and block: "s (at (n div 64)) = Some block"
    and bits: "\<And>j. j < 64 \<Longrightarrow> bit bits j \<longleftrightarrow> (if j = n mod 64 then x \<noteq> None else bit (occupied block) j)"
  shows "chain at lo hi (slot(n := x))
    (s(at (n div 64) \<mapsto> block\<lparr>block_items := (block_items block)[n mod 64 := x], occupied := bits\<rparr>))"
  unfolding chain_def
proof (intro conjI ballI)
  fix k
  assume k: "k \<in> {lo..<hi}"
  show "\<exists>b. (s(at (n div 64) \<mapsto> block\<lparr>block_items := (block_items block)[n mod 64 := x], occupied := bits\<rparr>)) (at k) = Some b
      \<and> block_holds at lo hi (slot(n := x)) k b"
  proof (cases "k = n div 64")
    case True
    have "block_holds at lo hi slot (n div 64) block"
      using chain n block by (auto simp: in_chain_def elim: chain_block)
    then show ?thesis using block_holds_update [OF _ bits] by (simp add: True)
  next
    case False
    then have "at k \<noteq> at (n div 64)" using chain k n by (auto simp: chain_def in_chain_def inj_on_def)
    moreover obtain b where "s (at k) = Some b" "block_holds at lo hi slot k b"
      using chain k by (auto elim: chain_block)
    ultimately show ?thesis using block_holds_other [OF _ False] by auto
  qed
qed (use chain n in \<open>auto simp: chain_def in_chain_def\<close>)

lemma chain_take:
  assumes "chain at lo hi slot s" and n: "in_chain lo hi n" and "ft_daba_scratch pool i = Some v"
  obtains s' where "ft_daba_slot_take s pool (cursor_at at n) i = Some (s', pool\<lparr>scratch := (scratch pool)[i := None]\<rparr>)"
    and "chain at lo hi (slot(n \<mapsto> v)) s'"
proof -
  obtain block where block: "s (at (n div 64)) = Some block" using assms by (auto simp: in_chain_def elim: chain_block)
  show thesis
    by (rule that [OF _ chain_update [OF assms(1) n block, of "occupied block OR push_bit (n mod 64) 1"]])
      (use block assms in \<open>auto simp: ft_daba_slot_take_def ft_daba_pool_move_def bit_simps\<close>)
qed

lemma chain_clear:
  assumes "chain at lo hi slot s" and n: "in_chain lo hi n"
  obtains s' where "ft_daba_slot_clear s (cursor_at at n) = Some s'" and "chain at lo hi (slot(n := None)) s'"
proof -
  obtain block where block: "s (at (n div 64)) = Some block" "block_holds at lo hi slot (n div 64) block"
    using assms by (auto simp: in_chain_def elim: chain_block)
  show thesis
  proof (cases "slot n = None")
    case True
    then have "slot(n := None) = slot" by auto
    moreover have "ft_daba_slot_clear s (cursor_at at n) = Some s"
      using True block by (simp add: ft_daba_slot_clear_def block_holds_occupied)
    ultimately show ?thesis using that [of s] assms by simp
  next
    case False
    show ?thesis
      by (rule that [OF _ chain_update [OF assms(1) n block(1), of "occupied block AND NOT (push_bit (n mod 64) 1)"]])
        (use block False in \<open>auto simp: ft_daba_slot_clear_def block_holds_occupied bit_simps\<close>)
  qed
qed

section \<open>Growing and shrinking\<close>

lemma cursor_at_extend: "in_chain lo hi n \<Longrightarrow> cursor_at (at(hi := x)) n = cursor_at at n"
  by (auto simp: cursor_at_def in_chain_def)

lemma block_holds_extend:
  assumes "block_holds at lo hi slot k block" and "lo \<le> k" and "Suc k < hi"
  shows "block_holds (at(hi := x)) lo (Suc hi) slot k block"
  using assms by (auto simp: block_holds_def)

lemma block_holds_link:
  assumes "block_holds at lo (Suc k) slot k block" and "lo \<le> k"
  shows "block_holds (at(Suc k := x)) lo (Suc (Suc k)) slot k (block\<lparr>block_next := Some x\<rparr>)"
  using assms by (auto simp: block_holds_def)

lemma block_holds_new:
  assumes "lo < hi" and "\<And>i. 64 * hi \<le> i \<Longrightarrow> slot i = None"
  shows "block_holds (at(hi := x)) lo (Suc hi) slot hi (new_block (Some (at (hi - 1))))"
  using assms by (auto simp: block_holds_def new_block_def intro!: nth_equalityI)

lemma chain_extend:
  assumes chain: "chain at lo (Suc k) slot s" and block: "s (at k) = Some block" and fresh: "s x = None"
    and empty: "\<And>i. 64 * Suc k \<le> i \<Longrightarrow> slot i = None"
  shows "chain (at(Suc k := x)) lo (Suc (Suc k)) slot
    (s(at k \<mapsto> block\<lparr>block_next := Some x\<rparr>, x \<mapsto> new_block (Some (at k))))"
    (is "chain ?at lo _ slot ?s")
proof -
  have order: "lo \<le> k" and inj: "inj_on at {lo..<Suc k}" and dom: "dom s = at ` {lo..<Suc k}"
    using chain by (simp_all add: chain_def)
  have new: "x \<noteq> at j" if "j \<in> {lo..<Suc k}" for j
    using that dom fresh by (metis domIff imageI)
  have split: "{lo..<Suc (Suc k)} = insert (Suc k) {lo..<Suc k}" using order by auto
  have same: "?at j = at j" if "j \<in> {lo..<Suc k}" for j using that by simp
  have holds: "\<exists>b. ?s (?at j) = Some b \<and> block_holds ?at lo (Suc (Suc k)) slot j b" if j: "j \<in> {lo..<Suc k}" for j
  proof -
    obtain b where b: "s (at j) = Some b" "block_holds at lo (Suc k) slot j b" using chain_block [OF chain, of j] j by auto
    show ?thesis
    proof (cases "j = k")
      case True
      then show ?thesis using block_holds_link [of at lo k slot block x] b block order new [of k] by auto
    next
      case False
      then have "at j \<noteq> at k" using inj that order by (auto simp: inj_on_def)
      then show ?thesis using block_holds_extend [OF b(2)] b False that new [of j] by auto
    qed
  qed
  have "inj_on ?at {lo..<Suc (Suc k)}"
    using inj_on_insert [of ?at "Suc k" "{lo..<Suc k}"] inj new
    by (simp add: split image_iff inj_on_def)
  moreover have "dom ?s = ?at ` {lo..<Suc (Suc k)}"
    unfolding split using dom order by (auto simp: image_iff)
  moreover have "\<exists>b. ?s (?at (Suc k)) = Some b \<and> block_holds ?at lo (Suc (Suc k)) slot (Suc k) b"
    using block_holds_new [of lo "Suc k" slot at x] order empty by simp
  then have "\<forall>j \<in> {lo..<Suc (Suc k)}. \<exists>b. ?s (?at j) = Some b \<and> block_holds ?at lo (Suc (Suc k)) slot j b"
    unfolding split using holds by blast
  moreover have "lo < Suc (Suc k)" using order by simp
  ultimately show ?thesis unfolding chain_def by blast
qed

lemma chain_single:
  assumes "\<And>i. slot i = None" shows "chain (\<lambda>_. x) k (Suc k) slot [x \<mapsto> new_block None]"
  using assms by (auto simp: chain_def block_holds_def new_block_def intro!: nth_equalityI)

lemma chain_drop:
  assumes chain: "chain at lo hi slot s" and order: "Suc lo < hi" and block: "s (at (Suc lo)) = Some block"
  shows "chain at (Suc lo) hi slot (s(at lo := None, at (Suc lo) \<mapsto> block\<lparr>block_previous := None\<rparr>))" (is "chain _ _ _ _ ?s")
proof -
  have inj: "inj_on at {lo..<hi}" and dom: "dom s = at ` {lo..<hi}" using chain by (simp_all add: chain_def)
  have apart: "at lo \<noteq> at j" if "j \<in> {Suc lo..<hi}" for j
    using that order by (intro inj_on_contraD [OF inj]) auto
  have "\<exists>b. ?s (at j) = Some b \<and> block_holds at (Suc lo) hi slot j b" if j: "j \<in> {Suc lo..<hi}" for j
  proof -
    obtain b where b: "s (at j) = Some b" "block_holds at lo hi slot j b" using chain_block [OF chain, of j] j by auto
    show ?thesis
    proof (cases "j = Suc lo")
      case True
      then show ?thesis using b block by (simp add: block_holds_def)
    next
      case False
      then have "at j \<noteq> at (Suc lo)" using inj j order by (auto simp: inj_on_def)
      then show ?thesis using b False apart [OF j] j by (auto simp: block_holds_def)
    qed
  qed
  moreover have "inj_on at {Suc lo..<hi}" by (rule inj_on_subset [OF inj]) auto
  moreover have notin: "at lo \<notin> at ` {Suc lo..<hi}" using apart by blast
  have "{lo..<hi} = insert lo {Suc lo..<hi}" using order by auto
  then have "dom ?s = at ` {Suc lo..<hi}" using dom order notin by auto
  ultimately show ?thesis using order unfolding chain_def by simp
qed

lemma chain_trim:
  assumes chain: "chain at lo hi slot (rep_blocks rep)" and first: "rep_first rep = Some (at lo)"
    and n: "in_chain lo hi n" and near: "n div 64 \<le> Suc lo"
  obtains s where "ft_daba_trim_before rep (cursor_at at n) = Some (rep\<lparr>rep_first := Some (at (n div 64)), rep_blocks := s\<rparr>)"
    and "chain at (n div 64) hi slot s"
proof (cases "n div 64 = lo")
  case True
  obtain block where block: "rep_blocks rep (at lo) = Some block" "block_holds at lo hi slot lo block"
    using chain n True by (auto simp: in_chain_def elim: chain_block)
  have "block\<lparr>block_previous := None\<rparr> = block" using block(2) by (simp add: block_holds_def)
  then have "(rep_blocks rep)(at lo \<mapsto> block\<lparr>block_previous := None\<rparr>) = rep_blocks rep" using block(1) by auto
  moreover have "trim_loop (rep_blocks rep) (Some (at lo)) (Some (at lo)) = Some (rep_blocks rep, Some (at lo))"
    by (simp add: trim_loop.simps)
  ultimately show ?thesis
    using that [of "rep_blocks rep"] chain True first block by (simp add: ft_daba_trim_before_def)
next
  case False
  then have k: "n div 64 = Suc lo" "Suc lo < hi" using n near by (auto simp: in_chain_def)
  obtain old where old: "rep_blocks rep (at lo) = Some old" "block_holds at lo hi slot lo old"
    using chain k by (auto elim: chain_block)
  obtain block where block: "rep_blocks rep (at (Suc lo)) = Some block"
    using chain_block [OF chain, of "Suc lo"] k by auto
  have "inj_on at {lo..<hi}" using chain by (simp add: chain_def)
  then have apart: "at lo \<noteq> at (Suc lo)" by (rule inj_on_contraD) (use k in auto)
  have "trim_loop (rep_blocks rep) (Some (at lo)) (Some (at (Suc lo)))
      = Some ((rep_blocks rep)(at lo := None), Some (at (Suc lo)))"
    using apart old k by (simp add: trim_loop.simps [of _ "Some (at lo)"] trim_loop.simps [of _ "Some (at (Suc lo))"] block_holds_def)
  then show ?thesis
    using that [OF _ chain_drop [OF chain k(2) block, folded k(1)]] k apart first block by (simp add: ft_daba_trim_before_def)
qed

lemma chain_destroy_frees:
  assumes "lo \<le> hi" and "inj_on at {lo..<hi}"
    and "\<And>k. k \<in> {lo..<hi} \<Longrightarrow> \<exists>b. s (at k) = Some b \<and> block_next b = (if Suc k = hi then None else Some (at (Suc k)))"
  shows "ft_daba_chain_destroy s (if lo = hi then None else Some (at lo)) = Some (s |` (- (at ` {lo..<hi})))"
  using assms
proof (induction "hi - lo" arbitrary: lo s)
  case 0
  then show ?case by (simp add: ft_daba_chain_destroy.simps)
next
  case (Suc n)
  then have order: "lo < hi" by simp
  then obtain b where b: "s (at lo) = Some b" "block_next b = (if Suc lo = hi then None else Some (at (Suc lo)))"
    using Suc.prems(3) [of lo] by auto
  have apart: "at k \<noteq> at lo" if "k \<in> {Suc lo..<hi}" for k
    using that order by (intro inj_on_contraD [OF Suc.prems(2)]) auto
  have "inj_on at {Suc lo..<hi}" by (rule inj_on_subset [OF Suc.prems(2)]) auto
  moreover have "\<exists>b. (s(at lo := None)) (at k) = Some b \<and> block_next b = (if Suc k = hi then None else Some (at (Suc k)))"
    if "k \<in> {Suc lo..<hi}" for k
    using Suc.prems(3) [of k] apart [OF that] that by auto
  ultimately have "ft_daba_chain_destroy (s(at lo := None)) (if Suc lo = hi then None else Some (at (Suc lo)))
      = Some (s(at lo := None) |` (- (at ` {Suc lo..<hi})))"
    using Suc.hyps order by (intro Suc.hyps(1)) auto
  moreover have "{lo..<hi} = insert lo {Suc lo..<hi}" using order by auto
  then have "s(at lo := None) |` (- (at ` {Suc lo..<hi})) = s |` (- (at ` {lo..<hi}))"
    by (auto simp: restrict_map_def fun_eq_iff)
  ultimately show ?case using order b by (simp add: ft_daba_chain_destroy.simps [of s])
qed

lemma chain_destroy_all:
  assumes chain: "chain at lo hi slot s" and x: "s x = None"
  shows "ft_daba_chain_destroy (s(x := y)) (Some (at lo)) = Some (Map.empty(x := y))"
proof -
  have order: "lo < hi" and inj: "inj_on at {lo..<hi}" and dom: "dom s = at ` {lo..<hi}" using chain by (simp_all add: chain_def)
  have "ft_daba_chain_destroy (s(x := y)) (if lo = hi then None else Some (at lo))
      = Some (s(x := y) |` (- (at ` {lo..<hi})))"
  proof (rule chain_destroy_frees [OF _ inj])
    fix k
    assume k: "k \<in> {lo..<hi}"
    then obtain b where "s (at k) = Some b" "block_holds at lo hi slot k b" using chain by (auto elim: chain_block)
    then show "\<exists>b. (s(x := y)) (at k) = Some b \<and> block_next b = (if Suc k = hi then None else Some (at (Suc k)))"
      using x by (auto simp: block_holds_def)
  qed (use order in simp)
  moreover have "s(x := y) |` (- (at ` {lo..<hi})) = Map.empty(x := y)"
    using x by (auto simp: fun_eq_iff restrict_map_def simp flip: dom)
  ultimately show ?thesis using order by simp
qed

end
