(* ===== verification/Daba_Fixup.thy ===== *)
theory Daba_Fixup
  imports Daba_Chain
begin

text \<open>
  The fixup of \<open>daba_lite.c\<close> implements the fixup of a window: on a chain that holds the slots of a window, the plan that
  \<open>ft_daba_compute_fixup\<close> makes never fails, never exhausts the scratch pool and calls the combine callback at most twice, and
  carrying it out yields a chain that holds the slots of the window after the fixup.
\<close>

section \<open>Scratch pools\<close>

lemma pool_store_room:
  assumes "n < 8" and "length xs = 8"
  shows "pool_store \<lparr>pool_next = n, scratch = xs, combine_calls = k\<rparr> v
    = (Some n, \<lparr>pool_next = Suc n, scratch = xs[n := Some v], combine_calls = k\<rparr>)"
  using assms by (simp add: pool_store_def ft_daba_pool_reserve_def)

lemma pool_operations:
  assumes "n < 8" and "length xs = 8"
  shows "ft_daba_pool_copy p \<lparr>pool_next = n, scratch = xs, combine_calls = k\<rparr> v
      = (Some n, \<lparr>pool_next = Suc n, scratch = xs[n := Some (ft_daba_value_copy p v)], combine_calls = k\<rparr>)"
    and "ft_daba_pool_identity p \<lparr>pool_next = n, scratch = xs, combine_calls = k\<rparr>
      = (Some n, \<lparr>pool_next = Suc n, scratch = xs[n := Some (ft_daba_identity p)], combine_calls = k\<rparr>)"
    and "ft_daba_pool_combine p \<lparr>pool_next = n, scratch = xs, combine_calls = k\<rparr> v v'
      = (Some n, \<lparr>pool_next = Suc n, scratch = xs[n := Some (ft_daba_combine p v v')], combine_calls = Suc k\<rparr>)"
  using assms by (simp_all add: ft_daba_pool_copy_def ft_daba_pool_identity_def ft_daba_pool_combine_def pool_store_room)

lemma scratch_at: "ft_daba_scratch \<lparr>pool_next = n, scratch = xs, combine_calls = k\<rparr> i = (if i < 8 then xs ! i else None)"
  by (simp add: ft_daba_scratch_def)

lemmas pool_simps = pool_operations scratch_at

section \<open>Windows in which the fixup can run\<close>

definition window_ready :: "'v window \<Rightarrow> bool" where
  "window_ready w \<longleftrightarrow>
     win_f w \<le> win_l w \<and> win_l w \<le> win_r w \<and> win_r w \<le> win_a w \<and> win_a w \<le> win_b w \<and> win_b w \<le> win_e w
     \<and> win_r w - win_l w = win_a w - win_r w
     \<and> (win_f w \<noteq> win_b w \<longrightarrow> win_l w - win_f w = win_e w - win_b w)
     \<and> (\<forall>i. win_f w \<le> i \<longrightarrow> i < win_e w \<longrightarrow> win_slot w i \<noteq> None)"

lemma window_ready_slot:
  assumes "window_ready w" and "win_f w \<le> i" and "i < win_e w"
  obtains v where "win_slot w i = Some v"
  using assms unfolding window_ready_def by blast

lemma window_ready_flip:
  assumes "window_ready w" and "win_f w \<noteq> win_b w"
  shows "window_ready (window_flip one w)" and "win_l (window_flip one w) \<noteq> win_b (window_flip one w)"
  using assms by (auto simp: window_ready_def window_flip_def)

text \<open>A plan carries out the change from one window to another.\<close>

definition plan_for ::
  "(nat \<Rightarrow> addr) \<Rightarrow> nat \<Rightarrow> nat \<Rightarrow> 'v window \<Rightarrow> 'v window \<Rightarrow> 'v ft_daba_temp_pool \<Rightarrow> ft_daba_fixup_plan \<Rightarrow> bool" where
  "plan_for at lo hi w w' pool plan \<longleftrightarrow>
     plan_l plan = cursor_at at (win_l w') \<and> plan_r plan = cursor_at at (win_r w')
     \<and> plan_a plan = cursor_at at (win_a w') \<and> plan_b plan = cursor_at at (win_b w')
     \<and> length (scratch pool) = 8
     \<and> ft_daba_scratch pool (plan_aggregate_ra plan) = Some (win_ra w')
     \<and> ft_daba_scratch pool (plan_aggregate_b plan) = Some (win_ab w')
     \<and> plan_aggregate_ra plan \<noteq> plan_aggregate_b plan
     \<and> ((first_write plan = None \<and> second_write plan = None \<and> win_slot w' = win_slot w)
        \<or> (\<exists>m i y n j z. first_write plan = Some (cursor_at at m, i) \<and> second_write plan = Some (cursor_at at n, j)
             \<and> in_chain lo hi m \<and> in_chain lo hi n \<and> ft_daba_scratch pool i = Some y \<and> ft_daba_scratch pool j = Some z
             \<and> distinct [i, j, plan_aggregate_ra plan, plan_aggregate_b plan] \<and> win_slot w' = (win_slot w)(m \<mapsto> y, n \<mapsto> z)))"

lemma plan_moves_room:
  assumes copy: "\<And>v. ft_daba_value_copy p v = v" and "n + 2 \<le> 8" and "length xs = 8"
  shows "plan_moves p \<lparr>pool_next = n, scratch = xs, combine_calls = k\<rparr> ra ab l r a b
    = Some (Inr \<lparr>plan_l = l, plan_r = r, plan_a = a, plan_b = b, plan_aggregate_ra = n, plan_aggregate_b = Suc n,
                 first_write = None, second_write = None\<rparr>,
            \<lparr>pool_next = n + 2, scratch = xs[n := Some ra, Suc n := Some ab], combine_calls = k\<rparr>)"
  using assms by (simp add: plan_moves_def pool_simps)

text \<open>The index of the identity, when it is there already.\<close>

definition has_identity :: "'v ft_daba_policy \<Rightarrow> nat option \<Rightarrow> nat \<Rightarrow> 'v option list \<Rightarrow> bool" where
  "has_identity p identity n xs \<longleftrightarrow> (\<forall>i. identity = Some i \<longrightarrow> i < n \<and> xs ! i = Some (ft_daba_identity p))"

lemma identity_once_room:
  assumes "has_identity p identity n xs" and "n < 8" and "length xs = 8"
  obtains i m ys where "identity_once p identity \<lparr>pool_next = n, scratch = xs, combine_calls = k\<rparr>
      = (Some i, \<lparr>pool_next = m, scratch = ys, combine_calls = k\<rparr>)"
    and "i < m" and "n \<le> m" and "m \<le> (case identity of None \<Rightarrow> Suc n | Some _ \<Rightarrow> n)"
    and "length ys = 8" and "ys ! i = Some (ft_daba_identity p)" and "\<And>j. j < n \<Longrightarrow> ys ! j = xs ! j"
proof (cases identity)
  case None
  show ?thesis by (rule that [of n "Suc n" "xs[n := Some (ft_daba_identity p)]"])
    (use assms None in \<open>simp_all add: identity_once_def pool_simps\<close>)
next
  case (Some i)
  show ?thesis by (rule that [of i n xs]) (use assms Some in \<open>simp_all add: identity_once_def has_identity_def\<close>)
qed

section \<open>Making the plan\<close>

lemma fixup_shift_room:
  assumes copy: "\<And>v. ft_daba_value_copy p v = v" and ready: "window_ready w"
    and "win_l w = win_r w" and "win_l w \<noteq> win_b w"
    and chain: "chain at lo hi slot s" and f: "in_chain lo hi (win_f w)" and e: "in_chain lo hi (win_e w)"
    and ident: "has_identity p identity n xs" and room: "n + 3 \<le> 8" "length xs = 8"
  obtains plan pool where "fixup_shift p s identity (cursor_at at (win_l w)) (cursor_at at (win_r w)) (cursor_at at (win_a w))
      (cursor_at at (win_b w)) (win_ab w) \<lparr>pool_next = n, scratch = xs, combine_calls = k\<rparr> = Some (Inr plan, pool)"
    and "plan_for at lo hi w (window_step (ft_daba_identity p) (ft_daba_combine p) w) pool plan" and "combine_calls pool = k"
proof -
  have order: "win_a w = win_l w" "win_f w \<le> win_l w" "win_l w < win_b w" "win_b w \<le> win_e w"
    using ready assms(3,4) by (auto simp: window_ready_def)
  then have inside: "in_chain lo hi (win_l w)" "in_chain lo hi (Suc (win_l w))"
    by (auto intro: in_chain_between [OF f e])
  obtain i m ys where ident': "identity_once p identity \<lparr>pool_next = n, scratch = xs, combine_calls = k\<rparr>
      = (Some i, \<lparr>pool_next = m, scratch = ys, combine_calls = k\<rparr>)"
    and m: "i < m" "m \<le> (case identity of None \<Rightarrow> Suc n | Some _ \<Rightarrow> n)" "length ys = 8" "ys ! i = Some (ft_daba_identity p)"
    using identity_once_room [OF ident _ room(2)] room(1) by (metis add_lessD1 le_neq_implies_less less_add_same_cancel1 zero_less_numeral)
  have "m \<le> Suc n" using m(2) by (auto split: option.splits)
  then have small: "m + 2 \<le> 8" "i < 8" using room m by simp_all
  have eq: "fixup_shift p s identity (cursor_at at (win_l w)) (cursor_at at (win_r w)) (cursor_at at (win_a w))
      (cursor_at at (win_b w)) (win_ab w) \<lparr>pool_next = n, scratch = xs, combine_calls = k\<rparr>
    = Some (Inr \<lparr>plan_l = cursor_at at (Suc (win_l w)), plan_r = cursor_at at (Suc (win_l w)), plan_a = cursor_at at (Suc (win_l w)),
                 plan_b = cursor_at at (win_b w), plan_aggregate_ra = m, plan_aggregate_b = Suc m,
                 first_write = None, second_write = None\<rparr>,
            \<lparr>pool_next = m + 2, scratch = ys[m := Some (ft_daba_identity p), Suc m := Some (win_ab w)], combine_calls = k\<rparr>)"
    using order inside ident' m small assms(3)
    by (simp add: fixup_shift_def required_def chain_advance [OF chain] pool_simps plan_moves_room [OF copy])
  show thesis
    by (rule that [OF eq]) (use order small m assms(3) in \<open>simp_all add: plan_for_def window_step_def scratch_at\<close>)
qed

text \<open>The other branch of the fixup, where two slots are written.\<close>

lemma fixup_product_room:
  assumes ready: "window_ready w" and chain: "chain at lo hi (win_slot w) s"
    and f: "in_chain lo hi (win_f w)" and e: "in_chain lo hi (win_e w)"
    and ident: "has_identity p identity n xs" and room: "n < 8" "length xs = 8"
  obtains m ys where "fixup_product p s identity (cursor_at at (win_a w)) (cursor_at at (win_b w))
      \<lparr>pool_next = n, scratch = xs, combine_calls = k\<rparr>
      = (Some (Inr (if win_a w = win_b w then ft_daba_identity p else the (win_slot w (win_a w)))),
         \<lparr>pool_next = m, scratch = ys, combine_calls = k\<rparr>)"
    and "n \<le> m" and "m \<le> (case identity of None \<Rightarrow> Suc n | Some _ \<Rightarrow> n)"
    and "length ys = 8" and "\<And>j. j < n \<Longrightarrow> ys ! j = xs ! j"
proof -
  have order: "win_f w \<le> win_a w" "win_a w \<le> win_b w" "win_b w \<le> win_e w" using ready by (simp_all add: window_ready_def)
  then have inside: "in_chain lo hi (win_a w)" "in_chain lo hi (win_b w)" by (auto intro: in_chain_between [OF f e])
  note equal = chain_cursor_equal [OF chain inside]
  show thesis
  proof (cases "win_a w = win_b w")
    case True
    obtain i m ys where once: "identity_once p identity \<lparr>pool_next = n, scratch = xs, combine_calls = k\<rparr>
        = (Some i, \<lparr>pool_next = m, scratch = ys, combine_calls = k\<rparr>)"
      and m: "i < m" "n \<le> m" "m \<le> (case identity of None \<Rightarrow> Suc n | Some _ \<Rightarrow> n)"
        "length ys = 8" "ys ! i = Some (ft_daba_identity p)" "\<And>j. j < n \<Longrightarrow> ys ! j = xs ! j"
      using identity_once_room [OF ident room, where k = k] by metis
    have "i < 8" using m(1,3) room by (auto split: option.splits)
    then show ?thesis
      using True equal once m by (intro that [of m ys]) (simp_all add: fixup_product_def scratch_at)
  next
    case False
    then have "win_a w < win_e w" using order by simp
    then obtain v where "win_slot w (win_a w) = Some v" using window_ready_slot [OF ready order(1)] by blast
    then show ?thesis
      using False equal room
      by (intro that [of n xs])
        (simp_all add: fixup_product_def chain_occupied [OF chain inside(1)] chain_read [OF chain inside(1)] split: option.split)
  qed
qed

lemma fixup_shrink_room:
  assumes copy: "\<And>v. ft_daba_value_copy p v = v" and ready: "window_ready w"
    and "win_l w \<noteq> win_r w"
    and chain: "chain at lo hi (win_slot w) s" and f: "in_chain lo hi (win_f w)" and e: "in_chain lo hi (win_e w)"
    and ident: "has_identity p identity n xs" and room: "n + (case identity of None \<Rightarrow> 5 | Some _ \<Rightarrow> 4) \<le> 8" "length xs = 8"
  obtains plan pool where "fixup_shrink p s identity (cursor_at at (win_l w)) (cursor_at at (win_r w)) (cursor_at at (win_a w))
      (cursor_at at (win_b w)) (win_ra w) (win_ab w) \<lparr>pool_next = n, scratch = xs, combine_calls = k\<rparr> = Some (Inr plan, pool)"
    and "plan_for at lo hi w (window_step (ft_daba_identity p) (ft_daba_combine p) w) pool plan" and "combine_calls pool = Suc (Suc k)"
proof -
  obtain a' where a': "win_a w = Suc a'" "win_r w \<le> a'"
    using ready assms(3) by (cases "win_a w") (auto simp: window_ready_def)
  have order: "win_f w \<le> win_l w" "win_l w < win_r w" "a' < win_b w" "win_b w \<le> win_e w"
    using ready assms(3) a' by (auto simp: window_ready_def)
  then have inside: "in_chain lo hi (win_l w)" "in_chain lo hi (Suc (win_l w))" "in_chain lo hi a'" "in_chain lo hi (Suc a')"
    using a' by (auto intro: in_chain_between [OF f e])
  obtain x where x: "win_slot w (win_l w) = Some x" using window_ready_slot [OF ready, of "win_l w"] order a' by auto
  obtain y where y: "win_slot w a' = Some y" using window_ready_slot [OF ready, of a'] order a' by auto
  note slots = x y
  let ?one = "ft_daba_identity p" and ?mul = "ft_daba_combine p"
  let ?xs = "xs[n := Some (win_ra w), Suc n := Some (win_ab w), Suc (Suc n) := Some (?mul x (win_ra w))]"
  have small: "n + 4 \<le> 8" using room(1) by (auto split: option.splits)
  have id3: "has_identity p identity (Suc (Suc (Suc n))) ?xs" and room3: "Suc (Suc (Suc n)) < 8" "length ?xs = 8"
    using ident small room(2) by (auto simp: has_identity_def)
  define g where "g = (if win_a w = win_b w then ?one else the (win_slot w (win_a w)))"
  obtain m ys where product: "fixup_product p s identity (cursor_at at (win_a w)) (cursor_at at (win_b w))
      \<lparr>pool_next = Suc (Suc (Suc n)), scratch = ?xs, combine_calls = Suc k\<rparr>
      = (Some (Inr g),
         \<lparr>pool_next = m, scratch = ys, combine_calls = Suc k\<rparr>)"
    and m: "Suc (Suc (Suc n)) \<le> m" "m \<le> (case identity of None \<Rightarrow> Suc (Suc (Suc (Suc n))) | Some _ \<Rightarrow> Suc (Suc (Suc n)))"
      "length ys = 8" "\<And>j. j < Suc (Suc (Suc n)) \<Longrightarrow> ys ! j = ?xs ! j"
    by (rule fixup_product_room [OF ready chain f e id3 room3, where k = "Suc k", folded g_def], rule that)
  have "m < 8" using m(2) room(1) by (auto split: option.splits)
  have eq: "fixup_shrink p s identity (cursor_at at (win_l w)) (cursor_at at (win_r w)) (cursor_at at (win_a w))
      (cursor_at at (win_b w)) (win_ra w) (win_ab w) \<lparr>pool_next = n, scratch = xs, combine_calls = k\<rparr>
    = Some (Inr \<lparr>plan_l = cursor_at at (Suc (win_l w)), plan_r = cursor_at at (win_r w), plan_a = cursor_at at a',
                 plan_b = cursor_at at (win_b w), plan_aggregate_ra = n, plan_aggregate_b = Suc n,
                 first_write = Some (cursor_at at (win_l w), Suc (Suc n)), second_write = Some (cursor_at at a', m)\<rparr>,
            \<lparr>pool_next = Suc m, scratch = ys[m := Some (?mul y g)], combine_calls = Suc (Suc k)\<rparr>)"
    using inside slots product small m room \<open>m < 8\<close> a'
    by (simp add: fixup_shrink_def required_def checked_def chain_advance [OF chain] chain_retreat [OF chain]
        chain_occupied [OF chain] chain_read [OF chain] pool_simps copy)
  have ys: "ys ! n = Some (win_ra w)" "ys ! Suc n = Some (win_ab w)" "ys ! (Suc (Suc n)) = Some (?mul x (win_ra w))"
    using m(4) small room(2) by simp_all
  show thesis
  proof (rule that [OF eq])
    show "plan_for at lo hi w (window_step ?one ?mul w) \<lparr>pool_next = Suc m, scratch = ys[m := Some (?mul y g)], combine_calls = Suc (Suc k)\<rparr>
      \<lparr>plan_l = cursor_at at (Suc (win_l w)), plan_r = cursor_at at (win_r w), plan_a = cursor_at at a',
                 plan_b = cursor_at at (win_b w), plan_aggregate_ra = n, plan_aggregate_b = Suc n,
                 first_write = Some (cursor_at at (win_l w), Suc (Suc n)), second_write = Some (cursor_at at a', m)\<rparr>"
      unfolding plan_for_def
      by (intro conjI disjI2 exI [of _ "win_l w"] exI [of _ "Suc (Suc n)"] exI [of _ "?mul x (win_ra w)"] exI [of _ a'] exI [of _ m] exI [of _ "?mul y g"])
        (use ys m(1,3) small \<open>m < 8\<close> inside slots a' assms(3) in \<open>simp_all add: window_step_def scratch_at g_def\<close>)
  qed simp
qed

lemma window_flip_slot [simp]: "win_slot (window_flip one w) = win_slot w" "win_f (window_flip one w) = win_f w"
  "win_e (window_flip one w) = win_e w" "win_r (window_flip one w) = win_r w"
  by (simp_all add: window_flip_def)

text \<open>The step after the flip, in either branch.\<close>

lemma fixup_step_room:
  assumes copy: "\<And>v. ft_daba_value_copy p v = v" and ready: "window_ready w" and "win_l w \<noteq> win_b w"
    and chain: "chain at lo hi (win_slot w) s" and f: "in_chain lo hi (win_f w)" and e: "in_chain lo hi (win_e w)"
    and ident: "has_identity p identity n xs" and room: "n + (case identity of None \<Rightarrow> 5 | Some _ \<Rightarrow> 4) \<le> 8" "length xs = 8"
  obtains plan pool where
      "(if ft_daba_cursor_equal (cursor_at at (win_l w)) (cursor_at at (win_r w))
        then fixup_shift p s identity (cursor_at at (win_l w)) (cursor_at at (win_r w)) (cursor_at at (win_a w))
          (cursor_at at (win_b w)) (win_ab w) \<lparr>pool_next = n, scratch = xs, combine_calls = k\<rparr>
        else fixup_shrink p s identity (cursor_at at (win_l w)) (cursor_at at (win_r w)) (cursor_at at (win_a w))
          (cursor_at at (win_b w)) (win_ra w) (win_ab w) \<lparr>pool_next = n, scratch = xs, combine_calls = k\<rparr>) = Some (Inr plan, pool)"
    and "plan_for at lo hi w (window_step (ft_daba_identity p) (ft_daba_combine p) w) pool plan"
    and "combine_calls pool \<le> k + 2"
proof -
  have "win_f w \<le> win_l w" "win_l w \<le> win_r w" "win_r w \<le> win_e w" using ready by (simp_all add: window_ready_def)
  then have inside: "in_chain lo hi (win_l w)" "in_chain lo hi (win_r w)" by (auto intro: in_chain_between [OF f e])
  note equal = chain_cursor_equal [OF chain inside]
  have "n + 3 \<le> 8" using room(1) by (auto split: option.splits)
  show thesis
  proof (cases "win_l w = win_r w")
    case True
    show ?thesis
      by (rule fixup_shift_room [OF copy ready True assms(3) chain f e ident \<open>n + 3 \<le> 8\<close> room(2), where k = k])
        (use that equal True in simp)
  next
    case False
    show ?thesis
      by (rule fixup_shrink_room [OF copy ready False chain f e ident room, where k = k]) (use that equal False in simp)
  qed
qed

lemma compute_fixup_room:
  assumes copy: "\<And>v. ft_daba_value_copy p v = v" and ready: "window_ready w"
    and chain: "chain at lo hi (win_slot w) (rep_blocks rep)" and f: "in_chain lo hi (win_f w)" and e: "in_chain lo hi (win_e w)"
    and cursors: "rep_l rep = cursor_at at (win_l w)" "rep_r rep = cursor_at at (win_r w)"
      "rep_a rep = cursor_at at (win_a w)" "rep_b rep = cursor_at at (win_b w)"
    and room: "n + 5 \<le> 8" "length xs = 8"
  obtains plan pool where
      "ft_daba_compute_fixup p rep (cursor_at at (win_f w)) (cursor_at at (win_e w)) (win_ra w) (win_ab w)
         \<lparr>pool_next = n, scratch = xs, combine_calls = k\<rparr> = Some (Inr plan, pool)"
    and "plan_for at lo hi w (window_fixup (ft_daba_identity p) (ft_daba_combine p) w) pool plan"
    and "combine_calls pool \<le> k + 2"
proof -
  let ?one = "ft_daba_identity p" and ?mul = "ft_daba_combine p"
  have "win_f w \<le> win_l w" "win_l w \<le> win_b w" "win_b w \<le> win_e w" using ready by (simp_all add: window_ready_def)
  then have inside: "in_chain lo hi (win_l w)" "in_chain lo hi (win_b w)" by (auto intro: in_chain_between [OF f e])
  note equal = chain_cursor_equal [OF chain f inside(2)] chain_cursor_equal [OF chain inside]
  show thesis
  proof (cases "win_f w = win_b w")
    case True
    have "ft_daba_compute_fixup p rep (cursor_at at (win_f w)) (cursor_at at (win_e w)) (win_ra w) (win_ab w)
         \<lparr>pool_next = n, scratch = xs, combine_calls = k\<rparr>
      = Some (Inr \<lparr>plan_l = cursor_at at (win_e w), plan_r = cursor_at at (win_e w), plan_a = cursor_at at (win_e w),
                   plan_b = cursor_at at (win_e w), plan_aggregate_ra = Suc n, plan_aggregate_b = Suc (Suc n),
                   first_write = None, second_write = None\<rparr>,
              \<lparr>pool_next = n + 3, scratch = xs[n := Some ?one, Suc n := Some ?one, Suc (Suc n) := Some ?one], combine_calls = k\<rparr>)"
      using True equal room by (simp add: ft_daba_compute_fixup_def cursors pool_simps plan_moves_room [OF copy] numeral_3_eq_3)
    then show ?thesis
      by (rule that) (use True room in \<open>simp_all add: plan_for_def window_fixup_def scratch_at\<close>)
  next
    case False
    let ?w = "window_flip ?one w"
    have chain': "chain at lo hi (win_slot ?w) (rep_blocks rep)" "in_chain lo hi (win_f ?w)" "in_chain lo hi (win_e ?w)"
      using chain f e by simp_all
    have "plan_for at lo hi ?w w' = plan_for at lo hi w w'" for w' by (simp add: plan_for_def fun_eq_iff)
    then have result: "plan_for at lo hi ?w (window_step ?one ?mul ?w) = plan_for at lo hi w (window_fixup ?one ?mul w)"
      using False by (simp add: window_fixup_def)
    note step = fixup_step_room [OF copy window_ready_flip [OF ready False] chain', where k = k, unfolded result]
    show ?thesis
    proof (cases "win_l w = win_b w")
      case True
      have "has_identity p (Some n) (Suc n) (xs[n := Some ?one])" using room by (simp add: has_identity_def)
      then show ?thesis
        by (rule step)
          (use room that True False equal in \<open>simp_all add: ft_daba_compute_fixup_def cursors pool_simps window_flip_def Let_def cong: if_cong\<close>)
    next
      case flip: False
      have "has_identity p None n xs" by (simp add: has_identity_def)
      then show ?thesis
        by (rule step)
          (use room that flip False equal in \<open>simp_all add: ft_daba_compute_fixup_def cursors window_flip_def Let_def cong: if_cong\<close>)
    qed
  qed
qed

section \<open>Carrying it out\<close>

lemma scratch_moved [simp]:
  "i \<noteq> j \<Longrightarrow> ft_daba_scratch (pool\<lparr>scratch := (scratch pool)[i := None]\<rparr>) j = ft_daba_scratch pool j"
  by (simp add: ft_daba_scratch_def)

lemma apply_fixup_room:
  assumes chain: "chain at lo hi (win_slot w) (rep_blocks rep)" and plan: "plan_for at lo hi w w' pool plan"
  obtains s where "ft_daba_apply_fixup rep pool plan
      = Some (rep\<lparr>rep_blocks := s, aggregate_ra := win_ra w', aggregate_b := win_ab w', rep_l := cursor_at at (win_l w'),
                  rep_r := cursor_at at (win_r w'), rep_a := cursor_at at (win_a w'), rep_b := cursor_at at (win_b w')\<rparr>)"
    and "chain at lo hi (win_slot w') s"
proof (cases "first_write plan")
  case None
  then have "second_write plan = None" "win_slot w' = win_slot w" using plan by (auto simp: plan_for_def)
  then show ?thesis
    using that [of "rep_blocks rep"] chain plan None
    by (simp add: ft_daba_apply_fixup_def write_slot_def ft_daba_pool_move_def plan_for_def)
next
  case (Some first)
  then obtain m i y n j z where writes: "first_write plan = Some (cursor_at at m, i)" "second_write plan = Some (cursor_at at n, j)"
    and inside: "in_chain lo hi m" "in_chain lo hi n"
    and vals: "ft_daba_scratch pool i = Some y" "ft_daba_scratch pool j = Some z"
    and apart: "distinct [i, j, plan_aggregate_ra plan, plan_aggregate_b plan]"
    and slot: "win_slot w' = (win_slot w)(m \<mapsto> y, n \<mapsto> z)"
    using plan unfolding plan_for_def by auto
  obtain s1 where s1: "ft_daba_slot_take (rep_blocks rep) pool (cursor_at at m) i
      = Some (s1, pool\<lparr>scratch := (scratch pool)[i := None]\<rparr>)" "chain at lo hi ((win_slot w)(m \<mapsto> y)) s1"
    by (rule chain_take [OF chain inside(1) vals(1)])
  have later: "ft_daba_scratch (pool\<lparr>scratch := (scratch pool)[i := None]\<rparr>) j = Some z"
    using vals(2) apart by simp
  obtain s2 where s2: "ft_daba_slot_take s1 (pool\<lparr>scratch := (scratch pool)[i := None]\<rparr>) (cursor_at at n) j
      = Some (s2, pool\<lparr>scratch := (scratch pool)[i := None, j := None]\<rparr>)" "chain at lo hi ((win_slot w)(m \<mapsto> y, n \<mapsto> z)) s2"
    using chain_take [OF s1(2) inside(2) later] by auto
  let ?pool = "pool\<lparr>scratch := (scratch pool)[i := None, j := None]\<rparr>"
  have "ft_daba_scratch pool (plan_aggregate_ra plan) = Some (win_ra w')"
    "ft_daba_scratch pool (plan_aggregate_b plan) = Some (win_ab w')" using plan by (simp_all add: plan_for_def)
  then have "ft_daba_scratch ?pool (plan_aggregate_ra plan) = Some (win_ra w')"
    "ft_daba_scratch (?pool\<lparr>scratch := (scratch ?pool)[plan_aggregate_ra plan := None]\<rparr>) (plan_aggregate_b plan) = Some (win_ab w')"
    using apart by (auto simp: ft_daba_scratch_def split: if_splits)
  then show ?thesis
    using that [of s2] s1(1) s2 plan slot
    by (simp add: ft_daba_apply_fixup_def write_slot_def writes ft_daba_pool_move_def plan_for_def)
qed

end
