(* ===== verification/Daba_Spec.thy ===== *)
theory Daba_Spec
  imports Daba_Fixup
begin

text \<open>
  The operations on the representation of a window: each refines the operation on slot numbers, and so on the sequence of the
  values in the window. A failed insertion leaves the representation as it was.
\<close>

section \<open>The representation\<close>

definition rep_window :: "(nat \<Rightarrow> addr) \<Rightarrow> 'v window \<Rightarrow> 'v ft_daba_lite_rep \<Rightarrow> bool" where
  "rep_window at w rep \<longleftrightarrow>
     chain at (win_f w div 64) (Suc (win_e w div 64)) (win_slot w) (rep_blocks rep)
     \<and> rep_first rep = Some (at (win_f w div 64))
     \<and> rep_f rep = cursor_at at (win_f w) \<and> rep_l rep = cursor_at at (win_l w) \<and> rep_r rep = cursor_at at (win_r w)
     \<and> rep_a rep = cursor_at at (win_a w) \<and> rep_b rep = cursor_at at (win_b w) \<and> rep_e rep = cursor_at at (win_e w)
     \<and> rep_count rep = win_e w - win_f w \<and> aggregate_ra rep = win_ra w \<and> aggregate_b rep = win_ab w"

text \<open>What the policy of a window promises: its monoid is one, and a copy of a value is that value.\<close>

definition lawful :: "'v ft_daba_policy \<Rightarrow> bool" where
  "lawful p \<longleftrightarrow> window_monoid (ft_daba_identity p) (ft_daba_combine p) \<and> (\<forall>v. ft_daba_value_copy p v = v)"

definition rep_ok :: "'v ft_daba_policy \<Rightarrow> nat \<Rightarrow> 'v list \<Rightarrow> 'v ft_daba_lite_rep \<Rightarrow> bool" where
  "rep_ok p t vs rep \<longleftrightarrow>
     ft_daba_multiply_overflows (rep_stride rep) 64 \<noteq> None
     \<and> (\<exists>at w. rep_window at w rep \<and> window_monoid.window_holds (ft_daba_identity p) (ft_daba_combine p) vs w
          \<and> (\<forall>k \<in> {win_f w div 64..win_e w div 64}. at k < t))"

lemma rep_okI:
  assumes "rep_window at w rep" and "window_monoid.window_holds (ft_daba_identity p) (ft_daba_combine p) vs w"
    and "\<And>k. k \<in> {win_f w div 64..win_e w div 64} \<Longrightarrow> at k < t" and "ft_daba_multiply_overflows (rep_stride rep) 64 \<noteq> None"
  shows "rep_ok p t vs rep"
  unfolding rep_ok_def using assms by blast

lemma rep_ok_later: "rep_ok p t vs rep \<Longrightarrow> t \<le> t' \<Longrightarrow> rep_ok p t' vs rep"
  unfolding rep_ok_def by (meson less_le_trans)

lemma rep_window_fresh:
  assumes "rep_window at w rep" and "\<forall>k \<in> {win_f w div 64..win_e w div 64}. at k < t"
  shows "rep_blocks rep t = None"
proof -
  have "dom (rep_blocks rep) = at ` {win_f w div 64..win_e w div 64}"
    using assms(1) by (simp add: rep_window_def chain_def atLeastLessThanSuc_atLeastAtMost)
  then have "t \<notin> dom (rep_blocks rep)" using assms(2) by auto
  then show ?thesis by (simp add: domIff)
qed

context window_monoid
begin

lemma window_holds_ready_insert:
  assumes "window_holds vs w"
  shows "window_ready (w\<lparr>win_e := win_e w + 1, win_ab := y, win_slot := (win_slot w)(win_e w \<mapsto> x)\<rparr>)"
proof -
  have "\<And>i. win_f w \<le> i \<Longrightarrow> i < win_e w \<Longrightarrow> win_slot w i \<noteq> None" using window_holds_slot [OF assms] by simp
  then show ?thesis
    using assms by (auto simp: window_holds_def window_inv_def window_regions_def window_ready_def less_Suc_eq split: if_splits)
qed

lemma window_holds_ready_evict:
  assumes "window_holds vs w" and "win_f w \<noteq> win_e w"
  shows "window_ready (w\<lparr>win_f := win_f w + 1\<rparr>)"
proof -
  have "\<And>i. Suc (win_f w) \<le> i \<Longrightarrow> i < win_e w \<Longrightarrow> win_slot w i \<noteq> None" using window_holds_slot [OF assms(1)] by simp
  then show ?thesis
    using assms by (auto simp: window_holds_def window_inv_def window_regions_def window_ready_def split: if_splits)
qed

lemma window_holds_order:
  assumes "window_holds vs w"
  shows "win_f w \<le> win_l w" "win_l w \<le> win_r w" "win_r w \<le> win_a w" "win_a w \<le> win_b w" "win_b w \<le> win_e w"
  using assms by (auto simp: window_holds_def window_inv_def window_regions_def)

end

section \<open>Insertion\<close>

lemma extend_chain_cases:
  assumes rep: "rep_window at w rep" and "win_f w \<le> win_e w" and slots: "\<forall>i \<ge> win_e w. win_slot w i = None"
    and stride: "ft_daba_multiply_overflows (rep_stride rep) 64 \<noteq> None"
    and fresh: "\<forall>k \<in> {win_f w div 64..win_e w div 64}. at k < t"
  obtains (extended) at' s added t' where "extend_chain E rep t = Some (Inr (s, cursor_at at' (Suc (win_e w)), added), t')"
      and "chain at' (win_f w div 64) (Suc (Suc (win_e w) div 64)) (win_slot w) s"
      and "\<And>i. i \<in> {win_f w..win_e w} \<Longrightarrow> cursor_at at' i = cursor_at at i"
      and "\<And>k. k \<in> {win_f w div 64..Suc (win_e w) div 64} \<Longrightarrow> at' k < t'" and "at' (win_f w div 64) = at (win_f w div 64)"
      and "t' \<in> {t, t + 2}"
  | (refused) t' where "extend_chain E rep t = Some (Inl FT_STATUS_NO_MEMORY, t')" and "t' \<in> {t + 1, t + 2}"
      and "\<not> (E t \<and> E (t + 1))"
proof (cases "Suc (win_e w mod 64) < 64")
  case True
  then have "Suc (win_e w) div 64 = win_e w div 64" "Suc (win_e w) mod 64 = Suc (win_e w mod 64)"
    by (simp_all add: div_Suc mod_Suc)
  then show ?thesis
    using True rep fresh
    by (intro extended [of "rep_blocks rep" at None t]) (simp_all add: extend_chain_def rep_window_def cursor_at_def)
next
  case False
  then have next_block: "Suc (win_e w) div 64 = Suc (win_e w div 64)" "Suc (win_e w) mod 64 = 0"
    by (simp_all add: div_Suc mod_Suc le_antisym Suc_leI not_less)
  let ?lo = "win_f w div 64" and ?k = "win_e w div 64"
  have order: "?lo \<le> ?k" by (rule div_le_mono) (rule assms(2))
  have chain: "chain at ?lo (Suc ?k) (win_slot w) (rep_blocks rep)" and e: "rep_e rep = cursor_at at (win_e w)"
    using rep by (simp_all add: rep_window_def)
  obtain block where block: "rep_blocks rep (at ?k) = Some block" "block_holds at ?lo (Suc ?k) (win_slot w) ?k block"
    using chain_block [OF chain order] by auto
  have "rep_blocks rep t = None" by (rule rep_window_fresh [OF rep fresh])
  note chain' = chain_extend [OF chain block(1) this, OF slots [rule_format]]
  have beyond: "win_e w \<le> i" if "64 * Suc ?k \<le> i" for i
    using that div_mult_mod_eq [of "win_e w" 64] mod_less_divisor [of 64 "win_e w"] by simp
  have same: "cursor_at (at(Suc ?k := t)) i = cursor_at at i" if "i \<in> {win_f w..win_e w}" for i
  proof (rule cursor_at_extend [where lo = ?lo])
    show "in_chain ?lo (Suc ?k) i" using that div_le_mono [of "win_f w" i 64] div_le_mono [of i "win_e w" 64] by (simp add: in_chain_def)
  qed
  have create: "ft_daba_block_create E (rep_stride rep) t
      = (if \<not> E t then (Inl FT_STATUS_NO_MEMORY, t + 1) else if \<not> E (t + 1) then (Inl FT_STATUS_NO_MEMORY, t + 2) else (Inr t, t + 2))"
    using stride by (auto simp: ft_daba_block_create_def)
  have none: "block_next block = None" using block(2) by (simp add: block_holds_def)
  show ?thesis
  proof (cases "E t \<and> E (t + 1)")
    case True
    show ?thesis
    proof (rule extended)
      show "extend_chain E rep t = Some (Inr ((rep_blocks rep)(at ?k \<mapsto> block\<lparr>block_next := Some t\<rparr>, t \<mapsto> new_block (Some (at ?k))),
          cursor_at (at(Suc ?k := t)) (Suc (win_e w)), Some t), t + 2)"
        using False True block none create next_block by (simp add: extend_chain_def e cursor_at_def)
      show "(at(Suc ?k := t)) j < t + 2" if "j \<in> {?lo..Suc (win_e w) div 64}" for j
        using that bspec [OF fresh, of j] next_block order by auto
    qed (use chain' beyond same next_block order in auto)
  next
    case refuse: False
    then show ?thesis
      using refused [of "if E t then t + 2 else t + 1"] False block none create e by (auto simp: extend_chain_def)
  qed
qed

text \<open>Storing a value in the slot at the end of the window, and the fixup after it.\<close>

definition insert_pool :: "'v \<Rightarrow> 'v option \<Rightarrow> 'v ft_daba_temp_pool" where
  "insert_pool y x =
     \<lparr>pool_next = Suc (Suc 0), scratch = (replicate 8 None)[0 := Some y, Suc 0 := x], combine_calls = Suc 0\<rparr>"

lemma insert_fixup:
  assumes lawful: "lawful p" and holds: "window_monoid.window_holds (ft_daba_identity p) (ft_daba_combine p) vs w"
    and chain: "chain at (win_f w div 64) (Suc (Suc (win_e w) div 64)) (win_slot w) s"
    and cursors: "rep_l rep = cursor_at at (win_l w)" "rep_r rep = cursor_at at (win_r w)"
      "rep_a rep = cursor_at at (win_a w)" "rep_b rep = cursor_at at (win_b w)"
    and w': "w' = window_insert (ft_daba_identity p) (ft_daba_combine p) x w" and y: "y = ft_daba_combine p (win_ab w) x"
  obtains s1 plan pool s2 where "ft_daba_slot_occupied s (cursor_at at (win_e w)) = Some False"
    and "ft_daba_slot_take s (insert_pool y (Some x)) (cursor_at at (win_e w)) (Suc 0) = Some (s1, insert_pool y None)"
    and "ft_daba_compute_fixup p (rep\<lparr>rep_blocks := s1\<rparr>) (cursor_at at (win_f w)) (cursor_at at (Suc (win_e w))) (win_ra w) y
          (insert_pool y None) = Some (Inr plan, pool)" and "combine_calls pool \<le> 3"
    and "ft_daba_apply_fixup (rep\<lparr>rep_blocks := s1\<rparr>) pool plan = Some (rep\<lparr>rep_blocks := s2,
        aggregate_ra := win_ra w', aggregate_b := win_ab w', rep_l := cursor_at at (win_l w'), rep_r := cursor_at at (win_r w'),
        rep_a := cursor_at at (win_a w'), rep_b := cursor_at at (win_b w')\<rparr>)"
    and "chain at (win_f w div 64) (Suc (Suc (win_e w) div 64)) (win_slot w') s2"
proof -
  let ?one = "ft_daba_identity p" and ?mul = "ft_daba_combine p" and ?lo = "win_f w div 64" and ?hi = "Suc (Suc (win_e w) div 64)"
  let ?w = "w\<lparr>win_e := win_e w + 1, win_ab := ?mul (win_ab w) x, win_slot := (win_slot w)(win_e w \<mapsto> x)\<rparr>"
  have monoid: "window_monoid ?one ?mul" and copy: "\<And>v. ft_daba_value_copy p v = v" using lawful by (auto simp: lawful_def)
  have order: "win_f w \<le> win_e w" using window_monoid.window_holds_length [OF monoid holds] by simp
  have inside: "in_chain ?lo ?hi (win_f w)" "in_chain ?lo ?hi (win_e w)" "in_chain ?lo ?hi (Suc (win_e w))"
    using div_le_mono [of "win_f w" "win_e w" 64] div_le_mono [of "win_e w" "Suc (win_e w)" 64] order by (auto simp: in_chain_def)
  have occupied: "ft_daba_slot_occupied s (cursor_at at (win_e w)) = Some False"
    using chain_occupied [OF chain inside(2)] window_monoid.window_holds_slot [OF monoid holds, of "win_e w"] by simp
  have stored: "ft_daba_scratch (insert_pool y (Some x)) (Suc 0) = Some x" by (simp add: insert_pool_def scratch_at)
  obtain s1 where s1: "ft_daba_slot_take s (insert_pool y (Some x)) (cursor_at at (win_e w)) (Suc 0) = Some (s1, insert_pool y None)"
    "chain at ?lo ?hi (win_slot ?w) s1"
    using chain_take [OF chain inside(2) stored] by (auto simp: insert_pool_def)
  have ready: "window_ready ?w" by (rule window_monoid.window_holds_ready_insert [OF monoid holds])
  obtain plan pool where plan: "ft_daba_compute_fixup p (rep\<lparr>rep_blocks := s1\<rparr>) (cursor_at at (win_f w))
        (cursor_at at (Suc (win_e w))) (win_ra w) y (insert_pool y None) = Some (Inr plan, pool)"
      "plan_for at ?lo ?hi ?w w' pool plan" "combine_calls pool \<le> Suc 0 + 2"
    by (rule compute_fixup_room [OF copy ready, of at ?lo ?hi "rep\<lparr>rep_blocks := s1\<rparr>" "Suc (Suc 0)"
          "scratch (insert_pool y None)" "Suc 0"])
      (use s1(2) inside cursors in \<open>simp_all add: insert_pool_def w' window_insert_def y\<close>)
  obtain s2 where "ft_daba_apply_fixup (rep\<lparr>rep_blocks := s1\<rparr>) pool plan = Some (rep\<lparr>rep_blocks := s2,
        aggregate_ra := win_ra w', aggregate_b := win_ab w', rep_l := cursor_at at (win_l w'), rep_r := cursor_at at (win_r w'),
        rep_a := cursor_at at (win_a w'), rep_b := cursor_at at (win_b w')\<rparr>)" "chain at ?lo ?hi (win_slot w') s2"
    using apply_fixup_room [OF _ plan(2), of "rep\<lparr>rep_blocks := s1\<rparr>"] s1(2) by auto
  then show thesis using that [OF occupied s1(1) plan(1)] plan(3) by simp
qed

lemma insert_rep_correct:
  assumes lawful: "lawful p" and ok: "rep_ok p t vs rep" and size: "length vs \<noteq> SIZE_MAX"
  obtains (inserted) rep' calls t' where "insert_rep E p rep x t = Some (FT_STATUS_OK, rep', calls, t')"
      and "rep_ok p t' (vs @ [x]) rep'" and "calls \<le> 3" and "t' \<in> {t, t + 2}"
  | (refused) t' where "insert_rep E p rep x t = Some (FT_STATUS_NO_MEMORY, rep, 1, t')" and "t' \<in> {t + 1, t + 2}"
      and "\<not> (E t \<and> E (t + 1))"
proof -
  let ?one = "ft_daba_identity p" and ?mul = "ft_daba_combine p"
  have monoid: "window_monoid ?one ?mul" and copy: "\<And>v. ft_daba_value_copy p v = v" using lawful by (auto simp: lawful_def)
  obtain at w where rep: "rep_window at w rep" and holds: "window_monoid.window_holds ?one ?mul vs w"
    and fresh: "\<forall>k \<in> {win_f w div 64..win_e w div 64}. at k < t"
    and stride: "ft_daba_multiply_overflows (rep_stride rep) 64 \<noteq> None"
    using ok unfolding rep_ok_def by blast
  have length: "win_f w + length vs = win_e w" by (rule window_monoid.window_holds_length [OF monoid holds])
  then have order: "win_f w \<le> win_e w" by simp
  have slots: "\<forall>i \<ge> win_e w. win_slot w i = None"
    using window_monoid.window_holds_slot [OF monoid holds] by (metis not_less)
  define y where "y = ?mul (win_ab w) x"
  have start: "ft_daba_pool_combine p ft_daba_pool_init (aggregate_b rep) x
      = (Some 0, \<lparr>pool_next = Suc 0, scratch = (replicate 8 None)[0 := Some y], combine_calls = Suc 0\<rparr>)"
    "ft_daba_pool_copy p \<lparr>pool_next = Suc 0, scratch = (replicate 8 None)[0 := Some y], combine_calls = Suc 0\<rparr> x
      = (Some (Suc 0), insert_pool y (Some x))"
    using rep by (simp_all add: ft_daba_pool_init_def pool_simps copy rep_window_def y_def insert_pool_def)
  have not_full: "rep_count rep \<noteq> SIZE_MAX" using rep length size by (auto simp: rep_window_def)
  show thesis
  proof (cases rule: extend_chain_cases [OF rep order slots stride fresh, where E = E, case_names extended refused])
    case (extended at' s added t')
    let ?w = "window_insert ?one ?mul x w"
    have cursors: "rep_f rep = cursor_at at' (win_f w)" "rep_l rep = cursor_at at' (win_l w)" "rep_r rep = cursor_at at' (win_r w)"
      "rep_a rep = cursor_at at' (win_a w)" "rep_b rep = cursor_at at' (win_b w)" "rep_e rep = cursor_at at' (win_e w)"
      using rep window_monoid.window_holds_order [OF monoid holds] extended(3) by (simp_all add: rep_window_def)
    obtain s1 plan pool s2 where fixup: "ft_daba_slot_occupied s (cursor_at at' (win_e w)) = Some False"
      "ft_daba_slot_take s (insert_pool y (Some x)) (cursor_at at' (win_e w)) (Suc 0) = Some (s1, insert_pool y None)"
      "ft_daba_compute_fixup p (rep\<lparr>rep_blocks := s1\<rparr>) (cursor_at at' (win_f w)) (cursor_at at' (Suc (win_e w))) (win_ra w) y
          (insert_pool y None) = Some (Inr plan, pool)" "combine_calls pool \<le> 3"
      "ft_daba_apply_fixup (rep\<lparr>rep_blocks := s1\<rparr>) pool plan = Some (rep\<lparr>rep_blocks := s2,
        aggregate_ra := win_ra ?w, aggregate_b := win_ab ?w, rep_l := cursor_at at' (win_l ?w), rep_r := cursor_at at' (win_r ?w),
        rep_a := cursor_at at' (win_a ?w), rep_b := cursor_at at' (win_b ?w)\<rparr>)"
      "chain at' (win_f w div 64) (Suc (Suc (win_e w) div 64)) (win_slot ?w) s2"
      by (rule insert_fixup [OF lawful holds extended(2) cursors(2-5) refl y_def])
    let ?rep = "rep\<lparr>rep_blocks := s2, aggregate_ra := win_ra ?w, aggregate_b := win_ab ?w, rep_l := cursor_at at' (win_l ?w),
        rep_r := cursor_at at' (win_r ?w), rep_a := cursor_at at' (win_a ?w), rep_b := cursor_at at' (win_b ?w),
        rep_e := cursor_at at' (Suc (win_e w)), rep_count := rep_count rep + 1\<rparr>"
    have ends: "win_f ?w = win_f w" "win_e ?w = Suc (win_e w)"
      using window_monoid.window_fixup_ends [OF monoid] by (simp_all add: window_insert_def)
    have "rep_window at' ?w ?rep"
      using fixup(6) rep cursors extended(5) order by (simp add: rep_window_def ends)
    then have "rep_ok p t' (vs @ [x]) ?rep"
      by (rule rep_okI) (use window_monoid.window_holds_insert [OF monoid holds, of x] extended(4) stride ends in simp_all)
    moreover have "insert_rep E p rep x t = Some (FT_STATUS_OK, ?rep, combine_calls pool, t')"
      using not_full start extended(1) fixup cursors rep
      by (simp add: insert_rep_def insert_pool_def scratch_at rep_window_def)
    ultimately show ?thesis using that(1) fixup(4) extended(6) by blast
  next
    case (refused t')
    then show ?thesis
      using that(2) [of t'] not_full start by (simp add: insert_rep_def insert_pool_def)
  qed
qed

section \<open>Eviction\<close>

lemma evict_fixup:
  assumes lawful: "lawful p" and holds: "window_monoid.window_holds (ft_daba_identity p) (ft_daba_combine p) (v # vs) w"
    and rep: "rep_window at w rep" and w': "w' = window_evict (ft_daba_identity p) (ft_daba_combine p) w"
  obtains plan pool s1 s2 where "ft_daba_advance (rep_blocks rep) (cursor_at at (win_f w)) = Some (Some (cursor_at at (Suc (win_f w))))"
    and "ft_daba_compute_fixup p rep (cursor_at at (Suc (win_f w))) (rep_e rep) (aggregate_ra rep) (aggregate_b rep) ft_daba_pool_init
          = Some (Inr plan, pool)" and "combine_calls pool \<le> 2"
    and "ft_daba_apply_fixup rep pool plan = Some (rep\<lparr>rep_blocks := s1,
        aggregate_ra := win_ra w', aggregate_b := win_ab w', rep_l := cursor_at at (win_l w'), rep_r := cursor_at at (win_r w'),
        rep_a := cursor_at at (win_a w'), rep_b := cursor_at at (win_b w')\<rparr>)"
    and "ft_daba_slot_clear s1 (cursor_at at (win_f w)) = Some s2"
    and "chain at (win_f w div 64) (Suc (win_e w div 64)) (win_slot w') s2"
proof -
  let ?one = "ft_daba_identity p" and ?mul = "ft_daba_combine p" and ?lo = "win_f w div 64" and ?hi = "Suc (win_e w div 64)"
  let ?w = "w\<lparr>win_f := win_f w + 1\<rparr>"
  have monoid: "window_monoid ?one ?mul" and copy: "\<And>v. ft_daba_value_copy p v = v" using lawful by (auto simp: lawful_def)
  have order: "win_f w < win_e w" using window_monoid.window_holds_length [OF monoid holds] by simp
  have chain: "chain at ?lo ?hi (win_slot w) (rep_blocks rep)" using rep by (simp add: rep_window_def)
  have inside: "in_chain ?lo ?hi (win_f w)" "in_chain ?lo ?hi (Suc (win_f w))" "in_chain ?lo ?hi (win_e w)"
    using div_le_mono [of "win_f w" "Suc (win_f w)" 64] div_le_mono [of "Suc (win_f w)" "win_e w" 64] order by (auto simp: in_chain_def)
  have ready: "window_ready ?w" by (rule window_monoid.window_holds_ready_evict [OF monoid holds]) (use order in simp)
  obtain plan pool where plan: "ft_daba_compute_fixup p rep (cursor_at at (Suc (win_f w))) (rep_e rep) (aggregate_ra rep)
        (aggregate_b rep) ft_daba_pool_init = Some (Inr plan, pool)"
      "plan_for at ?lo ?hi ?w (window_fixup ?one ?mul ?w) pool plan" "combine_calls pool \<le> 2"
    by (rule compute_fixup_room [OF copy ready, of at ?lo ?hi rep 0 "replicate 8 None" 0])
      (use rep chain inside in \<open>simp_all add: ft_daba_pool_init_def rep_window_def\<close>)
  have same: "win_ra w' = win_ra (window_fixup ?one ?mul ?w)" "win_ab w' = win_ab (window_fixup ?one ?mul ?w)"
    "win_l w' = win_l (window_fixup ?one ?mul ?w)" "win_r w' = win_r (window_fixup ?one ?mul ?w)"
    "win_a w' = win_a (window_fixup ?one ?mul ?w)" "win_b w' = win_b (window_fixup ?one ?mul ?w)"
    "win_slot w' = (win_slot (window_fixup ?one ?mul ?w))(win_f w := None)"
    by (simp_all add: w' window_evict_def Let_def)
  obtain s1 where s1: "ft_daba_apply_fixup rep pool plan = Some (rep\<lparr>rep_blocks := s1,
        aggregate_ra := win_ra w', aggregate_b := win_ab w', rep_l := cursor_at at (win_l w'), rep_r := cursor_at at (win_r w'),
        rep_a := cursor_at at (win_a w'), rep_b := cursor_at at (win_b w')\<rparr>)"
      "chain at ?lo ?hi (win_slot (window_fixup ?one ?mul ?w)) s1"
    using apply_fixup_room [OF _ plan(2), of rep] chain unfolding same by auto
  obtain s2 where "ft_daba_slot_clear s1 (cursor_at at (win_f w)) = Some s2" "chain at ?lo ?hi (win_slot w') s2"
    using chain_clear [OF s1(2) inside(1)] unfolding same by auto
  then show thesis using that [OF chain_advance [OF chain inside(1,2)] plan(1,3) s1(1)] by blast
qed

lemma evict_rep_correct:
  assumes lawful: "lawful p" and ok: "rep_ok p t (v # vs) rep"
  obtains rep' calls where "evict_rep p rep = Some ((FT_STATUS_OK, True), rep', calls)" and "rep_ok p t vs rep'" and "calls \<le> 2"
proof -
  let ?one = "ft_daba_identity p" and ?mul = "ft_daba_combine p"
  have monoid: "window_monoid ?one ?mul" using lawful by (simp add: lawful_def)
  obtain at w where rep: "rep_window at w rep" and holds: "window_monoid.window_holds ?one ?mul (v # vs) w"
    and fresh: "\<forall>k \<in> {win_f w div 64..win_e w div 64}. at k < t"
    and stride: "ft_daba_multiply_overflows (rep_stride rep) 64 \<noteq> None"
    using ok unfolding rep_ok_def by blast
  have order: "win_f w < win_e w" using window_monoid.window_holds_length [OF monoid holds] by simp
  define w' where "w' = window_evict ?one ?mul w"
  have ends: "win_f w' = Suc (win_f w)" "win_e w' = win_e w"
    using window_monoid.window_fixup_ends [OF monoid] by (simp_all add: w'_def window_evict_def Let_def)
  have front: "rep_f rep = cursor_at at (win_f w)" using rep by (simp add: rep_window_def)
  obtain plan pool s1 s2 where advance: "ft_daba_advance (rep_blocks rep) (cursor_at at (win_f w)) = Some (Some (cursor_at at (Suc (win_f w))))"
    and plan: "ft_daba_compute_fixup p rep (cursor_at at (Suc (win_f w))) (rep_e rep) (aggregate_ra rep) (aggregate_b rep) ft_daba_pool_init
          = Some (Inr plan, pool)" and calls: "combine_calls pool \<le> 2"
    and applied: "ft_daba_apply_fixup rep pool plan = Some (rep\<lparr>rep_blocks := s1,
        aggregate_ra := win_ra w', aggregate_b := win_ab w', rep_l := cursor_at at (win_l w'), rep_r := cursor_at at (win_r w'),
        rep_a := cursor_at at (win_a w'), rep_b := cursor_at at (win_b w')\<rparr>)"
    and clear: "ft_daba_slot_clear s1 (cursor_at at (win_f w)) = Some s2"
    and chain: "chain at (win_f w div 64) (Suc (win_e w div 64)) (win_slot w') s2"
    by (rule evict_fixup [OF lawful holds rep w'_def])
  let ?rep = "rep\<lparr>aggregate_ra := win_ra w', aggregate_b := win_ab w', rep_l := cursor_at at (win_l w'),
        rep_r := cursor_at at (win_r w'), rep_a := cursor_at at (win_a w'), rep_b := cursor_at at (win_b w'),
        rep_f := cursor_at at (Suc (win_f w)), rep_count := rep_count rep - 1, rep_blocks := s2\<rparr>"
  have step: "win_f w div 64 \<le> Suc (win_f w) div 64" "Suc (win_f w) div 64 \<le> win_e w div 64" "Suc (win_f w) div 64 \<le> Suc (win_f w div 64)"
    using div_le_mono [of "win_f w" "Suc (win_f w)" 64] div_le_mono [of "Suc (win_f w)" "win_e w" 64] order by (simp_all add: div_Suc)
  have rep': "chain at (win_f w div 64) (Suc (win_e w div 64)) (win_slot w') (rep_blocks ?rep)"
    "rep_first ?rep = Some (at (win_f w div 64))" "in_chain (win_f w div 64) (Suc (win_e w div 64)) (Suc (win_f w))"
    using chain rep step by (simp_all add: in_chain_def rep_window_def)
  obtain s3 where trim: "ft_daba_trim_before ?rep (cursor_at at (Suc (win_f w)))
      = Some (?rep\<lparr>rep_first := Some (at (Suc (win_f w) div 64)), rep_blocks := s3\<rparr>)"
    and chain3: "chain at (Suc (win_f w) div 64) (Suc (win_e w div 64)) (win_slot w') s3"
    by (rule chain_trim [OF rep' step(3)])
  have "rep_window at w' (?rep\<lparr>rep_first := Some (at (Suc (win_f w) div 64)), rep_blocks := s3\<rparr>)"
    using chain3 rep by (simp add: rep_window_def ends)
  then have "rep_ok p t vs (?rep\<lparr>rep_first := Some (at (Suc (win_f w) div 64)), rep_blocks := s3\<rparr>)"
    by (rule rep_okI) (use window_monoid.window_holds_evict [OF monoid holds] fresh step stride in \<open>auto simp: ends w'_def [symmetric]\<close>)
  moreover have "rep_count rep \<noteq> 0" using rep order by (simp add: rep_window_def)
  then have "evict_rep p rep = Some ((FT_STATUS_OK, True), ?rep\<lparr>rep_first := Some (at (Suc (win_f w) div 64)), rep_blocks := s3\<rparr>,
      combine_calls pool)"
    using advance plan applied clear trim by (simp add: evict_rep_def front)
  ultimately show thesis using that calls by blast
qed

section \<open>The other operations\<close>

lemma rep_ok_count:
  assumes "lawful p" and "rep_ok p t vs rep" shows "rep_count rep = length vs"
  using assms window_monoid.window_holds_length [of "ft_daba_identity p" "ft_daba_combine p" vs]
  by (fastforce simp: lawful_def rep_ok_def rep_window_def)

lemma aggregate_rep_correct:
  assumes lawful: "lawful p" and ok: "rep_ok p t vs rep" and "vs \<noteq> []"
  obtains v where "ft_daba_slot_occupied (rep_blocks rep) (rep_f rep) = Some True"
    and "ft_daba_read (rep_blocks rep) (rep_f rep) = Some v"
    and "ft_daba_combine p v (aggregate_b rep) = foldr (ft_daba_combine p) vs (ft_daba_identity p)"
proof -
  let ?one = "ft_daba_identity p" and ?mul = "ft_daba_combine p"
  have monoid: "window_monoid ?one ?mul" using lawful by (simp add: lawful_def)
  obtain at w where rep: "rep_window at w rep" and holds: "window_monoid.window_holds ?one ?mul vs w"
    using ok unfolding rep_ok_def by blast
  have order: "win_f w < win_e w" using window_monoid.window_holds_length [OF monoid holds] assms(3) by (cases vs) simp_all
  then obtain v where v: "win_slot w (win_f w) = Some v" using window_monoid.window_holds_slot [OF monoid holds, of "win_f w"] by auto
  have chain: "chain at (win_f w div 64) (Suc (win_e w div 64)) (win_slot w) (rep_blocks rep)"
    and inside: "in_chain (win_f w div 64) (Suc (win_e w div 64)) (win_f w)"
    using rep div_le_mono [of "win_f w" "win_e w" 64] order by (simp_all add: rep_window_def in_chain_def)
  show thesis
    by (rule that [of v])
      (use chain_occupied [OF chain inside] chain_read [OF chain inside] v rep
        window_monoid.window_holds_aggregate [OF monoid holds assms(3)] in \<open>simp_all add: rep_window_def\<close>)
qed

text \<open>An empty window in a single fresh block.\<close>

lemma rep_ok_fresh:
  assumes "lawful p" and "x < t" and "ft_daba_multiply_overflows (rep_stride rep) 64 \<noteq> None"
    and "rep_first rep = Some x" "rep_f rep = \<lparr>cursor_block = Some x, cursor_index = 0\<rparr>" "rep_l rep = rep_f rep" "rep_r rep = rep_f rep"
      "rep_a rep = rep_f rep" "rep_b rep = rep_f rep" "rep_e rep = rep_f rep" "rep_count rep = 0"
      "aggregate_ra rep = ft_daba_identity p" "aggregate_b rep = ft_daba_identity p" "rep_blocks rep = [x \<mapsto> new_block None]"
  shows "rep_ok p t [] rep"
proof (rule rep_okI)
  let ?one = "ft_daba_identity p"
  have monoid: "window_monoid ?one (ft_daba_combine p)" using assms(1) by (simp add: lawful_def)
  let ?w = "\<lparr>win_f = 0, win_l = 0, win_r = 0, win_a = 0, win_b = 0, win_e = 0, win_ra = ?one, win_ab = ?one, win_slot = Map.empty\<rparr>"
  show "window_monoid.window_holds ?one (ft_daba_combine p) [] ?w" by (rule window_monoid.window_holds_create [OF monoid])
  show "rep_window (\<lambda>_. x) ?w rep"
    using assms chain_single [of Map.empty x 0] by (simp add: rep_window_def cursor_at_def)
qed (use assms in auto)

lemma clear_rep_correct:
  assumes lawful: "lawful p" and ok: "rep_ok p t vs rep"
  obtains (cleared) rep' t' where "clear_rep E p rep t = Some (FT_STATUS_OK, rep', 0, t')" and "rep_ok p t' [] rep'"
      and "t' \<in> {t, t + 2}"
  | (refused) t' where "clear_rep E p rep t = Some (FT_STATUS_NO_MEMORY, rep, 0, t')" and "t' \<in> {t + 1, t + 2}"
      and "\<not> (E t \<and> E (t + 1))"
proof (cases "vs = []")
  case True
  then show ?thesis using cleared [of rep t] ok rep_ok_count [OF lawful ok] by (simp add: clear_rep_def)
next
  case False
  let ?one = "ft_daba_identity p"
  have copy: "\<And>v. ft_daba_value_copy p v = v" using lawful by (simp add: lawful_def)
  obtain at w where rep: "rep_window at w rep" and stride: "ft_daba_multiply_overflows (rep_stride rep) 64 \<noteq> None"
    and fresh: "\<forall>k \<in> {win_f w div 64..win_e w div 64}. at k < t"
    using ok unfolding rep_ok_def by blast
  have chain: "chain at (win_f w div 64) (Suc (win_e w div 64)) (win_slot w) (rep_blocks rep)"
    using rep by (simp add: rep_window_def)
  note rep_window_fresh [OF rep fresh]
  then have destroy: "ft_daba_chain_destroy ((rep_blocks rep)(t \<mapsto> new_block None)) (rep_first rep) = Some [t \<mapsto> new_block None]"
    using chain_destroy_all [OF chain] rep by (simp add: rep_window_def)
  have count: "rep_count rep \<noteq> 0" using False rep_ok_count [OF lawful ok] by simp
  let ?c = "\<lparr>cursor_block = Some t, cursor_index = 0\<rparr>"
  let ?rep = "rep\<lparr>rep_first := Some t, rep_f := ?c, rep_l := ?c, rep_r := ?c, rep_a := ?c, rep_b := ?c, rep_e := ?c,
    rep_count := 0, aggregate_ra := ?one, aggregate_b := ?one, rep_blocks := [t \<mapsto> new_block None]\<rparr>"
  have eq: "clear_rep E p rep t = Some (if E t \<and> E (t + 1) then (FT_STATUS_OK, ?rep, 0, t + 2)
      else (FT_STATUS_NO_MEMORY, rep, 0, if E t then t + 2 else t + 1))"
    using count stride destroy
    by (auto simp: clear_rep_def ft_daba_pool_init_def pool_simps copy ft_daba_block_create_def ft_daba_pool_move_def Let_def)
  show ?thesis
  proof (cases "E t \<and> E (t + 1)")
    case True
    have "rep_ok p (t + 2) [] ?rep" by (rule rep_ok_fresh [OF lawful, of t]) (use stride in simp_all)
    then show ?thesis using cleared eq True by simp
  next
    case False
    then show ?thesis using refused eq by (cases "E t") simp_all
  qed
qed

end
