(* ===== verification/Daba_Validate.thy ===== *)
theory Daba_Validate
  imports Daba_Spec
begin

text \<open>
  The structural validator of \<open>daba_lite.c\<close> accepts every window that the operations build: each of its loops is run on a chain
  that holds the slots of a window. The theorem about the handle is in \<open>Daba_Properties\<close>.
\<close>

definition chain_pointer :: "(nat \<Rightarrow> addr) \<Rightarrow> nat \<Rightarrow> nat \<Rightarrow> addr option" where
  "chain_pointer at hi k = (if k < hi then Some (at k) else None)"

lemma chain_next:
  assumes "chain at lo hi slot s" and "lo \<le> k" and "k < hi"
  obtains block where "s (at k) = Some block" and "block_next block = chain_pointer at hi (Suc k)"
    and "block_holds at lo hi slot k block"
proof -
  obtain block where block: "s (at k) = Some block" "block_holds at lo hi slot k block" by (rule chain_block [OF assms])
  moreover have "block_next block = chain_pointer at hi (Suc k)" using block(2) assms(3) by (auto simp: block_holds_def chain_pointer_def)
  ultimately show thesis using that by blast
qed

lemma chain_ends:
  assumes "chain at lo (Suc k) slot s"
  obtains head tail where "s (at lo) = Some head" and "block_previous head = None" and "s (at k) = Some tail" and "block_next tail = None"
proof -
  have "lo \<le> k" using assms by (simp add: chain_def)
  then obtain head tail where "s (at lo) = Some head" "block_holds at lo (Suc k) slot lo head"
    "s (at k) = Some tail" "block_holds at lo (Suc k) slot k tail"
    using chain_block [OF assms, of lo] chain_block [OF assms, of k] by (metis le_imp_less_Suc lessI order_refl)
  then show thesis using that by (simp add: block_holds_def)
qed

lemma chain_cycle_free:
  assumes chain: "chain at lo hi slot s" and "lo \<le> i" and "i \<le> j" and "j \<le> hi"
  shows "cycle_free s (chain_pointer at hi i) (chain_pointer at hi j) = Some True"
  using assms(2-)
proof (induction "hi - j" arbitrary: i j rule: less_induct)
  case less
  show ?case
  proof (cases "Suc j < hi")
    case True
    obtain x where x: "s (at j) = Some x" "block_next x = chain_pointer at hi (Suc j)"
      using chain_next [OF chain, of j] less.prems True by auto
    obtain y where y: "s (at (Suc j)) = Some y" "block_next y = chain_pointer at hi (Suc (Suc j))"
      using chain_next [OF chain, of "Suc j"] less.prems True by auto
    obtain z where z: "s (at i) = Some z" "block_next z = chain_pointer at hi (Suc i)"
      using chain_next [OF chain, of i] less.prems True by auto
    have inj: "inj_on at {lo..<hi}" using chain by (simp add: chain_def)
    have "at (Suc i) \<noteq> at (Suc (Suc j))" if "Suc (Suc j) < hi"
      using that less.prems by (intro inj_on_contraD [OF inj]) auto
    then have "chain_pointer at hi (Suc i) \<noteq> chain_pointer at hi (Suc (Suc j))"
      using less.prems True by (simp add: chain_pointer_def)
    moreover have "cycle_free s (chain_pointer at hi (Suc i)) (chain_pointer at hi (Suc (Suc j))) = Some True"
      using less.prems True by (intro less.hyps) auto
    ultimately show ?thesis
      using x y z True less.prems by (subst cycle_free.simps) (simp add: chain_pointer_def)
  next
    case False
    then show ?thesis
    proof (cases "j < hi")
      case True
      then obtain x where "s (at j) = Some x" "block_next x = chain_pointer at hi (Suc j)"
        using chain_next [OF chain, of j] less.prems by auto
      then show ?thesis using False True by (subst cycle_free.simps) (simp add: chain_pointer_def)
    qed (simp add: cycle_free.simps chain_pointer_def)
  qed
qed

section \<open>Counting\<close>

lemma fold_count:
  assumes "n + length xs \<le> SIZE_MAX"
  shows "fold_option (\<lambda>n x. if P x then if n = SIZE_MAX then None else Some (n + 1) else Some n) n xs
    = Some (n + length (filter P xs))"
  using assms by (induction xs arbitrary: n) auto

definition occupied_below :: "(nat \<Rightarrow> 'v option) \<Rightarrow> nat \<Rightarrow> nat \<Rightarrow> nat" where
  "occupied_below slot i j = length (filter (\<lambda>n. slot n \<noteq> None) [i..<j])"

lemma occupied_below_le: "occupied_below slot i j \<le> j - i"
  unfolding occupied_below_def by (rule order_trans [OF length_filter_le]) simp

lemma count_occupied_block:
  assumes block: "block_holds at lo hi slot k block" and "lo \<le> k" and "64 * (Suc k - lo) \<le> SIZE_MAX"
  shows "count_occupied (occupied block) (occupied_below slot (64 * lo) (64 * k)) = Some (occupied_below slot (64 * lo) (64 * Suc k))"
proof -
  have "occupied_below slot (64 * lo) (64 * k) + 64 \<le> SIZE_MAX"
    using occupied_below_le [of slot "64 * lo" "64 * k"] assms(2,3) by (simp add: diff_mult_distrib2)
  then have "count_occupied (occupied block) (occupied_below slot (64 * lo) (64 * k))
      = Some (occupied_below slot (64 * lo) (64 * k) + length (filter (\<lambda>j. occupied block AND push_bit j 1 \<noteq> 0) [0..<64]))"
    unfolding count_occupied_def by (intro fold_count) simp
  also have "filter (\<lambda>j. occupied block AND push_bit j 1 \<noteq> 0) [0..<64] = filter (\<lambda>j. slot (64 * k + j) \<noteq> None) [0..<64]"
    using block by (intro filter_cong) (auto simp: block_holds_def bit_iff_and_push_bit_not_eq_0)
  also have "length \<dots> = length (filter (\<lambda>n. slot n \<noteq> None) [64 * k..<64 * Suc k])"
  proof -
    have "[64 * k..<64 * Suc k] = map (\<lambda>j. 64 * k + j) [0..<64]"
      by (rule nth_equalityI) auto
    then show ?thesis by (simp add: filter_map o_def)
  qed
  also have "occupied_below slot (64 * lo) (64 * k) + \<dots> = occupied_below slot (64 * lo) (64 * Suc k)"
  proof -
    have "[64 * lo..<64 * Suc k] = [64 * lo..<64 * k] @ [64 * k..<64 * Suc k]"
      using upt_add_eq_append [of "64 * lo" "64 * k" 64] assms(2) by (simp add: add.commute)
    then show ?thesis by (simp add: occupied_below_def)
  qed
  finally show ?thesis .
qed

section \<open>Positions\<close>

text \<open>What is recorded of a cursor before block \<open>k\<close> is visited.\<close>

definition recorded :: "nat \<Rightarrow> nat \<Rightarrow> nat \<Rightarrow> nat \<times> bool" where
  "recorded lo k n = (if n div 64 < k then (n - 64 * lo, True) else (0, False))"

lemma record_cursors_block:
  assumes inj: "inj_on at {lo..<hi}" and k: "lo \<le> k" "k < hi" and small: "64 * (Suc k - lo) \<le> SIZE_MAX"
    and inside: "\<forall>n \<in> set ns. in_chain lo hi n"
  shows "record_cursors (at k) (64 * (k - lo)) (map (cursor_at at) ns) (map (recorded lo k) ns) = Some (map (recorded lo (Suc k)) ns)"
  using inside
proof (induction ns)
  case (Cons n ns)
  have same: "at (n div 64) = at k \<longleftrightarrow> n div 64 = k"
    using inj_on_eq_iff [OF inj, of "n div 64" k] Cons.prems k by (simp add: in_chain_def)
  have "64 * (k - lo) + n mod 64 = n - 64 * lo \<and> n mod 64 \<le> SIZE_MAX - n mod 64 - 64 * (k - lo) + n mod 64" if "n div 64 = k"
    using that div_mult_mod_eq [of n 64] k by (simp add: diff_mult_distrib2)
  moreover have "64 * (k - lo) + n mod 64 \<le> SIZE_MAX"
    using small mod_less_divisor [of 64 n] k by (simp add: Suc_diff_le)
  ultimately have "ft_daba_record_cursor (at k) (64 * (k - lo)) (cursor_at at n) (recorded lo k n) = Some (recorded lo (Suc k) n)"
    using same by (auto simp: ft_daba_record_cursor_def ft_daba_add_overflows_def recorded_def less_Suc_eq)
  then show ?case using Cons by simp
qed simp

lemma chain_walk:
  assumes chain: "chain at lo hi slot s" and small: "64 * (hi - lo) \<le> SIZE_MAX" and inside: "\<forall>n \<in> set ns. in_chain lo hi n"
    and k: "lo \<le> k" "k < hi"
  shows "walk_chain s (map (cursor_at at) ns) (Some (at k))
      \<lparr>walk_previous = (if k = lo then None else Some (at (k - 1))), walk_base = 64 * (k - lo), walk_positions = map (recorded lo k) ns,
       walk_blocks = k - lo, walk_occupied = occupied_below slot (64 * lo) (64 * k)\<rparr>
    = Some (Some \<lparr>walk_previous = Some (at (hi - 1)), walk_base = 64 * (hi - 1 - lo), walk_positions = map (recorded lo hi) ns,
       walk_blocks = hi - lo, walk_occupied = occupied_below slot (64 * lo) (64 * hi)\<rparr>)"
  using k
proof (induction "hi - k" arbitrary: k)
  case (Suc m)
  have inj: "inj_on at {lo..<hi}" using chain by (simp add: chain_def)
  obtain block where block: "s (at k) = Some block" "block_next block = chain_pointer at hi (Suc k)" "block_holds at lo hi slot k block"
    using chain_next [OF chain Suc.prems] by auto
  have bound: "64 * (Suc k - lo) \<le> SIZE_MAX" using small Suc.prems by (auto intro: order_trans [OF mult_le_mono2])
  note steps = count_occupied_block [OF block(3) Suc.prems(1) bound] record_cursors_block [OF inj Suc.prems bound inside]
  have linked: "(case if k = lo then None else Some (at (k - 1)) of None \<Rightarrow> Some True
      | Some y \<Rightarrow> do { before \<leftarrow> s y; Some (block_next before = Some (at k)) }) = Some True"
  proof (cases "k = lo")
    case False
    then obtain j where j: "k = Suc j" "lo \<le> j" using Suc.prems by (cases k) auto
    then obtain before where "s (at j) = Some before" "block_next before = chain_pointer at hi (Suc j)"
      using chain_next [OF chain, of j] Suc.prems by auto
    then show ?thesis using j Suc.prems by (simp add: chain_pointer_def)
  qed simp
  have count: "k - lo \<noteq> SIZE_MAX" "64 * (k - lo) \<le> SIZE_MAX - 64" using bound Suc.prems by auto
  show ?case
  proof (cases "Suc k < hi")
    case True
    have base: "64 * (k - lo) + 64 = 64 * (Suc k - lo)" using Suc.prems by (simp add: Suc_diff_le)
    show ?thesis
      using Suc.hyps(1) [of "Suc k"] Suc.hyps(2) Suc.prems True block(1,2,3) steps linked count base
      by (subst walk_chain.simps)
        (simp add: chain_pointer_def block_holds_def ft_daba_add_overflows_def Suc_diff_le del: mult_Suc_right)
  next
    case False
    then have "hi = Suc k" using Suc.prems by simp
    then show ?thesis
      using block(1,2,3) steps linked count Suc.prems
      by (subst walk_chain.simps)
        (simp add: chain_pointer_def block_holds_def walk_chain.simps [of _ _ None] Suc_diff_le del: mult_Suc_right)
  qed
qed simp

section \<open>Occupancy and sizes\<close>

lemma chain_occupancy:
  assumes chain: "chain at lo hi slot s" and small: "64 * (hi - lo) \<le> SIZE_MAX" and f: "64 * lo \<le> f"
    and slots: "\<And>i. slot i \<noteq> None \<longleftrightarrow> f \<le> i \<and> i < e" and k: "lo \<le> k" "k < hi"
  shows "occupancy_matches s (f - 64 * lo) (e - 64 * lo) (Some (at k)) (64 * (k - lo)) = Some True"
  using k
proof (induction "hi - k" arbitrary: k)
  case (Suc m)
  obtain block where block: "s (at k) = Some block" "block_next block = chain_pointer at hi (Suc k)" "block_holds at lo hi slot k block"
    using chain_next [OF chain Suc.prems] by auto
  have base: "64 * (k - lo) + 64 = 64 * (Suc k - lo)" using Suc.prems by (simp add: Suc_diff_le)
  have bound: "64 * (k - lo) + 64 \<le> SIZE_MAX" unfolding base using small Suc.prems by (auto intro: order_trans [OF mult_le_mono2])
  have shift: "64 * (k - lo) + j = 64 * k + j - 64 * lo" for j using Suc.prems by (simp add: diff_mult_distrib2)
  have "bit (occupied block) j \<longleftrightarrow> f - 64 * lo \<le> 64 * (k - lo) + j \<and> 64 * (k - lo) + j < e - 64 * lo" if "j < 64" for j
  proof -
    have "64 * lo \<le> 64 * k" using Suc.prems by simp
    then have "f \<le> 64 * k + j \<and> 64 * k + j < e \<longleftrightarrow> f - 64 * lo \<le> 64 * (k - lo) + j \<and> 64 * (k - lo) + j < e - 64 * lo"
      using f unfolding shift by linarith
    then show ?thesis using block(3) slots that by (simp add: block_holds_def)
  qed
  then have match: "slots_match (occupied block) (64 * (k - lo)) (f - 64 * lo) (e - 64 * lo)"
    using bound by (auto simp: slots_match_def ft_daba_add_overflows_def simp flip: bit_iff_and_push_bit_not_eq_0 simp del: push_bit_of_1)
  show ?case
  proof (cases "Suc k < hi")
    case True
    then show ?thesis
      using Suc.hyps(1) [of "Suc k"] Suc.hyps(2) Suc.prems block match bound base
      by (subst occupancy_matches.simps) (simp add: chain_pointer_def ft_daba_add_overflows_def del: mult_Suc_right)
  next
    case False
    then show ?thesis
      using block match by (subst occupancy_matches.simps) (simp add: chain_pointer_def occupancy_matches.simps [of _ _ _ None])
  qed
qed simp

lemma occupied_below_all:
  assumes "\<And>i. slot i \<noteq> None \<longleftrightarrow> f \<le> i \<and> i < e" and "i \<le> f" and "e \<le> j"
  shows "occupied_below slot i j = e - f"
proof -
  have "occupied_below slot i j = card ({n. f \<le> n \<and> n < e} \<inter> set [i..<j])"
    unfolding occupied_below_def assms(1) by (rule distinct_length_filter) simp
  also have "{n. f \<le> n \<and> n < e} \<inter> set [i..<j] = {f..<e}" using assms(2,3) by auto
  finally show ?thesis by simp
qed

lemma sizes_match_window:
  assumes monoid: "window_monoid one mul" and holds: "window_monoid.window_holds one mul vs w"
    and rep: "rep_window at w rep" and lo: "n \<le> win_f w" and small: "length vs < SIZE_MAX"
  shows "sizes_match rep (win_f w - n) (win_l w - n) (win_r w - n) (win_a w - n) (win_b w - n) (win_e w - n)"
proof -
  note order = window_monoid.window_holds_order [OF monoid holds]
  have length: "win_f w + length vs = win_e w" by (rule window_monoid.window_holds_length [OF monoid holds])
  obtain v where inv: "window_monoid.window_inv one mul v w" using holds by (auto simp: window_monoid.window_holds_def [OF monoid])
  then have same: "win_r w - win_l w = win_a w - win_r w"
    and sizes: "if win_f w = win_e w then win_l w = win_f w \<and> win_b w = win_f w else win_l w - win_f w = win_e w - win_b w + 1"
    by (simp_all add: window_monoid.window_inv_def [OF monoid] window_monoid.window_regions_def [OF monoid])
  show ?thesis
  proof (cases "win_f w = win_e w")
    case True
    then have "win_l w = win_e w" "win_r w = win_e w" "win_a w = win_e w" "win_b w = win_e w" using order by simp_all
    then show ?thesis using True rep by (simp add: sizes_match_def rep_window_def ft_daba_cursor_equal_def)
  next
    case False
    then have "rep_count rep \<noteq> 0" using rep order by (simp add: rep_window_def)
    moreover have "win_e w - n - (win_b w - n) = win_e w - win_b w" "win_b w - n - (win_a w - n) = win_b w - win_a w"
      "win_a w - n - (win_r w - n) = win_a w - win_r w" "win_r w - n - (win_l w - n) = win_r w - win_l w"
      "win_l w - n - (win_f w - n) = win_l w - win_f w" "win_b w - n - (win_f w - n) = win_b w - win_f w"
      using order lo by linarith+
    moreover have "ft_daba_add_overflows x y = Some (x + y)" if "x + y \<le> SIZE_MAX" for x y
      using that by (simp add: ft_daba_add_overflows_def)
    moreover have "win_r w - win_l w + (win_a w - win_r w) \<le> SIZE_MAX" "win_e w - win_b w + 1 \<le> SIZE_MAX"
      "win_r w - win_l w + (win_a w - win_r w) + (win_b w - win_a w) \<le> SIZE_MAX"
      "win_r w - win_l w + (win_a w - win_r w) + (win_b w - win_a w) + 1 \<le> SIZE_MAX"
      using small length order by linarith+
    moreover have "win_l w - win_f w = win_e w - win_b w + 1" using sizes False by simp
    moreover from this have "win_e w - win_b w \<le> win_b w - win_f w"
      "win_r w - win_l w + (win_a w - win_r w) + (win_b w - win_a w) + 1 = win_b w - win_f w - (win_e w - win_b w)"
      using order by linarith+
    ultimately show ?thesis using same by (simp add: sizes_match_def)
  qed
qed

text \<open>The number of blocks of a window and the slots in them that it leaves free.\<close>

lemma block_counts:
  fixes f e :: nat
  assumes "f \<le> e"
  shows "Suc (e div 64) - f div 64 = (f mod 64 + (e - f)) div 64 + 1"
    and "e - f < 64 * (Suc (e div 64) - f div 64)" and "64 * (Suc (e div 64) - f div 64) \<le> e - f + 127"
proof -
  obtain x y q r where x: "x = f mod 64" "x < 64" and y: "y = e mod 64" "y < 64" and q: "q = f div 64" and r: "r = e div 64"
    by simp
  have f: "f = 64 * q + x" and e: "e = 64 * r + y" using x y q r by simp_all
  obtain d where d: "r = q + d" using le_Suc_ex [OF div_le_mono [OF assms, of 64]] q r by auto
  have total_slots: "x + (e - f) = 64 * d + y" using assms f e d by simp
  have "(x + (e - f)) div 64 = d" using y(2) by (simp add: total_slots)
  moreover have blocks: "Suc (e div 64) - f div 64 = Suc d" using d unfolding q r by (simp only: diff_add_inverse flip: add_Suc_right)
  ultimately show "Suc (e div 64) - f div 64 = (f mod 64 + (e - f)) div 64 + 1" using x by simp
  have "64 * (Suc (e div 64) - f div 64) = 64 * d + 64" by (simp add: blocks)
  then show "e - f < 64 * (Suc (e div 64) - f div 64)" and "64 * (Suc (e div 64) - f div 64) \<le> e - f + 127"
    using total_slots x(2) y(2) by simp_all
qed

definition window_statistics :: "'v window \<Rightarrow> ft_daba_lite_statistics" where
  "window_statistics w =
     (let blocks = Suc (win_e w div 64) - win_f w div 64
      in \<lparr>stat_count = win_e w - win_f w, front_length = win_b w - win_f w, back_length = win_e w - win_b w,
          left_length = win_r w - win_l w, right_length = win_a w - win_r w, accumulator_length = win_b w - win_a w,
          block_count = blocks, allocated_slot_capacity = 64 * blocks, slack_slot_count = 64 * blocks - (win_e w - win_f w)\<rparr>)"

text \<open>The result of the validator from those of its loops.\<close>

lemma validate_rep_eval:
  assumes cursors: "[rep_f rep, rep_l rep, rep_r rep, rep_a rep, rep_b rep, rep_e rep] = map (cursor_at at) ns"
    and walk: "walk_chain (rep_blocks rep) (map (cursor_at at) ns) (Some first)
        \<lparr>walk_previous = None, walk_base = 0, walk_positions = replicate 6 (0, False), walk_blocks = 0, walk_occupied = 0\<rparr>
      = Some (Some \<lparr>walk_previous = cursor_block (rep_e rep), walk_base = base,
          walk_positions = [(f, True), (l, True), (r, True), (a, True), (b, True), (e, True)],
          walk_blocks = n, walk_occupied = rep_count rep\<rparr>)"
    and front: "cursor_block (rep_f rep) = Some first" "rep_blocks rep first = Some head" "block_previous head = None"
    and free: "cycle_free (rep_blocks rep) (Some first) (Some first) = Some True"
    and rear: "cursor_block (rep_e rep) = Some final" "rep_blocks rep final = Some tail" "block_next tail = None"
    and order: "f \<le> l" "l \<le> r" "r \<le> a" "a \<le> b" "b \<le> e" "e - f = rep_count rep"
    and occupancy: "occupancy_matches (rep_blocks rep) f e (Some first) 0 = Some True"
    and sizes: "sizes_match rep f l r a b e"
    and counts: "cursor_index (rep_f rep) + rep_count rep \<le> SIZE_MAX" "n = (cursor_index (rep_f rep) + rep_count rep) div 64 + 1"
      "64 * n \<le> SIZE_MAX" "rep_count rep < 64 * n" "64 * n \<le> rep_count rep + 127"
  shows "validate_rep rep first = Some (Some \<lparr>stat_count = rep_count rep, front_length = b - f, back_length = e - b,
    left_length = r - l, right_length = a - r, accumulator_length = b - a, block_count = n, allocated_slot_capacity = 64 * n,
    slack_slot_count = 64 * n - rep_count rep\<rparr>)"
proof -
  have set: "\<not> (\<exists>c \<in> set (map (cursor_at at) ns). cursor_block c = None \<or> cursor_index c \<ge> 64)" by (simp add: not_le)
  have add: "ft_daba_add_overflows (cursor_index (rep_f rep)) (rep_count rep) = Some (cursor_index (rep_f rep) + rep_count rep)"
    using counts(1) by (simp add: ft_daba_add_overflows_def)
  have "64 \<le> SIZE_MAX div n" using counts(2,3) by (simp add: less_eq_div_iff_mult_less_eq)
  then have mult: "ft_daba_multiply_overflows n 64 = Some (64 * n)" by (simp add: ft_daba_multiply_overflows_def mult.commute)
  show ?thesis
    unfolding validate_rep_def cursors
    by (simp only: Let_def set if_False front rear free walk bind.simps option.simps ft_daba_cursor.simps)
      (use order occupancy sizes add mult counts(2,4,5) rear in \<open>simp add: front\<close>)
qed

text \<open>The loops on the chain of a window.\<close>

lemma window_loops:
  assumes monoid: "window_monoid one mul" and holds: "window_monoid.window_holds one mul vs w"
    and chain: "chain at (win_f w div 64) (Suc (win_e w div 64)) (win_slot w) s" and small: "length vs + 128 \<le> SIZE_MAX"
    and lo: "lo = win_f w div 64" and ns: "ns = [win_f w, win_l w, win_r w, win_a w, win_b w, win_e w]"
  shows "cycle_free s (Some (at lo)) (Some (at lo)) = Some True"
    and "walk_chain s (map (cursor_at at) ns) (Some (at lo))
        \<lparr>walk_previous = None, walk_base = 0, walk_positions = replicate 6 (0, False), walk_blocks = 0, walk_occupied = 0\<rparr>
      = Some (Some \<lparr>walk_previous = Some (at (win_e w div 64)), walk_base = 64 * (win_e w div 64 - lo),
         walk_positions = map (\<lambda>n. (n - 64 * lo, True)) ns, walk_blocks = Suc (win_e w div 64) - lo, walk_occupied = win_e w - win_f w\<rparr>)"
    and "occupancy_matches s (win_f w - 64 * lo) (win_e w - 64 * lo) (Some (at lo)) 0 = Some True"
proof -
  let ?hi = "Suc (win_e w div 64)"
  note chain = chain [folded lo]
  have length: "win_f w + length vs = win_e w" by (rule window_monoid.window_holds_length [OF monoid holds])
  then have ends: "win_f w \<le> win_e w" by simp
  note slots = window_monoid.window_holds_slot [OF monoid holds]
  have bound: "64 * (?hi - lo) \<le> SIZE_MAX" using block_counts(3) [OF ends] length small unfolding lo by linarith
  have order: "lo < ?hi" "64 * lo \<le> win_f w" "win_e w \<le> 64 * ?hi"
    using div_le_mono [OF ends, of 64] mod_less_divisor [of 64 "win_e w"] div_mult_mod_eq [of "win_e w" 64] by (simp_all add: lo)
  have "in_chain lo ?hi (win_f w)" "in_chain lo ?hi (win_e w)" using order(1) by (simp_all add: in_chain_def lo)
  note between = in_chain_between [OF this]
  have bounds: "\<forall>n \<in> set ns. win_f w \<le> n \<and> n \<le> win_e w"
    using window_monoid.window_holds_order [OF monoid holds] by (simp add: ns)
  have inside: "\<forall>n \<in> set ns. in_chain lo ?hi n"
  proof
    fix n
    assume "n \<in> set ns"
    then have "win_f w \<le> n \<and> n \<le> win_e w" by (rule bspec [OF bounds])
    then show "in_chain lo ?hi n" by (elim conjE) (rule between)
  qed
  show "cycle_free s (Some (at lo)) (Some (at lo)) = Some True"
    using chain_cycle_free [OF chain, of lo lo] order(1) by (simp add: chain_pointer_def)
  have before: "recorded lo lo n = (0, False)" and after: "recorded lo ?hi n = (n - 64 * lo, True)" if "in_chain lo ?hi n" for n
    using that by (auto simp: recorded_def in_chain_def)
  have "map (recorded lo lo) ns = map (\<lambda>_. (0, False)) ns" by (rule map_cong [OF refl before]) (rule bspec [OF inside])
  also have "\<dots> = replicate 6 (0, False)" by (simp add: ns numeral_eq_Suc)
  finally have "map (recorded lo lo) ns = replicate 6 (0, False)" .
  moreover have "map (recorded lo ?hi) ns = map (\<lambda>n. (n - 64 * lo, True)) ns"
    by (rule map_cong [OF refl after]) (rule bspec [OF inside])
  moreover have "occupied_below (win_slot w) (64 * lo) (64 * lo) = 0" by (simp add: occupied_below_def)
  ultimately show "walk_chain s (map (cursor_at at) ns) (Some (at lo))
        \<lparr>walk_previous = None, walk_base = 0, walk_positions = replicate 6 (0, False), walk_blocks = 0, walk_occupied = 0\<rparr>
      = Some (Some \<lparr>walk_previous = Some (at (win_e w div 64)), walk_base = 64 * (win_e w div 64 - lo),
         walk_positions = map (\<lambda>n. (n - 64 * lo, True)) ns, walk_blocks = ?hi - lo, walk_occupied = win_e w - win_f w\<rparr>)"
    using chain_walk [OF chain bound inside, of lo] order(1) occupied_below_all [OF slots order(2,3)] by simp
  show "occupancy_matches s (win_f w - 64 * lo) (win_e w - 64 * lo) (Some (at lo)) 0 = Some True"
    using chain_occupancy [OF chain bound order(2) slots, of lo] order(1) by simp
qed

lemma validate_rep_correct:
  assumes monoid: "window_monoid one mul" and holds: "window_monoid.window_holds one mul vs w"
    and rep: "rep_window at w rep" and small: "length vs + 128 \<le> SIZE_MAX"
  shows "validate_rep rep (at (win_f w div 64)) = Some (Some (window_statistics w))"
proof -
  define n where "n = 64 * (win_f w div 64)"
  note order = window_monoid.window_holds_order [OF monoid holds]
  have length: "win_f w + length vs = win_e w" by (rule window_monoid.window_holds_length [OF monoid holds])
  then have ends: "win_f w \<le> win_e w" by simp
  have n: "n \<le> win_f w" by (simp add: n_def)
  have chain: "chain at (win_f w div 64) (Suc (win_e w div 64)) (win_slot w) (rep_blocks rep)" using rep by (simp add: rep_window_def)
  note loops = window_loops [OF monoid holds chain small refl refl, folded n_def]
  obtain head tail where blocks: "rep_blocks rep (at (win_f w div 64)) = Some head" "block_previous head = None"
    "rep_blocks rep (at (win_e w div 64)) = Some tail" "block_next tail = None"
    by (rule chain_ends [OF chain])
  have sizes: "sizes_match rep (win_f w - n) (win_l w - n) (win_r w - n) (win_a w - n) (win_b w - n) (win_e w - n)"
    by (rule sizes_match_window [OF monoid holds rep n]) (use small in simp)
  have shifted: "win_e w - n - (win_f w - n) = win_e w - win_f w" "win_b w - n - (win_f w - n) = win_b w - win_f w"
    "win_e w - n - (win_b w - n) = win_e w - win_b w" "win_r w - n - (win_l w - n) = win_r w - win_l w"
    "win_a w - n - (win_r w - n) = win_a w - win_r w" "win_b w - n - (win_a w - n) = win_b w - win_a w"
    using order n by simp_all
  have ordered: "win_f w - n \<le> win_l w - n" "win_l w - n \<le> win_r w - n" "win_r w - n \<le> win_a w - n"
    "win_a w - n \<le> win_b w - n" "win_b w - n \<le> win_e w - n"
    using order by simp_all
  note counts = block_counts [OF ends]
  let ?blocks = "Suc (win_e w div 64) - win_f w div 64"
  have count: "rep_count rep = win_e w - win_f w" and first: "cursor_block (rep_f rep) = Some (at (win_f w div 64))"
    and final: "cursor_block (rep_e rep) = Some (at (win_e w div 64))" and index: "cursor_index (rep_f rep) = win_f w mod 64"
    and cursors: "[rep_f rep, rep_l rep, rep_r rep, rep_a rep, rep_b rep, rep_e rep]
      = map (cursor_at at) [win_f w, win_l w, win_r w, win_a w, win_b w, win_e w]"
    using rep by (simp_all add: rep_window_def)
  have sums: "cursor_index (rep_f rep) + rep_count rep \<le> SIZE_MAX" "?blocks = (cursor_index (rep_f rep) + rep_count rep) div 64 + 1"
    "64 * ?blocks \<le> SIZE_MAX" "rep_count rep < 64 * ?blocks" "64 * ?blocks \<le> rep_count rep + 127"
    unfolding index count using counts small length mod_less_divisor [of 64 "win_f w"] by linarith+
  have walk: "walk_chain (rep_blocks rep) (map (cursor_at at) [win_f w, win_l w, win_r w, win_a w, win_b w, win_e w])
      (Some (at (win_f w div 64)))
      \<lparr>walk_previous = None, walk_base = 0, walk_positions = replicate 6 (0, False), walk_blocks = 0, walk_occupied = 0\<rparr>
    = Some (Some \<lparr>walk_previous = cursor_block (rep_e rep), walk_base = 64 * (win_e w div 64 - win_f w div 64),
        walk_positions = [(win_f w - n, True), (win_l w - n, True), (win_r w - n, True), (win_a w - n, True), (win_b w - n, True),
          (win_e w - n, True)],
        walk_blocks = ?blocks, walk_occupied = rep_count rep\<rparr>)"
    using loops(2) unfolding final count list.map .
  have "validate_rep rep (at (win_f w div 64)) = Some (Some \<lparr>stat_count = rep_count rep,
      front_length = win_b w - n - (win_f w - n), back_length = win_e w - n - (win_b w - n),
      left_length = win_r w - n - (win_l w - n), right_length = win_a w - n - (win_r w - n),
      accumulator_length = win_b w - n - (win_a w - n), block_count = ?blocks, allocated_slot_capacity = 64 * ?blocks,
      slack_slot_count = 64 * ?blocks - rep_count rep\<rparr>)"
    by (rule validate_rep_eval [OF cursors walk first blocks(1,2) loops(1) final blocks(3,4) ordered _ loops(3) sizes sums])
      (simp only: shifted(1) count)
  then show ?thesis unfolding window_statistics_def Let_def shifted count .
qed

end
