(* ===== verification/Daba_Properties.thy ===== *)
theory Daba_Properties
  imports Daba_Validate
begin

text \<open>
  Correctness of the sliding-window aggregate at its interface: a handle stands for the sequence of the values in the window,
  insertion and eviction work at its two ends, and the aggregate is the product of the sequence. The documented bounds on the
  calls of the combine callback hold, and failures leave the handle as it was.
\<close>

definition daba_holds :: "'v ft_daba_policy \<Rightarrow> nat \<Rightarrow> 'v list \<Rightarrow> 'v ft_daba_lite \<Rightarrow> bool" where
  "daba_holds p t vs d \<longleftrightarrow> lawful p \<and> daba_policy d = Some p \<and> (\<exists>rep. daba_rep d = Some rep \<and> rep_ok p t vs rep)"

lemma daba_holdsE:
  assumes "daba_holds p t vs d"
  obtains rep where "lawful p" and "d = \<lparr>daba_policy = Some p, daba_rep = Some rep\<rparr>" and "rep_ok p t vs rep"
  using assms unfolding daba_holds_def by (metis ft_daba_lite.surjective old.unit.exhaust)

lemma daba_holds_later: "daba_holds p t vs d \<Longrightarrow> t \<le> t' \<Longrightarrow> daba_holds p t' vs d"
  unfolding daba_holds_def using rep_ok_later by blast

section \<open>Policies\<close>

text \<open>Sums of machine integers, and sequences of texts: the second monoid does not commute, so an aggregate shows the order of
  the window.\<close>

definition sum_policy :: "64 word ft_daba_policy" where
  "sum_policy = the (ft_daba_policy_init True (Some (8, None)) (Some (8, Some 0, Some (+))))"

definition append_policy :: "nat \<Rightarrow> 'a list ft_daba_policy" where
  "append_policy bytes = the (ft_daba_policy_init True (Some (bytes, Some (\<lambda>xs. xs))) (Some (bytes, Some [], Some (@))))"

interpretation sums: window_monoid "ft_daba_identity sum_policy" "ft_daba_combine sum_policy"
  by unfold_locales (simp_all add: sum_policy_def ft_daba_policy_init_def ft_daba_identity_def ft_daba_combine_def ac_simps)

interpretation sequences: window_monoid "ft_daba_identity (append_policy bytes)" "ft_daba_combine (append_policy bytes)" for bytes
  by unfold_locales (simp_all add: append_policy_def ft_daba_policy_init_def ft_daba_identity_def ft_daba_combine_def)

lemma lawful_sum: "lawful sum_policy"
  using sums.window_monoid_axioms by (simp add: lawful_def sum_policy_def ft_daba_policy_init_def ft_daba_value_copy_def)

lemma lawful_append: "lawful (append_policy bytes)"
  using sequences.window_monoid_axioms by (simp add: lawful_def append_policy_def ft_daba_policy_init_def ft_daba_value_copy_def)

section \<open>Creation\<close>

lemma policy_valid_stride:
  "ft_daba_policy_valid (Some p) = Some stride \<Longrightarrow> ft_daba_multiply_overflows stride 64 \<noteq> None
     \<and> ft_daba_multiply_overflows stride 10 \<noteq> None"
  by (auto simp: ft_daba_policy_valid_def split: if_splits option.splits)

lemma create_correct:
  assumes "lawful p" and valid: "ft_daba_policy_valid (Some p) = Some stride"
  shows "\<exists>t'. t < t' \<and> t' \<le> t + 4 \<and>
    (if \<forall>i \<in> {t..t + 3}. E i then \<exists>d. ft_daba_lite_create E t True (Some p) = (Inr d, t') \<and> daba_holds p t' [] d
     else ft_daba_lite_create E t True (Some p) = (Inl FT_STATUS_NO_MEMORY, t'))"
proof (cases "\<forall>i \<in> {t..t + 3}. E i")
  case True
  then have granted: "E t" "E (t + 1)" "E (t + 2)" "E (t + 3)" by simp_all
  let ?c = "\<lparr>cursor_block = Some (t + 2), cursor_index = 0\<rparr>" and ?one = "ft_daba_identity p"
  let ?rep = "\<lparr>rep_first = Some (t + 2), rep_f = ?c, rep_l = ?c, rep_r = ?c, rep_a = ?c, rep_b = ?c, rep_e = ?c,
    rep_count = 0, rep_stride = stride, aggregate_ra = ?one, aggregate_b = ?one, rep_blocks = [t + 2 \<mapsto> new_block None]\<rparr>"
  have "rep_ok p (t + 4) [] ?rep"
    by (rule rep_ok_fresh [OF assms(1), of "t + 2"]) (use policy_valid_stride [OF valid] in simp_all)
  moreover have "ft_daba_lite_create E t True (Some p) = (Inr \<lparr>daba_policy = Some p, daba_rep = Some ?rep\<rparr>, t + 4)"
    using granted policy_valid_stride [OF valid]
    by (auto simp: ft_daba_lite_create_def valid ft_daba_block_create_def Let_def numeral_eq_Suc)
  ultimately show ?thesis using True assms(1) by (intro exI [of _ "t + 4"]) (simp add: daba_holds_def)
next
  case False
  then have "\<not> (E t \<and> E (t + 1) \<and> E (t + 2) \<and> E (t + 3))"
    by (auto simp: le_Suc_eq numeral_eq_Suc)
  then show ?thesis
    using policy_valid_stride [OF valid] False
    by (cases "E t"; cases "E (t + 1)"; cases "E (t + 2)")
      (auto simp: ft_daba_lite_create_def valid ft_daba_block_create_def numeral_eq_Suc)
qed

section \<open>Insertion and eviction\<close>

lemma insert_holds:
  assumes "daba_holds p t vs d"
  shows "\<exists>s d' calls t'. ft_daba_lite_insert E t (Some d) (Some x) = Some (s, Some d', calls, t')
    \<and> calls \<le> 3 \<and> t \<le> t' \<and> t' \<le> t + 2
    \<and> (if length vs = SIZE_MAX then s = FT_STATUS_OVERFLOW \<and> d' = d
       else (s = FT_STATUS_OK \<and> daba_holds p t' (vs @ [x]) d')
         \<or> (s = FT_STATUS_NO_MEMORY \<and> d' = d \<and> \<not> (E t \<and> E (t + 1))))"
proof -
  obtain rep where rep: "lawful p" "d = \<lparr>daba_policy = Some p, daba_rep = Some rep\<rparr>" "rep_ok p t vs rep"
    using assms by (rule daba_holdsE)
  show ?thesis
  proof (cases "length vs = SIZE_MAX")
    case True
    then show ?thesis using rep_ok_count [OF rep(1,3)] by (simp add: ft_daba_lite_insert_def on_handle_def rep(2) insert_rep_def)
  next
    case False
    show ?thesis
      by (rule insert_rep_correct [OF rep(1,3) False, where E = E and x = x])
        (use False rep(1) in \<open>auto simp: ft_daba_lite_insert_def on_handle_def rep(2) daba_holds_def\<close>)
  qed
qed

lemma evict_holds:
  assumes "daba_holds p t vs d"
  shows "\<exists>d' calls. ft_daba_lite_try_evict (Some d) True = Some ((FT_STATUS_OK, vs \<noteq> []), Some d', calls)
    \<and> ft_daba_lite_evict (Some d) = Some (if vs = [] then FT_STATUS_EMPTY else FT_STATUS_OK, Some d', calls)
    \<and> daba_holds p t (tl vs) d' \<and> calls \<le> 2 \<and> (vs = [] \<longrightarrow> d' = d)"
proof -
  obtain rep where rep: "lawful p" "d = \<lparr>daba_policy = Some p, daba_rep = Some rep\<rparr>" "rep_ok p t vs rep"
    using assms by (rule daba_holdsE)
  show ?thesis
  proof (cases vs)
    case Nil
    then show ?thesis using assms rep_ok_count [OF rep(1,3)]
      by (simp add: ft_daba_lite_try_evict_def ft_daba_lite_evict_def rep(2) evict_rep_def)
  next
    case (Cons v us)
    then have ok: "rep_ok p t (v # us) rep" using rep(3) by simp
    show ?thesis
      by (rule evict_rep_correct [OF rep(1) ok])
        (use Cons rep(1) in \<open>simp add: ft_daba_lite_try_evict_def ft_daba_lite_evict_def rep(2) daba_holds_def\<close>)
  qed
qed

lemma aggregate_holds:
  assumes "daba_holds p t vs d"
  shows "ft_daba_lite_aggregate (Some d) True
      = Some (Inr (foldr (ft_daba_combine p) vs (ft_daba_identity p)), if vs = [] then 0 else 1)
    \<and> ft_daba_lite_size (Some d) = length vs"
proof -
  obtain rep where rep: "lawful p" "d = \<lparr>daba_policy = Some p, daba_rep = Some rep\<rparr>" "rep_ok p t vs rep"
    using assms by (rule daba_holdsE)
  note count = rep_ok_count [OF rep(1,3)]
  show ?thesis
  proof (cases "vs = []")
    case True
    then show ?thesis using count by (simp add: ft_daba_lite_aggregate_def ft_daba_lite_size_def rep(2))
  next
    case False
    show ?thesis
      by (rule aggregate_rep_correct [OF rep(1,3) False])
        (use False count in \<open>simp add: ft_daba_lite_aggregate_def ft_daba_lite_size_def rep(2)\<close>)
  qed
qed

lemma clear_correct:
  assumes "daba_holds p t vs d"
  shows "\<exists>s d' t'. ft_daba_lite_clear E t (Some d) = Some (s, Some d', 0, t') \<and> t \<le> t' \<and> t' \<le> t + 2
    \<and> ((s = FT_STATUS_OK \<and> daba_holds p t' [] d') \<or> (s = FT_STATUS_NO_MEMORY \<and> d' = d \<and> \<not> (E t \<and> E (t + 1))))"
proof -
  obtain rep where rep: "lawful p" "d = \<lparr>daba_policy = Some p, daba_rep = Some rep\<rparr>" "rep_ok p t vs rep"
    using assms by (rule daba_holdsE)
  show ?thesis
    by (rule clear_rep_correct [OF rep(1,3), where E = E])
      (use rep(1) in \<open>auto simp: ft_daba_lite_clear_def on_handle_def rep(2) daba_holds_def\<close>)
qed

text \<open>Destruction releases every block of the window.\<close>

lemma destroy_correct:
  assumes "daba_holds p t vs d"
  shows "ft_daba_lite_destroy (Some d) = Some (Some \<lparr>daba_policy = None, daba_rep = None\<rparr>)"
    and "ft_daba_chain_destroy (rep_blocks (the (daba_rep d))) (rep_first (the (daba_rep d))) = Some Map.empty"
proof -
  obtain rep where rep: "lawful p" "d = \<lparr>daba_policy = Some p, daba_rep = Some rep\<rparr>" "rep_ok p t vs rep"
    using assms by (rule daba_holdsE)
  obtain at w where w: "rep_window at w rep" and fresh: "\<forall>k \<in> {win_f w div 64..win_e w div 64}. at k < t"
    using rep(3) unfolding rep_ok_def by blast
  have chain: "chain at (win_f w div 64) (Suc (win_e w div 64)) (win_slot w) (rep_blocks rep)"
    using w by (simp add: rep_window_def)
  have free: "rep_blocks rep t = None" by (rule rep_window_fresh [OF w fresh])
  then have "ft_daba_chain_destroy ((rep_blocks rep)(t := None)) (Some (at (win_f w div 64))) = Some (Map.empty(t := None))"
    by (rule chain_destroy_all [OF chain])
  moreover have "(rep_blocks rep)(t := None) = rep_blocks rep" using free by auto
  ultimately have all: "ft_daba_chain_destroy (rep_blocks rep) (rep_first rep) = Some Map.empty"
    using w by (simp add: rep_window_def fun_upd_idem)
  then show "ft_daba_chain_destroy (rep_blocks (the (daba_rep d))) (rep_first (the (daba_rep d))) = Some Map.empty"
    by (simp add: rep(2))
  show "ft_daba_lite_destroy (Some d) = Some (Some \<lparr>daba_policy = None, daba_rep = None\<rparr>)"
    using all by (simp add: ft_daba_lite_destroy_def rep(2))
qed

section \<open>Sequences of requests\<close>

datatype 'v request = Insert 'v | Evict | Aggregate | Clear
datatype 'v answer = Done ft_status | Product 'v | Failed ft_status

definition perform ::
  "environment \<Rightarrow> 'v request \<Rightarrow> 'v ft_daba_lite option \<Rightarrow> nat \<Rightarrow> ('v answer \<times> 'v ft_daba_lite option \<times> nat) option" where
  "perform E r d t =
     (case r of
        Insert x \<Rightarrow> map_option (\<lambda>(s, d', calls, t'). (Done s, d', t')) (ft_daba_lite_insert E t d (Some x))
      | Evict \<Rightarrow> map_option (\<lambda>(s, d', calls). (Done s, d', t)) (ft_daba_lite_evict d)
      | Aggregate \<Rightarrow>
          map_option (\<lambda>(s, calls). (case s of Inl e \<Rightarrow> Failed e | Inr v \<Rightarrow> Product v, d, t)) (ft_daba_lite_aggregate d True)
      | Clear \<Rightarrow> map_option (\<lambda>(s, d', calls, t'). (Done s, d', t')) (ft_daba_lite_clear E t d))"

fun perform_all ::
  "environment \<Rightarrow> 'v request list \<Rightarrow> 'v ft_daba_lite option \<Rightarrow> nat \<Rightarrow> ('v answer list \<times> 'v ft_daba_lite option \<times> nat) option" where
  "perform_all E [] d t = Some ([], d, t)"
| "perform_all E (r # rs) d t =
     (case perform E r d t of
        None \<Rightarrow> None
      | Some (x, d', t') \<Rightarrow> map_option (\<lambda>(xs, rest). (x # xs, rest)) (perform_all E rs d' t'))"

text \<open>The same requests to a list of values.\<close>

fun answers :: "'v \<Rightarrow> ('v \<Rightarrow> 'v \<Rightarrow> 'v) \<Rightarrow> 'v list \<Rightarrow> 'v request list \<Rightarrow> 'v answer list" where
  "answers one mul vs [] = []"
| "answers one mul vs (Insert x # rs) = Done FT_STATUS_OK # answers one mul (vs @ [x]) rs"
| "answers one mul vs (Evict # rs) = Done (if vs = [] then FT_STATUS_EMPTY else FT_STATUS_OK) # answers one mul (tl vs) rs"
| "answers one mul vs (Aggregate # rs) = Product (foldr mul vs one) # answers one mul vs rs"
| "answers one mul vs (Clear # rs) = Done FT_STATUS_OK # answers one mul [] rs"

lemma perform_all_correct:
  assumes "\<And>i. E i" and "daba_holds p t vs d" and "length vs + length rs \<le> SIZE_MAX"
  shows "\<exists>d' t'. perform_all E rs (Some d) t = Some (answers (ft_daba_identity p) (ft_daba_combine p) vs rs, d', t')"
  using assms(2,3)
proof (induction rs arbitrary: vs d t)
  case (Cons r rs)
  show ?case
  proof (cases r)
    case (Insert x)
    obtain d' calls t' where "ft_daba_lite_insert E t (Some d) (Some x) = Some (FT_STATUS_OK, Some d', calls, t')"
      "daba_holds p t' (vs @ [x]) d'"
      using insert_holds [OF Cons.prems(1), of E x] Cons.prems(2) assms(1) by auto
    then show ?thesis using Cons.IH [of t' "vs @ [x]" d'] Cons.prems(2) Insert by (auto simp: perform_def)
  next
    case Evict
    obtain d' calls where "ft_daba_lite_evict (Some d) = Some (if vs = [] then FT_STATUS_EMPTY else FT_STATUS_OK, Some d', calls)"
      "daba_holds p t (tl vs) d'"
      using evict_holds [OF Cons.prems(1)] by auto
    then show ?thesis using Cons.IH [of t "tl vs" d'] Cons.prems(2) Evict by (auto simp: perform_def)
  next
    case Aggregate
    then show ?thesis
      using Cons.IH [OF Cons.prems(1)] Cons.prems(2) aggregate_holds [OF Cons.prems(1)] by (auto simp: perform_def)
  next
    case Clear
    obtain d' t' where "ft_daba_lite_clear E t (Some d) = Some (FT_STATUS_OK, Some d', 0, t')" "daba_holds p t' [] d'"
      using clear_correct [OF Cons.prems(1), of E] assms(1) by auto
    then show ?thesis using Cons.IH [of t' "[]" d'] Cons.prems(2) Clear by (auto simp: perform_def)
  qed
qed simp

section \<open>The validator\<close>

lemma validate_holds:
  assumes "daba_holds p t vs d" and valid: "ft_daba_policy_valid (Some p) \<noteq> None" and small: "length vs + 128 \<le> SIZE_MAX"
  obtains w where "ft_daba_lite_validate (Some d) = Some (Some (window_statistics w))"
    and "window_monoid.window_holds (ft_daba_identity p) (ft_daba_combine p) vs w"
    and "window_monoid (ft_daba_identity p) (ft_daba_combine p)"
proof -
  obtain rep where rep: "lawful p" "d = \<lparr>daba_policy = Some p, daba_rep = Some rep\<rparr>" "rep_ok p t vs rep"
    using assms(1) by (rule daba_holdsE)
  have monoid: "window_monoid (ft_daba_identity p) (ft_daba_combine p)" using rep(1) by (simp add: lawful_def)
  obtain at w where w: "rep_window at w rep" "window_monoid.window_holds (ft_daba_identity p) (ft_daba_combine p) vs w"
    using rep(3) unfolding rep_ok_def by blast
  have "ft_daba_lite_validate (Some d) = validate_rep rep (at (win_f w div 64))"
    using w(1) valid by (auto simp: ft_daba_lite_validate_def rep(2) rep_window_def)
  then show thesis using that [OF _ w(2) monoid] validate_rep_correct [OF monoid w(2,1) small] by simp
qed

lemma window_statistics_sizes:
  assumes monoid: "window_monoid one mul" and holds: "window_monoid.window_holds one mul vs w"
  defines "st \<equiv> window_statistics w"
  shows "stat_count st = length vs" and "front_length st + back_length st = length vs"
    and "vs \<noteq> [] \<Longrightarrow> left_length st = right_length st
      \<and> front_length st = back_length st + left_length st + right_length st + accumulator_length st + 1"
    and "allocated_slot_capacity st = 64 * block_count st" and "length vs < allocated_slot_capacity st"
    and "allocated_slot_capacity st \<le> length vs + 127"
proof -
  note order = window_monoid.window_holds_order [OF monoid holds]
  have length: "win_f w + length vs = win_e w" by (rule window_monoid.window_holds_length [OF monoid holds])
  then have ends: "win_f w \<le> win_e w" and count: "win_e w - win_f w = length vs" by simp_all
  show "stat_count st = length vs" "front_length st + back_length st = length vs"
    using order length by (simp_all add: st_def window_statistics_def Let_def)
  show "allocated_slot_capacity st = 64 * block_count st" by (simp add: st_def window_statistics_def Let_def)
  show "length vs < allocated_slot_capacity st" "allocated_slot_capacity st \<le> length vs + 127"
    using block_counts(2,3) [OF ends] unfolding count st_def by (simp_all add: window_statistics_def Let_def del: mult_Suc_right)
  assume "vs \<noteq> []"
  then have "win_f w \<noteq> win_e w" using length by (cases vs) simp_all
  moreover obtain v where "window_monoid.window_inv one mul v w" using holds by (auto simp: window_monoid.window_holds_def [OF monoid])
  ultimately have sizes: "win_r w - win_l w = win_a w - win_r w" "win_l w - win_f w = win_e w - win_b w + 1"
    by (simp_all add: window_monoid.window_inv_def [OF monoid] window_monoid.window_regions_def [OF monoid])
  have "win_b w - win_f w = win_e w - win_b w + (win_r w - win_l w) + (win_a w - win_r w) + (win_b w - win_a w) + 1"
    using sizes(2) order by linarith
  then show "left_length st = right_length st
      \<and> front_length st = back_length st + left_length st + right_length st + accumulator_length st + 1"
    using sizes(1) by (simp add: st_def window_statistics_def Let_def)
qed

section \<open>Properties\<close>

definition empty_sum :: "64 word ft_daba_lite" where
  "empty_sum =
     (let c = \<lparr>cursor_block = Some 2, cursor_index = 0\<rparr>
      in \<lparr>daba_policy = Some sum_policy,
          daba_rep = Some \<lparr>rep_first = Some 2, rep_f = c, rep_l = c, rep_r = c, rep_a = c, rep_b = c, rep_e = c, rep_count = 0,
            rep_stride = 16, aggregate_ra = 0, aggregate_b = 0, rep_blocks = [2 \<mapsto> new_block None]\<rparr>\<rparr>)"

lemma empty_sum_holds: "daba_holds sum_policy 4 [] empty_sum"
proof -
  have one: "ft_daba_identity sum_policy = 0" by (simp add: ft_daba_identity_def sum_policy_def ft_daba_policy_init_def)
  show ?thesis
    unfolding daba_holds_def empty_sum_def Let_def
    by (simp add: lawful_sum, rule rep_ok_fresh [OF lawful_sum, of 2])
      (simp_all add: one ft_daba_multiply_overflows_def SIZE_MAX_def)
qed

lemma sum_policy_valid: "ft_daba_policy_valid (Some sum_policy) = Some 16"
  by (simp add: ft_daba_policy_valid_def sum_policy_def ft_daba_policy_init_def ft_daba_stride_def ft_daba_add_overflows_def
      ft_daba_multiply_overflows_def SIZE_MAX_def)

text \<open>C19: inserting a value appends it to the window, with at most three calls of the combine callback. The only failures are
  \<open>FT_STATUS_OVERFLOW\<close>, exactly when the window has \<open>SIZE_MAX\<close> values, and \<open>FT_STATUS_NO_MEMORY\<close>, when one of the two requests
  for a new block was refused; after a failure the handle, blocks included, is what it was.\<close>

theorem daba_insert_correct:
  assumes "daba_holds p t vs d"
  shows "\<exists>s d' calls t'. ft_daba_lite_insert E t (Some d) (Some x) = Some (s, Some d', calls, t')
    \<and> calls \<le> 3 \<and> t \<le> t' \<and> t' \<le> t + 2
    \<and> (if length vs = SIZE_MAX then s = FT_STATUS_OVERFLOW \<and> d' = d
       else (s = FT_STATUS_OK \<and> daba_holds p t' (vs @ [x]) d')
         \<or> (s = FT_STATUS_NO_MEMORY \<and> d' = d \<and> \<not> (E t \<and> E (t + 1))))"
  by (rule insert_holds [OF assms])

theorem daba_insert_correct_witness:
  "\<exists>d' calls t'. ft_daba_lite_insert (\<lambda>_. True) 4 (Some empty_sum) (Some 7) = Some (FT_STATUS_OK, Some d', calls, t')
    \<and> calls \<le> 3 \<and> daba_holds sum_policy t' [7] d'"
  using daba_insert_correct [OF empty_sum_holds, of "\<lambda>_. True" 7] by (auto simp: SIZE_MAX_def)

text \<open>C20: evicting takes the oldest value from a window that has one, with at most two calls of the combine callback and no memory
  request, and never fails; \<open>ft_daba_lite_try_evict\<close> reports whether there was a value, \<open>ft_daba_lite_evict\<close> answers
  \<open>FT_STATUS_EMPTY\<close> to an empty window and leaves it alone.\<close>

theorem daba_evict_correct:
  assumes "daba_holds p t vs d"
  shows "\<exists>d' calls. ft_daba_lite_try_evict (Some d) True = Some ((FT_STATUS_OK, vs \<noteq> []), Some d', calls)
    \<and> ft_daba_lite_evict (Some d) = Some (if vs = [] then FT_STATUS_EMPTY else FT_STATUS_OK, Some d', calls)
    \<and> daba_holds p t (tl vs) d' \<and> calls \<le> 2 \<and> (vs = [] \<longrightarrow> d' = d)"
  by (rule evict_holds [OF assms])

theorem daba_evict_correct_witness:
  "\<exists>d t d' calls. daba_holds sum_policy t [7] d \<and> ft_daba_lite_evict (Some d) = Some (FT_STATUS_OK, Some d', calls)
    \<and> daba_holds sum_policy t [] d' \<and> calls \<le> 2"
proof -
  obtain d t where d: "daba_holds sum_policy t [7] d"
    using insert_holds [OF empty_sum_holds, of "\<lambda>_. True" 7] by (auto simp: SIZE_MAX_def)
  show ?thesis using daba_evict_correct [OF d] d by fastforce
qed

text \<open>C21: on a new window, and while memory is granted, every sequence of insertions, evictions, clearings and queries is served to
  its end: each request is answered as a list of values would answer it, and a query with the product of the values in the
  window in their order, whatever reversal the window is in the middle of.\<close>

theorem daba_requests_served:
  assumes "lawful p" and "ft_daba_policy_valid (Some p) \<noteq> None" and "\<And>i. E i" and "length rs \<le> SIZE_MAX"
  shows "\<exists>d t' d' t''. ft_daba_lite_create E t True (Some p) = (Inr d, t')
    \<and> perform_all E rs (Some d) t' = Some (answers (ft_daba_identity p) (ft_daba_combine p) [] rs, d', t'')"
proof -
  obtain stride where "ft_daba_policy_valid (Some p) = Some stride" using assms(2) by auto
  then obtain d t' where d: "ft_daba_lite_create E t True (Some p) = (Inr d, t')" "daba_holds p t' [] d"
    using create_correct [OF assms(1), of stride t E] assms(3) by auto
  then show ?thesis using perform_all_correct [OF assms(3) d(2), of rs] assms(4) by auto
qed

theorem daba_requests_served_witness:
  "\<exists>d t' d' t''. ft_daba_lite_create (\<lambda>_. True) 0 True (Some sum_policy) = (Inr d, t')
    \<and> perform_all (\<lambda>_. True) [Insert 3, Insert 4, Aggregate, Evict, Aggregate, Clear, Evict] (Some d) t'
      = Some ([Done FT_STATUS_OK, Done FT_STATUS_OK, Product 7, Done FT_STATUS_OK, Product 4, Done FT_STATUS_OK, Done FT_STATUS_EMPTY], d', t'')"
proof -
  have ops: "ft_daba_identity sum_policy = 0" "ft_daba_combine sum_policy = (+)"
    by (simp_all add: ft_daba_identity_def ft_daba_combine_def sum_policy_def ft_daba_policy_init_def fun_eq_iff)
  show ?thesis
    using daba_requests_served [OF lawful_sum, of "\<lambda>_. True" "[Insert 3, Insert 4, Aggregate, Evict, Aggregate, Clear, Evict]" 0]
    by (simp add: sum_policy_valid SIZE_MAX_def ops)
qed

text \<open>C22: the structural validator accepts every window the operations build, and the statistics it computes obey the equations of
  the algorithm: the two halves of the reversal are of one length, the processed front is ahead of the back by the slots left to
  process, and at least one and at most 127 of the slots of the chain are free.\<close>

theorem daba_validator_accepts:
  assumes "daba_holds p t vs d" and "ft_daba_policy_valid (Some p) \<noteq> None" and "length vs + 128 \<le> SIZE_MAX"
  shows "\<exists>st. ft_daba_lite_validate (Some d) = Some (Some st) \<and> stat_count st = length vs
    \<and> front_length st + back_length st = length vs
    \<and> (vs \<noteq> [] \<longrightarrow> left_length st = right_length st
         \<and> front_length st = back_length st + left_length st + right_length st + accumulator_length st + 1)
    \<and> allocated_slot_capacity st = 64 * block_count st
    \<and> length vs < allocated_slot_capacity st \<and> allocated_slot_capacity st \<le> length vs + 127"
proof -
  obtain w where w: "ft_daba_lite_validate (Some d) = Some (Some (window_statistics w))"
    "window_monoid.window_holds (ft_daba_identity p) (ft_daba_combine p) vs w"
    "window_monoid (ft_daba_identity p) (ft_daba_combine p)"
    using assms by (rule validate_holds)
  show ?thesis using w(1) window_statistics_sizes [OF w(3,2)] by blast
qed

theorem daba_validator_accepts_witness:
  "\<exists>st. ft_daba_lite_validate (Some empty_sum) = Some (Some st) \<and> allocated_slot_capacity st \<le> 127"
  using daba_validator_accepts [OF empty_sum_holds] by (auto simp: sum_policy_valid SIZE_MAX_def)

end
