(* ===== verification/Spec2Isabelle.thy ===== *)
theory Spec2Isabelle
  imports Hamt_Bi_Map_Properties Hamt_Bag_Properties Hamt_Patch_Properties Hamt_Session Patricia_Properties Daba_Properties
begin

text \<open>
  A verification of the persistent hash structures of Durable7 written in C (\<open>src/src/C/Hamt\<close>) and of its sliding-window aggregate
  (\<open>src/src/C/FingerTree/src/daba_lite.c\<close>).

  \<^bold>\<open>The program.\<close> \<open>hamt.c\<close> implements a persistent hash map as a hash array mapped trie: leaves,
  collision buckets of keys with one 32-bit hash, and bitmap-indexed branches that keep inline entries
  and children in two dense arrays. Tries are kept in canonical form. On the map rest the hash set, the
  combination of two maps or sets (union, intersection, difference, symmetric difference), equality,
  structural difference, iterators, and edit sessions (\<open>transients\<close>) shared by reference-counted
  handles. \<open>persistent_bi_map.c\<close> keeps two such maps inverse to each other; \<open>persistent_hash_bag.c\<close> is a multiset: a map
  from items to 32-bit multiplicities with a 64-bit total; \<open>persistent_map_patch.c\<close> records changes of a map that can be
  applied, inverted and composed. Keys and values are untyped
  pointers; hashing, equality, copying and releasing are callbacks of a policy. \<open>patricia.c\<close> is independent of the
  hash map: big-endian radix trees whose keys are signed integers of 32 or 64 bits, with maps, sets and gap cursors.
  \<open>daba_lite.c\<close> is independent of both and mutable: it keeps a window of values of a monoid in a chain of blocks of 64 slots and
  maintains the product of the window under insertion and eviction by DABA Lite, an incremental reversal with constantly many calls of the monoid.

  \<^bold>\<open>How it is modelled.\<close> A pointer to a trie node is the value of the node together with its address,
  so that pointer comparisons of the code are comparisons of addresses; \<open>heap\<close> (\<open>Hamt_Node\<close>) says that one address
  names one node and that addresses already given out lie below the clock. An operation is an \<open>act\<close>
  (Prelude): a function of the environment, which says for each memory request whether it is granted, and
  of the number of requests made so far, returning a failure or a result and the new number. Failures are the status codes of
  \<open>hamt.h\<close>, or \<open>Fault\<close> where the code would read outside an array, through a null pointer or after a
  free. \<open>achieves\<close> is the triple of the development: an operation returns a result that satisfies the
  postcondition, or reports \<open>D7_HAMT_OUT_OF_MEMORY\<close> after a request that was in fact refused; it excludes \<open>Fault\<close>. Output
  parameters are results; a null output handle is the argument \<open>result = False\<close>; a flag \<open>aliased\<close> marks a result handle
  that is the source handle, where a borrowed output is cleared.

  \<^bold>\<open>The theories.\<close>
  \<^item> Prelude: statuses, acts, the triples and generic list lemmas. Bitmap: \<open>d7_hamt_popcount\<close>,
    \<open>d7_hamt_slot\<close>, \<open>d7_hamt_index\<close> on 32-bit words, and dense arrays indexed by bitmaps.
  \<^item> \<open>Hamt_Policy\<close>: policies, their normalisation and the contract \<open>hamt_policy\<close> (key equality is an
    equivalence that the hash respects; copies are related to their originals).
  \<^item> \<open>Hamt_Node\<close>: nodes, creation, lookup, well-formedness \<open>wf_node\<close>. \<open>Hamt_Update\<close> and \<open>Hamt_Insert\<close>: insertion
    (\<open>d7_hamt_node_set\<close>, \<open>d7_hamt_merge_hash_nodes\<close>) and its correctness. \<open>Hamt_Remove\<close>: removal and canonical rebuilding.
  \<^item> \<open>Hamt_Map\<close>: handles and single-key operations; \<open>map_ok\<close> is the invariant of a handle, \<open>map_entry\<close> its contents.
    \<open>Hamt_Map_Properties\<close> holds their properties.
  \<^item> \<open>Hamt_Combine\<close> and \<open>Hamt_Algebra\<close>: structural combination of two tries and of two handles.
    \<open>Hamt_Iterator\<close>: the iterator with its stack of frames. \<open>Hamt_Compare\<close>: equality, topology comparison and
    the validator. \<open>Hamt_Diff\<close>: structural difference. \<open>Hamt_Canonical_Properties\<close>: properties
    that rest on canonical form.
  \<^item> \<open>Hamt_Set\<close> and \<open>Hamt_Set_Properties\<close>: the hash set with its operations on sets and on arrays.
  \<^item> \<open>Hamt_Transient\<close> and \<open>Hamt_Session\<close>: edit sessions, their step relation, reachability and invariant.
  \<^item> \<open>Hamt_Factory\<close> and \<open>Hamt_Factory_Update\<close>: \<open>d7_hamt_map_get_or_add\<close> and \<open>d7_hamt_map_add_or_update\<close>,
    shown equivalent to a lookup, a choice and an insertion.
  \<^item> \<open>Hamt_Client\<close>: the contract \<open>hash_map_client\<close> the hash map offers to the structures built on it, and its
    discharge by the model. \<open>Hamt_Bi_Map\<close> and \<open>Hamt_Bi_Map_Properties\<close>: the bidirectional map, proved from that contract.
  \<^item> \<open>Machine_Int\<close>: signed integers whose overflow is a \<open>Fault\<close>, and the triple \<open>yields\<close> for operations that may report
    \<open>D7_HAMT_OVERFLOW\<close>. \<open>Hamt_Bag\<close>, \<open>Hamt_Bag_Spec\<close> and \<open>Hamt_Bag_Properties\<close>: the operations of the bag, the client of the
    map contract that refines them to multisets of key classes, and the properties.
  \<^item> \<open>Hamt_Patch\<close>: all of \<open>persistent_map_patch.c\<close>. \<open>Hamt_Patch_Spec\<close>: the algebra of abstract patches, the contract \<open>map_patch_policy\<close> of the
    policies of keys and values, and the operations on patches as operations of the algebra. \<open>Hamt_Patch_Apply\<close>: patches and maps (\<open>map_patch_target\<close>),
    application and the patch between two maps. \<open>Hamt_Patch_Properties\<close>: the properties.
  \<^item> Patricia: all of \<open>patricia.c\<close>; what a macro instantiates for two key types is one definition with the encoding as an argument.
    \<open>Patricia_Node\<close>: masks and prefixes as bit positions, contents \<open>pmap\<close>, invariant \<open>pat_wf\<close>, search. \<open>Patricia_Update\<close>: the policy contract
    \<open>patricia_values\<close>, insertion and removal. \<open>Patricia_Combine\<close>: union, intersection and difference as pointwise operations.
    \<open>Patricia_Order\<close>: the leaves are sorted by path. \<open>Patricia_Keys\<close>: the two encodings keep the signed order (\<open>key_encoding\<close>). \<open>Patricia_Map\<close> and
    \<open>Patricia_Cursor\<close>: handles and cursors under both contracts (\<open>patricia_collection\<close>), interpreted for 32 and for 64 bits.
    \<open>Patricia_Properties\<close>: the properties.
  \<^item> Daba: all of \<open>daba_lite.c\<close>, over a store from addresses to blocks; the number of calls of the combine callback is part of the results.
    \<open>Daba_Window\<close>: the algorithm on slot numbers, its invariant and its steps under the contract \<open>window_monoid\<close>.
    \<open>Daba_Chain\<close>: cursors and slots of a chain of blocks as slot numbers; growing, trimming and destroying chains. \<open>Daba_Fixup\<close>: the staged
    fixup implements the one on slot numbers, within the scratch pool. \<open>Daba_Spec\<close>: the operations refine a sequence of values.
    \<open>Daba_Validate\<close>: the loops of the validator. \<open>Daba_Properties\<close>: two policies, for which the contract is interpreted, sequences of requests, the properties.

  \<^bold>\<open>What is shown.\<close> Every operation of the map changes exactly the binding it names, keeps tries canonical, fails
  only when memory is refused and never faults; canonical form makes the shape of a trie a function of its keys;
  combination, difference, equality and iteration agree with their readings on the contents; sets compute
  the operations on sets of key classes; in every reachable world of sessions the reference counts
  are exact, no handle dangles, a published session holds no trie and stays consumed; a session publishes what the persistent operations would
  have built, request by request; a bidirectional map is a bijection between key and value classes; a bag is a multiset, and
  reports overflow exactly when a multiplicity or the total no longer fits; a patch applies completely or not at all, the patch between two maps
  carries one to the other, inversion undoes it and composition is application in sequence; a Patricia map is a partial function on
  signed integers, ordered by them, and its cursors refine a gap in the sorted list of entries; a sliding window is a queue whose
  aggregate is the product of its values in order, within the documented numbers of calls of combine, and destroying or clearing it frees every block.

  \<^bold>\<open>Bounds.\<close> Recursion on tries is structural or bounded by the shift (the code stops at 32, with five bits a level). The
  mask of a Patricia branch is one of 64 bits and decreases on the way down. The iterator's seven frames suffice for a well-formed trie. The version of a session wraps at 64 bits, which
  the property about iterators states. Loops are total functions, so no fuel is used; only the loops over
  a chain of blocks, which an ill-formed chain would not end, are partial, and they are shown to return on every window.

  \<^bold>\<open>Not modelled.\<close> Reference counts of nodes and the release callbacks (nodes are values here; releasing has
  no effect on contents), the reference counts of the policy state of a bidirectional map and of the context of a patch, the guards against
  overflow of \<open>size_t\<close> in allocation sizes (a request that is too large is a request that is
  refused), the allocation hooks for tests; of the Patricia tree, its node counts in \<open>size_t\<close> are natural numbers; of the sliding window, the bytes of its
  values and the destroy callback (values are abstract, and a slot without a value is \<open>None\<close>). Of the other C libraries, the
  multimap, relation, graph, indexed map, the Merkle search tree, the rest of the finger tree family and the ordered
  collections are listed in the manifest with their status.
\<close>

end
